(* ===== verification/C_Base.thy ===== *)
theory C_Base
  imports
    Main
    "HOL-Library.Word"
    "HOL-Library.Monad_Syntax"
    "HOL-Library.Signed_Division"
begin

unbundle bit_operations_syntax

text \<open>
  The prelude of the development: what the C sources take from the language and
  its standard library, and the lemmas that every component shares.

  A C object of bytes is the list of the bytes that may be accessed; a pointer
  into it is an offset. Every access that C leaves undefined (an access outside
  the object, a division by zero, a missing string terminator) is the value
  \<^term>\<open>None\<close> of the result, so ``the operation is memory safe'' is a statement
  of the form \<open>\<exists>r. f x = Some r\<close>. Sequencing is the option monad.
  \<^item> \<open>mem_read\<close>, \<open>mem_write\<close>: a block read and a block write (\<open>memcpy\<close>);
  \<^item> \<open>read_at\<close>, \<open>write_at\<close>: one element;
  \<^item> \<open>cstr\<close>: the characters a C string pointer designates, up to its terminator;
  \<^item> \<open>uchar\<close>: conversion of an \<open>int\<close> to \<open>unsigned char\<close>.
  C's truncating \<open>/\<close> and \<open>%\<close> on \<open>int\<close> are \<open>sdiv\<close> and \<open>smod\<close> of
  HOL-Library.Signed_Division.
\<close>

section \<open>Types and collections\<close>

type_synonym byte = "8 word"
type_synonym bytes = "8 word list"

named_theorems c_mem \<open>evaluation rules of the memory operations\<close>
named_theorems c_bind \<open>destruction rules for the option monad\<close>

section \<open>The option monad\<close>

lemma bind_Some_iff [c_bind]:
  "Option.bind m f = Some y \<longleftrightarrow> (\<exists>x. m = Some x \<and> f x = Some y)"
  by (cases m) auto

lemma bind_SomeI: "m = Some x \<Longrightarrow> f x = r \<Longrightarrow> Option.bind m f = r"
  by simp

lemma bind_exI: "\<exists>x. m = Some x \<and> (\<exists>y. f x = Some y) \<Longrightarrow> \<exists>y. Option.bind m f = Some y"
  by auto

text \<open>A computation returns, with a result that satisfies \<open>Q\<close>; the rules follow the structure of the code.\<close>

definition returns :: "'a option \<Rightarrow> ('a \<Rightarrow> bool) \<Rightarrow> bool" where
  "returns m Q \<longleftrightarrow> (\<exists>x. m = Some x \<and> Q x)"

lemma returns_Some [simp]: "returns (Some x) Q \<longleftrightarrow> Q x"
  by (simp add: returns_def)

lemma returns_bind: "returns m R \<Longrightarrow> (\<And>x. R x \<Longrightarrow> returns (f x) Q) \<Longrightarrow> returns (Option.bind m f) Q"
  by (auto simp: returns_def)

lemma returns_weaken: "returns m R \<Longrightarrow> (\<And>x. R x \<Longrightarrow> Q x) \<Longrightarrow> returns m Q"
  by (auto simp: returns_def)

lemma returnsE: "returns m Q \<Longrightarrow> (\<And>x. m = Some x \<Longrightarrow> Q x \<Longrightarrow> thesis) \<Longrightarrow> thesis"
  by (auto simp: returns_def)

lemma if_Some_iff [c_bind]:
  "(if b then m else None) = Some y \<longleftrightarrow> b \<and> m = Some y"
  by simp

section \<open>Byte objects\<close>

definition read_at :: "'a list \<Rightarrow> nat \<Rightarrow> 'a option" where
  "read_at buf i = (if i < length buf then Some (buf ! i) else None)"

definition write_at :: "'a list \<Rightarrow> nat \<Rightarrow> 'a \<Rightarrow> 'a list option" where
  "write_at buf i x = (if i < length buf then Some (buf[i := x]) else None)"

definition mem_read :: "'a list \<Rightarrow> nat \<Rightarrow> nat \<Rightarrow> 'a list option" where
  "mem_read buf off n = (if off + n \<le> length buf then Some (take n (drop off buf)) else None)"

definition mem_write :: "'a list \<Rightarrow> nat \<Rightarrow> 'a list \<Rightarrow> 'a list option" where
  "mem_write buf off src =
     (if off + length src \<le> length buf
      then Some (take off buf @ src @ drop (off + length src) buf) else None)"

lemma read_at_Some [c_mem]: "read_at buf i = Some x \<longleftrightarrow> i < length buf \<and> x = buf ! i"
  by (auto simp: read_at_def)

lemma read_at_None [c_mem]: "read_at buf i = None \<longleftrightarrow> length buf \<le> i"
  by (auto simp: read_at_def)

lemma mem_read_Some [c_mem]:
  "mem_read buf off n = Some x \<longleftrightarrow> off + n \<le> length buf \<and> x = take n (drop off buf)"
  by (auto simp: mem_read_def)

lemma mem_read_length: "mem_read buf off n = Some x \<Longrightarrow> length x = n"
  by (auto simp: mem_read_def split: if_splits)

lemma mem_write_length [c_mem]: "mem_write buf off src = Some buf' \<Longrightarrow> length buf' = length buf"
  by (auto simp: mem_write_def split: if_splits)

lemma mem_write_fits: "mem_write buf off src = Some buf' \<Longrightarrow> off + length src \<le> length buf"
  by (auto simp: mem_write_def split: if_splits)

lemma mem_write_Some_iff:
  "(\<exists>buf'. mem_write buf off src = Some buf') \<longleftrightarrow> off + length src \<le> length buf"
  by (auto simp: mem_write_def)

lemma mem_write_Nil [simp]: "off \<le> length buf \<Longrightarrow> mem_write buf off [] = Some buf"
  by (simp add: mem_write_def)

lemma write_at_mem_write: "write_at buf i x = mem_write buf i [x]"
proof (cases "i < length buf")
  case True
  then have "buf[i := x] = take i buf @ x # drop (Suc i) buf"
    by (rule upd_conv_take_nth_drop)
  with True show ?thesis by (simp add: write_at_def mem_write_def)
qed (simp add: write_at_def mem_write_def)

text \<open>Two adjacent block writes are one: the rule that turns a sequence of writes of a
  serialiser into a single write of the bytes it produces.\<close>

lemma mem_write_append:
  "Option.bind (mem_write buf off xs) (\<lambda>b. mem_write b (off + length xs) ys) =
     mem_write buf off (xs @ ys)"
  by (auto simp: mem_write_def ac_simps)

lemma mem_write_at:
  assumes "length src = length mid"
  shows "mem_write (xs @ mid @ ys) (length xs) src = Some (xs @ src @ ys)"
  using assms by (simp add: mem_write_def)

lemma mem_write_nth:
  assumes "mem_write buf off src = Some buf'" and "i < length buf"
  shows "buf' ! i = (if off \<le> i \<and> i < off + length src then src ! (i - off) else buf ! i)"
  using assms by (auto simp: mem_write_def nth_append min_def split: if_splits)

lemma mem_read_write_same:
  "mem_write buf off src = Some buf' \<Longrightarrow> mem_read buf' off (length src) = Some src"
  by (auto simp: mem_write_def mem_read_def split: if_splits)

lemma mem_write_prefix:
  "mem_write buf 0 src = Some buf' \<Longrightarrow> take (length src) buf' = src"
  by (auto simp: mem_write_def split: if_splits)

lemma mem_write_zero:
  "mem_write buf 0 src = (if length src \<le> length buf then Some (src @ drop (length src) buf) else None)"
  by (simp add: mem_write_def)

text \<open>The view of a reader: what lies ahead of the offset \<open>p\<close>.\<close>

lemma drop_ConsD:
  assumes "drop p buf = x # xs"
  shows "p < length buf" and "buf ! p = x" and "drop (Suc p) buf = xs"
proof -
  show "p < length buf" using assms by (metis drop_all list.distinct(1) not_le)
  then show "buf ! p = x" and "drop (Suc p) buf = xs"
    using assms Cons_nth_drop_Suc [of p buf] by auto
qed

lemma read_at_ahead: "drop p buf = x # xs \<Longrightarrow> read_at buf p = Some x"
  by (simp add: read_at_def drop_ConsD)

lemma drop_appendD:
  assumes "drop p buf = xs @ ys"
  shows "drop (p + length xs) buf = ys"
proof -
  have "drop (p + length xs) buf = drop (length xs) (drop p buf)" by (simp add: add.commute)
  also have "\<dots> = ys" using assms by simp
  finally show ?thesis .
qed

lemma length_ahead: "drop p buf = xs \<Longrightarrow> p \<le> length buf \<Longrightarrow> length buf = p + length xs"
  by auto

section \<open>C strings and integers\<close>

text \<open>The characters before the first terminator; undefined without one.\<close>

definition cstr :: "bytes \<Rightarrow> bytes option" where
  "cstr mem = (if 0 \<in> set mem then Some (takeWhile (\<lambda>c. c \<noteq> 0) mem) else None)"

definition uchar :: "int \<Rightarrow> byte" where
  "uchar n = word_of_int n"

text \<open>The decimal digits that \<open>printf\<close> writes for a number.\<close>

fun dec_digits :: "nat \<Rightarrow> bytes" where
  "dec_digits n = (if n < 10 then [word_of_nat (48 + n)] else dec_digits (n div 10) @ [word_of_nat (48 + n mod 10)])"

declare dec_digits.simps [simp del]

text \<open>Zeros in front, up to a minimal width.\<close>

definition pad_zero :: "nat \<Rightarrow> bytes \<Rightarrow> bytes" where
  "pad_zero w ds = replicate (w - length ds) 48 @ ds"

text \<open>The value of a plain \<open>char\<close> as an \<open>int\<close>; whether it is signed is the implementation's choice
  and a parameter \<open>schar\<close> of the operations that depend on it.\<close>

definition char_int :: "bool \<Rightarrow> byte \<Rightarrow> int" where
  "char_int schar b = (if schar then sint b else uint b)"

lemma takeWhile_append_stop: "\<forall>x \<in> set xs. P x \<Longrightarrow> \<not> P y \<Longrightarrow> takeWhile P (xs @ y # ys) = xs"
  by (induction xs) auto

lemma cstr_terminated [c_mem]: "0 \<notin> set s \<Longrightarrow> cstr (s @ 0 # rest) = Some s"
  by (auto simp: cstr_def intro!: takeWhile_append_stop)

lemma cstr_split: "cstr blk = Some s \<Longrightarrow> \<exists>r. blk = s @ 0 # r"
proof -
  assume "cstr blk = Some s"
  then have "s = takeWhile (\<lambda>c. c \<noteq> 0) blk" "0 \<in> set blk" by (auto simp: cstr_def split: if_splits)
  then show ?thesis using takeWhile_dropWhile_id [of "\<lambda>c. c \<noteq> 0" blk] hd_dropWhile [of "\<lambda>c. c \<noteq> 0" blk]
    by (metis (mono_tags, lifting) dropWhile_eq_Nil_conv list.collapse)
qed

lemma cstr_no_zero: "cstr mem = Some s \<Longrightarrow> 0 \<notin> set s"
  by (auto simp: cstr_def dest: set_takeWhileD split: if_splits)

lemma uchar_unat [simp]: "uchar (int (unat b)) = b"
  by (simp add: uchar_def)

lemma unat_uchar: "unat (uchar n) = nat (n mod 256)"
  by (simp add: uchar_def unat_eq_nat_uint uint_word_of_int)

lemma byte_bound [simp]: "unat (b :: byte) < 256"
  using unsigned_less [of b] by simp

lemma u16_bound [simp]: "unat (w :: 16 word) < 65536"
  using unsigned_less [of w] by simp

lemma uint_u16_bound [simp]: "uint (w :: 16 word) < 65536"
  by (rule order_less_le_trans [OF unsigned_less]) simp

lemma unat_u16_of_int: "0 \<le> n \<Longrightarrow> n < 65536 \<Longrightarrow> unat (word_of_int n :: 16 word) = nat n"
  by (simp add: unat_eq_nat_uint uint_word_of_int)

lemma unat_u16_of_nat: "n < 65536 \<Longrightarrow> unat (word_of_nat n :: 16 word) = n"
  by (simp add: unat_of_nat take_bit_nat_def)

lemma uint_byte_bound [simp]: "uint (b :: byte) < 256"
  by (rule order_less_le_trans [OF unsigned_less]) simp

text \<open>On non-negative arguments the truncating division of C is the mathematical one.\<close>

lemma sdiv_nonneg: "0 \<le> a \<Longrightarrow> 0 < b \<Longrightarrow> a sdiv b = a div b" for a b :: int
  by (simp add: signed_divide_int_def sgn_if)

lemma smod_nonneg: "0 \<le> a \<Longrightarrow> 0 < b \<Longrightarrow> a smod b = a mod b" for a b :: int
  by (cases "a = 0") (simp_all add: signed_modulo_int_def sgn_if)

lemma sdiv_pos_nonneg: "0 < a sdiv b \<Longrightarrow> 0 < b \<Longrightarrow> 0 \<le> a" for a b :: int
  by (rule ccontr)
    (auto simp: signed_divide_int_def sgn_if zero_less_mult_iff neg_0_less_iff_less pos_imp_zdiv_neg_iff
      split: if_splits)

section \<open>Bits of a byte\<close>

lemma unat_and_127 [simp]: "unat ((c :: byte) AND 127) = unat c mod 128"
proof -
  have "c AND 127 = take_bit 7 c" by (simp add: take_bit_eq_mask mask_eq_exp_minus_1)
  then have "unat (c AND 127) = take_bit 7 (unat c)" by (simp add: unsigned_take_bit_eq)
  then show ?thesis by (simp add: take_bit_eq_mod)
qed

lemma and_128: "(c :: byte) AND 128 \<noteq> 0 \<longleftrightarrow> 128 \<le> unat c"
proof -
  have "unat c div 128 < 2" using byte_bound [of c] by linarith
  then have "odd (unat c div 128) \<longleftrightarrow> unat c div 128 = 1" by (auto simp: less_2_cases_iff)
  moreover have "bit c 7 = bit (unat c) 7" by (simp add: bit_unsigned_iff)
  moreover have "unat c div 128 = 1 \<longleftrightarrow> 128 \<le> unat c" using byte_bound [of c] by linarith
  moreover have "c AND 128 \<noteq> 0 \<longleftrightarrow> bit c 7" using and_exp_eq_0_iff_not_bit [of c 7] by simp
  ultimately show ?thesis by (simp add: bit_iff_odd)
qed

lemma unat_or_128: "unat (d :: byte) < 128 \<Longrightarrow> unat (d OR 128) = unat d + 128"
proof -
  assume a: "unat d < 128"
  then have "d AND 128 = 0" using and_128 [of d] by linarith
  then have "d OR 128 = d + 128" by (simp add: disjunctive_add_eq_or)
  with a show ?thesis by (simp add: unat_word_ariths)
qed

lemma char_int_ascii:
  assumes "unat b < 128"
  shows "char_int schar b = int (unat b)"
proof -
  have u: "uint b = int (unat b)" by simp
  have "sint b = signed_take_bit 7 (uint b)" by (simp add: sint_uint)
  also have "\<dots> = uint b"
  proof (rule signed_take_bit_int_eq_self)
    have "int (unat b) < 128" using assms by linarith
    then show "uint b < 2 ^ 7" unfolding u by simp
    have "- 128 \<le> int (unat b)" by linarith
    then show "- (2 ^ 7) \<le> uint b" unfolding u by simp
  qed
  finally show ?thesis by (simp add: char_int_def)
qed

section \<open>Comparing memory\<close>

text \<open>\<open>strncmp\<close> and \<open>memcmp\<close> on the bytes readable from two pointers; \<^term>\<open>None\<close> when the
  comparison has to look past the end of one of them.\<close>

fun strncmp :: "bytes \<Rightarrow> bytes \<Rightarrow> nat \<Rightarrow> int option" where
  "strncmp a b 0 = Some 0"
| "strncmp (x # a) (y # b) (Suc n) =
     (if x \<noteq> y then Some (uint x - uint y) else if x = 0 then Some 0 else strncmp a b n)"
| "strncmp _ _ (Suc n) = None"

fun memcmp :: "bytes \<Rightarrow> bytes \<Rightarrow> nat \<Rightarrow> int option" where
  "memcmp a b 0 = Some 0"
| "memcmp (x # a) (y # b) (Suc n) = (if x \<noteq> y then Some (uint x - uint y) else memcmp a b n)"
| "memcmp _ _ (Suc n) = None"

lemma strncmp_take:
  assumes "n \<le> length a" and "n \<le> length b" and "0 \<notin> set (take n b)"
  shows "\<exists>r. strncmp a b n = Some r \<and> (r = 0 \<longleftrightarrow> take n a = take n b)"
  using assms
proof (induction a b n rule: strncmp.induct)
  case (2 x a y b n)
  then show ?case by (cases "x = y") (auto dest: unsigned_word_eqI)
qed auto

lemma memcmp_take:
  assumes "n \<le> length a" and "n \<le> length b"
  shows "\<exists>r. memcmp a b n = Some r \<and> (r = 0 \<longleftrightarrow> take n a = take n b)"
  using assms
proof (induction a b n rule: memcmp.induct)
  case (2 x a y b n)
  then show ?case by (cases "x = y") (auto dest: unsigned_word_eqI)
qed auto

end
