(* ===== verification/Ring_Buffer.thy ===== *)
theory Ring_Buffer
  imports C_Base
begin

text \<open>
  The byte queue of \<open>src/data/ringbuffer.c\<close> (heap variant, without
  \<open>RING_BUFFER_ARRAY\<close>). \<open>total\<close>, \<open>size\<close> and \<open>shift\<close> keep their
  16-bit width; the buffer is the block that \<open>malloc\<close> returned, \<^term>\<open>None\<close> for a
  null pointer. The \<open>len\<close> arguments are C \<open>int\<close>s. The locale \<open>byte_fifo\<close> states
  the contract the HTTP client relies on: a bounded first-in first-out queue of bytes.
\<close>

section \<open>The structure and its operations\<close>

record ring_buffer_t =
  rb_buffer :: "bytes option"
  rb_total :: "16 word"
  rb_size :: "16 word"
  rb_shift :: "16 word"

text \<open>The block argument is what \<open>malloc(size)\<close> returns.\<close>

definition ringbuf_init :: "bytes option \<Rightarrow> ring_buffer_t \<Rightarrow> int \<Rightarrow> int \<times> ring_buffer_t" where
  "ringbuf_init block buf sz =
     (let buf = buf\<lparr>rb_buffer := block\<rparr>
      in case block of
           None \<Rightarrow> (-1, buf)
         | Some m \<Rightarrow> (0, buf\<lparr>rb_shift := 0, rb_size := 0, rb_total := word_of_int sz\<rparr>))"

text \<open>After \<open>free\<close> no byte of the block may be accessed: the dangling pointer designates
  an object of no bytes.\<close>

definition ringbuf_free :: "ring_buffer_t \<Rightarrow> ring_buffer_t" where
  "ringbuf_free buf =
     buf\<lparr>rb_buffer := map_option (\<lambda>_. []) (rb_buffer buf),
         rb_size := 0, rb_shift := 0, rb_total := 0\<rparr>"

definition ringbuf_capacity :: "ring_buffer_t \<Rightarrow> 16 word" where
  "ringbuf_capacity buf = rb_total buf - 1 - rb_size buf"

definition ringbuf_size :: "ring_buffer_t \<Rightarrow> 16 word" where
  "ringbuf_size buf = rb_size buf"

definition ringbuf_clear :: "ring_buffer_t \<Rightarrow> (int \<times> ring_buffer_t) option" where
  "ringbuf_clear buf = do {
     m \<leftarrow> rb_buffer buf;
     m \<leftarrow> write_at m 0 0;
     Some (0, buf\<lparr>rb_buffer := Some m, rb_size := 0, rb_shift := 0\<rparr>)
   }"

definition ringbuf_push :: "ring_buffer_t \<Rightarrow> bytes \<Rightarrow> int \<Rightarrow> (int \<times> ring_buffer_t) option" where
  "ringbuf_push buf s len = do {
     len \<leftarrow> (if len = 0 then map_option (int \<circ> length) (cstr s) else Some len);
     if int (unat (ringbuf_capacity buf)) < len then Some (-1, buf)
     else if len < 0 \<or> rb_total buf = 0 then None
     else do {
       m \<leftarrow> rb_buffer buf;
       let wr = (unat (rb_shift buf) + unat (rb_size buf)) mod unat (rb_total buf);
       let till_border = unat (rb_total buf) - wr;
       m \<leftarrow> (if till_border < nat len then do {
               xs \<leftarrow> mem_read s 0 till_border;
               m \<leftarrow> mem_write m wr xs;
               ys \<leftarrow> mem_read s till_border (nat len - till_border);
               mem_write m 0 ys
             } else do {
               xs \<leftarrow> mem_read s 0 (nat len);
               mem_write m wr xs
             });
       Some (0, buf\<lparr>rb_buffer := Some m, rb_size := rb_size buf + word_of_int len\<rparr>)
     }
   }"

definition ringbuf_strcat :: "ring_buffer_t \<Rightarrow> bytes \<Rightarrow> (int \<times> ring_buffer_t) option" where
  "ringbuf_strcat buf str = do {
     s \<leftarrow> cstr str;
     ringbuf_push buf str (int (length s))
   }"

text \<open>The second component is the destination object, updated in place.\<close>

definition ringbuf_pop ::
    "ring_buffer_t \<Rightarrow> bytes \<Rightarrow> int \<Rightarrow> (int \<times> bytes \<times> ring_buffer_t) option" where
  "ringbuf_pop buf s len =
     (if int (unat (ringbuf_size buf)) < len then Some (-1, s, buf)
      else if len < 0 \<or> rb_total buf = 0 then None
      else do {
        m \<leftarrow> rb_buffer buf;
        let till_border = unat (rb_total buf) - unat (rb_shift buf);
        s \<leftarrow> (if till_border < nat len then do {
                xs \<leftarrow> mem_read m (unat (rb_shift buf)) till_border;
                s \<leftarrow> mem_write s 0 xs;
                ys \<leftarrow> mem_read m 0 (nat len - till_border);
                mem_write s till_border ys
              } else do {
                xs \<leftarrow> mem_read m (unat (rb_shift buf)) (nat len);
                mem_write s 0 xs
              });
        Some (0, s, buf\<lparr>rb_shift := word_of_nat ((unat (rb_shift buf) + nat len) mod unat (rb_total buf)),
                        rb_size := rb_size buf - word_of_int len\<rparr>)
      })"

section \<open>Invariant and contents\<close>

definition rb_inv :: "ring_buffer_t \<Rightarrow> bool" where
  "rb_inv b \<longleftrightarrow>
     (case rb_buffer b of None \<Rightarrow> False | Some m \<Rightarrow> length m = unat (rb_total b)) \<and>
     rb_shift b < rb_total b \<and> rb_size b < rb_total b"

definition ring_slice :: "'a list \<Rightarrow> nat \<Rightarrow> nat \<Rightarrow> 'a list" where
  "ring_slice m sh n = map (\<lambda>i. m ! ((sh + i) mod length m)) [0..<n]"

definition rb_contents :: "ring_buffer_t \<Rightarrow> bytes" where
  "rb_contents b =
     (case rb_buffer b of None \<Rightarrow> []
      | Some m \<Rightarrow> ring_slice m (unat (rb_shift b)) (unat (rb_size b)))"

lemma length_ring_slice [simp]: "length (ring_slice m sh n) = n"
  by (simp add: ring_slice_def)

lemma nth_ring_slice [simp]:
  "i < n \<Longrightarrow> ring_slice m sh n ! i = m ! ((sh + i) mod length m)"
  by (simp add: ring_slice_def)

lemma rb_invE:
  assumes "rb_inv b"
  obtains m where "rb_buffer b = Some m" and "length m = unat (rb_total b)"
    and "unat (rb_shift b) < unat (rb_total b)" and "unat (rb_size b) < unat (rb_total b)"
    and "rb_total b \<noteq> 0"
  using assms by (cases "rb_total b = 0") (auto simp: rb_inv_def word_less_nat_alt split: option.splits)

lemma length_rb_contents [simp]: "rb_inv b \<Longrightarrow> length (rb_contents b) = unat (rb_size b)"
  by (auto simp: rb_contents_def elim: rb_invE)

lemma unat_capacity:
  assumes "rb_inv b"
  shows "unat (ringbuf_capacity b) = unat (rb_total b) - 1 - unat (rb_size b)"
proof -
  from assms have lt: "unat (rb_size b) < unat (rb_total b)" by (auto elim: rb_invE)
  then have "unat (rb_total b - 1) = unat (rb_total b) - 1"
    by (subst unat_sub) (auto simp: word_le_nat_alt)
  with lt show ?thesis
    unfolding ringbuf_capacity_def by (subst unat_sub) (auto simp: word_le_nat_alt)
qed

section \<open>Wrapped block copies\<close>

text \<open>The two \<open>memcpy\<close> calls of \<open>ringbuf_push\<close> write a block around the border; the two
  of \<open>ringbuf_pop\<close> read one.\<close>

lemma mod_wrap: "wr < n \<Longrightarrow> j < n \<Longrightarrow> (wr + j) mod n = (if wr + j < n then wr + j else wr + j - n)"
  for wr j n :: nat
  by (auto simp: mod_if)

lemma ring_write:
  fixes m :: "'a list"
  assumes n: "length m = n" and wr: "wr < n" and len: "length xs \<le> n"
  obtains m' where
    "(if n - wr < length xs
      then Option.bind (mem_write m wr (take (n - wr) xs)) (\<lambda>m. mem_write m 0 (drop (n - wr) xs))
      else mem_write m wr xs) = Some m'"
    and "length m' = n"
    and "\<And>j. j < length xs \<Longrightarrow> m' ! ((wr + j) mod n) = xs ! j"
    and "\<And>j. length xs \<le> j \<Longrightarrow> j < n \<Longrightarrow> m' ! ((wr + j) mod n) = m ! ((wr + j) mod n)"
proof (cases "n - wr < length xs")
  case True
  obtain m1 where m1: "mem_write m wr (take (n - wr) xs) = Some m1"
    using n wr True by (simp add: mem_write_def)
  then have l1: "length m1 = n" using n mem_write_length by metis
  have "0 + length (drop (n - wr) xs) \<le> length m1" using l1 len wr by simp
  then obtain m2 where m2: "mem_write m1 0 (drop (n - wr) xs) = Some m2"
    using mem_write_Some_iff by blast
  then have l2: "length m2 = n" using l1 mem_write_length by metis
  have at1: "m1 ! i = (if wr \<le> i then xs ! (i - wr) else m ! i)" if "i < n" for i
    using that n True by (simp add: mem_write_nth [OF m1] less_diff_conv)
  have at2: "m2 ! i = (if i < length xs - (n - wr) then xs ! (n - wr + i) else m1 ! i)" if "i < n" for i
    using that l1 True by (simp add: mem_write_nth [OF m2])
  show thesis
  proof (rule that [of m2])
    show "m2 ! ((wr + j) mod n) = xs ! j" if "j < length xs" for j
      using that wr len True by (auto simp: mod_wrap at1 at2)
    show "m2 ! ((wr + j) mod n) = m ! ((wr + j) mod n)" if "length xs \<le> j" "j < n" for j
      using that wr True by (auto simp: mod_wrap at1 at2)
  qed (use True m1 m2 l2 in simp_all)
next
  case False
  have "wr + length xs \<le> length m" using n wr False by simp
  then obtain m1 where m1: "mem_write m wr xs = Some m1"
    using mem_write_Some_iff by blast
  then have l1: "length m1 = n" using n mem_write_length by metis
  have at1: "m1 ! i = (if wr \<le> i \<and> i < wr + length xs then xs ! (i - wr) else m ! i)" if "i < n" for i
    using that n by (simp add: mem_write_nth [OF m1])
  show thesis
  proof (rule that [of m1])
    show "m1 ! ((wr + j) mod n) = xs ! j" if "j < length xs" for j
      using that wr False by (auto simp: mod_wrap at1)
    show "m1 ! ((wr + j) mod n) = m ! ((wr + j) mod n)" if "length xs \<le> j" "j < n" for j
      using that wr by (auto simp: mod_wrap at1)
  qed (use False m1 l1 in simp_all)
qed

lemma ring_read:
  assumes n: "length m = n" and sh: "sh < n" and k: "k \<le> n"
  shows "ring_slice m sh k =
    (if n - sh < k then take (n - sh) (drop sh m) @ take (k - (n - sh)) m
     else take k (drop sh m))"
proof (rule nth_equalityI)
  show "length (ring_slice m sh k) =
      length (if n - sh < k then take (n - sh) (drop sh m) @ take (k - (n - sh)) m
              else take k (drop sh m))"
    using n k by auto
next
  fix i assume "i < length (ring_slice m sh k)"
  then show "ring_slice m sh k ! i =
      (if n - sh < k then take (n - sh) (drop sh m) @ take (k - (n - sh)) m
       else take k (drop sh m)) ! i"
    using n sh k by (auto simp: mod_wrap nth_append add.commute)
qed

lemma ring_slice_add:
  "ring_slice m sh (j + k) = ring_slice m sh j @ ring_slice m ((sh + j) mod length m) k"
proof (rule nth_equalityI)
  fix i assume i: "i < length (ring_slice m sh (j + k))"
  show "ring_slice m sh (j + k) ! i =
      (ring_slice m sh j @ ring_slice m ((sh + j) mod length m) k) ! i"
  proof (cases "i < j")
    case False
    have "((sh + j) mod length m + (i - j)) mod length m = (sh + j + (i - j)) mod length m"
      by (rule mod_add_left_eq)
    also have "sh + j + (i - j) = sh + i" using False by simp
    finally have "((sh + j) mod length m + (i - j)) mod length m = (sh + i) mod length m" .
    with False i show ?thesis by (simp add: nth_append less_diff_conv2)
  qed (use i in \<open>simp add: nth_append\<close>)
qed simp

section \<open>Push and pop are enqueue and dequeue\<close>

text \<open>Reading a block of the source in the two pieces that the code copies.\<close>

lemma split_copy:
  assumes "k \<le> length s" and "t \<le> k"
  shows "mem_read s 0 t = Some (take t (take k s))"
    and "mem_read s t (k - t) = Some (drop t (take k s))"
  using assms by (auto simp: mem_read_def min_def drop_take)

lemma ringbuf_push_block:
  assumes inv: "rb_inv b" and len: "0 < len" and fits: "nat len \<le> unat (ringbuf_capacity b)"
    and src: "nat len \<le> length s"
  obtains b' where "ringbuf_push b s len = Some (0, b')" and "rb_inv b'"
    and "rb_contents b' = rb_contents b @ take (nat len) s"
    and "rb_total b' = rb_total b"
proof -
  from inv obtain m where m: "rb_buffer b = Some m" and lm: "length m = unat (rb_total b)"
    and sh: "unat (rb_shift b) < unat (rb_total b)" and sz: "unat (rb_size b) < unat (rb_total b)"
    and t0: "rb_total b \<noteq> 0" by (rule rb_invE)
  define n where "n = unat (rb_total b)"
  define k where "k = nat len"
  define wr where "wr = (unat (rb_shift b) + unat (rb_size b)) mod n"
  define xs where "xs = take k s"
  have n0: "0 < n" using sh by (simp add: n_def)
  have wr: "wr < n" using n0 by (simp add: wr_def)
  have kcap: "unat (rb_size b) + k < n"
    using fits sz unat_capacity [OF inv] by (simp add: n_def k_def)
  have nlt: "\<not> int (unat (ringbuf_capacity b)) < len"
    using fits by (simp only: not_less nat_le_iff)
  have lxs: "length xs = k" using src by (simp add: xs_def k_def)
  obtain m' where w: "(if n - wr < length xs
      then Option.bind (mem_write m wr (take (n - wr) xs)) (\<lambda>m. mem_write m 0 (drop (n - wr) xs))
      else mem_write m wr xs) = Some m'"
    and lm': "length m' = n"
    and new: "\<And>j. j < length xs \<Longrightarrow> m' ! ((wr + j) mod n) = xs ! j"
    and old: "\<And>j. length xs \<le> j \<Longrightarrow> j < n \<Longrightarrow> m' ! ((wr + j) mod n) = m ! ((wr + j) mod n)"
    using ring_write [of m n wr xs] lm wr lxs kcap n_def by auto
  let ?b' = "b\<lparr>rb_buffer := Some m', rb_size := rb_size b + word_of_int len\<rparr>"
  have usz: "unat (rb_size ?b') = unat (rb_size b) + k"
  proof -
    have "unat (rb_size b) + k < 65536"
      using kcap u16_bound [of "rb_total b"] by (simp only: n_def)
    moreover from this have "unat (word_of_int len :: 16 word) = k"
      using len by (subst unat_u16_of_int) (auto simp: k_def)
    ultimately show ?thesis by (simp add: unat_word_ariths)
  qed
  have push: "ringbuf_push b s len = Some (0, ?b')"
    using len nlt m t0 w src split_copy [of k s "n - wr"]
    by (auto simp: ringbuf_push_def Let_def n_def [symmetric] wr_def [symmetric] k_def [symmetric]
        xs_def [symmetric] lxs mem_read_def c_bind split: if_splits)
  have inv': "rb_inv ?b'"
    using inv lm' usz kcap by (auto simp: rb_inv_def n_def word_less_nat_alt split: option.splits)
  have "rb_contents ?b' = rb_contents b @ xs"
  proof (rule nth_equalityI)
    show "length (rb_contents ?b') = length (rb_contents b @ xs)"
      using inv inv' usz lxs by simp
  next
    fix i assume "i < length (rb_contents ?b')"
    then have i: "i < unat (rb_size b) + k" using inv' usz by simp
    show "rb_contents ?b' ! i = (rb_contents b @ xs) ! i"
    proof (cases "i < unat (rb_size b)")
      case True
      define j where "j = n - unat (rb_size b) + i"
      have "(wr + j) mod n = (unat (rb_shift b) + unat (rb_size b) + j) mod n"
        unfolding wr_def by (rule mod_add_left_eq)
      also have "unat (rb_shift b) + unat (rb_size b) + j = unat (rb_shift b) + i + n"
        using sz by (simp add: j_def n_def)
      finally have "(wr + j) mod n = (unat (rb_shift b) + i) mod n" by simp
      moreover have "length xs \<le> j" and "j < n" using True kcap lxs by (auto simp: j_def)
      ultimately have "m' ! ((unat (rb_shift b) + i) mod n) = m ! ((unat (rb_shift b) + i) mod n)"
        using old by metis
      with True i m lm lm' usz inv show ?thesis
        by (simp add: rb_contents_def nth_append n_def)
    next
      case False
      have "(wr + (i - unat (rb_size b))) mod n =
          (unat (rb_shift b) + unat (rb_size b) + (i - unat (rb_size b))) mod n"
        unfolding wr_def by (rule mod_add_left_eq)
      also have "unat (rb_shift b) + unat (rb_size b) + (i - unat (rb_size b)) = unat (rb_shift b) + i"
        using False by simp
      finally have "(unat (rb_shift b) + i) mod n = (wr + (i - unat (rb_size b))) mod n" ..
      with False i lxs new [of "i - unat (rb_size b)"] m lm' usz inv show ?thesis
        by (simp add: rb_contents_def nth_append less_diff_conv2)
    qed
  qed
  with push inv' show thesis by (intro that [of ?b']) (auto simp: xs_def k_def)
qed

lemma ringbuf_pop_block:
  assumes inv: "rb_inv b" and len: "0 \<le> len" and avail: "nat len \<le> unat (rb_size b)"
    and dst: "nat len \<le> length d"
  obtains b' where
    "ringbuf_pop b d len = Some (0, take (nat len) (rb_contents b) @ drop (nat len) d, b')"
    and "rb_inv b'" and "rb_contents b' = drop (nat len) (rb_contents b)"
    and "rb_total b' = rb_total b"
proof -
  from inv obtain m where m: "rb_buffer b = Some m" and lm: "length m = unat (rb_total b)"
    and sh: "unat (rb_shift b) < unat (rb_total b)" and sz: "unat (rb_size b) < unat (rb_total b)"
    and t0: "rb_total b \<noteq> 0" by (rule rb_invE)
  define n where "n = unat (rb_total b)"
  define k where "k = nat len"
  define sh' where "sh' = (unat (rb_shift b) + k) mod n"
  have ks: "k \<le> unat (rb_size b)" using avail by (simp only: k_def)
  have nlt: "\<not> int (unat (rb_size b)) < len"
    using avail by (simp only: not_less nat_le_iff)
  have sh'n: "sh' < n" using sh by (simp add: sh'_def n_def)
  have ush: "unat (word_of_nat sh' :: 16 word) = sh'"
    using sh'n u16_bound [of "rb_total b"] unfolding n_def
    by (intro unat_u16_of_nat) (rule less_trans)
  have uk: "unat (word_of_int len :: 16 word) = k"
    using len nlt uint_u16_bound [of "rb_size b"] unfolding k_def
    by (intro unat_u16_of_int) (simp_all del: uint_u16_bound)
  have usz: "unat (rb_size b - word_of_int len) = unat (rb_size b) - k"
    using ks uk by (subst unat_sub) (auto simp: word_le_nat_alt)
  let ?b' = "b\<lparr>rb_shift := word_of_nat sh', rb_size := rb_size b - word_of_int len\<rparr>"
  have inv': "rb_inv ?b'"
    using inv sh'n ush usz sz by (auto simp: rb_inv_def n_def word_less_nat_alt split: option.splits)
  have split: "rb_contents b = ring_slice m (unat (rb_shift b)) k @ rb_contents ?b'"
    using ring_slice_add [of m "unat (rb_shift b)" k "unat (rb_size b) - k"] m ks lm
    by (simp add: rb_contents_def ush usz) (simp add: sh'_def n_def)
  have blk: "ring_slice m (unat (rb_shift b)) k =
      (if n - unat (rb_shift b) < k
       then take (n - unat (rb_shift b)) (drop (unat (rb_shift b)) m) @ take (k - (n - unat (rb_shift b))) m
       else take k (drop (unat (rb_shift b)) m))"
    using lm sh ks sz by (intro ring_read) (auto simp: n_def)
  have "ringbuf_pop b d len = Some (0, ring_slice m (unat (rb_shift b)) k @ drop k d, ?b')"
    using len nlt m t0 lm sh ks sz dst
    by (auto simp: ringbuf_pop_def ringbuf_size_def Let_def mem_read_def mem_write_def blk n_def
        k_def [symmetric] sh'_def min_def not_less)
  with split inv' show thesis
    by (intro that [of ?b']) (auto simp: k_def [symmetric])
qed

lemma ringbuf_clear_empty:
  assumes "rb_inv b"
  obtains b' where "ringbuf_clear b = Some (0, b')" and "rb_inv b'" and "rb_contents b' = []"
    and "rb_total b' = rb_total b"
proof -
  from assms obtain m where m: "rb_buffer b = Some m" and lm: "length m = unat (rb_total b)"
    and t0: "0 < unat (rb_total b)" by (elim rb_invE) auto
  let ?b' = "b\<lparr>rb_buffer := Some (m[0 := 0]), rb_size := 0, rb_shift := 0\<rparr>"
  have "ringbuf_clear b = Some (0, ?b')"
    using m lm t0 by (cases m) (simp_all add: ringbuf_clear_def write_at_def)
  moreover have "rb_inv ?b'" using lm t0 by (simp add: rb_inv_def word_less_nat_alt)
  moreover have "rb_contents ?b' = []" by (simp add: rb_contents_def ring_slice_def)
  ultimately show thesis by (rule that) simp
qed

section \<open>The contract of the clients: a bounded byte queue\<close>

text \<open>
  \<open>content\<close> is the abstract queue and \<open>bound\<close> the number of bytes it can hold. \<open>put\<close> and
  \<open>take_out\<close> return the code's status; the queue is unchanged when the status is negative.
\<close>

locale byte_fifo =
  fixes invar :: "'q \<Rightarrow> bool"
    and content :: "'q \<Rightarrow> bytes"
    and bound :: "'q \<Rightarrow> nat"
    and put :: "'q \<Rightarrow> bytes \<Rightarrow> int \<Rightarrow> (int \<times> 'q) option"
    and take_out :: "'q \<Rightarrow> bytes \<Rightarrow> int \<Rightarrow> (int \<times> bytes \<times> 'q) option"
  assumes content_bound: "invar q \<Longrightarrow> length (content q) \<le> bound q"
    and put_ok: "invar q \<Longrightarrow> 0 < n \<Longrightarrow> length (content q) + n \<le> bound q \<Longrightarrow> n \<le> length s \<Longrightarrow>
      \<exists>q'. put q s (int n) = Some (0, q') \<and> invar q' \<and>
        content q' = content q @ take n s \<and> bound q' = bound q"
    and put_full: "invar q \<Longrightarrow> 0 < n \<Longrightarrow> bound q < length (content q) + n \<Longrightarrow>
      put q s (int n) = Some (-1, q)"
    and take_out_ok: "invar q \<Longrightarrow> n \<le> length (content q) \<Longrightarrow> n \<le> length d \<Longrightarrow>
      \<exists>q'. take_out q d (int n) = Some (0, take n (content q) @ drop n d, q') \<and> invar q' \<and>
        content q' = drop n (content q) \<and> bound q' = bound q"
    and take_out_short: "invar q \<Longrightarrow> length (content q) < n \<Longrightarrow>
      take_out q d (int n) = Some (-1, d, q)"
begin

text \<open>What went in comes out: a block put into an empty queue is returned unchanged.\<close>

lemma put_take_out:
  assumes "invar q" and "content q = []" and "0 < length s" and "length s \<le> bound q"
    and "length s \<le> length d"
  shows "\<exists>q1 q2. put q s (int (length s)) = Some (0, q1) \<and>
    take_out q1 d (int (length s)) = Some (0, s @ drop (length s) d, q2) \<and>
    invar q2 \<and> content q2 = []"
proof -
  obtain q1 where q1: "put q s (int (length s)) = Some (0, q1)" "invar q1" "content q1 = s"
    using put_ok [of q "length s" s] assms by auto
  then show ?thesis using take_out_ok [of q1 "length s" d] assms by auto
qed

text \<open>Blocks leave in the order of their arrival, whatever the sizes they are taken in.\<close>

fun put_all :: "'q \<Rightarrow> bytes list \<Rightarrow> 'q option" where
  "put_all q [] = Some q"
| "put_all q (s # ss) = (case put q s (int (length s)) of Some (r, q') \<Rightarrow>
     (if r = 0 then put_all q' ss else None) | None \<Rightarrow> None)"

lemma put_all_content:
  assumes "invar q" and "\<forall>s \<in> set ss. s \<noteq> []" and "length (content q) + length (concat ss) \<le> bound q"
  shows "\<exists>q'. put_all q ss = Some q' \<and> invar q' \<and> content q' = content q @ concat ss"
  using assms
proof (induction ss arbitrary: q)
  case (Cons s ss)
  then obtain q1 where q1: "put q s (int (length s)) = Some (0, q1)" "invar q1"
      "content q1 = content q @ s" "bound q1 = bound q"
    using put_ok [of q "length s" s] by auto
  with Cons.prems Cons.IH [of q1] show ?case by auto
qed simp

end

interpretation ring: byte_fifo rb_inv rb_contents "\<lambda>b. unat (rb_total b) - 1" ringbuf_push ringbuf_pop
proof
  fix q assume inv: "rb_inv q"
  then show "length (rb_contents q) \<le> unat (rb_total q) - 1" by (auto elim: rb_invE)
next
  fix q n and s :: bytes
  assume q: "rb_inv q" "0 < n" "length (rb_contents q) + n \<le> unat (rb_total q) - 1" "n \<le> length s"
  then have "nat (int n) \<le> unat (ringbuf_capacity q)" by (simp add: unat_capacity)
  with q show "\<exists>q'. ringbuf_push q s (int n) = Some (0, q') \<and> rb_inv q' \<and>
      rb_contents q' = rb_contents q @ take n s \<and> unat (rb_total q') - 1 = unat (rb_total q) - 1"
    by (elim ringbuf_push_block [of q "int n" s]) (auto simp: unat_capacity)
next
  fix q n and s :: bytes
  assume "rb_inv q" "0 < n" "unat (rb_total q) - 1 < length (rb_contents q) + n"
  then show "ringbuf_push q s (int n) = Some (- 1, q)"
    by (auto simp: ringbuf_push_def unat_capacity)
next
  fix q n and d :: bytes
  assume q: "rb_inv q" "n \<le> length (rb_contents q)" "n \<le> length d"
  then have "nat (int n) \<le> unat (rb_size q)" by simp
  with q show "\<exists>q'. ringbuf_pop q d (int n) = Some (0, take n (rb_contents q) @ drop n d, q') \<and>
      rb_inv q' \<and> rb_contents q' = drop n (rb_contents q) \<and>
      unat (rb_total q') - 1 = unat (rb_total q) - 1"
    by (elim ringbuf_pop_block [of q "int n" d]) auto
next
  fix q n and d :: bytes
  assume "rb_inv q" "length (rb_contents q) < n"
  then have "int (unat (ringbuf_size q)) < int n"
    by (simp only: of_nat_less_iff length_rb_contents ringbuf_size_def)
  then show "ringbuf_pop q d (int n) = Some (- 1, d, q)"
    by (simp only: ringbuf_pop_def if_True)
qed

section \<open>Properties\<close>

text \<open>C22. On a well-formed ring buffer a push of \<open>0 < len\<close> readable bytes that fit in the
  remaining capacity is memory safe, returns 0, keeps the buffer well formed and appends exactly
  these bytes to the queued ones, also when the block wraps around the end of the storage.\<close>

theorem ringbuf_push_enqueues:
  assumes "rb_inv b" and "0 < len" and "nat len \<le> unat (ringbuf_capacity b)" and "nat len \<le> length s"
  shows "\<exists>b'. ringbuf_push b s len = Some (0, b') \<and> rb_inv b' \<and>
    rb_contents b' = rb_contents b @ take (nat len) s \<and> rb_total b' = rb_total b"
  using assms by (rule ringbuf_push_block) blast

text \<open>C23. On a well-formed ring buffer a pop of at most \<open>size\<close> bytes into a large enough
  destination is memory safe, returns 0, writes the oldest bytes of the queue in order and removes
  exactly these; the rest of the destination is untouched.\<close>

theorem ringbuf_pop_dequeues:
  assumes "rb_inv b" and "0 \<le> len" and "nat len \<le> unat (ringbuf_size b)" and "nat len \<le> length d"
  shows "\<exists>b'. ringbuf_pop b d len =
      Some (0, take (nat len) (rb_contents b) @ drop (nat len) d, b') \<and> rb_inv b' \<and>
    rb_contents b' = drop (nat len) (rb_contents b) \<and> rb_total b' = rb_total b"
  using assms unfolding ringbuf_size_def by (rule ringbuf_pop_block) blast

definition rb_example :: ring_buffer_t where
  "rb_example = \<lparr>rb_buffer = Some [3, 9, 9, 1, 2], rb_total = 5, rb_size = 3, rb_shift = 3\<rparr>"

theorem ringbuf_push_enqueues_witness:
  "\<exists>b'. ringbuf_push rb_example [7] 1 = Some (0, b') \<and> rb_contents b' = [1, 2, 3, 7]"
proof -
  have "rb_inv rb_example" and "nat 1 \<le> unat (ringbuf_capacity rb_example)"
    and c: "rb_contents rb_example = [1, 2, 3]"
    by (simp_all add: rb_inv_def rb_example_def ringbuf_capacity_def rb_contents_def ring_slice_def
        upt_conv_Cons)
  from ringbuf_push_enqueues [OF this(1) _ this(2), of "[7]"] show ?thesis by (auto simp: c)
qed

theorem ringbuf_pop_dequeues_witness:
  "\<exists>b'. ringbuf_pop rb_example [0, 0, 0] 3 = Some (0, [1, 2, 3], b') \<and> rb_contents b' = []"
proof -
  have "rb_inv rb_example" and "nat 3 \<le> unat (ringbuf_size rb_example)"
    and c: "rb_contents rb_example = [1, 2, 3]"
    by (simp_all add: rb_inv_def rb_example_def ringbuf_size_def rb_contents_def ring_slice_def
        upt_conv_Cons)
  from ringbuf_pop_dequeues [OF this(1) _ this(2), of "[0, 0, 0]"] show ?thesis by (auto simp: c)
qed

end
