(* ===== verification/Mqtt_Packet.thy ===== *)
theory Mqtt_Packet
  imports C_Base
begin

text \<open>
  The wire-level primitives of \<open>src/mqtt/packet/src/MQTTPacket.c\<close>: the packet header, the
  variable-length remaining-length field, 16-bit integers and length-delimited strings.

  A write cursor \<^typ>\<open>bytes \<times> nat\<close> is the output buffer with the offset of \<open>ptr\<close>; every
  writer is shown equal to \<open>emit\<close> of the bytes it produces, and the rules of the collection
  \<open>emit_rules\<close> merge a sequence of writes into one. Readers take the input buffer and the
  offset of \<open>curdata\<close>. C \<open>int\<close>s are \<^typ>\<open>int\<close>; \<open>MQTTPacket_decode_no_overflow\<close> shows that
  the only computed ones stay far below $2^{31}$.
\<close>

section \<open>Data\<close>

definition MQTTPACKET_BUFFER_TOO_SHORT :: int where "MQTTPACKET_BUFFER_TOO_SHORT = -2"
definition MQTTPACKET_READ_ERROR :: int where "MQTTPACKET_READ_ERROR = -1"

datatype msgTypes = CONNECT | CONNACK | PUBLISH | PUBACK | PUBREC | PUBREL | PUBCOMP
  | SUBSCRIBE | SUBACK | UNSUBSCRIBE | UNSUBACK | PINGREQ | PINGRESP | DISCONNECT

fun msgType_num :: "msgTypes \<Rightarrow> nat" where
  "msgType_num CONNECT = 1"
| "msgType_num CONNACK = 2"
| "msgType_num PUBLISH = 3"
| "msgType_num PUBACK = 4"
| "msgType_num PUBREC = 5"
| "msgType_num PUBREL = 6"
| "msgType_num PUBCOMP = 7"
| "msgType_num SUBSCRIBE = 8"
| "msgType_num SUBACK = 9"
| "msgType_num UNSUBSCRIBE = 10"
| "msgType_num UNSUBACK = 11"
| "msgType_num PINGREQ = 12"
| "msgType_num PINGRESP = 13"
| "msgType_num DISCONNECT = 14"

text \<open>The header union: the four bit fields, from the least significant bit \<open>retain\<close>:1,
  \<open>qos\<close>:2, \<open>dup\<close>:1, \<open>type\<close>:4. An assignment to a field keeps its low bits.\<close>

record MQTTHeader =
  h_type :: nat
  h_dup :: nat
  h_qos :: nat
  h_retain :: nat

definition header_byte :: "MQTTHeader \<Rightarrow> byte" where
  "header_byte h =
     word_of_nat (h_type h mod 16 * 16 + h_dup h mod 2 * 8 + h_qos h mod 4 * 2 + h_retain h mod 2)"

definition header_of :: "byte \<Rightarrow> MQTTHeader" where
  "header_of b = \<lparr>h_type = unat b div 16, h_dup = unat b div 8 mod 2, h_qos = unat b div 2 mod 4,
     h_retain = unat b mod 2\<rparr>"

definition header0 :: MQTTHeader where
  "header0 = \<lparr>h_type = 0, h_dup = 0, h_qos = 0, h_retain = 0\<rparr>"

text \<open>A string is a C string or a length with a pointer; a pointer is the list of the bytes
  readable from it, \<^term>\<open>None\<close> when it is null. The \<open>cstring\<close> is given without its terminator.\<close>

record MQTTString =
  cstring :: "bytes option"
  lenstring_len :: int
  lenstring_data :: "bytes option"

definition MQTTString_initializer :: MQTTString where
  "MQTTString_initializer = \<lparr>cstring = None, lenstring_len = 0, lenstring_data = None\<rparr>"

type_synonym cursor = "bytes \<times> nat"

section \<open>Remaining length\<close>

function encode_loop :: "bytes \<Rightarrow> nat \<Rightarrow> int \<Rightarrow> nat \<Rightarrow> (bytes \<times> nat) option" where
  "encode_loop buf p len rc =
     (let d = uchar (len smod 128); len' = len sdiv 128;
          d = (if len' > 0 then d OR 0x80 else d)
      in do {
        buf \<leftarrow> write_at buf (p + rc) d;
        if len' > 0 then encode_loop buf p len' (rc + 1) else Some (buf, rc + 1)
      })"
  by pat_completeness auto
termination
proof (relation "measure (\<lambda>(buf, p, len, rc). nat len)")
  fix buf p len rc d len' d' buf'
  assume "len' = len sdiv (128 :: int)" and "0 < len'"
  moreover from this have "0 \<le> len" using sdiv_pos_nonneg [of len 128] by simp
  ultimately show "((buf', p, len', rc + 1), (buf, p, len, rc)) \<in> measure (\<lambda>(buf, p, len, rc). nat len)"
    by (auto simp: sdiv_nonneg)
qed simp

definition MQTTPacket_encode :: "cursor \<Rightarrow> int \<Rightarrow> (bytes \<times> nat) option" where
  "MQTTPacket_encode w len = (case w of (buf, p) \<Rightarrow> encode_loop buf p len 0)"

text \<open>\<open>ptr += MQTTPacket_encode(ptr, len)\<close>.\<close>

definition put_rem_len :: "cursor \<Rightarrow> int \<Rightarrow> cursor option" where
  "put_rem_len w len = do { (buf, rc) \<leftarrow> MQTTPacket_encode w len; Some (buf, snd w + rc) }"

text \<open>The callback returns its result code, the character it stored and its new state. The
  result is \<open>(len, *value, state)\<close>.\<close>

function decode_loop ::
    "('s \<Rightarrow> (int \<times> byte \<times> 's) option) \<Rightarrow> 's \<Rightarrow> int \<Rightarrow> int \<Rightarrow> int \<Rightarrow> (int \<times> int \<times> 's) option" where
  "decode_loop getcharfn s multiplier len value =
     (let len = len + 1
      in if len > 4 then Some (len, value, s)
         else do {
           (rc, c, s) \<leftarrow> getcharfn s;
           if rc \<noteq> 1 then Some (len, value, s)
           else let value = value + int (unat (c AND 127)) * multiplier
                in if c AND 128 \<noteq> 0 then decode_loop getcharfn s (multiplier * 128) len value
                   else Some (len, value, s)
         })"
  by pat_completeness auto
termination
  by (relation "measure (\<lambda>(g, s, m, len, v). nat (5 - len))") auto

definition MQTTPacket_decode ::
    "('s \<Rightarrow> (int \<times> byte \<times> 's) option) \<Rightarrow> 's \<Rightarrow> (int \<times> int \<times> 's) option" where
  "MQTTPacket_decode getcharfn s = decode_loop getcharfn s 1 0 0"

definition MQTTPacket_len :: "int \<Rightarrow> int" where
  "MQTTPacket_len rem_len =
     (let rem_len = rem_len + 1
      in if rem_len < 128 then rem_len + 1
         else if rem_len < 16384 then rem_len + 2
         else if rem_len < 2097151 then rem_len + 3
         else rem_len + 4)"

text \<open>\<open>bufchar(&c, 1)\<close> on the static pointer \<open>bufptr\<close>.\<close>

definition bufchar :: "bytes \<Rightarrow> nat \<Rightarrow> (int \<times> byte \<times> nat) option" where
  "bufchar buf bufptr = do { c \<leftarrow> read_at buf bufptr; Some (1, c, bufptr + 1) }"

definition MQTTPacket_decodeBuf :: "bytes \<Rightarrow> nat \<Rightarrow> (int \<times> int) option" where
  "MQTTPacket_decodeBuf buf p = do {
     (len, value, _) \<leftarrow> MQTTPacket_decode (bufchar buf) p;
     Some (len, value)
   }"

section \<open>Readers and writers\<close>

definition readInt :: "bytes \<Rightarrow> nat \<Rightarrow> (int \<times> nat) option" where
  "readInt buf p = do {
     a \<leftarrow> read_at buf p;
     b \<leftarrow> read_at buf (p + 1);
     Some (256 * int (unat a) + int (unat b), p + 2)
   }"

definition readChar :: "bytes \<Rightarrow> nat \<Rightarrow> (byte \<times> nat) option" where
  "readChar buf p = do { c \<leftarrow> read_at buf p; Some (c, p + 1) }"

fun writeChar :: "cursor \<Rightarrow> byte \<Rightarrow> cursor option" where
  "writeChar (buf, p) c = do { buf \<leftarrow> write_at buf p c; Some (buf, p + 1) }"

definition writeInt :: "cursor \<Rightarrow> int \<Rightarrow> cursor option" where
  "writeInt w anInt = do {
     w \<leftarrow> writeChar w (uchar (anInt sdiv 256));
     writeChar w (uchar (anInt smod 256))
   }"

text \<open>\<open>memcpy(*pptr, src, len); *pptr += len\<close>.\<close>

fun put_bytes :: "cursor \<Rightarrow> bytes \<Rightarrow> nat \<Rightarrow> cursor option" where
  "put_bytes (buf, p) src len = do {
     xs \<leftarrow> mem_read src 0 len;
     buf \<leftarrow> mem_write buf p xs;
     Some (buf, p + len)
   }"

definition writeCString :: "cursor \<Rightarrow> bytes \<Rightarrow> cursor option" where
  "writeCString w str = do {
     w \<leftarrow> writeInt w (int (length str));
     put_bytes w str (length str)
   }"

definition getLenStringLen :: "bytes \<Rightarrow> nat \<Rightarrow> int option" where
  "getLenStringLen ptr p = do {
     a \<leftarrow> read_at ptr p;
     b \<leftarrow> read_at ptr (p + 1);
     Some (256 * int (unat a) + int (unat b))
   }"

definition writeMQTTString :: "cursor \<Rightarrow> MQTTString \<Rightarrow> cursor option" where
  "writeMQTTString w s =
     (if lenstring_len s > 0 then do {
        w \<leftarrow> writeInt w (lenstring_len s);
        d \<leftarrow> lenstring_data s;
        put_bytes w d (nat (lenstring_len s))
      } else case cstring s of
          Some c \<Rightarrow> writeCString w c
        | None \<Rightarrow> writeInt w 0)"

text \<open>Returns \<open>(rc, *mqttstring, *pptr)\<close>; \<open>enddata\<close> is the offset of the end pointer.\<close>

definition readMQTTLenString ::
    "MQTTString \<Rightarrow> bytes \<Rightarrow> nat \<Rightarrow> nat \<Rightarrow> (int \<times> MQTTString \<times> nat) option" where
  "readMQTTLenString s buf p enddata =
     (if int enddata - int p > 1 then do {
        (len, p) \<leftarrow> readInt buf p;
        let s = s\<lparr>lenstring_len := len\<rparr>;
        if int p + len \<le> int enddata
        then Some (1, s\<lparr>lenstring_data := Some (drop p buf), cstring := None\<rparr>, p + nat len)
        else Some (0, s\<lparr>cstring := None\<rparr>, p)
      } else Some (0, s\<lparr>cstring := None\<rparr>, p))"

definition MQTTstrlen :: "MQTTString \<Rightarrow> int" where
  "MQTTstrlen s = (case cstring s of Some c \<Rightarrow> int (length c) | None \<Rightarrow> lenstring_len s)"

text \<open>\<open>strncmp\<close> reads the C strings with their terminators.\<close>

definition MQTTPacket_equals :: "MQTTString \<Rightarrow> bytes \<Rightarrow> bool option" where
  "MQTTPacket_equals a b =
     (let (aptr, alen) = (case cstring a of
            Some c \<Rightarrow> (Some (c @ [0]), int (length c))
          | None \<Rightarrow> (lenstring_data a, lenstring_len a))
      in if alen = int (length b)
         then do { ap \<leftarrow> (if length b = 0 then Some [] else aptr);
                   r \<leftarrow> strncmp ap (b @ [0]) (nat alen); Some (r = 0) }
         else Some False)"

declare encode_loop.simps [simp del] decode_loop.simps [simp del]

section \<open>Every writer is one block write\<close>

definition emit :: "cursor \<Rightarrow> bytes \<Rightarrow> cursor option" where
  "emit w bs = (case w of (buf, p) \<Rightarrow> do { buf \<leftarrow> mem_write buf p bs; Some (buf, p + length bs) })"

named_theorems emit_rules \<open>writers as \<open>emit\<close> and merging of consecutive writes\<close>

lemma emit_emit [emit_rules]: "Option.bind (emit w xs) (\<lambda>w. emit w ys) = emit w (xs @ ys)"
  by (cases w) (auto simp: emit_def mem_write_def ac_simps)

lemma emit_bind [emit_rules]:
  "Option.bind (emit w xs) (\<lambda>w. Option.bind (emit w ys) f) = Option.bind (emit w (xs @ ys)) f"
  by (simp flip: emit_emit)

lemma emit_Nil: "p \<le> length buf \<Longrightarrow> emit (buf, p) [] = Some (buf, p)"
  by (simp add: emit_def)

lemma emit_start:
  "emit (buf, 0) bs = (if length bs \<le> length buf then Some (bs @ drop (length bs) buf, length bs) else None)"
  by (simp add: emit_def mem_write_def)

lemma writeChar_emit [emit_rules]: "writeChar w c = emit w [c]"
  by (cases w) (simp add: emit_def write_at_mem_write)

definition int16_bytes :: "int \<Rightarrow> bytes" where
  "int16_bytes n = [uchar (n sdiv 256), uchar (n smod 256)]"

lemma length_int16_bytes [simp]: "length (int16_bytes n) = 2"
  by (simp add: int16_bytes_def)

lemma writeInt_emit [emit_rules]: "writeInt w n = emit w (int16_bytes n)"
  by (simp add: writeInt_def int16_bytes_def emit_rules)

lemma put_bytes_emit: "n \<le> length src \<Longrightarrow> put_bytes w src n = emit w (take n src)"
  by (cases w) (simp add: emit_def mem_read_def min_def)

text \<open>The bytes of a string on the wire: its length on two bytes, then its characters.\<close>

definition str_content :: "MQTTString \<Rightarrow> bytes" where
  "str_content s =
     (if lenstring_len s > 0 then take (nat (lenstring_len s)) (the (lenstring_data s))
      else case cstring s of Some c \<Rightarrow> c | None \<Rightarrow> [])"

definition utf_bytes :: "bytes \<Rightarrow> bytes" where
  "utf_bytes c = int16_bytes (int (length c)) @ c"

text \<open>A string the serialisers may be given: one representation only, its bytes readable,
  and short enough for the 16-bit length.\<close>

definition wf_string :: "MQTTString \<Rightarrow> bool" where
  "wf_string s \<longleftrightarrow>
     (case cstring s of Some c \<Rightarrow> lenstring_len s = 0
      | None \<Rightarrow> 0 \<le> lenstring_len s \<and> (lenstring_len s > 0 \<longrightarrow>
          (case lenstring_data s of None \<Rightarrow> False | Some d \<Rightarrow> nat (lenstring_len s) \<le> length d))) \<and>
     MQTTstrlen s < 65536"

lemma length_utf_bytes [simp]: "length (utf_bytes c) = length c + 2"
  by (simp add: utf_bytes_def)

lemma writeCString_emit [emit_rules]: "writeCString w c = emit w (utf_bytes c)"
  by (simp add: writeCString_def writeInt_emit put_bytes_emit emit_emit utf_bytes_def)

lemma writeMQTTString_emit:
  assumes "wf_string s"
  shows "writeMQTTString w s = emit w (utf_bytes (str_content s))"
proof (cases "lenstring_len s > 0")
  case True
  with assms obtain d where d: "lenstring_data s = Some d" "nat (lenstring_len s) \<le> length d"
    by (auto simp: wf_string_def split: option.splits)
  then have "length (str_content s) = nat (lenstring_len s)"
    using True by (simp add: str_content_def)
  with True d show ?thesis
    by (simp add: writeMQTTString_def writeInt_emit put_bytes_emit emit_emit utf_bytes_def str_content_def)
next
  case False
  with assms show ?thesis
    by (auto simp: writeMQTTString_def emit_rules str_content_def utf_bytes_def split: option.splits)
qed

lemma length_str_content:
  assumes "wf_string s"
  shows "int (length (str_content s)) = MQTTstrlen s"
  using assms by (auto simp: wf_string_def str_content_def MQTTstrlen_def split: option.splits)

lemma str_content_bound: "wf_string s \<Longrightarrow> length (str_content s) < 65536"
  using length_str_content [of s] by (simp add: wf_string_def)

section \<open>The remaining-length code\<close>

fun rem_len_bytes :: "nat \<Rightarrow> bytes" where
  "rem_len_bytes n =
     (if n < 128 then [word_of_nat n] else word_of_nat (n mod 128 + 128) # rem_len_bytes (n div 128))"

declare rem_len_bytes.simps [simp del]

lemma uchar_or_128:
  assumes "0 \<le> n" and "n < 128"
  shows "uchar n OR 0x80 = word_of_nat (nat n + 128)"
proof (rule unsigned_word_eqI [where ?'a = nat])
  have u: "unat (uchar n) = nat n" using assms by (simp add: unat_uchar)
  then have "unat (uchar n OR 128) = nat n + 128" using assms by (subst unat_or_128) auto
  then show "unat (uchar n OR 128) = unat (word_of_nat (nat n + 128) :: byte)"
    using assms unat_of_nat [of "nat n + 128", where 'a = 8] by (simp only: take_bit_nat_def) simp
qed

lemma encode_loop_bytes:
  "encode_loop buf p (int n) rc =
     map_option (\<lambda>b. (b, rc + length (rem_len_bytes n))) (mem_write buf (p + rc) (rem_len_bytes n))"
proof (induction n arbitrary: buf rc rule: rem_len_bytes.induct)
  case (1 n)
  show ?case
  proof (cases "n < 128")
    case True
    then have "int n sdiv 128 = 0" by (simp add: sdiv_nonneg)
    with True show ?thesis
      by (subst encode_loop.simps)
        (simp add: rem_len_bytes.simps [of n] write_at_mem_write smod_nonneg uchar_def split: bind_splits)
  next
    case False
    then have d: "int n sdiv 128 = int (n div 128)" "0 < int n sdiv 128"
      by (simp_all add: sdiv_nonneg zdiv_int)
    have s: "int n smod 128 = int (n mod 128)" by (simp add: smod_nonneg zmod_int)
    have m: "uchar (int n smod 128) OR 128 = word_of_nat (n mod 128 + 128)"
      using uchar_or_128 [of "int (n mod 128)"] by (simp only: s) simp
    have step: "encode_loop buf p (int n) rc =
        Option.bind (mem_write buf (p + rc) [word_of_nat (n mod 128 + 128)])
          (\<lambda>b. encode_loop b p (int (n div 128)) (rc + 1))"
      using d m by (subst encode_loop.simps) (simp add: write_at_mem_write Let_def)
    have w: "mem_write buf (p + rc) (rem_len_bytes n) =
        Option.bind (mem_write buf (p + rc) [word_of_nat (n mod 128 + 128)])
          (\<lambda>b. mem_write b (p + rc + 1) (rem_len_bytes (n div 128)))"
      using mem_write_append [of buf "p + rc" "[word_of_nat (n mod 128 + 128)]" "rem_len_bytes (n div 128)"]
        False by (simp add: rem_len_bytes.simps [of n])
    show ?thesis unfolding step w
      using False "1.IH" by (auto simp: rem_len_bytes.simps [of n] split: bind_splits)
  qed
qed

lemma MQTTPacket_encode_bytes:
  assumes "0 \<le> len"
  shows "MQTTPacket_encode (buf, p) len =
    map_option (\<lambda>b. (b, length (rem_len_bytes (nat len)))) (mem_write buf p (rem_len_bytes (nat len)))"
  using encode_loop_bytes [of buf p "nat len" 0] assms by (simp add: MQTTPacket_encode_def)

text \<open>Reading back what was written, with a character source that delivers the bytes of
  a buffer.\<close>

lemma rem_len_bytes_step:
  "128 \<le> n \<Longrightarrow> rem_len_bytes n = word_of_nat (n mod 128 + 128) # rem_len_bytes (n div 128)"
  by (simp add: rem_len_bytes.simps [of n])

lemma rem_len_bytes_last: "n < 128 \<Longrightarrow> rem_len_bytes n = [word_of_nat n]"
  by (simp add: rem_len_bytes.simps)

lemma unat_byte_of_nat: "n < 256 \<Longrightarrow> unat (word_of_nat n :: byte) = n"
  by (simp add: unat_of_nat take_bit_nat_def)

text \<open>One turn of the loop on a byte that lies ahead.\<close>

lemma decode_loop_step:
  assumes "drop p buf = c # rest" and "len < 4"
  shows "decode_loop (bufchar buf) p m len v =
    (let v = v + int (unat c mod 128) * m
     in if 128 \<le> unat c then decode_loop (bufchar buf) (p + 1) (m * 128) (len + 1) v
        else Some (len + 1, v, p + 1))"
  using assms
  by (subst decode_loop.simps) (simp add: bufchar_def read_at_ahead and_128 Let_def)

lemma decode_loop_bytes:
  assumes "n < 128 ^ k" and "0 < k" and "int k + len = 4" and "drop p buf = rem_len_bytes n @ rest"
  shows "decode_loop (bufchar buf) p m len v =
    Some (len + int (length (rem_len_bytes n)), v + int n * m, p + length (rem_len_bytes n))"
  using assms
proof (induction n arbitrary: p k m len v rule: rem_len_bytes.induct)
  case (1 n)
  show ?case
  proof (cases "n < 128")
    case True
    with 1 show ?thesis
      by (subst decode_loop_step) (auto simp: rem_len_bytes_last unat_byte_of_nat)
  next
    case False
    let ?c = "word_of_nat (n mod 128 + 128) :: byte"
    have c: "unat ?c = n mod 128 + 128"
      using mod_less_divisor [of 128 n] by (intro unat_byte_of_nat) simp
    obtain k' where k: "k = Suc k'" "0 < k'"
      using 1(2,3) False by (cases k; cases "k - 1") auto
    then have "n div 128 < 128 ^ k'"
      using 1(2) by (simp add: less_mult_imp_div_less ac_simps)
    moreover have ahead: "drop p buf = ?c # rem_len_bytes (n div 128) @ rest"
      using 1(5) False by (simp add: rem_len_bytes_step)
    ultimately have "decode_loop (bufchar buf) (p + 1) (m * 128) (len + 1) (v + int (n mod 128) * m) =
      Some (len + 1 + int (length (rem_len_bytes (n div 128))),
        v + int (n mod 128) * m + int (n div 128) * (m * 128), p + 1 + length (rem_len_bytes (n div 128)))"
      using 1(1) [OF False] k 1(4) drop_ConsD(3) [OF ahead] by simp
    moreover have "int (n mod 128) * m + int (n div 128) * (m * 128) = int n * m"
    proof -
      have "int n = int (n mod 128) + int (n div 128) * 128"
        by (metis mod_mult_div_eq of_nat_add of_nat_mult of_nat_numeral mult.commute)
      then show ?thesis by (simp add: algebra_simps)
    qed
    ultimately show ?thesis
      using 1(4) k False by (simp add: decode_loop_step [OF ahead] c rem_len_bytes_step Let_def
          add.assoc del: of_nat_add)
  qed
qed

lemma MQTTPacket_decodeBuf_bytes:
  assumes "n < 268435456" and "drop p buf = rem_len_bytes n @ rest"
  shows "MQTTPacket_decodeBuf buf p = Some (int (length (rem_len_bytes n)), int n)"
  using decode_loop_bytes [of n 4 0 p buf rest 1 0] assms
  by (simp add: MQTTPacket_decodeBuf_def MQTTPacket_decode_def)

lemma length_rem_len_bytes:
  assumes "n < 268435456"
  shows "length (rem_len_bytes n) =
    (if n < 128 then 1 else if n < 16384 then 2 else if n < 2097152 then 3 else 4)"
proof -
  have "n div 128 div 128 = n div 16384" "n div 16384 div 128 = n div 2097152"
    by (simp_all add: div_mult2_eq [symmetric])
  moreover have "n div 2097152 < 128" using assms by simp
  ultimately show ?thesis
    by (auto simp: rem_len_bytes_last rem_len_bytes_step not_less)
qed

lemma MQTTPacket_len_bounds:
  assumes "0 \<le> n" and "n < 268435455"
  shows "1 + int (length (rem_len_bytes (nat n))) + n \<le> MQTTPacket_len n"
    and "MQTTPacket_len n \<le> 2 + int (length (rem_len_bytes (nat n))) + n"
  using assms by (auto simp: MQTTPacket_len_def length_rem_len_bytes Let_def)

text \<open>Whatever the character source delivers, the loop reads at most five characters and the
  decoded value stays below $2^{28}$, so the \<open>int\<close> arithmetic never overflows.\<close>

lemma decode_loop_range:
  assumes "decode_loop g s m len v = Some (len', v', s')"
    and "m = 128 ^ nat len" and "0 \<le> len" and "len \<le> 4" and "0 \<le> v" and "v < m"
  shows "len < len' \<and> len' \<le> 5 \<and> 0 \<le> v' \<and> v' < 268435456"
  using assms
proof (induction g s m len v rule: decode_loop.induct)
  case (1 g s m len v)
  have m: "m \<le> 268435456"
    using power_increasing [of "nat len" 4 "128 :: int"] 1(3,4,5) by simp
  show ?case
  proof (cases "len = 4")
    case True
    then show ?thesis using 1(2,6,7) m by (subst (asm) decode_loop.simps) (auto simp: Let_def)
  next
    case False
    with 1(5) have len: "\<not> len + 1 > 4" by simp
    obtain rc c s1 where g: "g s = Some (rc, c, s1)"
      using 1(2) len by (subst (asm) decode_loop.simps) (auto simp: Let_def c_bind)
    show ?thesis
    proof (cases "rc = 1")
      case rc: False
      then show ?thesis
        using 1(2,4,6,7) m g len by (subst (asm) decode_loop.simps) (auto simp: Let_def)
    next
      case rc: True
      let ?v = "v + int (unat (c AND 127)) * m"
      have d: "int (unat c mod 128) \<le> 127" by simp
      have m0: "0 < m" using 1(3) by simp
      have "int (unat c mod 128) * m \<le> 127 * m" using d m0 by (intro mult_right_mono) auto
      then have lt: "?v < m * 128" using 1(7) by simp
      have ge: "0 \<le> ?v" using 1(6) m0 by simp
      have p: "m * 128 = 128 ^ nat (len + 1)" using 1(3,4) by (simp add: nat_add_distrib)
      have m1: "m * 128 \<le> 268435456"
        using power_increasing [of "nat (len + 1)" 4 "128 :: int"] 1(4) len unfolding p by simp
      show ?thesis
      proof (cases "c AND 128 = 0")
        case True
        then show ?thesis
          using 1(2,4) ge lt m1 g len rc by (subst (asm) decode_loop.simps) (auto simp: Let_def)
      next
        case False
        then have "decode_loop g s1 (m * 128) (len + 1) ?v = Some (len', v', s')"
          using 1(2) g len rc by (subst (asm) decode_loop.simps) (auto simp: Let_def)
        with 1(1) [OF refl len g refl refl] show ?thesis
          using rc False p 1(4) len ge lt by auto
      qed
    qed
  qed
qed

lemma MQTTPacket_decode_no_overflow:
  assumes "MQTTPacket_decode g s = Some (len, v, s')"
  shows "1 \<le> len" and "len \<le> 5" and "0 \<le> v" and "v < 268435456"
  using decode_loop_range [of g s 1 0 0 len v s'] assms by (auto simp: MQTTPacket_decode_def)

section \<open>Reading what lies ahead\<close>

named_theorems ahead_rules \<open>readers on a buffer whose next bytes are known\<close>

lemma unat_int16_bytes:
  assumes "0 \<le> n" and "n < 65536"
  shows "256 * int (unat (uchar (n sdiv 256))) + int (unat (uchar (n smod 256))) = n"
proof -
  have "n div 256 mod 256 = n div 256" using assms by simp
  then show ?thesis using assms by (simp add: unat_uchar sdiv_nonneg smod_nonneg pos_imp_zdiv_nonneg_iff)
qed

lemma readChar_ahead [ahead_rules]: "drop p buf = c # rest \<Longrightarrow> readChar buf p = Some (c, p + 1)"
  by (simp add: readChar_def read_at_ahead)

lemma readInt_ahead [ahead_rules]:
  assumes "drop p buf = int16_bytes n @ rest" and "0 \<le> n" and "n < 65536"
  shows "readInt buf p = Some (n, p + 2)"
proof -
  from assms(1) have a: "drop p buf = uchar (n sdiv 256) # uchar (n smod 256) # rest"
    by (simp add: int16_bytes_def)
  with unat_int16_bytes [OF assms(2,3)] show ?thesis
    by (simp add: readInt_def read_at_ahead [OF a] read_at_ahead [OF drop_ConsD(3) [OF a]])
qed

definition len_string :: "bytes \<Rightarrow> bytes \<Rightarrow> MQTTString" where
  "len_string c rest =
     \<lparr>cstring = None, lenstring_len = int (length c), lenstring_data = Some (c @ rest)\<rparr>"

lemma str_content_len_string [simp]: "str_content (len_string c rest) = c"
  by (simp add: str_content_def len_string_def)

lemma wf_len_string: "length c < 65536 \<Longrightarrow> wf_string (len_string c rest)"
  by (simp add: wf_string_def len_string_def MQTTstrlen_def)

lemma readMQTTLenString_ahead [ahead_rules]:
  assumes "drop p buf = utf_bytes c @ rest" and "length c < 65536" and "p + 2 + length c \<le> enddata"
  shows "readMQTTLenString s buf p enddata = Some (1, len_string c rest, p + 2 + length c)"
proof -
  have a: "drop p buf = int16_bytes (int (length c)) @ c @ rest"
    using assms(1) by (simp add: utf_bytes_def)
  have "drop (p + 2) buf = c @ rest" using drop_appendD [OF a] by simp
  moreover have "readInt buf p = Some (int (length c), p + 2)"
    using a assms(2) by (intro readInt_ahead) auto
  ultimately show ?thesis
    using assms(3) by (simp add: readMQTTLenString_def len_string_def)
qed

text \<open>On any input, a string is only accepted when it lies before \<open>enddata\<close>, and nothing at or
  after \<open>enddata\<close> is touched.\<close>

lemma readMQTTLenString_safe:
  assumes "enddata \<le> length buf" and "p \<le> enddata"
  obtains rc s' p' where "readMQTTLenString s buf p enddata = Some (rc, s', p')"
    and "rc = 0 \<or> rc = 1" and "p \<le> p'" and "p' \<le> enddata"
    and "rc = 1 \<Longrightarrow> cstring s' = None \<and> 0 \<le> lenstring_len s' \<and> lenstring_len s' < 65536 \<and>
           p' = p + 2 + nat (lenstring_len s') \<and> lenstring_data s' = Some (drop (p + 2) buf)"
proof (cases "int enddata - int p > 1")
  case False
  with assms that show thesis by (auto simp: readMQTTLenString_def)
next
  case True
  define n where "n = 256 * int (unat (buf ! p)) + int (unat (buf ! (p + 1)))"
  have n: "0 \<le> n" "n < 65536"
    using byte_bound [of "buf ! p"] byte_bound [of "buf ! (p + 1)"] unfolding n_def by linarith+
  have "readInt buf p = Some (n, p + 2)"
    using True assms by (simp add: readInt_def read_at_def n_def)
  with True n assms show thesis
    by (cases "int p + 2 + n \<le> int enddata"; intro that [of _ "_\<lparr>cstring := None\<rparr>"])
      (auto simp: readMQTTLenString_def)
qed

lemma strncmp_equal:
  assumes "length b \<le> length ap" and "0 \<notin> set b"
  shows "Option.bind (strncmp ap (b @ [0]) (length b)) (\<lambda>r. Some (r = 0)) = Some (take (length b) ap = b)"
  using strncmp_take [of "length b" ap "b @ [0]"] assms by auto

lemma MQTTPacket_equals_content:
  assumes "wf_string a" and "0 \<notin> set b"
  shows "MQTTPacket_equals a b = Some (str_content a = b)"
proof (cases "cstring a")
  case (Some c)
  then have "str_content a = c" using assms(1) by (simp add: str_content_def wf_string_def)
  with Some show ?thesis
    using strncmp_equal [of b "c @ [0]"] assms(2)
    by (cases "length c = length b") (auto simp: MQTTPacket_equals_def)
next
  case None
  with assms(1) have pos: "0 \<le> lenstring_len a"
    and d: "0 < lenstring_len a \<Longrightarrow> \<exists>d. lenstring_data a = Some d \<and> nat (lenstring_len a) \<le> length d"
    by (auto simp: wf_string_def split: option.splits)
  show ?thesis
  proof (cases "lenstring_len a = int (length b)")
    case False
    then have "str_content a \<noteq> b" using length_str_content [OF assms(1)] None by (auto simp: MQTTstrlen_def)
    with False None show ?thesis by (simp add: MQTTPacket_equals_def)
  next
    case True
    show ?thesis
    proof (cases "b = []")
      case False
      with d True obtain d where "lenstring_data a = Some d" "length b \<le> length d" by auto
      with False True None strncmp_equal [of b d] assms(2) show ?thesis
        by (simp add: MQTTPacket_equals_def str_content_def)
    qed (use True None in \<open>simp add: MQTTPacket_equals_def str_content_def\<close>)
  qed
qed

section \<open>The header byte\<close>

lemma header_of_byte:
  "header_of (header_byte h) =
     \<lparr>h_type = h_type h mod 16, h_dup = h_dup h mod 2, h_qos = h_qos h mod 4, h_retain = h_retain h mod 2\<rparr>"
proof -
  define t d q r where "t = h_type h mod 16" and "d = h_dup h mod 2" and "q = h_qos h mod 4"
    and "r = h_retain h mod 2"
  have b: "t < 16" "d < 2" "q < 4" "r < 2" by (simp_all add: t_def d_def q_def r_def)
  then have u: "unat (header_byte h) = t * 16 + d * 8 + q * 2 + r"
    unfolding header_byte_def t_def [symmetric] d_def [symmetric] q_def [symmetric] r_def [symmetric]
    by (intro unat_byte_of_nat) linarith
  then have "unat (header_byte h) div 16 = t" "unat (header_byte h) div 8 = d + t * 2"
    "unat (header_byte h) div 2 = q + (t * 2 + d) * 4"
    using b by (auto intro!: div_nat_eqI)
  moreover have "unat (header_byte h) = r + (t * 8 + d * 4 + q) * 2" using u by simp
  ultimately have "unat (header_byte h) div 16 = t" "unat (header_byte h) div 8 mod 2 = d"
    "unat (header_byte h) div 2 mod 4 = q" "unat (header_byte h) mod 2 = r"
    using b by (simp_all only: mod_mult_self1) simp_all
  then show ?thesis
    by (simp add: header_of_def t_def d_def q_def r_def)
qed

lemma header_byte_of: "header_byte (header_of b) = b"
proof (rule unsigned_word_eqI [where ?'a = nat])
  define n where "n = unat b"
  have "n < 256" by (simp add: n_def)
  moreover from this have "n div 16 mod 16 = n div 16" by simp
  moreover have "n div 16 * 16 + n mod 16 = n" by simp
  moreover have "n mod 16 = n div 8 mod 2 * 8 + n mod 8" "n mod 8 = n div 2 mod 4 * 2 + n mod 2"
    using mod_mult2_eq [of n 8 2] mod_mult2_eq [of n 2 4] by simp_all
  ultimately have
    "n div 16 mod 16 * 16 + n div 8 mod 2 mod 2 * 8 + n div 2 mod 4 mod 4 * 2 + n mod 2 mod 2 = n"
    by simp
  moreover note \<open>n < 256\<close>
  ultimately show "unat (header_byte (header_of b)) = unat b"
    by (simp only: header_byte_def header_of_def MQTTHeader.simps flip: n_def) (simp add: unat_byte_of_nat)
qed

section \<open>Whole packets\<close>

text \<open>The specification of a packet on the wire, and of a serialiser whose buffer check is
  \<open>MQTTPacket_len(rem_len) > buflen\<close>.\<close>

definition packet :: "MQTTHeader \<Rightarrow> bytes \<Rightarrow> bytes" where
  "packet h body = header_byte h # rem_len_bytes (length body) @ body"

definition serialised :: "bytes \<Rightarrow> int \<Rightarrow> bytes \<Rightarrow> int \<Rightarrow> (bytes \<times> int) option" where
  "serialised pkt rem_len buf buflen =
     (if MQTTPacket_len rem_len > buflen then Some (buf, MQTTPACKET_BUFFER_TOO_SHORT)
      else Some (pkt @ drop (length pkt) buf, int (length pkt)))"

lemma put_rem_len_emit: "0 \<le> len \<Longrightarrow> put_rem_len w len = emit w (rem_len_bytes (nat len))"
  by (cases w) (auto simp: put_rem_len_def MQTTPacket_encode_bytes emit_def map_option_case split: option.splits)

lemma emit_if [emit_rules]:
  "Option.bind (emit w xs) (\<lambda>w. Option.bind (if b then emit w ys else Some w) f) =
     Option.bind (emit w (xs @ (if b then ys else []))) f"
  by (simp add: emit_bind)

lemma emit_if_else [emit_rules]:
  "Option.bind (emit w xs) (\<lambda>w. Option.bind (if b then emit w ys else emit w zs) f) =
     Option.bind (emit w (xs @ (if b then ys else zs))) f"
  by (simp add: emit_bind)

lemma emit_done:
  "Option.bind (emit (buf, 0) bs) (\<lambda>w. Some (fst w, int (snd w))) =
     (if length bs \<le> length buf then Some (bs @ drop (length bs) buf, int (length bs)) else None)"
  by (simp add: emit_start)

lemma packet_fits:
  assumes "MQTTPacket_len (int (length body)) \<le> buflen" and "buflen \<le> int (length buf)"
    and "length body < 268435455"
  shows "length (packet h body) \<le> length buf"
  using MQTTPacket_len_bounds(1) [of "int (length body)"] assms by (simp add: packet_def)

text \<open>How the deserialisers start on a packet that lies at the beginning of the buffer.\<close>

lemma packet_start:
  assumes "buf = packet h body @ rest" and "length body < 268435456"
  shows "readChar buf 0 = Some (header_byte h, 1)"
    and "MQTTPacket_decodeBuf buf 1 = Some (int (length (rem_len_bytes (length body))), int (length body))"
    and "drop (1 + length (rem_len_bytes (length body))) buf = body @ rest"
    and "length (packet h body) = 1 + length (rem_len_bytes (length body)) + length body"
proof -
  have a: "drop 0 buf = header_byte h # rem_len_bytes (length body) @ body @ rest"
    using assms(1) by (simp add: packet_def)
  then show "readChar buf 0 = Some (header_byte h, 1)" by (simp add: readChar_ahead)
  have b: "drop 1 buf = rem_len_bytes (length body) @ body @ rest" using drop_ConsD(3) [OF a] by simp
  show "MQTTPacket_decodeBuf buf 1 = Some (int (length (rem_len_bytes (length body))), int (length body))"
    by (rule MQTTPacket_decodeBuf_bytes [OF assms(2) b])
  show "drop (1 + length (rem_len_bytes (length body))) buf = body @ rest" by (rule drop_appendD [OF b])
qed (simp add: packet_def)

lemma header_of_bits:
  assumes "t < 16" and "d < 2" and "q < 4" and "r < 2"
  shows "header_of (header_byte \<lparr>h_type = t, h_dup = d, h_qos = q, h_retain = r\<rparr>) =
    \<lparr>h_type = t, h_dup = d, h_qos = q, h_retain = r\<rparr>"
  using assms by (simp add: header_of_byte)

section \<open>Properties\<close>

lemma length_rem_len_bytes_le:
  "n < 268435456 \<Longrightarrow> 1 \<le> length (rem_len_bytes n) \<and> length (rem_len_bytes n) \<le> 4"
  by (simp add: length_rem_len_bytes)

lemma drop_mem_write:
  assumes "mem_write buf p xs = Some buf'"
  shows "drop p buf' = xs @ drop (p + length xs) buf" and "take p buf' = take p buf"
  using assms by (auto simp: mem_write_def min_def split: if_splits)

text \<open>The remaining-length field round-trips: encoding any length below $2^{28}$ at offset
  \<open>p\<close> of a buffer with four bytes left succeeds, writes one to four bytes and nothing else, and
  decoding from the same place returns that number of bytes and the length.\<close>

theorem remaining_length_roundtrip:
  assumes "0 \<le> len" and "len < 268435456" and "p + 4 \<le> length buf"
  shows "\<exists>buf' rc. MQTTPacket_encode (buf, p) len = Some (buf', rc) \<and> 1 \<le> rc \<and> rc \<le> 4 \<and>
    MQTTPacket_decodeBuf buf' p = Some (int rc, len) \<and>
    take p buf' = take p buf \<and> drop (p + rc) buf' = drop (p + rc) buf"
proof -
  let ?r = "rem_len_bytes (nat len)"
  have r: "1 \<le> length ?r" "length ?r \<le> 4" using length_rem_len_bytes_le [of "nat len"] assms by auto
  then obtain buf' where w: "mem_write buf p ?r = Some buf'"
    using assms(3) mem_write_Some_iff [of buf p ?r] by auto
  have "MQTTPacket_decodeBuf buf' p = Some (int (length ?r), len)"
    using MQTTPacket_decodeBuf_bytes [OF _ drop_mem_write(1) [OF w]] assms by simp
  with w r assms(1) drop_mem_write(2) [OF w] drop_appendD [OF drop_mem_write(1) [OF w]] show ?thesis
    by (auto simp: MQTTPacket_encode_bytes)
qed

theorem remaining_length_roundtrip_witness:
  "\<exists>buf' rc. MQTTPacket_encode ([7, 0, 0, 0, 0, 9], 1) 321 = Some (buf', rc) \<and> 1 \<le> rc \<and> rc \<le> 4 \<and>
    MQTTPacket_decodeBuf buf' 1 = Some (int rc, 321) \<and>
    take 1 buf' = take 1 [7, 0, 0, 0, 0, 9] \<and> drop (1 + rc) buf' = drop (1 + rc) [7, 0, 0, 0, 0, 9]"
  by (rule remaining_length_roundtrip) simp_all

lemma decode_loop_bufchar_total:
  "0 \<le> len \<Longrightarrow> p + nat (4 - len) \<le> length buf \<Longrightarrow> \<exists>r. decode_loop (bufchar buf) p m len v = Some r"
proof (induction "nat (5 - len)" arbitrary: p m len v rule: less_induct)
  case less
  show ?case
  proof (cases "len \<ge> 4")
    case True
    then show ?thesis by (subst decode_loop.simps) simp
  next
    case False
    then have "p < length buf" using less.prems by linarith
    then have a: "drop p buf = buf ! p # drop (Suc p) buf" by (simp add: Cons_nth_drop_Suc)
    show ?thesis
      using False less.prems less.hyps [of "len + 1" "p + 1"]
      by (simp add: decode_loop_step [OF a] Let_def)
  qed
qed

text \<open>C27. Decoding a remaining length is safe on arbitrary bytes: with four bytes readable it
  returns, consumes between one and five positions (five marks a malformed field, whose fifth
  byte is not read) and yields a value in the range of the field, so no \<open>int\<close> overflows.\<close>

theorem MQTTPacket_decodeBuf_safe:
  assumes "p + 4 \<le> length buf"
  shows "\<exists>rc v. MQTTPacket_decodeBuf buf p = Some (rc, v) \<and> 1 \<le> rc \<and> rc \<le> 5 \<and> 0 \<le> v \<and> v < 268435456"
proof -
  obtain rc v p' where d: "MQTTPacket_decode (bufchar buf) p = Some (rc, v, p')"
    using decode_loop_bufchar_total [of 0 p buf 1 0] assms by (auto simp: MQTTPacket_decode_def)
  with MQTTPacket_decode_no_overflow [OF d] show ?thesis by (auto simp: MQTTPacket_decodeBuf_def)
qed

theorem MQTTPacket_decodeBuf_safe_witness:
  "\<exists>rc v. MQTTPacket_decodeBuf [255, 255, 255, 255, 1] 0 = Some (rc, v) \<and>
     1 \<le> rc \<and> rc \<le> 5 \<and> 0 \<le> v \<and> v < 268435456"
  by (rule MQTTPacket_decodeBuf_safe) simp

text \<open>C24. A string read from the wire lies inside the packet: for every buffer and every end
  pointer inside it, reading returns 0 or 1, the cursor never passes the end pointer, and an
  accepted string has all its bytes between the cursor and the end pointer.\<close>

theorem readMQTTLenString_in_bounds:
  assumes "enddata \<le> length buf" and "p \<le> enddata"
  shows "\<exists>rc s' p'. readMQTTLenString s buf p enddata = Some (rc, s', p') \<and> (rc = 0 \<or> rc = 1) \<and>
    p \<le> p' \<and> p' \<le> enddata \<and>
    (rc = 1 \<longrightarrow> wf_string s' \<and> p' = p + 2 + length (str_content s') \<and>
       str_content s' = take (p' - (p + 2)) (drop (p + 2) buf))"
proof -
  obtain rc s' p' where r: "readMQTTLenString s buf p enddata = Some (rc, s', p')"
    "rc = 0 \<or> rc = 1" "p \<le> p'" "p' \<le> enddata"
    "rc = 1 \<Longrightarrow> cstring s' = None \<and> 0 \<le> lenstring_len s' \<and> lenstring_len s' < 65536 \<and>
           p' = p + 2 + nat (lenstring_len s') \<and> lenstring_data s' = Some (drop (p + 2) buf)"
    by (rule readMQTTLenString_safe [where s = s, OF assms]) (blast intro: that)
  show ?thesis
  proof (intro exI conjI impI)
    assume rc: "rc = 1"
    note s = r(5) [OF this]
    have fit: "nat (lenstring_len s') \<le> length (drop (p + 2) buf)" using s r(4) assms by simp
    with s show "wf_string s'" by (auto simp: wf_string_def MQTTstrlen_def)
    show "p' = p + 2 + length (str_content s')" using s fit by (auto simp: str_content_def)
    show "str_content s' = take (p' - (p + 2)) (drop (p + 2) buf)" using s by (auto simp: str_content_def)
  qed (use r in auto)
qed

theorem readMQTTLenString_in_bounds_witness:
  "\<exists>rc s' p'. readMQTTLenString MQTTString_initializer [0, 2, 65, 66, 67] 0 4 = Some (rc, s', p') \<and>
    (rc = 0 \<or> rc = 1) \<and> 0 \<le> p' \<and> p' \<le> 4 \<and>
    (rc = 1 \<longrightarrow> wf_string s' \<and> p' = 0 + 2 + length (str_content s') \<and>
       str_content s' = take (p' - (0 + 2)) (drop (0 + 2) [0, 2, 65, 66, 67]))"
  by (rule readMQTTLenString_in_bounds) simp_all

text \<open>Strings round-trip: a well-formed string written where there is room for it is read
  back with the same characters, and both cursors end at the same place.\<close>

theorem MQTTString_roundtrip:
  assumes "wf_string s" and "p + 2 + nat (MQTTstrlen s) \<le> length buf"
  shows "\<exists>buf' p' s'. writeMQTTString (buf, p) s = Some (buf', p') \<and> p' = p + 2 + nat (MQTTstrlen s) \<and>
    readMQTTLenString s0 buf' p p' = Some (1, s', p') \<and> str_content s' = str_content s"
proof -
  let ?c = "str_content s"
  have len: "length ?c = nat (MQTTstrlen s)" using length_str_content [OF assms(1)] by simp
  obtain buf' where w: "mem_write buf p (utf_bytes ?c) = Some buf'"
    using assms(2) len mem_write_Some_iff [of buf p "utf_bytes ?c"] by auto
  have "length ?c < 65536" using assms(1) by (rule str_content_bound)
  from readMQTTLenString_ahead [OF drop_mem_write(1) [OF w] this order_refl]
  show ?thesis using w len by (auto simp: writeMQTTString_emit [OF assms(1)] emit_def add.commute)
qed

theorem MQTTString_roundtrip_witness:
  "\<exists>buf' p' s'. writeMQTTString ([0, 0, 0, 0, 0], 1) (MQTTString_initializer\<lparr>cstring := Some [65, 66]\<rparr>) =
      Some (buf', p') \<and>
    p' = 1 + 2 + nat (MQTTstrlen (MQTTString_initializer\<lparr>cstring := Some [65, 66]\<rparr>)) \<and>
    readMQTTLenString MQTTString_initializer buf' 1 p' = Some (1, s', p') \<and>
    str_content s' = str_content (MQTTString_initializer\<lparr>cstring := Some [65, 66]\<rparr>)"
  by (rule MQTTString_roundtrip)
    (simp_all add: wf_string_def MQTTString_initializer_def MQTTstrlen_def)

end
