(* ===== verification/Mqtt_Connect.thy ===== *)
theory Mqtt_Connect
  imports Mqtt_Packet
begin

text \<open>
  Connection packets: \<open>MQTTConnect.h\<close>, \<open>MQTTConnectClient.c\<close> and \<open>MQTTConnectServer.c\<close> of
  \<open>src/mqtt/packet/src\<close>. A serialiser takes the buffer object, the length \<open>buflen\<close> it is told and
  the data, and returns the buffer with the return code. \<open>packet\<close> is the specification of a
  packet: header byte, remaining length, body. The serialisers are shown to write exactly it.
  The fields \<open>struct_id\<close> and \<open>struct_version\<close> of the option structures are never read.
\<close>

section \<open>Data\<close>

record MQTTPacket_willOptions =
  w_topicName :: MQTTString
  w_message :: MQTTString
  w_retained :: byte
  w_qos :: byte

record MQTTPacket_connectData =
  MQTTVersion :: byte
  clientID :: MQTTString
  keepAliveInterval :: "16 word"
  cleansession :: byte
  willFlag :: byte
  will :: MQTTPacket_willOptions
  username :: MQTTString
  password :: MQTTString

definition MQTTPacket_willOptions_initializer :: MQTTPacket_willOptions where
  "MQTTPacket_willOptions_initializer =
     \<lparr>w_topicName = MQTTString_initializer, w_message = MQTTString_initializer, w_retained = 0, w_qos = 0\<rparr>"

definition MQTTPacket_connectData_initializer :: MQTTPacket_connectData where
  "MQTTPacket_connectData_initializer =
     \<lparr>MQTTVersion = 4, clientID = MQTTString_initializer, keepAliveInterval = 60, cleansession = 1,
      willFlag = 0, will = MQTTPacket_willOptions_initializer, username = MQTTString_initializer,
      password = MQTTString_initializer\<rparr>"

text \<open>The connect flags union, from bit 1 on; an assignment to a field keeps its low bits.\<close>

record MQTTConnectFlags =
  f_cleansession :: nat
  f_will :: nat
  f_willQoS :: nat
  f_willRetain :: nat
  f_password :: nat
  f_username :: nat

definition flags0 :: MQTTConnectFlags where
  "flags0 = \<lparr>f_cleansession = 0, f_will = 0, f_willQoS = 0, f_willRetain = 0, f_password = 0, f_username = 0\<rparr>"

definition flags_all :: "MQTTConnectFlags \<Rightarrow> byte" where
  "flags_all f = word_of_nat (f_username f mod 2 * 128 + f_password f mod 2 * 64 +
     f_willRetain f mod 2 * 32 + f_willQoS f mod 4 * 8 + f_will f mod 2 * 4 + f_cleansession f mod 2 * 2)"

definition flags_of :: "byte \<Rightarrow> MQTTConnectFlags" where
  "flags_of b = \<lparr>f_cleansession = unat b div 2 mod 2, f_will = unat b div 4 mod 2,
     f_willQoS = unat b div 8 mod 4, f_willRetain = unat b div 32 mod 2,
     f_password = unat b div 64 mod 2, f_username = unat b div 128\<rparr>"

definition given :: "MQTTString \<Rightarrow> bool" where
  "given s \<longleftrightarrow> cstring s \<noteq> None \<or> lenstring_data s \<noteq> None"

definition connack_flags_all :: "byte \<Rightarrow> byte" where
  "connack_flags_all sessionpresent = word_of_nat (unat sessionpresent mod 2)"

section \<open>Client side\<close>

definition MQTTSerialize_connectLength :: "MQTTPacket_connectData \<Rightarrow> int" where
  "MQTTSerialize_connectLength options =
     (let len = (if MQTTVersion options = 3 then 12 else if MQTTVersion options = 4 then 10 else 0);
          len = len + (MQTTstrlen (clientID options) + 2);
          len = (if willFlag options \<noteq> 0
                 then len + (MQTTstrlen (w_topicName (will options)) + 2 + MQTTstrlen (w_message (will options)) + 2)
                 else len);
          len = (if given (username options) then len + (MQTTstrlen (username options) + 2) else len);
          len = (if given (password options) then len + (MQTTstrlen (password options) + 2) else len)
      in len)"

text \<open>\<open>''MQTT''\<close> and \<open>''MQIsdp''\<close>.\<close>

definition str_MQTT :: bytes where "str_MQTT = [77, 81, 84, 84]"
definition str_MQIsdp :: bytes where "str_MQIsdp = [77, 81, 73, 115, 100, 112]"

definition connect_flags :: "MQTTPacket_connectData \<Rightarrow> MQTTConnectFlags" where
  "connect_flags options =
     (let f = flags0\<lparr>f_cleansession := unat (cleansession options),
                     f_will := (if willFlag options \<noteq> 0 then 1 else 0)\<rparr>;
          f = (if f_will f \<noteq> 0
               then f\<lparr>f_willQoS := unat (w_qos (will options)), f_willRetain := unat (w_retained (will options))\<rparr>
               else f);
          f = (if given (username options) then f\<lparr>f_username := 1\<rparr> else f);
          f = (if given (password options) then f\<lparr>f_password := 1\<rparr> else f)
      in f)"

definition MQTTSerialize_connect ::
    "bytes \<Rightarrow> int \<Rightarrow> MQTTPacket_connectData \<Rightarrow> (bytes \<times> int) option" where
  "MQTTSerialize_connect buf buflen options =
     (let len = MQTTSerialize_connectLength options
      in if MQTTPacket_len len > buflen then Some (buf, MQTTPACKET_BUFFER_TOO_SHORT)
         else let flags = connect_flags options
         in do {
           w \<leftarrow> writeChar (buf, 0) (header_byte (header0\<lparr>h_type := msgType_num CONNECT\<rparr>));
           w \<leftarrow> put_rem_len w len;
           w \<leftarrow> (if MQTTVersion options = 4
                then do { w \<leftarrow> writeCString w str_MQTT; writeChar w 4 }
                else do { w \<leftarrow> writeCString w str_MQIsdp; writeChar w 3 });
           w \<leftarrow> writeChar w (flags_all flags);
           w \<leftarrow> writeInt w (int (unat (keepAliveInterval options)));
           w \<leftarrow> writeMQTTString w (clientID options);
           w \<leftarrow> (if willFlag options \<noteq> 0
                then do { w \<leftarrow> writeMQTTString w (w_topicName (will options));
                          writeMQTTString w (w_message (will options)) }
                else Some w);
           w \<leftarrow> (if f_username flags \<noteq> 0 then writeMQTTString w (username options) else Some w);
           w \<leftarrow> (if f_password flags \<noteq> 0 then writeMQTTString w (password options) else Some w);
           Some (fst w, int (snd w))
         })"

text \<open>Returns \<open>(rc, *sessionPresent, *connack_rc)\<close>; the buffer starts at the packet body.\<close>

definition MQTTDeserialize_connack :: "bytes \<Rightarrow> int \<Rightarrow> (int \<times> byte \<times> byte) option" where
  "MQTTDeserialize_connack buf buflen = do {
     (flags, p) \<leftarrow> readChar buf 0;
     (connack_rc, p) \<leftarrow> readChar buf p;
     Some (1, word_of_nat (unat flags mod 2), connack_rc)
   }"

definition MQTTSerialize_zero :: "bytes \<Rightarrow> int \<Rightarrow> byte \<Rightarrow> (bytes \<times> int) option" where
  "MQTTSerialize_zero buf buflen packettype =
     (if buflen < 2 then Some (buf, MQTTPACKET_BUFFER_TOO_SHORT)
      else do {
        w \<leftarrow> writeChar (buf, 0) (header_byte (header0\<lparr>h_type := unat packettype\<rparr>));
        w \<leftarrow> put_rem_len w 0;
        Some (fst w, int (snd w))
      })"

definition MQTTSerialize_disconnect :: "bytes \<Rightarrow> int \<Rightarrow> (bytes \<times> int) option" where
  "MQTTSerialize_disconnect buf buflen = MQTTSerialize_zero buf buflen (word_of_nat (msgType_num DISCONNECT))"

definition MQTTSerialize_pingreq :: "bytes \<Rightarrow> int \<Rightarrow> (bytes \<times> int) option" where
  "MQTTSerialize_pingreq buf buflen = MQTTSerialize_zero buf buflen (word_of_nat (msgType_num PINGREQ))"

section \<open>Server side\<close>

text \<open>A \<open>memcmp\<close> of the string data with a literal of \<open>n\<close> characters; a null pointer may only
  be passed when no byte is compared.\<close>

definition data_cmp :: "MQTTString \<Rightarrow> bytes \<Rightarrow> nat \<Rightarrow> int option" where
  "data_cmp s lit n = memcmp (case lenstring_data s of Some d \<Rightarrow> d | None \<Rightarrow> []) (lit @ [0]) n"

definition MQTTPacket_checkVersion :: "MQTTString \<Rightarrow> int \<Rightarrow> int option" where
  "MQTTPacket_checkVersion protocol version = do {
     a \<leftarrow> (if version = 3
          then do { r \<leftarrow> data_cmp protocol str_MQIsdp (nat (min 6 (lenstring_len protocol))); Some (r = 0) }
          else Some False);
     if a then Some 1
     else do {
       b \<leftarrow> (if version = 4
            then do { r \<leftarrow> data_cmp protocol str_MQTT (nat (min 4 (lenstring_len protocol))); Some (r = 0) }
            else Some False);
       Some (if b then 1 else 0)
     }
   }"

text \<open>The fields of the CONNECT payload, in the order they are read; each failing read leaves
  the fields read so far. The result is \<open>(rc, *data)\<close>.\<close>

definition read_credentials ::
    "MQTTConnectFlags \<Rightarrow> MQTTPacket_connectData \<Rightarrow> bytes \<Rightarrow> nat \<Rightarrow> nat \<Rightarrow> (int \<times> MQTTPacket_connectData) option"
  where
  "read_credentials flags data buf p enddata =
     (if f_username flags \<noteq> 0
      then if int enddata - int p < 3 then Some (0, data)
           else do {
             (rc, s, p) \<leftarrow> readMQTTLenString (username data) buf p enddata;
             let data = data\<lparr>username := s\<rparr>;
             if rc = 0 then Some (0, data)
             else if f_password flags \<noteq> 0
             then if int enddata - int p < 3 then Some (0, data)
                  else do {
                    (rc, s, p) \<leftarrow> readMQTTLenString (password data) buf p enddata;
                    let data = data\<lparr>password := s\<rparr>;
                    Some (if rc = 0 then 0 else 1, data)
                  }
             else Some (1, data)
           }
      else if f_password flags \<noteq> 0 then Some (0, data)
      else Some (1, data))"

definition read_will ::
    "MQTTConnectFlags \<Rightarrow> MQTTPacket_connectData \<Rightarrow> bytes \<Rightarrow> nat \<Rightarrow> nat \<Rightarrow> (int \<times> MQTTPacket_connectData) option"
  where
  "read_will flags data buf p enddata =
     (if f_will flags \<noteq> 0
      then let data = data\<lparr>will := (will data)\<lparr>w_qos := word_of_nat (f_willQoS flags),
                                            w_retained := word_of_nat (f_willRetain flags)\<rparr>\<rparr>
           in do {
             (rc, s, p) \<leftarrow> readMQTTLenString (w_topicName (will data)) buf p enddata;
             let data = data\<lparr>will := (will data)\<lparr>w_topicName := s\<rparr>\<rparr>;
             if rc = 0 then Some (0, data)
             else do {
               (rc, s, p) \<leftarrow> readMQTTLenString (w_message (will data)) buf p enddata;
               let data = data\<lparr>will := (will data)\<lparr>w_message := s\<rparr>\<rparr>;
               if rc = 0 then Some (0, data) else read_credentials flags data buf p enddata
             }
           }
      else read_credentials flags data buf p enddata)"

definition MQTTDeserialize_connect ::
    "MQTTPacket_connectData \<Rightarrow> bytes \<Rightarrow> nat \<Rightarrow> (int \<times> MQTTPacket_connectData) option" where
  "MQTTDeserialize_connect data buf len = do {
     let enddata = len;
     (h, p) \<leftarrow> readChar buf 0;
     if h_type (header_of h) \<noteq> msgType_num CONNECT then Some (0, data)
     else do {
       (n, mylen) \<leftarrow> MQTTPacket_decodeBuf buf p;
       let p = p + nat n;
       (rc, Protocol, p) \<leftarrow> readMQTTLenString MQTTString_initializer buf p enddata;
       if rc = 0 \<or> int enddata - int p < 0 then Some (0, data)
       else do {
         (v, p) \<leftarrow> readChar buf p;
         ok \<leftarrow> MQTTPacket_checkVersion Protocol (sint v);
         if ok = 0 then Some (0, data)
         else do {
           (f, p) \<leftarrow> readChar buf p;
           let flags = flags_of f;
           let data = data\<lparr>cleansession := word_of_nat (f_cleansession flags)\<rparr>;
           (k, p) \<leftarrow> readInt buf p;
           let data = data\<lparr>keepAliveInterval := word_of_int k\<rparr>;
           (rc, s, p) \<leftarrow> readMQTTLenString (clientID data) buf p enddata;
           let data = data\<lparr>clientID := s\<rparr>;
           if rc = 0 then Some (0, data)
           else read_will flags (data\<lparr>willFlag := word_of_nat (f_will flags)\<rparr>) buf p enddata
         }
       }
     }
   }"

definition MQTTSerialize_connack :: "bytes \<Rightarrow> int \<Rightarrow> byte \<Rightarrow> byte \<Rightarrow> (bytes \<times> int) option" where
  "MQTTSerialize_connack buf buflen connack_rc sessionPresent =
     (if buflen < 2 then Some (buf, MQTTPACKET_BUFFER_TOO_SHORT)
      else do {
        w \<leftarrow> writeChar (buf, 0) (header_byte (header0\<lparr>h_type := msgType_num CONNACK\<rparr>));
        w \<leftarrow> put_rem_len w 2;
        w \<leftarrow> writeChar w (connack_flags_all sessionPresent);
        w \<leftarrow> writeChar w connack_rc;
        Some (fst w, int (snd w))
      })"

section \<open>The serialisers write their packets\<close>

definition connect_body :: "MQTTPacket_connectData \<Rightarrow> bytes" where
  "connect_body c =
     (if MQTTVersion c = 4 then utf_bytes str_MQTT @ [4] else utf_bytes str_MQIsdp @ [3]) @
     [flags_all (connect_flags c)] @ int16_bytes (int (unat (keepAliveInterval c))) @
     utf_bytes (str_content (clientID c)) @
     (if willFlag c \<noteq> 0
      then utf_bytes (str_content (w_topicName (will c))) @ utf_bytes (str_content (w_message (will c)))
      else []) @
     (if given (username c) then utf_bytes (str_content (username c)) else []) @
     (if given (password c) then utf_bytes (str_content (password c)) else [])"

definition wf_connect :: "MQTTPacket_connectData \<Rightarrow> bool" where
  "wf_connect c \<longleftrightarrow> (MQTTVersion c = 3 \<or> MQTTVersion c = 4) \<and> wf_string (clientID c) \<and>
     wf_string (w_topicName (will c)) \<and> wf_string (w_message (will c)) \<and>
     wf_string (username c) \<and> wf_string (password c)"

lemma connect_flags_simps:
  "f_username (connect_flags c) = (if given (username c) then 1 else 0)"
  "f_password (connect_flags c) = (if given (password c) then 1 else 0)"
  "f_will (connect_flags c) = (if willFlag c \<noteq> 0 then 1 else 0)"
  "f_cleansession (connect_flags c) = unat (cleansession c)"
  by (simp_all add: connect_flags_def flags0_def Let_def)

lemma connectLength_body:
  assumes "wf_connect c"
  shows "MQTTSerialize_connectLength c = int (length (connect_body c))"
proof -
  have s: "MQTTstrlen s = int (length (str_content s))" if "wf_string s" for s
    using length_str_content [OF that] by simp
  from assms have "MQTTVersion c = 3 \<or> MQTTVersion c = 4" by (simp add: wf_connect_def)
  then show ?thesis using assms
    by (elim disjE) (simp_all add: MQTTSerialize_connectLength_def connect_body_def wf_connect_def s
        str_MQTT_def str_MQIsdp_def Let_def)
qed

lemma length_connect_body:
  assumes "wf_connect c"
  shows "length (connect_body c) < 327699"
proof -
  have "length (str_content (clientID c)) < 65536"
    "length (str_content (w_topicName (will c))) < 65536" "length (str_content (w_message (will c))) < 65536"
    "length (str_content (username c)) < 65536" "length (str_content (password c)) < 65536"
    using assms by (simp_all add: wf_connect_def str_content_bound)
  then show ?thesis by (simp add: connect_body_def str_MQTT_def str_MQIsdp_def)
qed

lemma MQTTSerialize_connect_packet:
  assumes "wf_connect c" and "buflen \<le> int (length buf)"
  shows "MQTTSerialize_connect buf buflen c =
    serialised (packet (header0\<lparr>h_type := 1\<rparr>) (connect_body c)) (MQTTSerialize_connectLength c) buf buflen"
proof -
  let ?p = "packet (header0\<lparr>h_type := 1\<rparr>) (connect_body c)"
  have wf: "wf_string (clientID c)" "wf_string (w_topicName (will c))" "wf_string (w_message (will c))"
    "wf_string (username c)" "wf_string (password c)"
    using assms(1) by (simp_all add: wf_connect_def)
  obtain n where n: "n = length (connect_body c)" by simp
  have "MQTTSerialize_connect buf buflen c = Option.bind (emit (buf, 0) ?p) (\<lambda>w. Some (fst w, int (snd w)))"
    if "\<not> MQTTPacket_len (MQTTSerialize_connectLength c) > buflen"
    using that unfolding packet_def n [symmetric] connectLength_body [OF assms(1)]
    by (simp add: MQTTSerialize_connect_def connectLength_body [OF assms(1)] n [symmetric] Let_def emit_rules
        writeMQTTString_emit wf connect_flags_simps put_rem_len_emit) (simp add: connect_body_def emit_rules
        writeMQTTString_emit wf)
  then show ?thesis
    using packet_fits [OF _ assms(2)] length_connect_body [OF assms(1)]
    by (auto simp: serialised_def connectLength_body [OF assms(1)] emit_done MQTTSerialize_connect_def)
qed

lemma MQTTSerialize_zero_packet:
  assumes "buflen \<le> int (length buf)"
  shows "MQTTSerialize_zero buf buflen t =
    (if buflen < 2 then Some (buf, MQTTPACKET_BUFFER_TOO_SHORT)
     else Some (packet (header0\<lparr>h_type := unat t\<rparr>) [] @ drop 2 buf, 2))"
  using assms
  by (auto simp: MQTTSerialize_zero_def emit_rules put_rem_len_emit emit_done packet_def rem_len_bytes_last
      eval_nat_numeral)

lemma MQTTSerialize_connack_packet:
  assumes "4 \<le> length buf" and "2 \<le> buflen"
  shows "MQTTSerialize_connack buf buflen rc sp =
    Some (packet (header0\<lparr>h_type := 2\<rparr>) [connack_flags_all sp, rc] @ drop 4 buf, 4)"
  using assms
  by (auto simp: MQTTSerialize_connack_def emit_rules put_rem_len_emit emit_done packet_def rem_len_bytes_last
      eval_nat_numeral)

section \<open>The flags byte\<close>

lemma flags_of_all:
  "flags_of (flags_all f) =
     \<lparr>f_cleansession = f_cleansession f mod 2, f_will = f_will f mod 2, f_willQoS = f_willQoS f mod 4,
      f_willRetain = f_willRetain f mod 2, f_password = f_password f mod 2, f_username = f_username f mod 2\<rparr>"
proof -
  define u p r q w c where "u = f_username f mod 2" and "p = f_password f mod 2"
    and "r = f_willRetain f mod 2" and "q = f_willQoS f mod 4" and "w = f_will f mod 2"
    and "c = f_cleansession f mod 2"
  note defs = u_def p_def r_def q_def w_def c_def
  have b: "u < 2" "p < 2" "r < 2" "q < 4" "w < 2" "c < 2" by (simp_all add: defs)
  then have n: "unat (flags_all f) = u * 128 + p * 64 + r * 32 + q * 8 + w * 4 + c * 2"
    unfolding flags_all_def defs [symmetric] by (intro unat_byte_of_nat) linarith
  then have "unat (flags_all f) div 2 = c + (u * 32 + p * 16 + r * 8 + q * 2 + w) * 2"
    "unat (flags_all f) div 4 = w + (u * 16 + p * 8 + r * 4 + q) * 2"
    "unat (flags_all f) div 8 = q + (u * 4 + p * 2 + r) * 4"
    "unat (flags_all f) div 32 = r + (u * 2 + p) * 2" "unat (flags_all f) div 64 = p + u * 2"
    "unat (flags_all f) div 128 = u"
    using b by (auto intro!: div_nat_eqI)
  then have "unat (flags_all f) div 2 mod 2 = c" "unat (flags_all f) div 4 mod 2 = w"
    "unat (flags_all f) div 8 mod 4 = q" "unat (flags_all f) div 32 mod 2 = r"
    "unat (flags_all f) div 64 mod 2 = p" "unat (flags_all f) div 128 = u"
    using b by (simp_all only: mod_mult_self1) simp_all
  then show ?thesis by (simp add: flags_of_def defs)
qed

section \<open>Reading a CONNECT packet\<close>

text \<open>What a reader recovers: the flags as single bits, the strings by their characters.\<close>

definition same_connect :: "MQTTPacket_connectData \<Rightarrow> MQTTPacket_connectData \<Rightarrow> bool" where
  "same_connect c d \<longleftrightarrow>
     unat (cleansession d) = unat (cleansession c) mod 2 \<and>
     keepAliveInterval d = keepAliveInterval c \<and>
     str_content (clientID d) = str_content (clientID c) \<and>
     unat (willFlag d) = (if willFlag c \<noteq> 0 then 1 else 0) \<and>
     (willFlag c \<noteq> 0 \<longrightarrow>
        unat (w_qos (will d)) = unat (w_qos (will c)) mod 4 \<and>
        unat (w_retained (will d)) = unat (w_retained (will c)) mod 2 \<and>
        str_content (w_topicName (will d)) = str_content (w_topicName (will c)) \<and>
        str_content (w_message (will d)) = str_content (w_message (will c))) \<and>
     (given (username c) \<longrightarrow> str_content (username d) = str_content (username c)) \<and>
     (given (password c) \<longrightarrow> str_content (password d) = str_content (password c))"

lemma read_credentials_ahead:
  assumes "drop p buf = (if u then utf_bytes U else []) @ (if v then utf_bytes P else []) @ rest"
    and "f_username f = (if u then 1 else 0)" and "f_password f = (if v then 1 else 0)"
    and "v \<longrightarrow> u" and "u \<longrightarrow> U \<noteq> [] \<and> length U < 65536" and "v \<longrightarrow> P \<noteq> [] \<and> length P < 65536"
    and "enddata = p + (if u then 2 + length U else 0) + (if v then 2 + length P else 0)"
  shows "\<exists>d'. read_credentials f d buf p enddata = Some (1, d') \<and>
    (u \<longrightarrow> str_content (username d') = U) \<and> (v \<longrightarrow> str_content (password d') = P) \<and>
    cleansession d' = cleansession d \<and> keepAliveInterval d' = keepAliveInterval d \<and>
    clientID d' = clientID d \<and> willFlag d' = willFlag d \<and> will d' = will d"
proof (cases u)
  case False
  with assms show ?thesis by (simp add: read_credentials_def)
next
  case u: True
  let ?tl = "(if v then utf_bytes P else []) @ rest"
  have a: "drop p buf = utf_bytes U @ ?tl" using assms(1) u by simp
  have U: "U \<noteq> []" "length U < 65536" using assms(5) u by auto
  have e1: "p + 2 + length U \<le> enddata" using assms(7) u by simp
  have r1: "readMQTTLenString s buf p enddata = Some (1, len_string U ?tl, p + 2 + length U)" for s
    using a U(2) e1 by (rule readMQTTLenString_ahead)
  have U1: "Suc 0 \<le> length U" using U(1) by (cases U) auto
  show ?thesis
  proof (cases v)
    case False
    with u r1 e1 U1 assms(2,3) show ?thesis by (simp add: read_credentials_def Let_def)
  next
    case v: True
    have "drop (p + 2 + length U) buf = utf_bytes P @ rest" using drop_appendD [OF a] v by (simp add: ac_simps)
    moreover have P: "P \<noteq> []" "length P < 65536" using assms(6) v by auto
    moreover have e2: "p + 2 + length U + 2 + length P \<le> enddata" using assms(7) u v by simp
    ultimately have r2: "readMQTTLenString s buf (p + 2 + length U) enddata =
        Some (1, len_string P rest, p + 2 + length U + 2 + length P)" for s
      by (intro readMQTTLenString_ahead) auto
    have "Suc 0 \<le> length P" using P(1) by (cases P) auto
    with u v r1 r2 e2 U1 assms(2,3) show ?thesis by (simp add: read_credentials_def Let_def)
  qed
qed

lemma read_will_ahead:
  assumes "drop p buf = (if x then utf_bytes T @ utf_bytes M else []) @ zs"
    and "f_will f = (if x then 1 else 0)" and "x \<longrightarrow> length T < 65536 \<and> length M < 65536"
    and "x \<longrightarrow> p + 4 + length T + length M \<le> enddata"
  shows "\<exists>d'. read_will f d buf p enddata =
      read_credentials f d' buf (p + (if x then 4 + length T + length M else 0)) enddata \<and>
    (x \<longrightarrow> w_qos (will d') = word_of_nat (f_willQoS f) \<and> w_retained (will d') = word_of_nat (f_willRetain f) \<and>
       str_content (w_topicName (will d')) = T \<and> str_content (w_message (will d')) = M) \<and>
    cleansession d' = cleansession d \<and> keepAliveInterval d' = keepAliveInterval d \<and>
    clientID d' = clientID d \<and> willFlag d' = willFlag d"
proof (cases x)
  case False
  with assms(2) show ?thesis by (auto simp: read_will_def)
next
  case x: True
  have a: "drop p buf = utf_bytes T @ utf_bytes M @ zs" using assms(1) x by simp
  have r1: "readMQTTLenString s buf p enddata = Some (1, len_string T (utf_bytes M @ zs), p + 2 + length T)" for s
    using assms(3,4) x by (intro readMQTTLenString_ahead [OF a]) auto
  have b: "drop (p + 2 + length T) buf = utf_bytes M @ zs" using drop_appendD [OF a] by (simp add: ac_simps)
  have r2: "readMQTTLenString s buf (p + 2 + length T) enddata =
      Some (1, len_string M zs, p + 2 + length T + 2 + length M)" for s
    using assms(3,4) x by (intro readMQTTLenString_ahead [OF b]) auto
  have e: "p + (if x then 4 + length T + length M else 0) = p + 2 + length T + 2 + length M" using x by simp
  show ?thesis unfolding e using x assms(2) r1 r2 by (simp add: read_will_def Let_def) auto
qed

lemma checkVersion_ok:
  "MQTTPacket_checkVersion (len_string str_MQTT rest) 4 = Some 1"
  "MQTTPacket_checkVersion (len_string str_MQIsdp rest) 3 = Some 1"
  by (simp_all add: MQTTPacket_checkVersion_def data_cmp_def len_string_def str_MQTT_def str_MQIsdp_def
      numeral_eq_Suc)

text \<open>The protocol name and version at the beginning of the body.\<close>

definition proto_name :: "MQTTPacket_connectData \<Rightarrow> bytes" where
  "proto_name c = (if MQTTVersion c = 4 then str_MQTT else str_MQIsdp)"

definition proto_version :: "MQTTPacket_connectData \<Rightarrow> byte" where
  "proto_version c = (if MQTTVersion c = 4 then 4 else 3)"

definition connect_tail :: "MQTTPacket_connectData \<Rightarrow> bytes" where
  "connect_tail c =
     (if willFlag c \<noteq> 0
      then utf_bytes (str_content (w_topicName (will c))) @ utf_bytes (str_content (w_message (will c)))
      else []) @
     (if given (username c) then utf_bytes (str_content (username c)) else []) @
     (if given (password c) then utf_bytes (str_content (password c)) else [])"

lemma connect_body_split:
  "connect_body c = utf_bytes (proto_name c) @ proto_version c # flags_all (connect_flags c) #
     int16_bytes (int (unat (keepAliveInterval c))) @ utf_bytes (str_content (clientID c)) @ connect_tail c"
  by (simp add: connect_body_def connect_tail_def proto_name_def proto_version_def)

lemma read_tail:
  assumes "wf_connect c" and "drop p buf = connect_tail c @ rest"
    and "enddata = p + length (connect_tail c)"
    and "given (password c) \<Longrightarrow> given (username c) \<and> str_content (password c) \<noteq> []"
    and "given (username c) \<Longrightarrow> str_content (username c) \<noteq> []"
    and "f = flags_of (flags_all (connect_flags c))"
  shows "\<exists>d'. read_will f d buf p enddata = Some (1, d') \<and>
    (willFlag c \<noteq> 0 \<longrightarrow>
        unat (w_qos (will d')) = unat (w_qos (will c)) mod 4 \<and>
        unat (w_retained (will d')) = unat (w_retained (will c)) mod 2 \<and>
        str_content (w_topicName (will d')) = str_content (w_topicName (will c)) \<and>
        str_content (w_message (will d')) = str_content (w_message (will c))) \<and>
    (given (username c) \<longrightarrow> str_content (username d') = str_content (username c)) \<and>
    (given (password c) \<longrightarrow> str_content (password d') = str_content (password c)) \<and>
    cleansession d' = cleansession d \<and> keepAliveInterval d' = keepAliveInterval d \<and>
    clientID d' = clientID d \<and> willFlag d' = willFlag d"
proof -
  let ?T = "str_content (w_topicName (will c))" and ?M = "str_content (w_message (will c))"
  let ?U = "str_content (username c)" and ?P = "str_content (password c)"
  let ?cred = "(if given (username c) then utf_bytes ?U else []) @ (if given (password c) then utf_bytes ?P else []) @ rest"
  let ?x = "willFlag c \<noteq> 0"
  let ?p = "p + (if ?x then 4 + length ?T + length ?M else 0)"
  have b: "length ?T < 65536" "length ?M < 65536" "length ?U < 65536" "length ?P < 65536"
    using assms(1) by (simp_all add: wf_connect_def str_content_bound)
  have a: "drop p buf = (if ?x then utf_bytes ?T @ utf_bytes ?M else []) @ ?cred"
    using assms(2) by (simp add: connect_tail_def)
  have f: "f_will f = (if ?x then 1 else 0)" "f_username f = (if given (username c) then 1 else 0)"
    "f_password f = (if given (password c) then 1 else 0)"
    "?x \<Longrightarrow> f_willQoS f = unat (w_qos (will c)) mod 4" "?x \<Longrightarrow> f_willRetain f = unat (w_retained (will c)) mod 2"
    by (simp_all add: assms(6) flags_of_all connect_flags_simps)
      (simp_all add: connect_flags_def flags0_def Let_def)
  obtain d1 where d1: "read_will f d buf p enddata = read_credentials f d1 buf ?p enddata"
    "?x \<longrightarrow> w_qos (will d1) = word_of_nat (f_willQoS f) \<and> w_retained (will d1) = word_of_nat (f_willRetain f) \<and>
       str_content (w_topicName (will d1)) = ?T \<and> str_content (w_message (will d1)) = ?M"
    "cleansession d1 = cleansession d" "keepAliveInterval d1 = keepAliveInterval d"
    "clientID d1 = clientID d" "willFlag d1 = willFlag d"
    using read_will_ahead [OF a f(1), of enddata d] b assms(3) by (auto simp: connect_tail_def)
  have len: "length (if ?x then utf_bytes ?T @ utf_bytes ?M else []) = (if ?x then 4 + length ?T + length ?M else 0)"
    by simp
  have c: "drop ?p buf = ?cred" using drop_appendD [OF a] unfolding len .
  have e: "enddata = ?p + (if given (username c) then 2 + length ?U else 0) +
      (if given (password c) then 2 + length ?P else 0)"
    by (simp add: assms(3) connect_tail_def)
  obtain d2 where "read_credentials f d1 buf ?p enddata = Some (1, d2)"
    "given (username c) \<longrightarrow> str_content (username d2) = ?U" "given (password c) \<longrightarrow> str_content (password d2) = ?P"
    "cleansession d2 = cleansession d1" "keepAliveInterval d2 = keepAliveInterval d1"
    "clientID d2 = clientID d1" "willFlag d2 = willFlag d1" "will d2 = will d1"
    using read_credentials_ahead [OF c f(2,3) _ _ _ e, of d1] b assms(4,5) by blast
  then show ?thesis using d1 f(4,5) by (auto simp: unat_byte_of_nat)
qed

section \<open>Properties\<close>

text \<open>A CONNECT packet is serialised exactly: for well-formed options (protocol 3.1 or 3.1.1)
  the code reports a too short buffer and leaves it unchanged, or writes the header, the exact
  remaining length and every field in the order of the protocol, returns the number of bytes
  written and changes nothing behind them; it never writes outside the buffer.\<close>

theorem MQTTSerialize_connect_correct:
  assumes "wf_connect c" and "buflen \<le> int (length buf)"
  shows "MQTTSerialize_connect buf buflen c =
    (if MQTTPacket_len (int (length (connect_body c))) > buflen then Some (buf, MQTTPACKET_BUFFER_TOO_SHORT)
     else let pkt = packet (header0\<lparr>h_type := 1\<rparr>) (connect_body c)
          in Some (pkt @ drop (length pkt) buf, int (length pkt)))"
  using MQTTSerialize_connect_packet [OF assms]
  by (simp add: serialised_def connectLength_body [OF assms(1)] Let_def)

definition connect_example :: MQTTPacket_connectData where
  "connect_example = MQTTPacket_connectData_initializer
     \<lparr>clientID := MQTTString_initializer\<lparr>cstring := Some [103, 119]\<rparr>,
      username := MQTTString_initializer\<lparr>cstring := Some [117]\<rparr>\<rparr>"

lemmas connect_example_simps = connect_example_def wf_connect_def wf_string_def MQTTstrlen_def
  MQTTPacket_connectData_initializer_def MQTTPacket_willOptions_initializer_def MQTTString_initializer_def

lemma wf_connect_example: "wf_connect connect_example"
  by (simp add: connect_example_simps)

theorem MQTTSerialize_connect_correct_witness:
  "MQTTSerialize_connect (replicate 40 0) 40 connect_example =
    (if MQTTPacket_len (int (length (connect_body connect_example))) > 40
     then Some (replicate 40 0, MQTTPACKET_BUFFER_TOO_SHORT)
     else let pkt = packet (header0\<lparr>h_type := 1\<rparr>) (connect_body connect_example)
          in Some (pkt @ drop (length pkt) (replicate 40 0), int (length pkt)))"
  by (rule MQTTSerialize_connect_correct [OF wf_connect_example]) simp

text \<open>The server code on a CONNECT packet, up to the client identifier.\<close>

definition connect_fixed :: "MQTTPacket_connectData \<Rightarrow> MQTTPacket_connectData \<Rightarrow> bytes \<Rightarrow> MQTTPacket_connectData"
  where
  "connect_fixed c d rest = d\<lparr>cleansession := word_of_nat (f_cleansession (flags_of (flags_all (connect_flags c)))),
     keepAliveInterval := keepAliveInterval c,
     clientID := len_string (str_content (clientID c)) (connect_tail c @ rest),
     willFlag := word_of_nat (f_will (flags_of (flags_all (connect_flags c))))\<rparr>"

lemma deserialize_connect_fixed:
  assumes "wf_connect c" and buf': "buf' = packet (header0\<lparr>h_type := 1\<rparr>) (connect_body c) @ rest"
    and len: "len = length (packet (header0\<lparr>h_type := 1\<rparr>) (connect_body c))"
  shows "\<exists>p. MQTTDeserialize_connect d buf' len =
      read_will (flags_of (flags_all (connect_flags c))) (connect_fixed c d rest) buf' p len \<and>
    drop p buf' = connect_tail c @ rest \<and> len = p + length (connect_tail c)"
proof -
  let ?b = "connect_body c"
  have "length ?b < 268435456" using length_connect_body [OF assms(1)] by simp
  note start = packet_start [OF buf' this]
  let ?f = "flags_all (connect_flags c)" and ?k = "int (unat (keepAliveInterval c))"
  let ?C = "str_content (clientID c)"
  let ?c4 = "utf_bytes ?C @ connect_tail c @ rest"
  let ?c3 = "?f # int16_bytes ?k @ ?c4"
  obtain q1 where q1: "Suc (length (rem_len_bytes (length ?b))) = q1" by simp
  obtain q2 where q2: "q2 = q1 + 2 + length (proto_name c)" by simp
  obtain q4 where q4: "q4 = q2 + 1 + 1" by simp
  obtain q5 where q5: "q5 = q4 + 2" by simp
  obtain q6 where q6: "q6 = q5 + 2 + length ?C" by simp
  note q = q1 [symmetric] q2 q4 q5 q6
  have len': "len = q6 + length (connect_tail c)"
    using len start(4) by (simp add: connect_body_split q)
  have p1: "drop q1 buf' = utf_bytes (proto_name c) @ proto_version c # ?c3"
    using start(3) by (simp add: connect_body_split q1 [symmetric])
  have r1: "readMQTTLenString s buf' q1 len =
      Some (1, len_string (proto_name c) (proto_version c # ?c3), q2)" for s
    unfolding q2 using len' q
    by (intro readMQTTLenString_ahead [OF p1]) (simp_all add: proto_name_def str_MQTT_def str_MQIsdp_def)
  have p2: "drop q2 buf' = proto_version c # ?c3" using drop_appendD [OF p1] by (simp add: q2 ac_simps)
  have p3: "drop (Suc q2) buf' = ?c3" using drop_ConsD(3) [OF p2] .
  have p4: "drop q4 buf' = int16_bytes ?k @ ?c4" using drop_ConsD(3) [OF p3] by (simp add: q4)
  have p5: "drop q5 buf' = ?c4" using drop_appendD [OF p4] by (simp add: q5)
  have v: "MQTTPacket_checkVersion (len_string (proto_name c) xs) (sint (proto_version c)) = Some 1" for xs
    by (simp add: proto_name_def proto_version_def checkVersion_ok)
  have k: "readInt buf' q4 = Some (?k, q5)"
    using readInt_ahead [OF p4] by (simp add: q5)
  have r5: "readMQTTLenString s buf' q5 len = Some (1, len_string ?C (connect_tail c @ rest), q6)" for s
    unfolding q6 using len' q6 assms(1)
    by (intro readMQTTLenString_ahead [OF p5]) (simp_all add: wf_connect_def str_content_bound)
  have c2: "readChar buf' q2 = Some (proto_version c, Suc q2)" "readChar buf' (Suc q2) = Some (?f, q4)"
    using readChar_ahead [OF p2] readChar_ahead [OF p3] by (simp_all add: q4)
  have "\<not> int len < int q2" using len' q by simp
  then have "MQTTDeserialize_connect d buf' len =
      read_will (flags_of ?f) (connect_fixed c d rest) buf' q6 len"
    using start(1,2) c2 k r1 r5 q1
    by (simp add: MQTTDeserialize_connect_def header_of_byte header0_def v connect_fixed_def Let_def)
  moreover have "drop q6 buf' = connect_tail c @ rest" using drop_appendD [OF p5] by (simp add: q6 ac_simps)
  ultimately show ?thesis using len' by blast
qed



text \<open>The zero-length packets (DISCONNECT, PINGREQ): two bytes with the packet type and a
  zero remaining length, or the too-short code when fewer than two bytes are available.\<close>

theorem zero_packets_correct:
  assumes "buflen \<le> int (length buf)"
  shows "MQTTSerialize_disconnect buf buflen =
      (if buflen < 2 then Some (buf, MQTTPACKET_BUFFER_TOO_SHORT) else Some ([0xE0, 0] @ drop 2 buf, 2)) \<and>
    MQTTSerialize_pingreq buf buflen =
      (if buflen < 2 then Some (buf, MQTTPACKET_BUFFER_TOO_SHORT) else Some ([0xC0, 0] @ drop 2 buf, 2))"
  using MQTTSerialize_zero_packet [OF assms]
  by (simp_all add: MQTTSerialize_disconnect_def MQTTSerialize_pingreq_def packet_def rem_len_bytes_last
      header_byte_def header0_def)

theorem zero_packets_correct_witness:
  "MQTTSerialize_disconnect [1, 2, 3] 3 = Some ([0xE0, 0, 3], 2) \<and>
   MQTTSerialize_pingreq [1, 2, 3] 3 = Some ([0xC0, 0, 3], 2)"
  using zero_packets_correct [of 3 "[1, 2, 3]"] by simp

text \<open>CONNACK round-trips when the buffer really has four bytes. The client's reader starts at
  the packet body.\<close>

lemma connack_roundtrip:
  assumes "4 \<le> length buf" and "2 \<le> buflen"
  shows "\<exists>buf'. MQTTSerialize_connack buf buflen rc sp = Some (buf', 4) \<and>
    MQTTDeserialize_connack (drop 2 buf') 2 = Some (1, word_of_nat (unat sp mod 2), rc)"
proof -
  let ?p = "packet (header0\<lparr>h_type := 2\<rparr>) [connack_flags_all sp, rc]"
  have "drop 2 (?p @ drop 4 buf) = connack_flags_all sp # rc # drop 4 buf"
    by (simp add: packet_def rem_len_bytes_last)
  moreover have "unat sp mod 2 < 256" by (rule less_trans [of _ 2]) auto
  ultimately show ?thesis
    unfolding MQTTSerialize_connack_packet [OF assms]
    by (intro exI [of _ "?p @ drop 4 buf"] conjI refl, simp only:)
      (simp add: MQTTDeserialize_connack_def readChar_def read_at_def connack_flags_all_def unat_byte_of_nat)
qed

text \<open>The buffer check of the CONNACK serialiser admits two bytes where four are written.\<close>

lemma connack_short_buffer_overflow:
  assumes "length buf = 2 \<or> length buf = 3"
  shows "MQTTSerialize_connack buf (int (length buf)) rc sp = None"
  using assms
  by (auto simp: MQTTSerialize_connack_def emit_rules put_rem_len_emit emit_def mem_write_def
      rem_len_bytes_last)

text \<open>The version check compares at most the received length, so an empty protocol name passes.\<close>

lemma checkVersion_accepts_empty_name: "MQTTPacket_checkVersion (len_string [] rest) 4 = Some 1"
  by (simp add: MQTTPacket_checkVersion_def data_cmp_def len_string_def)

text \<open>For a version other than 3 and 4 the computed length leaves out the protocol header that is
  written all the same, so the write may run over the end of the buffer.\<close>

lemma connect_other_version_overflow:
  "MQTTSerialize_connect (replicate 4 0) 4
     (MQTTPacket_connectData_initializer\<lparr>MQTTVersion := 5\<rparr>) = None"
  by (simp add: MQTTSerialize_connect_def MQTTSerialize_connectLength_def MQTTPacket_connectData_initializer_def
      MQTTString_initializer_def MQTTPacket_willOptions_initializer_def MQTTstrlen_def given_def
      MQTTPacket_len_def emit_rules put_rem_len_emit emit_start rem_len_bytes_last connect_flags_def flags0_def
      writeMQTTString_def Let_def utf_bytes_def str_MQIsdp_def emit_def mem_write_def)

end
