(* ===== verification/Mqtt_Publish.thy ===== *)
theory Mqtt_Publish
  imports Mqtt_Packet
begin

text \<open>
  PUBLISH packets and the four acknowledgements: \<open>MQTTSerializePublish.c\<close> and
  \<open>MQTTDeserializePublish.c\<close> of \<open>src/mqtt/packet/src\<close>. The output parameters of the reader are the
  fields of \<open>publish_out\<close>; fields that are not assigned keep their value.
\<close>

section \<open>Serialisers\<close>

definition MQTTSerialize_publishLength :: "int \<Rightarrow> MQTTString \<Rightarrow> int \<Rightarrow> int" where
  "MQTTSerialize_publishLength qos topicName payloadlen =
     (let len = 0 + (2 + MQTTstrlen topicName + payloadlen) in if qos > 0 then len + 2 else len)"

definition MQTTSerialize_publish ::
    "bytes \<Rightarrow> int \<Rightarrow> byte \<Rightarrow> int \<Rightarrow> byte \<Rightarrow> 16 word \<Rightarrow> MQTTString \<Rightarrow> bytes \<Rightarrow> int \<Rightarrow> (bytes \<times> int) option" where
  "MQTTSerialize_publish buf buflen dup qos retained packetid topicName payload payloadlen =
     (let rem_len = MQTTSerialize_publishLength qos topicName payloadlen
      in if MQTTPacket_len rem_len > buflen then Some (buf, MQTTPACKET_BUFFER_TOO_SHORT)
         else do {
           w \<leftarrow> writeChar (buf, 0) (header_byte \<lparr>h_type = msgType_num PUBLISH, h_dup = unat dup,
                                      h_qos = nat (qos mod 4), h_retain = unat retained\<rparr>);
           w \<leftarrow> put_rem_len w rem_len;
           w \<leftarrow> writeMQTTString w topicName;
           w \<leftarrow> (if qos > 0 then writeInt w (int (unat packetid)) else Some w);
           w \<leftarrow> put_bytes w payload (nat payloadlen);
           Some (fst w, int (snd w))
         })"

definition MQTTSerialize_ack :: "bytes \<Rightarrow> int \<Rightarrow> byte \<Rightarrow> byte \<Rightarrow> 16 word \<Rightarrow> (bytes \<times> int) option" where
  "MQTTSerialize_ack buf buflen packettype dup packetid =
     (if buflen < 4 then Some (buf, MQTTPACKET_BUFFER_TOO_SHORT)
      else do {
        w \<leftarrow> writeChar (buf, 0) (header_byte \<lparr>h_type = unat packettype, h_dup = unat dup,
               h_qos = (if unat packettype = msgType_num PUBREL then 1 else 0), h_retain = 0\<rparr>);
        w \<leftarrow> put_rem_len w 2;
        w \<leftarrow> writeInt w (int (unat packetid));
        Some (fst w, int (snd w))
      })"

definition MQTTSerialize_puback :: "bytes \<Rightarrow> int \<Rightarrow> 16 word \<Rightarrow> (bytes \<times> int) option" where
  "MQTTSerialize_puback buf buflen packetid =
     MQTTSerialize_ack buf buflen (word_of_nat (msgType_num PUBACK)) 0 packetid"

definition MQTTSerialize_pubrel :: "bytes \<Rightarrow> int \<Rightarrow> byte \<Rightarrow> 16 word \<Rightarrow> (bytes \<times> int) option" where
  "MQTTSerialize_pubrel buf buflen dup packetid =
     MQTTSerialize_ack buf buflen (word_of_nat (msgType_num PUBREL)) dup packetid"

definition MQTTSerialize_pubcomp :: "bytes \<Rightarrow> int \<Rightarrow> 16 word \<Rightarrow> (bytes \<times> int) option" where
  "MQTTSerialize_pubcomp buf buflen packetid =
     MQTTSerialize_ack buf buflen (word_of_nat (msgType_num PUBCOMP)) 0 packetid"

section \<open>Readers\<close>

record publish_out =
  o_dup :: byte
  o_qos :: int
  o_retained :: byte
  o_packetid :: "16 word"
  o_topicName :: MQTTString
  o_payload :: "bytes option"
  o_payloadlen :: int

definition publish_out0 :: publish_out where
  "publish_out0 = \<lparr>o_dup = 0, o_qos = 0, o_retained = 0, o_packetid = 0,
     o_topicName = MQTTString_initializer, o_payload = None, o_payloadlen = 0\<rparr>"

text \<open>When the topic cannot be read the code leaves with \<open>rc\<close> as the length decoder set it.\<close>

definition MQTTDeserialize_publish :: "publish_out \<Rightarrow> bytes \<Rightarrow> int \<Rightarrow> (int \<times> publish_out) option" where
  "MQTTDeserialize_publish out buf buflen = do {
     (b, p) \<leftarrow> readChar buf 0;
     let header = header_of b;
     if h_type header \<noteq> msgType_num PUBLISH then Some (0, out)
     else do {
       let out = out\<lparr>o_dup := word_of_nat (h_dup header), o_qos := int (h_qos header),
                     o_retained := word_of_nat (h_retain header)\<rparr>;
       (rc, mylen) \<leftarrow> MQTTPacket_decodeBuf buf p;
       let p = p + nat rc;
       let enddata = p + nat mylen;
       (ok, s, p) \<leftarrow> readMQTTLenString (o_topicName out) buf p enddata;
       let out = out\<lparr>o_topicName := s\<rparr>;
       if ok = 0 \<or> int enddata - int p < 0 then Some (rc, out)
       else do {
         (out, p) \<leftarrow> (if o_qos out > 0
           then do { (n, p) \<leftarrow> readInt buf p; Some (out\<lparr>o_packetid := word_of_int n\<rparr>, p) }
           else Some (out, p));
         Some (1, out\<lparr>o_payloadlen := int enddata - int p, o_payload := Some (drop p buf)\<rparr>)
       }
     }
   }"

text \<open>The body of the acknowledgement reader is commented out; it assigns nothing and succeeds.\<close>

definition MQTTDeserialize_ack ::
    "byte \<Rightarrow> byte \<Rightarrow> 16 word \<Rightarrow> bytes \<Rightarrow> int \<Rightarrow> int \<times> byte \<times> byte \<times> 16 word" where
  "MQTTDeserialize_ack packettype dup packetid buf buflen = (1, packettype, dup, packetid)"

section \<open>Correctness of the serialisers\<close>

definition publish_header :: "byte \<Rightarrow> int \<Rightarrow> byte \<Rightarrow> MQTTHeader" where
  "publish_header dup qos retained =
     \<lparr>h_type = 3, h_dup = unat dup, h_qos = nat (qos mod 4), h_retain = unat retained\<rparr>"

definition publish_body :: "int \<Rightarrow> 16 word \<Rightarrow> MQTTString \<Rightarrow> bytes \<Rightarrow> bytes" where
  "publish_body qos packetid topicName payload =
     utf_bytes (str_content topicName) @ (if qos > 0 then int16_bytes (int (unat packetid)) else []) @ payload"

lemma publishLength_body:
  assumes "wf_string t" and "0 \<le> n" and "nat n \<le> length payload"
  shows "MQTTSerialize_publishLength qos t n = int (length (publish_body qos packetid t (take (nat n) payload)))"
  using assms length_str_content [OF assms(1)]
  by (simp add: MQTTSerialize_publishLength_def publish_body_def Let_def)

lemma MQTTSerialize_publish_packet:
  assumes "wf_string t" and "0 \<le> n" and "nat n \<le> length payload" and "n < 268369915"
    and "buflen \<le> int (length buf)"
  shows "MQTTSerialize_publish buf buflen dup qos retained packetid t payload n =
    serialised (packet (publish_header dup qos retained) (publish_body qos packetid t (take (nat n) payload)))
      (MQTTSerialize_publishLength qos t n) buf buflen"
proof -
  let ?body = "publish_body qos packetid t (take (nat n) payload)"
  let ?p = "packet (publish_header dup qos retained) ?body"
  note len = publishLength_body [OF assms(1,2,3), of qos packetid]
  obtain m where m: "m = length ?body" by simp
  have "nat n < 268369915" using assms(4) by simp
  then have small: "length ?body < 268435455"
    using assms(3) str_content_bound [OF assms(1)] by (simp add: publish_body_def)
  have "MQTTSerialize_publish buf buflen dup qos retained packetid t payload n =
      Option.bind (emit (buf, 0) ?p) (\<lambda>w. Some (fst w, int (snd w)))"
    if "\<not> MQTTPacket_len (MQTTSerialize_publishLength qos t n) > buflen"
    using that unfolding packet_def m [symmetric] len
    by (simp add: MQTTSerialize_publish_def len m [symmetric] Let_def emit_rules put_bytes_emit
        writeMQTTString_emit assms put_rem_len_emit publish_header_def)
      (simp add: publish_body_def emit_rules)
  then show ?thesis
    using packet_fits [OF _ assms(5) small]
    by (auto simp: serialised_def len emit_done MQTTSerialize_publish_def)
qed

lemma MQTTSerialize_ack_packet:
  assumes "buflen \<le> int (length buf)"
  shows "MQTTSerialize_ack buf buflen t dup packetid =
    (if buflen < 4 then Some (buf, MQTTPACKET_BUFFER_TOO_SHORT)
     else Some (packet \<lparr>h_type = unat t, h_dup = unat dup, h_qos = (if unat t = 6 then 1 else 0), h_retain = 0\<rparr>
         (int16_bytes (int (unat packetid))) @ drop 4 buf, 4))"
  using assms
  by (auto simp: MQTTSerialize_ack_def emit_rules put_rem_len_emit emit_done packet_def rem_len_bytes_last
      eval_nat_numeral)

section \<open>Properties\<close>

text \<open>A PUBLISH packet is serialised exactly: for a well-formed topic, a readable payload and a
  packet below the protocol's size limit the code either reports a too short buffer and leaves it
  unchanged, or writes the header, the exact remaining length, the topic, the packet identifier
  when the quality of service asks for one and the payload, and returns the packet's length.\<close>

theorem MQTTSerialize_publish_correct:
  assumes "wf_string t" and "0 \<le> n" and "nat n \<le> length payload" and "n < 268369915"
    and "buflen \<le> int (length buf)"
  shows "MQTTSerialize_publish buf buflen dup qos retained packetid t payload n =
    (let body = publish_body qos packetid t (take (nat n) payload);
         pkt = packet (publish_header dup qos retained) body
     in if MQTTPacket_len (int (length body)) > buflen then Some (buf, MQTTPACKET_BUFFER_TOO_SHORT)
        else Some (pkt @ drop (length pkt) buf, int (length pkt)))"
  using MQTTSerialize_publish_packet [OF assms] publishLength_body [OF assms(1-3)]
  by (simp add: serialised_def Let_def)

definition topic_example :: MQTTString where
  "topic_example = MQTTString_initializer\<lparr>cstring := Some [116, 47, 49]\<rparr>"

lemma wf_topic_example: "wf_string topic_example"
  by (simp add: topic_example_def MQTTString_initializer_def wf_string_def MQTTstrlen_def)

theorem MQTTSerialize_publish_correct_witness:
  "MQTTSerialize_publish (replicate 16 0) 16 0 1 0 258 topic_example [65, 66, 67] 2 =
    (let body = publish_body 1 258 topic_example (take (nat 2) [65, 66, 67]);
         pkt = packet (publish_header 0 1 0) body
     in if MQTTPacket_len (int (length body)) > 16 then Some (replicate 16 0, MQTTPACKET_BUFFER_TOO_SHORT)
        else Some (pkt @ drop (length pkt) (replicate 16 0), int (length pkt)))"
  by (rule MQTTSerialize_publish_correct [OF wf_topic_example]) simp_all

text \<open>The reader on a PUBLISH packet.\<close>

lemma MQTTDeserialize_publish_packet:
  assumes "length topic < 65536" and "length body < 268435456"
    and body: "body = utf_bytes topic @ (if 0 < nat (qos mod 4) then int16_bytes (int (unat packetid)) else []) @ payload"
  shows "MQTTDeserialize_publish out (packet (publish_header dup qos retained) body @ rest) buflen =
    Some (1, out\<lparr>o_dup := word_of_nat (unat dup mod 2), o_qos := qos mod 4,
      o_retained := word_of_nat (unat retained mod 2),
      o_packetid := (if qos mod 4 > 0 then packetid else o_packetid out),
      o_topicName := len_string topic (drop (length topic + 2) (body @ rest)),
      o_payloadlen := int (length payload), o_payload := Some (payload @ rest)\<rparr>)"
proof -
  let ?h = "publish_header dup qos retained"
  let ?q = "(if 0 < nat (qos mod 4) then int16_bytes (int (unat packetid)) else []) :: bytes"
  obtain buf where buf: "buf = packet ?h body @ rest" by simp
  note start = packet_start [OF buf assms(2)]
  obtain q1 where q1: "Suc (length (rem_len_bytes (length body))) = q1" by simp
  obtain q2 where q2: "q2 = q1 + 2 + length topic" by simp
  obtain e where e: "e = q1 + length body" by simp
  have e': "Suc (length (rem_len_bytes (length body)) + length body) = e" using q1 e by simp
  have p1: "drop q1 buf = utf_bytes topic @ ?q @ payload @ rest"
    using start(3) body by (simp add: q1 [symmetric])
  have r1: "readMQTTLenString s buf q1 e = Some (1, len_string topic (?q @ payload @ rest), q2)" for s
    unfolding q2 using assms(1) by (intro readMQTTLenString_ahead [OF p1]) (auto simp: e body)
  note r1' = r1 [unfolded q1 [symmetric]]
  have p2: "drop q2 buf = ?q @ payload @ rest" using drop_appendD [OF p1] by (simp add: q2 ac_simps)
  have h: "header_of (header_byte ?h) = \<lparr>h_type = 3, h_dup = unat dup mod 2, h_qos = nat (qos mod 4),
      h_retain = unat retained mod 2\<rparr>"
    by (simp add: header_of_byte publish_header_def nat_mod_distrib)
  have t: "len_string topic (drop (length topic + 2) (body @ rest)) = len_string topic (?q @ payload @ rest)"
    by (simp add: body)
  show ?thesis
  proof (cases "0 < qos mod 4")
    case True
    then have p2': "drop q2 buf = int16_bytes (int (unat packetid)) @ payload @ rest" using p2 by simp
    have p3: "drop (q2 + 2) buf = payload @ rest" using drop_appendD [OF p2'] by simp
    have k: "readInt buf q2 = Some (int (unat packetid), q2 + 2)" using readInt_ahead [OF p2'] by simp
    have e2: "int e - int (q2 + 2) = int (length payload)" "\<not> int e - int q2 < 0"
      using True by (simp_all add: e q2 body)
    show ?thesis unfolding buf [symmetric] t
      using start(1,2) r1' k p3 e2 True e'
      by (simp add: MQTTDeserialize_publish_def h Let_def)
  next
    case False
    have e2: "int e - int q2 = int (length payload)" using False by (simp add: e q2 body)
    moreover have "qos mod 4 = 0" using False by (simp add: le_less)
    ultimately show ?thesis unfolding buf [symmetric] t
      using start(1,2) r1' p2 False e'
      by (simp add: MQTTDeserialize_publish_def h Let_def)
  qed
qed

text \<open>C18. PUBLISH packets round-trip: what the serialiser produced is read back with the same
  flags, topic, packet identifier and payload, whatever follows the packet in the buffer.\<close>

theorem publish_roundtrip:
  assumes "wf_string t" and "0 \<le> n" and "nat n \<le> length payload" and "n < 268369915"
    and "0 \<le> qos" and "qos < 4" and "buflen \<le> int (length buf)"
    and "MQTTSerialize_publish buf buflen dup qos retained packetid t payload n = Some (buf', rc)" and "0 < rc"
  shows "\<exists>out'. MQTTDeserialize_publish out buf' rc = Some (1, out') \<and>
    unat (o_dup out') = unat dup mod 2 \<and> o_qos out' = qos \<and> unat (o_retained out') = unat retained mod 2 \<and>
    (qos > 0 \<longrightarrow> o_packetid out' = packetid) \<and> str_content (o_topicName out') = str_content t \<and>
    o_payloadlen out' = n \<and> (\<exists>d. o_payload out' = Some d \<and> take (nat n) d = take (nat n) payload)"
proof -
  let ?body = "publish_body qos packetid t (take (nat n) payload)"
  have q: "qos mod 4 = qos" using assms(5,6) by simp
  have "nat n < 268369915" using assms(4) by simp
  then have small: "length ?body < 268435456"
    using assms(3) str_content_bound [OF assms(1)] by (simp add: publish_body_def)
  from assms(8,9) obtain rest where buf': "buf' = packet (publish_header dup qos retained) ?body @ rest"
    unfolding MQTTSerialize_publish_packet [OF assms(1-4,7)]
    by (auto simp: serialised_def MQTTPACKET_BUFFER_TOO_SHORT_def split: if_splits)
  have body: "?body = utf_bytes (str_content t) @
      (if 0 < nat (qos mod 4) then int16_bytes (int (unat packetid)) else []) @ take (nat n) payload"
    by (simp add: publish_body_def q)
  have "unat dup mod 2 < 256" "unat retained mod 2 < 256" by (rule less_trans [of _ 2]; simp)+
  then show ?thesis
    unfolding buf' MQTTDeserialize_publish_packet [OF str_content_bound [OF assms(1)] small body]
    using assms(2,3) q by (simp add: unat_byte_of_nat)
qed

theorem publish_roundtrip_witness:
  "\<exists>buf' rc out'. MQTTSerialize_publish (replicate 16 0) 16 0 1 1 258 topic_example [65, 66, 67] 2 = Some (buf', rc) \<and>
    MQTTDeserialize_publish publish_out0 buf' rc = Some (1, out') \<and> o_qos out' = 1 \<and> o_packetid out' = 258 \<and>
    str_content (o_topicName out') = str_content topic_example \<and> o_payloadlen out' = 2"
proof -
  let ?pkt = "packet (publish_header 0 1 1) (publish_body 1 258 topic_example (take (nat 2) [65, 66, 67]))"
  have ser: "MQTTSerialize_publish (replicate 16 0) 16 0 1 1 258 topic_example [65, 66, 67] 2 =
      Some (?pkt @ drop (length ?pkt) (replicate 16 0), int (length ?pkt))"
    using MQTTSerialize_publish_packet [OF wf_topic_example, of 2 "[65, 66, 67]" 16 "replicate 16 0" 0 1 1 258]
    by (simp add: serialised_def MQTTSerialize_publishLength_def MQTTPacket_len_def topic_example_def
        MQTTString_initializer_def MQTTstrlen_def)
  show ?thesis
    using publish_roundtrip [OF wf_topic_example _ _ _ _ _ _ ser, of publish_out0] ser
    by (auto simp: packet_def)
qed

text \<open>The acknowledgements PUBACK, PUBREL and PUBCOMP: four bytes with the packet type, the
  flags that the protocol prescribes for PUBREL, and the packet identifier in network order, or
  the too-short code on a smaller buffer.\<close>

theorem acks_correct:
  assumes "buflen \<le> int (length buf)"
  shows "MQTTSerialize_puback buf buflen i =
      (if buflen < 4 then Some (buf, MQTTPACKET_BUFFER_TOO_SHORT)
       else Some ([0x40, 2] @ int16_bytes (int (unat i)) @ drop 4 buf, 4)) \<and>
    MQTTSerialize_pubcomp buf buflen i =
      (if buflen < 4 then Some (buf, MQTTPACKET_BUFFER_TOO_SHORT)
       else Some ([0x70, 2] @ int16_bytes (int (unat i)) @ drop 4 buf, 4)) \<and>
    MQTTSerialize_pubrel buf buflen 0 i =
      (if buflen < 4 then Some (buf, MQTTPACKET_BUFFER_TOO_SHORT)
       else Some ([0x62, 2] @ int16_bytes (int (unat i)) @ drop 4 buf, 4))"
  unfolding MQTTSerialize_puback_def MQTTSerialize_pubcomp_def MQTTSerialize_pubrel_def
    MQTTSerialize_ack_packet [OF assms]
  by (simp add: packet_def rem_len_bytes_last header_byte_def)

theorem acks_correct_witness:
  "MQTTSerialize_puback [9, 9, 9, 9, 9] 5 258 = Some ([0x40, 2, 1, 2, 9], 4)"
proof -
  have "int16_bytes 258 = [1, 2]" by (simp add: int16_bytes_def sdiv_nonneg smod_nonneg uchar_def)
  then show ?thesis using acks_correct [of 5 "[9, 9, 9, 9, 9]" 258] by simp
qed

section \<open>Defects of the readers\<close>

text \<open>A PUBLISH packet whose topic does not fit is reported as a success when its remaining length
  takes one byte: the exit path returns the value of the length decoder, which is 1, and leaves the
  payload unset.\<close>

lemma truncated_topic_reported_as_success:
  "MQTTDeserialize_publish publish_out0 [0x30, 3, 0, 9, 65] 5 =
     Some (1, publish_out0\<lparr>o_topicName := MQTTString_initializer\<lparr>lenstring_len := 9\<rparr>\<rparr>)"
proof -
  have "MQTTPacket_decodeBuf [0x30, 3, 0, 9, 65] 1 = Some (1, 3)"
    using MQTTPacket_decodeBuf_bytes [of 3 1 "[0x30, 3, 0, 9, 65]" "[0, 9, 65]"]
    by (simp add: rem_len_bytes_last)
  then show ?thesis
    by (simp add: MQTTDeserialize_publish_def readChar_def read_at_def header_of_def publish_out0_def
        readMQTTLenString_def readInt_def MQTTString_initializer_def)
qed

text \<open>A quality of service above 0 with no room for the packet identifier gives a negative length.\<close>

lemma missing_packet_id_negative_payload:
  "\<exists>out'. MQTTDeserialize_publish publish_out0 [0x32, 3, 0, 1, 65, 7, 7] 7 = Some (1, out') \<and>
     o_payloadlen out' = -2"
proof -
  have "MQTTPacket_decodeBuf [0x32, 3, 0, 1, 65, 7, 7] 1 = Some (1, 3)"
    using MQTTPacket_decodeBuf_bytes [of 3 1 "[0x32, 3, 0, 1, 65, 7, 7]" "[0, 1, 65, 7, 7]"]
    by (simp add: rem_len_bytes_last)
  then show ?thesis
    by (simp add: MQTTDeserialize_publish_def readChar_def read_at_def header_of_def publish_out0_def
        readMQTTLenString_def readInt_def MQTTString_initializer_def)
qed

end
