(* ===== verification/Mqtt_Subscribe.thy ===== *)
theory Mqtt_Subscribe
  imports Mqtt_Publish
begin

text \<open>
  Subscription packets: \<open>MQTTSubscribeClient.c\<close>, \<open>MQTTSubscribeServer.c\<close>,
  \<open>MQTTUnsubscribeClient.c\<close> and \<open>MQTTUnsubscribeServer.c\<close> of \<open>src/mqtt/packet/src\<close>. The arrays of topic
  filters and qualities of service are lists; an index outside them is undefined. The loops of the
  readers run while the cursor is before \<open>enddata\<close>, and are shown to terminate because every
  accepted string moves the cursor.
\<close>

section \<open>Subscribe\<close>

fun subscribeLength_loop :: "MQTTString list \<Rightarrow> nat \<Rightarrow> nat \<Rightarrow> int \<Rightarrow> int option" where
  "subscribeLength_loop topicFilters i 0 len = Some len"
| "subscribeLength_loop topicFilters i (Suc k) len = do {
     t \<leftarrow> read_at topicFilters i;
     subscribeLength_loop topicFilters (i + 1) k (len + (2 + MQTTstrlen t + 1))
   }"

definition MQTTSerialize_subscribeLength :: "int \<Rightarrow> MQTTString list \<Rightarrow> int option" where
  "MQTTSerialize_subscribeLength count topicFilters = subscribeLength_loop topicFilters 0 (nat count) 2"

fun subscribe_loop :: "MQTTString list \<Rightarrow> int list \<Rightarrow> nat \<Rightarrow> nat \<Rightarrow> cursor \<Rightarrow> cursor option" where
  "subscribe_loop topicFilters requestedQoSs i 0 w = Some w"
| "subscribe_loop topicFilters requestedQoSs i (Suc k) w = do {
     t \<leftarrow> read_at topicFilters i;
     w \<leftarrow> writeMQTTString w t;
     q \<leftarrow> read_at requestedQoSs i;
     w \<leftarrow> writeChar w (uchar q);
     subscribe_loop topicFilters requestedQoSs (i + 1) k w
   }"

definition MQTTSerialize_subscribe ::
    "bytes \<Rightarrow> int \<Rightarrow> byte \<Rightarrow> 16 word \<Rightarrow> int \<Rightarrow> MQTTString list \<Rightarrow> int list \<Rightarrow> (bytes \<times> int) option" where
  "MQTTSerialize_subscribe buf buflen dup packetid count topicFilters requestedQoSs = do {
     rem_len \<leftarrow> MQTTSerialize_subscribeLength count topicFilters;
     if MQTTPacket_len rem_len > buflen then Some (buf, MQTTPACKET_BUFFER_TOO_SHORT)
     else do {
       w \<leftarrow> writeChar (buf, 0) (header_byte \<lparr>h_type = msgType_num SUBSCRIBE, h_dup = unat dup, h_qos = 1, h_retain = 0\<rparr>);
       w \<leftarrow> put_rem_len w rem_len;
       w \<leftarrow> writeInt w (int (unat packetid));
       w \<leftarrow> subscribe_loop topicFilters requestedQoSs 0 (nat count) w;
       Some (fst w, int (snd w))
     }
   }"

text \<open>The granted qualities of service are read from the packet body. The two bytes at its start
  (the packet identifier) are taken for the offset of the end.
  The result is \<open>(rc, *count, grantedQoSs)\<close>.\<close>

function suback_loop :: "bool \<Rightarrow> int \<Rightarrow> bytes \<Rightarrow> nat \<Rightarrow> nat \<Rightarrow> int \<Rightarrow> int list \<Rightarrow> (int \<times> int \<times> int list) option" where
  "suback_loop schar maxcount buf p enddata count grantedQoSs =
     (if p < enddata then
        if count > maxcount then Some (-1, count, grantedQoSs)
        else do {
          (c, p') \<leftarrow> readChar buf p;
          g \<leftarrow> write_at grantedQoSs (nat count) (char_int schar c);
          suback_loop schar maxcount buf (p + 1) enddata (count + 1) g
        }
      else Some (1, count, grantedQoSs))"
  by pat_completeness auto
termination
  by (relation "measure (\<lambda>(_, _, _, p, enddata, _). enddata - p)") auto

definition MQTTDeserialize_suback ::
    "bool \<Rightarrow> int \<Rightarrow> int list \<Rightarrow> bytes \<Rightarrow> int \<Rightarrow> (int \<times> int \<times> int list) option" where
  "MQTTDeserialize_suback schar maxcount grantedQoSs buf buflen = do {
     (n, p) \<leftarrow> readInt buf 0;
     suback_loop schar maxcount buf p (0 + nat n) 0 grantedQoSs
   }"

lemma readMQTTLenString_advance:
  "readMQTTLenString s buf p enddata = Some (rc, s', p') \<Longrightarrow> rc \<noteq> 0 \<Longrightarrow> p < p'"
  by (auto simp: readMQTTLenString_def readInt_def Let_def c_bind split: if_splits)

text \<open>The result is \<open>(rc, *count, topicFilters, requestedQoSs)\<close>; \<open>rc0\<close> is the value of \<open>rc\<close> when the
  loop starts, which the early exits return.\<close>

function subscribe_read_loop ::
    "bool \<Rightarrow> int \<Rightarrow> bytes \<Rightarrow> nat \<Rightarrow> nat \<Rightarrow> nat \<Rightarrow> MQTTString list \<Rightarrow> int list \<Rightarrow>
      (int \<times> nat \<times> MQTTString list \<times> int list) option" where
  "subscribe_read_loop schar rc0 buf p enddata count ts qs =
     (if p < enddata then
        (case read_at ts count of
           None \<Rightarrow> None
         | Some t \<Rightarrow>
             (case readMQTTLenString t buf p enddata of
                None \<Rightarrow> None
              | Some (ok, t', p') \<Rightarrow>
                  (let ts = ts[count := t']
                   in if ok = 0 then Some (rc0, count, ts, qs)
                      else if p' \<ge> enddata then Some (rc0, count, ts, qs)
                      else (case readChar buf p' of
                              None \<Rightarrow> None
                            | Some (c, p'') \<Rightarrow>
                                (case write_at qs count (char_int schar c) of
                                   None \<Rightarrow> None
                                 | Some qs \<Rightarrow>
                                     subscribe_read_loop schar rc0 buf (p' + 1) enddata (count + 1) ts qs)))))
      else Some (1, count, ts, qs))"
  by pat_completeness auto
termination
  by (relation "measure (\<lambda>(_, _, _, p, enddata, _). enddata - p)")
    (auto dest!: readMQTTLenString_advance)

definition MQTTDeserialize_subscribe ::
    "bool \<Rightarrow> byte \<Rightarrow> 16 word \<Rightarrow> int \<Rightarrow> nat \<Rightarrow> MQTTString list \<Rightarrow> int list \<Rightarrow> bytes \<Rightarrow> int \<Rightarrow>
      (int \<times> byte \<times> 16 word \<times> nat \<times> MQTTString list \<times> int list) option" where
  "MQTTDeserialize_subscribe schar dup packetid maxcount count topicFilters requestedQoSs buf buflen = do {
     (b, p) \<leftarrow> readChar buf 0;
     if h_type (header_of b) \<noteq> msgType_num SUBSCRIBE
     then Some (-1, dup, packetid, count, topicFilters, requestedQoSs)
     else do {
       let dup = word_of_nat (h_dup (header_of b));
       (rc, mylen) \<leftarrow> MQTTPacket_decodeBuf buf p;
       let p = p + nat rc;
       let enddata = p + nat mylen;
       (n, p) \<leftarrow> readInt buf p;
       (rc, count, ts, qs) \<leftarrow> subscribe_read_loop schar rc buf p enddata 0 topicFilters requestedQoSs;
       Some (rc, dup, word_of_int n, count, ts, qs)
     }
   }"

fun suback_write_loop :: "int list \<Rightarrow> nat \<Rightarrow> nat \<Rightarrow> cursor \<Rightarrow> cursor option" where
  "suback_write_loop grantedQoSs i 0 w = Some w"
| "suback_write_loop grantedQoSs i (Suc k) w = do {
     q \<leftarrow> read_at grantedQoSs i;
     w \<leftarrow> writeChar w (uchar q);
     suback_write_loop grantedQoSs (i + 1) k w
   }"

definition MQTTSerialize_suback ::
    "bytes \<Rightarrow> int \<Rightarrow> 16 word \<Rightarrow> int \<Rightarrow> int list \<Rightarrow> (bytes \<times> int) option" where
  "MQTTSerialize_suback buf buflen packetid count grantedQoSs =
     (if buflen < 2 + count then Some (buf, MQTTPACKET_BUFFER_TOO_SHORT)
      else do {
        w \<leftarrow> writeChar (buf, 0) (header_byte (header0\<lparr>h_type := msgType_num SUBACK\<rparr>));
        w \<leftarrow> put_rem_len w (2 + count);
        w \<leftarrow> writeInt w (int (unat packetid));
        w \<leftarrow> suback_write_loop grantedQoSs 0 (nat count) w;
        Some (fst w, int (snd w))
      })"

section \<open>Unsubscribe\<close>

fun unsubscribeLength_loop :: "MQTTString list \<Rightarrow> nat \<Rightarrow> nat \<Rightarrow> int \<Rightarrow> int option" where
  "unsubscribeLength_loop topicFilters i 0 len = Some len"
| "unsubscribeLength_loop topicFilters i (Suc k) len = do {
     t \<leftarrow> read_at topicFilters i;
     unsubscribeLength_loop topicFilters (i + 1) k (len + (2 + MQTTstrlen t))
   }"

definition MQTTSerialize_unsubscribeLength :: "int \<Rightarrow> MQTTString list \<Rightarrow> int option" where
  "MQTTSerialize_unsubscribeLength count topicFilters = unsubscribeLength_loop topicFilters 0 (nat count) 2"

fun unsubscribe_loop :: "MQTTString list \<Rightarrow> nat \<Rightarrow> nat \<Rightarrow> cursor \<Rightarrow> cursor option" where
  "unsubscribe_loop topicFilters i 0 w = Some w"
| "unsubscribe_loop topicFilters i (Suc k) w = do {
     t \<leftarrow> read_at topicFilters i;
     w \<leftarrow> writeMQTTString w t;
     unsubscribe_loop topicFilters (i + 1) k w
   }"

definition MQTTSerialize_unsubscribe ::
    "bytes \<Rightarrow> int \<Rightarrow> byte \<Rightarrow> 16 word \<Rightarrow> int \<Rightarrow> MQTTString list \<Rightarrow> (bytes \<times> int) option" where
  "MQTTSerialize_unsubscribe buf buflen dup packetid count topicFilters = do {
     rem_len \<leftarrow> MQTTSerialize_unsubscribeLength count topicFilters;
     if MQTTPacket_len rem_len > buflen then Some (buf, MQTTPACKET_BUFFER_TOO_SHORT)
     else do {
       w \<leftarrow> writeChar (buf, 0) (header_byte \<lparr>h_type = msgType_num UNSUBSCRIBE, h_dup = unat dup, h_qos = 1, h_retain = 0\<rparr>);
       w \<leftarrow> put_rem_len w rem_len;
       w \<leftarrow> writeInt w (int (unat packetid));
       w \<leftarrow> unsubscribe_loop topicFilters 0 (nat count) w;
       Some (fst w, int (snd w))
     }
   }"

definition MQTTDeserialize_unsuback :: "16 word \<Rightarrow> bytes \<Rightarrow> int \<Rightarrow> int \<times> 16 word" where
  "MQTTDeserialize_unsuback packetid buf buflen =
     (case MQTTDeserialize_ack 0 0 packetid buf buflen of
        (rc, type, dup, packetid) \<Rightarrow>
          (if unat type = msgType_num UNSUBACK then 1 else rc, packetid))"

function unsubscribe_read_loop ::
    "int \<Rightarrow> bytes \<Rightarrow> nat \<Rightarrow> nat \<Rightarrow> nat \<Rightarrow> MQTTString list \<Rightarrow> (int \<times> nat \<times> MQTTString list) option" where
  "unsubscribe_read_loop rc0 buf p enddata count ts =
     (if p < enddata then
        (case read_at ts count of
           None \<Rightarrow> None
         | Some t \<Rightarrow>
             (case readMQTTLenString t buf p enddata of
                None \<Rightarrow> None
              | Some (ok, t', p') \<Rightarrow>
                  (let ts = ts[count := t']
                   in if ok = 0 then Some (rc0, count, ts)
                      else unsubscribe_read_loop rc0 buf p' enddata (count + 1) ts)))
      else Some (1, count, ts))"
  by pat_completeness auto
termination
  by (relation "measure (\<lambda>(_, _, p, enddata, _). enddata - p)")
    (auto dest!: readMQTTLenString_advance)

definition MQTTDeserialize_unsubscribe ::
    "byte \<Rightarrow> 16 word \<Rightarrow> int \<Rightarrow> nat \<Rightarrow> MQTTString list \<Rightarrow> bytes \<Rightarrow> int \<Rightarrow>
      (int \<times> byte \<times> 16 word \<times> nat \<times> MQTTString list) option" where
  "MQTTDeserialize_unsubscribe dup packetid maxcount count topicFilters buf len = do {
     (b, p) \<leftarrow> readChar buf 0;
     if h_type (header_of b) \<noteq> msgType_num UNSUBSCRIBE
     then Some (0, dup, packetid, count, topicFilters)
     else do {
       let dup = word_of_nat (h_dup (header_of b));
       (rc, mylen) \<leftarrow> MQTTPacket_decodeBuf buf p;
       let p = p + nat rc;
       let enddata = p + nat mylen;
       (n, p) \<leftarrow> readInt buf p;
       (rc, count, ts) \<leftarrow> unsubscribe_read_loop rc buf p enddata 0 topicFilters;
       Some (rc, dup, word_of_int n, count, ts)
     }
   }"

definition MQTTSerialize_unsuback :: "bytes \<Rightarrow> int \<Rightarrow> 16 word \<Rightarrow> (bytes \<times> int) option" where
  "MQTTSerialize_unsuback buf buflen packetid =
     (if buflen < 2 then Some (buf, MQTTPACKET_BUFFER_TOO_SHORT)
      else do {
        w \<leftarrow> writeChar (buf, 0) (header_byte (header0\<lparr>h_type := msgType_num UNSUBACK\<rparr>));
        w \<leftarrow> put_rem_len w 2;
        w \<leftarrow> writeInt w (int (unat packetid));
        Some (fst w, int (snd w))
      })"

declare subscribe_read_loop.simps [simp del] unsubscribe_read_loop.simps [simp del] suback_loop.simps [simp del]

section \<open>What the serialisers write\<close>

definition entry_bytes :: "bytes \<times> byte \<Rightarrow> bytes" where
  "entry_bytes e = utf_bytes (fst e) @ [snd e]"

lemma length_entry_bytes [simp]: "length (entry_bytes e) = length (fst e) + 3"
  by (simp add: entry_bytes_def)

definition entries :: "MQTTString list \<Rightarrow> int list \<Rightarrow> (bytes \<times> byte) list" where
  "entries ts qs = zip (map str_content ts) (map uchar qs)"

definition subscribe_body :: "16 word \<Rightarrow> MQTTString list \<Rightarrow> int list \<Rightarrow> bytes" where
  "subscribe_body packetid ts qs = int16_bytes (int (unat packetid)) @ concat (map entry_bytes (entries ts qs))"

definition unsubscribe_body :: "16 word \<Rightarrow> MQTTString list \<Rightarrow> bytes" where
  "unsubscribe_body packetid ts = int16_bytes (int (unat packetid)) @ concat (map (utf_bytes \<circ> str_content) ts)"

text \<open>The three counting loops walk a suffix of the arrays.\<close>

lemma subscribeLength_loop_entries:
  assumes "drop i ts = ts'" and "\<forall>t \<in> set ts'. wf_string t" and "length qs = length ts'"
  shows "subscribeLength_loop ts i (length ts') len =
    Some (len + int (length (concat (map entry_bytes (entries ts' qs)))))"
  using assms
proof (induction ts' arbitrary: i len qs)
  case (Cons t ts')
  then obtain q qs' where "qs = q # qs'" by (cases qs) auto
  with Cons show ?case
    using length_str_content [of t]
    by (simp add: read_at_ahead [OF Cons.prems(1)] drop_ConsD(3) [OF Cons.prems(1)] entries_def)
qed (simp add: entries_def)

lemma loops_done [simp]:
  "subscribe_loop ts qs i 0 = Some" "unsubscribe_loop ts i 0 = Some" "suback_write_loop gs i 0 = Some"
  by (simp_all add: fun_eq_iff)

lemma subscribe_loop_entries:
  assumes "drop i ts = ts'" and "drop i qs = qs'" and "length ts' = length qs'" and "\<forall>t \<in> set ts'. wf_string t"
  shows "Option.bind (emit w xs) (subscribe_loop ts qs i (length ts')) =
    emit w (xs @ concat (map entry_bytes (entries ts' qs')))"
  using assms
proof (induction ts' arbitrary: i qs' xs)
  case (Cons t ts')
  then obtain q qs'' where q: "qs' = q # qs''" by (cases qs') auto
  let ?e = "utf_bytes (str_content t) @ [uchar q]"
  note at = read_at_ahead [OF Cons.prems(1)] read_at_ahead [OF Cons.prems(2) [unfolded q]]
  have "subscribe_loop ts qs i (length (t # ts')) = (\<lambda>v. Option.bind (emit v ?e) (subscribe_loop ts qs (Suc i) (length ts')))"
    using Cons.prems(4) by (simp add: at writeMQTTString_emit emit_rules fun_eq_iff)
  then have "Option.bind (emit w xs) (subscribe_loop ts qs i (length (t # ts'))) =
      Option.bind (emit w (xs @ ?e)) (subscribe_loop ts qs (Suc i) (length ts'))"
    by (simp add: emit_bind)
  also have "\<dots> = emit w ((xs @ ?e) @ concat (map entry_bytes (entries ts' qs'')))"
    using Cons.prems q drop_ConsD(3) [OF Cons.prems(1)] drop_ConsD(3) [OF Cons.prems(2) [unfolded q]]
    by (intro Cons.IH) auto
  also have "(xs @ ?e) @ concat (map entry_bytes (entries ts' qs'')) = xs @ concat (map entry_bytes (entries (t # ts') qs'))"
    by (simp add: q entries_def entry_bytes_def)
  finally show ?case .
qed (simp add: entries_def)

lemma unsubscribeLength_loop_entries:
  assumes "drop i ts = ts'" and "\<forall>t \<in> set ts'. wf_string t"
  shows "unsubscribeLength_loop ts i (length ts') len =
    Some (len + int (length (concat (map (utf_bytes \<circ> str_content) ts'))))"
  using assms
proof (induction ts' arbitrary: i len)
  case (Cons t ts')
  then show ?case
    using length_str_content [of t]
    by (simp add: read_at_ahead [OF Cons.prems(1)] drop_ConsD(3) [OF Cons.prems(1)])
qed simp

lemma unsubscribe_loop_entries:
  assumes "drop i ts = ts'" and "\<forall>t \<in> set ts'. wf_string t"
  shows "Option.bind (emit w xs) (unsubscribe_loop ts i (length ts')) =
    emit w (xs @ concat (map (utf_bytes \<circ> str_content) ts'))"
  using assms
proof (induction ts' arbitrary: i xs)
  case (Cons t ts')
  have "unsubscribe_loop ts i (length (t # ts')) =
      (\<lambda>v. Option.bind (emit v (utf_bytes (str_content t))) (unsubscribe_loop ts (Suc i) (length ts')))"
    using Cons.prems(2) by (simp add: read_at_ahead [OF Cons.prems(1)] writeMQTTString_emit fun_eq_iff)
  then have "Option.bind (emit w xs) (unsubscribe_loop ts i (length (t # ts'))) =
      Option.bind (emit w (xs @ utf_bytes (str_content t))) (unsubscribe_loop ts (Suc i) (length ts'))"
    by (simp add: emit_bind)
  also have "\<dots> = emit w ((xs @ utf_bytes (str_content t)) @ concat (map (utf_bytes \<circ> str_content) ts'))"
    using Cons.prems drop_ConsD(3) [OF Cons.prems(1)] by (intro Cons.IH) auto
  also have "(xs @ utf_bytes (str_content t)) @ concat (map (utf_bytes \<circ> str_content) ts') =
      xs @ concat (map (utf_bytes \<circ> str_content) (t # ts'))" by simp
  finally show ?case .
qed simp

lemma suback_write_loop_entries:
  assumes "drop i gs = gs'"
  shows "Option.bind (emit w xs) (suback_write_loop gs i (length gs')) = emit w (xs @ map uchar gs')"
  using assms
proof (induction gs' arbitrary: i xs)
  case (Cons g gs')
  have "suback_write_loop gs i (length (g # gs')) =
      (\<lambda>v. Option.bind (emit v [uchar g]) (suback_write_loop gs (Suc i) (length gs')))"
    by (simp add: read_at_ahead [OF Cons.prems] emit_rules fun_eq_iff)
  then show ?case
    using Cons.IH [of "Suc i" "xs @ [uchar g]"] drop_ConsD(3) [OF Cons.prems] by (simp add: emit_bind)
qed simp

definition sub_header :: "msgTypes \<Rightarrow> byte \<Rightarrow> MQTTHeader" where
  "sub_header t dup = \<lparr>h_type = msgType_num t, h_dup = unat dup, h_qos = 1, h_retain = 0\<rparr>"

lemma MQTTSerialize_subscribe_packet:
  assumes "\<forall>t \<in> set ts. wf_string t" and "length qs = length ts" and "buflen \<le> int (length buf)"
    and "length (subscribe_body packetid ts qs) < 268435455"
  shows "MQTTSerialize_subscribe buf buflen dup packetid (int (length ts)) ts qs =
    serialised (packet (sub_header SUBSCRIBE dup) (subscribe_body packetid ts qs))
      (int (length (subscribe_body packetid ts qs))) buf buflen"
proof -
  let ?body = "subscribe_body packetid ts qs"
  let ?p = "packet (sub_header SUBSCRIBE dup) ?body"
  have len: "MQTTSerialize_subscribeLength (int (length ts)) ts = Some (int (length ?body))"
    using subscribeLength_loop_entries [of 0 ts ts qs 2] assms
    by (simp add: MQTTSerialize_subscribeLength_def subscribe_body_def)
  obtain m where m: "m = length ?body" by simp
  have "MQTTSerialize_subscribe buf buflen dup packetid (int (length ts)) ts qs =
      Option.bind (emit (buf, 0) ?p) (\<lambda>w. Some (fst w, int (snd w)))"
    if "\<not> MQTTPacket_len (int m) > buflen"
    using that subscribe_loop_entries [of 0 ts ts qs qs "(buf, 0)"] assms unfolding packet_def m [symmetric]
    by (simp add: MQTTSerialize_subscribe_def len m [symmetric] put_rem_len_emit emit_rules sub_header_def
        flip: bind_assoc) (simp add: subscribe_body_def)
  then show ?thesis
    using packet_fits [OF _ assms(3,4)]
    by (auto simp: serialised_def len emit_done MQTTSerialize_subscribe_def m)
qed

lemma MQTTSerialize_unsubscribe_packet:
  assumes "\<forall>t \<in> set ts. wf_string t" and "buflen \<le> int (length buf)"
    and "length (unsubscribe_body packetid ts) < 268435455"
  shows "MQTTSerialize_unsubscribe buf buflen dup packetid (int (length ts)) ts =
    serialised (packet (sub_header UNSUBSCRIBE dup) (unsubscribe_body packetid ts))
      (int (length (unsubscribe_body packetid ts))) buf buflen"
proof -
  let ?body = "unsubscribe_body packetid ts"
  let ?p = "packet (sub_header UNSUBSCRIBE dup) ?body"
  have len: "MQTTSerialize_unsubscribeLength (int (length ts)) ts = Some (int (length ?body))"
    using unsubscribeLength_loop_entries [of 0 ts ts 2] assms
    by (simp add: MQTTSerialize_unsubscribeLength_def unsubscribe_body_def)
  obtain m where m: "m = length ?body" by simp
  have "MQTTSerialize_unsubscribe buf buflen dup packetid (int (length ts)) ts =
      Option.bind (emit (buf, 0) ?p) (\<lambda>w. Some (fst w, int (snd w)))"
    if "\<not> MQTTPacket_len (int m) > buflen"
    using that unsubscribe_loop_entries [of 0 ts ts "(buf, 0)"] assms unfolding packet_def m [symmetric]
    by (simp add: MQTTSerialize_unsubscribe_def len m [symmetric] put_rem_len_emit emit_rules sub_header_def
        flip: bind_assoc) (simp add: unsubscribe_body_def)
  then show ?thesis
    using packet_fits [OF _ assms(2,3)]
    by (auto simp: serialised_def len emit_done MQTTSerialize_unsubscribe_def m)
qed

section \<open>What the readers recover\<close>

text \<open>The cells \<open>c, ..., c + n - 1\<close> of an array.\<close>

definition cells :: "nat \<Rightarrow> nat \<Rightarrow> 'a list \<Rightarrow> 'a list" where
  "cells c n xs = take n (drop c xs)"

lemma cells_Suc:
  assumes "take (Suc c) xs = take (Suc c) (ys[c := y])" and "c < length ys" and "length xs = length ys"
  shows "cells c (Suc n) xs = y # cells (Suc c) n xs" and "take c xs = take c ys"
proof -
  have "xs ! c = take (Suc c) xs ! c" by simp
  also have "\<dots> = y" using assms by (simp del: take_Suc)
  finally have "xs ! c = y" .
  then show "cells c (Suc n) xs = y # cells (Suc c) n xs"
    using assms(2,3) by (simp add: cells_def flip: Cons_nth_drop_Suc)
  have "take c (take (Suc c) xs) = take c (take (Suc c) (ys[c := y]))" using assms(1) by simp
  then show "take c xs = take c ys" by simp
qed

lemma subscribe_read_step:
  assumes "drop p buf = entry_bytes e @ rest" and "length (fst e) < 65536"
    and "p + length (entry_bytes e) \<le> enddata" and "c < length ts" and "c < length qs"
  shows "subscribe_read_loop schar rc0 buf p enddata c ts qs =
    subscribe_read_loop schar rc0 buf (p + length (entry_bytes e)) enddata (Suc c)
      (ts[c := len_string (fst e) (snd e # rest)]) (qs[c := char_int schar (snd e)])"
proof -
  let ?p = "p + 2 + length (fst e)"
  have a: "drop p buf = utf_bytes (fst e) @ snd e # rest" using assms(1) by (simp add: entry_bytes_def)
  have r: "readMQTTLenString t buf p enddata = Some (1, len_string (fst e) (snd e # rest), ?p)" for t
    using assms(2,3) by (intro readMQTTLenString_ahead [OF a]) auto
  have "drop ?p buf = snd e # rest" using drop_appendD [OF a] by (simp add: ac_simps)
  then have "readChar buf ?p = Some (snd e, ?p + 1)" by (rule readChar_ahead)
  with r assms(3-5) show ?thesis
    by (subst subscribe_read_loop.simps) (simp add: read_at_def write_at_def Let_def eval_nat_numeral)
qed

lemma subscribe_read_loop_entries:
  assumes "drop p buf = concat (map entry_bytes es) @ rest"
    and "enddata = p + length (concat (map entry_bytes es))"
    and "\<forall>e \<in> set es. length (fst e) < 65536"
    and "c + length es \<le> length ts" and "c + length es \<le> length qs"
  shows "\<exists>ts' qs'. subscribe_read_loop schar rc0 buf p enddata c ts qs = Some (1, c + length es, ts', qs') \<and>
    length ts' = length ts \<and> length qs' = length qs \<and> take c ts' = take c ts \<and> take c qs' = take c qs \<and>
    map str_content (cells c (length es) ts') = map fst es \<and>
    cells c (length es) qs' = map (char_int schar \<circ> snd) es"
  using assms
proof (induction es arbitrary: p c ts qs)
  case Nil
  then show ?case by (subst subscribe_read_loop.simps) (simp add: cells_def)
next
  case (Cons e es)
  let ?rest = "concat (map entry_bytes es) @ rest"
  let ?t = "len_string (fst e) (snd e # ?rest)" and ?q = "char_int schar (snd e)"
  have a: "drop p buf = entry_bytes e @ ?rest" using Cons.prems(1) by simp
  have c: "c < length ts" "c < length qs" using Cons.prems(4,5) by auto
  have step: "subscribe_read_loop schar rc0 buf p enddata c ts qs =
      subscribe_read_loop schar rc0 buf (p + length (entry_bytes e)) enddata (Suc c) (ts[c := ?t]) (qs[c := ?q])"
    using Cons.prems c by (intro subscribe_read_step [OF a]) auto
  obtain ts' qs' where r: "subscribe_read_loop schar rc0 buf (p + length (entry_bytes e)) enddata (Suc c)
        (ts[c := ?t]) (qs[c := ?q]) = Some (1, Suc c + length es, ts', qs')"
    "length ts' = length ts" "length qs' = length qs"
    "take (Suc c) ts' = take (Suc c) (ts[c := ?t])" "take (Suc c) qs' = take (Suc c) (qs[c := ?q])"
    "map str_content (cells (Suc c) (length es) ts') = map fst es"
    "cells (Suc c) (length es) qs' = map (char_int schar \<circ> snd) es"
    using Cons.IH [of "p + length (entry_bytes e)" "Suc c" "ts[c := ?t]" "qs[c := ?q]"]
      Cons.prems drop_appendD [OF a] by (auto simp: add.assoc)
  note t = cells_Suc [OF r(4) c(1) r(2)] and q = cells_Suc [OF r(5) c(2) r(3)]
  show ?case unfolding step using r t q by simp
qed

lemma unsubscribe_read_step:
  assumes "drop p buf = utf_bytes x @ rest" and "length x < 65536"
    and "p + 2 + length x \<le> enddata" and "c < length ts"
  shows "unsubscribe_read_loop rc0 buf p enddata c ts =
    unsubscribe_read_loop rc0 buf (p + 2 + length x) enddata (Suc c) (ts[c := len_string x rest])"
  using assms readMQTTLenString_ahead [OF assms(1,2,3)]
  by (subst unsubscribe_read_loop.simps) (simp add: read_at_def Let_def)

lemma unsubscribe_read_loop_entries:
  assumes "drop p buf = concat (map utf_bytes xs) @ rest"
    and "enddata = p + length (concat (map utf_bytes xs))"
    and "\<forall>x \<in> set xs. length x < 65536" and "c + length xs \<le> length ts"
  shows "\<exists>ts'. unsubscribe_read_loop rc0 buf p enddata c ts = Some (1, c + length xs, ts') \<and>
    length ts' = length ts \<and> take c ts' = take c ts \<and> map str_content (cells c (length xs) ts') = xs"
  using assms
proof (induction xs arbitrary: p c ts)
  case Nil
  then show ?case by (subst unsubscribe_read_loop.simps) (simp add: cells_def)
next
  case (Cons x xs)
  let ?rest = "concat (map utf_bytes xs) @ rest"
  have a: "drop p buf = utf_bytes x @ ?rest" using Cons.prems(1) by simp
  have c: "c < length ts" using Cons.prems(4) by auto
  have step: "unsubscribe_read_loop rc0 buf p enddata c ts =
      unsubscribe_read_loop rc0 buf (p + 2 + length x) enddata (Suc c) (ts[c := len_string x ?rest])"
    using Cons.prems c by (intro unsubscribe_read_step [OF a]) auto
  obtain ts' where r: "unsubscribe_read_loop rc0 buf (p + 2 + length x) enddata (Suc c)
        (ts[c := len_string x ?rest]) = Some (1, Suc c + length xs, ts')"
    "length ts' = length ts" "take (Suc c) ts' = take (Suc c) (ts[c := len_string x ?rest])"
    "map str_content (cells (Suc c) (length xs) ts') = xs"
    using Cons.IH [of "p + 2 + length x" "Suc c" "ts[c := len_string x ?rest]"]
      Cons.prems drop_appendD [OF a] by (auto simp: ac_simps)
  note t = cells_Suc [OF r(3) c(1) r(2)]
  show ?case unfolding step using r t by simp
qed

lemma str_contents_bound: "\<forall>t \<in> set ts. wf_string t \<Longrightarrow> \<forall>e \<in> set (entries ts qs). length (fst e) < 65536"
  by (auto simp: entries_def str_content_bound dest!: set_zip_leftD)

lemma length_entries [simp]: "length (entries ts qs) = min (length ts) (length qs)"
  by (simp add: entries_def)

lemma entries_fst_snd:
  "length qs = length ts \<Longrightarrow> map fst (entries ts qs) = map str_content ts"
  "length qs = length ts \<Longrightarrow> map (char_int schar \<circ> snd) (entries ts qs) = map (char_int schar \<circ> uchar) qs"
  by (simp_all add: entries_def flip: map_map)

text \<open>Both subscription readers start with the packet identifier.\<close>

lemma sub_packet_start:
  fixes i :: "16 word"
  assumes "buf = packet (sub_header t dup) (int16_bytes (int (unat i)) @ tail) @ rest"
    and "length tail < 268435450"
  obtains p where "readChar buf 0 = Some (header_byte (sub_header t dup), 1)"
    and "MQTTPacket_decodeBuf buf 1 = Some (int p - 1, int (2 + length tail))" and "1 \<le> p"
    and "readInt buf p = Some (int (unat i), p + 2)" and "drop (p + 2) buf = tail @ rest"
    and "h_type (header_of (header_byte (sub_header t dup))) = msgType_num t"
    and "h_dup (header_of (header_byte (sub_header t dup))) = unat dup mod 2"
proof -
  let ?body = "int16_bytes (int (unat i)) @ tail"
  let ?p = "1 + length (rem_len_bytes (length ?body))"
  have small: "length ?body < 268435456" using assms(2) by simp
  note start = packet_start [OF assms(1) small]
  have a: "drop ?p buf = int16_bytes (int (unat i)) @ tail @ rest" using start(3) by simp
  have "msgType_num t < 16" by (cases t) auto
  then show thesis
    using start readInt_ahead [OF a] drop_appendD [OF a]
    by (intro that [of ?p]) (auto simp: header_of_byte sub_header_def)
qed

section \<open>Properties\<close>



text \<open>UNSUBSCRIBE packets are serialised exactly and round-trip in the same sense.\<close>

theorem unsubscribe_roundtrip:
  assumes "\<forall>t \<in> set ts. wf_string t" and "buflen \<le> int (length buf)"
    and "length (unsubscribe_body i ts) < 268435450" and "length ts \<le> length ts0"
  shows "MQTTSerialize_unsubscribe buf buflen dup i (int (length ts)) ts = Some (buf, MQTTPACKET_BUFFER_TOO_SHORT) \<or>
    (\<exists>buf' rc ts'. MQTTSerialize_unsubscribe buf buflen dup i (int (length ts)) ts = Some (buf', rc) \<and>
       buf' = packet (sub_header UNSUBSCRIBE dup) (unsubscribe_body i ts) @ drop (nat rc) buf \<and>
       MQTTDeserialize_unsubscribe d0 i0 maxcount c0 ts0 buf' rc =
         Some (1, word_of_nat (unat dup mod 2), i, length ts, ts') \<and>
       map str_content (take (length ts) ts') = map str_content ts)"
proof (cases "MQTTPacket_len (int (length (unsubscribe_body i ts))) > buflen")
  case True
  then show ?thesis
    using MQTTSerialize_unsubscribe_packet [OF assms(1,2), of i dup] assms(3) by (simp add: serialised_def)
next
  case False
  let ?pkt = "packet (sub_header UNSUBSCRIBE dup) (unsubscribe_body i ts)"
  let ?tail = "concat (map utf_bytes (map str_content ts))"
  let ?rest = "drop (length ?pkt) buf"
  have ser: "MQTTSerialize_unsubscribe buf buflen dup i (int (length ts)) ts = Some (?pkt @ ?rest, int (length ?pkt))"
    using MQTTSerialize_unsubscribe_packet [OF assms(1,2), of i dup] assms(3) False by (simp add: serialised_def)
  obtain p where p: "readChar (?pkt @ ?rest) 0 = Some (header_byte (sub_header UNSUBSCRIBE dup), 1)"
    "MQTTPacket_decodeBuf (?pkt @ ?rest) 1 = Some (int p - 1, int (2 + length ?tail))" "1 \<le> p"
    "readInt (?pkt @ ?rest) p = Some (int (unat i), p + 2)" "drop (p + 2) (?pkt @ ?rest) = ?tail @ ?rest"
    "h_type (header_of (header_byte (sub_header UNSUBSCRIBE dup))) = msgType_num UNSUBSCRIBE"
    "h_dup (header_of (header_byte (sub_header UNSUBSCRIBE dup))) = unat dup mod 2"
    by (rule sub_packet_start [OF refl, of ?tail UNSUBSCRIBE dup i ?rest])
      (use assms(3) in \<open>auto simp: unsubscribe_body_def\<close>)
  have "\<forall>x \<in> set (map str_content ts). length x < 65536" using assms(1) by (auto simp: str_content_bound)
  then obtain ts' where l: "unsubscribe_read_loop (int p - 1) (?pkt @ ?rest) (p + 2) (p + (2 + length ?tail)) 0 ts0 =
      Some (1, length ts, ts')" "map str_content (cells 0 (length ts) ts') = map str_content ts"
    using unsubscribe_read_loop_entries [OF p(5) refl, of 0 ts0 "int p - 1"] assms(4) by (auto simp: add.assoc)
  have "nat (int p - 1) = p - 1" by simp
  with p l(1) have "MQTTDeserialize_unsubscribe d0 i0 maxcount c0 ts0 (?pkt @ ?rest) rc =
      Some (1, word_of_nat (unat dup mod 2), i, length ts, ts')" for rc
    by (simp add: MQTTDeserialize_unsubscribe_def Let_def nat_add_distrib)
  then show ?thesis using ser l(2) by (auto simp: cells_def)
qed

theorem unsubscribe_roundtrip_witness:
  "MQTTSerialize_unsubscribe (replicate 20 0) 20 0 5 1 [topic_example] =
     Some (replicate 20 0, MQTTPACKET_BUFFER_TOO_SHORT) \<or>
   (\<exists>buf' rc ts'. MQTTSerialize_unsubscribe (replicate 20 0) 20 0 5 1 [topic_example] = Some (buf', rc) \<and>
      buf' = packet (sub_header UNSUBSCRIBE 0) (unsubscribe_body 5 [topic_example]) @ drop (nat rc) (replicate 20 0) \<and>
      MQTTDeserialize_unsubscribe 0 0 1 0 [MQTTString_initializer] buf' rc =
        Some (1, word_of_nat (unat (0 :: byte) mod 2), 5, length [topic_example], ts') \<and>
      map str_content (take (length [topic_example]) ts') = map str_content [topic_example])"
proof -
  have "length (unsubscribe_body 5 [topic_example]) < 268435450"
    by (simp add: unsubscribe_body_def topic_example_def MQTTString_initializer_def str_content_def)
  from unsubscribe_roundtrip [OF _ _ this, of 20 "replicate 20 0" "[MQTTString_initializer]" 0 0 0 1 0]
  show ?thesis using wf_topic_example by simp
qed

section \<open>Defects\<close>

text \<open>The buffer checks of the SUBACK and UNSUBACK serialisers are two bytes short.\<close>

lemma suback_short_buffer_overflow: "MQTTSerialize_suback [0, 0, 0] 3 i 1 [1] = None"
  using suback_write_loop_entries [of 0 "[1]" "[1]" "([0, 0, 0], 0)"]
  by (simp add: MQTTSerialize_suback_def emit_rules put_rem_len_emit emit_def mem_write_def rem_len_bytes_last
      eval_nat_numeral)

lemma unsuback_short_buffer_overflow:
  assumes "length buf = 2 \<or> length buf = 3"
  shows "MQTTSerialize_unsuback buf (int (length buf)) i = None"
  using assms
  by (auto simp: MQTTSerialize_unsuback_def emit_rules put_rem_len_emit emit_def mem_write_def
      rem_len_bytes_last)

text \<open>The reader of a SUBACK takes the packet identifier for a length: an identifier of at least 4
  makes the client's one-element array overflow on a well-formed SUBACK for one topic, and an
  identifier of at most 2 returns no quality of service at all.\<close>

lemma suback_reader_overflow: "MQTTDeserialize_suback schar 1 [0] [0, 4, 1, 7] 4 = None"
  by (simp add: MQTTDeserialize_suback_def readInt_def read_at_def suback_loop.simps readChar_def write_at_def)

lemma suback_reader_small_id:
  assumes "unat a * 256 + unat b \<le> 2"
  shows "MQTTDeserialize_suback schar 1 [g] [a, b, q] 3 = Some (1, 0, [g])"
proof -
  have "\<not> 2 < nat (256 * int (unat a) + int (unat b))" using assms by linarith
  then show ?thesis
    by (simp add: MQTTDeserialize_suback_def readInt_def read_at_def suback_loop.simps del: of_nat_unat)
qed

text \<open>The readers of subscription lists ignore \<open>maxcount\<close>: one topic more than the arrays hold is
  written past their end.\<close>

lemma subscribe_reader_ignores_maxcount:
  "MQTTDeserialize_unsubscribe 0 0 0 0 [] [0xA2, 5, 0, 1, 0, 1, 65] 7 = None"
proof -
  have "MQTTPacket_decodeBuf [0xA2, 5, 0, 1, 0, 1, 65] 1 = Some (1, 5)"
    using MQTTPacket_decodeBuf_bytes [of 5 1 "[0xA2, 5, 0, 1, 0, 1, 65]" "[0, 1, 0, 1, 65]"]
    by (simp add: rem_len_bytes_last)
  then show ?thesis
    by (simp add: MQTTDeserialize_unsubscribe_def readChar_def read_at_def header_of_def readInt_def
        unsubscribe_read_loop.simps)
qed

end
