(* ===== verification/Mqtt_Read.thy ===== *)
theory Mqtt_Read
  imports Mqtt_Packet
begin

text \<open>
  Reading a packet from a transport, \<open>MQTTPacket_read\<close>, \<open>MQTTPacket_decodenb\<close> and
  \<open>MQTTPacket_readnb\<close> of \<open>src/mqtt/packet/src/MQTTPacket.c\<close>.

  The transport's \<open>getfn\<close> is a parameter: a call for at most \<open>n\<close> bytes returns its result code, the
  bytes it stored through the pointer and the next state of the transport. \<open>delivers\<close> is the contract
  that \<open>MQTTPacket.h\<close> documents for it (the number of bytes read, 0 for ``call again'').
  The non-blocking reader keeps its position in the \<open>MQTTTransport\<close> structure; \<open>nb_inv\<close> is the
  invariant that relates it to the part of the packet that has arrived.
\<close>

section \<open>The readers\<close>

type_synonym 's getfn = "'s \<Rightarrow> nat \<Rightarrow> int \<times> bytes \<times> 's"

text \<open>A call for one character into a local variable.\<close>

definition get_char :: "'s getfn \<Rightarrow> 's \<Rightarrow> (int \<times> byte \<times> 's) option" where
  "get_char getfn s =
     (case getfn s 1 of
        (rc, [], s') \<Rightarrow> if rc = 1 then None else Some (rc, 0, s')
      | (rc, [c], s') \<Rightarrow> Some (rc, c, s')
      | _ \<Rightarrow> None)"

definition MQTTPacket_read :: "'s getfn \<Rightarrow> 's \<Rightarrow> bytes \<Rightarrow> int \<Rightarrow> (int \<times> bytes \<times> 's) option" where
  "MQTTPacket_read getfn s buf buflen =
     (case getfn s 1 of (frc, data, s) \<Rightarrow> do {
        buf \<leftarrow> mem_write buf 0 data;
        if frc \<noteq> 1 then Some (-1, buf, s)
        else do {
          (_, rem_len, s) \<leftarrow> MQTTPacket_decode (get_char getfn) s;
          (buf, n) \<leftarrow> MQTTPacket_encode (buf, 1) rem_len;
          let len = 1 + n;
          if rem_len + int len > buflen then Some (-1, buf, s)
          else if rem_len \<noteq> 0 then
            (case getfn s (nat rem_len) of (frc, data, s) \<Rightarrow> do {
               buf \<leftarrow> mem_write buf len data;
               if frc \<noteq> rem_len then Some (-1, buf, s)
               else do { b \<leftarrow> read_at buf 0; Some (int (h_type (header_of b)), buf, s) }
             })
          else do { b \<leftarrow> read_at buf 0; Some (int (h_type (header_of b)), buf, s) }
        }
      })"

record 's MQTTTransport =
  sck :: 's
  t_multiplier :: int
  t_rem_len :: int
  t_len :: int
  t_state :: int

function decodenb_loop :: "'s getfn \<Rightarrow> 's MQTTTransport \<Rightarrow> (int \<times> 's MQTTTransport) option" where
  "decodenb_loop getfn trp =
     (if t_len trp \<ge> 4 then Some (MQTTPACKET_READ_ERROR, trp)
      else case getfn (sck trp) 1 of (frc, data, s) \<Rightarrow>
        (let trp = trp\<lparr>sck := s\<rparr>
         in if frc = -1 then Some (MQTTPACKET_READ_ERROR, trp)
            else if frc = 0 then Some (0, trp)
            else case data of
                [c] \<Rightarrow>
                  (let trp = trp\<lparr>t_len := t_len trp + 1,
                       t_rem_len := t_rem_len trp + int (unat (c AND 127)) * t_multiplier trp,
                       t_multiplier := t_multiplier trp * 128\<rparr>
                   in if c AND 128 \<noteq> 0 then decodenb_loop getfn trp else Some (t_len trp, trp))
              | _ \<Rightarrow> None))"
  by pat_completeness auto
termination
  by (relation "measure (\<lambda>(_, trp). nat (4 - t_len trp))") auto

declare decodenb_loop.simps [simp del]

definition MQTTPacket_decodenb :: "'s getfn \<Rightarrow> 's MQTTTransport \<Rightarrow> (int \<times> 's MQTTTransport) option" where
  "MQTTPacket_decodenb getfn trp =
     decodenb_loop getfn (if t_len trp = 0 then trp\<lparr>t_multiplier := 1, t_rem_len := 0\<rparr> else trp)"

text \<open>The three states of \<open>MQTTPacket_readnb\<close>, each falling through to the next. The result is
  \<open>(rc, buf, *trp)\<close>; \<open>readnb_exit\<close> is the code at the label \<open>exit\<close>.\<close>

definition readnb_exit :: "int \<Rightarrow> bytes \<Rightarrow> 's MQTTTransport \<Rightarrow> (int \<times> bytes \<times> 's MQTTTransport) option" where
  "readnb_exit rc buf trp = Some (rc, buf, trp\<lparr>t_state := 0\<rparr>)"

definition readnb_2 :: "'s getfn \<Rightarrow> bytes \<Rightarrow> int \<Rightarrow> 's MQTTTransport \<Rightarrow> (int \<times> bytes \<times> 's MQTTTransport) option" where
  "readnb_2 getfn buf buflen trp =
     (if t_rem_len trp \<noteq> 0
      then case getfn (sck trp) (nat (t_rem_len trp)) of (frc, data, s) \<Rightarrow> do {
          buf \<leftarrow> mem_write buf (nat (t_len trp)) data;
          let trp = trp\<lparr>sck := s\<rparr>;
          if frc = -1 then readnb_exit (-1) buf trp
          else if frc = 0 then Some (0, buf, trp)
          else let trp = trp\<lparr>t_rem_len := t_rem_len trp - frc, t_len := t_len trp + frc\<rparr>
               in if t_rem_len trp \<noteq> 0 then Some (0, buf, trp)
                  else do { b \<leftarrow> read_at buf 0; readnb_exit (int (h_type (header_of b))) buf trp }
        }
      else do { b \<leftarrow> read_at buf 0; readnb_exit (int (h_type (header_of b))) buf trp })"

definition readnb_1 :: "'s getfn \<Rightarrow> bytes \<Rightarrow> int \<Rightarrow> 's MQTTTransport \<Rightarrow> (int \<times> bytes \<times> 's MQTTTransport) option" where
  "readnb_1 getfn buf buflen trp = do {
     (frc, trp) \<leftarrow> MQTTPacket_decodenb getfn trp;
     if frc = MQTTPACKET_READ_ERROR then readnb_exit (-1) buf trp
     else if frc = 0 then Some (0, buf, trp)
     else do {
       (buf, n) \<leftarrow> MQTTPacket_encode (buf, 1) (t_rem_len trp);
       let trp = trp\<lparr>t_len := 1 + int n\<rparr>;
       if t_rem_len trp + t_len trp > buflen then readnb_exit (-1) buf trp
       else readnb_2 getfn buf buflen (trp\<lparr>t_state := t_state trp + 1\<rparr>)
     }
   }"

definition readnb_0 :: "'s getfn \<Rightarrow> bytes \<Rightarrow> int \<Rightarrow> 's MQTTTransport \<Rightarrow> (int \<times> bytes \<times> 's MQTTTransport) option" where
  "readnb_0 getfn buf buflen trp =
     (case getfn (sck trp) 1 of (frc, data, s) \<Rightarrow> do {
        buf \<leftarrow> mem_write buf 0 data;
        let trp = trp\<lparr>sck := s\<rparr>;
        if frc = -1 then readnb_exit (-1) buf trp
        else if frc = 0 then Some (0, buf, trp)
        else readnb_1 getfn buf buflen (trp\<lparr>t_len := 0, t_state := t_state trp + 1\<rparr>)
      })"

definition MQTTPacket_readnb ::
    "'s getfn \<Rightarrow> bytes \<Rightarrow> int \<Rightarrow> 's MQTTTransport \<Rightarrow> (int \<times> bytes \<times> 's MQTTTransport) option" where
  "MQTTPacket_readnb getfn buf buflen trp =
     (if t_state trp = 1 then readnb_1 getfn buf buflen trp
      else if t_state trp = 2 then readnb_2 getfn buf buflen trp
      else readnb_0 getfn buf buflen (trp\<lparr>t_state := 0\<rparr>))"

section \<open>The transport\<close>

text \<open>\<open>pending s\<close> is what the peer has still to deliver. A call for \<open>n\<close> bytes returns between 0 and
  \<open>n\<close> of them, in order.\<close>

definition delivers :: "'s getfn \<Rightarrow> ('s \<Rightarrow> bytes) \<Rightarrow> bool" where
  "delivers getfn pending \<longleftrightarrow>
     (\<forall>s n. case getfn s n of (frc, data, s') \<Rightarrow>
        frc = int (length data) \<and> length data \<le> n \<and> pending s = data @ pending s')"

text \<open>The transport never answers ``call again'' while bytes are pending.\<close>

definition eager :: "'s getfn \<Rightarrow> ('s \<Rightarrow> bytes) \<Rightarrow> bool" where
  "eager getfn pending \<longleftrightarrow> (\<forall>s n. n > 0 \<and> pending s \<noteq> [] \<longrightarrow> fst (getfn s n) \<noteq> 0)"

lemma deliversD:
  assumes "delivers getfn pending" and "getfn s n = (frc, data, s')"
  shows "frc = int (length data)" and "length data \<le> n" and "pending s = data @ pending s'"
  using assms by (auto simp: delivers_def dest!: spec [of _ s] spec [of _ n])

lemma delivers_one:
  assumes "delivers getfn pending" and "getfn s 1 = (frc, data, s')" and "pending s = c # xs"
  shows "frc = 0 \<and> data = [] \<and> pending s' = c # xs \<or> frc = 1 \<and> data = [c] \<and> pending s' = xs"
proof -
  note d = deliversD [OF assms(1,2)]
  show ?thesis
  proof (cases data)
    case Nil
    with d assms(3) show ?thesis by simp
  next
    case (Cons x ys)
    with d(2) have "ys = []" by simp
    with Cons d assms(3) show ?thesis by simp
  qed
qed

lemma eagerD: "eager getfn pending \<Longrightarrow> getfn s n = (frc, data, s') \<Longrightarrow> 0 < n \<Longrightarrow> pending s \<noteq> [] \<Longrightarrow> frc \<noteq> 0"
  by (auto simp: eager_def dest!: spec [of _ s] spec [of _ n])

section \<open>The non-blocking length decoder\<close>

text \<open>\<open>m\<close> is the part of the length that is still to come, \<open>j\<close> the number of its bytes already
  read, \<open>k\<close> the number that may follow.\<close>

definition len_inv :: "('s \<Rightarrow> bytes) \<Rightarrow> nat \<Rightarrow> bytes \<Rightarrow> 's MQTTTransport \<Rightarrow> bool" where
  "len_inv pending n tail trp \<longleftrightarrow>
     (\<exists>m j k. pending (sck trp) = rem_len_bytes m @ tail \<and> t_len trp = int j \<and> j + k = 4 \<and> 0 < k \<and>
        m < 128 ^ k \<and> t_rem_len trp + int m * t_multiplier trp = int n \<and>
        (j = 0 \<longrightarrow> t_rem_len trp = 0 \<and> t_multiplier trp = 1))"

lemma div_mod_128: "int m * a = int (m mod 128) * a + int (m div 128) * (a * 128)"
proof -
  have "int m = int (m mod 128) + int (m div 128) * 128"
    by (metis mod_mult_div_eq of_nat_add of_nat_mult of_nat_numeral mult.commute)
  then show ?thesis by (simp add: algebra_simps)
qed

lemma decodenb_loop_spec:
  assumes "delivers getfn pending"
    and "pending (sck trp) = rem_len_bytes m @ tail" and "t_len trp = int j" and "j + k = 4" and "0 < k"
    and "m < 128 ^ k" and "t_rem_len trp + int m * t_multiplier trp = int n"
    and "j = 0 \<longrightarrow> t_rem_len trp = 0 \<and> t_multiplier trp = 1"
  shows "\<exists>r trp'. decodenb_loop getfn trp = Some (r, trp') \<and> t_state trp' = t_state trp \<and>
    (r = 0 \<and> \<not> eager getfn pending \<and> len_inv pending n tail trp' \<or>
     0 < r \<and> t_rem_len trp' = int n \<and> pending (sck trp') = tail)"
  using assms(2-)
proof (induction m arbitrary: trp j k rule: rem_len_bytes.induct)
  case (1 m)
  obtain frc data s' where g: "getfn (sck trp) 1 = (frc, data, s')" by (cases "getfn (sck trp) 1")
  have len: "\<not> 4 \<le> t_len trp" using "1.prems" by simp
  obtain c cs where r: "rem_len_bytes m = c # cs" by (cases "m < 128") (auto simp: rem_len_bytes.simps [of m])
  from "1.prems"(1) r have p: "pending (sck trp) = c # cs @ tail" by simp
  from delivers_one [OF assms(1) g this] show ?case
  proof
    assume z: "frc = 0 \<and> data = [] \<and> pending s' = c # cs @ tail"
    then have "\<not> eager getfn pending" using g p eagerD [of getfn pending "sck trp" 1] by auto
    moreover have "len_inv pending n tail (trp\<lparr>sck := s'\<rparr>)"
      unfolding len_inv_def by (intro exI [of _ m] exI [of _ j] exI [of _ k]) (use "1.prems" z r in simp)
    ultimately show ?thesis
      using z g len by (subst decodenb_loop.simps) (simp add: Let_def)
  next
    assume o: "frc = 1 \<and> data = [c] \<and> pending s' = cs @ tail"
    let ?trp = "trp\<lparr>sck := s', t_len := t_len trp + 1,
      t_rem_len := t_rem_len trp + int (unat c mod 128) * t_multiplier trp, t_multiplier := t_multiplier trp * 128\<rparr>"
    have step: "decodenb_loop getfn trp =
        (if 128 \<le> unat c then decodenb_loop getfn ?trp else Some (t_len trp + 1, ?trp))"
      using o g len by (subst decodenb_loop.simps) (simp add: Let_def and_128)
    show ?thesis
    proof (cases "m < 128")
      case True
      then have "c = word_of_nat m" "cs = []" using r by (simp_all add: rem_len_bytes_last)
      with True have "unat c = m" by (simp add: unat_byte_of_nat)
      with True \<open>cs = []\<close> o "1.prems" show ?thesis by (simp add: step)
    next
      case False
      then have c: "c = word_of_nat (m mod 128 + 128)" and cs: "cs = rem_len_bytes (m div 128)"
        using r by (simp_all add: rem_len_bytes_step)
      have "m mod 128 + 128 < 256" using mod_less_divisor [of 128 m] by linarith
      then have u: "unat c = m mod 128 + 128" unfolding c by (rule unat_byte_of_nat)
      obtain k' where k: "k = Suc k'" "0 < k'" using "1.prems"(4,5) False by (cases k; cases "k - 1") auto
      have "\<exists>r trp'. decodenb_loop getfn ?trp = Some (r, trp') \<and> t_state trp' = t_state ?trp \<and>
        (r = 0 \<and> \<not> eager getfn pending \<and> len_inv pending n tail trp' \<or>
         0 < r \<and> t_rem_len trp' = int n \<and> pending (sck trp') = tail)"
      proof (rule "1.IH" [OF False, where j = "Suc j"])
        show "m div 128 < 128 ^ k'" using "1.prems"(5) k by (simp add: less_mult_imp_div_less ac_simps)
        show "t_rem_len ?trp + int (m div 128) * t_multiplier ?trp = int n"
          using "1.prems"(6) div_mod_128 [of m "t_multiplier trp"] u by simp
      qed (use o cs "1.prems" k in auto)
      then show ?thesis using u by (simp add: step)
    qed
  qed
qed

section \<open>The invariant of the non-blocking reader\<close>

definition nb_inv ::
    "('s \<Rightarrow> bytes) \<Rightarrow> MQTTHeader \<Rightarrow> bytes \<Rightarrow> bytes \<Rightarrow> bytes \<Rightarrow> 's MQTTTransport \<Rightarrow> bool" where
  "nb_inv pending h body rest buf trp \<longleftrightarrow>
     t_state trp = 0 \<and> pending (sck trp) = packet h body @ rest \<or>
     t_state trp = 1 \<and> read_at buf 0 = Some (header_byte h) \<and>
       (t_len trp = 0 \<and> pending (sck trp) = rem_len_bytes (length body) @ body @ rest \<or>
        t_len trp \<noteq> 0 \<and> len_inv pending (length body) (body @ rest) trp) \<or>
     t_state trp = 2 \<and>
       (\<exists>i < length body. t_len trp = int (length (packet h body) - length body + i) \<and>
          t_rem_len trp = int (length body - i) \<and>
          take (nat (t_len trp)) buf = take (nat (t_len trp)) (packet h body) \<and>
          pending (sck trp) = drop i body @ rest)"

text \<open>What one call achieves: the whole packet and its type, or a state from which to call again;
  with an eager transport every call that does not complete has consumed something.\<close>

definition nb_post ::
    "'s getfn \<Rightarrow> ('s \<Rightarrow> bytes) \<Rightarrow> MQTTHeader \<Rightarrow> bytes \<Rightarrow> bytes \<Rightarrow> bytes \<Rightarrow> 's MQTTTransport \<Rightarrow>
      (int \<times> bytes \<times> 's MQTTTransport) option \<Rightarrow> bool" where
  "nb_post getfn pending h body rest buf trp res \<longleftrightarrow>
     (\<exists>rc buf' trp'. res = Some (rc, buf', trp') \<and> length buf' = length buf \<and>
        (rc = 0 \<and> nb_inv pending h body rest buf' trp' \<and>
           (eager getfn pending \<longrightarrow> length (pending (sck trp')) < length (pending (sck trp))) \<or>
         rc = int (h_type h mod 16) \<and> t_state trp' = 0 \<and> pending (sck trp') = rest \<and>
           take (length (packet h body)) buf' = packet h body))"

lemma nb_post_mono:
  assumes "nb_post getfn pending h body rest buf trp res" and "length buf = length buf0"
    and "length (pending (sck trp)) \<le> length (pending (sck trp0))"
  shows "nb_post getfn pending h body rest buf0 trp0 res"
  using assms by (fastforce simp: nb_post_def)

lemma header_type_of_packet:
  assumes "take k buf = take k (packet h body)" and "0 < k" and "k \<le> length buf"
  shows "read_at buf 0 = Some (header_byte h)"
proof -
  have "buf ! 0 = take k buf ! 0" using assms(2) by simp
  also have "\<dots> = header_byte h" using assms(1,2) by (cases k) (simp_all add: packet_def)
  finally show ?thesis using assms(2,3) by (cases buf) (simp_all add: read_at_def)
qed

lemma readnb_2_spec:
  assumes "delivers getfn pending" and "length (packet h body) \<le> length buf"
    and "i \<le> length body" and "t_len trp = int (length (packet h body) - length body + i)"
    and "t_rem_len trp = int (length body - i)" and "t_state trp = 2"
    and "take (nat (t_len trp)) buf = take (nat (t_len trp)) (packet h body)"
    and "pending (sck trp) = drop i body @ rest"
  shows "nb_post getfn pending h body rest buf trp (readnb_2 getfn buf buflen trp)"
proof -
  let ?pkt = "packet h body"
  let ?k = "length ?pkt - length body + i"
  have pk: "drop ?k ?pkt = drop i body" "0 < ?k" "?k \<le> length ?pkt" "length ?pkt = ?k + (length body - i)"
    using assms(3) by (simp_all add: packet_def)
  have nk: "nat (t_len trp) = ?k" using assms(4) by simp
  then have t: "take ?k buf = take ?k ?pkt" using assms(7) by metis
  show ?thesis
  proof (cases "i = length body")
    case True
    with pk have "?k = length ?pkt" by simp
    moreover from this have "read_at buf 0 = Some (header_byte h)"
      using t pk assms(2) by (intro header_type_of_packet [of ?k _ h body]) auto
    ultimately show ?thesis
      using True assms(5,8) t by (simp add: readnb_2_def readnb_exit_def nb_post_def header_of_byte)
  next
    case False
    with assms(3) have i: "i < length body" by simp
    obtain frc data s' where g: "getfn (sck trp) (length body - i) = (frc, data, s')"
      by (cases "getfn (sck trp) (length body - i)")
    note d = deliversD [OF assms(1) g]
    have eq: "data @ pending s' = drop i body @ rest" using d(3) assms(8) by simp
    have fit: "length data \<le> length (drop i body)" using d(2) by simp
    have data: "data = take (length data) (drop i body)"
      using arg_cong [OF eq, of "take (length data)"] fit by simp
    have rest: "pending s' = drop (i + length data) body @ rest"
      using arg_cong [OF eq, of "drop (length data)"] fit by (simp add: add.commute)
    obtain buf' where w: "mem_write buf ?k data = Some buf'"
      using mem_write_Some_iff [of buf ?k data] pk(4) assms(2) d(2) by auto
    have len': "length buf' = length buf" using w by (rule mem_write_length)
    have "take (?k + length data) buf' = take ?k buf @ data"
      using w by (auto simp: mem_write_def split: if_splits)
    also have "\<dots> = take (?k + length data) ?pkt" using t pk(1) data by (simp add: take_add)
    finally have t': "take (?k + length data) buf' = take (?k + length data) ?pkt" .
    have hd: "read_at buf' 0 = Some (header_byte h)"
      using t' pk(2,4) assms(2) d(2) len' by (intro header_type_of_packet [of "?k + length data"]) auto
    let ?trp = "trp\<lparr>sck := s', t_rem_len := t_rem_len trp - frc, t_len := t_len trp + frc\<rparr>"
    have nr: "nat (t_rem_len trp) = length body - i" and nz: "t_rem_len trp \<noteq> 0" using assms(5) i by simp_all
    have step: "readnb_2 getfn buf buflen trp =
        (if frc = 0 then Some (0, buf', trp\<lparr>sck := s'\<rparr>)
         else if t_rem_len ?trp \<noteq> 0 then Some (0, buf', ?trp)
         else readnb_exit (int (h_type (header_of (header_byte h)))) buf' ?trp)"
      using w hd d(1) nz unfolding readnb_2_def nk nr g by (simp add: Let_def)
    show ?thesis
    proof (cases "i + length data = length body")
      case True
      then have "?k + length data = length ?pkt" using pk(4) by simp
      with t' have "take (length ?pkt) buf' = ?pkt" by simp
      with True show ?thesis
        using i rest d(1) assms(5) len'
        by (auto simp: step readnb_exit_def nb_post_def header_of_byte)
    next
      case False
      have inv: "nb_inv pending h body rest buf' ?trp"
        unfolding nb_inv_def using False d(1,2) i t' rest assms(4,5,6)
        by (intro disjI2 conjI exI [of _ "i + length data"]) (auto simp: ac_simps nat_add_distrib)
      have le: "eager getfn pending \<longrightarrow> length (pending s') < length (pending (sck trp))"
      proof
        assume "eager getfn pending"
        moreover have "pending (sck trp) \<noteq> []" using assms(8) i by simp
        ultimately have "data \<noteq> []"
          using eagerD [of getfn pending "sck trp" "length body - i", OF _ g] i d(1) by auto
        then show "length (pending s') < length (pending (sck trp))" using d(3) by simp
      qed
      have "readnb_2 getfn buf buflen trp = Some (0, buf', ?trp)"
      proof (cases "frc = 0")
        case True
        then have "trp\<lparr>sck := s'\<rparr> = ?trp" by (cases trp) simp
        with True show ?thesis by (simp only: step) simp
      next
        case nz: False
        have "t_rem_len ?trp \<noteq> 0" using False i d(1) assms(5) by simp
        with nz show ?thesis by (simp only: step) simp
      qed
      with inv le len' show ?thesis by (auto simp: nb_post_def)
    qed
  qed
qed

text \<open>Once the length is complete it is put back into the buffer behind the header.\<close>

lemma readnb_1_complete:
  assumes "delivers getfn pending" and "length (packet h body) \<le> length buf"
    and "int (length (packet h body)) \<le> buflen"
    and "read_at buf 0 = Some (header_byte h)" and "t_state trp' = 1"
    and "MQTTPacket_decodenb getfn trp = Some (r, trp')" and "0 < r"
    and "t_rem_len trp' = int (length body)" and "pending (sck trp') = body @ rest"
    and "length body < 268435456"
  shows "nb_post getfn pending h body rest buf trp' (readnb_1 getfn buf buflen trp)"
proof -
  let ?L = "rem_len_bytes (length body)" and ?pkt = "packet h body"
  obtain buf' where w: "mem_write buf 1 ?L = Some buf'"
    using mem_write_Some_iff [of buf 1 ?L] assms(2) by (auto simp: packet_def)
  have "take 1 buf = [header_byte h]" using assms(4) by (cases buf) (auto simp: read_at_def)
  then have t: "take (1 + length ?L) buf' = take (1 + length ?L) ?pkt"
    using w by (auto simp: mem_write_def packet_def split: if_splits)
  have k: "length ?pkt - length body = 1 + length ?L" by (simp add: packet_def)
  let ?trp = "trp'\<lparr>t_len := 1 + int (length ?L), t_state := 2\<rparr>"
  have "nb_post getfn pending h body rest buf' ?trp (readnb_2 getfn buf' buflen ?trp)"
  proof (rule readnb_2_spec [OF assms(1), where i = 0])
    show "length ?pkt \<le> length buf'" using assms(2) mem_write_length [OF w] by simp
    have "nat (t_len ?trp) = 1 + length ?L" by simp
    then show "take (nat (t_len ?trp)) buf' = take (nat (t_len ?trp)) ?pkt" using t by metis
  qed (use assms(8,9) k in auto)
  moreover have "readnb_1 getfn buf buflen trp = readnb_2 getfn buf' buflen ?trp"
    using assms(3,5-8) w
    by (simp add: readnb_1_def MQTTPACKET_READ_ERROR_def MQTTPacket_encode_bytes Let_def packet_def)
  ultimately show ?thesis
    using nb_post_mono [of getfn pending h body rest buf' ?trp _ buf trp'] mem_write_length [OF w] by simp
qed

lemma decodenb_spec:
  assumes "delivers getfn pending" and "n < 268435456"
    and "t_len trp = 0 \<and> pending (sck trp) = rem_len_bytes n @ tail \<or>
      t_len trp \<noteq> 0 \<and> len_inv pending n tail trp"
  shows "\<exists>r trp'. MQTTPacket_decodenb getfn trp = Some (r, trp') \<and> t_state trp' = t_state trp \<and>
    (r = 0 \<and> \<not> eager getfn pending \<and> len_inv pending n tail trp' \<or>
     0 < r \<and> t_rem_len trp' = int n \<and> pending (sck trp') = tail)"
proof -
  let ?trp = "if t_len trp = 0 then trp\<lparr>t_multiplier := 1, t_rem_len := 0\<rparr> else trp"
  have "len_inv pending n tail ?trp"
  proof (cases "t_len trp = 0")
    case True
    with assms show ?thesis unfolding len_inv_def
      by (intro exI [of _ n] exI [of _ 0] exI [of _ 4]) auto
  qed (use assms in auto)
  then obtain m j k where "pending (sck ?trp) = rem_len_bytes m @ tail" "t_len ?trp = int j" "j + k = 4" "0 < k"
    "m < 128 ^ k" "t_rem_len ?trp + int m * t_multiplier ?trp = int n"
    "j = 0 \<longrightarrow> t_rem_len ?trp = 0 \<and> t_multiplier ?trp = 1"
    unfolding len_inv_def by blast
  moreover have "t_state ?trp = t_state trp" by simp
  ultimately show ?thesis
    using decodenb_loop_spec [OF assms(1), of ?trp m tail j k n] unfolding MQTTPacket_decodenb_def by simp
qed

lemma readnb_1_spec:
  assumes "delivers getfn pending" and "length (packet h body) \<le> length buf"
    and "int (length (packet h body)) \<le> buflen"
    and "t_state trp = 1" and "nb_inv pending h body rest buf trp"
    and "length body < 268435456"
  shows "nb_post getfn pending h body rest buf trp (readnb_1 getfn buf buflen trp)"
proof -
  from assms(4,5) have hd: "read_at buf 0 = Some (header_byte h)"
    and len: "t_len trp = 0 \<and> pending (sck trp) = rem_len_bytes (length body) @ body @ rest \<or>
        t_len trp \<noteq> 0 \<and> len_inv pending (length body) (body @ rest) trp"
    by (auto simp: nb_inv_def)
  have le: "length (body @ rest) \<le> length (pending (sck trp))"
    using len by (auto simp: len_inv_def)
  obtain r trp' where d: "MQTTPacket_decodenb getfn trp = Some (r, trp')" "t_state trp' = t_state trp"
    "r = 0 \<and> \<not> eager getfn pending \<and> len_inv pending (length body) (body @ rest) trp' \<or>
     0 < r \<and> t_rem_len trp' = int (length body) \<and> pending (sck trp') = body @ rest"
    using decodenb_spec [OF assms(1,6) len] by blast
  from d(3) show ?thesis
  proof
    assume z: "r = 0 \<and> \<not> eager getfn pending \<and> len_inv pending (length body) (body @ rest) trp'"
    then have "t_len trp' \<noteq> 0 \<or> pending (sck trp') = rem_len_bytes (length body) @ body @ rest"
      by (auto simp: len_inv_def)
    then have "nb_inv pending h body rest buf trp'"
      using z d(2) assms(4) hd by (auto simp: nb_inv_def)
    with z d(1) show ?thesis by (simp add: readnb_1_def MQTTPACKET_READ_ERROR_def nb_post_def)
  next
    assume c: "0 < r \<and> t_rem_len trp' = int (length body) \<and> pending (sck trp') = body @ rest"
    with readnb_1_complete [OF assms(1-3) hd _ d(1)] d(2) assms(4,6)
    have "nb_post getfn pending h body rest buf trp' (readnb_1 getfn buf buflen trp)" by simp
    then show ?thesis by (rule nb_post_mono) (use le c in auto)
  qed
qed

lemma readnb_0_spec:
  assumes "delivers getfn pending" and "length (packet h body) \<le> length buf"
    and "int (length (packet h body)) \<le> buflen"
    and "t_state trp = 0" and "pending (sck trp) = packet h body @ rest"
    and "length body < 268435456"
  shows "nb_post getfn pending h body rest buf trp (readnb_0 getfn buf buflen trp)"
proof -
  obtain frc data s' where g: "getfn (sck trp) 1 = (frc, data, s')" by (cases "getfn (sck trp) 1")
  have p: "pending (sck trp) = header_byte h # rem_len_bytes (length body) @ body @ rest"
    using assms(5) by (simp add: packet_def)
  have buf: "0 < length buf" using assms(2) by (cases buf) (auto simp: packet_def)
  from delivers_one [OF assms(1) g p] show ?thesis
  proof
    assume z: "frc = 0 \<and> data = [] \<and> pending s' = header_byte h # rem_len_bytes (length body) @ body @ rest"
    then have "\<not> eager getfn pending" using eagerD [of getfn pending "sck trp" 1, OF _ g] p by auto
    moreover have "readnb_0 getfn buf buflen trp = Some (0, buf, trp\<lparr>sck := s'\<rparr>)"
      using z g by (simp add: readnb_0_def Let_def)
    ultimately show ?thesis using z assms(4) by (simp add: nb_post_def nb_inv_def packet_def)
  next
    assume o: "frc = 1 \<and> data = [header_byte h] \<and> pending s' = rem_len_bytes (length body) @ body @ rest"
    let ?buf = "header_byte h # tl buf" and ?trp = "trp\<lparr>sck := s', t_len := 0, t_state := 1\<rparr>"
    have step: "readnb_0 getfn buf buflen trp = readnb_1 getfn ?buf buflen ?trp"
      using o g buf assms(4) by (cases buf) (simp_all add: readnb_0_def Let_def mem_write_zero)
    have "nb_inv pending h body rest ?buf ?trp" using o by (simp add: nb_inv_def read_at_def)
    then have "nb_post getfn pending h body rest ?buf ?trp (readnb_1 getfn ?buf buflen ?trp)"
      using assms(2,3,6) buf by (intro readnb_1_spec [OF assms(1)]) auto
    then show ?thesis unfolding step by (rule nb_post_mono) (use o p buf in auto)
  qed
qed

lemma readnb_spec:
  assumes "delivers getfn pending" and "length (packet h body) \<le> length buf"
    and "int (length (packet h body)) \<le> buflen"
    and "nb_inv pending h body rest buf trp" and "length body < 268435456"
  shows "nb_post getfn pending h body rest buf trp (MQTTPacket_readnb getfn buf buflen trp)"
proof -
  consider "t_state trp = 0" "pending (sck trp) = packet h body @ rest" | "t_state trp = 1" | "t_state trp = 2"
    using assms(4) by (auto simp: nb_inv_def)
  then show ?thesis
  proof cases
    case 1
    then have e: "trp\<lparr>t_state := 0\<rparr> = trp" by simp
    show ?thesis unfolding MQTTPacket_readnb_def e
      using 1 readnb_0_spec [OF assms(1-3) 1 assms(5)] by simp
  next
    case 2
    with readnb_1_spec [OF assms(1-3) 2 assms(4,5)] show ?thesis by (simp add: MQTTPacket_readnb_def)
  next
    case 3
    with assms(4) obtain i where "i < length body" "t_len trp = int (length (packet h body) - length body + i)"
      "t_rem_len trp = int (length body - i)" "pending (sck trp) = drop i body @ rest"
      "take (nat (t_len trp)) buf = take (nat (t_len trp)) (packet h body)"
      by (auto simp: nb_inv_def)
    with 3 readnb_2_spec [OF assms(1,2), of i trp rest] show ?thesis by (simp add: MQTTPacket_readnb_def)
  qed
qed

text \<open>The caller's loop: call again while the result is 0.\<close>

fun readnb_calls ::
    "'s getfn \<Rightarrow> nat \<Rightarrow> bytes \<Rightarrow> int \<Rightarrow> 's MQTTTransport \<Rightarrow> (int \<times> bytes \<times> 's MQTTTransport) option" where
  "readnb_calls getfn 0 buf buflen trp = Some (0, buf, trp)"
| "readnb_calls getfn (Suc k) buf buflen trp = do {
     (rc, buf, trp) \<leftarrow> MQTTPacket_readnb getfn buf buflen trp;
     if rc = 0 then readnb_calls getfn k buf buflen trp else Some (rc, buf, trp)
   }"

section \<open>Properties\<close>

text \<open>C16. The non-blocking reader reassembles a packet however the transport cuts it up: from any
  intermediate state, one call either asks to be called again, in a state from which the rest of
  the packet is still read correctly, or returns the packet type with exactly the packet at the
  start of the buffer, its own state reset and the transport positioned behind the packet; it never
  writes outside the buffer.\<close>

theorem MQTTPacket_readnb_correct:
  assumes "delivers getfn pending" and "length (packet h body) \<le> length buf"
    and "int (length (packet h body)) \<le> buflen"
    and "nb_inv pending h body rest buf trp" and "length body < 268435456"
  shows "\<exists>rc buf' trp'. MQTTPacket_readnb getfn buf buflen trp = Some (rc, buf', trp') \<and>
    length buf' = length buf \<and>
    (rc = 0 \<and> nb_inv pending h body rest buf' trp' \<or>
     rc = int (h_type h mod 16) \<and> t_state trp' = 0 \<and> pending (sck trp') = rest \<and>
       take (length (packet h body)) buf' = packet h body)"
  using readnb_spec [OF assms] by (auto simp: nb_post_def)

text \<open>A transport that delivers at most two bytes at a time from a list.\<close>

definition two_at_a_time :: "bytes getfn" where
  "two_at_a_time s n = (let d = take (min 2 n) s in (int (length d), d, drop (length d) s))"

lemma two_at_a_time_delivers: "delivers two_at_a_time id"
  by (auto simp: delivers_def two_at_a_time_def Let_def min_def)

lemma two_at_a_time_eager: "eager two_at_a_time id"
  by (auto simp: eager_def two_at_a_time_def Let_def min_def)

definition transport0 :: "bytes \<Rightarrow> bytes MQTTTransport" where
  "transport0 s = \<lparr>sck = s, t_multiplier = 0, t_rem_len = 0, t_len = 0, t_state = 0\<rparr>"

lemma transport0_inv: "nb_inv id h body rest buf (transport0 (packet h body @ rest))"
  by (simp add: nb_inv_def transport0_def)

lemma length_small_packet: "length body < 128 \<Longrightarrow> length (packet h body) = length body + 2"
  by (simp add: packet_def rem_len_bytes_last)

theorem MQTTPacket_readnb_correct_witness:
  "\<exists>rc buf' trp'. MQTTPacket_readnb two_at_a_time (replicate 8 0) 8
      (transport0 (packet (header0\<lparr>h_type := 3\<rparr>) [0, 1, 65, 66] @ [9])) = Some (rc, buf', trp') \<and>
    length buf' = length (replicate 8 (0 :: byte)) \<and>
    (rc = 0 \<and> nb_inv id (header0\<lparr>h_type := 3\<rparr>) [0, 1, 65, 66] [9] buf' trp' \<or>
     rc = int (h_type (header0\<lparr>h_type := 3\<rparr>) mod 16) \<and> t_state trp' = 0 \<and> id (sck trp') = [9] \<and>
       take (length (packet (header0\<lparr>h_type := 3\<rparr>) [0, 1, 65, 66])) buf' =
         packet (header0\<lparr>h_type := 3\<rparr>) [0, 1, 65, 66])"
  by (rule MQTTPacket_readnb_correct [OF two_at_a_time_delivers _ _ transport0_inv])
    (simp_all add: length_small_packet)

text \<open>C29. Liveness of the non-blocking reader: with a transport that hands over at least one byte
  whenever bytes are pending, calling it as often as there are bytes pending reads the whole packet
  and returns its type.\<close>

theorem MQTTPacket_readnb_completes:
  assumes "delivers getfn pending" and "eager getfn pending" and "length (packet h body) \<le> length buf"
    and "int (length (packet h body)) \<le> buflen" and "length body < 268435456"
    and "nb_inv pending h body rest buf trp" and "0 < h_type h mod 16"
    and "length (pending (sck trp)) < k"
  shows "\<exists>buf' trp'. readnb_calls getfn k buf buflen trp = Some (int (h_type h mod 16), buf', trp') \<and>
    take (length (packet h body)) buf' = packet h body \<and> pending (sck trp') = rest \<and> t_state trp' = 0"
  using assms(3,6,8)
proof (induction k arbitrary: buf trp)
  case (Suc k)
  from readnb_spec [OF assms(1) Suc.prems(1) assms(4) Suc.prems(2) assms(5)] assms(2)
  obtain rc buf' trp' where r: "MQTTPacket_readnb getfn buf buflen trp = Some (rc, buf', trp')"
    "length buf' = length buf"
    "rc = 0 \<and> nb_inv pending h body rest buf' trp' \<and>
       length (pending (sck trp')) < length (pending (sck trp)) \<or>
     rc = int (h_type h mod 16) \<and> t_state trp' = 0 \<and> pending (sck trp') = rest \<and>
       take (length (packet h body)) buf' = packet h body"
    unfolding nb_post_def by blast
  from r(3) show ?case
  proof
    assume "rc = 0 \<and> nb_inv pending h body rest buf' trp' \<and>
       length (pending (sck trp')) < length (pending (sck trp))"
    with Suc r show ?thesis by simp
  qed (use r(1) assms(7) in simp)
qed simp

theorem MQTTPacket_readnb_completes_witness:
  "\<exists>buf' trp'. readnb_calls two_at_a_time 8 (replicate 8 0) 8
      (transport0 (packet (header0\<lparr>h_type := 3\<rparr>) [0, 1, 65, 66] @ [9])) =
        Some (int (h_type (header0\<lparr>h_type := 3\<rparr>) mod 16), buf', trp') \<and>
    take (length (packet (header0\<lparr>h_type := 3\<rparr>) [0, 1, 65, 66])) buf' =
      packet (header0\<lparr>h_type := 3\<rparr>) [0, 1, 65, 66] \<and> id (sck trp') = [9] \<and> t_state trp' = 0"
  by (rule MQTTPacket_readnb_completes [OF two_at_a_time_delivers two_at_a_time_eager _ _ _ transport0_inv])
    (simp_all add: length_small_packet transport0_def)

text \<open>Both readers put the length back before they compare the packet with \<open>buflen\<close>: a buffer of two
  bytes overflows on a packet whose length takes two.\<close>

lemma read_length_overflow:
  "MQTTPacket_read two_at_a_time [0x30, 0x80, 1] [0, 0] 2 = None"
proof -
  have "MQTTPacket_decode (get_char two_at_a_time) [0x80, 1] = Some (2, 128, [])"
    by (simp add: MQTTPacket_decode_def decode_loop.simps get_char_def two_at_a_time_def and_128 Let_def)
  then show ?thesis
    by (simp add: MQTTPacket_read_def two_at_a_time_def Let_def mem_write_def MQTTPacket_encode_bytes
        rem_len_bytes.simps)
qed

end
