(* ===== verification/Linked_List.thy ===== *)
theory Linked_List
  imports C_Base
begin

text \<open>
  The intrusive singly linked list of \<open>src/data/linkedlist.c\<close> and the macros of
  \<open>include/data/linkedlist.h\<close>. The heap maps the address of a node to the content of its \<open>next\<close>
  field; an address outside its domain may not be accessed, a null pointer is \<^term>\<open>None\<close>. The loops
  are partial functions: on a cyclic list they have no result.

  \<open>is_list h p xs\<close> says that \<open>p\<close> points to a null-terminated list of the distinct nodes \<open>xs\<close>.
  The locale \<open>node_sequence\<close> is the contract of the list towards its clients: the property map, the
  request headers and the event queue use it only through these laws.
\<close>

section \<open>Operations\<close>

type_synonym 'p lheap = "'p \<rightharpoonup> 'p option"

text \<open>\<open>p->next = q\<close>.\<close>

definition set_next :: "'p lheap \<Rightarrow> 'p \<Rightarrow> 'p option \<Rightarrow> 'p lheap option" where
  "set_next h p q = (if p \<in> dom h then Some (h(p \<mapsto> q)) else None)"

partial_function (option) find_last :: "'p lheap \<Rightarrow> 'p \<Rightarrow> 'p option" where
  "find_last h lst = Option.bind (h lst) (\<lambda>n. case n of None \<Rightarrow> Some lst | Some m \<Rightarrow> find_last h m)"

definition arrow_linked_list_add ::
    "'p lheap \<Rightarrow> 'p option \<Rightarrow> 'p \<Rightarrow> ('p option \<times> 'p lheap) option" where
  "arrow_linked_list_add h root el = do {
     h \<leftarrow> set_next h el None;
     case root of
       None \<Rightarrow> Some (Some el, h)
     | Some r \<Rightarrow> do {
         lst \<leftarrow> find_last h r;
         h \<leftarrow> set_next h lst (Some el);
         Some (root, h)
       }
   }"

definition arrow_linked_list_add_first ::
    "'p lheap \<Rightarrow> 'p option \<Rightarrow> 'p \<Rightarrow> ('p option \<times> 'p lheap) option" where
  "arrow_linked_list_add_first h root el = do { h \<leftarrow> set_next h el root; Some (Some el, h) }"

partial_function (option) del_loop ::
    "'p lheap \<Rightarrow> 'p option \<Rightarrow> 'p \<Rightarrow> 'p option \<Rightarrow> 'p option \<Rightarrow> ('p option \<times> 'p lheap) option" where
  "del_loop h root el prev lst =
     (case lst of
        None \<Rightarrow> Some (None, h)
      | Some l \<Rightarrow>
          if l = el then
            (case prev of
               Some p \<Rightarrow> Option.bind (h l) (\<lambda>n. Option.bind (set_next h p n) (\<lambda>h. Some (root, h)))
             | None \<Rightarrow> Option.bind root (\<lambda>r. Option.bind (h r) (\<lambda>n. Option.bind (set_next h r None) (\<lambda>h. Some (n, h)))))
          else Option.bind (h l) (\<lambda>n. del_loop h root el (Some l) n))"

definition arrow_linked_list_del ::
    "'p lheap \<Rightarrow> 'p option \<Rightarrow> 'p \<Rightarrow> ('p option \<times> 'p lheap) option" where
  "arrow_linked_list_del h root el = del_loop h root el None root"

partial_function (option) del_last_loop ::
    "'p lheap \<Rightarrow> 'p option \<Rightarrow> 'p \<Rightarrow> ('p option \<times> 'p) option" where
  "del_last_loop h prev lst =
     Option.bind (h lst) (\<lambda>n. case n of None \<Rightarrow> Some (prev, lst) | Some m \<Rightarrow> del_last_loop h (Some lst) m)"

definition arrow_linked_list_del_last :: "'p lheap \<Rightarrow> 'p option \<Rightarrow> ('p option \<times> 'p lheap) option" where
  "arrow_linked_list_del_last h root =
     (case root of
        None \<Rightarrow> Some (None, h)
      | Some r \<Rightarrow> do {
          (prev, lst) \<leftarrow> del_last_loop h None r;
          case prev of
            Some p \<Rightarrow> do {
              n \<leftarrow> h lst;
              h \<leftarrow> set_next h p n;
              h \<leftarrow> set_next h lst None;
              Some (root, h)
            }
          | None \<Rightarrow> Some (None, h)
        })"

text \<open>\<open>linked_list_find_node(p, root, type, func, data)\<close>: the predicate is the test
  \<open>func(p, data) == 0\<close>, which may itself be undefined.\<close>

partial_function (option) linked_list_find_node ::
    "'p lheap \<Rightarrow> ('p \<Rightarrow> bool option) \<Rightarrow> 'p option \<Rightarrow> 'p option option" where
  "linked_list_find_node h f p =
     (case p of
        None \<Rightarrow> Some None
      | Some a \<Rightarrow> Option.bind (f a) (\<lambda>b. if b then Some (Some a)
                                      else Option.bind (h a) (\<lambda>n. linked_list_find_node h f n)))"

section \<open>Lists in the heap\<close>

fun lseg :: "'p lheap \<Rightarrow> 'p option \<Rightarrow> 'p list \<Rightarrow> 'p option \<Rightarrow> bool" where
  "lseg h p [] q \<longleftrightarrow> p = q"
| "lseg h p (x # xs) q \<longleftrightarrow> p = Some x \<and> (\<exists>n. h x = Some n \<and> lseg h n xs q)"

definition is_list :: "'p lheap \<Rightarrow> 'p option \<Rightarrow> 'p list \<Rightarrow> bool" where
  "is_list h p xs \<longleftrightarrow> lseg h p xs None \<and> distinct xs"

lemma lseg_append: "lseg h p (xs @ ys) q \<longleftrightarrow> (\<exists>r. lseg h p xs r \<and> lseg h r ys q)"
  by (induction xs arbitrary: p) auto

lemma lseg_upd [simp]: "a \<notin> set xs \<Longrightarrow> lseg (h(a := v)) p xs q \<longleftrightarrow> lseg h p xs q"
  by (induction xs arbitrary: p) auto

lemma lseg_dom: "lseg h p xs q \<Longrightarrow> set xs \<subseteq> dom h"
  by (induction xs arbitrary: p) auto

lemma is_list_Nil [simp]: "is_list h p [] \<longleftrightarrow> p = None"
  by (simp add: is_list_def)

lemma is_list_None: "is_list h None xs \<Longrightarrow> xs = []"
  by (cases xs) (auto simp: is_list_def)

lemma find_last_lseg: "lseg h (Some r) (xs @ [x]) None \<Longrightarrow> find_last h r = Some x"
proof (induction xs arbitrary: r)
  case Nil
  then show ?case by (subst find_last.simps) auto
next
  case (Cons y ys)
  then obtain n where n: "r = y" "h y = Some n" "lseg h n (ys @ [x]) None" by auto
  then obtain m where "n = Some m" by (cases ys) auto
  with n Cons.IH [of m] show ?case by (subst find_last.simps) auto
qed

lemma del_last_loop_lseg:
  "lseg h (Some r) (xs @ [x]) None \<Longrightarrow>
     del_last_loop h prev r = Some (if xs = [] then prev else Some (last xs), x)"
proof (induction xs arbitrary: r prev)
  case Nil
  then show ?case by (subst del_last_loop.simps) auto
next
  case (Cons y ys)
  then obtain n where n: "r = y" "h y = Some n" "lseg h n (ys @ [x]) None" by auto
  then obtain m where "n = Some m" by (cases ys) auto
  with n Cons.IH [of m] show ?case by (subst del_last_loop.simps) auto
qed

lemma del_loop_found:
  "lseg h p xs (Some el) \<Longrightarrow> el \<notin> set xs \<Longrightarrow>
     del_loop h root el prev p = del_loop h root el (if xs = [] then prev else Some (last xs)) (Some el)"
proof (induction xs arbitrary: p prev)
  case (Cons y ys)
  then obtain n where n: "p = Some y" "h y = Some n" "lseg h n ys (Some el)" by auto
  then show ?case
    using Cons.IH [of n "Some y"] Cons.prems(2) by (subst del_loop.simps) auto
qed simp

lemma del_loop_missing:
  "lseg h p xs None \<Longrightarrow> el \<notin> set xs \<Longrightarrow> del_loop h root el prev p = Some (None, h)"
proof (induction xs arbitrary: p prev)
  case Nil
  then show ?case by (subst del_loop.simps) simp
next
  case (Cons y ys)
  then show ?case by (subst del_loop.simps) auto
qed

text \<open>Nothing but the nodes \<open>A\<close> changes, and no node is allocated or freed.\<close>

definition only_changes :: "'p set \<Rightarrow> 'p lheap \<Rightarrow> 'p lheap \<Rightarrow> bool" where
  "only_changes A h h' \<longleftrightarrow> (\<forall>y. y \<notin> A \<longrightarrow> h' y = h y) \<and> dom h' = dom h"

lemma lseg_only_changes: "only_changes A h h' \<Longrightarrow> set xs \<inter> A = {} \<Longrightarrow> lseg h' p xs q \<longleftrightarrow> lseg h p xs q"
  by (induction xs arbitrary: p) (auto simp: only_changes_def)

lemma arrow_linked_list_add_list:
  assumes "is_list h p xs" and "a \<in> dom h" and "a \<notin> set xs"
  shows "\<exists>p' h'. arrow_linked_list_add h p a = Some (p', h') \<and> is_list h' p' (xs @ [a]) \<and>
    only_changes (insert a (set xs)) h h'"
proof (cases xs rule: rev_cases)
  case Nil
  with assms show ?thesis
    by (auto simp: arrow_linked_list_add_def set_next_def is_list_def only_changes_def)
next
  case (snoc ys y)
  let ?h = "h(a \<mapsto> None)"
  from assms(1) snoc obtain r where r: "p = Some r" by (cases p) (auto dest: is_list_None)
  have l: "lseg ?h (Some r) (ys @ [y]) None" using assms r snoc by (simp add: is_list_def)
  have y: "y \<in> dom h" using lseg_dom [of h p xs None] assms(1) snoc by (auto simp: is_list_def)
  have "arrow_linked_list_add h p a = Some (p, ?h(y \<mapsto> Some a))"
    using r y assms(2) find_last_lseg [OF l] by (simp add: arrow_linked_list_add_def set_next_def)
  moreover have "is_list (?h(y \<mapsto> Some a)) p (xs @ [a])"
    using l r snoc assms by (auto simp: is_list_def lseg_append)
  moreover have "only_changes (insert a (set xs)) h (?h(y \<mapsto> Some a))"
    using snoc y assms(2) by (auto simp: only_changes_def)
  ultimately show ?thesis by blast
qed

lemma arrow_linked_list_add_first_list:
  assumes "is_list h p xs" and "a \<in> dom h" and "a \<notin> set xs"
  shows "\<exists>h'. arrow_linked_list_add_first h p a = Some (Some a, h') \<and> is_list h' (Some a) (a # xs) \<and>
    only_changes {a} h h'"
  using assms by (auto simp: arrow_linked_list_add_first_def set_next_def is_list_def only_changes_def)

lemma arrow_linked_list_del_list:
  assumes "is_list h p xs" and "a \<in> set xs"
  shows "\<exists>p' h'. arrow_linked_list_del h p a = Some (p', h') \<and> is_list h' p' (remove1 a xs) \<and>
    only_changes (set xs) h h'"
proof -
  obtain ys zs where xs: "xs = ys @ a # zs" "a \<notin> set ys" using assms(2) by (meson split_list_first)
  from assms(1) xs obtain n where l: "lseg h p ys (Some a)" "h a = Some n" "lseg h n zs None"
    "distinct (ys @ a # zs)" by (auto simp: is_list_def lseg_append)
  note loop = del_loop_found [OF l(1) xs(2), of p None]
  show ?thesis
  proof (cases ys rule: rev_cases)
    case Nil
    with l(1) have "p = Some a" by simp
    with loop l Nil have "arrow_linked_list_del h p a = Some (n, h(a \<mapsto> None))"
      by (simp add: arrow_linked_list_del_def del_loop.simps set_next_def domI)
    with Nil xs l show ?thesis by (auto simp: is_list_def only_changes_def)
  next
    case (snoc us y)
    have y: "y \<in> dom h" using lseg_dom [OF l(1)] snoc by auto
    have "arrow_linked_list_del h p a = Some (p, h(y \<mapsto> n))"
      using loop l(2) snoc y by (simp add: arrow_linked_list_del_def del_loop.simps set_next_def)
    moreover have "is_list (h(y \<mapsto> n)) p (ys @ zs)"
      using l snoc by (auto simp: is_list_def lseg_append)
    moreover have "only_changes (set xs) h (h(y \<mapsto> n))" using snoc xs y by (auto simp: only_changes_def)
    ultimately show ?thesis using xs by (auto simp: remove1_append)
  qed
qed

lemma arrow_linked_list_del_last_list:
  assumes "is_list h p (xs @ [x])"
  shows "\<exists>p' h'. arrow_linked_list_del_last h p = Some (p', h') \<and> is_list h' p' xs \<and>
    only_changes (set (xs @ [x])) h h'"
proof -
  from assms obtain r where r: "p = Some r" by (cases p) (auto dest: is_list_None)
  have l: "lseg h (Some r) (xs @ [x]) None" using assms r by (simp add: is_list_def)
  note d = del_last_loop_lseg [OF l, of None]
  show ?thesis
  proof (cases xs rule: rev_cases)
    case Nil
    with d r show ?thesis by (auto simp: arrow_linked_list_del_last_def only_changes_def)
  next
    case (snoc ys y)
    have dom: "y \<in> dom h" "x \<in> dom h" using lseg_dom [OF l] snoc by auto
    have nx: "h x = Some None" using l by (auto simp: lseg_append)
    have "arrow_linked_list_del_last h p = Some (p, h(y \<mapsto> None, x \<mapsto> None))"
      using d r snoc dom nx by (auto simp: arrow_linked_list_del_last_def set_next_def)
    moreover have "is_list (h(y \<mapsto> None, x \<mapsto> None)) p xs"
      using assms r snoc by (auto simp: is_list_def lseg_append)
    moreover have "only_changes (set (xs @ [x])) h (h(y \<mapsto> None, x \<mapsto> None))"
      using snoc dom by (auto simp: only_changes_def)
    ultimately show ?thesis by blast
  qed
qed

lemma linked_list_find_node_list:
  assumes "is_list h p xs" and "\<forall>x \<in> set xs. f x = Some (g x)"
  shows "linked_list_find_node h f p = Some (find g xs)"
proof -
  have "lseg h p xs None" using assms(1) by (simp add: is_list_def)
  then show ?thesis using assms(2)
  proof (induction xs arbitrary: p)
    case Nil
    then show ?case by (subst linked_list_find_node.simps) simp
  next
    case (Cons x xs)
    then show ?case by (subst linked_list_find_node.simps) auto
  qed
qed

section \<open>The contract of the list\<close>

locale node_sequence =
  fixes repr :: "'h \<Rightarrow> 'p option \<Rightarrow> 'p list \<Rightarrow> bool"
    and nodes :: "'h \<Rightarrow> 'p set"
    and add :: "'h \<Rightarrow> 'p option \<Rightarrow> 'p \<Rightarrow> ('p option \<times> 'h) option"
    and del :: "'h \<Rightarrow> 'p option \<Rightarrow> 'p \<Rightarrow> ('p option \<times> 'h) option"
    and lookup :: "'h \<Rightarrow> ('p \<Rightarrow> bool option) \<Rightarrow> 'p option \<Rightarrow> 'p option option"
  assumes repr_empty: "repr h None []"
    and repr_distinct: "repr h p xs \<Longrightarrow> distinct xs"
    and add_law: "repr h p xs \<Longrightarrow> a \<in> nodes h \<Longrightarrow> a \<notin> set xs \<Longrightarrow>
      \<exists>p' h'. add h p a = Some (p', h') \<and> repr h' p' (xs @ [a]) \<and> nodes h' = nodes h"
    and del_law: "repr h p xs \<Longrightarrow> a \<in> set xs \<Longrightarrow>
      \<exists>p' h'. del h p a = Some (p', h') \<and> repr h' p' (remove1 a xs) \<and> nodes h' = nodes h"
    and lookup_law: "repr h p xs \<Longrightarrow> \<forall>x \<in> set xs. f x = Some (g x) \<Longrightarrow> lookup h f p = Some (find g xs)"
begin

fun add_all :: "'h \<Rightarrow> 'p option \<Rightarrow> 'p list \<Rightarrow> ('p option \<times> 'h) option" where
  "add_all h p [] = Some (p, h)"
| "add_all h p (a # as) = Option.bind (add h p a) (\<lambda>(p, h). add_all h p as)"

lemma add_all_repr:
  assumes "repr h p xs" and "set as \<subseteq> nodes h" and "distinct (xs @ as)"
  shows "\<exists>p' h'. add_all h p as = Some (p', h') \<and> repr h' p' (xs @ as) \<and> nodes h' = nodes h"
  using assms
proof (induction as arbitrary: h p xs)
  case (Cons a as)
  then obtain p1 h1 where "add h p a = Some (p1, h1)" "repr h1 p1 (xs @ [a])" "nodes h1 = nodes h"
    using add_law [of h p xs a] by auto
  with Cons.IH [of h1 p1 "xs @ [a]"] Cons.prems show ?case by simp
qed simp

lemma lookup_added:
  assumes "repr h p xs" and "a \<in> nodes h" and "a \<notin> set xs"
    and "\<forall>x \<in> set xs. f x = Some False" and "f a = Some True"
  shows "\<exists>p' h'. add h p a = Some (p', h') \<and> lookup h' f p' = Some (Some a)"
proof -
  obtain p' h' where a: "add h p a = Some (p', h')" "repr h' p' (xs @ [a])"
    using add_law [OF assms(1-3)] by blast
  have "\<forall>x \<in> set (xs @ [a]). f x = Some (x = a)" using assms(3-5) by auto
  from lookup_law [OF a(2) this] have "lookup h' f p' = Some (find (\<lambda>x. x = a) (xs @ [a]))" .
  moreover have "find (\<lambda>x. x = a) (xs @ [a]) = Some a" using assms(3) by (induction xs) auto
  ultimately show ?thesis using a(1) by simp
qed

lemma lookup_removed:
  assumes "repr h p xs" and "a \<in> set xs" and "\<forall>x \<in> set xs. f x = Some (x = a)"
  shows "\<exists>p' h'. del h p a = Some (p', h') \<and> lookup h' f p' = Some None"
proof -
  obtain p' h' where d: "del h p a = Some (p', h')" "repr h' p' (remove1 a xs)"
    using del_law [OF assms(1,2)] by blast
  have s: "set (remove1 a xs) = set xs - {a}" using repr_distinct [OF assms(1)] by simp
  then have "lookup h' f p' = Some (find (\<lambda>x. x = a) (remove1 a xs))"
    using assms(3) by (intro lookup_law [OF d(2)]) auto
  with d(1) s show ?thesis by (auto simp: find_None_iff)
qed

end

interpretation ll: node_sequence is_list dom arrow_linked_list_add arrow_linked_list_del linked_list_find_node
proof (unfold_locales, goal_cases)
  case (3 h p xs a)
  then show ?case using arrow_linked_list_add_list [of h p xs a] by (auto simp: only_changes_def)
next
  case (4 h p xs a)
  then show ?case using arrow_linked_list_del_list [of h p xs a] by (auto simp: only_changes_def)
next
  case (5 h p xs f g)
  then show ?case by (rule linked_list_find_node_list)
qed (auto simp: is_list_def)

section \<open>Properties\<close>

text \<open>C32. Appending and deleting nodes of a linked list: on a well-formed list an append adds the
  node at the end, a deletion of a member removes exactly it, deleting the last node removes the
  last one; the loops terminate, only nodes of the list and the new node are written, and every
  other list in the heap is left alone.\<close>

theorem linked_list_operations:
  assumes "is_list h p xs" and "is_list h q ys" and "set xs \<inter> set ys = {}"
    and "a \<in> dom h" and "a \<notin> set xs \<union> set ys"
  shows "(\<exists>p' h'. arrow_linked_list_add h p a = Some (p', h') \<and> is_list h' p' (xs @ [a]) \<and> is_list h' q ys) \<and>
    (\<forall>b \<in> set xs. \<exists>p' h'. arrow_linked_list_del h p b = Some (p', h') \<and>
       is_list h' p' (remove1 b xs) \<and> is_list h' q ys) \<and>
    (xs \<noteq> [] \<longrightarrow> (\<exists>p' h'. arrow_linked_list_del_last h p = Some (p', h') \<and>
       is_list h' p' (butlast xs) \<and> is_list h' q ys))"
proof -
  have frame: "is_list h' q ys" if "only_changes A h h'" "A \<subseteq> insert a (set xs)" for A h'
    using that assms lseg_only_changes [of A h h' ys q None] by (auto simp: is_list_def)
  have "\<exists>p' h'. arrow_linked_list_del_last h p = Some (p', h') \<and> is_list h' p' (butlast xs) \<and> is_list h' q ys"
    if "xs \<noteq> []"
    using arrow_linked_list_del_last_list [of h p "butlast xs" "last xs"] that assms(1)
      frame [of "set xs"] append_butlast_last_id [OF that] by fastforce
  moreover have "\<exists>p' h'. arrow_linked_list_del h p b = Some (p', h') \<and> is_list h' p' (remove1 b xs) \<and> is_list h' q ys"
    if "b \<in> set xs" for b
    using arrow_linked_list_del_list [OF assms(1) that] frame [of "set xs"] by blast
  moreover have "\<exists>p' h'. arrow_linked_list_add h p a = Some (p', h') \<and> is_list h' p' (xs @ [a]) \<and> is_list h' q ys"
    using arrow_linked_list_add_list [OF assms(1,4)] assms(5) frame [of "insert a (set xs)"] by auto
  ultimately show ?thesis by blast
qed

theorem linked_list_operations_witness:
  "\<exists>p' h'. arrow_linked_list_add [1 :: nat \<mapsto> Some 2, 2 \<mapsto> None, 3 \<mapsto> Some 3] (Some 1) 3 = Some (p', h') \<and>
     is_list h' p' ([1, 2] @ [3]) \<and> is_list h' None []"
proof -
  let ?h = "[1 :: nat \<mapsto> Some (2 :: nat), 2 \<mapsto> None, 3 \<mapsto> Some 3]"
  have "is_list ?h (Some 1) [1, 2]" by (simp add: is_list_def)
  from linked_list_operations [OF this, of None "[]" 3] show ?thesis by auto
qed

text \<open>Deleting a node that is not in the list answers null, and the macros assign that answer to
  the list's root: the whole list is lost.\<close>

lemma del_missing_loses_list:
  "is_list h p xs \<Longrightarrow> el \<notin> set xs \<Longrightarrow> arrow_linked_list_del h p el = Some (None, h)"
  using del_loop_missing [of h p xs el p None] by (simp add: arrow_linked_list_del_def is_list_def)

end
