(* ===== verification/Dl_List.thy ===== *)
theory Dl_List
  imports C_Base
begin

text \<open>
  The circular doubly linked list of \<open>src/data/dllist.c\<close> with the macros of
  \<open>include/data/dllist.h\<close>. The heap maps the address of a node to its two fields. A list is visited
  from \<open>head->next\<close> round to \<open>head\<close>: \<open>ring h xs\<close> says that the nodes \<open>xs\<close> are linked in this order,
  and the list variable \<open>head\<close> points to the last of them.
\<close>

section \<open>Operations\<close>

record 'p dnode =
  d_next :: "'p option"
  d_prev :: "'p option"

type_synonym 'p dheap = "'p \<rightharpoonup> 'p dnode"

definition get_next :: "'p dheap \<Rightarrow> 'p option \<Rightarrow> 'p option option" where
  "get_next h p = do { a \<leftarrow> p; n \<leftarrow> h a; Some (d_next n) }"

definition get_prev :: "'p dheap \<Rightarrow> 'p option \<Rightarrow> 'p option option" where
  "get_prev h p = do { a \<leftarrow> p; n \<leftarrow> h a; Some (d_prev n) }"

definition put_next :: "'p dheap \<Rightarrow> 'p option \<Rightarrow> 'p option \<Rightarrow> 'p dheap option" where
  "put_next h p v = do { a \<leftarrow> p; n \<leftarrow> h a; Some (h(a \<mapsto> n\<lparr>d_next := v\<rparr>)) }"

definition put_prev :: "'p dheap \<Rightarrow> 'p option \<Rightarrow> 'p option \<Rightarrow> 'p dheap option" where
  "put_prev h p v = do { a \<leftarrow> p; n \<leftarrow> h a; Some (h(a \<mapsto> n\<lparr>d_prev := v\<rparr>)) }"

definition list_add_between :: "'p dheap \<Rightarrow> 'p option \<Rightarrow> 'p option \<Rightarrow> 'p option \<Rightarrow> 'p dheap option" where
  "list_add_between h n prev nxt = do {
     h \<leftarrow> put_prev h nxt n;
     h \<leftarrow> put_next h n nxt;
     h \<leftarrow> put_prev h n prev;
     put_next h prev n
   }"

definition doubly_linked_list_add :: "'p dheap \<Rightarrow> 'p option \<Rightarrow> 'p option \<Rightarrow> ('p option \<times> 'p dheap) option" where
  "doubly_linked_list_add h n head = do {
     nxt \<leftarrow> get_next h head;
     h \<leftarrow> list_add_between h n head nxt;
     Some (n, h)
   }"

definition doubly_linked_list_add_tail :: "'p dheap \<Rightarrow> 'p option \<Rightarrow> 'p option \<Rightarrow> ('p option \<times> 'p dheap) option" where
  "doubly_linked_list_add_tail h n head = do {
     prev \<leftarrow> get_prev h head;
     h \<leftarrow> list_add_between h n prev head;
     Some (head, h)
   }"

definition doubly_linked_list_del :: "'p dheap \<Rightarrow> 'p option \<Rightarrow> ('p option \<times> 'p dheap) option" where
  "doubly_linked_list_del h el = do {
     prev \<leftarrow> get_prev h el;
     nxt \<leftarrow> get_next h el;
     h \<leftarrow> put_next h prev nxt;
     h \<leftarrow> put_prev h nxt prev;
     h \<leftarrow> put_next h el None;
     h \<leftarrow> put_prev h el None;
     Some (el, h)
   }"

text \<open>The macros; each returns the new value of the variable \<open>head\<close>.\<close>

definition doubly_linked_list_add_node :: "'p dheap \<Rightarrow> 'p option \<Rightarrow> 'p \<Rightarrow> ('p option \<times> 'p dheap) option" where
  "doubly_linked_list_add_node h head el =
     (if head = None then do {
        h \<leftarrow> put_prev h (Some el) (Some el);
        h \<leftarrow> put_next h (Some el) (Some el);
        Some (Some el, h)
      } else doubly_linked_list_add h (Some el) head)"

definition doubly_linked_list_add_node_tail :: "'p dheap \<Rightarrow> 'p option \<Rightarrow> 'p \<Rightarrow> ('p option \<times> 'p dheap) option" where
  "doubly_linked_list_add_node_tail h head el =
     (if head = None then do {
        h \<leftarrow> put_prev h (Some el) (Some el);
        h \<leftarrow> put_next h (Some el) (Some el);
        Some (Some el, h)
      } else doubly_linked_list_add_tail h (Some el) head)"

definition doubly_linked_list_del_node :: "'p dheap \<Rightarrow> 'p option \<Rightarrow> 'p option \<Rightarrow> ('p option \<times> 'p dheap) option" where
  "doubly_linked_list_del_node h head el =
     (if el \<noteq> None then do {
        head \<leftarrow> (if el = head then get_prev h head else Some head);
        (_, h) \<leftarrow> doubly_linked_list_del h el;
        Some (head, h)
      } else Some (head, h))"

definition doubly_linked_list_del_node_head :: "'p dheap \<Rightarrow> 'p option \<Rightarrow> ('p option \<times> 'p dheap) option" where
  "doubly_linked_list_del_node_head h head =
     (if head \<noteq> None then do {
        head_prev \<leftarrow> get_prev h head;
        (_, h) \<leftarrow> doubly_linked_list_del h head;
        Some (head_prev, h)
      } else Some (head, h))"

text \<open>\<open>doubly_linked_list_find_node\<close> over \<open>dl_for_each_node\<close>: \<open>tmp\<close> is the node of the current turn,
  \<open>base_p\<close> the iteration's pointer, null on the first turn.\<close>

partial_function (option) dl_find_loop ::
    "'p dheap \<Rightarrow> ('p \<Rightarrow> bool option) \<Rightarrow> 'p \<Rightarrow> 'p \<Rightarrow> 'p option \<Rightarrow> 'p \<Rightarrow> 'p option \<Rightarrow> 'p option option" where
  "dl_find_loop h f head first base_p tmp p =
     Option.bind (get_next h (Some head)) (\<lambda>hn.
       if base_p = hn then Some p
       else Option.bind (f tmp) (\<lambda>b.
         if b then Some (Some tmp)
         else Option.bind (get_next h (Some (case base_p of None \<Rightarrow> first | Some x \<Rightarrow> x))) (\<lambda>nx.
           Option.bind nx (\<lambda>t. dl_find_loop h f head first nx t (Some tmp)))))"

definition doubly_linked_list_find_node :: "'p dheap \<Rightarrow> ('p \<Rightarrow> bool option) \<Rightarrow> 'p option \<Rightarrow> 'p option option" where
  "doubly_linked_list_find_node h f head =
     (case head of
        None \<Rightarrow> Some None
      | Some a \<Rightarrow> do {
          nx \<leftarrow> get_next h (Some a);
          first \<leftarrow> nx;
          dl_find_loop h f a first None first None
        })"

section \<open>Chains and rings\<close>

definition link :: "'p dheap \<Rightarrow> 'p \<Rightarrow> 'p \<Rightarrow> bool" where
  "link h x y \<longleftrightarrow> map_option d_next (h x) = Some (Some y) \<and> map_option d_prev (h y) = Some (Some x)"

fun chain :: "'p dheap \<Rightarrow> 'p list \<Rightarrow> bool" where
  "chain h (x # y # zs) \<longleftrightarrow> link h x y \<and> chain h (y # zs)"
| "chain h _ \<longleftrightarrow> True"

definition ring :: "'p dheap \<Rightarrow> 'p list \<Rightarrow> bool" where
  "ring h xs \<longleftrightarrow> xs \<noteq> [] \<and> distinct xs \<and> chain h (xs @ [hd xs])"

definition is_dlist :: "'p dheap \<Rightarrow> 'p option \<Rightarrow> 'p list \<Rightarrow> bool" where
  "is_dlist h head xs \<longleftrightarrow> (if xs = [] then head = None else ring h xs \<and> head = Some (last xs))"

lemma chain_append: "chain h (xs @ y # zs) \<longleftrightarrow> chain h (xs @ [y]) \<and> chain h (y # zs)"
proof (induction xs)
  case (Cons x xs)
  then show ?case by (cases xs) auto
qed simp

lemma chain_cong:
  assumes "\<forall>x \<in> set (butlast xs). map_option d_next (h' x) = map_option d_next (h x)"
    and "\<forall>x \<in> set (tl xs). map_option d_prev (h' x) = map_option d_prev (h x)"
  shows "chain h' xs = chain h xs"
  using assms by (induction h xs rule: chain.induct) (auto simp: link_def split: if_splits)

lemma ring_rotate: "ring h (us @ vs) \<longleftrightarrow> ring h (vs @ us)"
proof (cases "us = [] \<or> vs = []")
  case False
  then obtain u us' v vs' where "us = u # us'" "vs = v # vs'" by (meson neq_Nil_conv)
  then show ?thesis
    using chain_append [of h us v "vs' @ [u]"] chain_append [of h vs u "us' @ [v]"] by (auto simp: ring_def)
qed auto

abbreviation nxt_of :: "'p dheap \<Rightarrow> 'p \<Rightarrow> 'p option option" where
  "nxt_of h x \<equiv> map_option d_next (h x)"

abbreviation prv_of :: "'p dheap \<Rightarrow> 'p \<Rightarrow> 'p option option" where
  "prv_of h x \<equiv> map_option d_prev (h x)"

lemma get_fields [simp]: "get_next h (Some a) = nxt_of h a" "get_prev h (Some a) = prv_of h a"
  by (auto simp: get_next_def get_prev_def map_option_case split: option.splits)

lemma ring_iff: "ring h xs \<longleftrightarrow> xs \<noteq> [] \<and> distinct xs \<and> chain h xs \<and> link h (last xs) (hd xs)"
  by (cases xs rule: rev_cases) (use chain_append [of h _ _ "[hd xs]"] in \<open>auto simp: ring_def\<close>)

lemma list_add_between_effect:
  assumes "a \<in> dom h" and "p \<in> dom h" and "q \<in> dom h" and "a \<noteq> p" and "a \<noteq> q"
  shows "\<exists>h'. list_add_between h (Some a) (Some p) (Some q) = Some h' \<and> dom h' = dom h \<and>
    nxt_of h' = (nxt_of h)(a \<mapsto> Some q, p \<mapsto> Some a) \<and> prv_of h' = (prv_of h)(q \<mapsto> Some a, a \<mapsto> Some p)"
proof -
  from assms obtain na np nq where "h a = Some na" "h p = Some np" "h q = Some nq" by auto
  with assms show ?thesis
    by (cases "p = q"; simp add: list_add_between_def put_prev_def put_next_def) (auto simp: fun_eq_iff)
qed

lemma last_notin_butlast: "distinct xs \<Longrightarrow> xs \<noteq> [] \<Longrightarrow> last xs \<notin> set (butlast xs)"
  by (cases xs rule: rev_cases) auto

lemma link_dom: "link h x y \<Longrightarrow> x \<in> dom h \<and> y \<in> dom h"
  by (auto simp: link_def)

lemma ring_insert_last:
  assumes "ring h xs" and "a \<in> dom h" and "a \<notin> set xs"
  shows "\<exists>h'. list_add_between h (Some a) (Some (last xs)) (Some (hd xs)) = Some h' \<and> ring h' (xs @ [a]) \<and>
    dom h' = dom h"
proof -
  note r = assms(1) [unfolded ring_iff]
  have m: "last xs \<in> set xs" "hd xs \<in> set xs" using r by auto
  have d: "a \<noteq> last xs" "a \<noteq> hd xs" using m assms(3) by auto
  obtain h' where h': "list_add_between h (Some a) (Some (last xs)) (Some (hd xs)) = Some h'" "dom h' = dom h"
    "nxt_of h' = (nxt_of h)(a \<mapsto> Some (hd xs), last xs \<mapsto> Some a)"
    "prv_of h' = (prv_of h)(hd xs \<mapsto> Some a, a \<mapsto> Some (last xs))"
    using list_add_between_effect [OF assms(2) _ _ d] link_dom [of h "last xs" "hd xs"] r by blast
  note n = fun_cong [OF h'(3)] and p = fun_cong [OF h'(4)]
  have out: "a \<notin> set (butlast xs)" "a \<notin> set (tl xs)" "hd xs \<notin> set (tl xs)" "last xs \<notin> set (butlast xs)"
    using assms(3) r last_notin_butlast [of xs] by (auto dest: in_set_butlastD list.set_sel(2)) (cases xs; simp)
  have "chain h' xs = chain h xs" by (intro chain_cong) (use out in \<open>auto simp: n p\<close>)
  then have "chain h' xs" using r by simp
  moreover have l: "link h' (last xs) a" "link h' a (hd xs)" using d by (auto simp: link_def n p)
  moreover obtain ys y where "xs = ys @ [y]" using r by (cases xs rule: rev_cases) auto
  ultimately have "chain h' (xs @ [a])" using chain_append [of h' ys y "[a]"] by simp
  with l have "ring h' (xs @ [a])" using r assms(3) by (auto simp: ring_iff)
  with h' show ?thesis by blast
qed

lemma add_node_dlist:
  assumes "is_dlist h head xs" and "a \<in> dom h" and "a \<notin> set xs"
  shows "\<exists>h'. doubly_linked_list_add_node h head a = Some (Some a, h') \<and> is_dlist h' (Some a) (xs @ [a]) \<and>
    dom h' = dom h"
proof (cases "xs = []")
  case True
  with assms show ?thesis
    by (auto simp: doubly_linked_list_add_node_def is_dlist_def put_prev_def put_next_def ring_def link_def)
next
  case False
  with assms have r: "ring h xs" "head = Some (last xs)" by (auto simp: is_dlist_def)
  have "nxt_of h (last xs) = Some (Some (hd xs))" using r(1) by (simp add: ring_iff link_def)
  with r ring_insert_last [OF r(1) assms(2,3)] show ?thesis
    by (auto simp: doubly_linked_list_add_node_def doubly_linked_list_add_def is_dlist_def)
qed

lemma add_node_tail_dlist:
  assumes "is_dlist h head xs" and "a \<in> dom h" and "a \<notin> set xs"
  shows "\<exists>head' h'. doubly_linked_list_add_node_tail h head a = Some (head', h') \<and>
    is_dlist h' head' (if xs = [] then [a] else butlast xs @ [a, last xs]) \<and> dom h' = dom h"
proof (cases "xs = []")
  case True
  with assms show ?thesis
    by (auto simp: doubly_linked_list_add_node_tail_def is_dlist_def put_prev_def put_next_def ring_def link_def)
next
  case False
  with assms have r: "ring h xs" "head = Some (last xs)" by (auto simp: is_dlist_def)
  obtain ys y where xs: "xs = ys @ [y]" using False by (cases xs rule: rev_cases) auto
  have r': "ring h (y # ys)" using r(1) ring_rotate [of h ys "[y]"] xs by simp
  then have "prv_of h y = Some (Some (last (y # ys)))" by (simp add: ring_iff link_def)
  moreover obtain h' where h': "list_add_between h (Some a) (Some (last (y # ys))) (Some y) = Some h'"
    "ring h' (y # ys @ [a])" "dom h' = dom h"
    using ring_insert_last [OF r' assms(2)] assms(3) xs by auto
  moreover have "ring h' (ys @ [a, y])" using h'(2) ring_rotate [of h' "[y]" "ys @ [a]"] by simp
  ultimately show ?thesis
    using r(2) xs by (auto simp: doubly_linked_list_add_node_tail_def doubly_linked_list_add_tail_def is_dlist_def)
qed

lemma list_del_effect:
  assumes "prv_of h a = Some (Some p)" and "nxt_of h a = Some (Some q)"
    and "p \<in> dom h" and "q \<in> dom h" and "a \<noteq> p" and "a \<noteq> q"
  shows "\<exists>h'. doubly_linked_list_del h (Some a) = Some (Some a, h') \<and> dom h' = dom h \<and>
    nxt_of h' = (nxt_of h)(p \<mapsto> Some q, a \<mapsto> None) \<and> prv_of h' = (prv_of h)(q \<mapsto> Some p, a \<mapsto> None)"
proof -
  from assms obtain na np nq where "h a = Some na" "h p = Some np" "h q = Some nq" by auto
  with assms show ?thesis
    by (cases "p = q"; simp add: doubly_linked_list_del_def put_prev_def put_next_def) (auto simp: fun_eq_iff)
qed

lemma ring_delete_first:
  assumes "ring h (a # ws)" and "ws \<noteq> []"
  shows "\<exists>h'. doubly_linked_list_del h (Some a) = Some (Some a, h') \<and> ring h' ws \<and> dom h' = dom h \<and>
    prv_of h a = Some (Some (last ws))"
proof -
  obtain w ws' where ws: "ws = w # ws'" using assms(2) by (cases ws) auto
  note r = assms(1) [unfolded ring_iff]
  have l: "link h a w" "link h (last ws) a" "chain h ws" using r ws by auto
  have f: "prv_of h a = Some (Some (last ws))" "nxt_of h a = Some (Some w)" using l by (auto simp: link_def)
  have dom: "last ws \<in> dom h" "w \<in> dom h" using link_dom [OF l(2)] link_dom [OF l(1)] by auto
  have ne: "a \<noteq> last ws" "a \<noteq> w" using r assms(2) ws by (auto dest: last_in_set)
  obtain h' where h': "doubly_linked_list_del h (Some a) = Some (Some a, h')" "dom h' = dom h"
    "nxt_of h' = (nxt_of h)(last ws \<mapsto> Some w, a \<mapsto> None)" "prv_of h' = (prv_of h)(w \<mapsto> Some (last ws), a \<mapsto> None)"
    using list_del_effect [OF f dom ne] by blast
  note n = fun_cong [OF h'(3)] and p = fun_cong [OF h'(4)]
  have out: "a \<notin> set ws" "last ws \<notin> set (butlast ws)" "w \<notin> set ws'"
    using r ws last_notin_butlast [of ws] by auto
  have "chain h' ws = chain h ws"
    by (intro chain_cong) (use out ws in \<open>auto simp: n p dest: in_set_butlastD\<close>)
  moreover have "link h' (last ws) w" using ne by (auto simp: link_def n p)
  ultimately have "ring h' ws" using r l(3) ws by (auto simp: ring_iff)
  with h' f show ?thesis by blast
qed

lemma del_node_dlist:
  assumes "is_dlist h head xs" and "a \<in> set xs" and "xs \<noteq> [a]"
  shows "\<exists>head' h'. doubly_linked_list_del_node h head (Some a) = Some (head', h') \<and>
    is_dlist h' head' (remove1 a xs) \<and> dom h' = dom h"
proof -
  obtain us vs where xs: "xs = us @ a # vs" "a \<notin> set us" using assms(2) by (meson split_list_first)
  have ne: "vs @ us \<noteq> []" using assms(3) xs by auto
  have r: "ring h xs" "head = Some (last xs)" using assms(1,2) by (auto simp: is_dlist_def split: if_splits)
  then have "ring h (a # vs @ us)" using ring_rotate [of h us "a # vs"] xs by simp
  from ring_delete_first [OF this ne] obtain h' where d: "doubly_linked_list_del h (Some a) = Some (Some a, h')"
    "ring h' (us @ vs)" "dom h' = dom h" "prv_of h a = Some (Some (last (vs @ us)))"
    using ring_rotate [of _ vs us] by blast
  have rem: "remove1 a xs = us @ vs" using xs by (simp add: remove1_append)
  have a: "a \<notin> set vs" using r(1) xs by (auto simp: ring_def)
  show ?thesis
  proof (cases "vs = []")
    case True
    with xs r d ne rem show ?thesis by (auto simp: doubly_linked_list_del_node_def is_dlist_def)
  next
    case False
    with a xs have "last xs \<noteq> a" using last_in_set [of vs] by auto
    with False xs r d ne rem show ?thesis by (auto simp: doubly_linked_list_del_node_def is_dlist_def)
  qed
qed

text \<open>The search visits the nodes in order; without a match it answers the last node.\<close>

lemma dl_find_loop_ring:
  assumes "ring h xs" and "\<forall>x \<in> set xs. f x = Some (g x)"
    and "xs = us @ t # vs" and "bp = (if us = [] then None else Some t)"
  shows "dl_find_loop h f (last xs) (hd xs) bp t p =
    Some (case find g (t # vs) of Some x \<Rightarrow> Some x | None \<Rightarrow> Some (last (t # vs)))"
  using assms(3,4)
proof (induction vs arbitrary: us t bp p)
  case Nil
  have l: "nxt_of h (last xs) = Some (Some (hd xs))" using assms(1) by (auto simp: ring_iff link_def)
  have d: "us \<noteq> [] \<Longrightarrow> t \<noteq> hd xs" using assms(1) Nil by (cases us) (auto simp: ring_def)
  have t: "last xs = t" using Nil by simp
  have step: "dl_find_loop h f (last xs) (hd xs) bp t p =
      (if g t then Some (Some t) else dl_find_loop h f (last xs) (hd xs) (Some (hd xs)) (hd xs) (Some t))"
    using l d Nil assms(2) t by (subst dl_find_loop.simps) (cases us; auto simp del: map_option_eq_Some)
  show ?case unfolding step using l by (subst dl_find_loop.simps) (auto simp del: map_option_eq_Some)
next
  case (Cons v vs)
  have l: "nxt_of h (last xs) = Some (Some (hd xs))" using assms(1) by (auto simp: ring_iff link_def)
  have d: "us \<noteq> [] \<Longrightarrow> t \<noteq> hd xs" using assms(1) Cons.prems by (cases us) (auto simp: ring_def)
  have "chain h (t # v # vs)" using assms(1) chain_append [of h us t "v # vs"] Cons.prems by (simp add: ring_iff)
  then have n: "nxt_of h t = Some (Some v)" by (simp add: link_def)
  have h: "us = [] \<Longrightarrow> hd xs = t" using Cons.prems by simp
  have step: "dl_find_loop h f (last xs) (hd xs) bp t p =
      (if g t then Some (Some t) else dl_find_loop h f (last xs) (hd xs) (Some v) v (Some t))"
    using l d n h Cons.prems assms(2) by (subst dl_find_loop.simps) (cases us; auto simp del: map_option_eq_Some)
  show ?case unfolding step using Cons.IH [of "us @ [t]" v "Some v" "Some t"] Cons.prems
    by (simp split: option.splits)
qed

lemma find_node_dlist:
  assumes "is_dlist h head xs" and "\<forall>x \<in> set xs. f x = Some (g x)"
  shows "doubly_linked_list_find_node h f head =
    Some (if xs = [] then None else case find g xs of Some x \<Rightarrow> Some x | None \<Rightarrow> Some (last xs))"
proof (cases xs)
  case Nil
  with assms show ?thesis by (simp add: is_dlist_def doubly_linked_list_find_node_def)
next
  case (Cons x ys)
  with assms have r: "ring h xs" "head = Some (last xs)" by (auto simp: is_dlist_def)
  then have "nxt_of h (last xs) = Some (Some x)" using Cons by (simp add: ring_iff link_def)
  with r Cons dl_find_loop_ring [OF r(1) assms(2), of "[]" x ys None None] show ?thesis
    by (simp add: doubly_linked_list_find_node_def del: map_option_eq_Some last.simps split: option.splits)
qed

section \<open>Properties\<close>

text \<open>C33. The doubly linked list: in the order in which the list is visited, \<open>add_node\<close> appends,
  \<open>add_node_tail\<close> inserts before the last node and \<open>del_node\<close> removes exactly its argument from a list
  of more than one node; every operation leaves a correctly linked ring whose head is its last node,
  and the search returns the first match, or the last node when nothing matches.\<close>

theorem dl_list_operations:
  assumes "is_dlist h head xs" and "a \<in> dom h" and "a \<notin> set xs" and "\<forall>x \<in> set xs. f x = Some (g x)"
  shows "(\<exists>h'. doubly_linked_list_add_node h head a = Some (Some a, h') \<and> is_dlist h' (Some a) (xs @ [a])) \<and>
    (\<exists>head' h'. doubly_linked_list_add_node_tail h head a = Some (head', h') \<and>
       is_dlist h' head' (if xs = [] then [a] else butlast xs @ [a, last xs])) \<and>
    (\<forall>b \<in> set xs. xs \<noteq> [b] \<longrightarrow> (\<exists>head' h'. doubly_linked_list_del_node h head (Some b) = Some (head', h') \<and>
       is_dlist h' head' (remove1 b xs))) \<and>
    doubly_linked_list_find_node h f head =
      Some (if xs = [] then None else case find g xs of Some x \<Rightarrow> Some x | None \<Rightarrow> Some (last xs))"
  using add_node_dlist [OF assms(1-3)] add_node_tail_dlist [OF assms(1-3)] del_node_dlist [OF assms(1)]
    find_node_dlist [OF assms(1,4)] by blast

theorem dl_list_operations_witness:
  "\<exists>h'. doubly_linked_list_add_node
      [1 :: nat \<mapsto> \<lparr>d_next = Some 1, d_prev = Some 1\<rparr>, 2 \<mapsto> \<lparr>d_next = None, d_prev = None\<rparr>] (Some 1) 2 = Some (Some 2, h') \<and>
    is_dlist h' (Some 2) ([1] @ [2])"
proof -
  let ?h = "[1 :: nat \<mapsto> \<lparr>d_next = Some (1 :: nat), d_prev = Some 1\<rparr>, 2 \<mapsto> \<lparr>d_next = None, d_prev = None\<rparr>]"
  have "is_dlist ?h (Some 1) [1]" by (simp add: is_dlist_def ring_def link_def)
  from dl_list_operations [OF this, of 2 "\<lambda>_. Some True" "\<lambda>_. True"] show ?thesis by simp
qed

text \<open>Deleting the only node leaves the head pointing to it, with both its links null.\<close>

lemma del_only_node_leaves_head:
  assumes "is_dlist h head [a]"
  shows "\<exists>h'. doubly_linked_list_del_node h head (Some a) = Some (Some a, h') \<and>
    nxt_of h' a = Some None \<and> prv_of h' a = Some None"
  using assms
  by (auto simp: is_dlist_def ring_def link_def doubly_linked_list_del_node_def doubly_linked_list_del_def
      put_next_def put_prev_def)

end
