(* ===== verification/Static_Buf.thy ===== *)
theory Static_Buf
  imports C_Base
begin

text \<open>
  The chunk allocator of \<open>src/data/static_buf.c\<close> and the object pools of
  \<open>include/data/static_alloc.h\<close>. A buffer of \<open>CREATE_BUFFER\<close> is a record: the memory, its number of
  chunks, the chunk size, and two bitmaps: \<open>alloc_space\<close> marks the chunks in use, \<open>alloc_head\<close> the first
  chunk of each block. Pointers into the buffer are offsets, a null pointer is \<^term>\<open>None\<close>; an access
  outside a bitmap is undefined.
\<close>

unbundle bit_operations_syntax

section \<open>The bitmaps\<close>

definition is_in_use :: "bytes \<Rightarrow> nat \<Rightarrow> bool option" where
  "is_in_use buf index = do {
     b \<leftarrow> read_at buf (index div 8);
     Some (b AND push_bit (index mod 8) 1 \<noteq> 0)
   }"

definition set_in_use :: "bytes \<Rightarrow> nat \<Rightarrow> bytes option" where
  "set_in_use buf index = do {
     b \<leftarrow> read_at buf (index div 8);
     write_at buf (index div 8) (b OR push_bit (index mod 8) 1)
   }"

definition unset_in_use :: "bytes \<Rightarrow> nat \<Rightarrow> bytes option" where
  "unset_in_use buf index = do {
     b \<leftarrow> read_at buf (index div 8);
     write_at buf (index div 8) (b AND NOT (push_bit (index mod 8) 1))
   }"

section \<open>The allocator\<close>

record static_buffer =
  sb_mem :: bytes
  sb_size :: nat
  sb_chunk :: nat
  sb_space :: bytes
  sb_head :: bytes

definition CREATE_BUFFER :: "nat \<Rightarrow> nat \<Rightarrow> static_buffer" where
  "CREATE_BUFFER n chunk = \<lparr>sb_mem = replicate n 0, sb_size = n div chunk, sb_chunk = chunk,
     sb_space = replicate (n div chunk div 8) 0, sb_head = replicate (n div chunk div 8) 0\<rparr>"

text \<open>The search loop: \<open>k\<close> turns are left, \<open>t\<close> free chunks precede \<open>i\<close>. The result is \<open>sector\<close>,
  \<^term>\<open>None\<close> for -1.\<close>

fun alloc_scan :: "bytes \<Rightarrow> nat \<Rightarrow> nat \<Rightarrow> nat \<Rightarrow> nat \<Rightarrow> nat option option" where
  "alloc_scan space r 0 i t = Some None"
| "alloc_scan space r (Suc k) i t = do {
     b \<leftarrow> is_in_use space i;
     if \<not> b then if t + 1 = r then Some (Some i) else alloc_scan space r k (i + 1) (t + 1)
     else alloc_scan space r k (i + 1) 0
   }"

fun set_range :: "bytes \<Rightarrow> nat \<Rightarrow> nat \<Rightarrow> bytes option" where
  "set_range space i 0 = Some space"
| "set_range space i (Suc k) = do { space \<leftarrow> set_in_use space i; set_range space (i + 1) k }"

definition static_alloc :: "static_buffer \<Rightarrow> int \<Rightarrow> (nat option \<times> static_buffer) option" where
  "static_alloc sb n =
     (if n \<le> 0 then Some (None, sb)
      else if sb_chunk sb = 0 then None
      else let r = nat n div sb_chunk sb + (if nat n mod sb_chunk sb \<noteq> 0 then 1 else 0)
      in do {
        sector \<leftarrow> alloc_scan (sb_space sb) r (sb_size sb) 0 0;
        case sector of
          None \<Rightarrow> Some (None, sb)
        | Some s \<Rightarrow> do {
            h \<leftarrow> set_in_use (sb_head sb) (s + 1 - r);
            sp \<leftarrow> set_range (sb_space sb) (s + 1 - r) r;
            Some (Some (sb_chunk sb * (s + 1 - r)), sb\<lparr>sb_head := h, sb_space := sp\<rparr>)
          }
      })"

fun count_free :: "bytes \<Rightarrow> nat \<Rightarrow> nat \<Rightarrow> nat \<Rightarrow> nat option" where
  "count_free space 0 i sector = Some sector"
| "count_free space (Suc k) i sector = do {
     b \<leftarrow> is_in_use space i;
     count_free space k (i + 1) (if \<not> b then sector + 1 else sector)
   }"

definition find_max_alloc :: "static_buffer \<Rightarrow> nat option" where
  "find_max_alloc sb = do { n \<leftarrow> count_free (sb_space sb) (sb_size sb) 0 0; Some (n * sb_chunk sb) }"

text \<open>The freeing loop has no bound of its own; outside the bitmap it is undefined.\<close>

function free_loop :: "bytes \<Rightarrow> bytes \<Rightarrow> nat \<Rightarrow> bytes option" where
  "free_loop head space i =
     (case is_in_use head i of
        None \<Rightarrow> None
      | Some inhead \<Rightarrow>
          if inhead then Some space
          else case is_in_use space i of
              None \<Rightarrow> None
            | Some b \<Rightarrow>
                if \<not> b then Some space
                else case unset_in_use space i of None \<Rightarrow> None | Some space \<Rightarrow> free_loop head space (i + 1))"
  by pat_completeness auto
termination
  by (relation "measure (\<lambda>(head, _, i). 8 * length head - i)")
    (auto simp: is_in_use_def read_at_def c_bind split: if_splits)

definition static_free :: "static_buffer \<Rightarrow> int \<Rightarrow> static_buffer option" where
  "static_free sb shift =
     (if shift < 0 then Some sb
      else if sb_chunk sb = 0 then None
      else let shift = nat shift div sb_chunk sb
      in do {
        b \<leftarrow> is_in_use (sb_head sb) shift;
        if \<not> b then Some sb
        else do {
          h \<leftarrow> unset_in_use (sb_head sb) shift;
          sp \<leftarrow> free_loop h (sb_space sb) shift;
          Some (sb\<lparr>sb_head := h, sb_space := sp\<rparr>)
        }
      })"

function buf_size_loop :: "bytes \<Rightarrow> bytes \<Rightarrow> nat \<Rightarrow> nat \<Rightarrow> 16 word \<Rightarrow> 16 word option" where
  "buf_size_loop head space shift i n =
     (case (if i = shift then Some False else is_in_use head i) of
        None \<Rightarrow> None
      | Some inhead \<Rightarrow>
          if inhead then Some n
          else case is_in_use space i of
              None \<Rightarrow> None
            | Some b \<Rightarrow> if \<not> b then Some n else buf_size_loop head space shift (i + 1) (n + 1))"
  by pat_completeness auto
termination
  by (relation "measure (\<lambda>(_, space, _, i, _). 8 * length space - i)")
    (auto simp: is_in_use_def read_at_def c_bind split: if_splits)

definition static_buf_size :: "static_buffer \<Rightarrow> int \<Rightarrow> (16 word) option" where
  "static_buf_size sb shift =
     (if shift < 0 then Some 0
      else if sb_chunk sb = 0 then None
      else let shift = nat shift div sb_chunk sb
      in do {
        b \<leftarrow> is_in_use (sb_head sb) shift;
        if \<not> b then Some 0 else buf_size_loop (sb_head sb) (sb_space sb) shift shift 0
      })"

definition static_realloc :: "static_buffer \<Rightarrow> int \<Rightarrow> int \<Rightarrow> (nat option \<times> static_buffer) option" where
  "static_realloc sb shift n = do {
     (p, sb) \<leftarrow> static_alloc sb n;
     case p of
       None \<Rightarrow> Some (None, sb)
     | Some off \<Rightarrow> do {
         k \<leftarrow> static_buf_size sb shift;
         let s = (if n < int (sb_chunk sb * unat k) then n else int (sb_chunk sb * unat k));
         if shift < 0 \<and> s > 0 then None
         else do {
           d \<leftarrow> mem_read (sb_mem sb) (nat shift) (nat s);
           m \<leftarrow> mem_write (sb_mem sb) off d;
           sb \<leftarrow> static_free (sb\<lparr>sb_mem := m\<rparr>) shift;
           Some (Some off, sb)
         }
       }
   }"

declare free_loop.simps [simp del] buf_size_loop.simps [simp del]

section \<open>Object pools\<close>

text \<open>A pool of \<open>static_object_pool_type\<close>: the flags \<open>in_use\<close> with the objects; \<open>zero\<close> is the object
  \<open>memset\<close> to 0. A pointer to an object is its index.\<close>

fun object_allocator :: "'a \<Rightarrow> (32 word \<times> 'a) list \<Rightarrow> nat \<Rightarrow> nat option \<times> (32 word \<times> 'a) list" where
  "object_allocator zero [] i = (None, [])"
| "object_allocator zero ((u, x) # pool) i =
     (if u = 0 then (Some i, (1, zero) # pool)
      else case object_allocator zero pool (i + 1) of (r, pool') \<Rightarrow> (r, (u, x) # pool'))"

definition object_alloc_size :: "(32 word \<times> 'a) list \<Rightarrow> nat" where
  "object_alloc_size pool = length (filter (\<lambda>(u, x). u = 0) pool)"

definition object_free :: "(32 word \<times> 'a) list \<Rightarrow> nat \<Rightarrow> (32 word \<times> 'a) list option" where
  "object_free pool i = do { (u, x) \<leftarrow> read_at pool i; write_at pool i (0, x) }"

section \<open>Bits\<close>

definition used :: "bytes \<Rightarrow> nat \<Rightarrow> bool" where
  "used buf i = bit (buf ! (i div 8)) (i mod 8)"

lemma in_map [simp]: "i div 8 < length buf \<longleftrightarrow> i < 8 * length buf"
  by (simp add: less_mult_imp_div_less div_less_iff_less_mult mult.commute)

lemma is_in_use_used: "is_in_use buf i = (if i < 8 * length buf then Some (used buf i) else None)"
proof -
  have "(b AND push_bit n 1 \<noteq> 0) = bit b n" for b :: byte and n
    using and_exp_eq_0_iff_not_bit [of b n] by (simp add: push_bit_eq_mult)
  then show ?thesis by (simp add: is_in_use_def read_at_def used_def)
qed

lemma set_in_use_used:
  assumes "j < 8 * length buf"
  shows "\<exists>buf'. set_in_use buf j = Some buf' \<and> length buf' = length buf \<and> (\<forall>i. used buf' i \<longleftrightarrow> i = j \<or> used buf i)"
proof -
  let ?b = "buf ! (j div 8) OR push_bit (j mod 8) 1"
  have eq: "i = j \<longleftrightarrow> i div 8 = j div 8 \<and> i mod 8 = j mod 8" for i by (metis div_mult_mod_eq)
  have "used (buf[j div 8 := ?b]) i \<longleftrightarrow> i = j \<or> used buf i" for i
    using assms mod_less_divisor [of 8 i] mod_less_divisor [of 8 j]
    by (cases "i div 8 = j div 8") (auto simp: used_def bit_or_iff bit_exp_iff eq [of i])
  then show ?thesis using assms by (simp add: set_in_use_def read_at_def write_at_def)
qed

lemma unset_in_use_used:
  assumes "j < 8 * length buf"
  shows "\<exists>buf'. unset_in_use buf j = Some buf' \<and> length buf' = length buf \<and> (\<forall>i. used buf' i \<longleftrightarrow> i \<noteq> j \<and> used buf i)"
proof -
  let ?b = "buf ! (j div 8) AND NOT (push_bit (j mod 8) 1)"
  have eq: "i = j \<longleftrightarrow> i div 8 = j div 8 \<and> i mod 8 = j mod 8" for i by (metis div_mult_mod_eq)
  have "used (buf[j div 8 := ?b]) i \<longleftrightarrow> i \<noteq> j \<and> used buf i" for i
    using assms mod_less_divisor [of 8 i] mod_less_divisor [of 8 j]
    by (cases "i div 8 = j div 8")
      (auto simp: used_def bit_and_iff bit_not_iff bit_exp_iff eq [of i] dest: bit_imp_le_length)
  then show ?thesis using assms by (simp add: unset_in_use_def read_at_def write_at_def)
qed

text \<open>A bitmap is determined by its bits.\<close>

lemma bitmap_eqI:
  assumes "length xs = length ys" and "\<And>i. i < 8 * length xs \<Longrightarrow> used xs i = used ys i"
  shows "xs = ys"
proof (rule nth_equalityI [OF assms(1)], rule bit_word_eqI)
  fix j n assume "j < length xs" and "n < LENGTH(8)"
  then have "used xs (8 * j + n) = used ys (8 * j + n)" by (intro assms(2)) simp
  with \<open>n < LENGTH(8)\<close> show "bit (xs ! j) n = bit (ys ! j) n" by (simp add: used_def)
qed

section \<open>The search\<close>

definition free_run :: "bytes \<Rightarrow> nat \<Rightarrow> nat \<Rightarrow> bool" where
  "free_run sp a r \<longleftrightarrow> (\<forall>j. a \<le> j \<and> j < a + r \<longrightarrow> \<not> used sp j)"

lemma free_run_0 [simp]: "free_run sp a 0"
  by (auto simp: free_run_def)

lemma alloc_scan_first_fit:
  assumes "i + k \<le> 8 * length sp" and "t < r" and "t \<le> i" and "free_run sp (i - t) t"
    and "t = i \<or> used sp (i - t - 1)" and "\<forall>a. a + r \<le> i \<longrightarrow> \<not> free_run sp a r"
  shows "\<exists>res. alloc_scan sp r k i t = Some res \<and>
    (case res of
       Some s \<Rightarrow> s < i + k \<and> r \<le> s + 1 \<and> free_run sp (s + 1 - r) r \<and> (\<forall>a. a + r \<le> s \<longrightarrow> \<not> free_run sp a r)
     | None \<Rightarrow> \<forall>a. a + r \<le> i + k \<longrightarrow> \<not> free_run sp a r)"
  using assms
proof (induction k arbitrary: i t)
  case (Suc k)
  have u: "is_in_use sp i = Some (used sp i)" using Suc.prems(1) by (simp add: is_in_use_used)
  show ?case
  proof (cases "used sp i")
    case True
    have "\<forall>a. a + r \<le> Suc i \<longrightarrow> \<not> free_run sp a r"
    proof (intro allI impI)
      fix a assume "a + r \<le> Suc i"
      then consider "a + r \<le> i" | "a + r = Suc i" by linarith
      then show "\<not> free_run sp a r"
        using Suc.prems(2,6) True by cases (auto simp: free_run_def intro!: exI [of _ i])
    qed
    with True u Suc.IH [of "Suc i" 0, unfolded add_Suc_shift] Suc.prems show ?thesis by simp
  next
    case False
    have run: "free_run sp (i - t) (Suc t)"
      using Suc.prems(3,4) False by (auto simp: free_run_def less_Suc_eq)
    show ?thesis
    proof (cases "Suc t = r")
      case True
      moreover from this Suc.prems(3) have "Suc i - r = i - t" by simp
      ultimately show ?thesis using False u run Suc.prems(3,6) by auto
    next
      case t: False
      have "\<forall>a. a + r \<le> Suc i \<longrightarrow> \<not> free_run sp a r"
      proof (intro allI impI)
        fix a assume "a + r \<le> Suc i"
        then consider "a + r \<le> i" | "a + r = Suc i" by linarith
        then show "\<not> free_run sp a r"
        proof cases
          case 2
          with t Suc.prems(2) have "a \<le> i - t - 1" "i - t - 1 < a + r" "t \<noteq> i" by auto
          with Suc.prems(5) show ?thesis unfolding free_run_def by blast
        qed (use Suc.prems(6) in blast)
      qed
      with False u t run Suc.IH [of "Suc i" "Suc t", unfolded add_Suc_shift] Suc.prems show ?thesis by simp
    qed
  qed
qed simp

lemma set_range_used:
  "i + k \<le> 8 * length sp \<Longrightarrow>
     \<exists>sp'. set_range sp i k = Some sp' \<and> length sp' = length sp \<and>
       (\<forall>j. used sp' j \<longleftrightarrow> used sp j \<or> i \<le> j \<and> j < i + k)"
proof (induction k arbitrary: i sp)
  case (Suc k)
  then obtain sp1 where 1: "set_in_use sp i = Some sp1" "length sp1 = length sp"
    "\<forall>j. used sp1 j \<longleftrightarrow> j = i \<or> used sp j"
    using set_in_use_used [of i sp] by auto
  with Suc.IH [of "Suc i" sp1] Suc.prems obtain sp' where 2: "set_range sp1 (Suc i) k = Some sp'"
    "length sp' = length sp" "\<forall>j. used sp' j \<longleftrightarrow> used sp1 j \<or> Suc i \<le> j \<and> j < Suc i + k" by auto
  have "used sp' j \<longleftrightarrow> used sp j \<or> i \<le> j \<and> j < i + Suc k" for j
    using spec [OF 1(3), of j] spec [OF 2(3), of j] by (cases "j = i") auto
  with 1(1) 2(1,2) show ?case by simp
qed auto

lemma free_loop_block:
  "i \<le> e \<Longrightarrow> e < 8 * length sp \<Longrightarrow> length head = length sp \<Longrightarrow>
   \<forall>j. i \<le> j \<and> j < e \<longrightarrow> used sp j \<and> \<not> used head j \<Longrightarrow> used head e \<or> \<not> used sp e \<Longrightarrow>
     \<exists>sp'. free_loop head sp i = Some sp' \<and> length sp' = length sp \<and>
       (\<forall>j. used sp' j \<longleftrightarrow> used sp j \<and> \<not> (i \<le> j \<and> j < e))"
proof (induction "e - i" arbitrary: i sp)
  case 0
  then show ?case by (subst free_loop.simps) (auto simp: is_in_use_used)
next
  case (Suc n)
  then have i: "i < e" "i < 8 * length sp" by auto
  then obtain sp1 where 1: "unset_in_use sp i = Some sp1" "length sp1 = length sp"
    "\<forall>j. used sp1 j \<longleftrightarrow> j \<noteq> i \<and> used sp j"
    using unset_in_use_used [of i sp] by auto
  have "\<exists>sp'. free_loop head sp1 (Suc i) = Some sp' \<and> length sp' = length sp1 \<and>
       (\<forall>j. used sp' j \<longleftrightarrow> used sp1 j \<and> \<not> (Suc i \<le> j \<and> j < e))"
    using Suc.hyps(2) Suc.prems 1 i by (intro Suc.hyps(1)) auto
  then show ?case
    using 1 i Suc.prems by (subst free_loop.simps) (auto simp: is_in_use_used le_eq_less_or_eq)
qed

section \<open>Blocks\<close>

definition sb_inv :: "static_buffer \<Rightarrow> bool" where
  "sb_inv sb \<longleftrightarrow> 0 < sb_chunk sb \<and> sb_size sb = 8 * length (sb_space sb) \<and>
     length (sb_head sb) = length (sb_space sb) \<and>
     (\<forall>i < sb_size sb. used (sb_head sb) i \<longrightarrow> used (sb_space sb) i) \<and>
     (\<forall>i < sb_size sb. used (sb_space sb) i \<and> \<not> used (sb_head sb) i \<longrightarrow> 0 < i \<and> used (sb_space sb) (i - 1))"

definition is_block :: "static_buffer \<Rightarrow> nat \<Rightarrow> nat \<Rightarrow> bool" where
  "is_block sb a r \<longleftrightarrow> 0 < r \<and> a + r \<le> sb_size sb \<and> used (sb_head sb) a \<and>
     (\<forall>j. a \<le> j \<and> j < a + r \<longrightarrow> used (sb_space sb) j \<and> (j \<noteq> a \<longrightarrow> \<not> used (sb_head sb) j)) \<and>
     (a + r = sb_size sb \<or> used (sb_head sb) (a + r) \<or> \<not> used (sb_space sb) (a + r))"

definition chunks_for :: "static_buffer \<Rightarrow> int \<Rightarrow> nat" where
  "chunks_for sb n = nat n div sb_chunk sb + (if nat n mod sb_chunk sb \<noteq> 0 then 1 else 0)"

lemma chunks_for_enough:
  assumes "0 < sb_chunk sb" and "0 < n"
  shows "nat n \<le> sb_chunk sb * chunks_for sb n" and "0 < chunks_for sb n"
proof -
  define c m where "c = sb_chunk sb" and "m = nat n"
  have c: "0 < c" and m: "0 < m" using assms by (simp_all add: c_def m_def)
  have e: "c * (m div c) + m mod c = m" by simp
  have le: "m mod c \<le> c" using c by (simp add: less_imp_le)
  have "m \<le> c * (m div c + (if m mod c \<noteq> 0 then 1 else 0))"
  proof (cases "m mod c = 0")
    case False
    then have "c * (m div c + (if m mod c \<noteq> 0 then 1 else 0)) = c * (m div c) + c" by (simp add: distrib_left)
    then show ?thesis using e le by linarith
  qed (use e in auto)
  then show "nat n \<le> sb_chunk sb * chunks_for sb n"
    unfolding chunks_for_def c_def [symmetric] m_def [symmetric] .
  show "0 < chunks_for sb n"
    unfolding chunks_for_def c_def [symmetric] m_def [symmetric] using c m
    by (auto simp: div_greater_zero_iff) 
qed

text \<open>The effect of an allocation of the chunks \<open>a, ..., a + r - 1\<close> on the bitmaps.\<close>

definition marks :: "static_buffer \<Rightarrow> nat \<Rightarrow> nat \<Rightarrow> static_buffer \<Rightarrow> bool" where
  "marks sb a r sb' \<longleftrightarrow>
     sb_mem sb' = sb_mem sb \<and> sb_size sb' = sb_size sb \<and> sb_chunk sb' = sb_chunk sb \<and>
     length (sb_space sb') = length (sb_space sb) \<and> length (sb_head sb') = length (sb_head sb) \<and>
     (\<forall>j. used (sb_head sb') j \<longleftrightarrow> used (sb_head sb) j \<or> j = a) \<and>
     (\<forall>j. used (sb_space sb') j \<longleftrightarrow> used (sb_space sb) j \<or> a \<le> j \<and> j < a + r)"

lemma static_alloc_spec:
  assumes "sb_inv sb" and "0 < n"
  shows "static_alloc sb n = Some (None, sb) \<and> (\<forall>a. a + chunks_for sb n \<le> sb_size sb \<longrightarrow> \<not> free_run (sb_space sb) a (chunks_for sb n)) \<or>
    (\<exists>a sb'. static_alloc sb n = Some (Some (sb_chunk sb * a), sb') \<and> a + chunks_for sb n \<le> sb_size sb \<and>
       free_run (sb_space sb) a (chunks_for sb n) \<and> marks sb a (chunks_for sb n) sb')"
proof -
  let ?r = "chunks_for sb n"
  have c: "0 < sb_chunk sb" and sz: "sb_size sb = 8 * length (sb_space sb)" and l: "length (sb_head sb) = length (sb_space sb)"
    using assms(1) by (auto simp: sb_inv_def)
  have r: "0 < ?r" by (rule chunks_for_enough [OF c assms(2)])
  have "\<not> free_run (sb_space sb) a ?r" if "a + ?r \<le> 0" for a using that r by simp
  then obtain res where scan: "alloc_scan (sb_space sb) ?r (sb_size sb) 0 0 = Some res"
    "case res of
       Some s \<Rightarrow> s < 0 + sb_size sb \<and> ?r \<le> s + 1 \<and> free_run (sb_space sb) (s + 1 - ?r) ?r \<and>
         (\<forall>a. a + ?r \<le> s \<longrightarrow> \<not> free_run (sb_space sb) a ?r)
     | None \<Rightarrow> \<forall>a. a + ?r \<le> 0 + sb_size sb \<longrightarrow> \<not> free_run (sb_space sb) a ?r"
    using alloc_scan_first_fit [of 0 "sb_size sb" "sb_space sb" 0 ?r] sz r by auto
  show ?thesis
  proof (cases res)
    case None
    with scan c assms(2) show ?thesis by (simp add: static_alloc_def chunks_for_def Let_def)
  next
    case (Some s)
    let ?a = "s + 1 - ?r"
    have a: "?a + ?r \<le> sb_size sb" "?a < 8 * length (sb_head sb)" using scan(2) Some sz l r by auto
    obtain h where h: "set_in_use (sb_head sb) ?a = Some h" "length h = length (sb_head sb)"
      "\<forall>j. used h j \<longleftrightarrow> j = ?a \<or> used (sb_head sb) j"
      using set_in_use_used [OF a(2)] by blast
    obtain sp where sp: "set_range (sb_space sb) ?a ?r = Some sp" "length sp = length (sb_space sb)"
      "\<forall>j. used sp j \<longleftrightarrow> used (sb_space sb) j \<or> ?a \<le> j \<and> j < ?a + ?r"
      using set_range_used [of ?a ?r "sb_space sb"] a(1) sz by auto
    have "static_alloc sb n = Some (Some (sb_chunk sb * ?a), sb\<lparr>sb_head := h, sb_space := sp\<rparr>)"
      using scan(1) Some h(1) sp(1) c assms(2) by (simp add: static_alloc_def chunks_for_def Let_def)
    moreover have "marks sb ?a ?r (sb\<lparr>sb_head := h, sb_space := sp\<rparr>)" using h sp by (auto simp: marks_def)
    ultimately show ?thesis using a scan(2) Some by auto
  qed
qed

lemma static_free_spec:
  assumes "sb_inv sb" and "is_block sb a r" and "a + r < sb_size sb"
  shows "\<exists>sb'. static_free sb (int (sb_chunk sb * a)) = Some sb' \<and>
    sb_mem sb' = sb_mem sb \<and> sb_size sb' = sb_size sb \<and> sb_chunk sb' = sb_chunk sb \<and>
    length (sb_space sb') = length (sb_space sb) \<and> length (sb_head sb') = length (sb_head sb) \<and>
    (\<forall>j. used (sb_head sb') j \<longleftrightarrow> used (sb_head sb) j \<and> j \<noteq> a) \<and>
    (\<forall>j. used (sb_space sb') j \<longleftrightarrow> used (sb_space sb) j \<and> \<not> (a \<le> j \<and> j < a + r))"
proof -
  note inv = assms(1) [unfolded sb_inv_def] and blk = assms(2) [unfolded is_block_def]
  have a: "a < 8 * length (sb_head sb)" "is_in_use (sb_head sb) a = Some True"
    using inv blk by (auto simp: is_in_use_used)
  obtain h where h: "unset_in_use (sb_head sb) a = Some h" "length h = length (sb_head sb)"
    "\<forall>j. used h j \<longleftrightarrow> j \<noteq> a \<and> used (sb_head sb) j"
    using unset_in_use_used [OF a(1)] by blast
  obtain sp where sp: "free_loop h (sb_space sb) a = Some sp" "length sp = length (sb_space sb)"
    "\<forall>j. used sp j \<longleftrightarrow> used (sb_space sb) j \<and> \<not> (a \<le> j \<and> j < a + r)"
    using free_loop_block [of a "a + r" "sb_space sb" h] inv blk h assms(3) by auto
  have "nat (int (sb_chunk sb * a)) div sb_chunk sb = a" using inv by (simp only: nat_int) simp
  then have "static_free sb (int (sb_chunk sb * a)) = Some (sb\<lparr>sb_head := h, sb_space := sp\<rparr>)"
    using inv a(2) h(1) sp(1) by (simp add: static_free_def Let_def mult_less_0_iff)
  with h sp show ?thesis by auto
qed

lemma marks_inv:
  assumes "sb_inv sb" and "marks sb a r sb'" and "0 < r"
  shows "sb_inv sb'"
proof -
  note m = assms(2) [unfolded marks_def] and i = assms(1) [unfolded sb_inv_def]
  have "used (sb_space sb') j" if "j < sb_size sb" "used (sb_head sb') j" for j
    using that m i assms(3) by (cases "j = a") auto
  moreover have "0 < j \<and> used (sb_space sb') (j - 1)"
    if "j < sb_size sb" "used (sb_space sb') j" "\<not> used (sb_head sb') j" for j
  proof (cases "a \<le> j \<and> j < a + r")
    case True
    moreover have "j \<noteq> a" using that m by auto
    ultimately show ?thesis using m by auto
  next
    case False
    with that m i show ?thesis by (metis)
  qed
  ultimately show ?thesis using m i by (simp add: sb_inv_def)
qed

lemma marks_block:
  assumes "sb_inv sb" and "marks sb a r sb'" and "0 < r" and "a + r \<le> sb_size sb" and "free_run (sb_space sb) a r"
  shows "is_block sb' a r"
proof -
  note m = assms(2) [unfolded marks_def] and i = assms(1) [unfolded sb_inv_def]
  have free: "\<not> used (sb_space sb) j" if "a \<le> j" "j < a + r" for j using assms(5) that by (simp add: free_run_def)
  have "\<not> used (sb_head sb') j" if "a \<le> j" "j < a + r" "j \<noteq> a" for j
    using that free [OF that(1,2)] m i assms(4) by auto
  moreover have "used (sb_head sb') (a + r) \<or> \<not> used (sb_space sb') (a + r)" if "a + r \<noteq> sb_size sb"
  proof -
    have "a + r - 1 < a + r" "a \<le> a + r - 1" "a + r < sb_size sb" using assms(3,4) that by auto
    then show ?thesis using free [of "a + r - 1"] i m by (metis order_less_irrefl)
  qed
  ultimately show ?thesis using m assms(3,4) by (auto simp: is_block_def)
qed

lemma marks_keeps_blocks:
  assumes "marks sb a r sb'" and "0 < r" and "free_run (sb_space sb) a r" and "is_block sb b q"
  shows "is_block sb' b q" and "{b..<b + q} \<inter> {a..<a + r} = {}"
proof -
  note m = assms(1) [unfolded marks_def] and b = assms(4) [unfolded is_block_def]
  show dis: "{b..<b + q} \<inter> {a..<a + r} = {}"
  proof (rule ccontr)
    assume "{b..<b + q} \<inter> {a..<a + r} \<noteq> {}"
    then obtain j where "j \<in> {b..<b + q}" "j \<in> {a..<a + r}" by blast
    then show False using b assms(3) unfolding free_run_def by (meson atLeastLessThan_iff)
  qed
  have "b + q - 1 \<in> {b..<b + q}" using b by auto
  then have l: "b + q - 1 \<notin> {a..<a + r}" using dis by blast
  have a: "a \<notin> {b..<b + q}" using dis assms(2) by auto
  have "used (sb_head sb') (b + q) \<or> \<not> used (sb_space sb') (b + q)" if "b + q \<noteq> sb_size sb"
    using that b m l by (cases "b + q = a") auto
  then show "is_block sb' b q" using b m a by (auto simp: is_block_def)
qed

section \<open>Pools\<close>

lemma object_allocator_spec:
  "case object_allocator zero pool i of
     (Some k, pool') \<Rightarrow> i \<le> k \<and> k - i < length pool \<and> fst (pool ! (k - i)) = 0 \<and> pool' = pool[k - i := (1, zero)]
   | (None, pool') \<Rightarrow> pool' = pool \<and> object_alloc_size pool = 0"
proof (induction zero pool i rule: object_allocator.induct)
  case (2 zero u x pool i)
  then show ?case
    by (cases "u = 0"; cases "object_allocator zero pool (i + 1)")
      (auto simp: object_alloc_size_def diff_Suc Suc_le_eq nth_Cons' split: option.splits nat.splits)
qed (simp add: object_alloc_size_def)

section \<open>Properties\<close>

text \<open>C21. The chunk allocator hands out disjoint blocks: on a well-formed buffer an allocation of
  \<open>n > 0\<close> bytes either returns null, and then no run of enough free chunks exists, or returns a block
  of whole chunks inside the buffer, at least \<open>n\<close> bytes long, that overlaps no block in use; all
  blocks in use stay as they are and the buffer stays well-formed.\<close>

theorem static_alloc_correct:
  assumes "sb_inv sb" and "0 < n"
  shows "static_alloc sb n = Some (None, sb) \<and> (\<forall>a. a + chunks_for sb n \<le> sb_size sb \<longrightarrow> \<not> free_run (sb_space sb) a (chunks_for sb n)) \<or>
    (\<exists>a sb'. static_alloc sb n = Some (Some (sb_chunk sb * a), sb') \<and>
       sb_inv sb' \<and> is_block sb' a (chunks_for sb n) \<and>
       sb_chunk sb * a + nat n \<le> sb_chunk sb * sb_size sb \<and>
       (\<forall>b q. is_block sb b q \<longrightarrow> is_block sb' b q \<and> {b..<b + q} \<inter> {a..<a + chunks_for sb n} = {}))"
proof -
  let ?r = "chunks_for sb n"
  have c: "0 < sb_chunk sb" using assms(1) by (simp add: sb_inv_def)
  note r = chunks_for_enough [OF c assms(2)]
  have "sb_chunk sb * a + nat n \<le> sb_chunk sb * sb_size sb" if "a + ?r \<le> sb_size sb" for a
  proof -
    have "sb_chunk sb * a + nat n \<le> sb_chunk sb * (a + ?r)" using r(1) by (simp add: distrib_left)
    also have "\<dots> \<le> sb_chunk sb * sb_size sb" using that by (intro mult_le_mono2)
    finally show ?thesis .
  qed
  note size = this
  from static_alloc_spec [OF assms] show ?thesis
  proof
    assume "\<exists>a sb'. static_alloc sb n = Some (Some (sb_chunk sb * a), sb') \<and> a + ?r \<le> sb_size sb \<and>
       free_run (sb_space sb) a ?r \<and> marks sb a ?r sb'"
    then obtain a sb' where h: "static_alloc sb n = Some (Some (sb_chunk sb * a), sb')" "a + ?r \<le> sb_size sb"
       "free_run (sb_space sb) a ?r" "marks sb a ?r sb'" by blast
    show ?thesis
      using h(1) marks_inv [OF assms(1) h(4) r(2)] marks_block [OF assms(1) h(4) r(2) h(2,3)] size [OF h(2)]
        marks_keeps_blocks [OF h(4) r(2) h(3)] by blast
  qed simp
qed

theorem static_alloc_correct_witness:
  "static_alloc (CREATE_BUFFER 64 4) 7 = Some (None, CREATE_BUFFER 64 4) \<and>
     (\<forall>a. a + chunks_for (CREATE_BUFFER 64 4) 7 \<le> sb_size (CREATE_BUFFER 64 4) \<longrightarrow>
        \<not> free_run (sb_space (CREATE_BUFFER 64 4)) a (chunks_for (CREATE_BUFFER 64 4) 7)) \<or>
   (\<exists>a sb'. static_alloc (CREATE_BUFFER 64 4) 7 = Some (Some (sb_chunk (CREATE_BUFFER 64 4) * a), sb') \<and>
      sb_inv sb' \<and> is_block sb' a (chunks_for (CREATE_BUFFER 64 4) 7) \<and>
      sb_chunk (CREATE_BUFFER 64 4) * a + nat 7 \<le> sb_chunk (CREATE_BUFFER 64 4) * sb_size (CREATE_BUFFER 64 4) \<and>
      (\<forall>b q. is_block (CREATE_BUFFER 64 4) b q \<longrightarrow> is_block sb' b q \<and>
         {b..<b + q} \<inter> {a..<a + chunks_for (CREATE_BUFFER 64 4) 7} = {}))"
proof -
  have "\<not> used (replicate 2 0) i" if "i < 16" for i
  proof -
    have "i div 8 < 2" using that by simp
    then show ?thesis by (simp add: used_def)
  qed
  then have "sb_inv (CREATE_BUFFER 64 4)" by (auto simp: sb_inv_def CREATE_BUFFER_def)
  from static_alloc_correct [OF this, of 7] show ?thesis by simp
qed

text \<open>The effect of freeing the block of the chunks \<open>a, ..., a + r - 1\<close>.\<close>

lemma blocks_disjoint:
  assumes "is_block sb a r" and "is_block sb b q" and "a \<noteq> b"
  shows "{a..<a + r} \<inter> {b..<b + q} = {}"
proof -
  have "\<not> (a \<le> b \<and> b < a + r)" "\<not> (b \<le> a \<and> a < b + q)"
    using assms by (auto simp: is_block_def)
  then show ?thesis by auto
qed

lemma unmarks_inv:
  assumes "sb_inv sb" and "is_block sb a r" and "a + r < sb_size sb" and "sb_size sb' = sb_size sb"
    and "sb_chunk sb' = sb_chunk sb"
    and "length (sb_space sb') = length (sb_space sb)" and "length (sb_head sb') = length (sb_head sb)"
    and "\<forall>j. used (sb_head sb') j \<longleftrightarrow> used (sb_head sb) j \<and> j \<noteq> a"
    and "\<forall>j. used (sb_space sb') j \<longleftrightarrow> used (sb_space sb) j \<and> \<not> (a \<le> j \<and> j < a + r)"
  shows "sb_inv sb'"
proof -
  note i = assms(1) [unfolded sb_inv_def] and b = assms(2) [unfolded is_block_def]
  have "used (sb_space sb') j" if "j < sb_size sb" "used (sb_head sb') j" for j
    using that i b assms(8,9) by auto
  moreover have "0 < j \<and> used (sb_space sb') (j - 1)"
    if "j < sb_size sb" "used (sb_space sb') j" "\<not> used (sb_head sb') j" for j
  proof -
    have out: "\<not> (a \<le> j \<and> j < a + r)" and u: "used (sb_space sb) j" using that(2) assms(9) by auto
    have "j \<noteq> a" using out b by auto
    then have nh: "\<not> used (sb_head sb) j" using that(3) assms(8) by auto
    then have p: "0 < j" "used (sb_space sb) (j - 1)" using i that(1) u by blast+
    have "j \<noteq> a + r" using b assms(3) u nh by auto
    then have "\<not> (a \<le> j - 1 \<and> j - 1 < a + r)" using out p(1) by auto
    then show ?thesis using p assms(9) by auto
  qed
  ultimately show ?thesis using i assms(4-7) by (simp add: sb_inv_def)
qed

lemma unmarks_keeps_blocks:
  assumes "is_block sb a r" and "is_block sb b q" and "b \<noteq> a" and "sb_size sb' = sb_size sb"
    and "\<forall>j. used (sb_head sb') j \<longleftrightarrow> used (sb_head sb) j \<and> j \<noteq> a"
    and "\<forall>j. used (sb_space sb') j \<longleftrightarrow> used (sb_space sb) j \<and> \<not> (a \<le> j \<and> j < a + r)"
  shows "is_block sb' b q"
proof -
  note dis = blocks_disjoint [OF assms(1,2) assms(3) [symmetric]] and b = assms(2) [unfolded is_block_def]
  have out: "\<not> (a \<le> j \<and> j < a + r)" if "b \<le> j" "j < b + q" for j
  proof
    assume "a \<le> j \<and> j < a + r"
    with that have "j \<in> {a..<a + r} \<inter> {b..<b + q}" by simp
    with dis show False by blast
  qed
  have "used (sb_head sb') (b + q) \<or> \<not> used (sb_space sb') (b + q)" if "b + q \<noteq> sb_size sb"
    using that b assms(1,5,6) by (cases "b + q = a") (auto simp: is_block_def)
  then show ?thesis using b assms(3-6) out by (auto simp: is_block_def)
qed

lemma free_restores:
  assumes "sb_inv sb0" and "free_run (sb_space sb0) a r" and "marks sb0 a r sb" and "a < sb_size sb0" and "0 < r"
    and "sb_mem sb' = sb_mem sb" and "sb_size sb' = sb_size sb" and "sb_chunk sb' = sb_chunk sb"
    and "length (sb_space sb') = length (sb_space sb)" and "length (sb_head sb') = length (sb_head sb)"
    and "\<forall>j. used (sb_head sb') j \<longleftrightarrow> used (sb_head sb) j \<and> j \<noteq> a"
    and "\<forall>j. used (sb_space sb') j \<longleftrightarrow> used (sb_space sb) j \<and> \<not> (a \<le> j \<and> j < a + r)"
  shows "sb' = sb0"
proof (rule static_buffer.equality)
  note m = assms(3) [unfolded marks_def]
  have na: "\<not> used (sb_head sb0) a" using assms(1,2,4,5) by (auto simp: sb_inv_def free_run_def)
  show "sb_head sb' = sb_head sb0"
    by (rule bitmap_eqI) (use m na assms(10,11) in auto)
  show "sb_space sb' = sb_space sb0"
    by (rule bitmap_eqI) (use m assms(2,9,12) in \<open>auto simp: free_run_def\<close>)
qed (use assms in \<open>simp_all add: marks_def\<close>)

text \<open>Freeing gives back exactly the block: freeing a block that does not end at the end of the
  buffer clears its chunks and its head mark, leaves every other chunk and the memory unchanged and
  keeps the buffer well-formed; freeing the block just allocated restores the buffer.\<close>

theorem static_free_correct:
  assumes "sb_inv sb" and "is_block sb a r" and "a + r < sb_size sb"
  shows "\<exists>sb'. static_free sb (int (sb_chunk sb * a)) = Some sb' \<and> sb_inv sb' \<and> sb_mem sb' = sb_mem sb \<and>
    free_run (sb_space sb') a r \<and>
    (\<forall>b q. is_block sb b q \<and> b \<noteq> a \<longrightarrow> is_block sb' b q) \<and>
    (\<forall>sb0 n. sb_inv sb0 \<and> 0 < n \<and> static_alloc sb0 n = Some (Some (sb_chunk sb * a), sb) \<and> r = chunks_for sb0 n \<longrightarrow>
       sb' = sb0)"
proof -
  obtain sb' where f: "static_free sb (int (sb_chunk sb * a)) = Some sb'" "sb_mem sb' = sb_mem sb"
    "sb_size sb' = sb_size sb" "sb_chunk sb' = sb_chunk sb"
    "length (sb_space sb') = length (sb_space sb)" "length (sb_head sb') = length (sb_head sb)"
    "\<forall>j. used (sb_head sb') j \<longleftrightarrow> used (sb_head sb) j \<and> j \<noteq> a"
    "\<forall>j. used (sb_space sb') j \<longleftrightarrow> used (sb_space sb) j \<and> \<not> (a \<le> j \<and> j < a + r)"
    using static_free_spec [OF assms] by blast
  have inv: "sb_inv sb'" using unmarks_inv [OF assms f(3-8)] .
  have "free_run (sb_space sb') a r" using f(8) by (simp add: free_run_def)
  moreover have "is_block sb' b q" if "is_block sb b q" "b \<noteq> a" for b q
    using unmarks_keeps_blocks [OF assms(2) that f(3,7,8)] .
  moreover have "sb' = sb0"
    if h: "sb_inv sb0" "0 < n" "static_alloc sb0 n = Some (Some (sb_chunk sb * a), sb)" "r = chunks_for sb0 n" for sb0 n
  proof -
    have r: "0 < r" using chunks_for_enough(2) [OF _ h(2)] h(1,4) by (simp add: sb_inv_def)
    obtain a' where a': "sb_chunk sb * a = sb_chunk sb0 * a'" "a' + r \<le> sb_size sb0"
      "free_run (sb_space sb0) a' r" "marks sb0 a' r sb"
      using static_alloc_spec [OF h(1,2)] h(3,4) by auto
    then have "a' = a" using h(1) by (auto simp: marks_def sb_inv_def)
    with free_restores [OF h(1) _ _ _ r f(2-8)] a' r show ?thesis by auto
  qed
  ultimately show ?thesis using f(1,2) inv by blast
qed

definition sb_example :: static_buffer where
  "sb_example = \<lparr>sb_mem = replicate 64 0, sb_size = 8, sb_chunk = 8, sb_space = [3], sb_head = [1]\<rparr>"

theorem static_free_correct_witness:
  "\<exists>sb'. static_free sb_example (int (sb_chunk sb_example * 0)) = Some sb' \<and> sb_inv sb' \<and> free_run (sb_space sb') 0 2"
proof -
  have u: "used [3] i \<longleftrightarrow> i = 0 \<or> i = 1" "used [1] i \<longleftrightarrow> i = 0" if "i < 8" for i
  proof -
    have "i = 0 \<or> i = 1 \<or> i = 2 \<or> i = 3 \<or> i = 4 \<or> i = 5 \<or> i = 6 \<or> i = 7" using that by linarith
    then show "used [3] i \<longleftrightarrow> i = 0 \<or> i = 1" "used [1] i \<longleftrightarrow> i = 0" by (elim disjE; simp add: used_def)+
  qed
  have "sb_inv sb_example" "is_block sb_example 0 2"
    by (auto simp: sb_inv_def is_block_def sb_example_def u)
  from static_free_correct [OF this] show ?thesis by (auto simp: sb_example_def)
qed

section \<open>Defects\<close>

text \<open>Freeing the block at the end of the buffer reads the bitmaps past their end: the loop has no
  other bound.\<close>

lemma free_loop_runs_off:
  "i \<le> 8 * length sp \<Longrightarrow> length head = length sp \<Longrightarrow>
   \<forall>j. i \<le> j \<and> j < 8 * length sp \<longrightarrow> used sp j \<and> \<not> used head j \<Longrightarrow> free_loop head sp i = None"
proof (induction "8 * length sp - i" arbitrary: i sp)
  case 0
  then show ?case by (subst free_loop.simps) (simp add: is_in_use_used)
next
  case (Suc n)
  then have i: "i < 8 * length sp" by simp
  then obtain sp1 where 1: "unset_in_use sp i = Some sp1" "length sp1 = length sp"
    "\<forall>j. used sp1 j \<longleftrightarrow> j \<noteq> i \<and> used sp j"
    using unset_in_use_used [of i sp] by auto
  have "free_loop head sp1 (Suc i) = None"
    using Suc.hyps(2) Suc.prems 1 i by (intro Suc.hyps(1)) auto
  then show ?case using 1 i Suc.prems by (subst free_loop.simps) (auto simp: is_in_use_used)
qed

lemma static_free_last_block_undefined:
  assumes "sb_inv sb" and "is_block sb a r" and "a + r = sb_size sb"
  shows "static_free sb (int (sb_chunk sb * a)) = None"
proof -
  note inv = assms(1) [unfolded sb_inv_def] and blk = assms(2) [unfolded is_block_def]
  have a: "a < 8 * length (sb_head sb)" "is_in_use (sb_head sb) a = Some True"
    using inv blk by (auto simp: is_in_use_used)
  obtain h where h: "unset_in_use (sb_head sb) a = Some h" "length h = length (sb_head sb)"
    "\<forall>j. used h j \<longleftrightarrow> j \<noteq> a \<and> used (sb_head sb) j"
    using unset_in_use_used [OF a(1)] by blast
  have "free_loop h (sb_space sb) a = None"
    using inv blk h assms(3) by (intro free_loop_runs_off) auto
  moreover have "nat (int (sb_chunk sb * a)) div sb_chunk sb = a" using inv by (simp only: nat_int) simp
  ultimately show ?thesis
    using inv a(2) h(1) by (simp add: static_free_def Let_def mult_less_0_iff)
qed

text \<open>\<open>static_max_piece\<close> counts all free chunks, not the largest run of them.\<close>

lemma find_max_alloc_counts_all:
  "find_max_alloc (sb_example\<lparr>sb_space := [0x55]\<rparr>) = Some 32 \<and>
   static_alloc (sb_example\<lparr>sb_space := [0x55]\<rparr>) 16 = Some (None, sb_example\<lparr>sb_space := [0x55]\<rparr>)"
  by code_simp

end
