(* ===== verification/C_Heap.thy ===== *)
theory C_Heap
  imports C_Base
begin

text \<open>
  The memory of the C library: objects of bytes that are allocated and freed.

  A memory maps the address of an object to its bytes; freeing removes the object, so a second
  \<open>free\<close> and an access after \<open>free\<close> are undefined. What \<open>malloc\<close> answers is the parameter \<open>fresh\<close>: an
  address that is not in use, or null; \<open>junk\<close> is the content of a new object.
\<close>

section \<open>Memory\<close>

type_synonym blocks = "nat \<rightharpoonup> bytes"

record libc =
  fresh :: "blocks \<Rightarrow> nat \<Rightarrow> nat option"
  junk :: byte

text \<open>What the standard promises of \<open>malloc\<close>.\<close>

definition libc_ok :: "libc \<Rightarrow> bool" where
  "libc_ok L \<longleftrightarrow> (\<forall>m n a. fresh L m n = Some a \<longrightarrow> a \<notin> dom m)"

definition c_malloc :: "libc \<Rightarrow> blocks \<Rightarrow> nat \<Rightarrow> nat option \<times> blocks" where
  "c_malloc L m n = (case fresh L m n of None \<Rightarrow> (None, m) | Some a \<Rightarrow> (Some a, m(a \<mapsto> replicate n (junk L))))"

definition c_free :: "blocks \<Rightarrow> nat option \<Rightarrow> blocks option" where
  "c_free m p = (case p of None \<Rightarrow> Some m | Some a \<Rightarrow> if a \<in> dom m then Some (m(a := None)) else None)"

text \<open>The new object may be at the old address; when there is no room the old object stays.\<close>

definition c_realloc :: "libc \<Rightarrow> blocks \<Rightarrow> nat option \<Rightarrow> nat \<Rightarrow> (nat option \<times> blocks) option" where
  "c_realloc L m p n =
     (case p of
        None \<Rightarrow> Some (c_malloc L m n)
      | Some a \<Rightarrow> do {
          old \<leftarrow> m a;
          case fresh L (m(a := None)) n of
            None \<Rightarrow> Some (None, m)
          | Some b \<Rightarrow> Some (Some b, m(a := None, b \<mapsto> take n (old @ replicate n (junk L))))
        })"

text \<open>The string at an address.\<close>

definition str_at :: "blocks \<Rightarrow> nat option \<Rightarrow> bytes option" where
  "str_at m p = do { a \<leftarrow> p; bs \<leftarrow> m a; cstr bs }"

text \<open>A new object with given characters.\<close>

definition new_string :: "libc \<Rightarrow> blocks \<Rightarrow> bytes \<Rightarrow> nat option \<times> blocks" where
  "new_string L m s = (case fresh L m (length s + 1) of None \<Rightarrow> (None, m) | Some b \<Rightarrow> (Some b, m(b \<mapsto> s @ [0])))"

definition c_strdup :: "libc \<Rightarrow> blocks \<Rightarrow> nat option \<Rightarrow> (nat option \<times> blocks) option" where
  "c_strdup L m p = do {
     s \<leftarrow> str_at m p;
     case fresh L m (length s + 1) of
       None \<Rightarrow> Some (None, m)
     | Some b \<Rightarrow> Some (Some b, m(b \<mapsto> s @ [0]))
   }"

definition c_strndup :: "libc \<Rightarrow> blocks \<Rightarrow> nat option \<Rightarrow> nat \<Rightarrow> (nat option \<times> blocks) option" where
  "c_strndup L m p n = do {
     a \<leftarrow> p;
     bs \<leftarrow> m a;
     s \<leftarrow> (if 0 \<in> set (take n bs) then cstr (take n bs) else if n \<le> length bs then Some (take n bs) else None);
     case fresh L m (length s + 1) of
       None \<Rightarrow> Some (None, m)
     | Some b \<Rightarrow> Some (Some b, m(b \<mapsto> s @ [0]))
   }"

text \<open>\<open>strcat\<close> on the object at \<open>a\<close>.\<close>

definition c_strcat :: "blocks \<Rightarrow> nat \<Rightarrow> bytes \<Rightarrow> blocks option" where
  "c_strcat m a s = do {
     blk \<leftarrow> m a;
     d \<leftarrow> cstr blk;
     blk \<leftarrow> mem_write blk (length d) (s @ [0]);
     Some (m(a \<mapsto> blk))
   }"

fun c_strcmp :: "bytes \<Rightarrow> bytes \<Rightarrow> int option" where
  "c_strcmp (x # a) (y # b) =
     (if x \<noteq> y then Some (uint x - uint y) else if x = 0 then Some 0 else c_strcmp a b)"
| "c_strcmp _ _ = None"

lemma str_at_new [simp]: "0 \<notin> set s \<Longrightarrow> str_at (m(b \<mapsto> s @ [0])) (Some b) = Some s"
  by (simp add: str_at_def cstr_terminated [where rest = "[]"])

lemma str_at_no_zero: "str_at m p = Some s \<Longrightarrow> 0 \<notin> set s"
  by (auto simp: str_at_def c_bind dest: cstr_no_zero)

lemma c_strdup_spec:
  assumes "libc_ok L" and "str_at m p = Some s" and "c_strdup L m p = Some (v, m')"
  shows "v = None \<and> m' = m \<or> (\<exists>b. v = Some b \<and> b \<notin> dom m \<and> m' = m(b \<mapsto> s @ [0]) \<and> 0 \<notin> set s)"
proof (cases "fresh L m (Suc (length s))")
  case None
  with assms show ?thesis by (simp add: c_strdup_def)
next
  case (Some b)
  with assms have "v = Some b" "m' = m(b \<mapsto> s @ [0])" by (simp_all add: c_strdup_def)
  with Some assms(1) str_at_no_zero [OF assms(2)] show ?thesis by (simp add: libc_ok_def)
qed

lemma c_strcmp_eq:
  assumes "cstr x = Some s" and "cstr y = Some t"
  shows "\<exists>r. c_strcmp x y = Some r \<and> (r = 0 \<longleftrightarrow> s = t)"
  using assms
proof (induction x y arbitrary: s t rule: c_strcmp.induct)
  case (1 x a y b)
  show ?case
  proof (cases "x = y \<and> x \<noteq> 0")
    case True
    then obtain s' t' where "cstr a = Some s'" "cstr b = Some t'" "s = x # s'" "t = x # t'"
      using "1.prems" by (auto simp: cstr_def split: if_splits)
    with 1 True show ?thesis by auto
  next
    case False
    with "1.prems" show ?thesis by (auto simp: cstr_def unsigned_eq_0_iff split: if_splits dest: unsigned_word_eqI)
  qed
qed (auto simp: cstr_def split: if_splits)

lemma str_at_mono: "str_at m p = Some s \<Longrightarrow> m \<subseteq>\<^sub>m m' \<Longrightarrow> str_at m' p = Some s"
  by (auto simp: str_at_def c_bind map_le_def dom_def)

lemma c_strdup_total:
  assumes "libc_ok L" and "str_at m p = Some s"
  shows "\<exists>v m'. c_strdup L m p = Some (v, m') \<and> m \<subseteq>\<^sub>m m' \<and> (v = None \<or> str_at m' v = Some s)"
proof -
  obtain v m' where d: "c_strdup L m p = Some (v, m')"
    using assms(2) by (cases "fresh L m (Suc (length s))") (auto simp: c_strdup_def)
  from c_strdup_spec [OF assms d] d show ?thesis by (auto simp: map_le_def dom_def)
qed

lemma c_strcat_appends:
  assumes "m a = Some (d @ 0 # r)" and "0 \<notin> set d" and "length s \<le> length r"
  shows "c_strcat m a s = Some (m(a \<mapsto> d @ s @ 0 # drop (length s) r))"
proof -
  obtain x where x: "0 # r = x @ drop (length s) r" "length x = length s + 1"
    using assms(3) by (metis append_take_drop_id drop_Suc_Cons length_take length_Cons Suc_eq_plus1 Suc_le_mono min_absorb2)
  have "mem_write (d @ x @ drop (length s) r) (length d) (s @ [0]) = Some (d @ s @ 0 # drop (length s) r)"
    using mem_write_at [of "s @ [0]" x d "drop (length s) r"] x(2) by simp
  then show ?thesis using assms(1,2) by (simp add: c_strcat_def cstr_terminated flip: x(1))
qed

definition libc_example :: libc where
  "libc_example = \<lparr>fresh = (\<lambda>m n. if m 7 = None then Some 7 else None), junk = 0\<rparr>"

lemma libc_example_ok: "libc_ok libc_example"
  by (auto simp: libc_ok_def libc_example_def)

text \<open>An allocator that never runs out of memory while finitely many objects are in use.\<close>

definition libc_total :: "libc \<Rightarrow> bool" where
  "libc_total L \<longleftrightarrow> libc_ok L \<and> (\<forall>m n. finite (dom m) \<longrightarrow> fresh L m n \<noteq> None)"

lemma libc_total_ok [simp]: "libc_total L \<Longrightarrow> libc_ok L"
  by (simp add: libc_total_def)

lemma libc_totalE:
  assumes "libc_total L" and "finite (dom m)"
  obtains b where "fresh L m n = Some b" and "b \<notin> dom m"
proof -
  from assms have "fresh L m n \<noteq> None" unfolding libc_total_def by blast
  then obtain b where "fresh L m n = Some b" by blast
  moreover from this assms(1) have "b \<notin> dom m" unfolding libc_total_def libc_ok_def by blast
  ultimately show thesis by (rule that)
qed

text \<open>Such an allocator exists.\<close>

definition libc_least :: libc where
  "libc_least = \<lparr>fresh = (\<lambda>m n. if finite (dom m) then Some (LEAST a. a \<notin> dom m) else None), junk = 0\<rparr>"

lemma libc_least_total: "libc_total libc_least"
proof -
  have "(LEAST a. a \<notin> dom m) \<notin> dom m" if "finite (dom m)" for m :: blocks
    using ex_new_if_finite [OF infinite_UNIV_nat that] by (rule LeastI_ex)
  then show ?thesis by (auto simp: libc_total_def libc_ok_def libc_least_def split: if_splits)
qed

end
