(* ===== verification/Json_Sb.thy ===== *)
theory Json_Sb
  imports C_Heap
begin

text \<open>
  The growing string buffer of the JSON module: \<open>src/json/sb.c\<close>, the macro \<open>sb_putc\<close> of
  \<open>include/json/json.h\<close> and \<open>json_strdup\<close>, \<open>json_delete_string\<close> of \<open>src/json/json.c\<close> (configured
  without \<open>STATIC_JSON\<close>, so that the allocator is \<open>malloc\<close>).

  \<open>cur\<close> and \<open>end\<close> are offsets into the object \<open>sb_obj\<close>. It is a field of its own because a failing
  \<open>realloc\<close> leaves \<open>start\<close> null while \<open>cur\<close> and \<open>end\<close> still point into the old object. The result of an
  operation lists its return value, the buffer and the memory.
\<close>

section \<open>Operations\<close>

record SB =
  sb_start :: "nat option"
  sb_obj :: "nat option"
  sb_cur :: nat
  sb_end :: nat

definition sb_null :: SB where
  "sb_null = \<lparr>sb_start = None, sb_obj = None, sb_cur = 0, sb_end = 0\<rparr>"

text \<open>Pointer differences are defined when both pointers are into the same object; of two null pointers, as a cleared buffer has them, it is 0.\<close>

definition sb_size :: "SB \<Rightarrow> int option" where
  "sb_size sb = (if sb_start sb = sb_obj sb then Some (if sb_obj sb = None then 0 else int (sb_end sb)) else None)"

definition sb_space :: "SB \<Rightarrow> int option" where
  "sb_space sb = (if sb_obj sb \<noteq> None then Some (int (sb_end sb) - int (sb_cur sb)) else None)"

definition sb_is_valid :: "SB \<Rightarrow> int" where
  "sb_is_valid sb = (if sb_start sb \<noteq> None then 1 else 0)"

definition sb_init :: "libc \<Rightarrow> blocks \<Rightarrow> SB \<Rightarrow> int \<times> SB \<times> blocks" where
  "sb_init L m sb =
     (case c_malloc L m 17 of
        (None, m) \<Rightarrow> (-1, sb\<lparr>sb_start := None\<rparr>, m)
      | (Some a, m) \<Rightarrow> (0, sb\<lparr>sb_start := Some a, sb_obj := Some a, sb_cur := 0, sb_end := 16\<rparr>, m))"

text \<open>The doubling loop; it does not end on an empty buffer.\<close>

partial_function (option) grow_size :: "nat \<Rightarrow> nat \<Rightarrow> nat option" where
  "grow_size alloc n = (let alloc = alloc * 2 in if alloc < n then grow_size alloc n else Some alloc)"

definition sb_grow :: "libc \<Rightarrow> blocks \<Rightarrow> SB \<Rightarrow> nat \<Rightarrow> (int \<times> SB \<times> blocks) option" where
  "sb_grow L m sb need =
     (if sb_start sb = sb_obj sb \<and> sb_obj sb \<noteq> None
      then do {
        alloc \<leftarrow> grow_size (sb_end sb) (sb_cur sb + need);
        (p, m) \<leftarrow> c_realloc L m (sb_start sb) (alloc + 1);
        Some (case p of
                None \<Rightarrow> (-1, sb\<lparr>sb_start := None\<rparr>, m)
              | Some a \<Rightarrow> (0, sb\<lparr>sb_start := Some a, sb_obj := Some a, sb_end := alloc\<rparr>, m))
      }
      else None)"

definition sb_need :: "libc \<Rightarrow> blocks \<Rightarrow> SB \<Rightarrow> nat \<Rightarrow> (int \<times> SB \<times> blocks) option" where
  "sb_need L m sb need = do {
     space \<leftarrow> sb_space sb;
     if space < int need then sb_grow L m sb need else Some (0, sb, m)
   }"

text \<open>Writing at the cursor: \<open>*cur++\<close> and \<open>memcpy(cur, ...)\<close>.\<close>

definition sb_write :: "blocks \<Rightarrow> SB \<Rightarrow> bytes \<Rightarrow> (SB \<times> blocks) option" where
  "sb_write m sb bs = do {
     a \<leftarrow> sb_obj sb;
     blk \<leftarrow> m a;
     blk \<leftarrow> mem_write blk (sb_cur sb) bs;
     Some (sb\<lparr>sb_cur := sb_cur sb + length bs\<rparr>, m(a \<mapsto> blk))
   }"

definition sb_put :: "libc \<Rightarrow> blocks \<Rightarrow> SB \<Rightarrow> bytes \<Rightarrow> (int \<times> SB \<times> blocks) option" where
  "sb_put L m sb bs = do {
     (r, sb, m) \<leftarrow> sb_need L m sb (length bs);
     if r < 0 then Some (-1, sb, m)
     else do { (sb, m) \<leftarrow> sb_write m sb bs; Some (int (length bs), sb, m) }
   }"

text \<open>The argument of \<open>sb_puts\<close> is the characters of the string without the terminator.\<close>

definition sb_puts :: "libc \<Rightarrow> blocks \<Rightarrow> SB \<Rightarrow> bytes \<Rightarrow> (int \<times> SB \<times> blocks) option" where
  "sb_puts L m sb str = sb_put L m sb str"

text \<open>The macro ignores the result of \<open>sb_grow\<close>.\<close>

definition sb_putc :: "libc \<Rightarrow> blocks \<Rightarrow> SB \<Rightarrow> byte \<Rightarrow> (SB \<times> blocks) option" where
  "sb_putc L m sb c = do {
     (sb, m) \<leftarrow> (if sb_cur sb \<ge> sb_end sb then do { (r, sb, m) \<leftarrow> sb_grow L m sb 1; Some (sb, m) } else Some (sb, m));
     sb_write m sb [c]
   }"

definition sb_finish :: "blocks \<Rightarrow> SB \<Rightarrow> (nat option \<times> blocks) option" where
  "sb_finish m sb =
     (case sb_obj sb of
        None \<Rightarrow> Some (sb_start sb, m)
      | Some a \<Rightarrow> do {
          blk \<leftarrow> m a;
          blk \<leftarrow> write_at blk (sb_cur sb) 0;
          Some (sb_start sb, m(a \<mapsto> blk))
        })"

definition sb_clear :: "SB \<Rightarrow> SB" where
  "sb_clear sb = sb_null"

definition sb_free :: "blocks \<Rightarrow> SB \<Rightarrow> (SB \<times> blocks) option" where
  "sb_free m sb =
     (if sb_start sb \<noteq> None then do { m \<leftarrow> c_free m (sb_start sb); Some (sb_clear sb, m) } else Some (sb, m))"

text \<open>\<open>json_strdup\<close> does not look at the result of \<open>sb_init\<close>; the buffer is uninitialised before it.\<close>

definition json_strdup :: "libc \<Rightarrow> blocks \<Rightarrow> nat option \<Rightarrow> (nat option \<times> blocks) option" where
  "json_strdup L m p =
     (case sb_init L m sb_null of (_, out, m) \<Rightarrow> do {
        s \<leftarrow> str_at m p;
        (ret, out, m) \<leftarrow> sb_puts L m out s;
        if ret < 0 then Some (None, m)
        else do { (out, m) \<leftarrow> sb_putc L m out 0; Some (sb_start out, m) }
      })"

definition json_delete_string :: "blocks \<Rightarrow> nat option \<Rightarrow> blocks option" where
  "json_delete_string m json_str = do { (_, m) \<leftarrow> sb_free m (sb_null\<lparr>sb_start := json_str\<rparr>); Some m }"

section \<open>The contents of a buffer\<close>

text \<open>\<open>sb_rep m0 s sb m\<close>: the buffer holds \<open>s\<close> in an object of its own, and the rest of the memory \<open>m\<close>
  is \<open>m0\<close>. There is always room for one more byte than \<open>end\<close> says.\<close>

definition sb_rep :: "blocks \<Rightarrow> bytes \<Rightarrow> SB \<Rightarrow> blocks \<Rightarrow> bool" where
  "sb_rep m0 s sb m \<longleftrightarrow>
     (\<exists>a blk. sb_start sb = Some a \<and> sb_obj sb = Some a \<and> a \<notin> dom m0 \<and> m = m0(a \<mapsto> blk) \<and>
        length blk = sb_end sb + 1 \<and> sb_cur sb = length s \<and> length s \<le> sb_end sb \<and>
        take (length s) blk = s \<and> 0 < sb_end sb)"

lemma sb_rep_le: "sb_rep m0 s sb m \<Longrightarrow> m0 \<subseteq>\<^sub>m m"
proof -
  assume "sb_rep m0 s sb m"
  then obtain a blk where "a \<notin> dom m0" "m = m0(a \<mapsto> blk)" unfolding sb_rep_def by blast
  then show "m0 \<subseteq>\<^sub>m m" unfolding map_le_def by auto
qed

lemma grow_size_spec: "0 < alloc \<Longrightarrow> \<exists>k. grow_size alloc n = Some k \<and> n \<le> k \<and> alloc < k"
proof (induction "n - alloc" arbitrary: alloc rule: less_induct)
  case less
  show ?case
  proof (cases "alloc * 2 < n")
    case True
    have "n - alloc * 2 < n - alloc" and "0 < alloc * 2" using True less.prems by linarith+
    from less.hyps [OF this] obtain k where
      "grow_size (alloc * 2) n = Some k" "n \<le> k" "alloc * 2 < k" by blast
    with True less.prems show ?thesis by (subst grow_size.simps) (auto simp: Let_def)
  next
    case False
    with less.prems show ?thesis by (subst grow_size.simps) (auto simp: Let_def)
  qed
qed

lemma fun_upd_absorb: "a \<notin> dom m \<Longrightarrow> m(a := None) = m"
  by (auto simp: domIff fun_eq_iff)

lemma sb_init_fresh:
  assumes "fresh L m 17 = Some a" and "a \<notin> dom m"
  shows "\<exists>sb' m'. sb_init L m sb = (0, sb', m') \<and> sb_rep m [] sb' m'"
proof -
  let ?sb = "sb\<lparr>sb_start := Some a, sb_obj := Some a, sb_cur := 0, sb_end := 16\<rparr>"
  let ?m = "m(a \<mapsto> replicate 17 (junk L))"
  have "sb_rep m [] ?sb ?m"
    unfolding sb_rep_def using assms(2) by (intro exI [of _ a] exI [of _ "replicate 17 (junk L)"]) simp
  moreover have "sb_init L m sb = (0, ?sb, ?m)" using assms(1) by (simp add: sb_init_def c_malloc_def)
  ultimately show ?thesis by blast
qed

lemma sb_init_rep:
  assumes "libc_total L" and "finite (dom m)"
  shows "\<exists>sb' m'. sb_init L m sb = (0, sb', m') \<and> sb_rep m [] sb' m'"
  using assms by (rule libc_totalE [of L m 17]) (rule sb_init_fresh)

lemma sb_grow_rep:
  assumes "libc_total L" and "finite (dom m0)" and "sb_rep m0 s sb m"
  shows "\<exists>sb' m'. sb_grow L m sb need = Some (0, sb', m') \<and> sb_rep m0 s sb' m' \<and> length s + need \<le> sb_end sb' \<and>
    sb_end sb < sb_end sb'"
proof -
  from assms(3) obtain a blk where r: "sb_start sb = Some a" "sb_obj sb = Some a" "a \<notin> dom m0" "m = m0(a \<mapsto> blk)"
    "length blk = sb_end sb + 1" "sb_cur sb = length s" "length s \<le> sb_end sb" "take (length s) blk = s" "0 < sb_end sb"
    unfolding sb_rep_def by blast
  obtain k where k: "grow_size (sb_end sb) (length s + need) = Some k" "length s + need \<le> k" "sb_end sb < k"
    using grow_size_spec [OF r(9), of "length s + need"] by auto
  obtain b where b: "fresh L m0 (Suc k) = Some b" "b \<notin> dom m0" using libc_totalE [OF assms(1,2)] .
  have m: "m(a := None) = m0" using r(3,4) by (simp add: fun_upd_absorb)
  define blk' where "blk' = take (Suc k) (blk @ replicate (Suc k) (junk L))"
  have "c_realloc L m (Some a) (Suc k) = Some (Some b, m0(b \<mapsto> blk'))"
    using b r(4) m unfolding blk'_def c_realloc_def by simp
  moreover have "length blk' = Suc k" "take (length s) blk' = s"
    using r(5,7,8) k(3) by (simp_all add: blk'_def)
  ultimately show ?thesis
    using r k b by (auto simp: sb_grow_def sb_rep_def)
qed

lemma sb_need_rep:
  assumes "libc_total L" and "finite (dom m0)" and "sb_rep m0 s sb m"
  shows "\<exists>sb' m'. sb_need L m sb need = Some (0, sb', m') \<and> sb_rep m0 s sb' m' \<and> length s + need \<le> sb_end sb'"
proof (cases "length s + need \<le> sb_end sb")
  case True
  with assms(3) have "sb_need L m sb need = Some (0, sb, m)"
    by (auto simp: sb_need_def sb_space_def sb_rep_def)
  with assms(3) True show ?thesis by blast
next
  case False
  with assms(3) have "sb_need L m sb need = sb_grow L m sb need"
    by (auto simp: sb_need_def sb_space_def sb_rep_def)
  with sb_grow_rep [OF assms, of need] show ?thesis by auto
qed

lemma sb_write_rep:
  assumes "sb_rep m0 s sb m" and "length s + length bs \<le> sb_end sb"
  shows "\<exists>sb' m'. sb_write m sb bs = Some (sb', m') \<and> sb_rep m0 (s @ bs) sb' m' \<and> sb_end sb' = sb_end sb"
proof -
  from assms(1) obtain a blk where r: "sb_start sb = Some a" "sb_obj sb = Some a" "a \<notin> dom m0" "m = m0(a \<mapsto> blk)"
    "length blk = sb_end sb + 1" "sb_cur sb = length s" "length s \<le> sb_end sb" "take (length s) blk = s" "0 < sb_end sb"
    unfolding sb_rep_def by blast
  let ?blk = "s @ bs @ drop (length s + length bs) blk"
  have "sb_write m sb bs = Some (sb\<lparr>sb_cur := length s + length bs\<rparr>, m0(a \<mapsto> ?blk))"
    using r assms(2) by (simp add: sb_write_def mem_write_def)
  moreover have "sb_rep m0 (s @ bs) (sb\<lparr>sb_cur := length s + length bs\<rparr>) (m0(a \<mapsto> ?blk))"
    unfolding sb_rep_def using r assms(2) by (intro exI [of _ a] exI [of _ ?blk]) simp
  ultimately show ?thesis by auto
qed

lemma sb_put_rep:
  assumes "libc_total L" and "finite (dom m0)" and "sb_rep m0 s sb m"
  shows "\<exists>sb' m'. sb_put L m sb bs = Some (int (length bs), sb', m') \<and> sb_rep m0 (s @ bs) sb' m'"
proof -
  obtain sb1 m1 where 1: "sb_need L m sb (length bs) = Some (0, sb1, m1)" "sb_rep m0 s sb1 m1"
    "length s + length bs \<le> sb_end sb1" using sb_need_rep [OF assms] by blast
  from sb_write_rep [OF 1(2,3)] 1(1) show ?thesis by (auto simp: sb_put_def)
qed

lemma sb_puts_rep:
  assumes "libc_total L" and "finite (dom m0)" and "sb_rep m0 s sb m"
  shows "\<exists>sb' m'. sb_puts L m sb bs = Some (int (length bs), sb', m') \<and> sb_rep m0 (s @ bs) sb' m'"
  unfolding sb_puts_def by (rule sb_put_rep [OF assms])

lemma sb_putc_rep:
  assumes "libc_total L" and "finite (dom m0)" and "sb_rep m0 s sb m"
  shows "\<exists>sb' m'. sb_putc L m sb c = Some (sb', m') \<and> sb_rep m0 (s @ [c]) sb' m'"
proof (cases "length s + 1 \<le> sb_end sb")
  case True
  moreover from this assms(3) have "\<not> sb_end sb \<le> sb_cur sb" by (auto simp: sb_rep_def)
  ultimately show ?thesis using sb_write_rep [OF assms(3), of "[c]"] by (auto simp: sb_putc_def)
next
  case False
  with assms(3) have "sb_end sb \<le> sb_cur sb" by (auto simp: sb_rep_def)
  moreover obtain sb1 m1 where 1: "sb_grow L m sb (Suc 0) = Some (0, sb1, m1)" "sb_rep m0 s sb1 m1" "length s + 1 \<le> sb_end sb1"
    using sb_grow_rep [OF assms, of "Suc 0"] by auto
  ultimately show ?thesis using sb_write_rep [OF 1(2), of "[c]"] by (auto simp: sb_putc_def)
qed

text \<open>A finished buffer is a terminated string in a new object.\<close>

lemma sb_finish_rep:
  assumes "sb_rep m0 s sb m" and "0 \<notin> set s"
  shows "\<exists>a blk. sb_finish m sb = Some (Some a, m0(a \<mapsto> blk)) \<and> a \<notin> dom m0 \<and> cstr blk = Some s"
proof -
  from assms(1) obtain a blk where r: "sb_start sb = Some a" "sb_obj sb = Some a" "a \<notin> dom m0" "m = m0(a \<mapsto> blk)"
    "length blk = sb_end sb + 1" "sb_cur sb = length s" "length s \<le> sb_end sb" "take (length s) blk = s"
    unfolding sb_rep_def by blast
  have "blk[length s := 0] = s @ 0 # drop (Suc (length s)) blk"
    using r(5,7,8) by (simp add: upd_conv_take_nth_drop)
  with r assms(2) show ?thesis by (auto simp: sb_finish_def write_at_def cstr_terminated)
qed

lemma sb_free_rep:
  assumes "sb_rep m0 s sb m"
  shows "sb_free m sb = Some (sb_null, m0)"
proof -
  from assms obtain a blk where "sb_start sb = Some a" "a \<notin> dom m0" "m = m0(a \<mapsto> blk)"
    unfolding sb_rep_def by blast
  then show ?thesis by (simp add: sb_free_def c_free_def sb_clear_def fun_upd_absorb)
qed

lemma json_delete_string_free: "json_delete_string m p = c_free m p"
  by (cases p) (auto simp: json_delete_string_def sb_free_def c_free_def)

lemma json_strdup_total:
  assumes "libc_total L" and "finite (dom m)" and "str_at m p = Some s"
  shows "\<exists>a blk. json_strdup L m p = Some (Some a, m(a \<mapsto> blk)) \<and> a \<notin> dom m \<and> cstr blk = Some s"
proof -
  obtain sb1 m1 where 1: "sb_init L m sb_null = (0, sb1, m1)" "sb_rep m [] sb1 m1"
    using sb_init_rep [OF assms(1,2)] by blast
  have "m \<subseteq>\<^sub>m m1" using 1(2) by (rule sb_rep_le)
  then have s: "str_at m1 p = Some s" using assms(3) by (rule str_at_mono [rotated])
  obtain sb2 m2 where 2: "sb_puts L m1 sb1 s = Some (int (length s), sb2, m2)" "sb_rep m s sb2 m2"
    using sb_puts_rep [OF assms(1,2) 1(2), of s] by auto
  obtain sb3 m3 where 3: "sb_putc L m2 sb2 0 = Some (sb3, m3)" "sb_rep m (s @ [0]) sb3 m3"
    using sb_putc_rep [OF assms(1,2) 2(2)] by blast
  from 3(2) obtain a blk where r: "sb_start sb3 = Some a" "a \<notin> dom m" "m3 = m(a \<mapsto> blk)" "take (length (s @ [0])) blk = s @ [0]"
    unfolding sb_rep_def by blast
  then have "blk = s @ 0 # drop (length (s @ [0])) blk" by (metis append.assoc append_Cons append_Nil append_take_drop_id)
  then have "cstr blk = Some s" using str_at_no_zero [OF assms(3)] by (metis cstr_terminated)
  with 1 2 3 s r show ?thesis by (auto simp: json_strdup_def)
qed

section \<open>Running out of memory\<close>

text \<open>When the allocator refuses, the data written so far is still there and \<open>start\<close> is null.\<close>

lemma sb_grow_cases:
  assumes "libc_ok L" and "sb_rep m0 s sb m"
  shows "(\<exists>sb' m'. sb_grow L m sb need = Some (0, sb', m') \<and> sb_rep m0 s sb' m' \<and> length s + need \<le> sb_end sb') \<or>
    sb_grow L m sb need = Some (-1, sb\<lparr>sb_start := None\<rparr>, m)"
proof -
  from assms(2) obtain a blk where r: "sb_start sb = Some a" "sb_obj sb = Some a" "a \<notin> dom m0" "m = m0(a \<mapsto> blk)"
    "length blk = sb_end sb + 1" "sb_cur sb = length s" "length s \<le> sb_end sb" "take (length s) blk = s" "0 < sb_end sb"
    unfolding sb_rep_def by blast
  obtain k where k: "grow_size (sb_end sb) (length s + need) = Some k" "length s + need \<le> k" "sb_end sb < k"
    using grow_size_spec [OF r(9), of "length s + need"] by auto
  have m: "m(a := None) = m0" using r(3,4) by (simp add: fun_upd_absorb)
  show ?thesis
  proof (cases "fresh L m0 (Suc k)")
    case None
    with r k m show ?thesis by (simp add: sb_grow_def c_realloc_def)
  next
    case (Some b)
    with assms(1) have b: "b \<notin> dom m0" unfolding libc_ok_def by blast
    define blk' where "blk' = take (Suc k) (blk @ replicate (Suc k) (junk L))"
    have "c_realloc L m (Some a) (Suc k) = Some (Some b, m0(b \<mapsto> blk'))"
      using Some r(4) m unfolding blk'_def c_realloc_def by simp
    moreover have "length blk' = Suc k" "take (length s) blk' = s"
      using r(5,7,8) k(3) by (simp_all add: blk'_def)
    ultimately show ?thesis using r k b by (auto simp: sb_grow_def sb_rep_def)
  qed
qed

lemma sb_put_cases:
  assumes "libc_ok L" and "sb_rep m0 s sb m"
  shows "(\<exists>sb' m'. sb_put L m sb bs = Some (int (length bs), sb', m') \<and> sb_rep m0 (s @ bs) sb' m') \<or>
    sb_put L m sb bs = Some (-1, sb\<lparr>sb_start := None\<rparr>, m)"
proof (cases "length s + length bs \<le> sb_end sb")
  case True
  with assms(2) have "sb_need L m sb (length bs) = Some (0, sb, m)"
    by (auto simp: sb_need_def sb_space_def sb_rep_def)
  with sb_write_rep [OF assms(2) True] show ?thesis by (auto simp: sb_put_def)
next
  case False
  with assms(2) have n: "sb_need L m sb (length bs) = sb_grow L m sb (length bs)"
    by (auto simp: sb_need_def sb_space_def sb_rep_def)
  from sb_grow_cases [OF assms, of "length bs"] show ?thesis
  proof
    assume "\<exists>sb' m'. sb_grow L m sb (length bs) = Some (0, sb', m') \<and> sb_rep m0 s sb' m' \<and> length s + length bs \<le> sb_end sb'"
    then obtain sb1 m1 where "sb_grow L m sb (length bs) = Some (0, sb1, m1)" "sb_rep m0 s sb1 m1"
      "length s + length bs \<le> sb_end sb1" by blast
    with sb_write_rep [of m0 s sb1 m1 bs] n show ?thesis by (auto simp: sb_put_def)
  qed (simp add: sb_put_def n)
qed

lemma sb_rep_room: "sb_rep m0 s sb m \<Longrightarrow> \<exists>sb' m'. sb_write m sb [c] = Some (sb', m') \<and> sb_start sb' = sb_start sb"
  by (auto simp: sb_rep_def sb_write_def mem_write_def)

lemma sb_putc_cases:
  assumes "libc_ok L" and "sb_rep m0 s sb m"
  shows "\<exists>sb' m'. sb_putc L m sb c = Some (sb', m') \<and> (sb_rep m0 (s @ [c]) sb' m' \<or> sb_start sb' = None)"
proof (cases "length s + 1 \<le> sb_end sb")
  case True
  moreover from this assms(2) have "\<not> sb_end sb \<le> sb_cur sb" by (auto simp: sb_rep_def)
  ultimately show ?thesis using sb_write_rep [OF assms(2), of "[c]"] by (auto simp: sb_putc_def)
next
  case False
  with assms(2) have f: "sb_end sb \<le> sb_cur sb" by (auto simp: sb_rep_def)
  have w: "sb_write m (sb\<lparr>sb_start := None\<rparr>) [c] = map_option (\<lambda>(sb', m'). (sb'\<lparr>sb_start := None\<rparr>, m')) (sb_write m sb [c])"
    by (cases "sb_obj sb"; cases "m (the (sb_obj sb))")
      (auto simp: sb_write_def mem_write_def)
  from sb_grow_cases [OF assms, of "Suc 0"] show ?thesis
  proof
    assume "\<exists>sb' m'. sb_grow L m sb (Suc 0) = Some (0, sb', m') \<and> sb_rep m0 s sb' m' \<and> length s + Suc 0 \<le> sb_end sb'"
    then obtain sb1 m1 where "sb_grow L m sb (Suc 0) = Some (0, sb1, m1)" "sb_rep m0 s sb1 m1" "length s + Suc 0 \<le> sb_end sb1"
      by blast
    with sb_write_rep [of m0 s sb1 m1 "[c]"] f show ?thesis by (auto simp: sb_putc_def)
  next
    assume "sb_grow L m sb (Suc 0) = Some (-1, sb\<lparr>sb_start := None\<rparr>, m)"
    with sb_rep_room [OF assms(2), of c] f w show ?thesis by (auto simp: sb_putc_def)
  qed
qed

lemma json_strdup_spec:
  assumes "libc_ok L" and "str_at m p = Some s" and "json_strdup L m p = Some (Some a, m')"
  shows "a \<notin> dom m \<and> (\<exists>blk. m' = m(a \<mapsto> blk) \<and> cstr blk = Some s)"
proof -
  have "fresh L m 17 \<noteq> None"
  proof
    assume "fresh L m 17 = None"
    then have "json_strdup L m p = None"
      by (auto simp: json_strdup_def sb_init_def c_malloc_def sb_puts_def sb_put_def sb_need_def sb_space_def sb_null_def assms(2))
    with assms(3) show False by simp
  qed
  then obtain b where "fresh L m 17 = Some b" by blast
  moreover from this assms(1) have "b \<notin> dom m" unfolding libc_ok_def by blast
  ultimately obtain sb1 m1 where 1: "sb_init L m sb_null = (0, sb1, m1)" "sb_rep m [] sb1 m1"
    using sb_init_fresh by blast
  have "m \<subseteq>\<^sub>m m1" using 1(2) by (rule sb_rep_le)
  then have s: "str_at m1 p = Some s" using assms(2) by (rule str_at_mono [rotated])
  obtain sb2 m2 where 2: "sb_puts L m1 sb1 s = Some (int (length s), sb2, m2)" "sb_rep m s sb2 m2"
    using sb_put_cases [OF assms(1) 1(2), of s] assms(3) 1(1) s by (auto simp: json_strdup_def sb_puts_def)
  obtain sb3 m3 where 3: "sb_putc L m2 sb2 0 = Some (sb3, m3)" "sb_rep m (s @ [0]) sb3 m3 \<or> sb_start sb3 = None"
    using sb_putc_cases [OF assms(1) 2(2)] by blast
  from 1 2 3 s assms(3) have 4: "sb_start sb3 = Some a" "m3 = m'" by (auto simp: json_strdup_def)
  with 3(2) obtain blk where r: "a \<notin> dom m" "m3 = m(a \<mapsto> blk)" "take (length (s @ [0])) blk = s @ [0]"
    unfolding sb_rep_def by auto
  then have "blk = s @ 0 # drop (length (s @ [0])) blk" by (metis append.assoc append_Cons append_Nil append_take_drop_id)
  then have "cstr blk = Some s" using str_at_no_zero [OF assms(2)] by (metis cstr_terminated)
  with r 4 show ?thesis by auto
qed

lemma json_strdup_out_of_memory:
  assumes "fresh L m 17 = None"
  shows "json_strdup L m p = None"
  using assms by (auto simp: json_strdup_def sb_init_def c_malloc_def sb_puts_def sb_put_def sb_need_def sb_space_def
      sb_null_def bind_eq_None_conv)

end
