(* ===== verification/Property.thy ===== *)
theory Property
  imports Json_Sb
begin

text \<open>
  Strings with an ownership tag: \<open>src/data/property.c\<close>, \<open>property_const.c\<close>, \<open>property_dynamic.c\<close>,
  \<open>property_stack.c\<close> and \<open>src/json/property_json.c\<close> (configured without \<open>STATIC_DYNAMIC_PROPERTY\<close>).

  The characters lie in the memory of \<open>C_Heap\<close>. The list of registered property types holds their
  tag and handler, in the order in which they were added.
\<close>

unbundle bit_operations_syntax

section \<open>Property types\<close>

record property_t =
  p_value :: "nat option"
  p_flags :: byte
  p_size :: "16 word"

definition is_raw :: byte where "is_raw = 0x40"
definition is_owner :: byte where "is_owner = 0x80"
definition PROPERTY_BASE_MASK :: byte where "PROPERTY_BASE_MASK = 0x3f"
definition PROPERTY_CONST_TAG :: byte where "PROPERTY_CONST_TAG = 1"
definition PROPERTY_DYNAMIC_TAG :: byte where "PROPERTY_DYNAMIC_TAG = 2"
definition PROPERTY_STACK_TAG :: byte where "PROPERTY_STACK_TAG = 3"
definition PROPERTY_JSON_TAG :: byte where "PROPERTY_JSON_TAG = 4"

definition has :: "byte \<Rightarrow> byte \<Rightarrow> bool" where
  "has flags m \<longleftrightarrow> flags AND m \<noteq> 0"

definition p_null :: property_t where
  "p_null = \<lparr>p_value = None, p_flags = 0, p_size = 0\<rparr>"

text \<open>The handlers are the four records of function pointers.\<close>

datatype handler = H_const | H_dynamic | H_stack | H_json

text \<open>The operations of the handlers take the memory and the two structures and return all three.
  The fields of the destination that are not assigned keep their value.\<close>

type_synonym hres = "(blocks \<times> property_t \<times> property_t) option"

definition const_copy :: "blocks \<Rightarrow> property_t \<Rightarrow> property_t \<Rightarrow> hres" where
  "const_copy m dst src =
     Some (m, \<lparr>p_value = p_value src, p_flags = is_owner OR PROPERTY_CONST_TAG, p_size = p_size src\<rparr>, src)"

definition const_weak :: "blocks \<Rightarrow> property_t \<Rightarrow> property_t \<Rightarrow> hres" where
  "const_weak m dst src = Some (m, \<lparr>p_value = p_value src, p_flags = PROPERTY_CONST_TAG, p_size = p_size src\<rparr>, src)"

definition dynmc_copy :: "libc \<Rightarrow> blocks \<Rightarrow> property_t \<Rightarrow> property_t \<Rightarrow> hres" where
  "dynmc_copy L m dst src =
     (let dst = dst\<lparr>p_size := p_size src\<rparr>
      in if \<not> has (p_flags src) is_owner
         then Some (m, dst\<lparr>p_value := p_value src, p_flags := p_flags src\<rparr>, src)
         else do {
           (v, m) \<leftarrow> (if has (p_flags src) is_raw then c_strndup L m (p_value src) (unat (p_size src))
                     else c_strdup L m (p_value src));
           Some (m, dst\<lparr>p_value := v, p_flags := is_owner OR PROPERTY_DYNAMIC_TAG\<rparr>, src)
         })"

definition dynmc_weak :: "blocks \<Rightarrow> property_t \<Rightarrow> property_t \<Rightarrow> hres" where
  "dynmc_weak m dst src = Some (m, \<lparr>p_value = p_value src, p_flags = PROPERTY_DYNAMIC_TAG, p_size = p_size src\<rparr>, src)"

definition dynmc_move :: "blocks \<Rightarrow> property_t \<Rightarrow> property_t \<Rightarrow> hres" where
  "dynmc_move m dst src =
     (let dst = \<lparr>p_value = p_value src, p_flags = PROPERTY_DYNAMIC_TAG, p_size = p_size src\<rparr>
      in if has (p_flags src) is_owner
         then Some (m, dst\<lparr>p_flags := p_flags dst OR is_owner\<rparr>, src\<lparr>p_flags := p_flags src AND NOT is_owner\<rparr>)
         else Some (m, dst, src))"

definition dynmc_destroy :: "blocks \<Rightarrow> property_t \<Rightarrow> blocks option" where
  "dynmc_destroy m dst = (if has (p_flags dst) is_owner then c_free m (p_value dst) else Some m)"

definition stack_copy :: "libc \<Rightarrow> blocks \<Rightarrow> property_t \<Rightarrow> property_t \<Rightarrow> hres" where
  "stack_copy L m dst src = dynmc_copy L m dst (src\<lparr>p_flags := p_flags src OR is_owner\<rparr>)"

definition stack_weak :: "blocks \<Rightarrow> property_t \<Rightarrow> property_t \<Rightarrow> hres" where
  "stack_weak m dst src = Some (m, \<lparr>p_value = p_value src, p_flags = PROPERTY_STACK_TAG, p_size = p_size src\<rparr>, src)"

definition json_copy :: "libc \<Rightarrow> blocks \<Rightarrow> property_t \<Rightarrow> property_t \<Rightarrow> hres" where
  "json_copy L m dst src = do {
     (v, m) \<leftarrow> json_strdup L m (p_value src);
     Some (m, \<lparr>p_value = v, p_flags = is_owner OR PROPERTY_JSON_TAG, p_size = p_size src\<rparr>, src)
   }"

definition json_weak :: "blocks \<Rightarrow> property_t \<Rightarrow> property_t \<Rightarrow> hres" where
  "json_weak m dst src = Some (m, \<lparr>p_value = p_value src, p_flags = PROPERTY_JSON_TAG, p_size = p_size src\<rparr>, src)"

definition json_move :: "blocks \<Rightarrow> property_t \<Rightarrow> property_t \<Rightarrow> hres" where
  "json_move m dst src =
     (let dst = \<lparr>p_value = p_value src, p_flags = PROPERTY_JSON_TAG, p_size = p_size src\<rparr>
      in if has (p_flags src) is_owner
         then Some (m, dst\<lparr>p_flags := p_flags dst OR is_owner\<rparr>, src\<lparr>p_flags := p_flags src AND NOT is_owner\<rparr>)
         else Some (m, dst, src))"

definition json_destroy :: "blocks \<Rightarrow> property_t \<Rightarrow> blocks option" where
  "json_destroy m dst = json_delete_string m (p_value dst)"

fun handler_copy :: "libc \<Rightarrow> handler \<Rightarrow> blocks \<Rightarrow> property_t \<Rightarrow> property_t \<Rightarrow> hres" where
  "handler_copy L H_const = const_copy"
| "handler_copy L H_dynamic = dynmc_copy L"
| "handler_copy L H_stack = stack_copy L"
| "handler_copy L H_json = json_copy L"

fun handler_weak :: "handler \<Rightarrow> blocks \<Rightarrow> property_t \<Rightarrow> property_t \<Rightarrow> hres" where
  "handler_weak H_const = const_weak"
| "handler_weak H_dynamic = dynmc_weak"
| "handler_weak H_stack = stack_weak"
| "handler_weak H_json = json_weak"

fun handler_move :: "libc \<Rightarrow> handler \<Rightarrow> blocks \<Rightarrow> property_t \<Rightarrow> property_t \<Rightarrow> hres" where
  "handler_move L H_const = const_copy"
| "handler_move L H_dynamic = dynmc_move"
| "handler_move L H_stack = stack_copy L"
| "handler_move L H_json = json_move"

text \<open>Constants and stack strings have no destructor.\<close>

fun handler_destroy :: "handler \<Rightarrow> blocks \<Rightarrow> property_t \<Rightarrow> blocks option" where
  "handler_destroy H_const m dst = Some m"
| "handler_destroy H_dynamic m dst = dynmc_destroy m dst"
| "handler_destroy H_stack m dst = Some m"
| "handler_destroy H_json m dst = json_destroy m dst"

section \<open>Operations\<close>

type_synonym dispatchers = "(byte \<times> handler) list"

definition property_type_add :: "dispatchers \<Rightarrow> byte \<times> handler \<Rightarrow> dispatchers" where
  "property_type_add prop_disp disp = prop_disp @ [disp]"

definition property_types_init :: "dispatchers \<Rightarrow> dispatchers" where
  "property_types_init d =
     property_type_add (property_type_add (property_type_add d (PROPERTY_CONST_TAG, H_const))
       (PROPERTY_DYNAMIC_TAG, H_dynamic)) (PROPERTY_STACK_TAG, H_stack)"

text \<open>The loop removes the last node until the list is empty.\<close>

fun property_types_deinit :: "dispatchers \<Rightarrow> dispatchers" where
  "property_types_deinit [] = []"
| "property_types_deinit (d # ds) = property_types_deinit (butlast (d # ds))"

definition property_init :: "property_t \<Rightarrow> property_t" where
  "property_init dst = p_null"

definition get_property_type :: "dispatchers \<Rightarrow> property_t \<Rightarrow> handler option" where
  "get_property_type d src = map_option snd (find (\<lambda>(index, h). index = PROPERTY_BASE_MASK AND p_flags src) d)"

definition property_copy :: "libc \<Rightarrow> dispatchers \<Rightarrow> blocks \<Rightarrow> property_t \<Rightarrow> (blocks \<times> property_t) option" where
  "property_copy L d m src =
     (case get_property_type d src of
        None \<Rightarrow> Some (m, p_null)
      | Some h \<Rightarrow> do { (m, dst, _) \<leftarrow> handler_copy L h m p_null src; Some (m, dst) })"

definition property_weak_copy :: "dispatchers \<Rightarrow> blocks \<Rightarrow> property_t \<Rightarrow> (blocks \<times> property_t) option" where
  "property_weak_copy d m src =
     (case get_property_type d src of
        None \<Rightarrow> Some (m, p_null)
      | Some h \<Rightarrow> do { (m, dst, _) \<leftarrow> handler_weak h m p_null src; Some (m, dst) })"

text \<open>\<open>property_free\<close> clears the structure in every case.\<close>

definition property_free :: "dispatchers \<Rightarrow> blocks \<Rightarrow> property_t \<Rightarrow> (blocks \<times> property_t) option" where
  "property_free d m dst = do {
     m \<leftarrow> (if has (p_flags dst) is_owner
          then case get_property_type d dst of None \<Rightarrow> Some m | Some h \<Rightarrow> handler_destroy h m dst
          else Some m);
     Some (m, p_null)
   }"

text \<open>The result is \<open>(memory, *dst, *src)\<close>.\<close>

definition property_move ::
    "libc \<Rightarrow> dispatchers \<Rightarrow> blocks \<Rightarrow> property_t \<Rightarrow> property_t \<Rightarrow> (blocks \<times> property_t \<times> property_t) option" where
  "property_move L d m dst src =
     (case get_property_type d src of
        None \<Rightarrow> Some (m, dst, src)
      | Some h \<Rightarrow> do {
          (m, dst, src) \<leftarrow> handler_move L h m dst src;
          (m, src) \<leftarrow> property_free d m src;
          Some (m, dst, src)
        })"

definition property_size :: "blocks \<Rightarrow> property_t \<Rightarrow> nat option" where
  "property_size m src =
     (if p_size src \<noteq> 0 then Some (unat (p_size src))
      else if p_value src \<noteq> None then map_option length (str_at m (p_value src))
      else Some 0)"

definition property_as_null_terminated ::
    "libc \<Rightarrow> dispatchers \<Rightarrow> blocks \<Rightarrow> property_t \<Rightarrow> (blocks \<times> property_t) option" where
  "property_as_null_terminated L d m src =
     (if has (p_flags src) is_raw then
        (case c_malloc L m (unat (p_size src) + 1) of (v, m) \<Rightarrow> do {
           b \<leftarrow> v;
           blk \<leftarrow> m b;
           a \<leftarrow> p_value src;
           bs \<leftarrow> m a;
           xs \<leftarrow> mem_read bs 0 (unat (p_size src));
           blk \<leftarrow> mem_write blk 0 xs;
           blk \<leftarrow> write_at blk (unat (p_size src)) 0;
           Some (m(b \<mapsto> blk), \<lparr>p_value = v, p_flags = is_owner OR PROPERTY_DYNAMIC_TAG, p_size = p_size src\<rparr>)
         })
      else property_weak_copy d m src)"

text \<open>The length of the characters of a property for the concatenation.\<close>

definition concat_size :: "blocks \<Rightarrow> property_t \<Rightarrow> nat option" where
  "concat_size m p =
     (if has (p_flags p) is_raw then Some (unat (p_size p)) else map_option length (str_at m (p_value p)))"

definition dynmc_concat :: "libc \<Rightarrow> blocks \<Rightarrow> property_t \<Rightarrow> property_t \<Rightarrow> (blocks \<times> property_t) option" where
  "dynmc_concat L m dst src =
     (if \<not> has (p_flags dst) is_owner then Some (m, dst)
      else do {
        size_dst \<leftarrow> concat_size m dst;
        size_src \<leftarrow> concat_size m src;
        (v, m) \<leftarrow> c_realloc L m (p_value dst) (size_src + size_dst + 1);
        let dst = dst\<lparr>p_value := v\<rparr>;
        case v of
          None \<Rightarrow> do { m \<leftarrow> dynmc_destroy m dst; Some (m, dst) }
        | Some b \<Rightarrow> do {
            blk \<leftarrow> m b;
            a \<leftarrow> p_value src;
            bs \<leftarrow> m a;
            xs \<leftarrow> mem_read bs 0 size_src;
            blk \<leftarrow> mem_write blk size_dst xs;
            blk \<leftarrow> write_at blk (size_dst + size_src + 1) 0;
            Some (m(b \<mapsto> blk), dst)
          }
      })"

definition property_concat ::
    "libc \<Rightarrow> dispatchers \<Rightarrow> blocks \<Rightarrow> property_t \<Rightarrow> property_t \<Rightarrow> (int \<times> blocks \<times> property_t) option" where
  "property_concat L d m src1 src2 =
     (if p_value src2 = None then Some (-1, m, src1)
      else if p_value src1 = None
      then do { (m, dst) \<leftarrow> property_copy L d m src2; Some (0, m, dst) }
      else do { (m, dst) \<leftarrow> dynmc_concat L m src1 src2; Some (0, m, dst) })"

text \<open>Null pointers may not be compared.\<close>

definition property_cmp :: "blocks \<Rightarrow> property_t \<Rightarrow> property_t \<Rightarrow> int option" where
  "property_cmp m src dst =
     (if has (p_flags src) is_raw
      then if p_size src = p_size dst
           then do {
             a \<leftarrow> p_value src; x \<leftarrow> m a;
             b \<leftarrow> p_value dst; y \<leftarrow> m b;
             r \<leftarrow> strncmp x y (unat (p_size src));
             Some (if r = 0 then 0 else -1)
           }
           else Some (-1)
      else do {
        a \<leftarrow> p_value src; x \<leftarrow> m a;
        b \<leftarrow> p_value dst; y \<leftarrow> m b;
        r \<leftarrow> c_strcmp x y;
        Some (if r = 0 then 0 else -1)
      })"

section \<open>Flags and types\<close>

lemmas tag_defs = is_raw_def is_owner_def PROPERTY_BASE_MASK_def PROPERTY_CONST_TAG_def
  PROPERTY_DYNAMIC_TAG_def PROPERTY_STACK_TAG_def PROPERTY_JSON_TAG_def

lemma owner_flags [simp]:
  "has (is_owner OR PROPERTY_DYNAMIC_TAG) is_owner" "has (PROPERTY_DYNAMIC_TAG OR is_owner) is_owner"
  "has (is_owner OR PROPERTY_JSON_TAG) is_owner" "has (PROPERTY_JSON_TAG OR is_owner) is_owner"
  by (simp_all add: has_def tag_defs)

lemma has_or_owner [simp]: "has (f OR is_owner) is_owner"
  by (simp add: has_def is_owner_def bit.conj_disj_distrib2)

lemma has_clear_owner [simp]: "\<not> has (f AND NOT is_owner) is_owner"
  by (simp add: has_def is_owner_def ac_simps)

lemma raw_or_owner [simp]: "has (f OR is_owner) is_raw = has f is_raw"
  by (simp add: has_def is_owner_def is_raw_def bit.conj_disj_distrib2)

text \<open>The types that \<open>property_types_init\<close> registers, with the JSON type that the JSON module adds.\<close>

definition std_types :: dispatchers where
  "std_types = property_type_add (property_types_init []) (PROPERTY_JSON_TAG, H_json)"

definition tag_of :: "property_t \<Rightarrow> byte" where
  "tag_of p = PROPERTY_BASE_MASK AND p_flags p"

lemma get_std_type:
  "get_property_type std_types p =
     (if tag_of p = PROPERTY_CONST_TAG then Some H_const else if tag_of p = PROPERTY_DYNAMIC_TAG then Some H_dynamic
      else if tag_of p = PROPERTY_STACK_TAG then Some H_stack else if tag_of p = PROPERTY_JSON_TAG then Some H_json
      else None)"
  by (auto simp: get_property_type_def std_types_def property_types_init_def property_type_add_def tag_of_def tag_defs)

lemma tag_of_owner [simp]:
  "tag_of \<lparr>p_value = v, p_flags = is_owner OR PROPERTY_DYNAMIC_TAG, p_size = n\<rparr> = PROPERTY_DYNAMIC_TAG"
  "tag_of \<lparr>p_value = v, p_flags = PROPERTY_DYNAMIC_TAG OR is_owner, p_size = n\<rparr> = PROPERTY_DYNAMIC_TAG"
  "tag_of \<lparr>p_value = v, p_flags = is_owner OR PROPERTY_JSON_TAG, p_size = n\<rparr> = PROPERTY_JSON_TAG"
  by (simp_all add: tag_of_def tag_defs)

lemma property_types_deinit_empty: "property_types_deinit d = []"
  by (induction d rule: property_types_deinit.induct) simp_all

section \<open>Strings in memory\<close>

lemma tags_distinct [simp]:
  "PROPERTY_DYNAMIC_TAG \<noteq> PROPERTY_CONST_TAG" "PROPERTY_STACK_TAG \<noteq> PROPERTY_CONST_TAG"
  "PROPERTY_STACK_TAG \<noteq> PROPERTY_DYNAMIC_TAG" "PROPERTY_JSON_TAG \<noteq> PROPERTY_CONST_TAG"
  "PROPERTY_JSON_TAG \<noteq> PROPERTY_DYNAMIC_TAG" "PROPERTY_JSON_TAG \<noteq> PROPERTY_STACK_TAG"
  by (simp_all add: tag_defs)

lemmas tags_distinct_sym [simp] = tags_distinct [symmetric]

text \<open>An owned, terminated string of one of the three basic types (the JSON type needs an allocator that
  does not fail).\<close>

definition good_prop :: "blocks \<Rightarrow> property_t \<Rightarrow> bytes \<Rightarrow> bool" where
  "good_prop m p s \<longleftrightarrow>
     tag_of p \<in> {PROPERTY_CONST_TAG, PROPERTY_DYNAMIC_TAG, PROPERTY_STACK_TAG} \<and>
     has (p_flags p) is_owner \<and> \<not> has (p_flags p) is_raw \<and> str_at m (p_value p) = Some s"

lemma not_raw_owner:
  "\<not> has (is_owner OR PROPERTY_CONST_TAG) is_raw" "\<not> has (is_owner OR PROPERTY_DYNAMIC_TAG) is_raw"
  "\<not> has (is_owner OR PROPERTY_JSON_TAG) is_raw"
  by (simp_all add: has_def tag_defs)

lemma property_copy_string:
  assumes "libc_ok L" and "good_prop m p s"
  shows "\<exists>m' q. property_copy L std_types m p = Some (m', q) \<and> m \<subseteq>\<^sub>m m' \<and>
    \<not> has (p_flags q) is_raw \<and> (p_value q = None \<or> str_at m' (p_value q) = Some s)"
proof -
  note g = assms(2) [unfolded good_prop_def]
  from g c_strdup_total [OF assms(1), of m "p_value p" s] obtain v m' where
    d: "c_strdup L m (p_value p) = Some (v, m')" "m \<subseteq>\<^sub>m m'" "v = None \<or> str_at m' v = Some s" by blast
  from g consider "tag_of p = PROPERTY_CONST_TAG" | "tag_of p = PROPERTY_DYNAMIC_TAG"
    | "tag_of p = PROPERTY_STACK_TAG" by blast
  then show ?thesis
    by cases (use g d in \<open>simp_all add: property_copy_def get_std_type const_copy_def dynmc_copy_def
        stack_copy_def json_copy_def p_null_def not_raw_owner\<close>)
qed

section \<open>Properties\<close>



text \<open>Moving a property transfers ownership: moving an owned dynamic or JSON property leaves the
  memory untouched, makes the destination the owner of the same object and clears the source, and
  freeing the destination then frees the object exactly once.\<close>

theorem property_move_transfers:
  assumes "tag_of p \<in> {PROPERTY_DYNAMIC_TAG, PROPERTY_JSON_TAG}" and "has (p_flags p) is_owner"
    and "p_value p = Some a" and "a \<in> dom m"
  shows "\<exists>q. property_move L std_types m dst p = Some (m, q, p_null) \<and> p_value q = Some a \<and>
    has (p_flags q) is_owner \<and> p_size q = p_size p \<and>
    property_free std_types m q = Some (m(a := None), p_null)"
proof -
  have t: "tag_of \<lparr>p_value = v, p_flags = PROPERTY_JSON_TAG OR is_owner, p_size = n\<rparr> = PROPERTY_JSON_TAG" for v n
    by (simp add: tag_of_def tag_defs)
  from assms(1) consider "tag_of p = PROPERTY_DYNAMIC_TAG" | "tag_of p = PROPERTY_JSON_TAG" by blast
  then show ?thesis
    using assms(2-4)
    by cases (simp_all add: property_move_def get_std_type dynmc_move_def json_move_def property_free_def
        dynmc_destroy_def json_destroy_def json_delete_string_free c_free_def t domIff)
qed

theorem property_move_transfers_witness:
  "\<exists>q. property_move libc_example std_types [1 \<mapsto> [65, 0]] p_null
      \<lparr>p_value = Some 1, p_flags = is_owner OR PROPERTY_DYNAMIC_TAG, p_size = 1\<rparr> = Some ([1 \<mapsto> [65, 0]], q, p_null) \<and>
    p_value q = Some 1"
  using property_move_transfers [of "\<lparr>p_value = Some 1, p_flags = is_owner OR PROPERTY_DYNAMIC_TAG, p_size = 1\<rparr>"
      1 "[1 \<mapsto> [65, 0]]" libc_example p_null] by auto

text \<open>\<open>dynmc_concat\<close> writes outside its object: whenever it is called on an owned string and the
  reallocation succeeds, its last assignment goes one byte past the end of the new block (and the
  byte behind the characters is left as \<open>realloc\<close> delivered it).\<close>

theorem dynmc_concat_overflow:
  assumes "has (p_flags dst) is_owner" and "\<not> has (p_flags dst) is_raw" and "\<not> has (p_flags src) is_raw"
    and "str_at m (p_value dst) = Some s" and "str_at m (p_value src) = Some t"
    and "fresh L (m(the (p_value dst) := None)) (length t + length s + 1) = Some b"
  shows "dynmc_concat L m dst src = None"
proof -
  from assms(4) obtain a old where a: "p_value dst = Some a" "m a = Some old" "cstr old = Some s"
    by (auto simp: str_at_def c_bind)
  let ?n = "length t + length s + 1"
  obtain blk where blk: "blk = take ?n (old @ replicate ?n (junk L))" by simp
  have len: "length blk \<le> ?n" by (simp add: blk)
  have end_: "Option.bind (mem_write blk (length s) xs) (\<lambda>blk. Option.bind (write_at blk (Suc (length s + length t)) 0) f) = None"
    for xs and f :: "bytes \<Rightarrow> (blocks \<times> property_t) option"
    using len by (cases "mem_write blk (length s) xs") (auto simp: write_at_def dest: mem_write_length)
  have "c_realloc L m (p_value dst) ?n = Some (Some b, m(a := None, b \<mapsto> blk))"
    using a assms(6) by (simp add: c_realloc_def blk)
  with assms(1-5) show ?thesis by (simp add: dynmc_concat_def concat_size_def end_)
qed

theorem dynmc_concat_overflow_witness:
  "dynmc_concat libc_example [1 \<mapsto> [65, 0]] \<lparr>p_value = Some 1, p_flags = 0x82, p_size = 1\<rparr>
     \<lparr>p_value = Some 1, p_flags = 0x82, p_size = 1\<rparr> = None"
  by (rule dynmc_concat_overflow [where s = "[65]" and t = "[65]" and b = 7])
    (simp_all add: has_def is_owner_def is_raw_def str_at_def cstr_def libc_example_def)

text \<open>Comparison of properties: for terminated strings the result is 0 exactly when the
  characters are equal, and -1 otherwise.\<close>

theorem property_cmp_correct:
  assumes "\<not> has (p_flags p) is_raw" and "str_at m (p_value p) = Some s" and "str_at m (p_value q) = Some t"
  shows "property_cmp m p q = Some (if s = t then 0 else -1)"
proof -
  from assms(2,3) obtain a x b y where "p_value p = Some a" "m a = Some x" "cstr x = Some s"
    "p_value q = Some b" "m b = Some y" "cstr y = Some t" by (auto simp: str_at_def c_bind)
  with c_strcmp_eq [of x s y t] assms(1) show ?thesis by (auto simp: property_cmp_def)
qed

theorem property_cmp_correct_witness:
  "property_cmp [1 \<mapsto> [65, 0], 2 \<mapsto> [66, 0]] \<lparr>p_value = Some 1, p_flags = 1, p_size = 1\<rparr>
     \<lparr>p_value = Some 2, p_flags = 1, p_size = 1\<rparr> = Some (if [65] = [66 :: byte] then 0 else -1)"
  by (rule property_cmp_correct) (simp_all add: has_def is_raw_def str_at_def cstr_def)

end
