(* ===== verification/Prop_Map.thy ===== *)
theory Prop_Map
  imports Property Linked_List
begin

text \<open>
  The property map of \<open>src/data/propmap.c\<close> (a list of key and value properties, searched linearly) and
  the query keys of \<open>src/data/find_by.c\<close>. A node is an address; its key and value and its \<open>next\<close> field are
  kept in two maps. What the node allocator answers is the parameter \<open>new_node\<close>. The lemmas use the
  list only through the interpretation \<open>ll\<close> of \<open>node_sequence\<close>.
\<close>

section \<open>The map\<close>

record prop_state =
  ps_blocks :: blocks
  ps_data :: "nat \<rightharpoonup> property_t \<times> property_t"
  ps_next :: "nat lheap"

definition propkeyeq :: "prop_state \<Rightarrow> property_t \<Rightarrow> nat \<Rightarrow> bool option" where
  "propkeyeq st key s = do {
     (k, v) \<leftarrow> ps_data st s;
     r \<leftarrow> property_cmp (ps_blocks st) k key;
     Some (r = 0)
   }"

definition property_map_init :: "prop_state \<Rightarrow> nat \<Rightarrow> (int \<times> prop_state) option" where
  "property_map_init st root =
     (if root \<in> dom (ps_data st) \<and> root \<in> dom (ps_next st)
      then Some (0, st\<lparr>ps_data := (ps_data st)(root \<mapsto> (p_null, p_null)), ps_next := (ps_next st)(root \<mapsto> None)\<rparr>)
      else None)"

definition property_map_add ::
    "libc \<Rightarrow> (prop_state \<Rightarrow> nat option) \<Rightarrow> dispatchers \<Rightarrow> prop_state \<Rightarrow> nat option \<Rightarrow> property_t \<Rightarrow> property_t \<Rightarrow>
      (int \<times> prop_state \<times> nat option) option" where
  "property_map_add L new_node d st root key val =
     (case new_node st of
        None \<Rightarrow> Some (-1, st, root)
      | Some el \<Rightarrow> do {
          (m, k) \<leftarrow> property_copy L d (ps_blocks st) key;
          (m, v) \<leftarrow> property_copy L d m val;
          (root, h) \<leftarrow> arrow_linked_list_add ((ps_next st)(el \<mapsto> None)) root el;
          Some (0, st\<lparr>ps_blocks := m, ps_data := (ps_data st)(el \<mapsto> (k, v)), ps_next := h\<rparr>, root)
        })"

definition property_map_find :: "prop_state \<Rightarrow> nat option \<Rightarrow> property_t \<Rightarrow> nat option option" where
  "property_map_find st root key = linked_list_find_node (ps_next st) (propkeyeq st key) root"

text \<open>The node is freed, its key and value are not.\<close>

definition property_map_delete ::
    "prop_state \<Rightarrow> nat option \<Rightarrow> property_t \<Rightarrow> (int \<times> prop_state \<times> nat option) option" where
  "property_map_delete st root key = do {
     rm \<leftarrow> linked_list_find_node (ps_next st) (propkeyeq st key) root;
     case rm of
       None \<Rightarrow> Some (-1, st, root)
     | Some a \<Rightarrow> do {
         (root, h) \<leftarrow> arrow_linked_list_del (ps_next st) root a;
         Some (0, st\<lparr>ps_data := (ps_data st)(a := None), ps_next := h(a := None)\<rparr>, root)
       }
   }"

definition property_map_assign ::
    "libc \<Rightarrow> dispatchers \<Rightarrow> prop_state \<Rightarrow> nat option \<Rightarrow> property_t \<Rightarrow> property_t \<Rightarrow> (int \<times> prop_state) option" where
  "property_map_assign L d st root key val = do {
     el \<leftarrow> property_map_find st root key;
     case el of
       None \<Rightarrow> Some (-1, st)
     | Some a \<Rightarrow> do {
         (k, _) \<leftarrow> ps_data st a;
         (m, v) \<leftarrow> property_copy L d (ps_blocks st) val;
         Some (0, st\<lparr>ps_blocks := m, ps_data := (ps_data st)(a \<mapsto> (k, v))\<rparr>)
       }
   }"

text \<open>The safe iteration reads the \<open>next\<close> field before the node is freed.\<close>

partial_function (option) clear_loop :: "dispatchers \<Rightarrow> prop_state \<Rightarrow> nat option \<Rightarrow> prop_state option" where
  "clear_loop d st p =
     (case p of
        None \<Rightarrow> Some st
      | Some a \<Rightarrow>
          Option.bind (ps_next st a) (\<lambda>n.
          Option.bind (ps_data st a) (\<lambda>kv.
          Option.bind (property_free d (ps_blocks st) (fst kv)) (\<lambda>r.
          Option.bind (property_free d (fst r) (snd kv)) (\<lambda>r.
            clear_loop d (st\<lparr>ps_blocks := fst r, ps_data := (ps_data st)(a := None), ps_next := (ps_next st)(a := None)\<rparr>) n)))))"

definition property_map_clear :: "dispatchers \<Rightarrow> prop_state \<Rightarrow> nat option \<Rightarrow> (int \<times> prop_state \<times> nat option) option" where
  "property_map_clear d st root =
     (if root = None then Some (-1, st, root)
      else do { st \<leftarrow> clear_loop d st root; Some (0, st, None) })"

section \<open>Query keys\<close>

definition find_by_name :: "string list" where
  "find_by_name = [''userHid'', ''uid'', ''type'', ''gatewayHid'', ''createdBefore'', ''createdAfter'',
     ''updatedBefore'', ''updatedAfter'', ''enabled'', ''_page'', ''_size'', ''createdDateFrom'', ''createdDateTo'',
     ''sortField'', ''sortDirection'', ''statuses'', ''systemNames'', ''fromTimestamp'', ''toTimestamp'',
     ''telemetryNames'', ''osNames'']"

definition FindBy_count :: int where "FindBy_count = 21"

text \<open>The outer option is for undefined behaviour (an index outside the table), the inner one for NULL.\<close>

definition get_find_by_name :: "int \<Rightarrow> string option option" where
  "get_find_by_name num =
     (if num < FindBy_count
      then if num < 0 then None else map_option Some (read_at find_by_name (nat num))
      else Some None)"

definition find_by_validate_key :: "int option \<Rightarrow> int" where
  "find_by_validate_key fb_key = (case fb_key of Some k \<Rightarrow> if k < FindBy_count then 0 else -1 | None \<Rightarrow> -1)"

section \<open>Correctness\<close>

text \<open>A map with the nodes \<open>xs\<close>: a well-formed list whose nodes have comparable keys.\<close>

definition key_of :: "prop_state \<Rightarrow> nat \<Rightarrow> bytes" where
  "key_of st x = the (str_at (ps_blocks st) (p_value (fst (the (ps_data st x)))))"

definition pm_wf :: "prop_state \<Rightarrow> nat option \<Rightarrow> nat list \<Rightarrow> bool" where
  "pm_wf st root xs \<longleftrightarrow> is_list (ps_next st) root xs \<and>
     (\<forall>x \<in> set xs. \<exists>k v s. ps_data st x = Some (k, v) \<and> \<not> has (p_flags k) is_raw \<and>
        str_at (ps_blocks st) (p_value k) = Some s)"

lemma propkeyeq_key:
  assumes "pm_wf st root xs" and "x \<in> set xs" and "str_at (ps_blocks st) (p_value key) = Some s"
  shows "propkeyeq st key x = Some (key_of st x = s)"
proof -
  from assms(1,2) obtain k v t where d: "ps_data st x = Some (k, v)" "\<not> has (p_flags k) is_raw"
    "str_at (ps_blocks st) (p_value k) = Some t" unfolding pm_wf_def by blast
  then obtain a xs' b ys where "p_value k = Some a" "ps_blocks st a = Some xs'" "cstr xs' = Some t"
    "p_value key = Some b" "ps_blocks st b = Some ys" "cstr ys = Some s"
    using assms(3) by (auto simp: str_at_def c_bind)
  with d c_strcmp_eq [of xs' t ys s] show ?thesis
    by (auto simp: propkeyeq_def key_of_def property_cmp_def)
qed

lemma property_map_find_first:
  assumes "pm_wf st root xs" and "str_at (ps_blocks st) (p_value key) = Some s"
  shows "property_map_find st root key = Some (find (\<lambda>x. key_of st x = s) xs)"
  unfolding property_map_find_def
  using assms propkeyeq_key [OF assms(1) _ assms(2)] by (intro ll.lookup_law) (auto simp: pm_wf_def)

section \<open>Properties\<close>


definition pm_example :: prop_state where
  "pm_example = \<lparr>ps_blocks = [1 \<mapsto> [65, 0], 2 \<mapsto> [66, 0]], ps_data = Map.empty, ps_next = Map.empty\<rparr>"


text \<open>Deleting from a property map: deleting a key removes exactly the first node that carries it
  and releases that node; the other entries are still found, and a key that is not present is
  reported without changing anything.\<close>

theorem property_map_delete_correct:
  assumes "pm_wf st root xs" and "str_at (ps_blocks st) (p_value key) = Some s"
  shows "\<exists>rc st' root'. property_map_delete st root key = Some (rc, st', root') \<and>
    (case find (\<lambda>x. key_of st x = s) xs of
       None \<Rightarrow> rc = -1 \<and> st' = st \<and> root' = root
     | Some a \<Rightarrow> rc = 0 \<and> pm_wf st' root' (remove1 a xs) \<and> a \<notin> dom (ps_data st') \<and>
         (\<forall>x \<in> set (remove1 a xs). ps_data st' x = ps_data st x \<and> key_of st' x = key_of st x))"
proof -
  have l: "linked_list_find_node (ps_next st) (propkeyeq st key) root = Some (find (\<lambda>x. key_of st x = s) xs)"
    using property_map_find_first [OF assms] by (simp add: property_map_find_def)
  show ?thesis
  proof (cases "find (\<lambda>x. key_of st x = s) xs")
    case None
    with l show ?thesis by (simp add: property_map_delete_def)
  next
    case (Some a)
    then have a: "a \<in> set xs" by (auto simp: find_Some_iff)
    have il: "is_list (ps_next st) root xs" using assms(1) by (simp add: pm_wf_def)
    obtain root' h where d: "arrow_linked_list_del (ps_next st) root a = Some (root', h)"
      "is_list h root' (remove1 a xs)" using ll.del_law [OF il a] by blast
    have set: "set (remove1 a xs) = set xs - {a}" using ll.repr_distinct [OF il] by simp
    have il': "is_list (h(a := None)) root' (remove1 a xs)" using d(2) set by (simp add: is_list_def)
    let ?st = "st\<lparr>ps_data := (ps_data st)(a := None), ps_next := h(a := None)\<rparr>"
    have "pm_wf ?st root' (remove1 a xs)" using assms(1) il' set by (auto simp: pm_wf_def)
    with l Some d(1) set show ?thesis by (auto simp: property_map_delete_def key_of_def)
  qed
qed

theorem property_map_delete_correct_witness:
  "\<exists>rc st' root'. property_map_delete
      (pm_example\<lparr>ps_data := [5 \<mapsto> (\<lparr>p_value = Some 1, p_flags = 1, p_size = 1\<rparr>, p_null)], ps_next := [5 \<mapsto> None]\<rparr>)
      (Some 5) \<lparr>p_value = Some 1, p_flags = 1, p_size = 1\<rparr> = Some (rc, st', root') \<and> rc = 0"
proof -
  let ?st = "pm_example\<lparr>ps_data := [5 \<mapsto> (\<lparr>p_value = Some 1, p_flags = 1, p_size = 1\<rparr>, p_null)], ps_next := [5 \<mapsto> None]\<rparr>"
  have s: "str_at (ps_blocks ?st) (Some 1) = Some [65]" by (simp add: pm_example_def str_at_def cstr_def)
  then have "pm_wf ?st (Some 5) [5]" by (simp add: pm_wf_def is_list_def has_def is_raw_def)
  moreover have "key_of ?st 5 = [65]" using s by (simp add: key_of_def)
  ultimately show ?thesis
    using property_map_delete_correct [of ?st "Some 5" "[5]" "\<lparr>p_value = Some 1, p_flags = 1, p_size = 1\<rparr>" "[65]"] s
    by auto
qed

text \<open>The query keys: every key of the enumeration has its name; a negative key passes the validation
  and is then read outside the table.\<close>

lemma get_find_by_name_total: "0 \<le> k \<Longrightarrow> k < FindBy_count \<Longrightarrow> get_find_by_name k = Some (Some (find_by_name ! nat k))"
  by (simp add: get_find_by_name_def read_at_def find_by_name_def FindBy_count_def)

lemma negative_find_by_key: "find_by_validate_key (Some (-1)) = 0 \<and> get_find_by_name (-1) = None"
  by (simp add: find_by_validate_key_def get_find_by_name_def FindBy_count_def)

end
