(* ===== verification/Json_Node.thy ===== *)
theory Json_Node
  imports Property
begin

text \<open>
  The node tree of \<open>src/json/json.c\<close>: construction, linking, removal, lookup, deletion and the
  consistency check \<open>json_check\<close> (\<open>STATIC_JSON\<close> off; assertions disabled, as without \<open>__USE_STD__\<close>).

  The state is the memory of nodes and the memory of characters. The members of the union of a node
  are separate fields: the code reads the member that belongs to the tag. The environment holds what
  is not the program's own: the C library's allocators, the registered property types and the
  floating-point operations.
\<close>

unbundle bit_operations_syntax

section \<open>Nodes\<close>

datatype JsonTag = JSON_NULL | JSON_BOOL | JSON_STRING | JSON_NUMBER | JSON_ARRAY | JSON_OBJECT

record 'd JsonNode =
  n_parent :: "nat option"
  n_prev :: "nat option"
  n_next :: "nat option"
  n_key :: property_t
  n_tag :: JsonTag
  n_bool :: bool
  n_string :: "nat option"
  n_number :: 'd
  n_head :: "nat option"
  n_tail :: "nat option"

record 'd jstate =
  nodes :: "nat \<rightharpoonup> 'd JsonNode"
  js_mem :: blocks

text \<open>\<open>modf\<close> gives the integral and the fractional part; a conversion to \<open>int\<close> is undefined when the
  value does not fit; \<open>fp_g16\<close> is the text of \<open>sprintf(buf, "%.16g", num)\<close>.\<close>

record 'd fpu =
  fp_zero :: 'd
  fp_strtod :: "bytes \<Rightarrow> 'd"
  fp_modf :: "'d \<Rightarrow> 'd \<times> 'd"
  fp_is_zero :: "'d \<Rightarrow> bool"
  fp_to_int :: "'d \<Rightarrow> int option"
  fp_mul1000 :: "'d \<Rightarrow> 'd"
  fp_g16 :: "'d \<Rightarrow> bytes"

record 'd json_env =
  e_libc :: libc
  e_node :: "(nat \<rightharpoonup> 'd JsonNode) \<Rightarrow> nat option"
  e_disp :: dispatchers
  e_fpu :: "'d fpu"

definition get_node :: "'d jstate \<Rightarrow> nat option \<Rightarrow> 'd JsonNode option" where
  "get_node st p = do { a \<leftarrow> p; nodes st a }"

definition upd_node :: "'d jstate \<Rightarrow> nat option \<Rightarrow> ('d JsonNode \<Rightarrow> 'd JsonNode) \<Rightarrow> 'd jstate option" where
  "upd_node st p f = do { a \<leftarrow> p; n \<leftarrow> nodes st a; Some (st\<lparr>nodes := (nodes st)(a \<mapsto> f n)\<rparr>) }"

definition calloc_node :: "'d json_env \<Rightarrow> 'd JsonNode" where
  "calloc_node E = \<lparr>n_parent = None, n_prev = None, n_next = None, n_key = p_null, n_tag = JSON_NULL, n_bool = False,
     n_string = None, n_number = fp_zero (e_fpu E), n_head = None, n_tail = None\<rparr>"

definition mknode :: "'d json_env \<Rightarrow> 'd jstate \<Rightarrow> JsonTag \<Rightarrow> nat option \<times> 'd jstate" where
  "mknode E st tag =
     (case e_node E (nodes st) of
        None \<Rightarrow> (None, st)
      | Some a \<Rightarrow> (Some a, st\<lparr>nodes := (nodes st)(a \<mapsto> (calloc_node E)\<lparr>n_tag := tag\<rparr>)\<rparr>))"

definition json_mknull :: "'d json_env \<Rightarrow> 'd jstate \<Rightarrow> nat option \<times> 'd jstate" where
  "json_mknull E st = mknode E st JSON_NULL"

text \<open>\<open>if ( ret ) ret->field = v;\<close>\<close>

definition set_if :: "nat option \<times> 'd jstate \<Rightarrow> ('d JsonNode \<Rightarrow> 'd JsonNode) \<Rightarrow> nat option \<times> 'd jstate" where
  "set_if r f = (case r of (p, st) \<Rightarrow> (p, case upd_node st p f of None \<Rightarrow> st | Some st' \<Rightarrow> st'))"

definition json_mkbool :: "'d json_env \<Rightarrow> 'd jstate \<Rightarrow> bool \<Rightarrow> nat option \<times> 'd jstate" where
  "json_mkbool E st b = set_if (mknode E st JSON_BOOL) (\<lambda>n. n\<lparr>n_bool := b\<rparr>)"

definition mkstring :: "'d json_env \<Rightarrow> 'd jstate \<Rightarrow> nat option \<Rightarrow> nat option \<times> 'd jstate" where
  "mkstring E st s = set_if (mknode E st JSON_STRING) (\<lambda>n. n\<lparr>n_string := s\<rparr>)"

definition json_mkstring :: "'d json_env \<Rightarrow> 'd jstate \<Rightarrow> nat option \<Rightarrow> (nat option \<times> 'd jstate) option" where
  "json_mkstring E st s = do {
     (p, m) \<leftarrow> json_strdup (e_libc E) (js_mem st) s;
     Some (mkstring E (st\<lparr>js_mem := m\<rparr>) p)
   }"

definition json_mknumber :: "'d json_env \<Rightarrow> 'd jstate \<Rightarrow> 'd \<Rightarrow> nat option \<times> 'd jstate" where
  "json_mknumber E st d = set_if (mknode E st JSON_NUMBER) (\<lambda>n. n\<lparr>n_number := d\<rparr>)"

definition json_mkarray :: "'d json_env \<Rightarrow> 'd jstate \<Rightarrow> nat option \<times> 'd jstate" where
  "json_mkarray E st = mknode E st JSON_ARRAY"

definition json_mkobject :: "'d json_env \<Rightarrow> 'd jstate \<Rightarrow> nat option \<times> 'd jstate" where
  "json_mkobject E st = mknode E st JSON_OBJECT"

section \<open>Linking\<close>

definition append_node :: "'d jstate \<Rightarrow> nat option \<Rightarrow> nat option \<Rightarrow> 'd jstate option" where
  "append_node st parent child = do {
     st \<leftarrow> upd_node st child (\<lambda>n. n\<lparr>n_parent := parent\<rparr>);
     p \<leftarrow> get_node st parent;
     st \<leftarrow> upd_node st child (\<lambda>n. n\<lparr>n_prev := n_tail p\<rparr>);
     st \<leftarrow> upd_node st child (\<lambda>n. n\<lparr>n_next := None\<rparr>);
     p \<leftarrow> get_node st parent;
     st \<leftarrow> (if n_tail p \<noteq> None then upd_node st (n_tail p) (\<lambda>n. n\<lparr>n_next := child\<rparr>)
           else upd_node st parent (\<lambda>n. n\<lparr>n_head := child\<rparr>));
     upd_node st parent (\<lambda>n. n\<lparr>n_tail := child\<rparr>)
   }"

definition prepend_node :: "'d jstate \<Rightarrow> nat option \<Rightarrow> nat option \<Rightarrow> 'd jstate option" where
  "prepend_node st parent child = do {
     st \<leftarrow> upd_node st child (\<lambda>n. n\<lparr>n_parent := parent\<rparr>);
     st \<leftarrow> upd_node st child (\<lambda>n. n\<lparr>n_prev := None\<rparr>);
     p \<leftarrow> get_node st parent;
     st \<leftarrow> upd_node st child (\<lambda>n. n\<lparr>n_next := n_head p\<rparr>);
     p \<leftarrow> get_node st parent;
     st \<leftarrow> (if n_head p \<noteq> None then upd_node st (n_head p) (\<lambda>n. n\<lparr>n_prev := child\<rparr>)
           else upd_node st parent (\<lambda>n. n\<lparr>n_tail := child\<rparr>));
     upd_node st parent (\<lambda>n. n\<lparr>n_head := child\<rparr>)
   }"

definition append_member :: "'d json_env \<Rightarrow> 'd jstate \<Rightarrow> nat option \<Rightarrow> property_t \<Rightarrow> nat option \<Rightarrow> 'd jstate option" where
  "append_member E st obj key v = do {
     n \<leftarrow> get_node st v;
     (m, k, _) \<leftarrow> property_move (e_libc E) (e_disp E) (js_mem st) (n_key n) key;
     st \<leftarrow> upd_node (st\<lparr>js_mem := m\<rparr>) v (\<lambda>n. n\<lparr>n_key := k\<rparr>);
     append_node st obj v
   }"

definition json_append_element :: "'d jstate \<Rightarrow> nat option \<Rightarrow> nat option \<Rightarrow> 'd jstate option" where
  "json_append_element st array element = append_node st array element"

definition json_prepend_element :: "'d jstate \<Rightarrow> nat option \<Rightarrow> nat option \<Rightarrow> 'd jstate option" where
  "json_prepend_element st array element = prepend_node st array element"

definition json_append_member :: "'d json_env \<Rightarrow> 'd jstate \<Rightarrow> nat option \<Rightarrow> property_t \<Rightarrow> nat option \<Rightarrow> 'd jstate option" where
  "json_append_member E st obj key v = append_member E st obj key v"

definition json_prepend_member :: "'d json_env \<Rightarrow> 'd jstate \<Rightarrow> nat option \<Rightarrow> property_t \<Rightarrow> nat option \<Rightarrow> 'd jstate option" where
  "json_prepend_member E st obj key v = do {
     (m, k) \<leftarrow> property_copy (e_libc E) (e_disp E) (js_mem st) key;
     st \<leftarrow> upd_node (st\<lparr>js_mem := m\<rparr>) v (\<lambda>n. n\<lparr>n_key := k\<rparr>);
     prepend_node st obj v
   }"

definition json_remove_from_parent :: "'d json_env \<Rightarrow> 'd jstate \<Rightarrow> nat option \<Rightarrow> 'd jstate option" where
  "json_remove_from_parent E st node = do {
     n \<leftarrow> get_node st node;
     let parent = n_parent n;
     if parent = None then Some st
     else do {
       st \<leftarrow> (if n_prev n \<noteq> None then upd_node st (n_prev n) (\<lambda>q. q\<lparr>n_next := n_next n\<rparr>)
             else upd_node st parent (\<lambda>q. q\<lparr>n_head := n_next n\<rparr>));
       n \<leftarrow> get_node st node;
       st \<leftarrow> (if n_next n \<noteq> None then upd_node st (n_next n) (\<lambda>q. q\<lparr>n_prev := n_prev n\<rparr>)
             else upd_node st parent (\<lambda>q. q\<lparr>n_tail := n_prev n\<rparr>));
       n \<leftarrow> get_node st node;
       (m, k) \<leftarrow> property_free (e_disp E) (js_mem st) (n_key n);
       upd_node (st\<lparr>js_mem := m\<rparr>) node (\<lambda>n. n\<lparr>n_key := k, n_parent := None, n_prev := None, n_next := None\<rparr>)
     }
   }"

section \<open>Lookup\<close>

definition json_first_child :: "'d jstate \<Rightarrow> nat option \<Rightarrow> nat option option" where
  "json_first_child st node =
     (if node = None then Some None
      else do { n \<leftarrow> get_node st node; Some (if n_tag n = JSON_ARRAY \<or> n_tag n = JSON_OBJECT then n_head n else None) })"

partial_function (option) find_element_loop :: "'d jstate \<Rightarrow> nat option \<Rightarrow> int \<Rightarrow> int \<Rightarrow> nat option option" where
  "find_element_loop st element i index =
     (if element = None then Some None
      else if i = index then Some element
      else do { n \<leftarrow> get_node st element; find_element_loop st (n_next n) (i + 1) index })"

definition json_find_element :: "'d jstate \<Rightarrow> nat option \<Rightarrow> int \<Rightarrow> nat option option" where
  "json_find_element st array index =
     (if array = None then Some None
      else do {
        n \<leftarrow> get_node st array;
        if n_tag n \<noteq> JSON_ARRAY then Some None
        else do { element \<leftarrow> json_first_child st array; find_element_loop st element 0 index }
      })"

partial_function (option) find_member_loop :: "'d jstate \<Rightarrow> nat option \<Rightarrow> property_t \<Rightarrow> nat option option" where
  "find_member_loop st member name =
     (if member = None then Some None
      else do {
        n \<leftarrow> get_node st member;
        r \<leftarrow> property_cmp (js_mem st) (n_key n) name;
        if r = 0 then Some member else find_member_loop st (n_next n) name
      })"

definition json_find_member :: "'d jstate \<Rightarrow> nat option \<Rightarrow> property_t \<Rightarrow> nat option option" where
  "json_find_member st obj name =
     (if obj = None then Some None
      else do {
        n \<leftarrow> get_node st obj;
        if n_tag n \<noteq> JSON_OBJECT then Some None
        else do { member \<leftarrow> json_first_child st obj; find_member_loop st member name }
      })"

section \<open>Deletion\<close>

text \<open>The recursion of \<open>json_delete\<close> follows the tree; the first argument bounds the number of nested
  calls and loop iterations (theorem \<open>json_delete_owned\<close> below says how much is enough).\<close>

definition free_node :: "'d jstate \<Rightarrow> nat \<Rightarrow> 'd jstate option" where
  "free_node st a = (if a \<in> dom (nodes st) then Some (st\<lparr>nodes := (nodes st)(a := None)\<rparr>) else None)"

fun json_delete :: "nat \<Rightarrow> 'd json_env \<Rightarrow> 'd jstate \<Rightarrow> nat option \<Rightarrow> 'd jstate option"
  and delete_children :: "nat \<Rightarrow> 'd json_env \<Rightarrow> 'd jstate \<Rightarrow> nat option \<Rightarrow> 'd jstate option" where
  "json_delete 0 E st node = None"
| "json_delete (Suc k) E st None = Some st"
| "json_delete (Suc k) E st (Some a) = do {
     st \<leftarrow> json_remove_from_parent E st (Some a);
     n \<leftarrow> get_node st (Some a);
     st \<leftarrow> (case n_tag n of
             JSON_STRING \<Rightarrow> do { m \<leftarrow> json_delete_string (js_mem st) (n_string n); Some (st\<lparr>js_mem := m\<rparr>) }
           | JSON_ARRAY \<Rightarrow> delete_children k E st (n_head n)
           | JSON_OBJECT \<Rightarrow> delete_children k E st (n_head n)
           | _ \<Rightarrow> Some st);
     free_node st a
   }"
| "delete_children 0 E st child = None"
| "delete_children (Suc k) E st None = Some st"
| "delete_children (Suc k) E st (Some c) = do {
     n \<leftarrow> get_node st (Some c);
     st \<leftarrow> json_delete k E st (Some c);
     delete_children k E st (n_next n)
   }"

text \<open>\<open>p_json\<close> measures its argument.\<close>

definition p_json :: "blocks \<Rightarrow> nat option \<Rightarrow> property_t option" where
  "p_json m x = do {
     s \<leftarrow> str_at m x;
     Some \<lparr>p_value = x, p_flags = PROPERTY_JSON_TAG OR is_owner, p_size = word_of_nat (length s)\<rparr>
   }"

definition json_strdup_property :: "libc \<Rightarrow> blocks \<Rightarrow> nat option \<Rightarrow> (property_t \<times> blocks) option" where
  "json_strdup_property L m str = do {
     (tmp, m) \<leftarrow> json_strdup L m str;
     if tmp = None then Some (p_null, m) else do { p \<leftarrow> p_json m tmp; Some (p, m) }
   }"

definition fill_string_from_json ::
    "'d json_env \<Rightarrow> 'd jstate \<Rightarrow> nat option \<Rightarrow> property_t \<Rightarrow> property_t \<Rightarrow> (int \<times> property_t \<times> 'd jstate) option" where
  "fill_string_from_json E st node name p = do {
     tmp \<leftarrow> json_find_member st node name;
     if tmp = None then Some (-1, p, st)
     else do {
       n \<leftarrow> get_node st tmp;
       if n_tag n \<noteq> JSON_STRING then Some (-1, p, st)
       else do {
         (t, m) \<leftarrow> json_strdup_property (e_libc E) (js_mem st) (n_string n);
         (m, p, _) \<leftarrow> property_move (e_libc E) (e_disp E) m p t;
         Some (0, p, st\<lparr>js_mem := m\<rparr>)
       }
     }
   }"

end
