(* ===== verification/Json_Tree.thy ===== *)
theory Json_Tree
  imports Json_Node
begin

text \<open>
  What the node memory represents. A tree of the model is annotated with the addresses at which its
  nodes and characters lie; \<open>jrep\<close> says that the memory holds the tree with all its parent, sibling
  and child pointers, \<open>jabs\<close> which JSON value it stands for, and \<open>owns st T st0\<close> that the state \<open>st\<close> is
  \<open>st0\<close> together with the tree \<open>T\<close> and nothing else. Appending, deleting and looking up are correct
  with respect to these.
\<close>

unbundle bit_operations_syntax

section \<open>Values and trees\<close>

datatype 'd json = Null | Bool bool | Str bytes | Num 'd | Arr "'d json list" | Obj "(bytes \<times> 'd json) list"

datatype 'd leaf = LNull | LBool bool | LStr nat | LNum 'd | LArr | LObj

datatype 'd jt = JT (ja: nat) (jk: property_t) (jl: "'d leaf") (jc: "'d jt list")

fun leaf_tag :: "'d leaf \<Rightarrow> JsonTag" where
  "leaf_tag LNull = JSON_NULL"
| "leaf_tag (LBool b) = JSON_BOOL"
| "leaf_tag (LStr b) = JSON_STRING"
| "leaf_tag (LNum d) = JSON_NUMBER"
| "leaf_tag LArr = JSON_ARRAY"
| "leaf_tag LObj = JSON_OBJECT"

definition is_container :: "'d leaf \<Rightarrow> bool" where
  "is_container l \<longleftrightarrow> l = LArr \<or> l = LObj"

definition firstp :: "'d jt list \<Rightarrow> nat option" where
  "firstp cs = (if cs = [] then None else Some (ja (hd cs)))"

definition lastp :: "'d jt list \<Rightarrow> nat option" where
  "lastp cs = (if cs = [] then None else Some (ja (last cs)))"

definition node_ok ::
    "'d JsonNode \<Rightarrow> nat option \<Rightarrow> nat option \<Rightarrow> nat option \<Rightarrow> property_t \<Rightarrow> 'd leaf \<Rightarrow> 'd jt list \<Rightarrow> bool" where
  "node_ok n par prv nxt k l cs \<longleftrightarrow>
     n_parent n = par \<and> n_prev n = prv \<and> n_next n = nxt \<and> n_key n = k \<and> n_tag n = leaf_tag l \<and>
     (case l of LBool b \<Rightarrow> n_bool n = b | LStr b \<Rightarrow> n_string n = Some b | LNum d \<Rightarrow> n_number n = d
      | LArr \<Rightarrow> n_head n = firstp cs \<and> n_tail n = lastp cs | LObj \<Rightarrow> n_head n = firstp cs \<and> n_tail n = lastp cs
      | LNull \<Rightarrow> True) \<and> (is_container l \<or> cs = [])"

text \<open>The tree at its address, given its parent and its siblings; a row of siblings ends with \<open>nxt\<close>.\<close>

fun jrep :: "'d jstate \<Rightarrow> nat option \<Rightarrow> nat option \<Rightarrow> nat option \<Rightarrow> 'd jt \<Rightarrow> bool"
  and jreps :: "'d jstate \<Rightarrow> nat option \<Rightarrow> nat option \<Rightarrow> 'd jt list \<Rightarrow> nat option \<Rightarrow> bool" where
  "jrep st par prv nxt (JT a k l cs) \<longleftrightarrow>
     (\<exists>n. nodes st a = Some n \<and> node_ok n par prv nxt k l cs) \<and> jreps st (Some a) None cs None"
| "jreps st par prv [] nxt \<longleftrightarrow> True"
| "jreps st par prv (T # Ts) nxt \<longleftrightarrow>
     jrep st par prv (if Ts = [] then nxt else firstp Ts) T \<and> jreps st par (Some (ja T)) Ts nxt"

fun jaddrs :: "'d jt \<Rightarrow> nat list" where
  "jaddrs (JT a k l cs) = a # concat (map jaddrs cs)"

definition key_blocks :: "property_t \<Rightarrow> nat list" where
  "key_blocks k = (case p_value k of None \<Rightarrow> [] | Some b \<Rightarrow> [b])"

fun leaf_blocks :: "'d leaf \<Rightarrow> nat list" where
  "leaf_blocks (LStr b) = [b]"
| "leaf_blocks _ = []"

fun jblocks :: "'d jt \<Rightarrow> nat list" where
  "jblocks (JT a k l cs) = key_blocks k @ leaf_blocks l @ concat (map jblocks cs)"

text \<open>The value of a tree; the key of a node belongs to its parent's value.\<close>

fun jabs :: "blocks \<Rightarrow> 'd jt \<Rightarrow> 'd json \<Rightarrow> bool" where
  "jabs m (JT a k l cs) v \<longleftrightarrow>
     (case l of
        LNull \<Rightarrow> v = Null
      | LBool b \<Rightarrow> v = Bool b
      | LStr b \<Rightarrow> (\<exists>s. str_at m (Some b) = Some s \<and> v = Str s)
      | LNum d \<Rightarrow> v = Num d
      | LArr \<Rightarrow> (\<exists>vs. v = Arr vs \<and> list_all2 (jabs m) cs vs)
      | LObj \<Rightarrow> (\<exists>kvs. v = Obj kvs \<and> list_all2 (\<lambda>T kv. str_at m (p_value (jk T)) = Some (fst kv) \<and> jabs m T (snd kv)) cs kvs))"

text \<open>Keys made by the parser: none, or a string that the node owns.\<close>

definition own_key :: "property_t \<Rightarrow> bool" where
  "own_key k \<longleftrightarrow> k = p_null \<or> p_value k \<noteq> None \<and> p_flags k = PROPERTY_JSON_TAG OR is_owner"

fun own_keys :: "'d jt \<Rightarrow> bool" where
  "own_keys (JT a k l cs) \<longleftrightarrow> own_key k \<and> (\<forall>T \<in> set cs. own_keys T)"

definition without :: "nat list \<Rightarrow> nat list \<Rightarrow> 'd jstate \<Rightarrow> 'd jstate" where
  "without N B st = st\<lparr>nodes := nodes st |` (- set N), js_mem := js_mem st |` (- set B)\<rparr>"

definition owns :: "'d jstate \<Rightarrow> 'd jt \<Rightarrow> 'd jstate \<Rightarrow> bool" where
  "owns st T st0 \<longleftrightarrow>
     jrep st None None None T \<and> distinct (jaddrs T) \<and> distinct (jblocks T) \<and> set (jblocks T) \<subseteq> dom (js_mem st) \<and>
     own_keys T \<and> st0 = without (jaddrs T) (jblocks T) st"

section \<open>Frames\<close>

lemma jrep_nodes: "jrep st par prv nxt T \<Longrightarrow> set (jaddrs T) \<subseteq> dom (nodes st)"
  and jreps_nodes: "jreps st par prv Ts nxt \<Longrightarrow> set (concat (map jaddrs Ts)) \<subseteq> dom (nodes st)"
  by (induction st par prv nxt T and st par prv Ts nxt rule: jrep_jreps.induct) auto

lemma jrep_frame:
    "\<forall>a \<in> set (jaddrs T). nodes st' a = nodes st a \<Longrightarrow> jrep st' par prv nxt T = jrep st par prv nxt T"
  and jreps_frame:
    "\<forall>a \<in> set (concat (map jaddrs Ts)). nodes st' a = nodes st a \<Longrightarrow> jreps st' par prv Ts nxt = jreps st par prv Ts nxt"
  by (induction st par prv nxt T and st par prv Ts nxt rule: jrep_jreps.induct) auto

lemma ja_in [simp]: "ja T \<in> set (jaddrs T)"
  by (cases T) simp

lemma str_at_frame: "m' b = m b \<Longrightarrow> str_at m' (Some b) = str_at m (Some b)"
  by (simp add: str_at_def)

definition val_blocks :: "'d jt \<Rightarrow> nat list" where
  "val_blocks T = leaf_blocks (jl T) @ concat (map jblocks (jc T))"

lemma jblocks_split: "jblocks T = key_blocks (jk T) @ val_blocks T"
  by (cases T) (simp add: val_blocks_def)

text \<open>A value only depends on the characters of the tree (the root's key is not part of it).\<close>

lemma jabs_frame:
  "\<forall>b \<in> set (val_blocks T). m' b = m b \<Longrightarrow> jabs m' T v \<longleftrightarrow> jabs m T v"
proof (induction T arbitrary: v)
  case (JT a k l cs)
  have blk: "m' b = m b" if "T \<in> set cs" "b \<in> set (jblocks T)" for T b
    using JT.prems that by (auto simp: val_blocks_def)
  have sub: "jabs m' T v \<longleftrightarrow> jabs m T v" if "T \<in> set cs" for T v
    using blk [OF that] by (intro JT.IH [OF that]) (simp add: jblocks_split)
  have key: "str_at m' (p_value (jk T)) = str_at m (p_value (jk T))" if "T \<in> set cs" for T
  proof (cases "p_value (jk T)")
    case None
    then show ?thesis by (simp add: str_at_def)
  next
    case (Some b)
    then have "b \<in> set (jblocks T)" by (simp add: jblocks_split key_blocks_def)
    with blk [OF that] have "m' b = m b" by blast
    with Some show ?thesis using str_at_frame [of m' b m] by simp
  qed
  have "list_all2 (jabs m') cs vs \<longleftrightarrow> list_all2 (jabs m) cs vs" for vs
    using sub by (auto simp: list_all2_conv_all_nth)
  moreover have "list_all2 (\<lambda>T kv. str_at m' (p_value (jk T)) = Some (fst kv) \<and> jabs m' T (snd kv)) cs kvs \<longleftrightarrow>
    list_all2 (\<lambda>T kv. str_at m (p_value (jk T)) = Some (fst kv) \<and> jabs m T (snd kv)) cs kvs" for kvs
    using sub key by (auto simp: list_all2_conv_all_nth)
  moreover have "str_at m' (Some b) = str_at m (Some b)" if "l = LStr b" for b
    using JT.prems that by (auto simp: val_blocks_def intro: str_at_frame)
  ultimately show ?case by (auto split: leaf.splits)
qed

lemma jabs_frame': "\<forall>b \<in> set (jblocks T). m' b = m b \<Longrightarrow> jabs m' T v \<longleftrightarrow> jabs m T v"
  by (rule jabs_frame) (simp add: jblocks_split)

section \<open>Linking\<close>

lemma firstp_simps [simp]: "firstp [] = None" "firstp (T # Ts) = Some (ja T)" "firstp (cs @ [T]) = (if cs = [] then Some (ja T) else firstp cs)"
  by (simp_all add: firstp_def)

lemma lastp_simps [simp]: "lastp [] = None" "lastp (cs @ [T]) = Some (ja T)"
  by (simp_all add: lastp_def)

lemma jreps_snoc:
  "jreps st par prv (cs @ [T]) nxt \<longleftrightarrow>
     jreps st par prv cs (Some (ja T)) \<and> jrep st par (if cs = [] then prv else lastp cs) nxt T"
  by (induction cs arbitrary: prv) (auto simp: lastp_def)

text \<open>Changing the links and the key of the root of a tree.\<close>

lemma jrep_relink:
  assumes "jrep st par prv nxt (JT b k l cs)" and "\<forall>x \<in> set (concat (map jaddrs cs)). nodes st' x = nodes st x"
    and "nodes st' b = Some n'" and "node_ok n' par' prv' nxt' k' l cs'" and "cs' = cs"
  shows "jrep st' par' prv' nxt' (JT b k' l cs)"
  using assms jreps_frame [OF assms(2)] by auto

lemma jrep_relink':
  assumes "jrep st par prv nxt T" and "distinct (jaddrs T)" and "nodes st (ja T) = Some n"
    and "\<forall>x \<in> set (jaddrs T) - {ja T}. nodes st' x = nodes st x"
    and "nodes st' (ja T) = Some (n\<lparr>n_parent := par', n_prev := prv', n_next := nxt'\<rparr>)"
  shows "jrep st' par' prv' nxt' T"
proof (cases T)
  case (JT b k l cs)
  with assms(1,3) have "node_ok n par prv nxt k l cs" by auto
  then have "node_ok (n\<lparr>n_parent := par', n_prev := prv', n_next := nxt'\<rparr>) par' prv' nxt' k l cs"
    by (auto simp: node_ok_def split: leaf.splits)
  moreover have "\<forall>x \<in> set (concat (map jaddrs cs)). nodes st' x = nodes st x" using assms(2,4) JT by auto
  moreover have "nodes st' b = Some (n\<lparr>n_parent := par', n_prev := prv', n_next := nxt'\<rparr>)" using assms(5) JT by simp
  ultimately show ?thesis using jrep_relink [OF assms(1) [unfolded JT], where cs' = cs] unfolding JT by blast
qed

lemma jreps_set_next:
  assumes "jreps st par prv cs x" and "cs \<noteq> []" and "distinct (concat (map jaddrs cs))"
    and "nodes st (ja (last cs)) = Some n"
    and "\<forall>a \<in> set (concat (map jaddrs cs)) - {ja (last cs)}. nodes st' a = nodes st a"
    and "nodes st' (ja (last cs)) = Some (n\<lparr>n_next := y\<rparr>)"
  shows "jreps st' par prv cs y"
proof -
  from assms(2) obtain ds U where cs: "cs = ds @ [U]" by (cases cs rule: rev_cases) auto
  let ?p = "if ds = [] then prv else lastp ds"
  from assms(1) cs have 1: "jreps st par prv ds (Some (ja U))" "jrep st par ?p x U" by (simp_all add: jreps_snoc)
  from assms(3) cs have d: "ja U \<notin> set (concat (map jaddrs ds))" "distinct (jaddrs U)" using ja_in [of U] by auto
  have "jreps st' par prv ds (Some (ja U))" using 1(1) assms(5) cs d by (subst jreps_frame [of ds st' st]) auto
  moreover have "n_parent n = par" "n_prev n = ?p" using 1(2) assms(4) cs by (cases U; auto simp: node_ok_def)+
  then have "n\<lparr>n_next := y\<rparr> = n\<lparr>n_parent := par, n_prev := ?p, n_next := y\<rparr>" by simp
  then have "jrep st' par ?p y U" using assms(4-6) cs by (intro jrep_relink' [OF 1(2) d(2)]) auto
  ultimately show ?thesis by (simp add: cs jreps_snoc)
qed

lemma append_node_rep:
  assumes R: "jrep st par prv nxt (JT a k l cs)" and "is_container l" and T: "jrep st par0 prv0 nxt0 T"
    and "distinct (jaddrs (JT a k l cs) @ jaddrs T)"
  shows "\<exists>st'. append_node st (Some a) (Some (ja T)) = Some st' \<and> jrep st' par prv nxt (JT a k l (cs @ [T])) \<and>
    js_mem st' = js_mem st \<and> (\<forall>x. x \<notin> set (jaddrs (JT a k l (cs @ [T]))) \<longrightarrow> nodes st' x = nodes st x)"
proof -
  from R obtain na where na: "nodes st a = Some na" "node_ok na par prv nxt k l cs" and cs: "jreps st (Some a) None cs None" by auto
  from T obtain nb where nb: "nodes st (ja T) = Some nb" by (cases T) auto
  let ?b = "ja T"
  have ab: "a \<noteq> ?b" "?b \<notin> set (concat (map jaddrs cs))" "a \<notin> set (jaddrs T)" "distinct (jaddrs T)"
    "distinct (concat (map jaddrs cs))" "a \<notin> set (concat (map jaddrs cs))" "set (concat (map jaddrs cs)) \<inter> set (jaddrs T) = {}"
    using assms(4) ja_in [of T] by auto
  have tl: "n_tail na = lastp cs" "n_head na = firstp cs" using na(2) assms(2) by (auto simp: node_ok_def is_container_def)
  let ?nb = "nb\<lparr>n_parent := Some a, n_prev := lastp cs, n_next := None\<rparr>"
  show ?thesis
  proof (cases "cs = []")
    case True
    define st' where "st' = st\<lparr>nodes := (nodes st)(?b \<mapsto> ?nb, a \<mapsto> na\<lparr>n_head := Some ?b, n_tail := Some ?b\<rparr>)\<rparr>"
    have "append_node st (Some a) (Some ?b) = Some st'"
      using na(1) nb ab(1) tl True by (simp add: append_node_def upd_node_def get_node_def st'_def fun_upd_twist)
    moreover have "jrep st' (Some a) None None T"
      by (rule jrep_relink' [OF T ab(4) nb]) (use ab True in \<open>auto simp: st'_def\<close>)
    moreover have "node_ok (na\<lparr>n_head := Some ?b, n_tail := Some ?b\<rparr>) par prv nxt k l [T]"
      using na(2) assms(2) True by (auto simp: node_ok_def is_container_def split: leaf.splits simp: lastp_def)
    ultimately show ?thesis using True ab by (auto simp: st'_def)
  next
    case False
    let ?c = "ja (last cs)"
    have c: "?c \<in> set (concat (map jaddrs cs))" using last_in_set [OF False] by (auto intro!: bexI [of _ "last cs"])
    then obtain nc where nc: "nodes st ?c = Some nc" using jreps_nodes [OF cs] by blast
    have ne: "?c \<noteq> a" "?c \<noteq> ?b" "?c \<notin> set (jaddrs T)" using ab c by auto
    define st' where "st' = st\<lparr>nodes := (nodes st)(?b \<mapsto> ?nb, ?c \<mapsto> nc\<lparr>n_next := Some ?b\<rparr>, a \<mapsto> na\<lparr>n_tail := Some ?b\<rparr>)\<rparr>"
    have "append_node st (Some a) (Some ?b) = Some st'"
      using na(1) nb nc ab(1) ne tl False by (simp add: append_node_def upd_node_def get_node_def st'_def lastp_def)
    moreover have "jrep st' (Some a) (lastp cs) None T"
      by (rule jrep_relink' [OF T ab(4) nb]) (use ab ne in \<open>auto simp: st'_def\<close>)
    moreover have "jreps st' (Some a) None cs (Some ?b)"
      by (rule jreps_set_next [OF cs False ab(5) nc]) (use ab ne in \<open>auto simp: st'_def\<close>)
    moreover have "node_ok (na\<lparr>n_tail := Some ?b\<rparr>) par prv nxt k l (cs @ [T])"
      using na(2) assms(2) False by (auto simp: node_ok_def is_container_def split: leaf.splits)
    ultimately show ?thesis using False ab ne c by (auto simp: st'_def jreps_snoc)
  qed
qed

section \<open>Unlinking\<close>

lemma jreps_append:
  "jreps st par prv (ds @ Ts) nxt \<longleftrightarrow>
     jreps st par prv ds (if Ts = [] then nxt else firstp Ts) \<and> jreps st par (if ds = [] then prv else lastp ds) Ts nxt"
proof (induction ds arbitrary: prv)
  case (Cons T ds)
  then show ?case by (cases ds; cases Ts) (auto simp: lastp_def)
qed simp

lemma jreps_set_prev:
  assumes "jreps st par p Ts nxt" and "Ts \<noteq> []" and "distinct (concat (map jaddrs Ts))"
    and "nodes st (ja (hd Ts)) = Some n"
    and "\<forall>a \<in> set (concat (map jaddrs Ts)) - {ja (hd Ts)}. nodes st' a = nodes st a"
    and "nodes st' (ja (hd Ts)) = Some (n\<lparr>n_prev := q\<rparr>)"
  shows "jreps st' par q Ts nxt"
proof -
  from assms(2) obtain U Us where Ts: "Ts = U # Us" by (cases Ts) auto
  let ?n = "if Us = [] then nxt else firstp Us"
  from assms(1) Ts have 1: "jrep st par p ?n U" "jreps st par (Some (ja U)) Us nxt" by simp_all
  from assms(3) Ts have "set (jaddrs U) \<inter> set (concat (map jaddrs Us)) = {}" by simp
  then have d: "ja U \<notin> set (concat (map jaddrs Us))" "distinct (jaddrs U)" using ja_in [of U] assms(3) Ts by (blast, simp)
  have "jreps st' par (Some (ja U)) Us nxt" using 1(2) assms(5) Ts d by (subst jreps_frame [of Us st' st]) auto
  moreover have "n_parent n = par" "n_next n = ?n" using 1(1) assms(4) Ts by (cases U; auto simp: node_ok_def)+
  then have "n\<lparr>n_prev := q\<rparr> = n\<lparr>n_parent := par, n_prev := q, n_next := ?n\<rparr>" by simp
  then have "jrep st' par q ?n U" using assms(4-6) Ts by (intro jrep_relink' [OF 1(1) d(2)]) auto
  ultimately show ?thesis by (simp add: Ts)
qed

lemma restrict_UNIV [simp]: "m |` UNIV = m"
  by (simp add: restrict_map_def)

lemma property_free_own_key:
  assumes "own_key k" and "set (key_blocks k) \<subseteq> dom m"
  shows "property_free std_types m k = Some (m |` (- set (key_blocks k)), p_null)"
proof (cases "k = p_null")
  case True
  have "\<not> has 0 is_owner" by (simp add: has_def)
  with True show ?thesis by (simp add: property_free_def key_blocks_def p_null_def)
next
  case False
  with assms(1) obtain b where b: "p_value k = Some b" "p_flags k = PROPERTY_JSON_TAG OR is_owner" by (auto simp: own_key_def)
  then have "tag_of k = PROPERTY_JSON_TAG" by (simp add: tag_of_def tag_defs)
  moreover have "m |` (- {b}) = m(b := None)" by (auto simp: restrict_map_def fun_eq_iff)
  ultimately show ?thesis using b assms(2)
    by (simp add: property_free_def get_std_type json_destroy_def json_delete_string_free c_free_def key_blocks_def)
qed

text \<open>The node that is removed, with the key freed and without links.\<close>

definition detach :: "'d jt \<Rightarrow> 'd jt" where
  "detach T = JT (ja T) p_null (jl T) (jc T)"

lemma jaddrs_detach [simp]: "jaddrs (detach T) = jaddrs T" "ja (detach T) = ja T" "val_blocks (detach T) = val_blocks T"
  by (cases T; simp add: detach_def val_blocks_def)+

lemma jrep_detach:
  assumes "jrep st par prv nxt T" and "distinct (jaddrs T)" and "nodes st (ja T) = Some n"
    and "\<forall>x \<in> set (jaddrs T) - {ja T}. nodes st' x = nodes st x"
    and "nodes st' (ja T) = Some (n\<lparr>n_key := p_null, n_parent := None, n_prev := None, n_next := None\<rparr>)"
  shows "jrep st' None None None (detach T)"
proof (cases T)
  case (JT b k l cs)
  with assms(1,3) have "node_ok n par prv nxt k l cs" by auto
  then have "node_ok (n\<lparr>n_key := p_null, n_parent := None, n_prev := None, n_next := None\<rparr>) None None None p_null l cs"
    by (auto simp: node_ok_def split: leaf.splits)
  moreover have "\<forall>x \<in> set (concat (map jaddrs cs)). nodes st' x = nodes st x" using assms(2,4) JT by auto
  moreover have "nodes st' b = Some (n\<lparr>n_key := p_null, n_parent := None, n_prev := None, n_next := None\<rparr>)" using assms(5) JT by simp
  ultimately show ?thesis
    using jrep_relink [OF assms(1) [unfolded JT], where cs' = cs] unfolding JT detach_def jt.sel by blast
qed

lemma json_remove_detached:
  assumes "jrep st None None None T"
  shows "json_remove_from_parent E st (Some (ja T)) = Some st"
  using assms by (cases T) (auto simp: json_remove_from_parent_def get_node_def node_ok_def)

lemma remove_from_parent_rep:
  assumes R: "jrep st par prv nxt (JT a k l (ds @ T # Ts))" and "is_container l" and E: "e_disp E = std_types"
    and "distinct (jaddrs (JT a k l (ds @ T # Ts)))" and K: "own_key (jk T)" "set (key_blocks (jk T)) \<subseteq> dom (js_mem st)"
  shows "\<exists>st'. json_remove_from_parent E st (Some (ja T)) = Some st' \<and> jrep st' None None None (detach T) \<and>
    jrep st' par prv nxt (JT a k l (ds @ Ts)) \<and> js_mem st' = js_mem st |` (- set (key_blocks (jk T))) \<and>
    (\<forall>x. x \<notin> set (jaddrs (JT a k l (ds @ T # Ts))) \<longrightarrow> nodes st' x = nodes st x)"
proof -
  let ?b = "ja T"
  from R obtain na where na: "nodes st a = Some na" "node_ok na par prv nxt k l (ds @ T # Ts)"
    and cs: "jreps st (Some a) None (ds @ T # Ts) None" by auto
  let ?p = "lastp ds" let ?n = "firstp Ts"
  from cs have D: "jreps st (Some a) None ds (Some ?b)" and T: "jrep st (Some a) ?p ?n T" and S: "jreps st (Some a) (Some ?b) Ts None"
    by (auto simp: jreps_append lastp_def split: if_splits)
  obtain nb where nb: "nodes st ?b = Some nb" "n_parent nb = Some a" "n_prev nb = ?p" "n_next nb = ?n" "n_key nb = jk T"
    using T by (cases T) (auto simp: node_ok_def)
  have dis: "set (jaddrs T) \<inter> set (concat (map jaddrs ds)) = {}" "set (jaddrs T) \<inter> set (concat (map jaddrs Ts)) = {}"
    "set (concat (map jaddrs ds)) \<inter> set (concat (map jaddrs Ts)) = {}" "a \<notin> set (jaddrs T)"
    "a \<notin> set (concat (map jaddrs ds))" "a \<notin> set (concat (map jaddrs Ts))"
    "distinct (jaddrs T)" "distinct (concat (map jaddrs ds))" "distinct (concat (map jaddrs Ts))"
    using assms(4) by auto
  have b: "?b \<noteq> a" "?b \<notin> set (concat (map jaddrs ds))" "?b \<notin> set (concat (map jaddrs Ts))" using dis ja_in [of T] by blast+
  have hd: "ds \<noteq> [] \<Longrightarrow> ja (last ds) \<in> set (concat (map jaddrs ds))" "Ts \<noteq> [] \<Longrightarrow> ja (hd Ts) \<in> set (concat (map jaddrs Ts))"
    using last_in_set [of ds] hd_in_set [of Ts] by (simp; blast intro: ja_in)+
  have l: "n_head na = firstp (ds @ T # Ts)" "n_tail na = lastp (ds @ T # Ts)"
    using na(2) assms(2) by (auto simp: node_ok_def is_container_def)
  let ?nb = "nb\<lparr>n_key := p_null, n_parent := None, n_prev := None, n_next := None\<rparr>"
  let ?m = "js_mem st |` (- set (key_blocks (jk T)))"
  define na' where "na' = (let n1 = if ds = [] then na\<lparr>n_head := ?n\<rparr> else na in if Ts = [] then n1\<lparr>n_tail := ?p\<rparr> else n1)"
  obtain vl where nl: "ds \<noteq> [] \<Longrightarrow> nodes st (ja (last ds)) = Some vl" using hd(1) jreps_nodes [OF D] by blast
  obtain vh where nh: "Ts \<noteq> [] \<Longrightarrow> nodes st (ja (hd Ts)) = Some vh" using hd(2) jreps_nodes [OF S] by blast
  define N1 where "N1 = (if ds = [] then nodes st else (nodes st)(ja (last ds) \<mapsto> vl\<lparr>n_next := ?n\<rparr>))"
  define N2 where "N2 = (if Ts = [] then N1 else N1(ja (hd Ts) \<mapsto> vh\<lparr>n_prev := ?p\<rparr>))"
  define st' where "st' = \<lparr>nodes = N2(a \<mapsto> na', ?b \<mapsto> ?nb), js_mem = ?m\<rparr>"
  have ne: "ds \<noteq> [] \<Longrightarrow> ja (last ds) \<noteq> a \<and> ja (last ds) \<noteq> ?b" "Ts \<noteq> [] \<Longrightarrow> ja (hd Ts) \<noteq> a \<and> ja (hd Ts) \<noteq> ?b"
    "ds \<noteq> [] \<Longrightarrow> Ts \<noteq> [] \<Longrightarrow> ja (last ds) \<noteq> ja (hd Ts)"
    using hd(1) dis(5) b(2) apply metis
    using hd(2) dis(6) b(3) apply metis
    using hd dis(3) by (metis IntI emptyE)
  have pf: "property_free (e_disp E) (js_mem st) (jk T) = Some (?m, p_null)" using property_free_own_key [OF K] E by simp
  have "json_remove_from_parent E st (Some ?b) = Some st'"
  proof (cases "ds = []")
    case ds: True
    show ?thesis
    proof (cases "Ts = []")
      case True
      show ?thesis using nb na(1) b(1) pf unfolding st'_def N1_def N2_def na'_def
        by (simp add: ds True json_remove_from_parent_def get_node_def upd_node_def)
    next
      case False
      note h = nh [OF False] ne(2) [OF False, THEN conjunct1] ne(2) [OF False, THEN conjunct2]
      show ?thesis using nb na(1) b(1) pf h unfolding st'_def N1_def N2_def na'_def
        by (simp add: ds False json_remove_from_parent_def get_node_def upd_node_def firstp_def fun_upd_twist [OF h(2)])
    qed
  next
    case ds: False
    note g = nl [OF ds] ne(1) [OF ds, THEN conjunct1] ne(1) [OF ds, THEN conjunct2]
    show ?thesis
    proof (cases "Ts = []")
      case True
      show ?thesis using nb na(1) b(1) pf g unfolding st'_def N1_def N2_def na'_def
        by (simp add: ds True json_remove_from_parent_def get_node_def upd_node_def lastp_def)
    next
      case False
      note h = nh [OF False] ne(2) [OF False, THEN conjunct1] ne(2) [OF False, THEN conjunct2] ne(3) [OF ds False]
      have "N2(a \<mapsto> na) = N2" using g h na(1) ds False by (simp add: fun_eq_iff N2_def N1_def)
      then show ?thesis using nb na(1) b(1) pf g h unfolding st'_def N1_def N2_def na'_def
        by (simp add: ds False json_remove_from_parent_def get_node_def upd_node_def firstp_def lastp_def)
    qed
  qed
  moreover have "jrep st' None None None (detach T)"
    by (rule jrep_detach [OF T dis(7) nb(1)]) (use dis hd in \<open>auto simp: st'_def N1_def N2_def\<close>)
  moreover have "jreps st' (Some a) None ds (if Ts = [] then None else ?n)"
  proof (cases "ds = []")
    case False
    show ?thesis
      by (rule jreps_set_next [OF D False dis(8) nl [OF False]])
        (use False dis hd ne b in \<open>auto simp: st'_def N1_def N2_def\<close>)
  qed simp
  moreover have "jreps st' (Some a) ?p Ts None"
  proof (cases "Ts = []")
    case False
    show ?thesis
      by (rule jreps_set_prev [OF S False dis(9) nh [OF False]])
        (use False dis hd ne b in \<open>auto simp: st'_def N1_def N2_def\<close>)
  qed simp
  moreover have "node_ok na' par prv nxt k l (ds @ Ts)"
    using na(2) assms(2) unfolding na'_def
    by (cases "ds = []"; cases "Ts = []") (auto simp: node_ok_def is_container_def firstp_def lastp_def split: leaf.splits)
  ultimately show ?thesis using b hd by (auto simp: st'_def N1_def N2_def jreps_append lastp_def)
qed

section \<open>Deletion\<close>

lemma jaddrs_ne [simp]: "0 < length (jaddrs T)"
  by (cases T) simp

lemma json_delete_detached:
  assumes "json_remove_from_parent E st (Some b) = Some st1" and "json_remove_from_parent E st1 (Some b) = Some st1"
  shows "json_delete k E st (Some b) = json_delete k E st1 (Some b)"
  by (cases k) (simp_all add: assms)

text \<open>What the deletion of a detached tree does: the nodes and the characters of the tree disappear.\<close>

definition deletes :: "'d json_env \<Rightarrow> 'd jt \<Rightarrow> bool" where
  "deletes E T \<longleftrightarrow>
     (\<forall>k st. 2 * length (jaddrs T) \<le> k \<longrightarrow> jrep st None None None T \<longrightarrow> distinct (jaddrs T) \<longrightarrow>
        distinct (val_blocks T) \<longrightarrow> set (val_blocks T) \<subseteq> dom (js_mem st) \<longrightarrow> (\<forall>U \<in> set (jc T). own_keys U) \<longrightarrow>
        json_delete k E st (Some (ja T)) = Some (without (jaddrs T) (val_blocks T) st))"

lemma deletesD:
  assumes "deletes E (detach T)" and "2 * length (jaddrs T) \<le> k" and "jrep st None None None (detach T)"
    and "distinct (jaddrs T)" and "distinct (val_blocks T)" and "set (val_blocks T) \<subseteq> dom (js_mem st)"
    and "\<forall>U \<in> set (jc T). own_keys U"
  shows "json_delete k E st (Some (ja T)) = Some (without (jaddrs T) (val_blocks T) st)"
proof -
  have "jc (detach T) = jc T" by (simp add: detach_def)
  with assms show ?thesis unfolding deletes_def jaddrs_detach by simp
qed

lemma delete_children_rep:
  assumes "\<forall>T \<in> set Ts. deletes E (detach T)" and "e_disp E = std_types" and "is_container l"
  shows "1 + 2 * length (concat (map jaddrs Ts)) \<le> f \<Longrightarrow> jrep st par prv nxt (JT a k l Ts) \<Longrightarrow>
    distinct (jaddrs (JT a k l Ts)) \<Longrightarrow> distinct (concat (map jblocks Ts)) \<Longrightarrow>
    set (concat (map jblocks Ts)) \<subseteq> dom (js_mem st) \<Longrightarrow> \<forall>T \<in> set Ts. own_keys T \<Longrightarrow>
    \<exists>st'. delete_children f E st (firstp Ts) = Some st' \<and> a \<in> dom (nodes st') \<and>
      js_mem st' = js_mem st |` (- set (concat (map jblocks Ts))) \<and>
      (\<forall>x. x \<noteq> a \<longrightarrow> nodes st' x = (nodes st |` (- set (concat (map jaddrs Ts)))) x)"
  using assms(1)
proof (induction Ts arbitrary: f st)
  case Nil
  from Nil.prems(1) obtain f' where "f = Suc f'" by (cases f) auto
  with Nil show ?case by auto
next
  case (Cons T Ts)
  from Cons.prems(1) obtain f' where f: "f = Suc f'" by (cases f) auto
  have keyT: "own_key (jk T)" "set (key_blocks (jk T)) \<subseteq> dom (js_mem st)" "\<forall>U \<in> set (jc T). own_keys U"
    using Cons.prems(5,6) by (cases T; simp add: jblocks_split; fail)+
  obtain st1 where 1: "json_remove_from_parent E st (Some (ja T)) = Some st1" "jrep st1 None None None (detach T)"
      "jrep st1 par prv nxt (JT a k l Ts)" "js_mem st1 = js_mem st |` (- set (key_blocks (jk T)))"
      "\<forall>x. x \<notin> set (jaddrs (JT a k l (T # Ts))) \<longrightarrow> nodes st1 x = nodes st x"
    using remove_from_parent_rep [of st par prv nxt a k l "[]" T Ts E] Cons.prems(2,3) keyT assms(2,3) by auto
  have d: "distinct (val_blocks T)" "set (key_blocks (jk T)) \<inter> set (val_blocks T) = {}" "distinct (jaddrs T)"
      "set (jaddrs T) \<inter> set (jaddrs (JT a k l Ts)) = {}" "set (jblocks T) \<inter> set (concat (map jblocks Ts)) = {}"
    using Cons.prems(3,4) by (auto simp: jblocks_split)
  define st2 where "st2 = without (jaddrs T) (val_blocks T) st1"
  have "json_delete f' E st1 (Some (ja T)) = Some st2"
  proof -
    have "set (val_blocks T) \<subseteq> dom (js_mem st1)" using Cons.prems(5) d(2) by (auto simp: 1(4) jblocks_split)
    moreover have "2 * length (jaddrs T) \<le> f'" using Cons.prems(1) f by simp
    ultimately show ?thesis
      using Cons.prems(7) 1(2) d(1,3) keyT(3) unfolding st2_def by (intro deletesD) auto
  qed
  then have 2: "json_delete f' E st (Some (ja T)) = Some st2"
    using json_delete_detached [OF 1(1), of f'] json_remove_detached [OF 1(2), of E] by simp
  have 3: "jrep st2 par prv nxt (JT a k l Ts)"
    using 1(3) d(4) by (subst jrep_frame [of _ st2 st1]) (auto simp: st2_def without_def restrict_map_def)
  have m2: "js_mem st2 = js_mem st |` (- set (jblocks T))"
    by (auto simp: st2_def without_def 1(4) jblocks_split)
  have "1 + 2 * (length (jaddrs T) + length (concat (map jaddrs Ts))) \<le> Suc f'" using Cons.prems(1) f by simp
  moreover obtain A where "length (jaddrs T) = Suc A" by (cases T) auto
  ultimately have "1 + 2 * length (concat (map jaddrs Ts)) \<le> f'" by simp
  moreover have "set (concat (map jblocks Ts)) \<subseteq> dom (js_mem st2)" using Cons.prems(5) d(5) by (auto simp: m2)
  ultimately obtain st' where 4: "delete_children f' E st2 (firstp Ts) = Some st'" "a \<in> dom (nodes st')"
      "js_mem st' = js_mem st2 |` (- set (concat (map jblocks Ts)))"
      "\<forall>x. x \<noteq> a \<longrightarrow> nodes st' x = (nodes st2 |` (- set (concat (map jaddrs Ts)))) x"
    using Cons.IH [OF _ 3, of f'] Cons.prems(3,4,6,7) by auto
  have "\<exists>n. get_node st (Some (ja T)) = Some n \<and> n_next n = firstp Ts"
    using Cons.prems(2) by (cases T) (auto simp: get_node_def node_ok_def firstp_def)
  then have "delete_children f E st (firstp (T # Ts)) = Some st'" using f 2 4(1) by auto
  moreover have "js_mem st' = js_mem st |` (- set (concat (map jblocks (T # Ts))))"
    by (simp add: 4(3) m2 Int_commute)
  moreover have "nodes st' x = (nodes st |` (- set (concat (map jaddrs (T # Ts))))) x" if "x \<noteq> a" for x
    using 4(4) that 1(5) by (auto simp: st2_def without_def restrict_map_def)
  ultimately show ?case using 4(2) by blast
qed

lemma json_delete_tree:
  assumes "e_disp E = std_types"
  shows "deletes E (JT (ja T) k (jl T) (jc T))"
proof (induction T arbitrary: k)
  case (JT a k0 l cs)
  show ?case unfolding deletes_def jt.sel
  proof (intro allI impI)
    fix f st
    assume f: "2 * length (jaddrs (JT a k l cs)) \<le> f" and R: "jrep st None None None (JT a k l cs)"
      and d: "distinct (jaddrs (JT a k l cs))" "distinct (val_blocks (JT a k l cs))"
      and B: "set (val_blocks (JT a k l cs)) \<subseteq> dom (js_mem st)" and K: "\<forall>U \<in> set cs. own_keys U"
    from f obtain g where g: "f = Suc g" "1 + 2 * length (concat (map jaddrs cs)) \<le> g" by (cases f) auto
    from R obtain n where n: "nodes st a = Some n" "node_ok n None None None k l cs" by auto
    have rm: "json_remove_from_parent E st (Some a) = Some st" using json_remove_detached [OF R] by simp
    have sub: "\<forall>T \<in> set cs. deletes E (detach T)"
      using JT.IH by (simp add: detach_def)
    show "json_delete f E st (Some a) = Some (without (jaddrs (JT a k l cs)) (val_blocks (JT a k l cs)) st)"
    proof (cases "is_container l")
      case True
      then obtain st' where c: "delete_children g E st (firstp cs) = Some st'" "a \<in> dom (nodes st')"
          "js_mem st' = js_mem st |` (- set (concat (map jblocks cs)))"
          "\<forall>x. x \<noteq> a \<longrightarrow> nodes st' x = (nodes st |` (- set (concat (map jaddrs cs)))) x"
        using delete_children_rep [OF sub assms True g(2) R d(1)] d(2) B K by (auto simp: val_blocks_def)
      have "st'\<lparr>nodes := (nodes st')(a := None)\<rparr> = without (jaddrs (JT a k l cs)) (val_blocks (JT a k l cs)) st"
        using c(3,4) True
        by (auto simp: without_def val_blocks_def is_container_def restrict_map_def fun_eq_iff)
      with True n c(1,2) rm show ?thesis
        by (auto simp: g(1) get_node_def free_node_def node_ok_def is_container_def)
    next
      case False
      then have "cs = []" using n(2) by (simp add: node_ok_def)
      with False n rm B show ?thesis
        by (cases l) (auto simp: g(1) get_node_def free_node_def node_ok_def is_container_def without_def val_blocks_def
            json_delete_string_free c_free_def restrict_map_def fun_eq_iff)
    qed
  qed
qed

text \<open>Deleting a tree gives back exactly what it owns: the result is the state without the tree.\<close>

lemma json_delete_owned:
  assumes "owns st T st0" and "e_disp E = std_types" and "jk T = p_null" and "2 * length (jaddrs T) \<le> k"
  shows "json_delete k E st (Some (ja T)) = Some st0"
proof -
  have "JT (ja T) p_null (jl T) (jc T) = T" using assms(3) by (cases T) simp
  with json_delete_tree [OF assms(2), of T p_null] have "deletes E T" by simp
  moreover have b: "jblocks T = val_blocks T" using assms(3) by (simp add: jblocks_split key_blocks_def p_null_def)
  moreover have "\<forall>U \<in> set (jc T). own_keys U" using assms(1) by (cases T) (auto simp: owns_def)
  ultimately show ?thesis using assms(1,4) unfolding deletes_def owns_def by auto
qed

section \<open>Construction\<close>

text \<open>What the code relies on: allocators that hand out unused addresses and do not fail, and the
  registered property types.\<close>

definition env_ok :: "'d json_env \<Rightarrow> bool" where
  "env_ok E \<longleftrightarrow> libc_total (e_libc E) \<and> e_disp E = std_types \<and>
     (\<forall>N a. e_node E N = Some a \<longrightarrow> a \<notin> dom N) \<and> (\<forall>N. finite (dom N) \<longrightarrow> e_node E N \<noteq> None)"

definition st_fin :: "'d jstate \<Rightarrow> bool" where
  "st_fin st \<longleftrightarrow> finite (dom (nodes st)) \<and> finite (dom (js_mem st))"

lemma env_nodeE:
  assumes "env_ok E" and "st_fin st"
  obtains a where "e_node E (nodes st) = Some a" and "a \<notin> dom (nodes st)"
proof -
  from assms have "e_node E (nodes st) \<noteq> None" unfolding env_ok_def st_fin_def by blast
  then obtain a where "e_node E (nodes st) = Some a" by blast
  moreover from this assms(1) have "a \<notin> dom (nodes st)" unfolding env_ok_def by blast
  ultimately show thesis by (rule that)
qed

lemma restrict_new: "a \<notin> dom N \<Longrightarrow> N |` (- {a}) = N"
  by (auto simp: restrict_map_def fun_eq_iff domIff)

lemma own_key_null [simp]: "own_key p_null" "key_blocks p_null = []"
  by (simp_all add: own_key_def key_blocks_def p_null_def)

lemma node_ok_new: "is_container l \<Longrightarrow> node_ok ((calloc_node E)\<lparr>n_tag := leaf_tag l\<rparr>) None None None p_null l []"
  by (auto simp: node_ok_def calloc_node_def is_container_def)

lemma owns_new:
  assumes "a \<notin> dom (nodes st)" and "node_ok n None None None p_null l []" and "leaf_blocks l = []"
  shows "owns (st\<lparr>nodes := (nodes st)(a \<mapsto> n)\<rparr>) (JT a p_null l []) st"
  using assms by (simp add: owns_def without_def restrict_new)

lemma json_mk_owns:
  assumes "env_ok E" and "st_fin st"
  shows "\<exists>a st'. json_mknull E st = (Some a, st') \<and> owns st' (JT a p_null LNull []) st \<and> js_mem st' = js_mem st"
    and "\<exists>a st'. json_mkbool E st b = (Some a, st') \<and> owns st' (JT a p_null (LBool b) []) st \<and> js_mem st' = js_mem st"
    and "\<exists>a st'. json_mknumber E st d = (Some a, st') \<and> owns st' (JT a p_null (LNum d) []) st \<and> js_mem st' = js_mem st"
    and "\<exists>a st'. json_mkarray E st = (Some a, st') \<and> owns st' (JT a p_null LArr []) st \<and> js_mem st' = js_mem st"
    and "\<exists>a st'. json_mkobject E st = (Some a, st') \<and> owns st' (JT a p_null LObj []) st \<and> js_mem st' = js_mem st"
proof -
  obtain a where a: "e_node E (nodes st) = Some a" "a \<notin> dom (nodes st)" using env_nodeE [OF assms] .
  have new: "mknode E st t = (Some a, st\<lparr>nodes := (nodes st)(a \<mapsto> (calloc_node E)\<lparr>n_tag := t\<rparr>)\<rparr>)" for t
    using a by (simp add: mknode_def)
  note o = owns_new [OF a(2)]
  show "\<exists>a st'. json_mknull E st = (Some a, st') \<and> owns st' (JT a p_null LNull []) st \<and> js_mem st' = js_mem st"
    by (auto simp: json_mknull_def new intro!: o) (simp_all add: node_ok_def calloc_node_def)
  show "\<exists>a st'. json_mkbool E st b = (Some a, st') \<and> owns st' (JT a p_null (LBool b) []) st \<and> js_mem st' = js_mem st"
    by (auto simp: json_mkbool_def set_if_def upd_node_def new intro!: o) (simp_all add: node_ok_def calloc_node_def)
  show "\<exists>a st'. json_mknumber E st d = (Some a, st') \<and> owns st' (JT a p_null (LNum d) []) st \<and> js_mem st' = js_mem st"
    by (auto simp: json_mknumber_def set_if_def upd_node_def new intro!: o) (simp_all add: node_ok_def calloc_node_def)
  show "\<exists>a st'. json_mkarray E st = (Some a, st') \<and> owns st' (JT a p_null LArr []) st \<and> js_mem st' = js_mem st"
    by (auto simp: json_mkarray_def new intro!: o) (simp_all add: node_ok_def calloc_node_def is_container_def)
  show "\<exists>a st'. json_mkobject E st = (Some a, st') \<and> owns st' (JT a p_null LObj []) st \<and> js_mem st' = js_mem st"
    by (auto simp: json_mkobject_def new intro!: o) (simp_all add: node_ok_def calloc_node_def is_container_def)
qed

lemma mkstring_owns:
  assumes "env_ok E" and "st_fin st" and "b \<notin> dom (js_mem st)"
  shows "\<exists>a st'. mkstring E (st\<lparr>js_mem := (js_mem st)(b \<mapsto> blk)\<rparr>) (Some b) = (Some a, st') \<and>
    owns st' (JT a p_null (LStr b) []) st \<and> js_mem st' = (js_mem st)(b \<mapsto> blk)"
proof -
  obtain a where a: "e_node E (nodes st) = Some a" "a \<notin> dom (nodes st)" using env_nodeE [OF assms(1,2)] .
  let ?n = "(calloc_node E)\<lparr>n_tag := JSON_STRING, n_string := Some b\<rparr>"
  let ?st = "st\<lparr>js_mem := (js_mem st)(b \<mapsto> blk), nodes := (nodes st)(a \<mapsto> ?n)\<rparr>"
  have "mkstring E (st\<lparr>js_mem := (js_mem st)(b \<mapsto> blk)\<rparr>) (Some b) = (Some a, ?st)"
    using a by (simp add: mkstring_def mknode_def set_if_def upd_node_def)
  moreover have "owns ?st (JT a p_null (LStr b) []) st"
    using a(2) assms(3) by (simp add: owns_def without_def restrict_new node_ok_def calloc_node_def)
  ultimately show ?thesis by auto
qed

text \<open>Appending joins what the container and the new child own.\<close>

lemma append_owned:
  assumes R: "jrep st None None None (JT a p_null l cs)" and "is_container l" and T: "jrep st None None None T"
    and "distinct (jaddrs (JT a p_null l cs) @ jaddrs T)" and "distinct (jblocks (JT a p_null l cs) @ jblocks T)"
    and "set (jblocks (JT a p_null l cs) @ jblocks T) \<subseteq> dom (js_mem st)"
    and "own_keys (JT a p_null l cs)" and "own_keys T"
    and "st0 = without (jaddrs (JT a p_null l cs) @ jaddrs T) (jblocks (JT a p_null l cs) @ jblocks T) st"
  shows "\<exists>st'. append_node st (Some a) (Some (ja T)) = Some st' \<and> owns st' (JT a p_null l (cs @ [T])) st0 \<and> js_mem st' = js_mem st"
proof -
  obtain st' where s: "append_node st (Some a) (Some (ja T)) = Some st'" "jrep st' None None None (JT a p_null l (cs @ [T]))"
      "js_mem st' = js_mem st" "\<forall>x. x \<notin> set (jaddrs (JT a p_null l (cs @ [T]))) \<longrightarrow> nodes st' x = nodes st x"
    using append_node_rep [OF R assms(2) T assms(4)] by blast
  have N: "set (jaddrs (JT a p_null l (cs @ [T]))) = set (jaddrs (JT a p_null l cs) @ jaddrs T)" by auto
  have B: "set (jblocks (JT a p_null l (cs @ [T]))) = set (jblocks (JT a p_null l cs) @ jblocks T)" by auto
  have "st0 = without (jaddrs (JT a p_null l (cs @ [T]))) (jblocks (JT a p_null l (cs @ [T]))) st'"
  proof -
    have "nodes st' |` (- set (jaddrs (JT a p_null l (cs @ [T])))) = nodes st |` (- set (jaddrs (JT a p_null l (cs @ [T]))))"
      using s(4) by (auto simp: restrict_map_def)
    then show ?thesis unfolding assms(9) without_def s(3) N B by simp
  qed
  moreover have "distinct (jaddrs (JT a p_null l (cs @ [T])))" "distinct (jblocks (JT a p_null l (cs @ [T])))"
    using assms(4,5) by auto
  moreover have "own_keys (JT a p_null l (cs @ [T]))" using assms(7,8) by auto
  moreover have "set (jblocks (JT a p_null l (cs @ [T]))) \<subseteq> dom (js_mem st')" using assms(6) unfolding s(3) B .
  ultimately show ?thesis using s(1-3) unfolding owns_def by blast
qed

lemma owns_dom:
  assumes "owns st T st0"
  shows "dom (nodes st0) = dom (nodes st) - set (jaddrs T)" and "dom (js_mem st0) = dom (js_mem st) - set (jblocks T)"
    and "x \<in> dom (nodes st0) \<Longrightarrow> nodes st x = nodes st0 x" and "b \<in> dom (js_mem st0) \<Longrightarrow> js_mem st b = js_mem st0 b"
  using assms by (auto simp: owns_def without_def restrict_map_def split: if_splits)

lemma owns_under:
  assumes "owns st1 R st0" and "owns st2 T st1"
  shows "jrep st2 None None None R" and "set (jaddrs R) \<inter> set (jaddrs T) = {}" and "set (jblocks R) \<inter> set (jblocks T) = {}"
    and "set (jblocks R) \<subseteq> dom (js_mem st2)"
    and "st0 = without (jaddrs R @ jaddrs T) (jblocks R @ jblocks T) st2"
proof -
  have R: "jrep st1 None None None R" "set (jblocks R) \<subseteq> dom (js_mem st1)" "st0 = without (jaddrs R) (jblocks R) st1"
    using assms(1) by (simp_all add: owns_def)
  have n: "set (jaddrs R) \<subseteq> dom (nodes st1)" using jrep_nodes [OF R(1)] .
  show "jrep st2 None None None R"
    using R(1) owns_dom(3) [OF assms(2)] n by (subst jrep_frame [of R st2 st1]) blast+
  show "set (jaddrs R) \<inter> set (jaddrs T) = {}" using n owns_dom(1) [OF assms(2)] by auto
  show "set (jblocks R) \<inter> set (jblocks T) = {}" "set (jblocks R) \<subseteq> dom (js_mem st2)" using R(2) owns_dom(2) [OF assms(2)] by auto
  have "st1 = without (jaddrs T) (jblocks T) st2" using assms(2) by (simp add: owns_def)
  then show "st0 = without (jaddrs R @ jaddrs T) (jblocks R @ jblocks T) st2"
    unfolding R(3) by (simp add: without_def Int_commute)
qed

lemma append_element_owned:
  assumes "owns st1 (JT a p_null LArr cs) st0" and "owns st2 T st1"
  shows "\<exists>st3. json_append_element st2 (Some a) (Some (ja T)) = Some st3 \<and> owns st3 (JT a p_null LArr (cs @ [T])) st0 \<and>
    js_mem st3 = js_mem st2"
  unfolding json_append_element_def
proof (rule append_owned)
  note u = owns_under [OF assms]
  show "jrep st2 None None None (JT a p_null LArr cs)" using u(1) .
  show "is_container LArr" by (simp add: is_container_def)
  show "jrep st2 None None None T" "own_keys T" "own_keys (JT a p_null LArr cs)" using assms by (simp_all add: owns_def)
  show "distinct (jaddrs (JT a p_null LArr cs) @ jaddrs T)" "distinct (jblocks (JT a p_null LArr cs) @ jblocks T)"
    using assms u(2,3) by (simp_all only: distinct_append owns_def simp_thms)
  show "set (jblocks (JT a p_null LArr cs) @ jblocks T) \<subseteq> dom (js_mem st2)" using u(4) assms(2) by (simp add: owns_def)
qed (rule owns_under(5) [OF assms])

definition rekey :: "property_t \<Rightarrow> 'd jt \<Rightarrow> 'd jt" where
  "rekey k T = JT (ja T) k (jl T) (jc T)"

lemma rekey_simps [simp]:
  "ja (rekey k T) = ja T" "jk (rekey k T) = k" "jaddrs (rekey k T) = jaddrs T" "val_blocks (rekey k T) = val_blocks T"
  "jabs m (rekey k T) v = jabs m T v"
  by (cases T; simp add: rekey_def val_blocks_def)+

lemma property_move_json:
  assumes "key = \<lparr>p_value = Some kb, p_flags = PROPERTY_JSON_TAG OR is_owner, p_size = n\<rparr>"
  shows "property_move L std_types m dst key = Some (m, key, p_null)"
proof -
  have "tag_of key = PROPERTY_JSON_TAG" by (simp add: assms tag_of_def tag_defs)
  with assms show ?thesis by (simp add: property_move_def get_std_type json_move_def property_free_def)
qed

lemma append_member_owned:
  assumes "owns st1 (JT a p_null LObj cs) st0" and "kb \<notin> dom (js_mem st1)" and "cstr blk = Some ks"
    and T: "owns st2 T (st1\<lparr>js_mem := (js_mem st1)(kb \<mapsto> blk)\<rparr>)" and "jk T = p_null" and E: "e_disp E = std_types"
  shows "\<exists>key st3. p_json (js_mem st2) (Some kb) = Some key \<and> p_value key = Some kb \<and>
    append_member E st2 (Some a) key (Some (ja T)) = Some st3 \<and> owns st3 (JT a p_null LObj (cs @ [rekey key T])) st0 \<and>
    js_mem st3 = js_mem st2 \<and> str_at (js_mem st2) (Some kb) = Some ks"
proof -
  let ?stk = "st1\<lparr>js_mem := (js_mem st1)(kb \<mapsto> blk)\<rparr>" and ?R = "JT a p_null LObj cs"
  have kb: "js_mem st2 kb = Some blk" using owns_dom(4) [OF T, of kb] by simp
  then have str: "str_at (js_mem st2) (Some kb) = Some ks" using assms(3) by (simp add: str_at_def)
  define key where "key = \<lparr>p_value = Some kb, p_flags = PROPERTY_JSON_TAG OR is_owner, p_size = word_of_nat (length ks)\<rparr>"
  obtain n where n: "nodes st2 (ja T) = Some n" "n_key n = p_null" "node_ok n None None None p_null (jl T) (jc T)"
    using T assms(5) by (cases T) (auto simp: owns_def node_ok_def)
  define st2' where "st2' = st2\<lparr>nodes := (nodes st2)(ja T \<mapsto> n\<lparr>n_key := key\<rparr>)\<rparr>"
  have run: "append_member E st2 (Some a) key (Some (ja T)) = append_node st2' (Some a) (Some (ja (rekey key T)))"
    using n property_move_json [OF key_def] E by (simp add: append_member_def get_node_def upd_node_def st2'_def)
  have dT: "distinct (jaddrs T)" "distinct (jblocks T)" "set (jblocks T) \<subseteq> dom (js_mem st2)" "own_keys T"
    using T by (simp_all add: owns_def)
  have kbk: "key_blocks key = [kb]" by (simp add: key_def key_blocks_def)
  have bT: "jblocks (rekey key T) = kb # jblocks T" using assms(5) kbk by (simp add: jblocks_split)
  have R: "jrep st1 None None None ?R" "distinct (jaddrs ?R)" "distinct (jblocks ?R)" "set (jblocks ?R) \<subseteq> dom (js_mem st1)" "own_keys ?R"
      "st0 = without (jaddrs ?R) (jblocks ?R) st1"
    using assms(1) by (simp_all add: owns_def)
  have nR: "set (jaddrs ?R) \<subseteq> dom (nodes st1)" using jrep_nodes [OF R(1)] .
  have dis: "set (jaddrs ?R) \<inter> set (jaddrs T) = {}" "set (jblocks ?R) \<inter> set (jblocks T) = {}" "kb \<notin> set (jblocks T)" "kb \<notin> set (jblocks ?R)"
      "set (jblocks ?R) \<subseteq> dom (js_mem st2)"
  proof -
    have dm: "dom (js_mem st1) \<subseteq> dom (js_mem st2) - set (jblocks T)" "kb \<notin> set (jblocks T)" "dom (nodes st1) \<subseteq> - set (jaddrs T)"
      using owns_dom(1,2) [OF T] by auto
    show "set (jaddrs ?R) \<inter> set (jaddrs T) = {}" using nR dm(3) by blast
    show "set (jblocks ?R) \<inter> set (jblocks T) = {}" "set (jblocks ?R) \<subseteq> dom (js_mem st2)" using R(4) dm(1) by blast+
    show "kb \<notin> set (jblocks T)" "kb \<notin> set (jblocks ?R)" using dm(2) R(4) assms(2) by blast+
  qed
  have rT: "jrep st2' None None None (rekey key T)"
  proof -
    have "jrep st2 None None None (JT (ja T) p_null (jl T) (jc T))" using T assms(5) by (cases T) (simp add: owns_def)
    moreover have "node_ok (n\<lparr>n_key := key\<rparr>) None None None key (jl T) (jc T)"
      using n(3) by (auto simp: node_ok_def split: leaf.splits)
    moreover have "\<forall>x \<in> set (concat (map jaddrs (jc T))). nodes st2' x = nodes st2 x"
      using dT(1) by (cases T) (auto simp: st2'_def)
    ultimately show ?thesis using jrep_relink [of st2 None None None "ja T" p_null "jl T" "jc T" st2'] unfolding rekey_def
      by (simp add: st2'_def)
  qed
  have rR: "jrep st2' None None None ?R"
  proof -
    have "nodes st2' x = nodes st1 x" if "x \<in> set (jaddrs ?R)" for x
      using owns_dom(3) [OF T, of x] nR dis(1) that ja_in [of T] by (auto simp: st2'_def)
    then show ?thesis using R(1) jrep_frame [of ?R st2' st1] by blast
  qed
  have w: "st0 = without (jaddrs ?R @ jaddrs (rekey key T)) (jblocks ?R @ jblocks (rekey key T)) st2'"
  proof -
    have "?stk = without (jaddrs T) (jblocks T) st2" using T by (simp add: owns_def)
    then have s: "nodes st1 = nodes st2 |` (- set (jaddrs T))" "(js_mem st1)(kb \<mapsto> blk) = js_mem st2 |` (- set (jblocks T))"
      by (auto simp: without_def dest: arg_cong [of _ _ nodes] arg_cong [of _ _ js_mem])
    have "js_mem st1 = (js_mem st1)(kb \<mapsto> blk) |` (- {kb})" using assms(2) by (simp add: restrict_new)
    also have "\<dots> = js_mem st2 |` (- set (kb # jblocks T))" unfolding s(2) by (auto simp: restrict_map_def)
    finally have "js_mem st0 = js_mem st2' |` (- set (jblocks ?R @ jblocks (rekey key T)))"
      unfolding R(6) bT by (auto simp: without_def st2'_def restrict_map_def)
    moreover have "nodes st0 = nodes st2' |` (- set (jaddrs ?R @ jaddrs (rekey key T)))"
      unfolding R(6) using ja_in [of T] by (auto simp: without_def st2'_def s(1) restrict_map_def)
    ultimately show ?thesis by (simp add: without_def R(6))
  qed
  have "\<exists>st3. append_node st2' (Some a) (Some (ja (rekey key T))) = Some st3 \<and> owns st3 (JT a p_null LObj (cs @ [rekey key T])) st0 \<and>
      js_mem st3 = js_mem st2'"
  proof (rule append_owned [OF rR _ rT _ _ _ R(5) _ w])
    show "is_container LObj" by (simp add: is_container_def)
    show "distinct (jaddrs ?R @ jaddrs (rekey key T))" using R(2) dT(1) dis(1) by (simp only: distinct_append rekey_simps simp_thms)
    show "distinct (jblocks ?R @ jblocks (rekey key T))" using R(3) dT(2) dis unfolding bT distinct_append by auto
    show "set (jblocks ?R @ jblocks (rekey key T)) \<subseteq> dom (js_mem st2')" using dis(5) dT(3) kb unfolding bT by (auto simp: st2'_def)
    show "own_keys (rekey key T)" using dT(4) by (cases T) (simp add: rekey_def own_key_def key_def)
  qed
  moreover have "p_json (js_mem st2) (Some kb) = Some key" using str by (simp add: p_json_def key_def)
  ultimately show ?thesis using run str by (auto simp: key_def st2'_def)
qed

section \<open>Changes outside a tree\<close>

text \<open>Objects outside a tree may come and go.\<close>

lemma owns_mem:
  assumes "owns js T js0" and "set (jblocks T) \<subseteq> dom m"
  shows "owns (js\<lparr>js_mem := m\<rparr>) T (js0\<lparr>js_mem := m |` (- set (jblocks T))\<rparr>)"
  using assms jrep_frame [of T js "js\<lparr>js_mem := m\<rparr>"] by (simp add: owns_def without_def)

lemma owns_le: "owns js T js0 \<Longrightarrow> js_mem js0 \<subseteq>\<^sub>m js_mem js"
  by (auto simp: owns_def without_def map_le_def)

lemma owns_keys:
  assumes "owns js T js0"
  shows "own_keys T" and "distinct (jaddrs T)" and "distinct (jblocks T)" and "set (jblocks T) \<subseteq> dom (js_mem js)"
  using assms by (simp_all add: owns_def)

lemma restrict_twice: "m |` (- A) |` (- B) = m |` (- (A \<union> B))"
  by (simp add: restrict_map_def fun_eq_iff)

lemma owns_free:
  assumes "owns js T js0" and "A \<subseteq> dom (js_mem js0)"
  shows "owns (js\<lparr>js_mem := js_mem js |` (- A)\<rparr>) T (js0\<lparr>js_mem := js_mem js0 |` (- A)\<rparr>)"
proof -
  have m: "js_mem js0 = js_mem js |` (- set (jblocks T))" "set (jblocks T) \<subseteq> dom (js_mem js)" using assms(1) by (simp_all add: owns_def without_def)
  then have "set (jblocks T) \<subseteq> dom (js_mem js |` (- A))" using assms(2) by auto
  from owns_mem [OF assms(1) this] show ?thesis by (simp add: m(1) Int_commute)
qed

lemma owns_value:
  assumes "owns js D js0" and "js_mem js \<subseteq>\<^sub>m m" and "jabs m D v"
  shows "jabs (js_mem js) D v"
proof -
  have "\<forall>b \<in> set (jblocks D). js_mem js b = m b" using owns_keys(4) [OF assms(1)] assms(2) by (auto simp: map_le_def)
  with jabs_frame' assms(3) show ?thesis by blast
qed

lemma jabs_mono:
  assumes "owns js T js0" and "jabs (js_mem js) T v" and "js_mem js \<subseteq>\<^sub>m m"
  shows "jabs m T v"
proof -
  have "\<forall>b \<in> set (jblocks T). m b = js_mem js b" using owns_keys(4) [OF assms(1)] assms(3) by (metis map_le_def subsetD)
  with jabs_frame' assms(2) show ?thesis by blast
qed

lemma owns_st_fin: "owns js T js0 \<Longrightarrow> st_fin js0 \<Longrightarrow> st_fin js"
  using owns_dom(1,2) [of js T js0] by (auto simp: st_fin_def)

end
