(* ===== verification/Json_Utf8.thy ===== *)
theory Json_Utf8
  imports C_Base
begin

unbundle bit_operations_syntax

text \<open>
  The Unicode helpers of \<open>src/json/json.c\<close>: validation, reading and writing of one UTF-8 character,
  surrogate pairs and the four hexadecimal digits of an escape.

  A pointer that is only read through is the list of the bytes from it to the end of its object, so
  \<open>*s\<close> is undefined on the empty list and \<open>s++\<close> is the tail. What a function writes through an output
  pointer is the list of the bytes it writes, of which it returns the number.
\<close>

section \<open>Operations\<close>

definition deref :: "bytes \<Rightarrow> byte option" where
  "deref s = (case s of [] \<Rightarrow> None | c # _ \<Rightarrow> Some c)"

definition not_continuation :: "byte \<Rightarrow> bool" where
  "not_continuation c \<longleftrightarrow> c AND 0xC0 \<noteq> 0x80"

definition utf8_validate_cz :: "bytes \<Rightarrow> nat option" where
  "utf8_validate_cz s = do {
     c \<leftarrow> deref s;
     let s = tl s;
     if c \<le> 0x7F then Some 1
     else if c \<le> 0xC1 then Some 0
     else if c \<le> 0xDF then do {
       d \<leftarrow> deref s;
       if not_continuation d then Some 0 else Some 2
     }
     else if c \<le> 0xEF then do {
       d \<leftarrow> deref s;
       if c = 0xE0 \<and> d < 0xA0 then Some 0
       else if c = 0xED \<and> d > 0x9F then Some 0
       else if not_continuation d then Some 0
       else do {
         e \<leftarrow> deref (tl s);
         if not_continuation e then Some 0 else Some 3
       }
     }
     else if c \<le> 0xF4 then do {
       d \<leftarrow> deref s;
       if c = 0xF0 \<and> d < 0x90 then Some 0
       else if c = 0xF4 \<and> d > 0x8F then Some 0
       else if not_continuation d then Some 0
       else do {
         e \<leftarrow> deref (tl s);
         if not_continuation e then Some 0
         else do {
           f \<leftarrow> deref (tl (tl s));
           if not_continuation f then Some 0 else Some 4
         }
       }
     }
     else Some 0
   }"

text \<open>The length of a valid character is positive, so the loop advances.\<close>

function utf8_validate :: "bytes \<Rightarrow> bool option" where
  "utf8_validate s = do {
     c \<leftarrow> deref s;
     if c = 0 then Some True
     else do {
       len \<leftarrow> utf8_validate_cz s;
       if len = 0 then Some False else utf8_validate (drop len s)
     }
   }"
  by pat_completeness auto
termination
  by (relation "measure length") (auto simp: deref_def split: list.splits)

definition utf8_read_char :: "bytes \<Rightarrow> (nat \<times> 32 word) option" where
  "utf8_read_char c = do {
     c0 \<leftarrow> read_at c 0;
     if c0 \<le> 0x7F then Some (1, ucast c0)
     else if c0 \<le> 0xDF then do {
       c1 \<leftarrow> read_at c 1;
       Some (2, push_bit 6 (ucast c0 AND 0x1F) OR (ucast c1 AND 0x3F))
     }
     else if c0 \<le> 0xEF then do {
       c1 \<leftarrow> read_at c 1;
       c2 \<leftarrow> read_at c 2;
       Some (3, push_bit 12 (ucast c0 AND 0xF) OR push_bit 6 (ucast c1 AND 0x3F) OR (ucast c2 AND 0x3F))
     }
     else do {
       c1 \<leftarrow> read_at c 1;
       c2 \<leftarrow> read_at c 2;
       c3 \<leftarrow> read_at c 3;
       Some (4, push_bit 18 (ucast c0 AND 0x7) OR push_bit 12 (ucast c1 AND 0x3F) OR
                push_bit 6 (ucast c2 AND 0x3F) OR (ucast c3 AND 0x3F))
     }
   }"

definition utf8_write_char :: "32 word \<Rightarrow> bytes" where
  "utf8_write_char unicode =
     (if unicode \<le> 0x7F then [ucast unicode]
      else if unicode \<le> 0x7FF then
        [ucast (0xC0 OR drop_bit 6 unicode), ucast (0x80 OR (unicode AND 0x3F))]
      else if unicode \<le> 0xFFFF then
        [ucast (0xE0 OR drop_bit 12 unicode), ucast (0x80 OR (drop_bit 6 unicode AND 0x3F)),
         ucast (0x80 OR (unicode AND 0x3F))]
      else
        [ucast (0xF0 OR drop_bit 18 unicode), ucast (0x80 OR (drop_bit 12 unicode AND 0x3F)),
         ucast (0x80 OR (drop_bit 6 unicode AND 0x3F)), ucast (0x80 OR (unicode AND 0x3F))])"

definition from_surrogate_pair :: "16 word \<Rightarrow> 16 word \<Rightarrow> (32 word) option" where
  "from_surrogate_pair uc lc =
     (if uc \<ge> 0xD800 \<and> uc \<le> 0xDBFF \<and> lc \<ge> 0xDC00 \<and> lc \<le> 0xDFFF
      then Some (0x10000 + (push_bit 10 (ucast uc AND 0x3FF) OR (ucast lc AND 0x3FF)))
      else None)"

definition to_surrogate_pair :: "32 word \<Rightarrow> 16 word \<times> 16 word" where
  "to_surrogate_pair unicode =
     (let n = unicode - 0x10000
      in (ucast ((drop_bit 10 n AND 0x3FF) OR 0xD800), ucast ((n AND 0x3FF) OR 0xDC00)))"

text \<open>One digit of \<open>parse_hex16\<close>; the comparisons of the plain \<open>char\<close> only succeed on ASCII characters.\<close>

definition hex_digit :: "byte \<Rightarrow> (16 word) option" where
  "hex_digit c =
     (if c \<ge> 48 \<and> c \<le> 57 then Some (ucast (c - 48))
      else if c \<ge> 65 \<and> c \<le> 70 then Some (ucast (c - 65 + 10))
      else if c \<ge> 97 \<and> c \<le> 102 then Some (ucast (c - 97 + 10))
      else None)"

fun hex16_loop :: "nat \<Rightarrow> 16 word \<Rightarrow> bytes \<Rightarrow> (16 word \<times> bytes) option option" where
  "hex16_loop 0 ret s = Some (Some (ret, s))"
| "hex16_loop (Suc i) ret [] = None"
| "hex16_loop (Suc i) ret (c # s) =
     (case hex_digit c of None \<Rightarrow> Some None | Some tmp \<Rightarrow> hex16_loop i (push_bit 4 ret + tmp) s)"

definition parse_hex16 :: "bytes \<Rightarrow> (16 word \<times> bytes) option option" where
  "parse_hex16 s = hex16_loop 4 0 s"

definition hex_chars :: bytes where
  "hex_chars = [48, 49, 50, 51, 52, 53, 54, 55, 56, 57, 65, 66, 67, 68, 69, 70]"

definition write_hex16 :: "16 word \<Rightarrow> bytes" where
  "write_hex16 val =
     [hex_chars ! unat (drop_bit 12 val AND 0xF), hex_chars ! unat (drop_bit 8 val AND 0xF),
      hex_chars ! unat (drop_bit 4 val AND 0xF), hex_chars ! unat (val AND 0xF)]"

section \<open>Words as numbers\<close>

lemma and_mask_mod:
  fixes w :: "'a::len word"
  shows "w AND 0x3F = take_bit 6 w" "w AND 0x1F = take_bit 5 w" "w AND 0xF = take_bit 4 w" "w AND 0x7 = take_bit 3 w"
    "w AND 0x3FF = take_bit 10 w"
  by (simp_all add: take_bit_eq_mask mask_eq_exp_minus_1)

lemma unat_take_bit: "unat (take_bit n w) = unat w mod 2 ^ n"
proof -
  have "unat (take_bit n w) = take_bit n (unat w)" by (rule unsigned_take_bit_eq)
  then show ?thesis by (simp only: take_bit_eq_mod)
qed

lemma unat_drop_bit: "unat (drop_bit n w) = unat w div 2 ^ n"
proof -
  have "unat (drop_bit n w) = drop_bit n (take_bit LENGTH('a) (unat w))" for w :: "'a::len word"
    by (rule unsigned_drop_bit_eq)
  moreover have "take_bit LENGTH('a) (unat w) = unat w" for w :: "'a::len word"
    by (rule take_bit_nat_eq_self) (rule unsigned_less)
  ultimately show ?thesis by (simp only: drop_bit_eq_div)
qed

text \<open>An \<open>OR\<close> of a multiple of \<open>2 ^ n\<close> and a number below \<open>2 ^ n\<close> is a sum.\<close>

lemma or_disjoint:
  fixes a b :: nat
  assumes "2 ^ n dvd a" and "b < 2 ^ n"
  shows "a OR b = a + b"
proof -
  from assms(1) obtain k where k: "a = push_bit n k" by (auto simp: push_bit_eq_mult elim!: dvdE)
  have "b = take_bit n b" using assms(2) by (simp add: take_bit_nat_eq_self)
  then have "a AND b = 0" by (simp add: k bit_eq_iff bit_simps) (metis bit_take_bit_iff not_less)
  then show ?thesis by (simp add: disjunctive_add_eq_or)
qed

lemma unat_or_disjoint:
  fixes a b :: "'a::len word"
  assumes "2 ^ n dvd unat a" and "unat b < 2 ^ n"
  shows "unat (a OR b) = unat a + unat b"
  using or_disjoint [OF assms] by (simp add: unsigned_or_eq)

lemma unat_push_bit:
  fixes w :: "'a::len word"
  assumes "unat w * 2 ^ n < 2 ^ LENGTH('a)"
  shows "unat (push_bit n w) = unat w * 2 ^ n"
proof -
  have "unat (push_bit n w) = take_bit LENGTH('a) (push_bit n (unat w))" by (rule unsigned_push_bit_eq)
  with assms show ?thesis by (simp only: push_bit_eq_mult take_bit_nat_eq_self)
qed

lemma unat_ucast_small:
  fixes w :: "'a::len word"
  assumes "unat w < 2 ^ LENGTH('b)"
  shows "unat (ucast w :: 'b::len word) = unat w"
  using assms by (simp add: unsigned_ucast_eq take_bit_nat_eq_self)

lemmas word_nat = word_le_nat_alt word_less_nat_alt and_mask_mod unat_take_bit unat_drop_bit

lemma u32_less: "unat (w :: 32 word) < 4294967296"
  using unsigned_less [of w] by simp

lemma unat_ucast_u32 [simp]: "unat (ucast (c :: byte) :: 32 word) = unat c" "unat (ucast (h :: 16 word) :: 32 word) = unat h"
  by (rule unat_ucast_small, rule less_trans [OF byte_bound], simp)
    (rule unat_ucast_small, rule less_trans [OF u16_bound], simp)

lemma not_continuation_nat: "not_continuation d \<longleftrightarrow> \<not> (128 \<le> unat d \<and> unat d < 192)"
proof -
  have "(0xC0 :: byte) = NOT (mask 6)" by code_simp
  then have "d AND 0xC0 = d AND NOT (mask 6)" by simp
  also have "\<dots> = push_bit 6 (drop_bit 6 d)" by (rule bit_word_eqI) (auto simp: bit_simps)
  finally have a: "d AND 0xC0 = push_bit 6 (drop_bit 6 d)" .
  have "unat d div 64 * 64 < 256" using byte_bound [of d] div_times_less_eq_dividend [of "unat d" 64] by linarith
  then have "unat (push_bit 6 (drop_bit 6 d)) = unat d div 64 * 64"
    by (subst unat_push_bit) (simp_all add: unat_drop_bit)
  then have "d AND 0xC0 = 0x80 \<longleftrightarrow> unat d div 64 * 64 = 128"
    unfolding a word_unat_eq_iff by simp
  also have "\<dots> \<longleftrightarrow> 128 \<le> unat d \<and> unat d < 192" by auto
  finally show ?thesis by (simp add: not_continuation_def)
qed

section \<open>Encoding\<close>

text \<open>A Unicode scalar value: every code point but the surrogates.\<close>

definition scalar :: "32 word \<Rightarrow> bool" where
  "scalar u \<longleftrightarrow> unat u \<le> 0x10FFFF \<and> \<not> (0xD800 \<le> unat u \<and> unat u \<le> 0xDFFF)"

lemma unat_tail: "unat (ucast (0x80 OR (w AND 0x3F) :: 32 word) :: byte) = 128 + unat w mod 64"
proof -
  have "unat (0x80 OR (w AND 0x3F)) = 128 + unat w mod 64"
    by (subst unat_or_disjoint [where n = 6]) (simp_all add: and_mask_mod unat_take_bit)
  then show ?thesis by (subst unat_ucast_small) simp_all
qed

lemma unat_lead:
  assumes "2 ^ n dvd unat lead" and "unat w < 2 ^ n" and "unat lead + unat w < 256"
  shows "unat (ucast (lead OR w :: 32 word) :: byte) = unat lead + unat w"
  using assms unat_or_disjoint [OF assms(1,2)] by (subst unat_ucast_small) simp_all

lemma unat_write_char:
  assumes "unat u \<le> 0x10FFFF"
  shows "map unat (utf8_write_char u) =
    (if unat u \<le> 127 then [unat u]
     else if unat u \<le> 2047 then [192 + unat u div 64, 128 + unat u mod 64]
     else if unat u \<le> 65535 then [224 + unat u div 4096, 128 + unat u div 64 mod 64, 128 + unat u mod 64]
     else [240 + unat u div 262144, 128 + unat u div 4096 mod 64, 128 + unat u div 64 mod 64, 128 + unat u mod 64])"
proof -
  have l2: "unat (ucast (0xC0 OR drop_bit 6 u) :: byte) = 192 + unat u div 64" if "unat u \<le> 2047"
    using that by (subst unat_lead [where n = 6]) (simp_all add: unat_drop_bit)
  have l3: "unat (ucast (0xE0 OR drop_bit 12 u) :: byte) = 224 + unat u div 4096" if "unat u \<le> 65535"
    using that by (subst unat_lead [where n = 5]) (simp_all add: unat_drop_bit)
  have l4: "unat (ucast (0xF0 OR drop_bit 18 u) :: byte) = 240 + unat u div 262144"
    using assms by (subst unat_lead [where n = 4]) (simp_all add: unat_drop_bit)
  show ?thesis
    by (simp add: utf8_write_char_def word_le_nat_alt unat_tail l2 l3 l4 unat_drop_bit unat_ucast_small)
qed

text \<open>The encoding of a scalar value is accepted, has the right length and is read back.\<close>

lemma write_char_cases [consumes 1, case_names one two three four]:
  assumes "scalar u"
  obtains (one) c where "utf8_write_char u = [c]" "unat c = unat u" "unat u \<le> 127"
  | (two) c d where "utf8_write_char u = [c, d]" "unat c = 192 + unat u div 64" "unat d = 128 + unat u mod 64"
      "127 < unat u" "unat u \<le> 2047"
  | (three) c d e where "utf8_write_char u = [c, d, e]" "unat c = 224 + unat u div 4096"
      "unat d = 128 + unat u div 64 mod 64" "unat e = 128 + unat u mod 64" "2047 < unat u" "unat u \<le> 65535"
      "\<not> (0xD800 \<le> unat u \<and> unat u \<le> 0xDFFF)"
  | (four) c d e f where "utf8_write_char u = [c, d, e, f]" "unat c = 240 + unat u div 262144"
      "unat d = 128 + unat u div 4096 mod 64" "unat e = 128 + unat u div 64 mod 64" "unat f = 128 + unat u mod 64"
      "65535 < unat u" "unat u \<le> 0x10FFFF"
proof -
  from assms have s: "unat u \<le> 0x10FFFF" "\<not> (0xD800 \<le> unat u \<and> unat u \<le> 0xDFFF)" by (simp_all add: scalar_def)
  note w = unat_write_char [OF s(1)]
  consider "unat u \<le> 127" | "127 < unat u" "unat u \<le> 2047" | "2047 < unat u" "unat u \<le> 65535" | "65535 < unat u" by linarith
  then show thesis
  proof cases
    case 1 then show thesis using w one by (auto simp: map_eq_Cons_conv)
  next
    case 2 then show thesis using w two by (auto simp: map_eq_Cons_conv)
  next
    case 3 then show thesis using w s three by (auto simp: map_eq_Cons_conv)
  next
    case 4 then show thesis using w s four by (auto simp: map_eq_Cons_conv)
  qed
qed

lemma deref_Cons [simp]: "deref (c # s) = Some c"
  by (simp add: deref_def)

lemma eq_nat_byte: "(c :: byte) = numeral k \<longleftrightarrow> unat c = unat (numeral k :: byte)"
  by (simp only: word_unat_eq_iff)

lemma utf8_validate_write:
  assumes "scalar u"
  shows "utf8_validate_cz (utf8_write_char u @ rest) = Some (length (utf8_write_char u))"
  using assms
proof (cases rule: write_char_cases)
  case (one c)
  then show ?thesis by (simp add: utf8_validate_cz_def word_le_nat_alt)
next
  case (two c d)
  define x z where xz: "x = unat u div 64" "z = unat u mod 64"
  have "2 \<le> x" "x < 32" "z < 64" using two(4,5) unfolding xz by (linarith, linarith, simp)
  then show ?thesis using two(1-3) unfolding xz [symmetric]
    by (simp add: utf8_validate_cz_def word_le_nat_alt not_continuation_nat)
next
  case (three c d e)
  define x y z where xyz: "x = unat u div 4096" "y = unat u div 64 mod 64" "z = unat u mod 64"
  have "unat u div 64 = 64 * x + y" "y < 64" "z < 64" using div_mult2_eq [of "unat u" 64 64] by (simp_all add: xyz)
  moreover have "32 \<le> unat u div 64" "unat u div 64 < 1024" "unat u div 64 < 864 \<or> 896 \<le> unat u div 64"
    using three(5-7) by linarith+
  ultimately have "0 < x \<or> 32 \<le> y" "x \<noteq> 13 \<or> y < 32" "x < 16" "y < 64" "z < 64" by linarith+
  then show ?thesis using three(1-4) unfolding xyz [symmetric]
    by (auto simp: utf8_validate_cz_def word_le_nat_alt word_less_nat_alt not_continuation_nat eq_nat_byte)
next
  case (four c d e f)
  define x y z v where xyz: "x = unat u div 262144" "y = unat u div 4096 mod 64" "z = unat u div 64 mod 64" "v = unat u mod 64"
  have "unat u div 4096 = 64 * x + y" "y < 64" using div_mult2_eq [of "unat u" 4096 64] by (simp_all add: xyz)
  moreover have "16 \<le> unat u div 4096" "unat u div 4096 < 272" using four(6,7) by linarith+
  moreover have "z < 64" "v < 64" by (simp_all add: xyz)
  ultimately have "0 < x \<or> 16 \<le> y" "x \<noteq> 4 \<or> y < 16" "x \<le> 4" "y < 64" "z < 64" "v < 64" by linarith+
  then show ?thesis using four(1-5) unfolding xyz [symmetric]
    by (auto simp: utf8_validate_cz_def word_le_nat_alt word_less_nat_alt not_continuation_nat eq_nat_byte)
qed

lemma unat_join:
  fixes p w :: "32 word"
  assumes "unat (p AND m) = a" and "unat w = b" and "a * 2 ^ n < 2 ^ 32" and "b < 2 ^ n"
  shows "unat (push_bit n (p AND m) OR w) = a * 2 ^ n + b"
proof -
  have "unat (push_bit n (p AND m)) = a * 2 ^ n" using assms(1,3) by (subst unat_push_bit) auto
  with assms show ?thesis by (subst unat_or_disjoint [where n = n]) auto
qed

lemma unat_low:
  "unat (ucast (c :: byte) AND 0x3F :: 32 word) = unat c mod 64" "unat (ucast c AND 0x1F :: 32 word) = unat c mod 32"
  "unat (ucast c AND 0xF :: 32 word) = unat c mod 16" "unat (ucast c AND 0x7 :: 32 word) = unat c mod 8"
  by (simp_all only: and_mask_mod unat_take_bit) simp_all

lemma unat_read2:
  fixes c d :: byte
  shows "unat (push_bit 6 (ucast c AND 0x1F) OR (ucast d AND 0x3F) :: 32 word) = unat c mod 32 * 2 ^ 6 + unat d mod 64"
  by (rule unat_join) (simp_all only: unat_low, simp_all)

lemma unat_read3:
  fixes c d e :: byte
  shows "unat (push_bit 12 (ucast c AND 0xF) OR push_bit 6 (ucast d AND 0x3F) OR (ucast e AND 0x3F) :: 32 word) =
    unat c mod 16 * 2 ^ 12 + (unat d mod 64 * 2 ^ 6 + unat e mod 64)"
proof (rule unat_join)
  show "unat (push_bit 6 (ucast d AND 0x3F) OR (ucast e AND 0x3F) :: 32 word) = unat d mod 64 * 2 ^ 6 + unat e mod 64"
    by (rule unat_join) (simp_all only: unat_low, simp_all)
  have "unat d mod 64 < 64" "unat e mod 64 < 64" by simp_all
  then show "unat d mod 64 * 2 ^ 6 + unat e mod 64 < 2 ^ 12" by simp
qed (simp_all only: unat_low, simp)

lemma unat_read4:
  fixes c d e f :: byte
  shows "unat (push_bit 18 (ucast c AND 0x7) OR push_bit 12 (ucast d AND 0x3F) OR push_bit 6 (ucast e AND 0x3F) OR
    (ucast f AND 0x3F) :: 32 word) =
    unat c mod 8 * 2 ^ 18 + (unat d mod 64 * 2 ^ 12 + (unat e mod 64 * 2 ^ 6 + unat f mod 64))"
proof -
  have b: "unat d mod 64 < 64" "unat e mod 64 < 64" "unat f mod 64 < 64" by simp_all
  have 1: "unat (push_bit 6 (ucast e AND 0x3F) OR (ucast f AND 0x3F) :: 32 word) = unat e mod 64 * 2 ^ 6 + unat f mod 64"
    by (rule unat_join) (simp_all only: unat_low, simp_all)
  have 2: "unat (push_bit 12 (ucast d AND 0x3F) OR push_bit 6 (ucast e AND 0x3F) OR (ucast f AND 0x3F) :: 32 word) =
      unat d mod 64 * 2 ^ 12 + (unat e mod 64 * 2 ^ 6 + unat f mod 64)"
    by (rule unat_join [OF _ 1]) (simp_all only: unat_low, use b in simp_all)
  show ?thesis
    by (rule unat_join [OF _ 2]) (simp_all only: unat_low, use b in simp_all)
qed

lemma lead_mod:
  fixes x :: nat
  shows "x < 32 \<Longrightarrow> (192 + x) mod 32 = x" "x < 16 \<Longrightarrow> (224 + x) mod 16 = x" "x < 8 \<Longrightarrow> (240 + x) mod 8 = x"
    "x < 64 \<Longrightarrow> (128 + x) mod 64 = x"
  using mod_mult_self3 [of 6 32 x] mod_mult_self3 [of 14 16 x] mod_mult_self3 [of 30 8 x] mod_mult_self3 [of 2 64 x]
  by simp_all

lemma utf8_read_write:
  assumes "scalar u"
  shows "utf8_read_char (utf8_write_char u @ rest) = Some (length (utf8_write_char u), u)"
  using assms
proof (cases rule: write_char_cases)
  case (one c)
  then show ?thesis by (simp add: utf8_read_char_def read_at_def word_le_nat_alt word_unat_eq_iff)
next
  case (two c d)
  define x z where xz: "x = unat u div 64" "z = unat u mod 64"
  have x: "x < 32" "z < 64" "unat u = x * 64 + z" using two(5) unfolding xz by (linarith, simp, simp)
  note n = two(1-3) [folded xz]
  have "push_bit 6 (ucast c AND 0x1F) OR (ucast d AND 0x3F) = u"
    unfolding word_unat_eq_iff unat_read2 using n(2,3) x by (simp add: lead_mod)
  then show ?thesis using n x two(4) by (simp add: utf8_read_char_def read_at_def word_le_nat_alt)
next
  case (three c d e)
  define x y z where xyz: "x = unat u div 4096" "y = unat u div 64 mod 64" "z = unat u mod 64"
  have "unat u div 64 = 64 * x + y" "y < 64" "z < 64" using div_mult2_eq [of "unat u" 64 64] by (simp_all add: xyz)
  moreover have "unat u = 64 * (unat u div 64) + z" "x < 16" using three(6) unfolding xyz by (simp, linarith)
  ultimately have x: "unat u = 4096 * x + 64 * y + z" "x < 16" "y < 64" "z < 64" by simp_all
  note n = three(1-4) [folded xyz]
  have "push_bit 12 (ucast c AND 0xF) OR push_bit 6 (ucast d AND 0x3F) OR (ucast e AND 0x3F) = u"
    unfolding word_unat_eq_iff unat_read3 using n(2-4) x by (simp add: lead_mod)
  then show ?thesis using n x
    by (simp add: utf8_read_char_def read_at_def word_le_nat_alt)
next
  case (four c d e f)
  define x y z v where xyz: "x = unat u div 262144" "y = unat u div 4096 mod 64" "z = unat u div 64 mod 64" "v = unat u mod 64"
  have "unat u div 4096 = 64 * x + y" "y < 64" "z < 64" "v < 64" using div_mult2_eq [of "unat u" 4096 64] by (simp_all add: xyz)
  moreover have "unat u div 64 = 64 * (unat u div 4096) + z" using div_mult2_eq [of "unat u" 64 64] by (simp add: xyz)
  moreover have "unat u = 64 * (unat u div 64) + v" "x < 8" using four(7) unfolding xyz by (simp, linarith)
  ultimately have x: "unat u = 262144 * x + 4096 * y + 64 * z + v" "x < 8" "y < 64" "z < 64" "v < 64" by simp_all
  note n = four(1-5) [folded xyz]
  have "push_bit 18 (ucast c AND 0x7) OR push_bit 12 (ucast d AND 0x3F) OR push_bit 6 (ucast e AND 0x3F) OR (ucast f AND 0x3F) = u"
    unfolding word_unat_eq_iff unat_read4 using n(2-5) x by (simp add: lead_mod)
  then show ?thesis using n x
    by (simp add: utf8_read_char_def read_at_def word_le_nat_alt)
qed

text \<open>Conversely a sequence is accepted only when it is the encoding of a scalar value.\<close>

lemma scalar_word:
  assumes "n \<le> 0x10FFFF" and "\<not> (0xD800 \<le> n \<and> n \<le> 0xDFFF)"
  shows "unat (word_of_nat n :: 32 word) = n" and "scalar (word_of_nat n)"
proof -
  show "unat (word_of_nat n :: 32 word) = n" using assms(1) by (simp add: unat_of_nat take_bit_nat_eq_self)
  with assms show "scalar (word_of_nat n)" by (simp add: scalar_def)
qed

lemma write_char_eqI:
  assumes "scalar u" and "map unat (utf8_write_char u) = map unat bs"
  shows "utf8_write_char u = bs"
  using assms(2) by (rule map_injective) (auto simp: inj_on_def intro: unsigned_word_eqI)

lemma base64_digit:
  fixes w z :: nat
  assumes "z < 64"
  shows "(64 * w + z) div 64 = w" "(64 * w + z) mod 64 = z"
  using assms by simp_all

lemma utf8_validate_sound:
  assumes "utf8_validate_cz s = Some n" and "n \<noteq> 0"
  shows "\<exists>u. scalar u \<and> take n s = utf8_write_char u \<and> length (utf8_write_char u) = n"
proof -
  from assms obtain c r where s: "s = c # r" by (cases s) (auto simp: utf8_validate_cz_def deref_def)
  consider "unat c \<le> 127" "n = 1"
    | d t where "194 \<le> unat c" "unat c \<le> 223" "r = d # t" "128 \<le> unat d" "unat d < 192" "n = 2"
    | d e t where "224 \<le> unat c" "unat c \<le> 239" "r = d # e # t" "128 \<le> unat d" "unat d < 192" "128 \<le> unat e" "unat e < 192"
        "unat c \<noteq> 224 \<or> 160 \<le> unat d" "unat c \<noteq> 237 \<or> unat d < 160" "n = 3"
    | d e f t where "240 \<le> unat c" "unat c \<le> 244" "r = d # e # f # t" "128 \<le> unat d" "unat d < 192" "128 \<le> unat e" "unat e < 192"
        "128 \<le> unat f" "unat f < 192" "unat c \<noteq> 240 \<or> 144 \<le> unat d" "unat c \<noteq> 244 \<or> unat d < 144" "n = 4"
    using assms unfolding s
    by (cases r; cases "tl r"; cases "tl (tl r)")
      (auto simp: utf8_validate_cz_def Let_def deref_def word_le_nat_alt word_less_nat_alt not_continuation_nat eq_nat_byte split: if_splits)
  then show ?thesis
  proof cases
    case 1
    let ?u = "ucast c :: 32 word"
    have u: "unat ?u = unat c" "scalar ?u" using 1 by (simp_all add: scalar_def)
    have "utf8_write_char ?u = [c]" by (rule write_char_eqI [OF u(2)], subst unat_write_char) (use u(1) 1 in simp_all)
    with u(2) 1 s show ?thesis by (intro exI [of _ ?u]) simp
  next
    case 2
    define x z where xz: "x = unat c - 192" "z = unat d - 128"
    define u :: "32 word" where "u = word_of_nat (64 * x + z)"
    have x: "unat c = 192 + x" "unat d = 128 + z" "2 \<le> x" "x < 32" "z < 64" using 2 by (auto simp: xz)
    then have u: "unat u = 64 * x + z" "scalar u" unfolding u_def by (intro scalar_word; linarith)+
    have "utf8_write_char u = [c, d]" by (rule write_char_eqI [OF u(2)], subst unat_write_char) (use u(1) x in simp_all)
    with u(2) 2 s show ?thesis by (intro exI [of _ u]) simp
  next
    case 3
    define x y z where xz: "x = unat c - 224" "y = unat d - 128" "z = unat e - 128"
    let ?n = "64 * (64 * x + y) + z"
    define u :: "32 word" where "u = word_of_nat ?n"
    have x: "unat c = 224 + x" "unat d = 128 + y" "unat e = 128 + z" "x < 16" "y < 64" "z < 64"
      "0 < x \<or> 32 \<le> y" "x \<noteq> 13 \<or> y < 32" using 3 by (auto simp: xz)
    have b: "2047 < ?n" "?n \<le> 65535" using x(4-7) by auto
    have "\<not> (0xD800 \<le> ?n \<and> ?n \<le> 0xDFFF)" 
    proof (cases "x \<le> 13")
      case True with x(4-6,8) show ?thesis by auto
    next
      case False with x(4-6) show ?thesis by auto
    qed
    with b have u: "unat u = ?n" "scalar u" unfolding u_def by (intro scalar_word; linarith)+
    have "?n div 4096 = ?n div 64 div 64" using div_mult2_eq [of ?n 64 64] by (simp del: distrib_left_numeral)
    then have d: "?n div 4096 = x" "?n mod 64 = z" "?n div 64 mod 64 = y" using x(5,6) by (simp_all only: base64_digit)
    have "utf8_write_char u = [c, d, e]"
      by (rule write_char_eqI [OF u(2)], subst unat_write_char) (use u(1) x b in \<open>simp_all only: d, simp_all\<close>)
    with u(2) 3 s show ?thesis by (intro exI [of _ u]) simp
  next
    case 4
    define x y z v where xz: "x = unat c - 240" "y = unat d - 128" "z = unat e - 128" "v = unat f - 128"
    let ?n = "64 * (64 * (64 * x + y) + z) + v"
    define u :: "32 word" where "u = word_of_nat ?n"
    have x: "unat c = 240 + x" "unat d = 128 + y" "unat e = 128 + z" "unat f = 128 + v" "x < 5" "y < 64" "z < 64" "v < 64"
      "0 < x \<or> 16 \<le> y" "x \<noteq> 4 \<or> y < 16" using 4 by (auto simp: xz)
    have b: "65535 < ?n" "?n \<le> 0x10FFFF" using x(5-10) by auto
    then have u: "unat u = ?n" "scalar u" unfolding u_def by (intro scalar_word; linarith)+
    have "?n div 4096 = ?n div 64 div 64" "?n div 262144 = ?n div 4096 div 64"
      using div_mult2_eq [of ?n 64 64] div_mult2_eq [of ?n 4096 64] by (simp_all del: distrib_left_numeral)
    then have d: "?n mod 64 = v" "?n div 64 mod 64 = z" "?n div 4096 mod 64 = y" "?n div 262144 = x"
      using x(6-8) by (simp_all only: base64_digit)
    have "utf8_write_char u = [c, d, e, f]"
      by (rule write_char_eqI [OF u(2)], subst unat_write_char) (use u(1) x b in \<open>simp_all only: d, simp_all\<close>)
    with u(2) 4 s show ?thesis by (intro exI [of _ u]) simp
  qed
qed

section \<open>Surrogate pairs and hexadecimal digits\<close>

lemma unat_surrogate:
  "unat (ucast ((w AND 0x3FF) OR 0xD800 :: 32 word) :: 16 word) = 0xD800 + unat w mod 1024"
  "unat (ucast ((w AND 0x3FF) OR 0xDC00 :: 32 word) :: 16 word) = 0xDC00 + unat w mod 1024"
proof -
  have "unat (0xD800 OR (w AND 0x3FF) :: 32 word) = 0xD800 + unat w mod 1024"
    "unat (0xDC00 OR (w AND 0x3FF) :: 32 word) = 0xDC00 + unat w mod 1024"
    by (subst unat_or_disjoint [where n = 10]; simp add: and_mask_mod unat_take_bit)+
  moreover have "unat w mod 1024 < 1024" by simp
  ultimately show "unat (ucast ((w AND 0x3FF) OR 0xD800 :: 32 word) :: 16 word) = 0xD800 + unat w mod 1024"
    "unat (ucast ((w AND 0x3FF) OR 0xDC00 :: 32 word) :: 16 word) = 0xDC00 + unat w mod 1024"
    by (subst or.commute, subst unat_ucast_small; simp)+
qed

lemma unat_from_pair:
  fixes uc lc :: "16 word"
  shows "unat (0x10000 + (push_bit 10 (ucast uc AND 0x3FF) OR (ucast lc AND 0x3FF)) :: 32 word) =
    0x10000 + (unat uc mod 1024 * 2 ^ 10 + unat lc mod 1024)"
proof -
  have low: "unat (ucast h AND 0x3FF :: 32 word) = unat h mod 1024" for h :: "16 word"
    by (simp only: and_mask_mod unat_take_bit) simp
  have b: "unat uc mod 1024 < 1024" "unat lc mod 1024 < 1024" by simp_all
  have j: "unat (push_bit 10 (ucast uc AND 0x3FF) OR (ucast lc AND 0x3FF) :: 32 word) = unat uc mod 1024 * 2 ^ 10 + unat lc mod 1024"
    by (rule unat_join) (simp_all only: low, use b in simp_all)
  show ?thesis using b by (simp add: unat_word_ariths j del: push_bit_and)
qed

lemma from_to_surrogate_pair:
  assumes "0x10000 \<le> unat u" and "unat u \<le> 0x10FFFF"
  shows "from_surrogate_pair (fst (to_surrogate_pair u)) (snd (to_surrogate_pair u)) = Some u"
proof -
  define n where "n = u - 0x10000"
  have n: "unat n = unat u - 0x10000" using assms(1) by (simp add: n_def unat_sub word_le_nat_alt)
  obtain uc lc where p: "to_surrogate_pair u = (uc, lc)" by (cases "to_surrogate_pair u")
  then have h: "unat uc = 0xD800 + unat n div 1024 mod 1024" "unat lc = 0xDC00 + unat n mod 1024"
    by (auto simp: to_surrogate_pair_def Let_def n_def unat_surrogate unat_drop_bit)
  define x z where xz: "x = unat n div 1024" "z = unat n mod 1024"
  have x: "x < 1024" "z < 1024" "unat n = x * 1024 + z" using assms(2) n unfolding xz by (linarith, simp, simp)
  have m: "(0xD800 + x) mod 1024 = x" "(0xDC00 + z) mod 1024 = z"
    using x mod_mult_self3 [of 54 1024 x] mod_mult_self3 [of 55 1024 z] by simp_all
  have "0x10000 + (push_bit 10 (ucast uc AND 0x3FF) OR (ucast lc AND 0x3FF)) = u"
    unfolding word_unat_eq_iff unat_from_pair using h x m n assms(1) unfolding xz [symmetric] by simp
  then show ?thesis using h x unfolding xz [symmetric] p
    by (simp add: from_surrogate_pair_def word_le_nat_alt del: push_bit_and)
qed

lemma from_surrogate_pair_scalar:
  assumes "from_surrogate_pair uc lc = Some u"
  shows "0x10000 \<le> unat u \<and> unat u \<le> 0x10FFFF \<and> scalar u"
proof -
  have "unat uc mod 1024 < 1024" "unat lc mod 1024 < 1024" by simp_all
  with assms unat_from_pair [of uc lc] show ?thesis
    by (auto simp: from_surrogate_pair_def scalar_def split: if_splits)
qed

lemma hex_digit_chars:
  assumes "n < 16"
  shows "hex_digit (hex_chars ! n) = Some (word_of_nat n)"
proof -
  have "list_all (\<lambda>n. hex_digit (hex_chars ! n) = Some (word_of_nat n)) [0..<16]" by code_simp
  with assms show ?thesis by (auto simp: list_all_iff)
qed

lemma hex16_roundtrip: "parse_hex16 (write_hex16 val @ rest) = Some (Some (val, rest))"
proof -
  define a b c d where abcd: "a = drop_bit 12 val AND 0xF" "b = drop_bit 8 val AND 0xF" "c = drop_bit 4 val AND 0xF" "d = val AND 0xF"
  have u: "unat a = unat val div 4096 mod 16" "unat b = unat val div 256 mod 16" "unat c = unat val div 16 mod 16" "unat d = unat val mod 16"
    unfolding abcd and_mask_mod unat_take_bit unat_drop_bit by simp_all
  then have n: "unat a < 16" "unat b < 16" "unat c < 16" "unat d < 16" by simp_all
  have four: "4 = Suc (Suc (Suc (Suc 0)))" by simp
  have "parse_hex16 (write_hex16 val @ rest) = Some (Some (4096 * a + 256 * b + 16 * c + d, rest))"
    using n unfolding parse_hex16_def write_hex16_def abcd [symmetric] unfolding four by (simp add: hex_digit_chars push_bit_eq_mult algebra_simps)
  moreover have "4096 * a + 256 * b + 16 * c + d = val"
  proof -
    have "unat val div 16 = 16 * (unat val div 256) + unat c" "unat val div 256 = 16 * (unat val div 4096) + unat b"
      "unat val = 16 * (unat val div 16) + unat d"
      using div_mult2_eq [of "unat val" 16 16] div_mult2_eq [of "unat val" 256 16] by (simp_all add: u)
    moreover have "unat val div 4096 = unat a" using u16_bound [of val] unfolding u
      by (subst mod_less) linarith+
    ultimately have "unat val = 4096 * unat a + 256 * unat b + 16 * unat c + unat d" by linarith
    with n show ?thesis unfolding word_unat_eq_iff by (simp add: unat_word_ariths)
  qed
  ultimately show ?thesis by simp
qed

end
