(* ===== verification/Json_Parse.thy ===== *)
theory Json_Parse
  imports Json_Tree Json_Utf8
begin

text \<open>
  The recursive-descent parser of \<open>src/json/json.c\<close>: \<open>parse_value\<close>, \<open>parse_array\<close>, \<open>parse_object\<close>,
  \<open>parse_string\<close>, \<open>parse_number\<close> and their callers \<open>json_decode\<close> and \<open>json_validate\<close>.

  The text is the list of bytes from the read pointer on. A parse function returns \<^term>\<open>None\<close> when the
  behaviour is undefined, \<open>Some (st, None)\<close> when it returns false and \<open>Some (st, Some (s, p))\<close> when it
  returns true with the read pointer at \<open>s\<close> and \<open>*out = p\<close>. The flag \<open>out\<close> says whether the output
  pointer is given. The first argument of the recursive functions bounds the depth of the recursion and
  the iterations of each loop; a bound linear in the length of the text is enough, which the theorems
  prove.
\<close>

unbundle bit_operations_syntax

section \<open>Scanning\<close>

definition is_space :: "byte \<Rightarrow> bool" where
  "is_space c \<longleftrightarrow> c = 9 \<or> c = 10 \<or> c = 13 \<or> c = 32"

definition is_digit :: "byte \<Rightarrow> bool" where
  "is_digit c \<longleftrightarrow> 48 \<le> c \<and> c \<le> 57"

fun skip_space :: "bytes \<Rightarrow> bytes option" where
  "skip_space [] = None"
| "skip_space (c # s) = (if is_space c then skip_space s else Some (c # s))"

fun skip_digits :: "bytes \<Rightarrow> bytes option" where
  "skip_digits [] = None"
| "skip_digits (c # s) = (if is_digit c then skip_digits s else Some (c # s))"

text \<open>The second argument is the literal without its terminator; the result is the new read pointer.\<close>

fun expect_literal :: "bytes \<Rightarrow> bytes \<Rightarrow> bytes option option" where
  "expect_literal s [] = Some (Some s)"
| "expect_literal [] (d # str) = None"
| "expect_literal (c # s) (d # str) = (if c \<noteq> d then Some None else expect_literal s str)"

definition lit_null :: bytes where "lit_null = [110, 117, 108, 108]"
definition lit_true :: bytes where "lit_true = [116, 114, 117, 101]"
definition lit_false :: bytes where "lit_false = [102, 97, 108, 115, 101]"

text \<open>\<open>if (!is_digit( *s)) return false; do s++; while (is_digit( *s));\<close>\<close>

definition digits1 :: "bytes \<Rightarrow> bytes option option" where
  "digits1 s = do {
     c \<leftarrow> deref s;
     if \<not> is_digit c then Some None else do { s \<leftarrow> skip_digits (tl s); Some (Some s) }
   }"

text \<open>The three parts of a number: \<open>(0 | [1-9][0-9]*)\<close>, \<open>('.' [0-9]+)?\<close> and \<open>([Ee] [+-]? [0-9]+)?\<close>.\<close>

definition number_int :: "bytes \<Rightarrow> bytes option option" where
  "number_int s = do { c \<leftarrow> deref s; if c = 48 then Some (Some (tl s)) else digits1 s }"

definition number_frac :: "bytes \<Rightarrow> bytes option option" where
  "number_frac s = do { c \<leftarrow> deref s; if c = 46 then digits1 (tl s) else Some (Some s) }"

definition number_exp :: "bytes \<Rightarrow> bytes option option" where
  "number_exp s = do {
     c \<leftarrow> deref s;
     if c = 69 \<or> c = 101 then do {
       d \<leftarrow> deref (tl s);
       digits1 (if d = 43 \<or> d = 45 then tl (tl s) else tl s)
     }
     else Some (Some s)
   }"

text \<open>The result is the read pointer after the number; the value is \<open>strtod\<close> of the text before it.\<close>

definition parse_number :: "bytes \<Rightarrow> bytes option option" where
  "parse_number sp = do {
     c \<leftarrow> deref sp;
     r \<leftarrow> number_int (if c = 45 then tl sp else sp);
     case r of None \<Rightarrow> Some None | Some s \<Rightarrow> do {
       r \<leftarrow> number_frac s;
       case r of None \<Rightarrow> Some None | Some s \<Rightarrow> number_exp s
     }
   }"

section \<open>Strings\<close>

text \<open>One iteration of the loop of \<open>parse_string\<close>: the bytes it writes and the new read pointer.\<close>

definition parse_unicode_escape :: "bytes \<Rightarrow> (bytes \<times> bytes) option option" where
  "parse_unicode_escape s = do {
     r \<leftarrow> parse_hex16 s;
     case r of None \<Rightarrow> Some None | Some (uc, s) \<Rightarrow>
       if uc \<ge> 0xD800 \<and> uc \<le> 0xDFFF then do {
         c \<leftarrow> deref s;
         if c \<noteq> 92 then Some None
         else do {
           d \<leftarrow> deref (tl s);
           if d \<noteq> 117 then Some None
           else do {
             r \<leftarrow> parse_hex16 (tl (tl s));
             case r of None \<Rightarrow> Some None | Some (lc, s) \<Rightarrow>
               (case from_surrogate_pair uc lc of
                  None \<Rightarrow> Some None
                | Some unicode \<Rightarrow> Some (Some (utf8_write_char unicode, s)))
           }
         }
       }
       else if uc = 0 then Some None
       else Some (Some (utf8_write_char (ucast uc), s))
   }"

definition parse_char :: "bytes \<Rightarrow> (bytes \<times> bytes) option option" where
  "parse_char s0 = do {
     c \<leftarrow> deref s0;
     let s = tl s0;
     if c = 92 then do {
       c \<leftarrow> deref s;
       let s = tl s;
       if c = 34 \<or> c = 92 \<or> c = 47 then Some (Some ([c], s))
       else if c = 98 then Some (Some ([8], s))
       else if c = 102 then Some (Some ([12], s))
       else if c = 110 then Some (Some ([10], s))
       else if c = 114 then Some (Some ([13], s))
       else if c = 116 then Some (Some ([9], s))
       else if c = 117 then parse_unicode_escape s
       else Some None
     }
     else if c \<le> 0x1F then Some None
     else do {
       len \<leftarrow> utf8_validate_cz s0;
       if len = 0 then Some None
       else do { bs \<leftarrow> mem_read s0 0 len; Some (Some (bs, drop len s0)) }
     }
   }"

text \<open>The loop. With \<open>out\<close> the characters go to the buffer, where room for four bytes has been asked for
  (the answer is ignored); without, to a throw-away array of four bytes.\<close>

partial_function (option) string_loop ::
    "libc \<Rightarrow> bool \<Rightarrow> bytes \<Rightarrow> SB \<Rightarrow> blocks \<Rightarrow> (blocks \<times> (bytes \<times> nat option) option) option" where
  "string_loop L out s sb m = do {
     c \<leftarrow> deref s;
     if c = 34 then
       (if out then do { (p, m) \<leftarrow> sb_finish m sb; Some (m, Some (tl s, p)) } else Some (m, Some (tl s, None)))
     else do {
       r \<leftarrow> parse_char s;
       case r of
         None \<Rightarrow> (if out then do { (_, m) \<leftarrow> sb_free m sb; Some (m, None) } else Some (m, None))
       | Some (bs, s) \<Rightarrow>
           (if out then do {
              (sb, m) \<leftarrow> sb_write m sb bs;
              (_, sb, m) \<leftarrow> sb_need L m sb 4;
              string_loop L out s sb m
            }
            else if length bs \<le> 4 then string_loop L out s sb m else None)
     }
   }"

definition parse_string :: "libc \<Rightarrow> bool \<Rightarrow> bytes \<Rightarrow> blocks \<Rightarrow> (blocks \<times> (bytes \<times> nat option) option) option" where
  "parse_string L out s m = do {
     c \<leftarrow> deref s;
     if c \<noteq> 34 then Some (m, None)
     else if out then
       (case sb_init L m sb_null of (r, sb, m) \<Rightarrow>
          if r < 0 then Some (m, None)
          else do { (_, sb, m) \<leftarrow> sb_need L m sb 4; string_loop L out (tl s) sb m })
     else string_loop L out (tl s) sb_null m
   }"

section \<open>Values\<close>

type_synonym 'd pres = "('d jstate \<times> (bytes \<times> nat option) option) option"

definition parse_failure :: "nat \<Rightarrow> 'd json_env \<Rightarrow> 'd jstate \<Rightarrow> nat option \<Rightarrow> 'd pres" where
  "parse_failure k E st ret = do { st \<leftarrow> json_delete k E st ret; Some (st, None) }"

text \<open>\<open>if (out) *out = mk(); *sp = s; return true;\<close>\<close>

definition parse_result :: "bool \<Rightarrow> bytes \<Rightarrow> 'd jstate \<Rightarrow> nat option \<times> 'd jstate \<Rightarrow> 'd pres" where
  "parse_result out s st r = (if out then Some (snd r, Some (s, fst r)) else Some (st, Some (s, None)))"

text \<open>With the label \<open>failure_free_key\<close> the key is freed first.\<close>

definition free_key :: "bool \<Rightarrow> 'd jstate \<Rightarrow> nat option \<Rightarrow> 'd jstate option" where
  "free_key out st key =
     (if out then do { m \<leftarrow> json_delete_string (js_mem st) key; Some (st\<lparr>js_mem := m\<rparr>) } else Some st)"

text \<open>The loops of \<open>parse_array\<close> and \<open>parse_object\<close>; the recursive call of \<open>parse_value\<close> is an argument.\<close>

primrec array_loop ::
    "nat \<Rightarrow> 'd json_env \<Rightarrow> bool \<Rightarrow> (bytes \<Rightarrow> 'd jstate \<Rightarrow> 'd pres) \<Rightarrow> bytes \<Rightarrow> 'd jstate \<Rightarrow> nat option \<Rightarrow> 'd pres" where
  "array_loop 0 E out pv s st ret = None"
| "array_loop (Suc k) E out pv s st ret = do {
     (st, r) \<leftarrow> pv s st;
     case r of None \<Rightarrow> parse_failure k E st ret
     | Some (s, element) \<Rightarrow> do {
         s \<leftarrow> skip_space s;
         st \<leftarrow> (if out then json_append_element st ret element else Some st);
         c \<leftarrow> deref s;
         if c = 93 then Some (st, Some (tl s, ret))
         else if c \<noteq> 44 then parse_failure k E st ret
         else do { s \<leftarrow> skip_space (tl s); array_loop k E out pv s st ret }
       }
   }"

definition parse_array ::
    "nat \<Rightarrow> 'd json_env \<Rightarrow> bool \<Rightarrow> (bytes \<Rightarrow> 'd jstate \<Rightarrow> 'd pres) \<Rightarrow> bytes \<Rightarrow> 'd jstate \<Rightarrow> 'd pres" where
  "parse_array k E out pv s st =
     (case (if out then json_mkarray E st else (None, st)) of (ret, st) \<Rightarrow> do {
        c \<leftarrow> deref s;
        if c \<noteq> 91 then parse_failure k E st ret
        else do {
          s \<leftarrow> skip_space (tl s);
          c \<leftarrow> deref s;
          if c = 93 then Some (st, Some (tl s, ret)) else array_loop k E out pv s st ret
        }
      })"

primrec object_loop ::
    "nat \<Rightarrow> 'd json_env \<Rightarrow> bool \<Rightarrow> (bytes \<Rightarrow> 'd jstate \<Rightarrow> 'd pres) \<Rightarrow> bytes \<Rightarrow> 'd jstate \<Rightarrow> nat option \<Rightarrow> 'd pres" where
  "object_loop 0 E out pv s st ret = None"
| "object_loop (Suc k) E out pv s st ret = do {
     (m, r) \<leftarrow> parse_string (e_libc E) out s (js_mem st);
     let st = st\<lparr>js_mem := m\<rparr>;
     case r of None \<Rightarrow> parse_failure k E st ret
     | Some (s, key) \<Rightarrow> do {
         s \<leftarrow> skip_space s;
         c \<leftarrow> deref s;
         if c \<noteq> 58 then do { st \<leftarrow> free_key out st key; parse_failure k E st ret }
         else do {
           s \<leftarrow> skip_space (tl s);
           (st, r) \<leftarrow> pv s st;
           case r of None \<Rightarrow> do { st \<leftarrow> free_key out st key; parse_failure k E st ret }
           | Some (s, v) \<Rightarrow> do {
               s \<leftarrow> skip_space s;
               st \<leftarrow> (if out then do { p \<leftarrow> p_json (js_mem st) key; append_member E st ret p v } else Some st);
               c \<leftarrow> deref s;
               if c = 125 then Some (st, Some (tl s, ret))
               else if c \<noteq> 44 then parse_failure k E st ret
               else do { s \<leftarrow> skip_space (tl s); object_loop k E out pv s st ret }
             }
         }
       }
   }"

definition parse_object ::
    "nat \<Rightarrow> 'd json_env \<Rightarrow> bool \<Rightarrow> (bytes \<Rightarrow> 'd jstate \<Rightarrow> 'd pres) \<Rightarrow> bytes \<Rightarrow> 'd jstate \<Rightarrow> 'd pres" where
  "parse_object k E out pv s st =
     (case (if out then json_mkobject E st else (None, st)) of (ret, st) \<Rightarrow> do {
        c \<leftarrow> deref s;
        if c \<noteq> 123 then parse_failure k E st ret
        else do {
          s \<leftarrow> skip_space (tl s);
          c \<leftarrow> deref s;
          if c = 125 then Some (st, Some (tl s, ret)) else object_loop k E out pv s st ret
        }
      })"

primrec parse_value :: "nat \<Rightarrow> 'd json_env \<Rightarrow> bool \<Rightarrow> bytes \<Rightarrow> 'd jstate \<Rightarrow> 'd pres" where
  "parse_value 0 E out s st = None"
| "parse_value (Suc k) E out s st = do {
     c \<leftarrow> deref s;
     if c = 110 then do {
       r \<leftarrow> expect_literal s lit_null;
       case r of None \<Rightarrow> Some (st, None) | Some s \<Rightarrow> parse_result out s st (json_mknull E st)
     }
     else if c = 102 then do {
       r \<leftarrow> expect_literal s lit_false;
       case r of None \<Rightarrow> Some (st, None) | Some s \<Rightarrow> parse_result out s st (json_mkbool E st False)
     }
     else if c = 116 then do {
       r \<leftarrow> expect_literal s lit_true;
       case r of None \<Rightarrow> Some (st, None) | Some s \<Rightarrow> parse_result out s st (json_mkbool E st True)
     }
     else if c = 34 then do {
       (m, r) \<leftarrow> parse_string (e_libc E) out s (js_mem st);
       let st = st\<lparr>js_mem := m\<rparr>;
       case r of None \<Rightarrow> Some (st, None) | Some (s, str) \<Rightarrow> parse_result out s st (mkstring E st str)
     }
     else if c = 91 then parse_array k E out (parse_value k E out) s st
     else if c = 123 then parse_object k E out (parse_value k E out) s st
     else do {
       r \<leftarrow> parse_number s;
       case r of None \<Rightarrow> Some (st, None)
       | Some s' \<Rightarrow> parse_result out s' st (json_mknumber E st (fp_strtod (e_fpu E) s))
     }
   }"

definition parse_fuel :: "bytes \<Rightarrow> nat" where
  "parse_fuel s = 4 * length s + 4"

text \<open>The result of \<open>json_decode\<close> is the state and the root, or null.\<close>

definition json_decode :: "'d json_env \<Rightarrow> 'd jstate \<Rightarrow> bytes \<Rightarrow> ('d jstate \<times> nat option) option" where
  "json_decode E st json = do {
     s \<leftarrow> skip_space json;
     (st, r) \<leftarrow> parse_value (parse_fuel json) E True s st;
     case r of None \<Rightarrow> Some (st, None)
     | Some (s, ret) \<Rightarrow> do {
         s \<leftarrow> skip_space s;
         c \<leftarrow> deref s;
         if c \<noteq> 0 then do { st \<leftarrow> json_delete (parse_fuel json) E st ret; Some (st, None) }
         else Some (st, ret)
       }
   }"

definition json_validate :: "'d json_env \<Rightarrow> 'd jstate \<Rightarrow> bytes \<Rightarrow> ('d jstate \<times> bool) option" where
  "json_validate E st json = do {
     s \<leftarrow> skip_space json;
     (st, r) \<leftarrow> parse_value (parse_fuel json) E False s st;
     case r of None \<Rightarrow> Some (st, False)
     | Some (s, _) \<Rightarrow> do {
         s \<leftarrow> skip_space s;
         c \<leftarrow> deref s;
         if c \<noteq> 0 then Some (st, False) else Some (st, True)
       }
   }"

end
