(* ===== verification/Json_Emit.thy ===== *)
theory Json_Emit
  imports Json_Parse
begin

text \<open>
  The printer of \<open>src/json/json.c\<close>: \<open>emit_value\<close> and its indented variant, \<open>emit_string\<close>,
  \<open>emit_number\<close>, and the callers \<open>json_stringify\<close>, \<open>json_encode\<close>, \<open>json_encode_string\<close> and
  \<open>json_encode_property\<close>. The consistency check \<open>json_check\<close> is at the end.

  The nodes are only read. The result of an emitter is the buffer and the memory of characters. As in
  the parser, the first argument of the recursive functions bounds their depth and the number of
  iterations of each loop.
\<close>

unbundle bit_operations_syntax

section \<open>Numbers\<close>

text \<open>\<open>sprintf\<close> with \<open>%d\<close> and \<open>%03d\<close>.\<close>

definition fmt_d :: "int \<Rightarrow> bytes" where
  "fmt_d i = (if i < 0 then 45 # dec_digits (nat (- i)) else dec_digits (nat i))"

definition fmt_03d :: "int \<Rightarrow> bytes" where
  "fmt_03d i = (if i < 0 then 45 # pad_zero 2 (dec_digits (nat (- i))) else pad_zero 3 (dec_digits (nat i)))"

definition number_is_valid :: "bytes \<Rightarrow> bool option" where
  "number_is_valid num = do {
     r \<leftarrow> parse_number num;
     case r of None \<Rightarrow> Some False | Some s \<Rightarrow> do { c \<leftarrow> deref s; Some (c = 0) }
   }"

text \<open>The text that \<open>emit_number\<close> writes; \<open>buf\<close> has 64 bytes.\<close>

definition number_text :: "'d fpu \<Rightarrow> 'd \<Rightarrow> bytes option" where
  "number_text F num = (case fp_modf F num of (intg, fraction) \<Rightarrow> do {
     buf \<leftarrow> (if \<not> fp_is_zero F fraction then do {
              ok \<leftarrow> number_is_valid (fp_g16 F num @ [0]);
              if \<not> ok then do {
                i \<leftarrow> fp_to_int F intg;
                f \<leftarrow> fp_to_int F (fp_mul1000 F fraction);
                Some (fmt_d i @ 46 # fmt_03d f)
              }
              else Some (fp_g16 F num)
            }
            else do { i \<leftarrow> fp_to_int F num; Some (fmt_d i) });
     if length buf + 1 \<le> 64 then do {
       ok \<leftarrow> number_is_valid (buf @ [0]);
       Some (if ok then buf else lit_null)
     }
     else None
   })"

definition emit_number :: "'d json_env \<Rightarrow> SB \<Rightarrow> blocks \<Rightarrow> 'd \<Rightarrow> (SB \<times> blocks) option" where
  "emit_number E sb m num = do {
     t \<leftarrow> number_text (e_fpu E) num;
     (_, sb, m) \<leftarrow> sb_puts (e_libc E) m sb t;
     Some (sb, m)
   }"

section \<open>Strings\<close>

text \<open>One iteration of the loop of \<open>emit_string\<close>: the bytes written and the number of bytes read.\<close>

definition emit_char :: "bool \<Rightarrow> bytes \<Rightarrow> (bytes \<times> nat) option" where
  "emit_char escape_unicode s = do {
     c \<leftarrow> deref s;
     if c = 34 then Some ([92, 34], 1)
     else if c = 92 then Some ([92, 92], 1)
     else if c = 8 then Some ([92, 98], 1)
     else if c = 12 then Some ([92, 102], 1)
     else if c = 10 then Some ([92, 110], 1)
     else if c = 13 then Some ([92, 114], 1)
     else if c = 9 then Some ([92, 116], 1)
     else do {
       len \<leftarrow> utf8_validate_cz s;
       if len = 0 then Some (if escape_unicode then [92, 117, 70, 70, 70, 68] else [0xEF, 0xBF, 0xBD], 1)
       else if c < 0x1F \<or> c \<ge> 0x80 \<and> escape_unicode then do {
         (n, unicode) \<leftarrow> utf8_read_char s;
         if unicode \<le> 0xFFFF then Some ([92, 117] @ write_hex16 (ucast unicode), n)
         else case to_surrogate_pair unicode of (uc, lc) \<Rightarrow>
           Some ([92, 117] @ write_hex16 uc @ [92, 117] @ write_hex16 lc, n)
       }
       else do { bs \<leftarrow> mem_read s 0 len; Some (bs, len) }
     }
   }"

partial_function (option) emit_loop :: "libc \<Rightarrow> SB \<Rightarrow> blocks \<Rightarrow> bytes \<Rightarrow> (SB \<times> blocks) option" where
  "emit_loop L sb m s = do {
     c \<leftarrow> deref s;
     if c = 0 then Some (sb, m)
     else do {
       (bs, n) \<leftarrow> emit_char False s;
       (sb, m) \<leftarrow> sb_write m sb bs;
       (_, sb, m) \<leftarrow> sb_need L m sb 14;
       emit_loop L sb m (drop n s)
     }
   }"

definition emit_string :: "libc \<Rightarrow> SB \<Rightarrow> blocks \<Rightarrow> nat option \<Rightarrow> (SB \<times> blocks) option" where
  "emit_string L sb m str = do {
     (_, sb, m) \<leftarrow> sb_need L m sb 14;
     (sb, m) \<leftarrow> sb_write m sb [34];
     a \<leftarrow> str;
     s \<leftarrow> m a;
     (sb, m) \<leftarrow> emit_loop L sb m s;
     sb_write m sb [34]
   }"

section \<open>Values\<close>

type_synonym emitter = "SB \<Rightarrow> blocks \<Rightarrow> nat option \<Rightarrow> (SB \<times> blocks) option"

definition puts :: "libc \<Rightarrow> SB \<Rightarrow> blocks \<Rightarrow> bytes \<Rightarrow> (SB \<times> blocks) option" where
  "puts L sb m t = do { (_, sb, m) \<leftarrow> sb_puts L m sb t; Some (sb, m) }"

primrec emit_array_loop :: "nat \<Rightarrow> libc \<Rightarrow> 'd jstate \<Rightarrow> emitter \<Rightarrow> emitter" where
  "emit_array_loop 0 L st ev sb m element = None"
| "emit_array_loop (Suc k) L st ev sb m element =
     (if element = None then Some (sb, m)
      else do {
        (sb, m) \<leftarrow> ev sb m element;
        n \<leftarrow> get_node st element;
        (sb, m) \<leftarrow> (if n_next n \<noteq> None then sb_putc L m sb 44 else Some (sb, m));
        emit_array_loop k L st ev sb m (n_next n)
      })"

definition emit_array :: "nat \<Rightarrow> libc \<Rightarrow> 'd jstate \<Rightarrow> emitter \<Rightarrow> emitter" where
  "emit_array k L st ev sb m array = do {
     (sb, m) \<leftarrow> sb_putc L m sb 91;
     element \<leftarrow> json_first_child st array;
     (sb, m) \<leftarrow> emit_array_loop k L st ev sb m element;
     sb_putc L m sb 93
   }"

primrec emit_object_loop :: "nat \<Rightarrow> libc \<Rightarrow> 'd jstate \<Rightarrow> emitter \<Rightarrow> emitter" where
  "emit_object_loop 0 L st ev sb m member = None"
| "emit_object_loop (Suc k) L st ev sb m member =
     (if member = None then Some (sb, m)
      else do {
        n \<leftarrow> get_node st member;
        (sb, m) \<leftarrow> emit_string L sb m (p_value (n_key n));
        (sb, m) \<leftarrow> sb_putc L m sb 58;
        (sb, m) \<leftarrow> ev sb m member;
        (sb, m) \<leftarrow> (if n_next n \<noteq> None then sb_putc L m sb 44 else Some (sb, m));
        emit_object_loop k L st ev sb m (n_next n)
      })"

definition emit_object :: "nat \<Rightarrow> libc \<Rightarrow> 'd jstate \<Rightarrow> emitter \<Rightarrow> emitter" where
  "emit_object k L st ev sb m obj = do {
     (sb, m) \<leftarrow> sb_putc L m sb 123;
     member \<leftarrow> json_first_child st obj;
     (sb, m) \<leftarrow> emit_object_loop k L st ev sb m member;
     sb_putc L m sb 125
   }"

primrec emit_value :: "nat \<Rightarrow> 'd json_env \<Rightarrow> 'd jstate \<Rightarrow> emitter" where
  "emit_value 0 E st sb m node = None"
| "emit_value (Suc k) E st sb m node = do {
     n \<leftarrow> get_node st node;
     case n_tag n of
       JSON_NULL \<Rightarrow> puts (e_libc E) sb m lit_null
     | JSON_BOOL \<Rightarrow> puts (e_libc E) sb m (if n_bool n then lit_true else lit_false)
     | JSON_STRING \<Rightarrow> emit_string (e_libc E) sb m (n_string n)
     | JSON_NUMBER \<Rightarrow> emit_number E sb m (n_number n)
     | JSON_ARRAY \<Rightarrow> emit_array k (e_libc E) st (emit_value k E st) sb m node
     | JSON_OBJECT \<Rightarrow> emit_object k (e_libc E) st (emit_value k E st) sb m node
   }"

section \<open>Indented output\<close>

primrec emit_indent :: "nat \<Rightarrow> libc \<Rightarrow> bytes \<Rightarrow> SB \<Rightarrow> blocks \<Rightarrow> (SB \<times> blocks) option" where
  "emit_indent 0 L space sb m = Some (sb, m)"
| "emit_indent (Suc i) L space sb m = do { (sb, m) \<leftarrow> puts L sb m space; emit_indent i L space sb m }"

primrec emit_array_indented_loop :: "nat \<Rightarrow> libc \<Rightarrow> 'd jstate \<Rightarrow> bytes \<Rightarrow> nat \<Rightarrow> emitter \<Rightarrow> emitter" where
  "emit_array_indented_loop 0 L st space indent_level ev sb m element = None"
| "emit_array_indented_loop (Suc k) L st space indent_level ev sb m element =
     (if element = None then Some (sb, m)
      else do {
        (sb, m) \<leftarrow> emit_indent (indent_level + 1) L space sb m;
        (sb, m) \<leftarrow> ev sb m element;
        n \<leftarrow> get_node st element;
        (sb, m) \<leftarrow> puts L sb m (if n_next n \<noteq> None then [44, 10] else [10]);
        emit_array_indented_loop k L st space indent_level ev sb m (n_next n)
      })"

definition emit_array_indented :: "nat \<Rightarrow> libc \<Rightarrow> 'd jstate \<Rightarrow> bytes \<Rightarrow> nat \<Rightarrow> emitter \<Rightarrow> emitter" where
  "emit_array_indented k L st space indent_level ev sb m array = do {
     n \<leftarrow> get_node st array;
     if n_head n = None then puts L sb m [91, 93]
     else do {
       (sb, m) \<leftarrow> puts L sb m [91, 10];
       (sb, m) \<leftarrow> emit_array_indented_loop k L st space indent_level ev sb m (n_head n);
       (sb, m) \<leftarrow> emit_indent indent_level L space sb m;
       sb_putc L m sb 93
     }
   }"

primrec emit_object_indented_loop :: "nat \<Rightarrow> libc \<Rightarrow> 'd jstate \<Rightarrow> bytes \<Rightarrow> nat \<Rightarrow> emitter \<Rightarrow> emitter" where
  "emit_object_indented_loop 0 L st space indent_level ev sb m member = None"
| "emit_object_indented_loop (Suc k) L st space indent_level ev sb m member =
     (if member = None then Some (sb, m)
      else do {
        (sb, m) \<leftarrow> emit_indent (indent_level + 1) L space sb m;
        n \<leftarrow> get_node st member;
        (sb, m) \<leftarrow> emit_string L sb m (p_value (n_key n));
        (sb, m) \<leftarrow> puts L sb m [58, 32];
        (sb, m) \<leftarrow> ev sb m member;
        (sb, m) \<leftarrow> puts L sb m (if n_next n \<noteq> None then [44, 10] else [10]);
        emit_object_indented_loop k L st space indent_level ev sb m (n_next n)
      })"

definition emit_object_indented :: "nat \<Rightarrow> libc \<Rightarrow> 'd jstate \<Rightarrow> bytes \<Rightarrow> nat \<Rightarrow> emitter \<Rightarrow> emitter" where
  "emit_object_indented k L st space indent_level ev sb m obj = do {
     n \<leftarrow> get_node st obj;
     if n_head n = None then puts L sb m [123, 125]
     else do {
       (sb, m) \<leftarrow> puts L sb m [123, 10];
       (sb, m) \<leftarrow> emit_object_indented_loop k L st space indent_level ev sb m (n_head n);
       (sb, m) \<leftarrow> emit_indent indent_level L space sb m;
       sb_putc L m sb 125
     }
   }"

primrec emit_value_indented :: "nat \<Rightarrow> 'd json_env \<Rightarrow> 'd jstate \<Rightarrow> bytes \<Rightarrow> nat \<Rightarrow> emitter" where
  "emit_value_indented 0 E st space indent_level sb m node = None"
| "emit_value_indented (Suc k) E st space indent_level sb m node = do {
     n \<leftarrow> get_node st node;
     case n_tag n of
       JSON_NULL \<Rightarrow> puts (e_libc E) sb m lit_null
     | JSON_BOOL \<Rightarrow> puts (e_libc E) sb m (if n_bool n then lit_true else lit_false)
     | JSON_STRING \<Rightarrow> emit_string (e_libc E) sb m (n_string n)
     | JSON_NUMBER \<Rightarrow> emit_number E sb m (n_number n)
     | JSON_ARRAY \<Rightarrow> emit_array_indented k (e_libc E) st space indent_level
                     (emit_value_indented k E st space (indent_level + 1)) sb m node
     | JSON_OBJECT \<Rightarrow> emit_object_indented k (e_libc E) st space indent_level
                     (emit_value_indented k E st space (indent_level + 1)) sb m node
   }"

section \<open>Entry points\<close>

text \<open>The result is the address of the text, or null, and the memory. The bound \<open>k\<close> is on the depth and
  width of the tree; \<open>space\<close> is null for compact output.\<close>

definition json_stringify ::
    "nat \<Rightarrow> 'd json_env \<Rightarrow> 'd jstate \<Rightarrow> nat option \<Rightarrow> bytes option \<Rightarrow> (nat option \<times> blocks) option" where
  "json_stringify k E st node space =
     (case sb_init (e_libc E) (js_mem st) sb_null of (r, sb, m) \<Rightarrow>
        if r < 0 then Some (None, m)
        else do {
          (sb, m) \<leftarrow> (case space of
                       Some sp \<Rightarrow> emit_value_indented k E st sp 0 sb m node
                     | None \<Rightarrow> emit_value k E st sb m node);
          sb_finish m sb
        })"

definition json_encode :: "nat \<Rightarrow> 'd json_env \<Rightarrow> 'd jstate \<Rightarrow> nat option \<Rightarrow> (nat option \<times> blocks) option" where
  "json_encode k E st node = json_stringify k E st node None"

definition json_encode_property :: "nat \<Rightarrow> 'd json_env \<Rightarrow> 'd jstate \<Rightarrow> nat option \<Rightarrow> (property_t \<times> blocks) option" where
  "json_encode_property k E st node = do {
     (alloc_string, m) \<leftarrow> json_stringify k E st node None;
     if alloc_string = None then Some (p_null, m) else do { t \<leftarrow> p_json m alloc_string; Some (t, m) }
   }"

definition json_encode_string :: "libc \<Rightarrow> blocks \<Rightarrow> nat option \<Rightarrow> (nat option \<times> blocks) option" where
  "json_encode_string L m str =
     (case sb_init L m sb_null of (r, sb, m) \<Rightarrow>
        if r < 0 then Some (None, m)
        else do { (sb, m) \<leftarrow> emit_string L sb m str; sb_finish m sb })"

section \<open>Checking\<close>

text \<open>\<open>json_check\<close> without the message text: it returns false at the first problem. A \<open>bool\<close> is always
  false or true.\<close>

definition key_is_valid :: "blocks \<Rightarrow> property_t \<Rightarrow> bool option" where
  "key_is_valid m k = (case p_value k of None \<Rightarrow> Some True | Some a \<Rightarrow> do { s \<leftarrow> m a; utf8_validate s })"

primrec check_children ::
    "nat \<Rightarrow> 'd jstate \<Rightarrow> (nat option \<Rightarrow> bool option) \<Rightarrow> nat option \<Rightarrow> 'd JsonNode \<Rightarrow> nat option \<Rightarrow> nat option \<Rightarrow> nat option \<Rightarrow>
     (nat option) option option" where
  "check_children 0 st chk node n hd0 child last_child = None"
| "check_children (Suc k) st chk node n hd0 child last_child =
     (if child = None then Some (Some last_child)
      else do {
        c \<leftarrow> get_node st child;
        if child = node then Some None
        else if n_next c = child then Some None
        else if n_next c = hd0 then Some None
        else if n_parent c \<noteq> node then Some None
        else do {
          back \<leftarrow> (if n_next c \<noteq> None then do { d \<leftarrow> get_node st (n_next c); Some (n_prev d = child) } else Some True);
          if \<not> back then Some None
          else if n_tag n = JSON_ARRAY \<and> p_value (n_key c) \<noteq> None then Some None
          else if n_tag n = JSON_OBJECT \<and> p_value (n_key c) \<noteq> None then Some None
          else do {
            ok \<leftarrow> chk child;
            if \<not> ok then Some None else check_children k st chk node n hd0 (n_next c) child
          }
        }
      })"

primrec json_check :: "nat \<Rightarrow> 'd jstate \<Rightarrow> nat option \<Rightarrow> bool option" where
  "json_check 0 st node = None"
| "json_check (Suc k) st node = do {
     n \<leftarrow> get_node st node;
     kv \<leftarrow> key_is_valid (js_mem st) (n_key n);
     if \<not> kv then Some False
     else if n_tag n = JSON_STRING then
       (case n_string n of None \<Rightarrow> Some False | Some a \<Rightarrow> do { s \<leftarrow> js_mem st a; utf8_validate s })
     else if n_tag n = JSON_ARRAY \<or> n_tag n = JSON_OBJECT then
       (if n_head n = None \<or> n_tail n = None then Some (n_head n = None \<and> n_tail n = None)
        else do {
          h \<leftarrow> get_node st (n_head n);
          if n_prev h \<noteq> None then Some False
          else do {
            r \<leftarrow> check_children k st (json_check k st) node n (n_head n) (n_head n) None;
            case r of None \<Rightarrow> Some False | Some last_child \<Rightarrow> Some (last_child = n_tail n)
          }
        })
     else Some True
   }"

end
