(* ===== verification/Json_Grammar.thy ===== *)
theory Json_Grammar
  imports Json_Parse
begin

text \<open>
  The specification of the parser: the JSON grammar as an inductive relation, and the proof that
  \<open>parse_value\<close> decides it. \<open>jval E s v s'\<close> says that the text \<open>s\<close> starts with a JSON value \<open>v\<close> and goes
  on with \<open>s'\<close>. On a terminated text the parser never performs an undefined operation; it returns true
  exactly on the texts of the relation; with an output pointer it builds a tree for the value in
  objects of its own, and when it fails all memory has been given back.
\<close>

unbundle bit_operations_syntax

section \<open>The grammar\<close>

text \<open>The characters of a string literal after the opening quotation mark.\<close>

inductive jchars :: "bytes \<Rightarrow> bytes \<Rightarrow> bytes \<Rightarrow> bool" where
  jc_end: "jchars (34 # s) [] s"
| jc_char: "deref s \<noteq> Some 34 \<Longrightarrow> parse_char s = Some (Some (bs, s')) \<Longrightarrow> jchars s' cs s'' \<Longrightarrow> jchars s (bs @ cs) s''"

definition starts_number :: "bytes \<Rightarrow> bool" where
  "starts_number s \<longleftrightarrow> deref s \<notin> Some ` {110, 102, 116, 34, 91, 123}"

inductive jval :: "'d json_env \<Rightarrow> bytes \<Rightarrow> 'd json \<Rightarrow> bytes \<Rightarrow> bool"
  and jelems :: "'d json_env \<Rightarrow> bytes \<Rightarrow> 'd json list \<Rightarrow> bytes \<Rightarrow> bool"
  and jpair :: "'d json_env \<Rightarrow> bytes \<Rightarrow> bytes \<Rightarrow> 'd json \<Rightarrow> bytes \<Rightarrow> bool"
  and jmembers :: "'d json_env \<Rightarrow> bytes \<Rightarrow> (bytes \<times> 'd json) list \<Rightarrow> bytes \<Rightarrow> bool"
  for E :: "'d json_env" where
  j_null: "jval E (110 # 117 # 108 # 108 # s) Null s"
| j_false: "jval E (102 # 97 # 108 # 115 # 101 # s) (Bool False) s"
| j_true: "jval E (116 # 114 # 117 # 101 # s) (Bool True) s"
| j_str: "jchars s cs s' \<Longrightarrow> jval E (34 # s) (Str cs) s'"
| j_num: "starts_number s \<Longrightarrow> parse_number s = Some (Some s') \<Longrightarrow> jval E s (Num (fp_strtod (e_fpu E) s)) s'"
| j_empty_array: "skip_space s = Some (93 # s') \<Longrightarrow> jval E (91 # s) (Arr []) s'"
| j_array: "skip_space s = Some t \<Longrightarrow> deref t \<noteq> Some 93 \<Longrightarrow> jelems E t vs s' \<Longrightarrow> jval E (91 # s) (Arr vs) s'"
| j_empty_object: "skip_space s = Some (125 # s') \<Longrightarrow> jval E (123 # s) (Obj []) s'"
| j_object: "skip_space s = Some t \<Longrightarrow> deref t \<noteq> Some 125 \<Longrightarrow> jmembers E t kvs s' \<Longrightarrow> jval E (123 # s) (Obj kvs) s'"
| je_last: "jval E s v t \<Longrightarrow> skip_space t = Some (93 # s') \<Longrightarrow> jelems E s [v] s'"
| je_more: "jval E s v t \<Longrightarrow> skip_space t = Some (44 # u) \<Longrightarrow> skip_space u = Some w \<Longrightarrow> jelems E w vs s' \<Longrightarrow>
    jelems E s (v # vs) s'"
| jp: "jchars s k t \<Longrightarrow> skip_space t = Some (58 # u) \<Longrightarrow> skip_space u = Some w \<Longrightarrow> jval E w v x \<Longrightarrow> jpair E (34 # s) k v x"
| jm_last: "jpair E s k v x \<Longrightarrow> skip_space x = Some (125 # s') \<Longrightarrow> jmembers E s [(k, v)] s'"
| jm_more: "jpair E s k v x \<Longrightarrow> skip_space x = Some (44 # y) \<Longrightarrow> skip_space y = Some z \<Longrightarrow> jmembers E z kvs s' \<Longrightarrow>
    jmembers E s ((k, v) # kvs) s'"

inductive_cases jcharsE: "jchars s cs s'"
inductive_cases jvalE: "jval E s v s'"
inductive_cases jelemsE: "jelems E s vs s'"
inductive_cases jpairE: "jpair E s k v s'"
inductive_cases jmembersE: "jmembers E s kvs s'"

lemma starts_number_simps [simp]:
  "\<not> starts_number (110 # s)" "\<not> starts_number (102 # s)" "\<not> starts_number (116 # s)" "\<not> starts_number (34 # s)"
  "\<not> starts_number (91 # s)" "\<not> starts_number (123 # s)"
  by (simp_all add: starts_number_def)

lemma jchars_det: "jchars s cs t \<Longrightarrow> jchars s cs' t' \<Longrightarrow> cs' = cs \<and> t' = t"
proof (induction arbitrary: cs' t' rule: jchars.induct)
  case (jc_end s)
  then show ?case by (auto elim: jcharsE)
next
  case (jc_char s bs s' cs s'')
  from jc_char.prems jc_char.hyps(1,2) show ?case
    by (cases rule: jcharsE) (use jc_char.IH in auto)
qed

text \<open>The grammar is unambiguous.\<close>

lemma jval_det: "jval E s v t \<Longrightarrow> jval E s v' t' \<Longrightarrow> v' = v \<and> t' = t"
  and jelems_det: "jelems E s vs t \<Longrightarrow> jelems E s vs' t' \<Longrightarrow> vs' = vs \<and> t' = t"
  and jpair_det: "jpair E s k v t \<Longrightarrow> jpair E s k' v' t' \<Longrightarrow> k' = k \<and> v' = v \<and> t' = t"
  and jmembers_det: "jmembers E s kvs t \<Longrightarrow> jmembers E s kvs' t' \<Longrightarrow> kvs' = kvs \<and> t' = t"
proof (induction arbitrary: v' t' and vs' t' and k' v' t' and kvs' t' rule: jval_jelems_jpair_jmembers.inducts)
  case (j_str s cs s')
  from j_str.prems show ?case by (rule jvalE) (use jchars_det [OF j_str.hyps(1)] in auto)
next
  case (j_num s s')
  from j_num.prems show ?case by (rule jvalE) (use j_num.hyps in auto)
next
  case (j_array s t vs s')
  from j_array.prems show ?case by (rule jvalE) (use j_array.hyps in \<open>auto dest!: j_array.IH(2)\<close>)
next
  case (j_object s t kvs s')
  from j_object.prems show ?case by (rule jvalE) (use j_object.hyps in \<open>auto dest!: j_object.IH(2)\<close>)
next
  case (je_last s v t s')
  from je_last.prems show ?case by (rule jelemsE) (use je_last.hyps in \<open>auto dest!: je_last.IH(2)\<close>)
next
  case (je_more s v t u w vs s')
  from je_more.prems show ?case by (rule jelemsE) (use je_more.hyps in \<open>auto dest!: je_more.IH(2,4)\<close>)
next
  case (jp s k t u w v x)
  from jp.prems show ?case by (rule jpairE) (use jp.hyps in \<open>auto dest!: jchars_det [OF jp.hyps(1)] jp.IH(2)\<close>)
next
  case (jm_last s k v x s')
  from jm_last.prems show ?case by (rule jmembersE) (use jm_last.hyps in \<open>auto dest!: jm_last.IH(2)\<close>)
next
  case (jm_more s k v x y z kvs s')
  from jm_more.prems show ?case by (rule jmembersE) (use jm_more.hyps in \<open>auto dest!: jm_more.IH(2,4)\<close>)
qed (erule jvalE; simp)+

section \<open>Scanning a terminated text\<close>

abbreviation nt :: "bytes \<Rightarrow> bool" where
  "nt s \<equiv> 0 \<in> set s"

lemma ntE:
  assumes "nt s"
  obtains c t where "s = c # t" and "c \<noteq> 0 \<Longrightarrow> nt t"
  using assms by (cases s) auto

lemma nt_deref: "nt s \<Longrightarrow> \<exists>c. deref s = Some c \<and> s = c # tl s \<and> (c \<noteq> 0 \<longrightarrow> nt (tl s))"
  by (erule ntE) auto

lemma not_space_0 [simp]: "\<not> is_space 0" "\<not> is_digit 0"
  by (simp_all add: is_space_def is_digit_def)

lemma skip_space_nt: "nt s \<Longrightarrow> \<exists>s'. skip_space s = Some s' \<and> nt s' \<and> length s' \<le> length s"
  by (induction s rule: skip_space.induct) auto

lemma skip_digits_nt: "nt s \<Longrightarrow> \<exists>s'. skip_digits s = Some s' \<and> nt s' \<and> length s' \<le> length s"
  by (induction s rule: skip_digits.induct) auto

text \<open>A scanner consumes part of a terminated text without reading behind its terminator.\<close>

definition scans :: "(bytes \<Rightarrow> bytes option option) \<Rightarrow> bytes \<Rightarrow> nat \<Rightarrow> bool" where
  "scans f s n \<longleftrightarrow> (\<exists>r. f s = Some r \<and> (\<forall>s'. r = Some s' \<longrightarrow> nt s' \<and> length s' + n \<le> length s))"

lemma scans_digits1: "nt s \<Longrightarrow> scans digits1 s 1"
proof (erule ntE)
  fix c t assume s: "s = c # t" "c \<noteq> 0 \<Longrightarrow> nt t"
  show ?thesis
  proof (cases "is_digit c")
    case True
    then have "nt t" using s(2) by (cases "c = 0") auto
    with s True skip_digits_nt [of t] show ?thesis by (auto simp: digits1_def scans_def)
  qed (simp add: s digits1_def scans_def)
qed

lemma scans_number_int: "nt s \<Longrightarrow> scans number_int s 1"
proof -
  assume "nt s"
  then obtain c t where s: "s = c # t" "c \<noteq> 0 \<longrightarrow> nt t" "nt s" using nt_deref by blast
  then show ?thesis using scans_digits1 [of s] by (cases "c = 48") (auto simp: scans_def number_int_def)
qed

lemma scans_number_frac: "nt s \<Longrightarrow> scans number_frac s 0"
proof (erule ntE)
  fix c t assume s: "s = c # t" "c \<noteq> 0 \<Longrightarrow> nt t"
  then show ?thesis using scans_digits1 [of t] by (cases "c = 46") (auto simp: scans_def number_frac_def)
qed

lemma scans_number_exp: "nt s \<Longrightarrow> scans number_exp s 0"
proof -
  assume "nt s"
  then obtain c t where s: "s = c # t" "c \<noteq> 0 \<longrightarrow> nt t" "nt s" using nt_deref by blast
  show ?thesis
  proof (cases "c = 69 \<or> c = 101")
    case True
    then have "nt t" using s(2) by auto
    then obtain d u where t: "t = d # u" "d \<noteq> 0 \<longrightarrow> nt u" using nt_deref by blast
    have "scans digits1 (if d = 43 \<or> d = 45 then u else t) 0"
      using scans_digits1 [OF \<open>nt t\<close>] scans_digits1 [of u] t by (auto simp: scans_def)
    with True s(1) t show ?thesis by (auto simp: scans_def number_exp_def split: if_splits)
  qed (use s in \<open>auto simp: scans_def number_exp_def\<close>)
qed

lemma scans_parse_number: "nt s \<Longrightarrow> scans parse_number s 1"
proof -
  assume "nt s"
  then obtain c t where s: "s = c # t" "c \<noteq> 0 \<longrightarrow> nt t" "nt s" using nt_deref by blast
  let ?s = "if c = 45 then t else s"
  have "nt ?s" using s by auto
  from scans_number_int [OF this] s(1) obtain r1 where 1: "number_int ?s = Some r1" "\<And>s'. r1 = Some s' \<Longrightarrow> nt s' \<and> length s' + 1 \<le> length s"
    by (force simp: scans_def split: if_splits)
  have run: "parse_number s = Option.bind (number_int ?s) (\<lambda>r. case r of None \<Rightarrow> Some None
      | Some s \<Rightarrow> Option.bind (number_frac s) (\<lambda>r. case r of None \<Rightarrow> Some None | Some s \<Rightarrow> number_exp s))"
    using s(1) by (simp add: parse_number_def)
  show ?thesis
  proof (cases r1)
    case None
    with 1(1) show ?thesis by (simp add: scans_def run)
  next
    case (Some s1)
    with 1(2) scans_number_frac [of s1] obtain r2 where 2: "number_frac s1 = Some r2"
      "\<And>s'. r2 = Some s' \<Longrightarrow> nt s' \<and> length s' + 1 \<le> length s" by (force simp: scans_def)
    show ?thesis
    proof (cases r2)
      case None
      with 1(1) 2(1) Some show ?thesis by (simp add: scans_def run)
    next
      case (Some s2)
      with 2(2) scans_number_exp [of s2] have "scans number_exp s2 0" "length s2 + 1 \<le> length s" by auto
      with 1(1) 2(1) \<open>r1 = Some s1\<close> Some show ?thesis by (force simp: scans_def run)
    qed
  qed
qed

lemma expect_literal_nt:
  "nt s \<Longrightarrow> 0 \<notin> set str \<Longrightarrow> \<exists>r. expect_literal s str = Some r \<and> (\<forall>s'. r = Some s' \<longleftrightarrow> s = str @ s')"
  by (induction s str rule: expect_literal.induct) auto

section \<open>Characters and strings\<close>

lemma write_char_bytes:
  assumes "scalar u" and "u \<noteq> 0"
  shows "length (utf8_write_char u) \<le> 4" and "0 \<notin> set (utf8_write_char u)" and "utf8_write_char u \<noteq> []"
proof -
  have "unat u \<noteq> 0" using assms(2) by (simp add: unat_eq_zero)
  moreover have z: "(0 :: byte) = c \<longleftrightarrow> unat c = 0" for c by (auto simp: unat_eq_zero)
  ultimately have "length (utf8_write_char u) \<le> 4 \<and> 0 \<notin> set (utf8_write_char u) \<and> utf8_write_char u \<noteq> []"
    by (cases rule: write_char_cases [OF assms(1)]) (simp_all add: z)
  then show "length (utf8_write_char u) \<le> 4" "0 \<notin> set (utf8_write_char u)" "utf8_write_char u \<noteq> []" by auto
qed

lemma not_continuation_0 [simp]: "not_continuation 0"
  by (simp add: not_continuation_def)

lemma utf8_validate_nt:
  assumes "nt s"
  shows "\<exists>n. utf8_validate_cz s = Some n"
proof -
  obtain c t where s: "s = c # t" "c \<noteq> 0 \<longrightarrow> nt t" using nt_deref [OF assms] by blast
  show ?thesis
  proof (cases "c = 0")
    case True
    then show ?thesis by (simp add: s utf8_validate_cz_def)
  next
    case False
    with s nt_deref [of t] obtain d u where t: "t = d # u" "d \<noteq> 0 \<longrightarrow> nt u" by blast
    have "\<exists>e v. u = e # v \<and> (e \<noteq> 0 \<longrightarrow> v \<noteq> [])" if "d \<noteq> 0" using t that nt_deref [of u] by (metis empty_iff list.set(1))
    then show ?thesis by (cases "d = 0") (auto simp: s t utf8_validate_cz_def Let_def deref_def split: list.splits)
  qed
qed

lemma hex_digit_0 [simp]: "hex_digit 0 = None"
  by (simp add: hex_digit_def)

lemma hex16_loop_nt:
  "nt s \<Longrightarrow> \<exists>r. hex16_loop i x s = Some r \<and> (\<forall>v s'. r = Some (v, s') \<longrightarrow> nt s' \<and> length s' + i = length s)"
  by (induction i x s rule: hex16_loop.induct) (auto split: option.splits)

lemma parse_hex16_nt:
  "nt s \<Longrightarrow> \<exists>r. parse_hex16 s = Some r \<and> (\<forall>v s'. r = Some (v, s') \<longrightarrow> nt s' \<and> length s' + 4 = length s)"
  unfolding parse_hex16_def by (rule hex16_loop_nt)

text \<open>What one iteration of the string loop yields on a terminated text.\<close>

definition char_ok :: "bytes \<Rightarrow> (bytes \<times> bytes) option option \<Rightarrow> bool" where
  "char_ok s res \<longleftrightarrow> (\<exists>r. res = Some r \<and>
     (\<forall>bs s'. r = Some (bs, s') \<longrightarrow> nt s' \<and> length s' < length s \<and> length bs \<le> 4 \<and> 0 \<notin> set bs \<and> bs \<noteq> []))"

lemma scalar_bmp:
  assumes "\<not> (uc \<ge> 0xD800 \<and> uc \<le> (0xDFFF :: 16 word))" and "uc \<noteq> 0"
  shows "scalar (ucast uc)" and "(ucast uc :: 32 word) \<noteq> 0"
proof -
  have "unat uc \<le> 0x10FFFF" using u16_bound [of uc] by linarith
  moreover have "\<not> (0xD800 \<le> unat uc \<and> unat uc \<le> 0xDFFF)" using assms(1) by (simp add: word_le_nat_alt)
  ultimately show "scalar (ucast uc)" by (simp add: scalar_def)
  have "unat uc \<noteq> 0" using assms(2) by (simp add: unat_eq_zero)
  then have "unat (ucast uc :: 32 word) \<noteq> 0" by simp
  then show "(ucast uc :: 32 word) \<noteq> 0" by (metis unsigned_0)
qed

lemma from_surrogate_pair_bytes:
  assumes "from_surrogate_pair uc lc = Some u"
  shows "length (utf8_write_char u) \<le> 4 \<and> 0 \<notin> set (utf8_write_char u) \<and> utf8_write_char u \<noteq> []"
proof -
  have "scalar u" "0x10000 \<le> unat u" using from_surrogate_pair_scalar [OF assms] by auto
  then have "u \<noteq> 0" by auto
  with \<open>scalar u\<close> write_char_bytes show ?thesis by blast
qed

lemma parse_unicode_escape_nt:
  assumes "nt s"
  shows "char_ok s (parse_unicode_escape s)"
proof -
  obtain r where r: "parse_hex16 s = Some r" "\<And>v s'. r = Some (v, s') \<Longrightarrow> nt s' \<and> length s' + 4 = length s"
    using parse_hex16_nt [OF assms] by blast
  show ?thesis
  proof (cases r)
    case None
    with r show ?thesis by (simp add: parse_unicode_escape_def char_ok_def)
  next
    case (Some x)
    obtain uc t where x: "x = (uc, t)" by (cases x)
    with Some r have t: "nt t" "length t + 4 = length s" by auto
    obtain c where c: "deref t = Some c" "t = c # tl t" "c \<noteq> 0 \<longrightarrow> nt (tl t)" using nt_deref [OF t(1)] by blast
    show ?thesis
    proof (cases "uc \<ge> 0xD800 \<and> uc \<le> 0xDFFF")
      case False
      with scalar_bmp [OF False] write_char_bytes [of "ucast uc"] r(1) Some x t show ?thesis
        by (cases "uc = 0") (auto simp: parse_unicode_escape_def char_ok_def)
    next
      case True
      show ?thesis
      proof (cases "c = 92")
        case False
        with True c(1) r(1) Some x show ?thesis by (simp add: parse_unicode_escape_def char_ok_def)
      next
        case c92: True
        with c have "nt (tl t)" by auto
        then obtain d where d: "deref (tl t) = Some d" "tl t = d # tl (tl t)" "d \<noteq> 0 \<longrightarrow> nt (tl (tl t))" using nt_deref by blast
        show ?thesis
        proof (cases "d = 117")
          case False
          with True c92 c(1) d(1) r(1) Some x show ?thesis by (simp add: parse_unicode_escape_def char_ok_def)
        next
          case d117: True
          with d have "nt (tl (tl t))" by auto
          then obtain q where q: "parse_hex16 (tl (tl t)) = Some q"
              "\<And>v s'. q = Some (v, s') \<Longrightarrow> nt s' \<and> length s' + 4 = length (tl (tl t))"
            using parse_hex16_nt by blast
          have "length (tl (tl t)) \<le> length t" by simp
          with True c92 d117 c(1) d(1) r(1) Some x q t(2) show ?thesis
            by (auto simp: parse_unicode_escape_def char_ok_def dest: from_surrogate_pair_bytes split: option.splits prod.splits)
        qed
      qed
    qed
  qed
qed

lemma char_ok_shorter: "char_ok t res \<Longrightarrow> length t \<le> length s \<Longrightarrow> char_ok s res"
  by (auto simp: char_ok_def)

lemma parse_char_nt:
  assumes "nt s"
  shows "char_ok s (parse_char s)"
proof -
  obtain c t where s: "s = c # t" "c \<noteq> 0 \<longrightarrow> nt t" using nt_deref [OF assms] by blast
  show ?thesis
  proof (cases "c = 92")
    case True
    with s obtain d u where t: "t = d # u" "d \<noteq> 0 \<longrightarrow> nt u" using nt_deref [of t] by auto
    have "char_ok s (parse_unicode_escape u)" if "d = 117"
    proof -
      have "nt u" using t(2) that by simp
      from char_ok_shorter [OF parse_unicode_escape_nt [OF this]] show ?thesis by (simp add: s t)
    qed
    with True s t show ?thesis by (auto simp: parse_char_def char_ok_def Let_def)
  next
    case False
    show ?thesis
    proof (cases "c \<le> 0x1F")
      case True
      with False s show ?thesis by (simp add: parse_char_def char_ok_def Let_def)
    next
      case big: False
      obtain n where n: "utf8_validate_cz s = Some n" using utf8_validate_nt [OF assms] by blast
      show ?thesis
      proof (cases "n = 0")
        case True
        with False big s n show ?thesis by (simp add: parse_char_def char_ok_def Let_def)
      next
        case pos: False
        from utf8_validate_sound [OF n pos] obtain u where u: "scalar u" "take n s = utf8_write_char u" "length (utf8_write_char u) = n" by blast
        have "c \<noteq> 0" using big by auto
        then have "hd (utf8_write_char u) \<noteq> 0" using u(2) [symmetric] pos s by (cases n) auto
        moreover have "utf8_write_char 0 = [0]" by (simp add: utf8_write_char_def)
        ultimately have "u \<noteq> 0" by auto
        note b = write_char_bytes [OF u(1) this]
        have len: "n \<le> length s" using arg_cong [OF u(2), of length] u(3) by (simp add: min_def split: if_splits)
        have "nt (drop n s)" using assms b(2) append_take_drop_id [of n s] u(2) by (metis Un_iff set_append)
        with False big s n pos u b len show ?thesis
          by (auto simp: parse_char_def char_ok_def Let_def mem_read_def)
      qed
    qed
  qed
qed

text \<open>The string loop without an output buffer.\<close>

lemma string_loop_skip:
  "nt s \<Longrightarrow> \<exists>r. string_loop L False s sb m = Some (m, r) \<and>
     (case r of None \<Rightarrow> \<forall>cs s'. \<not> jchars s cs s'
      | Some (s', p) \<Rightarrow> p = None \<and> nt s' \<and> length s' < length s \<and> (\<exists>cs. jchars s cs s'))"
proof (induction "length s" arbitrary: s rule: less_induct)
  case less
  obtain c t where s: "s = c # t" "c \<noteq> 0 \<longrightarrow> nt t" using nt_deref [OF less.prems] by blast
  show ?case
  proof (cases "c = 34")
    case True
    with s show ?thesis by (subst string_loop.simps) (auto intro: jc_end)
  next
    case False
    obtain r where r: "parse_char s = Some r"
        "\<And>bs s'. r = Some (bs, s') \<Longrightarrow> nt s' \<and> length s' < length s \<and> length bs \<le> 4 \<and> 0 \<notin> set bs"
      using parse_char_nt [OF less.prems] by (auto simp: char_ok_def)
    show ?thesis
    proof (cases r)
      case None
      then have "\<not> jchars s cs s'" for cs s' using r(1) False s by (auto elim: jcharsE)
      with None r(1) False s show ?thesis by (subst string_loop.simps) auto
    next
      case (Some x)
      obtain bs u where x: "x = (bs, u)" by (cases x)
      with Some r(2) have u: "nt u" "length u < length s" "length bs \<le> 4" by auto
      have run: "string_loop L False s sb m = string_loop L False u sb m"
        using r(1) Some x False s u(3) by (subst string_loop.simps) auto
      have chars: "jchars s cs s' \<longleftrightarrow> (\<exists>cs'. cs = bs @ cs' \<and> jchars u cs' s')" for cs s'
        using r(1) Some x False s by (auto elim: jcharsE intro: jc_char)
      from less.hyps [OF u(2,1)] obtain r2 where r2: "string_loop L False u sb m = Some (m, r2)"
          "case r2 of None \<Rightarrow> \<forall>cs s'. \<not> jchars u cs s'
           | Some (s', p) \<Rightarrow> p = None \<and> nt s' \<and> length s' < length u \<and> (\<exists>cs. jchars u cs s')" by blast
      then show ?thesis unfolding run chars using u(2) by (cases r2) auto
    qed
  qed
qed

text \<open>With an output buffer the loop appends the characters to what the buffer holds; on failure the
  buffer has been freed.\<close>

lemma string_loop_build:
  assumes L: "libc_total L" and F: "finite (dom m0)"
  shows "nt s \<Longrightarrow> sb_rep m0 pre sb m \<Longrightarrow> length pre + 4 \<le> sb_end sb \<Longrightarrow> 0 \<notin> set pre \<Longrightarrow>
    \<exists>m' r. string_loop L True s sb m = Some (m', r) \<and>
     (case r of None \<Rightarrow> m' = m0 \<and> (\<forall>cs s'. \<not> jchars s cs s')
      | Some (s', p) \<Rightarrow> nt s' \<and> length s' < length s \<and>
          (\<exists>cs a blk. jchars s cs s' \<and> p = Some a \<and> a \<notin> dom m0 \<and> m' = m0(a \<mapsto> blk) \<and> cstr blk = Some (pre @ cs)))"
proof (induction "length s" arbitrary: s sb m pre rule: less_induct)
  case less
  obtain c t where s: "s = c # t" "c \<noteq> 0 \<longrightarrow> nt t" using nt_deref [OF less.prems(1)] by blast
  show ?case
  proof (cases "c = 34")
    case True
    obtain a blk where "sb_finish m sb = Some (Some a, m0(a \<mapsto> blk))" "a \<notin> dom m0" "cstr blk = Some pre"
      using sb_finish_rep [OF less.prems(2,4)] by blast
    moreover have "jchars s [] t" using s(1) True by (simp add: jc_end)
    ultimately show ?thesis using True s by (subst string_loop.simps) force
  next
    case False
    obtain r where r: "parse_char s = Some r"
        "\<And>bs s'. r = Some (bs, s') \<Longrightarrow> nt s' \<and> length s' < length s \<and> length bs \<le> 4 \<and> 0 \<notin> set bs"
      using parse_char_nt [OF less.prems(1)] by (auto simp: char_ok_def)
    show ?thesis
    proof (cases r)
      case None
      then have "\<not> jchars s cs s'" for cs s' using r(1) False s by (auto elim: jcharsE)
      with None r(1) False s sb_free_rep [OF less.prems(2)] show ?thesis by (subst string_loop.simps) auto
    next
      case (Some x)
      obtain bs u where x: "x = (bs, u)" by (cases x)
      with Some r(2) have u: "nt u" "length u < length s" "length bs \<le> 4" "0 \<notin> set bs" by auto
      have "length pre + length bs \<le> sb_end sb" using less.prems(3) u(3) by simp
      from sb_write_rep [OF less.prems(2) this] obtain sb1 m1 where
        w: "sb_write m sb bs = Some (sb1, m1)" "sb_rep m0 (pre @ bs) sb1 m1" by blast
      obtain sb2 m2 where n: "sb_need L m1 sb1 4 = Some (0, sb2, m2)" "sb_rep m0 (pre @ bs) sb2 m2" "length (pre @ bs) + 4 \<le> sb_end sb2"
        using sb_need_rep [OF L F w(2)] by blast
      have run: "string_loop L True s sb m = string_loop L True u sb2 m2"
        using r(1) Some x False s w(1) n(1) by (subst string_loop.simps) auto
      have chars: "jchars s cs s' \<longleftrightarrow> (\<exists>cs'. cs = bs @ cs' \<and> jchars u cs' s')" for cs s'
        using r(1) Some x False s by (auto elim: jcharsE intro: jc_char)
      have "0 \<notin> set (pre @ bs)" using less.prems(4) u(4) by simp
      from less.hyps [OF u(2,1) n(2,3) this] obtain m' r2 where r2: "string_loop L True u sb2 m2 = Some (m', r2)"
          "case r2 of None \<Rightarrow> m' = m0 \<and> (\<forall>cs s'. \<not> jchars u cs s')
           | Some (s', p) \<Rightarrow> nt s' \<and> length s' < length u \<and>
             (\<exists>cs a blk. jchars u cs s' \<and> p = Some a \<and> a \<notin> dom m0 \<and> m' = m0(a \<mapsto> blk) \<and> cstr blk = Some ((pre @ bs) @ cs))" by blast
      show ?thesis
      proof (cases r2)
        case None
        with r2 run chars show ?thesis by auto
      next
        case (Some y)
        obtain s' p where y: "y = (s', p)" by (cases y)
        with Some r2(2) obtain cs a blk where "nt s'" "length s' < length u" "jchars u cs s'" "p = Some a" "a \<notin> dom m0" "m' = m0(a \<mapsto> blk)"
            "cstr blk = Some (pre @ bs @ cs)" by auto
        moreover from this have "jchars s (bs @ cs) s'" using chars by blast
        ultimately show ?thesis using run r2(1) Some y u(2) by fastforce
      qed
    qed
  qed
qed

text \<open>\<open>parse_string\<close> decides whether the text starts with a string literal. With an output pointer the
  characters are in a new object; otherwise the memory is unchanged.\<close>

definition string_result :: "bool \<Rightarrow> blocks \<Rightarrow> bytes \<Rightarrow> (blocks \<times> (bytes \<times> nat option) option) option \<Rightarrow> bool" where
  "string_result out m s res \<longleftrightarrow> (\<exists>m' r. res = Some (m', r) \<and>
     (case r of None \<Rightarrow> m' = m \<and> (\<forall>t cs s'. s = 34 # t \<longrightarrow> \<not> jchars t cs s')
      | Some (s', p) \<Rightarrow> nt s' \<and> length s' + 2 \<le> length s \<and> (\<exists>t cs. s = 34 # t \<and> jchars t cs s' \<and>
          (if out then \<exists>a blk. p = Some a \<and> a \<notin> dom m \<and> m' = m(a \<mapsto> blk) \<and> cstr blk = Some cs else p = None \<and> m' = m))))"

lemma parse_string_correct:
  assumes "nt s" and "out \<Longrightarrow> libc_total L \<and> finite (dom m)"
  shows "string_result out m s (parse_string L out s m)"
proof -
  obtain c t where s: "s = c # t" "c \<noteq> 0 \<longrightarrow> nt t" using nt_deref [OF assms(1)] by blast
  show ?thesis
  proof (cases "c = 34")
    case False
    with s show ?thesis by (simp add: parse_string_def string_result_def)
  next
    case True
    with s have t: "nt t" by auto
    show ?thesis
    proof (cases out)
      case False
      from string_loop_skip [OF t, of L sb_null m] obtain r where r: "string_loop L False t sb_null m = Some (m, r)"
        "case r of None \<Rightarrow> \<forall>cs s'. \<not> jchars t cs s' | Some (s', p) \<Rightarrow> p = None \<and> nt s' \<and> length s' < length t \<and> (\<exists>cs. jchars t cs s')"
        by blast
      then show ?thesis using False True s by (cases r) (auto simp: parse_string_def string_result_def)
    next
      case o: True
      then have L: "libc_total L" "finite (dom m)" using assms(2) by auto
      obtain sb1 m1 where 1: "sb_init L m sb_null = (0, sb1, m1)" "sb_rep m [] sb1 m1" using sb_init_rep [OF L] by blast
      obtain sb2 m2 where 2: "sb_need L m1 sb1 4 = Some (0, sb2, m2)" "sb_rep m [] sb2 m2" "length ([] :: bytes) + 4 \<le> sb_end sb2"
        using sb_need_rep [OF L 1(2)] by blast
      have "(0 :: byte) \<notin> set []" by simp
      from string_loop_build [OF L t 2(2,3) this] obtain m' r where r: "string_loop L True t sb2 m2 = Some (m', r)"
        "case r of None \<Rightarrow> m' = m \<and> (\<forall>cs s'. \<not> jchars t cs s')
           | Some (s', p) \<Rightarrow> nt s' \<and> length s' < length t \<and>
             (\<exists>cs a blk. jchars t cs s' \<and> p = Some a \<and> a \<notin> dom m \<and> m' = m(a \<mapsto> blk) \<and> cstr blk = Some ([] @ cs))" by blast
      have run: "parse_string L out s m = Some (m', r)" using o True s 1(1) 2(1) r(1) by (simp add: parse_string_def)
      show ?thesis
      proof (cases r)
        case None
        with r(2) run s True show ?thesis by (simp add: string_result_def)
      next
        case (Some y)
        with r(2) run s True o show ?thesis by (auto simp: string_result_def)
      qed
    qed
  qed
qed

section \<open>Building trees\<close>

text \<open>The parser has built a tree of \<open>n\<close> nodes for the value \<open>v\<close> at \<open>p\<close>, on top of the state \<open>st0\<close>
  (without an output pointer it has built nothing).\<close>

definition built :: "bool \<Rightarrow> 'd jstate \<Rightarrow> nat option \<Rightarrow> 'd jstate \<Rightarrow> 'd json \<Rightarrow> nat \<Rightarrow> bool" where
  "built out st p st0 v n \<longleftrightarrow>
     (if out then \<exists>T. p = Some (ja T) \<and> jk T = p_null \<and> owns st T st0 \<and> jabs (js_mem st) T v \<and> length (jaddrs T) = n
      else p = None \<and> st = st0)"

definition keyed :: "bool \<Rightarrow> 'd jstate \<Rightarrow> 'd jstate \<Rightarrow> nat option \<Rightarrow> bytes \<Rightarrow> bool" where
  "keyed out st stk key ks \<longleftrightarrow>
     (if out then \<exists>a blk. key = Some a \<and> a \<notin> dom (js_mem st) \<and> stk = st\<lparr>js_mem := (js_mem st)(a \<mapsto> blk)\<rparr> \<and> cstr blk = Some ks
      else key = None \<and> stk = st)"

definition pre :: "bool \<Rightarrow> 'd json_env \<Rightarrow> 'd jstate \<Rightarrow> bool" where
  "pre out E st \<longleftrightarrow> (out \<longrightarrow> env_ok E \<and> st_fin st)"

lemma built_pre: "built out st p st0 v n \<Longrightarrow> pre out E st0 \<Longrightarrow> pre out E st"
proof -
  assume b: "built out st p st0 v n" and p: "pre out E st0"
  show "pre out E st"
  proof (cases out)
    case True
    with b obtain T where "owns st T st0" by (auto simp: built_def)
    from owns_dom(1,2) [OF this] True p show ?thesis
      unfolding pre_def st_fin_def by (metis finite_Diff2 finite_set)
  qed (simp add: pre_def)
qed

lemma keyed_pre: "keyed out st stk key ks \<Longrightarrow> pre out E st \<Longrightarrow> pre out E stk"
  by (auto simp: keyed_def pre_def st_fin_def split: if_splits)

lemma built_fail:
  assumes "built out st p st0 v n" and "pre out E st0" and "2 * n + 1 \<le> k"
  shows "parse_failure k E st p = Some (st0, None)"
proof (cases out)
  case True
  with assms(1) obtain T where "p = Some (ja T)" "jk T = p_null" "owns st T st0" "length (jaddrs T) = n" by (auto simp: built_def)
  moreover have "e_disp E = std_types" using True assms(2) by (simp add: pre_def env_ok_def)
  ultimately show ?thesis using json_delete_owned [of st T st0 E k] assms(3) by (simp add: parse_failure_def)
next
  case False
  from assms(3) obtain j where "k = Suc j" by (cases k) auto
  with False assms(1) show ?thesis by (simp add: built_def parse_failure_def)
qed

lemma keyed_free: "keyed out st stk key ks \<Longrightarrow> free_key out stk key = Some st"
proof (cases out)
  case True
  moreover assume "keyed out st stk key ks"
  ultimately obtain a blk where "key = Some a" "a \<notin> dom (js_mem st)" "stk = st\<lparr>js_mem := (js_mem st)(a \<mapsto> blk)\<rparr>"
    by (auto simp: keyed_def)
  with True show ?thesis by (simp add: free_key_def json_delete_string_free c_free_def fun_upd_absorb)
qed (simp add: keyed_def free_key_def)

lemma jabs_Arr: "jabs m (JT a k l cs) (Arr vs) \<longleftrightarrow> l = LArr \<and> list_all2 (jabs m) cs vs"
  by (cases l) auto

lemma jabs_Obj:
  "jabs m (JT a k l cs) (Obj kvs) \<longleftrightarrow>
     l = LObj \<and> list_all2 (\<lambda>T kv. str_at m (p_value (jk T)) = Some (fst kv) \<and> jabs m T (snd kv)) cs kvs"
  by (cases l) auto

lemma owns_jabs:
  assumes "owns st2 T st1" and "owns st1 R st0" and "jabs (js_mem st1) R v"
  shows "jabs (js_mem st2) R v"
proof -
  have "\<forall>b \<in> set (jblocks R). js_mem st2 b = js_mem st1 b"
    using owns_dom(4) [OF assms(1)] assms(2) unfolding owns_def by blast
  with assms(3) show ?thesis using jabs_frame' by blast
qed

lemma built_append_element:
  assumes "built out st1 ret st0 (Arr vs) n" and "built out st2 p st1 v m"
  shows "\<exists>st3. (if out then json_append_element st2 ret p else Some st2) = Some st3 \<and> built out st3 ret st0 (Arr (vs @ [v])) (n + m)"
proof (cases out)
  case True
  with assms(1) obtain R where R: "ret = Some (ja R)" "jk R = p_null" "owns st1 R st0" "jabs (js_mem st1) R (Arr vs)" "length (jaddrs R) = n"
    by (auto simp: built_def)
  then obtain a cs where Ra: "R = JT a p_null LArr cs" by (cases R) (auto simp: jabs_Arr simp del: jabs.simps)
  from True assms(2) obtain T where T: "p = Some (ja T)" "jk T = p_null" "owns st2 T st1" "jabs (js_mem st2) T v" "length (jaddrs T) = m"
    by (auto simp: built_def)
  obtain st3 where s3: "json_append_element st2 (Some a) (Some (ja T)) = Some st3" "owns st3 (JT a p_null LArr (cs @ [T])) st0" "js_mem st3 = js_mem st2"
    using append_element_owned [OF R(3) [unfolded Ra] T(3)] by blast
  have "jabs (js_mem st2) R (Arr vs)" by (rule owns_jabs [OF T(3) R(3,4)])
  then have "jabs (js_mem st3) (JT a p_null LArr (cs @ [T])) (Arr (vs @ [v]))"
    using T(4) s3(3) unfolding Ra jabs_Arr by (simp add: list_all2_appendI)
  with s3 R T True show ?thesis unfolding built_def by (auto simp: Ra intro!: exI [of _ "JT a p_null LArr (cs @ [T])"])
next
  case False
  with assms show ?thesis by (simp add: built_def)
qed

lemma built_append_member:
  assumes "built out st1 ret st0 (Obj kvs) n" and "keyed out st1 stk key ks" and "built out st2 p stk v m" and "pre out E st0"
  shows "\<exists>st3. (if out then do { q \<leftarrow> p_json (js_mem st2) key; append_member E st2 ret q p } else Some st2) = Some st3 \<and>
    built out st3 ret st0 (Obj (kvs @ [(ks, v)])) (n + m)"
proof (cases out)
  case True
  with assms(1) obtain R where R: "ret = Some (ja R)" "jk R = p_null" "owns st1 R st0" "jabs (js_mem st1) R (Obj kvs)" "length (jaddrs R) = n"
    by (auto simp: built_def)
  then obtain a cs where Ra: "R = JT a p_null LObj cs" by (cases R) (auto simp: jabs_Obj simp del: jabs.simps)
  from True assms(2) obtain kb blk where K: "key = Some kb" "kb \<notin> dom (js_mem st1)" "stk = st1\<lparr>js_mem := (js_mem st1)(kb \<mapsto> blk)\<rparr>" "cstr blk = Some ks"
    by (auto simp: keyed_def)
  from True assms(3) obtain T where T: "p = Some (ja T)" "jk T = p_null" "owns st2 T stk" "jabs (js_mem st2) T v" "length (jaddrs T) = m"
    by (auto simp: built_def)
  have disp: "e_disp E = std_types" using True assms(4) by (simp add: pre_def env_ok_def)
  obtain q st3 where s3: "p_json (js_mem st2) (Some kb) = Some q" "p_value q = Some kb"
      "append_member E st2 (Some a) q (Some (ja T)) = Some st3" "owns st3 (JT a p_null LObj (cs @ [rekey q T])) st0" "js_mem st3 = js_mem st2"
      "str_at (js_mem st2) (Some kb) = Some ks"
    using append_member_owned [OF R(3) [unfolded Ra] K(2,4) T(3) [unfolded K(3)] T(2) disp] by blast
  have "js_mem st2 b = js_mem st1 b" if "b \<in> set (jblocks R)" for b
  proof -
    have "b \<in> dom (js_mem st1)" using that R(3) unfolding owns_def by blast
    with owns_dom(4) [OF T(3), of b] K(2,3) show ?thesis by (auto simp: domIff)
  qed
  then have "jabs (js_mem st2) R (Obj kvs)" using jabs_frame' R(4) by blast
  then have "jabs (js_mem st3) (JT a p_null LObj (cs @ [rekey q T])) (Obj (kvs @ [(ks, v)]))"
    using T(4) s3(2,5,6) unfolding Ra jabs_Obj by (simp add: list_all2_appendI)
  with s3 R T K True show ?thesis unfolding built_def by (auto simp: Ra intro!: exI [of _ "JT a p_null LObj (cs @ [rekey q T])"])
next
  case False
  with assms show ?thesis by (simp add: built_def keyed_def)
qed

text \<open>The scalar values.\<close>

lemma parse_result_built:
  assumes "out \<Longrightarrow> \<exists>a st'. mk = (Some a, st') \<and> owns st' (JT a p_null l []) st \<and> jabs (js_mem st') (JT a p_null l []) v" and "\<not> out \<Longrightarrow> st1 = st"
  shows "\<exists>st' p. parse_result out s st1 mk = Some (st', Some (s, p)) \<and> built out st' p st v 1"
proof (cases out)
  case True
  with assms(1) obtain a st' where "mk = (Some a, st')" "owns st' (JT a p_null l []) st" "jabs (js_mem st') (JT a p_null l []) v" by blast
  moreover from this have "built out st' (Some a) st v 1"
    using True unfolding built_def by (intro if_P [THEN iffD2] exI [of _ "JT a p_null l []"]) simp_all
  ultimately show ?thesis using True by (simp add: parse_result_def)
next
  case False
  with assms(2) show ?thesis by (simp add: parse_result_def built_def)
qed

section \<open>The parser decides the grammar\<close>

definition value_res :: "bool \<Rightarrow> 'd json_env \<Rightarrow> 'd jstate \<Rightarrow> bytes \<Rightarrow> 'd pres \<Rightarrow> bool" where
  "value_res out E st s res \<longleftrightarrow> (\<exists>st' r. res = Some (st', r) \<and>
     (case r of None \<Rightarrow> st' = st \<and> (\<forall>v s'. \<not> jval E s v s')
      | Some (s', p) \<Rightarrow> nt s' \<and> length s' < length s \<and>
          (\<exists>v n. jval E s v s' \<and> built out st' p st v n \<and> n + length s' \<le> length s)))"

definition elems_res :: "bool \<Rightarrow> 'd json_env \<Rightarrow> 'd jstate \<Rightarrow> bytes \<Rightarrow> nat option \<Rightarrow> 'd json list \<Rightarrow> nat \<Rightarrow> 'd pres \<Rightarrow> bool" where
  "elems_res out E st0 s ret vs0 n res \<longleftrightarrow> (\<exists>st' r. res = Some (st', r) \<and>
     (case r of None \<Rightarrow> st' = st0 \<and> (\<forall>vs s'. \<not> jelems E s vs s')
      | Some (s', p) \<Rightarrow> nt s' \<and> length s' < length s \<and> p = ret \<and>
          (\<exists>vs n'. jelems E s vs s' \<and> built out st' ret st0 (Arr (vs0 @ vs)) n' \<and> n' + length s' \<le> n + length s)))"

lemma value_resE:
  assumes "value_res out E st s res"
  obtains (fail) "res = Some (st, None)" and "\<And>v s'. \<not> jval E s v s'"
  | (ok) st' s' p v n where "res = Some (st', Some (s', p))" and "nt s'" and "length s' < length s" and "jval E s v s'"
      and "built out st' p st v n" and "n + length s' \<le> length s"
proof -
  from assms obtain st' r where r: "res = Some (st', r)"
    "case r of None \<Rightarrow> st' = st \<and> (\<forall>v s'. \<not> jval E s v s')
      | Some (s', p) \<Rightarrow> nt s' \<and> length s' < length s \<and> (\<exists>v n. jval E s v s' \<and> built out st' p st v n \<and> n + length s' \<le> length s)"
    unfolding value_res_def by blast
  show thesis
  proof (cases r)
    case None
    with r fail show thesis by auto
  next
    case (Some y)
    obtain s' p where "y = (s', p)" by (cases y)
    with r Some ok show thesis by auto
  qed
qed

lemma array_loop_correct:
  assumes pv: "\<And>s st. nt s \<Longrightarrow> length s < N \<Longrightarrow> pre out E st \<Longrightarrow> value_res out E st s (pv s st)" and P: "pre out E st0"
  shows "nt s \<Longrightarrow> length s < N \<Longrightarrow> built out st ret st0 (Arr vs0) n \<Longrightarrow> 4 * length s + 2 * n + 4 \<le> k \<Longrightarrow>
    elems_res out E st0 s ret vs0 n (array_loop k E out pv s st ret)"
proof (induction k arbitrary: s st vs0 n)
  case (Suc k)
  note B = Suc.prems(3)
  from pv [OF Suc.prems(1,2) built_pre [OF B P]] show ?case
  proof (cases rule: value_resE)
    case fail
    have "\<not> jelems E s vs s'" for vs s' using fail(2) by (auto elim: jelemsE)
    with fail(1) built_fail [OF B P, of k] Suc.prems(4) show ?thesis by (simp add: elems_res_def)
  next
    case (ok st1 s1 p v m)
    obtain s2 where s2: "skip_space s1 = Some s2" "nt s2" "length s2 \<le> length s1" using skip_space_nt [OF ok(2)] by blast
    obtain c t where c: "s2 = c # t" "c \<noteq> 0 \<longrightarrow> nt t" using nt_deref [OF s2(2)] by blast
    obtain st2 where st2: "(if out then json_append_element st1 ret p else Some st1) = Some st2" "built out st2 ret st0 (Arr (vs0 @ [v])) (n + m)"
      using built_append_element [OF B ok(5)] by blast
    have len: "length t < length s" "n + m + length t \<le> n + length s" "m + length t + 1 \<le> length s" using c s2(3) ok(3,6) by auto
    have one: "jval E s v' s' \<Longrightarrow> v' = v \<and> s' = s1" for v' s' using jval_det [OF ok(4)] by blast
    show ?thesis
    proof (cases "c = 93")
      case True
      with c s2(1) ok(4) have "jelems E s [v] t" by (auto intro: je_last)
      with True ok(1) s2(1) c st2 len show ?thesis by (force simp: elems_res_def)
    next
      case n93: False
      show ?thesis
      proof (cases "c = 44")
        case False
        have "\<not> jelems E s vs s'" for vs s'
        proof
          assume "jelems E s vs s'"
          then show False by (rule jelemsE) (use n93 False s2(1) c(1) in \<open>auto dest!: one\<close>)
        qed
        with n93 False ok(1) s2(1) c st2 built_fail [OF st2(2) P, of k] Suc.prems(4) ok(6) show ?thesis by (simp add: elems_res_def)
      next
        case True
        then have "nt t" using c(2) by simp
        then obtain s3 where s3: "skip_space t = Some s3" "nt s3" "length s3 \<le> length t" using skip_space_nt by blast
        have k3: "4 * length s3 + 2 * (n + m) + 4 \<le> k" using Suc.prems(4) s3(3) len by simp
        have elems: "jelems E s vs s' \<longleftrightarrow> (\<exists>vs'. vs = v # vs' \<and> jelems E s3 vs' s')" for vs s'
        proof
          assume "jelems E s vs s'"
          then show "\<exists>vs'. vs = v # vs' \<and> jelems E s3 vs' s'"
            by (rule jelemsE) (use n93 True s2(1) c(1) s3(1) in \<open>auto dest!: one\<close>)
        next
          assume "\<exists>vs'. vs = v # vs' \<and> jelems E s3 vs' s'"
          then show "jelems E s vs s'" using je_more [OF ok(4)] s2(1) c(1) True s3(1) by blast
        qed
        have "length s3 < N" using s3(3) len(1) Suc.prems(2) by simp
        from Suc.IH [OF s3(2) this st2(2) k3] obtain st' r where r: "array_loop k E out pv s3 st2 ret = Some (st', r)"
          "case r of None \<Rightarrow> st' = st0 \<and> (\<forall>vs s'. \<not> jelems E s3 vs s')
           | Some (s', p) \<Rightarrow> nt s' \<and> length s' < length s3 \<and> p = ret \<and>
             (\<exists>vs n'. jelems E s3 vs s' \<and> built out st' ret st0 (Arr ((vs0 @ [v]) @ vs)) n' \<and> n' + length s' \<le> n + m + length s3)"
          unfolding elems_res_def by blast
        have run: "array_loop (Suc k) E out pv s st ret = Some (st', r)" using True n93 ok(1) s2(1) c st2(1) s3(1) r(1) by simp
        show ?thesis
        proof (cases r)
          case None
          with r(2) run elems show ?thesis by (simp add: elems_res_def)
        next
          case (Some y)
          obtain s' q where y: "y = (s', q)" by (cases y)
          with Some r(2) obtain vs n' where h: "nt s'" "length s' < length s3" "q = ret" "jelems E s3 vs s'"
            "built out st' ret st0 (Arr (vs0 @ v # vs)) n'" "n' + length s' \<le> n + m + length s3" by auto
          have "n' + length s' \<le> n + length s" "length s' < length s" using h(2,6) s3(3) len by auto
          moreover have "jelems E s (v # vs) s'" using elems h(4) by blast
          ultimately show ?thesis using run Some y h(1,3,5) unfolding elems_res_def by auto
        qed
      qed
    qed
  qed
qed simp

definition members_res ::
    "bool \<Rightarrow> 'd json_env \<Rightarrow> 'd jstate \<Rightarrow> bytes \<Rightarrow> nat option \<Rightarrow> (bytes \<times> 'd json) list \<Rightarrow> nat \<Rightarrow> 'd pres \<Rightarrow> bool" where
  "members_res out E st0 s ret kvs0 n res \<longleftrightarrow> (\<exists>st' r. res = Some (st', r) \<and>
     (case r of None \<Rightarrow> st' = st0 \<and> (\<forall>kvs s'. \<not> jmembers E s kvs s')
      | Some (s', p) \<Rightarrow> nt s' \<and> length s' < length s \<and> p = ret \<and>
          (\<exists>kvs n'. jmembers E s kvs s' \<and> built out st' ret st0 (Obj (kvs0 @ kvs)) n' \<and> n' + length s' \<le> n + length s)))"

text \<open>A key, the colon and the value of one member.\<close>

lemma parse_key:
  assumes "nt s" and "pre out E st"
  obtains (fail) "parse_string (e_libc E) out s (js_mem st) = Some (js_mem st, None)" and "\<And>k v x. \<not> jpair E s k v x"
  | (key) stk t s1 key ks where "parse_string (e_libc E) out s (js_mem st) = Some (js_mem stk, Some (s1, key))"
      and "keyed out st stk key ks" and "st\<lparr>js_mem := js_mem stk\<rparr> = stk" and "nt s1" and "length s1 + 2 \<le> length s"
      and "s = 34 # t" and "jchars t ks s1"
proof -
  have "string_result out (js_mem st) s (parse_string (e_libc E) out s (js_mem st))"
    by (rule parse_string_correct [OF assms(1)]) (use assms(2) in \<open>simp add: pre_def env_ok_def st_fin_def\<close>)
  then obtain m' r where r: "parse_string (e_libc E) out s (js_mem st) = Some (m', r)"
    "case r of None \<Rightarrow> m' = js_mem st \<and> (\<forall>t cs s'. s = 34 # t \<longrightarrow> \<not> jchars t cs s')
      | Some (s', p) \<Rightarrow> nt s' \<and> length s' + 2 \<le> length s \<and> (\<exists>t cs. s = 34 # t \<and> jchars t cs s' \<and>
          (if out then \<exists>a blk. p = Some a \<and> a \<notin> dom (js_mem st) \<and> m' = (js_mem st)(a \<mapsto> blk) \<and> cstr blk = Some cs
           else p = None \<and> m' = js_mem st))"
    unfolding string_result_def by blast
  show thesis
  proof (cases r)
    case None
    then have "\<not> jpair E s k v x" for k v x using r(2) by (auto elim: jpairE)
    with None r fail show thesis by auto
  next
    case (Some y)
    obtain s1 p where y: "y = (s1, p)" by (cases y)
    with Some r(2) obtain t cs where h: "nt s1" "length s1 + 2 \<le> length s" "s = 34 # t" "jchars t cs s1"
      "if out then \<exists>a blk. p = Some a \<and> a \<notin> dom (js_mem st) \<and> m' = (js_mem st)(a \<mapsto> blk) \<and> cstr blk = Some cs
       else p = None \<and> m' = js_mem st" by auto
    have "keyed out st (st\<lparr>js_mem := m'\<rparr>) p cs" using h(5) by (auto simp: keyed_def split: if_splits)
    with key [of "st\<lparr>js_mem := m'\<rparr>" s1 p cs t] h r(1) Some y show thesis by simp
  qed
qed

lemma object_loop_correct:
  assumes pv: "\<And>s st. nt s \<Longrightarrow> length s < N \<Longrightarrow> pre out E st \<Longrightarrow> value_res out E st s (pv s st)" and P: "pre out E st0"
  shows "nt s \<Longrightarrow> length s < N \<Longrightarrow> built out st ret st0 (Obj kvs0) n \<Longrightarrow> 4 * length s + 2 * n + 4 \<le> k \<Longrightarrow>
    members_res out E st0 s ret kvs0 n (object_loop k E out pv s st ret)"
proof (induction k arbitrary: s st kvs0 n)
  case (Suc k)
  note B = Suc.prems(3)
  have fail_k: "parse_failure k E st ret = Some (st0, None)" using built_fail [OF B P, of k] Suc.prems(4) by simp
  from Suc.prems(1) built_pre [OF B P] show ?case
  proof (cases rule: parse_key)
    case fail
    have "\<not> jmembers E s kvs s'" for kvs s' using fail(2) by (auto elim: jmembersE)
    with fail(1) fail_k show ?thesis by (simp add: members_res_def)
  next
    case (key stk t s1 kp ks)
    have fk: "free_key out stk kp = Some st" by (rule keyed_free [OF key(2)])
    obtain s2 where s2: "skip_space s1 = Some s2" "nt s2" "length s2 \<le> length s1" using skip_space_nt [OF key(4)] by blast
    obtain c u where c: "s2 = c # u" "c \<noteq> 0 \<longrightarrow> nt u" using nt_deref [OF s2(2)] by blast
    have ch: "jchars t k' x' \<Longrightarrow> k' = ks \<and> x' = s1" for k' x' using jchars_det [OF key(7)] by blast
    show ?thesis
    proof (cases "c = 58")
      case False
      have "\<not> jpair E s k v x" for k v x using False key(6) s2(1) c(1) by (auto elim!: jpairE dest!: ch)
      then have "\<not> jmembers E s kvs s'" for kvs s' by (auto elim: jmembersE)
      with False key(1,3) s2(1) c(1) fk fail_k show ?thesis by (simp add: members_res_def)
    next
      case True
      then have "nt u" using c(2) by simp
      then obtain w where w: "skip_space u = Some w" "nt w" "length w \<le> length u" using skip_space_nt by blast
      have "length w < N" using w(3) c(1) s2(3) key(5) Suc.prems(2) by simp
      from pv [OF w(2) this keyed_pre [OF key(2) built_pre [OF B P]]] show ?thesis
      proof (cases rule: value_resE)
        case fail
        have "\<not> jpair E s k v x" for k v x using fail(2) True key(6) s2(1) c(1) w(1) by (auto elim!: jpairE dest!: ch)
        then have "\<not> jmembers E s kvs s'" for kvs s' by (auto elim: jmembersE)
        with True fail(1) key(1,3) s2(1) c(1) w(1) fk fail_k show ?thesis by (simp add: members_res_def)
      next
        case (ok st1 x p v m)
        have pair: "jpair E s ks v x" unfolding key(6) using key(7) s2(1) c(1) True w(1) ok(4) by (auto intro: jp)
        have one: "jpair E s k' v' x' \<Longrightarrow> k' = ks \<and> v' = v \<and> x' = x" for k' v' x' using jpair_det [OF pair] by blast
        obtain x2 where x2: "skip_space x = Some x2" "nt x2" "length x2 \<le> length x" using skip_space_nt [OF ok(2)] by blast
        obtain d y where d: "x2 = d # y" "d \<noteq> 0 \<longrightarrow> nt y" using nt_deref [OF x2(2)] by blast
        obtain st2 where st2: "(if out then do { q \<leftarrow> p_json (js_mem st1) kp; append_member E st1 ret q p } else Some st1) = Some st2"
            "built out st2 ret st0 (Obj (kvs0 @ [(ks, v)])) (n + m)"
          using built_append_member [OF B key(2) ok(5) P] by blast
        have len: "length y < length s" "n + m + length y \<le> n + length s" "m + length y + 1 \<le> length s"
          using d x2(3) ok(3,6) w(3) c(1) s2(3) key(5) by auto
        show ?thesis
        proof (cases "d = 125")
          case d125: True
          with d x2(1) pair have "jmembers E s [(ks, v)] y" by (auto intro: jm_last)
          with d125 True key(1,3) s2(1) c w(1) ok(1) x2(1) d st2 len show ?thesis by (force simp: members_res_def)
        next
          case n125: False
          show ?thesis
          proof (cases "d = 44")
            case n44: False
            have "\<not> jmembers E s kvs s'" for kvs s'
            proof
              assume "jmembers E s kvs s'"
              then show False by (rule jmembersE) (use n125 n44 x2(1) d(1) in \<open>auto dest!: one\<close>)
            qed
            with n44 n125 True key(1,3) s2(1) c(1) w(1) ok(1) x2(1) d(1) st2(1) built_fail [OF st2(2) P, of k] Suc.prems(4) len(3)
            show ?thesis by (simp add: members_res_def)
          next
            case d44: True
            then have "nt y" using d(2) by simp
            then obtain z where z: "skip_space y = Some z" "nt z" "length z \<le> length y" using skip_space_nt by blast
            have k3: "4 * length z + 2 * (n + m) + 4 \<le> k" using Suc.prems(4) z(3) len by simp
            have mem: "jmembers E s kvs s' \<longleftrightarrow> (\<exists>kvs'. kvs = (ks, v) # kvs' \<and> jmembers E z kvs' s')" for kvs s'
            proof
              assume "jmembers E s kvs s'"
              then show "\<exists>kvs'. kvs = (ks, v) # kvs' \<and> jmembers E z kvs' s'"
                by (rule jmembersE) (use n125 d44 x2(1) d(1) z(1) in \<open>auto dest!: one\<close>)
            next
              assume "\<exists>kvs'. kvs = (ks, v) # kvs' \<and> jmembers E z kvs' s'"
              then show "jmembers E s kvs s'" using jm_more [OF pair] x2(1) d(1) d44 z(1) by blast
            qed
            have "length z < N" using z(3) len(1) Suc.prems(2) by simp
            from Suc.IH [OF z(2) this st2(2) k3] obtain st' r where r: "object_loop k E out pv z st2 ret = Some (st', r)"
              "case r of None \<Rightarrow> st' = st0 \<and> (\<forall>kvs s'. \<not> jmembers E z kvs s')
               | Some (s', p) \<Rightarrow> nt s' \<and> length s' < length z \<and> p = ret \<and>
                 (\<exists>kvs n'. jmembers E z kvs s' \<and> built out st' ret st0 (Obj ((kvs0 @ [(ks, v)]) @ kvs)) n' \<and> n' + length s' \<le> n + m + length z)"
              unfolding members_res_def by blast
            have run: "object_loop (Suc k) E out pv s st ret = Some (st', r)"
              using True n125 d44 key(1,3) s2(1) c(1) w(1) ok(1) x2(1) d(1) st2(1) z(1) r(1) by simp
            show ?thesis
            proof (cases r)
              case None
              with r(2) run mem show ?thesis by (simp add: members_res_def)
            next
              case (Some y')
              obtain s' q where y': "y' = (s', q)" by (cases y')
              with Some r(2) obtain kvs n' where h: "nt s'" "length s' < length z" "q = ret" "jmembers E z kvs s'"
                "built out st' ret st0 (Obj (kvs0 @ (ks, v) # kvs)) n'" "n' + length s' \<le> n + m + length z" by auto
              have "n' + length s' \<le> n + length s" "length s' < length s" using h(2,6) z(3) len by auto
              moreover have "jmembers E s ((ks, v) # kvs) s'" using mem h(4) by blast
              ultimately show ?thesis using run Some y' h(1,3,5) unfolding members_res_def by auto
            qed
          qed
        qed
      qed
    qed
  qed
qed simp

lemma array_value:
  assumes pv: "\<And>s st. nt s \<Longrightarrow> length s < N \<Longrightarrow> pre out E st \<Longrightarrow> value_res out E st s (pv s st)" and P: "pre out E st"
    and s: "s = 91 # t" "nt t" "length t < N" "4 * length t + 6 \<le> k"
  shows "value_res out E st s (parse_array k E out pv s st)"
proof -
  obtain ret st1 where mk: "(if out then json_mkarray E st else (None, st)) = (ret, st1)" "built out st1 ret st (Arr []) 1"
  proof (cases out)
    case True
    with P json_mk_owns(4) [of E st] obtain a st' where "json_mkarray E st = (Some a, st')" "owns st' (JT a p_null LArr []) st"
      by (auto simp: pre_def)
    with True that [of "Some a" st'] show thesis by (force simp: built_def)
  qed (use that [of None st] in \<open>simp add: built_def\<close>)
  obtain u where u: "skip_space t = Some u" "nt u" "length u \<le> length t" using skip_space_nt [OF s(2)] by blast
  obtain c w where c: "u = c # w" "c \<noteq> 0 \<longrightarrow> nt w" using nt_deref [OF u(2)] by blast
  show ?thesis
  proof (cases "c = 93")
    case True
    have "jval E s (Arr []) w" using u(1) c(1) True s(1) by (auto intro: j_empty_array)
    with True c u s mk show ?thesis by (force simp: parse_array_def value_res_def)
  next
    case False
    have arr: "jval E s v s' \<longleftrightarrow> (\<exists>vs. v = Arr vs \<and> jelems E u vs s')" for v s'
      using False u(1) c(1) unfolding s(1) by (auto elim: jvalE intro: j_array)
    have "elems_res out E st u ret [] 1 (array_loop k E out pv u st1 ret)"
      using array_loop_correct [OF pv P u(2) _ mk(2)] u(3) s(3,4) by simp
    then obtain st' r where r: "array_loop k E out pv u st1 ret = Some (st', r)"
      "case r of None \<Rightarrow> st' = st \<and> (\<forall>vs s'. \<not> jelems E u vs s')
       | Some (s', p) \<Rightarrow> nt s' \<and> length s' < length u \<and> p = ret \<and>
          (\<exists>vs n'. jelems E u vs s' \<and> built out st' ret st (Arr ([] @ vs)) n' \<and> n' + length s' \<le> 1 + length u)"
      unfolding elems_res_def by blast
    have run: "parse_array k E out pv s st = Some (st', r)" using False mk(1) s(1) u(1) c(1) r(1) by (simp add: parse_array_def)
    show ?thesis
    proof (cases r)
      case None
      with r(2) run arr show ?thesis by (simp add: value_res_def)
    next
      case (Some y)
      obtain s' p where "y = (s', p)" by (cases y)
      with Some r(2) run arr u(3) s(1) show ?thesis by (force simp: value_res_def)
    qed
  qed
qed

lemma object_value:
  assumes pv: "\<And>s st. nt s \<Longrightarrow> length s < N \<Longrightarrow> pre out E st \<Longrightarrow> value_res out E st s (pv s st)" and P: "pre out E st"
    and s: "s = 123 # t" "nt t" "length t < N" "4 * length t + 6 \<le> k"
  shows "value_res out E st s (parse_object k E out pv s st)"
proof -
  obtain ret st1 where mk: "(if out then json_mkobject E st else (None, st)) = (ret, st1)" "built out st1 ret st (Obj []) 1"
  proof (cases out)
    case True
    with P json_mk_owns(5) [of E st] obtain a st' where "json_mkobject E st = (Some a, st')" "owns st' (JT a p_null LObj []) st"
      by (auto simp: pre_def)
    with True that [of "Some a" st'] show thesis by (force simp: built_def)
  qed (use that [of None st] in \<open>simp add: built_def\<close>)
  obtain u where u: "skip_space t = Some u" "nt u" "length u \<le> length t" using skip_space_nt [OF s(2)] by blast
  obtain c w where c: "u = c # w" "c \<noteq> 0 \<longrightarrow> nt w" using nt_deref [OF u(2)] by blast
  show ?thesis
  proof (cases "c = 125")
    case True
    have "jval E s (Obj []) w" using u(1) c(1) True s(1) by (auto intro: j_empty_object)
    with True c u s mk show ?thesis by (force simp: parse_object_def value_res_def)
  next
    case False
    have obj: "jval E s v s' \<longleftrightarrow> (\<exists>kvs. v = Obj kvs \<and> jmembers E u kvs s')" for v s'
      using False u(1) c(1) unfolding s(1) by (auto elim: jvalE intro: j_object)
    have "members_res out E st u ret [] 1 (object_loop k E out pv u st1 ret)"
      using object_loop_correct [OF pv P u(2) _ mk(2)] u(3) s(3,4) by simp
    then obtain st' r where r: "object_loop k E out pv u st1 ret = Some (st', r)"
      "case r of None \<Rightarrow> st' = st \<and> (\<forall>kvs s'. \<not> jmembers E u kvs s')
       | Some (s', p) \<Rightarrow> nt s' \<and> length s' < length u \<and> p = ret \<and>
          (\<exists>kvs n'. jmembers E u kvs s' \<and> built out st' ret st (Obj ([] @ kvs)) n' \<and> n' + length s' \<le> 1 + length u)"
      unfolding members_res_def by blast
    have run: "parse_object k E out pv s st = Some (st', r)" using False mk(1) s(1) u(1) c(1) r(1) by (simp add: parse_object_def)
    show ?thesis
    proof (cases r)
      case None
      with r(2) run obj show ?thesis by (simp add: value_res_def)
    next
      case (Some y)
      obtain s' p where "y = (s', p)" by (cases y)
      with Some r(2) run obj u(3) s(1) show ?thesis by (force simp: value_res_def)
    qed
  qed
qed

text \<open>Literals, strings and numbers.\<close>

lemma value_resI:
  assumes "\<exists>st' p. res = Some (st', Some (s', p)) \<and> built out st' p st v 1" and "jval E s v s'" and "nt s'" and "length s' < length s"
  shows "value_res out E st s res"
  using assms unfolding value_res_def by fastforce

lemma literal_value:
  assumes "nt s" and "0 \<notin> set l" and "l \<noteq> []"
    and jv: "\<And>v' s'. jval E s v' s' \<longleftrightarrow> v' = v \<and> s = l @ s'"
    and mk: "\<And>s'. \<exists>st' p. parse_result out s' st mk = Some (st', Some (s', p)) \<and> built out st' p st v 1"
  shows "value_res out E st s (do { r \<leftarrow> expect_literal s l; case r of None \<Rightarrow> Some (st, None) | Some s' \<Rightarrow> parse_result out s' st mk })"
proof -
  obtain r where r: "expect_literal s l = Some r" "\<And>s'. r = Some s' \<longleftrightarrow> s = l @ s'" using expect_literal_nt [OF assms(1,2)] by blast
  show ?thesis
  proof (cases r)
    case None
    with r jv show ?thesis by (simp add: value_res_def)
  next
    case (Some s')
    with r(2) have s: "s = l @ s'" by blast
    with assms(1,2) have "nt s'" by auto
    moreover have "length s' < length s" using s assms(3) by simp
    ultimately show ?thesis using mk [of s'] jv [of v s'] s r(1) Some by (auto intro!: value_resI)
  qed
qed

lemma literal_jval:
  "jval E (110 # t) v s' \<longleftrightarrow> v = Null \<and> 110 # t = lit_null @ s'"
  "jval E (102 # t) v s' \<longleftrightarrow> v = Bool False \<and> 102 # t = lit_false @ s'"
  "jval E (116 # t) v s' \<longleftrightarrow> v = Bool True \<and> 116 # t = lit_true @ s'"
  by (auto simp: lit_null_def lit_false_def lit_true_def elim: jvalE intro: j_null j_false j_true)

lemma scalar_built:
  assumes "pre out E st"
  shows "\<exists>st' p. parse_result out s st (json_mknull E st) = Some (st', Some (s, p)) \<and> built out st' p st Null 1"
    and "\<exists>st' p. parse_result out s st (json_mkbool E st b) = Some (st', Some (s, p)) \<and> built out st' p st (Bool b) 1"
    and "\<exists>st' p. parse_result out s st (json_mknumber E st d) = Some (st', Some (s, p)) \<and> built out st' p st (Num d) 1"
proof -
  have e: "out \<Longrightarrow> env_ok E" "out \<Longrightarrow> st_fin st" using assms by (simp_all add: pre_def)
  show "\<exists>st' p. parse_result out s st (json_mknull E st) = Some (st', Some (s, p)) \<and> built out st' p st Null 1"
    by (rule parse_result_built [where l = LNull]) (use json_mk_owns(1) [OF e] in auto)
  show "\<exists>st' p. parse_result out s st (json_mkbool E st b) = Some (st', Some (s, p)) \<and> built out st' p st (Bool b) 1"
    by (rule parse_result_built [where l = "LBool b"]) (use json_mk_owns(2) [OF e, of b] in auto)
  show "\<exists>st' p. parse_result out s st (json_mknumber E st d) = Some (st', Some (s, p)) \<and> built out st' p st (Num d) 1"
    by (rule parse_result_built [where l = "LNum d"]) (use json_mk_owns(3) [OF e, of d] in auto)
qed

lemma string_value:
  assumes "nt s" and "pre out E st" and "s = 34 # t"
  shows "value_res out E st s (do {
       (m, r) \<leftarrow> parse_string (e_libc E) out s (js_mem st);
       let st = st\<lparr>js_mem := m\<rparr>;
       case r of None \<Rightarrow> Some (st, None) | Some (s, str) \<Rightarrow> parse_result out s st (mkstring E st str)
     })"
proof -
  have jv: "jval E s v s' \<longleftrightarrow> (\<exists>cs. v = Str cs \<and> jchars t cs s')" for v s'
    unfolding assms(3) by (auto elim: jvalE intro: j_str)
  have "string_result out (js_mem st) s (parse_string (e_libc E) out s (js_mem st))"
    by (rule parse_string_correct [OF assms(1)]) (use assms(2) in \<open>simp add: pre_def env_ok_def st_fin_def\<close>)
  then obtain m' r where r: "parse_string (e_libc E) out s (js_mem st) = Some (m', r)"
    "case r of None \<Rightarrow> m' = js_mem st \<and> (\<forall>t cs s'. s = 34 # t \<longrightarrow> \<not> jchars t cs s')
      | Some (s', p) \<Rightarrow> nt s' \<and> length s' + 2 \<le> length s \<and> (\<exists>t cs. s = 34 # t \<and> jchars t cs s' \<and>
          (if out then \<exists>a blk. p = Some a \<and> a \<notin> dom (js_mem st) \<and> m' = (js_mem st)(a \<mapsto> blk) \<and> cstr blk = Some cs
           else p = None \<and> m' = js_mem st))"
    unfolding string_result_def by blast
  show ?thesis
  proof (cases r)
    case None
    with r jv assms(3) show ?thesis by (simp add: value_res_def)
  next
    case (Some y)
    obtain s' p where y: "y = (s', p)" by (cases y)
    with Some r(2) assms(3) obtain cs where h: "nt s'" "length s' + 2 \<le> length s" "jchars t cs s'"
      "if out then \<exists>a blk. p = Some a \<and> a \<notin> dom (js_mem st) \<and> m' = (js_mem st)(a \<mapsto> blk) \<and> cstr blk = Some cs
       else p = None \<and> m' = js_mem st" by auto
    have "\<exists>st' q. parse_result out s' (st\<lparr>js_mem := m'\<rparr>) (mkstring E (st\<lparr>js_mem := m'\<rparr>) p) = Some (st', Some (s', q)) \<and> built out st' q st (Str cs) 1"
    proof (rule parse_result_built [where l = "LStr (the p)"])
      assume out
      with h(4) obtain a blk where a: "p = Some a" "a \<notin> dom (js_mem st)" "m' = (js_mem st)(a \<mapsto> blk)" "cstr blk = Some cs" by auto
      with mkstring_owns [of E st a blk] assms(2) \<open>out\<close> show "\<exists>b st'. mkstring E (st\<lparr>js_mem := m'\<rparr>) p = (Some b, st') \<and>
        owns st' (JT b p_null (LStr (the p)) []) st \<and> jabs (js_mem st') (JT b p_null (LStr (the p)) []) (Str cs)"
        by (auto simp: pre_def str_at_def)
    qed (use h(4) in auto)
    moreover have "jval E s (Str cs) s'" using jv h(3) by blast
    ultimately show ?thesis using r(1) Some y h(1,2) by (auto simp: Let_def intro!: value_resI)
  qed
qed

lemma number_value:
  assumes "nt s" and "pre out E st" and "starts_number s"
  shows "value_res out E st s (do {
       r \<leftarrow> parse_number s;
       case r of None \<Rightarrow> Some (st, None)
       | Some s' \<Rightarrow> parse_result out s' st (json_mknumber E st (fp_strtod (e_fpu E) s))
     })"
proof -
  have jv: "jval E s v s' \<longleftrightarrow> v = Num (fp_strtod (e_fpu E) s) \<and> parse_number s = Some (Some s')" for v s'
    using assms(3) by (auto elim: jvalE intro: j_num)
  obtain r where r: "parse_number s = Some r" "\<And>s'. r = Some s' \<Longrightarrow> nt s' \<and> length s' + 1 \<le> length s"
    using scans_parse_number [OF assms(1)] by (auto simp: scans_def)
  show ?thesis
  proof (cases r)
    case None
    with r jv show ?thesis by (simp add: value_res_def)
  next
    case (Some s')
    with r(2) have h: "nt s'" "length s' < length s" by auto
    have "jval E s (Num (fp_strtod (e_fpu E) s)) s'" using jv r(1) Some by simp
    with r(1) Some h scalar_built(3) [OF assms(2), of s'] show ?thesis by (auto intro!: value_resI)
  qed
qed

lemma parse_value_correct:
  "nt s \<Longrightarrow> pre out E st \<Longrightarrow> 4 * length s + 4 \<le> k \<Longrightarrow> value_res out E st s (parse_value k E out s st)"
proof (induction k arbitrary: s st)
  case (Suc k)
  obtain c t where s: "s = c # t" "c \<noteq> 0 \<longrightarrow> nt t" using nt_deref [OF Suc.prems(1)] by blast
  have pv: "value_res out E st s' (parse_value k E out s' st)" if "nt s'" "length s' < length s" "pre out E st" for s' st
    using Suc.IH [OF that(1,3)] that(2) Suc.prems(3) by simp
  have nz: "0 \<notin> set lit_null" "0 \<notin> set lit_false" "0 \<notin> set lit_true" "lit_null \<noteq> []" "lit_false \<noteq> []" "lit_true \<noteq> []"
    by (simp_all add: lit_null_def lit_false_def lit_true_def)
  consider "c = 110" | "c = 102" | "c = 116" | "c = 34" | "c = 91" | "c = 123" | "c \<notin> {110, 102, 116, 34, 91, 123}" by blast
  then show ?case
  proof cases
    case 1
    have "value_res out E st s (do { r \<leftarrow> expect_literal s lit_null; case r of None \<Rightarrow> Some (st, None) | Some s' \<Rightarrow> parse_result out s' st (json_mknull E st) })"
      by (rule literal_value [OF Suc.prems(1) nz(1,4) _ scalar_built(1) [OF Suc.prems(2)]]) (simp add: s(1) 1 literal_jval)
    then show ?thesis using s(1) 1 by simp
  next
    case 2
    have "value_res out E st s (do { r \<leftarrow> expect_literal s lit_false; case r of None \<Rightarrow> Some (st, None) | Some s' \<Rightarrow> parse_result out s' st (json_mkbool E st False) })"
      by (rule literal_value [OF Suc.prems(1) nz(2,5) _ scalar_built(2) [OF Suc.prems(2)]]) (simp add: s(1) 2 literal_jval)
    then show ?thesis using s(1) 2 by simp
  next
    case 3
    have "value_res out E st s (do { r \<leftarrow> expect_literal s lit_true; case r of None \<Rightarrow> Some (st, None) | Some s' \<Rightarrow> parse_result out s' st (json_mkbool E st True) })"
      by (rule literal_value [OF Suc.prems(1) nz(3,6) _ scalar_built(2) [OF Suc.prems(2)]]) (simp add: s(1) 3 literal_jval)
    then show ?thesis using s(1) 3 by simp
  next
    case 4
    with string_value [OF Suc.prems(1,2)] s(1) show ?thesis by simp
  next
    case 5
    have "value_res out E st s (parse_array k E out (parse_value k E out) s st)"
      by (rule array_value [OF pv Suc.prems(2)]) (use s 5 Suc.prems(3) in auto)
    with s(1) 5 show ?thesis by simp
  next
    case 6
    have "value_res out E st s (parse_object k E out (parse_value k E out) s st)"
      by (rule object_value [OF pv Suc.prems(2)]) (use s 6 Suc.prems(3) in auto)
    with s(1) 6 show ?thesis by simp
  next
    case 7
    then have "starts_number s" using s(1) by (auto simp: starts_number_def)
    from number_value [OF Suc.prems(1,2) this] 7 show ?thesis unfolding s(1) by simp
  qed
qed simp

section \<open>Documents\<close>

text \<open>A JSON document: a value with white space around it, up to the terminator.\<close>

definition json_text :: "'d json_env \<Rightarrow> bytes \<Rightarrow> 'd json \<Rightarrow> bool" where
  "json_text E json v \<longleftrightarrow>
     (\<exists>s t u. skip_space json = Some s \<and> jval E s v t \<and> skip_space t = Some (0 # u))"

lemma json_text_det: "json_text E json v \<Longrightarrow> json_text E json v' \<Longrightarrow> v' = v"
  by (auto simp: json_text_def dest: jval_det)

text \<open>What is common to decoding and validating: the outcome of the value parser on the document.\<close>

lemma document_cases:
  assumes "nt json" and "pre out E st"
  obtains (no_value) s where "skip_space json = Some s" and "parse_value (parse_fuel json) E out s st = Some (st, None)"
      and "\<And>v. \<not> json_text E json v"
  | (some_value) s st' t p v n c u where "skip_space json = Some s" and "parse_value (parse_fuel json) E out s st = Some (st', Some (t, p))"
      and "built out st' p st v n" and "2 * n + 1 \<le> parse_fuel json" and "skip_space t = Some (c # u)"
      and "\<And>v'. json_text E json v' \<longleftrightarrow> c = 0 \<and> v' = v"
proof -
  obtain s where s: "skip_space json = Some s" "nt s" "length s \<le> length json" using skip_space_nt [OF assms(1)] by blast
  have "value_res out E st s (parse_value (parse_fuel json) E out s st)"
    by (rule parse_value_correct [OF s(2) assms(2)]) (use s(3) in \<open>simp add: parse_fuel_def\<close>)
  then show thesis
  proof (cases rule: value_resE)
    case fail
    with no_value [OF s(1)] show thesis by (simp add: json_text_def s(1))
  next
    case (ok st' t p v n)
    obtain t' where t': "skip_space t = Some t'" "nt t'" using skip_space_nt [OF ok(2)] by blast
    then obtain c u where c: "t' = c # u" using nt_deref by blast
    have "json_text E json v' \<longleftrightarrow> c = 0 \<and> v' = v" for v'
      using ok(4) t'(1) c s(1) by (auto simp: json_text_def dest: jval_det)
    moreover have "2 * n + 1 \<le> parse_fuel json" using ok(6) s(3) by (simp add: parse_fuel_def)
    ultimately show thesis using some_value [OF s(1) ok(1,5)] t'(1) c by blast
  qed
qed


lemma decode_cases:
  assumes "0 \<in> set json" and "env_ok E" and "st_fin st"
  shows "\<exists>st' p. json_decode E st json = Some (st', p) \<and>
    (case p of
       None \<Rightarrow> st' = st \<and> (\<nexists>v. json_text E json v)
     | Some a \<Rightarrow> \<exists>v T. json_text E json v \<and> ja T = a \<and> owns st' T st \<and> jabs (js_mem st') T v)"
proof -
  have P: "pre True E st" using assms(2,3) by (simp add: pre_def)
  with assms(1) show ?thesis
  proof (cases rule: document_cases)
    case (no_value s)
    then show ?thesis by (simp add: json_decode_def)
  next
    case (some_value s st' t p v n c u)
    from some_value(3) obtain T where T: "p = Some (ja T)" "jk T = p_null" "owns st' T st" "jabs (js_mem st') T v"
      by (auto simp: built_def)
    show ?thesis
    proof (cases "c = 0")
      case True
      with some_value T show ?thesis by (auto simp: json_decode_def)
    next
      case False
      with built_fail [OF some_value(3) P some_value(4)] have "json_delete (parse_fuel json) E st' p = Some st"
        by (auto simp: parse_failure_def c_bind)
      with False some_value show ?thesis by (simp add: json_decode_def)
    qed
  qed
qed

lemma decode_document:
  assumes "0 \<in> set json" and "env_ok E" and "st_fin st" and "json_text E json v"
  obtains st' T where "json_decode E st json = Some (st', Some (ja T))" and "owns st' T st" and "jabs (js_mem st') T v"
proof -
  from decode_cases [OF assms(1-3)] obtain st' p where r: "json_decode E st json = Some (st', p)" and
    c: "case p of None \<Rightarrow> st' = st \<and> (\<nexists>v. json_text E json v)
     | Some a \<Rightarrow> \<exists>v T. json_text E json v \<and> ja T = a \<and> owns st' T st \<and> jabs (js_mem st') T v" by blast
  from c assms(4) obtain a where p: "p = Some a" by (cases p) auto
  with c obtain v' T where "json_text E json v'" "ja T = a" "owns st' T st" "jabs (js_mem st') T v'" by auto
  with json_text_det [OF assms(4)] r p that show thesis by blast
qed


section \<open>An instance\<close>

text \<open>Whole numbers for the floating point library and allocators that take the first free address.\<close>

fun read_dec :: "int \<Rightarrow> bytes \<Rightarrow> int" where
  "read_dec acc [] = acc"
| "read_dec acc (c # s) = (if is_digit c then read_dec (10 * acc + (uint c - 48)) s else acc)"

definition int_fpu :: "int fpu" where
  "int_fpu = \<lparr>fp_zero = 0, fp_strtod = read_dec 0, fp_modf = (\<lambda>d. (d, 0)), fp_is_zero = (\<lambda>d. d = 0), fp_to_int = Some,
     fp_mul1000 = (\<lambda>d. d * 1000), fp_g16 = (\<lambda>d. [])\<rparr>"

definition int_env :: "int json_env" where
  "int_env = \<lparr>e_libc = libc_least, e_node = (\<lambda>N. if finite (dom N) then Some (LEAST a. a \<notin> dom N) else None),
     e_disp = std_types, e_fpu = int_fpu\<rparr>"

definition st_empty :: "int jstate" where
  "st_empty = \<lparr>nodes = Map.empty, js_mem = Map.empty\<rparr>"

lemma int_env_ok: "env_ok int_env"
proof -
  have "(LEAST a. a \<notin> dom N) \<notin> dom N" if "finite (dom N)" for N :: "nat \<rightharpoonup> int JsonNode"
    using ex_new_if_finite [OF infinite_UNIV_nat that] by (rule LeastI_ex)
  then show ?thesis by (auto simp: env_ok_def int_env_def libc_least_total split: if_splits)
qed

lemma st_empty_fin [simp]: "st_fin st_empty"
  by (simp add: st_fin_def st_empty_def)

text \<open>The document \<open>[12]\<close>.\<close>

definition doc :: bytes where "doc = [91, 49, 50, 93, 0]"

lemma doc_text: "json_text int_env doc (Arr [Num 12])"
proof -
  have "jval int_env [49, 50, 93, 0] (Num (fp_strtod (e_fpu int_env) [49, 50, 93, 0])) [93, 0]"
    by (rule j_num) (simp_all add: starts_number_def parse_number_def number_int_def number_frac_def number_exp_def digits1_def is_digit_def)
  then have "jval int_env [49, 50, 93, 0] (Num 12) [93, 0]"
    by (simp add: int_env_def int_fpu_def is_digit_def)
  then have "jelems int_env [49, 50, 93, 0] [Num 12] [0]" by (rule je_last) (simp add: is_space_def)
  then have "jval int_env doc (Arr [Num 12]) [0]" unfolding doc_def by (intro j_array) (simp_all add: is_space_def)
  then show ?thesis by (force simp: json_text_def doc_def is_space_def)
qed

lemma doc_nt [simp]: "0 \<in> set doc"
  by (simp add: doc_def)



end
