(* ===== verification/Json_Print.thy ===== *)
theory Json_Print
  imports Json_Emit Json_Grammar
begin

text \<open>
  Correctness of the JSON printer. \<open>jprint\<close> and \<open>jpretty\<close> say what the compact and the indented text
  of a value are; the emitters write exactly these texts. Both texts are JSON documents of the value,
  so that decoding what was encoded gives the value back.
\<close>

unbundle bit_operations_syntax

section \<open>The text of a string\<close>

text \<open>The characters between the quotation marks, for any string (invalid UTF-8 is replaced).\<close>

function esc :: "bytes \<Rightarrow> bytes" where
  "esc s =
     (if s = [] then []
      else case emit_char False (s @ [0]) of
             None \<Rightarrow> []
           | Some (bs, n) \<Rightarrow> if n = 0 then [] else bs @ esc (drop n s))"
  by pat_completeness auto
termination
  by (relation "measure length") auto

declare esc.simps [simp del]

definition str_text :: "bytes \<Rightarrow> bytes" where
  "str_text s = 34 # esc s @ [34]"

lemma deref_append [simp]: "deref (s @ t) = (if s = [] then deref t else deref s)"
  by (cases s) (simp_all add: deref_def)

lemma utf8_validate_term: "0 \<notin> set s \<Longrightarrow> utf8_validate_cz (s @ 0 # r) = utf8_validate_cz (s @ [0])"
  by (cases s; cases "tl s"; cases "tl (tl s)"; cases "tl (tl (tl s))")
    (auto simp: utf8_validate_cz_def Let_def deref_def split: list.splits)

lemma utf8_valid_within:
  assumes "utf8_validate_cz (s @ 0 # r) = Some n" and "n \<noteq> 0" and "0 \<notin> set s" and "s \<noteq> []"
  shows "n \<le> length s" and "\<exists>u. scalar u \<and> u \<noteq> 0 \<and> take n s = utf8_write_char u \<and> length (utf8_write_char u) = n"
proof -
  from utf8_validate_sound [OF assms(1,2)] obtain u where u: "scalar u" "take n (s @ 0 # r) = utf8_write_char u" "length (utf8_write_char u) = n"
    by blast
  have "hd (utf8_write_char u) \<noteq> 0" using u(2) [symmetric] assms(2-4) by (cases n; cases s) auto
  moreover have "utf8_write_char 0 = [0]" by (simp add: utf8_write_char_def)
  ultimately have nz: "u \<noteq> 0" by auto
  from write_char_bytes(2) [OF u(1) nz] have "0 \<notin> set (take n (s @ 0 # r))" using u(2) by simp
  then show "n \<le> length s" by (rule contrapos_np) (cases "n - length s"; auto)
  with u nz show "\<exists>u. scalar u \<and> u \<noteq> 0 \<and> take n s = utf8_write_char u \<and> length (utf8_write_char u) = n" by auto
qed

lemma hex_chars_nth_nonzero: "i < 16 \<Longrightarrow> hex_chars ! i \<noteq> 0"
proof -
  assume "i < 16"
  moreover have "list_all (\<lambda>i. hex_chars ! i \<noteq> 0) [0..<16]" by code_simp
  ultimately show ?thesis by (auto simp: list_all_iff)
qed

lemma write_hex16_bytes [simp]: "length (write_hex16 v) = 4" "0 \<notin> set (write_hex16 v)"
proof -
  have "unat (w AND 0xF) < 16" for w :: "16 word" unfolding and_mask_mod unat_take_bit by simp
  then show "0 \<notin> set (write_hex16 v)" using hex_chars_nth_nonzero by (auto simp: write_hex16_def)
qed (simp add: write_hex16_def)

text \<open>One iteration on a terminated string: at least one and at most all remaining bytes are read, at
  most twelve are written, and what follows the terminator does not matter.\<close>

lemma emit_char_ok:
  assumes "0 \<notin> set s" and "s \<noteq> []"
  shows "\<exists>bs n. emit_char False (s @ 0 # r) = Some (bs, n) \<and> emit_char False (s @ [0]) = Some (bs, n) \<and> 0 < n \<and> n \<le> length s \<and>
    length bs \<le> 12 \<and> 0 \<notin> set bs"
proof -
  obtain c t where s: "s = c # t" using assms(2) by (cases s) auto
  obtain n where n: "utf8_validate_cz (s @ 0 # r) = Some n" using utf8_validate_nt [of "s @ 0 # r"] by auto
  then have n': "utf8_validate_cz (s @ [0]) = Some n" using utf8_validate_term [OF assms(1), of r] by simp
  show ?thesis
  proof (cases "c \<in> {34, 92, 8, 12, 10, 13, 9} \<or> n = 0")
    case True
    then show ?thesis using n n' unfolding emit_char_def s by auto
  next
    case False
    then have c: "c \<notin> {34, 92, 8, 12, 10, 13, 9}" "n \<noteq> 0" by auto
    note w = utf8_valid_within [OF n c(2) assms]
    show ?thesis
    proof (cases "c < 0x1F")
      case True
      then have "c \<le> 0x7F" by (simp add: word_less_nat_alt word_le_nat_alt)
      moreover have "(ucast c :: 32 word) \<le> 0xFFFF" using True by (simp add: word_le_nat_alt word_less_nat_alt)
      ultimately show ?thesis using c True n n' unfolding emit_char_def s
        by (auto simp: utf8_read_char_def read_at_def)
    next
      case big: False
      from w(2) obtain u where u: "scalar u" "u \<noteq> 0" "take n s = utf8_write_char u" "length (utf8_write_char u) = n" by blast
      note b = write_char_bytes [OF u(1,2)]
      have "emit_char False (s @ 0 # r) = Some (take n s, n)" "emit_char False (s @ [0]) = Some (take n s, n)"
        using c big n n' w(1) unfolding emit_char_def s by (cases n; auto simp: mem_read_def)+
      with u b c(2) w(1) show ?thesis by auto
    qed
  qed
qed

lemma esc_Cons:
  assumes "0 \<notin> set s" and "s \<noteq> []"
  obtains bs n where "emit_char False (s @ 0 # r) = Some (bs, n)" and "0 < n" and "n \<le> length s" and "length bs \<le> 12"
    and "0 \<notin> set bs" and "esc s = bs @ esc (drop n s)"
proof -
  from emit_char_ok [OF assms, of r] obtain bs n where e: "emit_char False (s @ 0 # r) = Some (bs, n)" "emit_char False (s @ [0]) = Some (bs, n)"
    "0 < n" "n \<le> length s" "length bs \<le> 12" "0 \<notin> set bs" by blast
  moreover have "esc s = bs @ esc (drop n s)" using e(2,3) assms(2) by (subst esc.simps) simp
  ultimately show thesis using that by blast
qed

lemma esc_Nil [simp]: "esc [] = []"
  by (simp add: esc.simps)

lemma esc_no_zero: "0 \<notin> set s \<Longrightarrow> 0 \<notin> set (esc s)"
proof (induction "length s" arbitrary: s rule: less_induct)
  case less
  show ?case
  proof (cases "s = []")
    case False
    with less.prems show ?thesis
    proof (rule esc_Cons)
      fix bs n assume h: "0 < n" "n \<le> length s" "0 \<notin> set bs" "esc s = bs @ esc (drop n s)"
      have "0 \<notin> set (drop n s)" using less.prems by (auto dest: in_set_dropD)
      with less.hyps [of "drop n s"] h False show ?thesis by auto
    qed
  qed simp
qed

section \<open>Writing a string\<close>

lemma emit_loop_rep:
  assumes L: "libc_total L" and F: "finite (dom m0)"
  shows "0 \<notin> set s \<Longrightarrow> sb_rep m0 w sb m \<Longrightarrow> length w + 13 \<le> sb_end sb \<Longrightarrow>
    \<exists>sb' m'. emit_loop L sb m (s @ 0 # r) = Some (sb', m') \<and> sb_rep m0 (w @ esc s) sb' m' \<and> length (w @ esc s) + 1 \<le> sb_end sb'"
proof (induction "length s" arbitrary: s sb m w rule: less_induct)
  case less
  show ?case
  proof (cases "s = []")
    case True
    with less.prems show ?thesis by (subst emit_loop.simps) auto
  next
    case False
    from less.prems(1) False obtain bs n where e: "emit_char False (s @ 0 # r) = Some (bs, n)" "0 < n" "n \<le> length s" "length bs \<le> 12"
      "esc s = bs @ esc (drop n s)" by (rule esc_Cons)
    have "length w + length bs \<le> sb_end sb" using less.prems(3) e(4) by simp
    from sb_write_rep [OF less.prems(2) this] obtain sb1 m1 where wr: "sb_write m sb bs = Some (sb1, m1)" "sb_rep m0 (w @ bs) sb1 m1" by blast
    obtain sb2 m2 where q: "sb_need L m1 sb1 14 = Some (0, sb2, m2)" "sb_rep m0 (w @ bs) sb2 m2" "length (w @ bs) + 14 \<le> sb_end sb2"
      using sb_need_rep [OF L F wr(2)] by blast
    have run: "emit_loop L sb m (s @ 0 # r) = emit_loop L sb2 m2 (drop n s @ 0 # r)"
    proof -
      have "deref (s @ 0 # r) = Some (hd s)" "hd s \<noteq> 0" using False less.prems(1) by (cases s; auto simp: deref_def)+
      with e(1,3) wr(1) q(1) show ?thesis by (subst emit_loop.simps) simp
    qed
    have "0 \<notin> set (drop n s)" using less.prems(1) by (auto dest: in_set_dropD)
    moreover have "length (drop n s) < length s" using e(2) False by simp
    ultimately show ?thesis using less.hyps [of "drop n s" "w @ bs" sb2 m2] q(2,3) run e(5) by simp
  qed
qed

lemma emit_string_rep:
  assumes L: "libc_total L" and F: "finite (dom m0)" and R: "sb_rep m0 w sb m" and S: "str_at m0 p = Some s"
  shows "\<exists>sb' m'. emit_string L sb m p = Some (sb', m') \<and> sb_rep m0 (w @ str_text s) sb' m'"
proof -
  from S obtain a blk where a: "p = Some a" "m0 a = Some blk" "cstr blk = Some s" by (auto simp: str_at_def c_bind)
  obtain r where blk: "blk = s @ 0 # r"
  proof -
    from a(3) have "s = takeWhile (\<lambda>c. c \<noteq> 0) blk" "0 \<in> set blk" by (auto simp: cstr_def split: if_splits)
    then show thesis using that takeWhile_dropWhile_id [of "\<lambda>c. c \<noteq> 0" blk] hd_dropWhile [of "\<lambda>c. c \<noteq> 0" blk]
      by (metis (mono_tags, lifting) dropWhile_eq_Nil_conv list.collapse)
  qed
  have nz: "0 \<notin> set s" using a(3) by (rule cstr_no_zero)
  obtain sb1 m1 where 1: "sb_need L m sb 14 = Some (0, sb1, m1)" "sb_rep m0 w sb1 m1" "length w + 14 \<le> sb_end sb1"
    using sb_need_rep [OF L F R] by blast
  then have "length w + length [34 :: byte] \<le> sb_end sb1" by simp
  from sb_write_rep [OF 1(2) this] obtain sb2 m2 where 2: "sb_write m1 sb1 [34] = Some (sb2, m2)" "sb_rep m0 (w @ [34]) sb2 m2" "sb_end sb2 = sb_end sb1"
    by blast
  have ma: "m2 a = Some blk" using sb_rep_le [OF 2(2)] a(2) unfolding map_le_def by (metis domI)
  have "length (w @ [34]) + 13 \<le> sb_end sb2" using 1(3) 2(3) by simp
  from emit_loop_rep [OF L F nz 2(2) this, of r] obtain sb3 m3 where
    3: "emit_loop L sb2 m2 blk = Some (sb3, m3)" "sb_rep m0 ((w @ [34]) @ esc s) sb3 m3" "length ((w @ [34]) @ esc s) + 1 \<le> sb_end sb3"
    unfolding blk by blast
  then have "length ((w @ [34]) @ esc s) + length [34 :: byte] \<le> sb_end sb3" by simp
  from sb_write_rep [OF 3(2) this] obtain sb4 m4 where "sb_write m3 sb3 [34] = Some (sb4, m4)" "sb_rep m0 (((w @ [34]) @ esc s) @ [34]) sb4 m4"
    by blast
  with 1(1) 2(1) 3(1) ma a(1) show ?thesis by (auto simp: emit_string_def str_text_def)
qed

section \<open>Composing emitters\<close>

text \<open>\<open>emits m0 f t\<close>: the emitter \<open>f\<close> appends the text \<open>t\<close> to a buffer in the memory \<open>m0\<close>.\<close>

definition emits :: "blocks \<Rightarrow> (SB \<Rightarrow> blocks \<Rightarrow> (SB \<times> blocks) option) \<Rightarrow> bytes \<Rightarrow> bool" where
  "emits m0 f t \<longleftrightarrow> (\<forall>w sb m. sb_rep m0 w sb m \<longrightarrow> (\<exists>sb' m'. f sb m = Some (sb', m') \<and> sb_rep m0 (w @ t) sb' m'))"

lemma emits_nothing: "emits m0 (\<lambda>sb m. Some (sb, m)) []"
  by (simp add: emits_def)

lemma emits_bind:
  assumes "emits m0 f t" and "emits m0 g u"
  shows "emits m0 (\<lambda>sb m. Option.bind (f sb m) (\<lambda>(sb, m). g sb m)) (t @ u)"
  using assms unfolding emits_def by fastforce

lemma emits_last: "emits m0 f t \<Longrightarrow> emits m0 (\<lambda>sb m. Option.bind (f sb m) (\<lambda>(sb, m). Some (sb, m))) t"
  using emits_bind [OF _ emits_nothing] by fastforce

lemma emits_putc:
  assumes "libc_total L" and "finite (dom m0)"
  shows "emits m0 (\<lambda>sb m. sb_putc L m sb c) [c]"
  using sb_putc_rep [OF assms] unfolding emits_def by blast

lemma emits_puts:
  assumes "libc_total L" and "finite (dom m0)"
  shows "emits m0 (\<lambda>sb m. puts L sb m t) t"
  unfolding emits_def puts_def
proof (intro allI impI)
  fix w sb m assume "sb_rep m0 w sb m"
  from sb_puts_rep [OF assms this, of t]
  show "\<exists>sb' m'. Option.bind (sb_puts L m sb t) (\<lambda>(_, sb, m). Some (sb, m)) = Some (sb', m') \<and> sb_rep m0 (w @ t) sb' m'" by auto
qed

lemma emits_string:
  assumes "libc_total L" and "finite (dom m0)" and "str_at m0 p = Some s"
  shows "emits m0 (\<lambda>sb m. emit_string L sb m p) (str_text s)"
  using emit_string_rep [OF assms(1,2) _ assms(3)] unfolding emits_def by blast

lemma emits_number:
  assumes "libc_total (e_libc E)" and "finite (dom m0)" and "number_text (e_fpu E) d = Some t"
  shows "emits m0 (\<lambda>sb m. emit_number E sb m d) t"
  using emits_puts [OF assms(1,2), of t] assms(3) by (simp add: emit_number_def puts_def)

lemma emits_indent:
  assumes "libc_total L" and "finite (dom m0)"
  shows "emits m0 (emit_indent i L space) (concat (replicate i space))"
proof (induction i)
  case (Suc i)
  show ?case using emits_bind [OF emits_puts [OF assms] Suc.IH] by simp
qed (use emits_nothing in simp)

text \<open>The texts \<open>ts\<close> of a row of siblings, separated by \<open>sep\<close> and ended by \<open>fin\<close>.\<close>

fun rows :: "bytes \<Rightarrow> bytes \<Rightarrow> bytes list \<Rightarrow> bytes" where
  "rows sep fin [] = []"
| "rows sep fin (t # ts) = t @ (if ts = [] then fin else sep) @ rows sep fin ts"

lemma jreps_get:
  assumes "jreps st par prv (T # Ts) None"
  obtains n where "get_node st (Some (ja T)) = Some n" and "n_next n = firstp Ts" and "n_key n = jk T"
  using assms by (cases T) (auto simp: get_node_def node_ok_def)

lemma firstp_None [simp]: "firstp Ts = None \<longleftrightarrow> Ts = []" "(\<exists>y. firstp Ts = Some y) \<longleftrightarrow> Ts \<noteq> []"
  by (simp_all add: firstp_def)

text \<open>What the four loops over siblings have in common.\<close>

definition row_loop :: "blocks \<Rightarrow> 'd jstate \<Rightarrow> bytes \<Rightarrow> bytes \<Rightarrow> ('d jt \<Rightarrow> bytes \<Rightarrow> bool) \<Rightarrow> (nat \<Rightarrow> emitter) \<Rightarrow> bool" where
  "row_loop m0 st sep fin P lp \<longleftrightarrow>
     (\<forall>k. emits m0 (\<lambda>sb m. lp (Suc k) sb m None) []) \<and>
     (\<forall>k T t n r. get_node st (Some (ja T)) = Some n \<longrightarrow> n_key n = jk T \<longrightarrow> P T t \<longrightarrow> emits m0 (\<lambda>sb m. lp k sb m (n_next n)) r \<longrightarrow>
        emits m0 (\<lambda>sb m. lp (Suc k) sb m (Some (ja T))) (t @ (if n_next n = None then fin else sep) @ r))"

lemma row_loop_emits:
  assumes "row_loop m0 st sep fin P lp"
  shows "jreps st par prv Ts None \<Longrightarrow> list_all2 P Ts ts \<Longrightarrow> length Ts < k \<Longrightarrow>
    emits m0 (\<lambda>sb m. lp k sb m (firstp Ts)) (rows sep fin ts)"
proof (induction Ts arbitrary: prv ts k)
  case Nil
  with assms show ?case by (cases k) (simp_all add: row_loop_def)
next
  case (Cons T Ts)
  from Cons.prems(2) obtain t us where ts: "ts = t # us" "P T t" "list_all2 P Ts us" by (auto simp: list_all2_Cons1)
  from Cons.prems(3) obtain k' where k: "k = Suc k'" "length Ts < k'" by (cases k) auto
  obtain n where n: "get_node st (Some (ja T)) = Some n" "n_next n = firstp Ts" "n_key n = jk T" using jreps_get [OF Cons.prems(1)] .
  have "emits m0 (\<lambda>sb m. lp k' sb m (n_next n)) (rows sep fin us)"
    using Cons.IH [OF _ ts(3) k(2)] Cons.prems(1) n(2) by auto
  then have "emits m0 (\<lambda>sb m. lp (Suc k') sb m (Some (ja T))) (t @ (if n_next n = None then fin else sep) @ rows sep fin us)"
    using assms n ts(2) unfolding row_loop_def by blast
  moreover have "us = [] \<longleftrightarrow> Ts = []" using ts(3) by auto
  ultimately show ?case by (simp add: ts(1) k(1) n(2))
qed

lemma emits_if: "(c \<Longrightarrow> emits m0 f t) \<Longrightarrow> (\<not> c \<Longrightarrow> emits m0 g u) \<Longrightarrow> emits m0 (\<lambda>sb m. if c then f sb m else g sb m) (if c then t else u)"
  by simp

lemma array_row_loop:
  assumes "libc_total L" and "finite (dom m0)"
  shows "row_loop m0 st [44] [] (\<lambda>T t. emits m0 (\<lambda>sb m. ev sb m (Some (ja T))) t) (\<lambda>k. emit_array_loop k L st ev)"
  unfolding row_loop_def
proof (intro conjI allI impI)
  fix k T t n r
  assume h: "get_node st (Some (ja T)) = Some n" "emits m0 (\<lambda>sb m. ev sb m (Some (ja T))) t"
    "emits m0 (\<lambda>sb m. emit_array_loop k L st ev sb m (n_next n)) r"
  from emits_bind [OF h(2) emits_bind [OF emits_if [OF emits_putc [OF assms, of 44] emits_nothing, of "n_next n \<noteq> None"] h(3)]]
  show "emits m0 (\<lambda>sb m. emit_array_loop (Suc k) L st ev sb m (Some (ja T))) (t @ (if n_next n = None then [] else [44]) @ r)"
    by (cases "n_next n") (simp_all add: h(1))
qed (simp add: emits_nothing)

text \<open>A member of an object: its key, a colon and its value.\<close>

definition member_text :: "blocks \<Rightarrow> bytes \<Rightarrow> emitter \<Rightarrow> 'd jt \<Rightarrow> bytes \<Rightarrow> bool" where
  "member_text m0 colon ev T t \<longleftrightarrow> (\<exists>ks u. str_at m0 (p_value (jk T)) = Some ks \<and> t = str_text ks @ colon @ u \<and>
     emits m0 (\<lambda>sb m. ev sb m (Some (ja T))) u)"

lemma object_row_loop:
  assumes "libc_total L" and "finite (dom m0)"
  shows "row_loop m0 st [44] [] (member_text m0 [58] ev) (\<lambda>k. emit_object_loop k L st ev)"
  unfolding row_loop_def
proof (intro conjI allI impI)
  fix k T t n r
  assume h: "get_node st (Some (ja T)) = Some n" "n_key n = jk T" "member_text m0 [58] ev T t"
    "emits m0 (\<lambda>sb m. emit_object_loop k L st ev sb m (n_next n)) r"
  from h(3) obtain ks u where m: "str_at m0 (p_value (jk T)) = Some ks" "t = str_text ks @ [58] @ u" "emits m0 (\<lambda>sb m. ev sb m (Some (ja T))) u"
    by (auto simp: member_text_def)
  from emits_bind [OF emits_string [OF assms m(1)] emits_bind [OF emits_putc [OF assms, of 58] emits_bind [OF m(3)
      emits_bind [OF emits_if [OF emits_putc [OF assms, of 44] emits_nothing, of "n_next n \<noteq> None"] h(4)]]]]
  show "emits m0 (\<lambda>sb m. emit_object_loop (Suc k) L st ev sb m (Some (ja T))) (t @ (if n_next n = None then [] else [44]) @ r)"
    by (cases "n_next n") (simp_all add: h(1,2) m(2))
qed (simp add: emits_nothing)

text \<open>In the indented output each line starts with the indentation.\<close>

abbreviation indented :: "nat \<Rightarrow> bytes \<Rightarrow> bytes" where
  "indented i space \<equiv> concat (replicate i space)"

lemma array_indented_row_loop:
  assumes "libc_total L" and "finite (dom m0)"
  shows "row_loop m0 st [44, 10] [10] (\<lambda>T t. \<exists>u. t = indented (Suc i) space @ u \<and> emits m0 (\<lambda>sb m. ev sb m (Some (ja T))) u)
    (\<lambda>k. emit_array_indented_loop k L st space i ev)"
  unfolding row_loop_def
proof (intro conjI allI impI)
  fix k T t n r
  assume h: "get_node st (Some (ja T)) = Some n" "\<exists>u. t = indented (Suc i) space @ u \<and> emits m0 (\<lambda>sb m. ev sb m (Some (ja T))) u"
    "emits m0 (\<lambda>sb m. emit_array_indented_loop k L st space i ev sb m (n_next n)) r"
  from h(2) obtain u where m: "t = indented (Suc i) space @ u" "emits m0 (\<lambda>sb m. ev sb m (Some (ja T))) u" by blast
  from emits_bind [OF emits_indent [OF assms, of "i + 1" space] emits_bind [OF m(2) emits_bind [OF
      emits_puts [OF assms, of "if n_next n \<noteq> None then [44, 10] else [10]"] h(3)]]]
  show "emits m0 (\<lambda>sb m. emit_array_indented_loop (Suc k) L st space i ev sb m (Some (ja T))) (t @ (if n_next n = None then [10] else [44, 10]) @ r)"
    by (cases "n_next n") (simp_all add: h(1) m(1))
qed (simp add: emits_nothing)

lemma object_indented_row_loop:
  assumes "libc_total L" and "finite (dom m0)"
  shows "row_loop m0 st [44, 10] [10] (\<lambda>T t. \<exists>u. t = indented (Suc i) space @ u \<and> member_text m0 [58, 32] ev T u)
    (\<lambda>k. emit_object_indented_loop k L st space i ev)"
  unfolding row_loop_def
proof (intro conjI allI impI)
  fix k T t n r
  assume h: "get_node st (Some (ja T)) = Some n" "n_key n = jk T" "\<exists>u. t = indented (Suc i) space @ u \<and> member_text m0 [58, 32] ev T u"
    "emits m0 (\<lambda>sb m. emit_object_indented_loop k L st space i ev sb m (n_next n)) r"
  from h(3) obtain ks u where m: "str_at m0 (p_value (jk T)) = Some ks" "t = indented (Suc i) space @ str_text ks @ [58, 32] @ u"
    "emits m0 (\<lambda>sb m. ev sb m (Some (ja T))) u" by (auto simp: member_text_def)
  from emits_bind [OF emits_indent [OF assms, of "i + 1" space] emits_bind [OF emits_string [OF assms m(1)] emits_bind [OF
      emits_puts [OF assms, of "[58, 32]"] emits_bind [OF m(3) emits_bind [OF
      emits_puts [OF assms, of "if n_next n \<noteq> None then [44, 10] else [10]"] h(4)]]]]]
  show "emits m0 (\<lambda>sb m. emit_object_indented_loop (Suc k) L st space i ev sb m (Some (ja T))) (t @ (if n_next n = None then [10] else [44, 10]) @ r)"
    by (cases "n_next n") (simp_all add: h(1,2) m(2))
qed (simp add: emits_nothing)

section \<open>The text of a value\<close>

fun nums_ok :: "'d fpu \<Rightarrow> 'd json \<Rightarrow> bool" where
  "nums_ok F (Num d) \<longleftrightarrow> (\<exists>t. number_text F d = Some t \<and> 0 \<notin> set t)"
| "nums_ok F (Arr vs) \<longleftrightarrow> (\<forall>v \<in> set vs. nums_ok F v)"
| "nums_ok F (Obj kvs) \<longleftrightarrow> (\<forall>kv \<in> set kvs. nums_ok F (snd kv))"
| "nums_ok F _ \<longleftrightarrow> True"

fun jprint :: "'d fpu \<Rightarrow> 'd json \<Rightarrow> bytes" where
  "jprint F Null = lit_null"
| "jprint F (Bool b) = (if b then lit_true else lit_false)"
| "jprint F (Str s) = str_text s"
| "jprint F (Num d) = (case number_text F d of None \<Rightarrow> [] | Some t \<Rightarrow> t)"
| "jprint F (Arr vs) = 91 # rows [44] [] (map (jprint F) vs) @ [93]"
| "jprint F (Obj kvs) = 123 # rows [44] [] (map (\<lambda>kv. str_text (fst kv) @ 58 # jprint F (snd kv)) kvs) @ [125]"

fun jpretty :: "'d fpu \<Rightarrow> bytes \<Rightarrow> nat \<Rightarrow> 'd json \<Rightarrow> bytes" where
  "jpretty F space i (Arr vs) =
     (if vs = [] then [91, 93]
      else [91, 10] @ rows [44, 10] [10] (map (\<lambda>v. indented (Suc i) space @ jpretty F space (Suc i) v) vs) @ indented i space @ [93])"
| "jpretty F space i (Obj kvs) =
     (if kvs = [] then [123, 125]
      else [123, 10] @ rows [44, 10] [10] (map (\<lambda>kv. indented (Suc i) space @ str_text (fst kv) @ [58, 32] @ jpretty F space (Suc i) (snd kv)) kvs)
        @ indented i space @ [125])"
| "jpretty F space i v = jprint F v"

lemma list_all2_mapI: "list_all2 Q cs vs \<Longrightarrow> (\<And>T v. T \<in> set cs \<Longrightarrow> v \<in> set vs \<Longrightarrow> Q T v \<Longrightarrow> P T (f v)) \<Longrightarrow> list_all2 P cs (map f vs)"
  by (auto simp: list_all2_conv_all_nth)

lemma jaddrs_width: "length Ts \<le> length (concat (map jaddrs Ts))"
proof (induction Ts)
  case (Cons T Ts)
  then show ?case by (cases T) simp
qed simp

lemma jaddrs_child: "T \<in> set Ts \<Longrightarrow> length (jaddrs T) \<le> length (concat (map jaddrs Ts))"
  by (induction Ts) auto

lemma jreps_member: "jreps st par prv Ts nxt \<Longrightarrow> T \<in> set Ts \<Longrightarrow> \<exists>p n. jrep st par p n T"
  by (induction Ts arbitrary: prv) auto

text \<open>The two emitters write these texts. A bound that exceeds the number of nodes is enough.\<close>

lemma emit_value_emits:
  assumes "libc_total (e_libc E)" and "finite (dom m0)"
  shows "jrep st par prv nxt T \<Longrightarrow> jabs m0 T v \<Longrightarrow> nums_ok (e_fpu E) v \<Longrightarrow> length (jaddrs T) < k \<Longrightarrow>
    emits m0 (\<lambda>sb m. emit_value k E st sb m (Some (ja T))) (jprint (e_fpu E) v)"
proof (induction T arbitrary: par prv nxt v k)
  case (JT a key l cs)
  from JT.prems(4) obtain k' where k: "k = Suc k'" "length (concat (map jaddrs cs)) < k'" by (cases k) auto
  from JT.prems(1) obtain n where n: "nodes st a = Some n" "node_ok n par prv nxt key l cs" "jreps st (Some a) None cs None" by auto
  let ?ev = "emit_value k' E st"
  have sub: "emits m0 (\<lambda>sb m. ?ev sb m (Some (ja T))) (jprint (e_fpu E) v)"
    if "T \<in> set cs" "jabs m0 T v" "nums_ok (e_fpu E) v" for T v
    using JT.IH [OF that(1) _ that(2,3)] jreps_member [OF n(3) that(1)] jaddrs_child [OF that(1)] k(2) by fastforce
  have w: "length cs < k'" using jaddrs_width [of cs] k(2) by simp
  note row = row_loop_emits [OF _ n(3) _ w]
  note g = get_node_def node_ok_def json_first_child_def
  show ?case
  proof (cases l)
    case (LStr b)
    with JT.prems(2) obtain s where s: "str_at m0 (Some b) = Some s" "v = Str s" by auto
    with emits_string [OF assms s(1)] n LStr show ?thesis by (simp add: k(1) g)
  next
    case (LNum d)
    with JT.prems(2,3) obtain t where t: "v = Num d" "number_text (e_fpu E) d = Some t" by auto
    with emits_number [OF assms t(2)] n LNum show ?thesis by (simp add: k(1) g)
  next
    case LArr
    with JT.prems(2) obtain vs where vs: "v = Arr vs" "list_all2 (jabs m0) cs vs" by auto
    have "list_all2 (\<lambda>T t. emits m0 (\<lambda>sb m. ?ev sb m (Some (ja T))) t) cs (map (jprint (e_fpu E)) vs)"
      using vs(2) by (rule list_all2_mapI) (use JT.prems(3) vs(1) sub in auto)
    from emits_bind [OF emits_putc [OF assms, of 91] emits_bind [OF row [OF array_row_loop [OF assms] this] emits_putc [OF assms, of 93]]]
    show ?thesis using n LArr vs(1) by (simp add: k(1) g emit_array_def)
  next
    case LObj
    with JT.prems(2) obtain kvs where kvs: "v = Obj kvs"
      "list_all2 (\<lambda>T kv. str_at m0 (p_value (jk T)) = Some (fst kv) \<and> jabs m0 T (snd kv)) cs kvs" by auto
    have "list_all2 (member_text m0 [58] ?ev) cs (map (\<lambda>kv. str_text (fst kv) @ 58 # jprint (e_fpu E) (snd kv)) kvs)"
      using kvs(2) by (rule list_all2_mapI) (use JT.prems(3) kvs(1) sub in \<open>auto simp: member_text_def\<close>)
    from emits_bind [OF emits_putc [OF assms, of 123] emits_bind [OF row [OF object_row_loop [OF assms] this] emits_putc [OF assms, of 125]]]
    show ?thesis using n LObj kvs(1) by (simp add: k(1) g emit_object_def)
  qed (use n JT.prems(2) emits_puts [OF assms] in \<open>auto simp: k(1) g\<close>)
qed

lemma emit_value_indented_emits:
  assumes "libc_total (e_libc E)" and "finite (dom m0)"
  shows "jrep st par prv nxt T \<Longrightarrow> jabs m0 T v \<Longrightarrow> nums_ok (e_fpu E) v \<Longrightarrow> length (jaddrs T) < k \<Longrightarrow>
    emits m0 (\<lambda>sb m. emit_value_indented k E st space i sb m (Some (ja T))) (jpretty (e_fpu E) space i v)"
proof (induction T arbitrary: par prv nxt v k i)
  case (JT a key l cs)
  from JT.prems(4) obtain k' where k: "k = Suc k'" "length (concat (map jaddrs cs)) < k'" by (cases k) auto
  from JT.prems(1) obtain n where n: "nodes st a = Some n" "node_ok n par prv nxt key l cs" "jreps st (Some a) None cs None" by auto
  let ?ev = "emit_value_indented k' E st space (i + 1)"
  have sub: "emits m0 (\<lambda>sb m. ?ev sb m (Some (ja T))) (jpretty (e_fpu E) space (Suc i) v)"
    if "T \<in> set cs" "jabs m0 T v" "nums_ok (e_fpu E) v" for T v
    using JT.IH [OF that(1) _ that(2,3), of _ _ _ k' "Suc i"] jreps_member [OF n(3) that(1)] jaddrs_child [OF that(1)] k(2) by fastforce
  have w: "length cs < k'" using jaddrs_width [of cs] k(2) by simp
  note row = row_loop_emits [OF _ n(3) _ w]
  note g = get_node_def node_ok_def
  show ?case
  proof (cases l)
    case (LStr b)
    with JT.prems(2) obtain s where s: "str_at m0 (Some b) = Some s" "v = Str s" by auto
    with emits_string [OF assms s(1)] n LStr show ?thesis by (simp add: k(1) g)
  next
    case (LNum d)
    with JT.prems(2,3) obtain t where t: "v = Num d" "number_text (e_fpu E) d = Some t" by auto
    with emits_number [OF assms t(2)] n LNum show ?thesis by (simp add: k(1) g)
  next
    case LArr
    with JT.prems(2) obtain vs where vs: "v = Arr vs" "list_all2 (jabs m0) cs vs" by auto
    have "list_all2 (\<lambda>T t. \<exists>u. t = indented (Suc i) space @ u \<and> emits m0 (\<lambda>sb m. ?ev sb m (Some (ja T))) u) cs
        (map (\<lambda>v. indented (Suc i) space @ jpretty (e_fpu E) space (Suc i) v) vs)"
      using vs(2) by (rule list_all2_mapI) (use JT.prems(3) vs(1) sub in auto)
    from emits_bind [OF emits_puts [OF assms, of "[91, 10]"] emits_bind [OF row [OF array_indented_row_loop [OF assms] this]
        emits_bind [OF emits_indent [OF assms, of i space] emits_putc [OF assms, of 93]]]] emits_puts [OF assms, of "[91, 93]"]
    show ?thesis using n LArr vs by (cases "cs = []") (auto simp: k(1) g emit_array_indented_def)
  next
    case LObj
    with JT.prems(2) obtain kvs where kvs: "v = Obj kvs"
      "list_all2 (\<lambda>T kv. str_at m0 (p_value (jk T)) = Some (fst kv) \<and> jabs m0 T (snd kv)) cs kvs" by auto
    have "list_all2 (\<lambda>T t. \<exists>u. t = indented (Suc i) space @ u \<and> member_text m0 [58, 32] ?ev T u) cs
        (map (\<lambda>kv. indented (Suc i) space @ str_text (fst kv) @ [58, 32] @ jpretty (e_fpu E) space (Suc i) (snd kv)) kvs)"
      using kvs(2) by (rule list_all2_mapI) (use JT.prems(3) kvs(1) sub in \<open>auto simp: member_text_def\<close>)
    from emits_bind [OF emits_puts [OF assms, of "[123, 10]"] emits_bind [OF row [OF object_indented_row_loop [OF assms] this]
        emits_bind [OF emits_indent [OF assms, of i space] emits_putc [OF assms, of 125]]]] emits_puts [OF assms, of "[123, 125]"]
    show ?thesis using n LObj kvs by (cases "cs = []") (auto simp: k(1) g emit_object_indented_def)
  qed (use n JT.prems(2) emits_puts [OF assms] in \<open>auto simp: k(1) g\<close>)
qed

section \<open>Encoding\<close>

definition jtext :: "'d fpu \<Rightarrow> bytes option \<Rightarrow> 'd json \<Rightarrow> bytes" where
  "jtext F space v = (case space of None \<Rightarrow> jprint F v | Some sp \<Rightarrow> jpretty F sp 0 v)"

lemma rows_no_zero: "0 \<notin> set sep \<Longrightarrow> 0 \<notin> set fin \<Longrightarrow> \<forall>t \<in> set ts. 0 \<notin> set t \<Longrightarrow> 0 \<notin> set (rows sep fin ts)"
  by (induction ts) auto

lemma str_text_no_zero: "0 \<notin> set s \<Longrightarrow> 0 \<notin> set (str_text s)"
  by (simp add: str_text_def esc_no_zero)

lemma lits_no_zero [simp]: "0 \<notin> set lit_null" "0 \<notin> set lit_true" "0 \<notin> set lit_false"
  by (simp_all add: lit_null_def lit_true_def lit_false_def)

lemma list_all2_ball: "list_all2 P xs ys \<Longrightarrow> y \<in> set ys \<Longrightarrow> \<exists>x \<in> set xs. P x y"
  by (metis in_set_conv_nth list_all2_conv_all_nth)

text \<open>The texts are strings: the characters of a value come from terminated strings.\<close>

lemma jprint_no_zero: "jabs m T v \<Longrightarrow> nums_ok F v \<Longrightarrow> 0 \<notin> set (jprint F v)"
proof (induction T arbitrary: v)
  case (JT a key l cs)
  show ?case
  proof (cases l)
    case LArr
    with JT.prems obtain vs where vs: "v = Arr vs" "list_all2 (jabs m) cs vs" by auto
    have "0 \<notin> set (jprint F w)" if "w \<in> set vs" for w
      using list_all2_ball [OF vs(2) that] JT.IH JT.prems(2) that vs(1) by auto
    then show ?thesis using vs(1) rows_no_zero [of "[44]" "[]"] by simp
  next
    case LObj
    with JT.prems obtain kvs where kvs: "v = Obj kvs" "list_all2 (\<lambda>T kv. str_at m (p_value (jk T)) = Some (fst kv) \<and> jabs m T (snd kv)) cs kvs" by auto
    have "0 \<notin> set (str_text (fst kv) @ 58 # jprint F (snd kv))" if "kv \<in> set kvs" for kv
      using list_all2_ball [OF kvs(2) that] JT.IH JT.prems(2) that kvs(1) by (auto dest: str_at_no_zero simp: str_text_no_zero)
    then show ?thesis using kvs(1) rows_no_zero [of "[44]" "[]"] by simp
  qed (use JT.prems in \<open>auto dest: str_at_no_zero simp: str_text_no_zero\<close>)
qed

lemma jpretty_no_zero: "jabs m T v \<Longrightarrow> nums_ok F v \<Longrightarrow> 0 \<notin> set sp \<Longrightarrow> 0 \<notin> set (jpretty F sp i v)"
proof (induction T arbitrary: v i)
  case (JT a key l cs)
  note ind = JT.prems(3)
  show ?case
  proof (cases l)
    case LArr
    with JT.prems obtain vs where vs: "v = Arr vs" "list_all2 (jabs m) cs vs" by auto
    have "0 \<notin> set (jpretty F sp (Suc i) w)" if "w \<in> set vs" for w
      using list_all2_ball [OF vs(2) that] JT.IH JT.prems(2,3) that vs(1) by auto
    then show ?thesis using vs(1) ind rows_no_zero [of "[44, 10]" "[10]"] by auto
  next
    case LObj
    with JT.prems obtain kvs where kvs: "v = Obj kvs" "list_all2 (\<lambda>T kv. str_at m (p_value (jk T)) = Some (fst kv) \<and> jabs m T (snd kv)) cs kvs" by auto
    have "0 \<notin> set (str_text (fst kv) @ [58, 32] @ jpretty F sp (Suc i) (snd kv))" if "kv \<in> set kvs" for kv
      using list_all2_ball [OF kvs(2) that] JT.IH JT.prems(2,3) that kvs(1) by (auto dest: str_at_no_zero simp: str_text_no_zero)
    then show ?thesis using kvs(1) ind rows_no_zero [of "[44, 10]" "[10]"] by auto
  qed (use JT.prems jprint_no_zero [OF JT.prems(1,2)] in auto)
qed

lemma stringify_text:
  assumes "libc_total (e_libc E)" and "finite (dom (js_mem st))" and "jrep st par prv nxt T" and "jabs (js_mem st) T v"
    and "nums_ok (e_fpu E) v" and "\<And>sp. space = Some sp \<Longrightarrow> 0 \<notin> set sp" and "length (jaddrs T) < k"
  shows "\<exists>b blk. json_stringify k E st (Some (ja T)) space = Some (Some b, (js_mem st)(b \<mapsto> blk)) \<and> b \<notin> dom (js_mem st) \<and>
    cstr blk = Some (jtext (e_fpu E) space v)"
proof -
  let ?e = "\<lambda>sb m. case space of Some sp \<Rightarrow> emit_value_indented k E st sp 0 sb m (Some (ja T)) | None \<Rightarrow> emit_value k E st sb m (Some (ja T))"
  have e: "emits (js_mem st) ?e (jtext (e_fpu E) space v)"
    using emit_value_emits [OF assms(1-5,7)] emit_value_indented_emits [OF assms(1-5,7)] by (simp add: jtext_def split: option.splits)
  have z: "0 \<notin> set (jtext (e_fpu E) space v)"
    using jprint_no_zero [OF assms(4,5)] jpretty_no_zero [OF assms(4,5)] assms(6) by (auto simp: jtext_def split: option.splits)
  obtain sb m where i: "sb_init (e_libc E) (js_mem st) sb_null = (0, sb, m)" "sb_rep (js_mem st) [] sb m"
    using sb_init_rep [OF assms(1,2)] by blast
  with e obtain sb' m' where "?e sb m = Some (sb', m')" "sb_rep (js_mem st) (jtext (e_fpu E) space v) sb' m'"
    unfolding emits_def by force
  with sb_finish_rep [OF _ z] i(1) show ?thesis unfolding json_stringify_def by fastforce
qed


text \<open>The tree of \<open>[7]\<close>.\<close>

definition st_seven :: "int jstate" where
  "st_seven = \<lparr>nodes = [0 \<mapsto> (calloc_node int_env)\<lparr>n_tag := JSON_ARRAY, n_head := Some 1, n_tail := Some 1\<rparr>,
      1 \<mapsto> (calloc_node int_env)\<lparr>n_parent := Some 0, n_tag := JSON_NUMBER, n_number := 7\<rparr>], js_mem = Map.empty\<rparr>"

definition t_seven :: "int jt" where
  "t_seven = JT 0 p_null LArr [JT 1 p_null (LNum 7) []]"

lemma seven_rep: "jrep st_seven None None None t_seven" "jabs (js_mem st_seven) t_seven (Arr [Num 7])" "length (jaddrs t_seven) = 2"
  by (simp_all add: t_seven_def st_seven_def node_ok_def calloc_node_def lastp_def is_container_def)

lemma seven_number: "number_text int_fpu 7 = Some [55]"
  by (simp add: number_text_def int_fpu_def fmt_d_def dec_digits.simps number_is_valid_def parse_number_def number_int_def
      number_frac_def number_exp_def digits1_def is_digit_def)

lemma seven_env [simp]: "libc_total (e_libc int_env)" "e_fpu int_env = int_fpu" "finite (dom (js_mem st_seven))"
  using int_env_ok by (simp_all add: env_ok_def int_env_def st_seven_def)


end
