(* ===== verification/Json_Roundtrip.thy ===== *)
theory Json_Roundtrip
  imports Json_Print
begin

text \<open>
  Printing and parsing are inverse to each other: the text that the encoder of \<open>src/json/json.c\<close> writes
  for a value is a document of exactly that value, so that \<open>json_decode\<close> builds an equal tree from it.
\<close>

unbundle bit_operations_syntax

section \<open>Numbers\<close>

text \<open>What may follow a value in the printed text: a terminator, a separator or white space.\<close>

definition ends :: "bytes \<Rightarrow> bool" where
  "ends r \<longleftrightarrow> (\<exists>c t. r = c # t \<and> (c \<in> {0, 44, 93, 125} \<or> is_space c))"

lemma ends_char: "ends (c # r) \<Longrightarrow> \<not> is_digit c \<and> c \<notin> {43, 45, 46, 69, 101}"
  by (auto simp: ends_def is_space_def is_digit_def)

definition stable :: "(bytes \<Rightarrow> bytes option option) \<Rightarrow> bool" where
  "stable f \<longleftrightarrow> (\<forall>t x r. f (t @ [0]) = Some (Some x) \<longrightarrow> ends r \<longrightarrow> (\<exists>u. x = u @ [0] \<and> set u \<subseteq> set t \<and> f (t @ r) = Some (Some (u @ r))))"

lemma endsE:
  assumes "ends r"
  obtains c s where "r = c # s" and "\<not> is_digit c" and "c \<notin> {43, 45, 46, 69, 101}"
  using assms ends_char unfolding ends_def by blast

lemma skip_digits_stable:
  "ends r \<Longrightarrow> skip_digits (t @ [0]) = Some x \<Longrightarrow> \<exists>u. x = u @ [0] \<and> set u \<subseteq> set t \<and> skip_digits (t @ r) = Some (u @ r)"
  by (induction t) (auto elim!: endsE split: if_splits)

lemma stable_digits1: "stable digits1"
  unfolding stable_def
proof (intro allI impI)
  fix t x r assume h: "digits1 (t @ [0]) = Some (Some x)" "ends r"
  then show "\<exists>u. x = u @ [0] \<and> set u \<subseteq> set t \<and> digits1 (t @ r) = Some (Some (u @ r))"
    using skip_digits_stable [OF h(2), of "tl t"] by (cases t) (auto simp: digits1_def c_bind split: if_splits)
qed

lemma digits1_stable:
  "digits1 (t @ [0]) = Some (Some x) \<Longrightarrow> ends r \<Longrightarrow> \<exists>u. x = u @ [0] \<and> set u \<subseteq> set t \<and> digits1 (t @ r) = Some (Some (u @ r))"
  using stable_digits1 unfolding stable_def by blast

lemma stable_number_int: "stable number_int"
  unfolding stable_def
proof (intro allI impI)
  fix t x r assume h: "number_int (t @ [0]) = Some (Some x)" "ends r"
  then show "\<exists>u. x = u @ [0] \<and> set u \<subseteq> set t \<and> number_int (t @ r) = Some (Some (u @ r))"
    using digits1_stable [of t x r] by (cases t) (auto simp: number_int_def digits1_def split: if_splits)
qed

lemma stable_number_frac: "stable number_frac"
  unfolding stable_def
proof (intro allI impI)
  fix t x r assume h: "number_frac (t @ [0]) = Some (Some x)" "ends r"
  then show "\<exists>u. x = u @ [0] \<and> set u \<subseteq> set t \<and> number_frac (t @ r) = Some (Some (u @ r))"
    using digits1_stable [of "tl t" x r] by (cases t) (auto simp: number_frac_def elim!: endsE split: if_splits)
qed

lemma stable_number_exp: "stable number_exp"
  unfolding stable_def
proof (intro allI impI)
  fix t x r assume h: "number_exp (t @ [0]) = Some (Some x)" "ends r"
  have z: "digits1 [0] = Some None" by (simp add: digits1_def)
  from h show "\<exists>u. x = u @ [0] \<and> set u \<subseteq> set t \<and> number_exp (t @ r) = Some (Some (u @ r))"
    using digits1_stable [of "tl t" x r] digits1_stable [of "tl (tl t)" x r] z
    by (cases t; cases "tl t") (auto simp: number_exp_def elim!: endsE split: if_splits)
qed

lemma stable_parse_number: "stable parse_number"
  unfolding stable_def
proof (intro allI impI)
  fix t x r assume h: "parse_number (t @ [0]) = Some (Some x)" and r: "ends r"
  then obtain c s where t: "t = c # s" by (cases t) (auto simp: parse_number_def number_int_def digits1_def)
  let ?t = "if c = 45 then s else t"
  have run: "parse_number (t @ w) = Option.bind (number_int (?t @ w)) (\<lambda>r. case r of None \<Rightarrow> Some None
      | Some s \<Rightarrow> Option.bind (number_frac s) (\<lambda>r. case r of None \<Rightarrow> Some None | Some s \<Rightarrow> number_exp s))" for w
    by (simp add: t parse_number_def)
  from h run obtain y where y: "number_int (?t @ [0]) = Some (Some y)" "Option.bind (number_frac y) (\<lambda>r. case r of None \<Rightarrow> Some None
      | Some s \<Rightarrow> number_exp s) = Some (Some x)" by (auto simp: c_bind split: option.splits)
  with stable_number_int r obtain u where u: "y = u @ [0]" "set u \<subseteq> set ?t" "number_int (?t @ r) = Some (Some (u @ r))" unfolding stable_def by blast
  from y(2) u(1) obtain z where z: "number_frac (u @ [0]) = Some (Some z)" "number_exp z = Some (Some x)" by (auto simp: c_bind split: option.splits)
  with stable_number_frac r obtain v where v: "z = v @ [0]" "set v \<subseteq> set u" "number_frac (u @ r) = Some (Some (v @ r))" unfolding stable_def by blast
  with z(2) stable_number_exp r obtain w where w: "x = w @ [0]" "set w \<subseteq> set v" "number_exp (v @ r) = Some (Some (w @ r))" unfolding stable_def by blast
  moreover have "set w \<subseteq> set t" using u(2) v(2) w(2) by (auto simp: t split: if_splits)
  ultimately show "\<exists>u. x = u @ [0] \<and> set u \<subseteq> set t \<and> parse_number (t @ r) = Some (Some (u @ r))" using u v w unfolding run by auto
qed

lemma parse_number_starts:
  assumes "parse_number s = Some (Some r)"
  shows "starts_number s" and "skip_space s = Some s" and "deref s \<noteq> Some 93"
proof -
  from assms obtain c t where s: "s = c # t" by (cases s) (auto simp: parse_number_def deref_def)
  with assms have "c = 45 \<or> is_digit c" by (auto simp: parse_number_def number_int_def digits1_def is_digit_def split: if_splits)
  then show "starts_number s" "skip_space s = Some s" "deref s \<noteq> Some 93"
    by (auto simp: s starts_number_def is_digit_def is_space_def)
qed

lemma valid_number_parses:
  assumes "number_is_valid (t @ [0]) = Some True" and "0 \<notin> set t" and "ends r"
  shows "parse_number (t @ r) = Some (Some r)" and "starts_number (t @ r)"
proof -
  from assms(1) obtain x where "parse_number (t @ [0]) = Some (Some x)" "deref x = Some 0"
    by (auto simp: number_is_valid_def c_bind split: option.splits)
  moreover from this(2) obtain y where "x = 0 # y" by (auto simp: deref_def split: list.splits)
  ultimately obtain u where u: "0 # y = u @ [0]" "set u \<subseteq> set t" "parse_number (t @ r) = Some (Some (u @ r))"
    using stable_parse_number assms(3) unfolding stable_def by blast
  with assms(2) have "u = []" by (cases u) auto
  with u(3) show p: "parse_number (t @ r) = Some (Some r)" by simp
  show "starts_number (t @ r)" by (rule parse_number_starts [OF p])
qed

section \<open>Strings\<close>

text \<open>Valid UTF-8 without the control character 0x1F, which the encoder does not escape and the decoder
  does not accept.\<close>

definition plain :: "bytes \<Rightarrow> bool" where
  "plain s \<longleftrightarrow> 0 \<notin> set s \<and> 0x1F \<notin> set s \<and> utf8_validate (s @ [0]) = Some True"

lemma plain_drop:
  assumes "plain s" and "s \<noteq> []" and "utf8_validate_cz (s @ [0]) = Some n"
  shows "n \<noteq> 0" and "n \<le> length s" and "plain (drop n s)"
proof -
  have u: "utf8_validate (s @ [0]) = Some True" "0 \<notin> set s" using assms(1) by (simp_all add: plain_def)
  have "deref (s @ [0]) = Some (hd s)" "hd s \<noteq> 0" using assms(2) u(2) by (cases s; auto)+
  with u(1) assms(3) show n: "n \<noteq> 0" by (subst (asm) utf8_validate.simps) (auto split: if_splits)
  show le: "n \<le> length s" using utf8_valid_within(1) [OF assms(3) n u(2) assms(2)] by simp
  have "utf8_validate (drop n (s @ [0])) = Some True"
    using u(1) assms(3) n \<open>deref _ = _\<close> \<open>hd s \<noteq> 0\<close> by (subst (asm) utf8_validate.simps) simp
  with assms(1) le show "plain (drop n s)" by (auto simp: plain_def dest: in_set_dropD)
qed

lemma parse_char_escapes [simp]:
  "parse_char (92 # 34 # r) = Some (Some ([34], r))" "parse_char (92 # 92 # r) = Some (Some ([92], r))"
  "parse_char (92 # 98 # r) = Some (Some ([8], r))" "parse_char (92 # 102 # r) = Some (Some ([12], r))"
  "parse_char (92 # 110 # r) = Some (Some ([10], r))" "parse_char (92 # 114 # r) = Some (Some ([13], r))"
  "parse_char (92 # 116 # r) = Some (Some ([9], r))" "parse_char (92 # 117 # r) = parse_unicode_escape r"
  by (simp_all add: parse_char_def)

lemma control_escape:
  assumes "unat (c :: byte) < 0x1F" and "c \<noteq> 0"
  shows "parse_unicode_escape (write_hex16 (ucast (ucast c :: 32 word)) @ r) = Some (Some ([c], r))"
proof -
  have u: "unat (ucast (ucast c :: 32 word) :: 16 word) = unat c" using assms(1) by (subst unat_ucast_small) simp_all
  moreover have "unat c \<noteq> 0" using assms(2) by (simp add: unat_eq_zero)
  ultimately have "(ucast (ucast c :: 32 word) :: 16 word) \<noteq> 0" by force
  moreover have "utf8_write_char (ucast (ucast (ucast c :: 32 word) :: 16 word)) = [c]"
    using assms(1) u by (simp add: utf8_write_char_def word_le_nat_alt word_unat_eq_iff unat_ucast_small)
  ultimately show ?thesis using assms(1) u
    by (simp add: parse_unicode_escape_def hex16_roundtrip word_le_nat_alt)
qed

lemma valid_char_parses:
  assumes "scalar u" and "utf8_write_char u = c # cs" and "0x1F < unat c" and "c \<noteq> 92"
  shows "parse_char (utf8_write_char u @ r) = Some (Some (utf8_write_char u, r))"
  using assms utf8_validate_write [OF assms(1), of r] unfolding assms(2)
  by (simp add: parse_char_def mem_read_def word_le_nat_alt)

text \<open>Reading one printed character.\<close>

lemma esc_plain_step:
  assumes "plain s" and "s \<noteq> []"
  obtains bs n where "esc s = bs @ esc (drop n s)" and "0 < n" and "n \<le> length s" and "plain (drop n s)"
    and "bs \<noteq> []" and "hd bs \<noteq> 34" and "\<forall>r. parse_char (bs @ r) = Some (Some (take n s, r))"
proof -
  have nz: "0 \<notin> set s" and nc: "0x1F \<notin> set s" using assms(1) by (simp_all add: plain_def)
  obtain c t where s: "s = c # t" using assms(2) by (cases s) auto
  obtain n where n: "utf8_validate_cz (s @ [0]) = Some n" using utf8_validate_nt [of "s @ [0]"] by auto
  note p = plain_drop [OF assms n] and goal = that
  have step: thesis if "emit_char False (s @ [0]) = Some (bs, n)" "bs \<noteq> []" "hd bs \<noteq> 34"
    "\<forall>r. parse_char (bs @ r) = Some (Some (take n s, r))" for bs
    using that p assms(2) by (intro goal) (simp_all add: esc.simps [of s])
  have ascii: "n = 1" if "unat c < 0x80" using n that by (simp add: s utf8_validate_cz_def word_le_nat_alt)
  from utf8_valid_within(2) [OF n p(1) nz assms(2)] obtain u where u: "scalar u" "take n s = utf8_write_char u" "length (utf8_write_char u) = n"
    by blast
  have "unat c \<noteq> 0x1F" using nc unfolding s by (auto simp: word_unat_eq_iff)
  then consider "c \<in> {34, 92, 8, 12, 10, 13, 9}" | "c \<notin> {34, 92, 8, 12, 10, 13, 9}" "unat c < 0x1F" | "c \<notin> {34, 92, 8, 12, 10, 13, 9}" "0x1F < unat c"
    by (meson linorder_neqE_nat)
  then show thesis
  proof cases
    case 1
    with ascii have "n = 1" by auto
    with 1 show ?thesis by (elim insertE emptyE; intro step) (auto simp: s emit_char_def)
  next
    case 2
    then have "n = 1" using ascii by simp
    moreover have "c \<noteq> 0" using nz s by simp
    moreover have "(ucast c :: 32 word) \<le> 0xFFFF" using 2(2) by (simp add: word_le_nat_alt)
    ultimately show ?thesis using 2 control_escape [OF 2(2)] n
      by (intro step) (auto simp: s emit_char_def utf8_read_char_def read_at_def word_le_nat_alt word_less_nat_alt)
  next
    case 3
    then obtain cs where w: "utf8_write_char u = c # cs" using u(2) [symmetric] p(1) by (cases n) (auto simp: s)
    have "emit_char False (s @ [0]) = Some (take n s, n)"
      using 3 n p(1,2) unfolding emit_char_def s by (cases n) (auto simp: mem_read_def word_less_nat_alt)
    moreover have "parse_char (take n s @ r) = Some (Some (take n s, r))" for r
      unfolding u(2) by (rule valid_char_parses [OF u(1) w]) (use 3 in auto)
    moreover have "take n s \<noteq> []" "hd (take n s) \<noteq> 34" using 3 w unfolding u(2) by simp_all
    ultimately show ?thesis using step by blast
  qed
qed

lemma jchars_esc: "plain s \<Longrightarrow> jchars (esc s @ 34 # r) s r"
proof (induction "length s" arbitrary: s rule: less_induct)
  case less
  show ?case
  proof (cases "s = []")
    case False
    obtain bs n where e: "esc s = bs @ esc (drop n s)" "0 < n" "n \<le> length s" "plain (drop n s)"
      "bs \<noteq> []" "hd bs \<noteq> 34" "\<forall>r. parse_char (bs @ r) = Some (Some (take n s, r))"
      by (rule esc_plain_step [OF less.prems False])
    have "jchars (esc (drop n s) @ 34 # r) (drop n s) r" using e(2,4) False by (intro less.hyps) simp_all
    moreover have "deref (bs @ u) \<noteq> Some 34" for u using e(5,6) by (cases bs) auto
    ultimately have "jchars (bs @ esc (drop n s) @ 34 # r) (take n s @ drop n s) r" using jc_char [OF _ e(7) [rule_format]] by blast
    then show ?thesis by (simp add: e(1))
  qed (simp add: jc_end)
qed

section \<open>Values\<close>

lemma jval_head:
  assumes "jval E s v t"
  shows "skip_space s = Some s" and "deref s \<noteq> Some 93"
proof -
  from assms have "skip_space s = Some s \<and> deref s \<noteq> Some 93"
    by (rule jvalE) (simp_all add: is_space_def parse_number_starts)
  then show "skip_space s = Some s" "deref s \<noteq> Some 93" by simp_all
qed

lemma skip_spaces: "\<forall>c \<in> set ws. is_space c \<Longrightarrow> skip_space (ws @ s) = skip_space s"
  by (induction ws) auto

lemma ends_spaces: "\<forall>c \<in> set ws. is_space c \<Longrightarrow> ends r \<Longrightarrow> ends (ws @ r)"
  by (cases ws) (auto simp: ends_def)

lemma not_space [simp]: "\<not> is_space 93" "\<not> is_space 125" "\<not> is_space 44" "\<not> is_space 58" "\<not> is_space 34"
  by (simp_all add: is_space_def)

lemma ends_token [simp]: "ends (93 # r)" "ends (125 # r)" "ends (44 # r)" "ends (0 # r)"
  by (simp_all add: ends_def)

text \<open>Rows of elements and of members, with white space between the tokens.\<close>

lemma rows_jelems:
  assumes ws: "\<forall>c \<in> set (ws @ sp @ fin @ wt). is_space c"
  shows "vs \<noteq> [] \<Longrightarrow> (\<And>v r. v \<in> set vs \<Longrightarrow> ends r \<Longrightarrow> jval E (f v @ r) v r) \<Longrightarrow>
    \<exists>t. skip_space (rows (44 # sp) fin (map (\<lambda>v. ws @ f v) vs) @ wt @ 93 # r) = Some t \<and> jelems E t vs r"
proof (induction vs)
  case (Cons v vs)
  have sp: "\<forall>c \<in> set ws. is_space c" "\<forall>c \<in> set sp. is_space c" "\<forall>c \<in> set (fin @ wt). is_space c" using ws by auto
  have skip: "skip_space (ws @ f v @ u) = Some (f v @ u)" if "ends u" for u
    using jval_head(1) [OF Cons.prems(2)] that by (simp add: skip_spaces sp)
  show ?case
  proof (cases "vs = []")
    case True
    have e: "ends (fin @ wt @ 93 # r)" using ends_spaces [OF sp(3), of "93 # r"] by simp
    from je_last [OF Cons.prems(2) [OF _ e]] skip_spaces [OF sp(3), of "93 # r"] have "jelems E (f v @ fin @ wt @ 93 # r) [v] r" by simp
    with skip [OF e] True show ?thesis by simp
  next
    case False
    let ?R = "rows (44 # sp) fin (map (\<lambda>v. ws @ f v) vs) @ wt @ 93 # r"
    from Cons.IH [OF False] Cons.prems(2) obtain t where t: "skip_space ?R = Some t" "jelems E t vs r" by auto
    have e: "ends (44 # sp @ ?R)" by simp
    from je_more [OF Cons.prems(2) [OF _ e] _ _ t(2)] t(1) have "jelems E (f v @ 44 # sp @ ?R) (v # vs) r" by (simp add: skip_spaces sp)
    with skip [OF e] False show ?thesis by simp
  qed
qed simp

lemma jpair_text:
  assumes "plain k" and "\<forall>c \<in> set wc. is_space c" and "jval E (u @ r) v r"
  shows "jpair E (str_text k @ (58 # wc) @ u @ r) k v r"
  using jp [OF jchars_esc [OF assms(1)], of "58 # wc @ u @ r" "wc @ u @ r" "u @ r" E v r] assms jval_head(1) [OF assms(3)]
  by (simp add: str_text_def skip_spaces)

lemma rows_jmembers:
  assumes ws: "\<forall>c \<in> set (ws @ sp @ fin @ wt @ wc). is_space c"
  shows "kvs \<noteq> [] \<Longrightarrow> (\<And>kv r. kv \<in> set kvs \<Longrightarrow> ends r \<Longrightarrow> plain (fst kv) \<and> jval E (f (snd kv) @ r) (snd kv) r) \<Longrightarrow>
    \<exists>t. skip_space (rows (44 # sp) fin (map (\<lambda>kv. ws @ str_text (fst kv) @ (58 # wc) @ f (snd kv)) kvs) @ wt @ 125 # r) = Some t \<and>
      deref t = Some 34 \<and> jmembers E t kvs r"
proof (induction kvs)
  case (Cons kv kvs)
  have sp: "\<forall>c \<in> set ws. is_space c" "\<forall>c \<in> set sp. is_space c" "\<forall>c \<in> set (fin @ wt). is_space c" "\<forall>c \<in> set wc. is_space c" using ws by auto
  let ?t = "\<lambda>kv. str_text (fst kv) @ (58 # wc) @ f (snd kv)"
  have skip: "skip_space (ws @ ?t kv @ u) = Some (?t kv @ u)" "deref (?t kv @ u) = Some 34" for u by (simp_all add: skip_spaces sp str_text_def)
  have pair: "jpair E (?t kv @ u) (fst kv) (snd kv) u" if "ends u" for u
    using jpair_text [OF _ sp(4), of "fst kv" E "f (snd kv)" u "snd kv"] Cons.prems(2) [OF _ that, of kv] by simp
  show ?case
  proof (cases "kvs = []")
    case True
    have "ends (fin @ wt @ 125 # r)" using ends_spaces [OF sp(3), of "125 # r"] by simp
    from jm_last [OF pair [OF this]] skip_spaces [OF sp(3), of "125 # r"] have "jmembers E (?t kv @ fin @ wt @ 125 # r) [kv] r" by simp
    with skip True show ?thesis by simp
  next
    case False
    let ?R = "rows (44 # sp) fin (map (\<lambda>kv. ws @ ?t kv) kvs) @ wt @ 125 # r"
    from Cons.IH [OF False] Cons.prems(2) obtain t where t: "skip_space ?R = Some t" "jmembers E t kvs r" by auto
    have e: "ends (44 # sp @ ?R)" by simp
    from jm_more [OF pair [OF e] _ _ t(2)] t(1) have "jmembers E (?t kv @ 44 # sp @ ?R) (kv # kvs) r" by (simp add: skip_spaces sp)
    with skip False show ?thesis by simp
  qed
qed simp

text \<open>What the encoder relies on for a value that is to be read back: every string is \<open>plain\<close>, and every
  number is printed as a number that \<open>strtod\<close> reads as the same number.\<close>

definition num_rt :: "'d fpu \<Rightarrow> 'd \<Rightarrow> bool" where
  "num_rt F d \<longleftrightarrow> (\<exists>t. number_text F d = Some t \<and> t \<noteq> lit_null \<and> 0 \<notin> set t \<and> (\<forall>r. ends r \<longrightarrow> fp_strtod F (t @ r) = d))"

fun printable :: "'d fpu \<Rightarrow> 'd json \<Rightarrow> bool" where
  "printable F (Num d) \<longleftrightarrow> num_rt F d"
| "printable F (Str s) \<longleftrightarrow> plain s"
| "printable F (Arr vs) \<longleftrightarrow> (\<forall>v \<in> set vs. printable F v)"
| "printable F (Obj kvs) \<longleftrightarrow> (\<forall>kv \<in> set kvs. plain (fst kv) \<and> printable F (snd kv))"
| "printable F _ \<longleftrightarrow> True"

lemma printable_nums_ok: "printable F v \<Longrightarrow> nums_ok F v"
  by (induction v) (auto simp: num_rt_def)

text \<open>The encoder checks its own output, so the text is a number or \<open>null\<close>.\<close>

lemma number_text_valid:
  assumes "number_text F d = Some t"
  shows "t = lit_null \<or> number_is_valid (t @ [0]) = Some True"
  using assms by (auto simp: number_text_def c_bind split: prod.splits if_splits)

lemma jval_number:
  assumes "num_rt (e_fpu E) d" and "ends r"
  shows "jval E (jprint (e_fpu E) (Num d) @ r) (Num d) r"
proof -
  from assms obtain t where t: "number_text (e_fpu E) d = Some t" "t \<noteq> lit_null" "0 \<notin> set t" "fp_strtod (e_fpu E) (t @ r) = d"
    unfolding num_rt_def by blast
  with number_text_valid [OF t(1)] have "number_is_valid (t @ [0]) = Some True" by simp
  note v = valid_number_parses [OF this t(3) assms(2)]
  from j_num [OF v(2,1), of E] t(1,4) show ?thesis by simp
qed

lemma jval_string: "plain s \<Longrightarrow> jval E (str_text s @ r) (Str s) r"
  using j_str [OF jchars_esc] by (simp add: str_text_def)

lemmas jval_literals = j_null j_false j_true

lemma jval_array:
  assumes "\<forall>c \<in> set (wh @ ws @ sp @ fin @ wt). is_space c" and "vs \<noteq> []" and "\<And>v r. v \<in> set vs \<Longrightarrow> ends r \<Longrightarrow> jval E (f v @ r) v r"
  shows "jval E (91 # wh @ rows (44 # sp) fin (map (\<lambda>v. ws @ f v) vs) @ wt @ 93 # r) (Arr vs) r"
proof -
  from rows_jelems [of ws sp fin wt vs E f r] assms obtain t where
    t: "skip_space (rows (44 # sp) fin (map (\<lambda>v. ws @ f v) vs) @ wt @ 93 # r) = Some t" "jelems E t vs r" by auto
  from t(2) have "deref t \<noteq> Some 93" by (cases rule: jelemsE) (auto dest: jval_head(2))
  with j_array [OF _ _ t(2)] t(1) assms(1) show ?thesis by (simp add: skip_spaces)
qed

lemma jval_object:
  assumes "\<forall>c \<in> set (wh @ ws @ sp @ fin @ wt @ wc). is_space c" and "kvs \<noteq> []"
    and "\<And>kv r. kv \<in> set kvs \<Longrightarrow> ends r \<Longrightarrow> plain (fst kv) \<and> jval E (f (snd kv) @ r) (snd kv) r"
  shows "jval E (123 # wh @ rows (44 # sp) fin (map (\<lambda>kv. ws @ str_text (fst kv) @ (58 # wc) @ f (snd kv)) kvs) @ wt @ 125 # r) (Obj kvs) r"
proof -
  from rows_jmembers [of ws sp fin wt wc kvs E f r] assms obtain t where
    t: "skip_space (rows (44 # sp) fin (map (\<lambda>kv. ws @ str_text (fst kv) @ (58 # wc) @ f (snd kv)) kvs) @ wt @ 125 # r) = Some t"
    "deref t = Some 34" "jmembers E t kvs r" by auto
  with j_object [OF _ _ t(3)] assms(1) show ?thesis by (simp add: skip_spaces)
qed

lemma jval_jprint: "printable (e_fpu E) v \<Longrightarrow> ends r \<Longrightarrow> jval E (jprint (e_fpu E) v @ r) v r"
proof (induction v arbitrary: r)
  case (Num d)
  then show ?case using jval_number by simp
next
  case (Str s)
  then show ?case using jval_string by simp
next
  case (Arr vs)
  show ?case
  proof (cases "vs = []")
    case False
    with jval_array [of "[]" "[]" "[]" "[]" "[]" vs E "jprint (e_fpu E)" r] Arr show ?thesis by simp
  qed (simp add: j_empty_array)
next
  case (Obj kvs)
  show ?case
  proof (cases "kvs = []")
    case False
    with jval_object [of "[]" "[]" "[]" "[]" "[]" "[]" kvs E "jprint (e_fpu E)" r] Obj show ?thesis
      by (fastforce simp: prod_set_defs)
  qed (simp add: j_empty_object)
qed (simp_all add: jval_literals lit_null_def lit_true_def lit_false_def)

lemma jval_jpretty:
  assumes "\<forall>c \<in> set space. is_space c"
  shows "printable (e_fpu E) v \<Longrightarrow> ends r \<Longrightarrow> jval E (jpretty (e_fpu E) space i v @ r) v r"
proof (induction v arbitrary: r i)
  case (Num d)
  then show ?case using jval_number by simp
next
  case (Str s)
  then show ?case using jval_string by simp
next
  case (Arr vs)
  have sp: "\<forall>c \<in> set ([10] @ indented (Suc i) space @ [10] @ [10] @ indented i space). is_space c" using assms by (auto simp: is_space_def)
  show ?case
  proof (cases "vs = []")
    case False
    with jval_array [OF sp False, of E "jpretty (e_fpu E) space (Suc i)" r] Arr show ?thesis by simp
  qed (simp add: j_empty_array)
next
  case (Obj kvs)
  have sp: "\<forall>c \<in> set ([10] @ indented (Suc i) space @ [10] @ [10] @ indented i space @ [32]). is_space c" using assms by (auto simp: is_space_def)
  show ?case
  proof (cases "kvs = []")
    case False
    with jval_object [OF sp False, of E "jpretty (e_fpu E) space (Suc i)" r] Obj show ?thesis by (fastforce simp: prod_set_defs)
  qed (simp add: j_empty_object)
qed (simp_all add: jval_literals lit_null_def lit_true_def lit_false_def)

section \<open>Encoding and decoding\<close>

lemma json_text_jtext:
  assumes "printable (e_fpu E) v" and "\<And>sp. space = Some sp \<Longrightarrow> \<forall>c \<in> set sp. is_space c"
  shows "json_text E (jtext (e_fpu E) space v @ 0 # r) v"
proof -
  have "jval E (jtext (e_fpu E) space v @ 0 # r) v (0 # r)"
    using jval_jprint [OF assms(1)] jval_jpretty [OF _ assms(1)] assms(2) by (auto simp: jtext_def split: option.splits)
  with jval_head(1) [OF this] show ?thesis by (auto simp: json_text_def)
qed

text \<open>C10. Decoding what was encoded gives the value back: the string that \<open>json_stringify\<close> makes of a
  tree, compact or indented with white space, is decoded by \<open>json_decode\<close> to a new, separate tree that
  stands for the same value. The strings have to be valid UTF-8 without the character 0x1F, and the
  numbers have to survive \<open>sprintf\<close> and \<open>strtod\<close>.\<close>

theorem json_encode_decode:
  assumes "env_ok E" and "st_fin st" and "jrep st par prv nxt T" and "jabs (js_mem st) T v" and "printable (e_fpu E) v"
    and "\<And>sp. space = Some sp \<Longrightarrow> \<forall>c \<in> set sp. is_space c" and "length (jaddrs T) < k"
  shows "\<exists>b m blk st' T'. json_stringify k E st (Some (ja T)) space = Some (Some b, m) \<and> m b = Some blk \<and>
    json_decode E (st\<lparr>js_mem := m\<rparr>) blk = Some (st', Some (ja T')) \<and> owns st' T' (st\<lparr>js_mem := m\<rparr>) \<and> jabs (js_mem st') T' v"
proof -
  have E: "libc_total (e_libc E)" "finite (dom (js_mem st))" using assms(1,2) by (simp_all add: env_ok_def st_fin_def)
  have sp: "space = Some sp \<Longrightarrow> 0 \<notin> set sp" for sp using assms(6) [of sp] not_space_0(1) by blast
  obtain b blk where b: "json_stringify k E st (Some (ja T)) space = Some (Some b, (js_mem st)(b \<mapsto> blk))"
    "cstr blk = Some (jtext (e_fpu E) space v)"
    using stringify_text [OF E assms(3,4) printable_nums_ok [OF assms(5)] sp assms(7)] by blast
  obtain r where r: "blk = jtext (e_fpu E) space v @ 0 # r" using cstr_split [OF b(2)] by blast
  have v: "json_text E blk v" unfolding r by (rule json_text_jtext [OF assms(5,6)])
  let ?st = "st\<lparr>js_mem := (js_mem st)(b \<mapsto> blk)\<rparr>"
  have "st_fin ?st" using assms(2) by (simp add: st_fin_def)
  from decode_document [OF _ assms(1) this v] obtain st' T' where
    "json_decode E ?st blk = Some (st', Some (ja T'))" "owns st' T' ?st" "jabs (js_mem st') T' v" unfolding r by auto
  with b(1) show ?thesis by fastforce
qed

lemma seven_rt: "num_rt int_fpu 7"
proof -
  have "fp_strtod int_fpu (55 # r) = 7" if "ends r" for r
    using that by (rule endsE) (auto simp: int_fpu_def is_digit_def)
  then show ?thesis unfolding num_rt_def using seven_number by (auto simp: lit_null_def)
qed

theorem json_encode_decode_witness:
  "\<exists>b m blk st' T'. json_stringify 3 int_env st_seven (Some 0) None = Some (Some b, m) \<and> m b = Some blk \<and>
    json_decode int_env (st_seven\<lparr>js_mem := m\<rparr>) blk = Some (st', Some (ja T')) \<and> owns st' T' (st_seven\<lparr>js_mem := m\<rparr>) \<and>
    jabs (js_mem st') T' (Arr [Num 7])"
proof -
  have "st_fin st_seven" by (simp add: st_fin_def st_seven_def)
  moreover have "printable (e_fpu int_env) (Arr [Num 7])" by (simp add: seven_rt)
  moreover have "ja t_seven = 0" by (simp add: t_seven_def)
  ultimately show ?thesis
    using json_encode_decode [OF int_env_ok _ seven_rep(1,2), of None 3] seven_rep(3) by simp
qed

end
