(* ===== verification/Mqtt_Net.thy ===== *)
theory Mqtt_Net
  imports C_Base
begin

text \<open>
  Timers and the network object of the MQTT client: \<open>src/mqtt/client/src/timer.c\<close>, the macros of
  \<open>include/time/timer_functions.h\<close> and the callbacks of \<open>src/mqtt/client/src/network.c\<close> (without
  \<open>MQTT_CIPHER\<close>).

  The socket calls and the clock are parameters: they act on a state of the outside world of type
  \<open>'w\<close>. A receive returns the bytes that were stored, none when it failed; a send returns its result.
\<close>

section \<open>Timers\<close>

record timeval =
  tv_sec :: int
  tv_usec :: int

text \<open>Conversion of a wider integer to \<open>int\<close>.\<close>

definition to_int :: "int \<Rightarrow> int" where
  "to_int i = signed_take_bit 31 i"

definition timeradd :: "timeval \<Rightarrow> timeval \<Rightarrow> timeval" where
  "timeradd a b =
     (let s = tv_sec a + tv_sec b; u = tv_usec a + tv_usec b
      in if u \<ge> 1000000 then \<lparr>tv_sec = s + 1, tv_usec = u - 1000000\<rparr> else \<lparr>tv_sec = s, tv_usec = u\<rparr>)"

definition timersub :: "timeval \<Rightarrow> timeval \<Rightarrow> timeval" where
  "timersub a b =
     (let s = tv_sec a - tv_sec b; u = tv_usec a - tv_usec b
      in if to_int u < 0 then \<lparr>tv_sec = s - 1, tv_usec = u + 1000000\<rparr> else \<lparr>tv_sec = s, tv_usec = u\<rparr>)"

type_synonym 'w clock = "'w \<Rightarrow> timeval \<times> 'w"

definition TimerInit :: timeval where
  "TimerInit = \<lparr>tv_sec = 0, tv_usec = 0\<rparr>"

definition TimerIsExpired :: "'w clock \<Rightarrow> timeval \<Rightarrow> 'w \<Rightarrow> bool \<times> 'w" where
  "TimerIsExpired clk timer w =
     (case clk w of (now, w) \<Rightarrow>
        let res = timersub timer now in (to_int (tv_sec res) < 0 \<or> tv_sec res = 0 \<and> tv_usec res \<le> 0, w))"

definition TimerCountdownMS :: "'w clock \<Rightarrow> 32 word \<Rightarrow> 'w \<Rightarrow> timeval \<times> 'w" where
  "TimerCountdownMS clk timeout w =
     (case clk w of (now, w) \<Rightarrow>
        (timeradd now \<lparr>tv_sec = uint (timeout div 1000), tv_usec = uint (timeout mod 1000) * 1000\<rparr>, w))"

definition TimerCountdown :: "'w clock \<Rightarrow> 32 word \<Rightarrow> 'w \<Rightarrow> timeval \<times> 'w" where
  "TimerCountdown clk timeout w =
     (case clk w of (now, w) \<Rightarrow> (timeradd now \<lparr>tv_sec = uint timeout, tv_usec = 0\<rparr>, w))"

definition TimerLeftMS :: "'w clock \<Rightarrow> timeval \<Rightarrow> 'w \<Rightarrow> int \<times> 'w" where
  "TimerLeftMS clk timer w =
     (case clk w of (now, w) \<Rightarrow>
        let res = timersub timer now
        in (if to_int (tv_sec res) < 0 then 0 else to_int (tv_sec res * 1000 + tv_usec res div 1000), w))"

section \<open>The network object\<close>

record 'w sockets =
  sk_recv :: "'w \<Rightarrow> nat \<Rightarrow> bytes \<times> 'w"
  sk_send :: "'w \<Rightarrow> bytes \<Rightarrow> int \<times> 'w"
  sk_set_timeout :: "'w \<Rightarrow> timeval \<Rightarrow> 'w"

text \<open>A read returns its result, the bytes stored from the buffer pointer on, and the world.\<close>

record 'w Network =
  mqttread :: "'w \<Rightarrow> int \<Rightarrow> int \<Rightarrow> int \<times> bytes \<times> 'w"
  mqttwrite :: "'w \<Rightarrow> bytes \<Rightarrow> int \<Rightarrow> int \<times> 'w"

definition ms_interval :: "int \<Rightarrow> timeval" where
  "ms_interval timeout_ms = \<lparr>tv_sec = timeout_ms sdiv 1000, tv_usec = timeout_ms smod 1000 * 1000\<rparr>"

function read_loop :: "'w sockets \<Rightarrow> nat \<Rightarrow> bytes \<Rightarrow> 'w \<Rightarrow> int \<times> bytes \<times> 'w" where
  "read_loop S len acc w =
     (if length acc < len then
        (case sk_recv S w ((len - length acc) mod 65536) of (data, w) \<Rightarrow>
           if data = [] then (-1, acc, w) else read_loop S len (acc @ data) w)
      else (int (length acc), acc, w))"
  by pat_completeness auto
termination
  by (relation "measure (\<lambda>(S, len, acc, w). len - length acc)") (auto simp flip: length_greater_0_conv)

declare read_loop.simps [simp del]

definition net_read :: "'w sockets \<Rightarrow> 'w \<Rightarrow> int \<Rightarrow> int \<Rightarrow> int \<times> bytes \<times> 'w" where
  "net_read S w len timeout_ms =
     (if len \<le> 0 then (-1, [], w)
      else let iv = ms_interval timeout_ms;
               iv = (if tv_sec iv < 0 \<or> tv_sec iv = 0 \<and> tv_usec iv \<le> 0 then \<lparr>tv_sec = 0, tv_usec = 100\<rparr> else iv)
           in read_loop S (nat len) [] (sk_set_timeout S w iv))"

definition net_write :: "'w sockets \<Rightarrow> 'w \<Rightarrow> bytes \<Rightarrow> int \<Rightarrow> int \<times> 'w" where
  "net_write S w data timeout_ms = sk_send S (sk_set_timeout S w (ms_interval timeout_ms)) data"

definition NetworkInit :: "'w sockets \<Rightarrow> 'w Network" where
  "NetworkInit S = \<lparr>mqttread = net_read S, mqttwrite = net_write S\<rparr>"

section \<open>Timers measure time\<close>

definition usecs :: "timeval \<Rightarrow> int" where
  "usecs t = tv_sec t * 1000000 + tv_usec t"

text \<open>A normalised time whose differences fit into an \<open>int\<close>.\<close>

definition time_ok :: "timeval \<Rightarrow> bool" where
  "time_ok t \<longleftrightarrow> 0 \<le> tv_sec t \<and> tv_sec t < 2 ^ 30 \<and> 0 \<le> tv_usec t \<and> tv_usec t < 1000000"

lemma to_int_small [simp]: "- (2 ^ 31) \<le> i \<Longrightarrow> i < 2 ^ 31 \<Longrightarrow> to_int i = i"
  unfolding to_int_def by (simp add: signed_take_bit_int_eq_self_iff)

lemma timeradd_usecs: "usecs (timeradd a b) = usecs a + usecs b"
  by (simp add: usecs_def timeradd_def Let_def)

lemma timersub_usecs:
  assumes "0 \<le> tv_usec a" "tv_usec a < 1000000" "0 \<le> tv_usec b" "tv_usec b < 1000000"
  shows "usecs (timersub a b) = usecs a - usecs b" and "0 \<le> tv_usec (timersub a b)" and "tv_usec (timersub a b) < 1000000"
  using assms by (simp_all add: usecs_def timersub_def Let_def)

text \<open>The end of a countdown that was started at time \<open>t0\<close>.\<close>

lemma countdown_end:
  assumes "time_ok t0" and "e = timeradd t0 \<lparr>tv_sec = uint (ms div 1000), tv_usec = uint (ms mod 1000) * 1000\<rparr>"
  shows "usecs e = usecs t0 + uint (ms :: 32 word) * 1000" and "0 \<le> tv_usec e" and "tv_usec e < 1000000"
    and "0 \<le> tv_sec e" and "tv_sec e < 2 ^ 30 + 2 ^ 24"
proof -
  have m: "uint (ms div 1000) = uint ms div 1000" "uint (ms mod 1000) = uint ms mod 1000"
    by (simp_all add: uint_div uint_mod)
  have b: "uint ms < 4294967296" "0 \<le> uint ms" using uint_lt2p [of ms] by simp_all
  then have d: "uint ms div 1000 < 4294968" "0 \<le> uint ms div 1000" "0 \<le> uint ms mod 1000" "uint ms mod 1000 * 1000 \<le> 999000" by linarith+
  have "uint ms = uint ms div 1000 * 1000 + uint ms mod 1000" by simp
  then have "usecs \<lparr>tv_sec = uint ms div 1000, tv_usec = uint ms mod 1000 * 1000\<rparr> = uint ms * 1000" unfolding usecs_def timeval.simps by linarith
  then show "usecs e = usecs t0 + uint ms * 1000" unfolding assms(2) timeradd_usecs m by simp
  show "0 \<le> tv_usec e" "tv_usec e < 1000000" "0 \<le> tv_sec e" "tv_sec e < 2 ^ 30 + 2 ^ 24"
    using assms(1) d unfolding assms(2) m by (simp_all add: time_ok_def timeradd_def Let_def)
qed

text \<open>The timers of the client measure time: a countdown of \<open>ms\<close> milliseconds that was started when
  the clock showed \<open>t0\<close> has expired at the clock reading \<open>t1\<close> exactly when that many milliseconds have
  passed, and \<open>TimerLeftMS\<close> is the number of whole milliseconds that are left, zero when it has
  expired.\<close>

theorem timer_countdown_correct:
  assumes "clk w0 = (t0, w1)" and "clk w2 = (t1, w3)" and "time_ok t0" and "time_ok t1" and "usecs t0 \<le> usecs t1"
    and "TimerCountdownMS clk ms w0 = (timer, w1)" and "uint ms < 2 ^ 31"
  shows "TimerIsExpired clk timer w2 = (usecs t0 + uint ms * 1000 \<le> usecs t1, w3) \<and>
    TimerLeftMS clk timer w2 = (max 0 ((usecs t0 + uint ms * 1000 - usecs t1) div 1000), w3)"
proof -
  have e: "timer = timeradd t0 \<lparr>tv_sec = uint (ms div 1000), tv_usec = uint (ms mod 1000) * 1000\<rparr>"
    using assms(1,6) by (simp add: TimerCountdownMS_def)
  note c = countdown_end [OF assms(3) e]
  have t1: "0 \<le> tv_usec t1" "tv_usec t1 < 1000000" "0 \<le> tv_sec t1" "tv_sec t1 < 2 ^ 30" using assms(4) by (simp_all add: time_ok_def)
  define r where "r = timersub timer t1"
  have r: "usecs r = usecs t0 + uint ms * 1000 - usecs t1" "0 \<le> tv_usec r" "tv_usec r < 1000000"
    using timersub_usecs [OF c(2,3) t1(1,2)] c(1) unfolding r_def by simp_all
  have s: "- (2 ^ 31) \<le> tv_sec r" "tv_sec r < 2 ^ 31" using c(2-5) t1 unfolding r_def by (simp_all add: timersub_def Let_def)
  have ms: "tv_sec r * 1000 + tv_usec r div 1000 = usecs r div 1000" by (simp add: usecs_def)
  have le: "usecs r div 1000 < 2 ^ 31" using r(1) assms(5,7) by linarith
  have "to_int (tv_sec r) < 0 \<or> tv_sec r = 0 \<and> tv_usec r \<le> 0 \<longleftrightarrow> usecs r \<le> 0"
    using r(2,3) s by (auto simp: usecs_def)
  moreover have "(if to_int (tv_sec r) < 0 then 0 else to_int (usecs r div 1000)) = max 0 (usecs r div 1000)"
  proof (cases "tv_sec r < 0")
    case True
    then have "usecs r div 1000 < 0" using r(3) unfolding usecs_def by linarith
    with True s show ?thesis by simp
  next
    case False
    then have "0 \<le> usecs r div 1000" using r(2) unfolding usecs_def by linarith
    with False s le show ?thesis by simp
  qed
  ultimately show ?thesis using assms(2) unfolding r(1) [symmetric]
    by (simp add: TimerIsExpired_def TimerLeftMS_def Let_def ms r(1) flip: r_def split: if_splits)
qed

theorem timer_countdown_correct_witness:
  "TimerLeftMS (\<lambda>n. (\<lparr>tv_sec = n, tv_usec = 999999\<rparr>, n + 1)) (\<lparr>tv_sec = 7, tv_usec = 499999\<rparr>) 6 = (500, 7) \<and>
   TimerIsExpired (\<lambda>n. (\<lparr>tv_sec = n, tv_usec = 999999\<rparr>, n + 1)) (\<lparr>tv_sec = 7, tv_usec = 499999\<rparr>) 6 = (False, 7)"
  using timer_countdown_correct [where clk = "\<lambda>n. (\<lparr>tv_sec = n, tv_usec = 999999\<rparr>, n + 1)" and ?w0.0 = 5 and ?w1.0 = 6 and ?w2.0 = 6 and ?w3.0 = 7
      and ?t0.0 = "\<lparr>tv_sec = 5, tv_usec = 999999\<rparr>" and ?t1.0 = "\<lparr>tv_sec = 6, tv_usec = 999999\<rparr>" and ms = 1500
      and timer = "\<lparr>tv_sec = 7, tv_usec = 499999\<rparr>"]
  by (simp add: time_ok_def usecs_def TimerCountdownMS_def timeradd_def)

section \<open>Reading\<close>

text \<open>A receive stores at most what it was asked for.\<close>

definition recv_ok :: "'w sockets \<Rightarrow> bool" where
  "recv_ok S \<longleftrightarrow> (\<forall>w n. length (fst (sk_recv S w n)) \<le> n)"

lemma recv_okD: "recv_ok S \<Longrightarrow> sk_recv S w n = (d, v) \<Longrightarrow> length d \<le> n"
  unfolding recv_ok_def by (metis fst_conv)

lemma read_loop_result:
  assumes "recv_ok S"
  shows "length acc \<le> len \<Longrightarrow> read_loop S len acc w = (rc, data, w') \<Longrightarrow>
    rc = int len \<and> length data = len \<or> rc = -1 \<and> length data < len"
proof (induction "len - length acc" arbitrary: acc w rule: less_induct)
  case less
  obtain d v where r: "sk_recv S w ((len - length acc) mod 65536) = (d, v)" by force
  have "length d \<le> len - length acc" using recv_okD [OF assms r] mod_less_eq_dividend le_trans by blast
  then have d: "length (acc @ d) \<le> len" using less.prems(1) by simp
  show ?case
  proof (cases "length acc < len \<and> d \<noteq> []")
    case True
    then have "len - length (acc @ d) < len - length acc" by (cases d) auto
    moreover have "read_loop S len (acc @ d) v = (rc, data, w')" using less.prems(2) True r by (simp add: read_loop.simps [of S len acc w])
    ultimately show ?thesis using less.hyps d by blast
  qed (use less.prems r in \<open>auto simp: read_loop.simps [of S len acc w] split: if_splits\<close>)
qed

text \<open>The read callback fills the buffer completely or fails, and never stores more than it was asked for.\<close>

lemma net_read_result:
  assumes "recv_ok S" and "mqttread (NetworkInit S) w len timeout = (rc, data, w')"
  shows "rc = len \<and> int (length data) = len \<and> 0 < len \<or> rc = -1 \<and> length data \<le> nat len"
proof (cases "len \<le> 0")
  case False
  with assms(2) have "read_loop S (nat len) [] (sk_set_timeout S w (let iv = ms_interval timeout
      in if tv_sec iv < 0 \<or> tv_sec iv = 0 \<and> tv_usec iv \<le> 0 then \<lparr>tv_sec = 0, tv_usec = 100\<rparr> else iv)) = (rc, data, w')"
    by (simp add: NetworkInit_def net_read_def Let_def)
  from read_loop_result [OF assms(1) _ this] False show ?thesis by auto
qed (use assms(2) in \<open>auto simp: NetworkInit_def net_read_def\<close>)

end
