(* ===== verification/Mqtt_Client.thy ===== *)
theory Mqtt_Client
  imports Mqtt_Connect Mqtt_Subscribe Mqtt_Net
begin

text \<open>
  The MQTT client: \<open>src/mqtt/client/src/MQTTClient.c\<close> with the receive cycle of
  \<open>src/mqtt/client/client.c\<close> and the registered deliveries of \<open>src/mqtt/client/delivery.c\<close> (without
  \<open>MQTT_TASK\<close>, so there is no mutex).

  \<open>mst\<close> is the state of the client structure, the list of deliveries and the outside world. The send and
  the receive buffer are objects of their own; an access outside them is undefined. A callback acts on
  the world only. The list \<open>__delivery_cb\<close> is its sequence of nodes (see theory \<open>Linked_List\<close>).
\<close>

section \<open>State\<close>

record MQTTMessage =
  m_qos :: int
  m_retained :: byte
  m_dup :: byte
  m_id :: "16 word"
  m_payload :: "bytes option"
  m_payloadlen :: int

type_synonym 'w handler = "MQTTString \<Rightarrow> MQTTMessage \<Rightarrow> 'w \<Rightarrow> 'w"

record 'w MQTTClient =
  c_next_packetid :: "32 word"
  c_command_timeout_ms :: "32 word"
  c_buf_size :: nat
  c_readbuf_size :: nat
  c_buf :: bytes
  c_readbuf :: bytes
  c_keepAliveInterval :: "32 word"
  c_ping_outstanding :: int
  c_isconnected :: int
  c_cleansession :: int
  c_messageHandlers :: "(bytes option \<times> 'w handler option) list"
  c_defaultMessageHandler :: "'w handler option"
  c_ipstack :: "'w Network"
  c_last_sent :: timeval
  c_last_received :: timeval

record 'w delivery =
  d_topic :: bytes
  d_init :: "(int \<Rightarrow> 'w \<Rightarrow> int \<times> 'w) option"
  d_process :: "(bytes \<Rightarrow> 'w \<Rightarrow> int \<times> 'w) option"
  d_done :: "('w \<Rightarrow> int \<times> 'w) option"

record 'w mst =
  cl :: "'w MQTTClient"
  dl :: "'w delivery list"
  wd :: 'w

text \<open>The clock, the configuration \<open>MQTT_CLIENT_MAX_MSG_LEN\<close> and whether \<open>char\<close> is signed.\<close>

record 'w platform =
  p_clock :: "'w clock"
  p_max_msg_len :: int
  p_schar :: bool

definition FAILURE :: int where "FAILURE = -1"
definition BUFFER_OVERFLOW :: int where "BUFFER_OVERFLOW = -2"
definition MQTT_SUCCESS :: int where "MQTT_SUCCESS = 0"
definition MAX_PACKET_ID :: "32 word" where "MAX_PACKET_ID = 65535"

text \<open>The timer functions and the network callbacks on the state.\<close>

definition expired :: "'w platform \<Rightarrow> timeval \<Rightarrow> 'w mst \<Rightarrow> bool \<times> 'w mst" where
  "expired P timer st = (case TimerIsExpired (p_clock P) timer (wd st) of (b, w) \<Rightarrow> (b, st\<lparr>wd := w\<rparr>))"

definition countdown_ms :: "'w platform \<Rightarrow> 32 word \<Rightarrow> 'w mst \<Rightarrow> timeval \<times> 'w mst" where
  "countdown_ms P ms st = (case TimerCountdownMS (p_clock P) ms (wd st) of (t, w) \<Rightarrow> (t, st\<lparr>wd := w\<rparr>))"

definition countdown :: "'w platform \<Rightarrow> 32 word \<Rightarrow> 'w mst \<Rightarrow> timeval \<times> 'w mst" where
  "countdown P s st = (case TimerCountdown (p_clock P) s (wd st) of (t, w) \<Rightarrow> (t, st\<lparr>wd := w\<rparr>))"

definition left_ms :: "'w platform \<Rightarrow> timeval \<Rightarrow> 'w mst \<Rightarrow> int \<times> 'w mst" where
  "left_ms P timer st = (case TimerLeftMS (p_clock P) timer (wd st) of (t, w) \<Rightarrow> (t, st\<lparr>wd := w\<rparr>))"

definition net_in :: "'w mst \<Rightarrow> int \<Rightarrow> int \<Rightarrow> int \<times> bytes \<times> 'w mst" where
  "net_in st len timeout =
     (case mqttread (c_ipstack (cl st)) (wd st) len timeout of (rc, data, w) \<Rightarrow> (rc, data, st\<lparr>wd := w\<rparr>))"

definition net_out :: "'w mst \<Rightarrow> bytes \<Rightarrow> int \<Rightarrow> int \<times> 'w mst" where
  "net_out st data timeout =
     (case mqttwrite (c_ipstack (cl st)) (wd st) data timeout of (rc, w) \<Rightarrow> (rc, st\<lparr>wd := w\<rparr>))"

text \<open>\<open>mqttread(c->ipstack, c->readbuf + off, len, TimerLeftMS(timer))\<close>: the result and the new state.\<close>

definition read_buf :: "'w platform \<Rightarrow> timeval \<Rightarrow> nat \<Rightarrow> int \<Rightarrow> 'w mst \<Rightarrow> (int \<times> 'w mst) option" where
  "read_buf P timer off len st =
     (case left_ms P timer st of (t, st) \<Rightarrow>
        case net_in st len t of (rc, data, st) \<Rightarrow> do {
          b \<leftarrow> mem_write (c_readbuf (cl st)) off data;
          Some (rc, st\<lparr>cl := (cl st)\<lparr>c_readbuf := b\<rparr>\<rparr>)
        })"

text \<open>The same into a local array of \<open>n\<close> bytes; the bytes read come with the result.\<close>

definition read_tmp :: "'w platform \<Rightarrow> timeval \<Rightarrow> nat \<Rightarrow> int \<Rightarrow> 'w mst \<Rightarrow> (int \<times> bytes \<times> 'w mst) option" where
  "read_tmp P timer n len st =
     (case left_ms P timer st of (t, st) \<Rightarrow>
        case net_in st len t of (rc, data, st) \<Rightarrow> if length data \<le> n then Some (rc, data, st) else None)"

definition set_buf :: "bytes \<Rightarrow> 'w mst \<Rightarrow> 'w mst" where
  "set_buf b st = st\<lparr>cl := (cl st)\<lparr>c_buf := b\<rparr>\<rparr>"

text \<open>A serialiser on \<open>c->buf\<close> with \<open>c->buf_size\<close>.\<close>

definition serialise :: "(bytes \<Rightarrow> int \<Rightarrow> (bytes \<times> int) option) \<Rightarrow> 'w mst \<Rightarrow> (int \<times> 'w mst) option" where
  "serialise f st = do { (b, len) \<leftarrow> f (c_buf (cl st)) (int (c_buf_size (cl st))); Some (len, set_buf b st) }"

section \<open>Sending\<close>

definition getNextPacketId :: "'w mst \<Rightarrow> 32 word \<times> 'w mst" where
  "getNextPacketId st =
     (let i = (if c_next_packetid (cl st) = MAX_PACKET_ID then 1 else c_next_packetid (cl st) + 1)
      in (i, st\<lparr>cl := (cl st)\<lparr>c_next_packetid := i\<rparr>\<rparr>))"

text \<open>The writer is always offered \<open>length\<close> bytes from \<open>&c->buf[sent]\<close> on.\<close>

function send_loop :: "'w platform \<Rightarrow> int \<Rightarrow> timeval \<Rightarrow> int \<Rightarrow> 'w mst \<Rightarrow> (int \<times> 'w mst) option" where
  "send_loop P len timer sent st =
     (if sent < len then
        (case expired P timer st of (ex, st) \<Rightarrow>
           if ex then Some (sent, st)
           else case mem_read (c_buf (cl st)) (nat sent) (nat len) of
               None \<Rightarrow> None
             | Some data \<Rightarrow>
                 (case left_ms P timer st of (t, st) \<Rightarrow>
                    case net_out st data t of (rc, st) \<Rightarrow>
                      if rc \<le> 0 then Some (sent, st) else send_loop P len timer (sent + rc) st))
      else Some (sent, st))"
  by pat_completeness auto
termination
  by (relation "measure (\<lambda>(P, len, timer, sent, st). nat (len - sent))") auto

declare send_loop.simps [simp del]

definition sendPacket :: "'w platform \<Rightarrow> int \<Rightarrow> timeval \<Rightarrow> 'w mst \<Rightarrow> (int \<times> 'w mst) option" where
  "sendPacket P len timer st = do {
     (sent, st) \<leftarrow> send_loop P len timer 0 st;
     if sent = len then
       (case countdown P (c_keepAliveInterval (cl st)) st of (t, st) \<Rightarrow>
          Some (MQTT_SUCCESS, st\<lparr>cl := (cl st)\<lparr>c_last_sent := t\<rparr>\<rparr>))
     else Some (FAILURE, st)
   }"

definition MQTTClientInit ::
    "'w Network \<Rightarrow> 32 word \<Rightarrow> bytes \<Rightarrow> nat \<Rightarrow> bytes \<Rightarrow> nat \<Rightarrow> 'w MQTTClient \<Rightarrow> 'w MQTTClient" where
  "MQTTClientInit network command_timeout_ms sendbuf sendbuf_size readbuf readbuf_size c =
     c\<lparr>c_ipstack := network,
       c_messageHandlers := map (\<lambda>h. (None, snd h)) (c_messageHandlers c),
       c_command_timeout_ms := command_timeout_ms, c_buf := sendbuf, c_buf_size := sendbuf_size,
       c_readbuf := readbuf, c_readbuf_size := readbuf_size, c_isconnected := 0, c_cleansession := 0,
       c_ping_outstanding := 0, c_defaultMessageHandler := None, c_next_packetid := 1,
       c_last_sent := TimerInit, c_last_received := TimerInit\<rparr>"

section \<open>Receiving\<close>

text \<open>The result is the number of bytes of the remaining length and \<open>*value\<close>; \<open>i\<close> is the last byte read.\<close>

function decodePacket_loop ::
    "int \<Rightarrow> byte \<Rightarrow> int \<Rightarrow> int \<Rightarrow> int \<Rightarrow> 'w mst \<Rightarrow> (int \<times> int \<times> 'w mst) option" where
  "decodePacket_loop timeout i multiplier len val st =
     (case net_in st 1 timeout of (rc, data, st) \<Rightarrow>
        if length data > 1 then None
        else if rc \<noteq> 1 then Some (len, val, st)
        else if len + 1 > 4 then Some (len + 1, val, st)
        else let i = (if data = [] then i else data ! 0);
                 val = val + uint (i AND 127) * multiplier
             in if i AND 128 \<noteq> 0 then decodePacket_loop timeout i (multiplier * 128) (len + 1) val st
                else Some (len + 1, val, st))"
  by pat_completeness auto
termination
  by (relation "measure (\<lambda>(timeout, i, multiplier, len, val, st). nat (5 - len))") auto

declare decodePacket_loop.simps [simp del]

definition decodePacket :: "int \<Rightarrow> 'w mst \<Rightarrow> (int \<times> int \<times> 'w mst) option" where
  "decodePacket timeout st = decodePacket_loop timeout 0 1 0 0 st"

text \<open>\<open>decodePacket(c, &rem_len, TimerLeftMS(timer))\<close>.\<close>

definition decode_len :: "'w platform \<Rightarrow> timeval \<Rightarrow> 'w mst \<Rightarrow> (int \<times> int \<times> 'w mst) option" where
  "decode_len P timer st = (case left_ms P timer st of (t, st) \<Rightarrow> decodePacket t st)"

text \<open>The packet that does not fit is read away in chunks.\<close>

partial_function (option) drain_loop :: "'w platform \<Rightarrow> timeval \<Rightarrow> nat \<Rightarrow> int \<Rightarrow> 'w mst \<Rightarrow> ('w mst) option" where
  "drain_loop P timer len rem_len st =
     (if rem_len = 0 then Some st
      else let room = int (c_readbuf_size (cl st)) - int len - 1;
               chunk = (if rem_len < room then rem_len else room)
           in do {
             (r, st) \<leftarrow> read_buf P timer len chunk st;
             if r > 0 then drain_loop P timer len (rem_len - r) st else Some st
           })"

text \<open>\<open>size_t\<close> has 64 bits; the difference \<open>c->readbuf_size - len\<close> wraps.\<close>

definition readPacket :: "'w platform \<Rightarrow> timeval \<Rightarrow> 'w mst \<Rightarrow> (int \<times> 'w mst) option" where
  "readPacket P timer st = do {
     (rc, st) \<leftarrow> read_buf P timer 0 1 st;
     if rc \<noteq> 1 then Some (rc, st)
     else do {
       (_, rem_len, st) \<leftarrow> decode_len P timer st;
       if rem_len \<le> 0 then Some (0, st)
       else do {
         (b, n) \<leftarrow> MQTTPacket_encode (c_readbuf (cl st), 1) rem_len;
         let st = st\<lparr>cl := (cl st)\<lparr>c_readbuf := b\<rparr>\<rparr>;
         let len = 1 + n;
         if rem_len > (int (c_readbuf_size (cl st)) - int len) mod 2 ^ 64 then do {
           st \<leftarrow> drain_loop P timer len rem_len st;
           Some (BUFFER_OVERFLOW, st)
         }
         else do {
           (r, st) \<leftarrow> read_buf P timer len rem_len st;
           if r \<noteq> rem_len then Some (0, st)
           else do {
             h \<leftarrow> read_at (c_readbuf (cl st)) 0;
             st \<leftarrow> (if c_keepAliveInterval (cl st) > 0
                   then (case countdown P (c_keepAliveInterval (cl st)) st of (t, st) \<Rightarrow>
                           Some (st\<lparr>cl := (cl st)\<lparr>c_last_received := t\<rparr>\<rparr>))
                   else Some st);
             Some (int (h_type (header_of h)), st)
           }
         }
       }
     }
   }"

section \<open>Topics and messages\<close>

text \<open>The filter from \<open>curf\<close> on, without its terminator, and the name from \<open>curn\<close> to its end.\<close>

fun topic_loop :: "bytes \<Rightarrow> bytes \<Rightarrow> bool" where
  "topic_loop [] curn = (curn = [])"
| "topic_loop (f # curf) [] = False"
| "topic_loop (f # curf) (n # curn) =
     (if n = 47 \<and> f \<noteq> 47 then False
      else if f \<noteq> 43 \<and> f \<noteq> 35 \<and> f \<noteq> n then False
      else if f = 43 then topic_loop curf (dropWhile (\<lambda>c. c \<noteq> 47) curn)
      else if f = 35 then topic_loop curf []
      else topic_loop curf curn)"

definition isTopicMatched :: "bytes \<Rightarrow> MQTTString \<Rightarrow> bool option" where
  "isTopicMatched topicFilter topicName =
     (if lenstring_len topicName < 0 then Some False
      else if lenstring_len topicName = 0 then Some (topic_loop topicFilter [])
      else do {
        d \<leftarrow> lenstring_data topicName;
        name \<leftarrow> mem_read d 0 (nat (lenstring_len topicName));
        Some (topic_loop topicFilter name)
      })"

text \<open>The loop over the handlers: the result code and the world.\<close>

fun deliver_loop ::
    "(bytes option \<times> 'w handler option) list \<Rightarrow> MQTTString \<Rightarrow> MQTTMessage \<Rightarrow> int \<Rightarrow> 'w \<Rightarrow> (int \<times> 'w) option" where
  "deliver_loop [] topicName message rc w = Some (rc, w)"
| "deliver_loop ((flt, fp) # hs) topicName message rc w = do {
     hit \<leftarrow> (case flt of
              None \<Rightarrow> Some False
            | Some f \<Rightarrow> do { e \<leftarrow> MQTTPacket_equals topicName f; if e then Some True else isTopicMatched f topicName });
     case (if hit then fp else None) of
       None \<Rightarrow> deliver_loop hs topicName message rc w
     | Some g \<Rightarrow> deliver_loop hs topicName message MQTT_SUCCESS (g topicName message w)
   }"

definition deliverMessage :: "MQTTString \<Rightarrow> MQTTMessage \<Rightarrow> 'w mst \<Rightarrow> (int \<times> 'w mst) option" where
  "deliverMessage topicName message st = do {
     (rc, w) \<leftarrow> deliver_loop (c_messageHandlers (cl st)) topicName message FAILURE (wd st);
     let st = st\<lparr>wd := w\<rparr>;
     case (if rc = FAILURE then c_defaultMessageHandler (cl st) else None) of
       None \<Rightarrow> Some (rc, st)
     | Some g \<Rightarrow> Some (MQTT_SUCCESS, st\<lparr>wd := g topicName message w\<rparr>)
   }"

section \<open>Keeping the session alive\<close>

definition keepalive :: "'w platform \<Rightarrow> 'w mst \<Rightarrow> (int \<times> 'w mst) option" where
  "keepalive P st =
     (if c_keepAliveInterval (cl st) = 0 then Some (MQTT_SUCCESS, st)
      else case expired P (c_last_sent (cl st)) st of (a, st) \<Rightarrow>
           case (if a then (True, st) else expired P (c_last_received (cl st)) st) of (due, st) \<Rightarrow>
             if \<not> due then Some (MQTT_SUCCESS, st)
             else if c_ping_outstanding (cl st) \<noteq> 0 then Some (FAILURE, st)
             else case countdown_ms P 1000 st of (timer, st) \<Rightarrow> do {
               (len, st) \<leftarrow> serialise MQTTSerialize_pingreq st;
               if len > 0 then do {
                 (rc, st) \<leftarrow> sendPacket P len timer st;
                 if rc = MQTT_SUCCESS then Some (rc, st\<lparr>cl := (cl st)\<lparr>c_ping_outstanding := 1\<rparr>\<rparr>) else Some (rc, st)
               }
               else Some (MQTT_SUCCESS, st)
             })"

definition MQTTCleanSession :: "'w MQTTClient \<Rightarrow> 'w MQTTClient" where
  "MQTTCleanSession c = c\<lparr>c_messageHandlers := map (\<lambda>h. (None, snd h)) (c_messageHandlers c)\<rparr>"

definition MQTTCloseSession :: "'w mst \<Rightarrow> 'w mst" where
  "MQTTCloseSession st =
     (let c = (cl st)\<lparr>c_ping_outstanding := 0, c_isconnected := 0\<rparr>
      in st\<lparr>cl := if c_cleansession c \<noteq> 0 then MQTTCleanSession c else c\<rparr>)"

section \<open>The cycle of the original client\<close>

text \<open>\<open>msg.payloadlen\<close> is a \<open>size_t\<close> that is zero before its low 32 bits are assigned.\<close>

definition message_of :: "publish_out \<Rightarrow> MQTTMessage" where
  "message_of out = \<lparr>m_qos = o_qos out, m_retained = o_retained out, m_dup = o_dup out, m_id = o_packetid out,
     m_payload = o_payload out, m_payloadlen = o_payloadlen out mod 2 ^ 32\<rparr>"

text \<open>The handling of a packet of the given type; true when the code jumps to \<open>exit\<close>. The variables that
  \<open>MQTTDeserialize_publish\<close> and \<open>MQTTDeserialize_ack\<close> assign are uninitialised before; \<open>out0\<close> and \<open>id0\<close> are
  what they hold.\<close>

definition cycle_packet ::
    "'w platform \<Rightarrow> publish_out \<Rightarrow> 16 word \<Rightarrow> int \<Rightarrow> timeval \<Rightarrow> 'w mst \<Rightarrow> (bool \<times> int \<times> 'w mst) option" where
  "cycle_packet P out0 id0 ptype timer st =
     (if ptype \<in> {0, 2, 4, 9, 11, 7} then Some (False, MQTT_SUCCESS, st)
      else if ptype = 3 then do {
        (ok, out) \<leftarrow> MQTTDeserialize_publish out0 (c_readbuf (cl st)) (int (c_readbuf_size (cl st)));
        if ok \<noteq> 1 then Some (True, MQTT_SUCCESS, st)
        else do {
          (_, st) \<leftarrow> deliverMessage (o_topicName out) (message_of out) st;
          if o_qos out = 0 then Some (False, MQTT_SUCCESS, st)
          else do {
            (len, st) \<leftarrow> (if o_qos out = 1 then serialise (\<lambda>b n. MQTTSerialize_ack b n (word_of_nat (msgType_num PUBACK)) 0 (o_packetid out)) st
                         else if o_qos out = 2 then serialise (\<lambda>b n. MQTTSerialize_ack b n (word_of_nat (msgType_num PUBREC)) 0 (o_packetid out)) st
                         else Some (0, st));
            (rc, st) \<leftarrow> (if len \<le> 0 then Some (FAILURE, st) else sendPacket P len timer st);
            Some (rc = FAILURE, rc, st)
          }
        }
      }
      else if ptype = 5 \<or> ptype = 6 then do {
        let (ok, _, _, mypacketid) = MQTTDeserialize_ack 0 0 id0 (c_readbuf (cl st)) (int (c_readbuf_size (cl st)));
        if ok \<noteq> 1 then Some (True, FAILURE, st)
        else do {
          (len, st) \<leftarrow> serialise (\<lambda>b n. MQTTSerialize_ack b n (word_of_nat (msgType_num (if ptype = 5 then PUBREL else PUBCOMP))) 0 mypacketid) st;
          (rc, st) \<leftarrow> (if len \<le> 0 then Some (FAILURE, st)
                      else do { (rc, st) \<leftarrow> sendPacket P len timer st; Some (if rc \<noteq> MQTT_SUCCESS then FAILURE else rc, st) });
          Some (rc = FAILURE, rc, st)
        }
      }
      else if ptype = 13 then Some (False, MQTT_SUCCESS, st\<lparr>cl := (cl st)\<lparr>c_ping_outstanding := 0\<rparr>\<rparr>)
      else Some (True, ptype, st))"

definition cycle :: "'w platform \<Rightarrow> publish_out \<Rightarrow> 16 word \<Rightarrow> timeval \<Rightarrow> 'w mst \<Rightarrow> (int \<times> 'w mst) option" where
  "cycle P out0 id0 timer st = do {
     (packet_type, st) \<leftarrow> readPacket P timer st;
     (leave, rc, st) \<leftarrow> cycle_packet P out0 id0 packet_type timer st;
     (rc, st) \<leftarrow> (if leave then Some (rc, st)
                 else do { (k, st) \<leftarrow> keepalive P st; Some (if k \<noteq> MQTT_SUCCESS then FAILURE else rc, st) });
     Some (if rc = MQTT_SUCCESS then packet_type else rc, st)
   }"

section \<open>Deliveries\<close>

text \<open>\<open>strcmp\<close> with a C string, \<open>strncmp\<close> with a string of given length.\<close>

definition deliveryeq :: "'w delivery \<Rightarrow> MQTTString \<Rightarrow> bool option" where
  "deliveryeq cb topic =
     (case cstring topic of
        Some s \<Rightarrow> Some (d_topic cb = s)
      | None \<Rightarrow> do {
          d \<leftarrow> (if lenstring_len topic = 0 then Some [] else lenstring_data topic);
          r \<leftarrow> strncmp (d_topic cb @ [0]) d (nat (lenstring_len topic));
          Some (r = 0)
        })"

fun find_delivery :: "'w delivery list \<Rightarrow> MQTTString \<Rightarrow> ('w delivery) option option" where
  "find_delivery [] topic = Some None"
| "find_delivery (cb # cbs) topic = do { e \<leftarrow> deliveryeq cb topic; if e then Some (Some cb) else find_delivery cbs topic }"

definition arrow_mqtt_client_delivery_message_reg :: "'w delivery \<Rightarrow> 'w mst \<Rightarrow> (int \<times> 'w mst) option" where
  "arrow_mqtt_client_delivery_message_reg dc st = do {
     tmp \<leftarrow> find_delivery (dl st) (MQTTString_initializer\<lparr>cstring := Some (d_topic dc)\<rparr>);
     Some (0, if tmp = None then st\<lparr>dl := dl st @ [dc]\<rparr> else st)
   }"

text \<open>Calling the callback that \<open>sel\<close> selects, if it is given.\<close>

definition call_delivery ::
    "('w delivery \<Rightarrow> ('w \<Rightarrow> int \<times> 'w) option) \<Rightarrow> MQTTString \<Rightarrow> 'w mst \<Rightarrow> (int \<times> 'w mst) option" where
  "call_delivery sel topicName st = do {
     tmp \<leftarrow> find_delivery (dl st) topicName;
     Some (case tmp of
             None \<Rightarrow> (-1, st)
           | Some cb \<Rightarrow> (case sel cb of None \<Rightarrow> (-1, st) | Some f \<Rightarrow> (case f (wd st) of (r, w) \<Rightarrow> (r, st\<lparr>wd := w\<rparr>))))
   }"

definition arrow_mqtt_client_delivery_message_init :: "MQTTString \<Rightarrow> int \<Rightarrow> 'w mst \<Rightarrow> (int \<times> 'w mst) option" where
  "arrow_mqtt_client_delivery_message_init topicName payloadlen =
     call_delivery (\<lambda>cb. map_option (\<lambda>f. f payloadlen) (d_init cb)) topicName"

definition arrow_mqtt_client_delivery_message_process :: "MQTTString \<Rightarrow> bytes \<Rightarrow> 'w mst \<Rightarrow> (int \<times> 'w mst) option" where
  "arrow_mqtt_client_delivery_message_process topicName payload =
     call_delivery (\<lambda>cb. map_option (\<lambda>f. f payload) (d_process cb)) topicName"

definition arrow_mqtt_client_delivery_message_done :: "MQTTString \<Rightarrow> 'w mst \<Rightarrow> (int \<times> 'w mst) option" where
  "arrow_mqtt_client_delivery_message_done topicName = call_delivery d_done topicName"

section \<open>The receive cycle\<close>

definition cycle_connack :: "'w platform \<Rightarrow> MQTTHeader \<Rightarrow> int \<Rightarrow> timeval \<Rightarrow> 'w mst \<Rightarrow> (int \<times> 'w mst) option" where
  "cycle_connack P head rem_len timer st = do {
     (r, st) \<leftarrow> read_buf P timer 0 rem_len st;
     Some (if r \<noteq> rem_len then FAILURE else MQTT_SUCCESS, st)
   }"

text \<open>The topic is in the first \<open>n\<close> bytes of the receive buffer.\<close>

definition topic_in_readbuf :: "int \<Rightarrow> 'w mst \<Rightarrow> MQTTString" where
  "topic_in_readbuf n st = \<lparr>cstring = None, lenstring_len = n, lenstring_data = Some (c_readbuf (cl st))\<rparr>"

definition process_chunk :: "int \<Rightarrow> int \<Rightarrow> int \<Rightarrow> 'w mst \<Rightarrow> (int \<times> 'w mst) option" where
  "process_chunk tlen msg_err len st =
     (if msg_err = 0 then do {
        payload \<leftarrow> mem_read (c_readbuf (cl st)) (nat tlen) (nat len);
        arrow_mqtt_client_delivery_message_process (topic_in_readbuf tlen st) payload st
      }
      else Some (0, st))"

text \<open>The loop over the payload; \<open>len\<close> is the result of the last read.\<close>

partial_function (option) payload_loop ::
    "'w platform \<Rightarrow> timeval \<Rightarrow> int \<Rightarrow> int \<Rightarrow> int \<Rightarrow> int \<Rightarrow> int \<Rightarrow> 'w mst \<Rightarrow> (bool \<times> int \<times> 'w mst) option" where
  "payload_loop P timer tlen rest_buffer msg_err len total_len st =
     (if total_len = 0 then Some (True, len, st)
      else do {
        (len, st) \<leftarrow> read_buf P timer (nat tlen) (if total_len < rest_buffer then total_len else rest_buffer) st;
        if len \<le> 0 then Some (False, len, st)
        else do {
          (_, st) \<leftarrow> process_chunk tlen msg_err len st;
          payload_loop P timer tlen rest_buffer msg_err len (total_len - len) st
        }
      })"

text \<open>The acknowledgement of a message.\<close>

definition publish_answer :: "'w platform \<Rightarrow> MQTTHeader \<Rightarrow> 16 word \<Rightarrow> int \<Rightarrow> timeval \<Rightarrow> 'w mst \<Rightarrow> (int \<times> 'w mst) option" where
  "publish_answer P head ident len timer st =
     (if h_qos head = 0 then Some (MQTT_SUCCESS, st)
      else do {
        (len, st) \<leftarrow> (if h_qos head = 1 then serialise (\<lambda>b n. MQTTSerialize_ack b n (word_of_nat (msgType_num PUBACK)) 0 ident) st
                     else if h_qos head = 2 then serialise (\<lambda>b n. MQTTSerialize_ack b n (word_of_nat (msgType_num PUBREC)) 0 ident) st
                     else Some (len, st));
        if len \<le> 0 then Some (FAILURE, st) else sendPacket P len timer st
      })"

definition publish_payload ::
    "'w platform \<Rightarrow> MQTTHeader \<Rightarrow> int \<Rightarrow> int \<Rightarrow> 16 word \<Rightarrow> int \<Rightarrow> int \<Rightarrow> timeval \<Rightarrow> 'w mst \<Rightarrow> (int \<times> 'w mst) option" where
  "publish_payload P head tlen rest_buffer ident len total_len timer st = do {
     (msg_err, st) \<leftarrow> arrow_mqtt_client_delivery_message_init (topic_in_readbuf tlen st) (to_int total_len) st;
     (ok, len, st) \<leftarrow> payload_loop P timer tlen rest_buffer msg_err len total_len st;
     if \<not> ok then Some (FAILURE, st)
     else do {
       (_, st) \<leftarrow> (if msg_err = 0 then arrow_mqtt_client_delivery_message_done (topic_in_readbuf tlen st) st else Some (0, st));
       publish_answer P head ident len timer st
     }
   }"

definition cycle_publish :: "'w platform \<Rightarrow> MQTTHeader \<Rightarrow> int \<Rightarrow> timeval \<Rightarrow> 'w mst \<Rightarrow> (int \<times> 'w mst) option" where
  "cycle_publish P head rem_len timer st = do {
     (len, st) \<leftarrow> read_buf P timer 0 2 st;
     if len \<le> 0 then Some (FAILURE, st)
     else do {
       let total_len = rem_len - len;
       (tlen, _) \<leftarrow> readInt (c_readbuf (cl st)) 0;
       if tlen \<ge> total_len then Some (FAILURE, st)
       else do {
         (len, st) \<leftarrow> read_buf P timer 0 tlen st;
         if len \<noteq> tlen then Some (FAILURE, st)
         else do {
           let total_len = total_len - len;
           let rest_buffer = int (c_readbuf_size (cl st)) - len;
           if rest_buffer \<le> 0 then Some (FAILURE, st)
           else if h_qos head > 0 then do {
             (len, tmp, st) \<leftarrow> read_tmp P timer 2 2 st;
             if len \<noteq> 2 then Some (FAILURE, st)
             else do {
               (n, _) \<leftarrow> readInt tmp 0;
               publish_payload P head tlen rest_buffer (word_of_int n) len (total_len - len) timer st
             }
           }
           else publish_payload P head tlen rest_buffer 0 len total_len timer st
         }
       }
     }
   }"

definition cycle_subscribe :: "'w platform \<Rightarrow> MQTTHeader \<Rightarrow> int \<Rightarrow> timeval \<Rightarrow> 'w mst \<Rightarrow> (int \<times> 'w mst) option" where
  "cycle_subscribe P head rem_len timer st = do {
     (len, st) \<leftarrow> read_buf P timer 0 rem_len st;
     Some (if len \<le> 0 then FAILURE else MQTT_SUCCESS, st)
   }"

text \<open>\<open>__cycle_collection\<close>, indexed by the packet type; it has 15 entries.\<close>

definition cycle_collection ::
    "'w platform \<Rightarrow> nat \<Rightarrow> (MQTTHeader \<Rightarrow> int \<Rightarrow> timeval \<Rightarrow> 'w mst \<Rightarrow> (int \<times> 'w mst) option) option" where
  "cycle_collection P t =
     (if t = 2 then Some (cycle_connack P) else if t = 3 then Some (cycle_publish P) else if t = 9 then Some (cycle_subscribe P) else None)"

partial_function (option) skip_loop :: "'w platform \<Rightarrow> timeval \<Rightarrow> int \<Rightarrow> 'w mst \<Rightarrow> ('w mst) option" where
  "skip_loop P timer rem_len st =
     (if rem_len = 0 then Some st
      else do {
        (r, _, st) \<leftarrow> read_tmp P timer 4 (if rem_len < 4 then rem_len else 4) st;
        if r > 0 then skip_loop P timer (rem_len - r) st else Some st
      })"

text \<open>When the remaining length cannot be read, \<open>rc\<close> still is the result of reading the first byte.\<close>

definition cycle_r :: "'w platform \<Rightarrow> timeval \<Rightarrow> 'w mst \<Rightarrow> (int \<times> 'w mst) option" where
  "cycle_r P timer st = do {
     (rc, tmp, st) \<leftarrow> read_tmp P timer 4 1 st;
     if rc \<noteq> 1 then Some (FAILURE, st)
     else do {
       b \<leftarrow> read_at tmp 0;
       let head = header_of b;
       let pack_type = h_type head;
       if pack_type < 1 \<or> pack_type \<ge> 15 then Some (FAILURE, st)
       else do {
         (len, rem_len, st) \<leftarrow> decode_len P timer st;
         if len \<le> 0 \<or> rem_len > p_max_msg_len P then Some (rc, st)
         else (case cycle_collection P pack_type of
             None \<Rightarrow> do { st \<leftarrow> skip_loop P timer rem_len st; Some (int pack_type, st) }
           | Some f \<Rightarrow> do {
               (rc, st) \<leftarrow> f head rem_len timer st;
               (k, st) \<leftarrow> keepalive P st;
               let rc = (if k \<noteq> MQTT_SUCCESS then FAILURE else rc);
               Some (if rc = MQTT_SUCCESS then int pack_type else rc, st)
             })
       }
     }
   }"

section \<open>Waiting\<close>

partial_function (option) waitfor_loop :: "'w platform \<Rightarrow> int \<Rightarrow> timeval \<Rightarrow> int \<Rightarrow> 'w mst \<Rightarrow> (int \<times> 'w mst) option" where
  "waitfor_loop P packet_type timer rc st =
     (case expired P timer st of (ex, st) \<Rightarrow>
        if ex then Some (rc, st)
        else do {
          (rc, st) \<leftarrow> cycle_r P timer st;
          if rc \<noteq> packet_type \<and> rc \<ge> 0 then waitfor_loop P packet_type timer rc st else Some (rc, st)
        })"

definition waitfor :: "'w platform \<Rightarrow> int \<Rightarrow> timeval \<Rightarrow> 'w mst \<Rightarrow> (int \<times> 'w mst) option" where
  "waitfor P packet_type timer st = waitfor_loop P packet_type timer FAILURE st"

partial_function (option) waitfor_r_loop :: "'w platform \<Rightarrow> int \<Rightarrow> timeval \<Rightarrow> int \<Rightarrow> 'w mst \<Rightarrow> (int \<times> 'w mst) option" where
  "waitfor_r_loop P packet_type timer rc st =
     (case expired P timer st of (ex, st) \<Rightarrow>
        if \<not> ex \<and> rc \<noteq> packet_type \<and> rc \<ge> 0
        then do { (rc, st) \<leftarrow> cycle_r P timer st; waitfor_r_loop P packet_type timer rc st }
        else Some (rc, st))"

definition waitfor_r :: "'w platform \<Rightarrow> int \<Rightarrow> timeval \<Rightarrow> 'w mst \<Rightarrow> (int \<times> 'w mst) option" where
  "waitfor_r P packet_type timer st = waitfor_r_loop P packet_type timer FAILURE st"

definition MQTTYield :: "'w platform \<Rightarrow> 32 word \<Rightarrow> 'w mst \<Rightarrow> (int \<times> 'w mst) option" where
  "MQTTYield P timeout_ms st =
     (case countdown_ms P timeout_ms st of (timer, st) \<Rightarrow> do {
        (rc, st) \<leftarrow> cycle_r P timer st;
        Some (if rc < 0 then FAILURE else rc, st)
      })"

section \<open>Operations\<close>

text \<open>\<open>data\<close> is the structure \<open>MQTTConnackData\<close>: \<open>rc\<close> and \<open>sessionPresent\<close>.\<close>

definition connect_exchange ::
    "'w platform \<Rightarrow> MQTTPacket_connectData \<Rightarrow> byte \<times> byte \<Rightarrow> 'w mst \<Rightarrow> (int \<times> (byte \<times> byte) \<times> 'w mst) option" where
  "connect_exchange P options data st =
     (case countdown_ms P (c_command_timeout_ms (cl st)) st of (connect_timer, st) \<Rightarrow>
        let st = st\<lparr>cl := (cl st)\<lparr>c_keepAliveInterval := ucast (keepAliveInterval options), c_cleansession := uint (cleansession options)\<rparr>\<rparr>
        in case countdown P (c_keepAliveInterval (cl st)) st of (t, st) \<Rightarrow> do {
          let st = st\<lparr>cl := (cl st)\<lparr>c_last_received := t\<rparr>\<rparr>;
          (len, st) \<leftarrow> serialise (\<lambda>b n. MQTTSerialize_connect b n options) st;
          if len \<le> 0 then Some (FAILURE, data, st)
          else do {
            (rc, st) \<leftarrow> sendPacket P len connect_timer st;
            if rc \<noteq> MQTT_SUCCESS then Some (rc, data, st)
            else do {
              (t, st) \<leftarrow> waitfor P 2 connect_timer st;
              if t = 2 then do {
                (ok, sess, crc) \<leftarrow> MQTTDeserialize_connack (c_readbuf (cl st)) (int (c_readbuf_size (cl st)));
                if ok = 1 then Some (uint crc, (crc, sess), st) else Some (FAILURE, (crc, sess), st)
              }
              else Some (FAILURE, data, st)
            }
          }
        })"

definition MQTTConnectWithResults ::
    "'w platform \<Rightarrow> MQTTPacket_connectData option \<Rightarrow> byte \<times> byte \<Rightarrow> 'w mst \<Rightarrow> (int \<times> (byte \<times> byte) \<times> 'w mst) option" where
  "MQTTConnectWithResults P options data st = do {
     (rc, data, st) \<leftarrow> (if c_isconnected (cl st) \<noteq> 0 then Some (FAILURE, data, st)
                       else connect_exchange P (case options of Some x \<Rightarrow> x | None \<Rightarrow> MQTTPacket_connectData_initializer) data st);
     Some (rc, data, if rc = MQTT_SUCCESS then st\<lparr>cl := (cl st)\<lparr>c_isconnected := 1, c_ping_outstanding := 0\<rparr>\<rparr> else st)
   }"

definition MQTTConnect :: "'w platform \<Rightarrow> MQTTPacket_connectData option \<Rightarrow> 'w mst \<Rightarrow> (int \<times> 'w mst) option" where
  "MQTTConnect P options st = do { (rc, _, st) \<leftarrow> MQTTConnectWithResults P options (0, 0) st; Some (rc, st) }"

text \<open>The first index at or after \<open>i\<close> whose entry satisfies the condition, or the end.\<close>

fun find_handler :: "('h \<Rightarrow> bool) \<Rightarrow> 'h list \<Rightarrow> nat" where
  "find_handler p [] = 0"
| "find_handler p (h # hs) = (if p h then 0 else Suc (find_handler p hs))"

definition MQTTSetMessageHandler :: "bytes \<Rightarrow> 'w handler option \<Rightarrow> 'w MQTTClient \<Rightarrow> int \<times> 'w MQTTClient" where
  "MQTTSetMessageHandler topicFilter messageHandler c =
     (let hs = c_messageHandlers c;
          i = find_handler (\<lambda>h. fst h = Some topicFilter) hs;
          found = i < length hs;
          hs = (if found \<and> messageHandler = None then hs[i := (None, None)] else hs);
          rc = (if found then MQTT_SUCCESS else FAILURE)
      in case messageHandler of
           None \<Rightarrow> (rc, c\<lparr>c_messageHandlers := hs\<rparr>)
         | Some fp \<Rightarrow>
             (let i = (if found then i else find_handler (\<lambda>h. fst h = None) hs);
                  rc = (if i < length hs then MQTT_SUCCESS else rc);
                  hs = (if i < length hs then hs[i := (Some topicFilter, Some fp)] else hs)
              in (rc, c\<lparr>c_messageHandlers := hs\<rparr>)))"

text \<open>The result is the code, \<open>data->grantedQoS\<close> and the state.\<close>

definition MQTTSubscribeWithResults ::
    "'w platform \<Rightarrow> bytes \<Rightarrow> int \<Rightarrow> 'w handler option \<Rightarrow> int \<Rightarrow> 'w mst \<Rightarrow> (int \<times> int \<times> 'w mst) option" where
  "MQTTSubscribeWithResults P topicFilter qos messageHandler granted st =
     (if c_isconnected (cl st) = 0 then Some (FAILURE, granted, st)
      else case countdown_ms P (c_command_timeout_ms (cl st)) st of (timer, st) \<Rightarrow>
           case getNextPacketId st of (i, st) \<Rightarrow> do {
             (len, st) \<leftarrow> serialise (\<lambda>b n. MQTTSerialize_subscribe b n 0 (ucast i) 1
                            [MQTTString_initializer\<lparr>cstring := Some topicFilter\<rparr>] [qos]) st;
             if len \<le> 0 then Some (FAILURE, granted, st)
             else do {
               (rc, st) \<leftarrow> sendPacket P len timer st;
               if rc \<noteq> MQTT_SUCCESS then Some (rc, granted, st)
               else do {
                 (t, st) \<leftarrow> waitfor P 9 timer st;
                 if t = 9 then do {
                   (ok, _, gs) \<leftarrow> MQTTDeserialize_suback (p_schar P) 1 [0] (c_readbuf (cl st)) (int (c_readbuf_size (cl st)));
                   g \<leftarrow> read_at gs 0;
                   if ok = 1 \<and> g \<noteq> 0x80
                   then (case MQTTSetMessageHandler topicFilter messageHandler (cl st) of (rc, c) \<Rightarrow> Some (rc, g, st\<lparr>cl := c\<rparr>))
                   else Some (rc, g, st)
                 }
                 else Some (FAILURE, granted, st)
               }
             }
           })"

definition MQTTSubscribe :: "'w platform \<Rightarrow> bytes \<Rightarrow> int \<Rightarrow> 'w handler option \<Rightarrow> 'w mst \<Rightarrow> (int \<times> 'w mst) option" where
  "MQTTSubscribe P topicFilter qos messageHandler st =
     do { (rc, _, st) \<leftarrow> MQTTSubscribeWithResults P topicFilter qos messageHandler 0 st; Some (rc, st) }"

text \<open>The common end: a failed operation closes the session.\<close>

definition close_on_failure :: "int \<times> 'w mst \<Rightarrow> int \<times> 'w mst" where
  "close_on_failure r = (case r of (rc, st) \<Rightarrow> (rc, if rc = FAILURE then MQTTCloseSession st else st))"

definition unsubscribe_exchange :: "'w platform \<Rightarrow> bytes \<Rightarrow> 'w mst \<Rightarrow> (int \<times> 'w mst) option" where
  "unsubscribe_exchange P topicFilter st =
     (if c_isconnected (cl st) = 0 then Some (FAILURE, st)
      else case countdown_ms P (c_command_timeout_ms (cl st)) st of (timer, st) \<Rightarrow>
           case getNextPacketId st of (i, st) \<Rightarrow> do {
             (len, st) \<leftarrow> serialise (\<lambda>b n. MQTTSerialize_unsubscribe b n 0 (ucast i) 1
                            [MQTTString_initializer\<lparr>cstring := Some topicFilter\<rparr>]) st;
             if len \<le> 0 then Some (FAILURE, st)
             else do {
               (rc, st) \<leftarrow> sendPacket P len timer st;
               if rc \<noteq> MQTT_SUCCESS then Some (rc, st)
               else do {
                 (t, st) \<leftarrow> waitfor P 11 timer st;
                 if t = 11 then
                   (if fst (MQTTDeserialize_unsuback 0 (c_readbuf (cl st)) (int (c_readbuf_size (cl st)))) = 1
                    then Some (rc, st\<lparr>cl := snd (MQTTSetMessageHandler topicFilter None (cl st))\<rparr>)
                    else Some (rc, st))
                 else Some (FAILURE, st)
               }
             }
           })"

definition MQTTUnsubscribe :: "'w platform \<Rightarrow> bytes \<Rightarrow> 'w mst \<Rightarrow> (int \<times> 'w mst) option" where
  "MQTTUnsubscribe P topicFilter st = do { r \<leftarrow> unsubscribe_exchange P topicFilter st; Some (close_on_failure r) }"

text \<open>\<open>message->id = getNextPacketId(c)\<close> when the quality of service asks for it.\<close>

definition assign_id :: "MQTTMessage \<Rightarrow> 'w mst \<Rightarrow> MQTTMessage \<times> 'w mst" where
  "assign_id message st =
     (if m_qos message = 1 \<or> m_qos message = 2
      then (case getNextPacketId st of (i, st) \<Rightarrow> (message\<lparr>m_id := ucast i\<rparr>, st)) else (message, st))"

text \<open>Waiting for the acknowledgement of a published message.\<close>

definition wait_ack :: "'w platform \<Rightarrow> int \<Rightarrow> timeval \<Rightarrow> int \<Rightarrow> 'w mst \<Rightarrow> (int \<times> 'w mst) option" where
  "wait_ack P qos timer rc st =
     (if qos = 1 \<or> qos = 2 then do {
        let wanted = (if qos = 1 then 4 else 7);
        (t, st) \<leftarrow> waitfor P wanted timer st;
        if t = wanted then
          (if fst (MQTTDeserialize_ack 0 0 0 (c_readbuf (cl st)) (int (c_readbuf_size (cl st)))) \<noteq> 1
           then Some (FAILURE, st) else Some (rc, st))
        else Some (FAILURE, st)
      }
      else Some (rc, st))"

definition publish_exchange :: "'w platform \<Rightarrow> bytes \<Rightarrow> MQTTMessage \<Rightarrow> 'w mst \<Rightarrow> (int \<times> 'w mst) option" where
  "publish_exchange P topicName message st =
     (if c_isconnected (cl st) = 0 then Some (FAILURE, st)
      else case countdown_ms P (c_command_timeout_ms (cl st)) st of (timer, st) \<Rightarrow>
           case assign_id message st of (message, st) \<Rightarrow> do {
             (len, st) \<leftarrow> serialise (\<lambda>b n. MQTTSerialize_publish b n 0 (m_qos message) (m_retained message) (m_id message)
                            (MQTTString_initializer\<lparr>cstring := Some topicName\<rparr>)
                            (case m_payload message of Some d \<Rightarrow> d | None \<Rightarrow> []) (m_payloadlen message)) st;
             if len \<le> 0 then Some (FAILURE, st)
             else do {
               (rc, st) \<leftarrow> sendPacket P len timer st;
               if rc \<noteq> MQTT_SUCCESS then Some (rc, st) else wait_ack P (m_qos message) timer rc st
             }
           })"

definition MQTTPublish :: "'w platform \<Rightarrow> bytes \<Rightarrow> MQTTMessage \<Rightarrow> 'w mst \<Rightarrow> (int \<times> 'w mst) option" where
  "MQTTPublish P topicName message st = do { r \<leftarrow> publish_exchange P topicName message st; Some (close_on_failure r) }"

definition MQTTDisconnect :: "'w platform \<Rightarrow> 'w mst \<Rightarrow> (int \<times> 'w mst) option" where
  "MQTTDisconnect P st =
     (case countdown_ms P (c_command_timeout_ms (cl st)) st of (timer, st) \<Rightarrow> do {
        (len, st) \<leftarrow> serialise MQTTSerialize_disconnect st;
        (rc, st) \<leftarrow> (if len > 0 then sendPacket P len timer st else Some (FAILURE, st));
        Some (rc, MQTTCloseSession st)
      })"

definition MQTTIsConnected :: "'w MQTTClient \<Rightarrow> int" where
  "MQTTIsConnected client = c_isconnected client"

section \<open>Publishing in parts\<close>

text \<open>The driver of the payload: \<open>part\<close> stores bytes from its pointer on and returns their number.\<close>

record 'w payload_drive =
  pd_init :: "'w \<Rightarrow> int \<times> 'w"
  pd_part :: "int \<Rightarrow> 'w \<Rightarrow> int \<times> bytes \<times> 'w"
  pd_fin :: "'w \<Rightarrow> 'w"

text \<open>The loop over the payload: whether an error ended it, \<open>rc\<close>, \<open>total\<close> (here \<open>rest\<close>) and the state.\<close>

partial_function (option) part_loop ::
    "'w platform \<Rightarrow> 'w payload_drive \<Rightarrow> timeval \<Rightarrow> int \<Rightarrow> int \<Rightarrow> 'w mst \<Rightarrow> (bool \<times> int \<times> int \<times> 'w mst) option" where
  "part_loop P drive timer rest rc st =
     (if rest = 0 then Some (False, rc, rest, st)
      else case expired P timer st of (ex, st) \<Rightarrow>
        if ex then Some (False, rc, rest, st)
        else let len = int (c_buf_size (cl st))
             in case pd_part drive (if rest < len then rest else len) (wd st) of (chunk, data, w) \<Rightarrow> do {
               b \<leftarrow> mem_write (c_buf (cl st)) 0 data;
               let st = set_buf b (st\<lparr>wd := w\<rparr>);
               if chunk \<le> 0 then Some (True, FAILURE, rest, st)
               else do {
                 (rc, st) \<leftarrow> sendPacket P chunk timer st;
                 if rc \<noteq> MQTT_SUCCESS then Some (True, rc, rest, st)
                 else part_loop P drive timer (rest - chunk) rc st
               }
             })"

definition publish_head :: "bytes \<Rightarrow> MQTTMessage \<Rightarrow> int \<Rightarrow> 'w mst \<Rightarrow> (int \<times> 'w mst) option" where
  "publish_head topicName message payloadlen st = do {
     let topic = MQTTString_initializer\<lparr>cstring := Some topicName\<rparr>;
     w \<leftarrow> writeChar (c_buf (cl st), 0) (header_byte \<lparr>h_type = msgType_num PUBLISH, h_dup = unat (m_dup message),
             h_qos = nat (m_qos message mod 4), h_retain = unat (m_retained message)\<rparr>);
     w \<leftarrow> put_rem_len w (MQTTSerialize_publishLength (m_qos message) topic payloadlen);
     w \<leftarrow> writeMQTTString w topic;
     w \<leftarrow> (if m_qos message > 0 then writeInt w (int (unat (m_id message))) else Some w);
     Some (int (snd w), set_buf (fst w) st)
   }"

definition MQTTPublish_part ::
    "'w platform \<Rightarrow> bytes \<Rightarrow> MQTTMessage \<Rightarrow> 'w payload_drive \<Rightarrow> 'w mst \<Rightarrow> (int \<times> 'w mst) option" where
  "MQTTPublish_part P topicName message drive st =
     (if c_isconnected (cl st) = 0 then Some (FAILURE, st)
      else case countdown_ms P (c_command_timeout_ms (cl st)) st of (timer, st) \<Rightarrow>
           case assign_id message st of (message, st) \<Rightarrow>
           case pd_init drive (wd st) of (payloadlen, w) \<Rightarrow>
             let st = st\<lparr>wd := w\<rparr>
             in if payloadlen \<le> 0 then Some (FAILURE, st)
                else do {
                  (len, st) \<leftarrow> publish_head topicName message payloadlen st;
                  (rc, st) \<leftarrow> sendPacket P len timer st;
                  if rc \<noteq> MQTT_SUCCESS then Some (rc, st)
                  else do {
                    (err, rc, rest, st) \<leftarrow> part_loop P drive timer payloadlen rc st;
                    if err then Some (rc, st)
                    else if rest \<noteq> 0 then Some (FAILURE, st)
                    else wait_ack P (m_qos message) timer MQTT_SUCCESS (st\<lparr>wd := pd_fin drive (wd st)\<rparr>)
                  }
                })"

definition subscribe_packet :: "bytes \<Rightarrow> int \<Rightarrow> 32 word \<Rightarrow> 'w mst \<Rightarrow> (int \<times> 'w mst) option" where
  "subscribe_packet topic qos i st = do {
     w \<leftarrow> writeChar (c_buf (cl st), 0) (header_byte \<lparr>h_type = msgType_num SUBSCRIBE, h_dup = 0, h_qos = 1, h_retain = 0\<rparr>);
     w \<leftarrow> put_rem_len w (5 + int (length topic));
     w \<leftarrow> writeInt w (uint i);
     w \<leftarrow> writeCString w topic;
     w \<leftarrow> writeChar w (uchar qos);
     Some (int (snd w), set_buf (fst w) st)
   }"

definition arrow_mqtt_client_subscribe :: "'w platform \<Rightarrow> int \<Rightarrow> 'w delivery \<Rightarrow> 'w mst \<Rightarrow> (int \<times> 'w mst) option" where
  "arrow_mqtt_client_subscribe P qos cb st =
     (if c_isconnected (cl st) = 0 then Some (FAILURE, st)
      else case countdown_ms P (c_command_timeout_ms (cl st)) st of (timer, st) \<Rightarrow>
           case getNextPacketId st of (i, st) \<Rightarrow> do {
             (len, st) \<leftarrow> subscribe_packet (d_topic cb) qos i st;
             if len \<le> 0 then Some (FAILURE, st)
             else do {
               (rc, st) \<leftarrow> sendPacket P len timer st;
               if rc \<noteq> MQTT_SUCCESS then Some (rc, st)
               else do {
                 (t, st) \<leftarrow> waitfor P 9 timer st;
                 if t = 9 then do {
                   (ok, _, gs) \<leftarrow> MQTTDeserialize_suback (p_schar P) 1 [0] (c_readbuf (cl st)) (int (c_readbuf_size (cl st)));
                   g \<leftarrow> read_at gs 0;
                   if ok = 1 \<and> g \<noteq> 0x80 then arrow_mqtt_client_delivery_message_reg cb st else Some (rc, st)
                 }
                 else Some (FAILURE, st)
               }
             }
           })"

end
