(* ===== verification/Mqtt_Topic.thy ===== *)
theory Mqtt_Topic
  imports Mqtt_Client
begin

text \<open>
  What the topic matching of \<open>isTopicMatched\<close> means: a topic filter is matched level by level. The
  pointer loop of the code agrees with this on every well-formed filter.
\<close>

section \<open>Levels\<close>

fun levels :: "bytes \<Rightarrow> bytes list" where
  "levels [] = [[]]"
| "levels (c # s) = (if c = 47 then [] # levels s else (case levels s of [] \<Rightarrow> [] | l # ls \<Rightarrow> (c # l) # ls))"

fun level_match :: "bytes list \<Rightarrow> bytes list \<Rightarrow> bool" where
  "level_match [] ns = (ns = [])"
| "level_match (f # fs) [] = False"
| "level_match (f # fs) (n # ns) =
     (if f = [35] then n \<noteq> []
      else (if f = [43] then n \<noteq> [] else n = f) \<and> level_match fs ns)"

text \<open>A single-level wildcard stands alone in its level, a multi-level wildcard is the last level.\<close>

fun wf_filter :: "bytes list \<Rightarrow> bool" where
  "wf_filter [] \<longleftrightarrow> True"
| "wf_filter (f # fs) \<longleftrightarrow> (f = [35] \<and> fs = [] \<or> f = [43] \<or> 35 \<notin> set f \<and> 43 \<notin> set f) \<and> wf_filter fs"

lemma levels_ne [simp]: "levels s \<noteq> []"
  by (induction s) (auto split: list.splits)

lemma levels_no_slash: "l \<in> set (levels s) \<Longrightarrow> 47 \<notin> set l"
proof (induction s arbitrary: l)
  case (Cons c s)
  then show ?case by (cases "levels s") (auto split: if_splits)
qed simp

lemma levels_split:
  "levels s = takeWhile (\<lambda>c. c \<noteq> 47) s # (case dropWhile (\<lambda>c. c \<noteq> 47) s of [] \<Rightarrow> [] | _ # r \<Rightarrow> levels r)"
  by (induction s) (auto split: list.splits)

section \<open>The loop\<close>

abbreviation level_end :: "bytes \<Rightarrow> bool" where
  "level_end r \<equiv> r = [] \<or> hd r = 47"

lemma topic_literal:
  "43 \<notin> set g \<Longrightarrow> 35 \<notin> set g \<Longrightarrow> topic_loop (g @ r) n \<longleftrightarrow> (\<exists>n'. n = g @ n' \<and> topic_loop r n')"
proof (induction g arbitrary: n)
  case (Cons c g)
  then show ?case by (cases n) auto
qed simp

lemma topic_slash: "topic_loop (47 # r) n \<longleftrightarrow> (\<exists>n'. n = 47 # n' \<and> topic_loop r n')"
  by (cases n) auto

lemma topic_plus: "topic_loop (43 # r) n \<longleftrightarrow> n \<noteq> [] \<and> hd n \<noteq> 47 \<and> topic_loop r (dropWhile (\<lambda>c. c \<noteq> 47) n)"
  by (cases n) auto

lemma topic_hash: "topic_loop [35] n \<longleftrightarrow> n \<noteq> [] \<and> hd n \<noteq> 47"
  by (cases n) auto

definition next_levels :: "bytes \<Rightarrow> bytes list" where
  "next_levels r = (case r of [] \<Rightarrow> [] | _ # s \<Rightarrow> levels s)"

lemma level_decomp:
  obtains g r where "s = g @ r" and "47 \<notin> set g" and "level_end r" and "levels s = g # next_levels r"
proof (rule that)
  let ?P = "\<lambda>c. c \<noteq> (47 :: byte)"
  show "s = takeWhile ?P s @ dropWhile ?P s" by simp
  show "47 \<notin> set (takeWhile ?P s)" by (auto dest: set_takeWhileD)
  show "level_end (dropWhile ?P s)" using hd_dropWhile [of ?P s] by blast
  show "levels s = takeWhile ?P s # next_levels (dropWhile ?P s)" unfolding next_levels_def by (rule levels_split)
qed

text \<open>The first level of a text is determined.\<close>

lemma first_level_unique:
  assumes "g @ r = h @ s" and "47 \<notin> set g" and "47 \<notin> set h" and "level_end r" and "level_end s"
  shows "g = h \<and> r = s"
  using assms
proof (induction g arbitrary: h)
  case Nil
  then show ?case by (cases h) auto
next
  case (Cons c g)
  then show ?case by (cases h) auto
qed

lemma topic_levels: "wf_filter (levels f) \<Longrightarrow> topic_loop f n \<longleftrightarrow> level_match (levels f) (levels n)"
proof (induction "length f" arbitrary: f n rule: less_induct)
  case less
  obtain g r where f: "f = g @ r" "47 \<notin> set g" "level_end r" "levels f = g # next_levels r" by (rule level_decomp)
  obtain m s where n: "n = m @ s" "47 \<notin> set m" "level_end s" "levels n = m # next_levels s" by (rule level_decomp)
  have rest: "topic_loop r s \<longleftrightarrow> level_match (next_levels r) (next_levels s)"
  proof (cases r)
    case Nil
    then show ?thesis by (cases s) (auto simp: next_levels_def)
  next
    case (Cons c r')
    then have c: "r = 47 # r'" and len: "length r' < length f" and wf: "wf_filter (levels r')"
      using f less.prems by (auto simp: next_levels_def)
    show ?thesis
    proof (cases s)
      case Nil
      then show ?thesis using levels_ne [of r'] by (cases "levels r'") (auto simp: c next_levels_def)
    next
      case (Cons d s')
      with n(3) less.hyps [OF len wf] show ?thesis by (simp add: c next_levels_def)
    qed
  qed
  have first: "(n \<noteq> [] \<and> hd n \<noteq> 47) \<longleftrightarrow> m \<noteq> []" using n(1-3) by (cases m) auto
  have drop: "dropWhile (\<lambda>c. c \<noteq> 47) n = s" unfolding n(1)
    by (subst dropWhile_append2) (use n(2,3) in \<open>cases s; auto\<close>)+
  consider "g = [35]" "r = []" | "g = [43]" | "35 \<notin> set g" "43 \<notin> set g"
    using less.prems f(4) by (cases r) (auto simp: next_levels_def)
  then show ?case
  proof cases
    case 1
    then show ?thesis using topic_hash [of n] first unfolding f(4) n(4) by (simp add: f(1))
  next
    case 2
    then show ?thesis using topic_plus [of r n] rest first drop unfolding f(4) n(4) by (auto simp: f(1))
  next
    case 3
    have lit: "topic_loop f n \<longleftrightarrow> (\<exists>n'. n = g @ n' \<and> topic_loop r n')" unfolding f(1) by (rule topic_literal [OF 3(2,1)])
    have "m = g \<and> s = n'" if "n = g @ n'" "topic_loop r n'" for n'
    proof -
      have e: "level_end n'" using that(2) f(3) by (cases r; cases n') (auto split: if_splits)
      have "m @ s = g @ n'" using that(1) n(1) by simp
      then show ?thesis using n(2) f(2) n(3) e by (rule first_level_unique)
    qed
    then have "topic_loop f n \<longleftrightarrow> m = g \<and> topic_loop r s" unfolding lit using n(1) by blast
    moreover have "g \<noteq> [35]" "g \<noteq> [43]" using 3 by auto
    ultimately show ?thesis using rest by (simp add: f(4) n(4))
  qed
qed

section \<open>Matching and delivery\<close>

text \<open>A topic name read from a packet: a length and a pointer to at least that many bytes.\<close>

definition name_of :: "MQTTString \<Rightarrow> bytes option" where
  "name_of t = (if cstring t = None \<and> 0 \<le> lenstring_len t
     then do { d \<leftarrow> lenstring_data t; mem_read d 0 (nat (lenstring_len t)) } else None)"

lemma isTopicMatched_levels:
  assumes "name_of t = Some name" and "wf_filter (levels f)"
  shows "isTopicMatched f t = Some (level_match (levels f) (levels name))"
proof -
  from assms(1) obtain d where d: "lenstring_data t = Some d" "mem_read d 0 (nat (lenstring_len t)) = Some name" "0 \<le> lenstring_len t"
    by (auto simp: name_of_def c_bind)
  then have "name = []" if "lenstring_len t = 0" using that by (auto simp: mem_read_def)
  with d show ?thesis by (auto simp: isTopicMatched_def topic_levels [OF assms(2)])
qed

lemma MQTTPacket_equals_name:
  assumes "name_of t = Some name" and "0 \<notin> set f"
  shows "MQTTPacket_equals t f = Some (name = f)"
proof -
  from assms(1) obtain d where d: "cstring t = None" "lenstring_data t = Some d" "length name = nat (lenstring_len t)" "0 \<le> lenstring_len t"
    "d = name @ drop (length name) d"
    by (auto simp: name_of_def c_bind mem_read_def split: if_splits)
  have "\<exists>r. strncmp d (f @ [0]) (length f) = Some r \<and> (r = 0 \<longleftrightarrow> name = f)" if "length name = length f"
    using strncmp_take [of "length f" d "f @ [0]"] assms(2) d(5) that by (metis append_eq_conv_conj le_add1 length_append)
  with d(1-4) show ?thesis by (auto simp: MQTTPacket_equals_def)
qed

definition hits :: "bytes \<Rightarrow> bytes option \<times> 'w handler option \<Rightarrow> bool" where
  "hits name h = (case h of (Some f, Some g) \<Rightarrow> name = f \<or> level_match (levels f) (levels name) | _ \<Rightarrow> False)"

definition wf_handlers :: "(bytes option \<times> 'w handler option) list \<Rightarrow> bool" where
  "wf_handlers hs \<longleftrightarrow> (\<forall>h \<in> set hs. \<forall>f. fst h = Some f \<longrightarrow> 0 \<notin> set f \<and> wf_filter (levels f))"

definition call_all :: "MQTTString \<Rightarrow> MQTTMessage \<Rightarrow> (bytes option \<times> 'w handler option) list \<Rightarrow> 'w \<Rightarrow> 'w" where
  "call_all t msg hs w = fold (\<lambda>h. case snd h of None \<Rightarrow> id | Some g \<Rightarrow> g t msg) hs w"

lemma deliver_loop_calls:
  assumes "name_of t = Some name"
  shows "wf_handlers hs \<Longrightarrow> deliver_loop hs t msg rc w =
    Some (if filter (hits name) hs = [] then rc else MQTT_SUCCESS, call_all t msg (filter (hits name) hs) w)"
proof (induction hs arbitrary: rc w)
  case (Cons h hs)
  obtain f fp where h: "h = (f, fp)" by force
  from Cons.prems have wf: "wf_handlers hs" "\<And>g. f = Some g \<Longrightarrow> 0 \<notin> set g \<and> wf_filter (levels g)" by (simp_all add: wf_handlers_def h)
  note eqs = MQTTPacket_equals_name [OF assms] isTopicMatched_levels [OF assms]
  show ?case using Cons.IH [OF wf(1)] wf(2) eqs
    by (cases f; cases fp) (auto simp: h hits_def call_all_def)
qed (simp add: call_all_def)


text \<open>A client with two handlers that count their calls.\<close>

definition counting_handlers :: "(bytes option \<times> nat handler option) list" where
  "counting_handlers = [(Some [97, 47, 43], Some (\<lambda>t m w. w + 1)), (Some [98, 47, 35], Some (\<lambda>t m w. w + 10))]"

definition client0 :: "'w \<Rightarrow> 'w MQTTClient" where
  "client0 w = \<lparr>c_next_packetid = 1, c_command_timeout_ms = 1000, c_buf_size = 64, c_readbuf_size = 64, c_buf = replicate 64 0,
     c_readbuf = replicate 64 0, c_keepAliveInterval = 0, c_ping_outstanding = 0, c_isconnected = 0, c_cleansession = 1,
     c_messageHandlers = [], c_defaultMessageHandler = None,
     c_ipstack = \<lparr>mqttread = (\<lambda>w n t. (-1, [], w)), mqttwrite = (\<lambda>w d t. (int (length d), w))\<rparr>,
     c_last_sent = TimerInit, c_last_received = TimerInit\<rparr>"

definition topic_ab :: MQTTString where
  "topic_ab = \<lparr>cstring = None, lenstring_len = 3, lenstring_data = Some [97, 47, 98, 7]\<rparr>"

definition message0 :: MQTTMessage where
  "message0 = \<lparr>m_qos = 0, m_retained = 0, m_dup = 0, m_id = 0, m_payload = None, m_payloadlen = 0\<rparr>"


end
