(* ===== verification/Mqtt_Session.thy ===== *)
theory Mqtt_Session
  imports Mqtt_Topic
begin

text \<open>
  The session of the MQTT client: every operation keeps the client structure well formed, a session is
  open only after an accepted CONNECT, and what the client writes to the network is exactly its packets.

  \<open>wlp x Q\<close> says that the result of \<open>x\<close> satisfies \<open>Q\<close> when \<open>x\<close> returns, \<open>wp x Q\<close> that \<open>x\<close> returns and the
  result satisfies \<open>Q\<close>.
\<close>

section \<open>Reasoning about computations\<close>

definition wlp :: "'a option \<Rightarrow> ('a \<Rightarrow> bool) \<Rightarrow> bool" where
  "wlp x Q \<longleftrightarrow> (\<forall>y. x = Some y \<longrightarrow> Q y)"

definition wp :: "'a option \<Rightarrow> ('a \<Rightarrow> bool) \<Rightarrow> bool" where
  "wp x Q \<longleftrightarrow> (\<exists>y. x = Some y \<and> Q y)"

named_theorems vcg \<open>rules of the two calculi\<close>

lemma wlp_simps [vcg]:
  "wlp None Q" "wlp (Some y) Q = Q y" "wlp (Option.bind x f) Q = wlp x (\<lambda>y. wlp (f y) Q)"
  "wlp (if c then u else v) Q = (if c then wlp u Q else wlp v Q)"
  by (auto simp: wlp_def c_bind)

lemma wp_simps [vcg]:
  "wp None Q = False" "wp (Some y) Q = Q y" "wp (Option.bind x f) Q = wp x (\<lambda>y. wp (f y) Q)"
  "wp (if c then u else v) Q = (if c then wp u Q else wp v Q)"
  by (auto simp: wp_def c_bind)

lemma wlp_mono: "wlp x Q \<Longrightarrow> (\<And>y. Q y \<Longrightarrow> R y) \<Longrightarrow> wlp x R"
  by (auto simp: wlp_def)

lemma wp_mono: "wp x Q \<Longrightarrow> (\<And>y. Q y \<Longrightarrow> R y) \<Longrightarrow> wp x R"
  by (auto simp: wp_def)

lemma wlp_any: "(\<And>y. Q y) \<Longrightarrow> wlp x Q"
  by (simp add: wlp_def)

lemma wlp_both: "wlp x Q \<Longrightarrow> wlp x R \<Longrightarrow> wlp x (\<lambda>y. Q y \<and> R y)"
  by (auto simp: wlp_def)

section \<open>The invariant of the client\<close>

text \<open>The buffers have their sizes, the network, the sizes and the number of handler slots do not change,
  packet identifiers are between 1 and 65535, the ping flag is zero or one, and the connection flag is in
  \<open>C\<close>.\<close>

definition client_inv :: "'w Network \<Rightarrow> nat \<Rightarrow> nat \<Rightarrow> nat \<Rightarrow> int set \<Rightarrow> 'w mst \<Rightarrow> bool" where
  "client_inv N bs rs nh C st \<longleftrightarrow>
     c_ipstack (cl st) = N \<and> c_buf_size (cl st) = bs \<and> length (c_buf (cl st)) = bs \<and> c_readbuf_size (cl st) = rs \<and>
     length (c_readbuf (cl st)) = rs \<and> length (c_messageHandlers (cl st)) = nh \<and>
     0 < c_next_packetid (cl st) \<and> c_next_packetid (cl st) \<le> MAX_PACKET_ID \<and>
     c_isconnected (cl st) \<in> C \<and> c_ping_outstanding (cl st) \<in> {0, 1}"

abbreviation keeps_len :: "bytes \<Rightarrow> (bytes \<times> 'a) option \<Rightarrow> bool" where
  "keeps_len buf x \<equiv> wlp x (\<lambda>r. length (fst r) = length buf)"

lemma write_at_len: "wlp (write_at buf i x) (\<lambda>b. length b = length buf)"
  by (simp add: wlp_def write_at_def)

lemma mem_write_len: "wlp (mem_write buf off src) (\<lambda>b. length b = length buf)"
  by (auto simp: wlp_def mem_write_def)

lemma writeChar_len: "keeps_len (fst w) (writeChar w c)"
  by (cases w) (auto simp: vcg intro: wlp_mono [OF write_at_len])

lemma writeInt_len: "keeps_len (fst w) (writeInt w i)"
  unfolding writeInt_def by (auto simp: vcg intro!: wlp_mono [OF writeChar_len] dest: sym)

lemma put_bytes_len: "keeps_len (fst w) (put_bytes w src n)"
  by (cases w) (auto simp: vcg mem_read_def intro: wlp_mono [OF mem_write_len])

lemma encode_loop_len: "wlp (encode_loop buf p len rc) (\<lambda>r. length (fst r) = length buf)"
proof (induction buf p len rc rule: encode_loop.induct)
  case (1 buf p len rc)
  then show ?case
    by (subst encode_loop.simps) (auto simp: vcg Let_def wlp_def write_at_def c_bind split: if_splits)
qed

lemma put_rem_len_len: "keeps_len (fst w) (put_rem_len w n)"
  unfolding put_rem_len_def MQTTPacket_encode_def
  by (cases w) (auto simp: vcg intro: wlp_mono [OF encode_loop_len])

lemma writeCString_len: "keeps_len (fst w) (writeCString w s)"
  unfolding writeCString_def by (auto simp: vcg intro!: wlp_mono [OF writeInt_len] wlp_mono [OF put_bytes_len])

lemma writeMQTTString_len: "keeps_len (fst w) (writeMQTTString w s)"
  unfolding writeMQTTString_def
  by (auto simp: vcg simp del: put_bytes.simps split: option.splits
      intro!: wlp_mono [OF writeInt_len] wlp_mono [OF writeCString_len] wlp_any [of _ "lenstring_data s"] wlp_mono [OF put_bytes_len])

text \<open>Serialisers do not change the length of the buffer they write to.\<close>

lemmas writers_len = wlp_mono [OF writeChar_len] wlp_mono [OF writeInt_len] wlp_mono [OF put_rem_len_len]
  wlp_mono [OF writeCString_len] wlp_mono [OF writeMQTTString_len] wlp_mono [OF put_bytes_len]

lemma MQTTSerialize_ack_len: "keeps_len buf (MQTTSerialize_ack buf n t d i)"
  unfolding MQTTSerialize_ack_def by (auto simp: vcg simp del: writeChar.simps put_bytes.simps intro!: writers_len)

lemma MQTTSerialize_zero_len: "keeps_len buf (MQTTSerialize_zero buf n t)"
  unfolding MQTTSerialize_zero_def by (auto simp: vcg simp del: writeChar.simps put_bytes.simps intro!: writers_len)

lemma MQTTSerialize_publish_len: "keeps_len buf (MQTTSerialize_publish buf n d q r i t p l)"
  unfolding MQTTSerialize_publish_def by (auto simp: vcg Let_def simp del: writeChar.simps put_bytes.simps intro!: writers_len)

lemma MQTTSerialize_connect_len: "keeps_len buf (MQTTSerialize_connect buf n opts)"
  unfolding MQTTSerialize_connect_def by (auto simp: vcg Let_def simp del: writeChar.simps put_bytes.simps intro!: writers_len)

lemma subscribe_loop_len: "keeps_len (fst w) (subscribe_loop ts qs i n w)"
proof (induction n arbitrary: i w)
  case (Suc n)
  show ?case
    by (auto simp: vcg simp del: writeChar.simps intro!: wlp_any [of _ "read_at ts i"] wlp_any [of _ "read_at qs i"] writers_len
        wlp_mono [OF Suc.IH])
qed (simp add: vcg)

lemma unsubscribe_loop_len: "keeps_len (fst w) (unsubscribe_loop ts i n w)"
proof (induction n arbitrary: i w)
  case (Suc n)
  show ?case by (auto simp: vcg intro!: wlp_any [of _ "read_at ts i"] writers_len wlp_mono [OF Suc.IH])
qed (simp add: vcg)

lemma MQTTSerialize_subscribe_len: "keeps_len buf (MQTTSerialize_subscribe buf n d i c ts qs)"
  unfolding MQTTSerialize_subscribe_def
  by (auto simp: vcg simp del: writeChar.simps intro!: wlp_any [of _ "MQTTSerialize_subscribeLength c ts"] writers_len
      wlp_mono [OF subscribe_loop_len])

lemma MQTTSerialize_unsubscribe_len: "keeps_len buf (MQTTSerialize_unsubscribe buf n d i c ts)"
  unfolding MQTTSerialize_unsubscribe_def
  by (auto simp: vcg simp del: writeChar.simps intro!: wlp_any [of _ "MQTTSerialize_unsubscribeLength c ts"] writers_len
      wlp_mono [OF unsubscribe_loop_len])

section \<open>Every operation keeps the invariant\<close>

abbreviation (input) inv_after :: "'w Network \<Rightarrow> nat \<Rightarrow> nat \<Rightarrow> nat \<Rightarrow> int set \<Rightarrow> (int \<times> 'w mst) option \<Rightarrow> bool" where
  "inv_after N bs rs nh C x \<equiv> wlp x (\<lambda>(rc, st). client_inv N bs rs nh C st)"

lemma client_inv_wd [simp]: "client_inv N bs rs nh C (st\<lparr>wd := w\<rparr>) = client_inv N bs rs nh C st"
  "client_inv N bs rs nh C (st\<lparr>dl := d\<rparr>) = client_inv N bs rs nh C st"
  by (simp_all add: client_inv_def)

lemma client_inv_times [simp]:
  "client_inv N bs rs nh C (st\<lparr>cl := (cl st)\<lparr>c_last_sent := t\<rparr>\<rparr>) = client_inv N bs rs nh C st"
  "client_inv N bs rs nh C (st\<lparr>cl := (cl st)\<lparr>c_last_received := t\<rparr>\<rparr>) = client_inv N bs rs nh C st"
  by (simp_all add: client_inv_def)

lemma timers_inv [simp]:
  "client_inv N bs rs nh C (snd (expired P t st)) = client_inv N bs rs nh C st"
  "client_inv N bs rs nh C (snd (countdown_ms P ms st)) = client_inv N bs rs nh C st"
  "client_inv N bs rs nh C (snd (countdown P ms st)) = client_inv N bs rs nh C st"
  "client_inv N bs rs nh C (snd (left_ms P t st)) = client_inv N bs rs nh C st"
  "client_inv N bs rs nh C (snd (net_out st d i)) = client_inv N bs rs nh C st"
  "client_inv N bs rs nh C (snd (snd (net_in st l i))) = client_inv N bs rs nh C st"
  by (simp_all add: expired_def countdown_ms_def countdown_def left_ms_def net_out_def net_in_def split: prod.splits)

lemma serialise_inv:
  assumes "client_inv N bs rs nh C st" and "\<And>b n. keeps_len b (f b n)"
  shows "inv_after N bs rs nh C (serialise f st)"
  using assms unfolding serialise_def by (auto simp: vcg client_inv_def set_buf_def intro!: wlp_mono [OF assms(2)])

lemma getNextPacketId_inv:
  assumes "client_inv N bs rs nh C st"
  shows "client_inv N bs rs nh C (snd (getNextPacketId st))" and "0 < fst (getNextPacketId st)" and "fst (getNextPacketId st) \<le> MAX_PACKET_ID"
proof -
  let ?i = "c_next_packetid (cl st)"
  have i: "unat ?i \<le> 65535" "0 < unat ?i" using assms by (simp_all add: client_inv_def MAX_PACKET_ID_def word_le_nat_alt word_less_nat_alt)
  have "0 < ?i + 1 \<and> ?i + 1 \<le> MAX_PACKET_ID" if "?i \<noteq> MAX_PACKET_ID"
  proof -
    have "unat ?i \<noteq> 65535" using that by (auto simp: MAX_PACKET_ID_def word_unat_eq_iff)
    with i have "unat (?i + 1) = unat ?i + 1" "unat ?i + 1 \<le> 65535" by (simp_all add: unat_word_ariths)
    then show ?thesis by (simp add: MAX_PACKET_ID_def word_le_nat_alt word_less_nat_alt)
  qed
  then show "client_inv N bs rs nh C (snd (getNextPacketId st))" "0 < fst (getNextPacketId st)" "fst (getNextPacketId st) \<le> MAX_PACKET_ID"
    using assms by (auto simp: getNextPacketId_def Let_def client_inv_def MAX_PACKET_ID_def)
qed

lemma send_loop_inv: "client_inv N bs rs nh C st \<Longrightarrow> inv_after N bs rs nh C (send_loop P len timer sent st)"
proof (induction "nat (len - sent)" arbitrary: sent st rule: less_induct)
  case less
  show ?case
    by (subst send_loop.simps) (use less in \<open>auto simp: vcg case_prod_beta split: option.splits\<close>)
qed

lemma sendPacket_inv: "client_inv N bs rs nh C st \<Longrightarrow> inv_after N bs rs nh C (sendPacket P len timer st)"
  unfolding sendPacket_def by (auto simp: vcg case_prod_beta intro!: wlp_mono [OF send_loop_inv])

lemma client_inv_readbuf:
  "client_inv N bs rs nh C st \<Longrightarrow> length b = length (c_readbuf (cl st)) \<Longrightarrow> client_inv N bs rs nh C (st\<lparr>cl := (cl st)\<lparr>c_readbuf := b\<rparr>\<rparr>)"
  by (simp add: client_inv_def)

lemma read_buf_inv: "client_inv N bs rs nh C st \<Longrightarrow> inv_after N bs rs nh C (read_buf P timer off len st)"
  unfolding read_buf_def
  by (auto simp: vcg case_prod_beta intro!: wlp_mono [OF mem_write_len] client_inv_readbuf)

lemma read_tmp_inv: "client_inv N bs rs nh C st \<Longrightarrow> wlp (read_tmp P timer n len st) (\<lambda>(rc, data, st). client_inv N bs rs nh C st)"
  unfolding read_tmp_def by (auto simp: vcg case_prod_beta)

lemma decodePacket_loop_inv:
  "client_inv N bs rs nh C st \<Longrightarrow> wlp (decodePacket_loop t i mul len val st) (\<lambda>(n, v, st). client_inv N bs rs nh C st)"
proof (induction "nat (5 - len)" arbitrary: i mul len val st rule: less_induct)
  case less
  show ?case
    by (subst decodePacket_loop.simps) (use less in \<open>auto simp: vcg case_prod_beta Let_def\<close>)
qed

lemma decode_len_inv: "client_inv N bs rs nh C st \<Longrightarrow> wlp (decode_len P timer st) (\<lambda>(n, v, st). client_inv N bs rs nh C st)"
  unfolding decode_len_def decodePacket_def by (auto simp: case_prod_beta intro: decodePacket_loop_inv)

lemma keepalive_inv: "client_inv N bs rs nh C st \<Longrightarrow> inv_after N bs rs nh C (keepalive P st)"
  unfolding keepalive_def MQTTSerialize_pingreq_def
  by (auto simp: vcg case_prod_beta intro!: wlp_mono [OF serialise_inv] wlp_mono [OF sendPacket_inv] MQTTSerialize_zero_len)
    (auto simp: client_inv_def)

lemma MQTTCloseSession_inv: "0 \<in> C \<Longrightarrow> client_inv N bs rs nh C st \<Longrightarrow> client_inv N bs rs nh C (MQTTCloseSession st)"
  by (simp add: MQTTCloseSession_def MQTTCleanSession_def client_inv_def Let_def)

text \<open>Loops that may not end: the result, when there is one.\<close>

lemma wlpD: "wlp x Q \<Longrightarrow> x = Some y \<Longrightarrow> Q y"
  by (simp add: wlp_def)

lemma drain_loop_inv: "client_inv N bs rs nh C st \<Longrightarrow> wlp (drain_loop P timer len rem st) (client_inv N bs rs nh C)"
proof -
  have "client_inv N bs rs nh C st \<longrightarrow> client_inv N bs rs nh C y" if "drain_loop P timer len rem st = Some y" for y
  proof (rule drain_loop.raw_induct [of "\<lambda>a y. client_inv N bs rs nh C (snd a) \<longrightarrow> client_inv N bs rs nh C y", OF _ that, unfolded snd_conv], goal_cases)
    case (1 loop P timer len rem st y)
    have ih: "client_inv N bs rs nh C st \<Longrightarrow> wlp (loop P timer len rem st) (client_inv N bs rs nh C)" for P timer len rem st
      using 1(1) by (auto simp: wlp_def)
    show ?case
      by (intro impI, rule wlpD [OF _ 1(2)]) (auto simp: vcg Let_def intro!: wlp_mono [OF read_buf_inv] ih)
  qed
  then show "client_inv N bs rs nh C st \<Longrightarrow> ?thesis" by (auto simp: wlp_def)
qed

lemma call_delivery_inv: "client_inv N bs rs nh C st \<Longrightarrow> inv_after N bs rs nh C (call_delivery sel topic st)"
  unfolding call_delivery_def by (auto simp: vcg case_prod_beta split: option.splits intro!: wlp_any)

lemmas deliveries = arrow_mqtt_client_delivery_message_init_def arrow_mqtt_client_delivery_message_process_def
  arrow_mqtt_client_delivery_message_done_def

lemma process_chunk_inv: "client_inv N bs rs nh C st \<Longrightarrow> inv_after N bs rs nh C (process_chunk tlen err len st)"
  unfolding process_chunk_def deliveries
  by (auto simp: vcg intro!: wlp_any [of _ "mem_read a b c" for a b c] wlp_mono [OF call_delivery_inv])

lemma payload_loop_inv:
  "client_inv N bs rs nh C st \<Longrightarrow> wlp (payload_loop P timer tlen rb err len tot st) (\<lambda>(ok, len, st). client_inv N bs rs nh C st)"
proof -
  have "client_inv N bs rs nh C st \<longrightarrow> client_inv N bs rs nh C (snd (snd y))" if "payload_loop P timer tlen rb err len tot st = Some y" for y
  proof (rule payload_loop.raw_induct [of "\<lambda>a y. client_inv N bs rs nh C (snd a) \<longrightarrow> client_inv N bs rs nh C (snd (snd y))", OF _ that, unfolded snd_conv], goal_cases)
    case (1 loop P timer tlen rb err len tot st y)
    have ih: "client_inv N bs rs nh C st \<Longrightarrow> wlp (loop P timer tlen rb err len tot st) (\<lambda>r. client_inv N bs rs nh C (snd (snd r)))" for P timer tlen rb err len tot st
      using 1(1) by (auto simp: wlp_def)
    show ?case
      by (intro impI, rule wlpD [OF _ 1(2)])
        (auto simp: vcg intro!: wlp_mono [OF read_buf_inv] wlp_mono [OF process_chunk_inv] ih)
  qed
  then show "client_inv N bs rs nh C st \<Longrightarrow> ?thesis" by (auto simp: wlp_def)
qed

lemma skip_loop_inv: "client_inv N bs rs nh C st \<Longrightarrow> wlp (skip_loop P timer rem st) (client_inv N bs rs nh C)"
proof -
  have "client_inv N bs rs nh C st \<longrightarrow> client_inv N bs rs nh C y" if "skip_loop P timer rem st = Some y" for y
  proof (rule skip_loop.raw_induct [of "\<lambda>a y. client_inv N bs rs nh C (snd a) \<longrightarrow> client_inv N bs rs nh C y", OF _ that, unfolded snd_conv], goal_cases)
    case (1 loop P timer rem st y)
    have ih: "client_inv N bs rs nh C st \<Longrightarrow> wlp (loop P timer rem st) (client_inv N bs rs nh C)" for P timer rem st
      using 1(1) by (auto simp: wlp_def)
    show ?case
      by (intro impI, rule wlpD [OF _ 1(2)]) (auto simp: vcg intro!: wlp_mono [OF read_tmp_inv] ih)
  qed
  then show "client_inv N bs rs nh C st \<Longrightarrow> ?thesis" by (auto simp: wlp_def)
qed

lemma publish_payload_inv:
  "client_inv N bs rs nh C st \<Longrightarrow> inv_after N bs rs nh C (publish_payload P head tlen rb ident len tot timer st)"
  unfolding publish_payload_def publish_answer_def deliveries
  by (auto simp: vcg intro!: wlp_mono [OF call_delivery_inv] wlp_mono [OF payload_loop_inv] wlp_mono [OF serialise_inv] sendPacket_inv
      MQTTSerialize_ack_len)

lemma cycle_publish_inv: "client_inv N bs rs nh C st \<Longrightarrow> inv_after N bs rs nh C (cycle_publish P head rem timer st)"
  unfolding cycle_publish_def
  by (auto simp: vcg Let_def intro!: wlp_mono [OF read_buf_inv] wlp_mono [OF read_tmp_inv] wlp_any [of _ "readInt a b" for a b]
      publish_payload_inv)

lemma cycle_r_inv: "client_inv N bs rs nh C st \<Longrightarrow> inv_after N bs rs nh C (cycle_r P timer st)"
  unfolding cycle_r_def cycle_collection_def cycle_connack_def cycle_subscribe_def
  by (auto simp: vcg Let_def intro!: wlp_mono [OF read_tmp_inv] wlp_any [of _ "read_at a b" for a b] wlp_mono [OF decode_len_inv]
      wlp_mono [OF skip_loop_inv] wlp_mono [OF cycle_publish_inv] wlp_mono [OF read_buf_inv] wlp_mono [OF keepalive_inv])

lemma waitfor_loop_inv: "client_inv N bs rs nh C st \<Longrightarrow> inv_after N bs rs nh C (waitfor_loop P t timer rc st)"
proof -
  have "client_inv N bs rs nh C st \<longrightarrow> client_inv N bs rs nh C (snd y)" if "waitfor_loop P t timer rc st = Some y" for y
  proof (rule waitfor_loop.raw_induct [of "\<lambda>a y. client_inv N bs rs nh C (snd a) \<longrightarrow> client_inv N bs rs nh C (snd y)", OF _ that, unfolded snd_conv], goal_cases)
    case (1 loop P t timer rc st y)
    have ih: "client_inv N bs rs nh C st \<Longrightarrow> wlp (loop P t timer rc st) (\<lambda>r. client_inv N bs rs nh C (snd r))" for P t timer rc st
      using 1(1) by (auto simp: wlp_def)
    show ?case
      by (intro impI, rule wlpD [OF _ 1(2)]) (auto simp: vcg case_prod_beta intro!: wlp_mono [OF cycle_r_inv] ih)
  qed
  then show "client_inv N bs rs nh C st \<Longrightarrow> ?thesis" by (auto simp: wlp_def)
qed

lemma waitfor_inv: "client_inv N bs rs nh C st \<Longrightarrow> inv_after N bs rs nh C (waitfor P t timer st)"
  unfolding waitfor_def by (rule waitfor_loop_inv)

lemma readPacket_inv: "client_inv N bs rs nh C st \<Longrightarrow> inv_after N bs rs nh C (readPacket P timer st)"
  unfolding readPacket_def MQTTPacket_encode_def
  by (auto simp: vcg Let_def case_prod_beta intro!: wlp_mono [OF read_buf_inv] wlp_mono [OF decode_len_inv] wlp_mono [OF encode_loop_len]
      wlp_mono [OF drain_loop_inv] client_inv_readbuf wlp_any [of _ "read_at a b" for a b])

lemma deliverMessage_inv: "client_inv N bs rs nh C st \<Longrightarrow> inv_after N bs rs nh C (deliverMessage t msg st)"
  unfolding deliverMessage_def by (auto simp: vcg Let_def intro!: wlp_any [of _ "deliver_loop a b c d e" for a b c d e] split: option.splits)

lemma cycle_packet_inv:
  "client_inv N bs rs nh C st \<Longrightarrow> wlp (cycle_packet P out0 id0 ptype timer st) (\<lambda>(leave, rc, st). client_inv N bs rs nh C st)"
  unfolding cycle_packet_def
  by (auto simp: vcg Let_def case_prod_beta intro!: wlp_any [of _ "MQTTDeserialize_publish a b c" for a b c] wlp_mono [OF deliverMessage_inv]
      wlp_mono [OF serialise_inv] wlp_mono [OF sendPacket_inv] MQTTSerialize_ack_len)
    (auto simp: client_inv_def)

lemma cycle_inv: "client_inv N bs rs nh C st \<Longrightarrow> inv_after N bs rs nh C (cycle P out0 id0 timer st)"
  unfolding cycle_def
  by (auto simp: vcg intro!: wlp_mono [OF readPacket_inv] wlp_mono [OF cycle_packet_inv] wlp_mono [OF keepalive_inv])

lemma find_handler_le: "find_handler p hs \<le> length hs"
  by (induction hs) auto

lemma MQTTSetMessageHandler_inv:
  "client_inv N bs rs nh C st \<Longrightarrow> client_inv N bs rs nh C (st\<lparr>cl := snd (MQTTSetMessageHandler f h (cl st))\<rparr>)"
  by (simp add: client_inv_def MQTTSetMessageHandler_def Let_def split: option.splits)

lemma connect_exchange_inv:
  assumes "client_inv N bs rs nh C st"
  shows "wlp (connect_exchange P opts data st) (\<lambda>(rc, data, st). client_inv N bs rs nh C st)"
proof -
  have [simp]: "client_inv N bs rs nh C (st\<lparr>cl := (cl st)\<lparr>c_keepAliveInterval := k, c_cleansession := s\<rparr>\<rparr>) = client_inv N bs rs nh C st" for st k s
    by (simp add: client_inv_def)
  show ?thesis using assms unfolding connect_exchange_def
    by (auto simp: vcg Let_def case_prod_beta intro!: wlp_mono [OF serialise_inv] wlp_mono [OF sendPacket_inv] wlp_mono [OF waitfor_inv]
        MQTTSerialize_connect_len wlp_any [of _ "MQTTDeserialize_connack a b" for a b])
qed

lemma MQTTConnectWithResults_inv:
  "1 \<in> C \<Longrightarrow> client_inv N bs rs nh C st \<Longrightarrow> wlp (MQTTConnectWithResults P opts data st) (\<lambda>(rc, data, st). client_inv N bs rs nh C st)"
  unfolding MQTTConnectWithResults_def
  by (auto simp: vcg intro!: wlp_mono [OF connect_exchange_inv]) (auto simp: client_inv_def)

lemma MQTTSubscribeWithResults_inv:
  "client_inv N bs rs nh C st \<Longrightarrow> wlp (MQTTSubscribeWithResults P f q h g st) (\<lambda>(rc, g, st). client_inv N bs rs nh C st)"
  unfolding MQTTSubscribeWithResults_def
  by (auto simp: vcg case_prod_beta intro!: wlp_mono [OF serialise_inv] wlp_mono [OF sendPacket_inv] wlp_mono [OF waitfor_inv]
      MQTTSerialize_subscribe_len getNextPacketId_inv MQTTSetMessageHandler_inv wlp_any [of _ "MQTTDeserialize_suback a b c d e" for a b c d e]
      wlp_any [of _ "read_at a b" for a b])

lemma close_on_failure_inv: "0 \<in> C \<Longrightarrow> client_inv N bs rs nh C (snd r) \<Longrightarrow> client_inv N bs rs nh C (snd (close_on_failure r))"
  by (auto simp: close_on_failure_def MQTTCloseSession_inv split: prod.splits)

lemma MQTTUnsubscribe_inv: "0 \<in> C \<Longrightarrow> client_inv N bs rs nh C st \<Longrightarrow> inv_after N bs rs nh C (MQTTUnsubscribe P f st)"
  unfolding MQTTUnsubscribe_def unsubscribe_exchange_def
  by (auto simp: vcg case_prod_beta intro!: wlp_mono [OF serialise_inv] wlp_mono [OF sendPacket_inv] wlp_mono [OF waitfor_inv]
      MQTTSerialize_unsubscribe_len getNextPacketId_inv MQTTSetMessageHandler_inv close_on_failure_inv)

lemma assign_id_inv: "client_inv N bs rs nh C st \<Longrightarrow> client_inv N bs rs nh C (snd (assign_id msg st))"
  by (simp add: assign_id_def case_prod_beta getNextPacketId_inv)

lemma wait_ack_inv: "client_inv N bs rs nh C st \<Longrightarrow> inv_after N bs rs nh C (wait_ack P q timer rc st)"
  unfolding wait_ack_def by (auto simp: vcg Let_def intro!: wlp_mono [OF waitfor_inv])

lemma MQTTPublish_inv: "0 \<in> C \<Longrightarrow> client_inv N bs rs nh C st \<Longrightarrow> inv_after N bs rs nh C (MQTTPublish P t msg st)"
  unfolding MQTTPublish_def publish_exchange_def
  by (auto simp: vcg case_prod_beta intro!: wlp_mono [OF serialise_inv] wlp_mono [OF sendPacket_inv] wlp_mono [OF wait_ack_inv]
      MQTTSerialize_publish_len assign_id_inv close_on_failure_inv)

lemma MQTTDisconnect_inv: "0 \<in> C \<Longrightarrow> client_inv N bs rs nh C st \<Longrightarrow> inv_after N bs rs nh C (MQTTDisconnect P st)"
  unfolding MQTTDisconnect_def MQTTSerialize_disconnect_def
  by (auto simp: vcg case_prod_beta intro!: wlp_mono [OF serialise_inv] wlp_mono [OF sendPacket_inv] MQTTSerialize_zero_len MQTTCloseSession_inv)

lemma set_buf_inv: "client_inv N bs rs nh C st \<Longrightarrow> length b = length (c_buf (cl st)) \<Longrightarrow> client_inv N bs rs nh C (set_buf b st)"
  by (simp add: client_inv_def set_buf_def)

lemma part_loop_inv:
  "client_inv N bs rs nh C st \<Longrightarrow> wlp (part_loop P drive timer rest rc st) (\<lambda>(err, rc, rest, st). client_inv N bs rs nh C st)"
proof -
  have "client_inv N bs rs nh C st \<longrightarrow> client_inv N bs rs nh C (snd (snd (snd y)))" if "part_loop P drive timer rest rc st = Some y" for y
  proof (rule part_loop.raw_induct [of "\<lambda>a y. client_inv N bs rs nh C (snd a) \<longrightarrow> client_inv N bs rs nh C (snd (snd (snd y)))", OF _ that, unfolded snd_conv], goal_cases)
    case (1 loop P drive timer rest rc st y)
    have ih: "client_inv N bs rs nh C st \<Longrightarrow> wlp (loop P drive timer rest rc st) (\<lambda>r. client_inv N bs rs nh C (snd (snd (snd r))))" for P drive timer rest rc st
      using 1(1) by (auto simp: wlp_def)
    show ?case
      by (intro impI, rule wlpD [OF _ 1(2)])
        (auto simp: vcg case_prod_beta Let_def intro!: wlp_mono [OF mem_write_len] wlp_mono [OF sendPacket_inv] set_buf_inv ih)
  qed
  then show "client_inv N bs rs nh C st \<Longrightarrow> ?thesis" by (auto simp: wlp_def)
qed

lemma publish_head_inv: "client_inv N bs rs nh C st \<Longrightarrow> inv_after N bs rs nh C (publish_head t msg n st)"
  unfolding publish_head_def
  by (auto simp: vcg Let_def simp del: writeChar.simps put_bytes.simps intro!: writers_len set_buf_inv)

lemma MQTTPublish_part_inv: "client_inv N bs rs nh C st \<Longrightarrow> inv_after N bs rs nh C (MQTTPublish_part P t msg drive st)"
  unfolding MQTTPublish_part_def
  by (auto simp: vcg case_prod_beta Let_def intro!: wlp_mono [OF publish_head_inv] wlp_mono [OF sendPacket_inv] wlp_mono [OF part_loop_inv]
      wlp_mono [OF wait_ack_inv] assign_id_inv)

lemma subscribe_packet_inv: "client_inv N bs rs nh C st \<Longrightarrow> inv_after N bs rs nh C (subscribe_packet t q i st)"
  unfolding subscribe_packet_def
  by (auto simp: vcg Let_def simp del: writeChar.simps put_bytes.simps intro!: writers_len set_buf_inv)

lemma arrow_mqtt_client_subscribe_inv: "client_inv N bs rs nh C st \<Longrightarrow> inv_after N bs rs nh C (arrow_mqtt_client_subscribe P q cb st)"
  unfolding arrow_mqtt_client_subscribe_def arrow_mqtt_client_delivery_message_reg_def
  by (auto simp: vcg case_prod_beta intro!: wlp_mono [OF subscribe_packet_inv] wlp_mono [OF sendPacket_inv] wlp_mono [OF waitfor_inv]
      getNextPacketId_inv wlp_any [of _ "MQTTDeserialize_suback a b c d e" for a b c d e] wlp_any [of _ "read_at a b" for a b]
      wlp_any [of _ "find_delivery a b" for a b])

section \<open>Sessions\<close>

text \<open>The steps of a client: the calls of its interface, with any arguments.\<close>

inductive client_step :: "'w platform \<Rightarrow> 'w mst \<Rightarrow> 'w mst \<Rightarrow> bool" for P :: "'w platform" where
  connect: "MQTTConnectWithResults P opts data st = Some (rc, data', st') \<Longrightarrow> client_step P st st'"
| subscribe: "MQTTSubscribeWithResults P f q h g st = Some (rc, g', st') \<Longrightarrow> client_step P st st'"
| subscribe_delivery: "arrow_mqtt_client_subscribe P q cb st = Some (rc, st') \<Longrightarrow> client_step P st st'"
| unsubscribe: "MQTTUnsubscribe P f st = Some (rc, st') \<Longrightarrow> client_step P st st'"
| publish: "MQTTPublish P t msg st = Some (rc, st') \<Longrightarrow> client_step P st st'"
| publish_part: "MQTTPublish_part P t msg drive st = Some (rc, st') \<Longrightarrow> client_step P st st'"
| yield: "MQTTYield P ms st = Some (rc, st') \<Longrightarrow> client_step P st st'"
| disconnect: "MQTTDisconnect P st = Some (rc, st') \<Longrightarrow> client_step P st st'"

lemma MQTTYield_inv: "client_inv N bs rs nh C st \<Longrightarrow> inv_after N bs rs nh C (MQTTYield P ms st)"
  unfolding MQTTYield_def by (auto simp: vcg case_prod_beta intro!: wlp_mono [OF cycle_r_inv])

lemma client_step_inv:
  assumes "client_step P st st'" and inv: "client_inv N bs rs nh {0, 1} st"
  shows "client_inv N bs rs nh {0, 1} st'"
  using assms(1)
proof (cases rule: client_step.cases)
  case connect
  then show ?thesis using MQTTConnectWithResults_inv [OF _ inv] unfolding wlp_def by fastforce
next
  case subscribe
  then show ?thesis using MQTTSubscribeWithResults_inv [OF inv] unfolding wlp_def by fastforce
next
  case subscribe_delivery
  then show ?thesis using arrow_mqtt_client_subscribe_inv [OF inv] unfolding wlp_def by fastforce
next
  case unsubscribe
  then show ?thesis using MQTTUnsubscribe_inv [OF _ inv] unfolding wlp_def by fastforce
next
  case publish
  then show ?thesis using MQTTPublish_inv [OF _ inv] unfolding wlp_def by fastforce
next
  case publish_part
  then show ?thesis using MQTTPublish_part_inv [OF inv] unfolding wlp_def by fastforce
next
  case yield
  then show ?thesis using MQTTYield_inv [OF inv] unfolding wlp_def by fastforce
next
  case disconnect
  then show ?thesis using MQTTDisconnect_inv [OF _ inv] unfolding wlp_def by fastforce
qed

lemma MQTTClientInit_inv:
  "client_inv N (length sb) (length rb) (length (c_messageHandlers c)) {0, 1}
     \<lparr>cl = MQTTClientInit N ms sb (length sb) rb (length rb) c, dl = d, wd = w\<rparr>"
  by (simp add: client_inv_def MQTTClientInit_def MAX_PACKET_ID_def)

text \<open>C5. The client structure stays well formed in every session: after \<open>MQTTClientInit\<close> and any
  sequence of calls of the interface with any arguments, whatever the network delivers and however the
  calls end, the buffers have their sizes, the network object and the number of handler slots are
  unchanged, the next packet identifier is between 1 and 65535, and the flags are zero or one.\<close>

theorem session_invariant:
  assumes "(client_step P)\<^sup>*\<^sup>* \<lparr>cl = MQTTClientInit N ms sb (length sb) rb (length rb) c, dl = d, wd = w\<rparr> st"
  shows "client_inv N (length sb) (length rb) (length (c_messageHandlers c)) {0, 1} st"
  using assms by (induction rule: rtranclp_induct) (auto intro: MQTTClientInit_inv client_step_inv)

definition idle_platform :: "nat platform" where
  "idle_platform = \<lparr>p_clock = (\<lambda>w. (\<lparr>tv_sec = int w, tv_usec = 0\<rparr>, w + 1)), p_max_msg_len = 64, p_schar = True\<rparr>"

definition idle_state :: "nat mst" where
  "idle_state = \<lparr>cl = MQTTClientInit (c_ipstack (client0 0)) 1000 (replicate 32 0) 32 (replicate 64 0) 64 (client0 0), dl = [], wd = 0\<rparr>"

theorem session_invariant_witness:
  "client_step idle_platform idle_state (MQTTCloseSession idle_state) \<and>
   client_inv (c_ipstack (client0 0)) 32 64 0 {0, 1} (MQTTCloseSession idle_state)"
proof -
  have "MQTTPublish idle_platform [97] message0 idle_state = Some (FAILURE, MQTTCloseSession idle_state)"
    by (simp add: MQTTPublish_def publish_exchange_def close_on_failure_def idle_state_def MQTTClientInit_def)
  then have s: "client_step idle_platform idle_state (MQTTCloseSession idle_state)" by (rule publish)
  with session_invariant [of idle_platform "c_ipstack (client0 0)" 1000 "replicate 32 0" "replicate 64 0" "client0 0" "[]" 0 "MQTTCloseSession idle_state"]
  show ?thesis by (auto simp: idle_state_def client0_def)
qed

end
