(* ===== verification/Mqtt_Exchange.thy ===== *)
theory Mqtt_Exchange
  imports Mqtt_Session
begin

text \<open>
  What the client of \<open>src/mqtt/client\<close> exchanges with the broker: the bytes it writes, when a session is
  open, the table of message handlers, and the receive cycle.
\<close>

section \<open>Writing a packet\<close>

text \<open>What the network has been given: \<open>out\<close> grows by the bytes that a write accepts.\<close>

definition writes_to :: "'w Network \<Rightarrow> 'w clock \<Rightarrow> ('w \<Rightarrow> bytes) \<Rightarrow> bool" where
  "writes_to N clk out \<longleftrightarrow>
     (\<forall>w d t rc w'. mqttwrite N w d t = (rc, w') \<longrightarrow> rc \<le> int (length d) \<and> out w' = out w @ take (nat rc) d) \<and>
     (\<forall>w t w'. clk w = (t, w') \<longrightarrow> out w' = out w)"

lemma timer_out:
  assumes "writes_to N (p_clock P) out"
  shows "expired P t st = (b, st') \<Longrightarrow> out (wd st') = out (wd st) \<and> cl st' = cl st \<and> dl st' = dl st"
    and "left_ms P t st = (i, st') \<Longrightarrow> out (wd st') = out (wd st) \<and> cl st' = cl st \<and> dl st' = dl st"
    and "countdown P ms st = (e, st') \<Longrightarrow> out (wd st') = out (wd st) \<and> cl st' = cl st \<and> dl st' = dl st"
  using assms unfolding writes_to_def expired_def left_ms_def countdown_def TimerIsExpired_def TimerLeftMS_def TimerCountdown_def Let_def
  by (auto split: prod.splits)

lemma net_out_out:
  assumes "writes_to (c_ipstack (cl st)) clk out" and "net_out st d t = (rc, st')"
  shows "rc \<le> int (length d)" and "out (wd st') = out (wd st) @ take (nat rc) d" and "cl st' = cl st" and "dl st' = dl st"
  using assms unfolding writes_to_def net_out_def by (auto split: prod.splits)

lemma send_loop_writes:
  assumes W: "writes_to N (p_clock P) out" and N: "c_ipstack (cl st) = N" and R: "2 * nat len \<le> length (c_buf (cl st))" and "0 \<le> sent"
  shows "wp (send_loop P len timer sent st) (\<lambda>(sent', st'). sent \<le> sent' \<and> cl st' = cl st \<and> dl st' = dl st \<and>
    out (wd st') = out (wd st) @ take (nat (sent' - sent)) (drop (nat sent) (c_buf (cl st))))"
  using N R \<open>0 \<le> sent\<close>
proof (induction "nat (len - sent)" arbitrary: sent st rule: less_induct)
  case less
  show ?case
  proof (cases "sent < len")
    case True
    obtain ex st1 where 1: "expired P timer st = (ex, st1)" by force
    note c1 = timer_out(1) [OF W 1]
    show ?thesis
    proof (cases ex)
      case True
      with \<open>sent < len\<close> 1 c1 show ?thesis by (subst send_loop.simps) (simp add: vcg)
    next
      case False
      let ?d = "take (nat len) (drop (nat sent) (c_buf (cl st)))"
      have m: "mem_read (c_buf (cl st1)) (nat sent) (nat len) = Some ?d" and ld: "length ?d = nat len"
        using c1 less.prems(2,3) \<open>sent < len\<close> by (auto simp: mem_read_def)
      obtain t st2 where 2: "left_ms P timer st1 = (t, st2)" by force
      note c2 = timer_out(2) [OF W 2]
      obtain rc st3 where 3: "net_out st2 ?d t = (rc, st3)" by force
      have "writes_to (c_ipstack (cl st2)) (p_clock P) out" using W c1 c2 less.prems(1) by simp
      note c3 = net_out_out [OF this 3]
      have run: "send_loop P len timer sent st = (if rc \<le> 0 then Some (sent, st3) else send_loop P len timer (sent + rc) st3)"
        using True False 1 m 2 3 \<open>sent < len\<close> by (subst send_loop.simps) simp
      show ?thesis
      proof (cases "rc \<le> 0")
        case True
        with run c1 c2 c3 show ?thesis by (simp add: vcg)
      next
        case False
        have "nat rc \<le> nat len" using c3(1) unfolding ld by linarith
        then have out3: "out (wd st3) = out (wd st) @ take (nat rc) (drop (nat sent) (c_buf (cl st)))"
          using c1 c2 c3 by (simp add: min_absorb1)
        have "wp (send_loop P len timer (sent + rc) st3) (\<lambda>(sent', st'). sent + rc \<le> sent' \<and> cl st' = cl st3 \<and> dl st' = dl st3 \<and>
          out (wd st') = out (wd st3) @ take (nat (sent' - (sent + rc))) (drop (nat (sent + rc)) (c_buf (cl st3))))"
          using less.prems False \<open>sent < len\<close> c1 c2 c3 by (intro less.hyps) auto
        moreover have "take (nat rc) B @ take (nat (s' - (sent + rc))) (drop (nat rc) B) = take (nat (s' - sent)) B"
          if "sent + rc \<le> s'" for s' and B :: bytes
          using that False less.prems(3) take_add [of "nat rc" "nat (s' - (sent + rc))" B] by (simp flip: nat_add_distrib)
        ultimately show ?thesis unfolding run using False c1 c2 c3 out3 less.prems(3)
          by (auto elim!: wp_mono simp: nat_add_distrib add.commute simp flip: drop_drop)
      qed
    qed
  qed (subst send_loop.simps, simp add: vcg)
qed

text \<open>Sending a packet: \<open>sendPacket\<close> returns success exactly when the network has accepted all bytes
  of the packet, and in every case the network has been given a prefix of the send buffer, in order and
  without gaps, however it splits the writes. The buffer must be twice as long as the packet, because
  the code offers the full packet length again after a partial write.\<close>

theorem sendPacket_sends:
  assumes "writes_to (c_ipstack (cl st)) (p_clock P) out" and "0 \<le> len" and "2 * nat len \<le> length (c_buf (cl st))"
  shows "\<exists>n st'. sendPacket P len timer st = Some (if n = nat len then MQTT_SUCCESS else FAILURE, st') \<and>
    out (wd st') = out (wd st) @ take n (c_buf (cl st)) \<and> c_buf (cl st') = c_buf (cl st)"
proof -
  from send_loop_writes [OF assms(1) refl assms(3), of 0 timer] obtain sent st1 where 1: "send_loop P len timer 0 st = Some (sent, st1)"
    "0 \<le> sent" "cl st1 = cl st" "out (wd st1) = out (wd st) @ take (nat sent) (c_buf (cl st))" by (auto simp: wp_def)
  have n: "nat sent = nat len \<longleftrightarrow> sent = len" using 1(2) assms(2) by auto
  obtain t st2 where 2: "countdown P (c_keepAliveInterval (cl st1)) st1 = (t, st2)" by force
  have c: "out (wd st2) = out (wd st1)" "cl st2 = cl st1" using timer_out(3) [OF assms(1) 2] by auto
  show ?thesis
  proof (cases "sent = len")
    case True
    with 1 2 c show ?thesis unfolding sendPacket_def
      by (intro exI [of _ "nat len"] exI [of _ "st2\<lparr>cl := (cl st2)\<lparr>c_last_sent := t\<rparr>\<rparr>"]) simp
  next
    case False
    with 1 n show ?thesis unfolding sendPacket_def by (intro exI [of _ "nat sent"] exI [of _ st1]) simp
  qed
qed

text \<open>A network that accepts at most three bytes at a time and records them.\<close>

definition slow_net :: "bytes Network" where
  "slow_net = \<lparr>mqttread = (\<lambda>w n t. (-1, [], w)), mqttwrite = (\<lambda>w d t. (int (min 3 (length d)), w @ take 3 d))\<rparr>"

definition fixed_clock :: "'w clock" where
  "fixed_clock w = (\<lparr>tv_sec = 5, tv_usec = 0\<rparr>, w)"

lemma slow_net_writes: "writes_to slow_net fixed_clock (\<lambda>w. w)"
  by (auto simp: writes_to_def slow_net_def fixed_clock_def min_def)

definition slow_state :: "bytes mst" where
  "slow_state = \<lparr>cl = (client0 [])\<lparr>c_ipstack := slow_net, c_buf := [1, 2, 3, 4, 5, 6, 7, 8, 9, 10]\<rparr>, dl = [], wd = []\<rparr>"

definition slow_platform :: "bytes platform" where
  "slow_platform = \<lparr>p_clock = fixed_clock, p_max_msg_len = 64, p_schar = True\<rparr>"

theorem sendPacket_sends_witness:
  "\<exists>n st'. sendPacket slow_platform 5 \<lparr>tv_sec = 9, tv_usec = 0\<rparr> slow_state = Some (if n = 5 then MQTT_SUCCESS else FAILURE, st') \<and>
    wd st' = take n [1, 2, 3, 4, 5, 6, 7, 8, 9, 10]"
proof -
  have b: "c_buf (cl slow_state) = [1, 2, 3, 4, 5, 6, 7, 8, 9, 10]" "wd slow_state = []" by (simp_all add: slow_state_def)
  have "writes_to (c_ipstack (cl slow_state)) (p_clock slow_platform) (\<lambda>w. w)"
    using slow_net_writes by (simp add: slow_state_def slow_platform_def)
  from sendPacket_sends [OF this, of 5 "\<lparr>tv_sec = 9, tv_usec = 0\<rparr>"] obtain n st' where
    "sendPacket slow_platform 5 \<lparr>tv_sec = 9, tv_usec = 0\<rparr> slow_state = Some (if n = nat 5 then MQTT_SUCCESS else FAILURE, st')"
    "wd st' = wd slow_state @ take n (c_buf (cl slow_state))" by (auto simp: b)
  then show ?thesis unfolding b by (intro exI [of _ n] exI [of _ st']) simp
qed


section \<open>When a session is open\<close>

definition accepted :: "'w mst \<Rightarrow> bool" where
  "accepted st \<longleftrightarrow> (\<exists>sess. MQTTDeserialize_connack (c_readbuf (cl st)) (int (c_readbuf_size (cl st))) = Some (1, sess, 0))"

lemma connect_exchange_accepted:
  assumes "client_inv N bs rs nh C st"
  shows "wlp (connect_exchange P opts data st) (\<lambda>(rc, data, st'). client_inv N bs rs nh C st' \<and> (rc = MQTT_SUCCESS \<longrightarrow> accepted st'))"
proof -
  have [simp]: "client_inv N bs rs nh C (st\<lparr>cl := (cl st)\<lparr>c_keepAliveInterval := k, c_cleansession := s\<rparr>\<rparr>) = client_inv N bs rs nh C st" for st k s
    by (simp add: client_inv_def)
  show ?thesis using assms unfolding connect_exchange_def
    by (auto simp: vcg Let_def case_prod_beta FAILURE_def MQTT_SUCCESS_def intro!: wlp_mono [OF serialise_inv] wlp_mono [OF sendPacket_inv]
        wlp_mono [OF waitfor_inv] MQTTSerialize_connect_len)
      (auto simp: wlp_def accepted_def unsigned_eq_0_iff)
qed


text \<open>A broker that answers everything with a CONNACK; the world is what is left to read.\<close>

definition broker :: "bytes Network" where
  "broker = \<lparr>mqttread = (\<lambda>w n t. (n, take (nat n) w, drop (nat n) w)), mqttwrite = (\<lambda>w d t. (int (length d), [0x20, 2, 0, 0]))\<rparr>"

definition broker_state :: "bytes mst" where
  "broker_state = \<lparr>cl = (client0 [])\<lparr>c_ipstack := broker\<rparr>, dl = [], wd = []\<rparr>"

declare waitfor_loop.simps [code] payload_loop.simps [code] skip_loop.simps [code]

lemma broker_accepts:
  obtains data st where "MQTTConnectWithResults slow_platform None (0, 0) broker_state = Some (MQTT_SUCCESS, data, st)"
proof -
  have "map_option fst (MQTTConnectWithResults slow_platform None (0, 0) broker_state) = Some MQTT_SUCCESS" by code_simp
  with that show thesis by force
qed

lemma broker_inv: "client_inv broker 64 64 0 {0} broker_state"
  by (simp add: client_inv_def broker_state_def client0_def MAX_PACKET_ID_def)


text \<open>A closed session refuses to work: without a connection, publishing, subscribing and
  unsubscribing fail, nothing is written to the network and the clock is not even read.\<close>

theorem closed_session_refuses:
  assumes "c_isconnected (cl st) = 0"
  shows "MQTTPublish P t msg st = Some (FAILURE, MQTTCloseSession st) \<and> MQTTPublish_part P t msg drive st = Some (FAILURE, st) \<and>
    MQTTSubscribeWithResults P t q h g st = Some (FAILURE, g, st) \<and> arrow_mqtt_client_subscribe P q cb st = Some (FAILURE, st) \<and>
    MQTTUnsubscribe P t st = Some (FAILURE, MQTTCloseSession st) \<and> wd (MQTTCloseSession st) = wd st"
  using assms by (simp_all add: MQTTPublish_def publish_exchange_def MQTTPublish_part_def MQTTSubscribeWithResults_def arrow_mqtt_client_subscribe_def
      MQTTUnsubscribe_def unsubscribe_exchange_def close_on_failure_def MQTTCloseSession_def Let_def)

theorem closed_session_refuses_witness:
  "MQTTPublish idle_platform [97] message0 idle_state = Some (FAILURE, MQTTCloseSession idle_state) \<and> wd (MQTTCloseSession idle_state) = 0"
proof -
  have "c_isconnected (cl idle_state) = 0" "wd idle_state = 0" by (simp_all add: idle_state_def MQTTClientInit_def)
  then show ?thesis using closed_session_refuses [of idle_state idle_platform "[97]" message0] by simp
qed

section \<open>The table of message handlers\<close>

text \<open>The table as a map from topic filters to handlers.\<close>

fun handler_for :: "(bytes option \<times> 'w handler option) list \<Rightarrow> bytes \<rightharpoonup> 'w handler" where
  "handler_for [] f = None"
| "handler_for ((a, g) # hs) f = (if a = Some f then g else handler_for hs f)"

definition registered :: "bytes \<Rightarrow> (bytes option \<times> 'w handler option) list \<Rightarrow> bool" where
  "registered f hs \<longleftrightarrow> (\<exists>h \<in> set hs. fst h = Some f)"

definition free_slot :: "(bytes option \<times> 'w handler option) list \<Rightarrow> bool" where
  "free_slot hs \<longleftrightarrow> (\<exists>h \<in> set hs. fst h = None)"

text \<open>No filter is in the table twice.\<close>

fun filters_distinct :: "(bytes option \<times> 'w handler option) list \<Rightarrow> bool" where
  "filters_distinct [] \<longleftrightarrow> True"
| "filters_distinct ((a, g) # hs) \<longleftrightarrow> (\<forall>f. a = Some f \<longrightarrow> \<not> registered f hs) \<and> filters_distinct hs"

lemma registered_simps [simp]: "\<not> registered f []" "registered f ((a, g) # hs) \<longleftrightarrow> a = Some f \<or> registered f hs"
  by (auto simp: registered_def)

lemma find_handler_found: "find_handler p hs < length hs \<longleftrightarrow> (\<exists>h \<in> set hs. p h)"
  by (induction hs) auto

lemma unregistered_handler: "\<not> registered f hs \<Longrightarrow> handler_for hs f = None"
  by (induction hs f rule: handler_for.induct) auto

abbreviation slot_of :: "bytes option \<Rightarrow> (bytes option \<times> 'w handler option) list \<Rightarrow> nat" where
  "slot_of a hs \<equiv> find_handler (\<lambda>h. fst h = a) hs"

lemma registered_update:
  assumes "\<exists>h \<in> set hs. fst h = a"
  shows "registered f (hs[slot_of a hs := (b, g)]) \<longrightarrow> registered f hs \<or> b = Some f"
  using assms by (induction hs) (auto simp: registered_def)

lemma replace_handler:
  "registered f hs \<Longrightarrow> filters_distinct hs \<Longrightarrow>
    handler_for (hs[slot_of (Some f) hs := (Some f, g)]) = (handler_for hs)(f := g) \<and> filters_distinct (hs[slot_of (Some f) hs := (Some f, g)])"
proof (induction hs)
  case (Cons h hs)
  obtain a k where h: "h = (a, k)" by force
  have "registered f' (hs[slot_of (Some f) hs := (Some f, g)]) \<longrightarrow> registered f' hs \<or> f' = f" if "registered f hs" for f'
    using registered_update [of hs "Some f" f' "Some f" g] that by (auto simp: registered_def)
  with Cons show ?case by (cases "a = Some f") (auto simp: h fun_eq_iff)
qed simp

lemma remove_handler:
  "registered f hs \<Longrightarrow> filters_distinct hs \<Longrightarrow>
    handler_for (hs[slot_of (Some f) hs := (None, None)]) = (handler_for hs)(f := None) \<and> filters_distinct (hs[slot_of (Some f) hs := (None, None)])"
proof (induction hs)
  case (Cons h hs)
  obtain a k where h: "h = (a, k)" by force
  have "registered f' (hs[slot_of (Some f) hs := (None, None)]) \<longrightarrow> registered f' hs" if "registered f hs" for f'
    using registered_update [of hs "Some f" f' None None] that by (auto simp: registered_def)
  with Cons show ?case by (cases "a = Some f") (auto simp: h fun_eq_iff unregistered_handler)
qed simp

lemma add_handler:
  "\<not> registered f hs \<Longrightarrow> free_slot hs \<Longrightarrow> filters_distinct hs \<Longrightarrow>
    handler_for (hs[slot_of None hs := (Some f, g)]) = (handler_for hs)(f := g) \<and> filters_distinct (hs[slot_of None hs := (Some f, g)])"
proof (induction hs)
  case (Cons h hs)
  obtain a k where h: "h = (a, k)" by force
  have "registered f' (hs[slot_of None hs := (Some f, g)]) \<longrightarrow> registered f' hs \<or> f' = f" if "free_slot hs" for f'
    using registered_update [of hs None f' "Some f" g] that by (auto simp: registered_def free_slot_def)
  with Cons show ?case by (cases a) (auto simp: h fun_eq_iff free_slot_def)
qed (simp add: free_slot_def)

text \<open>C36. The handler table implements a finite map of bounded size: setting a handler updates the map at
  the filter, removing one deletes it, a table without a free slot is left alone and the call fails, and
  no filter is ever in the table twice.\<close>

theorem MQTTSetMessageHandler_refines:
  assumes "filters_distinct (c_messageHandlers c)" and "MQTTSetMessageHandler f h c = (rc, c')"
  shows "filters_distinct (c_messageHandlers c') \<and> length (c_messageHandlers c') = length (c_messageHandlers c) \<and>
    (if registered f (c_messageHandlers c) \<or> h \<noteq> None \<and> free_slot (c_messageHandlers c)
     then rc = MQTT_SUCCESS \<and> handler_for (c_messageHandlers c') = (handler_for (c_messageHandlers c))(f := h)
     else rc = FAILURE \<and> c' = c)"
proof -
  let ?hs = "c_messageHandlers c"
  have r: "slot_of (Some f) ?hs < length ?hs \<longleftrightarrow> registered f ?hs" "slot_of None ?hs < length ?hs \<longleftrightarrow> free_slot ?hs"
    by (simp_all add: find_handler_found registered_def free_slot_def)
  show ?thesis
  proof (cases h)
    case None
    with assms r remove_handler [of f ?hs] show ?thesis by (auto simp: MQTTSetMessageHandler_def Let_def split: if_splits)
  next
    case (Some g)
    with assms r replace_handler [of f ?hs h] add_handler [of f ?hs h] show ?thesis
      by (auto simp: MQTTSetMessageHandler_def Let_def split: if_splits)
  qed
qed

theorem MQTTSetMessageHandler_refines_witness:
  "\<exists>rc c'. MQTTSetMessageHandler [98, 47, 35] None ((client0 (0 :: nat))\<lparr>c_messageHandlers := counting_handlers\<rparr>) = (rc, c') \<and>
    rc = MQTT_SUCCESS \<and> handler_for (c_messageHandlers c') [98, 47, 35] = None \<and> handler_for (c_messageHandlers c') [97, 47, 43] \<noteq> None"
proof -
  let ?c = "(client0 (0 :: nat))\<lparr>c_messageHandlers := counting_handlers\<rparr>"
  obtain rc c' where s: "MQTTSetMessageHandler [98, 47, 35] None ?c = (rc, c')" by force
  have "filters_distinct (c_messageHandlers ?c)" "registered [98, 47, 35] (c_messageHandlers ?c)" "handler_for (c_messageHandlers ?c) [97, 47, 43] \<noteq> None"
    by (simp_all add: counting_handlers_def)
  with MQTTSetMessageHandler_refines [OF _ s] s show ?thesis by auto
qed

end
