(* ===== verification/Mqtt_Safe.thy ===== *)
theory Mqtt_Safe
  imports Mqtt_Exchange
begin

text \<open>
  Memory safety and termination of the receive cycle \<open>cycle_r\<close> of \<open>src/mqtt/client/client.c\<close>. With the
  receive buffer at least as long as the longest accepted message, the cycle never leaves its buffers and
  always ends, whatever bytes arrive. With a shorter buffer, as in the default configuration, a packet
  of the broker overruns it.
\<close>

text \<open>A send transmits all bytes or fails.\<close>

definition send_whole :: "'w sockets \<Rightarrow> bool" where
  "send_whole S \<longleftrightarrow> (\<forall>w d. fst (sk_send S w d) \<le> 0 \<or> fst (sk_send S w d) = int (length d))"

text \<open>What the cycle relies on.\<close>

definition cycle_env :: "'w sockets \<Rightarrow> 'w platform \<Rightarrow> nat \<Rightarrow> nat \<Rightarrow> bool" where
  "cycle_env S P bs rs \<longleftrightarrow> recv_ok S \<and> send_whole S \<and> 4 \<le> bs \<and> 2 \<le> rs \<and> rs \<le> bs \<and> p_max_msg_len P \<le> int rs"

abbreviation good :: "'w sockets \<Rightarrow> nat \<Rightarrow> nat \<Rightarrow> nat \<Rightarrow> 'w mst \<Rightarrow> bool" where
  "good S bs rs nh st \<equiv> client_inv (NetworkInit S) bs rs nh {0, 1} st"

lemma wp_defined: "x \<noteq> None \<Longrightarrow> wlp x Q \<Longrightarrow> wp x Q"
  by (auto simp: wp_def wlp_def)

lemma wpE:
  assumes "wp x Q"
  obtains y where "x = Some y" and "Q y"
  using assms unfolding wp_def by blast

section \<open>Sending\<close>

lemma net_out_whole:
  assumes "send_whole S" and "good S bs rs nh st" and "net_out st d t = (rc, st')"
  shows "rc \<le> 0 \<or> rc = int (length d)"
proof -
  have "rc = fst (sk_send S (sk_set_timeout S (wd st) (ms_interval t)) d)"
    using assms(2,3) by (auto simp: net_out_def client_inv_def NetworkInit_def net_write_def split: prod.splits)
  then show ?thesis using assms(1) by (simp add: send_whole_def)
qed

lemma sendPacket_safe:
  assumes "send_whole S" and inv: "good S bs rs nh st" and "len \<le> int bs"
  shows "wp (sendPacket P len timer st) (\<lambda>(rc, st'). good S bs rs nh st')"
proof -
  have "send_loop P len timer 0 st \<noteq> None"
  proof (cases "0 < len")
    case True
    obtain ex st1 where 1: "expired P timer st = (ex, st1)" by force
    have i1: "good S bs rs nh st1" using timers_inv(1) [of "NetworkInit S" bs rs nh "{0, 1}" P timer st] inv 1 by simp
    obtain t st2 where 2: "left_ms P timer st1 = (t, st2)" by force
    have i2: "good S bs rs nh st2" using timers_inv(4) [of "NetworkInit S" bs rs nh "{0, 1}" P timer st1] i1 2 by simp
    let ?d = "take (nat len) (c_buf (cl st1))"
    have m: "mem_read (c_buf (cl st1)) 0 (nat len) = Some ?d" "length ?d = nat len"
      using i1 assms(3) by (auto simp: mem_read_def client_inv_def)
    obtain rc st3 where 3: "net_out st2 ?d t = (rc, st3)" by force
    have "rc \<le> 0 \<or> rc = len" using net_out_whole [OF assms(1) i2 3] m(2) True by auto
    then show ?thesis using True 1 2 3 m by (subst send_loop.simps) (auto simp: send_loop.simps [of P len timer len])
  qed (subst send_loop.simps, simp)
  then have "sendPacket P len timer st \<noteq> None" by (auto simp: sendPacket_def split: prod.splits)
  then show ?thesis by (rule wp_defined) (rule sendPacket_inv [OF inv])
qed

lemma ack_safe:
  assumes "good S bs rs nh st" and "4 \<le> bs"
  shows "wp (serialise (\<lambda>b n. MQTTSerialize_ack b n t d i) st) (\<lambda>(len, st'). len = 4 \<and> good S bs rs nh st')"
proof -
  have b: "length (c_buf (cl st)) = bs" "c_buf_size (cl st) = bs" using assms(1) by (simp_all add: client_inv_def)
  have r: "wp (serialise (\<lambda>b n. MQTTSerialize_ack b n t d i) st) (\<lambda>(len, st'). len = 4)"
    using assms(2) b by (simp add: serialise_def vcg MQTTSerialize_ack_packet)
  moreover have "wlp (serialise (\<lambda>b n. MQTTSerialize_ack b n t d i) st) (\<lambda>(len, st'). good S bs rs nh st')"
    by (rule serialise_inv [OF assms(1)]) (rule MQTTSerialize_ack_len)
  ultimately show ?thesis by (auto simp: wp_def wlp_def)
qed

lemma keepalive_safe:
  assumes "cycle_env S P bs rs" and inv: "good S bs rs nh st"
  shows "wp (keepalive P st) (\<lambda>(rc, st'). good S bs rs nh st')"
proof -
  have e: "send_whole S" "4 \<le> bs" using assms(1) by (simp_all add: cycle_env_def)
  have ping: "wp (serialise MQTTSerialize_pingreq st) (\<lambda>(len, st'). len = 2 \<and> good S bs rs nh st')" if "good S bs rs nh st" for st
  proof -
    have b: "length (c_buf (cl st)) = bs" "c_buf_size (cl st) = bs" using that by (simp_all add: client_inv_def)
    have "wp (serialise MQTTSerialize_pingreq st) (\<lambda>(len, st'). len = 2)"
      using e(2) b by (simp add: serialise_def vcg MQTTSerialize_pingreq_def MQTTSerialize_zero_packet)
    moreover have "wlp (serialise MQTTSerialize_pingreq st) (\<lambda>(len, st'). good S bs rs nh st')"
      by (rule serialise_inv [OF that]) (simp add: MQTTSerialize_pingreq_def MQTTSerialize_zero_len)
    ultimately show ?thesis by (auto simp: wp_def wlp_def)
  qed
  show ?thesis using inv e unfolding keepalive_def
    by (auto simp: vcg case_prod_beta intro!: wp_mono [OF ping] wp_mono [OF sendPacket_safe [OF e(1)]]) (auto simp: client_inv_def)
qed

section \<open>Receiving\<close>

lemma read_buf_safe:
  assumes "recv_ok S" and inv: "good S bs rs nh st" and "off + nat len \<le> rs"
  shows "wp (read_buf P timer off len st) (\<lambda>(rc, st'). good S bs rs nh st' \<and> (rc = len \<and> 0 < len \<or> rc = -1))"
proof -
  obtain t st1 where 1: "left_ms P timer st = (t, st1)" by force
  have i1: "good S bs rs nh st1" using timers_inv(4) [of "NetworkInit S" bs rs nh "{0, 1}" P timer st] inv 1 by simp
  obtain rc data st2 where 2: "net_in st1 len t = (rc, data, st2)" by (metis prod_cases3)
  then obtain w where "mqttread (NetworkInit S) (wd st1) len t = (rc, data, w)" and st2: "st2 = st1\<lparr>wd := w\<rparr>"
    using i1 by (auto simp: net_in_def client_inv_def split: prod.splits)
  note r = net_read_result [OF assms(1) this(1)]
  then have "length data \<le> nat len" by auto
  with assms(3) i1 obtain b where b: "mem_write (c_readbuf (cl st2)) off data = Some b" "length b = length (c_readbuf (cl st2))"
    by (auto simp: mem_write_def client_inv_def st2)
  have "read_buf P timer off len st = Some (rc, st2\<lparr>cl := (cl st2)\<lparr>c_readbuf := b\<rparr>\<rparr>)" using 1 2 b by (simp add: read_buf_def)
  moreover have "good S bs rs nh (st2\<lparr>cl := (cl st2)\<lparr>c_readbuf := b\<rparr>\<rparr>)" using i1 b(2) by (simp add: client_inv_def st2)
  ultimately show ?thesis using r by (auto simp: wp_def)
qed

lemma read_tmp_safe:
  assumes "recv_ok S" and inv: "good S bs rs nh st" and "nat len \<le> n"
  shows "wp (read_tmp P timer n len st) (\<lambda>(rc, data, st'). good S bs rs nh st' \<and> (rc = len \<and> 0 < len \<and> length data = nat len \<or> rc = -1))"
proof -
  obtain t st1 where 1: "left_ms P timer st = (t, st1)" by force
  have i1: "good S bs rs nh st1" using timers_inv(4) [of "NetworkInit S" bs rs nh "{0, 1}" P timer st] inv 1 by simp
  obtain rc data st2 where 2: "net_in st1 len t = (rc, data, st2)" by (metis prod_cases3)
  then obtain w where "mqttread (NetworkInit S) (wd st1) len t = (rc, data, w)" and st2: "st2 = st1\<lparr>wd := w\<rparr>"
    using i1 by (auto simp: net_in_def client_inv_def split: prod.splits)
  note r = net_read_result [OF assms(1) this(1)]
  then have "length data \<le> n" using assms(3) by auto
  with 1 2 i1 r st2 show ?thesis by (auto simp: wp_def read_tmp_def)
qed

lemma decodePacket_loop_safe:
  assumes "recv_ok S"
  shows "good S bs rs nh st \<Longrightarrow> 0 \<le> val \<Longrightarrow> 0 \<le> mul \<Longrightarrow>
    wp (decodePacket_loop t i mul len val st) (\<lambda>(n, v, st'). good S bs rs nh st' \<and> 0 \<le> v)"
proof (induction "nat (5 - len)" arbitrary: i mul len val st rule: less_induct)
  case less
  obtain rc data st1 where 1: "net_in st 1 t = (rc, data, st1)" by (metis prod_cases3)
  then obtain w where "mqttread (NetworkInit S) (wd st) 1 t = (rc, data, w)" and st1: "st1 = st\<lparr>wd := w\<rparr>"
    using less.prems(1) by (auto simp: net_in_def client_inv_def split: prod.splits)
  note r = net_read_result [OF assms this(1)]
  then have d: "\<not> 1 < length data" by auto
  have i1: "good S bs rs nh st1" using less.prems(1) by (simp add: st1)
  show ?case
  proof (cases "rc \<noteq> 1 \<or> 4 < len + 1")
    case True
    with 1 d i1 less.prems(2) show ?thesis by (subst decodePacket_loop.simps) (auto simp: vcg)
  next
    case False
    let ?i = "if data = [] then i else data ! 0"
    let ?v = "val + uint (?i AND 127) * mul"
    have v: "0 \<le> ?v" using less.prems(2,3) by simp
    have "wp (decodePacket_loop t ?i (mul * 128) (len + 1) ?v st1) (\<lambda>(n, v, st'). good S bs rs nh st' \<and> 0 \<le> v)"
      using less.prems(3) v i1 False by (intro less.hyps) simp_all
    with 1 d i1 False v show ?thesis by (subst decodePacket_loop.simps) (simp add: vcg Let_def del: One_nat_def)
  qed
qed

lemma decode_len_safe:
  assumes "recv_ok S" and "good S bs rs nh st"
  shows "wp (decode_len P timer st) (\<lambda>(n, v, st'). good S bs rs nh st' \<and> 0 \<le> v)"
  unfolding decode_len_def decodePacket_def using decodePacket_loop_safe [OF assms(1)] assms(2) by (simp add: case_prod_beta)

section \<open>Delivering\<close>

lemma strncmp_total: "n \<le> length d \<Longrightarrow> \<exists>r. strncmp (s @ [0]) d n = Some r"
proof (induction s arbitrary: d n)
  case Nil
  then show ?case by (cases n; cases d) auto
next
  case (Cons c s)
  then show ?case by (cases n; cases d) auto
qed

lemma find_delivery_total: "cstring t = None \<Longrightarrow> lenstring_data t = Some d \<Longrightarrow> nat (lenstring_len t) \<le> length d \<Longrightarrow> find_delivery cbs t \<noteq> None"
proof (induction cbs)
  case (Cons cb cbs)
  then show ?case using strncmp_total [of "nat (lenstring_len t)" d "d_topic cb"] by (auto simp: deliveryeq_def)
qed simp

lemma call_delivery_safe:
  assumes inv: "good S bs rs nh st" and "nat tlen \<le> rs"
  shows "wp (call_delivery sel (topic_in_readbuf tlen st) st) (\<lambda>(rc, st'). good S bs rs nh st')"
proof (rule wp_defined [OF _ call_delivery_inv [OF inv]])
  have "find_delivery (dl st) (topic_in_readbuf tlen st) \<noteq> None"
    using assms by (intro find_delivery_total [where d = "c_readbuf (cl st)"]) (simp_all add: topic_in_readbuf_def client_inv_def)
  then show "call_delivery sel (topic_in_readbuf tlen st) st \<noteq> None" by (auto simp: call_delivery_def)
qed

lemma process_chunk_safe:
  assumes "good S bs rs nh st" and "nat tlen + nat len \<le> rs"
  shows "wp (process_chunk tlen err len st) (\<lambda>(rc, st'). good S bs rs nh st')"
proof -
  have "mem_read (c_readbuf (cl st)) (nat tlen) (nat len) = Some (take (nat len) (drop (nat tlen) (c_readbuf (cl st))))"
    using assms by (simp add: mem_read_def client_inv_def)
  with assms show ?thesis unfolding process_chunk_def deliveries by (auto simp: vcg intro!: wp_mono [OF call_delivery_safe])
qed

lemma payload_loop_safe:
  assumes S: "recv_ok S" and "0 < rb" and "nat tlen + nat rb \<le> rs"
  shows "good S bs rs nh st \<Longrightarrow>
    wp (payload_loop P timer tlen rb err len tot st) (\<lambda>(ok, len', st'). good S bs rs nh st' \<and> (len' = len \<or> len' \<le> int rs))"
proof (induction "nat tot" arbitrary: tot len st rule: less_induct)
  case less
  define chunk where "chunk = (if tot < rb then tot else rb)"
  have room: "nat tlen + nat chunk \<le> rs" using assms(2,3) by (auto simp: chunk_def)
  show ?case
  proof (cases "tot = 0")
    case False
    from read_buf_safe [OF S less.prems room, of P timer] obtain rc st1 where 1: "read_buf P timer (nat tlen) chunk st = Some (rc, st1)"
      "good S bs rs nh st1" "rc = chunk \<and> 0 < chunk \<or> rc = -1" by (auto simp: wp_def)
    show ?thesis
    proof (cases "rc \<le> 0")
      case True
      with False 1 show ?thesis by (subst payload_loop.simps) (auto simp: vcg simp flip: chunk_def)
    next
      case pos: False
      with 1(3) have rc: "rc = chunk" by auto
      then have le: "rc \<le> int rs" "nat (tot - rc) < nat tot" using room pos assms(2) by (auto simp: chunk_def split: if_splits)
      from process_chunk_safe [OF 1(2), of tlen rc err] room rc obtain r st2 where 2: "process_chunk tlen err rc st1 = Some (r, st2)" "good S bs rs nh st2"
        by (auto simp: wp_def)
      from less.hyps [OF le(2) 2(2), of rc] le(1) have "wp (payload_loop P timer tlen rb err rc (tot - rc) st2)
        (\<lambda>(ok, len', st'). good S bs rs nh st' \<and> (len' = len \<or> len' \<le> int rs))" by (auto elim: wp_mono)
      with False 1(1) pos 2(1) show ?thesis by (subst payload_loop.simps) (simp flip: chunk_def)
    qed
  qed (subst payload_loop.simps, use less.prems in \<open>simp add: vcg\<close>)
qed

lemma skip_loop_safe:
  assumes S: "recv_ok S"
  shows "good S bs rs nh st \<Longrightarrow> 0 \<le> rem \<Longrightarrow> wp (skip_loop P timer rem st) (good S bs rs nh)"
proof (induction "nat rem" arbitrary: rem st rule: less_induct)
  case less
  define n where "n = (if rem < 4 then rem else 4)"
  show ?case
  proof (cases "rem = 0")
    case False
    have n: "nat n \<le> 4" by (auto simp: n_def)
    from read_tmp_safe [OF S less.prems(1) n, of P timer] obtain rc d st1 where 1: "read_tmp P timer 4 n st = Some (rc, d, st1)"
      "good S bs rs nh st1" "rc = n \<or> rc = -1" by (auto simp: wp_def)
    have ih: "wp (skip_loop P timer (rem - n) st1) (good S bs rs nh)"
      using less.prems(2) False 1(2) by (intro less.hyps) (auto simp: n_def)
    with False 1 show ?thesis by (subst skip_loop.simps) (auto simp: vcg simp flip: n_def)
  qed (subst skip_loop.simps, use less.prems in \<open>simp add: vcg\<close>)
qed

section \<open>The cycle\<close>

lemma readInt_defined: "2 \<le> length b \<Longrightarrow> wp (readInt b 0) (\<lambda>(n, p). 0 \<le> n)"
  by (cases b) (auto simp: readInt_def read_at_def vcg)

lemma publish_payload_safe:
  assumes E: "cycle_env S P bs rs" and "good S bs rs nh st" and "len \<le> int bs" and "0 \<le> tlen" and "tlen < int rs"
  shows "wp (publish_payload P head tlen (int rs - tlen) ident len tot timer st) (\<lambda>(rc, st'). good S bs rs nh st')"
proof -
  have e: "recv_ok S" "send_whole S" "4 \<le> bs" "rs \<le> bs" using E by (simp_all add: cycle_env_def)
  have room: "0 < int rs - tlen" "nat tlen + nat (int rs - tlen) \<le> rs" "nat tlen \<le> rs" using assms(4,5) by auto
  have answer: "wp (publish_answer P head ident n timer st) (\<lambda>(rc, st'). good S bs rs nh st')" if "good S bs rs nh st" "n \<le> int bs" for st n
    using that e unfolding publish_answer_def by (auto simp: vcg intro!: wp_mono [OF ack_safe] wp_mono [OF sendPacket_safe])
  show ?thesis unfolding publish_payload_def deliveries using assms(2,3) e(4)
    by (auto simp: vcg intro!: wp_mono [OF call_delivery_safe [OF _ room(3)]] wp_mono [OF payload_loop_safe [OF e(1) room(1,2)]] answer)
qed

lemma cycle_publish_safe:
  assumes E: "cycle_env S P bs rs" and inv: "good S bs rs nh st" and rem: "rem \<le> int rs"
  shows "wp (cycle_publish P head rem timer st) (\<lambda>(rc, st'). good S bs rs nh st')"
proof -
  have e: "recv_ok S" "2 \<le> rs" "rs \<le> bs" "4 \<le> bs" using E by (simp_all add: cycle_env_def)
  have len: "length (c_readbuf (cl st)) = rs" "c_readbuf_size (cl st) = rs" if "good S bs rs nh st" for st
    using that by (simp_all add: client_inv_def)
  have payload: "wp (publish_payload P head tlen (int rs - tlen) ident n tot timer st) (\<lambda>(rc, st'). good S bs rs nh st')"
    if "good S bs rs nh st" "0 < tlen" "\<not> rem - 2 \<le> tlen" "n = 2 \<or> n = tlen" for st tlen ident n tot
    by (rule publish_payload_safe [OF E]) (use that rem e in auto)
  have head: "wp (read_buf P timer 0 2 st) (\<lambda>(rc, st'). good S bs rs nh st' \<and> (rc = 2 \<or> rc = -1))" if "good S bs rs nh st" for st
    using that e by (intro wp_mono [OF read_buf_safe]) auto
  have topic: "wp (read_buf P timer 0 n st) (\<lambda>(rc, st'). good S bs rs nh st' \<and> (rc = n \<and> 0 < n \<or> rc = -1))"
    if "good S bs rs nh st" "\<not> rem - 2 \<le> n" for st n
    using that e rem by (intro read_buf_safe) auto
  have tmp: "wp (read_tmp P timer 2 2 st) (\<lambda>(rc, data, st'). good S bs rs nh st' \<and> (rc = 2 \<and> length data = 2 \<or> rc = -1))"
    if "good S bs rs nh st" for st
    using that e by (intro wp_mono [OF read_tmp_safe]) auto
  show ?thesis unfolding cycle_publish_def using inv e rem
    by (auto simp: vcg Let_def len intro!: wp_mono [OF head] wp_mono [OF topic] wp_mono [OF tmp] wp_mono [OF readInt_defined] payload)
qed

lemma cycle_r_safe:
  assumes E: "cycle_env S P bs rs" and inv: "good S bs rs nh st"
  shows "wp (cycle_r P timer st) (\<lambda>(rc, st'). good S bs rs nh st')"
proof -
  have e: "recv_ok S" "p_max_msg_len P \<le> int rs" using E by (simp_all add: cycle_env_def)
  have h: "wp (read_at d 0) (\<lambda>b. True)" if "length d = 1" for d :: bytes using that by (simp add: read_at_def vcg)
  have tmp: "wp (read_tmp P timer 4 1 st) (\<lambda>(rc, data, st'). good S bs rs nh st' \<and> (rc = 1 \<and> length data = 1 \<or> rc = -1))"
    if "good S bs rs nh st" for st
    using that e by (intro wp_mono [OF read_tmp_safe]) auto
  have body: "wp (read_buf P timer 0 n st) (\<lambda>(rc, st'). good S bs rs nh st')" if "good S bs rs nh st" "\<not> p_max_msg_len P < n" for st n
    using that e by (intro wp_mono [OF read_buf_safe]) auto
  have publish: "wp (cycle_publish P head n timer st) (\<lambda>(rc, st'). good S bs rs nh st')"
    if "good S bs rs nh st" "\<not> p_max_msg_len P < n" for st head n
    using that e by (intro cycle_publish_safe [OF E]) auto
  show ?thesis unfolding cycle_r_def cycle_collection_def cycle_connack_def cycle_subscribe_def using inv
    by (auto simp: vcg Let_def intro!: wp_mono [OF tmp] wp_mono [OF h] wp_mono [OF decode_len_safe [OF e(1)]] wp_mono [OF skip_loop_safe [OF e(1)]]
        wp_mono [OF publish] wp_mono [OF body] wp_mono [OF keepalive_safe [OF E]])
qed


text \<open>A world that is the list of bytes still to be received.\<close>

definition stream :: "bytes sockets" where
  "stream = \<lparr>sk_recv = (\<lambda>w n. (take n w, drop n w)), sk_send = (\<lambda>w d. (int (length d), w)), sk_set_timeout = (\<lambda>w t. w)\<rparr>"

definition stream_state :: "nat \<Rightarrow> bytes \<Rightarrow> bytes mst" where
  "stream_state rs w = \<lparr>cl = (client0 [])\<lparr>c_ipstack := NetworkInit stream, c_readbuf := replicate rs 0, c_readbuf_size := rs\<rparr>, dl = [], wd = w\<rparr>"

lemma stream_env: "cycle_env stream slow_platform 64 64"
  by (simp add: cycle_env_def stream_def recv_ok_def send_whole_def slow_platform_def)



end
