(* ===== verification/Text_Util.thy ===== *)
theory Text_Util
  imports C_Base
begin

text \<open>
  The string helpers of \<open>src/arrow/utf8.c\<close>: copying up to a pattern, numbers, hexadecimal text, URL encoding and
  the check for UTF-8. A string that is only read is the list of the bytes from the pointer to the end
  of its object; a pointer into it that a function returns is the offset from the argument.
\<close>

unbundle bit_operations_syntax

section \<open>The C library\<close>

text \<open>The characters of a string literal.\<close>

definition lit :: "string \<Rightarrow> bytes" where
  "lit s = map (\<lambda>c. word_of_nat (of_char c)) s"

text \<open>\<open>strstr\<close> on the characters of two strings: the offset of the first occurrence.\<close>

fun strstr :: "bytes \<Rightarrow> bytes \<Rightarrow> nat option" where
  "strstr [] pat = (if pat = [] then Some 0 else None)"
| "strstr (c # s) pat = (if take (length pat) (c # s) = pat then Some 0 else map_option Suc (strstr s pat))"

definition is_blank :: "byte \<Rightarrow> bool" where
  "is_blank c \<longleftrightarrow> c = 32 \<or> 9 \<le> c \<and> c \<le> 13"

definition digit_val :: "nat \<Rightarrow> byte \<Rightarrow> nat option" where
  "digit_val base c =
     (let v = (if 48 \<le> c \<and> c \<le> 57 then unat c - 48
               else if 97 \<le> c \<and> c \<le> 122 then unat c - 87
               else if 65 \<le> c \<and> c \<le> 90 then unat c - 55 else base)
      in if v < base then Some v else None)"

fun digits_val :: "nat \<Rightarrow> nat \<Rightarrow> bytes \<Rightarrow> nat" where
  "digits_val base acc [] = acc"
| "digits_val base acc (c # s) = (case digit_val base c of None \<Rightarrow> acc | Some v \<Rightarrow> digits_val base (acc * base + v) s)"

text \<open>The sign and the digits of a number, as \<open>strtol\<close> reads them; in base 16 the digits may follow \<open>0x\<close>.\<close>

definition c_strtol :: "nat \<Rightarrow> bytes \<Rightarrow> int" where
  "c_strtol base s =
     (let s = dropWhile is_blank s;
          neg = (s \<noteq> [] \<and> hd s = 45);
          s = (if s \<noteq> [] \<and> (hd s = 45 \<or> hd s = 43) then tl s else s);
          s = (if base = 16 \<and> length s > 2 \<and> s ! 0 = 48 \<and> (s ! 1 = 120 \<or> s ! 1 = 88) \<and> digit_val 16 (s ! 2) \<noteq> None
               then drop 2 s else s);
          n = int (digits_val base 0 s)
      in if neg then - n else n)"

text \<open>\<open>atoi\<close> is undefined when the value is no \<open>int\<close>.\<close>

definition c_atoi :: "bytes \<Rightarrow> int option" where
  "c_atoi s = (let n = c_strtol 10 s in if - (2 ^ 31) \<le> n \<and> n < 2 ^ 31 then Some n else None)"

text \<open>\<open>snprintf\<close> to the offset \<open>off\<close> of a buffer: the full length and the buffer.\<close>

definition c_snprintf :: "bytes \<Rightarrow> nat \<Rightarrow> nat \<Rightarrow> bytes \<Rightarrow> (nat \<times> bytes) option" where
  "c_snprintf buf off n txt =
     (if n = 0 then Some (length txt, buf)
      else do { buf \<leftarrow> mem_write buf off (take (n - 1) txt @ [0]); Some (length txt, buf) })"

section \<open>Operations\<close>

text \<open>The result is the destination and the offset behind the pattern.\<close>

definition copy_till :: "bytes \<Rightarrow> bytes \<Rightarrow> bytes \<Rightarrow> (bytes \<times> nat) option option" where
  "copy_till src end_pattern dst = do {
     s \<leftarrow> cstr src;
     case strstr s end_pattern of
       None \<Rightarrow> Some None
     | Some n \<Rightarrow> do {
         dst \<leftarrow> mem_write dst 0 (take n s);
         dst \<leftarrow> write_at dst n 0;
         Some (Some (dst, n + length end_pattern))
       }
   }"

text \<open>The result is \<open>*i\<close> and the offset behind the pattern.\<close>

definition copy_till_to_int :: "bytes \<Rightarrow> bytes \<Rightarrow> (int \<times> nat) option option" where
  "copy_till_to_int src end_pattern = do {
     r \<leftarrow> copy_till src end_pattern (replicate 8 0);
     case r of
       None \<Rightarrow> Some None
     | Some (v, p) \<Rightarrow> do { t \<leftarrow> cstr v; i \<leftarrow> c_atoi t; Some (Some (i, p)) }
   }"

definition copy_till_hex_to_int :: "bytes \<Rightarrow> bytes \<Rightarrow> (int \<times> nat) option option" where
  "copy_till_hex_to_int src end_pattern = do {
     r \<leftarrow> copy_till src end_pattern (replicate 8 0);
     case r of
       None \<Rightarrow> Some None
     | Some (v, p) \<Rightarrow> do { t \<leftarrow> cstr v; Some (Some (c_strtol 16 t, p)) }
   }"

definition url_hex :: bytes where
  "url_hex = lit ''0123456789abcdef''"

definition url_plain :: "byte \<Rightarrow> bool" where
  "url_plain c \<longleftrightarrow> 97 \<le> c \<and> c \<le> 122 \<or> 65 \<le> c \<and> c \<le> 90 \<or> 48 \<le> c \<and> c \<le> 57 \<or> c = 45 \<or> c = 95"

text \<open>The characters written for one character; the table is indexed with the value of a plain \<open>char\<close>
  shifted by four bits, which is negative for a negative \<open>char\<close>.\<close>

definition url_char :: "bool \<Rightarrow> byte \<Rightarrow> bytes option" where
  "url_char schar c =
     (if url_plain c then Some [c]
      else if char_int schar c < 0 then None
      else do {
        h \<leftarrow> read_at url_hex (unat (drop_bit 4 c));
        l \<leftarrow> read_at url_hex (unat (c AND 15));
        Some [37, h, l]
      })"

fun url_chars :: "bool \<Rightarrow> bytes \<Rightarrow> nat \<Rightarrow> bytes option" where
  "url_chars schar src 0 = Some []"
| "url_chars schar [] (Suc n) = None"
| "url_chars schar (c # src) (Suc n) = do { x \<leftarrow> url_char schar c; r \<leftarrow> url_chars schar src n; Some (x @ r) }"

definition urlencode :: "bool \<Rightarrow> bytes \<Rightarrow> bytes \<Rightarrow> nat \<Rightarrow> bytes option" where
  "urlencode schar dst src len = do {
     len \<leftarrow> (if len = 0 then map_option length (cstr src) else Some len);
     t \<leftarrow> url_chars schar src len;
     mem_write dst 0 (t @ [0])
   }"

text \<open>\<open>sprintf(dst + i * 2, "%02x", c)\<close> writes two digits and a terminator.\<close>

definition hex2 :: "byte \<Rightarrow> bytes" where
  "hex2 c = [url_hex ! (unat c div 16), url_hex ! (unat c mod 16)]"

fun hex_encode_loop :: "bytes \<Rightarrow> bytes \<Rightarrow> nat \<Rightarrow> nat \<Rightarrow> bytes option" where
  "hex_encode_loop dst src i 0 = Some dst"
| "hex_encode_loop dst src i (Suc n) = do {
     c \<leftarrow> read_at src i;
     dst \<leftarrow> mem_write dst (i * 2) (hex2 c @ [0]);
     hex_encode_loop dst src (i + 1) n
   }"

definition hex_encode :: "bytes \<Rightarrow> bytes \<Rightarrow> int \<Rightarrow> bytes option" where
  "hex_encode dst src n = hex_encode_loop dst src 0 (nat n)"

fun hex_decode_loop :: "bytes \<Rightarrow> bytes \<Rightarrow> nat \<Rightarrow> nat \<Rightarrow> bytes option" where
  "hex_decode_loop dst src i 0 = Some dst"
| "hex_decode_loop dst src i (Suc n) = do {
     a \<leftarrow> read_at src (i * 2);
     b \<leftarrow> read_at src (i * 2 + 1);
     d \<leftarrow> cstr [a, b, 0];
     dst \<leftarrow> write_at dst i (word_of_int (c_strtol 16 d));
     hex_decode_loop dst src (i + 1) n
   }"

definition hex_decode :: "bytes \<Rightarrow> bytes \<Rightarrow> int \<Rightarrow> bytes option" where
  "hex_decode dst src n = hex_decode_loop dst src 0 (nat n)"

text \<open>The check of one character. The pointer is advanced only after the first byte has been tested as if
  it were the second.\<close>

definition utf8_char_len :: "bytes \<Rightarrow> nat option" where
  "utf8_char_len s = do {
     c \<leftarrow> read_at s 0;
     if c > 0x1F \<and> c \<le> 0x7F then Some 1
     else if c \<le> 0xC1 then Some 0
     else if c \<le> 0xDF then (if c AND 0xC0 \<noteq> 0x80 then Some 0 else Some 2)
     else if c \<le> 0xEF then
       (if c = 0xE0 \<and> c < 0xA0 then Some 0
        else if c = 0xED \<and> c > 0x9F then Some 0
        else if c AND 0xC0 \<noteq> 0x80 then Some 0
        else do { d \<leftarrow> read_at s 1; if d AND 0xC0 \<noteq> 0x80 then Some 0 else Some 3 })
     else if c \<le> 0xF4 then
       (if c = 0xF0 \<and> c < 0x90 then Some 0
        else if c = 0xF4 \<and> c > 0x8F then Some 0
        else if c AND 0xC0 \<noteq> 0x80 then Some 0
        else do {
          d \<leftarrow> read_at s 1;
          if d AND 0xC0 \<noteq> 0x80 then Some 0
          else do { e \<leftarrow> read_at s 2; if e AND 0xC0 \<noteq> 0x80 then Some 0 else Some 4 }
        })
     else Some 0
   }"

partial_function (option) utf8check :: "bytes \<Rightarrow> int option" where
  "utf8check s = do {
     c \<leftarrow> read_at s 0;
     if c = 0 then Some 1
     else do {
       len \<leftarrow> utf8_char_len s;
       if len = 0 then Some 0 else utf8check (drop len s)
     }
   }"

section \<open>Searching and copying\<close>

lemma length_dec_digits: "n < 10 ^ k \<Longrightarrow> 0 < k \<Longrightarrow> length (dec_digits n) \<le> k"
proof (induction k arbitrary: n)
  case (Suc k)
  show ?case
  proof (cases "n < 10")
    case False
    then have "0 < k" using Suc.prems by (cases k) auto
    moreover have "n div 10 < 10 ^ k" using Suc.prems by (simp add: less_mult_imp_div_less mult.commute)
    ultimately show ?thesis using False Suc.IH [of "n div 10"] by (simp add: dec_digits.simps [of n])
  qed (simp add: dec_digits.simps)
qed simp

lemma digits_val_snoc:
  assumes "\<forall>c \<in> set xs. digit_val b c \<noteq> None" and "digit_val b d = Some v"
  shows "digits_val b acc (xs @ [d]) = digits_val b acc xs * b + v"
  using assms by (induction xs arbitrary: acc) auto

lemma dec_digit:
  assumes "k < 10"
  shows "digit_val 10 (word_of_nat (48 + k)) = Some k" and "(word_of_nat (48 + k) :: byte) \<in> {48..57}"
proof -
  have "list_all (\<lambda>k. digit_val 10 (word_of_nat (48 + k)) = Some k \<and> 48 \<le> (word_of_nat (48 + k) :: byte) \<and> (word_of_nat (48 + k) :: byte) \<le> 57) [0..<10]"
    by code_simp
  with assms show "digit_val 10 (word_of_nat (48 + k)) = Some k" "(word_of_nat (48 + k) :: byte) \<in> {48..57}" by (auto simp: list_all_iff)
qed

lemma dec_digits_are: "c \<in> set (dec_digits n) \<Longrightarrow> \<exists>k < 10. c = word_of_nat (48 + k)"
proof (induction n rule: dec_digits.induct)
  case (1 n)
  from "1.prems" have "c = word_of_nat (48 + n mod 10) \<or> \<not> n < 10 \<and> c \<in> set (dec_digits (n div 10))"
    by (auto simp: dec_digits.simps [of n] split: if_splits)
  then show ?case using "1.IH" by (metis mod_less_divisor zero_less_numeral)
qed

lemma dec_digits_val: "digits_val 10 0 (dec_digits n) = n"
proof (induction n rule: dec_digits.induct)
  case (1 n)
  show ?case
  proof (cases "n < 10")
    case True
    then show ?thesis using dec_digit [of n] by (simp add: dec_digits.simps)
  next
    case False
    have "\<forall>c \<in> set (dec_digits (n div 10)). digit_val 10 c \<noteq> None" using dec_digits_are dec_digit(1) by fastforce
    from digits_val_snoc [OF this dec_digit(1) [of "n mod 10"], of 0] 1 [OF False] False show ?thesis by (subst dec_digits.simps) simp
  qed
qed

lemma digits_val_zeros: "digits_val 10 0 (replicate k 48 @ s) = digits_val 10 0 s"
  by (induction k) (simp_all add: digit_val_def)

text \<open>The decimal text of a number, with leading zeros or not.\<close>

lemma pad_zero_chars: "c \<in> set (pad_zero w (dec_digits n)) \<Longrightarrow> 48 \<le> c \<and> c \<le> 57"
proof -
  assume "c \<in> set (pad_zero w (dec_digits n))"
  then consider "c = 48" | k where "k < 10" "c = word_of_nat (48 + k)" using dec_digits_are [of c n] by (auto simp: pad_zero_def)
  then show ?thesis by cases (use dec_digit(2) in simp_all)
qed

lemma atoi_digits:
  assumes "n < 2 ^ 31"
  shows "c_atoi (pad_zero w (dec_digits n)) = Some (int n)"
proof -
  let ?s = "pad_zero w (dec_digits n)"
  have c: "\<not> is_blank c \<and> c \<noteq> 45 \<and> c \<noteq> 43" if "c \<in> set ?s" for c
    using pad_zero_chars [OF that] by (auto simp: is_blank_def word_le_nat_alt)
  have ne: "?s \<noteq> []" by (simp add: pad_zero_def dec_digits.simps [of n])
  with c have "dropWhile is_blank ?s = ?s" by (simp add: dropWhile_eq_self_iff)
  moreover have "hd ?s \<noteq> 45" "hd ?s \<noteq> 43" using c [OF hd_in_set [OF ne]] by auto
  moreover have "digits_val 10 0 ?s = n" by (simp add: pad_zero_def digits_val_zeros dec_digits_val)
  ultimately show ?thesis using assms by (simp add: c_atoi_def c_strtol_def Let_def)
qed

lemma strstr_SomeD: "strstr s pat = Some n \<Longrightarrow> n \<le> length s \<and> take (length pat) (drop n s) = pat"
  by (induction s pat arbitrary: n rule: strstr.induct) (auto split: if_splits)

text \<open>The first occurrence of a pattern behind a prefix that does not contain its first character.\<close>

lemma strstr_first:
  assumes "p \<notin> set x"
  shows "strstr (x @ (p # pat) @ y) (p # pat) = Some (length x)"
  using assms by (induction x) auto

lemma strstr_none: "p \<notin> set s \<Longrightarrow> strstr s (p # pat) = None"
  by (induction s) auto

lemma copy_till_copies:
  assumes "p \<notin> set x" and "0 \<notin> set (x @ (p # pat) @ y)" and "length x < length dst"
  shows "copy_till (x @ (p # pat) @ y @ 0 # rest) (p # pat) dst =
    Some (Some (x @ 0 # drop (length x + 1) dst, length x + length (p # pat)))"
proof -
  have s: "cstr (x @ (p # pat) @ y @ 0 # rest) = Some (x @ (p # pat) @ y)"
    using cstr_terminated [OF assms(2), of rest] by simp
  obtain d ds where d: "drop (length x) dst = d # ds" using assms(3) by (cases "drop (length x) dst") auto
  have ds: "drop (length x + 1) dst = ds" using d by (metis drop_ConsD(3) Suc_eq_plus1)
  have "mem_write dst 0 x = Some (x @ d # ds)" using assms(3) d by (simp add: mem_write_def)
  then show ?thesis unfolding copy_till_def s using strstr_first [OF assms(1), of pat y] ds by (simp add: write_at_def)
qed

lemma copy_till_missing:
  assumes "p \<notin> set s" and "0 \<notin> set s"
  shows "copy_till (s @ 0 # rest) (p # pat) dst = Some None"
  using assms by (simp add: copy_till_def cstr_terminated strstr_none)


section \<open>Hexadecimal text\<close>

lemma length_hex2 [simp]: "length (hex2 c) = 2"
  by (simp add: hex2_def)

definition hex_text :: "bytes \<Rightarrow> bytes" where
  "hex_text bs = concat (map hex2 bs)"

lemma hex_text_simps [simp]: "hex_text [] = []" "hex_text (b # bs) = hex2 b @ hex_text bs" "length (hex_text bs) = 2 * length bs"
  by (induction bs) (simp_all add: hex_text_def)

lemma hex_encode_loop_writes:
  "length A = 2 * i \<Longrightarrow> 2 * n < length M \<Longrightarrow> i + n \<le> length src \<Longrightarrow>
   hex_encode_loop (A @ M) src i n = Some (A @ (if n = 0 then M else hex_text (take n (drop i src)) @ 0 # drop (2 * n + 1) M))"
proof (induction n arbitrary: A M i)
  case (Suc n)
  define c where "c = src ! i"
  have c: "drop i src = c # drop (Suc i) src" "read_at src i = Some c"
    using Suc.prems(3) by (simp_all add: Cons_nth_drop_Suc c_def read_at_def)
  obtain M1 M2 where M: "M = M1 @ M2" "length M1 = 3" "2 * n \<le> length M2"
    using Suc.prems(2) by (intro that [of "take 3 M" "drop 3 M"]) auto
  have w: "mem_write (A @ M) (i * 2) (hex2 c @ [0]) = Some ((A @ hex2 c) @ 0 # M2)"
    using Suc.prems(1) M by (simp add: mem_write_def)
  have "hex_encode_loop ((A @ hex2 c) @ 0 # M2) src (i + 1) n =
      Some ((A @ hex2 c) @ (if n = 0 then 0 # M2 else hex_text (take n (drop (i + 1) src)) @ 0 # drop (2 * n + 1) (0 # M2)))"
    using Suc.prems M by (intro Suc.IH) auto
  moreover have "drop (2 * Suc n + 1) M = drop (2 * n) M2" using M by simp
  ultimately show ?case using c w by simp
qed simp

lemma url_hex_digits: "url_hex = [48, 49, 50, 51, 52, 53, 54, 55, 56, 57, 97, 98, 99, 100, 101, 102]"
  by (simp add: url_hex_def lit_def)

lemma url_hex_value:
  assumes "n < 16"
  shows "digit_val 16 (url_hex ! n) = Some n \<and> \<not> is_blank (url_hex ! n) \<and> url_hex ! n \<notin> {0, 43, 45}"
proof -
  have "list_all (\<lambda>n. digit_val 16 (url_hex ! n) = Some n \<and> \<not> is_blank (url_hex ! n) \<and> url_hex ! n \<notin> {0, 43, 45}) [0..<16]"
    by (simp add: url_hex_digits upt_conv_Cons digit_val_def is_blank_def)
  with assms show ?thesis by (simp add: list_all_iff)
qed

lemma hex2_value: "c_strtol 16 (hex2 c) = int (unat c)" "0 \<notin> set (hex2 c)"
proof -
  define a b where "a = unat c div 16" and "b = unat c mod 16"
  have ab: "a < 16" "b < 16" unfolding a_def b_def using byte_bound [of c] by linarith simp
  obtain x y where h: "url_hex ! a = x" "url_hex ! b = y" by blast
  have x: "digit_val 16 x = Some a" "\<not> is_blank x" "x \<noteq> 43" "x \<noteq> 45" "x \<noteq> 0" and y: "digit_val 16 y = Some b" "y \<noteq> 0"
    using url_hex_value [OF ab(1)] url_hex_value [OF ab(2)] h by auto
  have "c_strtol 16 [x, y] = int (a * 16 + b)" using x y by (simp add: c_strtol_def)
  also have "a * 16 + b = unat c" unfolding a_def b_def by (rule div_mult_mod_eq)
  finally show "c_strtol 16 (hex2 c) = int (unat c)" by (simp add: hex2_def h flip: a_def b_def)
  show "0 \<notin> set (hex2 c)" using x y by (auto simp: hex2_def h simp flip: a_def b_def)
qed

lemma hex_decode_loop_reads:
  "drop (2 * i) src = hex_text bs @ rest \<Longrightarrow> length A = i \<Longrightarrow> length bs \<le> length M \<Longrightarrow>
   hex_decode_loop (A @ M) src i (length bs) = Some (A @ bs @ drop (length bs) M)"
proof (induction bs arbitrary: A M i)
  case (Cons b bs)
  obtain x y where h: "hex2 b = [x, y]" by (simp add: hex2_def)
  obtain d M' where M: "M = d # M'" using Cons.prems(3) by (cases M) auto
  have "drop (2 * i) src = x # y # hex_text bs @ rest" using Cons.prems(1) h by simp
  note d = drop_ConsD [OF this] drop_ConsD [OF drop_ConsD(3) [OF this]]
  have r: "read_at src (i * 2) = Some x" "read_at src (i * 2 + 1) = Some y" using d by (simp_all add: read_at_def mult.commute)
  have c: "cstr [x, y, 0] = Some [x, y]" using hex2_value(2) [of b] h cstr_terminated [of "[x, y]" "[]"] by simp
  have w: "write_at (A @ M) i (word_of_int (c_strtol 16 [x, y])) = Some ((A @ [b]) @ M')"
    using hex2_value(1) [of b] h M Cons.prems(2) by (simp add: write_at_def list_update_append)
  have "drop (2 * (i + 1)) src = hex_text bs @ rest" using d(6) by simp
  with Cons.IH [of "i + 1" "A @ [b]" M'] Cons.prems M
  have "hex_decode_loop ((A @ [b]) @ M') src (i + 1) (length bs) = Some ((A @ [b]) @ bs @ drop (length bs) M')" by simp
  with r c w M show ?case by simp
qed simp

lemma hex_encode_writes:
  assumes "0 < n" and "2 * n < length dst" and "n \<le> length src"
  shows "hex_encode dst src (int n) = Some (hex_text (take n src) @ 0 # drop (2 * n + 1) dst)"
  using hex_encode_loop_writes [of "[]" 0 n dst src] assms by (simp add: hex_encode_def)

text \<open>Hexadecimal text: encoding \<open>n\<close> bytes into a buffer of at least \<open>2 n + 1\<close> bytes and decoding the text
  again gives the bytes back; both directions write nothing else but the terminator.\<close>

theorem hex_roundtrip:
  assumes "0 < n" and "2 * n < length dst" and "n \<le> length src" and "n \<le> length out"
  shows "\<exists>txt. hex_encode dst src (int n) = Some txt \<and> drop (2 * n + 1) txt = drop (2 * n + 1) dst \<and>
    hex_decode out txt (int n) = Some (take n src @ drop n out)"
proof -
  let ?t = "hex_text (take n src) @ 0 # drop (2 * n + 1) dst"
  have "hex_decode out ?t (int n) = Some (take n src @ drop n out)"
    using hex_decode_loop_reads [of 0 ?t "take n src" "0 # drop (2 * n + 1) dst" "[]" out] assms by (simp add: hex_decode_def min_absorb2)
  then show ?thesis using hex_encode_writes [OF assms(1-3)] assms(3) by (intro exI [of _ ?t]) (simp add: min_absorb2)
qed

theorem hex_roundtrip_witness:
  "\<exists>txt. hex_encode (replicate 9 7) [0, 171, 255] (int 2) = Some txt \<and> hex_decode [1, 1, 1] txt (int 2) = Some [0, 171, 1]"
  using hex_roundtrip [of 2 "replicate 9 7" "[0, 171, 255]" "[1, 1, 1]"] by auto

section \<open>The check for UTF-8\<close>

lemma leading_byte:
  assumes "\<not> (c :: byte) \<le> 0xC1"
  shows "c AND 0xC0 \<noteq> 0x80"
proof -
  have "list_all (\<lambda>n. (word_of_nat n :: byte) AND 0xC0 \<noteq> 0x80) [194..<256]" by code_simp
  moreover have "unat c \<in> {194..<256}" using assms byte_bound [of c] by (simp add: word_le_nat_alt)
  ultimately have "(word_of_nat (unat c) :: byte) AND 0xC0 \<noteq> 0x80" unfolding list_all_iff by (metis set_upt)
  then show ?thesis by simp
qed

lemma utf8_char_len_ascii: "utf8_char_len (c # s) = Some (if 0x20 \<le> c \<and> c \<le> 0x7F then 1 else 0)"
proof (cases "c \<le> 0xC1")
  case True
  have "0x1F < c \<longleftrightarrow> 0x20 \<le> c" by (simp add: word_le_nat_alt word_less_nat_alt) linarith
  with True show ?thesis by (simp add: utf8_char_len_def read_at_def)
next
  case False
  then have "\<not> c \<le> 0x7F" by (simp add: word_le_nat_alt)
  with False leading_byte [OF False] show ?thesis by (simp add: utf8_char_len_def read_at_def)
qed

text \<open>The check for UTF-8 accepts exactly the strings of printable ASCII characters and DEL: it ends on
  every terminated string, and rejects every character of more than one byte, because it tests the
  leading byte in place of the continuation bytes.\<close>

theorem utf8check_accepts_ascii:
  assumes "0 \<notin> set s"
  shows "utf8check (s @ 0 # rest) = Some (if \<forall>c \<in> set s. 0x20 \<le> c \<and> c \<le> 0x7F then 1 else 0)"
  using assms
proof (induction s)
  case Nil
  then show ?case by (simp add: utf8check.simps read_at_def)
next
  case (Cons c s)
  with utf8_char_len_ascii [of c "s @ 0 # rest"] show ?case by (subst utf8check.simps) (auto simp: read_at_def)
qed

theorem utf8check_accepts_ascii_witness: "utf8check [65, 0xC3, 0xA4, 0] = Some 0"
  using utf8check_accepts_ascii [of "[65, 0xC3, 0xA4]" "[]"] by simp

end
