(* ===== verification/Http_Request.thy ===== *)
theory Http_Request
  imports Prop_Map Text_Util
begin

text \<open>
  Requests and responses of the HTTP client: \<open>src/http/request.c\<close> and \<open>src/http/response.c\<close> (without
  \<open>STATIC_HTTP_CLIENT\<close>). Their strings are properties, their headers and query parameters property maps.

  The environment holds the allocators, the registered property types and the addresses of string
  literals and of the global \<open>tmpbuffer\<close>. A handler for the payload of a response is a null pointer, one of the two default functions
  or a function of the application that gets the bytes and changes the outside world.
\<close>

section \<open>Data\<close>

record http_env =
  he_libc :: libc
  he_node :: "prop_state \<Rightarrow> nat option"
  he_disp :: dispatchers
  he_lit :: "string \<Rightarrow> nat"
  he_tmp :: nat

datatype 'w payload_handler = Null_handler | Default_set | Default_add | Custom_handler "bytes \<Rightarrow> 'w \<Rightarrow> int \<times> 'w"

text \<open>\<open>_p_set_handler\<close> and \<open>_p_add_handler\<close>.\<close>

record 'w payload_meth =
  p_set_handler :: "'w payload_handler"
  p_add_handler :: "'w payload_handler"

record 'w http_request =
  q_meth :: property_t
  q_scheme :: property_t
  q_host :: property_t
  q_uri :: property_t
  q_port :: "16 word"
  q_is_corrupt :: int
  q_is_cipher :: int
  q_is_chunked :: int
  q_header :: "nat option"
  q_content_type :: "property_t \<times> property_t"
  q_query :: "nat option"
  q_payload :: property_t
  q_payload_meth :: "'w payload_meth"

record 'w http_response =
  r_code :: "16 word"
  r_is_chunked :: "16 word"
  r_content_length :: "32 word"
  r_header :: "nat option"
  r_content_type :: "property_t \<times> property_t"
  r_payload :: property_t
  r_payload_meth :: "'w payload_meth"
  r_processed :: int

text \<open>The constructors of properties read the length of their string.\<close>

definition p_const :: "blocks \<Rightarrow> nat option \<Rightarrow> property_t option" where
  "p_const m x = do { s \<leftarrow> str_at m x; Some \<lparr>p_value = x, p_flags = PROPERTY_CONST_TAG OR is_owner, p_size = word_of_nat (length s)\<rparr> }"

definition p_heap :: "blocks \<Rightarrow> nat option \<Rightarrow> property_t option" where
  "p_heap m x = do { s \<leftarrow> str_at m x; Some \<lparr>p_value = x, p_flags = PROPERTY_DYNAMIC_TAG OR is_owner, p_size = word_of_nat (length s)\<rparr> }"

definition p_stack_raw :: "nat option \<Rightarrow> nat \<Rightarrow> property_t" where
  "p_stack_raw x n = \<lparr>p_value = x, p_flags = PROPERTY_STACK_TAG OR is_owner OR is_raw, p_size = word_of_nat n\<rparr>"

section \<open>Requests\<close>

definition METH_str :: "string list" where
  "METH_str = [''GET'', ''POST'', ''PUT'', ''DELETE'', ''HEAD'']"

definition Scheme_str :: "string list" where
  "Scheme_str = [''http'', ''https'']"

definition get_METH :: "int \<Rightarrow> string option" where
  "get_METH i = (if 0 \<le> i \<and> i < 5 then Some (METH_str ! nat i) else None)"

definition get_Scheme :: "int \<Rightarrow> string option" where
  "get_Scheme i = (if 0 \<le> i \<and> i < 2 then Some (Scheme_str ! nat i) else None)"

text \<open>The first scheme whose first \<open>n\<close> characters agree, or -1.\<close>

fun cmp_n :: "string list \<Rightarrow> int \<Rightarrow> bytes \<Rightarrow> nat \<Rightarrow> int option" where
  "cmp_n [] i str n = Some (-1)"
| "cmp_n (x # xs) i str n = do {
     r \<leftarrow> strncmp str (lit x @ [0]) n;
     if r = 0 then Some i else cmp_n xs (i + 1) str n
   }"

definition cmp_n_Scheme :: "bytes \<Rightarrow> nat \<Rightarrow> int option" where
  "cmp_n_Scheme str n = cmp_n Scheme_str 0 str n"

definition lit_addr :: "http_env \<Rightarrow> string option \<Rightarrow> nat option" where
  "lit_addr E s = map_option (he_lit E) s"

text \<open>\<open>property_copy\<close> of a constant.\<close>

definition copy_const :: "http_env \<Rightarrow> blocks \<Rightarrow> nat option \<Rightarrow> (blocks \<times> property_t) option" where
  "copy_const E m x = do { p \<leftarrow> p_const m x; property_copy (he_libc E) (he_disp E) m p }"

text \<open>\<open>property_copy\<close> of a stack string that lies inside another string: its characters are duplicated.\<close>

definition copy_stack :: "http_env \<Rightarrow> blocks \<Rightarrow> bytes \<Rightarrow> blocks \<times> property_t" where
  "copy_stack E m s =
     (case get_property_type (he_disp E) (p_stack_raw None 0) of
        None \<Rightarrow> (m, p_null)
      | Some _ \<Rightarrow> (case new_string (he_libc E) m s of (v, m) \<Rightarrow>
          (m, \<lparr>p_value = v, p_flags = is_owner OR PROPERTY_DYNAMIC_TAG, p_size = word_of_nat (length s)\<rparr>)))"

text \<open>The part behind the scheme: host, port and path. \<open>rest\<close> are the characters from \<open>host_start\<close> on.\<close>

definition request_address :: "http_env \<Rightarrow> prop_state \<Rightarrow> 'w http_request \<Rightarrow> bytes \<Rightarrow> (prop_state \<times> 'w http_request) option" where
  "request_address E st req rest =
     (case strstr rest (lit '':'') of
        None \<Rightarrow> Some (st, req\<lparr>q_is_corrupt := 1\<rparr>)
      | Some n \<Rightarrow>
          (case c_malloc (he_libc E) (ps_blocks st) (n + 1) of (v, m) \<Rightarrow> do {
             a \<leftarrow> v;
             blk \<leftarrow> m a;
             blk \<leftarrow> mem_write blk 0 (take n rest);
             blk \<leftarrow> write_at blk n 0;
             let m = m(a \<mapsto> blk);
             host \<leftarrow> p_heap m v;
             let req = req\<lparr>q_host := host\<rparr>;
             r \<leftarrow> copy_till_to_int (drop (n + 1) rest @ [0]) (lit ''/'');
             case r of
               None \<Rightarrow> Some (st\<lparr>ps_blocks := m\<rparr>, req\<lparr>q_is_corrupt := 1\<rparr>)
             | Some (port, off) \<Rightarrow>
                 (case copy_stack E m (drop (n + 1 + off - 1) rest) of (m, uri) \<Rightarrow>
                    Some (st\<lparr>ps_blocks := m\<rparr>, req\<lparr>q_port := word_of_int port, q_uri := uri, q_header := None, q_query := None,
                      q_is_chunked := 0, q_payload := p_null, q_content_type := (p_null, p_null), q_payload_meth := \<lparr>p_set_handler = Default_set, p_add_handler = Default_add\<rparr>\<rparr>))
           }))"

definition http_request_init :: "http_env \<Rightarrow> prop_state \<Rightarrow> 'w http_request \<Rightarrow> int \<Rightarrow> bytes \<Rightarrow> (prop_state \<times> 'w http_request) option" where
  "http_request_init E st req meth url = do {
     u \<leftarrow> cstr url;
     let req = req\<lparr>q_is_corrupt := 0, q_meth := p_null, q_scheme := p_null, q_host := p_null, q_uri := p_null, q_payload := p_null\<rparr>;
     (m, p) \<leftarrow> copy_const E (ps_blocks st) (lit_addr E (get_METH meth));
     let st = st\<lparr>ps_blocks := m\<rparr>;
     let req = req\<lparr>q_meth := p\<rparr>;
     case strstr u (lit ''://'') of
       None \<Rightarrow> Some (st, req\<lparr>q_is_corrupt := 1\<rparr>)
     | Some n \<Rightarrow> do {
         sch \<leftarrow> cmp_n_Scheme url n;
         (m, p) \<leftarrow> copy_const E (ps_blocks st) (lit_addr E (get_Scheme sch));
         request_address E (st\<lparr>ps_blocks := m\<rparr>) (req\<lparr>q_scheme := p, q_is_cipher := sch\<rparr>) (drop (n + 3) u)
       }
   }"

definition request_zero :: "'w http_request" where
  "request_zero = \<lparr>q_meth = p_null, q_scheme = p_null, q_host = p_null, q_uri = p_null, q_port = 0, q_is_corrupt = 0, q_is_cipher = 0,
     q_is_chunked = 0, q_header = None, q_content_type = (p_null, p_null), q_query = None, q_payload = p_null, q_payload_meth = \<lparr>p_set_handler = Null_handler, p_add_handler = Null_handler\<rparr>\<rparr>"

fun free_properties :: "http_env \<Rightarrow> blocks \<Rightarrow> property_t list \<Rightarrow> blocks option" where
  "free_properties E m [] = Some m"
| "free_properties E m (p # ps) = do { (m, _) \<leftarrow> property_free (he_disp E) m p; free_properties E m ps }"

definition http_request_close :: "http_env \<Rightarrow> prop_state \<Rightarrow> 'w http_request \<Rightarrow> (prop_state \<times> 'w http_request) option" where
  "http_request_close E st req = do {
     m \<leftarrow> free_properties E (ps_blocks st) [q_meth req, q_scheme req, q_host req, q_uri req, q_payload req];
     (_, st, _) \<leftarrow> property_map_clear (he_disp E) (st\<lparr>ps_blocks := m\<rparr>) (q_header req);
     (_, st, _) \<leftarrow> property_map_clear (he_disp E) st (q_query req);
     m \<leftarrow> free_properties E (ps_blocks st) [snd (q_content_type req), fst (q_content_type req)];
     Some (st\<lparr>ps_blocks := m\<rparr>, request_zero)
   }"

definition http_request_add_header :: "http_env \<Rightarrow> prop_state \<Rightarrow> 'w http_request \<Rightarrow> property_t \<Rightarrow> property_t \<Rightarrow> (prop_state \<times> 'w http_request) option" where
  "http_request_add_header E st req key val = do {
     (_, st, root) \<leftarrow> property_map_add (he_libc E) (he_node E) (he_disp E) st (q_header req) key val;
     Some (st, req\<lparr>q_header := root\<rparr>)
   }"

definition http_request_set_header :: "http_env \<Rightarrow> prop_state \<Rightarrow> 'w http_request \<Rightarrow> property_t \<Rightarrow> property_t \<Rightarrow> prop_state option" where
  "http_request_set_header E st req key val = do {
     (_, st) \<leftarrow> property_map_assign (he_libc E) (he_disp E) st (q_header req) key val;
     Some st
   }"

text \<open>The value is copied when \<open>want\<close> (the pointer for it is not null).\<close>

definition http_request_find_header ::
    "http_env \<Rightarrow> prop_state \<Rightarrow> 'w http_request \<Rightarrow> property_t \<Rightarrow> bool \<Rightarrow> (int \<times> property_t option \<times> prop_state) option" where
  "http_request_find_header E st req key want = do {
     fm \<leftarrow> property_map_find st (q_header req) key;
     case fm of
       None \<Rightarrow> Some (-1, None, st)
     | Some a \<Rightarrow>
         if want then do {
           (_, v) \<leftarrow> ps_data st a;
           (m, c) \<leftarrow> property_copy (he_libc E) (he_disp E) (ps_blocks st) v;
           Some (0, Some c, st\<lparr>ps_blocks := m\<rparr>)
         }
         else Some (0, None, st)
   }"

definition http_request_add_query :: "http_env \<Rightarrow> prop_state \<Rightarrow> 'w http_request \<Rightarrow> property_t \<Rightarrow> property_t \<Rightarrow> (prop_state \<times> 'w http_request) option" where
  "http_request_add_query E st req key val = do {
     (_, st, root) \<leftarrow> property_map_add (he_libc E) (he_node E) (he_disp E) st (q_query req) key val;
     Some (st, req\<lparr>q_query := root\<rparr>)
   }"

definition http_request_set_content_type :: "http_env \<Rightarrow> prop_state \<Rightarrow> 'w http_request \<Rightarrow> property_t \<Rightarrow> ('w http_request) option" where
  "http_request_set_content_type E st req val = do {
     k \<leftarrow> p_const (ps_blocks st) (Some (he_lit E ''Content-Type''));
     Some (req\<lparr>q_content_type := (k, val)\<rparr>)
   }"

definition http_request_set_payload :: "http_env \<Rightarrow> prop_state \<Rightarrow> 'w http_request \<Rightarrow> property_t \<Rightarrow> (prop_state \<times> 'w http_request) option" where
  "http_request_set_payload E st req payload = do {
     (m, dst, _) \<leftarrow> property_move (he_libc E) (he_disp E) (ps_blocks st) (q_payload req) payload;
     Some (st\<lparr>ps_blocks := m\<rparr>, req\<lparr>q_payload := dst\<rparr>)
   }"

text \<open>The list of query conditions: keys that are not valid are left out.\<close>

fun http_request_set_findby :: "http_env \<Rightarrow> prop_state \<Rightarrow> 'w http_request \<Rightarrow> (int \<times> property_t) list \<Rightarrow> (int \<times> prop_state \<times> 'w http_request) option" where
  "http_request_set_findby E st req [] = Some (0, st, req)"
| "http_request_set_findby E st req ((key, val) # fb) =
     (if find_by_validate_key (Some key) = 0 then do {
        name \<leftarrow> get_find_by_name key;
        k \<leftarrow> p_const (ps_blocks st) (lit_addr E name);
        (st, req) \<leftarrow> http_request_add_query E st req k val;
        http_request_set_findby E st req fb
      }
      else http_request_set_findby E st req fb)"

section \<open>Responses\<close>

definition response_zero :: "'w http_response" where
  "response_zero = \<lparr>r_code = 0, r_is_chunked = 0, r_content_length = 0, r_header = None, r_content_type = (p_null, p_null),
     r_payload = p_null, r_payload_meth = \<lparr>p_set_handler = Null_handler, p_add_handler = Null_handler\<rparr>, r_processed = 0\<rparr>"

definition http_response_init :: "'w payload_meth \<Rightarrow> 'w http_response" where
  "http_response_init h = response_zero\<lparr>r_payload_meth := h\<rparr>"

definition http_response_free :: "http_env \<Rightarrow> prop_state \<Rightarrow> 'w http_response \<Rightarrow> (prop_state \<times> 'w http_response) option" where
  "http_response_free E st res = do {
     m \<leftarrow> free_properties E (ps_blocks st) [r_payload res];
     (_, st, _) \<leftarrow> property_map_clear (he_disp E) (st\<lparr>ps_blocks := m\<rparr>) (r_header res);
     m \<leftarrow> free_properties E (ps_blocks st) [snd (r_content_type res), fst (r_content_type res)];
     Some (st\<lparr>ps_blocks := m\<rparr>, response_zero)
   }"

definition http_response_add_header :: "http_env \<Rightarrow> prop_state \<Rightarrow> 'w http_response \<Rightarrow> property_t \<Rightarrow> property_t \<Rightarrow> (prop_state \<times> 'w http_response) option" where
  "http_response_add_header E st res key val = do {
     (_, st, root) \<leftarrow> property_map_add (he_libc E) (he_node E) (he_disp E) st (r_header res) key val;
     Some (st, res\<lparr>r_header := root\<rparr>)
   }"

definition http_response_set_content_type :: "http_env \<Rightarrow> prop_state \<Rightarrow> 'w http_response \<Rightarrow> property_t \<Rightarrow> (prop_state \<times> 'w http_response) option" where
  "http_response_set_content_type E st res val = do {
     k \<leftarrow> p_const (ps_blocks st) (Some (he_lit E ''Content-Type''));
     (m, v) \<leftarrow> property_copy (he_libc E) (he_disp E) (ps_blocks st) val;
     Some (st\<lparr>ps_blocks := m\<rparr>, res\<lparr>r_content_type := (k, v)\<rparr>)
   }"

definition default_set_payload_handler :: "http_env \<Rightarrow> prop_state \<Rightarrow> 'w http_response \<Rightarrow> property_t \<Rightarrow> (int \<times> prop_state \<times> 'w http_response) option" where
  "default_set_payload_handler E st res buf = do {
     (m, dst, _) \<leftarrow> property_move (he_libc E) (he_disp E) (ps_blocks st) (r_payload res) buf;
     Some (0, st\<lparr>ps_blocks := m\<rparr>, res\<lparr>r_payload := dst\<rparr>)
   }"

definition default_add_payload_handler :: "http_env \<Rightarrow> prop_state \<Rightarrow> 'w http_response \<Rightarrow> property_t \<Rightarrow> (int \<times> prop_state \<times> 'w http_response) option" where
  "default_add_payload_handler E st res payload =
     (if p_value (r_payload res) = None then do {
        (m, dst, _) \<leftarrow> property_move (he_libc E) (he_disp E) (ps_blocks st) (r_payload res) payload;
        Some (0, st\<lparr>ps_blocks := m\<rparr>, res\<lparr>r_payload := dst\<rparr>)
      }
      else do {
        (_, m, dst) \<leftarrow> property_concat (he_libc E) (he_disp E) (ps_blocks st) (r_payload res) payload;
        Some (0, st\<lparr>ps_blocks := m\<rparr>, res\<lparr>r_payload := dst\<rparr>)
      })"

text \<open>The bytes a raw property designates.\<close>

definition raw_bytes :: "blocks \<Rightarrow> property_t \<Rightarrow> bytes option" where
  "raw_bytes m p = do { a \<leftarrow> p_value p; b \<leftarrow> m a; mem_read b 0 (unat (p_size p)) }"

text \<open>A call through one of the function pointers.\<close>

definition call_handler ::
    "http_env \<Rightarrow> 'w payload_handler \<Rightarrow> prop_state \<Rightarrow> 'w \<Rightarrow> 'w http_response \<Rightarrow> property_t \<Rightarrow> (int \<times> prop_state \<times> 'w \<times> 'w http_response) option" where
  "call_handler E h st w res payload =
     (case h of
        Null_handler \<Rightarrow> None
      | Default_set \<Rightarrow> do { (r, st, res) \<leftarrow> default_set_payload_handler E st res payload; Some (r, st, w, res) }
      | Default_add \<Rightarrow> do { (r, st, res) \<leftarrow> default_add_payload_handler E st res payload; Some (r, st, w, res) }
      | Custom_handler f \<Rightarrow> do { d \<leftarrow> raw_bytes (ps_blocks st) payload; (case f d w of (r, w) \<Rightarrow> Some (r, st, w, res)) })"

definition http_response_set_payload ::
    "http_env \<Rightarrow> prop_state \<Rightarrow> 'w \<Rightarrow> 'w http_response \<Rightarrow> property_t \<Rightarrow> (prop_state \<times> 'w \<times> 'w http_response) option" where
  "http_response_set_payload E st w res payload = do {
     (_, st, w, res) \<leftarrow> call_handler E (p_set_handler (r_payload_meth res)) st w res payload;
     Some (st, w, res\<lparr>r_processed := 1\<rparr>)
   }"

definition http_response_add_payload ::
    "http_env \<Rightarrow> prop_state \<Rightarrow> 'w \<Rightarrow> 'w http_response \<Rightarrow> property_t \<Rightarrow> (int \<times> prop_state \<times> 'w \<times> 'w http_response) option" where
  "http_response_add_payload E st w res payload = do {
     (ret, st, w, res) \<leftarrow> call_handler E (p_add_handler (r_payload_meth res)) st w res payload;
     if ret < 0 then Some (-1, st, w, res) else Some (0, st, w, res\<lparr>r_processed := r_processed res + 1\<rparr>)
   }"

end
