(* ===== verification/Http_Url.thy ===== *)
theory Http_Url
  imports Http_Request
begin

text \<open>
  The URL of a request: \<open>http_request_init\<close> splits \<open>scheme://host:port/path\<close> into its parts, as strings of
  their own in memory.
\<close>

section \<open>Literals in memory\<close>

definition literals_ok :: "http_env \<Rightarrow> blocks \<Rightarrow> bool" where
  "literals_ok E m \<longleftrightarrow> (\<forall>x \<in> set METH_str \<union> set Scheme_str. str_at m (Some (he_lit E x)) = Some (lit x))"

lemma copy_const_literal:
  assumes "he_disp E = std_types" and "str_at m (Some (he_lit E x)) = Some t"
  shows "\<exists>p. copy_const E m (Some (he_lit E x)) = Some (m, p) \<and> p_value p = Some (he_lit E x)"
proof -
  have "tag_of \<lparr>p_value = v, p_flags = PROPERTY_CONST_TAG OR is_owner, p_size = n\<rparr> = PROPERTY_CONST_TAG" for v n
    by (simp add: tag_of_def tag_defs)
  then show ?thesis using assms by (simp add: copy_const_def p_const_def property_copy_def get_std_type const_copy_def)
qed

lemma strncmp_numeral [simp]:
  "strncmp (x # a) (y # b) (numeral n) = (if x \<noteq> y then Some (uint x - uint y) else if x = 0 then Some 0 else strncmp a b (pred_numeral n))"
  by (simp add: numeral_eq_Suc)

lemma scheme_index:
  assumes "i < 2"
  shows "cmp_n_Scheme (lit (Scheme_str ! i) @ r) (length (Scheme_str ! i)) = Some (int i)" and "58 \<notin> set (lit (Scheme_str ! i))" and "0 \<notin> set (lit (Scheme_str ! i))"
    and "length (lit (Scheme_str ! i)) = length (Scheme_str ! i)"
proof -
  from assms have "i = 0 \<or> i = 1" by auto
  then show "cmp_n_Scheme (lit (Scheme_str ! i) @ r) (length (Scheme_str ! i)) = Some (int i)"
    by (auto simp: cmp_n_Scheme_def Scheme_str_def lit_def)
  show "58 \<notin> set (lit (Scheme_str ! i))" "0 \<notin> set (lit (Scheme_str ! i))" "length (lit (Scheme_str ! i)) = length (Scheme_str ! i)"
    using \<open>i = 0 \<or> i = 1\<close> by (auto simp: Scheme_str_def lit_def)
qed

section \<open>Host, port and path\<close>

definition address_ok :: "bytes \<Rightarrow> bytes \<Rightarrow> int \<Rightarrow> bytes \<Rightarrow> bool" where
  "address_ok host ds port path \<longleftrightarrow> 0 \<notin> set host \<and> 58 \<notin> set host \<and> 0 \<notin> set ds \<and> 47 \<notin> set ds \<and> length ds < 8 \<and> c_atoi ds = Some port \<and>
     0 \<notin> set path"

lemma port_reads:
  assumes "address_ok host ds port path"
  shows "copy_till_to_int (ds @ [47] @ path @ [0]) (lit ''/'') = Some (Some (port, length ds + 1))"
proof -
  have d: "47 \<notin> set ds" "0 \<notin> set ds" "length ds < 8" "c_atoi ds = Some port" "0 \<notin> set path" using assms by (auto simp: address_ok_def)
  have "copy_till (ds @ (47 # []) @ path @ 0 # []) (47 # []) (replicate 8 0) =
      Some (Some (ds @ 0 # drop (length ds + 1) (replicate 8 0), length ds + length [47 :: byte]))"
    using d by (intro copy_till_copies) auto
  then show ?thesis using d by (simp add: copy_till_to_int_def lit_def cstr_terminated)
qed

lemma request_address_splits:
  assumes E: "libc_total (he_libc E)" "he_disp E = std_types" and fin: "finite (dom (ps_blocks st))"
    and a: "address_ok host ds port path"
  shows "\<exists>st' hp up. request_address E st req (host @ [58] @ ds @ [47] @ path) = Some (st', req\<lparr>q_host := hp, q_port := word_of_int port, q_uri := up,
      q_header := None, q_query := None, q_is_chunked := 0, q_payload := p_null, q_content_type := (p_null, p_null),
      q_payload_meth := \<lparr>p_set_handler = Default_set, p_add_handler = Default_add\<rparr>\<rparr>) \<and>
    str_at (ps_blocks st') (p_value hp) = Some host \<and> str_at (ps_blocks st') (p_value up) = Some (47 # path) \<and> ps_blocks st \<subseteq>\<^sub>m ps_blocks st'"
proof -
  let ?m = "ps_blocks st"
  from E(1) fin obtain b where b: "fresh (he_libc E) ?m (length host + 1) = Some b" "b \<notin> dom ?m" by (rule libc_totalE)
  define m1 where "m1 = ?m(b \<mapsto> host @ [0])"
  have fin1: "finite (dom m1)" using fin by (simp add: m1_def)
  from E(1) fin1 obtain c where c: "fresh (he_libc E) m1 (length (47 # path) + 1) = Some c" "c \<notin> dom m1" by (rule libc_totalE)
  define m2 where "m2 = m1(c \<mapsto> (47 # path) @ [0])"
  have nz: "0 \<notin> set host" "58 \<notin> set host" "0 \<notin> set (47 # path)" using a by (auto simp: address_ok_def)
  have "strstr (host @ (58 # []) @ ds @ [47] @ path) (58 # []) = Some (length host)" by (rule strstr_first [OF nz(2)])
  then have s: "strstr (host @ [58] @ ds @ [47] @ path) (lit '':'') = Some (length host)" by (simp add: lit_def)
  have blk: "mem_write (replicate (length host + 1) j) 0 host = Some (host @ [j])" "write_at (host @ [j]) (length host) 0 = Some (host @ [0])" for j :: byte
  proof -
    have "drop (length host) (replicate (length host + 1) j) = [j]" by (simp only: drop_replicate) simp
    then show "mem_write (replicate (length host + 1) j) 0 host = Some (host @ [j])" unfolding mem_write_zero by simp
  qed (simp add: write_at_def)
  have host: "str_at m1 (Some b) = Some host" using nz(1) by (simp add: m1_def)
  then obtain hp where hp: "p_heap m1 (Some b) = Some hp" "p_value hp = Some b" by (simp add: p_heap_def)
  have "tag_of (p_stack_raw None 0) = PROPERTY_STACK_TAG" by (simp add: tag_of_def p_stack_raw_def tag_defs)
  then obtain up where up: "copy_stack E m1 (47 # path) = (m2, up)" "p_value up = Some c"
    using c(1) E(2) by (simp add: copy_stack_def get_std_type new_string_def m2_def)
  have le: "?m \<subseteq>\<^sub>m m1" "m1 \<subseteq>\<^sub>m m2" using b(2) c(2) by (auto simp: map_le_def m1_def m2_def dom_def)
  have "request_address E st req (host @ [58] @ ds @ [47] @ path) = Some (st\<lparr>ps_blocks := m2\<rparr>, req\<lparr>q_host := hp, q_port := word_of_int port, q_uri := up,
      q_header := None, q_query := None, q_is_chunked := 0, q_payload := p_null, q_content_type := (p_null, p_null),
      q_payload_meth := \<lparr>p_set_handler = Default_set, p_add_handler = Default_add\<rparr>\<rparr>)"
    unfolding request_address_def s using b(1) blk hp(1) port_reads [OF a] up(1) nz(3)
    by (simp add: c_malloc_def m1_def [symmetric])
  moreover have "str_at m2 (Some b) = Some host" by (rule str_at_mono [OF host le(2)])
  moreover have "str_at m2 (Some c) = Some (47 # path)" unfolding m2_def by (rule str_at_new [OF nz(3)])
  moreover have "?m \<subseteq>\<^sub>m m2" using le map_le_trans by blast
  ultimately show ?thesis using hp(2) up(2) by fastforce
qed

text \<open>C39. Parsing a URL. For one of the known schemes, a host without a colon, a port of at most seven characters and a path,
  \<open>http_request_init\<close> returns a request that is not corrupt: its method and scheme are the literals, its host and its URI
  (with the leading slash) are strings of their own with exactly the characters of the URL, the port is the number,
  the cipher flag says whether the scheme is https, and no header, query or payload is left from before. Nothing else in memory changes.
\<close>

theorem http_request_init_parses:
  assumes E: "libc_total (he_libc E)" "he_disp E = std_types" "literals_ok E (ps_blocks st)" and fin: "finite (dom (ps_blocks st))"
    and m: "0 \<le> meth" "meth < 5" and i: "i < 2" and a: "address_ok host ds port path"
  shows "\<exists>st' req'. http_request_init E st req meth (lit (Scheme_str ! i) @ lit ''://'' @ host @ [58] @ ds @ [47] @ path @ 0 # rest) = Some (st', req') \<and>
    q_is_corrupt req' = 0 \<and> q_is_cipher req' = int i \<and> q_port req' = word_of_int port \<and>
    str_at (ps_blocks st') (p_value (q_meth req')) = Some (lit (METH_str ! nat meth)) \<and>
    str_at (ps_blocks st') (p_value (q_scheme req')) = Some (lit (Scheme_str ! i)) \<and>
    str_at (ps_blocks st') (p_value (q_host req')) = Some host \<and> str_at (ps_blocks st') (p_value (q_uri req')) = Some (47 # path) \<and>
    q_header req' = None \<and> q_query req' = None \<and> q_payload req' = p_null \<and> ps_blocks st \<subseteq>\<^sub>m ps_blocks st'"
proof -
  define u where "u = lit (Scheme_str ! i) @ lit ''://'' @ host @ [58] @ ds @ [47] @ path"
  note sch = scheme_index [OF i]
  have col: "lit ''://'' = 58 # [47, 47]" by (simp add: lit_def)
  have "0 \<notin> set u" using sch(3) a by (auto simp: u_def col address_ok_def)
  then have cs: "cstr (u @ 0 # rest) = Some u" by (rule cstr_terminated)
  have "strstr (lit (Scheme_str ! i) @ (58 # [47, 47]) @ host @ [58] @ ds @ [47] @ path) (58 # [47, 47]) = Some (length (lit (Scheme_str ! i)))"
    by (rule strstr_first [OF sch(2)])
  then have s: "strstr u (lit ''://'') = Some (length (Scheme_str ! i))" using sch(4) by (simp add: u_def col)
  have d: "drop (length (Scheme_str ! i) + 3) u = host @ [58] @ ds @ [47] @ path"
    using sch(4) by (simp add: u_def col)
  have n: "cmp_n_Scheme (u @ 0 # rest) (length (Scheme_str ! i)) = Some (int i)" using sch(1) by (simp add: u_def)
  have mi: "nat meth < length METH_str" "i < length Scheme_str" using m i by (auto simp: METH_str_def Scheme_str_def)
  have lm: "str_at (ps_blocks st) (Some (he_lit E (METH_str ! nat meth))) = Some (lit (METH_str ! nat meth))"
      "str_at (ps_blocks st) (Some (he_lit E (Scheme_str ! i))) = Some (lit (Scheme_str ! i))"
    using E(3) mi unfolding literals_ok_def by (meson UnI1 UnI2 nth_mem)+
  from copy_const_literal [OF E(2) lm(1)] obtain pm where
    pm: "copy_const E (ps_blocks st) (Some (he_lit E (METH_str ! nat meth))) = Some (ps_blocks st, pm)" "p_value pm = Some (he_lit E (METH_str ! nat meth))" by blast
  from copy_const_literal [OF E(2) lm(2)] obtain ps where
    ps: "copy_const E (ps_blocks st) (Some (he_lit E (Scheme_str ! i))) = Some (ps_blocks st, ps)" "p_value ps = Some (he_lit E (Scheme_str ! i))" by blast
  define r0 where "r0 = req\<lparr>q_is_corrupt := 0, q_host := p_null, q_uri := p_null, q_payload := p_null, q_meth := pm, q_scheme := ps, q_is_cipher := int i\<rparr>"
  from request_address_splits [OF E(1,2) fin a, of r0] obtain st' hp up where
    r: "request_address E st r0 (host @ [58] @ ds @ [47] @ path) = Some (st', r0\<lparr>q_host := hp, q_port := word_of_int port, q_uri := up,
        q_header := None, q_query := None, q_is_chunked := 0, q_payload := p_null, q_content_type := (p_null, p_null),
        q_payload_meth := \<lparr>p_set_handler = Default_set, p_add_handler = Default_add\<rparr>\<rparr>)"
      "str_at (ps_blocks st') (p_value hp) = Some host" "str_at (ps_blocks st') (p_value up) = Some (47 # path)" "ps_blocks st \<subseteq>\<^sub>m ps_blocks st'" by blast
  define r1 where "r1 = r0\<lparr>q_host := hp, q_port := word_of_int port, q_uri := up,
        q_header := None, q_query := None, q_is_chunked := 0, q_payload := p_null, q_content_type := (p_null, p_null),
        q_payload_meth := \<lparr>p_set_handler = Default_set, p_add_handler = Default_add\<rparr>\<rparr>"
  have "http_request_init E st req meth (u @ 0 # rest) = Some (st', r1)"
    unfolding http_request_init_def cs using s n d pm(1) ps(1) r(1) m i
    by (simp add: lit_addr_def get_METH_def get_Scheme_def r0_def [symmetric] r1_def [symmetric])
  moreover have "q_is_corrupt r1 = 0" "q_is_cipher r1 = int i" "q_port r1 = word_of_int port" "q_meth r1 = pm" "q_scheme r1 = ps"
      "q_host r1 = hp" "q_uri r1 = up" "q_header r1 = None" "q_query r1 = None" "q_payload r1 = p_null" by (simp_all add: r1_def r0_def)
  moreover have "u @ 0 # rest = lit (Scheme_str ! i) @ lit ''://'' @ host @ [58] @ ds @ [47] @ path @ 0 # rest" by (simp add: u_def)
  ultimately show ?thesis using r(2-4) pm(2) ps(2) str_at_mono [OF lm(1) r(4)] str_at_mono [OF lm(2) r(4)] by auto
qed

definition url_env :: http_env where
  "url_env = \<lparr>he_libc = libc_least, he_node = (\<lambda>_. None), he_disp = std_types,
     he_lit = (\<lambda>x. length (takeWhile (\<lambda>y. y \<noteq> x) (METH_str @ Scheme_str))), he_tmp = 9\<rparr>"

definition url_state :: prop_state where
  "url_state = \<lparr>ps_blocks = (\<lambda>a. if a < 7 then Some (lit ((METH_str @ Scheme_str) ! a) @ [0]) else None), ps_data = Map.empty, ps_next = Map.empty\<rparr>"

lemma url_state_ok: "literals_ok url_env (ps_blocks url_state)" "finite (dom (ps_blocks url_state))"
proof -
  show "literals_ok url_env (ps_blocks url_state)"
    by (simp add: literals_ok_def url_env_def url_state_def METH_str_def Scheme_str_def str_at_def cstr_def lit_def)
  have "dom (ps_blocks url_state) \<subseteq> {..<7}" by (auto simp: url_state_def split: if_splits)
  then show "finite (dom (ps_blocks url_state))" by (rule finite_subset) simp
qed

theorem http_request_init_parses_witness:
  "\<exists>st' req'. http_request_init url_env url_state request_zero 1 (lit ''https://a.b:443/x'' @ [0]) = Some (st', req') \<and>
    q_is_corrupt req' = 0 \<and> q_is_cipher req' = 1 \<and> q_port req' = 443 \<and>
    str_at (ps_blocks st') (p_value (q_host req')) = Some (lit ''a.b'') \<and> str_at (ps_blocks st') (p_value (q_uri req')) = Some (lit ''/x'')"
proof -
  have a: "address_ok (lit ''a.b'') (lit ''443'') 443 (lit ''x'')" by code_simp
  have u: "lit (Scheme_str ! 1) @ lit ''://'' @ lit ''a.b'' @ [58] @ lit ''443'' @ [47] @ lit ''x'' @ 0 # [] = lit ''https://a.b:443/x'' @ [0]"
    by (simp add: Scheme_str_def lit_def)
  have p: "47 # lit ''x'' = lit ''/x''" by (simp add: lit_def)
  have E: "libc_total (he_libc url_env)" "he_disp url_env = std_types" using libc_least_total by (simp_all add: url_env_def)
  from http_request_init_parses [OF E url_state_ok _ _ _ a, of 1 1 request_zero "[]", unfolded u p] show ?thesis by auto
qed

end
