(* ===== verification/Http_Client.thy ===== *)
theory Http_Client
  imports Http_Request Ring_Buffer
begin

text \<open>
  The HTTP client: \<open>src/http/client.c\<close> (without \<open>STATIC_HTTP_CLIENT\<close> and \<open>HTTP_PARSE_HEADER\<close>, with the default
  \<open>RINGBUFFER_SIZE\<close> of 1024 bytes and therefore a \<open>CHUNK_SIZE\<close> of 512 bytes).

  The sockets, the resolver and the TLS library are the parameter \<open>http_net\<close>: each function of it takes and returns
  the state of the outside world. A state of the client holds the structure \<open>http_client_t\<close> with its
  queue, the memory of properties (the global \<open>tmpbuffer\<close> is an object of it), the requests by
  their address, the response that is filled and the outside world. The static buffers \<open>tmp\<close>, \<open>key\<close> and
  \<open>value\<close> of the functions are objects of their size: no function reads a byte of them that
  it has not written in the same call.
\<close>

section \<open>Data\<close>

record http_client_t =
  hc_sock :: int
  hc_timeout :: "32 word"
  hc_response_code :: int
  hc_close :: bool
  hc_cipher :: bool
  hc_queue :: "ring_buffer_t option"
  hc_request :: "nat option"
  hc_protocol :: "32 word"

definition api_via_http :: "32 word" where "api_via_http = 0"
definition LINE_CHUNK :: nat where "LINE_CHUNK = 40"
definition RINGBUFFER_SIZE :: nat where "RINGBUFFER_SIZE = 1024"
definition CHUNK_SIZE :: nat where "CHUNK_SIZE = RINGBUFFER_SIZE div 2"
definition MAX_TMP_BUF_SIZE :: nat where "MAX_TMP_BUF_SIZE = CHUNK_SIZE - 1"
definition CRLF :: bytes where "CRLF = [13, 10]"
definition HTTP_VERS :: bytes where "HTTP_VERS = lit '' HTTP/1.1'' @ CRLF"

text \<open>The functions of the network. \<open>hn_send\<close> and \<open>hn_recv\<close> get the flag that selects the TLS variant, the
  socket and the bytes or the size of the buffer; \<open>hn_recv\<close> returns the status and the bytes stored.\<close>

record 'w http_net =
  hn_socket :: "'w \<Rightarrow> int \<times> 'w"
  hn_gethostbyname :: "bytes \<Rightarrow> 'w \<Rightarrow> bytes option \<times> 'w"
  hn_timeout :: "int \<Rightarrow> 32 word \<Rightarrow> 'w \<Rightarrow> 'w"
  hn_connect :: "int \<Rightarrow> bytes \<Rightarrow> 16 word \<Rightarrow> 'w \<Rightarrow> int \<times> 'w"
  hn_ssl_connect :: "int \<Rightarrow> 'w \<Rightarrow> int \<times> 'w"
  hn_connect_done :: "int \<Rightarrow> 'w \<Rightarrow> int \<times> 'w"
  hn_ssl_close :: "int \<Rightarrow> 'w \<Rightarrow> 'w"
  hn_soc_close :: "int \<Rightarrow> 'w \<Rightarrow> 'w"
  hn_send :: "bool \<Rightarrow> int \<Rightarrow> bytes \<Rightarrow> 'w \<Rightarrow> int \<times> 'w"
  hn_recv :: "bool \<Rightarrow> int \<Rightarrow> nat \<Rightarrow> 'w \<Rightarrow> int \<times> bytes \<times> 'w"

record 'w hst =
  hs_cli :: http_client_t
  hs_ps :: prop_state
  hs_reqs :: "nat \<rightharpoonup> 'w http_request"
  hs_res :: "'w http_response"
  hs_w :: 'w

section \<open>The queue and the buffers\<close>

definition queue_of :: "'w hst \<Rightarrow> ring_buffer_t option" where
  "queue_of s = hc_queue (hs_cli s)"

definition set_queue :: "ring_buffer_t \<Rightarrow> 'w hst \<Rightarrow> 'w hst" where
  "set_queue q s = s\<lparr>hs_cli := (hs_cli s)\<lparr>hc_queue := Some q\<rparr>\<rparr>"

definition q_clear :: "'w hst \<Rightarrow> 'w hst option" where
  "q_clear s = do { q \<leftarrow> queue_of s; (_, q) \<leftarrow> ringbuf_clear q; Some (set_queue q s) }"

definition q_push :: "'w hst \<Rightarrow> bytes \<Rightarrow> int \<Rightarrow> (int \<times> 'w hst) option" where
  "q_push s src len = do { q \<leftarrow> queue_of s; (r, q) \<leftarrow> ringbuf_push q src len; Some (r, set_queue q s) }"

definition q_pop :: "'w hst \<Rightarrow> bytes \<Rightarrow> int \<Rightarrow> (int \<times> bytes \<times> 'w hst) option" where
  "q_pop s d len = do { q \<leftarrow> queue_of s; (r, d, q) \<leftarrow> ringbuf_pop q d len; Some (r, d, set_queue q s) }"

definition tmp_get :: "http_env \<Rightarrow> 'w hst \<Rightarrow> bytes option" where
  "tmp_get E s = ps_blocks (hs_ps s) (he_tmp E)"

definition tmp_set :: "http_env \<Rightarrow> bytes \<Rightarrow> 'w hst \<Rightarrow> 'w hst" where
  "tmp_set E b s = s\<lparr>hs_ps := (hs_ps s)\<lparr>ps_blocks := (ps_blocks (hs_ps s))(he_tmp E \<mapsto> b)\<rparr>\<rparr>"

text \<open>\<open>snprintf(tmpbuffer, n, ...)\<close> where the text is what the format gives.\<close>

definition tmp_print :: "http_env \<Rightarrow> 'w hst \<Rightarrow> nat \<Rightarrow> bytes \<Rightarrow> (int \<times> 'w hst) option" where
  "tmp_print E s n txt = do { b \<leftarrow> tmp_get E s; (r, b) \<leftarrow> c_snprintf b 0 n txt; Some (int r, tmp_set E b s) }"

text \<open>\<open>strcpy\<close> and \<open>strcat\<close> to \<open>tmpbuffer\<close>.\<close>

definition tmp_strcpy :: "http_env \<Rightarrow> 'w hst \<Rightarrow> bytes \<Rightarrow> 'w hst option" where
  "tmp_strcpy E s txt = do { b \<leftarrow> tmp_get E s; b \<leftarrow> mem_write b 0 (txt @ [0]); Some (tmp_set E b s) }"

definition tmp_strcat :: "http_env \<Rightarrow> 'w hst \<Rightarrow> bytes \<Rightarrow> 'w hst option" where
  "tmp_strcat E s txt = do { m \<leftarrow> c_strcat (ps_blocks (hs_ps s)) (he_tmp E) txt; Some (s\<lparr>hs_ps := (hs_ps s)\<lparr>ps_blocks := m\<rparr>\<rparr>) }"

text \<open>The string of a property.\<close>

definition p_str :: "'w hst \<Rightarrow> property_t \<Rightarrow> bytes option" where
  "p_str s p = str_at (ps_blocks (hs_ps s)) (p_value p)"

section \<open>Sessions\<close>

definition http_session_is_open :: "http_client_t \<Rightarrow> int" where
  "http_session_is_open cli = (if hc_sock cli < 0 then 0 else 1)"

definition http_session_close_set :: "http_client_t \<Rightarrow> bool \<Rightarrow> http_client_t" where
  "http_session_close_set cli mode = cli\<lparr>hc_close := mode\<rparr>"

definition http_session_set_protocol :: "http_client_t \<Rightarrow> int \<Rightarrow> http_client_t" where
  "http_session_set_protocol cli prot = cli\<lparr>hc_protocol := word_of_int prot\<rparr>"

text \<open>\<open>alloc\<close> is what \<open>alloc_type(ring_buffer_t)\<close> returns, \<open>block\<close> what \<open>ringbuf_init\<close> gets from \<open>malloc\<close>.\<close>

definition http_client_init :: "ring_buffer_t option \<Rightarrow> bytes option \<Rightarrow> http_client_t \<Rightarrow> int \<times> http_client_t" where
  "http_client_init alloc block cli =
     (let cli = cli\<lparr>hc_queue := alloc\<rparr>
      in case alloc of
           None \<Rightarrow> (-1, cli)
         | Some q \<Rightarrow>
             (case ringbuf_init block q (int RINGBUFFER_SIZE) of (ret, q) \<Rightarrow>
                let cli = cli\<lparr>hc_queue := Some q\<rparr>
                in if ret < 0 then (ret, cli)
                   else (0, cli\<lparr>hc_sock := -1, hc_close := True, hc_cipher := False, hc_timeout := 10000,
                             hc_protocol := api_via_http\<rparr>)))"

definition http_client_free :: "http_client_t \<Rightarrow> (int \<times> http_client_t) option" where
  "http_client_free cli = do { q \<leftarrow> hc_queue cli; Some (0, cli\<lparr>hc_queue := None, hc_protocol := api_via_http\<rparr>) }"

definition default_http_client_close :: "'w http_net \<Rightarrow> 'w hst \<Rightarrow> int \<times> 'w hst" where
  "default_http_client_close N s =
     (let cli = (hs_cli s)\<lparr>hc_request := None\<rparr>;
          s = s\<lparr>hs_cli := cli\<rparr>
      in if hc_protocol cli \<noteq> api_via_http then (-1, s)
         else if hc_sock cli < 0 then (-1, s)
         else if \<not> hc_close cli then (1, s)
         else
           let w = (if hc_cipher cli then hn_ssl_close N (hc_sock cli) (hs_w s) else hs_w s);
               w = hn_soc_close N (hc_sock cli) w
           in (0, s\<lparr>hs_cli := cli\<lparr>hc_cipher := False, hc_sock := -1\<rparr>, hs_w := w\<rparr>))"

text \<open>The connection over an open socket; the host is resolved from a null-terminated copy.\<close>

definition http_connect :: "'w http_net \<Rightarrow> http_env \<Rightarrow> 'w hst \<Rightarrow> 'w http_request \<Rightarrow> (int \<times> 'w hst) option" where
  "http_connect N E s req = do {
     let sock = hc_sock (hs_cli s);
     (m, host) \<leftarrow> property_as_null_terminated (he_libc E) (he_disp E) (ps_blocks (hs_ps s)) (q_host req);
     name \<leftarrow> str_at m (p_value host);
     (case hn_gethostbyname N name (hs_w s) of (addr, w) \<Rightarrow> do {
        (m, _) \<leftarrow> property_free (he_disp E) m host;
        let s = s\<lparr>hs_ps := (hs_ps s)\<lparr>ps_blocks := m\<rparr>, hs_w := w\<rparr>;
        (case addr of
           None \<Rightarrow> Some (-1, s)
         | Some a \<Rightarrow>
             (case hn_connect N sock a (q_port req) (hn_timeout N sock (hc_timeout (hs_cli s)) (hs_w s)) of (ret, w) \<Rightarrow>
                if ret < 0 then Some (-1, s\<lparr>hs_cli := (hs_cli s)\<lparr>hc_sock := -1\<rparr>, hs_w := hn_soc_close N sock w\<rparr>)
                else
                  let s = s\<lparr>hs_w := w\<rparr>;
                      (tls, s) = (if q_is_cipher req \<noteq> 0
                                  then case hn_ssl_connect N sock w of (ret, w) \<Rightarrow> (ret, s\<lparr>hs_cli := (hs_cli s)\<lparr>hc_cipher := True\<rparr>, hs_w := w\<rparr>)
                                  else (0, s))
                  in if tls < 0
                     then Some (-1, snd (default_http_client_close N (s\<lparr>hs_cli := (hs_cli s)\<lparr>hc_close := True\<rparr>\<rparr>)))
                     else case hn_connect_done N sock (hs_w s) of (ret, w) \<Rightarrow>
                       if ret < 0 then Some (-1, snd (default_http_client_close N (s\<lparr>hs_w := w\<rparr>)))
                       else Some (0, s\<lparr>hs_w := w\<rparr>)))
      })
   }"

definition default_http_client_open :: "'w http_net \<Rightarrow> http_env \<Rightarrow> 'w hst \<Rightarrow> nat \<Rightarrow> (int \<times> 'w hst) option" where
  "default_http_client_open N E s reqp = do {
     let s = s\<lparr>hs_cli := (hs_cli s)\<lparr>hc_response_code := 0, hc_request := Some reqp\<rparr>\<rparr>;
     if hc_protocol (hs_cli s) \<noteq> api_via_http then Some (-1, s)
     else if queue_of s = None then Some (-1, s)
     else do {
       s \<leftarrow> q_clear s;
       if hc_sock (hs_cli s) < 0 then
         (case hn_socket N (hs_w s) of (ret, w) \<Rightarrow>
            if ret < 0 then Some (ret, s\<lparr>hs_w := w\<rparr>)
            else do {
              req \<leftarrow> hs_reqs s reqp;
              http_connect N E (s\<lparr>hs_cli := (hs_cli s)\<lparr>hc_sock := ret\<rparr>, hs_w := w\<rparr>) req
            })
       else Some (0, s)
     }
   }"

section \<open>Sending\<close>

definition transmit :: "'w http_net \<Rightarrow> 'w hst \<Rightarrow> bytes \<Rightarrow> nat \<Rightarrow> (int \<times> 'w hst) option" where
  "transmit N s buf len = do {
     d \<leftarrow> mem_read buf 0 len;
     (case hn_send N (hc_cipher (hs_cli s)) (hc_sock (hs_cli s)) d (hs_w s) of (ret, w) \<Rightarrow> Some (ret, s\<lparr>hs_w := w\<rparr>))
   }"

text \<open>A null pointer \<open>buf\<close> sends what is in the queue.\<close>

definition simple_write :: "'w http_net \<Rightarrow> 'w hst \<Rightarrow> bytes option \<Rightarrow> 16 word \<Rightarrow> (int \<times> 'w hst) option" where
  "simple_write N s buf len =
     (case buf of
        None \<Rightarrow> do {
          q \<leftarrow> queue_of s;
          let len = (if len = 0 then ringbuf_size q else len);
          (r, tmp, s) \<leftarrow> q_pop s (replicate MAX_TMP_BUF_SIZE 0) (uint len);
          if r < 0 then Some (-1, s) else transmit N s tmp (unat len)
        }
      | Some b \<Rightarrow> do {
          len \<leftarrow> (if len = 0 then map_option (word_of_nat \<circ> length) (cstr b) else Some len);
          transmit N s b (unat len)
        })"

abbreviation client_send :: "'w http_net \<Rightarrow> 'w hst \<Rightarrow> (int \<times> 'w hst) option" where
  "client_send N s \<equiv> simple_write N s None 0"

text \<open>The text in \<open>tmpbuffer\<close> is put into the queue and the queue is sent.\<close>

definition send_line :: "'w http_net \<Rightarrow> http_env \<Rightarrow> 'w hst \<Rightarrow> nat \<Rightarrow> bytes \<Rightarrow> (int \<times> 'w hst) option" where
  "send_line N E s n txt = do {
     (ret, s) \<leftarrow> tmp_print E s n txt;
     tmp \<leftarrow> tmp_get E s;
     (r, s) \<leftarrow> q_push s tmp ret;
     if r < 0 then Some (-1, s) else client_send N s
   }"

text \<open>The query parameters. The second test computes with \<open>size_t\<close>.\<close>

partial_function (option) query_loop :: "http_env \<Rightarrow> 'w hst \<Rightarrow> nat option \<Rightarrow> 'w hst option" where
  "query_loop E s p =
     (case p of
        None \<Rightarrow> Some s
      | Some a \<Rightarrow> do {
          kv \<leftarrow> ps_data (hs_ps s) a;
          k \<leftarrow> p_str s (fst kv);
          v \<leftarrow> p_str s (snd kv);
          q \<leftarrow> queue_of s;
          if int (length k) + int (length v) + 3 > uint (ringbuf_capacity q) then Some s
          else do {
            s \<leftarrow> tmp_strcat E s k;
            s \<leftarrow> tmp_strcat E s [61];
            s \<leftarrow> tmp_strcat E s v;
            tmp \<leftarrow> tmp_get E s;
            t \<leftarrow> cstr tmp;
            if (ucast (ringbuf_capacity q) - 12 - 1 :: 64 word) < word_of_nat (length t) then Some s
            else do {
              rs \<leftarrow> q_push s tmp 0;
              if fst rs < 0 then Some (snd rs)
              else do {
                s \<leftarrow> tmp_strcpy E (snd rs) [38];
                nxt \<leftarrow> ps_next (hs_ps s) a;
                query_loop E s nxt
              }
            }
          }
        })"

definition send_start :: "'w http_net \<Rightarrow> http_env \<Rightarrow> 'w hst \<Rightarrow> 'w http_request \<Rightarrow> (int \<times> 'w hst) option" where
  "send_start N E s req = do {
     s \<leftarrow> q_clear s;
     meth \<leftarrow> p_str s (q_meth req);
     uri \<leftarrow> p_str s (q_uri req);
     (ret, s) \<leftarrow> tmp_print E s MAX_TMP_BUF_SIZE (meth @ [32] @ uri);
     tmp \<leftarrow> tmp_get E s;
     (r, s) \<leftarrow> q_push s tmp ret;
     if r < 0 then Some (-1, s)
     else do {
       s \<leftarrow> (if q_query req \<noteq> None then do { s \<leftarrow> tmp_strcpy E s [63]; query_loop E s (q_query req) } else Some s);
       (r, s) \<leftarrow> q_push s (HTTP_VERS @ [0]) 0;
       if r < 0 then Some (r, s)
       else do {
         (r, s) \<leftarrow> client_send N s;
         if r < 0 then Some (r, s)
         else do {
           host \<leftarrow> p_str s (q_host req);
           (r, s) \<leftarrow> send_line N E s MAX_TMP_BUF_SIZE (lit ''Host: '' @ host @ [58] @ dec_digits (unat (q_port req)) @ CRLF);
           if r < 0 then Some (r, s) else Some (0, s)
         }
       }
     }
   }"

text \<open>\<open>snprintf\<close> is called with the capacity of the queue as the size of \<open>tmpbuffer\<close>.\<close>

definition send_cap_line :: "'w http_net \<Rightarrow> http_env \<Rightarrow> 'w hst \<Rightarrow> bytes \<Rightarrow> (int \<times> 'w hst) option" where
  "send_cap_line N E s txt = do {
     q \<leftarrow> queue_of s;
     send_line N E s (unat (ringbuf_capacity q)) txt
   }"

partial_function (option) header_loop :: "'w http_net \<Rightarrow> http_env \<Rightarrow> 'w hst \<Rightarrow> nat option \<Rightarrow> (int \<times> 'w hst) option" where
  "header_loop N E s p =
     (case p of
        None \<Rightarrow> simple_write N s (Some (CRLF @ [0])) 2
      | Some a \<Rightarrow> do {
          s \<leftarrow> q_clear s;
          kv \<leftarrow> ps_data (hs_ps s) a;
          k \<leftarrow> p_str s (fst kv);
          v \<leftarrow> p_str s (snd kv);
          rs \<leftarrow> send_cap_line N E s (k @ [58, 32] @ v @ CRLF);
          if fst rs < 0 then Some rs
          else do { nxt \<leftarrow> ps_next (hs_ps (snd rs)) a; header_loop N E (snd rs) nxt }
        })"

text \<open>\<open>!IS_EMPTY(req->payload) && property_size(&req->payload)\<close>: the size when there is a payload, else 0.\<close>

definition payload_size :: "'w hst \<Rightarrow> 'w http_request \<Rightarrow> nat option" where
  "payload_size s req = (if p_value (q_payload req) = None then Some 0 else property_size (ps_blocks (hs_ps s)) (q_payload req))"

definition send_header :: "'w http_net \<Rightarrow> http_env \<Rightarrow> 'w hst \<Rightarrow> 'w http_request \<Rightarrow> (int \<times> 'w hst) option" where
  "send_header N E s req = do {
     s \<leftarrow> q_clear s;
     n \<leftarrow> payload_size s req;
     (r, s) \<leftarrow>
       (if n = 0 then Some (0, s)
        else do {
          (r, s) \<leftarrow> (if q_is_chunked req \<noteq> 0 then simple_write N s (Some (lit ''Transfer-Encoding: chunked'' @ CRLF @ [0])) 0
                    else send_cap_line N E s (lit ''Content-Length: '' @ dec_digits n @ CRLF));
          s \<leftarrow> q_clear s;
          if r < 0 then Some (r, s)
          else do {
            ct \<leftarrow> p_str s (snd (q_content_type req));
            send_cap_line N E s (lit ''Content-Type: '' @ ct @ CRLF)
          }
        });
     if r < 0 then Some (r, s) else header_loop N E s (q_header req)
   }"

text \<open>\<open>%02X\<close>.\<close>

fun hex_upper :: "nat \<Rightarrow> bytes" where
  "hex_upper n = (if n < 16 then [] else hex_upper (n div 16)) @ [lit ''0123456789ABCDEF'' ! (n mod 16)]"

declare hex_upper.simps [simp del]

definition hex_02X :: "nat \<Rightarrow> bytes" where
  "hex_02X n = (if n < 16 then [48] else []) @ hex_upper n"

fun chunk_loop :: "'w http_net \<Rightarrow> 'w hst \<Rightarrow> bytes \<Rightarrow> nat \<Rightarrow> nat \<Rightarrow> 'w hst option" where
  "chunk_loop N s data trData len =
     (let chunk = (if len > CHUNK_SIZE then CHUNK_SIZE else len);
          txt = hex_02X chunk @ CRLF
      in do {
        buf \<leftarrow> mem_write (replicate 6 0) 0 (txt @ [0]);
        (_, s) \<leftarrow> simple_write N s (Some buf) (word_of_nat (length txt));
        (_, s) \<leftarrow> (if chunk \<noteq> 0 then simple_write N s (Some (drop trData data)) (word_of_nat chunk) else Some (0, s));
        (_, s) \<leftarrow> simple_write N s (Some (CRLF @ [0])) 2;
        if chunk = 0 then Some s else chunk_loop N s data (trData + chunk) (len - chunk)
      })"

declare chunk_loop.simps [simp del]

definition send_payload :: "'w http_net \<Rightarrow> 'w hst \<Rightarrow> 'w http_request \<Rightarrow> (int \<times> 'w hst) option" where
  "send_payload N s req = do {
     n \<leftarrow> payload_size s req;
     if n = 0 then Some (-1, s)
     else do {
       a \<leftarrow> p_value (q_payload req);
       data \<leftarrow> ps_blocks (hs_ps s) a;
       if q_is_chunked req \<noteq> 0 then do { s \<leftarrow> chunk_loop N s data 0 n; Some (0, s) }
       else simple_write N s (Some data) (word_of_nat n)
     }
   }"

section \<open>Receiving\<close>

definition client_recv :: "'w http_net \<Rightarrow> 'w hst \<Rightarrow> 16 word \<Rightarrow> (int \<times> 'w hst) option" where
  "client_recv N s len = do {
     q \<leftarrow> queue_of s;
     let len = (if len > ringbuf_capacity q then ringbuf_capacity q else len);
     (case hn_recv N (hc_cipher (hs_cli s)) (hc_sock (hs_cli s)) (unat len) (hs_w s) of (ret, d, w) \<Rightarrow> do {
        tmp \<leftarrow> mem_write (replicate MAX_TMP_BUF_SIZE 0) 0 d;
        let s = s\<lparr>hs_w := w\<rparr>;
        if ret > 0 then do {
          (r, s) \<leftarrow> q_push s tmp ret;
          if r < 0 then Some (-1, s) else Some (ret, s)
        }
        else Some (ret, s)
      })
   }"

text \<open>The result is the offset of the line end (a null pointer is \<^term>\<open>None\<close>) and the buffer.\<close>

partial_function (option) wait_loop :: "'w http_net \<Rightarrow> 'w hst \<Rightarrow> bytes \<Rightarrow> nat \<Rightarrow> nat \<Rightarrow> (nat option \<times> bytes \<times> 'w hst) option" where
  "wait_loop N s buf sz maxsize = do {
     r \<leftarrow> (if sz < 2 then Some 1 else strncmp (drop (sz - 2) buf) (CRLF @ [0]) 2);
     if r = 0 then Some (Some (sz - 2), buf, s)
     else do {
       p \<leftarrow> q_pop s (drop sz buf) 1;
       if fst p = 0 then do {
         buf \<leftarrow> write_at (take sz buf @ fst (snd p)) (sz + 1) 0;
         if sz + 1 = maxsize then Some (None, buf, snd (snd p))
         else wait_loop N (snd (snd p)) buf (sz + 1) maxsize
       }
       else do {
         let s = snd (snd p);
         q \<leftarrow> queue_of s;
         if unat (ringbuf_capacity q) > LINE_CHUNK then do {
           rs \<leftarrow> client_recv N s (word_of_nat LINE_CHUNK);
           if fst rs < 0 then Some (None, buf, snd rs) else wait_loop N (snd rs) buf sz maxsize
         }
         else Some (None, buf, s)
       }
     }
   }"

definition wait_line :: "'w http_net \<Rightarrow> 'w hst \<Rightarrow> bytes \<Rightarrow> nat \<Rightarrow> (nat option \<times> bytes \<times> 'w hst) option" where
  "wait_line N s buf maxsize = wait_loop N s buf 0 maxsize"

text \<open>Lines of less than ten characters before the status line are skipped.\<close>

partial_function (option) status_line :: "'w http_net \<Rightarrow> 'w hst \<Rightarrow> bytes \<Rightarrow> (bytes option \<times> 'w hst) option" where
  "status_line N s tmp = do {
     l \<leftarrow> wait_line N s tmp RINGBUFFER_SIZE;
     (case fst l of
        None \<Rightarrow> Some (None, snd (snd l))
      | Some crlf \<Rightarrow> do {
          tmp \<leftarrow> write_at (fst (snd l)) crlf 0;
          if crlf < 10 then status_line N (snd (snd l)) tmp else Some (Some tmp, snd (snd l))
        })
   }"

text \<open>The \<open>int\<close> is stored over the 16-bit response code and the 16-bit field behind it.\<close>

definition store_code :: "int \<Rightarrow> 'w http_response \<Rightarrow> 'w http_response" where
  "store_code i res = res\<lparr>r_code := word_of_int i, r_is_chunked := ucast (drop_bit 16 (word_of_int i :: 32 word))\<rparr>"

definition receive_response :: "'w http_net \<Rightarrow> 'w hst \<Rightarrow> (int \<times> 'w hst) option" where
  "receive_response N s = do {
     s \<leftarrow> q_clear s;
     (l, s) \<leftarrow> status_line N s (replicate RINGBUFFER_SIZE 0);
     (case l of
        None \<Rightarrow> Some (-1, s)
      | Some tmp \<Rightarrow> do {
          t \<leftarrow> cstr tmp;
          case strstr t (lit ''HTTP/1.1 '') of
            None \<Rightarrow> Some (-1, s)
          | Some n \<Rightarrow> do {
              r \<leftarrow> copy_till_to_int (drop (n + 9) tmp) (lit '' OK'');
              (case r of
                 None \<Rightarrow> Some (-1, s)
               | Some (code, _) \<Rightarrow>
                   let res = store_code code (hs_res s)
                   in Some (0, s\<lparr>hs_res := res, hs_cli := (hs_cli s)\<lparr>hc_response_code := uint (r_code res)\<rparr>\<rparr>))
            }
        })
   }"

text \<open>What one header does to the response.\<close>

definition apply_header :: "bytes \<Rightarrow> bytes \<Rightarrow> 'w http_response \<Rightarrow> 'w http_response option" where
  "apply_header key val res =
     (if key = lit ''Content-Length'' then do { i \<leftarrow> c_atoi val; Some (res\<lparr>r_content_length := word_of_int i\<rparr>) }
      else if key = lit ''Transfer-Encoding'' \<and> (val = lit ''Chunked'' \<or> val = lit ''chunked'') then Some (res\<lparr>r_is_chunked := 1\<rparr>)
      else Some res)"

partial_function (option) receive_headers :: "'w http_net \<Rightarrow> 'w hst \<Rightarrow> (int \<times> 'w hst) option" where
  "receive_headers N s = do {
     l \<leftarrow> wait_line N s (replicate RINGBUFFER_SIZE 0) RINGBUFFER_SIZE;
     let s = snd (snd l);
     let tmp = fst (snd l);
     (case fst l of
        None \<Rightarrow> Some (0, s)
      | Some crlf \<Rightarrow>
          if crlf = 0 then Some (0, s)
          else do {
            k \<leftarrow> copy_till tmp (lit '': '') (replicate (CHUNK_SIZE div 4) 0);
            (case k of
               None \<Rightarrow> Some (-1, s)
             | Some kp \<Rightarrow> do {
                 v \<leftarrow> copy_till (drop (snd kp) tmp) CRLF (replicate CHUNK_SIZE 0);
                 (case v of
                    None \<Rightarrow> Some (-1, s)
                  | Some vp \<Rightarrow> do {
                      key \<leftarrow> cstr (fst kp);
                      val \<leftarrow> cstr (fst vp);
                      res \<leftarrow> apply_header key val (hs_res s);
                      receive_headers N (s\<lparr>hs_res := res\<rparr>)
                    })
               })
          })
   }"

definition get_chunked_payload_size :: "'w http_net \<Rightarrow> 'w hst \<Rightarrow> (int \<times> 'w hst) option" where
  "get_chunked_payload_size N s = do {
     (crlf, tmp, s) \<leftarrow> wait_line N s (replicate RINGBUFFER_SIZE 0) RINGBUFFER_SIZE;
     if crlf = None then Some (-1, s)
     else do {
       r \<leftarrow> copy_till_hex_to_int tmp CRLF;
       (case r of None \<Rightarrow> Some (-1, s) | Some (chunk_len, _) \<Rightarrow> Some (chunk_len, s))
     }
   }"

text \<open>The loop that fills the queue: whether to give up, the number of failed receives and the state.\<close>

partial_function (option) fill_loop :: "'w http_net \<Rightarrow> 'w hst \<Rightarrow> nat \<Rightarrow> int \<Rightarrow> (bool \<times> int \<times> 'w hst) option" where
  "fill_loop N s need no_data_error = do {
     q \<leftarrow> queue_of s;
     if unat (ringbuf_size q) < need then do {
       rs \<leftarrow> client_recv N s (word_of_nat (need - unat (ringbuf_size q)));
       if fst rs < 0 then
         (if no_data_error > 2 then Some (True, no_data_error + 1, snd rs) else fill_loop N (snd rs) need (no_data_error + 1))
       else fill_loop N (snd rs) need no_data_error
     }
     else Some (False, no_data_error, s)
   }"

text \<open>One block of at most \<open>CHUNK_SIZE\<close> bytes: filled, taken into \<open>tmpbuffer\<close> and handed over.\<close>

definition take_block :: "'w http_net \<Rightarrow> http_env \<Rightarrow> 'w hst \<Rightarrow> nat \<Rightarrow> int \<Rightarrow> (int \<times> int \<times> 'w hst) option" where
  "take_block N E s need no_data_error = do {
     (give_up, err, s) \<leftarrow> fill_loop N s need no_data_error;
     if give_up then Some (-1, err, s)
     else do {
       tmp \<leftarrow> tmp_get E s;
       (r, tmp, s) \<leftarrow> q_pop s tmp (int need);
       let s = tmp_set E tmp s;
       if r < 0 then Some (-1, err, s)
       else do {
         (r, ps, w, res) \<leftarrow> http_response_add_payload E (hs_ps s) (hs_w s) (hs_res s) (p_stack_raw (Some (he_tmp E)) need);
         let s = s\<lparr>hs_ps := ps, hs_w := w, hs_res := res\<rparr>;
         if r < 0 then do { s \<leftarrow> q_clear s; Some (-1, err, s) } else Some (0, err, s)
       }
     }
   }"

partial_function (option) data_loop :: "'w http_net \<Rightarrow> http_env \<Rightarrow> 'w hst \<Rightarrow> nat \<Rightarrow> int \<Rightarrow> (int \<times> int \<times> 'w hst) option" where
  "data_loop N E s chunk_len err =
     (if chunk_len = 0 then Some (0, err, s)
      else do {
        let need = min chunk_len CHUNK_SIZE;
        b \<leftarrow> take_block N E s need err;
        if fst b < 0 then Some b else data_loop N E (snd (snd b)) (chunk_len - need) (fst (snd b))
      })"

definition next_chunk_len :: "'w http_net \<Rightarrow> 'w hst \<Rightarrow> (int \<times> 'w hst) option" where
  "next_chunk_len N s =
     (if r_is_chunked (hs_res s) \<noteq> 0 then get_chunked_payload_size N s
      else Some (sint (r_content_length (hs_res s)), s))"

partial_function (option) body_loop :: "'w http_net \<Rightarrow> http_env \<Rightarrow> 'w hst \<Rightarrow> int \<Rightarrow> (int \<times> 'w hst) option" where
  "body_loop N E s err = do {
     ls \<leftarrow> next_chunk_len N s;
     if fst ls \<le> 0 then Some (0, snd ls)
     else do {
       d \<leftarrow> data_loop N E (snd ls) (nat (fst ls)) err;
       let s = snd (snd d);
       if fst d < 0 then Some (-1, s)
       else if r_is_chunked (hs_res s) = 0 then Some (0, s)
       else do {
         tmp \<leftarrow> tmp_get E s;
         l \<leftarrow> wait_line N s tmp CHUNK_SIZE;
         body_loop N E (tmp_set E (fst (snd l)) (snd (snd l))) (fst (snd d))
       }
     }
   }"

definition receive_payload :: "'w http_net \<Rightarrow> http_env \<Rightarrow> 'w hst \<Rightarrow> (int \<times> 'w hst) option" where
  "receive_payload N E s = body_loop N E s 0"

section \<open>A request and its response\<close>

definition default_http_client_do :: "'w http_net \<Rightarrow> http_env \<Rightarrow> 'w hst \<Rightarrow> (int \<times> 'w hst) option" where
  "default_http_client_do N E s =
     (case hc_request (hs_cli s) of
        None \<Rightarrow> Some (-1, s)
      | Some p \<Rightarrow> do {
          req \<leftarrow> hs_reqs s p;
          let s = s\<lparr>hs_res := http_response_init (q_payload_meth req)\<rparr>;
          (r, s) \<leftarrow> send_start N E s req;
          if r < 0 then Some (-1, s)
          else do {
            (r, s) \<leftarrow> send_header N E s req;
            if r < 0 then Some (-1, s)
            else do {
              (r, s) \<leftarrow> (if p_value (q_payload req) \<noteq> None then send_payload N s req else Some (0, s));
              if r < 0 then Some (-1, s)
              else do {
                s \<leftarrow> q_clear s;
                (r, s) \<leftarrow> receive_response N s;
                if r < 0 then Some (-1, s)
                else do {
                  let s = s\<lparr>hs_res := (hs_res s)\<lparr>r_header := None, r_content_type := (p_null, p_null), r_payload := p_null,
                    r_is_chunked := 0, r_processed := 0\<rparr>\<rparr>;
                  (r, s) \<leftarrow> receive_headers N s;
                  if r < 0 then Some (-1, s)
                  else do {
                    (r, s) \<leftarrow> receive_payload N E s;
                    if r < 0 then Some (-1, s) else Some (0, s)
                  }
                }
              }
            }
          }
        })"

end
