(* ===== verification/Http_Receive.thy ===== *)
theory Http_Receive
  imports Http_Client
begin

text \<open>
  What the HTTP client receives. The laws of the network are predicates on the functions of \<open>http_net\<close>: \<open>stream_ok\<close>
  says that \<open>recv\<close> returns a non-empty piece of what the peer has sent, of any length up to the size
  asked for (and up to the limit \<open>lim\<close> of one call), \<open>sink_ok\<close> that the application's payload handler keeps the
  bytes it gets. The queue is used only through the laws of \<open>byte_fifo\<close> (interpretation \<open>ring\<close>).

  The lemmas show that reading does not depend on how the stream is cut into pieces: a line, a status
  line, the headers, and a body of given length or in chunks are what the stream holds, and exactly their bytes are
  consumed.
\<close>

section \<open>The stream of a connection\<close>

definition stream_ok :: "'w http_net \<Rightarrow> ('w \<Rightarrow> bytes) \<Rightarrow> ('w \<Rightarrow> bytes) \<Rightarrow> ('w \<Rightarrow> bytes) \<Rightarrow> nat \<Rightarrow> bool" where
  "stream_ok N sent incoming got lim \<longleftrightarrow>
     (\<forall>c sock n w. 0 < n \<longrightarrow> incoming w \<noteq> [] \<longrightarrow>
       (\<exists>k w'. hn_recv N c sock n w = (int k, take k (incoming w), w') \<and> 0 < k \<and> k \<le> n \<and> k \<le> lim \<and>
         k \<le> length (incoming w) \<and> incoming w' = drop k (incoming w) \<and> sent w' = sent w \<and> got w' = got w))"

definition sink_ok :: "(bytes \<Rightarrow> 'w \<Rightarrow> int \<times> 'w) \<Rightarrow> ('w \<Rightarrow> bytes) \<Rightarrow> ('w \<Rightarrow> bytes) \<Rightarrow> ('w \<Rightarrow> bytes) \<Rightarrow> bool" where
  "sink_ok f sent incoming got \<longleftrightarrow>
     (\<forall>d w. \<exists>r w'. f d w = (r, w') \<and> 0 \<le> r \<and> got w' = got w @ d \<and> sent w' = sent w \<and> incoming w' = incoming w)"

text \<open>The queue of the client is in use and has the size of \<open>http_client_init\<close>.\<close>

definition queue_ok :: "ring_buffer_t \<Rightarrow> bool" where
  "queue_ok q \<longleftrightarrow> rb_inv q \<and> unat (rb_total q) - 1 = 1023"

definition ready :: "'w hst \<Rightarrow> bool" where
  "ready s \<longleftrightarrow> (\<exists>q. queue_of s = Some q \<and> queue_ok q)"

definition queued :: "'w hst \<Rightarrow> bytes" where
  "queued s = (case queue_of s of None \<Rightarrow> [] | Some q \<Rightarrow> rb_contents q)"

text \<open>What the client has not looked at yet.\<close>

definition pending :: "('w \<Rightarrow> bytes) \<Rightarrow> 'w hst \<Rightarrow> bytes" where
  "pending incoming s = queued s @ incoming (hs_w s)"

text \<open>Only the queue and the connection have changed.\<close>

definition moved :: "('w \<Rightarrow> bytes) \<Rightarrow> ('w \<Rightarrow> bytes) \<Rightarrow> 'w hst \<Rightarrow> 'w hst \<Rightarrow> bool" where
  "moved sent got s s' \<longleftrightarrow> (\<exists>q w. s' = set_queue q (s\<lparr>hs_w := w\<rparr>) \<and> sent w = sent (hs_w s) \<and> got w = got (hs_w s))"

lemma set_queue_simps [simp]:
  "queue_of (set_queue q s) = Some q"
  "set_queue q (set_queue q' s) = set_queue q s"
  "hs_w (set_queue q s) = hs_w s" "hs_ps (set_queue q s) = hs_ps s" "hs_res (set_queue q s) = hs_res s"
  "hs_reqs (set_queue q s) = hs_reqs s"
  "(set_queue q s)\<lparr>hs_w := w\<rparr> = set_queue q (s\<lparr>hs_w := w\<rparr>)"
  "hc_sock (hs_cli (set_queue q s)) = hc_sock (hs_cli s)" "hc_cipher (hs_cli (set_queue q s)) = hc_cipher (hs_cli s)"
  by (simp_all add: set_queue_def queue_of_def)

lemma set_queue_same: "queue_of s = Some q \<Longrightarrow> set_queue q s = s"
  by (simp add: set_queue_def queue_of_def)

lemma moved_refl: "ready s \<Longrightarrow> moved sent got s s"
  by (metis moved_def ready_def set_queue_same hst.surjective hst.update_convs(5))

lemma moved_trans: "moved sent got s s' \<Longrightarrow> moved sent got s' s'' \<Longrightarrow> moved sent got s s''"
  by (auto simp: moved_def) blast

lemma moved_set_queue: "moved sent got s (set_queue q s)"
  unfolding moved_def by (intro exI [of _ q] exI [of _ "hs_w s"]) simp

lemma movedD:
  assumes "moved sent got s s'"
  shows "hs_ps s' = hs_ps s" and "hs_res s' = hs_res s" and "hs_reqs s' = hs_reqs s" and "got (hs_w s') = got (hs_w s)" and "sent (hs_w s') = sent (hs_w s)"
    and "tmp_get E s' = tmp_get E s"
  using assms by (auto simp: moved_def tmp_get_def)

lemma readyE:
  assumes "ready s"
  obtains q where "queue_of s = Some q" and "queue_ok q" and "rb_inv q" and "queued s = rb_contents q"
    and "length (queued s) \<le> 1023" and "unat (ringbuf_size q) = length (queued s)"
    and "unat (ringbuf_capacity q) = 1023 - length (queued s)"
proof -
  from assms obtain q where q: "queue_of s = Some q" "queue_ok q" by (auto simp: ready_def)
  then have inv: "rb_inv q" and b: "unat (rb_total q) - 1 = 1023" by (auto simp: queue_ok_def)
  have len: "length (rb_contents q) = unat (rb_size q)" using inv by simp
  show thesis
  proof (rule that [OF q inv])
    show c: "queued s = rb_contents q" using q by (simp add: queued_def)
    show "length (queued s) \<le> 1023" using ring.content_bound [OF inv] b c by simp
    show "unat (ringbuf_size q) = length (queued s)" using len c by (simp add: ringbuf_size_def)
    show "unat (ringbuf_capacity q) = 1023 - length (queued s)" using unat_capacity [OF inv] b len c by simp
  qed
qed

section \<open>One receive, one pop\<close>

lemma q_pop_ok:
  assumes "ready s" and "n \<le> length (queued s)" and "n \<le> length d"
  shows "\<exists>q. q_pop s d (int n) = Some (0, take n (queued s) @ drop n d, set_queue q s) \<and> queue_ok q \<and>
    rb_contents q = drop n (queued s)"
proof -
  from assms(1) obtain q where q: "queue_of s = Some q" "queue_ok q" "rb_inv q" "queued s = rb_contents q" by (rule readyE)
  from ring.take_out_ok [OF q(3), of n d] assms(2,3) q(4) obtain q' where
    q': "ringbuf_pop q d (int n) = Some (0, take n (rb_contents q) @ drop n d, q')" "rb_inv q'"
      "rb_contents q' = drop n (rb_contents q)" "unat (rb_total q') - 1 = unat (rb_total q) - 1" by auto
  then show ?thesis using q by (intro exI [of _ q']) (simp add: q_pop_def queue_ok_def)
qed

lemma q_pop_short:
  assumes "ready s" and "length (queued s) < n"
  shows "q_pop s d (int n) = Some (-1, d, s)"
  using assms by (auto elim!: readyE simp: q_pop_def ring.take_out_short set_queue_same)

lemma q_push_ok:
  assumes "ready s" and "0 < n" and "length (queued s) + n \<le> 1023" and "n \<le> length src"
  shows "\<exists>q. q_push s src (int n) = Some (0, set_queue q s) \<and> queue_ok q \<and> rb_contents q = queued s @ take n src"
proof -
  from assms(1) obtain q where q: "queue_of s = Some q" "queue_ok q" "rb_inv q" "queued s = rb_contents q" by (rule readyE)
  then have b: "unat (rb_total q) - 1 = 1023" by (simp add: queue_ok_def)
  from ring.put_ok [OF q(3) assms(2) _ assms(4)] assms(3) q(4) b obtain q' where
    q': "ringbuf_push q src (int n) = Some (0, q')" "rb_inv q'" "rb_contents q' = rb_contents q @ take n src"
      "unat (rb_total q') - 1 = unat (rb_total q) - 1" by auto
  then show ?thesis using q b by (intro exI [of _ q']) (simp add: q_push_def queue_ok_def)
qed

lemma q_clear_ok:
  assumes "ready s"
  obtains q where "q_clear s = Some (set_queue q s)" and "queue_ok q" and "rb_contents q = []"
proof -
  from assms obtain q where q: "queue_of s = Some q" "queue_ok q" "rb_inv q" by (rule readyE)
  from q(3) obtain q' where q': "ringbuf_clear q = Some (0, q')" "rb_inv q'" "rb_contents q' = []" "rb_total q' = rb_total q"
    by (rule ringbuf_clear_empty)
  show thesis by (rule that [of q']) (use q q' in \<open>simp_all add: q_clear_def queue_ok_def\<close>)
qed

lemma ready_set_queue: "queue_ok q \<Longrightarrow> ready (set_queue q s)"
  by (simp add: ready_def)

lemma queued_set_queue [simp]: "queued (set_queue q s) = rb_contents q"
  by (simp add: queued_def)

lemma queue_of_w [simp]: "queue_of (s\<lparr>hs_w := w\<rparr>) = queue_of s" "ready (s\<lparr>hs_w := w\<rparr>) = ready s" "queued (s\<lparr>hs_w := w\<rparr>) = queued s"
  by (simp_all add: queue_of_def ready_def queued_def)

text \<open>One receive moves a non-empty piece of the stream into the queue, if the piece fits into the
  511 bytes of \<open>tmp\<close>.\<close>

lemma client_recv_ok:
  assumes net: "stream_ok N sent incoming got lim" and s: "ready s" and inc: "incoming (hs_w s) \<noteq> []"
    and n: "0 < n" "length (queued s) + n \<le> 1023" and lim: "n \<le> 511 \<or> lim \<le> 511"
  shows "\<exists>ret s'. client_recv N s (word_of_nat n) = Some (ret, s') \<and> 0 < ret \<and> ready s' \<and>
    pending incoming s' = pending incoming s \<and> moved sent got s s' \<and>
    length (queued s) < length (queued s') \<and> length (queued s') \<le> length (queued s) + n"
proof -
  from s obtain q where q: "queue_of s = Some q" "queue_ok q" and qn: "length (queued s) \<le> 1023"
    and cap: "unat (ringbuf_capacity q) = 1023 - length (queued s)" by (rule readyE)
  have un: "unat (word_of_nat n :: 16 word) = n" using n by (intro unat_u16_of_nat) simp
  then have le: "\<not> ringbuf_capacity q < word_of_nat n" using n cap by (simp add: word_less_nat_alt)
  from net n(1) inc obtain k w' where r: "hn_recv N (hc_cipher (hs_cli s)) (hc_sock (hs_cli s)) n (hs_w s) = (int k, take k (incoming (hs_w s)), w')"
      and k: "0 < k" "k \<le> n" "k \<le> lim" "k \<le> length (incoming (hs_w s))"
      and w': "incoming w' = drop k (incoming (hs_w s))" "sent w' = sent (hs_w s)" "got w' = got (hs_w s)"
    unfolding stream_ok_def by blast
  define tmp where "tmp = take k (incoming (hs_w s)) @ replicate (511 - k) 0"
  have "k \<le> 511" using k lim by auto
  with k(4) have tmp: "mem_write (replicate MAX_TMP_BUF_SIZE 0) 0 (take k (incoming (hs_w s))) = Some tmp"
    by (simp add: mem_write_zero MAX_TMP_BUF_SIZE_def CHUNK_SIZE_def RINGBUFFER_SIZE_def tmp_def)
  have "length (queued (s\<lparr>hs_w := w'\<rparr>)) + k \<le> 1023" "k \<le> length tmp" using k n by (auto simp: tmp_def)
  then obtain q' where q': "q_push (s\<lparr>hs_w := w'\<rparr>) tmp (int k) = Some (0, set_queue q' (s\<lparr>hs_w := w'\<rparr>))" "queue_ok q'"
      "rb_contents q' = queued s @ take k tmp"
    using q_push_ok [of "s\<lparr>hs_w := w'\<rparr>" k tmp] s k(1) by auto
  have c: "rb_contents q' = queued s @ take k (incoming (hs_w s))" using q'(3) k(4) by (simp add: tmp_def)
  show ?thesis
  proof (intro exI [of _ "int k"] exI [of _ "set_queue q' (s\<lparr>hs_w := w'\<rparr>)"] conjI)
    show "client_recv N s (word_of_nat n) = Some (int k, set_queue q' (s\<lparr>hs_w := w'\<rparr>))"
      using q(1) le un r tmp q'(1) k(1) by (simp add: client_recv_def Let_def)
    show "moved sent got s (set_queue q' (s\<lparr>hs_w := w'\<rparr>))" using w'(2,3) by (auto simp: moved_def)
  qed (use k q'(2) c w' in \<open>auto simp: ready_set_queue pending_def\<close>)
qed

section \<open>Lines\<close>

text \<open>The test at the head of the loop: only the complete line ends in the two characters.\<close>

lemma line_end_test:
  assumes "13 \<notin> set l" and "x @ y = l @ CRLF" and "take (length x) buf = x" and "2 \<le> length x"
  shows "\<exists>r. strncmp (drop (length x - 2) buf) (CRLF @ [0]) 2 = Some r \<and> (r = 0 \<longleftrightarrow> y = [])"
proof -
  define z where "z = take (length x - 2) x"
  define d where "d = drop (length x - 2) x"
  have zd: "x = z @ d" and "length d = Suc (Suc 0)" using assms(4) by (simp_all add: z_def d_def)
  then obtain a b where "d = [a, b]" by (cases d) (auto simp: length_Suc_conv)
  with zd have x: "x = z @ [a, b]" by simp
  obtain rest where buf: "buf = x @ rest" using assms(3) by (metis append_take_drop_id)
  have "y = [] \<longleftrightarrow> a = 13 \<and> b = 10"
  proof
    assume "y = []"
    then have "z @ [a, b] = l @ [13, 10]" using assms(2) x by (simp add: CRLF_def)
    then show "a = 13 \<and> b = 10" by simp
  next
    assume ab: "a = 13 \<and> b = 10"
    have "z @ 13 # 10 # y = l @ 13 # [10]" using assms(2) x ab by (simp add: CRLF_def)
    then have "z = l" and "10 # y = [10]" using assms(1)
      by (auto simp: append_eq_append_conv2 append_eq_Cons_conv Cons_eq_append_conv)
    then show "y = []" by simp
  qed
  moreover have "drop (length x - 2) buf = a # b # rest" using x buf by simp
  moreover have "\<exists>r. strncmp (a # b # rest) (CRLF @ [0]) 2 = Some r \<and> (r = 0 \<longleftrightarrow> take 2 (a # b # rest) = take 2 (CRLF @ [0]))"
    by (rule strncmp_take) (simp_all add: CRLF_def)
  ultimately show ?thesis by (simp add: CRLF_def)
qed

lemma wait_test:
  assumes "13 \<notin> set l" and "x @ y = l @ CRLF" and "take (length x) buf = x"
  shows "\<exists>r. (if length x < 2 then Some 1 else strncmp (drop (length x - 2) buf) (CRLF @ [0]) 2) = Some r \<and> (r = 0 \<longleftrightarrow> y = [])"
proof (cases "length x < 2")
  case True
  moreover from this have "y \<noteq> []" using arg_cong [OF assms(2), of length] by (auto simp: CRLF_def)
  ultimately show ?thesis by simp
next
  case False
  then show ?thesis using line_end_test [OF assms] by auto
qed

text \<open>A byte of the queue goes to the buffer.\<close>

lemma wait_loop_pop:
  assumes l: "13 \<notin> set l" and xy: "x @ c # y = l @ CRLF" and buf: "take (length x) buf = x"
    and len: "length x + 1 < length buf" and mx: "length x + 1 < maxsize"
    and s: "ready s" and q: "queued s = c # r"
  shows "\<exists>buf' q'. wait_loop N s buf (length x) maxsize = wait_loop N (set_queue q' s) buf' (length (x @ [c])) maxsize \<and>
    take (length (x @ [c])) buf' = x @ [c] \<and> buf' ! (length (x @ [c])) = 0 \<and> length buf' = length buf \<and>
    queue_ok q' \<and> rb_contents q' = r"
proof -
  obtain t where t: "(if length x < 2 then Some 1 else strncmp (drop (length x - 2) buf) (CRLF @ [0]) 2) = Some t" and t0: "t \<noteq> 0"
    using wait_test [OF l xy buf] by auto
  obtain q' where q': "q_pop s (drop (length x) buf) 1 = Some (0, c # drop (length x + 1) buf, set_queue q' s)"
      and ok: "queue_ok q'" "rb_contents q' = r"
    using q_pop_ok [OF s, of 1 "drop (length x) buf"] q len by (auto simp: Suc_le_eq)
  define b where "b = x @ c # drop (length x + 1) buf"
  have b: "take (length x) buf @ c # drop (length x + 1) buf = b" by (simp add: b_def buf)
  have lb: "length b = length buf" using len by (simp add: b_def)
  then have w: "write_at b (length x + 1) 0 = Some (b[length x + 1 := 0])" using len by (simp add: write_at_def)
  show ?thesis
  proof (intro exI [of _ "b[length x + 1 := 0]"] exI [of _ q'] conjI)
    show "wait_loop N s buf (length x) maxsize = wait_loop N (set_queue q' s) (b[length x + 1 := 0]) (length (x @ [c])) maxsize"
      by (subst wait_loop.simps) (use t t0 q' b w mx in \<open>simp add: Let_def\<close>)
    show "take (length (x @ [c])) (b[length x + 1 := 0]) = x @ [c]" by (simp add: b_def)
    show "(b[length x + 1 := 0]) ! length (x @ [c]) = 0" using lb len by simp
  qed (use ok lb in simp_all)
qed

text \<open>An empty queue is refilled.\<close>

lemma wait_loop_refill:
  assumes net: "stream_ok N sent incoming got lim"
    and l: "13 \<notin> set l" and xy: "x @ y = l @ CRLF" "y \<noteq> []" and buf: "take (length x) buf = x"
    and s: "ready s" "queued s = []" and inc: "incoming (hs_w s) \<noteq> []"
  shows "\<exists>s'. wait_loop N s buf (length x) maxsize = wait_loop N s' buf (length x) maxsize \<and> ready s' \<and>
    pending incoming s' = pending incoming s \<and> moved sent got s s' \<and> queued s' \<noteq> []"
proof -
  obtain t where t: "(if length x < 2 then Some 1 else strncmp (drop (length x - 2) buf) (CRLF @ [0]) 2) = Some t" and t0: "t \<noteq> 0"
    using wait_test [OF l xy(1) buf] xy(2) by auto
  have p: "q_pop s (drop (length x) buf) 1 = Some (-1, drop (length x) buf, s)" using q_pop_short [OF s(1), of 1] s(2) by simp
  from s(1) obtain q where q: "queue_of s = Some q" and cap: "unat (ringbuf_capacity q) = 1023 - length (queued s)" by (rule readyE)
  obtain ret s' where r: "client_recv N s (word_of_nat LINE_CHUNK) = Some (ret, s')" "0 < ret" "ready s'"
      "pending incoming s' = pending incoming s" "moved sent got s s'" "length (queued s) < length (queued s')"
    using client_recv_ok [OF net s(1) inc, of LINE_CHUNK] s(2) by (auto simp: LINE_CHUNK_def)
  show ?thesis
  proof (intro exI [of _ s'] conjI r(3-5))
    show "wait_loop N s buf (length x) maxsize = wait_loop N s' buf (length x) maxsize"
      by (subst wait_loop.simps) (use t t0 p q cap r s(2) in \<open>simp add: Let_def LINE_CHUNK_def\<close>)
    show "queued s' \<noteq> []" using r(6) by auto
  qed
qed

lemma wait_loop_reads:
  assumes net: "stream_ok N sent incoming got lim" and l: "13 \<notin> set l"
    and len: "length l + 2 < length buf" and mx: "length l + 2 < maxsize"
    and xy: "x @ y = l @ CRLF" and buf: "take (length x) buf = x" and nul: "x \<noteq> [] \<longrightarrow> buf ! length x = 0"
    and s: "ready s" and pend: "pending incoming s = y @ rest"
  shows "\<exists>buf' s'. wait_loop N s buf (length x) maxsize = Some (Some (length l), buf', s') \<and>
    take (length l + 3) buf' = l @ CRLF @ [0] \<and> length buf' = length buf \<and>
    ready s' \<and> pending incoming s' = rest \<and> moved sent got s s'"
  using len xy buf nul s pend
proof (induction y arbitrary: x buf s)
  case Nil
  obtain r where "(if length x < 2 then Some 1 else strncmp (drop (length x - 2) buf) (CRLF @ [0]) 2) = Some r" "r = 0"
    using wait_test [OF l Nil.prems(2,3)] by auto
  moreover have x: "x = l @ CRLF" and lx: "length x = length l + 2" using Nil.prems(2) by (auto simp: CRLF_def)
  ultimately have "wait_loop N s buf (length x) maxsize = Some (Some (length l), buf, s)"
    by (subst wait_loop.simps) (simp add: lx)
  moreover have "take (length l + 3) buf = l @ CRLF @ [0]"
    using take_Suc_conv_app_nth [of "length x" buf] Nil.prems lx x by (simp add: CRLF_def numeral_3_eq_3)
  ultimately show ?case using Nil.prems moved_refl by auto
next
  case (Cons c y)
  have lx: "length x + 1 + length y = length l + 2" using arg_cong [OF Cons.prems(2), of length] by (simp add: CRLF_def)
  obtain s1 where s1: "wait_loop N s buf (length x) maxsize = wait_loop N s1 buf (length x) maxsize" "ready s1"
      "pending incoming s1 = c # y @ rest" "moved sent got s s1" "queued s1 \<noteq> []"
  proof (cases "queued s = []")
    case True
    then have "incoming (hs_w s) \<noteq> []" using Cons.prems(6) by (simp add: pending_def)
    from wait_loop_refill [OF net l Cons.prems(2) _ Cons.prems(3,5) True this] Cons.prems(6) that show thesis by auto
  next
    case False
    then show thesis using that [of s] Cons.prems moved_refl by auto
  qed
  then obtain r where r: "queued s1 = c # r" by (cases "queued s1") (auto simp: pending_def)
  obtain buf' q' where step: "wait_loop N s1 buf (length x) maxsize = wait_loop N (set_queue q' s1) buf' (length (x @ [c])) maxsize"
      and b: "take (length (x @ [c])) buf' = x @ [c]" "buf' ! (length (x @ [c])) = 0" "length buf' = length buf"
      and q': "queue_ok q'" "rb_contents q' = r"
    using wait_loop_pop [OF l Cons.prems(2,3) _ _ s1(2) r, of maxsize N] lx Cons.prems(1) mx by auto
  have "pending incoming (set_queue q' s1) = y @ rest" using s1(3) r q'(2) by (simp add: pending_def)
  moreover have "moved sent got s1 (set_queue q' s1)" by (rule moved_set_queue)
  then have "moved sent got s (set_queue q' s1)" by (rule moved_trans [OF s1(4)])
  then have "moved sent got (set_queue q' s1) s' \<Longrightarrow> moved sent got s s'" for s' by (rule moved_trans)
  ultimately show ?case
    using Cons.IH [of buf' "x @ [c]" "set_queue q' s1"] Cons.prems b q'(1) s1(1) step
    by (auto simp: ready_set_queue)
qed

text \<open>A line is read completely and nothing behind it, whatever pieces the network delivers.\<close>

lemma wait_line_reads:
  assumes "stream_ok N sent incoming got lim" and "ready s" and "pending incoming s = l @ CRLF @ rest" and "13 \<notin> set l"
    and "length l + 2 < length buf" and "length l + 2 < maxsize"
  shows "\<exists>buf' s'. wait_line N s buf maxsize = Some (Some (length l), l @ CRLF @ 0 # buf', s') \<and>
    length (l @ CRLF @ 0 # buf') = length buf \<and> ready s' \<and> pending incoming s' = rest \<and> moved sent got s s'"
proof -
  from wait_loop_reads [OF assms(1,4-6), of "[]" "l @ CRLF" s rest] assms(2,3)
  obtain b s' where b: "wait_line N s buf maxsize = Some (Some (length l), b, s')" "take (length l + 3) b = l @ CRLF @ [0]"
      "length b = length buf" and s': "ready s'" "pending incoming s' = rest" "moved sent got s s'"
    by (auto simp: wait_line_def)
  have "b = l @ CRLF @ 0 # drop (length l + 3) b" using append_take_drop_id [of "length l + 3" b] b(2) by simp
  with b s' show ?thesis by metis
qed

section \<open>The status line and the headers\<close>

definition OK_text :: bytes where "OK_text = lit '' OK''"

text \<open>\<open>ds\<close> are the characters of the code.\<close>

definition status_code :: "bytes \<Rightarrow> int \<Rightarrow> bool" where
  "status_code ds code \<longleftrightarrow> length ds < 8 \<and> 0 \<notin> set ds \<and> 13 \<notin> set ds \<and> 32 \<notin> set ds \<and> c_atoi ds = Some code \<and> 0 \<le> code \<and> code < 65536"

lemma lit_simps: "lit (c # s) = word_of_nat (of_char c) # lit s" "lit [] = []"
  by (simp_all add: lit_def)

lemma copy_till_code:
  assumes "status_code ds code" and "0 \<notin> set y"
  shows "\<exists>p. copy_till_to_int (ds @ OK_text @ y @ 0 # rest) OK_text = Some (Some (code, p))"
proof -
  have OK: "OK_text = 32 # [79, 75]" by (simp add: OK_text_def lit_simps)
  have d: "32 \<notin> set ds" "0 \<notin> set ds" "length ds < 8" "c_atoi ds = Some code" using assms(1) by (auto simp: status_code_def)
  have "copy_till (ds @ (32 # [79, 75]) @ y @ 0 # rest) (32 # [79, 75]) (replicate 8 0) =
      Some (Some (ds @ 0 # drop (length ds + 1) (replicate 8 0), length ds + length (32 # [79, 75 :: byte])))"
    using d assms(2) by (intro copy_till_copies) auto
  then show ?thesis using d by (simp add: copy_till_to_int_def OK cstr_terminated)
qed

lemma receive_response_reads:
  assumes net: "stream_ok N sent incoming got lim" and s: "ready s" and code: "status_code ds code"
    and y: "0 \<notin> set y" "13 \<notin> set y" "length y < 1000"
    and inc: "incoming (hs_w s) = lit ''HTTP/1.1 '' @ ds @ OK_text @ y @ CRLF @ rest"
  shows "\<exists>s' cli. receive_response N s = Some (0, s'\<lparr>hs_res := (hs_res s)\<lparr>r_code := word_of_int code, r_is_chunked := 0\<rparr>, hs_cli := cli\<rparr>) \<and>
    ready s' \<and> cli = (hs_cli s')\<lparr>hc_response_code := code\<rparr> \<and> pending incoming s' = rest \<and> moved sent got s s'"
proof -
  define v where "v = lit ''HTTP/1.1 ''"
  define l where "l = v @ ds @ OK_text @ y"
  have v: "length v = 9" "0 \<notin> set v" "13 \<notin> set v" "v = 72 # tl v" by (simp_all add: v_def lit_simps)
  have ok: "length OK_text = 3" "0 \<notin> set OK_text" "13 \<notin> set OK_text" by (simp_all add: OK_text_def lit_simps)
  have ds: "length ds < 8" "0 \<notin> set ds" "13 \<notin> set ds" "0 \<le> code" "code < 65536" using code by (auto simp: status_code_def)
  have l: "13 \<notin> set l" "0 \<notin> set l" "length l + 2 < RINGBUFFER_SIZE" "\<not> length l < 10"
    using v ok ds y by (auto simp: l_def RINGBUFFER_SIZE_def)
  from q_clear_ok [OF s] obtain q where q: "q_clear s = Some (set_queue q s)" "queue_ok q" "rb_contents q = []" by blast
  have p: "pending incoming (set_queue q s) = l @ CRLF @ rest" using q(3) inc by (simp add: pending_def l_def v_def)
  from wait_line_reads [OF net ready_set_queue [OF q(2)] p l(1), of "replicate RINGBUFFER_SIZE 0" RINGBUFFER_SIZE] l(3)
  obtain b s' where w: "wait_line N (set_queue q s) (replicate RINGBUFFER_SIZE 0) RINGBUFFER_SIZE = Some (Some (length l), l @ CRLF @ 0 # b, s')"
      "ready s'" "pending incoming s' = rest" "moved sent got (set_queue q s) s'" by auto
  have "write_at (l @ CRLF @ 0 # b) (length l) 0 = Some (l @ 0 # 10 # 0 # b)" by (simp add: write_at_def CRLF_def list_update_append)
  then have st: "status_line N (set_queue q s) (replicate RINGBUFFER_SIZE 0) = Some (Some (l @ 0 # 10 # 0 # b), s')"
    by (subst status_line.simps) (use w(1) l(4) in simp)
  have mv: "moved sent got s s'" by (rule moved_trans [OF moved_set_queue w(4)])
  have "strstr l v = Some 0" unfolding l_def using v by (cases v) auto
  moreover have "drop 9 (l @ 0 # 10 # 0 # b) = ds @ OK_text @ y @ 0 # 10 # 0 # b" using v(1) by (simp add: l_def)
  moreover from copy_till_code [OF code y(1), of "10 # 0 # b"] obtain pp where
    "copy_till_to_int (ds @ OK_text @ y @ 0 # 10 # 0 # b) OK_text = Some (Some (code, pp))" by blast
  moreover have "store_code code (hs_res s') = (hs_res s)\<lparr>r_code := word_of_int code, r_is_chunked := 0\<rparr>"
  proof -
    have "unat (word_of_int code :: 32 word) = nat code" using ds(4,5) by (simp add: unat_eq_nat_uint uint_word_of_int)
    then have "unat (drop_bit 16 (word_of_int code :: 32 word)) = drop_bit 16 (nat code)" by (simp only: unat_drop_bit_eq)
    also have "\<dots> = 0" using ds(4,5) by (simp add: drop_bit_eq_div)
    finally have "unat (drop_bit 16 (word_of_int code :: 32 word)) = 0" .
    then have "drop_bit 16 (word_of_int code :: 32 word) = 0" by (simp add: unsigned_eq_0_iff)
    then show ?thesis using movedD [OF mv] by (simp add: store_code_def)
  qed
  moreover have "uint (word_of_int code :: 16 word) = code" using ds(4,5) by (simp add: uint_word_of_int)
  ultimately show ?thesis
    using q(1) st w(2,3) mv l(2)
    by (intro exI [of _ s']) (simp add: receive_response_def cstr_terminated v_def [symmetric] OK_text_def [symmetric] Let_def)
qed

text \<open>Headers as lines of a key and a value.\<close>

fun headers_text :: "(bytes \<times> bytes) list \<Rightarrow> bytes" where
  "headers_text [] = []"
| "headers_text ((k, v) # hs) = k @ [58, 32] @ v @ CRLF @ headers_text hs"

definition header_ok :: "bytes \<times> bytes \<Rightarrow> bool" where
  "header_ok kv = (case kv of (k, v) \<Rightarrow> 58 \<notin> set k \<and> 0 \<notin> set k \<and> 13 \<notin> set k \<and> length k < 128 \<and>
     0 \<notin> set v \<and> 13 \<notin> set v \<and> length v < 512)"

fun apply_headers :: "(bytes \<times> bytes) list \<Rightarrow> 'w http_response \<Rightarrow> 'w http_response option" where
  "apply_headers [] res = Some res"
| "apply_headers ((k, v) # hs) res = do { res \<leftarrow> apply_header k v res; apply_headers hs res }"

lemma header_split:
  assumes "header_ok (k, v)"
  shows "copy_till (k @ [58, 32] @ v @ CRLF @ 0 # b) (lit '': '') (replicate (CHUNK_SIZE div 4) 0) =
      Some (Some (k @ 0 # replicate (127 - length k) 0, length k + 2))"
    and "copy_till (v @ CRLF @ 0 # b) CRLF (replicate CHUNK_SIZE 0) = Some (Some (v @ 0 # replicate (511 - length v) 0, length v + 2))"
proof -
  have "copy_till (k @ (58 # [32]) @ (v @ CRLF) @ 0 # b) (58 # [32]) (replicate 128 0) =
      Some (Some (k @ 0 # drop (length k + 1) (replicate 128 0), length k + length (58 # [32 :: byte])))"
    using assms by (intro copy_till_copies) (auto simp: header_ok_def CRLF_def)
  then show "copy_till (k @ [58, 32] @ v @ CRLF @ 0 # b) (lit '': '') (replicate (CHUNK_SIZE div 4) 0) =
      Some (Some (k @ 0 # replicate (127 - length k) 0, length k + 2))"
    by (simp add: lit_simps CHUNK_SIZE_def RINGBUFFER_SIZE_def)
  have "copy_till (v @ (13 # [10]) @ [] @ 0 # b) (13 # [10]) (replicate 512 0) =
      Some (Some (v @ 0 # drop (length v + 1) (replicate 512 0), length v + length (13 # [10 :: byte])))"
    using assms by (intro copy_till_copies) (auto simp: header_ok_def)
  then show "copy_till (v @ CRLF @ 0 # b) CRLF (replicate CHUNK_SIZE 0) = Some (Some (v @ 0 # replicate (511 - length v) 0, length v + 2))"
    by (simp add: CRLF_def CHUNK_SIZE_def RINGBUFFER_SIZE_def)
qed

lemma res_update_simps [simp]:
  "queue_of (s\<lparr>hs_res := r\<rparr>) = queue_of s" "ready (s\<lparr>hs_res := r\<rparr>) = ready s" "queued (s\<lparr>hs_res := r\<rparr>) = queued s"
  "pending incoming (s\<lparr>hs_res := r\<rparr>) = pending incoming s" "tmp_get E (s\<lparr>hs_res := r\<rparr>) = tmp_get E s"
  by (simp_all add: queue_of_def ready_def queued_def pending_def tmp_get_def)

lemma moved_res: "moved sent got s s' \<Longrightarrow> moved sent got (s\<lparr>hs_res := r\<rparr>) (s'\<lparr>hs_res := r\<rparr>)"
  by (cases s) (auto simp: moved_def set_queue_def)

lemma receive_headers_reads:
  assumes net: "stream_ok N sent incoming got lim" and hs: "list_all header_ok hs"
    and s: "ready s" "pending incoming s = headers_text hs @ CRLF @ rest" "apply_headers hs (hs_res s) = Some res"
  shows "\<exists>s'. receive_headers N s = Some (0, s') \<and> hs_res s' = res \<and> ready s' \<and> pending incoming s' = rest \<and>
    moved sent got (s\<lparr>hs_res := res\<rparr>) s'"
  using hs s
proof (induction hs arbitrary: s)
  case Nil
  from wait_line_reads [OF net Nil.prems(2), of "[]" rest "replicate RINGBUFFER_SIZE 0" RINGBUFFER_SIZE] Nil.prems(3)
  obtain b s' where w: "wait_line N s (replicate RINGBUFFER_SIZE 0) RINGBUFFER_SIZE = Some (Some 0, b, s')"
      "ready s'" "pending incoming s' = rest" "moved sent got s s'" by (auto simp: RINGBUFFER_SIZE_def)
  then have "receive_headers N s = Some (0, s')" by (subst receive_headers.simps) simp
  moreover have "res = hs_res s" using Nil.prems(4) by simp
  ultimately show ?case using w movedD [OF w(4)] by simp
next
  case (Cons kv hs)
  obtain k v where kv: "kv = (k, v)" by force
  have h: "header_ok (k, v)" using Cons.prems(1) kv by simp
  define l where "l = k @ [58, 32] @ v"
  have l: "13 \<notin> set l" "length l + 2 < length (replicate RINGBUFFER_SIZE 0 :: bytes)" "length l + 2 < RINGBUFFER_SIZE"
    using h by (auto simp: l_def header_ok_def RINGBUFFER_SIZE_def)
  from Cons.prems(4) kv obtain r1 where r1: "apply_header k v (hs_res s) = Some r1" "apply_headers hs r1 = Some res"
    by (auto simp: c_bind)
  have p: "pending incoming s = l @ CRLF @ (headers_text hs @ CRLF @ rest)" using Cons.prems(3) kv by (simp add: l_def)
  from wait_line_reads [OF net Cons.prems(2) p l] obtain b s1 where
    w: "wait_line N s (replicate RINGBUFFER_SIZE 0) RINGBUFFER_SIZE = Some (Some (length l), k @ [58, 32] @ v @ CRLF @ 0 # b, s1)"
      "ready s1" "pending incoming s1 = headers_text hs @ CRLF @ rest" "moved sent got s s1" by (auto simp: l_def)
  have "drop (length k + 2) (k @ [58, 32] @ v @ CRLF @ 0 # b) = v @ CRLF @ 0 # b" by simp
  moreover have "cstr (k @ 0 # x) = Some k" "cstr (v @ 0 # x) = Some v" for x using h by (auto simp: header_ok_def cstr_terminated)
  ultimately have "receive_headers N s = receive_headers N (s1\<lparr>hs_res := r1\<rparr>)"
    by (subst receive_headers.simps) (use w(1) r1(1) header_split [OF h] movedD [OF w(4)] in \<open>simp add: l_def Let_def\<close>)
  moreover have "list_all header_ok hs" using Cons.prems(1) by simp
  moreover from Cons.IH [OF this, of "s1\<lparr>hs_res := r1\<rparr>"] w(2,3) r1(2) obtain s' where
    s': "receive_headers N (s1\<lparr>hs_res := r1\<rparr>) = Some (0, s')" "hs_res s' = res" "ready s'" "pending incoming s' = rest"
      "moved sent got (s1\<lparr>hs_res := res\<rparr>) s'" by auto
  moreover have "moved sent got (s\<lparr>hs_res := res\<rparr>) s'" by (rule moved_trans [OF moved_res [OF w(4)] s'(5)])
  ultimately show ?case by auto
qed

section \<open>Bodies\<close>

lemma fill_loop_fills:
  assumes net: "stream_ok N sent incoming got lim" and s: "ready s" and need: "need \<le> length (pending incoming s)" "need \<le> 512"
    and lim: "need \<le> 511 \<or> lim \<le> 511"
  shows "\<exists>s'. fill_loop N s need e = Some (False, e, s') \<and> ready s' \<and> need \<le> length (queued s') \<and>
    pending incoming s' = pending incoming s \<and> moved sent got s s'"
  using s need(1)
proof (induction "need - length (queued s)" arbitrary: s rule: less_induct)
  case less
  from less.prems(1) obtain q where q: "queue_of s = Some q" and sz: "unat (ringbuf_size q) = length (queued s)" by (rule readyE)
  show ?case
  proof (cases "length (queued s) < need")
    case True
    then have inc: "incoming (hs_w s) \<noteq> []" using less.prems(2) by (auto simp: pending_def)
    have n: "0 < need - length (queued s)" "length (queued s) + (need - length (queued s)) \<le> 1023"
        "need - length (queued s) \<le> 511 \<or> lim \<le> 511"
      using True need(2) lim by auto
    obtain ret s' where r: "client_recv N s (word_of_nat (need - length (queued s))) = Some (ret, s')" "0 < ret" "ready s'"
        "pending incoming s' = pending incoming s" "moved sent got s s'" "length (queued s) < length (queued s')"
      using client_recv_ok [OF net less.prems(1) inc n] by auto
    then have "need - length (queued s') < need - length (queued s)" using True by simp
    from less.hyps [OF this r(3)] r(4) less.prems(2) obtain s'' where
      s'': "fill_loop N s' need e = Some (False, e, s'')" "ready s''" "need \<le> length (queued s'')"
        "pending incoming s'' = pending incoming s" "moved sent got s' s''" by auto
    have "fill_loop N s need e = fill_loop N s' need e"
      by (subst fill_loop.simps) (use q sz True r(1,2) in simp)
    then show ?thesis using s'' moved_trans [OF r(5) s''(5)] by auto
  next
    case False
    then have "fill_loop N s need e = Some (False, e, s)" by (subst fill_loop.simps) (use q sz in simp)
    then show ?thesis using less.prems False moved_refl by auto
  qed
qed

definition session_ok :: "http_env \<Rightarrow> (bytes \<Rightarrow> 'w \<Rightarrow> int \<times> 'w) \<Rightarrow> 'w hst \<Rightarrow> bool" where
  "session_ok E f s \<longleftrightarrow> ready s \<and> (\<exists>t. tmp_get E s = Some t \<and> length t = 512) \<and>
     p_add_handler (r_payload_meth (hs_res s)) = Custom_handler f"

lemma tmp_set_simps [simp]:
  "tmp_get E (tmp_set E b s) = Some b" "queue_of (tmp_set E b s) = queue_of s" "hs_w (tmp_set E b s) = hs_w s"
  "hs_res (tmp_set E b s) = hs_res s" "hs_cli (tmp_set E b s) = hs_cli s" "hs_reqs (tmp_set E b s) = hs_reqs s"
  "ps_blocks (hs_ps (tmp_set E b s)) = (ps_blocks (hs_ps s))(he_tmp E \<mapsto> b)"
  by (simp_all add: tmp_set_def tmp_get_def queue_of_def)

text \<open>One block goes to the handler.\<close>

lemma take_block_delivers:
  assumes net: "stream_ok N sent incoming got lim" and sink: "sink_ok f sent incoming got" and s: "session_ok E f s"
    and need: "need \<le> length (pending incoming s)" "need \<le> 512" and lim: "need \<le> 511 \<or> lim \<le> 511"
  shows "\<exists>s'. take_block N E s need e = Some (0, e, s') \<and> session_ok E f s' \<and>
    pending incoming s' = drop need (pending incoming s) \<and> got (hs_w s') = got (hs_w s) @ take need (pending incoming s) \<and> sent (hs_w s') = sent (hs_w s) \<and>
    hs_res s' = (hs_res s)\<lparr>r_processed := r_processed (hs_res s) + 1\<rparr>"
proof -
  from s have rd: "ready s" by (simp add: session_ok_def)
  from fill_loop_fills [OF net rd need lim] obtain s1 where
    s1: "fill_loop N s need e = Some (False, e, s1)" "ready s1" "need \<le> length (queued s1)"
      "pending incoming s1 = pending incoming s" "moved sent got s s1" by blast
  note mv = movedD [OF s1(5)]
  from s mv obtain t where t: "tmp_get E s1 = Some t" "length t = 512"
    and h: "p_add_handler (r_payload_meth (hs_res s1)) = Custom_handler f" by (auto simp: session_ok_def)
  from q_pop_ok [OF s1(2,3), of t] need(2) t(2) obtain q where
    q: "q_pop s1 t (int need) = Some (0, take need (queued s1) @ drop need t, set_queue q s1)" "queue_ok q"
      "rb_contents q = drop need (queued s1)" by auto
  define d where "d = take need (queued s1)"
  define b where "b = d @ drop need t"
  have "d = take need (pending incoming s1)" using s1(3) by (simp add: d_def pending_def)
  then have d: "d = take need (pending incoming s)" using s1(4) by simp
  have len: "length d = need" "length b = 512" using s1(3) t(2) need(2) by (auto simp: d_def b_def)
  have un: "unat (word_of_nat need :: 16 word) = need" using need(2) by (intro unat_u16_of_nat) simp
  have raw: "raw_bytes ((ps_blocks (hs_ps s1))(he_tmp E \<mapsto> b)) (p_stack_raw (Some (he_tmp E)) need) = Some d"
    using len need(2) by (simp add: raw_bytes_def p_stack_raw_def un mem_read_def b_def)
  from sink obtain r w where f: "f d (hs_w s1) = (r, w)" "0 \<le> r" "got w = got (hs_w s1) @ d" "incoming w = incoming (hs_w s1)" "sent w = sent (hs_w s1)"
    unfolding sink_ok_def by blast
  define s2 where "s2 = (tmp_set E b (set_queue q s1))\<lparr>hs_w := w, hs_res := (hs_res s1)\<lparr>r_processed := r_processed (hs_res s1) + 1\<rparr>\<rparr>"
  have "take_block N E s need e = Some (0, e, s2)"
    using s1(1) t(1) q(1) raw f(1,2) h
    by (simp add: take_block_def Let_def d_def [symmetric] b_def [symmetric] http_response_add_payload_def call_handler_def s2_def not_less)
  moreover have "queue_of s2 = Some q" "tmp_get E s2 = Some b" "hs_w s2 = w"
      "hs_res s2 = (hs_res s1)\<lparr>r_processed := r_processed (hs_res s1) + 1\<rparr>"
    by (simp_all add: s2_def queue_of_def tmp_set_def tmp_get_def set_queue_def)
  moreover from this have "session_ok E f s2" using q(2) len h by (simp add: session_ok_def ready_def)
  moreover have "rb_contents q @ incoming w = drop need (pending incoming s1)"
    using q(3) s1(3) f(4) by (simp add: pending_def)
  then have "rb_contents q @ incoming w = drop need (pending incoming s)" using s1(4) by simp
  ultimately show ?thesis using mv f(3,5) d by (auto simp: pending_def queued_def)
qed

lemma data_loop_delivers:
  assumes net: "stream_ok N sent incoming got lim" and sink: "sink_ok f sent incoming got" and s: "session_ok E f s"
    and n: "n \<le> length (pending incoming s)" and lim: "n \<le> 511 \<or> lim \<le> 511"
  shows "\<exists>s' k. data_loop N E s n e = Some (0, e, s') \<and> session_ok E f s' \<and>
    pending incoming s' = drop n (pending incoming s) \<and> got (hs_w s') = got (hs_w s) @ take n (pending incoming s) \<and> sent (hs_w s') = sent (hs_w s) \<and>
    hs_res s' = (hs_res s)\<lparr>r_processed := k\<rparr>"
  using s n lim
proof (induction n arbitrary: s rule: less_induct)
  case (less n)
  show ?case
  proof (cases "n = 0")
    case True
    then show ?thesis using less.prems by (intro exI [of _ s] exI [of _ "r_processed (hs_res s)"]) (simp add: data_loop.simps)
  next
    case False
    define need where "need = min n 512"
    have need: "need \<le> length (pending incoming s)" "need \<le> 512" "need \<le> 511 \<or> lim \<le> 511"
      using less.prems(2,3) by (auto simp: need_def)
    from take_block_delivers [OF net sink less.prems(1) need, of e] obtain s1 where
      s1: "take_block N E s need e = Some (0, e, s1)" "session_ok E f s1" "pending incoming s1 = drop need (pending incoming s)"
        "got (hs_w s1) = got (hs_w s) @ take need (pending incoming s)" "sent (hs_w s1) = sent (hs_w s)"
        "hs_res s1 = (hs_res s)\<lparr>r_processed := r_processed (hs_res s) + 1\<rparr>" by blast
    have "n - need < n" using False by (simp add: need_def)
    moreover have "n - need \<le> length (pending incoming s1)" "n - need \<le> 511 \<or> lim \<le> 511"
      using s1(3) less.prems(2,3) by auto
    ultimately obtain s2 k where
      s2: "data_loop N E s1 (n - need) e = Some (0, e, s2)" "session_ok E f s2"
        "pending incoming s2 = drop (n - need) (pending incoming s1)"
        "got (hs_w s2) = got (hs_w s1) @ take (n - need) (pending incoming s1)" "sent (hs_w s2) = sent (hs_w s1)" "hs_res s2 = (hs_res s1)\<lparr>r_processed := k\<rparr>"
      using less.IH [OF _ s1(2)] by blast
    have "data_loop N E s n e = Some (0, e, s2)"
      by (subst data_loop.simps) (use False s1(1) s2(1) in \<open>simp add: Let_def CHUNK_SIZE_def RINGBUFFER_SIZE_def need_def [symmetric]\<close>)
    moreover have "take n p = take need p @ take (n - need) (drop need p)" for p :: bytes
      using take_add [of need "n - need" p] by (simp add: need_def)
    ultimately show ?thesis using s1 s2 by (intro exI [of _ s2] exI [of _ k]) (simp add: need_def)
  qed
qed

text \<open>What RFC 7230 calls a chunk: a line with the size in hexadecimal digits, the data and a line end. The
  client copies the size to eight characters.\<close>

definition size_line :: "bytes \<Rightarrow> nat \<Rightarrow> bool" where
  "size_line h n \<longleftrightarrow> length h < 8 \<and> 0 \<notin> set h \<and> 13 \<notin> set h \<and> c_strtol 16 h = int n"

fun chunks_text :: "(bytes \<times> bytes) list \<Rightarrow> bytes" where
  "chunks_text [] = []"
| "chunks_text ((h, c) # cs) = h @ CRLF @ c @ CRLF @ chunks_text cs"

lemma copy_till_hex_line:
  assumes "size_line h n"
  shows "\<exists>p. copy_till_hex_to_int (h @ CRLF @ 0 # rest) CRLF = Some (Some (int n, p))"
proof -
  have h: "13 \<notin> set h" "0 \<notin> set h" "length h < 8" "c_strtol 16 h = int n" using assms by (auto simp: size_line_def)
  have "copy_till (h @ (13 # [10]) @ [] @ 0 # rest) (13 # [10]) (replicate 8 0) =
      Some (Some (h @ 0 # drop (length h + 1) (replicate 8 0), length h + length (13 # [10 :: byte])))"
    using h by (intro copy_till_copies) auto
  then show ?thesis using h by (simp add: copy_till_hex_to_int_def CRLF_def cstr_terminated)
qed

lemma get_chunked_payload_size_reads:
  assumes "stream_ok N sent incoming got lim" and "ready s" and "pending incoming s = h @ CRLF @ rest" and "size_line h n"
  shows "\<exists>s'. get_chunked_payload_size N s = Some (int n, s') \<and> ready s' \<and> pending incoming s' = rest \<and> moved sent got s s'"
proof -
  have "13 \<notin> set h" "length h + 2 < length (replicate RINGBUFFER_SIZE 0 :: bytes)" "length h + 2 < RINGBUFFER_SIZE"
    using assms(4) by (auto simp: size_line_def RINGBUFFER_SIZE_def)
  from wait_line_reads [OF assms(1-3) this] obtain b s' where
    l: "wait_line N s (replicate RINGBUFFER_SIZE 0) RINGBUFFER_SIZE = Some (Some (length h), h @ CRLF @ 0 # b, s')"
      "ready s'" "pending incoming s' = rest" "moved sent got s s'" by blast
  from copy_till_hex_line [OF assms(4), of b] obtain p where "copy_till_hex_to_int (h @ CRLF @ 0 # b) CRLF = Some (Some (int n, p))" by blast
  then show ?thesis using l by (simp add: get_chunked_payload_size_def)
qed

lemma session_ok_moved: "session_ok E f s \<Longrightarrow> moved sent got s s' \<Longrightarrow> ready s' \<Longrightarrow> session_ok E f s'"
  by (simp add: session_ok_def movedD)

lemma next_line_skipped:
  assumes net: "stream_ok N sent incoming got lim" and s: "session_ok E f s" and p: "pending incoming s = CRLF @ rest"
  shows "\<exists>t l s'. tmp_get E s = Some t \<and> wait_line N s t CHUNK_SIZE = Some l \<and> tmp_set E (fst (snd l)) (snd (snd l)) = s' \<and>
    session_ok E f s' \<and> pending incoming s' = rest \<and> got (hs_w s') = got (hs_w s) \<and> sent (hs_w s') = sent (hs_w s) \<and> hs_res s' = hs_res s"
proof -
  from s obtain t where t: "tmp_get E s = Some t" "length t = 512" and rd: "ready s" by (auto simp: session_ok_def)
  from wait_line_reads [OF net rd, of "[]" rest t CHUNK_SIZE] p t(2) obtain b s' where
    l: "wait_line N s t CHUNK_SIZE = Some (Some 0, CRLF @ 0 # b, s')" "length (CRLF @ 0 # b) = 512" "ready s'"
      "pending incoming s' = rest" "moved sent got s s'"
    by (auto simp: CHUNK_SIZE_def RINGBUFFER_SIZE_def)
  have "session_ok E f (tmp_set E (CRLF @ 0 # b) s')"
    using s l(2,3) movedD [OF l(5)] by (simp add: session_ok_def ready_def)
  moreover have "pending incoming (tmp_set E (CRLF @ 0 # b) s') = rest" using l(4) by (simp add: pending_def queued_def)
  ultimately show ?thesis using t(1) l(1) movedD [OF l(5)]
    by (intro exI [of _ t] exI [of _ "(Some 0, CRLF @ 0 # b, s')"] exI [of _ "tmp_set E (CRLF @ 0 # b) s'"]) simp
qed

text \<open>A body in chunks: the data of the chunks is handed over in order and the rest of the stream is untouched.\<close>

lemma body_loop_chunked:
  assumes net: "stream_ok N sent incoming got lim" and sink: "sink_ok f sent incoming got"
    and s: "session_ok E f s" "r_is_chunked (hs_res s) \<noteq> 0"
    and cs: "\<forall>(h, c) \<in> set cs. c \<noteq> [] \<and> size_line h (length c) \<and> (length c \<le> 511 \<or> lim \<le> 511)"
    and z: "size_line z 0" and p: "pending incoming s = chunks_text cs @ z @ CRLF @ rest"
  shows "\<exists>s' k. body_loop N E s e = Some (0, s') \<and> got (hs_w s') = got (hs_w s) @ concat (map snd cs) \<and> sent (hs_w s') = sent (hs_w s) \<and>
    pending incoming s' = rest \<and> session_ok E f s' \<and> hs_res s' = (hs_res s)\<lparr>r_processed := k\<rparr>"
  using s cs p
proof (induction cs arbitrary: s)
  case Nil
  then have rd: "ready s" and "pending incoming s = z @ CRLF @ rest" by (auto simp: session_ok_def)
  from get_chunked_payload_size_reads [OF net this z] obtain s' where
    s': "get_chunked_payload_size N s = Some (0, s')" "ready s'" "pending incoming s' = rest" "moved sent got s s'" by auto
  then have "body_loop N E s e = Some (0, s')" by (subst body_loop.simps) (use Nil.prems(2) in \<open>simp add: next_chunk_len_def\<close>)
  then show ?case using s' session_ok_moved [OF Nil.prems(1) s'(4,2)] movedD [OF s'(4)]
    by (intro exI [of _ s'] exI [of _ "r_processed (hs_res s)"]) simp
next
  case (Cons hc cs)
  obtain h c where hc: "hc = (h, c)" by force
  with Cons.prems(3) have c: "c \<noteq> []" "size_line h (length c)" "length c \<le> 511 \<or> lim \<le> 511" by auto
  have rd: "ready s" and p: "pending incoming s = h @ CRLF @ (c @ CRLF @ chunks_text cs @ z @ CRLF @ rest)"
    using Cons.prems(1,4) hc by (simp_all add: session_ok_def)
  from get_chunked_payload_size_reads [OF net rd p c(2)] obtain s1 where
    s1: "get_chunked_payload_size N s = Some (int (length c), s1)" "ready s1"
      "pending incoming s1 = c @ CRLF @ chunks_text cs @ z @ CRLF @ rest" "moved sent got s s1" by auto
  note m1 = movedD [OF s1(4)]
  from data_loop_delivers [OF net sink session_ok_moved [OF Cons.prems(1) s1(4,2)] _ c(3), of e] s1(3) obtain s2 k where
    s2: "data_loop N E s1 (length c) e = Some (0, e, s2)" "session_ok E f s2"
      "pending incoming s2 = CRLF @ chunks_text cs @ z @ CRLF @ rest"
      "got (hs_w s2) = got (hs_w s1) @ c" "sent (hs_w s2) = sent (hs_w s1)" "hs_res s2 = (hs_res s1)\<lparr>r_processed := k\<rparr>" by auto
  from next_line_skipped [OF net s2(2,3)] obtain t l s3 where
    s3: "tmp_get E s2 = Some t" "wait_line N s2 t CHUNK_SIZE = Some l" "tmp_set E (fst (snd l)) (snd (snd l)) = s3" "session_ok E f s3"
      "pending incoming s3 = chunks_text cs @ z @ CRLF @ rest" "got (hs_w s3) = got (hs_w s2)" "hs_res s3 = hs_res s2" "sent (hs_w s3) = sent (hs_w s2)" by blast
  have "body_loop N E s e = body_loop N E s3 e"
    by (subst body_loop.simps)
      (use Cons.prems(2) s1(1) s2(1,6) s3(1-3) m1 c(1) in \<open>simp add: next_chunk_len_def Let_def\<close>)
  moreover have "r_is_chunked (hs_res s3) \<noteq> 0" using Cons.prems(2) s3(7) s2(6) m1 by simp
  moreover have "\<forall>(h, c) \<in> set cs. c \<noteq> [] \<and> size_line h (length c) \<and> (length c \<le> 511 \<or> lim \<le> 511)" using Cons.prems(3) by simp
  ultimately obtain s' k' where "body_loop N E s e = Some (0, s')" "got (hs_w s') = got (hs_w s3) @ concat (map snd cs)" "sent (hs_w s') = sent (hs_w s3)"
      "pending incoming s' = rest" "session_ok E f s'" "hs_res s' = (hs_res s3)\<lparr>r_processed := k'\<rparr>"
    using Cons.IH [of s3] s3(4,5) by auto
  then show ?case using s3(6-8) s2(4-6) m1 hc by (intro exI [of _ s'] exI [of _ k']) simp
qed

lemma body_loop_length:
  assumes net: "stream_ok N sent incoming got lim" and sink: "sink_ok f sent incoming got"
    and s: "session_ok E f s" "r_is_chunked (hs_res s) = 0" and n: "sint (r_content_length (hs_res s)) = int (length body)"
    and lim: "length body \<le> 511 \<or> lim \<le> 511" and p: "pending incoming s = body @ rest"
  shows "\<exists>s' k. body_loop N E s e = Some (0, s') \<and> got (hs_w s') = got (hs_w s) @ body \<and> sent (hs_w s') = sent (hs_w s) \<and>
    pending incoming s' = rest \<and> session_ok E f s' \<and> hs_res s' = (hs_res s)\<lparr>r_processed := k\<rparr>"
proof (cases "body = []")
  case True
  then have "body_loop N E s e = Some (0, s)" by (subst body_loop.simps) (use s n in \<open>simp add: next_chunk_len_def\<close>)
  with True s p show ?thesis by (intro exI [of _ s] exI [of _ "r_processed (hs_res s)"]) simp
next
  case False
  from data_loop_delivers [OF net sink s(1) _ lim, of e] p obtain s2 k where
    s2: "data_loop N E s (length body) e = Some (0, e, s2)" "session_ok E f s2" "pending incoming s2 = rest"
      "got (hs_w s2) = got (hs_w s) @ body" "sent (hs_w s2) = sent (hs_w s)" "hs_res s2 = (hs_res s)\<lparr>r_processed := k\<rparr>" by auto
  have "body_loop N E s e = Some (0, s2)"
    by (subst body_loop.simps) (use s(2) n s2(1,6) False in \<open>simp add: next_chunk_len_def Let_def\<close>)
  with s2 show ?thesis by (intro exI [of _ s2] exI [of _ k]) simp
qed

end
