(* ===== verification/Http_Send.thy ===== *)
theory Http_Send
  imports Http_Receive
begin

text \<open>
  What the HTTP client sends. \<open>send_ok\<close> says that \<open>send\<close> transmits the block it gets. The lemmas show the text of the
  request line, of the headers and of the payload, plain and in chunks, under the conditions
  that the texts fit the buffers.
\<close>

section \<open>The wire\<close>

text \<open>The world \<open>w'\<close> follows \<open>w\<close> when the bytes \<open>x\<close> have been sent.\<close>

definition says :: "('w \<Rightarrow> bytes) \<Rightarrow> ('w \<Rightarrow> bytes) \<Rightarrow> ('w \<Rightarrow> bytes) \<Rightarrow> 'w \<Rightarrow> bytes \<Rightarrow> 'w \<Rightarrow> bool" where
  "says sent incoming got w x w' \<longleftrightarrow> sent w' = sent w @ x \<and> incoming w' = incoming w \<and> got w' = got w"

definition send_ok :: "'w http_net \<Rightarrow> ('w \<Rightarrow> bytes) \<Rightarrow> ('w \<Rightarrow> bytes) \<Rightarrow> ('w \<Rightarrow> bytes) \<Rightarrow> bool" where
  "send_ok N sent incoming got \<longleftrightarrow>
     (\<forall>c sock d w. \<exists>w'. hn_send N c sock d w = (int (length d), w') \<and> says sent incoming got w d w')"

text \<open>The client is between two lines: the queue is empty and \<open>tmpbuffer\<close> is in place.\<close>

definition idle :: "http_env \<Rightarrow> 'w hst \<Rightarrow> bool" where
  "idle E s \<longleftrightarrow> ready s \<and> queued s = [] \<and> (\<exists>t. tmp_get E s = Some t \<and> length t = 512)"

text \<open>Only the queue, \<open>tmpbuffer\<close> and the world have changed, and \<open>x\<close> has been sent.\<close>

definition spoke :: "('w \<Rightarrow> bytes) \<Rightarrow> ('w \<Rightarrow> bytes) \<Rightarrow> ('w \<Rightarrow> bytes) \<Rightarrow> http_env \<Rightarrow> 'w hst \<Rightarrow> bytes \<Rightarrow> 'w hst \<Rightarrow> bool" where
  "spoke sent incoming got E s x s' \<longleftrightarrow>
     (\<exists>q b w. s' = set_queue q (tmp_set E b (s\<lparr>hs_w := w\<rparr>)) \<and> queue_ok q \<and> rb_contents q = [] \<and> length b = 512 \<and>
        says sent incoming got (hs_w s) x w)"

lemma says_trans: "says sent incoming got w x w' \<Longrightarrow> says sent incoming got w' y w'' \<Longrightarrow> says sent incoming got w (x @ y) w''"
  by (simp add: says_def)

lemma says_refl: "says sent incoming got w [] w"
  by (simp add: says_def)

lemma tmp_set_set_queue: "tmp_set E b (set_queue q s) = set_queue q (tmp_set E b s)"
  by (simp add: tmp_set_def set_queue_def)

lemma tmp_set_twice [simp]: "tmp_set E b (tmp_set E b' s) = tmp_set E b s"
  by (simp add: tmp_set_def)

lemma tmp_set_w [simp]: "(tmp_set E b s)\<lparr>hs_w := w\<rparr> = tmp_set E b (s\<lparr>hs_w := w\<rparr>)"
  by (simp add: tmp_set_def)

lemma tmp_set_ps [simp]: "ps_data (hs_ps (tmp_set E b s)) = ps_data (hs_ps s)" "ps_next (hs_ps (tmp_set E b s)) = ps_next (hs_ps s)"
  by (simp_all add: tmp_set_def)

lemma tmp_set_same: "tmp_get E s = Some b \<Longrightarrow> tmp_set E b s = s"
  by (simp add: tmp_set_def tmp_get_def fun_upd_idem)

lemma tmp_get_simps [simp]: "tmp_get E (set_queue q s) = tmp_get E s" "tmp_get E (s\<lparr>hs_w := w\<rparr>) = tmp_get E s"
  by (simp_all add: tmp_get_def)

lemma tmp_queue_simps [simp]: "ready (tmp_set E b s) = ready s" "queued (tmp_set E b s) = queued s"
  by (simp_all add: ready_def queued_def)

lemma spoke_trans:
  assumes "spoke sent incoming got E s x s'" and "spoke sent incoming got E s' y s''"
  shows "spoke sent incoming got E s (x @ y) s''"
proof -
  from assms(1) obtain q b w where 1: "s' = set_queue q (tmp_set E b (s\<lparr>hs_w := w\<rparr>))" "says sent incoming got (hs_w s) x w"
    unfolding spoke_def by blast
  from assms(2) obtain q' b' w' where 2: "s'' = set_queue q' (tmp_set E b' (s'\<lparr>hs_w := w'\<rparr>))" "queue_ok q'" "rb_contents q' = []"
      "length b' = 512" "says sent incoming got (hs_w s') y w'" unfolding spoke_def by blast
  from 1 2(1) have "s'' = set_queue q' (tmp_set E b' (s\<lparr>hs_w := w'\<rparr>))" by (simp add: tmp_set_set_queue)
  moreover have "says sent incoming got (hs_w s) (x @ y) w'" using 1 2(5) by (auto intro: says_trans)
  ultimately show ?thesis unfolding spoke_def using 2(2-4) by blast
qed

lemma spoke_idle: "spoke sent incoming got E s x s' \<Longrightarrow> idle E s'"
  by (auto simp: spoke_def idle_def ready_set_queue tmp_set_set_queue [symmetric])

lemma spoke_says: "spoke sent incoming got E s x s' \<Longrightarrow> says sent incoming got (hs_w s) x (hs_w s')"
  by (auto simp: spoke_def)

lemma idleE:
  assumes "idle E s"
  obtains t where "tmp_get E s = Some t" and "length t = 512" and "ready s" and "queued s = []"
  using assms by (auto simp: idle_def)

lemma spoke_refl: "idle E s \<Longrightarrow> spoke sent incoming got E s [] s"
  unfolding spoke_def
  by (elim idleE readyE) (metis hst.surjective hst.update_convs(5) queue_of_w(1) set_queue_same tmp_get_simps(2) tmp_set_same says_refl)

lemma spoke_frame:
  assumes "spoke sent incoming got E s x s'"
  shows "hs_res s' = hs_res s" and "hs_reqs s' = hs_reqs s" and "ps_data (hs_ps s') = ps_data (hs_ps s)" and "ps_next (hs_ps s') = ps_next (hs_ps s)"
    and "p_value p \<noteq> Some (he_tmp E) \<Longrightarrow> p_str s' p = p_str s p"
    and "a \<noteq> he_tmp E \<Longrightarrow> ps_blocks (hs_ps s') a = ps_blocks (hs_ps s) a"
  using assms by (auto simp: spoke_def tmp_set_def p_str_def str_at_def split: bind_splits)

section \<open>Writing\<close>

lemma transmit_ok:
  assumes "send_ok N sent incoming got" and "n \<le> length b"
  shows "\<exists>w. transmit N s b n = Some (int n, s\<lparr>hs_w := w\<rparr>) \<and> says sent incoming got (hs_w s) (take n b) w"
proof -
  from assms(1) obtain w where "hn_send N (hc_cipher (hs_cli s)) (hc_sock (hs_cli s)) (take n b) (hs_w s) = (int (length (take n b)), w)"
      "says sent incoming got (hs_w s) (take n b) w" unfolding send_ok_def by blast
  then show ?thesis using assms(2) by (intro exI [of _ w]) (simp add: transmit_def mem_read_def)
qed

lemma idle_spoke:
  assumes "idle E s" and "says sent incoming got (hs_w s) x w"
  shows "spoke sent incoming got E s x (s\<lparr>hs_w := w\<rparr>)"
proof -
  from assms(1) obtain t q where "tmp_get E s = Some t" "length t = 512" "queue_of s = Some q" "queue_ok q" "rb_contents q = []"
    by (auto elim!: idleE readyE)
  moreover from this have "s\<lparr>hs_w := w\<rparr> = set_queue q (tmp_set E t (s\<lparr>hs_w := w\<rparr>))" by (simp add: tmp_set_same set_queue_same)
  ultimately show ?thesis using assms(2) unfolding spoke_def by blast
qed

lemma write_direct:
  assumes "send_ok N sent incoming got" and "idle E s" and "0 < n" and "n < 65536" and "n \<le> length b"
  shows "\<exists>s'. simple_write N s (Some b) (word_of_nat n) = Some (int n, s') \<and> spoke sent incoming got E s (take n b) s'"
proof -
  have "unat (word_of_nat n :: 16 word) = n" using assms(4) by (rule unat_u16_of_nat)
  moreover from this have "(word_of_nat n :: 16 word) \<noteq> 0" using assms(3) by auto
  ultimately show ?thesis
    using transmit_ok [OF assms(1,5), of s] idle_spoke [OF assms(2)] by (auto simp: simple_write_def)
qed

lemma write_string:
  assumes "send_ok N sent incoming got" and "idle E s" and "length x < 65536" and "0 \<notin> set x"
  shows "\<exists>s'. simple_write N s (Some (x @ [0])) 0 = Some (int (length x), s') \<and> spoke sent incoming got E s x s'"
proof -
  have "unat (word_of_nat (length x) :: 16 word) = length x" using assms(3) by (rule unat_u16_of_nat)
  then show ?thesis
    using transmit_ok [OF assms(1), of "length x" "x @ [0]" s] idle_spoke [OF assms(2)] assms(4)
    by (auto simp: simple_write_def cstr_terminated)
qed

lemma write_queue:
  assumes net: "send_ok N sent incoming got" and s: "ready s" "length (queued s) \<le> 511"
  shows "\<exists>q w. client_send N s = Some (int (length (queued s)), set_queue q (s\<lparr>hs_w := w\<rparr>)) \<and> queue_ok q \<and> rb_contents q = [] \<and>
    says sent incoming got (hs_w s) (queued s) w"
proof -
  from s(1) obtain q0 where q0: "queue_of s = Some q0" "unat (ringbuf_size q0) = length (queued s)" by (rule readyE)
  then have ui: "uint (ringbuf_size q0) = int (length (queued s))" by (metis uint_nat)
  from q_pop_ok [OF s(1), of "length (queued s)" "replicate MAX_TMP_BUF_SIZE 0"] s(2) obtain q where
    q: "q_pop s (replicate MAX_TMP_BUF_SIZE 0) (int (length (queued s))) = Some (0, queued s @ drop (length (queued s)) (replicate MAX_TMP_BUF_SIZE 0), set_queue q s)"
      "queue_ok q" "rb_contents q = []" by (auto simp: MAX_TMP_BUF_SIZE_def CHUNK_SIZE_def RINGBUFFER_SIZE_def)
  from transmit_ok [OF net, of "length (queued s)" "queued s @ drop (length (queued s)) (replicate MAX_TMP_BUF_SIZE 0)" "set_queue q s"]
  obtain w where "transmit N (set_queue q s) (queued s @ drop (length (queued s)) (replicate MAX_TMP_BUF_SIZE 0)) (length (queued s)) =
      Some (int (length (queued s)), set_queue q (s\<lparr>hs_w := w\<rparr>))" "says sent incoming got (hs_w s) (queued s) w" by auto
  with q q0 ui show ?thesis by (auto simp: simple_write_def Let_def)
qed

lemma tmp_print_ok:
  assumes "tmp_get E s = Some t" and "length t = 512" and "length txt < n" and "length txt < 512"
  shows "tmp_print E s n txt = Some (int (length txt), tmp_set E (txt @ 0 # drop (length txt + 1) t) s)"
  using assms by (simp add: tmp_print_def c_snprintf_def mem_write_zero)

text \<open>A line through \<open>tmpbuffer\<close> and the queue.\<close>

lemma send_line_ok:
  assumes net: "send_ok N sent incoming got" and s: "idle E s" and tx: "0 < length txt" "length txt < n" "length txt < 512"
  shows "\<exists>s'. send_line N E s n txt = Some (int (length txt), s') \<and> spoke sent incoming got E s txt s'"
proof -
  from s obtain t where t: "tmp_get E s = Some t" "length t = 512" "ready s" "queued s = []" by (rule idleE)
  define b where "b = txt @ 0 # drop (length txt + 1) t"
  have b: "length b = 512" "take (length txt) b = txt" using tx t(2) by (simp_all add: b_def)
  define s1 where "s1 = tmp_set E b s"
  have pr: "tmp_print E s n txt = Some (int (length txt), s1)" using tmp_print_ok [OF t(1,2) tx(2,3)] by (simp add: s1_def b_def)
  from q_push_ok [of s1 "length txt" b] t tx b obtain q where
    q: "q_push s1 b (int (length txt)) = Some (0, set_queue q s1)" "queue_ok q" "rb_contents q = txt" by (auto simp: s1_def)
  from write_queue [OF net, of "set_queue q s1"] q(2,3) tx(3) obtain q' w where
    w: "client_send N (set_queue q s1) = Some (int (length txt), set_queue q' (s1\<lparr>hs_w := w\<rparr>))" "queue_ok q'" "rb_contents q' = []"
      "says sent incoming got (hs_w s1) txt w" by (auto simp: ready_set_queue)
  have "send_line N E s n txt = Some (int (length txt), set_queue q' (s1\<lparr>hs_w := w\<rparr>))"
    using pr q(1) w(1) by (simp add: send_line_def s1_def)
  moreover have "spoke sent incoming got E s txt (set_queue q' (s1\<lparr>hs_w := w\<rparr>))"
    unfolding spoke_def using w(2-4) b(1) by (intro exI [of _ q'] exI [of _ b] exI [of _ w]) (simp add: s1_def)
  ultimately show ?thesis by blast
qed

lemma send_cap_line_ok:
  assumes "send_ok N sent incoming got" and "idle E s" and "0 < length txt" and "length txt < 512"
  shows "\<exists>s'. send_cap_line N E s txt = Some (int (length txt), s') \<and> spoke sent incoming got E s txt s'"
proof -
  from assms(2) have "ready s" "queued s = []" by (auto simp: idle_def)
  then obtain q where "queue_of s = Some q" "unat (ringbuf_capacity q) = 1023" by (auto elim!: readyE)
  then show ?thesis using send_line_ok [OF assms(1-3), of 1023] assms(4) by (simp add: send_cap_line_def)
qed

lemma q_clear_idle:
  assumes "idle E s"
  shows "\<exists>s'. q_clear s = Some s' \<and> spoke sent incoming got E s [] s'"
proof -
  from assms obtain t where t: "tmp_get E s = Some t" "length t = 512" "ready s" by (rule idleE)
  from q_clear_ok [OF t(3)] obtain q where "q_clear s = Some (set_queue q s)" "queue_ok q" "rb_contents q = []" by blast
  moreover have "set_queue q s = set_queue q (tmp_set E t (s\<lparr>hs_w := hs_w s\<rparr>))" using t(1) by (simp add: tmp_set_same)
  ultimately show ?thesis unfolding spoke_def using t(2) says_refl [of sent incoming got "hs_w s"]
    by (intro exI [of _ "set_queue q s"] conjI exI [of _ q] exI [of _ t] exI [of _ "hs_w s"]) simp_all
qed

section \<open>The texts of a request\<close>

text \<open>A property holds a string outside \<open>tmpbuffer\<close>; a list of nodes holds keys and values.\<close>

definition holds :: "http_env \<Rightarrow> 'w hst \<Rightarrow> property_t \<Rightarrow> bytes \<Rightarrow> bool" where
  "holds E s p x \<longleftrightarrow> p_str s p = Some x \<and> p_value p \<noteq> Some (he_tmp E)"

definition holds_pair :: "http_env \<Rightarrow> 'w hst \<Rightarrow> nat \<Rightarrow> bytes \<times> bytes \<Rightarrow> bool" where
  "holds_pair E s a kv \<longleftrightarrow> (\<exists>k v. ps_data (hs_ps s) a = Some (k, v) \<and> holds E s k (fst kv) \<and> holds E s v (snd kv))"

definition holds_map :: "http_env \<Rightarrow> 'w hst \<Rightarrow> nat option \<Rightarrow> (bytes \<times> bytes) list \<Rightarrow> bool" where
  "holds_map E s root kvs \<longleftrightarrow> (\<exists>xs. lseg (ps_next (hs_ps s)) root xs None \<and> list_all2 (holds_pair E s) xs kvs)"

lemma holds_no_zero: "holds E s p x \<Longrightarrow> 0 \<notin> set x"
  by (auto simp: holds_def p_str_def dest: str_at_no_zero)

text \<open>The frame of these predicates: what lies outside \<open>tmpbuffer\<close> is the same.\<close>

definition same_store :: "http_env \<Rightarrow> 'w hst \<Rightarrow> 'w hst \<Rightarrow> bool" where
  "same_store E s s' \<longleftrightarrow> ps_data (hs_ps s') = ps_data (hs_ps s) \<and> ps_next (hs_ps s') = ps_next (hs_ps s) \<and>
     (\<forall>a. a \<noteq> he_tmp E \<longrightarrow> ps_blocks (hs_ps s') a = ps_blocks (hs_ps s) a)"

lemma same_store_spoke: "spoke sent incoming got E s x s' \<Longrightarrow> same_store E s s'"
  using spoke_frame by (fastforce simp: same_store_def)

lemma same_store_tmp: "same_store E s (set_queue q (tmp_set E b s))" "same_store E s (tmp_set E b s)" "same_store E s (set_queue q s)"
  by (auto simp: same_store_def tmp_set_def)

lemma same_store_trans: "same_store E s s' \<Longrightarrow> same_store E s' s'' \<Longrightarrow> same_store E s s''"
  by (simp add: same_store_def)

lemma holds_same: "same_store E s s' \<Longrightarrow> holds E s p x \<Longrightarrow> holds E s' p x"
  by (cases "p_value p") (auto simp: same_store_def holds_def p_str_def str_at_def)

lemma holds_pair_same:
  assumes f: "same_store E s s'" and "holds_pair E s a kv"
  shows "holds_pair E s' a kv"
proof -
  from assms(2) obtain k v where "ps_data (hs_ps s) a = Some (k, v)" "holds E s k (fst kv)" "holds E s v (snd kv)"
    by (auto simp: holds_pair_def)
  then show ?thesis using holds_same [OF f] f by (auto simp: holds_pair_def same_store_def)
qed

lemma holds_map_same:
  assumes f: "same_store E s s'" and "holds_map E s r kvs"
  shows "holds_map E s' r kvs"
proof -
  from assms(2) obtain xs where "lseg (ps_next (hs_ps s)) r xs None" "list_all2 (holds_pair E s) xs kvs" by (auto simp: holds_map_def)
  moreover from this have "list_all2 (holds_pair E s') xs kvs" by (auto intro: list.rel_mono_strong holds_pair_same [OF f])
  ultimately show ?thesis using f by (auto simp: holds_map_def same_store_def)
qed

lemma holds_map_Nil: "holds_map E s r [] \<Longrightarrow> r = None"
  by (auto simp: holds_map_def)

lemma holds_map_Cons:
  assumes "holds_map E s r ((k, v) # kvs)"
  obtains a pk pv n where "r = Some a" and "ps_data (hs_ps s) a = Some (pk, pv)" and "holds E s pk k" and "holds E s pv v"
    and "ps_next (hs_ps s) a = Some n" and "holds_map E s n kvs"
proof -
  from assms obtain a xs where l: "lseg (ps_next (hs_ps s)) r (a # xs) None" "holds_pair E s a (k, v)" "list_all2 (holds_pair E s) xs kvs"
    by (auto simp: holds_map_def list_all2_Cons2)
  then obtain n where "r = Some a" "ps_next (hs_ps s) a = Some n" "holds_map E s n kvs" by (auto simp: holds_map_def)
  with l(2) that show thesis by (auto simp: holds_pair_def)
qed

lemma header_loop_sends:
  assumes net: "send_ok N sent incoming got" and s: "idle E s" and h: "holds_map E s r kvs"
    and len: "\<forall>(k, v) \<in> set kvs. length k + length v + 4 < 512"
  shows "\<exists>s'. header_loop N E s r = Some (2, s') \<and> spoke sent incoming got E s (headers_text kvs @ CRLF) s'"
  using s h len
proof (induction kvs arbitrary: s r)
  case Nil
  from write_direct [OF net Nil.prems(1), of 2 "CRLF @ [0]"] obtain s' where
    "simple_write N s (Some (CRLF @ [0])) 2 = Some (2, s')" "spoke sent incoming got E s CRLF s'" by (auto simp: CRLF_def)
  with holds_map_Nil [OF Nil.prems(2)] show ?case by (subst header_loop.simps) simp
next
  case (Cons kv kvs)
  obtain k v where kv: "kv = (k, v)" by force
  from Cons.prems(2) kv obtain a pk pv n where a: "r = Some a" "ps_data (hs_ps s) a = Some (pk, pv)" "holds E s pk k" "holds E s pv v"
      "ps_next (hs_ps s) a = Some n" "holds_map E s n kvs" by (auto elim: holds_map_Cons)
  from q_clear_idle [OF Cons.prems(1)] obtain s1 where s1: "q_clear s = Some s1" "spoke sent incoming got E s [] s1" by blast
  note f1 = same_store_spoke [OF s1(2)]
  define l where "l = k @ [58, 32] @ v @ CRLF"
  have "0 < length l" "length l < 512" using Cons.prems(3) kv by (auto simp: l_def CRLF_def)
  from send_cap_line_ok [OF net spoke_idle [OF s1(2)] this] obtain s2 where
    s2: "send_cap_line N E s1 l = Some (int (length l), s2)" "spoke sent incoming got E s1 l s2" by blast
  note f2 = same_store_trans [OF f1 same_store_spoke [OF s2(2)]]
  from Cons.IH [OF spoke_idle [OF s2(2)] holds_map_same [OF f2 a(6)]] Cons.prems(3) obtain s3 where
    s3: "header_loop N E s2 n = Some (2, s3)" "spoke sent incoming got E s2 (headers_text kvs @ CRLF) s3" by auto
  have "p_str s1 pk = Some k" "p_str s1 pv = Some v" "ps_data (hs_ps s1) a = Some (pk, pv)" "ps_next (hs_ps s2) a = Some n"
    using holds_same [OF f1 a(3)] holds_same [OF f1 a(4)] a(2,5) f1 f2 by (auto simp: holds_def same_store_def)
  then have "header_loop N E s r = Some (2, s3)"
    by (subst header_loop.simps) (use s1(1) s2(1) s3(1) a(1) in \<open>simp add: l_def\<close>)
  moreover have "spoke sent incoming got E s (headers_text (kv # kvs) @ CRLF) s3"
    using spoke_trans [OF s1(2) spoke_trans [OF s2(2) s3(2)]] kv by (simp add: l_def)
  ultimately show ?case by blast
qed

text \<open>The query string: the first separator is a question mark, the others are ampersands.\<close>

fun query_text :: "byte \<Rightarrow> (bytes \<times> bytes) list \<Rightarrow> bytes" where
  "query_text c [] = []"
| "query_text c ((k, v) # kvs) = c # k @ [61] @ v @ query_text 38 kvs"

lemma tmp_strcat_ok:
  assumes "tmp_get E s = Some (d @ 0 # r)" and "0 \<notin> set d" and "length x \<le> length r"
  shows "tmp_strcat E s x = Some (tmp_set E (d @ x @ 0 # drop (length x) r) s)"
  using c_strcat_appends [of "ps_blocks (hs_ps s)" "he_tmp E" d r x] assms by (simp add: tmp_strcat_def tmp_get_def tmp_set_def)

lemma tmp_strcpy_ok:
  assumes "tmp_get E s = Some t" and "length x < length t"
  shows "tmp_strcpy E s x = Some (tmp_set E (x @ 0 # drop (length x + 1) t) s)"
  using assms by (simp add: tmp_strcpy_def mem_write_zero)

text \<open>One parameter is appended to the separator in \<open>tmpbuffer\<close>.\<close>

lemma tmp_param:
  assumes t: "tmp_get E s = Some (c # 0 # r)" "length r = 510" and c: "c \<noteq> 0"
    and k: "0 \<notin> set k" "0 \<notin> set v" "length k + length v + 2 < 512"
  shows "\<exists>b. do { s \<leftarrow> tmp_strcat E s k; s \<leftarrow> tmp_strcat E s [61]; tmp_strcat E s v } = Some (tmp_set E (c # k @ [61] @ v @ 0 # b) s) \<and>
    length (c # k @ [61] @ v @ 0 # b) = 512"
proof -
  have 1: "tmp_strcat E s k = Some (tmp_set E ((c # k) @ 0 # drop (length k) r) s)"
    using tmp_strcat_ok [of E s "[c]" r k] t k c by simp
  have 2: "tmp_strcat E (tmp_set E ((c # k) @ 0 # drop (length k) r) s) [61] = Some (tmp_set E ((c # k @ [61]) @ 0 # drop (length k + 1) r) s)"
    using tmp_strcat_ok [of E "tmp_set E ((c # k) @ 0 # drop (length k) r) s" "c # k" "drop (length k) r" "[61]"] t k c by simp
  have 3: "tmp_strcat E (tmp_set E ((c # k @ [61]) @ 0 # drop (length k + 1) r) s) v =
      Some (tmp_set E (c # k @ [61] @ v @ 0 # drop (length k + 1 + length v) r) s)"
  proof -
    have "(0 :: byte) \<noteq> 61" by simp
    then have "0 \<notin> set (c # k @ [61])" "length v \<le> length (drop (length k + 1) r)" using k c t(2) by auto
    from tmp_strcat_ok [OF _ this, of E "tmp_set E ((c # k @ [61]) @ 0 # drop (length k + 1) r) s"] show ?thesis
      by (simp add: add.commute add.left_commute)
  qed
  show ?thesis using 1 2 3 t k by (intro exI [of _ "drop (length k + 1 + length v) r"]) simp
qed

lemma q_push_string:
  assumes "ready s" and "0 \<notin> set x" and "0 < length x" and "length (queued s) + length x \<le> 1023"
  shows "\<exists>q. q_push s (x @ 0 # r) 0 = Some (0, set_queue q s) \<and> queue_ok q \<and> rb_contents q = queued s @ x"
proof -
  have "q_push s (x @ 0 # r) 0 = q_push s (x @ 0 # r) (int (length x))"
    using assms(2,3) by (simp add: q_push_def ringbuf_push_def cstr_terminated)
  with q_push_ok [OF assms(1,3,4), of "x @ 0 # r"] show ?thesis by simp
qed

text \<open>The test in \<open>size_t\<close> does not wrap around when there is room.\<close>

lemma size_t_room:
  fixes cap :: "16 word"
  assumes "n + 13 \<le> unat cap"
  shows "\<not> (ucast cap - 12 - 1 :: 64 word) < word_of_nat n"
proof -
  have n: "n < 65536" using assms u16_bound [of cap] by linarith
  have c: "unat (ucast cap :: 64 word) = unat cap" proof -
    have "unat cap < 2 ^ 64" by (rule less_trans [OF u16_bound]) simp
    then show ?thesis by (simp add: unsigned_ucast_eq take_bit_nat_eq_self del: u16_bound)
  qed
  have 12: "unat (ucast cap - 12 :: 64 word) = unat cap - 12" using assms c by (subst unat_sub) (auto simp: word_le_nat_alt)
  then have "unat (ucast cap - 12 - 1 :: 64 word) = unat cap - 13" using assms by (subst unat_sub) (auto simp: word_le_nat_alt)
  moreover have "unat (word_of_nat n :: 64 word) = n" using n by (simp add: unat_of_nat take_bit_nat_def)
  ultimately show ?thesis using assms by (simp add: word_less_nat_alt)
qed

lemma query_loop_pushes:
  assumes s: "ready s" "tmp_get E s = Some (c # 0 # r)" "length r = 510" "c \<noteq> 0" and h: "holds_map E s p kvs"
    and len: "length (queued s) + length (query_text c kvs) \<le> 511"
  shows "\<exists>q b. query_loop E s p = Some (set_queue q (tmp_set E b s)) \<and> queue_ok q \<and> length b = 512 \<and>
    rb_contents q = queued s @ query_text c kvs"
  using s h len
proof (induction kvs arbitrary: s p c r)
  case Nil
  from Nil.prems(1) obtain q where q: "queue_of s = Some q" "queue_ok q" "queued s = rb_contents q" by (rule readyE)
  have "query_loop E s p = Some s" using holds_map_Nil [OF Nil.prems(5)] by (simp add: query_loop.simps)
  moreover have "s = set_queue q (tmp_set E (c # 0 # r) s)" using q(1) Nil.prems(2) by (simp add: tmp_set_same set_queue_same)
  ultimately show ?case using q Nil.prems(3) by (intro exI [of _ q] exI [of _ "c # 0 # r"]) simp
next
  case (Cons kv kvs)
  obtain k v where kv: "kv = (k, v)" by force
  from Cons.prems(5) kv obtain a pk pv n where a: "p = Some a" "ps_data (hs_ps s) a = Some (pk, pv)" "holds E s pk k" "holds E s pv v"
      "ps_next (hs_ps s) a = Some n" "holds_map E s n kvs" by (auto elim: holds_map_Cons)
  from Cons.prems(1) obtain q0 where q0: "queue_of s = Some q0" "unat (ringbuf_capacity q0) = 1023 - length (queued s)" by (rule readyE)
  define l where "l = c # k @ [61] @ v"
  have ll: "length l = length k + length v + 2" by (simp add: l_def)
  have len: "length (queued s) + length l + length (query_text 38 kvs) \<le> 511" using Cons.prems(6) kv by (simp add: l_def)
  have nz: "0 \<notin> set k" "0 \<notin> set v" using a(3,4) by (auto dest: holds_no_zero)
  have "(0 :: byte) \<noteq> 61" by simp
  with nz Cons.prems(4) have lz: "0 \<notin> set l" by (auto simp: l_def)
  have kl: "length k + length v + 2 < 512" using len ll by simp
  obtain b where b: "do { s \<leftarrow> tmp_strcat E s k; s \<leftarrow> tmp_strcat E s [61]; tmp_strcat E s v } = Some (tmp_set E (l @ 0 # b) s)"
      "length (l @ 0 # b) = 512"
    using tmp_param [OF Cons.prems(2,3,4) nz kl] by (auto simp: l_def)
  from b(1) obtain x y where xy: "tmp_strcat E s k = Some x" "tmp_strcat E x [61] = Some y" "tmp_strcat E y v = Some (tmp_set E (l @ 0 # b) s)"
    by (auto simp: c_bind)
  from q_push_string [OF _ lz, of "tmp_set E (l @ 0 # b) s" b] Cons.prems(1) len ll obtain q where
    q: "q_push (tmp_set E (l @ 0 # b) s) (l @ 0 # b) 0 = Some (0, set_queue q (tmp_set E (l @ 0 # b) s))"
      "queue_ok q" "rb_contents q = queued s @ l" by auto
  note push = q(1)
  define s1 where "s1 = set_queue q (tmp_set E ([38] @ 0 # drop 2 (l @ 0 # b)) s)"
  have cpy: "tmp_strcpy E (set_queue q (tmp_set E (l @ 0 # b) s)) [38] = Some s1"
    using tmp_strcpy_ok [of E "set_queue q (tmp_set E (l @ 0 # b) s)" "l @ 0 # b" "[38]"] b(2) ll
    by (simp add: s1_def tmp_set_set_queue numeral_2_eq_2)
  have t1: "\<not> uint (ringbuf_capacity q0) < int (length k) + int (length v) + 3" using q0(2) len ll by (simp add: uint_nat)
  have t2: "\<not> (ucast (ringbuf_capacity q0) - 12 - 1 :: 64 word) < word_of_nat (length l)"
    using q0(2) len by (intro size_t_room) simp
  have st: "query_loop E s p = query_loop E s1 n"
    by (subst query_loop.simps)
      (use a q0(1) xy t1 t2 push cpy lz in \<open>simp add: holds_def cstr_terminated s1_def\<close>)
  have f: "same_store E s s1" unfolding s1_def by (rule same_store_tmp)
  have "\<exists>q' b'. query_loop E s1 n = Some (set_queue q' (tmp_set E b' s1)) \<and> queue_ok q' \<and> length b' = 512 \<and>
      rb_contents q' = queued s1 @ query_text 38 kvs"
  proof (rule Cons.IH)
    show "tmp_get E s1 = Some (38 # 0 # drop 2 (l @ 0 # b))" by (simp add: s1_def)
    show "length (queued s1) + length (query_text 38 kvs) \<le> 511" using q(3) len by (simp add: s1_def)
  qed (use q(2) b(2) holds_map_same [OF f a(6)] in \<open>simp_all add: s1_def ready_set_queue\<close>)
  then show ?case using st q(3) kv by (auto simp: s1_def l_def tmp_set_set_queue)
qed

section \<open>The request line and the headers\<close>

text \<open>The query string of a list of parameters as it is put into the queue.\<close>

lemma query_pushes:
  assumes s: "ready s" "tmp_get E s = Some t" "length t = 512" and h: "holds_map E s p kvs"
    and len: "length (queued s) + length (query_text 63 kvs) \<le> 511"
  shows "\<exists>q b. (if p \<noteq> None then do { s \<leftarrow> tmp_strcpy E s [63]; query_loop E s p } else Some s) = Some (set_queue q (tmp_set E b s)) \<and>
    queue_ok q \<and> length b = 512 \<and> rb_contents q = queued s @ query_text 63 kvs"
proof (cases p)
  case None
  from s(1) obtain q where q: "queue_of s = Some q" "queue_ok q" "queued s = rb_contents q" by (rule readyE)
  have "kvs = []" using h None by (cases kvs) (auto elim: holds_map_Cons)
  moreover have "s = set_queue q (tmp_set E t s)" using q(1) s(2) by (simp add: tmp_set_same set_queue_same)
  ultimately show ?thesis using q s(3) None by (intro exI [of _ q] exI [of _ t]) simp
next
  case (Some a)
  define s1 where "s1 = tmp_set E (63 # 0 # drop 2 t) s"
  have cpy: "tmp_strcpy E s [63] = Some s1" using tmp_strcpy_ok [OF s(2), of "[63]"] s(3) by (simp add: s1_def numeral_2_eq_2)
  have "\<exists>q b. query_loop E s1 p = Some (set_queue q (tmp_set E b s1)) \<and> queue_ok q \<and> length b = 512 \<and>
      rb_contents q = queued s1 @ query_text 63 kvs"
  proof (rule query_loop_pushes)
    show "tmp_get E s1 = Some (63 # 0 # drop 2 t)" by (simp add: s1_def)
    show "holds_map E s1 p kvs" unfolding s1_def by (rule holds_map_same [OF same_store_tmp(2) h])
  qed (use s len in \<open>simp_all add: s1_def\<close>)
  then show ?thesis using cpy Some by (auto simp: s1_def)
qed

definition request_line :: "bytes \<Rightarrow> bytes \<Rightarrow> (bytes \<times> bytes) list \<Rightarrow> bytes" where
  "request_line meth uri qs = meth @ [32] @ uri @ query_text 63 qs @ HTTP_VERS"

definition host_line :: "bytes \<Rightarrow> 16 word \<Rightarrow> bytes" where
  "host_line host port = lit ''Host: '' @ host @ [58] @ dec_digits (unat port) @ CRLF"

lemma HTTP_VERS_simps: "length HTTP_VERS = 11" "0 \<notin> set HTTP_VERS" "0 < length (host_line host port)"
  by (simp_all add: HTTP_VERS_def host_line_def CRLF_def lit_simps)

lemma send_start_sends:
  assumes net: "send_ok N sent incoming got" and s: "idle E s"
    and h: "holds E s (q_meth req) meth" "holds E s (q_uri req) uri" "holds E s (q_host req) host" "holds_map E s (q_query req) qs"
    and len: "length (request_line meth uri qs) \<le> 511" "length (host_line host (q_port req)) \<le> 510"
  shows "\<exists>s'. send_start N E s req = Some (0, s') \<and> spoke sent incoming got E s (request_line meth uri qs @ host_line host (q_port req)) s'"
proof -
  from q_clear_idle [OF s] obtain s1 where s1: "q_clear s = Some s1" "spoke sent incoming got E s [] s1" by blast
  note f1 = same_store_spoke [OF s1(2)]
  from spoke_idle [OF s1(2)] obtain t where t: "tmp_get E s1 = Some t" "length t = 512" "ready s1" "queued s1 = []" by (rule idleE)
  define mu where "mu = meth @ [32] @ uri"
  have ml: "0 < length mu" "length mu + length (query_text 63 qs) + 11 \<le> 511"
    using len(1) HTTP_VERS_simps by (simp_all add: mu_def request_line_def)
  define b where "b = mu @ 0 # drop (length mu + 1) t"
  have b: "length b = 512" "take (length mu) b = mu" using ml t(2) by (simp_all add: b_def)
  define s2 where "s2 = tmp_set E b s1"
  have pr: "tmp_print E s1 MAX_TMP_BUF_SIZE mu = Some (int (length mu), s2)"
    using tmp_print_ok [OF t(1,2), of mu MAX_TMP_BUF_SIZE] ml by (simp add: s2_def b_def MAX_TMP_BUF_SIZE_def CHUNK_SIZE_def RINGBUFFER_SIZE_def)
  from q_push_ok [of s2 "length mu" b] t ml b obtain q3 where
    q3: "q_push s2 b (int (length mu)) = Some (0, set_queue q3 s2)" "queue_ok q3" "rb_contents q3 = mu" by (auto simp: s2_def)
  define s3 where "s3 = set_queue q3 s2"
  have f3: "same_store E s s3" unfolding s3_def s2_def by (rule same_store_trans [OF f1 same_store_tmp(1)])
  from query_pushes [of s3 E b "q_query req" qs] holds_map_same [OF f3 h(4)] q3(2,3) ml b(1) obtain q4 c where
    q4: "(if q_query req \<noteq> None then do { s \<leftarrow> tmp_strcpy E s3 [63]; query_loop E s (q_query req) } else Some s3) = Some (set_queue q4 (tmp_set E c s3))"
      "queue_ok q4" "length c = 512" "rb_contents q4 = mu @ query_text 63 qs"
    by (auto simp: s3_def ready_set_queue s2_def)
  define s4 where "s4 = set_queue q4 (tmp_set E c s3)"
  have qd: "queued s4 = mu @ query_text 63 qs" "ready s4" using q4(2,4) by (simp_all add: s4_def ready_set_queue)
  from q_push_string [OF qd(2), of HTTP_VERS "[]"] HTTP_VERS_simps ml qd(1) obtain q5 where
    q5: "q_push s4 (HTTP_VERS @ [0]) 0 = Some (0, set_queue q5 s4)" "queue_ok q5" "rb_contents q5 = request_line meth uri qs"
    by (auto simp: request_line_def mu_def)
  from write_queue [OF net ready_set_queue [OF q5(2)], of s4] q5(3) len(1) obtain q6 w where
    q6: "client_send N (set_queue q5 s4) = Some (int (length (request_line meth uri qs)), set_queue q6 (s4\<lparr>hs_w := w\<rparr>))" "queue_ok q6"
      "rb_contents q6 = []" "says sent incoming got (hs_w s4) (request_line meth uri qs) w" by auto
  define s6 where "s6 = set_queue q6 (s4\<lparr>hs_w := w\<rparr>)"
  have "s6 = set_queue q6 (tmp_set E c (s1\<lparr>hs_w := w\<rparr>))" by (simp add: s6_def s4_def s3_def s2_def tmp_set_set_queue)
  moreover have "hs_w s4 = hs_w s1" by (simp add: s4_def s3_def s2_def)
  ultimately have "spoke sent incoming got E s1 (request_line meth uri qs) s6" unfolding spoke_def using q6(2-4) q4(3) by metis
  from spoke_trans [OF s1(2) this] have sp: "spoke sent incoming got E s (request_line meth uri qs) s6" by simp
  from send_line_ok [OF net spoke_idle [OF sp] HTTP_VERS_simps(3), of host "q_port req" MAX_TMP_BUF_SIZE] len(2) obtain s7 where
    s7: "send_line N E s6 MAX_TMP_BUF_SIZE (host_line host (q_port req)) = Some (int (length (host_line host (q_port req))), s7)"
      "spoke sent incoming got E s6 (host_line host (q_port req)) s7"
    by (auto simp: MAX_TMP_BUF_SIZE_def CHUNK_SIZE_def RINGBUFFER_SIZE_def)
  have "p_str s1 (q_meth req) = Some meth" "p_str s1 (q_uri req) = Some uri" "p_str s6 (q_host req) = Some host"
    using holds_same [OF f1 h(1)] holds_same [OF f1 h(2)] holds_same [OF same_store_spoke [OF sp] h(3)] by (auto simp: holds_def)
  moreover have "tmp_print E s1 MAX_TMP_BUF_SIZE (meth @ [32] @ uri) = Some (int (length mu), s2)" "tmp_get E s2 = Some b"
    using pr by (simp_all add: mu_def s2_def)
  moreover have "send_line N E s6 MAX_TMP_BUF_SIZE (lit ''Host: '' @ host @ [58] @ dec_digits (unat (q_port req)) @ CRLF) =
      Some (int (length (host_line host (q_port req))), s7)"
    using s7(1) by (simp add: host_line_def)
  ultimately have "send_start N E s req = Some (0, s7)"
    unfolding send_start_def
    using s1(1) q3(1) [folded s3_def] q4(1) [folded s4_def] q5(1) q6(1) [folded s6_def] by simp
  with spoke_trans [OF sp s7(2)] show ?thesis by blast
qed

lemma length_hex_upper: "n < 16 ^ k \<Longrightarrow> 0 < k \<Longrightarrow> 0 < length (hex_upper n) \<and> length (hex_upper n) \<le> k"
proof (induction k arbitrary: n)
  case (Suc k)
  show ?case
  proof (cases "n < 16")
    case False
    then have "0 < k" using Suc.prems by (cases k) auto
    moreover have "n div 16 < 16 ^ k" using Suc.prems by (simp add: less_mult_imp_div_less mult.commute)
    ultimately show ?thesis using False Suc.IH [of "n div 16"] by (simp add: hex_upper.simps [of n])
  qed (simp add: hex_upper.simps)
qed simp

lemma length_hex_02X: "n \<le> 512 \<Longrightarrow> 0 < length (hex_02X n) \<and> length (hex_02X n) \<le> 3"
  using length_hex_upper [of n 1] length_hex_upper [of n 3] by (auto simp: hex_02X_def)

text \<open>The payload of a request: its size, and its bytes when there are any.\<close>

definition holds_payload :: "http_env \<Rightarrow> 'w hst \<Rightarrow> 'w http_request \<Rightarrow> bytes \<Rightarrow> bool" where
  "holds_payload E s req body \<longleftrightarrow> payload_size s req = Some (length body) \<and> p_value (q_payload req) \<noteq> Some (he_tmp E) \<and> length body < 65536 \<and>
     (body \<noteq> [] \<longrightarrow> (\<exists>a r. p_value (q_payload req) = Some a \<and> ps_blocks (hs_ps s) a = Some (body @ r)))"

lemma holds_payload_same: "same_store E s s' \<Longrightarrow> holds_payload E s req body \<Longrightarrow> holds_payload E s' req body"
  by (cases "p_value (q_payload req)")
    (auto simp: same_store_def holds_payload_def payload_size_def property_size_def str_at_def split: if_splits)

definition payload_lines :: "bool \<Rightarrow> nat \<Rightarrow> bytes \<Rightarrow> bytes" where
  "payload_lines chunked n ct =
     (if n = 0 then []
      else (if chunked then lit ''Transfer-Encoding: chunked'' @ CRLF else lit ''Content-Length: '' @ dec_digits n @ CRLF) @
        lit ''Content-Type: '' @ ct @ CRLF)"

text \<open>The line about the size of the payload.\<close>

lemma size_line_sends:
  assumes net: "send_ok N sent incoming got" and s: "idle E s" and n: "n < 65536"
  shows "\<exists>r s'. (if c then simple_write N s (Some (lit ''Transfer-Encoding: chunked'' @ CRLF @ [0])) 0
      else send_cap_line N E s (lit ''Content-Length: '' @ dec_digits n @ CRLF)) = Some (r, s') \<and> 0 \<le> r \<and>
    spoke sent incoming got E s (if c then lit ''Transfer-Encoding: chunked'' @ CRLF else lit ''Content-Length: '' @ dec_digits n @ CRLF) s'"
proof (cases c)
  case True
  have "length (lit ''Transfer-Encoding: chunked'' @ CRLF) < 65536" "0 \<notin> set (lit ''Transfer-Encoding: chunked'' @ CRLF)"
    by (simp_all add: lit_simps CRLF_def)
  from write_string [OF net s this] True show ?thesis by auto
next
  case False
  have "length (dec_digits n) \<le> 5" using n by (intro length_dec_digits) auto
  then have "0 < length (lit ''Content-Length: '' @ dec_digits n @ CRLF)" "length (lit ''Content-Length: '' @ dec_digits n @ CRLF) < 512"
    by (simp_all add: lit_simps CRLF_def)
  from send_cap_line_ok [OF net s this] False show ?thesis by auto
qed

lemma send_header_sends:
  assumes net: "send_ok N sent incoming got" and s: "idle E s" and b: "holds_payload E s req body"
    and ct: "body \<noteq> [] \<Longrightarrow> holds E s (snd (q_content_type req)) ct \<and> length ct < 400" and h: "holds_map E s (q_header req) kvs"
    and len: "\<forall>(k, v) \<in> set kvs. length k + length v + 4 < 512"
  shows "\<exists>s'. send_header N E s req = Some (2, s') \<and>
    spoke sent incoming got E s (payload_lines (q_is_chunked req \<noteq> 0) (length body) ct @ headers_text kvs @ CRLF) s'"
proof -
  from q_clear_idle [OF s] obtain s1 where s1: "q_clear s = Some s1" "spoke sent incoming got E s [] s1" by blast
  note f1 = same_store_spoke [OF s1(2)]
  have ps: "payload_size s1 req = Some (length body)" "length body < 65536" using holds_payload_same [OF f1 b] by (auto simp: holds_payload_def)
  show ?thesis
  proof (cases "body = []")
    case True
    from header_loop_sends [OF net spoke_idle [OF s1(2)] holds_map_same [OF f1 h] len] obtain s' where
      s': "header_loop N E s1 (q_header req) = Some (2, s')" "spoke sent incoming got E s1 (headers_text kvs @ CRLF) s'" by blast
    then show ?thesis using spoke_trans [OF s1(2) s'(2)] s1(1) ps(1) True by (simp add: send_header_def payload_lines_def)
  next
    case False
    define x where "x = (if q_is_chunked req \<noteq> 0 then lit ''Transfer-Encoding: chunked'' @ CRLF else lit ''Content-Length: '' @ dec_digits (length body) @ CRLF)"
    from size_line_sends [OF net spoke_idle [OF s1(2)] ps(2), of "q_is_chunked req \<noteq> 0"] obtain r2 s2 where
      s2: "(if q_is_chunked req \<noteq> 0 then simple_write N s1 (Some (lit ''Transfer-Encoding: chunked'' @ CRLF @ [0])) 0
          else send_cap_line N E s1 (lit ''Content-Length: '' @ dec_digits (length body) @ CRLF)) = Some (r2, s2)" "0 \<le> r2"
        "spoke sent incoming got E s1 x s2" by (auto simp: x_def)
    from q_clear_idle [OF spoke_idle [OF s2(3)]] obtain s3 where s3: "q_clear s2 = Some s3" "spoke sent incoming got E s2 [] s3" by blast
    define y where "y = lit ''Content-Type: '' @ ct @ CRLF"
    have yl: "0 < length y" "length y < 512" using ct False by (auto simp: y_def lit_simps CRLF_def)
    from send_cap_line_ok [OF net spoke_idle [OF s3(2)] yl] obtain s4 where
      s4: "send_cap_line N E s3 y = Some (int (length y), s4)" "spoke sent incoming got E s3 y s4" by blast
    note p3 = spoke_trans [OF s1(2) spoke_trans [OF s2(3) s3(2)]]
    note p4 = spoke_trans [OF p3 s4(2)]
    from header_loop_sends [OF net spoke_idle [OF s4(2)] holds_map_same [OF same_store_spoke [OF p4] h] len] obtain s' where
      s': "header_loop N E s4 (q_header req) = Some (2, s')" "spoke sent incoming got E s4 (headers_text kvs @ CRLF) s'" by blast
    have "p_str s3 (snd (q_content_type req)) = Some ct" using ct False holds_same [OF same_store_spoke [OF p3]] by (auto simp: holds_def)
    moreover have "send_cap_line N E s3 (lit ''Content-Type: '' @ ct @ CRLF) = Some (int (length y), s4)" using s4(1) by (simp add: y_def)
    ultimately have "send_header N E s req = Some (2, s')"
      unfolding send_header_def using s1(1) ps(1) s2(1,2) s3(1) s'(1) False by (simp add: not_less split del: if_split)
    then show ?thesis using spoke_trans [OF p4 s'(2)] False by (simp add: payload_lines_def x_def y_def)
  qed
qed

section \<open>The payload\<close>

text \<open>The payload in chunks of 512 bytes.\<close>

function sent_chunks :: "bytes \<Rightarrow> bytes" where
  "sent_chunks x = hex_02X (length (take 512 x)) @ CRLF @ take 512 x @ CRLF @ (if x = [] then [] else sent_chunks (drop 512 x))"
  by pat_completeness auto
termination by (relation "measure length") auto

declare sent_chunks.simps [simp del]

lemma chunk_loop_sends:
  assumes net: "send_ok N sent incoming got" and s: "idle E s" and len: "tr + len = length body"
  shows "\<exists>s'. chunk_loop N s (body @ r) tr len = Some s' \<and> spoke sent incoming got E s (sent_chunks (drop tr body)) s'"
  using s len
proof (induction len arbitrary: s tr rule: less_induct)
  case (less len)
  define n where "n = (if len > CHUNK_SIZE then CHUNK_SIZE else len)"
  have n: "n \<le> 512" "n \<le> len" "n = 0 \<longleftrightarrow> len = 0" by (auto simp: n_def CHUNK_SIZE_def RINGBUFFER_SIZE_def)
  define c where "c = take 512 (drop tr body)"
  have c: "length c = n" "take n (drop tr (body @ r)) = c" using less.prems(2) by (auto simp: c_def n_def CHUNK_SIZE_def RINGBUFFER_SIZE_def)
  define x where "x = hex_02X n @ CRLF"
  have x: "0 < length x" "length x \<le> 5" using length_hex_02X [OF n(1)] by (auto simp: x_def CRLF_def)
  then have buf: "mem_write (replicate 6 0) 0 (x @ [0]) = Some (x @ [0] @ replicate (5 - length x) 0)" by (simp add: mem_write_zero)
  from write_direct [OF net less.prems(1) x(1), of "x @ [0] @ replicate (5 - length x) 0"] x obtain s1 where
    s1: "simple_write N s (Some (x @ [0] @ replicate (5 - length x) 0)) (word_of_nat (length x)) = Some (int (length x), s1)"
      "spoke sent incoming got E s x s1" by auto
  obtain r2 s2 where s2: "(if n \<noteq> 0 then simple_write N s1 (Some (drop tr (body @ r))) (word_of_nat n) else Some (0, s1)) = Some (r2, s2)"
      "spoke sent incoming got E s1 c s2"
  proof (cases "n = 0")
    case True
    then show thesis using that [of 0 s1] spoke_refl [OF spoke_idle [OF s1(2)]] c(1) by simp
  next
    case False
    have "n \<le> length (drop tr (body @ r))" using n less.prems(2) by simp
    from write_direct [OF net spoke_idle [OF s1(2)] _ _ this] False n(1) c(2) that show thesis by auto
  qed
  from write_direct [OF net spoke_idle [OF s2(2)], of 2 "CRLF @ [0]"] obtain s3 where
    s3: "simple_write N s2 (Some (CRLF @ [0])) 2 = Some (2, s3)" "spoke sent incoming got E s2 CRLF s3" by (auto simp: CRLF_def)
  note p3 = spoke_trans [OF s1(2) spoke_trans [OF s2(2) s3(2)]]
  have step: "chunk_loop N s (body @ r) tr len = (if n = 0 then Some s3 else chunk_loop N s3 (body @ r) (tr + n) (len - n))"
    unfolding chunk_loop.simps [of N s] n_def [symmetric] Let_def x_def [symmetric]
    using buf s1(1) s2(1) s3(1) by (simp split del: if_split)
  show ?case
  proof (cases "n = 0")
    case True
    then have "drop tr body = []" using n less.prems(2) by simp
    then have "sent_chunks (drop tr body) = x @ c @ CRLF" using True by (simp add: sent_chunks.simps [of "[]"] x_def c_def)
    with True step p3 show ?thesis by auto
  next
    case False
    then have "len - n < len" "tr + n + (len - n) = length body" using n less.prems(2) by auto
    from less.IH [OF this(1) spoke_idle [OF s3(2)] this(2)] obtain s' where
      s': "chunk_loop N s3 (body @ r) (tr + n) (len - n) = Some s'" "spoke sent incoming got E s3 (sent_chunks (drop (tr + n) body)) s'" by blast
    have ne: "drop tr body \<noteq> []" using False n less.prems(2) by auto
    have "drop 512 (drop tr body) = drop (tr + n) body"
      using less.prems(2) by (auto simp: n_def CHUNK_SIZE_def RINGBUFFER_SIZE_def add.commute)
    then have "sent_chunks (drop tr body) = (x @ c @ CRLF) @ sent_chunks (drop (tr + n) body)"
      using ne c(1) by (simp add: sent_chunks.simps [of "drop tr body"] c_def [symmetric] x_def)
    with False step s' spoke_trans [OF p3 s'(2)] show ?thesis by auto
  qed
qed

definition payload_text :: "bool \<Rightarrow> bytes \<Rightarrow> bytes" where
  "payload_text chunked body = (if chunked then sent_chunks body else body)"

lemma send_payload_sends:
  assumes net: "send_ok N sent incoming got" and s: "idle E s" and b: "holds_payload E s req body" "body \<noteq> []"
  shows "\<exists>r s'. send_payload N s req = Some (r, s') \<and> 0 \<le> r \<and> spoke sent incoming got E s (payload_text (q_is_chunked req \<noteq> 0) body) s'"
proof -
  from b obtain a r where a: "payload_size s req = Some (length body)" "p_value (q_payload req) = Some a" "ps_blocks (hs_ps s) a = Some (body @ r)"
      "length body < 65536" by (auto simp: holds_payload_def)
  have "\<exists>s'. simple_write N s (Some (body @ r)) (word_of_nat (length body)) = Some (int (length body), s') \<and>
      spoke sent incoming got E s (take (length body) (body @ r)) s'"
    using a(4) b(2) by (intro write_direct [OF net s]) auto
  moreover have "\<exists>s'. chunk_loop N s (body @ r) 0 (length body) = Some s' \<and> spoke sent incoming got E s (sent_chunks (drop 0 body)) s'"
    by (rule chunk_loop_sends [OF net s]) simp
  ultimately show ?thesis using a b(2) by (cases "q_is_chunked req \<noteq> 0") (auto simp: send_payload_def payload_text_def)
qed

end
