(* ===== verification/Http_Exchange.thy ===== *)
theory Http_Exchange
  imports Http_Send
begin

text \<open>
  A request and its response as a whole: \<open>default_http_client_do\<close> sends the text of the request and hands the
  body of the answer to the application, whatever the pieces in which the answer arrives. The chunked encoding of the
  sender is the one the receiver reads. Two theorems state the lengths at which the buffers of the
  receiver are overrun.
\<close>

section \<open>The texts of an exchange\<close>

record request_text =
  rt_meth :: bytes
  rt_uri :: bytes
  rt_host :: bytes
  rt_query :: "(bytes \<times> bytes) list"
  rt_header :: "(bytes \<times> bytes) list"
  rt_ct :: bytes
  rt_body :: bytes

text \<open>The request in memory represents the text, and its lines fit the buffers.\<close>

definition request_repr :: "http_env \<Rightarrow> 'w hst \<Rightarrow> 'w http_request \<Rightarrow> request_text \<Rightarrow> bool" where
  "request_repr E s req rt \<longleftrightarrow>
     holds E s (q_meth req) (rt_meth rt) \<and> holds E s (q_uri req) (rt_uri rt) \<and> holds E s (q_host req) (rt_host rt) \<and>
     holds_map E s (q_query req) (rt_query rt) \<and> holds_map E s (q_header req) (rt_header rt) \<and>
     holds_payload E s req (rt_body rt) \<and> (rt_body rt = [] \<longleftrightarrow> p_value (q_payload req) = None) \<and>
     (rt_body rt \<noteq> [] \<longrightarrow> holds E s (snd (q_content_type req)) (rt_ct rt) \<and> length (rt_ct rt) < 400) \<and>
     length (request_line (rt_meth rt) (rt_uri rt) (rt_query rt)) \<le> 511 \<and> length (host_line (rt_host rt) (q_port req)) \<le> 510 \<and>
     (\<forall>(k, v) \<in> set (rt_header rt). length k + length v + 4 < 512)"

definition request_bytes :: "'w http_request \<Rightarrow> request_text \<Rightarrow> bytes" where
  "request_bytes req rt =
     request_line (rt_meth rt) (rt_uri rt) (rt_query rt) @ host_line (rt_host rt) (q_port req) @
     payload_lines (q_is_chunked req \<noteq> 0) (length (rt_body rt)) (rt_ct rt) @ headers_text (rt_header rt) @ CRLF @
     (if rt_body rt = [] then [] else payload_text (q_is_chunked req \<noteq> 0) (rt_body rt))"

text \<open>The two forms of a body: of the length that a header gives, or a list of chunks and the last size line.\<close>

datatype body_form = Plain bytes | Chunked "(bytes \<times> bytes) list" bytes

fun body_text :: "body_form \<Rightarrow> bytes" where
  "body_text (Plain b) = b"
| "body_text (Chunked cs z) = chunks_text cs @ z @ CRLF"

fun body_data :: "body_form \<Rightarrow> bytes" where
  "body_data (Plain b) = b"
| "body_data (Chunked cs z) = concat (map snd cs)"

fun body_ok :: "nat \<Rightarrow> 'w http_response \<Rightarrow> body_form \<Rightarrow> bool" where
  "body_ok lim res (Plain b) \<longleftrightarrow> r_is_chunked res = 0 \<and> sint (r_content_length res) = int (length b) \<and> (length b \<le> 511 \<or> lim \<le> 511)"
| "body_ok lim res (Chunked cs z) \<longleftrightarrow> r_is_chunked res \<noteq> 0 \<and> size_line z 0 \<and>
     (\<forall>(h, c) \<in> set cs. c \<noteq> [] \<and> size_line h (length c) \<and> (length c \<le> 511 \<or> lim \<le> 511))"

definition status_text :: "bytes \<Rightarrow> bytes" where
  "status_text ds = lit ''HTTP/1.1 '' @ ds @ OK_text @ CRLF"

definition fresh_response :: "'w payload_meth \<Rightarrow> int \<Rightarrow> 'w http_response" where
  "fresh_response h code = (http_response_init h)\<lparr>r_code := word_of_int code\<rparr>"

lemma receive_payload_reads:
  assumes "stream_ok N sent incoming got lim" and "sink_ok f sent incoming got" and "session_ok E f s"
    and "body_ok lim (hs_res s) form" and "pending incoming s = body_text form @ rest"
  shows "\<exists>s' k. receive_payload N E s = Some (0, s') \<and> got (hs_w s') = got (hs_w s) @ body_data form \<and> sent (hs_w s') = sent (hs_w s) \<and>
    pending incoming s' = rest \<and> session_ok E f s' \<and> hs_res s' = (hs_res s)\<lparr>r_processed := k\<rparr>"
proof (cases form)
  case (Plain b)
  with assms show ?thesis unfolding receive_payload_def by (intro body_loop_length) auto
next
  case (Chunked cs z)
  with assms show ?thesis unfolding receive_payload_def by (simp only: body_data.simps) (intro body_loop_chunked, auto)
qed

section \<open>Sending the whole request\<close>

lemma idle_res [simp]: "idle E (s\<lparr>hs_res := r\<rparr>) = idle E s"
  by (simp add: idle_def)

lemma holds_res: "same_store E s (s\<lparr>hs_res := r\<rparr>)"
  by (simp add: same_store_def)

lemma request_repr_same: "same_store E s s' \<Longrightarrow> request_repr E s req rt \<Longrightarrow> request_repr E s' req rt"
  by (auto simp: request_repr_def intro: holds_same holds_map_same holds_payload_same)

lemma request_sends:
  assumes net: "send_ok N sent incoming got" and s: "idle E s" and r: "request_repr E s req rt"
  shows "\<exists>r1 s1 r2 s2 r3 s3. send_start N E s req = Some (r1, s1) \<and> 0 \<le> r1 \<and> send_header N E s1 req = Some (r2, s2) \<and> 0 \<le> r2 \<and>
    (if p_value (q_payload req) \<noteq> None then send_payload N s2 req else Some (0, s2)) = Some (r3, s3) \<and> 0 \<le> r3 \<and>
    spoke sent incoming got E s (request_bytes req rt) s3"
proof -
  from r obtain s1 where s1: "send_start N E s req = Some (0, s1)"
      "spoke sent incoming got E s (request_line (rt_meth rt) (rt_uri rt) (rt_query rt) @ host_line (rt_host rt) (q_port req)) s1"
    using send_start_sends [OF net s] unfolding request_repr_def by meson
  have r1: "request_repr E s1 req rt" by (rule request_repr_same [OF same_store_spoke [OF s1(2)] r])
  obtain s2 where s2: "send_header N E s1 req = Some (2, s2)" "spoke sent incoming got E s1
      (payload_lines (q_is_chunked req \<noteq> 0) (length (rt_body rt)) (rt_ct rt) @ headers_text (rt_header rt) @ CRLF) s2"
    using r1 send_header_sends [OF net spoke_idle [OF s1(2)], of req "rt_body rt" "rt_ct rt" "rt_header rt"]
    unfolding request_repr_def by blast
  have r2: "holds_payload E s2 req (rt_body rt)" "rt_body rt = [] \<longleftrightarrow> p_value (q_payload req) = None"
    using request_repr_same [OF same_store_spoke [OF s2(2)] r1] by (auto simp: request_repr_def)
  note p2 = spoke_trans [OF s1(2) s2(2)]
  have "\<exists>r3 s3. (if p_value (q_payload req) \<noteq> None then send_payload N s2 req else Some (0, s2)) = Some (r3, s3) \<and> 0 \<le> r3 \<and>
      spoke sent incoming got E s2 (if rt_body rt = [] then [] else payload_text (q_is_chunked req \<noteq> 0) (rt_body rt)) s3"
  proof (cases "rt_body rt = []")
    case True
    then show ?thesis using r2(2) spoke_refl [OF spoke_idle [OF s2(2)]] by auto
  next
    case False
    then show ?thesis using r2(2) send_payload_sends [OF net spoke_idle [OF s2(2)] r2(1) False] by auto
  qed
  then obtain r3 s3 where s3: "(if p_value (q_payload req) \<noteq> None then send_payload N s2 req else Some (0, s2)) = Some (r3, s3)" "0 \<le> r3"
      "spoke sent incoming got E s2 (if rt_body rt = [] then [] else payload_text (q_is_chunked req \<noteq> 0) (rt_body rt)) s3" by blast
  have "spoke sent incoming got E s (request_bytes req rt) s3"
    using spoke_trans [OF p2 s3(3)] by (simp add: request_bytes_def)
  then show ?thesis using s1(1) s2(1) s3(1,2) by fastforce
qed

section \<open>The exchange\<close>

text \<open>What the headers say of the body: the last length counts, and one header is enough for a body in chunks.\<close>

definition header_lengths :: "(bytes \<times> bytes) list \<Rightarrow> int option list" where
  "header_lengths hs = map (\<lambda>kv. c_atoi (snd kv)) (filter (\<lambda>kv. fst kv = lit ''Content-Length'') hs)"

definition header_chunked :: "(bytes \<times> bytes) list \<Rightarrow> bool" where
  "header_chunked hs \<longleftrightarrow> (lit ''Transfer-Encoding'', lit ''Chunked'') \<in> set hs \<or> (lit ''Transfer-Encoding'', lit ''chunked'') \<in> set hs"

fun announces :: "nat \<Rightarrow> (bytes \<times> bytes) list \<Rightarrow> body_form \<Rightarrow> bool" where
  "announces lim hs (Plain b) \<longleftrightarrow> \<not> header_chunked hs \<and> None \<notin> set (header_lengths hs) \<and> last (Some 0 # header_lengths hs) = Some (int (length b)) \<and>
     (length b \<le> 511 \<or> lim \<le> 511)"
| "announces lim hs (Chunked cs z) \<longleftrightarrow> header_chunked hs \<and> None \<notin> set (header_lengths hs) \<and> size_line z 0 \<and>
     (\<forall>(h, c) \<in> set cs. c \<noteq> [] \<and> size_line h (length c) \<and> (length c \<le> 511 \<or> lim \<le> 511))"

lemma header_names: "lit ''Transfer-Encoding'' \<noteq> lit ''Content-Length''"
  by (simp add: lit_def)

lemma apply_headers_value:
  assumes "None \<notin> set (header_lengths hs)"
  shows "apply_headers hs res = Some (res\<lparr>r_is_chunked := if header_chunked hs then 1 else r_is_chunked res,
    r_content_length := if header_lengths hs = [] then r_content_length res else word_of_int (the (last (header_lengths hs)))\<rparr>)"
  using assms
proof (induction hs arbitrary: res)
  case Nil
  then show ?case by (simp add: header_lengths_def header_chunked_def)
next
  case (Cons kv hs)
  obtain k v where kv: "kv = (k, v)" by (cases kv)
  show ?case
  proof (cases "k = lit ''Content-Length''")
    case True
    with Cons.prems kv obtain n where "c_atoi v = Some n" "None \<notin> set (header_lengths hs)" by (cases "c_atoi v") (auto simp: header_lengths_def)
    with Cons.IH [of "res\<lparr>r_content_length := word_of_int n\<rparr>"] True kv header_names show ?thesis
      by (auto simp: apply_header_def header_lengths_def header_chunked_def)
  next
    case False
    with Cons.prems kv have "None \<notin> set (header_lengths hs)" "header_lengths (kv # hs) = header_lengths hs" by (auto simp: header_lengths_def)
    with Cons.IH [of res] Cons.IH [of "res\<lparr>r_is_chunked := 1\<rparr>"] False kv show ?thesis
      by (auto simp: apply_header_def header_chunked_def)
  qed
qed

lemma announces_body:
  assumes "announces lim hs form"
  shows "\<exists>res. apply_headers hs (fresh_response h code) = Some res \<and> body_ok lim res form"
proof -
  have n: "None \<notin> set (header_lengths hs)" using assms by (cases form) simp_all
  have r: "sint (word_of_int i :: 32 word) = i" if "Some i \<in> set (header_lengths hs)" for i
    using that by (auto simp: header_lengths_def c_atoi_def Let_def signed_take_bit_int_eq_self sint_sbintrunc' split: if_splits)
  have l: "sint (word_of_nat n :: 32 word) = int n" if "header_lengths hs \<noteq> []" "last (header_lengths hs) = Some (int n)" for n
    using r [of "int n"] that last_in_set [of "header_lengths hs"] by simp
  have "body_ok lim ((fresh_response h code)\<lparr>r_is_chunked := if header_chunked hs then 1 else r_is_chunked (fresh_response h code),
      r_content_length := if header_lengths hs = [] then r_content_length (fresh_response h code) else word_of_int (the (last (header_lengths hs)))\<rparr>) form"
    using assms l by (cases form) (auto simp: fresh_response_def http_response_init_def response_zero_def split: if_splits)
  then show ?thesis using apply_headers_value [OF n] by blast
qed

lemma apply_headers_keep:
  "apply_headers hs res = Some res' \<Longrightarrow> r_payload_meth res' = r_payload_meth res \<and> r_code res' = r_code res"
  by (induction hs res rule: apply_headers.induct) (auto simp: c_bind apply_header_def split: if_splits)

lemma cli_update_simps:
  fixes s :: "'w hst" and r :: "'w http_response" and c :: int
  defines "s' \<equiv> s\<lparr>hs_res := r, hs_cli := (hs_cli s)\<lparr>hc_response_code := c\<rparr>\<rparr>"
  shows "ready s' = ready s" and "pending incoming s' = pending incoming s" and "tmp_get E s' = tmp_get E s" and "hs_w s' = hs_w s"
    and "hs_res s' = r"
  by (simp_all add: s'_def ready_def pending_def queued_def queue_of_def tmp_get_def)

text \<open>The answer: the status line, the headers and the body.\<close>

lemma answer_reads:
  assumes net: "stream_ok N sent incoming got lim" and sink: "sink_ok f sent incoming got" and s: "idle E s"
    and meth: "hs_res s = http_response_init h" "p_add_handler h = Custom_handler f"
    and code: "status_code ds code" and hs: "list_all header_ok hs" "apply_headers hs (fresh_response h code) = Some res" "body_ok lim res form"
    and inc: "incoming (hs_w s) = status_text ds @ headers_text hs @ CRLF @ body_text form @ rest"
  shows "\<exists>s1 s2 s3. receive_response N s = Some (0, s1) \<and>
    receive_headers N (s1\<lparr>hs_res := (hs_res s1)\<lparr>r_header := None, r_content_type := (p_null, p_null), r_payload := p_null,
      r_is_chunked := 0, r_processed := 0\<rparr>\<rparr>) = Some (0, s2) \<and>
    receive_payload N E s2 = Some (0, s3) \<and> got (hs_w s3) = got (hs_w s) @ body_data form \<and> sent (hs_w s3) = sent (hs_w s) \<and>
    pending incoming s3 = rest \<and> r_code (hs_res s3) = word_of_int code"
proof -
  from s have rd: "ready s" by (simp add: idle_def)
  have "incoming (hs_w s) = lit ''HTTP/1.1 '' @ ds @ OK_text @ [] @ CRLF @ (headers_text hs @ CRLF @ body_text form @ rest)"
    using inc by (simp add: status_text_def)
  from receive_response_reads [OF net rd code _ _ _ this] obtain t where
    t: "receive_response N s = Some (0, t\<lparr>hs_res := (hs_res s)\<lparr>r_code := word_of_int code, r_is_chunked := 0\<rparr>, hs_cli := (hs_cli t)\<lparr>hc_response_code := code\<rparr>\<rparr>)"
      "ready t" "pending incoming t = headers_text hs @ CRLF @ body_text form @ rest" "moved sent got s t" by auto
  define s1 where "s1 = t\<lparr>hs_res := (hs_res s)\<lparr>r_code := word_of_int code, r_is_chunked := 0\<rparr>, hs_cli := (hs_cli t)\<lparr>hc_response_code := code\<rparr>\<rparr>"
  note c = cli_update_simps [where s = t and r = "(hs_res s)\<lparr>r_code := word_of_int code, r_is_chunked := 0\<rparr>" and c = code, folded s1_def]
  note mt = movedD [OF t(4)]
  define s1' where "s1' = s1\<lparr>hs_res := (hs_res s1)\<lparr>r_header := None, r_content_type := (p_null, p_null), r_payload := p_null,
    r_is_chunked := 0, r_processed := 0\<rparr>\<rparr>"
  have r0: "hs_res s1' = fresh_response h code"
    using c(5) meth(1) by (simp add: s1'_def fresh_response_def http_response_init_def response_zero_def)
  have s1': "ready s1'" "pending incoming s1' = headers_text hs @ CRLF @ body_text form @ rest" "tmp_get E s1' = tmp_get E s" "hs_w s1' = hs_w t"
    using c(1-4) t(2,3) mt by (simp_all add: s1'_def)
  have "apply_headers hs (hs_res s1') = Some res" using r0 hs(2) by simp
  from receive_headers_reads [OF net hs(1) s1'(1,2) this] obtain s2 where
    s2: "receive_headers N s1' = Some (0, s2)" "hs_res s2 = res" "ready s2" "pending incoming s2 = body_text form @ rest"
      "moved sent got (s1'\<lparr>hs_res := res\<rparr>) s2" by auto
  note m2 = movedD [OF s2(5)]
  have keep: "r_payload_meth res = h" "r_code res = word_of_int code"
    using apply_headers_keep [OF hs(2)] by (simp_all add: fresh_response_def http_response_init_def)
  have "session_ok E f s2" using s s2(2,3) m2 s1'(3) keep(1) meth(2) by (auto simp: session_ok_def idle_def)
  from receive_payload_reads [OF net sink this _ s2(4)] hs(3) s2(2) obtain s3 k where
    s3: "receive_payload N E s2 = Some (0, s3)" "got (hs_w s3) = got (hs_w s2) @ body_data form" "sent (hs_w s3) = sent (hs_w s2)"
      "pending incoming s3 = rest" "hs_res s3 = res\<lparr>r_processed := k\<rparr>" by auto
  show ?thesis
    by (intro exI [of _ s1] exI [of _ s2] exI [of _ s3])
      (use t(1) s2(1) s3 m2 mt s1'(4) keep(2) in \<open>simp add: s1_def s1'_def\<close>)
qed

text \<open>C4. A complete exchange. When the request in memory represents a text whose lines fit the buffers, \<open>send\<close> transmits
  what it gets, \<open>recv\<close> delivers the answer in non-empty pieces of any length, and the answer is a status line
  with a code and OK, headers and a body of the announced form, then the call returns 0 without undefined
  behaviour, exactly the text of the request has been sent, the payload handler of the application has got the bytes of the body in order, the
  response code is the one of the status line and no byte behind the answer has been consumed.
\<close>

theorem http_client_do_exchange:
  assumes net: "stream_ok N sent incoming got lim" "send_ok N sent incoming got" and sink: "sink_ok f sent incoming got"
    and s: "idle E s" and req: "hc_request (hs_cli s) = Some p" "hs_reqs s p = Some req" "p_add_handler (q_payload_meth req) = Custom_handler f"
      "request_repr E s req rt"
    and code: "status_code ds code" and hs: "list_all header_ok hs" "announces lim hs form"
    and inc: "incoming (hs_w s) = status_text ds @ headers_text hs @ CRLF @ body_text form @ rest"
  shows "\<exists>s'. default_http_client_do N E s = Some (0, s') \<and> sent (hs_w s') = sent (hs_w s) @ request_bytes req rt \<and>
    got (hs_w s') = got (hs_w s) @ body_data form \<and> r_code (hs_res s') = word_of_int code \<and> pending incoming s' = rest"
proof -
  define s0 where "s0 = s\<lparr>hs_res := http_response_init (q_payload_meth req)\<rparr>"
  have s0: "idle E s0" "request_repr E s0 req rt" using s req(4) by (simp_all add: s0_def request_repr_same [OF holds_res])
  from request_sends [OF net(2) s0] obtain r1 s1 r2 s2 r3 s3 where
    snd: "send_start N E s0 req = Some (r1, s1)" "0 \<le> r1" "send_header N E s1 req = Some (r2, s2)" "0 \<le> r2"
      "(if p_value (q_payload req) \<noteq> None then send_payload N s2 req else Some (0, s2)) = Some (r3, s3)" "0 \<le> r3"
      "spoke sent incoming got E s0 (request_bytes req rt) s3" by blast
  from q_clear_idle [OF spoke_idle [OF snd(7)]] obtain s4 where s4: "q_clear s3 = Some s4" "spoke sent incoming got E s3 [] s4" by blast
  from spoke_trans [OF snd(7) s4(2)] have sp: "spoke sent incoming got E s0 (request_bytes req rt) s4" by simp
  have w4: "sent (hs_w s4) = sent (hs_w s) @ request_bytes req rt" "incoming (hs_w s4) = incoming (hs_w s)" "got (hs_w s4) = got (hs_w s)"
    using spoke_says [OF sp] by (simp_all add: says_def s0_def)
  have r4: "hs_res s4 = http_response_init (q_payload_meth req)" using spoke_frame(1) [OF sp] by (simp add: s0_def)
  from announces_body [OF hs(2)] obtain res where res: "apply_headers hs (fresh_response (q_payload_meth req) code) = Some res" "body_ok lim res form" by blast
  from answer_reads [OF net(1) sink spoke_idle [OF sp] r4 req(3) code hs(1) res] inc w4(2) obtain s5 s6 s7 where
    ans: "receive_response N s4 = Some (0, s5)"
      "receive_headers N (s5\<lparr>hs_res := (hs_res s5)\<lparr>r_header := None, r_content_type := (p_null, p_null), r_payload := p_null,
        r_is_chunked := 0, r_processed := 0\<rparr>\<rparr>) = Some (0, s6)"
      "receive_payload N E s6 = Some (0, s7)" "got (hs_w s7) = got (hs_w s4) @ body_data form" "sent (hs_w s7) = sent (hs_w s4)"
      "pending incoming s7 = rest" "r_code (hs_res s7) = word_of_int code" by auto
  have "default_http_client_do N E s = Some (0, s7)"
    unfolding default_http_client_do_def using req(1,2) snd(1-6) s4(1) ans(1-3)
    by (simp add: s0_def [symmetric] Let_def not_less split del: if_split)
  with ans(4-7) w4 show ?thesis by auto
qed

text \<open>A network that sends everything and delivers at most three bytes with each call.\<close>

type_synonym demo_world = "bytes \<times> bytes \<times> bytes"

definition demo_net :: "demo_world http_net" where
  "demo_net = \<lparr>hn_socket = (\<lambda>w. (3, w)), hn_gethostbyname = (\<lambda>n w. (Some [127, 0, 0, 1], w)), hn_timeout = (\<lambda>k t w. w),
     hn_connect = (\<lambda>k a p w. (0, w)), hn_ssl_connect = (\<lambda>k w. (0, w)), hn_connect_done = (\<lambda>k w. (0, w)),
     hn_ssl_close = (\<lambda>k w. w), hn_soc_close = (\<lambda>k w. w),
     hn_send = (\<lambda>c k d w. (int (length d), fst w @ d, snd w)),
     hn_recv = (\<lambda>c k n w. (int (min n (min 3 (length (fst (snd w))))), take (min n 3) (fst (snd w)), fst w, drop (min n 3) (fst (snd w)), snd (snd w)))\<rparr>"

definition demo_sink :: "bytes \<Rightarrow> demo_world \<Rightarrow> int \<times> demo_world" where
  "demo_sink d w = (0, fst w, fst (snd w), snd (snd w) @ d)"

lemma demo_net_ok:
  "stream_ok demo_net fst (\<lambda>w. fst (snd w)) (\<lambda>w. snd (snd w)) 3" "send_ok demo_net fst (\<lambda>w. fst (snd w)) (\<lambda>w. snd (snd w))"
  "sink_ok demo_sink fst (\<lambda>w. fst (snd w)) (\<lambda>w. snd (snd w))"
proof -
  show "stream_ok demo_net fst (\<lambda>w. fst (snd w)) (\<lambda>w. snd (snd w)) 3"
  proof -
    have "\<exists>k w'. hn_recv demo_net c sock n w = (int k, take k (fst (snd w)), w') \<and> 0 < k \<and> k \<le> n \<and> k \<le> 3 \<and> k \<le> length (fst (snd w)) \<and>
        fst (snd w') = drop k (fst (snd w)) \<and> fst w' = fst w \<and> snd (snd w') = snd (snd w)" if "0 < n" "fst (snd w) \<noteq> []" for c sock n w
      using that by (intro exI [of _ "min n (min 3 (length (fst (snd w))))"]) (auto simp: demo_net_def min_def)
    then show ?thesis unfolding stream_ok_def by blast
  qed
qed (auto simp: send_ok_def says_def demo_net_def sink_ok_def demo_sink_def)

definition demo_env :: http_env where
  "demo_env = \<lparr>he_libc = libc_least, he_node = (\<lambda>_. None), he_disp = std_types, he_lit = (\<lambda>_. 9), he_tmp = 0\<rparr>"

definition demo_prop :: "nat \<Rightarrow> property_t" where
  "demo_prop a = \<lparr>p_value = Some a, p_flags = PROPERTY_CONST_TAG OR is_owner, p_size = 0\<rparr>"

definition demo_req :: "demo_world http_request" where
  "demo_req = request_zero\<lparr>q_meth := demo_prop 1, q_uri := demo_prop 2, q_host := demo_prop 3, q_port := 80,
     q_payload_meth := \<lparr>p_set_handler = Default_set, p_add_handler = Custom_handler demo_sink\<rparr>\<rparr>"

definition demo_queue :: ring_buffer_t where
  "demo_queue = \<lparr>rb_buffer = Some (replicate 1024 0), rb_total = 1024, rb_size = 0, rb_shift = 0\<rparr>"

definition demo_state :: "bytes \<Rightarrow> demo_world hst" where
  "demo_state inc = \<lparr>
     hs_cli = \<lparr>hc_sock = 3, hc_timeout = 10000, hc_response_code = 0, hc_close = True, hc_cipher = False, hc_queue = Some demo_queue,
       hc_request = Some 1, hc_protocol = api_via_http\<rparr>,
     hs_ps = \<lparr>ps_blocks = [0 \<mapsto> replicate 512 0, 1 \<mapsto> [71, 69, 84, 0], 2 \<mapsto> [47, 0], 3 \<mapsto> [104, 0]], ps_data = Map.empty, ps_next = Map.empty\<rparr>,
     hs_reqs = [1 \<mapsto> demo_req], hs_res = response_zero, hs_w = ([], inc, [])\<rparr>"

definition demo_text :: request_text where
  "demo_text = \<lparr>rt_meth = [71, 69, 84], rt_uri = [47], rt_host = [104], rt_query = [], rt_header = [], rt_ct = [], rt_body = []\<rparr>"

lemma demo_queue_ok: "queue_ok demo_queue" "rb_contents demo_queue = []"
  by (simp_all add: queue_ok_def rb_inv_def demo_queue_def rb_contents_def ring_slice_def)

lemma demo_idle: "idle demo_env (demo_state inc)"
  by (simp add: idle_def ready_def queued_def queue_of_def demo_state_def demo_queue_ok tmp_get_def demo_env_def)

lemma demo_repr: "request_repr demo_env (demo_state inc) demo_req demo_text"
proof -
  have "length (dec_digits 80) \<le> 2" by (rule length_dec_digits) simp_all
  then have "length (host_line [104] 80) \<le> 510" by (simp add: host_line_def lit_simps CRLF_def)
  then show ?thesis
    by (simp add: request_repr_def holds_def holds_map_def holds_payload_def payload_size_def p_str_def str_at_def cstr_def
        demo_state_def demo_req_def demo_text_def demo_prop_def demo_env_def request_zero_def p_null_def request_line_def HTTP_VERS_simps)
qed

theorem http_client_do_exchange_witness:
  "\<exists>s'. default_http_client_do demo_net demo_env
      (demo_state (status_text (lit ''200'') @ headers_text [(lit ''Content-Length'', lit ''2'')] @ CRLF @ lit ''hi'')) = Some (0, s') \<and>
    fst (hs_w s') = request_bytes demo_req demo_text \<and> snd (snd (hs_w s')) = lit ''hi'' \<and> r_code (hs_res s') = 200"
proof -
  let ?inc = "status_text (lit ''200'') @ headers_text [(lit ''Content-Length'', lit ''2'')] @ CRLF @ lit ''hi''"
  let ?h = "q_payload_meth demo_req"
  have "status_code (lit ''200'') 200" by code_simp
  moreover have "list_all header_ok [(lit ''Content-Length'', lit ''2'')]" by code_simp
  moreover have "announces 3 [(lit ''Content-Length'', lit ''2'')] (Plain (lit ''hi''))" by code_simp
  moreover have "fst (snd (hs_w (demo_state ?inc))) =
      status_text (lit ''200'') @ headers_text [(lit ''Content-Length'', lit ''2'')] @ CRLF @ body_text (Plain (lit ''hi'')) @ []"
    by (simp add: demo_state_def)
  moreover have "hc_request (hs_cli (demo_state ?inc)) = Some 1" "hs_reqs (demo_state ?inc) 1 = Some demo_req"
      "p_add_handler ?h = Custom_handler demo_sink" "hs_w (demo_state ?inc) = ([], ?inc, [])"
    by (simp_all add: demo_state_def demo_req_def)
  ultimately show ?thesis
    using http_client_do_exchange [OF demo_net_ok demo_idle _ _ _ demo_repr, of ?inc 1 "lit ''200''" 200
      "[(lit ''Content-Length'', lit ''2'')]" "Plain (lit ''hi'')" "[]"] by simp blast
qed

section \<open>Chunks\<close>

abbreviation HEX :: bytes where "HEX \<equiv> lit ''0123456789ABCDEF''"

lemma HEX_digit:
  assumes "k < 16"
  shows "digit_val 16 (HEX ! k) = Some k" and "\<not> is_blank (HEX ! k)" and "HEX ! k \<notin> {0, 13, 43, 45, 88, 120}"
proof -
  have "list_all (\<lambda>k. digit_val 16 (HEX ! k) = Some k \<and> \<not> is_blank (HEX ! k) \<and> HEX ! k \<notin> {0, 13, 43, 45, 88, 120}) [0..<16]"
    by code_simp
  with assms show "digit_val 16 (HEX ! k) = Some k" "\<not> is_blank (HEX ! k)" "HEX ! k \<notin> {0, 13, 43, 45, 88, 120}"
    by (auto simp: list_all_iff)
qed

lemma hex_upper_digits: "c \<in> set (hex_upper n) \<Longrightarrow> \<exists>k < 16. c = HEX ! k"
proof (induction n rule: hex_upper.induct)
  case (1 n)
  from "1.prems" have "c = HEX ! (n mod 16) \<or> \<not> n < 16 \<and> c \<in> set (hex_upper (n div 16))"
    by (auto simp: hex_upper.simps [of n] split: if_splits)
  then show ?case
  proof
    assume "c = HEX ! (n mod 16)"
    then show ?thesis by (intro exI [of _ "n mod 16"]) simp
  qed (use "1.IH" in blast)
qed

lemma hex_upper_val: "digits_val 16 0 (hex_upper n) = n"
proof (induction n rule: hex_upper.induct)
  case (1 n)
  have d: "digit_val 16 (HEX ! (n mod 16)) = Some (n mod 16)" by (rule HEX_digit) simp
  show ?case
  proof (cases "n < 16")
    case True
    then show ?thesis using d by (subst hex_upper.simps) simp
  next
    case False
    have "\<forall>c \<in> set (hex_upper (n div 16)). digit_val 16 c \<noteq> None" using hex_upper_digits HEX_digit(1) by fastforce
    from digits_val_snoc [OF this d, of 0] 1 [OF False] False show ?thesis by (subst hex_upper.simps) simp
  qed
qed

lemma size_line_hex:
  assumes "n \<le> 512"
  shows "size_line (hex_02X n) n"
proof -
  have dig: "\<exists>k < 16. c = HEX ! k" if "c \<in> set (hex_02X n)" for c
  proof -
    have "48 = HEX ! 0" by (simp add: lit_simps)
    then have "\<exists>k < 16. 48 = HEX ! k" by (intro exI [of _ 0]) simp
    then show ?thesis using that hex_upper_digits by (auto simp: hex_02X_def split: if_splits)
  qed
  have c: "\<not> is_blank c \<and> c \<notin> {0, 13, 43, 45, 88, 120}" if "c \<in> set (hex_02X n)" for c
  proof -
    from dig [OF that] obtain k where "k < 16" "c = HEX ! k" by blast
    then show ?thesis using HEX_digit [of k] by simp
  qed
  have v: "digits_val 16 0 (hex_02X n) = n"
  proof -
    have "digit_val 16 48 = Some 0" by code_simp
    then show ?thesis by (simp add: hex_02X_def hex_upper_val)
  qed
  obtain x y where xy: "hex_02X n = x # y" using length_hex_02X [OF assms] by (cases "hex_02X n") auto
  have "\<not> (2 < length (x # y) \<and> (x # y) ! 0 = 48 \<and> ((x # y) ! 1 = 120 \<or> (x # y) ! 1 = 88) \<and> digit_val 16 ((x # y) ! 2) \<noteq> None)"
  proof
    assume a: "2 < length (x # y) \<and> (x # y) ! 0 = 48 \<and> ((x # y) ! 1 = 120 \<or> (x # y) ! 1 = 88) \<and> digit_val 16 ((x # y) ! 2) \<noteq> None"
    then have "(x # y) ! 1 \<in> set (hex_02X n)" unfolding xy by (intro nth_mem) auto
    with c a show False by auto
  qed
  then have "c_strtol 16 (hex_02X n) = int n" using c [of x] v xy by (auto simp: c_strtol_def Let_def)
  moreover have "length (hex_02X n) < 8" using length_hex_02X [OF assms] by simp
  moreover have "0 \<notin> set (hex_02X n)" "13 \<notin> set (hex_02X n)" using c by auto
  ultimately show ?thesis by (simp add: size_line_def)
qed

text \<open>The blocks of the sender as chunks.\<close>

function blocks_of :: "bytes \<Rightarrow> (bytes \<times> bytes) list" where
  "blocks_of x = (if x = [] then [] else (hex_02X (length (take 512 x)), take 512 x) # blocks_of (drop 512 x))"
  by pat_completeness auto
termination by (relation "measure length") auto

declare blocks_of.simps [simp del]

lemma blocks_Nil [simp]: "blocks_of [] = []" "sent_chunks [] = hex_02X 0 @ CRLF @ CRLF"
  by (simp_all add: blocks_of.simps [of "[]"] sent_chunks.simps [of "[]"])

lemma sent_chunks_blocks: "sent_chunks x = chunks_text (blocks_of x) @ hex_02X 0 @ CRLF @ CRLF"
proof (induction x rule: blocks_of.induct)
  case (1 x)
  then show ?case by (cases "x = []") (simp_all add: sent_chunks.simps [of x] blocks_of.simps [of x])
qed

lemma blocks_of_data: "concat (map snd (blocks_of x)) = x"
proof (induction x rule: blocks_of.induct)
  case (1 x)
  then show ?case by (cases "x = []") (simp_all add: blocks_of.simps [of x])
qed

lemma blocks_of_ok: "(h, c) \<in> set (blocks_of x) \<Longrightarrow> c \<noteq> [] \<and> size_line h (length c) \<and> length c \<le> length x"
proof (induction x rule: blocks_of.induct)
  case (1 x)
  show ?case
  proof (cases "x = []")
    case False
    then have "(h, c) = (hex_02X (length (take 512 x)), take 512 x) \<or> (h, c) \<in> set (blocks_of (drop 512 x))"
      using "1.prems" by (simp add: blocks_of.simps [of x])
    then show ?thesis
    proof
      assume "(h, c) = (hex_02X (length (take 512 x)), take 512 x)"
      then show ?thesis using False size_line_hex [of "length (take 512 x)"] by simp
    next
      assume "(h, c) \<in> set (blocks_of (drop 512 x))"
      with "1.IH" [OF False] show ?thesis by auto
    qed
  qed (use "1.prems" in simp)
qed

text \<open>C15. Chunked transfer is a round trip. The bytes that \<open>send_payload\<close> transmits for a chunked payload, received by
  \<open>receive_payload\<close> over any connection, give the handler of the receiver exactly the payload; what remains unread are the
  final line end and what follows it. The receiver takes payloads below 512 bytes over every connection, and any payload
  over a connection that delivers at most 511 bytes with one call.
\<close>

theorem chunked_roundtrip:
  assumes send: "send_ok N sent incoming got" "idle E s" "holds_payload E s req body" "body \<noteq> []" "q_is_chunked req \<noteq> 0"
    and recv: "stream_ok M sent' incoming' got' lim" "sink_ok f sent' incoming' got'" "session_ok F f t" "r_is_chunked (hs_res t) \<noteq> 0"
    and len: "length body \<le> 511 \<or> lim \<le> 511" and pend: "pending incoming' t = sent_chunks body @ rest"
  shows "(\<exists>r s'. send_payload N s req = Some (r, s') \<and> 0 \<le> r \<and> sent (hs_w s') = sent (hs_w s) @ sent_chunks body) \<and>
    (\<exists>t'. receive_payload M F t = Some (0, t') \<and> got' (hs_w t') = got' (hs_w t) @ body \<and> pending incoming' t' = CRLF @ rest)"
proof
  from send_payload_sends [OF send(1-4)] send(5) obtain r s' where s': "send_payload N s req = Some (r, s')" "0 \<le> r"
      "spoke sent incoming got E s (sent_chunks body) s'" by (auto simp: payload_text_def)
  then show "\<exists>r s'. send_payload N s req = Some (r, s') \<and> 0 \<le> r \<and> sent (hs_w s') = sent (hs_w s) @ sent_chunks body"
    using spoke_says [OF s'(3)] by (auto simp: says_def)
  have "\<forall>(h, c) \<in> set (blocks_of body). c \<noteq> [] \<and> size_line h (length c) \<and> (length c \<le> 511 \<or> lim \<le> 511)"
    using len by (auto dest: blocks_of_ok)
  then have ok: "body_ok lim (hs_res t) (Chunked (blocks_of body) (hex_02X 0))"
    using recv(4) size_line_hex [of 0] by simp
  have "pending incoming' t = body_text (Chunked (blocks_of body) (hex_02X 0)) @ (CRLF @ rest)"
    using pend by (simp add: sent_chunks_blocks)
  from receive_payload_reads [OF recv(1-3) ok this]
  show "\<exists>t'. receive_payload M F t = Some (0, t') \<and> got' (hs_w t') = got' (hs_w t) @ body \<and> pending incoming' t' = CRLF @ rest"
    by (auto simp: blocks_of_data)
qed

definition demo_upload :: "demo_world http_request" where
  "demo_upload = demo_req\<lparr>q_payload := demo_prop 1, q_is_chunked := 1\<rparr>"

definition demo_download :: "demo_world hst" where
  "demo_download = (demo_state (sent_chunks [71, 69, 84]))\<lparr>hs_res := (http_response_init (q_payload_meth demo_req))\<lparr>r_is_chunked := 1\<rparr>\<rparr>"

lemma demo_upload_payload: "holds_payload demo_env (demo_state []) demo_upload [71, 69, 84]"
  by (simp add: holds_payload_def payload_size_def property_size_def str_at_def cstr_def demo_upload_def demo_prop_def demo_state_def demo_env_def)

lemma demo_download_ok:
  "session_ok demo_env demo_sink demo_download" "r_is_chunked (hs_res demo_download) \<noteq> 0"
  "pending (\<lambda>w. fst (snd w)) demo_download = sent_chunks [71, 69, 84] @ []" "hs_w demo_download = ([], sent_chunks [71, 69, 84], [])"
proof -
  show "session_ok demo_env demo_sink demo_download"
    using demo_idle [of "sent_chunks [71, 69, 84]"]
    by (auto simp: session_ok_def idle_def demo_download_def demo_req_def http_response_init_def)
qed (simp_all add: demo_download_def pending_def queued_def queue_of_def demo_state_def demo_queue_ok)

theorem chunked_roundtrip_witness:
  "(\<exists>r s'. send_payload demo_net (demo_state []) demo_upload = Some (r, s') \<and> 0 \<le> r \<and> fst (hs_w s') = sent_chunks [71, 69, 84]) \<and>
   (\<exists>t'. receive_payload demo_net demo_env demo_download = Some (0, t') \<and> snd (snd (hs_w t')) = [71, 69, 84])"
proof -
  have "q_is_chunked demo_upload \<noteq> 0" "fst (hs_w (demo_state [])) = []" by (simp_all add: demo_upload_def demo_state_def)
  then show ?thesis
    using chunked_roundtrip [OF demo_net_ok(2) demo_idle demo_upload_payload _ _ demo_net_ok(1,3) demo_download_ok(1,2) _ demo_download_ok(3)]
      demo_download_ok(4) by auto
qed

section \<open>Buffers that are overrun\<close>

text \<open>C38. A block of 512 bytes overruns \<open>tmp\<close>. When the announced length of the body is 512 bytes or more, the queue is empty and
  the network delivers the 512 bytes that the client asks for in one piece, the receive is undefined: the bytes are stored in an object of
  511 bytes.
\<close>

theorem full_block_overflows:
  assumes s: "ready s" "queued s = []" and len: "r_is_chunked (hs_res s) = 0" "512 \<le> sint (r_content_length (hs_res s))"
    and recv: "hn_recv N (hc_cipher (hs_cli s)) (hc_sock (hs_cli s)) 512 (hs_w s) = (512, d, w)" "length d = 512"
  shows "receive_payload N E s = None"
proof -
  from s obtain q where q: "queue_of s = Some q" "unat (ringbuf_size q) = 0" "unat (ringbuf_capacity q) = 1023" by (auto elim!: readyE)
  then have "\<not> ringbuf_capacity q < 512" by (simp add: word_less_nat_alt)
  moreover have "mem_write (replicate MAX_TMP_BUF_SIZE 0) 0 d = None"
    using recv(2) by (simp add: mem_write_def MAX_TMP_BUF_SIZE_def CHUNK_SIZE_def RINGBUFFER_SIZE_def)
  ultimately have "client_recv N s 512 = None" using q(1) recv(1) by (simp add: client_recv_def Let_def)
  then have "fill_loop N s 512 0 = None" by (subst fill_loop.simps) (use q in simp)
  then have "take_block N E s 512 0 = None" by (simp add: take_block_def)
  moreover have "min (nat (sint (r_content_length (hs_res s)))) CHUNK_SIZE = 512" using len(2) by (simp add: CHUNK_SIZE_def RINGBUFFER_SIZE_def)
  ultimately have "data_loop N E s (nat (sint (r_content_length (hs_res s)))) 0 = None"
    by (subst data_loop.simps) (use len(2) in simp)
  then show ?thesis unfolding receive_payload_def by (subst body_loop.simps) (use len in \<open>simp add: next_chunk_len_def\<close>)
qed

definition eager_net :: "demo_world http_net" where
  "eager_net = demo_net\<lparr>hn_recv := (\<lambda>c k n w. (int n, replicate n 120, w))\<rparr>"

definition long_body_state :: "demo_world hst" where
  "long_body_state = (demo_state [])\<lparr>hs_res := response_zero\<lparr>r_content_length := 512\<rparr>\<rparr>"

theorem full_block_overflows_witness:
  "r_content_length (hs_res long_body_state) = 512 \<and> receive_payload eager_net demo_env long_body_state = None"
proof -
  have "ready long_body_state" "queued long_body_state = []" using demo_idle [of "[]"] by (auto simp: long_body_state_def idle_def)
  moreover have "hn_recv eager_net (hc_cipher (hs_cli long_body_state)) (hc_sock (hs_cli long_body_state)) 512 (hs_w long_body_state) =
      (512, replicate 512 120, hs_w long_body_state)" by (simp add: eager_net_def)
  moreover have "r_is_chunked (hs_res long_body_state) = 0" "r_content_length (hs_res long_body_state) = 512"
    by (simp_all add: long_body_state_def response_zero_def)
  ultimately show ?thesis using full_block_overflows [of long_body_state eager_net "replicate 512 120"] by simp
qed

text \<open>The first steps of \<open>wait_line\<close> on a line that does not end.\<close>

lemma wait_loop_prefix:
  assumes net: "stream_ok N sent incoming got lim" and l: "13 \<notin> set l"
    and len: "length l < length buf" and mx: "length l < maxsize"
    and xy: "x @ y = l" and buf: "take (length x) buf = x"
    and s: "ready s" and pend: "pending incoming s = y @ z # rest"
  shows "\<exists>buf' s'. wait_loop N s buf (length x) maxsize = wait_loop N s' buf' (length l) maxsize \<and>
    take (length l) buf' = l \<and> length buf' = length buf \<and> ready s' \<and> pending incoming s' = z # rest \<and> queued s' \<noteq> []"
  using len xy buf s pend
proof (induction y arbitrary: x buf s)
  case Nil
  show ?case
  proof (cases "queued s = []")
    case True
    then have "incoming (hs_w s) \<noteq> []" using Nil.prems(5) by (simp add: pending_def)
    from wait_loop_refill [OF net l _ _ _ Nil.prems(4) True this, of x CRLF buf maxsize] Nil.prems show ?thesis by (auto simp: CRLF_def)
  next
    case False
    then show ?thesis using Nil.prems by (intro exI [of _ buf] exI [of _ s]) auto
  qed
next
  case (Cons c y)
  have xy: "x @ (c # y @ CRLF) = l @ CRLF" "length x + 1 + length y = length l" using Cons.prems(2) by auto
  obtain s1 where s1: "wait_loop N s buf (length x) maxsize = wait_loop N s1 buf (length x) maxsize" "ready s1"
      "pending incoming s1 = c # y @ z # rest" "queued s1 \<noteq> []"
  proof (cases "queued s = []")
    case True
    then have "incoming (hs_w s) \<noteq> []" using Cons.prems(5) by (simp add: pending_def)
    from wait_loop_refill [OF net l xy(1) _ Cons.prems(3,4) True this] Cons.prems(5) that show thesis by auto
  next
    case False
    then show thesis using that [of s] Cons.prems by auto
  qed
  then obtain r where r: "queued s1 = c # r" by (cases "queued s1") (auto simp: pending_def)
  obtain buf' q' where step: "wait_loop N s1 buf (length x) maxsize = wait_loop N (set_queue q' s1) buf' (length (x @ [c])) maxsize"
      and b: "take (length (x @ [c])) buf' = x @ [c]" "length buf' = length buf" and q': "queue_ok q'" "rb_contents q' = r"
    using wait_loop_pop [OF l xy(1) Cons.prems(3) _ _ s1(2) r, of maxsize N] xy(2) Cons.prems(1) mx by auto
  have "pending incoming (set_queue q' s1) = y @ z # rest" using s1(3) r q'(2) by (simp add: pending_def)
  then show ?case
    using Cons.IH [of buf' "x @ [c]" "set_queue q' s1"] Cons.prems b q'(1) s1(1) step by (auto simp: ready_set_queue)
qed

text \<open>A line of 1024 characters overruns the line buffer. When the next 1024 bytes of the stream hold no line end, reading the headers is
  undefined: \<open>wait_line\<close> terminates the text behind the last byte of its buffer before it tests the size.
\<close>

theorem long_line_overflows:
  assumes net: "stream_ok N sent incoming got lim" and s: "ready s"
    and l: "pending incoming s = l @ rest" "length l = 1024" "13 \<notin> set l"
  shows "receive_headers N s = None"
proof -
  let ?b = "replicate RINGBUFFER_SIZE 0 :: bytes"
  obtain k z where kz: "l = k @ [z]" using l(2) by (cases l rule: rev_cases) auto
  have k: "length k = 1023" "13 \<notin> set k" "pending incoming s = k @ z # rest" using l kz by auto
  from wait_loop_prefix [OF net k(2) _ _ _ _ s k(3), of ?b RINGBUFFER_SIZE "[]"] k(1) obtain b t where
    t: "wait_loop N s ?b 0 RINGBUFFER_SIZE = wait_loop N t b 1023 RINGBUFFER_SIZE" "take 1023 b = k" "length b = 1024" "ready t" "queued t \<noteq> []"
    by (auto simp: RINGBUFFER_SIZE_def)
  have "\<exists>r. (if length k < 2 then Some 1 else strncmp (drop (length k - 2) b) (CRLF @ [0]) 2) = Some r \<and> (r = 0 \<longleftrightarrow> CRLF = [])"
    by (rule wait_test [OF k(2)]) (use t(2) k(1) in simp_all)
  then obtain r where r: "strncmp (drop 1021 b) (CRLF @ [0]) 2 = Some r" "r \<noteq> 0" using k(1) by (auto simp: CRLF_def)
  have "1 \<le> length (queued t)" using t(5) by (cases "queued t") auto
  from q_pop_ok [OF t(4) this, of "drop 1023 b"] t(3) obtain q where
    q: "q_pop t (drop 1023 b) 1 = Some (0, take 1 (queued t) @ drop 1 (drop 1023 b), set_queue q t)" by auto
  have "length (take 1023 b @ take 1 (queued t) @ drop 1 (drop 1023 b)) = 1024" using t(3) \<open>1 \<le> length (queued t)\<close> by simp
  then have "write_at (take 1023 b @ take 1 (queued t) @ drop 1 (drop 1023 b)) (1023 + 1) 0 = None" by (simp add: write_at_def)
  then have "wait_loop N t b 1023 RINGBUFFER_SIZE = None" by (subst wait_loop.simps) (use r q in simp)
  then show ?thesis by (subst receive_headers.simps) (use t(1) in \<open>simp add: wait_line_def\<close>)
qed

theorem long_line_overflows_witness:
  "queued (demo_state (replicate 1024 120)) = [] \<and> receive_headers demo_net (demo_state (replicate 1024 120)) = None"
proof -
  have "ready (demo_state (replicate 1024 120))" "queued (demo_state (replicate 1024 120)) = []" using demo_idle by (auto simp: idle_def)
  moreover from this have "pending (\<lambda>w. fst (snd w)) (demo_state (replicate 1024 120)) = replicate 1024 120 @ []"
    by (simp add: pending_def demo_state_def)
  ultimately show ?thesis using long_line_overflows [OF demo_net_ok(1), of "demo_state (replicate 1024 120)" "replicate 1024 120" "[]"] by simp
qed

end
