(* ===== verification/Sha256.thy ===== *)
theory Sha256
  imports C_Base
begin

text \<open>
  The hash function behind the signatures: SHA-256 of \<open>wolfSSL/wolfcrypt/src/sha256.c\<close> (portable code, little-endian machine, without
  hardware acceleration) with the helpers of \<open>misc.c\<close>. The buffer of a context is its 64 bytes in memory; the code accesses it both as bytes and as
  words of the machine.

  The reference is FIPS 180-4: the message is padded to blocks of 64 bytes, and the compression function is
  applied to the blocks in turn. The theorems show that the incremental functions compute it for every division of the
  message into pieces.
\<close>

unbundle bit_operations_syntax

section \<open>Words in memory\<close>

definition le32 :: "byte \<Rightarrow> byte \<Rightarrow> byte \<Rightarrow> byte \<Rightarrow> 32 word" where
  "le32 a b c d = ucast a OR push_bit 8 (ucast b) OR push_bit 16 (ucast c) OR push_bit 24 (ucast d)"

definition le_bytes :: "32 word \<Rightarrow> bytes" where
  "le_bytes w = [ucast w, ucast (drop_bit 8 w), ucast (drop_bit 16 w), ucast (drop_bit 24 w)]"

fun load_words :: "bytes \<Rightarrow> 32 word list" where
  "load_words (a # b # c # d # r) = le32 a b c d # load_words r"
| "load_words _ = []"

definition store_words :: "32 word list \<Rightarrow> bytes" where
  "store_words ws = concat (map le_bytes ws)"

section \<open>The code\<close>

definition rotlFixed :: "32 word \<Rightarrow> nat \<Rightarrow> 32 word" where
  "rotlFixed x y = push_bit y x OR drop_bit (32 - y) x"

definition rotrFixed :: "32 word \<Rightarrow> nat \<Rightarrow> 32 word" where
  "rotrFixed x y = drop_bit y x OR push_bit (32 - y) x"

definition ByteReverseWord32 :: "32 word \<Rightarrow> 32 word" where
  "ByteReverseWord32 v =
     (let v = drop_bit 8 (v AND 0xFF00FF00) OR push_bit 8 (v AND 0x00FF00FF)
      in rotlFixed v 16)"

definition ByteReverseWords :: "bytes \<Rightarrow> bytes" where
  "ByteReverseWords buf = store_words (map ByteReverseWord32 (load_words buf))"

record Sha256 =
  buffLen :: "32 word"
  loLen :: "32 word"
  hiLen :: "32 word"
  digest :: "32 word list"
  buffer :: bytes

definition sha_init_digest :: "32 word list" where
  "sha_init_digest = [0x6A09E667, 0xBB67AE85, 0x3C6EF372, 0xA54FF53A, 0x510E527F, 0x9B05688C, 0x1F83D9AB, 0x5BE0CD19]"

definition wc_InitSha256 :: "Sha256 \<Rightarrow> int \<times> Sha256" where
  "wc_InitSha256 sha = (0, sha\<lparr>digest := sha_init_digest, buffLen := 0, loLen := 0, hiLen := 0\<rparr>)"

definition K_tab :: "32 word list" where
  "K_tab = [
    0x428A2F98, 0x71374491, 0xB5C0FBCF, 0xE9B5DBA5, 0x3956C25B,
    0x59F111F1, 0x923F82A4, 0xAB1C5ED5, 0xD807AA98, 0x12835B01,
    0x243185BE, 0x550C7DC3, 0x72BE5D74, 0x80DEB1FE, 0x9BDC06A7,
    0xC19BF174, 0xE49B69C1, 0xEFBE4786, 0x0FC19DC6, 0x240CA1CC,
    0x2DE92C6F, 0x4A7484AA, 0x5CB0A9DC, 0x76F988DA, 0x983E5152,
    0xA831C66D, 0xB00327C8, 0xBF597FC7, 0xC6E00BF3, 0xD5A79147,
    0x06CA6351, 0x14292967, 0x27B70A85, 0x2E1B2138, 0x4D2C6DFC,
    0x53380D13, 0x650A7354, 0x766A0ABB, 0x81C2C92E, 0x92722C85,
    0xA2BFE8A1, 0xA81A664B, 0xC24B8B70, 0xC76C51A3, 0xD192E819,
    0xD6990624, 0xF40E3585, 0x106AA070, 0x19A4C116, 0x1E376C08,
    0x2748774C, 0x34B0BCB5, 0x391C0CB3, 0x4ED8AA4A, 0x5B9CCA4F,
    0x682E6FF3, 0x748F82EE, 0x78A5636F, 0x84C87814, 0x8CC70208,
    0x90BEFFFA, 0xA4506CEB, 0xBEF9A3F7, 0xC67178F2]"

definition Ch :: "32 word \<Rightarrow> 32 word \<Rightarrow> 32 word \<Rightarrow> 32 word" where
  "Ch x y z = z XOR (x AND (y XOR z))"

definition Maj :: "32 word \<Rightarrow> 32 word \<Rightarrow> 32 word \<Rightarrow> 32 word" where
  "Maj x y z = ((x OR y) AND z) OR (x AND y)"

definition Sigma0 :: "32 word \<Rightarrow> 32 word" where
  "Sigma0 x = rotrFixed x 2 XOR rotrFixed x 13 XOR rotrFixed x 22"

definition Sigma1 :: "32 word \<Rightarrow> 32 word" where
  "Sigma1 x = rotrFixed x 6 XOR rotrFixed x 11 XOR rotrFixed x 25"

definition Gamma0 :: "32 word \<Rightarrow> 32 word" where
  "Gamma0 x = rotrFixed x 7 XOR rotrFixed x 18 XOR drop_bit 3 (x AND 0xFFFFFFFF)"

definition Gamma1 :: "32 word \<Rightarrow> 32 word" where
  "Gamma1 x = rotrFixed x 17 XOR rotrFixed x 19 XOR drop_bit 10 (x AND 0xFFFFFFFF)"

text \<open>\<open>RND\<close> on the array \<open>S\<close>: the arguments of the macro are elements of the array, here by their indices.\<close>

definition RND :: "32 word list \<Rightarrow> nat \<Rightarrow> nat \<Rightarrow> nat \<Rightarrow> nat \<Rightarrow> nat \<Rightarrow> nat \<Rightarrow> nat \<Rightarrow> nat \<Rightarrow> nat \<Rightarrow> 32 word list \<Rightarrow> 32 word list" where
  "RND W a b c d e f g h i S =
     (let t0 = S ! h + Sigma1 (S ! e) + Ch (S ! e) (S ! f) (S ! g) + K_tab ! i + W ! i;
          t1 = Sigma0 (S ! a) + Maj (S ! a) (S ! b) (S ! c);
          S = S[d := S ! d + t0]
      in S[h := t0 + t1])"

text \<open>The eight rounds of one iteration.\<close>

definition rounds8 :: "32 word list \<Rightarrow> nat \<Rightarrow> 32 word list \<Rightarrow> 32 word list" where
  "rounds8 W i S =
     (let S = RND W 0 1 2 3 4 5 6 7 (i + 0) S;
          S = RND W 7 0 1 2 3 4 5 6 (i + 1) S;
          S = RND W 6 7 0 1 2 3 4 5 (i + 2) S;
          S = RND W 5 6 7 0 1 2 3 4 (i + 3) S;
          S = RND W 4 5 6 7 0 1 2 3 (i + 4) S;
          S = RND W 3 4 5 6 7 0 1 2 (i + 5) S;
          S = RND W 2 3 4 5 6 7 0 1 (i + 6) S
      in RND W 1 2 3 4 5 6 7 0 (i + 7) S)"

fun schedule_loop :: "32 word list \<Rightarrow> nat \<Rightarrow> nat \<Rightarrow> 32 word list" where
  "schedule_loop W i 0 = W"
| "schedule_loop W i (Suc n) =
     schedule_loop (W @ [Gamma1 (W ! (i - 2)) + W ! (i - 7) + Gamma0 (W ! (i - 15)) + W ! (i - 16)]) (i + 1) n"

fun rounds_loop :: "32 word list \<Rightarrow> nat \<Rightarrow> nat \<Rightarrow> 32 word list \<Rightarrow> 32 word list" where
  "rounds_loop W i 0 S = S"
| "rounds_loop W i (Suc n) S = rounds_loop W (i + 8) n (rounds8 W i S)"

definition Transform :: "Sha256 \<Rightarrow> Sha256" where
  "Transform sha =
     (let W = schedule_loop (load_words (buffer sha)) 16 48;
          S = rounds_loop W 0 8 (digest sha)
      in sha\<lparr>digest := map2 (+) (digest sha) S\<rparr>)"

definition AddLength :: "Sha256 \<Rightarrow> 32 word \<Rightarrow> Sha256" where
  "AddLength sha len =
     (let tmp = loLen sha;
          sha = sha\<lparr>loLen := loLen sha + len\<rparr>
      in if loLen sha < tmp then sha\<lparr>hiLen := hiLen sha + 1\<rparr> else sha)"

partial_function (option) wc_Sha256Update :: "Sha256 \<Rightarrow> bytes \<Rightarrow> 32 word \<Rightarrow> (int \<times> Sha256) option" where
  "wc_Sha256Update sha data len =
     (if len = 0 then Some (0, sha)
      else do {
        let add = min len (64 - buffLen sha);
        xs \<leftarrow> mem_read data 0 (unat add);
        b \<leftarrow> mem_write (buffer sha) (unat (buffLen sha)) xs;
        let sha = sha\<lparr>buffer := b, buffLen := buffLen sha + add\<rparr>;
        if buffLen sha = 64 then
          wc_Sha256Update ((AddLength (Transform (sha\<lparr>buffer := ByteReverseWords (buffer sha)\<rparr>)) 64)\<lparr>buffLen := 0\<rparr>)
            (drop (unat add) data) (len - add)
        else wc_Sha256Update sha (drop (unat add) data) (len - add)
      })"

text \<open>A full block in the middle of the padding.\<close>

definition flush_block :: "Sha256 \<Rightarrow> Sha256 option" where
  "flush_block sha =
     (if 56 < buffLen sha then do {
        b \<leftarrow> mem_write (buffer sha) (unat (buffLen sha)) (replicate (64 - unat (buffLen sha)) 0);
        Some ((Transform (sha\<lparr>buffer := ByteReverseWords b\<rparr>))\<lparr>buffLen := 0\<rparr>)
      }
      else Some sha)"

text \<open>The result is the status, the 32 bytes that are stored at \<open>hash\<close>, and the context.\<close>

definition wc_Sha256Final :: "Sha256 \<Rightarrow> (int \<times> bytes \<times> Sha256) option" where
  "wc_Sha256Final sha = do {
     let sha = AddLength sha (buffLen sha);
     b \<leftarrow> write_at (buffer sha) (unat (buffLen sha)) 0x80;
     sha \<leftarrow> flush_block (sha\<lparr>buffer := b, buffLen := buffLen sha + 1\<rparr>);
     b \<leftarrow> mem_write (buffer sha) (unat (buffLen sha)) (replicate (56 - unat (buffLen sha)) 0);
     let sha = sha\<lparr>hiLen := drop_bit 29 (loLen sha) + push_bit 3 (hiLen sha), loLen := push_bit 3 (loLen sha)\<rparr>;
     b \<leftarrow> mem_write (ByteReverseWords b) 56 (le_bytes (hiLen sha));
     b \<leftarrow> mem_write b 60 (le_bytes (loLen sha));
     let sha = Transform (sha\<lparr>buffer := b\<rparr>);
     let out = ByteReverseWords (store_words (digest sha));
     let sha = sha\<lparr>digest := load_words out\<rparr>;
     (case wc_InitSha256 sha of (r, sha) \<Rightarrow> Some (r, out, sha))
   }"

declare wc_Sha256Update.simps [code]

section \<open>The reference\<close>

definition be32 :: "byte \<Rightarrow> byte \<Rightarrow> byte \<Rightarrow> byte \<Rightarrow> 32 word" where
  "be32 a b c d = le32 d c b a"

fun be_words :: "bytes \<Rightarrow> 32 word list" where
  "be_words (a # b # c # d # r) = be32 a b c d # be_words r"
| "be_words _ = []"

definition be_bytes :: "32 word \<Rightarrow> bytes" where
  "be_bytes w = rev (le_bytes w)"

definition ref_Ch :: "32 word \<Rightarrow> 32 word \<Rightarrow> 32 word \<Rightarrow> 32 word" where
  "ref_Ch x y z = (x AND y) XOR (NOT x AND z)"

definition ref_Maj :: "32 word \<Rightarrow> 32 word \<Rightarrow> 32 word \<Rightarrow> 32 word" where
  "ref_Maj x y z = (x AND y) XOR (x AND z) XOR (y AND z)"

definition ref_S0 :: "32 word \<Rightarrow> 32 word" where "ref_S0 x = word_rotr 2 x XOR word_rotr 13 x XOR word_rotr 22 x"
definition ref_S1 :: "32 word \<Rightarrow> 32 word" where "ref_S1 x = word_rotr 6 x XOR word_rotr 11 x XOR word_rotr 25 x"
definition ref_s0 :: "32 word \<Rightarrow> 32 word" where "ref_s0 x = word_rotr 7 x XOR word_rotr 18 x XOR drop_bit 3 x"
definition ref_s1 :: "32 word \<Rightarrow> 32 word" where "ref_s1 x = word_rotr 17 x XOR word_rotr 19 x XOR drop_bit 10 x"

fun ref_W :: "32 word list \<Rightarrow> nat \<Rightarrow> 32 word" where
  "ref_W M t = (if t < 16 then M ! t
     else ref_s1 (ref_W M (t - 2)) + ref_W M (t - 7) + ref_s0 (ref_W M (t - 15)) + ref_W M (t - 16))"

declare ref_W.simps [simp del]

definition ref_round :: "32 word \<Rightarrow> 32 word \<Rightarrow> 32 word list \<Rightarrow> 32 word list" where
  "ref_round k w S =
     (case S of [a, b, c, d, e, f, g, h] \<Rightarrow>
        (let T1 = h + ref_S1 e + ref_Ch e f g + k + w;
             T2 = ref_S0 a + ref_Maj a b c
         in [T1 + T2, a, b, c, d + T1, e, f, g])
      | _ \<Rightarrow> [])"

fun ref_rounds :: "32 word list \<Rightarrow> nat \<Rightarrow> 32 word list \<Rightarrow> 32 word list" where
  "ref_rounds M 0 S = S"
| "ref_rounds M (Suc t) S = ref_round (K_tab ! t) (ref_W M t) (ref_rounds M t S)"

definition ref_compress :: "32 word list \<Rightarrow> bytes \<Rightarrow> 32 word list" where
  "ref_compress H block = map2 (+) H (ref_rounds (be_words block) 64 H)"

fun ref_blocks :: "32 word list \<Rightarrow> bytes \<Rightarrow> 32 word list" where
  "ref_blocks H m = (if length m < 64 then H else ref_blocks (ref_compress H (take 64 m)) (drop 64 m))"

declare ref_blocks.simps [simp del]

text \<open>A one bit, zeros, and the number of bits as 64 bits.\<close>

definition ref_pad :: "bytes \<Rightarrow> bytes" where
  "ref_pad m = m @ [0x80] @ replicate ((119 - length m mod 64) mod 64) 0 @
     be_bytes (word_of_nat (8 * length m div 2 ^ 32)) @ be_bytes (word_of_nat (8 * length m))"

definition sha256_ref :: "bytes \<Rightarrow> bytes" where
  "sha256_ref m = concat (map be_bytes (ref_blocks sha_init_digest (ref_pad m)))"

section \<open>Bit operations\<close>

lemma Ch_ref: "Ch x y z = ref_Ch x y z"
  by (rule bit_word_eqI) (auto simp: Ch_def ref_Ch_def bit_simps)

lemma Maj_ref: "Maj x y z = ref_Maj x y z"
  by (rule bit_word_eqI) (auto simp: Maj_def ref_Maj_def bit_simps)

lemma rotrFixed_rotr:
  assumes "0 < n" and "n < 32"
  shows "rotrFixed x n = word_rotr n x"
proof (rule bit_word_eqI)
  fix k assume "k < LENGTH(32)"
  then have k: "k < 32" by simp
  then have "(k + n) mod 32 = (if k + n < 32 then k + n else k + n - 32)" using assms by (auto simp: mod_if)
  moreover have "bit x (k + n) \<Longrightarrow> k + n < 32" using bit_imp_le_length [of x "k + n"] by simp
  ultimately show "bit (rotrFixed x n) k = bit (word_rotr n x) k"
    using k assms by (auto simp: rotrFixed_def bit_simps add.commute split: if_splits)
qed

lemma and_all_ones: "(x :: 32 word) AND 0xFFFFFFFF = x"
proof -
  have e: "(0xFFFFFFFF :: 32 word) = - 1" by simp
  show ?thesis unfolding e by simp
qed

lemma Sigma_ref: "Sigma0 x = ref_S0 x" "Sigma1 x = ref_S1 x" "Gamma0 x = ref_s0 x" "Gamma1 x = ref_s1 x"
  by (simp_all add: Sigma0_def Sigma1_def Gamma0_def Gamma1_def ref_S0_def ref_S1_def ref_s0_def ref_s1_def rotrFixed_rotr and_all_ones)

lemma byte_masks:
  "(0xFF00FF00 :: 32 word) = push_bit 24 (mask 8) OR push_bit 8 (mask 8)" "(0x00FF00FF :: 32 word) = push_bit 16 (mask 8) OR mask 8"
  by (simp_all add: mask_eq_exp_minus_1)

lemma word32_bytes_eqI:
  fixes x y :: "32 word"
  assumes "\<And>k. k < 8 \<Longrightarrow> (bit x k \<longleftrightarrow> bit y k) \<and> (bit x (k + 8) \<longleftrightarrow> bit y (k + 8)) \<and> (bit x (k + 16) \<longleftrightarrow> bit y (k + 16)) \<and> (bit x (k + 24) \<longleftrightarrow> bit y (k + 24))"
  shows "x = y"
proof (rule bit_word_eqI)
  fix n assume "n < LENGTH(32)"
  then have "n < 8 \<or> n - 8 < 8 \<and> n = (n - 8) + 8 \<or> n - 16 < 8 \<and> n = (n - 16) + 16 \<or> n - 24 < 8 \<and> n = (n - 24) + 24" by auto
  then show "bit x n = bit y n" using assms [of n] assms [of "n - 8"] assms [of "n - 16"] assms [of "n - 24"] by metis
qed

lemma bit_le32:
  assumes "k < 8"
  shows "bit (le32 a b c d) k = bit a k" and "bit (le32 a b c d) (k + 8) = bit b k"
    and "bit (le32 a b c d) (k + 16) = bit c k" and "bit (le32 a b c d) (k + 24) = bit d k"
  using assms by (auto simp: le32_def bit_simps dest: bit_imp_le_length)

lemma ByteReverse_le32: "ByteReverseWord32 (le32 a b c d) = be32 a b c d"
proof (rule word32_bytes_eqI)
  fix k :: nat assume k: "k < 8"
  note le = bit_le32 [OF k, of a b c d] bit_le32 [OF k, of d c b a]
  show "(bit (ByteReverseWord32 (le32 a b c d)) k \<longleftrightarrow> bit (be32 a b c d) k) \<and>
      (bit (ByteReverseWord32 (le32 a b c d)) (k + 8) \<longleftrightarrow> bit (be32 a b c d) (k + 8)) \<and>
      (bit (ByteReverseWord32 (le32 a b c d)) (k + 16) \<longleftrightarrow> bit (be32 a b c d) (k + 16)) \<and>
      (bit (ByteReverseWord32 (le32 a b c d)) (k + 24) \<longleftrightarrow> bit (be32 a b c d) (k + 24))"
    using k le by (simp add: ByteReverseWord32_def Let_def rotlFixed_def be32_def byte_masks bit_simps add.commute [of _ k])
qed

lemma le32_le_bytes: "le32 (ucast w) (ucast (drop_bit 8 w)) (ucast (drop_bit 16 w)) (ucast (drop_bit 24 w)) = w"
proof (rule word32_bytes_eqI)
  fix k :: nat assume k: "k < 8"
  then show "(bit (le32 (ucast w) (ucast (drop_bit 8 w)) (ucast (drop_bit 16 w)) (ucast (drop_bit 24 w))) k \<longleftrightarrow> bit w k) \<and>
      (bit (le32 (ucast w) (ucast (drop_bit 8 w)) (ucast (drop_bit 16 w)) (ucast (drop_bit 24 w))) (k + 8) \<longleftrightarrow> bit w (k + 8)) \<and>
      (bit (le32 (ucast w) (ucast (drop_bit 8 w)) (ucast (drop_bit 16 w)) (ucast (drop_bit 24 w))) (k + 16) \<longleftrightarrow> bit w (k + 16)) \<and>
      (bit (le32 (ucast w) (ucast (drop_bit 8 w)) (ucast (drop_bit 16 w)) (ucast (drop_bit 24 w))) (k + 24) \<longleftrightarrow> bit w (k + 24))"
    using bit_le32 [OF k] by (simp add: bit_simps add.commute)
qed

lemma load_store: "load_words (store_words ws @ r) = ws @ load_words r"
  by (induction ws) (simp_all add: store_words_def le_bytes_def le32_le_bytes)

lemma length_store [simp]: "length (store_words ws) = 4 * length ws"
  by (induction ws) (simp_all add: store_words_def le_bytes_def)

lemma load_reversed: "map ByteReverseWord32 (load_words b) = be_words b"
  by (induction b rule: load_words.induct) (simp_all add: ByteReverse_le32)

lemma length_load [simp]: "length (load_words b) = length b div 4"
  by (induction b rule: load_words.induct) auto

lemma length_be_words [simp]: "length (be_words b) = length b div 4"
  by (simp flip: load_reversed)

lemma load_ByteReverse: "load_words (ByteReverseWords b @ r) = be_words b @ load_words r"
  by (simp add: ByteReverseWords_def load_reversed load_store)

lemma ByteReverse_store: "ByteReverseWords (store_words ws) = concat (map be_bytes ws)"
proof -
  have "load_words (store_words ws) = ws" using load_store [of ws "[]"] by simp
  moreover have "le_bytes (ByteReverseWord32 w) = be_bytes w" for w
  proof -
    have "ByteReverseWord32 w = be32 (ucast w) (ucast (drop_bit 8 w)) (ucast (drop_bit 16 w)) (ucast (drop_bit 24 w))"
      by (metis ByteReverse_le32 le32_le_bytes)
    moreover have "le_bytes (le32 a b c d) = [a, b, c, d]" for a b c d
    proof -
      have "ucast (le32 a b c d) = a" "ucast (drop_bit 8 (le32 a b c d)) = b" "ucast (drop_bit 16 (le32 a b c d)) = c" "ucast (drop_bit 24 (le32 a b c d)) = d"
        by (rule bit_word_eqI, simp add: bit_simps bit_le32 add.commute)+
      then show ?thesis by (simp add: le_bytes_def)
    qed
    ultimately show ?thesis by (simp add: be32_def be_bytes_def le_bytes_def)
  qed
  ultimately show ?thesis by (simp add: ByteReverseWords_def store_words_def comp_def)
qed

section \<open>The compression function\<close>

lemma schedule_loop_ref:
  assumes "\<And>t. t < length W \<Longrightarrow> W ! t = ref_W M t" and "i = length W" and "16 \<le> i"
  shows "schedule_loop W i n = map (ref_W M) [0..<i + n]"
  using assms
proof (induction n arbitrary: W i)
  case 0
  then show ?case by (auto intro: nth_equalityI)
next
  case (Suc n)
  let ?w = "Gamma1 (W ! (i - 2)) + W ! (i - 7) + Gamma0 (W ! (i - 15)) + W ! (i - 16)"
  have "?w = ref_W M i" using Suc.prems by (simp add: Sigma_ref ref_W.simps [of M "length W"])
  then have "schedule_loop (W @ [?w]) (i + 1) n = map (ref_W M) [0..<i + 1 + n]"
    using Suc.prems by (intro Suc.IH) (auto simp: nth_append less_Suc_eq)
  then show ?case by simp
qed

text \<open>The registers as the reference sees them: the macro rotates the names instead of the values.\<close>

lemma RND_round:
  assumes "distinct [a, b, c, d, e, f, g, h]" and "set [a, b, c, d, e, f, g, h] \<subseteq> {..<length S}"
  shows "map ((!) (RND W a b c d e f g h i S)) [h, a, b, c, d, e, f, g] = ref_round (K_tab ! i) (W ! i) (map ((!) S) [a, b, c, d, e, f, g, h])"
proof -
  define t0 where "t0 = S ! h + ref_S1 (S ! e) + ref_Ch (S ! e) (S ! f) (S ! g) + K_tab ! i + W ! i"
  define t1 where "t1 = ref_S0 (S ! a) + ref_Maj (S ! a) (S ! b) (S ! c)"
  have R: "RND W a b c d e f g h i S = S[d := S ! d + t0, h := t0 + t1]"
    by (simp add: RND_def Let_def Ch_ref Maj_ref Sigma_ref t0_def t1_def)
  have "ref_round (K_tab ! i) (W ! i) (map ((!) S) [a, b, c, d, e, f, g, h]) = [t0 + t1, S ! a, S ! b, S ! c, S ! d + t0, S ! e, S ! f, S ! g]"
    by (simp add: ref_round_def Let_def t0_def t1_def)
  moreover have "map ((!) (S[d := S ! d + t0, h := t0 + t1])) [h, a, b, c, d, e, f, g] = [t0 + t1, S ! a, S ! b, S ! c, S ! d + t0, S ! e, S ! f, S ! g]"
    using assms by (auto simp: nth_list_update)
  ultimately show "map ((!) (RND W a b c d e f g h i S)) [h, a, b, c, d, e, f, g] = ref_round (K_tab ! i) (W ! i) (map ((!) S) [a, b, c, d, e, f, g, h])"
    by (simp only: R)
qed

lemma length_RND [simp]: "length (RND W a b c d e f g h i S) = length S"
  by (simp add: RND_def Let_def)

lemma list8: "length S = 8 \<Longrightarrow> map ((!) S) [0, 1, 2, 3, 4, 5, 6, 7] = S"
  by (rule nth_equalityI) (auto simp: less_Suc_eq numeral_eq_Suc)

lemma rounds8_ref:
  assumes "length S = 8"
  shows "rounds8 W i S = foldl (\<lambda>S t. ref_round (K_tab ! t) (W ! t) S) S [i, i + 1, i + 2, i + 3, i + 4, i + 5, i + 6, i + 7]"
    and "length (rounds8 W i S) = 8"
proof -
  define S1 where "S1 = RND W 0 1 2 3 4 5 6 7 (i + 0) S"
  define S2 where "S2 = RND W 7 0 1 2 3 4 5 6 (i + 1) S1"
  define S3 where "S3 = RND W 6 7 0 1 2 3 4 5 (i + 2) S2"
  define S4 where "S4 = RND W 5 6 7 0 1 2 3 4 (i + 3) S3"
  define S5 where "S5 = RND W 4 5 6 7 0 1 2 3 (i + 4) S4"
  define S6 where "S6 = RND W 3 4 5 6 7 0 1 2 (i + 5) S5"
  define S7 where "S7 = RND W 2 3 4 5 6 7 0 1 (i + 6) S6"
  define S8 where "S8 = RND W 1 2 3 4 5 6 7 0 (i + 7) S7"
  have l: "length S1 = 8" "length S2 = 8" "length S3 = 8" "length S4 = 8" "length S5 = 8" "length S6 = 8" "length S7 = 8" "length S8 = 8"
    using assms by (simp_all add: S1_def S2_def S3_def S4_def S5_def S6_def S7_def S8_def)
  note r = RND_round [where W = W]
  have "map ((!) S1) [7, 0, 1, 2, 3, 4, 5, 6] = ref_round (K_tab ! i) (W ! i) (map ((!) S) [0, 1, 2, 3, 4, 5, 6, 7])"
    using r [of 0 1 2 3 4 5 6 7 S "i + 0"] assms by (simp add: S1_def)
  moreover have "map ((!) S2) [6, 7, 0, 1, 2, 3, 4, 5] = ref_round (K_tab ! (i + 1)) (W ! (i + 1)) (map ((!) S1) [7, 0, 1, 2, 3, 4, 5, 6])"
    unfolding S2_def using l by (intro r) auto
  moreover have "map ((!) S3) [5, 6, 7, 0, 1, 2, 3, 4] = ref_round (K_tab ! (i + 2)) (W ! (i + 2)) (map ((!) S2) [6, 7, 0, 1, 2, 3, 4, 5])"
    unfolding S3_def using l by (intro r) auto
  moreover have "map ((!) S4) [4, 5, 6, 7, 0, 1, 2, 3] = ref_round (K_tab ! (i + 3)) (W ! (i + 3)) (map ((!) S3) [5, 6, 7, 0, 1, 2, 3, 4])"
    unfolding S4_def using l by (intro r) auto
  moreover have "map ((!) S5) [3, 4, 5, 6, 7, 0, 1, 2] = ref_round (K_tab ! (i + 4)) (W ! (i + 4)) (map ((!) S4) [4, 5, 6, 7, 0, 1, 2, 3])"
    unfolding S5_def using l by (intro r) auto
  moreover have "map ((!) S6) [2, 3, 4, 5, 6, 7, 0, 1] = ref_round (K_tab ! (i + 5)) (W ! (i + 5)) (map ((!) S5) [3, 4, 5, 6, 7, 0, 1, 2])"
    unfolding S6_def using l by (intro r) auto
  moreover have "map ((!) S7) [1, 2, 3, 4, 5, 6, 7, 0] = ref_round (K_tab ! (i + 6)) (W ! (i + 6)) (map ((!) S6) [2, 3, 4, 5, 6, 7, 0, 1])"
    unfolding S7_def using l by (intro r) auto
  moreover have "map ((!) S8) [0, 1, 2, 3, 4, 5, 6, 7] = ref_round (K_tab ! (i + 7)) (W ! (i + 7)) (map ((!) S7) [1, 2, 3, 4, 5, 6, 7, 0])"
    unfolding S8_def using l by (intro r) auto
  moreover have S8: "rounds8 W i S = S8"
    unfolding rounds8_def Let_def S1_def S2_def S3_def S4_def S5_def S6_def S7_def S8_def ..
  ultimately show "rounds8 W i S = foldl (\<lambda>S t. ref_round (K_tab ! t) (W ! t) S) S [i, i + 1, i + 2, i + 3, i + 4, i + 5, i + 6, i + 7]"
    using list8 [OF assms] list8 [OF l(8)] by (simp only: foldl_Cons foldl_Nil)
  show "length (rounds8 W i S) = 8" using S8 l(8) by simp
qed

lemma rounds_loop_ref:
  assumes W: "\<And>t. t < 64 \<Longrightarrow> W ! t = ref_W M t" and "8 * (j + n) \<le> 64" and "length (ref_rounds M (8 * j) S) = 8"
  shows "rounds_loop W (8 * j) n (ref_rounds M (8 * j) S) = ref_rounds M (8 * (j + n)) S \<and> length (ref_rounds M (8 * (j + n)) S) = 8"
  using assms(2,3)
proof (induction n arbitrary: j)
  case (Suc n)
  have b: "8 * j + 7 < 64" using Suc.prems(1) by simp
  have "rounds8 W (8 * j) (ref_rounds M (8 * j) S) = ref_rounds M (8 * (j + 1)) S"
    unfolding rounds8_ref(1) [OF Suc.prems(2)] using b by (simp add: W numeral_eq_Suc)
  moreover from this have "length (ref_rounds M (8 * (j + 1)) S) = 8" using rounds8_ref(2) [OF Suc.prems(2), of W "8 * j"] by simp
  ultimately show ?case using Suc.IH [of "j + 1"] Suc.prems(1) by (simp add: algebra_simps)
qed simp

lemma Transform_ref:
  assumes "length (digest sha) = 8" and "load_words (buffer sha) = be_words block" and "length block = 64"
  shows "Transform sha = sha\<lparr>digest := ref_compress (digest sha) block\<rparr>" and "length (ref_compress (digest sha) block) = 8"
proof -
  let ?M = "be_words block"
  have "schedule_loop ?M 16 48 = map (ref_W ?M) [0..<16 + 48]"
    using assms(3) by (intro schedule_loop_ref) (auto simp: ref_W.simps)
  then have "schedule_loop ?M 16 48 ! t = ref_W ?M t" if "t < 64" for t using that by simp
  from rounds_loop_ref [OF this, of 0 8 "digest sha"] assms(1)
  have r: "rounds_loop (schedule_loop ?M 16 48) 0 8 (digest sha) = ref_rounds ?M 64 (digest sha)" "length (ref_rounds ?M 64 (digest sha)) = 8" by auto
  then show "Transform sha = sha\<lparr>digest := ref_compress (digest sha) block\<rparr>"
    using assms(2) by (simp add: Transform_def Let_def ref_compress_def)
  show "length (ref_compress (digest sha) block) = 8" using r(2) assms(1) by (simp add: ref_compress_def)
qed

section \<open>Blocks\<close>

lemma ref_blocks_short [simp]: "length x < 64 \<Longrightarrow> ref_blocks H x = H"
  by (simp add: ref_blocks.simps)

lemma ref_blocks_block: "length b = 64 \<Longrightarrow> ref_blocks H (b @ x) = ref_blocks (ref_compress H b) x"
  by (simp add: ref_blocks.simps [of H "b @ x"])

lemma ref_blocks_append: "64 dvd length m \<Longrightarrow> ref_blocks H (m @ x) = ref_blocks (ref_blocks H m) x"
proof (induction m arbitrary: H rule: length_induct)
  case (1 m)
  show ?case
  proof (cases "m = []")
    case False
    with "1.prems" have l: "64 \<le> length m" by (auto dest: dvd_imp_le)
    then have "length (take 64 m) = 64" by simp
    from ref_blocks_block [OF this, of H "drop 64 m @ x"] ref_blocks_block [OF this, of H "drop 64 m"]
    have e: "ref_blocks H (m @ x) = ref_blocks (ref_compress H (take 64 m)) (drop 64 m @ x)" "ref_blocks H m = ref_blocks (ref_compress H (take 64 m)) (drop 64 m)"
      by (simp_all flip: append_assoc)
    have "64 dvd length (drop 64 m)" using "1.prems" l by (simp add: dvd_diff_nat)
    then show ?thesis using "1.IH" [rule_format, of "drop 64 m"] False e by simp
  qed simp
qed

section \<open>The incremental functions\<close>

text \<open>The context has absorbed the message \<open>m\<close>: whole blocks are in the digest and the length, the rest is in the buffer.\<close>

definition sha_repr :: "Sha256 \<Rightarrow> bytes \<Rightarrow> bool" where
  "sha_repr sha m \<longleftrightarrow> length (buffer sha) = 64 \<and> length (digest sha) = 8 \<and>
     (\<exists>f r. m = f @ r \<and> 64 dvd length f \<and> length r < 64 \<and> digest sha = ref_blocks sha_init_digest f \<and>
        unat (buffLen sha) = length r \<and> take (length r) (buffer sha) = r \<and>
        unat (hiLen sha) * 2 ^ 32 + unat (loLen sha) = length f)"

lemma sha_repr_init: "length (buffer sha) = 64 \<Longrightarrow> sha_repr (snd (wc_InitSha256 sha)) []"
  by (simp add: sha_repr_def wc_InitSha256_def sha_init_digest_def)

lemma unat32_of_nat: "n < 2 ^ 32 \<Longrightarrow> unat (word_of_nat n :: 32 word) = n"
  by (simp add: unat_of_nat take_bit_nat_eq_self)

text \<open>The length counter is one number of 64 bits.\<close>

lemma AddLength_counts:
  assumes "unat (hiLen sha) * 2 ^ 32 + unat (loLen sha) = n" and "n + unat len < 2 ^ 64"
  shows "\<exists>h l. AddLength sha len = sha\<lparr>hiLen := h, loLen := l\<rparr> \<and> unat h * 2 ^ 32 + unat l = n + unat len"
proof (cases "unat (loLen sha) + unat len < 2 ^ 32")
  case True
  then have "unat (loLen sha + len) = unat (loLen sha) + unat len" by (simp add: unat_word_ariths)
  moreover from this have "\<not> loLen sha + len < loLen sha" by (simp add: word_less_nat_alt)
  ultimately show ?thesis using assms
    by (intro exI [of _ "hiLen sha"] exI [of _ "loLen sha + len"]) (simp add: AddLength_def Let_def)
next
  case False
  have lt: "unat (loLen sha) < 2 ^ 32" "unat len < 2 ^ 32" using unsigned_less [of "loLen sha"] unsigned_less [of len] by simp_all
  then have "unat (loLen sha + len) = unat (loLen sha) + unat len - 2 ^ 32"
    using False by (simp add: unat_word_ariths mod_if)
  moreover from this have "loLen sha + len < loLen sha" using lt False by (simp add: word_less_nat_alt)
  moreover have "unat (hiLen sha) + 1 < 2 ^ 32" using assms False by simp
  then have "unat (hiLen sha + 1) = unat (hiLen sha) + 1" by (simp add: unat_word_ariths)
  ultimately show ?thesis using assms False
    by (intro exI [of _ "hiLen sha + 1"] exI [of _ "loLen sha + len"]) (simp add: AddLength_def Let_def)
qed

text \<open>A full buffer is a block of the message.\<close>

lemma full_buffer:
  assumes b: "length b = 64" and d: "length (digest sha) = 8" and len: "unat (hiLen sha) * 2 ^ 32 + unat (loLen sha) = n" "n + 64 < 2 ^ 64"
  shows "\<exists>sha'. (AddLength (Transform (sha\<lparr>buffer := ByteReverseWords b\<rparr>)) 64)\<lparr>buffLen := 0\<rparr> = sha' \<and> buffLen sha' = 0 \<and>
    length (buffer sha') = 64 \<and> length (digest sha') = 8 \<and> digest sha' = ref_compress (digest sha) b \<and>
    unat (hiLen sha') * 2 ^ 32 + unat (loLen sha') = n + 64"
proof -
  define s1 where "s1 = sha\<lparr>buffer := ByteReverseWords b\<rparr>"
  have "load_words (buffer s1) = be_words b" using load_ByteReverse [of b "[]"] by (simp add: s1_def)
  note t = Transform_ref [of s1 b, OF _ this b]
  have lb: "length (ByteReverseWords b) = 64" using b by (simp add: ByteReverseWords_def)
  define s2 where "s2 = Transform s1"
  have s2: "digest s2 = ref_compress (digest sha) b" "length (digest s2) = 8" "hiLen s2 = hiLen sha" "loLen s2 = loLen sha" "length (buffer s2) = 64"
    using t d lb by (simp_all add: s2_def s1_def)
  have "unat (64 :: 32 word) = 64" by simp
  then obtain h l where "AddLength s2 64 = s2\<lparr>hiLen := h, loLen := l\<rparr>" "unat h * 2 ^ 32 + unat l = n + 64"
    using AddLength_counts [of s2 n 64] len s2 by auto
  then show ?thesis using s2 by (simp add: s2_def [symmetric] s1_def [symmetric])
qed

lemma Sha256Update_absorbs:
  assumes "sha_repr sha m" and "unat len \<le> length data" and "length m + unat len < 2 ^ 61"
  shows "\<exists>sha'. wc_Sha256Update sha data len = Some (0, sha') \<and> sha_repr sha' (m @ take (unat len) data)"
  using assms
proof (induction "unat len" arbitrary: sha m data len rule: less_induct)
  case less
  show ?case
  proof (cases "len = 0")
    case True
    then show ?thesis using less.prems by (subst wc_Sha256Update.simps) simp
  next
    case False
    from less.prems(1) obtain f r where R: "length (buffer sha) = 64" "length (digest sha) = 8" "m = f @ r" "64 dvd length f" "length r < 64"
        "digest sha = ref_blocks sha_init_digest f" "unat (buffLen sha) = length r" "take (length r) (buffer sha) = r"
        "unat (hiLen sha) * 2 ^ 32 + unat (loLen sha) = length f" by (auto simp: sha_repr_def)
    define add where "add = min len (64 - buffLen sha)"
    have "unat (64 - buffLen sha) = 64 - length r" using R(5,7) by (subst unat_sub) (auto simp: word_le_nat_alt)
    then have ua: "unat add = min (unat len) (64 - length r)" by (simp add: add_def min_def word_le_nat_alt)
    have pos: "0 < unat add" using False R(5) ua by (simp add: unat_gt_0)
    define xs where "xs = take (unat add) data"
    have xs: "length xs = unat add" "mem_read data 0 (unat add) = Some xs" using less.prems(2) ua by (auto simp: xs_def mem_read_def)
    define b where "b = r @ xs @ drop (length r + length xs) (buffer sha)"
    have b: "mem_write (buffer sha) (unat (buffLen sha)) xs = Some b" "length b = 64"
      using R xs ua by (auto simp: mem_write_def b_def)
    have ub: "unat (buffLen sha + add) = length r + unat add" using R(5,7) ua by (simp add: unat_word_ariths)
    have ul: "unat (len - add) = unat len - unat add" using ua by (subst unat_sub) (auto simp: word_le_nat_alt)
    define s1 where "s1 = sha\<lparr>buffer := b, buffLen := buffLen sha + add\<rparr>"
    define s2 where "s2 = (if buffLen s1 = 64 then (AddLength (Transform (s1\<lparr>buffer := ByteReverseWords (buffer s1)\<rparr>)) 64)\<lparr>buffLen := 0\<rparr> else s1)"
    have step: "wc_Sha256Update sha data len = wc_Sha256Update s2 (drop (unat add) data) (len - add)"
      by (subst wc_Sha256Update.simps) (use False xs(2) b(1) in \<open>simp add: add_def [symmetric] s1_def s2_def Let_def\<close>)
    have rep: "sha_repr s2 (m @ xs)"
    proof (cases "length r + unat add = 64")
      case True
      then have full: "buffLen s1 = 64" using ub by (simp add: s1_def word_unat_eq_iff)
      have bx: "b = r @ xs" using True R(1) xs by (simp add: b_def)
      have l64: "length f + 64 < 2 ^ 64" using less.prems(3) R(3) by simp
      from full_buffer [of b s1 "length f", OF b(2)] R(2,9) l64 full have
        s2: "buffLen s2 = 0" "length (buffer s2) = 64" "length (digest s2) = 8" "digest s2 = ref_compress (digest sha) b"
          "unat (hiLen s2) * 2 ^ 32 + unat (loLen s2) = length f + 64" by (auto simp: s2_def s1_def)
      have "ref_blocks sha_init_digest (f @ b) = ref_compress (digest sha) b"
        using ref_blocks_append [OF R(4), of sha_init_digest b] ref_blocks_block [OF b(2), of "digest sha" "[]"] R(6) by simp
      then show ?thesis unfolding sha_repr_def using s2 R(3,4) bx b(2)
        by (intro conjI exI [of _ "f @ b"] exI [of _ "[]"]) simp_all
    next
      case False
      then have lt: "length r + unat add < 64" using ua R(5) by auto
      then have "s2 = s1" using ub by (auto simp: s2_def s1_def)
      moreover have "take (length (r @ xs)) b = r @ xs" by (simp add: b_def)
      ultimately show ?thesis unfolding sha_repr_def using R b(2) lt xs(1) ub
        by (intro conjI exI [of _ f] exI [of _ "r @ xs"]) (simp_all add: s1_def)
    qed
    have "\<exists>sha'. wc_Sha256Update s2 (drop (unat add) data) (len - add) = Some (0, sha') \<and>
        sha_repr sha' ((m @ xs) @ take (unat (len - add)) (drop (unat add) data))"
    proof (rule less.hyps [OF _ rep])
      have "unat add \<le> unat len" using ua by simp
      then show "unat (len - add) < unat len" "unat (len - add) \<le> length (drop (unat add) data)" "length (m @ xs) + unat (len - add) < 2 ^ 61"
        using less.prems(2,3) pos ul xs(1) by simp_all
    qed
    moreover have "take (unat len) data = xs @ take (unat len - unat add) (drop (unat add) data)"
      using ua take_add [of "unat add" "unat len - unat add" data] by (simp add: xs_def)
    ultimately show ?thesis using step ul by simp
  qed
qed

text \<open>The number of bits in two words.\<close>

lemma bit_count:
  assumes "unat h * 2 ^ 32 + unat l = n" and "n < 2 ^ 61"
  shows "drop_bit 29 l + push_bit 3 h = (word_of_nat (8 * n div 2 ^ 32) :: 32 word)" and "push_bit 3 l = (word_of_nat (8 * n) :: 32 word)"
proof -
  have l: "unat l < 2 ^ 32" using unsigned_less [of l] by simp
  have hl: "h = word_of_nat (unat h)" "l = word_of_nat (unat l)" by simp_all
  have "8 * n div 2 ^ 32 = 8 * unat h + 8 * unat l div 2 ^ 32" using assms(1) by (simp flip: assms(1))
  also have "8 * unat l div 2 ^ 32 = unat l div 2 ^ 29" by (simp add: div_mult2_eq [symmetric])
  finally have "(word_of_nat (8 * n div 2 ^ 32) :: 32 word) = 8 * h + word_of_nat (unat l div 2 ^ 29)" by simp
  moreover have "drop_bit 29 l = word_of_nat (unat l div 2 ^ 29)"
  proof -
    have "unat (drop_bit 29 l) = drop_bit 29 (unat l)" by (rule unat_drop_bit_eq)
    also have "\<dots> = unat l div 2 ^ 29" by (rule drop_bit_eq_div)
    finally have u: "unat (drop_bit 29 l) = unat l div 2 ^ 29" .
    have "drop_bit 29 l = word_of_nat (unat (drop_bit 29 l))" by (simp only: of_nat_unat ucast_id)
    then show ?thesis by (simp only: u)
  qed
  ultimately show "drop_bit 29 l + push_bit 3 h = (word_of_nat (8 * n div 2 ^ 32) :: 32 word)" by (simp add: push_bit_eq_mult)
  have "(word_of_nat (8 * n) :: 32 word) = 8 * (h * word_of_nat (2 ^ 32) + l)" by (simp flip: assms(1))
  moreover have "(word_of_nat (2 ^ 32) :: 32 word) = 0" by (simp add: word_of_nat_eq_0_iff)
  ultimately have "(word_of_nat (8 * n) :: 32 word) = 8 * l" by (simp only: mult_zero_right add_0)
  then show "push_bit 3 l = (word_of_nat (8 * n) :: 32 word)" by (simp add: push_bit_eq_mult)
qed

text \<open>The padded rest of the message is one block or two.\<close>

lemma dvd4_Suc: "4 dvd Suc (Suc (Suc (Suc n))) \<longleftrightarrow> 4 dvd n"
  by presburger

lemma be_words_append: "4 dvd length a \<Longrightarrow> be_words (a @ b) = be_words a @ be_words b"
  by (induction a rule: be_words.induct) (auto simp: dvd4_Suc dest: dvd_imp_le)

lemma load_words_append: "4 dvd length a \<Longrightarrow> load_words (a @ b) = load_words a @ load_words b"
  by (induction a rule: load_words.induct) (auto simp: dvd4_Suc dest: dvd_imp_le)

lemma be_words_be_bytes: "be_words (be_bytes w @ r) = w # be_words r"
  by (simp add: be_bytes_def le_bytes_def be32_def le32_le_bytes)

lemma load_le_bytes: "load_words (le_bytes w @ r) = w # load_words r"
  by (simp add: le_bytes_def le32_le_bytes)

text \<open>The last block: the padded bytes and the length.\<close>

lemma last_block:
  assumes b: "length b = 64" and p: "take 56 b = p"
  shows "\<exists>b1 b2. mem_write (ByteReverseWords b) 56 (le_bytes h) = Some b1 \<and> mem_write b1 60 (le_bytes l) = Some b2 \<and> length b2 = 64 \<and>
    load_words b2 = be_words (p @ be_bytes h @ be_bytes l) \<and> length (p @ be_bytes h @ be_bytes l) = 64"
proof -
  define q where "q = ByteReverseWords b"
  have q: "length q = 64" using b by (simp add: q_def ByteReverseWords_def)
  have e: "length (le_bytes w) = 4" "length (be_bytes w) = 4" for w by (simp_all add: le_bytes_def be_bytes_def)
  have lp: "length p = 56" using p b by auto
  have b_split: "b = p @ drop 56 b" using p append_take_drop_id [of 56 b] by simp
  have "be_words b = be_words p @ be_words (drop 56 b)" by (subst b_split) (rule be_words_append, simp add: lp)
  moreover have lq: "load_words q = be_words b" using load_ByteReverse [of b "[]"] by (simp add: q_def)
  moreover have "load_words q = load_words (take 56 q) @ load_words (drop 56 q)"
    using load_words_append [of "take 56 q" "drop 56 q"] q by simp
  ultimately have "load_words (take 56 q) = be_words p" using q lp by (simp add: append_eq_append_conv)
  then have "load_words (take 56 q @ le_bytes h @ le_bytes l) = be_words p @ [h, l]"
    using q load_words_append [of "take 56 q"] load_le_bytes [of h "le_bytes l"] load_le_bytes [of l "[]"] by simp
  moreover have "be_words (p @ be_bytes h @ be_bytes l) = be_words p @ [h, l]"
    using be_words_append [of p] lp be_words_be_bytes [of h "be_bytes l"] be_words_be_bytes [of l "[]"] by simp
  moreover have "mem_write q 56 (le_bytes h) = Some (take 56 q @ le_bytes h @ drop 60 q)" using q e by (simp add: mem_write_def)
  moreover have "mem_write (take 56 q @ le_bytes h @ drop 60 q) 60 (le_bytes l) = Some (take 56 q @ le_bytes h @ le_bytes l)"
    using q e by (simp add: mem_write_def)
  ultimately show ?thesis using q e lp by (auto simp: q_def)
qed

text \<open>The rest of the message with the first byte of the padding.\<close>

lemma flush_block_pads:
  assumes s: "length (buffer sha) = 64" "length (digest sha) = 8" and p: "unat (buffLen sha) = length p" "take (length p) (buffer sha) = p" "length p \<le> 64"
  shows "\<exists>sha' b'. flush_block sha = Some sha' \<and> length (buffer sha') = 64 \<and> length (digest sha') = 8 \<and>
    mem_write (buffer sha') (unat (buffLen sha')) (replicate (56 - unat (buffLen sha')) 0) = Some b' \<and> length b' = 64 \<and> length (take 56 b') = 56 \<and>
    hiLen sha' = hiLen sha \<and> loLen sha' = loLen sha \<and>
    (\<forall>x. length x = 8 \<longrightarrow> ref_blocks (digest sha) (p @ replicate ((120 - length p) mod 64) 0 @ x) = ref_compress (digest sha') (take 56 b' @ x))"
proof (cases "56 < length p")
  case True
  then have gt: "56 < buffLen sha" using p(1) by (simp add: word_less_nat_alt)
  define b where "b = p @ replicate (64 - length p) 0"
  have b: "length b = 64" "mem_write (buffer sha) (length p) (replicate (64 - length p) 0) = Some b"
    using s p by (auto simp: b_def mem_write_def)
  have "load_words (buffer (sha\<lparr>buffer := ByteReverseWords b\<rparr>)) = be_words b" using load_ByteReverse [of b "[]"] by simp
  note t = Transform_ref [of "sha\<lparr>buffer := ByteReverseWords b\<rparr>" b, OF _ this b(1), simplified]
  define s1 where "s1 = (Transform (sha\<lparr>buffer := ByteReverseWords b\<rparr>))\<lparr>buffLen := 0\<rparr>"
  have lb: "length (ByteReverseWords b) = 64" using b by (simp add: ByteReverseWords_def)
  have s1: "buffer s1 = ByteReverseWords b" "digest s1 = ref_compress (digest sha) b" "length (digest s1) = 8" "buffLen s1 = 0" "hiLen s1 = hiLen sha" "loLen s1 = loLen sha"
    using t s(2) by (simp_all add: s1_def)
  define b' where "b' = replicate 56 0 @ drop 56 (ByteReverseWords b)"
  have b': "mem_write (ByteReverseWords b) 0 (replicate 56 0) = Some b'" "length b' = 64" "take 56 b' = replicate 56 0"
    using lb by (simp_all add: mem_write_zero b'_def)
  have "(120 - length p) mod 64 = (64 - length p) + 56" using True p(3) by (simp add: mod_if)
  then have pad: "p @ replicate ((120 - length p) mod 64) 0 @ x = b @ replicate 56 0 @ x" for x :: bytes
    unfolding b_def by (simp only: replicate_add append_assoc)
  have "ref_blocks (digest sha) (p @ replicate ((120 - length p) mod 64) 0 @ x) = ref_compress (digest s1) (take 56 b' @ x)" if "length x = 8" for x
    unfolding pad using ref_blocks_block [OF b(1)] ref_blocks_block [of "replicate 56 0 @ x" _ "[]"] that s1(2) b'(3) by simp
  moreover have "flush_block sha = Some s1" using gt b(2) p(1) by (simp add: flush_block_def s1_def)
  ultimately show ?thesis using s1 lb b' by (intro exI [of _ s1] exI [of _ b']) simp
next
  case False
  then have le: "\<not> 56 < buffLen sha" using p(1) by (simp add: word_less_nat_alt)
  define b' where "b' = p @ replicate (56 - length p) 0 @ drop 56 (buffer sha)"
  have b': "mem_write (buffer sha) (length p) (replicate (56 - length p) 0) = Some b'" "length b' = 64" "take 56 b' = p @ replicate (56 - length p) 0"
    using False s p by (auto simp: mem_write_def b'_def)
  have "(120 - length p) mod 64 = 56 - length p" using False by (simp add: mod_if)
  then have blk: "ref_blocks (digest sha) (p @ replicate ((120 - length p) mod 64) 0 @ x) = ref_compress (digest sha) (take 56 b' @ x)" if "length x = 8" for x
    using ref_blocks_block [of "(p @ replicate (56 - length p) 0) @ x" "digest sha" "[]"] that False b'(3) by simp
  have fl: "flush_block sha = Some sha" using le by (simp add: flush_block_def)
  show ?thesis
  proof (rule exI [of _ sha], rule exI [of _ b'], intro conjI allI impI)
    show "length (take 56 b') = 56" using b'(2) by simp
  qed (use s p(1) b'(1,2) fl in \<open>simp_all add: blk\<close>)
qed

lemma Sha256Final_hashes:
  assumes m: "sha_repr sha m" "length m < 2 ^ 61"
  shows "\<exists>sha'. wc_Sha256Final sha = Some (0, sha256_ref m, sha') \<and> sha_repr sha' []"
proof -
  from m(1) obtain f r where R: "length (buffer sha) = 64" "length (digest sha) = 8" "m = f @ r" "64 dvd length f" "length r < 64"
      "digest sha = ref_blocks sha_init_digest f" "unat (buffLen sha) = length r" "take (length r) (buffer sha) = r"
      "unat (hiLen sha) * 2 ^ 32 + unat (loLen sha) = length f" by (auto simp: sha_repr_def)
  have lm: "length f + unat (buffLen sha) = length m" using R(3,7) by simp
  have "length f + unat (buffLen sha) < 2 ^ 64" unfolding lm by (rule less_trans [OF m(2)]) simp
  from AddLength_counts [OF R(9) this] obtain h l where hl: "AddLength sha (buffLen sha) = sha\<lparr>hiLen := h, loLen := l\<rparr>" "unat h * 2 ^ 32 + unat l = length m"
    using lm by auto
  define p where "p = r @ [0x80]"
  define b0 where "b0 = (buffer sha)[length r := 0x80]"
  have b0: "write_at (buffer sha) (length r) 0x80 = Some b0" "length b0 = 64" using R(1,5) by (simp_all add: write_at_def b0_def)
  have tp: "take (length p) b0 = p" using R(1,5,8) by (simp add: b0_def p_def take_Suc_conv_app_nth take_update_swap)
  define s1 where "s1 = sha\<lparr>hiLen := h, loLen := l, buffer := b0, buffLen := buffLen sha + 1\<rparr>"
  have ub: "unat (buffLen sha + 1) = length p" using R(5,7) by (simp add: unat_word_ariths p_def)
  from flush_block_pads [of s1 p] R(2,5) b0(2) tp ub obtain s2 b' where
    s2: "flush_block s1 = Some s2" "length (buffer s2) = 64" "length (digest s2) = 8"
      "mem_write (buffer s2) (unat (buffLen s2)) (replicate (56 - unat (buffLen s2)) 0) = Some b'" "length b' = 64" "hiLen s2 = h" "loLen s2 = l"
      "\<And>x. length x = 8 \<Longrightarrow> ref_blocks (digest sha) (p @ replicate ((120 - length p) mod 64) 0 @ x) = ref_compress (digest s2) (take 56 b' @ x)"
    by (auto simp: s1_def p_def)
  define hw where "hw = drop_bit 29 l + push_bit 3 h"
  define lw where "lw = push_bit 3 l"
  note bits = bit_count [OF hl(2) m(2), folded hw_def lw_def]
  from last_block [OF s2(5) refl, of hw lw] obtain b1 b2 where
    b2: "mem_write (ByteReverseWords b') 56 (le_bytes hw) = Some b1" "mem_write b1 60 (le_bytes lw) = Some b2" "length b2 = 64"
      "load_words b2 = be_words (take 56 b' @ be_bytes hw @ be_bytes lw)" "length (take 56 b' @ be_bytes hw @ be_bytes lw) = 64" by blast
  define s3 where "s3 = s2\<lparr>hiLen := hw, loLen := lw, buffer := b2\<rparr>"
  have t: "Transform s3 = s3\<lparr>digest := ref_compress (digest s2) (take 56 b' @ be_bytes hw @ be_bytes lw)\<rparr>"
    using Transform_ref(1) [of s3 "take 56 b' @ be_bytes hw @ be_bytes lw"] s2(3) b2(4,5) by (simp add: s3_def)
  define D where "D = ref_compress (digest s2) (take 56 b' @ be_bytes hw @ be_bytes lw)"
  have "(120 - length p) mod 64 = (119 - length m mod 64) mod 64"
  proof -
    have "length m mod 64 = length r" using R(3-5) by (simp add: mod_add_eq [symmetric] dvd_eq_mod_eq_0 mod_add_left_eq)
    then show ?thesis by (simp add: p_def)
  qed
  then have pad: "ref_pad m = f @ p @ replicate ((120 - length p) mod 64) 0 @ be_bytes hw @ be_bytes lw"
    using R(3) bits by (simp add: ref_pad_def p_def)
  have "length (be_bytes hw @ be_bytes lw) = 8" by (simp add: be_bytes_def le_bytes_def)
  then have "ref_blocks sha_init_digest (ref_pad m) = D"
    unfolding pad ref_blocks_append [OF R(4)] R(6) [symmetric] D_def by (rule s2(8))
  then have out: "ByteReverseWords (store_words D) = sha256_ref m" by (simp add: ByteReverse_store sha256_ref_def)
  define s4 where "s4 = snd (wc_InitSha256 (s3\<lparr>digest := load_words (sha256_ref m)\<rparr>))"
  have "s1\<lparr>buffer := b0, buffLen := buffLen sha + 1\<rparr> = s1" by (simp add: s1_def)
  then have "wc_Sha256Final sha = Some (0, sha256_ref m, s4)"
    using hl(1) R(7) b0(1) s2 b2(1,2) t out
    by (simp add: wc_Sha256Final_def Let_def s1_def [symmetric] hw_def [symmetric] lw_def [symmetric] s3_def [symmetric] D_def [symmetric] s4_def wc_InitSha256_def)
  moreover have "sha_repr s4 []" unfolding s4_def by (rule sha_repr_init) (simp add: s3_def b2(3))
  ultimately show ?thesis by blast
qed

section \<open>The constants\<close>

text \<open>
  The words of the table are the first 32 bits of the fractional parts of the cube roots of the first 64 primes, those of the initial
  digest of the square roots of the first 8 primes: with the integer part \<open>n\<close> of the root, \<open>n * 2 ^ 32 + w\<close> is the integer root of the prime
  scaled by a power of two.
\<close>

definition first_primes :: "int list" where
  "first_primes = [2, 3, 5, 7, 11, 13, 17, 19, 23, 29, 31, 37, 41, 43, 47, 53, 59, 61, 67, 71, 73, 79, 83, 89, 97, 101, 103, 107, 109, 113, 127, 131,
     137, 139, 149, 151, 157, 163, 167, 173, 179, 181, 191, 193, 197, 199, 211, 223, 227, 229, 233, 239, 241, 251, 257, 263, 269, 271, 277, 281, 283, 293, 307, 311]"

definition root_bits :: "nat \<Rightarrow> int \<Rightarrow> 32 word \<Rightarrow> bool" where
  "root_bits k p w \<longleftrightarrow> list_ex (\<lambda>n. n ^ k \<le> p \<and> p < (n + 1) ^ k \<and>
     (n * 4294967296 + uint w) ^ k \<le> p * 4294967296 ^ k \<and> p * 4294967296 ^ k < (n * 4294967296 + uint w + 1) ^ k) [1, 2, 3, 4, 5, 6]"

lemma K_tab_cube_roots: "list_all2 (root_bits 3) first_primes K_tab"
  by code_simp

lemma init_digest_square_roots: "list_all2 (root_bits 2) (take 8 first_primes) sha_init_digest"
  by code_simp

section \<open>The contract of an incremental hash\<close>

text \<open>Feeding a list of pieces with an update function.\<close>

fun feed :: "('s \<Rightarrow> bytes \<Rightarrow> 32 word \<Rightarrow> (int \<times> 's) option) \<Rightarrow> 's \<Rightarrow> bytes list \<Rightarrow> 's option" where
  "feed upd s [] = Some s"
| "feed upd s (c # cs) = do { (r, s) \<leftarrow> upd s c (word_of_nat (length c)); if r = 0 then feed upd s cs else None }"

text \<open>
  \<open>repr s m\<close> says that the context \<open>s\<close> has absorbed the message \<open>m\<close>. The clients rely on the two laws: an update appends to the
  message, and the final call returns the hash of the message, as long as it is shorter than \<open>bound\<close>.
\<close>

locale incremental_hash =
  fixes repr :: "'s \<Rightarrow> bytes \<Rightarrow> bool"
    and upd :: "'s \<Rightarrow> bytes \<Rightarrow> 32 word \<Rightarrow> (int \<times> 's) option"
    and fin :: "'s \<Rightarrow> (int \<times> bytes \<times> 's) option"
    and hash :: "bytes \<Rightarrow> bytes"
    and bound :: nat
  assumes absorb: "repr s m \<Longrightarrow> unat n \<le> length d \<Longrightarrow> length m + unat n < bound \<Longrightarrow>
      \<exists>s'. upd s d n = Some (0, s') \<and> repr s' (m @ take (unat n) d)"
    and finish: "repr s m \<Longrightarrow> length m < bound \<Longrightarrow> \<exists>s'. fin s = Some (0, hash m, s') \<and> repr s' []"
begin

lemma absorb_all:
  assumes "repr s m" and "n = word_of_nat (length d)" and "length d < 2 ^ 32" and "length m + length d < bound"
  shows "\<exists>s'. upd s d n = Some (0, s') \<and> repr s' (m @ d)"
proof -
  have "unat n = length d" unfolding assms(2) by (rule unat32_of_nat [OF assms(3)])
  with absorb [OF assms(1), of n d] assms(4) show ?thesis by simp
qed

text \<open>How a message is cut into pieces does not matter.\<close>

lemma feed_absorbs:
  assumes "repr s m" and "\<forall>c \<in> set cs. length c < 2 ^ 32" and "length m + length (concat cs) < bound"
  shows "\<exists>s'. feed upd s cs = Some s' \<and> repr s' (m @ concat cs)"
  using assms
proof (induction cs arbitrary: s m)
  case (Cons c cs)
  from absorb_all [OF Cons.prems(1) refl, of c] Cons.prems(2,3) obtain s1 where
    s1: "upd s c (word_of_nat (length c)) = Some (0, s1)" "repr s1 (m @ c)" by auto
  from Cons.IH [OF s1(2)] Cons.prems(2,3) s1(1) show ?case by auto
qed simp

lemma feed_hashes:
  assumes "repr s m" and "\<forall>c \<in> set cs. length c < 2 ^ 32" and "length m + length (concat cs) < bound"
  shows "\<exists>s1 s2. feed upd s cs = Some s1 \<and> fin s1 = Some (0, hash (m @ concat cs), s2) \<and> repr s2 []"
proof -
  from feed_absorbs [OF assms] obtain s1 where s1: "feed upd s cs = Some s1" "repr s1 (m @ concat cs)" by blast
  from finish [OF s1(2)] assms(3) s1(1) show ?thesis by auto
qed

end

interpretation sha: incremental_hash sha_repr wc_Sha256Update wc_Sha256Final sha256_ref "2 ^ 61"
  by unfold_locales (rule Sha256Update_absorbs Sha256Final_hashes; assumption)+

lemma length_ref_rounds: "length S = 8 \<Longrightarrow> length (ref_rounds M t S) = 8"
proof (induction t)
  case (Suc t)
  then obtain a b c d e f g h where "ref_rounds M t S = [a, b, c, d, e, f, g, h]"
    by (auto simp: length_Suc_conv numeral_eq_Suc)
  then show ?case by (simp add: ref_round_def Let_def)
qed simp

lemma length_ref_blocks: "length H = 8 \<Longrightarrow> length (ref_blocks H m) = 8"
proof (induction H m rule: ref_blocks.induct)
  case (1 H m)
  have "length (ref_compress H (take 64 m)) = 8" using 1(2) by (simp add: ref_compress_def length_ref_rounds)
  with 1 show ?case by (cases "length m < 64") (simp_all add: ref_blocks.simps [of H m])
qed

lemma length_sha256_ref [simp]: "length (sha256_ref m) = 32"
proof -
  have "length (concat (map be_bytes ws)) = 4 * length ws" for ws
    by (induction ws) (simp_all add: be_bytes_def le_bytes_def)
  then show ?thesis by (simp add: sha256_ref_def length_ref_blocks sha_init_digest_def)
qed

text \<open>C8. SHA-256 is computed correctly and incrementally. After initialisation, for every division of a message of less than \<open>2 ^ 61\<close> bytes into
  pieces, every update succeeds and the final call returns the SHA-256 hash of FIPS 180-4 of the whole message. The unrolled rounds,
  the optimised Boolean functions, the byte reversals of a little-endian machine and the counter in two words are part of the code.
\<close>

theorem sha256_incremental:
  assumes "length (buffer sha) = 64" and "\<forall>c \<in> set cs. length c < 2 ^ 32" and "length (concat cs) < 2 ^ 61"
  shows "\<exists>s1 s2. feed wc_Sha256Update (snd (wc_InitSha256 sha)) cs = Some s1 \<and> wc_Sha256Final s1 = Some (0, sha256_ref (concat cs), s2)"
  using sha.feed_hashes [OF sha_repr_init [OF assms(1)] assms(2)] assms(3) by auto

theorem sha256_incremental_witness:
  "\<exists>s1 s2. feed wc_Sha256Update (snd (wc_InitSha256 \<lparr>buffLen = 9, loLen = 9, hiLen = 9, digest = [], buffer = replicate 64 255\<rparr>)) [[97], [], [98, 99]] = Some s1 \<and>
    wc_Sha256Final s1 = Some (0, sha256_ref [97, 98, 99], s2)"
  using sha256_incremental [of "\<lparr>buffLen = 9, loLen = 9, hiLen = 9, digest = [], buffer = replicate 64 255\<rparr>" "[[97], [], [98, 99]]"] by simp

end
