(* ===== verification/Hmac.thy ===== *)
theory Hmac
  imports Sha256
begin

text \<open>
  Keyed hashing: the SHA-256 case of \<open>wolfSSL/wolfcrypt/src/hmac.c\<close> and the wrappers of \<open>src/ssl/crypt.c\<close> that the SDK calls. The reference is
  the HMAC of RFC 2104. The proofs use the hash only through the interpretation \<open>sha\<close> of \<open>incremental_hash\<close>; the keyed hash is
  again such a function, for each key.
\<close>

unbundle bit_operations_syntax

section \<open>The code\<close>

record Hmac =
  hm_hash :: Sha256
  hm_ipad :: bytes
  hm_opad :: bytes
  hm_innerHash :: bytes
  hm_innerHashKeyed :: byte

definition InitHmac :: "Hmac \<Rightarrow> int \<times> Hmac" where
  "InitHmac hmac =
     (let hmac = hmac\<lparr>hm_innerHashKeyed := 0\<rparr>
      in case wc_InitSha256 (hm_hash hmac) of (ret, h) \<Rightarrow> (ret, hmac\<lparr>hm_hash := h\<rparr>))"

text \<open>The bytes of the key, or of its hash when it is longer than a block, in \<open>ipad\<close>; the result is the status and the length.\<close>

definition load_key :: "Hmac \<Rightarrow> bytes \<Rightarrow> 32 word \<Rightarrow> (int \<times> nat \<times> Hmac) option" where
  "load_key hmac key len =
     (if len \<le> 64 then do {
        xs \<leftarrow> mem_read key 0 (unat len);
        ip \<leftarrow> mem_write (hm_ipad hmac) 0 xs;
        Some (0, unat len, hmac\<lparr>hm_ipad := ip\<rparr>)
      }
      else do {
        (ret, h) \<leftarrow> wc_Sha256Update (hm_hash hmac) key len;
        if ret \<noteq> 0 then Some (ret, 0, hmac\<lparr>hm_hash := h\<rparr>)
        else do {
          (ret, d, h) \<leftarrow> wc_Sha256Final h;
          ip \<leftarrow> mem_write (hm_ipad hmac) 0 d;
          Some (ret, 32, hmac\<lparr>hm_hash := h, hm_ipad := ip\<rparr>)
        }
      })"

definition wc_HmacSetKey :: "Hmac \<Rightarrow> bytes \<Rightarrow> 32 word \<Rightarrow> (int \<times> Hmac) option" where
  "wc_HmacSetKey hmac key len =
     (case InitHmac hmac of (ret, hmac) \<Rightarrow>
        if ret \<noteq> 0 then Some (ret, hmac)
        else do {
          (ret, n, hmac) \<leftarrow> load_key hmac key len;
          if ret \<noteq> 0 then Some (ret, hmac)
          else do {
            ip \<leftarrow> (if n < 64 then mem_write (hm_ipad hmac) n (replicate (64 - n) 0) else Some (hm_ipad hmac));
            xs \<leftarrow> mem_read ip 0 64;
            op \<leftarrow> mem_write (hm_opad hmac) 0 (map (\<lambda>c. c XOR 0x5C) xs);
            ip \<leftarrow> mem_write ip 0 (map (\<lambda>c. c XOR 0x36) xs);
            Some (0, hmac\<lparr>hm_ipad := ip, hm_opad := op\<rparr>)
          }
        })"

definition HmacKeyInnerHash :: "Hmac \<Rightarrow> (int \<times> Hmac) option" where
  "HmacKeyInnerHash hmac = do {
     (ret, h) \<leftarrow> wc_Sha256Update (hm_hash hmac) (hm_ipad hmac) 64;
     let hmac = hmac\<lparr>hm_hash := h\<rparr>;
     if ret \<noteq> 0 then Some (ret, hmac) else Some (ret, hmac\<lparr>hm_innerHashKeyed := 1\<rparr>)
   }"

definition key_inner :: "Hmac \<Rightarrow> (int \<times> Hmac) option" where
  "key_inner hmac = (if hm_innerHashKeyed hmac = 0 then HmacKeyInnerHash hmac else Some (0, hmac))"

definition wc_HmacUpdate :: "Hmac \<Rightarrow> bytes \<Rightarrow> 32 word \<Rightarrow> (int \<times> Hmac) option" where
  "wc_HmacUpdate hmac msg len = do {
     (ret, hmac) \<leftarrow> key_inner hmac;
     if ret \<noteq> 0 then Some (ret, hmac)
     else do {
       (ret, h) \<leftarrow> wc_Sha256Update (hm_hash hmac) msg len;
       Some (ret, hmac\<lparr>hm_hash := h\<rparr>)
     }
   }"

text \<open>The inner hash is followed by the hash of the outer key and the inner digest.\<close>

definition outer_hash :: "Hmac \<Rightarrow> (int \<times> bytes \<times> Hmac) option" where
  "outer_hash hmac = do {
     (ret, inner, h) \<leftarrow> wc_Sha256Final (hm_hash hmac);
     inn \<leftarrow> mem_write (hm_innerHash hmac) 0 inner;
     let hmac = hmac\<lparr>hm_hash := h, hm_innerHash := inn\<rparr>;
     if ret \<noteq> 0 then Some (ret, [], hmac)
     else do {
       (ret, h) \<leftarrow> wc_Sha256Update h (hm_opad hmac) 64;
       if ret \<noteq> 0 then Some (ret, [], hmac\<lparr>hm_hash := h\<rparr>)
       else do {
         (ret, h) \<leftarrow> wc_Sha256Update h (hm_innerHash hmac) 32;
         if ret \<noteq> 0 then Some (ret, [], hmac\<lparr>hm_hash := h\<rparr>)
         else do {
           (ret, d, h) \<leftarrow> wc_Sha256Final h;
           Some (ret, d, hmac\<lparr>hm_hash := h\<rparr>)
         }
       }
     }
   }"

definition wc_HmacFinal :: "Hmac \<Rightarrow> (int \<times> bytes \<times> Hmac) option" where
  "wc_HmacFinal hmac = do {
     (ret, hmac) \<leftarrow> key_inner hmac;
     if ret \<noteq> 0 then Some (ret, [], hmac)
     else do {
       (ret, d, hmac) \<leftarrow> outer_hash hmac;
       if ret \<noteq> 0 then Some (ret, d, hmac) else Some (0, d, hmac\<lparr>hm_innerHashKeyed := 0\<rparr>)
     }
   }"

section \<open>The wrappers of the SDK\<close>

text \<open>One call on a context on the stack, whose contents before the call are arbitrary.\<close>

definition sha256 :: "Sha256 \<Rightarrow> bytes \<Rightarrow> int \<Rightarrow> bytes option" where
  "sha256 sh buf n = do {
     (_, sh) \<leftarrow> wc_Sha256Update (snd (wc_InitSha256 sh)) buf (word_of_int n);
     (_, d, _) \<leftarrow> wc_Sha256Final sh;
     Some d
   }"

definition hmac256 :: "Hmac \<Rightarrow> bytes \<Rightarrow> int \<Rightarrow> bytes \<Rightarrow> int \<Rightarrow> bytes option" where
  "hmac256 hmac key key_size buf buf_size = do {
     (_, hmac) \<leftarrow> wc_HmacSetKey hmac key (word_of_int key_size);
     (_, hmac) \<leftarrow> wc_HmacUpdate hmac buf (word_of_int buf_size);
     (_, d, _) \<leftarrow> wc_HmacFinal hmac;
     Some d
   }"

text \<open>The two static contexts.\<close>

record crypt_state =
  static_sh :: Sha256
  static_hmac :: Hmac

definition sha256_init :: "crypt_state \<Rightarrow> crypt_state" where
  "sha256_init st = st\<lparr>static_sh := snd (wc_InitSha256 (static_sh st))\<rparr>"

definition sha256_chunk :: "crypt_state \<Rightarrow> bytes \<Rightarrow> int \<Rightarrow> crypt_state option" where
  "sha256_chunk st buf n = do { (_, sh) \<leftarrow> wc_Sha256Update (static_sh st) buf (word_of_int n); Some (st\<lparr>static_sh := sh\<rparr>) }"

definition sha256_fin :: "crypt_state \<Rightarrow> (bytes \<times> crypt_state) option" where
  "sha256_fin st = do { (_, d, sh) \<leftarrow> wc_Sha256Final (static_sh st); Some (d, st\<lparr>static_sh := sh\<rparr>) }"

definition hmac256_init :: "crypt_state \<Rightarrow> bytes \<Rightarrow> int \<Rightarrow> crypt_state option" where
  "hmac256_init st key n = do { (_, h) \<leftarrow> wc_HmacSetKey (static_hmac st) key (word_of_int n); Some (st\<lparr>static_hmac := h\<rparr>) }"

definition hmac256_chunk :: "crypt_state \<Rightarrow> bytes \<Rightarrow> int \<Rightarrow> crypt_state option" where
  "hmac256_chunk st buf n = do { (_, h) \<leftarrow> wc_HmacUpdate (static_hmac st) buf (word_of_int n); Some (st\<lparr>static_hmac := h\<rparr>) }"

definition hmac256_fin :: "crypt_state \<Rightarrow> (bytes \<times> crypt_state) option" where
  "hmac256_fin st = do { (_, d, h) \<leftarrow> wc_HmacFinal (static_hmac st); Some (d, st\<lparr>static_hmac := h\<rparr>) }"

section \<open>The reference\<close>

definition hmac_key :: "bytes \<Rightarrow> bytes" where
  "hmac_key key = (let k = (if length key \<le> 64 then key else sha256_ref key) in k @ replicate (64 - length k) 0)"

definition hmac_ref :: "bytes \<Rightarrow> bytes \<Rightarrow> bytes" where
  "hmac_ref key m =
     sha256_ref (map (\<lambda>c. c XOR 0x5C) (hmac_key key) @ sha256_ref (map (\<lambda>c. c XOR 0x36) (hmac_key key) @ m))"

lemma length_hmac_key [simp]: "length (hmac_key key) = 64"
  by (simp add: hmac_key_def Let_def)

lemma length_hmac_ref [simp]: "length (hmac_ref key m) = 32"
  by (simp add: hmac_ref_def)

section \<open>The code computes the reference\<close>

text \<open>The context holds the key and has absorbed \<open>m\<close>; the inner key is hashed with the first update.\<close>

definition hmac_repr :: "bytes \<Rightarrow> Hmac \<Rightarrow> bytes \<Rightarrow> bool" where
  "hmac_repr key hm m \<longleftrightarrow> 64 \<le> length (hm_ipad hm) \<and> 64 \<le> length (hm_opad hm) \<and> 32 \<le> length (hm_innerHash hm) \<and>
     take 64 (hm_ipad hm) = map (\<lambda>c. c XOR 0x36) (hmac_key key) \<and> take 64 (hm_opad hm) = map (\<lambda>c. c XOR 0x5C) (hmac_key key) \<and>
     (if hm_innerHashKeyed hm = 0 then m = [] \<and> sha_repr (hm_hash hm) []
      else sha_repr (hm_hash hm) (map (\<lambda>c. c XOR 0x36) (hmac_key key) @ m))"

lemma key_inner_keys:
  assumes "hmac_repr key hm m"
  shows "\<exists>hm'. key_inner hm = Some (0, hm') \<and> hmac_repr key hm' m \<and> hm_innerHashKeyed hm' \<noteq> 0"
proof (cases "hm_innerHashKeyed hm = 0")
  case True
  have "unat (64 :: 32 word) = 64" by simp
  moreover have "sha_repr (hm_hash hm) []" "64 \<le> length (hm_ipad hm)" "m = []" using assms True by (auto simp: hmac_repr_def)
  ultimately obtain h where "wc_Sha256Update (hm_hash hm) (hm_ipad hm) 64 = Some (0, h)" "sha_repr h ([] @ take 64 (hm_ipad hm))"
    using sha.absorb [of "hm_hash hm" "[]" 64 "hm_ipad hm"] by auto
  then show ?thesis using assms True by (auto simp: key_inner_def HmacKeyInnerHash_def hmac_repr_def Let_def)
qed (use assms in \<open>auto simp: key_inner_def\<close>)

lemma HmacUpdate_absorbs:
  assumes "hmac_repr key hm m" and "unat n \<le> length d" and "length m + unat n < 2 ^ 61 - 64"
  shows "\<exists>hm'. wc_HmacUpdate hm d n = Some (0, hm') \<and> hmac_repr key hm' (m @ take (unat n) d)"
proof -
  from key_inner_keys [OF assms(1)] obtain h1 where h1: "key_inner hm = Some (0, h1)" "hmac_repr key h1 m" "hm_innerHashKeyed h1 \<noteq> 0" by blast
  then have "sha_repr (hm_hash h1) (map (\<lambda>c. c XOR 0x36) (hmac_key key) @ m)" by (simp add: hmac_repr_def)
  from sha.absorb [OF this assms(2)] assms(3) obtain h where "wc_Sha256Update (hm_hash h1) d n = Some (0, h)"
      "sha_repr h (map (\<lambda>c. c XOR 0x36) (hmac_key key) @ m @ take (unat n) d)" by auto
  then show ?thesis using h1 by (auto simp: wc_HmacUpdate_def hmac_repr_def)
qed

lemma outer_hash_correct:
  assumes hm: "hmac_repr key hm m" "hm_innerHashKeyed hm \<noteq> 0" and len: "length m < 2 ^ 61 - 64"
  shows "\<exists>hm'. outer_hash hm = Some (0, hmac_ref key m, hm') \<and> hmac_repr key (hm'\<lparr>hm_innerHashKeyed := 0\<rparr>) []"
proof -
  let ?ik = "map (\<lambda>c. c XOR 0x36) (hmac_key key)" and ?ok = "map (\<lambda>c. c XOR 0x5C) (hmac_key key)"
  have R: "sha_repr (hm_hash hm) (?ik @ m)" "64 \<le> length (hm_opad hm)" "take 64 (hm_opad hm) = ?ok" "32 \<le> length (hm_innerHash hm)"
    using hm by (auto simp: hmac_repr_def)
  from sha.finish [OF R(1)] len obtain s1 where s1: "wc_Sha256Final (hm_hash hm) = Some (0, sha256_ref (?ik @ m), s1)" "sha_repr s1 []" by auto
  define d where "d = sha256_ref (?ik @ m)"
  define inn where "inn = d @ drop 32 (hm_innerHash hm)"
  have inn: "mem_write (hm_innerHash hm) 0 d = Some inn" "length inn = length (hm_innerHash hm)" "take 32 inn = d"
    using R(4) by (simp_all add: mem_write_zero inn_def d_def)
  have u: "unat (64 :: 32 word) = 64" "unat (32 :: 32 word) = 32" by simp_all
  from sha.absorb [OF s1(2), of 64 "hm_opad hm"] R(2,3) u obtain s2 where s2: "wc_Sha256Update s1 (hm_opad hm) 64 = Some (0, s2)" "sha_repr s2 ?ok" by auto
  from sha.absorb [OF s2(2), of 32 inn] R(4) inn u obtain s3 where s3: "wc_Sha256Update s2 inn 32 = Some (0, s3)" "sha_repr s3 (?ok @ d)" by auto
  from sha.finish [OF s3(2)] obtain s4 where s4: "wc_Sha256Final s3 = Some (0, sha256_ref (?ok @ d), s4)" "sha_repr s4 []" by (auto simp: d_def)
  show ?thesis
    using s1(1) s2(1) s3(1) s4 inn hm by (auto simp: outer_hash_def Let_def d_def hmac_ref_def hmac_repr_def)
qed

lemma HmacFinal_hashes:
  assumes "hmac_repr key hm m" and "length m < 2 ^ 61 - 64"
  shows "\<exists>hm'. wc_HmacFinal hm = Some (0, hmac_ref key m, hm') \<and> hmac_repr key hm' []"
proof -
  from key_inner_keys [OF assms(1)] obtain h1 where h1: "key_inner hm = Some (0, h1)" "hmac_repr key h1 m" "hm_innerHashKeyed h1 \<noteq> 0" by blast
  from outer_hash_correct [OF h1(2,3) assms(2)] h1(1) show ?thesis by (auto simp: wc_HmacFinal_def)
qed

interpretation hm: incremental_hash "hmac_repr key" wc_HmacUpdate wc_HmacFinal "hmac_ref key" "2 ^ 61 - 64" for key
  by unfold_locales (rule HmacUpdate_absorbs HmacFinal_hashes; assumption)+

text \<open>The objects of a context have their sizes; nothing else is known of it before the key is set.\<close>

definition hmac_object :: "Hmac \<Rightarrow> bool" where
  "hmac_object hm \<longleftrightarrow> 64 \<le> length (hm_ipad hm) \<and> 64 \<le> length (hm_opad hm) \<and> 32 \<le> length (hm_innerHash hm) \<and> length (buffer (hm_hash hm)) = 64"

lemma load_key_loads:
  assumes hm: "hmac_object hm" "sha_repr (hm_hash hm) []" and key: "length key < 2 ^ 32"
  shows "\<exists>n hm' k. load_key hm (key @ r) (word_of_nat (length key)) = Some (0, n, hm') \<and> hmac_object hm' \<and> sha_repr (hm_hash hm') [] \<and>
    hm_innerHashKeyed hm' = hm_innerHashKeyed hm \<and> take n (hm_ipad hm') = k \<and> length k = n \<and> n \<le> 64 \<and> hmac_key key = k @ replicate (64 - n) 0"
proof -
  have uk: "unat (word_of_nat (length key) :: 32 word) = length key" by (rule unat32_of_nat [OF key])
  show ?thesis
  proof (cases "length key \<le> 64")
    case True
    then have le: "(word_of_nat (length key) :: 32 word) \<le> 64" using uk by (simp add: word_le_nat_alt)
    define ip where "ip = key @ drop (length key) (hm_ipad hm)"
    have ip: "mem_write (hm_ipad hm) 0 key = Some ip" "length ip = length (hm_ipad hm)" using True hm(1) by (auto simp: ip_def mem_write_zero hmac_object_def)
    have "load_key hm (key @ r) (word_of_nat (length key)) = Some (0, length key, hm\<lparr>hm_ipad := ip\<rparr>)"
      using le uk ip by (simp add: load_key_def mem_read_def)
    then show ?thesis using hm ip True by (simp add: hmac_object_def hmac_key_def ip_def)
  next
    case False
    then have gt: "\<not> (word_of_nat (length key) :: 32 word) \<le> 64" using uk by (simp add: word_le_nat_alt)
    from sha.absorb [OF hm(2), of "word_of_nat (length key)" "key @ r"] key uk obtain s1 where s1: "wc_Sha256Update (hm_hash hm) (key @ r) (word_of_nat (length key)) = Some (0, s1)" "sha_repr s1 key" by auto
    from sha.finish [OF s1(2)] key obtain s2 where s2: "wc_Sha256Final s1 = Some (0, sha256_ref key, s2)" "sha_repr s2 []" by auto
    define ip where "ip = sha256_ref key @ drop 32 (hm_ipad hm)"
    have ip: "mem_write (hm_ipad hm) 0 (sha256_ref key) = Some ip" "length ip = length (hm_ipad hm)" using hm(1) by (auto simp: ip_def mem_write_zero hmac_object_def)
    have "load_key hm (key @ r) (word_of_nat (length key)) = Some (0, 32, hm\<lparr>hm_hash := s2, hm_ipad := ip\<rparr>)"
      using gt s1 s2 ip by (simp add: load_key_def)
    moreover have "length (buffer s2) = 64" using s2(2) by (simp add: sha_repr_def)
    ultimately show ?thesis using hm s2 ip False by (simp add: hmac_object_def hmac_key_def ip_def)
  qed
qed

lemma HmacSetKey_keys:
  assumes hm: "hmac_object hm" and key: "length key < 2 ^ 32"
  shows "\<exists>hm'. wc_HmacSetKey hm (key @ r) (word_of_nat (length key)) = Some (0, hm') \<and> hmac_repr key hm' []"
proof -
  define h0 where "h0 = hm\<lparr>hm_innerHashKeyed := 0, hm_hash := snd (wc_InitSha256 (hm_hash hm))\<rparr>"
  have i: "InitHmac hm = (0, h0)" by (simp add: InitHmac_def Let_def h0_def wc_InitSha256_def)
  have h0: "hmac_object h0" "sha_repr (hm_hash h0) []" "hm_innerHashKeyed h0 = 0"
    using hm sha_repr_init [of "hm_hash hm"] by (auto simp: hmac_object_def h0_def wc_InitSha256_def)
  from load_key_loads [OF h0(1,2) key, of r] h0(3) obtain n h1 k where
    h1: "load_key h0 (key @ r) (word_of_nat (length key)) = Some (0, n, h1)" "hmac_object h1" "sha_repr (hm_hash h1) []" "hm_innerHashKeyed h1 = 0"
      "take n (hm_ipad h1) = k" "length k = n" "n \<le> 64" "hmac_key key = k @ replicate (64 - n) 0" by auto
  have len: "64 \<le> length (hm_ipad h1)" "64 \<le> length (hm_opad h1)" using h1(2) by (auto simp: hmac_object_def)
  define ip where "ip = hmac_key key @ drop 64 (hm_ipad h1)"
  have ip: "(if n < 64 then mem_write (hm_ipad h1) n (replicate (64 - n) 0) else Some (hm_ipad h1)) = Some ip"
  proof (cases "n < 64")
    case True
    then show ?thesis using len h1(5,7,8) by (simp add: mem_write_def ip_def)
  next
    case False
    then have "hmac_key key = take 64 (hm_ipad h1)" using h1(5,7,8) by simp
    then show ?thesis using False by (simp add: ip_def)
  qed
  have rd: "mem_read ip 0 64 = Some (hmac_key key)" by (simp add: mem_read_def ip_def)
  define op where "op = map (\<lambda>c. c XOR 0x5C) (hmac_key key) @ drop 64 (hm_opad h1)"
  define ip' where "ip' = map (\<lambda>c. c XOR 0x36) (hmac_key key) @ drop 64 (hm_ipad h1)"
  have w: "mem_write (hm_opad h1) 0 (map (\<lambda>c. c XOR 0x5C) (hmac_key key)) = Some op" "mem_write ip 0 (map (\<lambda>c. c XOR 0x36) (hmac_key key)) = Some ip'"
    using len by (simp_all add: mem_write_zero op_def ip'_def ip_def)
  have "wc_HmacSetKey hm (key @ r) (word_of_nat (length key)) = Some (0, h1\<lparr>hm_ipad := ip', hm_opad := op\<rparr>)"
    using i h1(1) ip rd w by (simp add: wc_HmacSetKey_def)
  moreover have "hmac_repr key (h1\<lparr>hm_ipad := ip', hm_opad := op\<rparr>) []"
    using h1(2-4) by (simp add: hmac_repr_def hmac_object_def ip'_def op_def)
  ultimately show ?thesis by blast
qed

text \<open>C9. HMAC-SHA256 is computed correctly and incrementally. On a context of any contents, setting a key of any length (longer keys are hashed),
  feeding any pieces of a message and finishing returns the HMAC of RFC 2104 of the whole message, and leaves the context
  keyed for the next message.
\<close>

theorem hmac_incremental:
  assumes "hmac_object hm" and "length key < 2 ^ 32" and "\<forall>c \<in> set cs. length c < 2 ^ 32" and "length (concat cs) < 2 ^ 61 - 64"
  shows "\<exists>h1 h2 h3. wc_HmacSetKey hm key (word_of_nat (length key)) = Some (0, h1) \<and> feed wc_HmacUpdate h1 cs = Some h2 \<and>
    wc_HmacFinal h2 = Some (0, hmac_ref key (concat cs), h3) \<and> hmac_repr key h3 []"
proof -
  from HmacSetKey_keys [OF assms(1,2), of "[]"] obtain h1 where h1: "wc_HmacSetKey hm key (word_of_nat (length key)) = Some (0, h1)" "hmac_repr key h1 []" by auto
  from hm.feed_hashes [OF h1(2) assms(3)] assms(4) h1(1) show ?thesis by auto
qed

definition hmac_stack :: Hmac where
  "hmac_stack = \<lparr>hm_hash = \<lparr>buffLen = 7, loLen = 7, hiLen = 7, digest = [], buffer = replicate 64 7\<rparr>, hm_ipad = replicate 64 7, hm_opad = replicate 64 7,
     hm_innerHash = replicate 32 7, hm_innerHashKeyed = 7\<rparr>"

theorem hmac_incremental_witness:
  "\<exists>h1 h2 h3. wc_HmacSetKey hmac_stack (replicate 70 107) 70 = Some (0, h1) \<and> feed wc_HmacUpdate h1 [[104], [105]] = Some h2 \<and>
    wc_HmacFinal h2 = Some (0, hmac_ref (replicate 70 107) [104, 105], h3)"
proof -
  have "hmac_object hmac_stack" by (simp add: hmac_object_def hmac_stack_def)
  then show ?thesis using hmac_incremental [of hmac_stack "replicate 70 107" "[[104], [105]]"] by auto
qed

section \<open>The wrappers\<close>

lemma word_of_int_length: "word_of_int (int n) = (word_of_nat n :: 32 word)"
  by simp

lemma sha256_correct:
  assumes "length (buffer sh) = 64" and "length m < 2 ^ 31"
  shows "sha256 sh (m @ r) (int (length m)) = Some (sha256_ref m)"
proof -
  have u: "unat (word_of_nat (length m) :: 32 word) = length m" using assms(2) by (intro unat32_of_nat) simp
  from sha.absorb [OF sha_repr_init [OF assms(1)], of "word_of_nat (length m)" "m @ r"] u assms(2) obtain s1 where
    s1: "wc_Sha256Update (snd (wc_InitSha256 sh)) (m @ r) (word_of_nat (length m)) = Some (0, s1)" "sha_repr s1 m" by auto
  from sha.finish [OF s1(2)] assms(2) obtain s2 where "wc_Sha256Final s1 = Some (0, sha256_ref m, s2)" by auto
  with s1(1) show ?thesis by (simp add: sha256_def)
qed

text \<open>The state of the static contexts: both objects exist; the first has absorbed a message; the second is keyed and has absorbed one.\<close>

definition crypt_ok :: "crypt_state \<Rightarrow> bool" where
  "crypt_ok cs \<longleftrightarrow> length (buffer (static_sh cs)) = 64 \<and> hmac_object (static_hmac cs)"

definition hashing :: "crypt_state \<Rightarrow> bytes \<Rightarrow> bool" where
  "hashing cs m \<longleftrightarrow> sha_repr (static_sh cs) m \<and> hmac_object (static_hmac cs)"

definition keying :: "bytes \<Rightarrow> crypt_state \<Rightarrow> bytes \<Rightarrow> bool" where
  "keying key cs m \<longleftrightarrow> hmac_repr key (static_hmac cs) m \<and> length (buffer (static_sh cs)) = 64"

lemma sha_repr_object: "sha_repr h m \<Longrightarrow> length (buffer h) = 64"
  by (simp add: sha_repr_def)

lemma hmac_repr_object: "hmac_repr key hm m \<Longrightarrow> hmac_object hm"
  by (auto simp: hmac_repr_def hmac_object_def sha_repr_object split: if_splits)

lemma hashing_ok: "hashing cs m \<Longrightarrow> crypt_ok cs"
  by (auto simp: hashing_def crypt_ok_def intro: sha_repr_object)

lemma keying_ok: "keying key cs m \<Longrightarrow> crypt_ok cs"
  by (auto simp: keying_def crypt_ok_def intro: hmac_repr_object)

lemma sha256_init_hashing: "crypt_ok cs \<Longrightarrow> hashing (sha256_init cs) []"
  by (simp add: crypt_ok_def hashing_def sha256_init_def sha_repr_init)

lemma unat_length31: "length (d :: bytes) < 2 ^ 31 \<Longrightarrow> unat (word_of_nat (length d) :: 32 word) = length d"
  by (intro unat32_of_nat) simp

lemma sha256_chunk_hashing:
  assumes "hashing cs m" and "length d < 2 ^ 31" and "length m + length d < 2 ^ 61"
  shows "returns (sha256_chunk cs (d @ r) (int (length d))) (\<lambda>cs'. hashing cs' (m @ d))"
proof -
  from sha.absorb [of "static_sh cs" m "word_of_nat (length d)" "d @ r"] assms unat_length31 [OF assms(2)] obtain s where
    "wc_Sha256Update (static_sh cs) (d @ r) (word_of_nat (length d)) = Some (0, s)" "sha_repr s (m @ d)" by (auto simp: hashing_def)
  then show ?thesis using assms(1) by (simp add: sha256_chunk_def hashing_def)
qed

lemma sha256_fin_hashing:
  assumes "hashing cs m" and "length m < 2 ^ 61"
  shows "returns (sha256_fin cs) (\<lambda>(d, cs'). d = sha256_ref m \<and> crypt_ok cs')"
proof -
  from sha.finish [of "static_sh cs" m] assms obtain s where "wc_Sha256Final (static_sh cs) = Some (0, sha256_ref m, s)" "sha_repr s []"
    by (auto simp: hashing_def)
  then show ?thesis using assms(1) by (simp add: sha256_fin_def hashing_def crypt_ok_def sha_repr_object)
qed

lemma hmac256_init_keying:
  assumes "crypt_ok cs" and "length key < 2 ^ 31"
  shows "returns (hmac256_init cs (key @ r) (int (length key))) (\<lambda>cs'. keying key cs' [])"
proof -
  from HmacSetKey_keys [of "static_hmac cs" key r] assms obtain h where
    "wc_HmacSetKey (static_hmac cs) (key @ r) (word_of_nat (length key)) = Some (0, h)" "hmac_repr key h []" by (auto simp: crypt_ok_def)
  then show ?thesis using assms(1) by (simp add: hmac256_init_def keying_def crypt_ok_def)
qed

lemma hmac256_chunk_keying:
  assumes "keying key cs m" and "length d < 2 ^ 31" and "length m + length d < 2 ^ 61 - 64"
  shows "returns (hmac256_chunk cs (d @ r) (int (length d))) (\<lambda>cs'. keying key cs' (m @ d))"
proof -
  from hm.absorb [of key "static_hmac cs" m "word_of_nat (length d)" "d @ r"] assms unat_length31 [OF assms(2)] obtain s where
    "wc_HmacUpdate (static_hmac cs) (d @ r) (word_of_nat (length d)) = Some (0, s)" "hmac_repr key s (m @ d)" by (auto simp: keying_def)
  then show ?thesis using assms(1) by (simp add: hmac256_chunk_def keying_def)
qed

lemma hmac256_fin_keying:
  assumes "keying key cs m" and "length m < 2 ^ 61 - 64"
  shows "returns (hmac256_fin cs) (\<lambda>(d, cs'). d = hmac_ref key m \<and> crypt_ok cs')"
proof -
  from hm.finish [of key "static_hmac cs" m] assms obtain s where
    "wc_HmacFinal (static_hmac cs) = Some (0, hmac_ref key m, s)" "hmac_repr key s []" by (auto simp: keying_def)
  then show ?thesis using assms(1) by (simp add: hmac256_fin_def keying_def crypt_ok_def hmac_repr_object)
qed

lemma hmac256_correct:
  assumes "hmac_object hm" and "length key < 2 ^ 31" and "length m < 2 ^ 31"
  shows "hmac256 hm (key @ r) (int (length key)) (m @ q) (int (length m)) = Some (hmac_ref key m)"
proof -
  from HmacSetKey_keys [OF assms(1), of key r] assms(2) obtain h1 where
    h1: "wc_HmacSetKey hm (key @ r) (word_of_nat (length key)) = Some (0, h1)" "hmac_repr key h1 []" by auto
  from hm.absorb [OF h1(2), of "word_of_nat (length m)" "m @ q"] assms(3) unat_length31 [OF assms(3)] obtain h2 where
    h2: "wc_HmacUpdate h1 (m @ q) (word_of_nat (length m)) = Some (0, h2)" "hmac_repr key h2 m" by auto
  from hm.finish [OF h2(2)] assms(3) obtain h3 where "wc_HmacFinal h2 = Some (0, hmac_ref key m, h3)" by auto
  with h1(1) h2(1) show ?thesis by (simp add: hmac256_def)
qed

end
