(* ===== verification/Sha_Empty.thy ===== *)
theory Sha_Empty
  imports Sha256 Text_Util
begin

text \<open>
  The hash of the empty text, evaluated: \<open>sign.c\<close> has its digits as a constant. The compression of the only block is computed with the loops of
  the code, eight rounds at a time.
\<close>

lemma ref_compress_loops:
  assumes "length H = 8" and "length b = 64"
  shows "ref_compress H b = map2 (+) H (rounds_loop (schedule_loop (be_words b) 16 48) 0 8 H)"
proof -
  have "load_words (ByteReverseWords b) = be_words b" using load_ByteReverse [of b "[]"] by simp
  with assms show ?thesis
    using Transform_ref(1) [of "\<lparr>buffLen = 0, loLen = 0, hiLen = 0, digest = H, buffer = ByteReverseWords b\<rparr>" b]
    by (simp add: Transform_def Let_def)
qed

lemma be_words_zeros: "be_words (replicate (4 * n) 0) = replicate n 0"
  by (induction n) (simp_all add: replicate_add numeral_eq_Suc be32_def le32_def)

definition empty_schedule :: "32 word list" where
  "empty_schedule = [
    0x80000000, 0x0, 0x0, 0x0, 0x0, 0x0, 0x0, 0x0,
    0x0, 0x0, 0x0, 0x0, 0x0, 0x0, 0x0, 0x0,
    0x80000000, 0x0, 0x205000, 0x0, 0x22000800, 0x0, 0x5089542, 0x80000000,
    0x58080000, 0x40a000, 0x162505, 0x66001800, 0xd6222580, 0x14225508, 0xd645f95c, 0xc9282000,
    0xc3f10094, 0x284ca766, 0x6886dc6, 0xa37bf116, 0x717cbe96, 0xfec2d74a, 0xa7b67f00, 0x811596a2,
    0x98a6e768, 0x3b20c82, 0x5d1da7c9, 0xb156b935, 0xc3ddca11, 0x249c107f, 0xc48d24ef, 0x5de54c30,
    0xdefece65, 0x2ca1480d, 0x3c15332c, 0x1cec9ad, 0x160cccd0, 0xbacda98, 0x361b8fe0, 0xd2320ba6,
    0x29b7007, 0x7546587c, 0x7f54f39, 0xf808ddc3, 0xdcca7608, 0x5e427188, 0x44bcec5d, 0x3b5ec49b]"

lemma empty_schedule: "schedule_loop (0x80000000 # replicate 15 0) 16 48 = empty_schedule"
  by code_simp

lemma empty_rounds_0: "rounds8 empty_schedule 0 [0x6a09e667, 0xbb67ae85, 0x3c6ef372, 0xa54ff53a, 0x510e527f, 0x9b05688c, 0x1f83d9ab, 0x5be0cd19] =
    [0x7ad5b1b6, 0xf0205590, 0x292e3b42, 0x4366f730, 0x53f94dcb, 0x82ede06f, 0x4f6540fa, 0xe7d0641e]"
  by code_simp

lemma empty_rounds_1: "rounds8 empty_schedule 8 [0x7ad5b1b6, 0xf0205590, 0x292e3b42, 0x4366f730, 0x53f94dcb, 0x82ede06f, 0x4f6540fa, 0xe7d0641e] =
    [0xb40085b5, 0xb88afddb, 0x45c013a7, 0x2102d2cd, 0x5cb8e863, 0x1ccfac39, 0x2b427296, 0xcdfdfe52]"
  by code_simp

lemma empty_rounds_2: "rounds8 empty_schedule 16 [0xb40085b5, 0xb88afddb, 0x45c013a7, 0x2102d2cd, 0x5cb8e863, 0x1ccfac39, 0x2b427296, 0xcdfdfe52] =
    [0x985bed55, 0x404d8054, 0x99a6cb19, 0x75c7f0d8, 0x2c2c028d, 0xb1653710, 0xc287981e, 0x39953ccd]"
  by code_simp

lemma empty_rounds_3: "rounds8 empty_schedule 24 [0x985bed55, 0x404d8054, 0x99a6cb19, 0x75c7f0d8, 0x2c2c028d, 0xb1653710, 0xc287981e, 0x39953ccd] =
    [0x11e7025f, 0xa0bb0cdf, 0x72d3a00d, 0x64bc9e1c, 0xbbd7846c, 0x564a6626, 0xb04ab22d, 0x95696b75]"
  by code_simp

lemma empty_rounds_4: "rounds8 empty_schedule 32 [0x11e7025f, 0xa0bb0cdf, 0x72d3a00d, 0x64bc9e1c, 0xbbd7846c, 0x564a6626, 0xb04ab22d, 0x95696b75] =
    [0x499911b1, 0x9e58e42f, 0x56e3dc4e, 0xa096535d, 0x716bb025, 0x85a71424, 0xe807ea7f, 0xfac06aed]"
  by code_simp

lemma empty_rounds_5: "rounds8 empty_schedule 40 [0x499911b1, 0x9e58e42f, 0x56e3dc4e, 0xa096535d, 0x716bb025, 0x85a71424, 0xe807ea7f, 0xfac06aed] =
    [0x365a34cd, 0x54982d6c, 0x32fa442b, 0xa40972d4, 0xcbb3f8eb, 0x8a6a82b2, 0xd285c679, 0xaa2c1810]"
  by code_simp

lemma empty_rounds_6: "rounds8 empty_schedule 48 [0x365a34cd, 0x54982d6c, 0x32fa442b, 0xa40972d4, 0xcbb3f8eb, 0x8a6a82b2, 0xd285c679, 0xaa2c1810] =
    [0x1638014, 0x2caf58ca, 0x3a0e9477, 0xb1b29c90, 0xadf94e0a, 0xe588e598, 0xfd99936e, 0x43a5def8]"
  by code_simp

lemma empty_rounds_7: "rounds8 empty_schedule 56 [0x1638014, 0x2caf58ca, 0x3a0e9477, 0xb1b29c90, 0xadf94e0a, 0xe588e598, 0xfd99936e, 0x43a5def8] =
    [0x79a6dddb, 0xdd946d8f, 0x5e8d0156, 0xf41fc3ea, 0xd69fef65, 0xc9962ac0, 0x8511bf70, 0x1c71eb3c]"
  by code_simp

lemma rounds_loop_unrolled:
  "rounds_loop W 0 8 S = rounds8 W 56 (rounds8 W 48 (rounds8 W 40 (rounds8 W 32 (rounds8 W 24 (rounds8 W 16 (rounds8 W 8 (rounds8 W 0 S)))))))"
  by (simp add: numeral_eq_Suc)

lemma empty_rounds: "rounds_loop empty_schedule 0 8 sha_init_digest = [0x79a6dddb, 0xdd946d8f, 0x5e8d0156, 0xf41fc3ea, 0xd69fef65, 0xc9962ac0, 0x8511bf70, 0x1c71eb3c]"
  unfolding sha_init_digest_def rounds_loop_unrolled empty_rounds_0 empty_rounds_1 empty_rounds_2 empty_rounds_3 empty_rounds_4 empty_rounds_5
    empty_rounds_6 empty_rounds_7 ..

lemma empty_hash: "hex_text (sha256_ref []) = lit ''e3b0c44298fc1c149afbf4c8996fb92427ae41e4649b934ca495991b7852b855''"
proof -
  have "[0, 0, 0, 0, 0, 0, 0, 0] = replicate 8 (0 :: byte)" by (simp add: numeral_eq_Suc)
  then have p: "ref_pad [] = 0x80 # replicate 63 0" by (simp add: ref_pad_def be_bytes_def le_bytes_def flip: replicate_add)
  let ?S = "map2 (+) sha_init_digest (rounds_loop (schedule_loop (0x80000000 # replicate 15 0) 16 48) 0 8 sha_init_digest)"
  have "ref_blocks sha_init_digest (ref_pad []) = ref_compress sha_init_digest (0x80 # replicate 63 0)"
    unfolding p by (subst ref_blocks.simps) simp
  moreover have "ref_compress sha_init_digest (0x80 # replicate 63 0) = ?S"
  proof -
    have "0x80 # replicate 63 0 = (0x80 :: byte) # 0 # 0 # 0 # replicate (4 * 15) 0" by (simp flip: replicate_Suc)
    then have "be_words (0x80 # replicate 63 0) = 0x80000000 # replicate 15 0" by (simp only: be_words.simps be_words_zeros) (simp add: be32_def le32_def)
    then show ?thesis by (subst ref_compress_loops) (simp_all add: sha_init_digest_def)
  qed
  moreover have "?S = [0xe3b0c442, 0x98fc1c14, 0x9afbf4c8, 0x996fb924, 0x27ae41e4, 0x649b934c, 0xa495991b, 0x7852b855]"
    unfolding empty_schedule empty_rounds by (simp add: sha_init_digest_def)
  moreover have "hex_text (concat (map be_bytes [0xe3b0c442, 0x98fc1c14, 0x9afbf4c8, 0x996fb924, 0x27ae41e4, 0x649b934c, 0xa495991b, 0x7852b855])) =
      lit ''e3b0c44298fc1c149afbf4c8996fb92427ae41e4649b934ca495991b7852b855''"
    by (simp add: be_bytes_def le_bytes_def hex2_def url_hex_digits lit_def)
  ultimately show ?thesis by (simp only: sha256_ref_def)
qed

end
