(* ===== verification/Canon_Sort.thy ===== *)
theory Canon_Sort
  imports C_Base "HOL-Library.Multiset" "HOL-Library.List_Lexorder"
begin

text \<open>
  The in-place sorting of parameter lines in \<open>src/arrow/gateway_payload_sign.c\<close> (\<open>STATIC_MQTT_ENV\<close>): the lines
  lie one behind the other in a static buffer; \<open>less\<close> compares two of them, \<open>swap\<close> exchanges two
  neighbours by following the cycles of a rotation, and \<open>bubble\<close> repeats passes over the table of lines.

  A \<open>str_t\<close> is an offset into the buffer and a length. The comparison of plain \<open>char\<close> depends on the
  parameter \<open>schar\<close>.
\<close>

section \<open>Operations\<close>

record str_t =
  s_start :: nat
  s_len :: nat

fun less_loop :: "bool \<Rightarrow> bytes \<Rightarrow> nat \<Rightarrow> nat \<Rightarrow> nat \<Rightarrow> int option" where
  "less_loop schar buf a b 0 = Some 0"
| "less_loop schar buf a b (Suc n) = do {
     x \<leftarrow> read_at buf a;
     y \<leftarrow> read_at buf b;
     if x = y then less_loop schar buf (a + 1) (b + 1) n
     else if char_int schar x < char_int schar y then Some 1 else Some (-1)
   }"

definition less :: "bool \<Rightarrow> bytes \<Rightarrow> str_t \<Rightarrow> str_t \<Rightarrow> int option" where
  "less schar buf s1 s2 =
     less_loop schar buf (s_start s1) (s_start s2) (if s_len s1 < s_len s2 then s_len s1 else s_len s2)"

text \<open>The inner loop moves the bytes of one cycle; it returns the buffer and \<open>i\<close>.\<close>

partial_function (option) swap_cycle :: "nat \<Rightarrow> nat \<Rightarrow> nat \<Rightarrow> nat \<Rightarrow> nat \<Rightarrow> byte \<Rightarrow> nat \<Rightarrow> bytes \<Rightarrow> (nat \<times> bytes) option" where
  "swap_cycle base l1 l2 start_pos current_pos saved i buf = do {
     let next_pos = (if current_pos < l1 then l2 + current_pos else current_pos - l1);
     t \<leftarrow> read_at buf (base + next_pos);
     buf \<leftarrow> write_at buf (base + next_pos) saved;
     if start_pos \<noteq> next_pos then swap_cycle base l1 l2 start_pos next_pos t (i + 1) buf else Some (i + 1, buf)
   }"

partial_function (option) swap_loop :: "nat \<Rightarrow> nat \<Rightarrow> nat \<Rightarrow> nat \<Rightarrow> nat \<Rightarrow> bytes \<Rightarrow> bytes option" where
  "swap_loop base l1 l2 start_pos i buf =
     (if i < l1 + l2 then do {
        saved \<leftarrow> read_at buf (base + start_pos);
        (i, buf) \<leftarrow> swap_cycle base l1 l2 start_pos start_pos saved i buf;
        swap_loop base l1 l2 (start_pos + 1) i buf
      }
      else Some buf)"

definition swap :: "bytes \<Rightarrow> str_t \<Rightarrow> str_t \<Rightarrow> (bytes \<times> str_t \<times> str_t) option" where
  "swap buf s1 s2 = do {
     buf \<leftarrow> swap_loop (s_start s1) (s_len s1) (s_len s2) 0 0 buf;
     Some (buf, s1\<lparr>s_len := s_len s2\<rparr>, s2\<lparr>s_len := s_len s1, s_start := s_start s1 + s_len s2\<rparr>)
   }"

text \<open>One pass from the line \<open>i\<close> on, with the number of comparisons left; it returns \<open>do_sort\<close>.\<close>

fun bubble_pass :: "bool \<Rightarrow> nat \<Rightarrow> nat \<Rightarrow> bool \<Rightarrow> bytes \<Rightarrow> str_t list \<Rightarrow> (bool \<times> bytes \<times> str_t list) option" where
  "bubble_pass schar 0 i do_sort buf s = Some (do_sort, buf, s)"
| "bubble_pass schar (Suc n) i do_sort buf s = do {
     x \<leftarrow> read_at s i;
     y \<leftarrow> read_at s (i + 1);
     r \<leftarrow> less schar buf x y;
     if r = -1 then do {
       (buf, x, y) \<leftarrow> swap buf x y;
       bubble_pass schar n (i + 1) True buf (s[i := x, i + 1 := y])
     }
     else bubble_pass schar n (i + 1) do_sort buf s
   }"

partial_function (option) bubble :: "bool \<Rightarrow> bytes \<Rightarrow> str_t list \<Rightarrow> (bytes \<times> str_t list) option" where
  "bubble schar buf s = do {
     (do_sort, buf, s) \<leftarrow> bubble_pass schar (length s - 1) 0 False buf s;
     if do_sort then bubble schar buf s else Some (buf, s)
   }"

section \<open>Rotation\<close>

text \<open>The positions of a cycle: \<open>next_pos\<close> adds the second length modulo the total length.\<close>

lemma next_pos:
  fixes p l1 l2 :: nat
  assumes "p < l1 + l2"
  shows "(if p < l1 then l2 + p else p - l1) = (p + l2) mod (l1 + l2)"
proof (cases "p < l1")
  case False
  then have "p + l2 = p - l1 + (l1 + l2)" by linarith
  then show ?thesis using assms False by (simp only: mod_add_self2) simp
qed (use assms in simp)

lemma orbit_dvd:
  fixes n l j :: nat
  assumes "0 < n"
  shows "n dvd j * l \<longleftrightarrow> n div gcd n l dvd j"
proof -
  obtain m k where mk: "n = m * gcd n l" "l = k * gcd n l" "coprime m k"
    using gcd_coprime_exists [of n l] assms by auto
  then have "n dvd j * l \<longleftrightarrow> m * gcd n l dvd (j * k) * gcd n l" by (metis mult.assoc)
  also have "\<dots> \<longleftrightarrow> m dvd j * k" using assms by simp
  also have "\<dots> \<longleftrightarrow> m dvd j" using mk(3) by (simp add: coprime_dvd_mult_left_iff)
  finally show ?thesis using mk(1) assms by (metis gcd_eq_0_iff nonzero_mult_div_cancel_right not_less_zero)
qed

text \<open>What a partly rotated buffer looks like: at the positions in \<open>W\<close> the new byte is in place.\<close>

definition rotated :: "nat \<Rightarrow> nat \<Rightarrow> nat \<Rightarrow> nat set \<Rightarrow> bytes \<Rightarrow> bytes \<Rightarrow> bool" where
  "rotated base l1 n W orig buf \<longleftrightarrow> length buf = length orig \<and>
     (\<forall>q < length orig. buf ! q =
        (if base \<le> q \<and> q < base + n \<and> q - base \<in> W then orig ! (base + (q - base + l1) mod n) else orig ! q))"

lemma rotated_write:
  assumes "rotated base l1 n W orig buf" and "base + n \<le> length orig" and "p < n"
  shows "rotated base l1 n (insert p W) orig (buf[base + p := orig ! (base + (p + l1) mod n)])"
  using assms by (auto simp: rotated_def nth_list_update)


definition orbit :: "nat \<Rightarrow> nat \<Rightarrow> nat \<Rightarrow> nat \<Rightarrow> nat" where
  "orbit n l s j = (s + j * l) mod n"

lemma orbit_lt [simp]: "0 < n \<Longrightarrow> orbit n l s j < n"
  by (simp add: orbit_def)

lemma orbit_eq:
  assumes "0 < n" and "a \<le> b"
  shows "orbit n l s a = orbit n l s b \<longleftrightarrow> n div gcd n l dvd b - a"
proof -
  have "orbit n l s b = orbit n l s a \<longleftrightarrow> n dvd (b - a) * l"
    using assms(2) mod_eq_dvd_iff_nat [of "s + a * l" "s + b * l" n] by (simp add: orbit_def diff_mult_distrib)
  then show ?thesis using orbit_dvd [OF assms(1)] by auto
qed

lemma orbit_Suc: "0 < n \<Longrightarrow> orbit n l s (Suc j) = (orbit n l s j + l) mod n"
  by (simp add: orbit_def mod_simps algebra_simps)

lemma orbit_mod:
  assumes "s < gcd n l"
  shows "orbit n l s j mod gcd n l = s"
proof -
  have "orbit n l s j mod gcd n l = (s + j * l) mod gcd n l" by (simp add: orbit_def mod_mod_cancel)
  also have "\<dots> = s" using assms by (simp add: mod_add_eq [symmetric] mod_mult_right_eq [symmetric] dvd_imp_mod_0)
  finally show ?thesis .
qed

text \<open>The positions of a cycle are those with the same remainder by the greatest common divisor.\<close>

lemma orbit_image:
  assumes "0 < n" and "s < gcd n l"
  shows "orbit n l s ` {1..n div gcd n l} = {p. p < n \<and> p mod gcd n l = s}"
proof (rule card_subset_eq)
  let ?g = "gcd n l"
  have n: "n = ?g * (n div ?g)" by simp
  show "finite {p. p < n \<and> p mod ?g = s}" by simp
  show "orbit n l s ` {1..n div ?g} \<subseteq> {p. p < n \<and> p mod ?g = s}"
    using assms by (auto simp: orbit_mod)
  have inj: "inj_on (orbit n l s) {1..n div ?g}"
  proof (rule linorder_inj_onI)
    fix a b assume ab: "a < b" "a \<in> {1..n div ?g}" "b \<in> {1..n div ?g}"
    then have "\<not> n div ?g dvd b - a" by (auto dest: dvd_imp_le)
    with orbit_eq [OF assms(1), of a b l s] ab(1) show "orbit n l s a \<noteq> orbit n l s b" by simp
  qed auto
  have "{p. p < n \<and> p mod ?g = s} = (\<lambda>k. k * ?g + s) ` {..<n div ?g}"
  proof (safe)
    fix p assume p: "p < n" "s = p mod ?g"
    have "p = p div ?g * ?g + p mod ?g" by (simp only: div_mult_mod_eq)
    moreover have "p div ?g < n div ?g" using p(1) by (intro less_mult_imp_div_less) simp
    ultimately show "p \<in> (\<lambda>k. k * ?g + p mod ?g) ` {..<n div ?g}" by blast
  next
    fix k assume "k < n div ?g"
    then have "(k + 1) * ?g \<le> n div ?g * ?g" by (intro mult_right_mono) auto
    then show "k * ?g + s < n" using assms(2) by simp
  qed (use assms(2) in simp)
  also have "card \<dots> = n div ?g" by (subst card_image) (use assms in \<open>auto simp: inj_on_def\<close>)
  finally show "card (orbit n l s ` {1..n div ?g}) = card {p. p < n \<and> p mod ?g = s}" using card_image [OF inj] by simp
qed


lemma swap_cycle_rotates:
  fixes l1 l2 s :: nat
  defines "n \<equiv> l1 + l2"
  defines "m \<equiv> n div gcd n l2"
  assumes s: "s < n" and orig: "base + n \<le> length orig" and new: "\<forall>k. orbit n l2 s k \<notin> W"
  shows "j < m \<Longrightarrow> rotated base l1 n (W \<union> orbit n l2 s ` {1..j}) orig buf \<Longrightarrow>
    \<exists>buf'. swap_cycle base l1 l2 s (orbit n l2 s j) (orig ! (base + orbit n l2 s j)) i buf = Some (i + (m - j), buf') \<and>
      rotated base l1 n (W \<union> orbit n l2 s ` {1..m}) orig buf'"
proof (induction "m - j" arbitrary: j i buf rule: less_induct)
  case less
  have n: "0 < n" using s by simp
  let ?c = "orbit n l2 s j" and ?d = "orbit n l2 s (Suc j)"
  have nxt: "(if ?c < l1 then l2 + ?c else ?c - l1) = ?d"
    using next_pos [of ?c l1 l2] orbit_lt [OF n, of l2 s j] orbit_Suc [OF n] by (simp add: n_def)
  have prv: "(?d + l1) mod n = ?c"
  proof -
    have "(?d + l1) mod n = (?c + l2 + l1) mod n" by (simp only: orbit_Suc [OF n] mod_add_left_eq)
    also have "?c + l2 + l1 = ?c + n" by (simp add: n_def)
    finally show ?thesis using orbit_lt [OF n, of l2 s j] by simp
  qed
  have len: "length buf = length orig" using less.prems(2) by (simp add: rotated_def)
  have fresh: "?d \<notin> W \<union> orbit n l2 s ` {1..j}"
  proof -
    have "?d \<noteq> orbit n l2 s k" if "k \<in> {1..j}" for k
    proof
      assume "?d = orbit n l2 s k"
      with orbit_eq [OF n, of k "Suc j" l2 s] that have "m dvd Suc j - k" "0 < Suc j - k" "Suc j - k \<le> j" by (auto simp: m_def)
      with less.prems(1) show False by (auto dest: dvd_imp_le)
    qed
    with new show ?thesis by blast
  qed
  then have t: "read_at buf (base + ?d) = Some (orig ! (base + ?d))"
    using less.prems(2) orig orbit_lt [OF n, of l2 s "Suc j"] len by (auto simp: read_at_def rotated_def)
  let ?b = "buf[base + ?d := orig ! (base + ?c)]"
  have w: "write_at buf (base + ?d) (orig ! (base + ?c)) = Some ?b"
    using orig len orbit_lt [OF n, of l2 s "Suc j"] by (simp add: write_at_def)
  have "insert ?d (W \<union> orbit n l2 s ` {1..j}) = W \<union> orbit n l2 s ` {1..Suc j}" by (simp add: atLeastAtMostSuc_conv)
  then have r: "rotated base l1 n (W \<union> orbit n l2 s ` {1..Suc j}) orig ?b"
    using rotated_write [OF less.prems(2) orig orbit_lt [OF n, of l2 s "Suc j"]] prv by simp
  have stop: "s = ?d \<longleftrightarrow> Suc j = m"
    using orbit_eq [OF n, of 0 "Suc j" l2 s] s less.prems(1) by (auto simp: orbit_def m_def dest: dvd_imp_le)
  show ?case
  proof (cases "Suc j = m")
    case True
    with t w nxt stop r show ?thesis by (subst swap_cycle.simps) (auto simp: Let_def)
  next
    case False
    with less.prems(1) have "m - Suc j < m - j" "Suc j < m" by auto
    from less.hyps [OF this r, of "i + 1"] obtain buf' where
      "swap_cycle base l1 l2 s ?d (orig ! (base + ?d)) (i + 1) ?b = Some (i + 1 + (m - Suc j), buf')"
      "rotated base l1 n (W \<union> orbit n l2 s ` {1..m}) orig buf'" by blast
    with t w nxt stop False less.prems(1) show ?thesis by (subst swap_cycle.simps) (simp add: Let_def)
  qed
qed

lemma swap_loop_rotates:
  fixes l1 l2 :: nat
  defines "n \<equiv> l1 + l2"
  defines "g \<equiv> gcd n l2"
  assumes orig: "base + n \<le> length orig" and n: "0 < n"
  shows "k \<le> g \<Longrightarrow> rotated base l1 n {p. p < n \<and> p mod g < k} orig buf \<Longrightarrow>
    \<exists>buf'. swap_loop base l1 l2 k (k * (n div g)) buf = Some buf' \<and> rotated base l1 n {p. p < n} orig buf'"
proof (induction "g - k" arbitrary: k buf rule: less_induct)
  case less
  have g: "0 < g" "g \<le> n" "g * (n div g) = n" using n by (auto simp: g_def intro: dvd_imp_le)
  let ?W = "{p. p < n \<and> p mod g < k}"
  have len: "length buf = length orig" using less.prems(2) by (simp add: rotated_def)
  show ?case
  proof (cases "k = g")
    case True
    then have "{p. p < n \<and> p mod g < k} = {p. p < n}" using g(1) by auto
    with less.prems(2) True g show ?thesis by (subst swap_loop.simps) (auto simp: n_def)
  next
    case False
    with less.prems(1) have k: "k < g" "k < n" using g by auto
    have i: "k * (n div g) < n" using mult_strict_right_mono [OF k(1), of "n div g"] g by (simp add: div_greater_zero_iff)
    have s: "read_at buf (base + k) = Some (orig ! (base + k))"
      using less.prems(2) k orig len by (auto simp: read_at_def rotated_def)
    have img: "orbit n l2 k ` {1..n div g} = {p. p < n \<and> p mod g = k}"
      using orbit_image [OF n, of k l2] k by (simp add: g_def)
    have new: "\<forall>j. orbit n l2 k j \<notin> ?W" using k orbit_mod [of k n l2] by (simp add: g_def)
    have "orbit n l2 k 0 = k" using k by (simp add: orbit_def)
    with swap_cycle_rotates [of k l1 l2 base orig ?W 0 buf "k * (n div g)"] k(2) orig new less.prems(2) g n
    obtain buf1 where 1: "swap_cycle base l1 l2 k k (orig ! (base + k)) (k * (n div g)) buf = Some (k * (n div g) + n div g, buf1)"
      "rotated base l1 n (?W \<union> orbit n l2 k ` {1..n div g}) orig buf1"
      by (auto simp: n_def g_def div_greater_zero_iff)
    have "?W \<union> orbit n l2 k ` {1..n div g} = {p. p < n \<and> p mod g < Suc k}" unfolding img by auto
    with less.hyps [OF diff_less_mono2 [OF lessI k(1)], of buf1] k 1(2) obtain buf' where
      "swap_loop base l1 l2 (Suc k) (Suc k * (n div g)) buf1 = Some buf'" "rotated base l1 n {p. p < n} orig buf'" by auto
    with s 1(1) i show ?thesis by (subst swap_loop.simps) (simp add: n_def [symmetric] add.commute)
  qed
qed


text \<open>Exchanging two neighbours moves the second line in front of the first.\<close>

lemma swap_exchanges:
  assumes "s_start s1 = length xs" and "s_len s1 = length a" and "s_len s2 = length b" and "a @ b \<noteq> []"
  shows "swap (xs @ a @ b @ ys) s1 s2 = Some (xs @ b @ a @ ys, s1\<lparr>s_len := length b\<rparr>, s2\<lparr>s_len := length a, s_start := length xs + length b\<rparr>)"
proof -
  let ?o = "xs @ a @ b @ ys" and ?n = "length a + length b"
  have n: "0 < ?n" using assms(4) by auto
  have "rotated (length xs) (length a) ?n {} ?o ?o" by (simp add: rotated_def)
  with swap_loop_rotates [of "length xs" "length a" "length b" ?o 0 ?o] n obtain buf where
    buf: "swap_loop (length xs) (length a) (length b) 0 0 ?o = Some buf" "rotated (length xs) (length a) ?n {p. p < ?n} ?o buf"
    by auto
  have "buf = xs @ rotate (length a) (a @ b) @ ys"
  proof (rule nth_equalityI)
    fix q assume "q < length buf"
    with buf(2) have q: "q < length ?o" by (simp add: rotated_def)
    show "buf ! q = (xs @ rotate (length a) (a @ b) @ ys) ! q"
    proof (cases "length xs \<le> q \<and> q < length xs + ?n")
      case True
      then obtain p where p: "q = length xs + p" "p < ?n" by (metis le_Suc_ex nat_add_left_cancel_less)
      have "(p + length a) mod ?n < ?n" using n by simp
      then have "?o ! (length xs + (p + length a) mod ?n) = (a @ b) ! ((p + length a) mod ?n)"
        by (metis append_assoc length_append nth_append nth_append_length_plus)
      moreover have "buf ! q = ?o ! (length xs + (p + length a) mod ?n)" using buf(2) q p by (simp add: rotated_def)
      ultimately show ?thesis using p by (simp add: nth_append nth_rotate add.commute)
    next
      case False
      with buf(2) q have "buf ! q = ?o ! q" by (auto simp: rotated_def)
      then show ?thesis using False by (auto simp: nth_append add.assoc)
    qed
  qed (use buf(2) in \<open>simp add: rotated_def\<close>)
  then have "buf = xs @ b @ a @ ys" by (simp add: rotate_append)
  with buf(1) assms show ?thesis by (simp add: swap_def)
qed


section \<open>Sorting\<close>

text \<open>The table of the lines \<open>ls\<close> that lie one behind the other from the offset \<open>o\<close> on.\<close>

fun table :: "nat \<Rightarrow> bytes list \<Rightarrow> str_t list" where
  "table off [] = []"
| "table off (l # ls) = \<lparr>s_start = off, s_len = length l\<rparr> # table (off + length l) ls"

lemma length_table [simp]: "length (table off ls) = length ls"
  by (induction ls arbitrary: off) auto

lemma table_append: "table off (as @ bs) = table off as @ table (off + length (concat as)) bs"
  by (induction as arbitrary: off) (auto simp: add.assoc)

text \<open>The order on characters, on lines and the comparison of common prefixes.\<close>

definition char_lt :: "bool \<Rightarrow> (byte \<times> byte) set" where
  "char_lt schar = {(x, y). char_int schar x < char_int schar y}"

fun prefix_gt :: "bool \<Rightarrow> bytes \<Rightarrow> bytes \<Rightarrow> bool" where
  "prefix_gt schar (x # xs) (y # ys) = (if x = y then prefix_gt schar xs ys else char_int schar y < char_int schar x)"
| "prefix_gt schar _ _ = False"

lemma char_int_inj: "char_int schar x = char_int schar y \<longleftrightarrow> x = y"
  by (auto simp: char_int_def signed_word_eqI unsigned_word_eqI)

lemma less_loop_prefix:
  "\<exists>r. less_loop schar (xs @ a @ zs @ b @ ys) (length xs) (length xs + length a + length zs) (min (length a) (length b)) = Some r \<and>
    (r = -1 \<longleftrightarrow> prefix_gt schar a b)"
proof (induction schar a b arbitrary: xs zs rule: prefix_gt.induct)
  case (1 schar x a y b)
  let ?m = "xs @ (x # a) @ zs @ (y # b) @ ys"
  have r: "read_at ?m (length xs) = Some x" "read_at ?m (length xs + length (x # a) + length zs) = Some y"
    by (simp_all add: read_at_def nth_append)
  show ?case
  proof (cases "x = y")
    case True
    with 1 [OF True, of "xs @ [x]" "zs @ [y]"] r show ?thesis by simp
  next
    case False
    with r char_int_inj [of schar x y] show ?thesis by (auto simp: Let_def)
  qed
qed auto


text \<open>A pass over the list of lines.\<close>

fun line_pass :: "bool \<Rightarrow> bytes list \<Rightarrow> bool \<times> bytes list" where
  "line_pass schar (x # y # zs) =
     (if prefix_gt schar x y then (True, y # snd (line_pass schar (x # zs)))
      else case line_pass schar (y # zs) of (c, r) \<Rightarrow> (c, x # r))"
| "line_pass schar ls = (False, ls)"

lemma table_lines:
  shows "read_at (table off (ds @ x # y # zs)) (length ds) = Some \<lparr>s_start = off + length (concat ds), s_len = length x\<rparr>"
    and "read_at (table off (ds @ x # y # zs)) (length ds + 1) = Some \<lparr>s_start = off + length (concat ds) + length x, s_len = length y\<rparr>"
    and "(table off (ds @ x # y # zs)) [length ds := \<lparr>s_start = off + length (concat ds), s_len = length y\<rparr>,
      length ds + 1 := \<lparr>s_start = off + length (concat ds) + length y, s_len = length x\<rparr>] = table off (ds @ y # x # zs)"
  by (simp_all add: table_append read_at_def nth_append list_update_append add_ac)

lemma bubble_pass_refines:
  assumes "\<forall>l \<in> set ls. l \<noteq> []"
  shows "ls \<noteq> [] \<Longrightarrow> bubble_pass schar (length ls - 1) (length ds) c (pre @ concat ds @ concat ls @ rest) (table (length pre) (ds @ ls)) =
    (case line_pass schar ls of (c', ls') \<Rightarrow>
      Some (c \<or> c', pre @ concat (ds @ ls') @ rest, table (length pre) (ds @ ls')))"
  using assms
proof (induction schar ls arbitrary: ds c rule: line_pass.induct)
  case (1 schar x y zs)
  let ?s = "table (length pre) (ds @ x # y # zs)"
  have less: "\<exists>r. less schar (pre @ concat ds @ concat (x # y # zs) @ rest) \<lparr>s_start = length pre + length (concat ds), s_len = length x\<rparr>
      \<lparr>s_start = length pre + length (concat ds) + length x, s_len = length y\<rparr> = Some r \<and> (r = -1 \<longleftrightarrow> prefix_gt schar x y)"
    using less_loop_prefix [of schar "pre @ concat ds" x "[]" y "concat zs @ rest"]
    by (cases "length x < length y") (simp_all add: less_def min_absorb1 min_absorb2)
  show ?case
  proof (cases "prefix_gt schar x y")
    case True
    have sw: "swap (pre @ concat ds @ concat (x # y # zs) @ rest) \<lparr>s_start = length pre + length (concat ds), s_len = length x\<rparr>
        \<lparr>s_start = length pre + length (concat ds) + length x, s_len = length y\<rparr> =
        Some (pre @ concat (ds @ [y]) @ concat (x # zs) @ rest, \<lparr>s_start = length pre + length (concat ds), s_len = length y\<rparr>,
          \<lparr>s_start = length pre + length (concat ds) + length y, s_len = length x\<rparr>)"
      using swap_exchanges [of "\<lparr>s_start = length pre + length (concat ds), s_len = length x\<rparr>" "pre @ concat ds" x
        "\<lparr>s_start = length pre + length (concat ds) + length x, s_len = length y\<rparr>" y "concat zs @ rest"] "1.prems" by simp
    have "bubble_pass schar (length (x # zs) - 1) (length (ds @ [y])) True (pre @ concat (ds @ [y]) @ concat (x # zs) @ rest)
        (table (length pre) ((ds @ [y]) @ x # zs)) = (case line_pass schar (x # zs) of (c', ls') \<Rightarrow>
          Some (True \<or> c', pre @ concat ((ds @ [y]) @ ls') @ rest, table (length pre) ((ds @ [y]) @ ls')))"
      using True "1.prems" by (intro "1.IH"(1)) auto
    with True sw less table_lines [of "length pre" ds x y zs] show ?thesis by (auto simp: case_prod_beta)
  next
    case False
    have "bubble_pass schar (length (y # zs) - 1) (length (ds @ [x])) c (pre @ concat (ds @ [x]) @ concat (y # zs) @ rest)
        (table (length pre) ((ds @ [x]) @ y # zs)) = (case line_pass schar (y # zs) of (c', ls') \<Rightarrow>
          Some (c \<or> c', pre @ concat ((ds @ [x]) @ ls') @ rest, table (length pre) ((ds @ [x]) @ ls')))"
      using False "1.prems" by (intro "1.IH"(2)) auto
    with False less table_lines [of "length pre" ds x y zs] show ?thesis by (auto simp: case_prod_beta)
  qed
qed (auto simp: table_append)


text \<open>Every exchange removes one inversion, so the passes end.\<close>

fun inversions :: "bool \<Rightarrow> bytes list \<Rightarrow> nat" where
  "inversions schar [] = 0"
| "inversions schar (x # xs) = length (filter (prefix_gt schar x) xs) + inversions schar xs"

lemma prefix_gt_asym: "prefix_gt schar x y \<Longrightarrow> \<not> prefix_gt schar y x"
  by (induction schar x y rule: prefix_gt.induct) (auto split: if_splits)

lemma mset_line_pass: "mset (snd (line_pass schar ls)) = mset ls"
  by (induction schar ls rule: line_pass.induct) (auto simp: case_prod_beta)

lemma length_filter_mset: "mset xs = mset ys \<Longrightarrow> length (filter P xs) = length (filter P ys)"
  by (metis mset_filter size_mset)

lemma inversions_line_pass:
  "inversions schar (snd (line_pass schar ls)) \<le> inversions schar ls \<and>
   (fst (line_pass schar ls) \<longrightarrow> inversions schar (snd (line_pass schar ls)) < inversions schar ls)"
proof (induction schar ls rule: line_pass.induct)
  case (1 schar x y zs)
  show ?case
  proof (cases "prefix_gt schar x y")
    case True
    with 1 prefix_gt_asym [OF True] length_filter_mset [OF mset_line_pass [of schar "x # zs"], of "prefix_gt schar y"] show ?thesis by auto
  next
    case False
    with 1 length_filter_mset [OF mset_line_pass [of schar "y # zs"], of "prefix_gt schar x"] show ?thesis
      by (auto simp: case_prod_beta)
  qed
qed auto

lemma line_pass_done: "\<not> fst (line_pass schar ls) \<Longrightarrow> snd (line_pass schar ls) = ls \<and> successively (\<lambda>x y. \<not> prefix_gt schar x y) ls"
  by (induction schar ls rule: line_pass.induct) (auto simp: case_prod_beta split: if_splits)

lemma bubble_sorts:
  assumes "ls \<noteq> []" and "\<forall>l \<in> set ls. l \<noteq> []"
  shows "\<exists>ls'. bubble schar (pre @ concat ls @ rest) (table (length pre) ls) = Some (pre @ concat ls' @ rest, table (length pre) ls') \<and>
    mset ls' = mset ls \<and> successively (\<lambda>x y. \<not> prefix_gt schar x y) ls'"
  using assms
proof (induction "inversions schar ls" arbitrary: ls rule: less_induct)
  case less
  obtain c ls' where p: "line_pass schar ls = (c, ls')" by force
  have m: "mset ls' = mset ls" using mset_line_pass [of schar ls] p by simp
  have run: "bubble_pass schar (length (table (length pre) ls) - 1) 0 False (pre @ concat ls @ rest) (table (length pre) ls) =
      Some (c, pre @ concat ls' @ rest, table (length pre) ls')"
    using bubble_pass_refines [OF less.prems(2,1), of schar "[]" False pre rest] p by simp
  show ?case
  proof (cases c)
    case True
    have "inversions schar ls' < inversions schar ls" using inversions_line_pass [of schar ls] p True by simp
    moreover have "ls' \<noteq> []" "\<forall>l \<in> set ls'. l \<noteq> []" using less.prems m by (metis mset_zero_iff, metis mset_eq_setD)
    ultimately obtain ls'' where "bubble schar (pre @ concat ls' @ rest) (table (length pre) ls') = Some (pre @ concat ls'' @ rest, table (length pre) ls'')"
        "mset ls'' = mset ls'" "successively (\<lambda>x y. \<not> prefix_gt schar x y) ls''"
      using less.hyps by blast
    with run True m show ?thesis by (subst bubble.simps) auto
  next
    case False
    with line_pass_done [of schar ls] p run m show ?thesis by (subst bubble.simps) auto
  qed
qed

text \<open>On ASCII lines of which none is a proper prefix of another, the result is the sorted list.\<close>

definition prefix_free :: "bytes set \<Rightarrow> bool" where
  "prefix_free S \<longleftrightarrow> (\<forall>x \<in> S. \<forall>y \<in> S. \<forall>z. y = x @ z \<longrightarrow> z = [])"

lemma prefix_gt_total:
  assumes "\<forall>c \<in> set x \<union> set y. unat c < 128" and "\<not> prefix_gt schar x y"
  shows "x \<le> y \<or> (\<exists>z. x = y @ z)"
  using assms
proof (induction schar x y rule: prefix_gt.induct)
  case (1 schar a x b y)
  show ?case
  proof (cases "a = b")
    case False
    with "1.prems" have "char_int schar a < char_int schar b" using char_int_inj [of schar a b] by auto
    with "1.prems"(1) have "a < b" by (simp add: char_int_ascii word_less_def)
    then show ?thesis by (simp add: list_le_def list_less_def)
  qed (use 1 in auto)
qed auto

lemma successively_sorted:
  assumes "successively (\<lambda>x y. \<not> prefix_gt schar x y) ls" and "prefix_free (set ls)" and "\<forall>l \<in> set ls. \<forall>c \<in> set l. unat c < 128"
  shows "sorted ls"
proof -
  have "successively (\<le>) ls"
  proof (rule successively_mono [OF assms(1)])
    fix x y assume xy: "x \<in> set ls" "y \<in> set ls" "\<not> prefix_gt schar x y"
    then have "x \<le> y \<or> (\<exists>z. x = y @ z)" using assms(3) by (intro prefix_gt_total [OF _ xy(3)]) auto
    with assms(2) xy(1,2) show "x \<le> y" unfolding prefix_free_def by (metis append_Nil2 order_refl)
  qed
  then show ?thesis by (simp add: successively_iff_sorted_wrt_strong)
qed

end
