(* ===== verification/Canonical.thy ===== *)
theory Canonical
  imports Json_Tree Canon_Sort Text_Util
begin

text \<open>
  The canonical parameter string of \<open>src/arrow/gateway_payload_sign.c\<close>: one line \<open>key=value\<close> for every
  member of a JSON object, with the key in lower case, the lines in alphabetical order. The program has
  two variants: with \<open>STATIC_MQTT_ENV\<close> the lines are formed and sorted in a static buffer of 3000 bytes,
  otherwise each line is an object of the heap and \<open>qsort\<close> sorts the pointers.

  \<open>fmt_f\<close> is the text that \<open>printf\<close> writes for \<open>%f\<close>. A member that is an array or an object is printed by
  reading its pointers as a number: undefined.
\<close>

section \<open>Text of a member\<close>

text \<open>\<open>tolower\<close> in the C locale; its argument must be \<open>EOF\<close> or a value of \<open>unsigned char\<close>.\<close>

definition c_tolower :: "bool \<Rightarrow> byte \<Rightarrow> byte option" where
  "c_tolower schar c =
     (if char_int schar c < -1 then None else Some (if 65 \<le> c \<and> c \<le> 90 then c + 32 else c))"

fun lower_all :: "bool \<Rightarrow> bytes \<Rightarrow> bytes option" where
  "lower_all schar [] = Some []"
| "lower_all schar (c # cs) = do { d \<leftarrow> c_tolower schar c; ds \<leftarrow> lower_all schar cs; Some (d # ds) }"

definition prm_true :: bytes where "prm_true = [116, 114, 117, 101]"
definition prm_false :: bytes where "prm_false = [102, 97, 108, 115, 101]"

section \<open>The static variant\<close>

definition MAX_PARAM_LINE :: nat where "MAX_PARAM_LINE = 20"

definition PRM_SIZE :: nat where "PRM_SIZE = 3000"

text \<open>One iteration of the loop: the line is written at the offset \<open>tot\<close>; its length and the buffer.\<close>

definition static_line :: "bool \<Rightarrow> ('d \<Rightarrow> bytes) \<Rightarrow> 'd jstate \<Rightarrow> 'd JsonNode \<Rightarrow> nat \<Rightarrow> bytes \<Rightarrow> (nat \<times> bytes) option" where
  "static_line schar fmt_f st child tot buf = do {
     key \<leftarrow> str_at (js_mem st) (p_value (n_key child));
     low \<leftarrow> lower_all schar key;
     buf \<leftarrow> mem_write buf tot (low @ [61]);
     let len = length key + 1;
     (r, buf) \<leftarrow> (case n_tag child of
         JSON_STRING \<Rightarrow> do { s \<leftarrow> str_at (js_mem st) (n_string child); c_snprintf buf (tot + len) (PRM_SIZE - tot) s }
       | JSON_BOOL \<Rightarrow> c_snprintf buf (tot + len) (PRM_SIZE - tot) (if n_bool child then prm_true else prm_false)
       | JSON_ARRAY \<Rightarrow> None
       | JSON_OBJECT \<Rightarrow> None
       | _ \<Rightarrow> c_snprintf buf (tot + len) 16 (fmt_f (n_number child)));
     buf \<leftarrow> write_at buf (tot + len + r) 10;
     Some (len + r + 1, buf)
   }"

text \<open>The loop over the members; \<open>can_list\<close> holds the \<open>count\<close> lines so far.\<close>

partial_function (option) static_loop ::
    "bool \<Rightarrow> ('d \<Rightarrow> bytes) \<Rightarrow> 'd jstate \<Rightarrow> nat option \<Rightarrow> nat \<Rightarrow> bytes \<Rightarrow> str_t list \<Rightarrow> (bytes \<times> str_t list) option" where
  "static_loop schar fmt_f st child tot buf can_list =
     (if child = None then Some (buf, can_list)
      else if MAX_PARAM_LINE \<le> length can_list then None
      else do {
        n \<leftarrow> get_node st child;
        (len, buf) \<leftarrow> static_line schar fmt_f st n tot buf;
        static_loop schar fmt_f st (n_next n) (tot + len) buf (can_list @ [\<lparr>s_start = tot, s_len = len\<rparr>])
      })"

text \<open>The result is the static buffer; the string is at its beginning.\<close>

definition form_canonical_prm_static :: "bool \<Rightarrow> ('d \<Rightarrow> bytes) \<Rightarrow> 'd jstate \<Rightarrow> bytes \<Rightarrow> nat option \<Rightarrow> bytes option" where
  "form_canonical_prm_static schar fmt_f st buf param = do {
     child \<leftarrow> json_first_child st param;
     (buf, can_list) \<leftarrow> static_loop schar fmt_f st child 0 buf [];
     if can_list = [] then None
     else do {
       buf \<leftarrow> write_at buf (s_start (last can_list) + s_len (last can_list)) 0;
       (buf, can_list) \<leftarrow> bubble schar buf can_list;
       write_at buf (s_start (last can_list) + s_len (last can_list) - 1) 0
     }
   }"

section \<open>The variant with the heap\<close>

text \<open>One iteration: the new object with the line, or null.\<close>

definition heap_line :: "libc \<Rightarrow> bool \<Rightarrow> ('d \<Rightarrow> bytes) \<Rightarrow> 'd jstate \<Rightarrow> 'd JsonNode \<Rightarrow> (nat option \<times> nat \<times> 'd jstate) option" where
  "heap_line L schar fmt_f st child = do {
     len1 \<leftarrow> (if n_tag child = JSON_STRING then map_option length (str_at (js_mem st) (n_string child)) else Some 50);
     key \<leftarrow> str_at (js_mem st) (p_value (n_key child));
     let alloc_len = len1 + length key + 10;
     case c_malloc L (js_mem st) alloc_len of (p, m) \<Rightarrow>
       case p of
         None \<Rightarrow> Some (None, alloc_len, st)
       | Some a \<Rightarrow> do {
           blk \<leftarrow> m a;
           low \<leftarrow> lower_all schar key;
           blk \<leftarrow> mem_write blk 0 (low @ [61]);
           blk \<leftarrow> (case n_tag child of
               JSON_STRING \<Rightarrow> do { s \<leftarrow> str_at (js_mem st) (n_string child); mem_write blk (length key + 1) (s @ [0]) }
             | JSON_BOOL \<Rightarrow> mem_write blk (length key + 1) ((if n_bool child then prm_true else prm_false) @ [0])
             | JSON_ARRAY \<Rightarrow> None
             | JSON_OBJECT \<Rightarrow> None
             | _ \<Rightarrow> do {
                 (r, blk) \<leftarrow> c_snprintf blk (length key + 1) 50 (fmt_f (n_number child));
                 write_at blk (length key + 1 + r) 0
               });
           Some (p, alloc_len, st\<lparr>js_mem := m(a \<mapsto> blk)\<rparr>)
         }
   }"

text \<open>The loop over the members; the first component of the result tells whether memory ran out.\<close>

partial_function (option) heap_loop ::
    "libc \<Rightarrow> bool \<Rightarrow> ('d \<Rightarrow> bytes) \<Rightarrow> 'd jstate \<Rightarrow> nat option \<Rightarrow> nat \<Rightarrow> nat list \<Rightarrow> (bool \<times> nat \<times> nat list \<times> 'd jstate) option" where
  "heap_loop L schar fmt_f st child total_len can_list =
     (if child = None then Some (True, total_len, can_list, st)
      else if MAX_PARAM_LINE \<le> length can_list then None
      else do {
        n \<leftarrow> get_node st child;
        (p, len, st) \<leftarrow> heap_line L schar fmt_f st n;
        case p of
          None \<Rightarrow> Some (False, total_len, can_list, st)
        | Some a \<Rightarrow> heap_loop L schar fmt_f st (n_next n) (total_len + len) (can_list @ [a])
      })"

fun free_list :: "blocks \<Rightarrow> nat list \<Rightarrow> blocks option" where
  "free_list m [] = Some m"
| "free_list m (a # as) = do { m \<leftarrow> c_free m (Some a); free_list m as }"

text \<open>The concatenating loop: a line, a newline unless it is the last, and the release of the line.\<close>

fun join_loop :: "blocks \<Rightarrow> nat \<Rightarrow> nat list \<Rightarrow> blocks option" where
  "join_loop m can [] = Some m"
| "join_loop m can (a # as) = do {
     s \<leftarrow> str_at m (Some a);
     m \<leftarrow> c_strcat m can s;
     m \<leftarrow> (if as \<noteq> [] then c_strcat m can [10] else Some m);
     m \<leftarrow> c_free m (Some a);
     join_loop m can as
   }"

text \<open>\<open>qsort\<close> with \<open>strcmp\<close>: the pointers in the order of their strings.\<close>

fun strings_at :: "blocks \<Rightarrow> nat list \<Rightarrow> (bytes \<times> nat) list option" where
  "strings_at m [] = Some []"
| "strings_at m (a # as) = do { s \<leftarrow> str_at m (Some a); r \<leftarrow> strings_at m as; Some ((s, a) # r) }"

definition qsort_strings :: "blocks \<Rightarrow> nat list \<Rightarrow> nat list option" where
  "qsort_strings m as = do { r \<leftarrow> strings_at m as; Some (map snd (sort_key fst r)) }"

definition form_canonical_prm :: "libc \<Rightarrow> bool \<Rightarrow> ('d \<Rightarrow> bytes) \<Rightarrow> 'd jstate \<Rightarrow> nat option \<Rightarrow> (nat option \<times> 'd jstate) option" where
  "form_canonical_prm L schar fmt_f st param = do {
     child \<leftarrow> json_first_child st param;
     (ok, total_len, can_list, st) \<leftarrow> heap_loop L schar fmt_f st child 0 [];
     if \<not> ok then do { m \<leftarrow> free_list (js_mem st) can_list; Some (None, st\<lparr>js_mem := m\<rparr>) }
     else case c_malloc L (js_mem st) total_len of (p, m) \<Rightarrow>
       case p of
         None \<Rightarrow> do { m \<leftarrow> free_list m can_list; Some (None, st\<lparr>js_mem := m\<rparr>) }
       | Some can \<Rightarrow> do {
           blk \<leftarrow> m can;
           blk \<leftarrow> write_at blk 0 0;
           can_list \<leftarrow> qsort_strings (m(can \<mapsto> blk)) can_list;
           m \<leftarrow> join_loop (m(can \<mapsto> blk)) can can_list;
           Some (p, st\<lparr>js_mem := m\<rparr>)
         }
   }"

section \<open>The canonical text\<close>

definition lower :: "byte \<Rightarrow> byte" where
  "lower c = (if 65 \<le> c \<and> c \<le> 90 then c + 32 else c)"

fun val_text :: "('d \<Rightarrow> bytes) \<Rightarrow> 'd json \<Rightarrow> bytes" where
  "val_text fmt_f (Bool b) = (if b then prm_true else prm_false)"
| "val_text fmt_f (Str s) = s"
| "val_text fmt_f (Num d) = fmt_f d"
| "val_text fmt_f _ = []"

definition prm_line :: "('d \<Rightarrow> bytes) \<Rightarrow> bytes \<times> 'd json \<Rightarrow> bytes" where
  "prm_line fmt_f kv = map lower (fst kv) @ 61 # val_text fmt_f (snd kv)"

fun join_lines :: "bytes list \<Rightarrow> bytes" where
  "join_lines [] = []"
| "join_lines [l] = l"
| "join_lines (l # ls) = l @ 10 # join_lines ls"

definition canonical_text :: "('d \<Rightarrow> bytes) \<Rightarrow> (bytes \<times> 'd json) list \<Rightarrow> bytes" where
  "canonical_text fmt_f kvs = join_lines (sort (map (prm_line fmt_f) kvs))"

text \<open>The parameters the code is made for: strings, truth values and numbers, in prm_printable ASCII.\<close>

definition prm_printable :: "bytes \<Rightarrow> bool" where
  "prm_printable s \<longleftrightarrow> (\<forall>c \<in> set s. 32 \<le> unat c \<and> unat c < 127)"

fun simple_param :: "('d \<Rightarrow> bytes) \<Rightarrow> bytes \<times> 'd json \<Rightarrow> bool" where
  "simple_param fmt_f (k, Bool b) \<longleftrightarrow> prm_printable k"
| "simple_param fmt_f (k, Str s) \<longleftrightarrow> prm_printable k \<and> prm_printable s"
| "simple_param fmt_f (k, Num d) \<longleftrightarrow> prm_printable k \<and> prm_printable (fmt_f d) \<and> length (fmt_f d) \<le> 15"
| "simple_param fmt_f _ \<longleftrightarrow> False"

lemma printable_simps [simp]:
  "prm_printable []" "prm_printable (c # s) \<longleftrightarrow> 32 \<le> unat c \<and> unat c < 127 \<and> prm_printable s" "prm_printable (s @ t) \<longleftrightarrow> prm_printable s \<and> prm_printable t"
  by (auto simp: prm_printable_def)

lemma printableD: "prm_printable s \<Longrightarrow> c \<in> set s \<Longrightarrow> 32 \<le> unat c"
  by (auto simp: prm_printable_def)

lemma not_below: "\<not> uint (c :: byte) < - 1"
  by (simp add: not_less order_trans [OF _ unsigned_greater_eq])

lemma lower_all_printable: "prm_printable k \<Longrightarrow> lower_all schar k = Some (map lower k)"
  by (induction k) (auto simp: c_tolower_def lower_def char_int_ascii not_below)

lemma printable_lower [simp]: "prm_printable k \<Longrightarrow> prm_printable (map lower k)"
proof -
  have "list_all (\<lambda>n. 32 \<le> n \<and> n < 127 \<longrightarrow> (let c = unat (lower (word_of_nat n)) in 32 \<le> c \<and> c < 127)) [0..<256]" by code_simp
  then have l: "32 \<le> n \<and> n < 127 \<longrightarrow> 32 \<le> unat (lower (word_of_nat n)) \<and> unat (lower (word_of_nat n)) < 127" if "n < 256" for n
    using that by (simp add: list_all_iff Let_def)
  have "32 \<le> unat (lower c) \<and> unat (lower c) < 127" if "32 \<le> unat c" "unat c < 127" for c
    using l [of "unat c"] that by simp
  then show "prm_printable k \<Longrightarrow> prm_printable (map lower k)" by (induction k) auto
qed

lemma printable_line: "simple_param fmt_f kv \<Longrightarrow> prm_printable (prm_line fmt_f kv)"
  by (induction fmt_f kv rule: simple_param.induct) (auto simp: prm_line_def prm_true_def prm_false_def)

section \<open>Forming the lines\<close>

text \<open>A child node with its key and its value.\<close>

definition member_node :: "'d jstate \<Rightarrow> 'd JsonNode \<Rightarrow> bytes \<times> 'd json \<Rightarrow> bool" where
  "member_node st n kv \<longleftrightarrow> str_at (js_mem st) (p_value (n_key n)) = Some (fst kv) \<and>
     (case snd kv of Bool b \<Rightarrow> n_tag n = JSON_BOOL \<and> n_bool n = b
      | Str s \<Rightarrow> n_tag n = JSON_STRING \<and> str_at (js_mem st) (n_string n) = Some s
      | Num d \<Rightarrow> n_tag n = JSON_NUMBER \<and> n_number n = d
      | _ \<Rightarrow> False)"

lemma static_line_writes:
  assumes m: "member_node st n kv" and p: "simple_param fmt_f kv"
    and len: "length mid = length (prm_line fmt_f kv) + 1" and size: "length (pre @ mid @ rest) = PRM_SIZE"
  shows "static_line schar fmt_f st n (length pre) (pre @ mid @ rest) =
    Some (length (prm_line fmt_f kv) + 1, pre @ prm_line fmt_f kv @ [10] @ rest)"
proof -
  obtain k v where kv: "kv = (k, v)" by force
  let ?l1 = "map lower k @ [61]" and ?t = "val_text fmt_f v"
  have l: "prm_line fmt_f kv = ?l1 @ ?t" by (simp add: prm_line_def kv)
  define m1 m2 where "m1 = take (length ?l1) mid" and "m2 = drop (length ?l1) mid"
  then have mid: "mid = m1 @ m2" "length m1 = length ?l1" "length m2 = length ?t + 1" using len l by simp_all
  have 1: "mem_write (pre @ mid @ rest) (length pre) ?l1 = Some (pre @ ?l1 @ m2 @ rest)"
    using mem_write_at [of ?l1 m1 pre "m2 @ rest"] mid by simp
  have 2: "mem_write (pre @ ?l1 @ m2 @ rest) (length pre + (length k + 1)) (?t @ [0]) = Some (pre @ ?l1 @ ?t @ 0 # rest)"
    using mem_write_at [of "?t @ [0]" m2 "pre @ ?l1" rest] mid by simp
  have 3: "write_at (pre @ ?l1 @ ?t @ 0 # rest) (length pre + (length k + 1) + length ?t) 10 = Some (pre @ ?l1 @ ?t @ 10 # rest)"
    using mem_write_at [of "[10]" "[0]" "pre @ ?l1 @ ?t" rest] by (simp add: write_at_mem_write add.assoc)
  have fits: "length ?t < PRM_SIZE - length pre" using size mid by simp
  have key: "prm_printable k" using p kv by (cases v) auto
  show ?thesis
    using m p fits 1 2 3 kv l lower_all_printable [OF key, of schar] unfolding static_line_def member_node_def
    by (cases v) (auto simp: c_snprintf_def)
qed


lemma member_at:
  assumes "jreps st par prv (T # Ts) None" and "str_at (js_mem st) (p_value (jk T)) = Some (fst kv)" and "jabs (js_mem st) T (snd kv)"
    and "simple_param fmt_f kv"
  obtains n where "get_node st (Some (ja T)) = Some n" and "n_next n = firstp Ts" and "member_node st n kv"
proof -
  obtain a k l cs where T: "T = JT a k l cs" by (cases T)
  with assms(1) obtain n where n: "nodes st a = Some n" "node_ok n par prv (if Ts = [] then None else firstp Ts) k l cs" by auto
  have "member_node st n kv"
    using assms(2-4) n T by (cases kv; cases "snd kv") (auto simp: member_node_def node_ok_def split: leaf.splits)
  with n T that show thesis by (auto simp: get_node_def node_ok_def split: if_splits)
qed

abbreviation lines :: "('d \<Rightarrow> bytes) \<Rightarrow> (bytes \<times> 'd json) list \<Rightarrow> bytes list" where
  "lines fmt_f kvs \<equiv> map (\<lambda>kv. prm_line fmt_f kv @ [10]) kvs"

lemma static_loop_writes:
  assumes "jreps st par prv cs None" and "list_all2 (\<lambda>T kv. str_at (js_mem st) (p_value (jk T)) = Some (fst kv) \<and> jabs (js_mem st) T (snd kv)) cs kvs"
    and "\<forall>kv \<in> set kvs. simple_param fmt_f kv" and "length ds + length kvs \<le> MAX_PARAM_LINE"
    and "length mid = length (concat (lines fmt_f kvs))" and "length (concat ds @ mid @ rest) = PRM_SIZE"
  shows "static_loop schar fmt_f st (firstp cs) (length (concat ds)) (concat ds @ mid @ rest) (table 0 ds) =
    Some (concat (ds @ lines fmt_f kvs) @ rest, table 0 (ds @ lines fmt_f kvs))"
  using assms
proof (induction cs arbitrary: prv kvs ds mid)
  case Nil
  then show ?case by (simp add: static_loop.simps)
next
  case (Cons T Ts)
  from Cons.prems(2) obtain kv kvs' where kvs: "kvs = kv # kvs'" "str_at (js_mem st) (p_value (jk T)) = Some (fst kv)" "jabs (js_mem st) T (snd kv)"
    "list_all2 (\<lambda>T kv. str_at (js_mem st) (p_value (jk T)) = Some (fst kv) \<and> jabs (js_mem st) T (snd kv)) Ts kvs'"
    by (auto simp: list_all2_Cons1)
  have sp: "simple_param fmt_f kv" using Cons.prems(3) kvs(1) by simp
  from member_at [OF Cons.prems(1) kvs(2,3) sp] obtain n where n: "get_node st (Some (ja T)) = Some n" "n_next n = firstp Ts" "member_node st n kv" .
  define m1 m2 where "m1 = take (length (prm_line fmt_f kv) + 1) mid" and "m2 = drop (length (prm_line fmt_f kv) + 1) mid"
  then have mid: "mid = m1 @ m2" "length m1 = length (prm_line fmt_f kv) + 1" "length m2 = length (concat (lines fmt_f kvs'))"
    using Cons.prems(5) kvs(1) by simp_all
  have line: "static_line schar fmt_f st n (length (concat ds)) (concat ds @ m1 @ m2 @ rest) =
      Some (length (prm_line fmt_f kv) + 1, concat ds @ prm_line fmt_f kv @ [10] @ m2 @ rest)"
    using static_line_writes [OF n(3) sp mid(2), of "concat ds" "m2 @ rest"] Cons.prems(6) mid(1) by simp
  have step: "static_loop schar fmt_f st (firstp Ts) (length (concat (ds @ [prm_line fmt_f kv @ [10]])))
      (concat (ds @ [prm_line fmt_f kv @ [10]]) @ m2 @ rest) (table 0 (ds @ [prm_line fmt_f kv @ [10]])) =
      Some (concat ((ds @ [prm_line fmt_f kv @ [10]]) @ lines fmt_f kvs') @ rest, table 0 ((ds @ [prm_line fmt_f kv @ [10]]) @ lines fmt_f kvs'))"
    using Cons.prems mid kvs by (intro Cons.IH [where prv = "Some (ja T)"]) auto
  have "table 0 (ds @ [prm_line fmt_f kv @ [10]]) = table 0 ds @ [\<lparr>s_start = length (concat ds), s_len = length (prm_line fmt_f kv) + 1\<rparr>]"
    by (simp add: table_append)
  with step line n Cons.prems(4) kvs(1) mid(1) show ?case by (subst static_loop.simps) simp
qed


section \<open>Sorting the lines\<close>

lemma newline_mono:
  assumes "prm_printable x" and "prm_printable y" and "x \<le> y"
  shows "x @ [10] \<le> y @ [10]"
  using assms
proof (induction x arbitrary: y)
  case Nil
  then show ?case by (cases y) (auto simp: word_less_nat_alt)
next
  case (Cons a x)
  then show ?case by (cases y) auto
qed

lemma sort_newline:
  assumes "\<forall>l \<in> set ls. prm_printable l"
  shows "sort (map (\<lambda>l. l @ [10]) ls) = map (\<lambda>l. l @ [10]) (sort ls)"
proof (rule properties_for_sort)
  have "sorted_wrt (\<lambda>x y. x @ [10] \<le> y @ [10]) (sort ls)"
    by (rule sorted_wrt_mono_rel [of _ "(\<le>)"]) (use assms newline_mono in auto)
  then show "sorted (map (\<lambda>l. l @ [10]) (sort ls))" by (simp add: sorted_wrt_map)
qed simp

lemma lines_prefix_free:
  assumes "\<forall>l \<in> S. prm_printable l"
  shows "prefix_free ((\<lambda>l. l @ [10]) ` S)"
  unfolding prefix_free_def
proof clarify
  fix x y z assume xy: "x \<in> S" "y \<in> S" and e: "y @ [10] = (x @ [10]) @ z"
  have "10 \<notin> set y" using assms xy(2) printableD [of y 10] by auto
  then have "takeWhile (\<lambda>c. c \<noteq> 10) (y @ [10]) = y" by (intro takeWhile_append_stop) auto
  moreover have "10 \<notin> set x" using assms xy(1) printableD [of x 10] by auto
  then have "takeWhile (\<lambda>c. c \<noteq> 10) (x @ 10 # z) = x" by (intro takeWhile_append_stop) auto
  ultimately have "x = y" using e by simp
  with e show "z = []" by simp
qed

lemma concat_newlines: "ls \<noteq> [] \<Longrightarrow> concat (map (\<lambda>l. l @ [10]) ls) = join_lines ls @ [10]"
  by (induction ls rule: join_lines.induct) auto

lemma join_lines_no_zero: "\<forall>l \<in> set ls. prm_printable l \<Longrightarrow> 0 \<notin> set (join_lines ls)"
  by (induction ls rule: join_lines.induct) (auto dest: printableD)

lemma table_Nil [simp]: "table off ls = [] \<longleftrightarrow> ls = []"
  by (cases ls) auto

lemma last_table: "ls \<noteq> [] \<Longrightarrow> s_start (last (table off ls)) + s_len (last (table off ls)) = off + length (concat ls)"
  by (induction ls arbitrary: off) (auto simp: add.assoc)

lemma static_form_text:
  assumes T: "jrep st par prv nxt (JT a k LObj cs)" "jabs (js_mem st) (JT a k LObj cs) (Obj kvs)"
    and kvs: "kvs \<noteq> []" "\<forall>kv \<in> set kvs. simple_param fmt_f kv" "length kvs \<le> MAX_PARAM_LINE"
    and size: "length (concat (lines fmt_f kvs)) < PRM_SIZE" "length buf = PRM_SIZE"
  shows "\<exists>buf'. form_canonical_prm_static schar fmt_f st buf (Some a) = Some buf' \<and> cstr buf' = Some (canonical_text fmt_f kvs)"
proof -
  let ?ls = "map (prm_line fmt_f) kvs" and ?n = "length (concat (lines fmt_f kvs))"
  let ?nl = "\<lambda>l :: bytes. l @ [10]"
  have pr: "\<forall>l \<in> set ?ls. prm_printable l" using kvs(2) printable_line by auto
  have ls: "lines fmt_f kvs = map ?nl ?ls" by simp
  define x rest where "x = buf ! ?n" and "rest = drop (Suc ?n) buf"
  then have buf: "buf = take ?n buf @ x # rest" using size by (simp add: Cons_nth_drop_Suc)
  have child: "json_first_child st (Some a) = Some (firstp cs)"
    using T(1) by (auto simp: json_first_child_def get_node_def node_ok_def)
  have loop: "static_loop schar fmt_f st (firstp cs) 0 buf [] = Some (concat (map ?nl ?ls) @ x # rest, table 0 (map ?nl ?ls))"
    using static_loop_writes [of st "Some a" None cs kvs fmt_f "[]" "take ?n buf" "x # rest" schar] T kvs size buf by (simp add: comp_def)
  have w1: "write_at (concat (map ?nl ?ls) @ x # rest) (length (concat (map ?nl ?ls))) 0 = Some (concat (map ?nl ?ls) @ 0 # rest)"
    by (simp add: write_at_def)
  obtain ls' where b: "bubble schar (concat (map ?nl ?ls) @ 0 # rest) (table 0 (map ?nl ?ls)) = Some (concat ls' @ 0 # rest, table 0 ls')"
    "mset ls' = mset (map ?nl ?ls)" "successively (\<lambda>x y. \<not> prefix_gt schar x y) ls'"
    using bubble_sorts [of "map ?nl ?ls" schar "[]" "0 # rest"] kvs(1) by auto
  have set: "set ls' = ?nl ` set ?ls" using b(2) by (metis set_map set_mset_mset)
  have "sorted ls'"
  proof (rule successively_sorted [OF b(3)])
    show "prefix_free (set ls')" unfolding set by (rule lines_prefix_free) (use pr in auto)
    show "\<forall>l \<in> set ls'. \<forall>c \<in> set l. unat c < 128" unfolding set using pr by (auto simp: prm_printable_def intro: less_trans)
  qed
  then have "ls' = sort (map ?nl ?ls)" using b(2) by (metis properties_for_sort)
  then have ls': "ls' = map ?nl (sort ?ls)" using sort_newline [OF pr] by simp
  have ne: "sort ?ls \<noteq> []" using kvs(1) by (metis length_0_conv length_sort map_is_Nil_conv)
  with ls' have c: "concat ls' = canonical_text fmt_f kvs @ [10]" "ls' \<noteq> []"
    using concat_newlines [OF ne] by (simp_all add: canonical_text_def)
  have w2: "write_at (concat ls' @ 0 # rest) (length (concat ls') - 1) 0 = Some (canonical_text fmt_f kvs @ 0 # 0 # rest)"
    by (simp add: c(1) write_at_def list_update_append)
  have "0 \<notin> set (canonical_text fmt_f kvs)" unfolding canonical_text_def by (rule join_lines_no_zero) (use pr in simp)
  then have "cstr (canonical_text fmt_f kvs @ 0 # 0 # rest) = Some (canonical_text fmt_f kvs)" by (rule cstr_terminated)
  moreover have "form_canonical_prm_static schar fmt_f st buf (Some a) = Some (canonical_text fmt_f kvs @ 0 # 0 # rest)"
    using child loop w1 b(1) w2 last_table [of "map ?nl ?ls" 0] last_table [OF c(2), of 0] kvs(1)
    by (auto simp: form_canonical_prm_static_def simp del: map_map)
  ultimately show ?thesis by blast
qed


section \<open>The variant with the heap\<close>

lemma member_node_mono: "member_node st n kv \<Longrightarrow> js_mem st \<subseteq>\<^sub>m js_mem st' \<Longrightarrow> member_node st' n kv"
  by (auto simp: member_node_def split: json.splits intro: str_at_mono)

text \<open>New objects \<open>as\<close> beside an unchanged memory.\<close>

definition added :: "blocks \<Rightarrow> nat list \<Rightarrow> blocks \<Rightarrow> bool" where
  "added m as m' \<longleftrightarrow> distinct as \<and> set as \<inter> dom m = {} \<and> set as \<subseteq> dom m' \<and> m' |` (- set as) = m"

lemma addedE:
  assumes "added m as m'"
  shows "m \<subseteq>\<^sub>m m'"
  unfolding map_le_def
proof
  fix x assume "x \<in> dom m"
  with assms have "x \<notin> set as" "(m' |` (- set as)) x = m x" by (auto simp: added_def)
  then show "m x = m' x" by simp
qed

lemma added_Cons:
  assumes "a \<notin> dom m" and "added (m(a \<mapsto> b)) as m'"
  shows "added m (a # as) m'"
proof -
  have r: "m' |` (- set as) = m(a \<mapsto> b)" and as: "distinct as" "set as \<inter> dom (m(a \<mapsto> b)) = {}" "set as \<subseteq> dom m'"
    using assms(2) by (simp_all add: added_def)
  have "(m' |` (- set (a # as))) x = m x" for x
    using fun_cong [OF r, of x] assms(1) by (cases "x \<in> set as"; cases "x = a") (auto simp: restrict_map_def dom_def)
  then have "m' |` (- set (a # as)) = m" by (rule ext)
  moreover have "a \<notin> set as" "a \<in> dom m'" using as(2) fun_cong [OF r, of a] by (auto simp: restrict_map_def split: if_splits)
  ultimately show ?thesis using as assms(1) by (auto simp: added_def)
qed

text \<open>When memory can run out.\<close>

definition may_fail :: "libc \<Rightarrow> blocks \<Rightarrow> bool" where
  "may_fail L m \<longleftrightarrow> \<not> (libc_total L \<and> finite (dom m))"

lemma fresh_None_may_fail: "fresh L m n = None \<Longrightarrow> may_fail L m"
  by (auto simp: may_fail_def libc_total_def)

lemma may_fail_added: "added m as m' \<Longrightarrow> may_fail L m' \<Longrightarrow> may_fail L m"
proof -
  assume a: "added m as m'"
  then have "dom m = dom m' - set as" unfolding added_def by (metis dom_restrict Diff_eq)
  then show "may_fail L m' \<Longrightarrow> may_fail L m" by (auto simp: may_fail_def)
qed

lemma heap_line_new:
  assumes "libc_ok L" and m: "member_node st n kv" and p: "simple_param fmt_f kv"
  shows "\<exists>len. length (prm_line fmt_f kv) + 1 \<le> len \<and>
    (heap_line L schar fmt_f st n = Some (None, len, st) \<and> may_fail L (js_mem st) \<or>
     (\<exists>a r. a \<notin> dom (js_mem st) \<and>
       heap_line L schar fmt_f st n = Some (Some a, len, st\<lparr>js_mem := (js_mem st)(a \<mapsto> prm_line fmt_f kv @ 0 # r)\<rparr>)))"
proof -
  obtain k v where kv: "kv = (k, v)" by force
  let ?l1 = "map lower k @ [61]" and ?t = "val_text fmt_f v"
  have l: "prm_line fmt_f kv = ?l1 @ ?t" by (simp add: prm_line_def kv)
  define len1 where "len1 = (if n_tag n = JSON_STRING then length ?t else 50)"
  define len where "len = len1 + length k + 10"
  have key: "prm_printable k" "str_at (js_mem st) (p_value (n_key n)) = Some k" using p m kv by (cases v; simp add: member_node_def)+
  have t: "length ?t \<le> len1" using m p kv by (cases v) (auto simp: len1_def member_node_def prm_true_def prm_false_def)
  then have room: "length (prm_line fmt_f kv) + 1 \<le> len" by (simp add: len_def l)
  have len1: "(if n_tag n = JSON_STRING then map_option length (str_at (js_mem st) (n_string n)) else Some 50) = Some len1"
    using m kv by (cases v) (auto simp: len1_def member_node_def)
  show ?thesis
  proof (cases "fresh L (js_mem st) len")
    case None
    then show ?thesis using len1 key room fresh_None_may_fail [OF None] by (intro exI [of _ len]) (simp add: heap_line_def c_malloc_def len_def)
  next
    case (Some a)
    with assms(1) have a: "a \<notin> dom (js_mem st)" by (auto simp: libc_ok_def)
    define m1 m2 r where "m1 = replicate (length ?l1) (junk L)" and "m2 = replicate (length ?t + 1) (junk L)"
      and "r = replicate (len - length ?l1 - length ?t - 1) (junk L)"
    have blk: "replicate len (junk L) = m1 @ m2 @ r" 
    proof -
      have "len = length ?l1 + (length ?t + 1 + (len - length ?l1 - length ?t - 1))" using room by (simp add: l)
      then show ?thesis unfolding m1_def m2_def r_def by (metis replicate_add)
    qed
    have 1: "mem_write (m1 @ m2 @ r) 0 ?l1 = Some (?l1 @ m2 @ r)" using mem_write_at [of ?l1 m1 "[]" "m2 @ r"] by (simp add: m1_def)
    have 2: "mem_write (?l1 @ m2 @ r) (length k + 1) (?t @ [0]) = Some (?l1 @ ?t @ 0 # r)"
      using mem_write_at [of "?t @ [0]" m2 ?l1 r] by (simp add: m2_def)
    have 3: "write_at (?l1 @ ?t @ 0 # r) (length k + 1 + length ?t) 0 = Some (?l1 @ ?t @ 0 # r)"
      using mem_write_at [of "[0]" "[0]" "?l1 @ ?t" r] by (simp add: write_at_mem_write)
    have mal: "c_malloc L (js_mem st) (len1 + length k + 10) = (Some a, (js_mem st)(a \<mapsto> m1 @ m2 @ r))"
      using Some by (simp add: c_malloc_def len_def blk [unfolded len_def])
    have low: "lower_all schar k = Some (map lower k)" by (rule lower_all_printable [OF key(1)])
    have "heap_line L schar fmt_f st n = Some (Some a, len, st\<lparr>js_mem := (js_mem st)(a \<mapsto> prm_line fmt_f kv @ 0 # r)\<rparr>)"
      unfolding heap_line_def len1 key(2) bind.bind_lunit Let_def mal prod.case option.case low l len_def
      using m p 1 2 3 by (cases v) (auto simp: kv member_node_def c_snprintf_def)
    with a room show ?thesis by blast
  qed
qed


abbreviation members :: "blocks \<Rightarrow> 'd jt list \<Rightarrow> (bytes \<times> 'd json) list \<Rightarrow> bool" where
  "members m \<equiv> list_all2 (\<lambda>T kv. str_at m (p_value (jk T)) = Some (fst kv) \<and> jabs m T (snd kv))"

text \<open>The children of a node as seen from the loops.\<close>

fun prm_chain :: "'d jstate \<Rightarrow> nat option \<Rightarrow> (bytes \<times> 'd json) list \<Rightarrow> bool" where
  "prm_chain st p [] \<longleftrightarrow> p = None"
| "prm_chain st p (kv # kvs) \<longleftrightarrow> (\<exists>n. p \<noteq> None \<and> get_node st p = Some n \<and> member_node st n kv \<and> prm_chain st (n_next n) kvs)"

lemma jreps_chain:
  assumes "jreps st par prv cs None" and "members (js_mem st) cs kvs" and "\<forall>kv \<in> set kvs. simple_param fmt_f kv"
  shows "prm_chain st (firstp cs) kvs"
  using assms
proof (induction cs arbitrary: prv kvs)
  case (Cons T Ts)
  then obtain kv kvs' where kvs: "kvs = kv # kvs'" "str_at (js_mem st) (p_value (jk T)) = Some (fst kv)" "jabs (js_mem st) T (snd kv)"
    "members (js_mem st) Ts kvs'" by (auto simp: list_all2_Cons1)
  with Cons.prems member_at [OF Cons.prems(1) kvs(2,3), of fmt_f] obtain n where
    "get_node st (Some (ja T)) = Some n" "n_next n = firstp Ts" "member_node st n kv" by auto
  moreover have "prm_chain st (firstp Ts) kvs'" using Cons.prems kvs by (intro Cons.IH [where prv = "Some (ja T)"]) auto
  ultimately show ?case using kvs(1) by auto
qed simp

lemma chain_mono: "prm_chain st p kvs \<Longrightarrow> js_mem st \<subseteq>\<^sub>m m \<Longrightarrow> prm_chain (st\<lparr>js_mem := m\<rparr>) p kvs"
proof (induction kvs arbitrary: p)
  case (Cons kv kvs)
  then show ?case by (auto simp: get_node_def intro!: member_node_mono [of st _ kv "st\<lparr>js_mem := m\<rparr>"])
qed simp

lemma js_mem_upd: "js_mem (st\<lparr>js_mem := a\<rparr>) = a" "st\<lparr>js_mem := a, js_mem := b\<rparr> = st\<lparr>js_mem := b\<rparr>"
  by simp_all

lemma heap_loop_new:
  assumes "libc_ok L"
  shows "prm_chain st p kvs \<Longrightarrow> \<forall>kv \<in> set kvs. simple_param fmt_f kv \<Longrightarrow> length bs + length kvs \<le> MAX_PARAM_LINE \<Longrightarrow>
    \<exists>ok tot' as m. heap_loop L schar fmt_f st p tot bs = Some (ok, tot', bs @ as, st\<lparr>js_mem := m\<rparr>) \<and> added (js_mem st) as m \<and>
      (\<not> ok \<longrightarrow> may_fail L (js_mem st)) \<and>
      (ok \<longrightarrow> tot + length (concat (lines fmt_f kvs)) \<le> tot' \<and>
        list_all2 (\<lambda>a kv. \<exists>r. m a = Some (prm_line fmt_f kv @ 0 # r)) as kvs)"
proof (induction kvs arbitrary: st p tot bs)
  case Nil
  then show ?case by (intro exI [of _ True] exI [of _ tot] exI [of _ "[]"] exI [of _ "js_mem st"]) (simp add: heap_loop.simps added_def)
next
  case (Cons kv kvs)
  then obtain n a0 where n: "p = Some a0" "get_node st p = Some n" "member_node st n kv" "prm_chain st (n_next n) kvs" by auto
  have sp: "simple_param fmt_f kv" using Cons.prems(2) by simp
  have room: "\<not> MAX_PARAM_LINE \<le> length bs" using Cons.prems(3) by simp
  from heap_line_new [OF assms n(3) sp, of schar] consider
    (full) len where "heap_line L schar fmt_f st n = Some (None, len, st)" "may_fail L (js_mem st)"
  | (new) len a r where "length (prm_line fmt_f kv) + 1 \<le> len" "a \<notin> dom (js_mem st)"
      "heap_line L schar fmt_f st n = Some (Some a, len, st\<lparr>js_mem := (js_mem st)(a \<mapsto> prm_line fmt_f kv @ 0 # r)\<rparr>)" by blast
  then show ?case
  proof cases
    case full
    with n room show ?thesis
      by (intro exI [of _ False] exI [of _ tot] exI [of _ "[]"] exI [of _ "js_mem st"]) (simp add: heap_loop.simps added_def)
  next
    case new
    let ?m = "(js_mem st)(a \<mapsto> prm_line fmt_f kv @ 0 # r)"
    have le: "js_mem st \<subseteq>\<^sub>m ?m" using new(2) by (auto simp: map_le_def)
    have "\<forall>kv \<in> set kvs. simple_param fmt_f kv" "length (bs @ [a]) + length kvs \<le> MAX_PARAM_LINE" using Cons.prems(2,3) by simp_all
    from Cons.IH [OF chain_mono [OF n(4) le] this, of "tot + len"] obtain ok tot' as m where
      ih: "heap_loop L schar fmt_f (st\<lparr>js_mem := ?m\<rparr>) (n_next n) (tot + len) (bs @ [a]) = Some (ok, tot', bs @ a # as, st\<lparr>js_mem := m\<rparr>)"
        "added ?m as m" "\<not> ok \<longrightarrow> may_fail L ?m" "ok \<longrightarrow> tot + len + length (concat (lines fmt_f kvs)) \<le> tot' \<and>
          list_all2 (\<lambda>a kv. \<exists>r. m a = Some (prm_line fmt_f kv @ 0 # r)) as kvs"
      unfolding append_assoc append.simps js_mem_upd by blast
    have ma: "m a = Some (prm_line fmt_f kv @ 0 # r)" using addedE [OF ih(2)] by (auto simp: map_le_def)
    have "heap_loop L schar fmt_f st p tot bs = Some (ok, tot', bs @ a # as, st\<lparr>js_mem := m\<rparr>)"
      using ih(1) new(3) n room by (subst heap_loop.simps) simp
    moreover have "may_fail L ?m \<Longrightarrow> may_fail L (js_mem st)" by (simp add: may_fail_def)
    ultimately show ?thesis using added_Cons [OF new(2) ih(2)] ih(3,4) ma new(1)
      by (intro exI [of _ ok] exI [of _ tot'] exI [of _ "a # as"] exI [of _ m]) auto
  qed
qed

lemma free_list_added: "added m as m' \<Longrightarrow> free_list m' as = Some m"
proof (induction as arbitrary: m')
  case Nil
  then show ?case by (simp add: added_def)
next
  case (Cons a as)
  have r: "m' |` (- set (a # as)) = (m'(a := None)) |` (- set as)" by (auto simp: restrict_map_def fun_eq_iff)
  have "added m as (m'(a := None))" using Cons.prems unfolding added_def r by auto
  with Cons show ?case by (auto simp: c_free_def added_def)
qed


lemma join_loop_joins:
  assumes "can \<notin> set as"
  shows "distinct as \<Longrightarrow> list_all2 (\<lambda>a s. \<exists>r. m a = Some (s @ 0 # r)) as ss \<Longrightarrow> \<forall>s \<in> set ss. prm_printable s \<Longrightarrow>
    m can = Some (d @ 0 # r) \<Longrightarrow> 0 \<notin> set d \<Longrightarrow> length (join_lines ss) \<le> length r \<Longrightarrow>
    \<exists>r'. join_loop m can as = Some ((m |` (- set as))(can \<mapsto> d @ join_lines ss @ 0 # r'))"
  using assms
proof (induction as arbitrary: ss m d r)
  case Nil
  then show ?case by (auto simp: restrict_map_def fun_eq_iff)
next
  case (Cons a as)
  then obtain s ss' ra where ss: "ss = s # ss'" "m a = Some (s @ 0 # ra)" "list_all2 (\<lambda>a s. \<exists>r. m a = Some (s @ 0 # r)) as ss'"
    by (auto simp: list_all2_Cons1)
  have z: "0 \<notin> set s" using Cons.prems(3) ss(1) printableD [of s 0] by auto
  have str: "str_at m (Some a) = Some s" using ss(2) z by (simp add: str_at_def cstr_terminated)
  define e where "e = (if as = [] then [] else [10 :: byte])"
  have j: "join_lines ss = s @ e @ join_lines ss'" using ss by (cases ss') (auto simp: e_def)
  have len: "length (s @ e) + length (join_lines ss') \<le> length r" using Cons.prems(6) by (simp add: j)
  define m2 where "m2 = m(can \<mapsto> d @ s @ e @ 0 # drop (length (s @ e)) r)"
  have cat: "Option.bind (c_strcat m can s) (\<lambda>m. if as \<noteq> [] then c_strcat m can [10] else Some m) = Some m2"
    using c_strcat_appends [of m can d r s] Cons.prems(4) c_strcat_appends [of "m(can \<mapsto> d @ s @ 0 # drop (length s) r)" can "d @ s" "drop (length s) r" "[10]"]
      Cons.prems(5) z len by (auto simp: e_def m2_def drop_drop add.commute)
  have ne: "can \<noteq> a" "a \<notin> set as" "can \<notin> set as" "distinct as" using Cons.prems by auto
  let ?m = "m2(a := None)"
  have la: "list_all2 (\<lambda>a s. \<exists>r. ?m a = Some (s @ 0 # r)) as ss'"
    using ss(3) by (rule list.rel_mono_strong) (use ne in \<open>auto simp: m2_def\<close>)
  have pr: "\<forall>s \<in> set ss'. prm_printable s" using Cons.prems(3) ss(1) by simp
  have mc: "?m can = Some ((d @ s @ e) @ 0 # drop (length (s @ e)) r)" using ne by (simp add: m2_def)
  have z2: "0 \<notin> set (d @ s @ e)" using Cons.prems(5) z by (simp add: e_def)
  have len2: "length (join_lines ss') \<le> length (drop (length (s @ e)) r)" using len by simp
  from Cons.IH [OF ne(4) la pr mc z2 len2 ne(3)] obtain r' where
    "join_loop ?m can as = Some ((?m |` (- set as))(can \<mapsto> (d @ s @ e) @ join_lines ss' @ 0 # r'))" by blast
  moreover have "(?m |` (- set as))(can \<mapsto> x) = (m |` (- set (a # as)))(can \<mapsto> x)" for x
    by (auto simp: m2_def restrict_map_def fun_eq_iff)
  moreover have "join_loop m can (a # as) = join_loop ?m can as"
    using str cat ss(2) ne(1) by (auto simp: c_free_def m2_def bind_assoc [symmetric] simp del: bind_assoc split: option.splits)
  ultimately have "join_loop m can (a # as) = Some ((m |` (- set (a # as)))(can \<mapsto> (d @ s @ e) @ join_lines ss' @ 0 # r'))"
    by (simp only:)
  then show ?case unfolding j append_assoc by blast
qed


lemma qsort_sorts:
  assumes "list_all2 (\<lambda>a s. \<exists>r. m a = Some (s @ 0 # r)) as ss" and "\<forall>s \<in> set ss. prm_printable s"
  shows "\<exists>bs. qsort_strings m as = Some bs \<and> mset bs = mset as \<and> list_all2 (\<lambda>a s. \<exists>r. m a = Some (s @ 0 # r)) bs (sort ss)"
proof -
  have zip: "strings_at m as = Some (zip ss as) \<and> length as = length ss \<and> (\<forall>(s, a) \<in> set (zip ss as). \<exists>r. m a = Some (s @ 0 # r))"
    using assms
  proof (induction rule: list_all2_induct)
    case (Cons a as s ss)
    then have "0 \<notin> set s" using printableD [of s 0] by auto
    with Cons show ?case by (auto simp: str_at_def cstr_terminated)
  qed simp
  let ?q = "sort_key fst (zip ss as)"
  have fst: "map fst ?q = sort ss"
  proof (rule properties_for_sort [symmetric])
    show "mset (map fst ?q) = mset ss" using zip by (metis map_fst_zip mset_map mset_sort)
  qed (rule sorted_sort_key)
  have "mset (map snd ?q) = mset as" using zip by (metis map_snd_zip mset_map mset_sort)
  moreover have "list_all2 (\<lambda>a s. \<exists>r. m a = Some (s @ 0 # r)) (map snd ?q) (map fst ?q)"
    using zip by (auto simp: list_all2_map1 list_all2_map2 list_all2_same)
  ultimately show ?thesis using zip by (intro exI [of _ "map snd ?q"]) (simp add: qsort_strings_def fst)
qed

lemma heap_form_text:
  assumes L: "libc_ok L" and T: "jrep st par prv nxt (JT a k LObj cs)" "jabs (js_mem st) (JT a k LObj cs) (Obj kvs)"
    and kvs: "kvs \<noteq> []" "\<forall>kv \<in> set kvs. simple_param fmt_f kv" "length kvs \<le> MAX_PARAM_LINE"
  shows "form_canonical_prm L schar fmt_f st (Some a) = Some (None, st) \<and> may_fail L (js_mem st) \<or>
    (\<exists>can r. can \<notin> dom (js_mem st) \<and> form_canonical_prm L schar fmt_f st (Some a) =
      Some (Some can, st\<lparr>js_mem := (js_mem st)(can \<mapsto> canonical_text fmt_f kvs @ 0 # r)\<rparr>))"
proof -
  let ?ls = "map (prm_line fmt_f) kvs"
  have child: "json_first_child st (Some a) = Some (firstp cs)"
    using T(1) by (auto simp: json_first_child_def get_node_def node_ok_def)
  have "prm_chain st (firstp cs) kvs" using T kvs(2) by (intro jreps_chain [where fmt_f = fmt_f and par = "Some a" and prv = None]) auto
  from heap_loop_new [OF L this kvs(2), of "[]" schar 0] kvs(3) obtain ok tot as m where
    loop: "heap_loop L schar fmt_f st (firstp cs) 0 [] = Some (ok, tot, as, st\<lparr>js_mem := m\<rparr>)" "added (js_mem st) as m" "\<not> ok \<longrightarrow> may_fail L (js_mem st)"
      "ok \<longrightarrow> length (concat (lines fmt_f kvs)) \<le> tot \<and> list_all2 (\<lambda>a kv. \<exists>r. m a = Some (prm_line fmt_f kv @ 0 # r)) as kvs"
    by auto
  have undo: "free_list m as = Some (js_mem st)" by (rule free_list_added [OF loop(2)])
  show ?thesis
  proof (cases "ok \<and> fresh L m tot \<noteq> None")
    case False
    then have "may_fail L (js_mem st)" using loop(3) may_fail_added [OF loop(2) fresh_None_may_fail] by auto
    with False show ?thesis using loop(1) child undo by (auto simp: form_canonical_prm_def c_malloc_def)
  next
    case True
    then obtain can where can: "fresh L m tot = Some can" by blast
    with L have fresh: "can \<notin> dom m" by (auto simp: libc_ok_def)
    have as: "can \<notin> set as" "can \<notin> dom (js_mem st)"
      using fresh loop(2) map_le_implies_dom_le [OF addedE [OF loop(2)]] by (auto simp: added_def)
    have len: "0 < tot" "length (join_lines (sort ?ls)) \<le> tot - 1"
    proof -
      have "sort ?ls \<noteq> []" using kvs(1) by (metis length_0_conv length_sort map_is_Nil_conv)
      from concat_newlines [OF this] have "length (concat (map (\<lambda>l. l @ [10 :: byte]) (sort ?ls))) = length (join_lines (sort ?ls)) + 1" by simp
      moreover have "length (concat (map (\<lambda>l. l @ [10 :: byte]) (sort ?ls))) = length (concat (lines fmt_f kvs))"
        by (simp add: length_concat comp_def image_mset.compositionality flip: sum_mset_sum_list)
      ultimately show "0 < tot" "length (join_lines (sort ?ls)) \<le> tot - 1" using loop(4) True by auto
    qed
    let ?m = "m(can \<mapsto> 0 # replicate (tot - 1) (junk L))"
    have w: "write_at (replicate tot (junk L)) 0 0 = Some (0 # replicate (tot - 1) (junk L))"
      using len(1) by (cases tot) (simp_all add: write_at_def)
    have pr: "\<forall>l \<in> set ?ls. prm_printable l" using kvs(2) printable_line by auto
    have "list_all2 (\<lambda>a s. \<exists>r. ?m a = Some (s @ 0 # r)) as ?ls"
    proof -
      have "list_all2 (\<lambda>a kv. \<exists>r. m a = Some (prm_line fmt_f kv @ 0 # r)) as kvs" using loop(4) True by blast
      then have "list_all2 (\<lambda>a kv. \<exists>r. ?m a = Some (prm_line fmt_f kv @ 0 # r)) as kvs"
        by (rule list.rel_mono_strong) (use as(1) in auto)
      then show ?thesis by (simp add: list_all2_map2)
    qed
    from qsort_sorts [OF this pr] obtain bs where bs: "qsort_strings ?m as = Some bs" "mset bs = mset as"
      "list_all2 (\<lambda>a s. \<exists>r. ?m a = Some (s @ 0 # r)) bs (sort ?ls)" by blast
    have "distinct bs" "set bs = set as" 
      using bs(2) loop(2) mset_eq_imp_distinct_iff [OF bs(2)] mset_eq_setD [OF bs(2)] by (simp_all add: added_def)
    with join_loop_joins [of can bs ?m "sort ?ls" "[]" "replicate (tot - 1) (junk L)"] bs(3) pr as(1) len(2)
    obtain r where r: "join_loop ?m can bs = Some ((?m |` (- set as))(can \<mapsto> join_lines (sort ?ls) @ 0 # r))" by auto
    have "(?m |` (- set as))(can \<mapsto> x) = (m |` (- set as))(can \<mapsto> x)" for x by (auto simp: restrict_map_def fun_eq_iff)
    moreover have "m |` (- set as) = js_mem st" using loop(2) by (simp add: added_def)
    ultimately have "form_canonical_prm L schar fmt_f st (Some a) =
        Some (Some can, st\<lparr>js_mem := (js_mem st)(can \<mapsto> canonical_text fmt_f kvs @ 0 # r)\<rparr>)"
      using loop(1) child True can w bs(1) r by (simp add: form_canonical_prm_def c_malloc_def canonical_text_def)
    with as(2) show ?thesis by blast
  qed
qed


section \<open>The two variants\<close>


definition prm_key :: "nat \<Rightarrow> property_t" where
  "prm_key b = \<lparr>p_value = Some b, p_flags = PROPERTY_JSON_TAG, p_size = 0\<rparr>"

definition prm_node :: "int JsonNode" where
  "prm_node = \<lparr>n_parent = None, n_prev = None, n_next = None, n_key = p_null, n_tag = JSON_OBJECT, n_bool = False, n_string = None,
     n_number = 0, n_head = Some 1, n_tail = Some 2\<rparr>"

definition prm_state :: "int jstate" where
  "prm_state = \<lparr>nodes = [0 \<mapsto> prm_node,
      1 \<mapsto> prm_node\<lparr>n_parent := Some 0, n_next := Some 2, n_key := prm_key 1, n_tag := JSON_BOOL, n_bool := True\<rparr>,
      2 \<mapsto> prm_node\<lparr>n_parent := Some 0, n_prev := Some 1, n_key := prm_key 2, n_tag := JSON_STRING, n_string := Some 3\<rparr>],
    js_mem = [1 \<mapsto> [98, 0], 2 \<mapsto> [65, 0], 3 \<mapsto> [120, 0]]\<rparr>"

definition prm_members :: "(bytes \<times> int json) list" where
  "prm_members = [([98], Bool True), ([65], Str [120])]"


end
