(* ===== verification/Sign.thy ===== *)
theory Sign
  imports Hmac Sha_Empty Canonical
begin

text \<open>
  Signatures: the keys and \<open>sign\<close> of \<open>src/arrow/sign.c\<close>, and \<open>gateway_payload_sign\<close> and \<open>arrow_event_sign\<close> of
  \<open>src/arrow/gateway_payload_sign.c\<close>. The reference definitions give the signature as a chain of keyed hashes of texts.

  The storage of the target (\<open>restore_key_setting\<close>) is a parameter; the chunks of \<open>data/chunk.h\<close> are arrays on the stack. An argument that is
  a string is the object it points to.
\<close>

section \<open>Keys\<close>

text \<open>The keys of the configuration, if there are any, and what the storage answers and leaves in the buffer.\<close>

record key_env =
  default_api_key :: "bytes option"
  default_secret_key :: "bytes option"
  restore_api :: "bytes \<Rightarrow> int \<times> bytes"
  restore_secret :: "bytes \<Rightarrow> int \<times> bytes"

text \<open>The two buffers, and whether \<open>api.key\<close> and \<open>secret.key\<close> point to them.\<close>

record key_state =
  api_key :: bytes
  secret_key :: bytes
  api_set :: bool
  secret_set :: bool

definition get_api_key :: "key_env \<Rightarrow> key_state \<Rightarrow> bytes option \<times> key_state" where
  "get_api_key E ks =
     (if api_set ks then (Some (api_key ks), ks)
      else case default_api_key E of
        Some k \<Rightarrow> (Some k, ks)
      | None \<Rightarrow> (case restore_api E (api_key ks) of (rc, b) \<Rightarrow>
          (if rc < 0 then None else Some b, ks\<lparr>api_key := b\<rparr>)))"

definition get_secret_key :: "key_env \<Rightarrow> key_state \<Rightarrow> bytes option \<times> key_state" where
  "get_secret_key E ks =
     (if secret_set ks then (Some (secret_key ks), ks)
      else case default_secret_key E of
        Some k \<Rightarrow> (Some k, ks)
      | None \<Rightarrow> (case restore_secret E (secret_key ks) of (rc, b) \<Rightarrow>
          (if rc < 0 then None else Some b, ks\<lparr>secret_key := b\<rparr>)))"

definition set_key :: "bytes \<Rightarrow> bytes \<Rightarrow> bytes option" where
  "set_key key newkey = do {
     s \<leftarrow> cstr newkey;
     key \<leftarrow> mem_write key 0 s;
     write_at key (length s) 0
   }"

definition set_api_key :: "key_state \<Rightarrow> bytes \<Rightarrow> key_state option" where
  "set_api_key ks newkey = do { b \<leftarrow> set_key (api_key ks) newkey; Some (ks\<lparr>api_key := b, api_set := True\<rparr>) }"

definition set_secret_key :: "key_state \<Rightarrow> bytes \<Rightarrow> key_state option" where
  "set_secret_key ks newkey = do { b \<leftarrow> set_key (secret_key ks) newkey; Some (ks\<lparr>secret_key := b, secret_set := True\<rparr>) }"

text \<open>A key and its length as two arguments of a call; a null pointer is undefined there.\<close>

definition key_arg :: "(key_state \<Rightarrow> bytes option \<times> key_state) \<Rightarrow> key_state \<Rightarrow> (bytes \<times> int \<times> key_state) option" where
  "key_arg get ks = (case get ks of (p, ks) \<Rightarrow> case get ks of (q, ks) \<Rightarrow> do {
     k \<leftarrow> p;
     k' \<leftarrow> q;
     s \<leftarrow> cstr k';
     Some (k, int (length s), ks)
   })"

section \<open>Signing\<close>

text \<open>What the locals hold before they are written: the contexts of the one-shot functions and the arrays.\<close>

record sign_frame =
  fr_sha :: Sha256
  fr_hmac :: Hmac
  fr_junk :: byte

record sign_state =
  sg_crypt :: crypt_state
  sg_keys :: key_state

definition sha_str :: "crypt_state \<Rightarrow> bytes \<Rightarrow> crypt_state option" where
  "sha_str cs obj = do { s \<leftarrow> cstr obj; sha256_chunk cs obj (int (length s)) }"

definition hmac_str :: "crypt_state \<Rightarrow> bytes \<Rightarrow> crypt_state option" where
  "hmac_str cs obj = do { s \<leftarrow> cstr obj; hmac256_chunk cs obj (int (length s)) }"

definition NL :: bytes where "NL = lit [CHR 0x0A] @ [0]"

definition null_hash :: bytes where
  "null_hash = lit ''e3b0c44298fc1c149afbf4c8996fb92427ae41e4649b934ca495991b7852b855'' @ [0]"

text \<open>The hash of the payload as text: the arrays \<open>hex_hash_payload\<close> and \<open>hash_payload\<close> after it is computed.\<close>

definition hash_payload :: "sign_frame \<Rightarrow> bytes option \<Rightarrow> bytes \<Rightarrow> bytes \<Rightarrow> (bytes \<times> bytes) option" where
  "hash_payload fr payload hex hash =
     (case payload of
        Some p \<Rightarrow> do {
          s \<leftarrow> cstr p;
          d \<leftarrow> sha256 (fr_sha fr) p (int (length s));
          hash \<leftarrow> mem_write hash 0 d;
          hex \<leftarrow> hex_encode hex hash 32;
          hex \<leftarrow> write_at hex 64 0;
          Some (hex, hash)
        }
      | None \<Rightarrow> do { hex \<leftarrow> mem_write hex 0 null_hash; Some (hex, hash) })"

text \<open>The first half of \<open>sign\<close>: the text of the hash of the request.\<close>

definition hash_request :: "sign_frame \<Rightarrow> crypt_state \<Rightarrow> blocks \<Rightarrow> property_t \<Rightarrow> bytes \<Rightarrow> bytes option \<Rightarrow> bytes option \<Rightarrow>
    (bytes \<times> crypt_state) option" where
  "hash_request fr cs m meth uri canQueryString payload = do {
     let cs = sha256_init cs;
     a \<leftarrow> p_value meth;
     obj \<leftarrow> m a;
     n \<leftarrow> property_size m meth;
     cs \<leftarrow> sha256_chunk cs obj (int n);
     cs \<leftarrow> sha256_chunk cs NL 1;
     cs \<leftarrow> sha_str cs uri;
     cs \<leftarrow> sha256_chunk cs NL 1;
     cs \<leftarrow> (case canQueryString of Some q \<Rightarrow> sha_str cs q | None \<Rightarrow> Some cs);
     (hex, hash) \<leftarrow> hash_payload fr payload (replicate 66 (fr_junk fr)) (replicate 34 (fr_junk fr));
     cs \<leftarrow> sha256_chunk cs hex 64;
     (d, cs) \<leftarrow> sha256_fin cs;
     hash \<leftarrow> mem_write hash 0 d;
     hex \<leftarrow> hex_encode hex hash 32;
     hex \<leftarrow> write_at hex 64 0;
     Some (hex, cs)
   }"

text \<open>One step of the chain: the keyed hash of the text in \<open>signKey\<close> (of \<open>n\<close> characters) replaces it.\<close>

definition key_step :: "sign_frame \<Rightarrow> bytes \<Rightarrow> int \<Rightarrow> bytes \<Rightarrow> int \<Rightarrow> bytes \<Rightarrow> (bytes \<times> bytes) option" where
  "key_step fr key len signKey n tmp = do {
     d \<leftarrow> hmac256 (fr_hmac fr) key len signKey n;
     tmp \<leftarrow> mem_write tmp 0 d;
     signKey \<leftarrow> hex_encode signKey tmp 32;
     Some (signKey, tmp)
   }"

text \<open>The second half: the keys of the chain and the keyed hash of the string to sign.\<close>

definition sign_text :: "key_env \<Rightarrow> sign_frame \<Rightarrow> crypt_state \<Rightarrow> key_state \<Rightarrow> bytes \<Rightarrow> bytes \<Rightarrow> bytes \<Rightarrow> bytes \<Rightarrow>
    (bytes \<times> crypt_state \<times> key_state) option" where
  "sign_text E fr cs ks signature hex timestamp apiVersion = do {
     (k, ks) \<leftarrow> (case get_secret_key E ks of (k, ks) \<Rightarrow> map_option (\<lambda>k. (k, ks)) k);
     s \<leftarrow> cstr k;
     signKey \<leftarrow> mem_write (replicate 128 (fr_junk fr)) 0 (s @ [0]);
     let tmp = replicate 128 (fr_junk fr);
     (k, n, ks) \<leftarrow> key_arg (get_api_key E) ks;
     s \<leftarrow> cstr signKey;
     (signKey, tmp) \<leftarrow> key_step fr k n signKey (int (length s)) tmp;
     ts \<leftarrow> cstr timestamp;
     (signKey, tmp) \<leftarrow> key_step fr timestamp (int (length ts)) signKey 64 tmp;
     v \<leftarrow> cstr apiVersion;
     (signKey, tmp) \<leftarrow> key_step fr apiVersion (int (length v)) signKey 64 tmp;
     cs \<leftarrow> hmac256_init cs signKey 64;
     cs \<leftarrow> hmac256_chunk cs hex 64;
     cs \<leftarrow> hmac256_chunk cs NL 1;
     (k, n, ks) \<leftarrow> key_arg (get_api_key E) ks;
     cs \<leftarrow> hmac256_chunk cs k n;
     cs \<leftarrow> hmac256_chunk cs NL 1;
     cs \<leftarrow> hmac_str cs timestamp;
     cs \<leftarrow> hmac256_chunk cs NL 1;
     cs \<leftarrow> hmac_str cs apiVersion;
     (d, cs) \<leftarrow> hmac256_fin cs;
     tmp \<leftarrow> mem_write tmp 0 d;
     signature \<leftarrow> hex_encode signature tmp 32;
     Some (signature, cs, ks)
   }"

definition sign :: "key_env \<Rightarrow> sign_frame \<Rightarrow> sign_state \<Rightarrow> blocks \<Rightarrow> bytes \<Rightarrow> bytes \<Rightarrow> property_t \<Rightarrow> bytes \<Rightarrow> bytes option \<Rightarrow> bytes option \<Rightarrow> bytes \<Rightarrow>
    (bytes \<times> sign_state) option" where
  "sign E fr st m signature timestamp meth uri canQueryString payload apiVersion = do {
     (hex, cs) \<leftarrow> hash_request fr (sg_crypt st) m meth uri canQueryString payload;
     (signature, cs, ks) \<leftarrow> sign_text E fr cs (sg_keys st) signature hex timestamp apiVersion;
     Some (signature, \<lparr>sg_crypt = cs, sg_keys = ks\<rparr>)
   }"

text \<open>The first part of \<open>gateway_payload_sign\<close>: the hash of the event in \<open>tmp\<close>, and as text in \<open>hex_canreq\<close>.\<close>

definition hash_event :: "sign_frame \<Rightarrow> crypt_state \<Rightarrow> bytes \<Rightarrow> bytes \<Rightarrow> int \<Rightarrow> bytes \<Rightarrow> (bytes \<times> bytes \<times> crypt_state) option" where
  "hash_event fr cs hid name encrypted canParString = do {
     let cs = sha256_init cs;
     cs \<leftarrow> sha_str cs hid;
     cs \<leftarrow> sha256_chunk cs NL 1;
     cs \<leftarrow> sha_str cs name;
     cs \<leftarrow> sha256_chunk cs NL 1;
     cs \<leftarrow> (if encrypted \<noteq> 0 then sha256_chunk cs (lit ''true'' @ NL) 5 else sha256_chunk cs (lit ''false'' @ NL) 6);
     cs \<leftarrow> sha_str cs canParString;
     cs \<leftarrow> sha256_chunk cs NL 1;
     (d, cs) \<leftarrow> sha256_fin cs;
     tmp \<leftarrow> mem_write (replicate 34 (fr_junk fr)) 0 d;
     hex_canreq \<leftarrow> hex_encode (replicate 66 (fr_junk fr)) tmp 32;
     hex_canreq \<leftarrow> write_at hex_canreq 64 0;
     Some (tmp, hex_canreq, cs)
   }"

text \<open>The signature of a message to the gateway.\<close>

definition gateway_payload_sign :: "key_env \<Rightarrow> sign_frame \<Rightarrow> sign_state \<Rightarrow> bytes \<Rightarrow> bytes \<Rightarrow> bytes \<Rightarrow> int \<Rightarrow> bytes \<Rightarrow> bytes \<Rightarrow>
    (int \<times> bytes \<times> sign_state) option" where
  "gateway_payload_sign E fr st signature hid name encrypted canParString signatureVersion = do {
     (tmp, hex_canreq, cs) \<leftarrow> hash_event fr (sg_crypt st) hid name encrypted canParString;
     (k, n, ks) \<leftarrow> key_arg (get_api_key E) (sg_keys st);
     (b, l, ks) \<leftarrow> key_arg (get_secret_key E) ks;
     d \<leftarrow> hmac256 (fr_hmac fr) k n b l;
     tmp \<leftarrow> mem_write tmp 0 d;
     hex_tmp \<leftarrow> hex_encode (replicate 66 (fr_junk fr)) tmp 32;
     hex_tmp \<leftarrow> write_at hex_tmp 64 0;
     tmp \<leftarrow> mem_write tmp 0 (replicate 34 0);
     v \<leftarrow> cstr signatureVersion;
     s \<leftarrow> cstr hex_tmp;
     (hex_tmp, tmp) \<leftarrow> key_step fr signatureVersion (int (length v)) hex_tmp (int (length s)) tmp;
     hex_tmp \<leftarrow> write_at hex_tmp 64 0;
     s \<leftarrow> cstr hex_tmp;
     cs \<leftarrow> hmac256_init cs hex_tmp (int (length s));
     cs \<leftarrow> hmac_str cs hex_canreq;
     cs \<leftarrow> hmac256_chunk cs NL 1;
     (k, n, ks) \<leftarrow> key_arg (get_api_key E) ks;
     cs \<leftarrow> hmac256_chunk cs k n;
     cs \<leftarrow> hmac256_chunk cs NL 1;
     cs \<leftarrow> hmac_str cs signatureVersion;
     (d, cs) \<leftarrow> hmac256_fin cs;
     tmp \<leftarrow> mem_write tmp 0 d;
     signature \<leftarrow> hex_encode signature tmp 32;
     signature \<leftarrow> write_at signature 64 0;
     Some (0, signature, \<lparr>sg_crypt = cs, sg_keys = ks\<rparr>)
   }"

text \<open>The signature of an event: the canonical text of its parameters is formed on the heap and freed again.\<close>

definition arrow_event_sign :: "libc \<Rightarrow> bool \<Rightarrow> ('d \<Rightarrow> bytes) \<Rightarrow> key_env \<Rightarrow> sign_frame \<Rightarrow> 'd jstate \<Rightarrow> sign_state \<Rightarrow> bytes \<Rightarrow> property_t \<Rightarrow> bytes \<Rightarrow> int \<Rightarrow> nat option \<Rightarrow>
    (int \<times> bytes \<times> 'd jstate \<times> sign_state) option" where
  "arrow_event_sign L schar fmt_f E fr js st signature ghid name encrypted parameters = do {
     (can, js) \<leftarrow> form_canonical_prm L schar fmt_f js parameters;
     case can of
       None \<Rightarrow> Some (-1, signature, js, st)
     | Some c \<Rightarrow> do {
         a \<leftarrow> p_value ghid;
         hid \<leftarrow> js_mem js a;
         text \<leftarrow> js_mem js c;
         (err, signature, st) \<leftarrow> gateway_payload_sign E fr st signature hid name encrypted text (lit ''1'' @ [0]);
         if err < 0 then Some (-1, signature, js, st)
         else do {
           m \<leftarrow> c_free (js_mem js) can;
           Some (0, signature, js\<lparr>js_mem := m\<rparr>, st)
         }
       }
   }"

section \<open>The reference\<close>

text \<open>The texts are joined by newlines; every key of the chain is the text of a keyed hash.\<close>

definition request_text :: "bytes \<Rightarrow> bytes \<Rightarrow> bytes \<Rightarrow> bytes \<Rightarrow> bytes" where
  "request_text meth uri query payload = meth @ [10] @ uri @ [10] @ query @ hex_text (sha256_ref payload)"

definition event_text :: "bytes \<Rightarrow> bytes \<Rightarrow> bool \<Rightarrow> bytes \<Rightarrow> bytes" where
  "event_text hid name enc params = hid @ [10] @ name @ [10] @ (if enc then lit ''true'' else lit ''false'') @ [10] @ params @ [10]"

fun chain_key :: "bytes \<Rightarrow> bytes list \<Rightarrow> bytes" where
  "chain_key k [] = k"
| "chain_key k (x # xs) = chain_key (hex_text (hmac_ref x k)) xs"

fun joined :: "bytes list \<Rightarrow> bytes" where
  "joined [] = []"
| "joined [x] = x"
| "joined (x # xs) = x @ [10] @ joined xs"

text \<open>The signature of a text: the secret key is chained with the API key and the other fields; the string to sign lists the hash of the text and the same fields.\<close>

definition signature_ref :: "bytes \<Rightarrow> bytes \<Rightarrow> bytes list \<Rightarrow> bytes \<Rightarrow> bytes" where
  "signature_ref api sec flds txt = hex_text (hmac_ref (chain_key sec (api # flds)) (joined (hex_text (sha256_ref txt) # api # flds)))"

section \<open>The keys\<close>

text \<open>The keys that the functions deliver, now and later: set, configured, or restored each time.\<close>

definition key_source :: "bool \<Rightarrow> bytes \<Rightarrow> bytes option \<Rightarrow> (bytes \<Rightarrow> int \<times> bytes) \<Rightarrow> nat \<Rightarrow> bytes \<Rightarrow> bool" where
  "key_source is_set buf dflt restore n key \<longleftrightarrow> 0 \<notin> set key \<and> length buf = n \<and>
     (if is_set then \<exists>r. buf = key @ 0 # r
      else case dflt of
        Some d \<Rightarrow> \<exists>r. d = key @ 0 # r
      | None \<Rightarrow> \<forall>b. length b = n \<longrightarrow> (\<exists>rc r. 0 \<le> rc \<and> restore b = (rc, key @ 0 # r) \<and> length (key @ 0 # r) = n))"

definition provides :: "key_env \<Rightarrow> key_state \<Rightarrow> bytes \<Rightarrow> bytes \<Rightarrow> bool" where
  "provides E ks api sec \<longleftrightarrow>
     key_source (api_set ks) (api_key ks) (default_api_key E) (restore_api E) 66 api \<and>
     key_source (secret_set ks) (secret_key ks) (default_secret_key E) (restore_secret E) 50 sec"

text \<open>Both functions read a key in the same way.\<close>

definition key_read :: "bool \<Rightarrow> bytes \<Rightarrow> bytes option \<Rightarrow> (bytes \<Rightarrow> int \<times> bytes) \<Rightarrow> bytes option \<times> bytes" where
  "key_read is_set buf dflt restore =
     (if is_set then (Some buf, buf)
      else case dflt of
        Some k \<Rightarrow> (Some k, buf)
      | None \<Rightarrow> (case restore buf of (rc, b) \<Rightarrow> (if rc < 0 then None else Some b, b)))"

lemma get_api_key_read:
  "get_api_key E ks = (case key_read (api_set ks) (api_key ks) (default_api_key E) (restore_api E) of (p, b) \<Rightarrow> (p, ks\<lparr>api_key := b\<rparr>))"
  by (simp add: get_api_key_def key_read_def split: option.split prod.split)

lemma get_secret_key_read:
  "get_secret_key E ks = (case key_read (secret_set ks) (secret_key ks) (default_secret_key E) (restore_secret E) of (p, b) \<Rightarrow> (p, ks\<lparr>secret_key := b\<rparr>))"
  by (simp add: get_secret_key_def key_read_def split: option.split prod.split)

lemma key_source_read:
  assumes src: "key_source is_set buf dflt restore n key"
  shows "\<exists>r b. key_read is_set buf dflt restore = (Some (key @ 0 # r), b) \<and> key_source is_set b dflt restore n key"
proof (cases "\<not> is_set \<and> dflt = None")
  case True
  with src obtain rc r where r: "0 \<le> rc" "restore buf = (rc, key @ 0 # r)" "length (key @ 0 # r) = n"
    unfolding key_source_def by fastforce
  then have "key_read is_set buf dflt restore = (Some (key @ 0 # r), key @ 0 # r)" using True by (simp add: key_read_def)
  moreover have "key_source is_set (key @ 0 # r) dflt restore n key" using src True r(3) by (simp add: key_source_def)
  ultimately show ?thesis by blast
next
  case False
  then have "key_read is_set buf dflt restore = (if is_set then Some buf else dflt, buf)" by (auto simp: key_read_def)
  moreover have "\<exists>r. (if is_set then Some buf else dflt) = Some (key @ 0 # r)" using src False by (cases is_set) (auto simp: key_source_def)
  ultimately show ?thesis using src by auto
qed

lemma get_api_key_provides:
  assumes "provides E ks api sec"
  shows "\<exists>r ks'. get_api_key E ks = (Some (api @ 0 # r), ks') \<and> provides E ks' api sec"
  using key_source_read [of "api_set ks" "api_key ks" "default_api_key E" "restore_api E" 66 api] assms
  by (auto simp: provides_def get_api_key_read)

lemma get_secret_key_provides:
  assumes "provides E ks api sec"
  shows "\<exists>r ks'. get_secret_key E ks = (Some (sec @ 0 # r), ks') \<and> provides E ks' api sec"
  using key_source_read [of "secret_set ks" "secret_key ks" "default_secret_key E" "restore_secret E" 50 sec] assms
  by (auto simp: provides_def get_secret_key_read)

lemma provides_no_zero: "provides E ks api sec \<Longrightarrow> 0 \<notin> set api \<and> 0 \<notin> set sec"
  by (simp add: provides_def key_source_def)

lemma api_arg_provides:
  assumes "provides E ks api sec"
  shows "returns (key_arg (get_api_key E) ks) (\<lambda>(k, n, ks'). (\<exists>r. k = api @ 0 # r) \<and> n = int (length api) \<and> provides E ks' api sec)"
proof -
  from get_api_key_provides [OF assms] obtain r k1 where 1: "get_api_key E ks = (Some (api @ 0 # r), k1)" "provides E k1 api sec" by blast
  from get_api_key_provides [OF 1(2)] obtain r' k2 where "get_api_key E k1 = (Some (api @ 0 # r'), k2)" "provides E k2 api sec" by blast
  then show ?thesis using 1(1) provides_no_zero [OF assms] by (auto simp: key_arg_def cstr_terminated)
qed

lemma secret_arg_provides:
  assumes "provides E ks api sec"
  shows "returns (key_arg (get_secret_key E) ks) (\<lambda>(k, n, ks'). (\<exists>r. k = sec @ 0 # r) \<and> n = int (length sec) \<and> provides E ks' api sec)"
proof -
  from get_secret_key_provides [OF assms] obtain r k1 where 1: "get_secret_key E ks = (Some (sec @ 0 # r), k1)" "provides E k1 api sec" by blast
  from get_secret_key_provides [OF 1(2)] obtain r' k2 where "get_secret_key E k1 = (Some (sec @ 0 # r'), k2)" "provides E k2 api sec" by blast
  then show ?thesis using 1(1) provides_no_zero [OF assms] by (auto simp: key_arg_def cstr_terminated)
qed

lemma set_key_writes:
  assumes "0 \<notin> set s"
  shows "set_key key (s @ 0 # r) = (if length s < length key then Some (s @ 0 # drop (length s + 1) key) else None)"
proof (cases "length s < length key")
  case True
  then obtain a b where k: "key = a @ b # drop (length s + 1) key" "length a = length s"
    by (metis append_take_drop_id Cons_nth_drop_Suc length_take min.absorb4 Suc_eq_plus1)
  have "mem_write key 0 s = Some (s @ b # drop (length s + 1) key)" by (subst k(1)) (use k(2) in \<open>simp add: mem_write_zero\<close>)
  then show ?thesis using True assms mem_write_at [of "[0]" "[b]" s "drop (length s + 1) key"]
    by (simp add: set_key_def cstr_terminated write_at_mem_write)
next
  case False
  then show ?thesis using assms
    by (auto simp: set_key_def cstr_terminated mem_write_def write_at_def)
qed

section \<open>Requests\<close>

text \<open>A text that a C string of less than 2 GB can hold.\<close>

definition c_text :: "bytes \<Rightarrow> bool" where
  "c_text s \<longleftrightarrow> 0 \<notin> set s \<and> length s < 2 ^ 31"

lemma hex_text_no_zero: "0 \<notin> set (hex_text bs)"
  by (induction bs) (simp_all add: hex2_value)

lemma hex_encode_digest:
  assumes "64 < length dst" and "length d = 32"
  shows "hex_encode dst (d @ r) 32 = Some (hex_text d @ 0 # drop 65 dst)"
  using hex_encode_writes [of 32 dst "d @ r"] assms by simp

lemma put_digest:
  assumes "32 \<le> length tmp" and "length d = 32"
  shows "mem_write tmp 0 d = Some (d @ drop 32 tmp)"
  using assms by (simp add: mem_write_zero)

lemma terminate_hex:
  assumes "length d = 32"
  shows "write_at (hex_text d @ 0 # r) 64 0 = Some (hex_text d @ 0 # r)"
  using mem_write_at [of "[0]" "[0]" "hex_text d" r] assms by (simp add: write_at_mem_write)

lemma sha_str_hashing:
  assumes "hashing cs m" and "c_text s" and "length m + length s < 2 ^ 61"
  shows "returns (sha_str cs (s @ 0 # r)) (\<lambda>cs'. hashing cs' (m @ s))"
  using sha256_chunk_hashing [OF assms(1) _ assms(3), of "0 # r"] assms(2) by (simp add: sha_str_def c_text_def cstr_terminated)

lemma sha_newline_hashing:
  assumes "hashing cs m" and "length m + 1 < 2 ^ 61"
  shows "returns (sha256_chunk cs NL 1) (\<lambda>cs'. hashing cs' (m @ [10]))"
  using sha256_chunk_hashing [OF assms(1), of "[10]" "[0]"] assms(2) by (simp add: NL_def lit_def)

lemma hash_payload_text:
  assumes "length (buffer (fr_sha fr)) = 64" and "length hex = 66" and "length hash = 34"
    and "case payload of Some p \<Rightarrow> c_text s \<and> (\<exists>r. p = s @ 0 # r) | None \<Rightarrow> s = []"
  shows "returns (hash_payload fr payload hex hash)
    (\<lambda>(hex', hash'). (\<exists>r. hex' = hex_text (sha256_ref s) @ 0 # r \<and> length r = 1) \<and> length hash' = 34)"
proof (cases payload)
  case None
  have n: "null_hash = hex_text (sha256_ref []) @ [0]" by (simp only: null_hash_def empty_hash)
  show ?thesis using assms None by (simp add: hash_payload_def mem_write_zero n)
next
  case (Some p)
  then obtain r where p: "p = s @ 0 # r" "0 \<notin> set s" "length s < 2 ^ 31" using assms(4) by (auto simp: c_text_def)
  then show ?thesis using Some assms(2,3) sha256_correct [OF assms(1) p(3), of "0 # r"]
    by (simp add: hash_payload_def cstr_terminated put_digest hex_encode_digest terminate_hex)
qed

lemma hash_request_text:
  assumes cs: "crypt_ok cs" and fr: "length (buffer (fr_sha fr)) = 64"
    and m: "p_value meth = Some a" "m a = Some (mt @ mr)" "property_size m meth = Some (length mt)" "length mt < 2 ^ 31"
    and texts: "c_text u" "case query of Some q \<Rightarrow> c_text qt \<and> (\<exists>r. q = qt @ 0 # r) | None \<Rightarrow> qt = []"
      "case payload of Some p \<Rightarrow> c_text s \<and> (\<exists>r. p = s @ 0 # r) | None \<Rightarrow> s = []"
  shows "returns (hash_request fr cs m meth (u @ 0 # ur) query payload)
    (\<lambda>(hex, cs'). (\<exists>r. hex = hex_text (sha256_ref (request_text mt u qt s)) @ 0 # r) \<and> crypt_ok cs')"
proof -
  have len: "length u < 2 ^ 31" "length qt < 2 ^ 31" using texts(1,2) by (auto simp: c_text_def split: option.splits)
  note h0 = sha256_init_hashing [OF cs]
  from sha256_chunk_hashing [OF h0 m(4), of mr] m(4) obtain c1 where
    c1: "sha256_chunk (sha256_init cs) (mt @ mr) (int (length mt)) = Some c1" "hashing c1 mt" by (auto elim: returnsE)
  from sha_newline_hashing [OF c1(2)] m(4) obtain c2 where c2: "sha256_chunk c1 NL 1 = Some c2" "hashing c2 (mt @ [10])" by (auto elim: returnsE)
  from sha_str_hashing [OF c2(2) texts(1), of ur] m(4) len obtain c3 where
    c3: "sha_str c2 (u @ 0 # ur) = Some c3" "hashing c3 (mt @ [10] @ u)" by (auto elim: returnsE)
  from sha_newline_hashing [OF c3(2)] m(4) len obtain c4 where
    c4: "sha256_chunk c3 NL 1 = Some c4" "hashing c4 (mt @ [10] @ u @ [10])" by (auto elim: returnsE)
  obtain c5 where c5: "(case query of Some q \<Rightarrow> sha_str c4 q | None \<Rightarrow> Some c4) = Some c5" "hashing c5 (mt @ [10] @ u @ [10] @ qt)"
  proof (cases query)
    case (Some q)
    with texts(2) obtain r where "c_text qt" "q = qt @ 0 # r" by auto
    with sha_str_hashing [OF c4(2), of qt r] m(4) len Some that show thesis by (auto elim: returnsE)
  qed (use c4(2) texts(2) that in simp)
  from hash_payload_text [OF fr _ _ texts(3), of "replicate 66 (fr_junk fr)" "replicate 34 (fr_junk fr)"] obtain r hash where
    p: "hash_payload fr payload (replicate 66 (fr_junk fr)) (replicate 34 (fr_junk fr)) = Some (hex_text (sha256_ref s) @ 0 # r, hash)"
      "length r = 1" "length hash = 34" by (auto elim!: returnsE)
  from sha256_chunk_hashing [OF c5(2), of "hex_text (sha256_ref s)" "0 # r"] m(4) len obtain c6 where
    c6: "sha256_chunk c5 (hex_text (sha256_ref s) @ 0 # r) 64 = Some c6" "hashing c6 (request_text mt u qt s)"
    by (auto simp: request_text_def elim: returnsE)
  have "length (request_text mt u qt s) < 2 ^ 61" using m(4) len by (simp add: request_text_def)
  from sha256_fin_hashing [OF c6(2) this] obtain c7 where
    c7: "sha256_fin c6 = Some (sha256_ref (request_text mt u qt s), c7)" "crypt_ok c7" by (auto elim!: returnsE)
  show ?thesis
    using c1(1) c2(1) c3(1) c4(1) c5(1) p c6(1) c7 m(1-3)
    by (simp add: hash_request_def put_digest hex_encode_digest terminate_hex)
qed

lemma key_step_chains:
  assumes "hmac_object (fr_hmac fr)" and "length key < 2 ^ 31" and "length k < 2 ^ 31" and "n = int (length key)" and "l = int (length k)"
    and "64 < length (k @ r)" and "32 \<le> length tmp"
  shows "returns (key_step fr (key @ q) n (k @ r) l tmp)
    (\<lambda>(k', t). (\<exists>r'. k' = hex_text (hmac_ref key k) @ 0 # r' \<and> length r' + 65 = length (k @ r)) \<and> length t = length tmp)"
  using hmac256_correct [OF assms(1-3), of q r] assms(4-7)
  by (simp add: key_step_def put_digest hex_encode_digest)

lemma hmac_str_keying:
  assumes "keying key cs m" and "c_text s" and "length m + length s < 2 ^ 61 - 64"
  shows "returns (hmac_str cs (s @ 0 # r)) (\<lambda>cs'. keying key cs' (m @ s))"
  using hmac256_chunk_keying [OF assms(1) _ assms(3), of "0 # r"] assms(2) by (simp add: hmac_str_def c_text_def cstr_terminated)

lemma hmac_newline_keying:
  assumes "keying key cs m" and "length m + 1 < 2 ^ 61 - 64"
  shows "returns (hmac256_chunk cs NL 1) (\<lambda>cs'. keying key cs' (m @ [10]))"
  using hmac256_chunk_keying [OF assms(1), of "[10]" "[0]"] assms(2) by (simp add: NL_def lit_def)

text \<open>A line of the string to sign: a newline and a field.\<close>

lemma hmac_line_keying:
  assumes "keying key cs m" and "c_text s" and "length m + length s + 1 < 2 ^ 61 - 64"
  shows "returns (do { cs \<leftarrow> hmac256_chunk cs NL 1; hmac_str cs (s @ 0 # r) }) (\<lambda>cs'. keying key cs' (m @ [10] @ s))"
proof (rule returns_bind)
  show "returns (hmac256_chunk cs NL 1) (\<lambda>cs'. keying key cs' (m @ [10]))" using assms by (intro hmac_newline_keying) auto
  show "returns (hmac_str cs' (s @ 0 # r)) (\<lambda>cs'. keying key cs' (m @ [10] @ s))" if "keying key cs' (m @ [10])" for cs'
    using hmac_str_keying [OF that assms(2), of r] assms(3) by simp
qed

text \<open>The line of the API key.\<close>

lemma hmac_api_line:
  assumes "provides E ks api sec" and "c_text api" and "keying key cs m" and "length m + length api + 1 < 2 ^ 61 - 64"
  shows "returns (do { cs \<leftarrow> hmac256_chunk cs NL 1; (k, n, ks) \<leftarrow> key_arg (get_api_key E) ks; cs \<leftarrow> hmac256_chunk cs k n; Some (cs, ks) })
    (\<lambda>(cs', ks'). keying key cs' (m @ [10] @ api) \<and> provides E ks' api sec)"
proof -
  from api_arg_provides [OF assms(1)] obtain r ks' where
    a: "key_arg (get_api_key E) ks = Some (api @ 0 # r, int (length api), ks')" "provides E ks' api sec" by (auto elim!: returnsE)
  from hmac_newline_keying [OF assms(3)] assms(4) obtain c1 where c1: "hmac256_chunk cs NL 1 = Some c1" "keying key c1 (m @ [10])" by (auto elim: returnsE)
  from hmac256_chunk_keying [OF c1(2), of api "0 # r"] assms(2,4) obtain c2 where
    "hmac256_chunk c1 (api @ 0 # r) (int (length api)) = Some c2" "keying key c2 (m @ [10] @ api)" by (auto simp: c_text_def elim: returnsE)
  with a c1 show ?thesis by simp
qed

lemma sign_text_correct:
  assumes cs: "crypt_ok cs" and fr: "hmac_object (fr_hmac fr)" and keys: "provides E ks api sec" and len: "length sec < 128" "length api < 2 ^ 31"
    and texts: "c_text ts" "c_text v" and sig: "64 < length signature"
  shows "returns (sign_text E fr cs ks signature (hex_text (sha256_ref x) @ 0 # hr) (ts @ 0 # tr) (v @ 0 # vr))
    (\<lambda>(sg, cs', ks'). sg = signature_ref api sec [ts, v] x @ 0 # drop 65 signature \<and> crypt_ok cs' \<and> provides E ks' api sec)"
proof -
  from get_secret_key_provides [OF keys] obtain r k1 where k1: "get_secret_key E ks = (Some (sec @ 0 # r), k1)" "provides E k1 api sec" by blast
  from api_arg_provides [OF k1(2)] obtain ar k2 where
    k2: "key_arg (get_api_key E) k1 = Some (api @ 0 # ar, int (length api), k2)" "provides E k2 api sec" by (auto elim!: returnsE)
  have z: "0 \<notin> set api" "0 \<notin> set sec" "0 \<notin> set ts" "0 \<notin> set v" "c_text api" "length ts < 2 ^ 31" "length v < 2 ^ 31"
    using provides_no_zero [OF keys] texts len by (auto simp: c_text_def)
  let ?j = "replicate 128 (fr_junk fr)"
  have sk: "mem_write ?j 0 (sec @ [0]) = Some (sec @ 0 # drop (length sec + 1) ?j)" using len by (simp add: mem_write_zero)
  from key_step_chains [OF fr len(2) _ refl refl, where k = sec and r = "0 # drop (length sec + 1) ?j" and tmp = ?j and q = "0 # ar"] len obtain r1 t1 where
    s1: "key_step fr (api @ 0 # ar) (int (length api)) (sec @ 0 # drop (length sec + 1) ?j) (int (length sec)) ?j =
        Some (chain_key sec [api] @ 0 # r1, t1)" "length r1 = 63" "length t1 = 128" by (auto elim!: returnsE)
  from key_step_chains [OF fr z(6) _ refl, where k = "chain_key sec [api]" and l = 64 and r = "0 # r1" and tmp = t1 and q = "0 # tr"] s1(2,3) obtain r2 t2 where
    s2: "key_step fr (ts @ 0 # tr) (int (length ts)) (chain_key sec [api] @ 0 # r1) 64 t1 =
        Some (chain_key sec [api, ts] @ 0 # r2, t2)" "length r2 = 63" "length t2 = 128" by (auto elim!: returnsE)
  define key where "key = chain_key sec [api, ts, v]"
  from key_step_chains [OF fr z(7) _ refl, where k = "chain_key sec [api, ts]" and l = 64 and r = "0 # r2" and tmp = t2 and q = "0 # vr"] s2(2,3) obtain r3 t3 where
    s3: "key_step fr (v @ 0 # vr) (int (length v)) (chain_key sec [api, ts] @ 0 # r2) 64 t2 = Some (key @ 0 # r3, t3)" "length t3 = 128"
    by (auto simp: key_def elim!: returnsE)
  have lk: "length key = 64" by (simp add: key_def)
  from hmac256_init_keying [OF cs, of key "0 # r3"] lk obtain c1 where c1: "hmac256_init cs (key @ 0 # r3) 64 = Some c1" "keying key c1 []" by (auto elim: returnsE)
  let ?h = "hex_text (sha256_ref x)"
  from hmac256_chunk_keying [OF c1(2), of ?h "0 # hr"] obtain c2 where c2: "hmac256_chunk c1 (?h @ 0 # hr) 64 = Some c2" "keying key c2 ?h" by (auto elim: returnsE)
  from hmac_api_line [OF k2(2) z(5) c2(2)] len obtain b3 kk nn c3 k3 where
    c3: "hmac256_chunk c2 NL 1 = Some b3" "key_arg (get_api_key E) k2 = Some (kk, nn, k3)" "hmac256_chunk b3 kk nn = Some c3"
      "keying key c3 (?h @ [10] @ api)" "provides E k3 api sec" by (auto simp: c_bind elim!: returnsE)
  from hmac_line_keying [OF c3(4) texts(1), of tr] len z(6) obtain b4 c4 where
    c4: "hmac256_chunk c3 NL 1 = Some b4" "hmac_str b4 (ts @ 0 # tr) = Some c4" "keying key c4 (?h @ [10] @ api @ [10] @ ts)" by (auto simp: c_bind elim!: returnsE)
  from hmac_line_keying [OF c4(3) texts(2), of vr] len z(6,7) obtain b5 c5 where
    c5: "hmac256_chunk c4 NL 1 = Some b5" "hmac_str b5 (v @ 0 # vr) = Some c5" "keying key c5 (joined [?h, api, ts, v])" by (auto simp: c_bind elim!: returnsE)
  have "length (joined [?h, api, ts, v]) < 2 ^ 61 - 64" using len z(6,7) by simp
  from hmac256_fin_keying [OF c5(3) this] obtain c6 where
    c6: "hmac256_fin c5 = Some (hmac_ref key (joined [?h, api, ts, v]), c6)" "crypt_ok c6" by (auto elim!: returnsE)
  have "cstr (sec @ 0 # y) = Some sec" "cstr (ts @ 0 # y) = Some ts" "cstr (v @ 0 # y) = Some v" for y using z by (simp_all add: cstr_terminated)
  then show ?thesis
    using k1(1) k2(1) sk s1(1) s2(1) s3 c1(1) c2(1) c3(1-3,5) c4(1,2) c5(1,2) c6 sig
    by (simp add: sign_text_def put_digest hex_encode_digest signature_ref_def key_def del: chain_key.simps joined.simps)
qed

text \<open>What the functions need: the objects of the contexts exist, and the keys are there and fit.\<close>

definition sign_ready :: "key_env \<Rightarrow> sign_frame \<Rightarrow> sign_state \<Rightarrow> bytes \<Rightarrow> bytes \<Rightarrow> bool" where
  "sign_ready E fr st api sec \<longleftrightarrow> length (buffer (fr_sha fr)) = 64 \<and> hmac_object (fr_hmac fr) \<and> crypt_ok (sg_crypt st) \<and>
     provides E (sg_keys st) api sec \<and> length api < 2 ^ 31 \<and> length sec < 128"

definition opt_text :: "bytes option \<Rightarrow> bytes \<Rightarrow> bool" where
  "opt_text p s \<longleftrightarrow> (case p of Some obj \<Rightarrow> c_text s \<and> (\<exists>r. obj = s @ 0 # r) | None \<Rightarrow> s = [])"

text \<open>C7. The signature of a request: for any method, path, query and payload (a missing query or payload counts as empty), \<open>sign\<close>
  writes the text of the keyed hash of the string to sign, under the key that chains the secret key with the API key, the time and the version;
  it changes only the first 65 bytes of the signature and leaves the contexts and keys ready for the next call.\<close>

theorem sign_correct:
  assumes "sign_ready E fr st api sec" and "p_value meth = Some a" and "m a = Some (mt @ mr)" and "property_size m meth = Some (length mt)"
    and "length mt < 2 ^ 31" and "c_text u" and "opt_text query q" and "opt_text payload s" and "c_text ts" and "c_text v" and "64 < length signature"
  shows "\<exists>st'. sign E fr st m signature (ts @ 0 # tr) meth (u @ 0 # ur) query payload (v @ 0 # vr) =
      Some (signature_ref api sec [ts, v] (request_text mt u q s) @ 0 # drop 65 signature, st') \<and> sign_ready E fr st' api sec"
proof -
  have r: "length (buffer (fr_sha fr)) = 64" "hmac_object (fr_hmac fr)" "crypt_ok (sg_crypt st)" "provides E (sg_keys st) api sec" "length sec < 128" "length api < 2 ^ 31"
    using assms(1) by (simp_all add: sign_ready_def)
  from hash_request_text [OF r(3,1) assms(2-6), where query = query and qt = q and payload = payload and s = s and ur = ur] assms(7,8) obtain hr cs where
    h: "hash_request fr (sg_crypt st) m meth (u @ 0 # ur) query payload = Some (hex_text (sha256_ref (request_text mt u q s)) @ 0 # hr, cs)" "crypt_ok cs"
    by (auto simp: opt_text_def elim!: returnsE)
  from sign_text_correct [OF h(2) r(2,4-6) assms(9-11), of "request_text mt u q s" hr tr vr] obtain cs' ks' where
    "sign_text E fr cs (sg_keys st) signature (hex_text (sha256_ref (request_text mt u q s)) @ 0 # hr) (ts @ 0 # tr) (v @ 0 # vr) =
      Some (signature_ref api sec [ts, v] (request_text mt u q s) @ 0 # drop 65 signature, cs', ks')" "crypt_ok cs'" "provides E ks' api sec"
    by (auto elim!: returnsE)
  with h(1) r show ?thesis by (simp add: sign_def sign_ready_def)
qed

definition sign_example_env :: key_env where
  "sign_example_env = \<lparr>default_api_key = None, default_secret_key = Some [115, 0], restore_api = (\<lambda>b. (0, 97 # 0 # drop 2 b)), restore_secret = (\<lambda>b. (-1, b))\<rparr>"

definition sign_example_frame :: sign_frame where
  "sign_example_frame = \<lparr>fr_sha = hm_hash hmac_stack, fr_hmac = hmac_stack, fr_junk = 7\<rparr>"

definition sign_example :: sign_state where
  "sign_example = \<lparr>sg_crypt = \<lparr>static_sh = hm_hash hmac_stack, static_hmac = hmac_stack\<rparr>,
     sg_keys = \<lparr>api_key = replicate 66 0, secret_key = replicate 50 0, api_set = False, secret_set = False\<rparr>\<rparr>"

lemma sign_example_ready: "sign_ready sign_example_env sign_example_frame sign_example [97] [115]"
  by (simp add: sign_ready_def sign_example_env_def sign_example_frame_def sign_example_def hmac_stack_def hmac_object_def crypt_ok_def provides_def key_source_def)

theorem sign_correct_witness:
  "\<exists>st'. sign sign_example_env sign_example_frame sign_example [1 \<mapsto> lit ''GET'' @ [0]] (replicate 70 0) (lit ''2018'' @ [0])
      \<lparr>p_value = Some 1, p_flags = 0, p_size = 0\<rparr> (lit ''/api'' @ [0]) None None (lit ''1'' @ [0]) =
      Some (signature_ref [97] [115] [lit ''2018'', lit ''1''] (lit ''GET'' @ [10] @ lit ''/api'' @ [10] @ hex_text (sha256_ref [])) @ replicate 6 0, st')"
proof -
  let ?p = "\<lparr>p_value = Some 1, p_flags = 0, p_size = 0\<rparr> :: property_t" and ?m = "[1 \<mapsto> lit ''GET'' @ [0]] :: blocks"
  have t: "c_text (lit ''/api'')" "c_text (lit ''2018'')" "c_text (lit ''1'')" by (simp_all add: c_text_def lit_def)
  have "property_size ?m ?p = Some (length (lit ''GET''))" by (simp add: property_size_def str_at_def lit_def cstr_def)
  from sign_correct [OF sign_example_ready _ _ this _ t(1) _ _ t(2,3), of 1 "[0]" None "[]" None "[]" "replicate 70 0" "[]" "[]" "[]"] show ?thesis
    by (auto simp: opt_text_def request_text_def lit_def replicate_Suc [symmetric] simp del: replicate_Suc)
qed

section \<open>Events\<close>

lemma hash_event_text:
  assumes cs: "crypt_ok cs" and texts: "c_text hid" "c_text name" "c_text prm"
  shows "returns (hash_event fr cs (hid @ 0 # hr) (name @ 0 # nr) enc (prm @ 0 # pr))
    (\<lambda>(tmp, hex, cs'). length tmp = 34 \<and> (\<exists>r. hex = hex_text (sha256_ref (event_text hid name (enc \<noteq> 0) prm)) @ 0 # r) \<and> crypt_ok cs')"
proof -
  have len: "length hid < 2 ^ 31" "length name < 2 ^ 31" "length prm < 2 ^ 31" using texts by (auto simp: c_text_def)
  define flag where "flag = (if enc \<noteq> 0 then lit ''true'' else lit ''false'') @ [10]"
  have lf: "length flag < 7" by (simp add: flag_def lit_def)
  have f: "(if enc \<noteq> 0 then sha256_chunk c (lit ''true'' @ NL) 5 else sha256_chunk c (lit ''false'' @ NL) 6) = sha256_chunk c (flag @ [0]) (int (length flag))" for c
    by (simp add: flag_def NL_def lit_def)
  from sha_str_hashing [OF sha256_init_hashing [OF cs] texts(1), of hr] len obtain c1 where
    c1: "sha_str (sha256_init cs) (hid @ 0 # hr) = Some c1" "hashing c1 hid" by (auto elim: returnsE)
  from sha_newline_hashing [OF c1(2)] len obtain c2 where c2: "sha256_chunk c1 NL 1 = Some c2" "hashing c2 (hid @ [10])" by (auto elim: returnsE)
  from sha_str_hashing [OF c2(2) texts(2), of nr] len obtain c3 where
    c3: "sha_str c2 (name @ 0 # nr) = Some c3" "hashing c3 (hid @ [10] @ name)" by (auto elim: returnsE)
  from sha_newline_hashing [OF c3(2)] len obtain c4 where c4: "sha256_chunk c3 NL 1 = Some c4" "hashing c4 (hid @ [10] @ name @ [10])" by (auto elim: returnsE)
  from sha256_chunk_hashing [OF c4(2), of flag "[0]"] len lf obtain c5 where
    c5: "sha256_chunk c4 (flag @ [0]) (int (length flag)) = Some c5" "hashing c5 (hid @ [10] @ name @ [10] @ flag)" by (auto elim: returnsE)
  from sha_str_hashing [OF c5(2) texts(3), of pr] len lf obtain c6 where
    c6: "sha_str c5 (prm @ 0 # pr) = Some c6" "hashing c6 (hid @ [10] @ name @ [10] @ flag @ prm)" by (auto elim: returnsE)
  from sha_newline_hashing [OF c6(2)] len lf obtain c7 where
    c7: "sha256_chunk c6 NL 1 = Some c7" "hashing c7 (event_text hid name (enc \<noteq> 0) prm)" by (auto simp: event_text_def flag_def elim: returnsE)
  have "length (event_text hid name (enc \<noteq> 0) prm) < 2 ^ 61" using len by (simp add: event_text_def lit_def)
  from sha256_fin_hashing [OF c7(2) this] obtain c8 where
    c8: "sha256_fin c7 = Some (sha256_ref (event_text hid name (enc \<noteq> 0) prm), c8)" "crypt_ok c8" by (auto elim!: returnsE)
  show ?thesis unfolding hash_event_def Let_def f using c1(1) c2(1) c3(1) c4(1) c5(1) c6(1) c7(1) c8
    by (simp add: put_digest hex_encode_digest terminate_hex)
qed

lemma gateway_payload_sign_correct:
  assumes ready: "sign_ready E fr st api sec" and texts: "c_text hid" "c_text name" "c_text prm" "c_text v" and sig: "64 < length signature"
  shows "\<exists>st'. gateway_payload_sign E fr st signature (hid @ 0 # hr) (name @ 0 # nr) enc (prm @ 0 # pr) (v @ 0 # vr) =
    Some (0, signature_ref api sec [v] (event_text hid name (enc \<noteq> 0) prm) @ 0 # drop 65 signature, st') \<and> sign_ready E fr st' api sec"
proof -
  have r: "hmac_object (fr_hmac fr)" "crypt_ok (sg_crypt st)" "provides E (sg_keys st) api sec" "length sec < 2 ^ 31" "length api < 2 ^ 31"
    using ready by (simp_all add: sign_ready_def)
  have z: "0 \<notin> set v" "c_text api" "length v < 2 ^ 31"
    using provides_no_zero [OF r(3)] texts r(5) by (auto simp: c_text_def)
  define x where "x = hex_text (sha256_ref (event_text hid name (enc \<noteq> 0) prm))"
  have x: "length x = 64" "c_text x" by (simp_all add: x_def c_text_def hex_text_no_zero)
  from hash_event_text [OF r(2) texts(1-3), of fr hr nr enc pr] obtain t1 xr c8 where
    h: "hash_event fr (sg_crypt st) (hid @ 0 # hr) (name @ 0 # nr) enc (prm @ 0 # pr) = Some (t1, x @ 0 # xr, c8)" "length t1 = 34" "crypt_ok c8"
    by (auto simp: x_def elim!: returnsE)
  from api_arg_provides [OF r(3)] obtain ar k1 where
    k1: "key_arg (get_api_key E) (sg_keys st) = Some (api @ 0 # ar, int (length api), k1)" "provides E k1 api sec" by (auto elim!: returnsE)
  from secret_arg_provides [OF k1(2)] obtain sr k2 where
    k2: "key_arg (get_secret_key E) k1 = Some (sec @ 0 # sr, int (length sec), k2)" "provides E k2 api sec" by (auto elim!: returnsE)
  note m1 = hmac256_correct [OF r(1,5,4), of "0 # ar" "0 # sr"]
  let ?j = "replicate 66 (fr_junk fr)" and ?k1 = "hex_text (hmac_ref api sec)"
  from key_step_chains [OF r(1) z(3) _ refl, where k = ?k1 and l = 64 and r = "0 # drop 65 ?j" and tmp = "replicate 34 0" and q = "0 # vr"] obtain r2 t2 where
    s2: "key_step fr (v @ 0 # vr) (int (length v)) (?k1 @ 0 # drop 65 ?j) 64 (replicate 34 0) = Some (chain_key sec [api, v] @ 0 # r2, t2)" "length t2 = 34"
    by (auto elim!: returnsE)
  define key where "key = chain_key sec [api, v]"
  have key: "length key = 64" "cstr (key @ 0 # r2) = Some key" "write_at (key @ 0 # r2) 64 0 = Some (key @ 0 # r2)"
    by (simp_all add: key_def cstr_terminated hex_text_no_zero terminate_hex)
  from hmac256_init_keying [OF h(3), of key "0 # r2"] key(1) obtain d1 where d1: "hmac256_init c8 (key @ 0 # r2) 64 = Some d1" "keying key d1 []" by (auto elim: returnsE)
  from hmac_str_keying [OF d1(2) x(2), of xr] x(1) obtain d2 where d2: "hmac_str d1 (x @ 0 # xr) = Some d2" "keying key d2 x" by (auto elim: returnsE)
  from hmac_api_line [OF k2(2) z(2) d2(2)] r(5) x(1) obtain b3 kk nn d3 k3 where
    d3: "hmac256_chunk d2 NL 1 = Some b3" "key_arg (get_api_key E) k2 = Some (kk, nn, k3)" "hmac256_chunk b3 kk nn = Some d3"
      "keying key d3 (x @ [10] @ api)" "provides E k3 api sec" by (auto simp: c_bind elim!: returnsE)
  from hmac_line_keying [OF d3(4) texts(4), of vr] r(5) z(3) x(1) obtain b4 d4 where
    d4: "hmac256_chunk d3 NL 1 = Some b4" "hmac_str b4 (v @ 0 # vr) = Some d4" "keying key d4 (joined [x, api, v])" by (auto simp: c_bind elim!: returnsE)
  have "length (joined [x, api, v]) < 2 ^ 61 - 64" using r(5) z(3) x(1) by simp
  from hmac256_fin_keying [OF d4(3) this] obtain d5 where
    d5: "hmac256_fin d4 = Some (hmac_ref key (joined [x, api, v]), d5)" "crypt_ok d5" by (auto elim!: returnsE)
  have "mem_write (hmac_ref api sec @ drop 32 t1) 0 (replicate 34 0) = Some (replicate 34 0)" using h(2) by (simp add: mem_write_zero)
  then have "gateway_payload_sign E fr st signature (hid @ 0 # hr) (name @ 0 # nr) enc (prm @ 0 # pr) (v @ 0 # vr) =
      Some (0, signature_ref api sec [v] (event_text hid name (enc \<noteq> 0) prm) @ 0 # drop 65 signature, \<lparr>sg_crypt = d5, sg_keys = k3\<rparr>)"
    using h(1,2) k1(1) k2(1) m1 s2 key d1(1) d2(1) d3(1-3) d4(1,2) d5(1) z(1) sig
    by (simp add: gateway_payload_sign_def put_digest hex_encode_digest terminate_hex cstr_terminated hex_text_no_zero signature_ref_def
        del: chain_key.simps joined.simps flip: key_def x_def)
  then show ?thesis using ready d3(5) d5(2) by (simp add: sign_ready_def)
qed

text \<open>The text does not depend on the order of the members.\<close>

lemma canonical_text_order: "mset kvs' = mset kvs \<Longrightarrow> canonical_text fmt_f kvs' = canonical_text fmt_f kvs"
  unfolding canonical_text_def by (metis mset_map properties_for_sort sorted_sort mset_sort)

lemma canonical_text_no_zero:
  assumes "\<forall>kv \<in> set kvs. simple_param fmt_f kv"
  shows "0 \<notin> set (canonical_text fmt_f kvs)"
  unfolding canonical_text_def by (rule join_lines_no_zero) (use assms printable_line in auto)

lemma arrow_event_sign_correct:
  assumes "sign_ready E fr st api sec" and "libc_ok L" and "jrep js par prv nxt (JT a k LObj cs)" and "jabs (js_mem js) (JT a k LObj cs) (Obj kvs)"
    and "kvs \<noteq> []" and "\<forall>kv \<in> set kvs. simple_param fmt_f kv" and "length kvs \<le> MAX_PARAM_LINE" and "length (canonical_text fmt_f kvs) < 2 ^ 31"
    and "p_value ghid = Some g" and "js_mem js g = Some (hid @ 0 # hr)" and "c_text hid" and "c_text name" and "64 < length signature"
  shows "arrow_event_sign L schar fmt_f E fr js st signature ghid (name @ 0 # nr) enc (Some a) = Some (-1, signature, js, st) \<and> may_fail L (js_mem js) \<or>
    (\<exists>st'. arrow_event_sign L schar fmt_f E fr js st signature ghid (name @ 0 # nr) enc (Some a) =
       Some (0, signature_ref api sec [lit ''1''] (event_text hid name (enc \<noteq> 0) (canonical_text fmt_f kvs)) @ 0 # drop 65 signature, js, st') \<and>
       sign_ready E fr st' api sec)"
proof -
  have c: "c_text (canonical_text fmt_f kvs)" "c_text (lit ''1'')"
    using canonical_text_no_zero [OF assms(6)] assms(8) by (simp_all add: c_text_def lit_def)
  consider "form_canonical_prm L schar fmt_f js (Some a) = Some (None, js)" "may_fail L (js_mem js)"
    | can r where "can \<notin> dom (js_mem js)" "form_canonical_prm L schar fmt_f js (Some a) =
        Some (Some can, js\<lparr>js_mem := (js_mem js)(can \<mapsto> canonical_text fmt_f kvs @ 0 # r)\<rparr>)"
    using heap_form_text [OF assms(2-7), of schar] by blast
  then show ?thesis
  proof cases
    case 1
    then show ?thesis by (simp add: arrow_event_sign_def)
  next
    case (2 can r)
    from gateway_payload_sign_correct [OF assms(1,11,12) c(1,2) assms(13), of hr nr enc r "[]"] obtain st' where
      s: "gateway_payload_sign E fr st signature (hid @ 0 # hr) (name @ 0 # nr) enc (canonical_text fmt_f kvs @ 0 # r) (lit ''1'' @ [0]) =
        Some (0, signature_ref api sec [lit ''1''] (event_text hid name (enc \<noteq> 0) (canonical_text fmt_f kvs)) @ 0 # drop 65 signature, st')"
        "sign_ready E fr st' api sec" by auto
    have "g \<noteq> can" "(js_mem js)(can := None) = js_mem js" using 2(1) assms(10) by (auto simp: fun_eq_iff domIff)
    then show ?thesis using 2(2) s assms(9,10) by (simp add: arrow_event_sign_def c_free_def)
  qed
qed

text \<open>C6. The signature of an event: for an object of simple parameters, \<open>arrow_event_sign\<close> either finds no memory (which needs an
  allocator that can fail), and then nothing has changed, or it writes the signature of the text made of the gateway, the name of the event, the flag and the canonical
  text of the parameters, under the key that chains the secret key with the API key and the version; the memory is as before the call, and
  the signature does not depend on the order of the parameters.\<close>

theorem event_signature:
  assumes "sign_ready E fr st api sec" and "libc_ok L" and "jrep js par prv nxt (JT a k LObj cs)" and "jabs (js_mem js) (JT a k LObj cs) (Obj kvs)"
    and "kvs \<noteq> []" and "\<forall>kv \<in> set kvs. simple_param fmt_f kv" and "length kvs \<le> MAX_PARAM_LINE" and "length (canonical_text fmt_f kvs) < 2 ^ 31"
    and "p_value ghid = Some g" and "js_mem js g = Some (hid @ 0 # hr)" and "c_text hid" and "c_text name" and "64 < length signature"
    and "mset kvs' = mset kvs"
  shows "arrow_event_sign L schar fmt_f E fr js st signature ghid (name @ 0 # nr) enc (Some a) = Some (-1, signature, js, st) \<and> may_fail L (js_mem js) \<or>
    (\<exists>st'. arrow_event_sign L schar fmt_f E fr js st signature ghid (name @ 0 # nr) enc (Some a) =
       Some (0, signature_ref api sec [lit ''1''] (event_text hid name (enc \<noteq> 0) (canonical_text fmt_f kvs')) @ 0 # drop 65 signature, js, st') \<and>
       sign_ready E fr st' api sec)"
  using arrow_event_sign_correct [OF assms(1-13)] canonical_text_order [OF assms(14), of fmt_f] by simp

theorem event_signature_witness:
  "arrow_event_sign libc_example True (\<lambda>d. [48]) sign_example_env sign_example_frame (prm_state\<lparr>js_mem := (js_mem prm_state)(4 \<mapsto> [104, 0])\<rparr>) sign_example
     (replicate 65 0) \<lparr>p_value = Some 4, p_flags = 0, p_size = 0\<rparr> [110, 0] 1 (Some 0) =
     Some (-1, replicate 65 0, prm_state\<lparr>js_mem := (js_mem prm_state)(4 \<mapsto> [104, 0])\<rparr>, sign_example) \<or>
   (\<exists>st'. arrow_event_sign libc_example True (\<lambda>d. [48]) sign_example_env sign_example_frame (prm_state\<lparr>js_mem := (js_mem prm_state)(4 \<mapsto> [104, 0])\<rparr>) sign_example
     (replicate 65 0) \<lparr>p_value = Some 4, p_flags = 0, p_size = 0\<rparr> [110, 0] 1 (Some 0) =
     Some (0, signature_ref [97] [115] [lit ''1''] (event_text [104] [110] True (canonical_text (\<lambda>d. [48]) (rev prm_members))) @ [0],
       prm_state\<lparr>js_mem := (js_mem prm_state)(4 \<mapsto> [104, 0])\<rparr>, st'))"
proof -
  let ?js = "prm_state\<lparr>js_mem := (js_mem prm_state)(4 \<mapsto> [104, 0])\<rparr>" and ?T = "JT 0 p_null LObj [JT 1 (prm_key 1) (LBool True) [], JT 2 (prm_key 2) (LStr 3) []]"
  have rep: "jrep ?js None None None ?T"
    by (simp add: prm_state_def prm_node_def node_ok_def is_container_def firstp_def lastp_def)
  have abs: "jabs (js_mem ?js) ?T (Obj prm_members)"
    by (simp add: prm_state_def prm_members_def prm_key_def str_at_def cstr_def)
  have s: "prm_members \<noteq> []" "\<forall>kv \<in> set prm_members. simple_param (\<lambda>d. [48]) kv" "length prm_members \<le> MAX_PARAM_LINE"
    "length (canonical_text (\<lambda>d. [48]) prm_members) < 2 ^ 31"
    by (simp_all add: prm_members_def MAX_PARAM_LINE_def canonical_text_def prm_line_def lower_def prm_true_def)
  have t: "c_text [104]" "c_text [110]" by (simp_all add: c_text_def)
  show ?thesis
    using event_signature [OF sign_example_ready libc_example_ok rep abs s, of "\<lparr>p_value = Some 4, p_flags = 0, p_size = 0\<rparr>" 4 "[104]" "[]" "[110]" "replicate 65 0" "rev prm_members" True "[]" 1] t
    by auto
qed

text \<open>Setting a key: a key that fits its buffer is the one that is delivered from then on, before any configured or stored
  key; a longer key is written past the end of the buffer.\<close>

theorem set_keys_correct:
  assumes "length (api_key ks) = 66" and "length (secret_key ks) = 50" and "0 \<notin> set api" and "0 \<notin> set sec"
  shows "if length api < 66 \<and> length sec < 50
    then \<exists>k1 k2. set_api_key ks (api @ 0 # r) = Some k1 \<and> set_secret_key k1 (sec @ 0 # q) = Some k2 \<and> provides E k2 api sec
    else set_api_key ks (api @ 0 # r) = None \<or> (\<exists>k1. set_api_key ks (api @ 0 # r) = Some k1 \<and> set_secret_key k1 (sec @ 0 # q) = None)"
  using assms by (auto simp: set_api_key_def set_secret_key_def set_key_writes provides_def key_source_def)

theorem set_keys_correct_witness:
  "\<exists>k1 k2. set_api_key (sg_keys sign_example) ([65] @ [0]) = Some k1 \<and> set_secret_key k1 ([66] @ [0]) = Some k2 \<and> provides sign_example_env k2 [65] [66]"
  using set_keys_correct [of "sg_keys sign_example" "[65]" "[66]" "[]" "[]" sign_example_env] by (simp add: sign_example_def)

end
