(* ===== verification/Json_Decode.thy ===== *)
theory Json_Decode
  imports Json_Parse Json_Tree Linked_List
begin

text \<open>
  The parser that is fed in parts: \<open>src/json/decode.c\<close>. A machine reads one value; for the elements of an array or the
  members of an object it appends a further machine to the list that starts with the machine of the caller, and bytes go to the last machine. A function
  pointer is a value of \<open>jpm_fn\<close>.

  The machines are objects of a heap of their own, with their links in a second one as in \<open>Linked_List\<close>; the address of a new machine is a
  parameter. A function gets the address of its machine and the byte.
\<close>

section \<open>Data\<close>

datatype jpm_fn = jpm_value_init | jpm_value_end | jpm_key_init | jpm_key_body | jpm_key_end | jpm_string_body | jpm_string_escape | jpm_number_body
  | jpm_bool_false_a | jpm_bool_false_l | jpm_bool_false_s | jpm_bool_false_e | jpm_bool_true_r | jpm_bool_true_u | jpm_bool_true_e

record json_parse_machine_t =
  jm_p :: "nat option"
  jm_complete :: "32 word"
  jm_process_byte :: "jpm_fn option"
  jm_buffer :: SB
  jm_key :: property_t
  jm_root :: "nat option"

record 'd decoder =
  dc_js :: "'d jstate"
  dc_m :: "nat \<rightharpoonup> json_parse_machine_t"
  dc_next :: "nat lheap"

record 'd dec_env =
  de_json :: "'d json_env"
  de_alloc :: "(nat \<rightharpoonup> json_parse_machine_t) \<Rightarrow> nat option"

definition upd_m :: "'d decoder \<Rightarrow> nat \<Rightarrow> (json_parse_machine_t \<Rightarrow> json_parse_machine_t) \<Rightarrow> 'd decoder option" where
  "upd_m d a f = do { m \<leftarrow> dc_m d a; Some (d\<lparr>dc_m := (dc_m d)(a \<mapsto> f m)\<rparr>) }"

abbreviation set_mem :: "'d decoder \<Rightarrow> blocks \<Rightarrow> 'd decoder" where
  "set_mem d m \<equiv> d\<lparr>dc_js := (dc_js d)\<lparr>js_mem := m\<rparr>\<rparr>"

abbreviation goto :: "jpm_fn \<Rightarrow> json_parse_machine_t \<Rightarrow> json_parse_machine_t" where
  "goto f m \<equiv> m\<lparr>jm_process_byte := Some f\<rparr>"

section \<open>Machines\<close>

definition machine_init :: json_parse_machine_t where
  "machine_init = \<lparr>jm_p = None, jm_complete = 0, jm_process_byte = Some jpm_value_init, jm_buffer = sb_null, jm_key = p_null, jm_root = None\<rparr>"

text \<open>The old contents do not matter, but the object has to be there.\<close>

definition json_parse_machine_init :: "'d decoder \<Rightarrow> nat \<Rightarrow> 'd decoder option" where
  "json_parse_machine_init d jpm = do {
     _ \<leftarrow> dc_m d jpm;
     _ \<leftarrow> dc_next d jpm;
     Some (d\<lparr>dc_m := (dc_m d)(jpm \<mapsto> machine_init), dc_next := (dc_next d)(jpm \<mapsto> None)\<rparr>)
   }"

definition json_parse_machine_fin :: "'d dec_env \<Rightarrow> 'd decoder \<Rightarrow> nat \<Rightarrow> 'd decoder option" where
  "json_parse_machine_fin V d jpm = do {
     m \<leftarrow> dc_m d jpm;
     sz \<leftarrow> sb_size (jm_buffer m);
     (b, mem) \<leftarrow> (if sz \<noteq> 0 then sb_free (js_mem (dc_js d)) (jm_buffer m) else Some (jm_buffer m, js_mem (dc_js d)));
     (mem, key) \<leftarrow> (if p_value (jm_key m) \<noteq> None then property_free (e_disp (de_json V)) mem (jm_key m) else Some (mem, jm_key m));
     upd_m (set_mem d mem) jpm (\<lambda>m. m\<lparr>jm_buffer := b, jm_key := key, jm_process_byte := None, jm_p := None, jm_root := None\<rparr>)
   }"

text \<open>A new machine at the end of the list, with the given first state; \<open>malloc\<close> is not checked.\<close>

definition new_machine :: "'d dec_env \<Rightarrow> 'd decoder \<Rightarrow> nat \<Rightarrow> jpm_fn \<Rightarrow> (nat \<times> 'd decoder) option" where
  "new_machine V d jpm f = do {
     a \<leftarrow> de_alloc V (dc_m d);
     d \<leftarrow> json_parse_machine_init (d\<lparr>dc_m := (dc_m d)(a \<mapsto> machine_init), dc_next := (dc_next d)(a \<mapsto> None)\<rparr>) a;
     (root, h) \<leftarrow> arrow_linked_list_add (dc_next d) (Some jpm) a;
     d \<leftarrow> upd_m (d\<lparr>dc_next := h\<rparr>) a (goto f);
     Some (a, d)
   }"

section \<open>Values\<close>

definition put_byte :: "'d dec_env \<Rightarrow> 'd decoder \<Rightarrow> nat \<Rightarrow> byte \<Rightarrow> (int \<times> 'd decoder) option" where
  "put_byte V d jpm c = do {
     m \<leftarrow> dc_m d jpm;
     (b, mem) \<leftarrow> sb_putc (e_libc (de_json V)) (js_mem (dc_js d)) (jm_buffer m) c;
     d \<leftarrow> upd_m (set_mem d mem) jpm (\<lambda>m. m\<lparr>jm_buffer := b\<rparr>);
     Some (if sb_is_valid b = 0 then -1 else 0, d)
   }"

definition expect_char :: "'d decoder \<Rightarrow> nat \<Rightarrow> byte \<Rightarrow> byte \<Rightarrow> jpm_fn \<Rightarrow> (int \<times> 'd decoder) option" where
  "expect_char d jpm c want nxt = (if c = want then do { d \<leftarrow> upd_m d jpm (goto nxt); Some (0, d) } else Some (-1, d))"

text \<open>The new node becomes the root of the machine; a null pointer ends the step.\<close>

definition set_root :: "'d decoder \<Rightarrow> nat \<Rightarrow> nat option \<times> 'd jstate \<Rightarrow> (bool \<times> 'd decoder) option" where
  "set_root d jpm r = (case r of (root, js) \<Rightarrow> do {
     d \<leftarrow> upd_m (d\<lparr>dc_js := js\<rparr>) jpm (\<lambda>m. m\<lparr>jm_root := root\<rparr>);
     Some (root \<noteq> None, d)
   })"

definition bool_e :: "'d dec_env \<Rightarrow> 'd decoder \<Rightarrow> nat \<Rightarrow> byte \<Rightarrow> bool \<Rightarrow> (int \<times> 'd decoder) option" where
  "bool_e V d jpm c b =
     (if c = 101 then do {
        (ok, d) \<leftarrow> set_root d jpm (json_mkbool (de_json V) (dc_js d) b);
        if \<not> ok then Some (-1, d) else do { d \<leftarrow> upd_m d jpm (goto jpm_value_end); Some (0, d) }
      }
      else Some (-1, d))"

definition string_escape :: "'d dec_env \<Rightarrow> 'd decoder \<Rightarrow> nat \<Rightarrow> byte \<Rightarrow> (int \<times> 'd decoder) option" where
  "string_escape V d jpm c = do {
     (r, d) \<leftarrow> put_byte V d jpm (if c = 110 then 10 else if c = 116 then 9 else c);
     if r < 0 then Some (-1, d) else do { d \<leftarrow> upd_m d jpm (goto jpm_string_body); Some (0, d) }
   }"

definition free_buffer :: "'d decoder \<Rightarrow> nat \<Rightarrow> 'd decoder option" where
  "free_buffer d jpm = do {
     m \<leftarrow> dc_m d jpm;
     (b, mem) \<leftarrow> sb_free (js_mem (dc_js d)) (jm_buffer m);
     upd_m (set_mem d mem) jpm (\<lambda>m. m\<lparr>jm_buffer := b\<rparr>)
   }"

definition string_body :: "'d dec_env \<Rightarrow> 'd decoder \<Rightarrow> nat \<Rightarrow> byte \<Rightarrow> (int \<times> 'd decoder) option" where
  "string_body V d jpm c =
     (if c = 92 then do { d \<leftarrow> upd_m d jpm (goto jpm_string_escape); Some (0, d) }
      else if c = 34 then do {
        m \<leftarrow> dc_m d jpm;
        sz \<leftarrow> sb_size (jm_buffer m);
        if sz \<le> 0 then Some (-1, d)
        else do {
          (str, mem) \<leftarrow> sb_finish (js_mem (dc_js d)) (jm_buffer m);
          r \<leftarrow> json_mkstring (de_json V) ((dc_js d)\<lparr>js_mem := mem\<rparr>) str;
          (ok, d) \<leftarrow> set_root d jpm r;
          if \<not> ok then Some (-1, d)
          else do {
            d \<leftarrow> upd_m d jpm (goto jpm_value_end);
            d \<leftarrow> free_buffer d jpm;
            Some (0, d)
          }
        }
      }
      else put_byte V d jpm c)"

section \<open>The end of a value\<close>

definition is_array_context :: "'d decoder \<Rightarrow> nat \<Rightarrow> bool option" where
  "is_array_context d jpm = do {
     m \<leftarrow> dc_m d jpm;
     p \<leftarrow> jm_p m;
     pm \<leftarrow> dc_m d p;
     n \<leftarrow> get_node (dc_js d) (jm_root pm);
     Some (n_tag n = JSON_ARRAY)
   }"

definition jpm_append_to_parent :: "'d dec_env \<Rightarrow> 'd decoder \<Rightarrow> nat \<Rightarrow> (int \<times> 'd decoder) option" where
  "jpm_append_to_parent V d jpm = do {
     m \<leftarrow> dc_m d jpm;
     case jm_p m of
       None \<Rightarrow> Some (-1, d)
     | Some p \<Rightarrow> do {
         pm \<leftarrow> dc_m d p;
         arr \<leftarrow> is_array_context d jpm;
         js \<leftarrow> (if arr then json_append_element (dc_js d) (jm_root pm) (jm_root m)
              else json_append_member (de_json V) (dc_js d) (jm_root pm) (jm_key m) (jm_root m));
         Some (0, d\<lparr>dc_js := js\<rparr>)
       }
   }"

definition value_end :: "'d dec_env \<Rightarrow> 'd decoder \<Rightarrow> nat \<Rightarrow> byte \<Rightarrow> (int \<times> 'd decoder) option" where
  "value_end V d jpm c =
     (if is_space c then Some (0, d)
      else if c = 125 then do {
        d \<leftarrow> upd_m d jpm (\<lambda>m. m\<lparr>jm_complete := 1\<rparr>);
        (r, d) \<leftarrow> jpm_append_to_parent V d jpm;
        if r < 0 then Some (-1, d)
        else do { d \<leftarrow> upd_m d jpm (\<lambda>m. m\<lparr>jm_key := p_null, jm_buffer := sb_clear (jm_buffer m), jm_root := None\<rparr>); Some (0, d) }
      }
      else if c = 93 then do {
        d \<leftarrow> upd_m d jpm (\<lambda>m. m\<lparr>jm_complete := 1\<rparr>);
        (r, d) \<leftarrow> jpm_append_to_parent V d jpm;
        if r < 0 then Some (-1, d)
        else do { d \<leftarrow> upd_m d jpm (\<lambda>m. m\<lparr>jm_root := None, jm_key := p_null, jm_buffer := sb_clear (jm_buffer m), jm_process_byte := None\<rparr>); Some (0, d) }
      }
      else if c = 44 then do {
        (r, d) \<leftarrow> jpm_append_to_parent V d jpm;
        if r < 0 then Some (-1, d)
        else do {
          m \<leftarrow> dc_m d jpm;
          d \<leftarrow> json_parse_machine_init d jpm;
          d \<leftarrow> upd_m d jpm (\<lambda>n. n\<lparr>jm_buffer := sb_clear (jm_buffer n), jm_p := jm_p m\<rparr>);
          arr \<leftarrow> is_array_context d jpm;
          d \<leftarrow> upd_m d jpm (goto (if arr then jpm_value_init else jpm_key_init));
          Some (0, d)
        }
      }
      else Some (-1, d))"

definition number_body :: "'d dec_env \<Rightarrow> 'd decoder \<Rightarrow> nat \<Rightarrow> byte \<Rightarrow> (int \<times> 'd decoder) option" where
  "number_body V d jpm c =
     (if is_digit c \<or> c = 46 then put_byte V d jpm c
      else do {
        m \<leftarrow> dc_m d jpm;
        sz \<leftarrow> sb_size (jm_buffer m);
        if sz \<le> 0 then Some (-1, d)
        else do {
          (str, mem) \<leftarrow> sb_finish (js_mem (dc_js d)) (jm_buffer m);
          s \<leftarrow> str_at mem str;
          (ok, d) \<leftarrow> set_root d jpm (json_mknumber (de_json V) ((dc_js d)\<lparr>js_mem := mem\<rparr>) (fp_strtod (e_fpu (de_json V)) s));
          if \<not> ok then Some (-1, d)
          else do {
            d \<leftarrow> upd_m d jpm (goto jpm_value_end);
            d \<leftarrow> free_buffer d jpm;
            value_end V d jpm c
          }
        }
      })"

section \<open>The start of a value\<close>

definition open_container :: "'d dec_env \<Rightarrow> 'd decoder \<Rightarrow> nat \<Rightarrow> jpm_fn \<Rightarrow> ('d jstate \<Rightarrow> nat option \<times> 'd jstate) \<Rightarrow> (int \<times> 'd decoder) option" where
  "open_container V d jpm f mk = do {
     (a, d) \<leftarrow> new_machine V d jpm f;
     (ok, d) \<leftarrow> set_root d jpm (mk (dc_js d));
     if \<not> ok then Some (-1, d)
     else do {
       d \<leftarrow> upd_m d a (\<lambda>m. m\<lparr>jm_p := Some jpm\<rparr>);
       d \<leftarrow> upd_m d jpm (goto jpm_value_end);
       Some (0, d)
     }
   }"

definition start_buffer :: "'d dec_env \<Rightarrow> 'd decoder \<Rightarrow> nat \<Rightarrow> (int \<times> 'd decoder) option" where
  "start_buffer V d jpm = do {
     m \<leftarrow> dc_m d jpm;
     case sb_init (e_libc (de_json V)) (js_mem (dc_js d)) (jm_buffer m) of (r, b, mem) \<Rightarrow> do {
       d \<leftarrow> upd_m (set_mem d mem) jpm (\<lambda>m. m\<lparr>jm_buffer := b\<rparr>);
       Some (r, d)
     }
   }"

definition value_init :: "'d dec_env \<Rightarrow> 'd decoder \<Rightarrow> nat \<Rightarrow> byte \<Rightarrow> (int \<times> 'd decoder) option" where
  "value_init V d jpm c =
     (if is_space c then Some (0, d)
      else if c = 123 then open_container V d jpm jpm_key_init (json_mkobject (de_json V))
      else if c = 34 then do {
        (r, d) \<leftarrow> start_buffer V d jpm;
        if r < 0 then Some (-1, d) else do { d \<leftarrow> upd_m d jpm (goto jpm_string_body); Some (0, d) }
      }
      else if c = 102 then do { d \<leftarrow> upd_m d jpm (goto jpm_bool_false_a); Some (0, d) }
      else if c = 116 then do { d \<leftarrow> upd_m d jpm (goto jpm_bool_true_r); Some (0, d) }
      else if c = 91 then open_container V d jpm jpm_value_init (json_mkarray (de_json V))
      else do {
        (r, d) \<leftarrow> start_buffer V d jpm;
        if r < 0 then Some (-1, d)
        else do { d \<leftarrow> upd_m d jpm (goto jpm_number_body); number_body V d jpm c }
      })"

section \<open>Keys\<close>

definition key_init :: "'d dec_env \<Rightarrow> 'd decoder \<Rightarrow> nat \<Rightarrow> byte \<Rightarrow> (int \<times> 'd decoder) option" where
  "key_init V d jpm c =
     (if is_space c then Some (0, d)
      else if c = 34 then do {
        (r, d) \<leftarrow> start_buffer V d jpm;
        if r < 0 then Some (-1, d) else do { d \<leftarrow> upd_m d jpm (goto jpm_key_body); Some (0, d) }
      }
      else Some (-1, d))"

definition key_end :: "'d decoder \<Rightarrow> nat \<Rightarrow> byte \<Rightarrow> (int \<times> 'd decoder) option" where
  "key_end d jpm c =
     (if is_space c then Some (0, d)
      else if c = 58 then do { d \<leftarrow> upd_m d jpm (goto jpm_value_init); Some (0, d) }
      else Some (-1, d))"

definition key_body :: "'d dec_env \<Rightarrow> 'd decoder \<Rightarrow> nat \<Rightarrow> byte \<Rightarrow> (int \<times> 'd decoder) option" where
  "key_body V d jpm c =
     (if c = 34 then do {
        m \<leftarrow> dc_m d jpm;
        sz \<leftarrow> sb_size (jm_buffer m);
        if sz \<le> 0 then Some (-1, d)
        else do {
          (str, mem) \<leftarrow> sb_finish (js_mem (dc_js d)) (jm_buffer m);
          key \<leftarrow> p_json mem str;
          (mem, k, key) \<leftarrow> property_move (e_libc (de_json V)) (e_disp (de_json V)) mem (jm_key m) key;
          (mem, _) \<leftarrow> property_free (e_disp (de_json V)) mem key;
          d \<leftarrow> upd_m (set_mem d mem) jpm (\<lambda>m. m\<lparr>jm_key := k, jm_buffer := sb_clear (jm_buffer m), jm_process_byte := Some jpm_key_end\<rparr>);
          Some (0, d)
        }
      }
      else put_byte V d jpm c)"

section \<open>Bytes\<close>

text \<open>The call of \<open>process_byte\<close>.\<close>

fun process_byte :: "jpm_fn \<Rightarrow> 'd dec_env \<Rightarrow> 'd decoder \<Rightarrow> nat \<Rightarrow> byte \<Rightarrow> (int \<times> 'd decoder) option" where
  "process_byte jpm_value_init V d jpm c = value_init V d jpm c"
| "process_byte jpm_value_end V d jpm c = value_end V d jpm c"
| "process_byte jpm_key_init V d jpm c = key_init V d jpm c"
| "process_byte jpm_key_body V d jpm c = key_body V d jpm c"
| "process_byte jpm_key_end V d jpm c = key_end d jpm c"
| "process_byte jpm_string_body V d jpm c = string_body V d jpm c"
| "process_byte jpm_string_escape V d jpm c = string_escape V d jpm c"
| "process_byte jpm_number_body V d jpm c = number_body V d jpm c"
| "process_byte jpm_bool_false_a V d jpm c = expect_char d jpm c 97 jpm_bool_false_l"
| "process_byte jpm_bool_false_l V d jpm c = expect_char d jpm c 108 jpm_bool_false_s"
| "process_byte jpm_bool_false_s V d jpm c = expect_char d jpm c 115 jpm_bool_false_e"
| "process_byte jpm_bool_false_e V d jpm c = bool_e V d jpm c False"
| "process_byte jpm_bool_true_r V d jpm c = expect_char d jpm c 114 jpm_bool_true_u"
| "process_byte jpm_bool_true_u V d jpm c = expect_char d jpm c 117 jpm_bool_true_e"
| "process_byte jpm_bool_true_e V d jpm c = bool_e V d jpm c True"

partial_function (option) json_parse_machine_process :: "'d dec_env \<Rightarrow> 'd decoder \<Rightarrow> nat \<Rightarrow> byte \<Rightarrow> (int \<times> 'd decoder) option" where
  "json_parse_machine_process V d jpm c = do {
     nxt \<leftarrow> dc_next d jpm;
     case nxt of
       Some a \<Rightarrow> do {
         n \<leftarrow> dc_m d a;
         if jm_complete n \<noteq> 0
         then do {
           (root, h) \<leftarrow> arrow_linked_list_del (dc_next d) (Some jpm) a;
           d \<leftarrow> json_parse_machine_fin V (d\<lparr>dc_next := h\<rparr>) a;
           jpm \<leftarrow> root;
           json_parse_machine_process V (d\<lparr>dc_m := (dc_m d)(a := None), dc_next := (dc_next d)(a := None)\<rparr>) jpm c
         }
         else json_parse_machine_process V d a c
       }
     | None \<Rightarrow> do {
         m \<leftarrow> dc_m d jpm;
         case jm_process_byte m of Some f \<Rightarrow> process_byte f V d jpm c | None \<Rightarrow> Some (-1, d)
       }
   }"

definition json_decode_init :: "'d decoder \<Rightarrow> nat \<Rightarrow> 'd decoder option" where
  "json_decode_init d sm = json_parse_machine_init d sm"

text \<open>The loop over the bytes of a part; the result is the size or -1.\<close>

fun bytes_loop :: "'d dec_env \<Rightarrow> 'd decoder \<Rightarrow> nat \<Rightarrow> bytes \<Rightarrow> (bool \<times> 'd decoder) option" where
  "bytes_loop V d sm [] = Some (True, d)"
| "bytes_loop V d sm (c # s) = do {
     (r, d) \<leftarrow> json_parse_machine_process V d sm c;
     if r < 0 then Some (False, d) else bytes_loop V d sm s
   }"

definition json_decode_part :: "'d dec_env \<Rightarrow> 'd decoder \<Rightarrow> nat \<Rightarrow> bytes \<Rightarrow> (int \<times> 'd decoder) option" where
  "json_decode_part V d sm json = do {
     (ok, d) \<leftarrow> bytes_loop V d sm json;
     Some (if ok then int (length json) else -1, d)
   }"

partial_function (option) fin_loop :: "'d dec_env \<Rightarrow> 'd decoder \<Rightarrow> nat option \<Rightarrow> 'd decoder option" where
  "fin_loop V d p =
     (case p of
        None \<Rightarrow> Some d
      | Some a \<Rightarrow> do {
          nxt \<leftarrow> dc_next d a;
          d \<leftarrow> json_parse_machine_fin V d a;
          fin_loop V (d\<lparr>dc_m := (dc_m d)(a := None), dc_next := (dc_next d)(a := None)\<rparr>) nxt
        })"

definition json_decode_finish :: "'d dec_env \<Rightarrow> 'd decoder \<Rightarrow> nat \<Rightarrow> (nat option \<times> 'd decoder) option" where
  "json_decode_finish V d sm = do {
     m \<leftarrow> dc_m d sm;
     nxt \<leftarrow> dc_next d sm;
     d \<leftarrow> fin_loop V d nxt;
     d \<leftarrow> json_parse_machine_fin V d sm;
     Some (jm_root m, d)
   }"

end
