(* ===== verification/Events.thy ===== *)
theory Events
  imports Sign Http_Request Json_Decode
begin

text \<open>
  Events from the cloud: \<open>src/arrow/events.c\<close> (without \<open>STATIC_MQTT_ENV\<close>, \<open>STATIC_ACN\<close> and \<open>ARROW_THREAD\<close>). A decoded message becomes an event of the
  queue when its fields are there and its signature, if it has one, is right. The functions compose the JSON tree, the
  signatures and the linked list; all of them share the memory of \<open>jstate\<close>.

  A message is fed in parts to the decoder of \<open>Json_Decode\<close>. The processors of events are a parameter.
\<close>

section \<open>Data\<close>

record mqtt_event_base_t =
  ev_id :: property_t
  ev_name :: property_t
  ev_encrypted :: int
  ev_parameters :: "nat option"

record mqtt_event_t =
  ev_device_hid :: property_t
  ev_base :: mqtt_event_base_t

text \<open>The memory of the tree and of strings, the state of the signatures, the objects of events, the links of the queue and its first element.\<close>

record 'd ev_state =
  es_js :: "'d jstate"
  es_sign :: sign_state
  es_events :: "nat \<rightharpoonup> mqtt_event_t"
  es_next :: "nat lheap"
  es_queue :: "nat option"

text \<open>The parameters: the JSON library, keys, the contents of locals, the signedness of \<open>char\<close>, \<open>snprintf\<close> with \<open>%f\<close>, the addresses of string literals, of new events, of
  the static machine \<open>sm\<close> and of new machines, and \<open>ARROW_MAX_MQTT_COMMANDS\<close>.\<close>

record 'd ev_env =
  ve_json :: "'d json_env"
  ve_keys :: key_env
  ve_frame :: sign_frame
  ve_schar :: bool
  ve_fmt_f :: "'d \<Rightarrow> bytes"
  ve_lit :: "string \<Rightarrow> nat"
  ve_alloc :: "'d ev_state \<Rightarrow> nat option"
  ve_sm :: nat
  ve_machine :: "(nat \<rightharpoonup> json_parse_machine_t) \<Rightarrow> nat option"
  ve_max :: "int option"

section \<open>Events\<close>

definition mqtt_event_base_init :: mqtt_event_base_t where
  "mqtt_event_base_init = \<lparr>ev_id = p_null, ev_name = p_null, ev_encrypted = 0, ev_parameters = None\<rparr>"

text \<open>\<open>fuel\<close> bounds the depth of the deletion of the parameters.\<close>

definition mqtt_event_base_free :: "nat \<Rightarrow> 'd ev_env \<Rightarrow> 'd jstate \<Rightarrow> mqtt_event_base_t \<Rightarrow> 'd jstate option" where
  "mqtt_event_base_free fuel V js mq = do {
     (m, _) \<leftarrow> property_free (e_disp (ve_json V)) (js_mem js) (ev_id mq);
     (m, _) \<leftarrow> property_free (e_disp (ve_json V)) m (ev_name mq);
     let js = js\<lparr>js_mem := m\<rparr>;
     if ev_parameters mq \<noteq> None then json_delete fuel (ve_json V) js (ev_parameters mq) else Some js
   }"

definition mqtt_event_init :: mqtt_event_t where
  "mqtt_event_init = \<lparr>ev_device_hid = p_null, ev_base = mqtt_event_base_init\<rparr>"

definition mqtt_event_free :: "nat \<Rightarrow> 'd ev_env \<Rightarrow> 'd jstate \<Rightarrow> mqtt_event_t \<Rightarrow> 'd jstate option" where
  "mqtt_event_free fuel V js mq = do {
     js \<leftarrow> mqtt_event_base_free fuel V js (ev_base mq);
     (m, _) \<leftarrow> property_free (e_disp (ve_json V)) (js_mem js) (ev_device_hid mq);
     Some (js\<lparr>js_mem := m\<rparr>)
   }"

section \<open>Signatures\<close>

text \<open>The string of a node; the member of the union is only read when it is the one that was written.\<close>

definition node_text :: "'d jstate \<Rightarrow> nat option \<Rightarrow> bytes option" where
  "node_text js p = do {
     n \<leftarrow> get_node js p;
     if n_tag n = JSON_STRING then do { a \<leftarrow> n_string n; js_mem js a } else None
   }"

definition check_sign_1 :: "'d ev_env \<Rightarrow> 'd jstate \<Rightarrow> sign_state \<Rightarrow> bytes \<Rightarrow> property_t \<Rightarrow> property_t \<Rightarrow> int \<Rightarrow> nat option \<Rightarrow>
    (int \<times> 'd jstate \<times> sign_state) option" where
  "check_sign_1 V js sg sing hid name encrypted parameters = do {
     a \<leftarrow> p_value name;
     nm \<leftarrow> js_mem js a;
     (err, signature, js, sg) \<leftarrow> arrow_event_sign (e_libc (ve_json V)) (ve_schar V) (ve_fmt_f V) (ve_keys V) (ve_frame V) js sg
       (replicate 65 0) hid nm encrypted parameters;
     if err = 0 then do { r \<leftarrow> c_strcmp sing signature; Some (if r = 0 then 0 else -1, js, sg) }
     else Some (-1, js, sg)
   }"

text \<open>The collection of checkers has one entry.\<close>

definition check_signature :: "'d ev_env \<Rightarrow> 'd jstate \<Rightarrow> sign_state \<Rightarrow> bytes \<Rightarrow> bytes \<Rightarrow> mqtt_event_base_t \<Rightarrow>
    (int \<times> 'd jstate \<times> sign_state) option" where
  "check_signature V js sg vers sing ev = do {
     r \<leftarrow> c_strcmp vers (lit ''1'' @ [0]);
     if r = 0 then check_sign_1 V js sg sing (ev_id ev) (ev_name ev) (ev_encrypted ev) (ev_parameters ev)
     else Some (-1, js, sg)
   }"

section \<open>From a tree to an event\<close>

text \<open>\<open>json_find_member(node, p_const(name))\<close>.\<close>

definition find_const :: "'d ev_env \<Rightarrow> 'd jstate \<Rightarrow> nat option \<Rightarrow> string \<Rightarrow> nat option option" where
  "find_const V js node name = do {
     p \<leftarrow> p_const (js_mem js) (Some (ve_lit V name));
     json_find_member js node p
   }"

text \<open>\<open>fill_string_from_json(node, p_const(name), &p)\<close>.\<close>

definition fill_const :: "'d ev_env \<Rightarrow> 'd jstate \<Rightarrow> nat option \<Rightarrow> string \<Rightarrow> property_t \<Rightarrow> (int \<times> property_t \<times> 'd jstate) option" where
  "fill_const V js node name p = do {
     n \<leftarrow> p_const (js_mem js) (Some (ve_lit V name));
     fill_string_from_json (ve_json V) js node n p
   }"

definition node_bool :: "'d jstate \<Rightarrow> nat option \<Rightarrow> bool option" where
  "node_bool js p = do { n \<leftarrow> get_node js p; if n_tag n = JSON_BOOL then Some (n_bool n) else None }"

definition get_event_base :: "'d ev_env \<Rightarrow> 'd jstate \<Rightarrow> mqtt_event_base_t \<Rightarrow> nat option \<Rightarrow> string \<Rightarrow> string \<Rightarrow>
    (int \<times> mqtt_event_base_t \<times> 'd jstate) option" where
  "get_event_base V js base main idn name = do {
     (r, p, js) \<leftarrow> fill_const V js main idn (ev_id base);
     let base = base\<lparr>ev_id := p\<rparr>;
     if r < 0 then Some (-1, base, js)
     else do {
       (r, p, js) \<leftarrow> fill_const V js main name (ev_name base);
       let base = base\<lparr>ev_name := p\<rparr>;
       if r < 0 then Some (-1, base, js)
       else do {
         enc \<leftarrow> find_const V js main ''encrypted'';
         if enc = None then Some (-1, base, js)
         else do {
           b \<leftarrow> node_bool js enc;
           let base = base\<lparr>ev_encrypted := (if b then 1 else 0)\<rparr>;
           prm \<leftarrow> find_const V js main ''parameters'';
           if prm = None then Some (-1, base, js)
           else do {
             js \<leftarrow> json_remove_from_parent (ve_json V) js prm;
             Some (0, base\<lparr>ev_parameters := prm\<rparr>, js)
           }
         }
       }
     }
   }"

definition mqtt_event_sign_checker :: "'d ev_env \<Rightarrow> 'd jstate \<Rightarrow> sign_state \<Rightarrow> nat option \<Rightarrow> mqtt_event_base_t \<Rightarrow>
    (int \<times> 'd jstate \<times> sign_state) option" where
  "mqtt_event_sign_checker V js sg main base = do {
     sign_version \<leftarrow> find_const V js main ''signatureVersion'';
     if sign_version = None then Some (0, js, sg)
     else do {
       sign \<leftarrow> find_const V js main ''signature'';
       if sign = None then Some (-1, js, sg)
       else do {
         v \<leftarrow> node_text js sign_version;
         s \<leftarrow> node_text js sign;
         (r, js, sg) \<leftarrow> check_signature V js sg v s base;
         Some (if r < 0 then -1 else 0, js, sg)
       }
     }
   }"

text \<open>\<open>process_event_finish\<close> from the tree that the decoder has returned; \<open>fuel\<close> bounds the depth of deletions.\<close>

definition finish_event :: "nat \<Rightarrow> 'd ev_env \<Rightarrow> 'd ev_state \<Rightarrow> nat option \<Rightarrow> (int \<times> 'd ev_state) option" where
  "finish_event fuel V st main =
     (if main = None then Some (-1, st)
      else case ve_alloc V st of
        None \<Rightarrow> do { js \<leftarrow> json_delete fuel (ve_json V) (es_js st) main; Some (-1, st\<lparr>es_js := js\<rparr>) }
      | Some el \<Rightarrow> do {
          (ret, base, js) \<leftarrow> get_event_base V (es_js st) (ev_base mqtt_event_init) main ''hid'' ''name'';
          (ret, js, sg) \<leftarrow> (if ret < 0 then Some (-1, js, es_sign st) else mqtt_event_sign_checker V js (es_sign st) main base);
          let e = mqtt_event_init\<lparr>ev_base := base\<rparr>;
          let st = st\<lparr>es_js := js, es_sign := sg\<rparr>;
          st \<leftarrow> (if ret < 0 then do { js \<leftarrow> mqtt_event_free fuel V js e; Some (st\<lparr>es_js := js\<rparr>) }
                else do {
                  (root, h) \<leftarrow> arrow_linked_list_add ((es_next st)(el \<mapsto> None)) (es_queue st) el;
                  Some (st\<lparr>es_events := (es_events st)(el \<mapsto> e), es_next := h, es_queue := root\<rparr>)
                });
          js \<leftarrow> json_delete fuel (ve_json V) (es_js st) main;
          Some (if ret < 0 then -1 else 0, st\<lparr>es_js := js\<rparr>)
        })"

section \<open>The queue\<close>

partial_function (option) count_events :: "nat lheap \<Rightarrow> nat option \<Rightarrow> int \<Rightarrow> int option" where
  "count_events h p n = (case p of None \<Rightarrow> Some n | Some a \<Rightarrow> do { q \<leftarrow> h a; count_events h q (n + 1) })"

definition arrow_mqtt_has_events :: "'d ev_state \<Rightarrow> int option" where
  "arrow_mqtt_has_events st = (if es_queue st = None then Some 0 else count_events (es_next st) (es_queue st) 0)"

section \<open>Messages in parts\<close>

record 'd ev_sys =
  sy_st :: "'d ev_state"
  sy_m :: "nat \<rightharpoonup> json_parse_machine_t"
  sy_next :: "nat lheap"

definition decoder_of :: "'d ev_sys \<Rightarrow> 'd decoder" where
  "decoder_of sys = \<lparr>dc_js = es_js (sy_st sys), dc_m = sy_m sys, dc_next = sy_next sys\<rparr>"

definition put_decoder :: "'d ev_sys \<Rightarrow> 'd decoder \<Rightarrow> 'd ev_sys" where
  "put_decoder sys d = \<lparr>sy_st = (sy_st sys)\<lparr>es_js := dc_js d\<rparr>, sy_m = dc_m d, sy_next = dc_next d\<rparr>"

definition dec_env_of :: "'d ev_env \<Rightarrow> 'd dec_env" where
  "dec_env_of V = \<lparr>de_json = ve_json V, de_alloc = ve_machine V\<rparr>"

definition process_event_init :: "'d ev_env \<Rightarrow> 'd ev_sys \<Rightarrow> (int \<times> 'd ev_sys) option" where
  "process_event_init V sys = do {
     full \<leftarrow> (case ve_max V of None \<Rightarrow> Some False | Some n \<Rightarrow> map_option (\<lambda>k. n \<le> k) (arrow_mqtt_has_events (sy_st sys)));
     if full then Some (-1, sys)
     else do { d \<leftarrow> json_decode_init (decoder_of sys) (ve_sm V); Some (0, put_decoder sys d) }
   }"

definition process_event :: "nat \<Rightarrow> 'd ev_env \<Rightarrow> 'd ev_sys \<Rightarrow> bytes \<Rightarrow> (int \<times> 'd ev_sys) option" where
  "process_event fuel V sys str = do {
     (r, d) \<leftarrow> json_decode_part (dec_env_of V) (decoder_of sys) (ve_sm V) str;
     if r \<noteq> int (length str)
     then do {
       (root, d) \<leftarrow> json_decode_finish (dec_env_of V) d (ve_sm V);
       js \<leftarrow> (if root \<noteq> None then json_delete fuel (ve_json V) (dc_js d) root else Some (dc_js d));
       Some (-1, put_decoder sys (d\<lparr>dc_js := js\<rparr>))
     }
     else Some (0, put_decoder sys d)
   }"

definition process_event_finish :: "nat \<Rightarrow> 'd ev_env \<Rightarrow> 'd ev_sys \<Rightarrow> (int \<times> 'd ev_sys) option" where
  "process_event_finish fuel V sys = do {
     (main, d) \<leftarrow> json_decode_finish (dec_env_of V) (decoder_of sys) (ve_sm V);
     (r, st) \<leftarrow> finish_event fuel V ((sy_st sys)\<lparr>es_js := dc_js d\<rparr>) main;
     Some (r, \<lparr>sy_st = st, sy_m = dc_m d, sy_next = dc_next d\<rparr>)
   }"

text \<open>The calls that the MQTT client makes for one message whose payload it can read to the end: the parts are processed whatever the result of the earlier ones.\<close>

fun process_parts :: "nat \<Rightarrow> 'd ev_env \<Rightarrow> 'd ev_sys \<Rightarrow> bytes list \<Rightarrow> 'd ev_sys option" where
  "process_parts fuel V sys [] = Some sys"
| "process_parts fuel V sys (s # ss) = do { (_, sys) \<leftarrow> process_event fuel V sys s; process_parts fuel V sys ss }"

definition deliver_event :: "nat \<Rightarrow> 'd ev_env \<Rightarrow> 'd ev_sys \<Rightarrow> bytes list \<Rightarrow> (int \<times> 'd ev_sys) option" where
  "deliver_event fuel V sys ss = do {
     (msg_err, sys) \<leftarrow> process_event_init V sys;
     if msg_err = 0 then do { sys \<leftarrow> process_parts fuel V sys ss; process_event_finish fuel V sys }
     else Some (msg_err, sys)
   }"

section \<open>Processing\<close>

definition sub_list :: "string list" where
  "sub_list = [''ServerToGateway_DeviceCommand'', ''SendCommand'', ''ServerToGateway_DeviceStateRequest'',
     ''ServerToGateway_GatewaySoftwareUpdate'', ''ServerToGateway_DeviceSoftwareRelease'', ''ServerToGateway_GatewaySoftwareRelease'']"

text \<open>The index of the last entry with the name.\<close>

fun find_processor :: "nat \<Rightarrow> string list \<Rightarrow> bytes \<Rightarrow> nat option \<Rightarrow> nat option option" where
  "find_processor i [] name cur = Some cur"
| "find_processor i (x # xs) name cur = do {
     r \<leftarrow> c_strcmp (lit x @ [0]) name;
     find_processor (i + 1) xs name (if r = 0 then Some i else cur)
   }"

text \<open>\<open>proc i\<close> is the processor of the \<open>i\<close>-th entry of the list; it gets the event and its parameters.\<close>

definition arrow_mqtt_event_proc :: "nat \<Rightarrow> 'd ev_env \<Rightarrow> (nat \<Rightarrow> nat \<Rightarrow> 'd ev_state \<Rightarrow> (int \<times> 'd ev_state) option) \<Rightarrow> 'd ev_state \<Rightarrow> (int \<times> 'd ev_state) option" where
  "arrow_mqtt_event_proc fuel V proc st =
     (case es_queue st of
        None \<Rightarrow> Some (-1, st)
      | Some tmp \<Rightarrow> do {
          e \<leftarrow> es_events st tmp;
          a \<leftarrow> p_value (ev_name (ev_base e));
          name \<leftarrow> js_mem (es_js st) a;
          cur \<leftarrow> find_processor 0 sub_list name None;
          (ret, st) \<leftarrow> (case cur of None \<Rightarrow> Some (-1, st) | Some i \<Rightarrow> proc i tmp st);
          root \<leftarrow> es_queue st;
          (root, h) \<leftarrow> arrow_linked_list_del (es_next st) (Some root) root;
          e \<leftarrow> es_events st tmp;
          js \<leftarrow> mqtt_event_free fuel V (es_js st) e;
          Some (if root \<noteq> None \<and> ret = 0 then 1 else ret,
            st\<lparr>es_js := js, es_events := (es_events st)(tmp := None), es_next := h(tmp := None), es_queue := root\<rparr>)
        })"

end
