(* ===== verification/Json_Stream.thy ===== *)
theory Json_Stream
  imports Json_Decode Json_Grammar
begin

text \<open>
  The parser of \<open>src/json/decode.c\<close> implements an automaton with a stack: \<open>step\<close> reads one byte in a configuration that lists the
  open containers with the values read so far. The machines of the code, the tree under construction, the keys and the
  buffers represent such a configuration, and every byte keeps this relation; so the way in which a text is
  cut into parts does not matter.
\<close>

section \<open>Simulations\<close>

text \<open>A concrete step that answers 0 follows the abstract one, and it answers -1 where there is none.\<close>

locale stepwise =
  fixes rel :: "'c \<Rightarrow> 'a \<Rightarrow> bool" and cstep :: "'c \<Rightarrow> 'b \<Rightarrow> (int \<times> 'c) option" and astep :: "'a \<Rightarrow> 'b \<Rightarrow> 'a option" and valid :: "'b \<Rightarrow> bool"
  assumes sim_Some: "rel c a \<Longrightarrow> valid x \<Longrightarrow> astep a x = Some a' \<Longrightarrow> \<exists>c'. cstep c x = Some (0, c') \<and> rel c' a'"
    and sim_None: "rel c a \<Longrightarrow> valid x \<Longrightarrow> astep a x = None \<Longrightarrow> \<exists>c'. cstep c x = Some (-1, c')"
begin

fun arun :: "'a \<Rightarrow> 'b list \<Rightarrow> 'a option" where
  "arun a [] = Some a"
| "arun a (x # xs) = Option.bind (astep a x) (\<lambda>a. arun a xs)"

fun crun :: "'c \<Rightarrow> 'b list \<Rightarrow> (bool \<times> 'c) option" where
  "crun c [] = Some (True, c)"
| "crun c (x # xs) = Option.bind (cstep c x) (\<lambda>(r, c). if r < 0 then Some (False, c) else crun c xs)"

lemma arun_append: "arun a (xs @ ys) = Option.bind (arun a xs) (\<lambda>a. arun a ys)"
  by (induction xs arbitrary: a) (auto simp: Option.bind_assoc)

lemma run_sim:
  assumes "rel c a" and "\<forall>x \<in> set xs. valid x"
  shows "case arun a xs of Some a' \<Rightarrow> \<exists>c'. crun c xs = Some (True, c') \<and> rel c' a' | None \<Rightarrow> \<exists>c'. crun c xs = Some (False, c')"
  using assms
proof (induction xs arbitrary: c a)
  case (Cons x xs)
  show ?case
  proof (cases "astep a x")
    case None
    with sim_None [OF Cons.prems(1), of x] Cons.prems(2) show ?thesis by auto
  next
    case (Some a')
    with sim_Some [OF Cons.prems(1), of x a'] Cons.prems(2) obtain c' where "cstep c x = Some (0, c')" "rel c' a'" by auto
    with Cons.IH [of c' a'] Cons.prems(2) Some show ?thesis by (auto split: option.splits)
  qed
qed simp

end

section \<open>The automaton\<close>

datatype 'd phase = PInit | PWord jpm_fn | PStr bytes | PEsc bytes | PNum bytes | PEnd "'d json" | PKeyInit | PKey bytes | PKeyEnd

text \<open>An open container: whether it is an array, what it has so far, and the key that it will have itself. The innermost container comes first.\<close>

type_synonym 'd frame = "bool \<times> (bytes \<times> 'd json) list \<times> bytes option"
type_synonym 'd config = "'d frame list \<times> bytes option \<times> 'd phase"

fun container :: "bool \<Rightarrow> (bytes \<times> 'd json) list \<Rightarrow> 'd json" where
  "container arr kvs = (if arr then Arr (map snd kvs) else Obj kvs)"

fun added_to :: "(bytes \<times> 'd json) list \<Rightarrow> bytes option \<Rightarrow> 'd json \<Rightarrow> (bytes \<times> 'd json) list" where
  "added_to kvs k v = kvs @ [(case k of Some x \<Rightarrow> x | None \<Rightarrow> [], v)]"

definition end_step :: "'d frame list \<Rightarrow> bytes option \<Rightarrow> 'd json \<Rightarrow> byte \<Rightarrow> 'd config option" where
  "end_step fs k v c =
     (if is_space c then Some (fs, k, PEnd v)
      else case fs of
        [] \<Rightarrow> None
      | (arr, kvs, k') # fs' \<Rightarrow>
          (if c = 125 \<or> c = 93 then Some (fs', k', PEnd (container arr (added_to kvs k v)))
           else if c = 44 then Some ((arr, added_to kvs k v, k') # fs', None, if arr then PInit else PKeyInit)
           else None))"

definition num_step :: "'d fpu \<Rightarrow> 'd frame list \<Rightarrow> bytes option \<Rightarrow> bytes \<Rightarrow> byte \<Rightarrow> 'd config option" where
  "num_step F fs k s c = (if is_digit c \<or> c = 46 then Some (fs, k, PNum (s @ [c])) else end_step fs k (Num (fp_strtod F s)) c)"

fun word_step :: "jpm_fn \<Rightarrow> byte \<Rightarrow> 'd phase option" where
  "word_step jpm_bool_false_a c = (if c = 97 then Some (PWord jpm_bool_false_l) else None)"
| "word_step jpm_bool_false_l c = (if c = 108 then Some (PWord jpm_bool_false_s) else None)"
| "word_step jpm_bool_false_s c = (if c = 115 then Some (PWord jpm_bool_false_e) else None)"
| "word_step jpm_bool_false_e c = (if c = 101 then Some (PEnd (Bool False)) else None)"
| "word_step jpm_bool_true_r c = (if c = 114 then Some (PWord jpm_bool_true_u) else None)"
| "word_step jpm_bool_true_u c = (if c = 117 then Some (PWord jpm_bool_true_e) else None)"
| "word_step jpm_bool_true_e c = (if c = 101 then Some (PEnd (Bool True)) else None)"
| "word_step _ c = None"

definition init_step :: "'d fpu \<Rightarrow> 'd frame list \<Rightarrow> bytes option \<Rightarrow> byte \<Rightarrow> 'd config option" where
  "init_step F fs k c =
     (if is_space c then Some (fs, k, PInit)
      else if c = 123 then Some ((False, [], k) # fs, None, PKeyInit)
      else if c = 34 then Some (fs, k, PStr [])
      else if c = 102 then Some (fs, k, PWord jpm_bool_false_a)
      else if c = 116 then Some (fs, k, PWord jpm_bool_true_r)
      else if c = 91 then Some ((True, [], k) # fs, None, PInit)
      else num_step F fs k [] c)"

definition unescape :: "byte \<Rightarrow> byte" where
  "unescape c = (if c = 110 then 10 else if c = 116 then 9 else c)"

fun step :: "'d fpu \<Rightarrow> 'd config \<Rightarrow> byte \<Rightarrow> 'd config option" where
  "step F (fs, k, PInit) c = init_step F fs k c"
| "step F (fs, k, PWord f) c = map_option (\<lambda>ph. (fs, k, ph)) (word_step f c)"
| "step F (fs, k, PStr s) c = Some (fs, k, if c = 92 then PEsc s else if c = 34 then PEnd (Str s) else PStr (s @ [c]))"
| "step F (fs, k, PEsc s) c = Some (fs, k, PStr (s @ [unescape c]))"
| "step F (fs, k, PNum s) c = num_step F fs k s c"
| "step F (fs, k, PEnd v) c = end_step fs k v c"
| "step F (fs, k, PKeyInit) c = (if is_space c then Some (fs, k, PKeyInit) else if c = 34 then Some (fs, k, PKey []) else None)"
| "step F (fs, k, PKey s) c = (if c = 34 then Some (fs, Some s, PKeyEnd) else Some (fs, k, PKey (s @ [c])))"
| "step F (fs, k, PKeyEnd) c = (if is_space c then Some (fs, k, PKeyEnd) else if c = 58 then Some (fs, k, PInit) else None)"

section \<open>The relation\<close>

definition in_object :: "'d frame list \<Rightarrow> bool" where
  "in_object fs \<longleftrightarrow> fs \<noteq> [] \<and> \<not> fst (hd fs)"

definition is_word :: "jpm_fn \<Rightarrow> bool" where
  "is_word f \<longleftrightarrow> f \<in> {jpm_bool_false_a, jpm_bool_false_l, jpm_bool_false_s, jpm_bool_false_e, jpm_bool_true_r, jpm_bool_true_u, jpm_bool_true_e}"

text \<open>A value has a key exactly in an object; strings of the text have no null character.\<close>

fun well_placed :: "'d frame list \<Rightarrow> bytes option \<Rightarrow> 'd phase \<Rightarrow> bool" where
  "well_placed fs k PKeyInit \<longleftrightarrow> in_object fs \<and> k = None"
| "well_placed fs k (PKey s) \<longleftrightarrow> in_object fs \<and> k = None \<and> 0 \<notin> set s"
| "well_placed fs k PKeyEnd \<longleftrightarrow> in_object fs \<and> k \<noteq> None"
| "well_placed fs k (PWord f) \<longleftrightarrow> (k \<noteq> None \<longleftrightarrow> in_object fs) \<and> is_word f"
| "well_placed fs k (PStr s) \<longleftrightarrow> (k \<noteq> None \<longleftrightarrow> in_object fs) \<and> 0 \<notin> set s"
| "well_placed fs k (PEsc s) \<longleftrightarrow> (k \<noteq> None \<longleftrightarrow> in_object fs) \<and> 0 \<notin> set s"
| "well_placed fs k (PNum s) \<longleftrightarrow> (k \<noteq> None \<longleftrightarrow> in_object fs) \<and> 0 \<notin> set s"
| "well_placed fs k _ \<longleftrightarrow> (k \<noteq> None \<longleftrightarrow> in_object fs)"

fun fn_of :: "'d phase \<Rightarrow> jpm_fn" where
  "fn_of PInit = jpm_value_init"
| "fn_of (PWord f) = f"
| "fn_of (PStr s) = jpm_string_body"
| "fn_of (PEsc s) = jpm_string_escape"
| "fn_of (PNum s) = jpm_number_body"
| "fn_of (PEnd v) = jpm_value_end"
| "fn_of PKeyInit = jpm_key_init"
| "fn_of (PKey s) = jpm_key_body"
| "fn_of PKeyEnd = jpm_key_end"

text \<open>The state with the object of the key.\<close>

definition keyed :: "'d jstate \<Rightarrow> property_t \<Rightarrow> bytes option \<Rightarrow> 'd jstate \<Rightarrow> bool" where
  "keyed st key k st' \<longleftrightarrow> (case k of
     None \<Rightarrow> key = p_null \<and> st' = st
   | Some s \<Rightarrow> (\<exists>b blk. b \<notin> dom (js_mem st) \<and> cstr blk = Some s \<and> st' = st\<lparr>js_mem := (js_mem st)(b \<mapsto> blk)\<rparr> \<and>
       key = \<lparr>p_value = Some b, p_flags = PROPERTY_JSON_TAG OR is_owner, p_size = word_of_nat (length s)\<rparr>))"

definition top_of :: "nat list \<Rightarrow> nat option" where
  "top_of as = (if as = [] then None else Some (hd as))"

text \<open>The machines of the open containers, with everything they own on top of \<open>js0\<close>.\<close>

fun stack_at :: "'d jstate \<Rightarrow> (nat \<rightharpoonup> json_parse_machine_t) \<Rightarrow> 'd frame list \<Rightarrow> nat list \<Rightarrow> 'd jstate \<Rightarrow> bool" where
  "stack_at js0 M [] [] st \<longleftrightarrow> st = js0"
| "stack_at js0 M ((arr, kvs, k) # fs) (a # as) st \<longleftrightarrow>
     (\<exists>st1 st2 key r cs. stack_at js0 M fs as st1 \<and> keyed st1 key k st2 \<and> (k \<noteq> None \<longleftrightarrow> in_object fs) \<and>
        owns st (JT r p_null (if arr then LArr else LObj) cs) st2 \<and> jabs (js_mem st) (JT r p_null (if arr then LArr else LObj) cs) (container arr kvs) \<and>
        M a = Some \<lparr>jm_p = top_of as, jm_complete = 0, jm_process_byte = Some jpm_value_end, jm_buffer = sb_null, jm_key = key, jm_root = Some r\<rparr>)"
| "stack_at js0 M _ _ st \<longleftrightarrow> False"

text \<open>What the current machine owns on top of its key.\<close>

fun phase_at :: "'d jstate \<Rightarrow> 'd phase \<Rightarrow> SB \<Rightarrow> nat option \<Rightarrow> 'd jstate \<Rightarrow> bool" where
  "phase_at st (PStr s) b root js \<longleftrightarrow> (\<exists>m. sb_rep (js_mem st) s b m \<and> js = st\<lparr>js_mem := m\<rparr>) \<and> root = None"
| "phase_at st (PEsc s) b root js \<longleftrightarrow> (\<exists>m. sb_rep (js_mem st) s b m \<and> js = st\<lparr>js_mem := m\<rparr>) \<and> root = None"
| "phase_at st (PNum s) b root js \<longleftrightarrow> (\<exists>m. sb_rep (js_mem st) s b m \<and> js = st\<lparr>js_mem := m\<rparr>) \<and> root = None"
| "phase_at st (PKey s) b root js \<longleftrightarrow> (\<exists>m. sb_rep (js_mem st) s b m \<and> js = st\<lparr>js_mem := m\<rparr>) \<and> root = None"
| "phase_at st (PEnd v) b root js \<longleftrightarrow> b = sb_null \<and> (\<exists>T. owns js T st \<and> jk T = p_null \<and> jabs (js_mem js) T v \<and> root = Some (ja T))"
| "phase_at st _ b root js \<longleftrightarrow> b = sb_null \<and> js = st \<and> root = None"

text \<open>The list of the machines; others may be in the heap, at the addresses \<open>N\<close>.\<close>

definition chain :: "'d decoder \<Rightarrow> nat set \<Rightarrow> nat \<Rightarrow> nat list \<Rightarrow> bool" where
  "chain d N sm ms \<longleftrightarrow> is_list (dc_next d) (Some sm) ms \<and> dom (dc_m d) = N \<union> set ms \<and> N \<inter> set ms = {} \<and> finite N"

definition ctx :: "'d jstate \<Rightarrow> nat set \<Rightarrow> nat \<Rightarrow> 'd decoder \<Rightarrow> 'd frame list \<Rightarrow> nat list \<Rightarrow> nat \<Rightarrow> 'd jstate \<Rightarrow> bool" where
  "ctx js0 N sm d fs as c st \<longleftrightarrow> st_fin js0 \<and> stack_at js0 (dc_m d) fs as st \<and> chain d N sm (rev as @ [c])"

definition current :: "'d jstate \<Rightarrow> nat set \<Rightarrow> nat \<Rightarrow> 'd decoder \<Rightarrow> 'd config \<Rightarrow> nat list \<Rightarrow> nat \<Rightarrow> bool" where
  "current js0 N sm d cf as c \<longleftrightarrow> (case cf of (fs, k, ph) \<Rightarrow> well_placed fs k ph \<and>
     (\<exists>st1 st2 key b root. ctx js0 N sm d fs as c st1 \<and> keyed st1 key k st2 \<and> phase_at st2 ph b root (dc_js d) \<and>
        dc_m d c = Some \<lparr>jm_p = top_of as, jm_complete = 0, jm_process_byte = Some (fn_of ph), jm_buffer = b, jm_key = key, jm_root = root\<rparr>))"

text \<open>A completed machine stays in the list until the next byte.\<close>

definition leftover :: "'d decoder \<Rightarrow> nat \<Rightarrow> nat \<Rightarrow> 'd decoder \<Rightarrow> bool" where
  "leftover d c a d0 \<longleftrightarrow> (\<exists>m. jm_complete m = 1 \<and> jm_buffer m = sb_null \<and> jm_key m = p_null \<and> a \<noteq> c \<and> a \<notin> dom (dc_m d0) \<and> a \<notin> dom (dc_next d0) \<and>
     d = d0\<lparr>dc_m := (dc_m d0)(a \<mapsto> m), dc_next := (dc_next d0)(c \<mapsto> Some a, a \<mapsto> None)\<rparr>)"

definition dec_ok :: "'d dec_env \<Rightarrow> bool" where
  "dec_ok V \<longleftrightarrow> env_ok (de_json V) \<and> (\<forall>M a. de_alloc V M = Some a \<longrightarrow> a \<notin> dom M) \<and> (\<forall>M. finite (dom M) \<longrightarrow> de_alloc V M \<noteq> None)"

definition drel :: "'d dec_env \<Rightarrow> 'd jstate \<Rightarrow> nat set \<Rightarrow> nat \<Rightarrow> 'd decoder \<Rightarrow> 'd config \<Rightarrow> bool" where
  "drel V js0 N sm d cf \<longleftrightarrow> dec_ok V \<and> (\<exists>as c d0. current js0 N sm d0 cf as c \<and> (d = d0 \<or> (\<exists>a. leftover d c a d0)))"

section \<open>Frames\<close>

lemma stack_at_frame: "\<forall>a \<in> set as. M' a = M a \<Longrightarrow> stack_at js0 M' fs as st \<longleftrightarrow> stack_at js0 M fs as st"
proof (induction fs arbitrary: as st)
  case Nil
  then show ?case by (cases as) simp_all
next
  case (Cons f fs)
  obtain arr kvs k where f: "f = (arr, kvs, k)" by (metis prod_cases3)
  show ?case
  proof (cases as)
    case (Cons a as')
    with Cons.prems have "stack_at js0 M' fs as' st' \<longleftrightarrow> stack_at js0 M fs as' st'" for st' using Cons.IH [of as' st'] by simp
    with Cons Cons.prems f show ?thesis by simp
  qed (simp add: f)
qed

lemma keyed_fin: "keyed st key k st' \<Longrightarrow> st_fin st \<Longrightarrow> st_fin st'"
  by (auto simp: keyed_def st_fin_def split: option.splits)

lemma keyed_le: "keyed st key k st' \<Longrightarrow> js_mem st \<subseteq>\<^sub>m js_mem st'"
  by (auto simp: keyed_def map_le_def domIff split: option.splits if_splits)

lemma stack_at_fin: "stack_at js0 M fs as st \<Longrightarrow> st_fin js0 \<Longrightarrow> st_fin st"
proof (induction fs arbitrary: as st)
  case Nil
  then show ?case by (cases as) simp_all
next
  case (Cons f fs)
  obtain arr kvs k where f: "f = (arr, kvs, k)" by (metis prod_cases3)
  with Cons.prems(1) obtain a as' st1 st2 key T where s: "as = a # as'" "stack_at js0 M fs as' st1" "keyed st1 key k st2" "owns st T st2"
    by (cases as) (simp, fastforce)
  from Cons.IH [OF s(2) Cons.prems(2)] keyed_fin [OF s(3)] owns_st_fin [OF s(4)] show ?case by blast
qed

lemma ctx_fin: "ctx js0 N sm d fs as c st \<Longrightarrow> keyed st key k st' \<Longrightarrow> st_fin st'"
  unfolding ctx_def by (blast intro: keyed_fin stack_at_fin)

lemma ctx_distinct: "ctx js0 N sm d fs as c st \<Longrightarrow> c \<notin> set as \<and> distinct as \<and> c \<notin> N"
  by (auto simp: ctx_def chain_def is_list_def)

lemma ctx_upd:
  assumes "ctx js0 N sm d fs as c st" and "dc_m d' = (dc_m d)(c \<mapsto> m)" and "dc_next d' = dc_next d"
  shows "ctx js0 N sm d' fs as c st"
proof -
  have "c \<notin> set as" using ctx_distinct [OF assms(1)] by simp
  then have "\<forall>a \<in> set as. dc_m d' a = dc_m d a" using assms(2) by auto
  from stack_at_frame [OF this, of js0 fs st] have "stack_at js0 (dc_m d') fs as st" using assms(1) by (simp add: ctx_def)
  moreover have "chain d' N sm (rev as @ [c])" using assms by (auto simp: ctx_def chain_def)
  ultimately show ?thesis using assms(1) by (simp add: ctx_def)
qed

lemma currentI:
  assumes "ctx js0 N sm d fs as c st1"
    and "dc_m d' = (dc_m d)(c \<mapsto> \<lparr>jm_p = top_of as, jm_complete = 0, jm_process_byte = Some (fn_of ph), jm_buffer = b, jm_key = key, jm_root = root\<rparr>)"
    and "dc_next d' = dc_next d" and "well_placed fs k ph" and "keyed st1 key k st2" and "phase_at st2 ph b root (dc_js d')"
  shows "current js0 N sm d' (fs, k, ph) as c"
  using ctx_upd [OF assms(1-3)] assms by (auto simp: current_def)

lemma currentE:
  assumes "current js0 N sm d (fs, k, ph) as c"
  obtains st1 st2 key b root where "ctx js0 N sm d fs as c st1" and "keyed st1 key k st2" and "st_fin st2" and "phase_at st2 ph b root (dc_js d)"
    and "dc_m d c = Some \<lparr>jm_p = top_of as, jm_complete = 0, jm_process_byte = Some (fn_of ph), jm_buffer = b, jm_key = key, jm_root = root\<rparr>"
    and "well_placed fs k ph"
  using assms ctx_fin by (fastforce simp: current_def)

text \<open>A step that only goes to another state of the machine.\<close>

lemma goto_current:
  assumes "current js0 N sm d (fs, k, ph) as c" and "well_placed fs k ph'"
    and "\<And>st b root. phase_at st ph b root (dc_js d) \<Longrightarrow> phase_at st ph' b root (dc_js d)"
  shows "\<exists>d'. upd_m d c (goto (fn_of ph')) = Some d' \<and> current js0 N sm d' (fs, k, ph') as c"
proof -
  from assms(1) obtain st1 st2 key b root where c: "ctx js0 N sm d fs as c st1" "keyed st1 key k st2" "phase_at st2 ph b root (dc_js d)"
    "dc_m d c = Some \<lparr>jm_p = top_of as, jm_complete = 0, jm_process_byte = Some (fn_of ph), jm_buffer = b, jm_key = key, jm_root = root\<rparr>"
    by (rule currentE)
  let ?d = "d\<lparr>dc_m := (dc_m d)(c \<mapsto> \<lparr>jm_p = top_of as, jm_complete = 0, jm_process_byte = Some (fn_of ph'), jm_buffer = b, jm_key = key, jm_root = root\<rparr>)\<rparr>"
  have "upd_m d c (goto (fn_of ph')) = Some ?d" using c(4) by (simp add: upd_m_def)
  moreover have "current js0 N sm ?d (fs, k, ph') as c" by (rule currentI [OF c(1) _ _ assms(2) c(2)]) (use assms(3) [OF c(3)] in simp_all)
  ultimately show ?thesis by blast
qed

section \<open>Buffers\<close>

definition buffering :: "'d phase \<Rightarrow> bytes \<Rightarrow> bool" where
  "buffering ph s \<longleftrightarrow> ph = PStr s \<or> ph = PEsc s \<or> ph = PNum s \<or> ph = PKey s"

lemma buffering_at: "buffering ph s \<Longrightarrow> phase_at st ph b root js \<longleftrightarrow> (\<exists>m. sb_rep (js_mem st) s b m \<and> js = st\<lparr>js_mem := m\<rparr>) \<and> root = None"
  by (auto simp: buffering_def)

lemma start_buffer_current:
  assumes V: "dec_ok V" and cur: "current js0 N sm d (fs, k, ph) as c" and ph: "ph = PInit \<or> ph = PKeyInit" and ph': "buffering ph' []" "well_placed fs k ph'"
  shows "\<exists>d1 d2. start_buffer V d c = Some (0, d1) \<and> upd_m d1 c (goto (fn_of ph')) = Some d2 \<and> current js0 N sm d2 (fs, k, ph') as c"
proof -
  from cur obtain st1 st2 key b root where c: "ctx js0 N sm d fs as c st1" "keyed st1 key k st2" "st_fin st2" "phase_at st2 ph b root (dc_js d)"
    "dc_m d c = Some \<lparr>jm_p = top_of as, jm_complete = 0, jm_process_byte = Some (fn_of ph), jm_buffer = b, jm_key = key, jm_root = root\<rparr>"
    by (rule currentE)
  have p: "b = sb_null" "dc_js d = st2" "root = None" using c(4) ph by auto
  have L: "libc_total (e_libc (de_json V))" "finite (dom (js_mem st2))" using V c(3) by (simp_all add: dec_ok_def env_ok_def st_fin_def)
  from sb_init_rep [OF this] obtain b' m' where i: "sb_init (e_libc (de_json V)) (js_mem st2) sb_null = (0, b', m')" "sb_rep (js_mem st2) [] b' m'" by blast
  let ?r = "\<lambda>f. \<lparr>jm_p = top_of as, jm_complete = 0, jm_process_byte = Some f, jm_buffer = b', jm_key = key, jm_root = None\<rparr>"
  let ?d = "\<lambda>f. d\<lparr>dc_js := st2\<lparr>js_mem := m'\<rparr>, dc_m := (dc_m d)(c \<mapsto> ?r f)\<rparr>"
  have "start_buffer V d c = Some (0, ?d (fn_of ph))" "upd_m (?d (fn_of ph)) c (goto (fn_of ph')) = Some (?d (fn_of ph'))"
    using c(5) p i(1) by (simp_all add: start_buffer_def upd_m_def)
  moreover have "current js0 N sm (?d (fn_of ph')) (fs, k, ph') as c"
    by (rule currentI [OF c(1) _ _ ph'(2) c(2)]) (use i(2) in \<open>auto simp: buffering_at [OF ph'(1)]\<close>)
  ultimately show ?thesis by blast
qed

lemma put_byte_current:
  assumes V: "dec_ok V" and cur: "current js0 N sm d (fs, k, ph) as c" and ph: "buffering ph s" "buffering ph' (s @ [x])" "well_placed fs k ph'"
  shows "\<exists>d1 d2. put_byte V d c x = Some (0, d1) \<and> upd_m d1 c (goto (fn_of ph')) = Some d2 \<and> (fn_of ph' = fn_of ph \<longrightarrow> d2 = d1) \<and>
    current js0 N sm d2 (fs, k, ph') as c"
proof -
  from cur obtain st1 st2 key b root where c: "ctx js0 N sm d fs as c st1" "keyed st1 key k st2" "st_fin st2" "phase_at st2 ph b root (dc_js d)"
    "dc_m d c = Some \<lparr>jm_p = top_of as, jm_complete = 0, jm_process_byte = Some (fn_of ph), jm_buffer = b, jm_key = key, jm_root = root\<rparr>"
    by (rule currentE)
  from c(4) obtain m where p: "sb_rep (js_mem st2) s b m" "dc_js d = st2\<lparr>js_mem := m\<rparr>" "root = None" using buffering_at [OF ph(1)] by auto
  have L: "libc_total (e_libc (de_json V))" "finite (dom (js_mem st2))" using V c(3) by (simp_all add: dec_ok_def env_ok_def st_fin_def)
  from sb_putc_rep [OF L p(1)] obtain b' m' where i: "sb_putc (e_libc (de_json V)) m b x = Some (b', m')" "sb_rep (js_mem st2) (s @ [x]) b' m'" by blast
  have v: "sb_is_valid b' = 1" using i(2) by (auto simp: sb_is_valid_def sb_rep_def)
  let ?r = "\<lambda>f. \<lparr>jm_p = top_of as, jm_complete = 0, jm_process_byte = Some f, jm_buffer = b', jm_key = key, jm_root = None\<rparr>"
  let ?d = "\<lambda>f. d\<lparr>dc_js := st2\<lparr>js_mem := m'\<rparr>, dc_m := (dc_m d)(c \<mapsto> ?r f)\<rparr>"
  have "put_byte V d c x = Some (0, ?d (fn_of ph))" "upd_m (?d (fn_of ph)) c (goto (fn_of ph')) = Some (?d (fn_of ph'))"
    using c(5) p i(1) v by (simp_all add: put_byte_def upd_m_def)
  moreover have "current js0 N sm (?d (fn_of ph')) (fs, k, ph') as c"
    by (rule currentI [OF c(1) _ _ ph(3) c(2)]) (use i(2) in \<open>auto simp: buffering_at [OF ph(2)]\<close>)
  ultimately show ?thesis by (intro exI [of _ "?d (fn_of ph)"] exI [of _ "?d (fn_of ph')"]) simp
qed

lemma sb_finish_own:
  assumes "sb_rep m0 s sb m" and "0 \<notin> set s"
  shows "\<exists>a blk n. sb_finish m sb = Some (Some a, m0(a \<mapsto> blk)) \<and> a \<notin> dom m0 \<and> cstr blk = Some s \<and> sb_start sb = Some a \<and> sb_size sb = Some n \<and> 0 < n"
proof -
  from assms(1) obtain a where "sb_start sb = Some a" "sb_obj sb = Some a" "0 < sb_end sb" unfolding sb_rep_def by blast
  moreover from this have "sb_finish m sb = Some (Some b, m') \<Longrightarrow> b = a" for b m' by (auto simp: sb_finish_def bind_eq_Some_conv)
  ultimately show ?thesis using sb_finish_rep [OF assms] by (fastforce simp: sb_size_def)
qed

lemma owns_drop:
  assumes "a \<notin> dom (js_mem st)" and "owns js T (st\<lparr>js_mem := (js_mem st)(a \<mapsto> blk)\<rparr>)" and "jabs (js_mem js) T v"
  shows "owns (js\<lparr>js_mem := (js_mem js)(a := None)\<rparr>) T st" and "jabs ((js_mem js)(a := None)) T v"
proof -
  have "(js_mem st)(a := None) = js_mem st" using assms(1) by (auto simp: domIff fun_eq_iff)
  then show o: "owns (js\<lparr>js_mem := (js_mem js)(a := None)\<rparr>) T st"
    using owns_free [OF assms(2), of "{a}"] by (simp add: restrict_complement_singleton_eq)
  show "jabs ((js_mem js)(a := None)) T v" using owns_value [OF o _ assms(3)] by (simp add: map_le_def)
qed

text \<open>The new node of a value is set, and the buffer is given back.\<close>

lemma value_made:
  assumes ctx: "ctx js0 N sm d fs as c st1" "keyed st1 key k st2"
    and m: "dc_m d c = Some \<lparr>jm_p = top_of as, jm_complete = 0, jm_process_byte = Some f, jm_buffer = b, jm_key = key, jm_root = root\<rparr>"
    and b: "sb_start b = Some a" "a \<notin> dom (js_mem st2)" and T: "owns js T (st2\<lparr>js_mem := (js_mem st2)(a \<mapsto> blk)\<rparr>)" "jabs (js_mem js) T v" "jk T = p_null"
    and k: "k \<noteq> None \<longleftrightarrow> in_object fs"
  shows "\<exists>d1 d2 d3. set_root d c (Some (ja T), js) = Some (True, d1) \<and> upd_m d1 c (goto jpm_value_end) = Some d2 \<and> free_buffer d2 c = Some d3 \<and>
    current js0 N sm d3 (fs, k, PEnd v) as c"
proof -
  let ?r = "\<lambda>f b. \<lparr>jm_p = top_of as, jm_complete = 0, jm_process_byte = Some f, jm_buffer = b, jm_key = key, jm_root = Some (ja T)\<rparr>"
  let ?d = "\<lambda>js f b. d\<lparr>dc_js := js, dc_m := (dc_m d)(c \<mapsto> ?r f b)\<rparr>"
  have ja: "a \<in> dom (js_mem js)" using owns_dom(4) [OF T(1), of a] by auto
  let ?js = "js\<lparr>js_mem := (js_mem js)(a := None)\<rparr>"
  have "set_root d c (Some (ja T), js) = Some (True, ?d js f b)" "upd_m (?d js f b) c (goto jpm_value_end) = Some (?d js jpm_value_end b)"
    "free_buffer (?d js jpm_value_end b) c = Some (?d ?js jpm_value_end sb_null)"
    using m b ja by (simp_all add: set_root_def upd_m_def free_buffer_def sb_free_def c_free_def sb_clear_def)
  moreover have "current js0 N sm (?d ?js jpm_value_end sb_null) (fs, k, PEnd v) as c"
    by (rule currentI [OF ctx(1) _ _ _ ctx(2)]) (use owns_drop [OF b(2) T(1,2)] T(3) k in auto)
  ultimately show ?thesis by blast
qed

section \<open>Values\<close>

lemma string_end_current:
  assumes V: "dec_ok V" and cur: "current js0 N sm d (fs, k, PStr s) as c"
  shows "\<exists>d'. string_body V d c 34 = Some (0, d') \<and> current js0 N sm d' (fs, k, PEnd (Str s)) as c"
proof -
  from cur obtain st1 st2 key b root where c: "ctx js0 N sm d fs as c st1" "keyed st1 key k st2" "st_fin st2" "phase_at st2 (PStr s) b root (dc_js d)"
    "dc_m d c = Some \<lparr>jm_p = top_of as, jm_complete = 0, jm_process_byte = Some (fn_of (PStr s :: 'a phase)), jm_buffer = b, jm_key = key, jm_root = root\<rparr>"
    "well_placed fs k (PStr s :: 'a phase)" by (rule currentE)
  from c(4) obtain m where p: "sb_rep (js_mem st2) s b m" "dc_js d = st2\<lparr>js_mem := m\<rparr>" by auto
  from sb_finish_own [OF p(1)] c(6) obtain a blk n where
    f: "sb_finish m b = Some (Some a, (js_mem st2)(a \<mapsto> blk))" "a \<notin> dom (js_mem st2)" "cstr blk = Some s" "sb_start b = Some a" "sb_size b = Some n" "0 < n" by auto
  let ?st = "st2\<lparr>js_mem := (js_mem st2)(a \<mapsto> blk)\<rparr>"
  have E: "env_ok (de_json V)" and L: "libc_total (e_libc (de_json V))" using V by (simp_all add: dec_ok_def env_ok_def)
  have fin: "st_fin ?st" "finite (dom (js_mem ?st))" using c(3) by (simp_all add: st_fin_def)
  have "str_at (js_mem ?st) (Some a) = Some s" using f(3) by (simp add: str_at_def)
  from json_strdup_total [OF L fin(2) this] obtain a' blk' where
    dup: "json_strdup (e_libc (de_json V)) (js_mem ?st) (Some a) = Some (Some a', (js_mem ?st)(a' \<mapsto> blk'))" "a' \<notin> dom (js_mem ?st)" "cstr blk' = Some s" by blast
  from mkstring_owns [OF E fin(1) dup(2), of blk'] obtain r js where
    mk: "mkstring (de_json V) (?st\<lparr>js_mem := (js_mem ?st)(a' \<mapsto> blk')\<rparr>) (Some a') = (Some r, js)" "owns js (JT r p_null (LStr a') []) ?st"
      "js_mem js = (js_mem ?st)(a' \<mapsto> blk')" by blast
  have v: "jabs (js_mem js) (JT r p_null (LStr a') []) (Str s)" using mk(3) dup(3) by (simp add: str_at_def)
  from value_made [OF c(1,2,5) f(4,2) mk(2) v] c(6) obtain d1 d2 d3 where
    d: "set_root d c (Some r, js) = Some (True, d1)" "upd_m d1 c (goto jpm_value_end) = Some d2" "free_buffer d2 c = Some d3"
      "current js0 N sm d3 (fs, k, PEnd (Str s)) as c" by auto
  have "json_mkstring (de_json V) ?st (Some a) = Some (Some r, js)" using dup(1) mk(1) by (simp add: json_mkstring_def)
  then have "string_body V d c 34 = Some (0, d3)" using c(5) p(2) f(1,5,6) d(1-3) by (simp add: string_body_def)
  with d(4) show ?thesis by blast
qed

lemma owns_tag: "owns js (JT r p_null l cs) st \<Longrightarrow> \<exists>n. nodes js r = Some n \<and> n_tag n = leaf_tag l"
  by (auto simp: owns_def node_ok_def)

lemma jabs_snoc:
  assumes "jabs m (JT r p_null (if arr then LArr else LObj) cs) (container arr kvs)" and "jabs m T v" and "\<not> arr \<Longrightarrow> str_at m (p_value (jk T)) = k" and "k \<noteq> None \<longleftrightarrow> \<not> arr"
  shows "jabs m (JT r p_null (if arr then LArr else LObj) (cs @ [T])) (container arr (added_to kvs k v))"
  using assms by (auto intro!: list_all2_appendI split: if_splits)

text \<open>Appending the value to its container.\<close>

lemma append_current:
  assumes V: "dec_ok V" and cur: "current js0 N sm d ((arr, kvs, k') # fs, k, PEnd v) (a # as) c"
  shows "\<exists>js st1 st2 key key' r cs root. (\<forall>m. jm_p m = Some a \<and> jm_key m = key' \<and> jm_root m = root \<longrightarrow>
      jpm_append_to_parent V (d\<lparr>dc_m := (dc_m d)(c \<mapsto> m)\<rparr>) c = Some (0, d\<lparr>dc_m := (dc_m d)(c \<mapsto> m), dc_js := js\<rparr>)) \<and> get_node js (Some r) \<noteq> None \<and>
    map_option n_tag (get_node js (Some r)) = Some (if arr then JSON_ARRAY else JSON_OBJECT) \<and>
    stack_at js0 (dc_m d) fs as st1 \<and> keyed st1 key k' st2 \<and> (k' \<noteq> None \<longleftrightarrow> in_object fs) \<and>
    owns js (JT r p_null (if arr then LArr else LObj) cs) st2 \<and> jabs (js_mem js) (JT r p_null (if arr then LArr else LObj) cs) (container arr (added_to kvs k v)) \<and>
    dc_m d a = Some \<lparr>jm_p = top_of as, jm_complete = 0, jm_process_byte = Some jpm_value_end, jm_buffer = sb_null, jm_key = key, jm_root = Some r\<rparr> \<and>
    dc_m d c = Some \<lparr>jm_p = Some a, jm_complete = 0, jm_process_byte = Some jpm_value_end, jm_buffer = sb_null, jm_key = key', jm_root = root\<rparr>"
proof -
  let ?l = "if arr then LArr else LObj"
  have E: "e_disp (de_json V) = std_types" using V by (simp add: dec_ok_def env_ok_def)
  from cur obtain st0 st' key' b root where c: "ctx js0 N sm d ((arr, kvs, k') # fs) (a # as) c st0" "keyed st0 key' k st'"
      "phase_at st' (PEnd v) b root (dc_js d)"
      "dc_m d c = Some \<lparr>jm_p = top_of (a # as), jm_complete = 0, jm_process_byte = Some (fn_of (PEnd v)), jm_buffer = b, jm_key = key', jm_root = root\<rparr>"
      "well_placed ((arr, kvs, k') # fs) k (PEnd v)" by (rule currentE)
  from c(3) obtain T where T: "owns (dc_js d) T st'" "jk T = p_null" "jabs (js_mem (dc_js d)) T v" "root = Some (ja T)" and b: "b = sb_null" by auto
  from c(1) have "stack_at js0 (dc_m d) ((arr, kvs, k') # fs) (a # as) st0" by (simp only: ctx_def)
  then obtain st1 st2 key r cs where S: "stack_at js0 (dc_m d) fs as st1" "keyed st1 key k' st2" "k' \<noteq> None \<longleftrightarrow> in_object fs"
      "owns st0 (JT r p_null ?l cs) st2" "jabs (js_mem st0) (JT r p_null ?l cs) (container arr kvs)"
      "dc_m d a = Some \<lparr>jm_p = top_of as, jm_complete = 0, jm_process_byte = Some jpm_value_end, jm_buffer = sb_null, jm_key = key, jm_root = Some r\<rparr>"
    unfolding stack_at.simps by (elim exE conjE) (rule that)
  have k: "k \<noteq> None \<longleftrightarrow> \<not> arr" using c(5) by (simp add: in_object_def)
  have le: "js_mem st0 \<subseteq>\<^sub>m js_mem (dc_js d)" using keyed_le [OF c(2)] owns_le [OF T(1)] by (rule map_le_trans)
  have vR: "jabs (js_mem (dc_js d)) (JT r p_null ?l cs) (container arr kvs)" by (rule jabs_mono [OF S(4,5) le])
  obtain n where n: "nodes st0 r = Some n" "n_tag n = (if arr then JSON_ARRAY else JSON_OBJECT)" using owns_tag [OF S(4)] by (auto split: if_splits)
  have "nodes st' = nodes st0" using c(2) by (auto simp: keyed_def split: option.splits)
  then have nr: "nodes (dc_js d) r = Some n" using owns_dom(3) [OF T(1), of r] n(1) by auto
  have ac: "a \<noteq> c" using ctx_distinct [OF c(1)] by auto
  have ctxt: "is_array_context (d\<lparr>dc_m := (dc_m d)(c \<mapsto> m)\<rparr>) c = Some arr" if "jm_p m = Some a" for m
    using that ac S(6) nr n(2) by (simp add: is_array_context_def get_node_def)
  have "\<exists>js T'. (if arr then json_append_element (dc_js d) (Some r) root else json_append_member (de_json V) (dc_js d) (Some r) key' root) = Some js \<and>
    owns js (JT r p_null ?l (cs @ [T'])) st2 \<and> jabs (js_mem js) (JT r p_null ?l (cs @ [T'])) (container arr (added_to kvs k v))"
  proof (cases arr)
    case True
    with k c(2) have "st' = st0" by (simp add: keyed_def)
    with append_element_owned [of st0 r cs st2 "dc_js d" T] S(4) T(1) True obtain js where
      js: "json_append_element (dc_js d) (Some r) (Some (ja T)) = Some js" "owns js (JT r p_null LArr (cs @ [T])) st2" "js_mem js = js_mem (dc_js d)" by auto
    then show ?thesis using True T(3,4) jabs_snoc [OF vR T(3)] k by auto
  next
    case False
    with k obtain x where x: "k = Some x" by blast
    with c(2) obtain kb blk where K: "kb \<notin> dom (js_mem st0)" "cstr blk = Some x" "st' = st0\<lparr>js_mem := (js_mem st0)(kb \<mapsto> blk)\<rparr>"
      "key' = \<lparr>p_value = Some kb, p_flags = PROPERTY_JSON_TAG OR is_owner, p_size = word_of_nat (length x)\<rparr>" by (auto simp: keyed_def)
    have S4: "owns st0 (JT r p_null LObj cs) st2" using S(4) False by simp
    from append_member_owned [OF S4 K(1,2) T(1) [unfolded K(3)] T(2) E] obtain q js where
      js: "p_json (js_mem (dc_js d)) (Some kb) = Some q" "p_value q = Some kb" "append_member (de_json V) (dc_js d) (Some r) q (Some (ja T)) = Some js"
        "owns js (JT r p_null LObj (cs @ [rekey q T])) st2" "js_mem js = js_mem (dc_js d)" "str_at (js_mem (dc_js d)) (Some kb) = Some x" by blast
    have "q = key'" using js(1,6) K(4) by (simp add: p_json_def)
    then show ?thesis using False T(3,4) js jabs_snoc [OF vR, of "rekey q T" v k] k x by (intro exI [of _ js] exI [of _ "rekey q T"]) (simp add: json_append_member_def)
  qed
  then obtain js T' where js: "(if arr then json_append_element (dc_js d) (Some r) root else json_append_member (de_json V) (dc_js d) (Some r) key' root) = Some js"
    "owns js (JT r p_null ?l (cs @ [T'])) st2" "jabs (js_mem js) (JT r p_null ?l (cs @ [T'])) (container arr (added_to kvs k v))" by blast
  have "\<forall>m. jm_p m = Some a \<and> jm_key m = key' \<and> jm_root m = root \<longrightarrow>
      jpm_append_to_parent V (d\<lparr>dc_m := (dc_m d)(c \<mapsto> m)\<rparr>) c = Some (0, d\<lparr>dc_m := (dc_m d)(c \<mapsto> m), dc_js := js\<rparr>)"
    using ac S(6) ctxt js(1) by (simp add: jpm_append_to_parent_def split: if_splits)
  moreover have "map_option n_tag (get_node js (Some r)) = Some (if arr then JSON_ARRAY else JSON_OBJECT)" "get_node js (Some r) \<noteq> None"
    using owns_tag [OF js(2)] by (auto simp: get_node_def)
  moreover have "dc_m d c = Some \<lparr>jm_p = Some a, jm_complete = 0, jm_process_byte = Some jpm_value_end, jm_buffer = sb_null, jm_key = key', jm_root = root\<rparr>"
    using c(4) b by (simp add: top_of_def)
  ultimately show ?thesis using S(1-3,6) js(2,3) by blast
qed

lemma chain_last: "chain d N sm (ms @ [c]) \<Longrightarrow> dc_next d c = Some None"
  by (auto simp: chain_def is_list_def lseg_append)

lemma chain_top: "chain d N sm (ms @ [a, c]) \<Longrightarrow> dc_next d a = Some (Some c) \<and> dc_next d c = Some None"
  by (auto simp: chain_def is_list_def lseg_append)

lemma chain_pop:
  assumes "chain d N sm (ms @ [a, c])" and "dc_m d' = (dc_m d)(c := None)" and "dc_next d' = (dc_next d)(c := None, a \<mapsto> None)"
  shows "chain d' N sm (ms @ [a])"
  using assms by (auto simp: chain_def is_list_def lseg_append)

lemma stack_at_Nil: "stack_at js0 M [] as st \<Longrightarrow> as = []"
  by (cases as) simp_all

lemma stack_at_Cons: "stack_at js0 M (f # fs) as st \<Longrightarrow> \<exists>a as'. as = a # as'"
  by (cases as; cases f) auto

text \<open>The end of a container: the machine of the value is done, and the one of the container holds the value.\<close>

lemma close_current:
  assumes V: "dec_ok V" and cur: "current js0 N sm d ((arr, kvs, k') # fs, k, PEnd v) (a # as) c" and x: "x = 125 \<or> x = 93"
  shows "\<exists>d'. value_end V d c x = Some (0, d') \<and> drel V js0 N sm d' (fs, k', PEnd (container arr (added_to kvs k v)))"
proof -
  from append_current [OF V cur] obtain js st1 st2 key key' r cs root where
    A: "\<forall>m. jm_p m = Some a \<and> jm_key m = key' \<and> jm_root m = root \<longrightarrow>
        jpm_append_to_parent V (d\<lparr>dc_m := (dc_m d)(c \<mapsto> m)\<rparr>) c = Some (0, d\<lparr>dc_m := (dc_m d)(c \<mapsto> m), dc_js := js\<rparr>)" "stack_at js0 (dc_m d) fs as st1" "keyed st1 key k' st2" "k' \<noteq> None \<longleftrightarrow> in_object fs"
      "owns js (JT r p_null (if arr then LArr else LObj) cs) st2" "jabs (js_mem js) (JT r p_null (if arr then LArr else LObj) cs) (container arr (added_to kvs k v))"
      "dc_m d a = Some \<lparr>jm_p = top_of as, jm_complete = 0, jm_process_byte = Some jpm_value_end, jm_buffer = sb_null, jm_key = key, jm_root = Some r\<rparr>"
      "dc_m d c = Some \<lparr>jm_p = Some a, jm_complete = 0, jm_process_byte = Some jpm_value_end, jm_buffer = sb_null, jm_key = key', jm_root = root\<rparr>"
    by (elim exE conjE) (rule that)
  from cur obtain st0 where ctx: "ctx js0 N sm d ((arr, kvs, k') # fs) (a # as) c st0" by (rule currentE)
  then have ch: "chain d N sm (rev as @ [a, c])" "st_fin js0" by (simp_all add: ctx_def)
  note top = chain_top [OF ch(1)]
  have dis: "c \<noteq> a" "c \<notin> set as" "a \<notin> set as" using ctx_distinct [OF ctx] by auto
  define m where "m = \<lparr>jm_p = Some a, jm_complete = 1, jm_process_byte = (if x = 125 then Some jpm_value_end else None), jm_buffer = sb_null, jm_key = p_null, jm_root = None\<rparr>"
  define d0 where "d0 = d\<lparr>dc_js := js, dc_m := (dc_m d)(c := None), dc_next := (dc_next d)(c := None, a \<mapsto> None)\<rparr>"
  let ?d = "d\<lparr>dc_js := js, dc_m := (dc_m d)(c \<mapsto> m)\<rparr>"
  have "value_end V d c x = Some (0, ?d)"
    using A(1,8) x by (auto simp: value_end_def upd_m_def is_space_def m_def sb_clear_def)
  moreover have "current js0 N sm d0 (fs, k', PEnd (container arr (added_to kvs k v))) as a"
  proof -
    have "stack_at js0 (dc_m d0) fs as st1" using A(2) stack_at_frame [of as "dc_m d0" "dc_m d" js0 fs st1] dis(2) by (auto simp: d0_def)
    moreover have "chain d0 N sm (rev as @ [a])" by (rule chain_pop [OF ch(1)]) (simp_all add: d0_def)
    ultimately have "ctx js0 N sm d0 fs as a st1" using ch(2) by (simp add: ctx_def)
    moreover have "phase_at st2 (PEnd (container arr (added_to kvs k v))) sb_null (Some r) (dc_js d0)"
      using A(5,6) by (auto simp: d0_def simp del: jabs.simps container.simps added_to.simps)
    ultimately show ?thesis using A(3,4,7) dis(1) unfolding current_def by (auto simp: d0_def simp del: container.simps added_to.simps phase_at.simps)
  qed
  moreover have "leftover ?d a c d0"
    unfolding leftover_def using top dis(1) by (intro exI [of _ m]) (auto simp: m_def d0_def fun_eq_iff)
  ultimately show ?thesis using V unfolding drel_def by blast
qed

text \<open>A comma: the machine starts again, for the next element or member.\<close>

lemma comma_current:
  assumes V: "dec_ok V" and cur: "current js0 N sm d ((arr, kvs, k') # fs, k, PEnd v) (a # as) c"
  shows "\<exists>d'. value_end V d c 44 = Some (0, d') \<and>
    current js0 N sm d' ((arr, added_to kvs k v, k') # fs, None, if arr then PInit else PKeyInit) (a # as) c"
proof -
  from append_current [OF V cur] obtain js st1 st2 key key' r cs root where
    A: "\<forall>m. jm_p m = Some a \<and> jm_key m = key' \<and> jm_root m = root \<longrightarrow>
        jpm_append_to_parent V (d\<lparr>dc_m := (dc_m d)(c \<mapsto> m)\<rparr>) c = Some (0, d\<lparr>dc_m := (dc_m d)(c \<mapsto> m), dc_js := js\<rparr>)"
      "map_option n_tag (get_node js (Some r)) = Some (if arr then JSON_ARRAY else JSON_OBJECT)"
      "stack_at js0 (dc_m d) fs as st1" "keyed st1 key k' st2" "k' \<noteq> None \<longleftrightarrow> in_object fs"
      "owns js (JT r p_null (if arr then LArr else LObj) cs) st2" "jabs (js_mem js) (JT r p_null (if arr then LArr else LObj) cs) (container arr (added_to kvs k v))"
      "dc_m d a = Some \<lparr>jm_p = top_of as, jm_complete = 0, jm_process_byte = Some jpm_value_end, jm_buffer = sb_null, jm_key = key, jm_root = Some r\<rparr>"
      "dc_m d c = Some \<lparr>jm_p = Some a, jm_complete = 0, jm_process_byte = Some jpm_value_end, jm_buffer = sb_null, jm_key = key', jm_root = root\<rparr>"
    by (elim exE conjE) (rule that)
  from cur obtain st0 where ctx: "ctx js0 N sm d ((arr, kvs, k') # fs) (a # as) c st0" by (rule currentE)
  then have ch: "chain d N sm (rev (a # as) @ [c])" "st_fin js0" by (simp_all add: ctx_def)
  have dis: "c \<noteq> a" "c \<notin> set as" using ctx_distinct [OF ctx] by auto
  have nxt: "dc_next d c = Some None" by (rule chain_last [OF ch(1)])
  then have same: "(dc_next d)(c \<mapsto> None) = dc_next d" by (auto simp: fun_eq_iff)
  let ?f = "if arr then jpm_value_init else jpm_key_init"
  let ?d = "d\<lparr>dc_js := js, dc_m := (dc_m d)(c \<mapsto> \<lparr>jm_p = Some a, jm_complete = 0, jm_process_byte = Some ?f, jm_buffer = sb_null, jm_key = p_null, jm_root = None\<rparr>)\<rparr>"
  let ?m = "\<lparr>jm_p = Some a, jm_complete = 0, jm_process_byte = Some jpm_value_end, jm_buffer = sb_null, jm_key = key', jm_root = root\<rparr>"
  have "(dc_m d)(c \<mapsto> ?m) = dc_m d" "d\<lparr>dc_m := dc_m d\<rparr> = d" using A(9) by (auto simp: fun_eq_iff)
  with A(1) [rule_format, of ?m] have "jpm_append_to_parent V d c = Some (0, d\<lparr>dc_js := js\<rparr>)" by simp
  moreover obtain n where n: "nodes js r = Some n" "n_tag n = (if arr then JSON_ARRAY else JSON_OBJECT)" using A(2) by (auto simp: get_node_def)
  ultimately have "value_end V d c 44 = Some (0, ?d)"
    using A(8,9) nxt same dis(1) by (simp add: value_end_def is_space_def json_parse_machine_init_def machine_init_def upd_m_def is_array_context_def get_node_def sb_clear_def)
  moreover have "current js0 N sm ?d ((arr, added_to kvs k v, k') # fs, None, if arr then PInit else PKeyInit) (a # as) c"
  proof -
    have "stack_at js0 (dc_m ?d) fs as st1" using A(3) stack_at_frame [of as "dc_m ?d" "dc_m d" js0 fs st1] dis(2) by auto
    then have "stack_at js0 (dc_m ?d) ((arr, added_to kvs k v, k') # fs) (a # as) js"
      using A(4-8) dis(1) by (intro stack_at.simps(2) [THEN iffD2] exI conjI) (assumption | simp)+
    then have "ctx js0 N sm ?d ((arr, added_to kvs k v, k') # fs) (a # as) c js"
      using ch by (auto simp: ctx_def chain_def simp del: stack_at.simps)
    then show ?thesis unfolding current_def
      by (auto simp: keyed_def top_of_def in_object_def simp del: added_to.simps)
  qed
  ultimately show ?thesis by blast
qed

lemma current_drel: "dec_ok V \<Longrightarrow> current js0 N sm d cf as c \<Longrightarrow> drel V js0 N sm d cf"
  by (auto simp: drel_def)

definition follows :: "'d dec_env \<Rightarrow> 'd jstate \<Rightarrow> nat set \<Rightarrow> nat \<Rightarrow> (int \<times> 'd decoder) option \<Rightarrow> 'd config option \<Rightarrow> bool" where
  "follows V js0 N sm r cf \<longleftrightarrow> (case cf of Some cf \<Rightarrow> \<exists>d. r = Some (0, d) \<and> drel V js0 N sm d cf | None \<Rightarrow> \<exists>d. r = Some (-1, d))"

lemma follows_simps [simp]:
  "follows V js0 N sm r (Some cf) \<longleftrightarrow> (\<exists>d. r = Some (0, d) \<and> drel V js0 N sm d cf)"
  "follows V js0 N sm r None \<longleftrightarrow> (\<exists>d. r = Some (-1, d))"
  by (simp_all add: follows_def)

lemma value_end_sim:
  assumes V: "dec_ok V" and cur: "current js0 N sm d (fs, k, PEnd v) as c"
  shows "follows V js0 N sm (value_end V d c x) (end_step fs k v x)"
proof (cases "is_space x")
  case True
  then show ?thesis using current_drel [OF V cur] by (simp add: value_end_def end_step_def)
next
  case False
  from cur obtain st1 st2 key b root where c: "ctx js0 N sm d fs as c st1"
    "dc_m d c = Some \<lparr>jm_p = top_of as, jm_complete = 0, jm_process_byte = Some (fn_of (PEnd v)), jm_buffer = b, jm_key = key, jm_root = root\<rparr>"
    by (rule currentE)
  show ?thesis
  proof (cases fs)
    case Nil
    then have "as = []" using c(1) stack_at_Nil by (auto simp: ctx_def)
    then have "jm_p m = None \<Longrightarrow> jpm_append_to_parent V (d\<lparr>dc_m := (dc_m d)(c \<mapsto> m)\<rparr>) c = Some (-1, d\<lparr>dc_m := (dc_m d)(c \<mapsto> m)\<rparr>)"
      "jpm_append_to_parent V d c = Some (-1, d)" for m using c(2) by (simp_all add: jpm_append_to_parent_def top_of_def)
    then show ?thesis using False Nil c(2) \<open>as = []\<close> by (auto simp: value_end_def end_step_def upd_m_def top_of_def)
  next
    case (Cons f fs')
    obtain arr kvs k' where f: "f = (arr, kvs, k')" by (metis prod_cases3)
    from c(1) Cons obtain a as' where as: "as = a # as'" using stack_at_Cons by (fastforce simp: ctx_def)
    note cur' = cur [unfolded Cons f as]
    show ?thesis
    proof (cases "x = 125 \<or> x = 93")
      case True
      with close_current [OF V cur' True] False Cons f show ?thesis by (simp add: end_step_def del: container.simps added_to.simps)
    next
      case n: False
      show ?thesis
      proof (cases "x = 44")
        case True
        with comma_current [OF V cur'] False Cons f show ?thesis
          by (auto simp: end_step_def simp del: container.simps added_to.simps intro: current_drel [OF V])
      next
        case False
        with n \<open>\<not> is_space x\<close> Cons f show ?thesis by (auto simp: value_end_def end_step_def)
      qed
    qed
  qed
qed

lemma number_sim:
  assumes V: "dec_ok V" and cur: "current js0 N sm d (fs, k, PNum s) as c" and x: "x \<noteq> 0"
  shows "follows V js0 N sm (number_body V d c x) (num_step (e_fpu (de_json V)) fs k s x)"
proof -
  from cur obtain st1 st2 key b root where c: "ctx js0 N sm d fs as c st1" "keyed st1 key k st2" "st_fin st2" "phase_at st2 (PNum s) b root (dc_js d)"
    "dc_m d c = Some \<lparr>jm_p = top_of as, jm_complete = 0, jm_process_byte = Some (fn_of (PNum s :: 'a phase)), jm_buffer = b, jm_key = key, jm_root = root\<rparr>"
    "well_placed fs k (PNum s :: 'a phase)" by (rule currentE)
  show ?thesis
  proof (cases "is_digit x \<or> x = 46")
    case True
    from put_byte_current [OF V cur, of s "PNum (s @ [x])" x] c(6) x obtain d' where
      "put_byte V d c x = Some (0, d')" "current js0 N sm d' (fs, k, PNum (s @ [x])) as c" by (auto simp: buffering_def)
    with True current_drel [OF V] show ?thesis by (auto simp: number_body_def num_step_def)
  next
    case False
    from c(4) obtain m where p: "sb_rep (js_mem st2) s b m" "dc_js d = st2\<lparr>js_mem := m\<rparr>" by auto
    from sb_finish_own [OF p(1)] c(6) obtain a blk n where
      f: "sb_finish m b = Some (Some a, (js_mem st2)(a \<mapsto> blk))" "a \<notin> dom (js_mem st2)" "cstr blk = Some s" "sb_start b = Some a" "sb_size b = Some n" "0 < n" by auto
    let ?st = "st2\<lparr>js_mem := (js_mem st2)(a \<mapsto> blk)\<rparr>" and ?x = "fp_strtod (e_fpu (de_json V)) s"
    have E: "env_ok (de_json V)" using V by (simp add: dec_ok_def)
    have fin: "st_fin ?st" using c(3) by (simp add: st_fin_def)
    from json_mk_owns(3) [OF E fin, of ?x] obtain r js where
      mk: "json_mknumber (de_json V) ?st ?x = (Some r, js)" "owns js (JT r p_null (LNum ?x) []) ?st" by blast
    from value_made [OF c(1,2,5) f(4,2) mk(2), of "Num ?x"] c(6) obtain d1 d2 d3 where
      d: "set_root d c (Some r, js) = Some (True, d1)" "upd_m d1 c (goto jpm_value_end) = Some d2" "free_buffer d2 c = Some d3"
        "current js0 N sm d3 (fs, k, PEnd (Num ?x)) as c" by auto
    have "number_body V d c x = value_end V d3 c x"
      using False c(5) p(2) f mk(1) d(1-3) by (simp add: number_body_def str_at_def)
    with value_end_sim [OF V d(4), of x] False show ?thesis by (simp add: num_step_def)
  qed
qed

section \<open>Keys\<close>

lemma key_end_current:
  assumes V: "dec_ok V" and cur: "current js0 N sm d (fs, k, PKey s) as c"
  shows "\<exists>d'. key_body V d c 34 = Some (0, d') \<and> current js0 N sm d' (fs, Some s, PKeyEnd) as c"
proof -
  from cur obtain st1 st2 key b root where c: "ctx js0 N sm d fs as c st1" "keyed st1 key k st2" "phase_at st2 (PKey s) b root (dc_js d)"
    "dc_m d c = Some \<lparr>jm_p = top_of as, jm_complete = 0, jm_process_byte = Some (fn_of (PKey s :: 'a phase)), jm_buffer = b, jm_key = key, jm_root = root\<rparr>"
    "well_placed fs k (PKey s :: 'a phase)" by (rule currentE)
  have k: "key = p_null" "st2 = st1" using c(2,5) by (simp_all add: keyed_def)
  from c(3) obtain m where p: "sb_rep (js_mem st1) s b m" "dc_js d = st1\<lparr>js_mem := m\<rparr>" "root = None" using k by auto
  from sb_finish_own [OF p(1)] c(5) obtain a blk n where
    f: "sb_finish m b = Some (Some a, (js_mem st1)(a \<mapsto> blk))" "a \<notin> dom (js_mem st1)" "cstr blk = Some s" "sb_size b = Some n" "0 < n" by auto
  define q where "q = \<lparr>p_value = Some a, p_flags = PROPERTY_JSON_TAG OR is_owner, p_size = word_of_nat (length s)\<rparr>"
  have E: "e_disp (de_json V) = std_types" using V by (simp add: dec_ok_def env_ok_def)
  let ?st = "st1\<lparr>js_mem := (js_mem st1)(a \<mapsto> blk)\<rparr>"
  let ?d = "d\<lparr>dc_js := ?st, dc_m := (dc_m d)(c \<mapsto> \<lparr>jm_p = top_of as, jm_complete = 0, jm_process_byte = Some jpm_key_end, jm_buffer = sb_null, jm_key = q, jm_root = None\<rparr>)\<rparr>"
  have "p_json ((js_mem st1)(a \<mapsto> blk)) (Some a) = Some q" using f(3) by (simp add: p_json_def str_at_def q_def)
  moreover have "property_free std_types m' p_null = Some (m', p_null)" for m' by (simp add: property_free_def p_null_def has_def)
  ultimately have "key_body V d c 34 = Some (0, ?d)"
    using c(4) p(2,3) f(1,4,5) E property_move_json [OF q_def] by (simp add: key_body_def upd_m_def sb_clear_def)
  moreover have "keyed st1 q (Some s) ?st" using f(2,3) by (auto simp: keyed_def q_def)
  then have "current js0 N sm ?d (fs, Some s, PKeyEnd) as c" by (rule currentI [OF c(1), rotated 3]) (use c(5) in simp_all)
  ultimately show ?thesis by blast
qed

section \<open>Containers\<close>

lemma chain_push:
  assumes "chain d N sm (ms @ [c])" and "a \<notin> dom (dc_m d)" and "dom (dc_m d') = insert a (dom (dc_m d))" and "dc_next d' = (dc_next d)(a \<mapsto> None, c \<mapsto> Some a)"
  shows "chain d' N sm (ms @ [c, a])"
proof -
  have "a \<notin> set ms" "a \<noteq> c" "a \<notin> N" using assms(1,2) by (auto simp: chain_def)
  then show ?thesis using assms by (auto simp: chain_def is_list_def lseg_append)
qed

lemma list_add_last: "h c = Some None \<Longrightarrow> a \<noteq> c \<Longrightarrow> arrow_linked_list_add (h(a \<mapsto> None)) (Some c) a = Some (Some c, h(a \<mapsto> None, c \<mapsto> Some a))"
  by (simp add: arrow_linked_list_add_def set_next_def find_last.simps domI)

lemma open_current:
  assumes V: "dec_ok V" and cur: "current js0 N sm d (fs, k, PInit) as c"
    and mk: "\<And>st. st_fin st \<Longrightarrow> \<exists>r st'. mk st = (Some r, st') \<and> owns st' (JT r p_null (if arr then LArr else LObj) []) st"
  shows "\<exists>d' a. open_container V d c (if arr then jpm_value_init else jpm_key_init) mk = Some (0, d') \<and>
    current js0 N sm d' ((arr, [], k) # fs, None, if arr then PInit else PKeyInit) (c # as) a"
proof -
  let ?l = "if arr then LArr else LObj" and ?f = "if arr then jpm_value_init else jpm_key_init"
  from cur obtain st1 st2 key b root where c: "ctx js0 N sm d fs as c st1" "keyed st1 key k st2" "st_fin st2" "phase_at st2 PInit b root (dc_js d)"
    "dc_m d c = Some \<lparr>jm_p = top_of as, jm_complete = 0, jm_process_byte = Some (fn_of (PInit :: 'a phase)), jm_buffer = b, jm_key = key, jm_root = root\<rparr>"
    "well_placed fs k (PInit :: 'a phase)" by (rule currentE)
  have p: "b = sb_null" "dc_js d = st2" "root = None" using c(4) by simp_all
  have ch: "chain d N sm (rev as @ [c])" "st_fin js0" "stack_at js0 (dc_m d) fs as st1" using c(1) by (simp_all add: ctx_def)
  have fin: "finite (dom (dc_m d))" using ch(1) by (simp add: chain_def)
  then obtain a where a: "de_alloc V (dc_m d) = Some a" "a \<notin> dom (dc_m d)" using V unfolding dec_ok_def by blast
  have dis: "a \<noteq> c" "a \<notin> set as" "c \<notin> set as" using a(2) ch(1) ctx_distinct [OF c(1)] by (auto simp: chain_def)
  have nxt: "dc_next d c = Some None" by (rule chain_last [OF ch(1)])
  from mk [OF c(3)] obtain r js where m: "mk st2 = (Some r, js)" "owns js (JT r p_null ?l []) st2" by blast
  let ?mc = "\<lparr>jm_p = top_of as, jm_complete = 0, jm_process_byte = Some jpm_value_end, jm_buffer = sb_null, jm_key = key, jm_root = Some r\<rparr>"
  let ?ma = "\<lparr>jm_p = Some c, jm_complete = 0, jm_process_byte = Some ?f, jm_buffer = sb_null, jm_key = p_null, jm_root = None\<rparr>"
  let ?d = "d\<lparr>dc_js := js, dc_m := (dc_m d)(a \<mapsto> ?ma, c \<mapsto> ?mc), dc_next := (dc_next d)(a \<mapsto> None, c \<mapsto> Some a)\<rparr>"
  have "open_container V d c ?f mk = Some (0, ?d)"
    using a c(5) p nxt dis(1) m(1) list_add_last [of "dc_next d" c a, OF nxt dis(1)]
    by (simp add: open_container_def new_machine_def json_parse_machine_init_def machine_init_def upd_m_def set_root_def fun_upd_twist)
  moreover have "current js0 N sm ?d ((arr, [], k) # fs, None, if arr then PInit else PKeyInit) (c # as) a"
  proof -
    have "\<forall>x \<in> set as. dc_m ?d x = dc_m d x" using dis by auto
    then have "stack_at js0 (dc_m ?d) fs as st1" by (rule stack_at_frame [THEN iffD2]) (rule ch(3))
    moreover have "jabs (js_mem js) (JT r p_null ?l []) (container arr [])" by simp
    ultimately have "stack_at js0 (dc_m ?d) ((arr, [], k) # fs) (c # as) js"
      using c(2,6) m(2) by (intro stack_at.simps(2) [THEN iffD2] exI conjI) (assumption | simp)+
    moreover have "chain ?d N sm (rev as @ [c, a])" by (rule chain_push [OF ch(1) a(2)]) (use c(5) in auto)
    ultimately have "ctx js0 N sm ?d ((arr, [], k) # fs) (c # as) a js" using ch(2) by (simp add: ctx_def del: stack_at.simps)
    then show ?thesis unfolding current_def using dis(1) by (auto simp: keyed_def top_of_def in_object_def)
  qed
  ultimately show ?thesis by blast
qed

lemma value_init_sim:
  assumes V: "dec_ok V" and cur: "current js0 N sm d (fs, k, PInit) as c" and x: "x \<noteq> 0"
  shows "follows V js0 N sm (value_init V d c x) (init_step (e_fpu (de_json V)) fs k x)"
proof -
  have E: "env_ok (de_json V)" using V by (simp add: dec_ok_def)
  have k: "k \<noteq> None \<longleftrightarrow> in_object fs" using cur by (auto simp: current_def)
  consider "is_space x" | "x = 123" | "x = 91" | "x = 34" | "x = 102" | "x = 116" | "\<not> is_space x" "x \<notin> {123, 91, 34, 102, 116}" by blast
  then show ?thesis
  proof cases
    case 1
    then show ?thesis using current_drel [OF V cur] by (simp add: value_init_def init_step_def)
  next
    case 2
    have "\<exists>r st'. json_mkobject (de_json V) st = (Some r, st') \<and> owns st' (JT r p_null (if False then LArr else LObj) []) st" if "st_fin st" for st
      using json_mk_owns(5) [OF E that] by auto
    from open_current [OF V cur this] 2 show ?thesis by (auto simp: value_init_def init_step_def is_space_def intro: current_drel [OF V])
  next
    case 3
    have "\<exists>r st'. json_mkarray (de_json V) st = (Some r, st') \<and> owns st' (JT r p_null (if True then LArr else LObj) []) st" if "st_fin st" for st
      using json_mk_owns(4) [OF E that] by auto
    from open_current [OF V cur this] 3 show ?thesis by (auto simp: value_init_def init_step_def is_space_def intro: current_drel [OF V])
  next
    case 4
    from start_buffer_current [OF V cur, of "PStr []"] k 4 show ?thesis
      by (auto simp: value_init_def init_step_def is_space_def buffering_def intro: current_drel [OF V])
  next
    case 5
    from goto_current [OF cur, of "PWord jpm_bool_false_a"] k 5 show ?thesis
      by (auto simp: value_init_def init_step_def is_space_def is_word_def intro: current_drel [OF V])
  next
    case 6
    from goto_current [OF cur, of "PWord jpm_bool_true_r"] k 6 show ?thesis
      by (auto simp: value_init_def init_step_def is_space_def is_word_def intro: current_drel [OF V])
  next
    case 7
    from start_buffer_current [OF V cur, of "PNum []"] k obtain d1 d2 where
      d: "start_buffer V d c = Some (0, d1)" "upd_m d1 c (goto jpm_number_body) = Some d2" "current js0 N sm d2 (fs, k, PNum []) as c"
      by (auto simp: buffering_def)
    with 7 have "value_init V d c x = number_body V d2 c x" "init_step (e_fpu (de_json V)) fs k x = num_step (e_fpu (de_json V)) fs k [] x"
      by (auto simp: value_init_def init_step_def)
    with number_sim [OF V d(3) x] show ?thesis by simp
  qed
qed

lemma word_sim:
  assumes V: "dec_ok V" and cur: "current js0 N sm d (fs, k, PWord f) as c"
  shows "follows V js0 N sm (process_byte f V d c x) (map_option (\<lambda>ph. (fs, k, ph)) (word_step f x))"
proof -
  have k: "k \<noteq> None \<longleftrightarrow> in_object fs" "is_word f" using cur by (auto simp: current_def)
  have E: "env_ok (de_json V)" using V by (simp add: dec_ok_def)
  have goto: "follows V js0 N sm (expect_char d c x y g) (if x = y then Some (fs, k, PWord g) else None)" if "is_word g" for y g
    using goto_current [OF cur, of "PWord g"] k that by (auto simp: expect_char_def intro: current_drel [OF V])
  have made: "follows V js0 N sm (bool_e V d c x v) (if x = 101 then Some (fs, k, PEnd (Bool v)) else None)" for v
  proof (cases "x = 101")
    case True
    from cur obtain st1 st2 key b root where c: "ctx js0 N sm d fs as c st1" "keyed st1 key k st2" "st_fin st2" "phase_at st2 (PWord f) b root (dc_js d)"
      "dc_m d c = Some \<lparr>jm_p = top_of as, jm_complete = 0, jm_process_byte = Some (fn_of (PWord f :: 'a phase)), jm_buffer = b, jm_key = key, jm_root = root\<rparr>"
      by (rule currentE)
    from json_mk_owns(2) [OF E c(3), of v] obtain r js where mk: "json_mkbool (de_json V) st2 v = (Some r, js)" "owns js (JT r p_null (LBool v) []) st2" by blast
    let ?d = "d\<lparr>dc_js := js, dc_m := (dc_m d)(c \<mapsto> \<lparr>jm_p = top_of as, jm_complete = 0, jm_process_byte = Some jpm_value_end, jm_buffer = sb_null, jm_key = key, jm_root = Some r\<rparr>)\<rparr>"
    have "bool_e V d c x v = Some (0, ?d)" using True c(4,5) mk(1) by (simp add: bool_e_def set_root_def upd_m_def)
    moreover have "phase_at st2 (PEnd (Bool v)) sb_null (Some r) js" using mk(2) by (auto intro!: exI [of _ "JT r p_null (LBool v) []"])
    then have "current js0 N sm ?d (fs, k, PEnd (Bool v)) as c" by (intro currentI [OF c(1) _ _ _ c(2)]) (use k in \<open>simp_all del: phase_at.simps\<close>)
    ultimately show ?thesis using True current_drel [OF V] by auto
  qed (simp add: bool_e_def)
  show ?thesis using k(2) goto [of jpm_bool_false_l 97] goto [of jpm_bool_false_s 108] goto [of jpm_bool_false_e 115] goto [of jpm_bool_true_u 114]
      goto [of jpm_bool_true_e 117] made [of False] made [of True] by (cases f) (simp_all add: is_word_def split: if_splits)
qed

lemma process_byte_sim:
  assumes V: "dec_ok V" and cur: "current js0 N sm d (fs, k, ph) as c" and x: "x \<noteq> 0"
  shows "follows V js0 N sm (process_byte (fn_of ph) V d c x) (step (e_fpu (de_json V)) (fs, k, ph) x)"
proof (cases ph)
  case PInit
  with value_init_sim [OF V _ x] cur show ?thesis by simp
next
  case (PWord f)
  with word_sim [OF V] cur show ?thesis by simp
next
  case (PStr s)
  have w: "k \<noteq> None \<longleftrightarrow> in_object fs" "0 \<notin> set s" using cur PStr by (auto simp: current_def)
  have "\<exists>d'. string_body V d c x = Some (0, d') \<and> current js0 N sm d' (fs, k, if x = 92 then PEsc s else if x = 34 then PEnd (Str s) else PStr (s @ [x])) as c"
    using goto_current [OF cur, of "PEsc s"] string_end_current [OF V, of js0 N sm d fs k s as c] put_byte_current [OF V cur, of s "PStr (s @ [x])" x] cur PStr w x
    by (auto simp: string_body_def buffering_def)
  with PStr current_drel [OF V] show ?thesis by auto
next
  case (PEsc s)
  have w: "k \<noteq> None \<longleftrightarrow> in_object fs" "0 \<notin> set s" using cur PEsc by (auto simp: current_def)
  have "unescape x \<noteq> 0" using x by (simp add: unescape_def)
  with put_byte_current [OF V cur, of s "PStr (s @ [unescape x])" "unescape x"] PEsc w show ?thesis
    by (auto simp: string_escape_def buffering_def unescape_def [symmetric] intro: current_drel [OF V])
next
  case (PNum s)
  with number_sim [OF V _ x] cur show ?thesis by simp
next
  case (PEnd v)
  with value_end_sim [OF V] cur show ?thesis by simp
next
  case PKeyInit
  have w: "in_object fs" "k = None" using cur PKeyInit by (auto simp: current_def)
  from start_buffer_current [OF V cur, of "PKey []"] PKeyInit w show ?thesis
    by (auto simp: key_init_def buffering_def is_space_def intro: current_drel [OF V] current_drel [OF V cur [unfolded PKeyInit w(2)]])
next
  case (PKey s)
  have w: "in_object fs" "k = None" "0 \<notin> set s" using cur PKey by (auto simp: current_def)
  have "\<exists>d'. key_body V d c x = Some (0, d') \<and> current js0 N sm d' (if x = 34 then (fs, Some s, PKeyEnd) else (fs, k, PKey (s @ [x]))) as c"
    using key_end_current [OF V, of js0 N sm d fs k s as c] put_byte_current [OF V cur, of s "PKey (s @ [x])" x] cur PKey w x
    by (auto simp: key_body_def buffering_def)
  with PKey current_drel [OF V] show ?thesis by auto
next
  case PKeyEnd
  have w: "in_object fs" "k \<noteq> None" using cur PKeyEnd by (auto simp: current_def)
  have "drel V js0 N sm d (fs, k, PKeyEnd)" using current_drel [OF V cur] PKeyEnd by simp
  with goto_current [OF cur, of PInit] PKeyEnd w show ?thesis
    by (auto simp: key_end_def intro: current_drel [OF V])
qed

section \<open>Bytes and texts\<close>

lemma stack_at_complete: "stack_at js0 M fs as st \<Longrightarrow> a \<in> set as \<Longrightarrow> \<exists>m. M a = Some m \<and> jm_complete m = 0"
proof (induction fs arbitrary: as st)
  case Nil
  then show ?case by (cases as) simp_all
next
  case (Cons f fs)
  obtain arr kvs k where f: "f = (arr, kvs, k)" by (metis prod_cases3)
  from Cons.prems(1) f obtain b as' where as: "as = b # as'" by (cases as) auto
  with Cons.prems(1) f obtain st1 where "stack_at js0 M fs as' st1" by auto
  with Cons.IH [OF this] Cons.prems f as show ?case by auto
qed

text \<open>A byte goes to the last machine.\<close>

lemma process_walk:
  assumes "lseg (dc_next d) (Some x) (x # xs) q" and "\<forall>a \<in> set xs. \<exists>m. dc_m d a = Some m \<and> jm_complete m = 0"
  shows "json_parse_machine_process V d x y = json_parse_machine_process V d (last (x # xs)) y"
  using assms
proof (induction xs arbitrary: x)
  case (Cons a xs)
  then have "json_parse_machine_process V d x y = json_parse_machine_process V d a y"
    by (subst json_parse_machine_process.simps) auto
  with Cons show ?case by auto
qed simp

lemma current_machines:
  assumes "current js0 N sm d cf as c"
  shows "\<exists>xs. rev as @ [c] = sm # xs \<and> lseg (dc_next d) (Some sm) (sm # xs) None \<and> (\<forall>a \<in> set (sm # xs). \<exists>m. dc_m d a = Some m \<and> jm_complete m = 0)"
proof -
  obtain fs k ph where cf: "cf = (fs, k, ph)" by (metis prod_cases3)
  from assms [unfolded cf] obtain st1 st2 key b root where c: "ctx js0 N sm d fs as c st1"
    "dc_m d c = Some \<lparr>jm_p = top_of as, jm_complete = 0, jm_process_byte = Some (fn_of ph), jm_buffer = b, jm_key = key, jm_root = root\<rparr>" by (rule currentE)
  then have s: "stack_at js0 (dc_m d) fs as st1" "lseg (dc_next d) (Some sm) (rev as @ [c]) None" by (simp_all add: ctx_def chain_def is_list_def)
  obtain x xs where xs: "rev as @ [c] = x # xs" by (metis append_is_Nil_conv list.exhaust not_Cons_self2)
  with s(2) have "x = sm" by simp
  moreover have "\<forall>a \<in> set (rev as @ [c]). \<exists>m. dc_m d a = Some m \<and> jm_complete m = 0" using c(2) stack_at_complete [OF s(1)] by simp
  ultimately show ?thesis using xs s(2) by metis
qed

lemma current_process:
  assumes "current js0 N sm d (fs, k, ph) as c"
  shows "json_parse_machine_process V d sm y = process_byte (fn_of ph) V d c y"
proof -
  from current_machines [OF assms] obtain xs where xs: "rev as @ [c] = sm # xs" "lseg (dc_next d) (Some sm) (sm # xs) None"
    "\<forall>a \<in> set (sm # xs). \<exists>m. dc_m d a = Some m \<and> jm_complete m = 0" by blast
  have "last (sm # xs) = c" by (metis xs(1) last_snoc)
  with process_walk [OF xs(2), of V y] xs(3) have "json_parse_machine_process V d sm y = json_parse_machine_process V d c y" by simp
  moreover have "dc_next d c = Some None" "\<exists>m. dc_m d c = Some m \<and> jm_process_byte m = Some (fn_of ph)"
    using assms chain_last by (auto simp: current_def ctx_def)
  ultimately show ?thesis by (subst (asm) (2) json_parse_machine_process.simps) auto
qed

text \<open>A completed machine is removed before the byte is processed.\<close>

lemma list_del_last: "h c = Some (Some a) \<Longrightarrow> h a = Some None \<Longrightarrow> a \<noteq> c \<Longrightarrow> arrow_linked_list_del h (Some c) a = Some (Some c, h(c \<mapsto> None))"
  by (simp add: arrow_linked_list_del_def del_loop.simps set_next_def domI)

lemma leftover_process:
  assumes V: "dec_ok V" and cur: "current js0 N sm d0 (fs, k, ph) as c" and l: "leftover d c a d0"
  shows "json_parse_machine_process V d sm y = json_parse_machine_process V d0 sm y"
proof -
  from l obtain m where m: "jm_complete m = 1" "jm_buffer m = sb_null" "jm_key m = p_null" "a \<noteq> c" "a \<notin> dom (dc_m d0)" "a \<notin> dom (dc_next d0)"
    "d = d0\<lparr>dc_m := (dc_m d0)(a \<mapsto> m), dc_next := (dc_next d0)(c \<mapsto> Some a, a \<mapsto> None)\<rparr>" unfolding leftover_def by blast
  from current_machines [OF cur] obtain xs where xs: "rev as @ [c] = sm # xs" "lseg (dc_next d0) (Some sm) (sm # xs) None"
    "\<forall>a \<in> set (sm # xs). \<exists>m. dc_m d0 a = Some m \<and> jm_complete m = 0" by blast
  have nxt: "dc_next d0 c = Some None" using cur chain_last by (auto simp: current_def ctx_def)
  have last: "last (sm # xs) = c" by (metis xs(1) last_snoc)
  have dis: "c \<notin> set as" "a \<notin> set as" "c \<in> set (sm # xs)" using cur m(5) by (auto simp: current_def ctx_def chain_def is_list_def xs(1) [symmetric])
  have "lseg (dc_next d0) (Some sm) (rev as) (Some c)" using xs(1,2) by (auto simp: xs(1) [symmetric] lseg_append)
  then have "lseg (dc_next d) (Some sm) (rev as) (Some c)" using dis(1,2) by (simp add: m(7))
  then have "lseg (dc_next d) (Some sm) (sm # xs) (Some a)" unfolding xs(1) [symmetric] using m(4,7) by (simp add: lseg_append)
  moreover have "\<forall>x \<in> set xs. \<exists>m. dc_m d x = Some m \<and> jm_complete m = 0" using xs(3) m(5,7) by (auto simp: domIff)
  ultimately have 1: "json_parse_machine_process V d sm y = json_parse_machine_process V d c y" using process_walk [of d sm xs "Some a" V y] last by simp
  have 2: "json_parse_machine_process V d0 sm y = json_parse_machine_process V d0 c y" using process_walk [OF xs(2), of V y] xs(3) last by simp
  have h: "(dc_next d0)(c \<mapsto> None) = dc_next d0" "(dc_m d0)(a := None) = dc_m d0" "(dc_next d0)(a := None) = dc_next d0"
    using nxt m(5,6) by (auto simp: fun_eq_iff domIff)
  have del: "arrow_linked_list_del (dc_next d) (Some c) a = Some (Some c, (dc_next d)(c \<mapsto> None))"
    by (rule list_del_last) (use m(4,7) in simp_all)
  have "(dc_next d)(c \<mapsto> None, a := None) = dc_next d0" using h(1,3) m(4) by (simp add: m(7) fun_upd_twist)
  then have "json_parse_machine_process V d c y = json_parse_machine_process V d0 c y"
    by (subst json_parse_machine_process.simps)
      (use m(1-4) del h(2) in \<open>simp add: m(7) json_parse_machine_fin_def sb_size_def sb_null_def p_null_def upd_m_def\<close>)
  with 1 2 show ?thesis by simp
qed

lemma process_sim:
  assumes "drel V js0 N sm d cf" and "x \<noteq> 0"
  shows "follows V js0 N sm (json_parse_machine_process V d sm x) (step (e_fpu (de_json V)) cf x)"
proof -
  obtain fs k ph where cf: "cf = (fs, k, ph)" by (metis prod_cases3)
  from assms(1) obtain as c d0 where d: "dec_ok V" "current js0 N sm d0 (fs, k, ph) as c" "d = d0 \<or> (\<exists>a. leftover d c a d0)" unfolding drel_def cf by blast
  then have "json_parse_machine_process V d sm x = process_byte (fn_of ph) V d0 c x"
    using leftover_process [OF d(1,2)] current_process [OF d(2)] by auto
  with process_byte_sim [OF d(1,2) assms(2)] cf show ?thesis by simp
qed

interpretation dec: stepwise "drel V js0 N sm" "\<lambda>d. json_parse_machine_process V d sm" "step (e_fpu (de_json V))" "\<lambda>x. x \<noteq> 0"
  for V js0 N sm
proof (unfold_locales, goal_cases)
  case (1 d cf x cf')
  then show ?case using process_sim [of V js0 N sm d cf x] by simp
next
  case (2 d cf x)
  then show ?case using process_sim [of V js0 N sm d cf x] by simp
qed

section \<open>Runs\<close>

fun steps :: "'d fpu \<Rightarrow> 'd config \<Rightarrow> bytes \<Rightarrow> 'd config option" where
  "steps F cf [] = Some cf"
| "steps F cf (x # xs) = Option.bind (step F cf x) (\<lambda>cf. steps F cf xs)"

lemma steps_run: "steps (e_fpu (de_json V)) cf xs = dec.arun V cf xs"
  by (induction xs arbitrary: cf) simp_all

lemma part_loop_run: "bytes_loop V d sm xs = dec.crun V sm d xs"
  by (induction xs arbitrary: d) (simp_all add: case_prod_unfold cong: if_cong)

text \<open>The parts of a text, until one of them is refused.\<close>

fun feed :: "'d dec_env \<Rightarrow> 'd decoder \<Rightarrow> nat \<Rightarrow> bytes list \<Rightarrow> (bool \<times> 'd decoder) option" where
  "feed V d sm [] = Some (True, d)"
| "feed V d sm (s # ss) = do {
     (r, d) \<leftarrow> json_decode_part V d sm s;
     if r \<noteq> int (length s) then Some (False, d) else feed V d sm ss
   }"

lemma part_sim:
  assumes "drel V js0 N sm d cf" and "0 \<notin> set s"
  shows "case steps (e_fpu (de_json V)) cf s of
      Some cf' \<Rightarrow> \<exists>d'. json_decode_part V d sm s = Some (int (length s), d') \<and> drel V js0 N sm d' cf'
    | None \<Rightarrow> \<exists>d'. json_decode_part V d sm s = Some (-1, d')"
proof -
  have "\<forall>x \<in> set s. x \<noteq> 0" using assms(2) by auto
  from dec.run_sim [OF assms(1) this] show ?thesis
    unfolding steps_run by (auto simp: json_decode_part_def part_loop_run split: option.splits)
qed

lemma steps_append: "steps F cf (xs @ ys) = Option.bind (steps F cf xs) (\<lambda>cf. steps F cf ys)"
  by (induction xs arbitrary: cf) (auto simp: Option.bind_assoc)

lemma feed_sim:
  assumes "drel V js0 N sm d cf" and "0 \<notin> set (concat ss)"
  shows "case steps (e_fpu (de_json V)) cf (concat ss) of
      Some cf' \<Rightarrow> \<exists>d'. feed V d sm ss = Some (True, d') \<and> drel V js0 N sm d' cf'
    | None \<Rightarrow> \<exists>d'. feed V d sm ss = Some (False, d')"
  using assms
proof (induction ss arbitrary: d cf)
  case (Cons s ss)
  have z: "0 \<notin> set s" "0 \<notin> set (concat ss)" using Cons.prems(2) by auto
  show ?case
  proof (cases "steps (e_fpu (de_json V)) cf s")
    case None
    with part_sim [OF Cons.prems(1) z(1)] show ?thesis by (auto simp: steps_append)
  next
    case (Some cf')
    with part_sim [OF Cons.prems(1) z(1)] obtain d' where d: "json_decode_part V d sm s = Some (int (length s), d')" "drel V js0 N sm d' cf'" by auto
    then have f: "feed V d sm (s # ss) = feed V d' sm ss" by simp
    show ?thesis unfolding f concat.simps steps_append Some bind.bind_lunit by (rule Cons.IH [OF d(2) z(2)])
  qed
qed simp

section \<open>The start and the end\<close>

lemma json_decode_init_current:
  assumes "st_fin (dc_js d)" and "finite (dom (dc_m d))" and "sm \<in> dom (dc_m d)" and "sm \<in> dom (dc_next d)"
  shows "\<exists>d'. json_decode_init d sm = Some d' \<and> current (dc_js d) (dom (dc_m d) - {sm}) sm d' ([], None, PInit) [] sm"
proof -
  let ?d = "d\<lparr>dc_m := (dc_m d)(sm \<mapsto> machine_init), dc_next := (dc_next d)(sm \<mapsto> None)\<rparr>"
  have "json_decode_init d sm = Some ?d" using assms(3,4) by (auto simp: json_decode_init_def json_parse_machine_init_def)
  moreover have "chain ?d (dom (dc_m d) - {sm}) sm [sm]" using assms(2) by (auto simp: chain_def is_list_def)
  then have "ctx (dc_js d) (dom (dc_m d) - {sm}) sm ?d [] [] sm (dc_js d)" using assms(1) by (simp add: ctx_def)
  then have "current (dc_js d) (dom (dc_m d) - {sm}) sm ?d ([], None, PInit) [] sm"
    by (auto simp: current_def in_object_def keyed_def machine_init_def top_of_def)
  ultimately show ?thesis by blast
qed

lemma json_decode_init_rel:
  assumes "dec_ok V" and "st_fin (dc_js d)" and "finite (dom (dc_m d))" and "sm \<in> dom (dc_m d)" and "sm \<in> dom (dc_next d)"
  shows "\<exists>d'. json_decode_init d sm = Some d' \<and> drel V (dc_js d) (dom (dc_m d) - {sm}) sm d' ([], None, PInit)"
  using json_decode_init_current [OF assms(2-5)] current_drel [OF assms(1)] by blast

lemma fin_idle:
  assumes "dc_m d a = Some m" and "jm_buffer m = sb_null" and "jm_key m = p_null"
  shows "json_parse_machine_fin V d a = Some (d\<lparr>dc_m := (dc_m d)(a \<mapsto> m\<lparr>jm_process_byte := None, jm_p := None, jm_root := None\<rparr>)\<rparr>)"
  using assms by (cases m) (simp add: json_parse_machine_fin_def sb_size_def sb_null_def p_null_def upd_m_def)

lemma json_decode_finish_tree:
  assumes "drel V js0 N sm d ([], None, PEnd v)"
  shows "\<exists>T d'. json_decode_finish V d sm = Some (Some (ja T), d') \<and> owns (dc_js d') T js0 \<and> jk T = p_null \<and> jabs (js_mem (dc_js d')) T v \<and>
    dom (dc_m d') = insert sm N \<and> sm \<in> dom (dc_next d')"
proof -
  from assms obtain as c d0 where D: "current js0 N sm d0 ([], None, PEnd v) as c" "d = d0 \<or> (\<exists>a. leftover d c a d0)" unfolding drel_def by blast
  from D(1) obtain st1 st2 key b root where c: "ctx js0 N sm d0 [] as c st1" "keyed st1 key None st2" "phase_at st2 (PEnd v) b root (dc_js d0)"
    "dc_m d0 c = Some \<lparr>jm_p = top_of as, jm_complete = 0, jm_process_byte = Some (fn_of (PEnd v)), jm_buffer = b, jm_key = key, jm_root = root\<rparr>"
    by (rule currentE)
  have as: "as = []" "st1 = js0" using c(1) by (cases as; simp add: ctx_def)+
  then have ch: "chain d0 N sm [c]" using c(1) by (simp add: ctx_def)
  then have sm: "c = sm" "dc_next d0 sm = Some None" "dom (dc_m d0) = insert sm N" "sm \<notin> N" by (auto simp: chain_def is_list_def)
  from c(2,3) as obtain T where T: "owns (dc_js d0) T js0" "jk T = p_null" "jabs (js_mem (dc_js d0)) T v" "root = Some (ja T)" "b = sb_null" "key = p_null"
    by (auto simp: keyed_def)
  have m: "dc_m d0 sm = Some \<lparr>jm_p = None, jm_complete = 0, jm_process_byte = Some jpm_value_end, jm_buffer = sb_null, jm_key = p_null, jm_root = Some (ja T)\<rparr>"
    using c(4) sm(1) T(4-6) as by (simp add: top_of_def)
  have "\<exists>d'. json_decode_finish V d sm = Some (Some (ja T), d') \<and> dc_js d' = dc_js d0 \<and> dom (dc_m d') = insert sm N \<and> sm \<in> dom (dc_next d')"
  proof (cases "d = d0")
    case True
    then show ?thesis using m sm fin_idle [OF m] by (auto simp: json_decode_finish_def fin_loop.simps)
  next
    case False
    with D(2) sm(1) obtain a n where l: "jm_buffer n = sb_null" "jm_key n = p_null" "a \<noteq> sm" "a \<notin> dom (dc_m d0)" "a \<notin> dom (dc_next d0)"
      "d = d0\<lparr>dc_m := (dc_m d0)(a \<mapsto> n), dc_next := (dc_next d0)(sm \<mapsto> Some a, a \<mapsto> None)\<rparr>" unfolding leftover_def by blast
    have n: "dc_m d a = Some n" "dc_next d a = Some None" "dc_next d sm = Some (Some a)" using l(3,6) by simp_all
    let ?d = "d\<lparr>dc_m := (dc_m d0)(a := None), dc_next := (dc_next d)(a := None)\<rparr>"
    have "fin_loop V d (Some a) = Some ?d"
      using n(2) fin_idle [OF n(1) l(1,2)] l(6) by (subst fin_loop.simps) (simp add: fin_loop.simps)
    moreover have m': "dc_m ?d sm = Some \<lparr>jm_p = None, jm_complete = 0, jm_process_byte = Some jpm_value_end, jm_buffer = sb_null, jm_key = p_null, jm_root = Some (ja T)\<rparr>"
      using m l(3) by simp
    ultimately show ?thesis using m l(3,6) n(3) fin_idle [OF m'] sm(3) l(4) by (auto simp: json_decode_finish_def)
  qed
  with T(1-3) show ?thesis by metis
qed

section \<open>Texts\<close>

text \<open>The texts that the parser is made for: no null, no negative numbers, no exponents, no empty containers. In a string a backslash stands
  before a character that is taken as it is, except \<open>n\<close> and \<open>t\<close>; a key is taken as it is.\<close>

definition blanks :: "bytes \<Rightarrow> bool" where
  "blanks w \<longleftrightarrow> (\<forall>c \<in> set w. is_space c)"

inductive stream_str :: "bytes \<Rightarrow> bytes \<Rightarrow> bool" where
  st_Nil: "stream_str [] []"
| st_plain: "c \<notin> {0, 34, 92} \<Longrightarrow> stream_str s t \<Longrightarrow> stream_str (c # s) (c # t)"
| st_esc: "e \<noteq> 0 \<Longrightarrow> stream_str s t \<Longrightarrow> stream_str (unescape e # s) (92 # e # t)"

inductive stream_val :: "'d fpu \<Rightarrow> 'd json \<Rightarrow> bytes \<Rightarrow> bool"
  and stream_elems :: "'d fpu \<Rightarrow> 'd json list \<Rightarrow> bytes \<Rightarrow> bool"
  and stream_members :: "'d fpu \<Rightarrow> (bytes \<times> 'd json) list \<Rightarrow> bytes \<Rightarrow> bool" for F :: "'d fpu" where
  vt_true: "stream_val F (Bool True) lit_true"
| vt_false: "stream_val F (Bool False) lit_false"
| vt_str: "stream_str s t \<Longrightarrow> stream_val F (Str s) (34 # t @ [34])"
| vt_num: "s \<noteq> [] \<Longrightarrow> \<forall>c \<in> set s. is_digit c \<or> c = 46 \<Longrightarrow> stream_val F (Num (fp_strtod F s)) s"
| vt_arr: "stream_elems F vs t \<Longrightarrow> stream_val F (Arr vs) (91 # t @ [93])"
| vt_obj: "stream_members F kvs t \<Longrightarrow> stream_val F (Obj kvs) (123 # t @ [125])"
| et_one: "blanks w \<Longrightarrow> stream_val F v t \<Longrightarrow> blanks w' \<Longrightarrow> stream_elems F [v] (w @ t @ w')"
| et_more: "blanks w \<Longrightarrow> stream_val F v t \<Longrightarrow> blanks w' \<Longrightarrow> stream_elems F vs t' \<Longrightarrow> stream_elems F (v # vs) (w @ t @ w' @ 44 # t')"
| mt_one: "blanks w1 \<Longrightarrow> 0 \<notin> set k \<Longrightarrow> 34 \<notin> set k \<Longrightarrow> blanks w2 \<Longrightarrow> blanks w3 \<Longrightarrow> stream_val F v t \<Longrightarrow> blanks w4 \<Longrightarrow>
    stream_members F [(k, v)] (w1 @ 34 # k @ 34 # w2 @ 58 # w3 @ t @ w4)"
| mt_more: "blanks w1 \<Longrightarrow> 0 \<notin> set k \<Longrightarrow> 34 \<notin> set k \<Longrightarrow> blanks w2 \<Longrightarrow> blanks w3 \<Longrightarrow> stream_val F v t \<Longrightarrow> blanks w4 \<Longrightarrow> stream_members F kvs t' \<Longrightarrow>
    stream_members F ((k, v) # kvs) (w1 @ 34 # k @ 34 # w2 @ 58 # w3 @ t @ w4 @ 44 # t')"

lemma steps_blanks:
  assumes "blanks w"
  shows "steps F (fs, k, PInit) (w @ r) = steps F (fs, k, PInit) r" and "steps F (fs, k, PEnd v) (w @ r) = steps F (fs, k, PEnd v) r"
    and "steps F (fs, k, PKeyInit) (w @ r) = steps F (fs, k, PKeyInit) r" and "steps F (fs, k, PKeyEnd) (w @ r) = steps F (fs, k, PKeyEnd) r"
  using assms by (induction w) (simp_all add: blanks_def init_step_def end_step_def)

lemma steps_str: "stream_str s t \<Longrightarrow> steps F (fs, k, PStr u) (t @ 34 # r) = steps F (fs, k, PEnd (Str (u @ s))) r"
  by (induction s t arbitrary: u rule: stream_str.induct) simp_all

lemma steps_key: "34 \<notin> set s \<Longrightarrow> steps F (fs, k, PKey u) (s @ 34 # r) = steps F (fs, Some (u @ s), PKeyEnd) r"
  by (induction s arbitrary: u) auto

definition delimited :: "'d json \<Rightarrow> bytes \<Rightarrow> bool" where
  "delimited v r \<longleftrightarrow> (\<forall>d. v = Num d \<longrightarrow> (\<exists>c s. r = c # s \<and> \<not> is_digit c \<and> c \<noteq> 46))"

lemma steps_num:
  assumes "\<forall>c \<in> set s. is_digit c \<or> c = 46" and "delimited (Num (fp_strtod F (u @ s))) r"
  shows "steps F (fs, k, PNum u) (s @ r) = steps F (fs, k, PEnd (Num (fp_strtod F (u @ s)))) r"
  using assms
proof (induction s arbitrary: u)
  case Nil
  then show ?case by (auto simp: delimited_def num_step_def)
next
  case (Cons c s)
  then show ?case using Cons.IH [of "u @ [c]"] by (simp add: num_step_def)
qed

lemma steps_PNum_first: "is_digit c \<or> c = 46 \<Longrightarrow> step F (fs, k, PInit) c = Some (fs, k, PNum [c])"
  by (auto simp: init_step_def num_step_def is_digit_def is_space_def)

lemma delimited_blank: "blanks w \<Longrightarrow> c \<in> {44, 93, 125} \<Longrightarrow> delimited v (w @ c # r)"
  by (cases w) (auto simp: delimited_def blanks_def is_space_def is_digit_def)

lemma steps_texts:
  "stream_val F v t \<Longrightarrow> (\<And>fs k r. delimited v r \<Longrightarrow> steps F (fs, k, PInit) (t @ r) = steps F (fs, k, PEnd v) r)"
  "stream_elems F vs t' \<Longrightarrow> (\<And>fs k' kvs r. steps F ((True, kvs, k') # fs, None, PInit) (t' @ 93 # r) = steps F (fs, k', PEnd (Arr (map snd kvs @ vs))) r)"
  "stream_members F ms t'' \<Longrightarrow> (\<And>fs k' kvs r. steps F ((False, kvs, k') # fs, None, PKeyInit) (t'' @ 125 # r) = steps F (fs, k', PEnd (Obj (kvs @ ms))) r)"
proof (induction rule: stream_val_stream_elems_stream_members.inducts)
  case vt_true
  then show ?case by (simp add: lit_true_def init_step_def is_space_def)
next
  case vt_false
  then show ?case by (simp add: lit_false_def init_step_def is_space_def)
next
  case (vt_str s t)
  then show ?case using steps_str [of s t F fs k "[]" r] by (simp add: init_step_def is_space_def)
next
  case (vt_num s)
  then obtain c s' where "s = c # s'" by (cases s) auto
  with vt_num steps_PNum_first [of c F fs k] steps_num [of s' F "[c]" r fs k] show ?case by simp
next
  case (vt_arr vs t)
  then show ?case by (simp add: init_step_def is_space_def)
next
  case (vt_obj kvs t)
  then show ?case by (simp add: init_step_def is_space_def)
next
  case (et_one w v t w')
  from et_one.IH(2) [OF delimited_blank [OF et_one.hyps(2), of 93]] show ?case
    by (simp add: steps_blanks [OF et_one.hyps(1)] steps_blanks [OF et_one.hyps(2)] end_step_def is_space_def)
next
  case (et_more w v t w' vs t')
  from et_more.IH(2) [OF delimited_blank [OF et_more.hyps(2), of 44]] show ?case
    by (simp add: steps_blanks [OF et_more.hyps(1)] steps_blanks [OF et_more.hyps(2)] end_step_def is_space_def et_more.IH(4))
next
  case (mt_one w1 k w2 w3 v t w4)
  from mt_one.IH(2) [OF delimited_blank [OF mt_one.hyps(6), of 125]] show ?case
    by (simp add: steps_blanks [OF mt_one.hyps(1)] steps_blanks [OF mt_one.hyps(4)] steps_blanks [OF mt_one.hyps(5)] steps_blanks [OF mt_one.hyps(6)]
        steps_key [OF mt_one.hyps(3)] end_step_def is_space_def)
next
  case (mt_more w1 k w2 w3 v t w4 kvs' t')
  from mt_more.IH(2) [OF delimited_blank [OF mt_more.hyps(6), of 44]] show ?case
    by (simp add: steps_blanks [OF mt_more.hyps(1)] steps_blanks [OF mt_more.hyps(4)] steps_blanks [OF mt_more.hyps(5)] steps_blanks [OF mt_more.hyps(6)]
        steps_key [OF mt_more.hyps(3)] end_step_def is_space_def mt_more.IH(4))
qed

lemma stream_str_nonzero: "stream_str s t \<Longrightarrow> 0 \<notin> set t"
  by (induction rule: stream_str.induct) auto

lemma blanks_nonzero: "blanks w \<Longrightarrow> 0 \<notin> set w"
  by (auto simp: blanks_def is_space_def)

lemma texts_nonzero:
  "stream_val F v t \<Longrightarrow> 0 \<notin> set t"
  "stream_elems F vs t' \<Longrightarrow> 0 \<notin> set t'"
  "stream_members F ms t'' \<Longrightarrow> 0 \<notin> set t''"
  by (induction rule: stream_val_stream_elems_stream_members.inducts)
    (auto simp: lit_true_def lit_false_def is_digit_def dest: stream_str_nonzero blanks_nonzero)

definition is_tree :: "'d json \<Rightarrow> bool" where
  "is_tree v \<longleftrightarrow> (\<exists>vs. v = Arr vs) \<or> (\<exists>kvs. v = Obj kvs)"

lemma steps_document:
  assumes "blanks w" and "stream_val F v t" and "is_tree v" and "blanks w'"
  shows "steps F ([], None, PInit) (w @ t @ w') = Some ([], None, PEnd v)"
proof -
  have "delimited v w'" using assms(3) by (auto simp: delimited_def is_tree_def)
  from steps_texts(1) [OF assms(2) this] show ?thesis
    using steps_blanks(2) [OF assms(4), of F "[]" None v "[]"] by (simp add: steps_blanks(1) [OF assms(1)])
qed

section \<open>Properties\<close>

definition decoder_ready :: "'d decoder \<Rightarrow> nat \<Rightarrow> bool" where
  "decoder_ready d sm \<longleftrightarrow> st_fin (dc_js d) \<and> finite (dom (dc_m d)) \<and> sm \<in> dom (dc_m d) \<and> sm \<in> dom (dc_next d)"

lemma stream_document:
  assumes V: "dec_ok V" and d: "decoder_ready d sm" and t: "blanks w" "stream_val (e_fpu (de_json V)) v t" "is_tree v" "blanks w'" and ss: "concat ss = w @ t @ w'"
  shows "\<exists>d1 d2 d3 T. json_decode_init d sm = Some d1 \<and> feed V d1 sm ss = Some (True, d2) \<and> json_decode_finish V d2 sm = Some (Some (ja T), d3) \<and>
    owns (dc_js d3) T (dc_js d) \<and> jk T = p_null \<and> jabs (js_mem (dc_js d3)) T v \<and> dom (dc_m d3) = dom (dc_m d) \<and> sm \<in> dom (dc_next d3)"
proof -
  from json_decode_init_rel [OF V, of d sm] d obtain d1 where
    d1: "json_decode_init d sm = Some d1" "drel V (dc_js d) (dom (dc_m d) - {sm}) sm d1 ([], None, PInit)" by (auto simp: decoder_ready_def)
  have "0 \<notin> set (concat ss)" unfolding ss using texts_nonzero(1) [OF t(2)] blanks_nonzero [OF t(1)] blanks_nonzero [OF t(4)] by auto
  from feed_sim [OF d1(2) this] steps_document [OF t] ss obtain d2 where
    d2: "feed V d1 sm ss = Some (True, d2)" "drel V (dc_js d) (dom (dc_m d) - {sm}) sm d2 ([], None, PEnd v)" by auto
  from json_decode_finish_tree [OF d2(2)] d1(1) d2(1) d show ?thesis by (fastforce simp: decoder_ready_def insert_absorb)
qed

text \<open>C3. Decoding in parts: when an array or object is fed to the decoder as a text in any parts, all of them are accepted, and the
  tree that is returned at the end stands for the value and owns exactly the new memory; every machine that was allocated on the way has been freed.\<close>

theorem json_decode_parts_correct:
  assumes "dec_ok V" and "decoder_ready d sm" and "blanks w" and "stream_val (e_fpu (de_json V)) v t" and "is_tree v" and "blanks w'"
    and "concat ss = w @ t @ w'"
  shows "\<exists>d1 d2 d3 T. json_decode_init d sm = Some d1 \<and> feed V d1 sm ss = Some (True, d2) \<and> json_decode_finish V d2 sm = Some (Some (ja T), d3) \<and>
    owns (dc_js d3) T (dc_js d) \<and> jabs (js_mem (dc_js d3)) T v \<and> dom (dc_m d3) = dom (dc_m d)"
  using stream_document [OF assms] by blast

text \<open>A decoder whose machines are at the lowest free addresses, and the text of an array in two parts.\<close>

definition least_machine :: "(nat \<rightharpoonup> json_parse_machine_t) \<Rightarrow> nat option" where
  "least_machine M = (if finite (dom M) then Some (LEAST a. a \<notin> dom M) else None)"

definition dec_example :: "int dec_env" where
  "dec_example = \<lparr>de_json = int_env, de_alloc = least_machine\<rparr>"

definition decoder_example :: "int decoder" where
  "decoder_example = \<lparr>dc_js = st_empty, dc_m = [0 \<mapsto> machine_init], dc_next = [0 \<mapsto> None]\<rparr>"

lemma dec_ok_least:
  assumes "env_ok E"
  shows "dec_ok \<lparr>de_json = E, de_alloc = least_machine\<rparr>"
proof -
  have "(LEAST a. a \<notin> dom M) \<notin> dom M" if "finite (dom M)" for M :: "nat \<rightharpoonup> json_parse_machine_t"
    using ex_new_if_finite [OF infinite_UNIV_nat that] by (rule LeastI_ex)
  then show ?thesis using assms by (auto simp: dec_ok_def least_machine_def split: if_splits)
qed

lemma dec_example_ok: "dec_ok dec_example"
  unfolding dec_example_def by (rule dec_ok_least [OF int_env_ok])

lemma decoder_example_ready: "decoder_ready decoder_example 0"
  by (simp add: decoder_ready_def decoder_example_def)

theorem json_decode_parts_correct_witness:
  "\<exists>d1 d2 d3 T. json_decode_init decoder_example 0 = Some d1 \<and> feed dec_example d1 0 [[91, 49], [50, 44, 34, 92], [110, 34, 93]] = Some (True, d2) \<and>
    json_decode_finish dec_example d2 0 = Some (Some (ja T), d3) \<and> owns (dc_js d3) T st_empty \<and> jabs (js_mem (dc_js d3)) T (Arr [Num 12, Str [10]])"
proof -
  let ?F = "e_fpu (de_json dec_example)"
  have n: "fp_strtod ?F [49, 50] = 12" by (simp add: dec_example_def int_env_def int_fpu_def is_digit_def)
  have "stream_val ?F (Num 12) [49, 50]" using vt_num [of "[49, 50]" ?F] n by (simp add: is_digit_def)
  moreover have "stream_str [10] [92, 110]" using st_esc [of 110 "[]" "[]"] st_Nil by (simp add: unescape_def)
  then have "stream_val ?F (Str [10]) [34, 92, 110, 34]" using vt_str [of "[10]" "[92, 110]" ?F] by simp
  then have "stream_elems ?F [Str [10]] [34, 92, 110, 34]" using et_one [of "[]" ?F _ _ "[]"] by (simp add: blanks_def)
  ultimately have "stream_elems ?F [Num 12, Str [10]] [49, 50, 44, 34, 92, 110, 34]"
    using et_more [of "[]" ?F "Num 12" "[49, 50]" "[]"] by (simp add: blanks_def)
  then have v: "stream_val ?F (Arr [Num 12, Str [10]]) [91, 49, 50, 44, 34, 92, 110, 34, 93]" using vt_arr [of ?F] by force
  from json_decode_parts_correct [OF dec_example_ok decoder_example_ready _ v, of "[]" "[]" "[[91, 49], [50, 44, 34, 92], [110, 34, 93]]"] show ?thesis
    by (fastforce simp: blanks_def is_tree_def decoder_example_def)
qed

text \<open>C12. The decoder is an automaton: on any bytes without a null character it is defined and accepts them exactly when the automaton with a stack reads
  them; how the bytes are cut into parts does not matter.\<close>

theorem json_decode_parts_total:
  assumes "dec_ok V" and "decoder_ready d sm" and "0 \<notin> set (concat ss)"
  shows "\<exists>d1 d2. json_decode_init d sm = Some d1 \<and>
    feed V d1 sm ss = Some (steps (e_fpu (de_json V)) ([], None, PInit) (concat ss) \<noteq> None, d2)"
proof -
  from json_decode_init_rel [OF assms(1), of d sm] assms(2) obtain d1 where
    d1: "json_decode_init d sm = Some d1" "drel V (dc_js d) (dom (dc_m d) - {sm}) sm d1 ([], None, PInit)" by (auto simp: decoder_ready_def)
  from feed_sim [OF d1(2) assms(3)] d1(1) show ?thesis by (auto split: option.splits)
qed

theorem json_decode_parts_total_witness:
  "(\<exists>d1 d2. json_decode_init decoder_example 0 = Some d1 \<and> feed dec_example d1 0 [[91], [93]] = Some (True, d2)) \<and>
   (\<exists>d1 d2. json_decode_init decoder_example 0 = Some d1 \<and> feed dec_example d1 0 [[123], [125]] = Some (False, d2))"
proof -
  have "steps (e_fpu (de_json dec_example)) ([], None, PInit) (concat [[91], [93]]) \<noteq> None"
    "steps (e_fpu (de_json dec_example)) ([], None, PInit) (concat [[123], [125]]) = None"
    by (simp_all add: init_step_def num_step_def end_step_def is_space_def is_digit_def)
  then show ?thesis
    using json_decode_parts_total [OF dec_example_ok decoder_example_ready, of "[[91], [93]]"]
      json_decode_parts_total [OF dec_example_ok decoder_example_ready, of "[[123], [125]]"] by (simp del: steps.simps)
qed

text \<open>An empty array is read as an array of one number, the value of an empty string.\<close>

lemma empty_array_reads_number: "steps F ([], None, PInit) [91, 93] = Some ([], None, PEnd (Arr [Num (fp_strtod F [])]))"
  by (simp add: init_step_def num_step_def end_step_def is_space_def is_digit_def)

text \<open>An object whose first byte is neither white space nor a quotation mark is refused. The list of the machines is freed by \<open>json_decode_finish\<close>, but the
  first machine still points to it, so that a second call reads freed memory.\<close>

lemma second_finish_undefined:
  assumes V: "dec_ok V" and d: "decoder_ready d sm" and x: "\<not> is_space x" "x \<noteq> 34" "x \<noteq> 0"
  shows "\<exists>d1 d2 d3 r. json_decode_init d sm = Some d1 \<and> json_decode_part V d1 sm [123, x] = Some (-1, d2) \<and> json_decode_finish V d2 sm = Some (Some r, d3) \<and>
    owns (dc_js d3) (JT r p_null LObj []) (dc_js d) \<and> (\<forall>js. json_decode_finish V (d3\<lparr>dc_js := js\<rparr>) sm = None)"
proof -
  let ?N = "dom (dc_m d) - {sm}" and ?cf = "([(False, [], None)], None, PKeyInit) :: 'a config"
  from json_decode_init_current [of d sm] d obtain d1 where
    d1: "json_decode_init d sm = Some d1" "current (dc_js d) ?N sm d1 ([], None, PInit) [] sm" by (auto simp: decoder_ready_def)
  have E: "env_ok (de_json V)" using V by (simp add: dec_ok_def)
  have "\<exists>r st'. json_mkobject (de_json V) st = (Some r, st') \<and> owns st' (JT r p_null (if False then LArr else LObj) []) st" if "st_fin st" for st
    using json_mk_owns(5) [OF E that] by auto
  from open_current [OF V d1(2) this] obtain d2 a where
    d2: "open_container V d1 sm jpm_key_init (json_mkobject (de_json V)) = Some (0, d2)" "current (dc_js d) ?N sm d2 ?cf [sm] a" by auto
  have "json_parse_machine_process V d1 sm 123 = Some (0, d2)" "json_parse_machine_process V d2 sm x = Some (-1, d2)"
    using current_process [OF d1(2), of V 123] current_process [OF d2(2), of V x] d2(1) x by (simp_all add: value_init_def key_init_def is_space_def)
  then have part: "json_decode_part V d1 sm [123, x] = Some (-1, d2)" by (simp add: json_decode_part_def)
  from d2(2) obtain st1 st2 key b root where c: "ctx (dc_js d) ?N sm d2 [(False, [], None)] [sm] a st1" "keyed st1 key None st2" "phase_at st2 PKeyInit b root (dc_js d2)"
    "dc_m d2 a = Some \<lparr>jm_p = top_of [sm], jm_complete = 0, jm_process_byte = Some (fn_of (PKeyInit :: 'a phase)), jm_buffer = b, jm_key = key, jm_root = root\<rparr>"
    by (rule currentE)
  then have i: "jm_buffer (the (dc_m d2 a)) = sb_null" "jm_key (the (dc_m d2 a)) = p_null" "dc_js d2 = st1" by (auto simp: keyed_def)
  have ch: "chain d2 ?N sm ([] @ [sm, a])" using c(1) by (simp add: ctx_def)
  note n = chain_top [OF ch]
  have sa: "sm \<noteq> a" using ch by (auto simp: chain_def is_list_def)
  from c(1) obtain r cs m where r: "owns st1 (JT r p_null LObj cs) (dc_js d)" "cs = []" "dc_m d2 sm = Some m" "jm_buffer m = sb_null" "jm_key m = p_null" "jm_root m = Some r"
    by (auto simp: ctx_def keyed_def)
  let ?d = "d2\<lparr>dc_m := (dc_m d2)(a := None), dc_next := (dc_next d2)(a := None)\<rparr>"
  have "fin_loop V d2 (Some a) = Some ?d"
    using n fin_idle [of d2 a "the (dc_m d2 a)" V] c(4) i by (subst fin_loop.simps) (simp add: fin_loop.simps)
  moreover have "dc_m ?d sm = Some m" using r(3) sa by simp
  note f = fin_idle [OF this r(4,5), of V]
  let ?d3 = "?d\<lparr>dc_m := (dc_m ?d)(sm \<mapsto> m\<lparr>jm_process_byte := None, jm_p := None, jm_root := None\<rparr>)\<rparr>"
  from f have "json_parse_machine_fin V ?d sm = Some ?d3" .
  ultimately have "json_decode_finish V d2 sm = Some (Some r, ?d3)" using r(3,6) n by (simp add: json_decode_finish_def)
  moreover have "\<forall>js. json_decode_finish V (?d3\<lparr>dc_js := js\<rparr>) sm = None" using n sa by (simp add: json_decode_finish_def fin_loop.simps)
  moreover have "owns (dc_js ?d3) (JT r p_null LObj []) (dc_js d)" using r(1,2) i(3) by simp
  ultimately show ?thesis using d1(1) part by blast
qed

end
