(* ===== verification/Event_Auth.thy ===== *)
theory Event_Auth
  imports Events Json_Stream
begin

text \<open>
  What \<open>process_event_finish\<close> does with the tree of a message: an event enters the queue exactly when the message is not signed or its signature is
  the one of its fields. The proofs follow the ownership of the tree: the strings of the event are new objects, the parameters are
  detached, and everything else is given back.
\<close>

section \<open>Trees\<close>

text \<open>Looking up a member finds the first one with the name.\<close>

lemma own_key_not_raw: "own_key k \<Longrightarrow> \<not> has (p_flags k) is_raw"
  by (auto simp: own_key_def p_null_def has_def tag_defs)

lemma find_member_first:
  assumes "jreps js par prv cs None" and "list_all2 (\<lambda>T kv. str_at (js_mem js) (p_value (jk T)) = Some (fst kv) \<and> jabs (js_mem js) T (snd kv)) cs kvs"
    and "\<forall>T \<in> set cs. own_keys T" and "str_at (js_mem js) (p_value key) = Some x"
  shows "case map_of kvs x of
      None \<Rightarrow> find_member_loop js (firstp cs) key = Some None
    | Some v \<Rightarrow> \<exists>ds T Ts kd kt. cs = ds @ T # Ts \<and> kvs = kd @ (x, v) # kt \<and> length kd = length ds \<and> find_member_loop js (firstp cs) key = Some (Some (ja T)) \<and>
        jabs (js_mem js) T v \<and> (\<exists>n p q. nodes js (ja T) = Some n \<and> node_ok n par p q (jk T) (jl T) (jc T))"
  using assms(1-3)
proof (induction cs arbitrary: prv kvs)
  case Nil
  then show ?case by (simp add: find_member_loop.simps)
next
  case (Cons T Ts)
  from Cons.prems(2) obtain k v kvs' where kv: "kvs = (k, v) # kvs'" "str_at (js_mem js) (p_value (jk T)) = Some k" "jabs (js_mem js) T v"
    "list_all2 (\<lambda>T kv. str_at (js_mem js) (p_value (jk T)) = Some (fst kv) \<and> jabs (js_mem js) T (snd kv)) Ts kvs'"
    by (auto simp: list_all2_Cons1)
  obtain n where n: "nodes js (ja T) = Some n" "node_ok n par prv (if Ts = [] then None else firstp Ts) (jk T) (jl T) (jc T)"
    using Cons.prems(1) by (cases T) auto
  have nn: "n_next n = firstp Ts" "n_key n = jk T" using n(2) by (auto simp: node_ok_def)
  have "own_key (jk T)" using Cons.prems(3) by (cases T) auto
  from property_cmp_correct [OF own_key_not_raw [OF this] kv(2) assms(4)]
  have loop: "find_member_loop js (firstp (T # Ts)) key = (if k = x then Some (Some (ja T)) else find_member_loop js (firstp Ts) key)"
    by (subst find_member_loop.simps) (simp add: get_node_def n(1) nn)
  show ?case
  proof (cases "k = x")
    case True
    with loop kv n show ?thesis
      by (simp, intro exI [of _ "[]"] exI [of _ T] exI [of _ Ts] conjI exI [of _ kvs']) auto
  next
    case False
    have "jreps js par (Some (ja T)) Ts None" "\<forall>T \<in> set Ts. own_keys T" using Cons.prems(1,3) by auto
    note ih = Cons.IH [OF this(1) kv(4) this(2)]
    show ?thesis
    proof (cases "map_of kvs' x")
      case None
      with ih False loop kv(1) show ?thesis by simp
    next
      case (Some w)
      from ih [unfolded Some option.case] obtain ds U Us kd kt where u: "Ts = ds @ U # Us" "kvs' = kd @ (x, w) # kt" "length kd = length ds"
        "find_member_loop js (firstp Ts) key = Some (Some (ja U))" "jabs (js_mem js) U w"
        "\<exists>n p q. nodes js (ja U) = Some n \<and> node_ok n par p q (jk U) (jl U) (jc U)" by blast
      have "T # Ts = (T # ds) @ U # Us" "kvs = ((k, v) # kd) @ (x, w) # kt" using u(1,2) kv(1) by simp_all
      moreover have "map_of kvs x = Some w" using Some False kv(1) by simp
      ultimately show ?thesis using u(3-6) loop False
        by (simp only: option.case, intro exI [of _ "T # ds"] exI [of _ U] exI [of _ Us] exI [of _ "(k, v) # kd"] exI [of _ kt]) simp
    qed
  qed
qed

text \<open>An object that is owned, with its value.\<close>

definition obj_at :: "'d jstate \<Rightarrow> nat \<Rightarrow> 'd jt list \<Rightarrow> (bytes \<times> 'd json) list \<Rightarrow> 'd jstate \<Rightarrow> bool" where
  "obj_at js r cs kvs js0 \<longleftrightarrow> owns js (JT r p_null LObj cs) js0 \<and> jabs (js_mem js) (JT r p_null LObj cs) (Obj kvs)"

lemma json_find_member_first:
  assumes "obj_at js r cs kvs js0" and "str_at (js_mem js) (p_value key) = Some x"
  shows "case map_of kvs x of
      None \<Rightarrow> json_find_member js (Some r) key = Some None
    | Some v \<Rightarrow> \<exists>ds T Ts kd kt. cs = ds @ T # Ts \<and> kvs = kd @ (x, v) # kt \<and> length kd = length ds \<and> json_find_member js (Some r) key = Some (Some (ja T)) \<and>
        jabs (js_mem js) T v \<and> (\<exists>n p q. nodes js (ja T) = Some n \<and> node_ok n (Some r) p q (jk T) (jl T) (jc T))"
proof -
  have R: "jrep js None None None (JT r p_null LObj cs)" "\<forall>T \<in> set cs. own_keys T"
    "list_all2 (\<lambda>T kv. str_at (js_mem js) (p_value (jk T)) = Some (fst kv) \<and> jabs (js_mem js) T (snd kv)) cs kvs"
    using assms(1) by (auto simp: obj_at_def owns_def)
  then obtain n where "nodes js r = Some n" "node_ok n None None None p_null LObj cs" "jreps js (Some r) None cs None" by auto
  then have e: "json_find_member js (Some r) key = find_member_loop js (firstp cs) key" "jreps js (Some r) None cs None"
    by (simp_all add: json_find_member_def json_first_child_def get_node_def node_ok_def)
  show ?thesis unfolding e(1) by (rule find_member_first [OF e(2) R(3,2) assms(2)])
qed

section \<open>Ownership\<close>

lemma restrict_fresh: "b \<notin> A \<Longrightarrow> (m(b \<mapsto> x)) |` (- A) = (m |` (- A))(b \<mapsto> x)"
  by (auto simp: restrict_map_def fun_eq_iff)

lemma obj_at_alloc:
  assumes "obj_at js r cs kvs js0" and "b \<notin> dom (js_mem js)"
  shows "obj_at (js\<lparr>js_mem := (js_mem js)(b \<mapsto> x)\<rparr>) r cs kvs (js0\<lparr>js_mem := (js_mem js0)(b \<mapsto> x)\<rparr>)"
proof -
  let ?T = "JT r p_null LObj cs"
  have o: "owns js ?T js0" and v: "jabs (js_mem js) ?T (Obj kvs)" using assms(1) by (simp_all add: obj_at_def)
  have sub: "set (jblocks ?T) \<subseteq> dom (js_mem js)" "js_mem js0 = js_mem js |` (- set (jblocks ?T))" using o by (simp_all add: owns_def without_def)
  then have b: "b \<notin> set (jblocks ?T)" using assms(2) by blast
  have "owns (js\<lparr>js_mem := (js_mem js)(b \<mapsto> x)\<rparr>) ?T (js0\<lparr>js_mem := ((js_mem js)(b \<mapsto> x)) |` (- set (jblocks ?T))\<rparr>)"
    by (rule owns_mem [OF o]) (use sub(1) in auto)
  then have "owns (js\<lparr>js_mem := (js_mem js)(b \<mapsto> x)\<rparr>) ?T (js0\<lparr>js_mem := (js_mem js0)(b \<mapsto> x)\<rparr>)"
    using restrict_fresh [OF b, of "js_mem js" x] sub(2) by simp
  moreover have "jabs ((js_mem js)(b \<mapsto> x)) ?T (Obj kvs) \<longleftrightarrow> jabs (js_mem js) ?T (Obj kvs)" by (rule jabs_frame') (use b in auto)
  ultimately show ?thesis using v by (simp add: obj_at_def del: jabs.simps)
qed

lemma jk_detach: "jk (detach T) = p_null"
  by (simp add: detach_def)

text \<open>Detaching a member of an owned object leaves two owned trees, whichever is deleted first.\<close>

lemma owns_split:
  assumes o: "owns js (JT r p_null LObj (ds @ P # Ts)) js0" and E: "e_disp E = std_types"
  shows "\<exists>js2 s1 s2. json_remove_from_parent E js (Some (ja P)) = Some js2 \<and> js_mem js2 = js_mem js |` (- set (key_blocks (jk P))) \<and>
    owns js2 (JT r p_null LObj (ds @ Ts)) s1 \<and> owns s1 (detach P) js0 \<and> owns js2 (detach P) s2 \<and> owns s2 (JT r p_null LObj (ds @ Ts)) js0"
proof -
  let ?T = "JT r p_null LObj (ds @ P # Ts)" and ?R = "JT r p_null LObj (ds @ Ts)" and ?D = "detach P"
  have O: "jrep js None None None ?T" "distinct (jaddrs ?T)" "distinct (jblocks ?T)" "set (jblocks ?T) \<subseteq> dom (js_mem js)" "own_keys ?T"
    "js0 = without (jaddrs ?T) (jblocks ?T) js" using o by (simp_all add: owns_def)
  have kP: "own_key (jk P)" "\<forall>U \<in> set (jc P). own_keys U" using O(5) by (cases P; auto)+
  have sub: "set (key_blocks (jk P)) \<subseteq> dom (js_mem js)" using O(4) jblocks_split [of P] by auto
  from remove_from_parent_rep [OF O(1) _ E O(2) kP(1) sub] obtain js2 where
    js2: "json_remove_from_parent E js (Some (ja P)) = Some js2" "jrep js2 None None None ?D" "jrep js2 None None None ?R"
      "js_mem js2 = js_mem js |` (- set (key_blocks (jk P)))" "\<forall>x. x \<notin> set (jaddrs ?T) \<longrightarrow> nodes js2 x = nodes js x"
    by (auto simp: is_container_def)
  have jD: "jaddrs ?D = jaddrs P" "jblocks ?D = val_blocks P" "jblocks P = key_blocks (jk P) @ val_blocks P"
    using jblocks_split [of P] jblocks_split [of ?D] by (simp_all add: jk_detach)
  have disj: "set (jaddrs ?R) \<inter> set (jaddrs P) = {}" "set (jblocks ?R) \<inter> set (jblocks P) = {}" "distinct (jaddrs ?R)" "distinct (jaddrs P)"
    "distinct (jblocks ?R)" "distinct (jblocks P)" using O(2,3) by auto
  have mem: "js_mem js2 |` (- A) = js_mem js |` (- (set (key_blocks (jk P)) \<union> A))" for A unfolding js2(4) by (rule restrict_twice)
  have dom: "set (jblocks ?R) \<subseteq> dom (js_mem js2)" "set (jblocks ?D) \<subseteq> dom (js_mem js2)"
    using O(4) disj jD(3) disj(6) unfolding js2(4) jD(2) by auto
  have ok: "own_keys ?R" "own_keys ?D" using O(5) kP(2) by (cases P; auto simp: detach_def)+
  have nodes: "nodes js0 = nodes js2 |` (- (set (jaddrs ?R) \<union> set (jaddrs P)))"
    using js2(5) O(6) by (auto simp: without_def restrict_map_def fun_eq_iff)
  have mem0: "js_mem js0 = js_mem js2 |` (- (set (jblocks ?R) \<union> set (jblocks ?D)))"
    unfolding mem O(6) jD(2) using jD(3) by (auto simp: without_def restrict_map_def fun_eq_iff)
  have eq1: "js0 = without (jaddrs ?D) (jblocks ?D) (without (jaddrs ?R) (jblocks ?R) js2)"
    and eq2: "js0 = without (jaddrs ?R) (jblocks ?R) (without (jaddrs ?D) (jblocks ?D) js2)"
    by (rule jstate.equality; unfold nodes mem0 jD(1); auto simp: without_def restrict_map_def fun_eq_iff jD(1))+
  define s1 where "s1 = without (jaddrs ?R) (jblocks ?R) js2"
  define s2 where "s2 = without (jaddrs ?D) (jblocks ?D) js2"
  have "owns js2 ?R s1" "owns js2 ?D s2" using js2(2,3) disj dom ok jD by (simp_all add: owns_def s1_def s2_def)
  moreover have "owns s1 ?D js0"
  proof -
    have "jrep s1 None None None ?D = jrep js2 None None None ?D" by (rule jrep_frame) (use disj(1) jD(1) in \<open>auto simp: s1_def without_def restrict_map_def\<close>)
    moreover have "set (jblocks ?D) \<subseteq> dom (js_mem s1)" using dom(2) disj(2) jD by (auto simp: s1_def without_def)
    ultimately show ?thesis using js2(2) disj ok jD(1,2) jD(3) eq1 unfolding owns_def s1_def by (simp del: jblocks.simps)
  qed
  moreover have "owns s2 ?R js0"
  proof -
    have "jrep s2 None None None ?R = jrep js2 None None None ?R" by (rule jrep_frame) (use disj(1) jD(1) in \<open>auto simp: s2_def without_def restrict_map_def\<close>)
    moreover have "set (jblocks ?R) \<subseteq> dom (js_mem s2)" using dom(1) disj(2) jD by (auto simp: s2_def without_def)
    ultimately show ?thesis using js2(3) disj ok eq2 unfolding owns_def s2_def by (simp del: jblocks.simps)
  qed
  ultimately show ?thesis using js2(1,4) by blast
qed

section \<open>The fields of an event\<close>

text \<open>The names that the code looks up are string literals in memory.\<close>

definition event_names :: "string set" where
  "event_names = {''hid'', ''name'', ''encrypted'', ''parameters'', ''signatureVersion'', ''signature''}"

definition lits_at :: "'d ev_env \<Rightarrow> blocks \<Rightarrow> bool" where
  "lits_at V m \<longleftrightarrow> (\<forall>x \<in> event_names. str_at m (Some (ve_lit V x)) = Some (lit x))"

lemma lits_at_mono: "lits_at V m \<Longrightarrow> m \<subseteq>\<^sub>m m' \<Longrightarrow> lits_at V m'"
  by (auto simp: lits_at_def intro: str_at_mono)

lemma p_const_lit:
  assumes "lits_at V m" and "x \<in> event_names"
  shows "p_const m (Some (ve_lit V x)) = Some \<lparr>p_value = Some (ve_lit V x), p_flags = PROPERTY_CONST_TAG OR is_owner, p_size = word_of_nat (length (lit x))\<rparr>"
  using assms by (simp add: p_const_def lits_at_def)

text \<open>What a lookup of a literal gives.\<close>

lemma find_const_first:
  assumes "obj_at js r cs kvs js0" and "lits_at V (js_mem js)" and "x \<in> event_names"
  shows "case map_of kvs (lit x) of
      None \<Rightarrow> find_const V js (Some r) x = Some None
    | Some v \<Rightarrow> \<exists>ds T Ts kd kt. cs = ds @ T # Ts \<and> kvs = kd @ (lit x, v) # kt \<and> length kd = length ds \<and> find_const V js (Some r) x = Some (Some (ja T)) \<and>
        jabs (js_mem js) T v \<and> (\<exists>n p q. nodes js (ja T) = Some n \<and> node_ok n (Some r) p q (jk T) (jl T) (jc T))"
proof -
  let ?p = "\<lparr>p_value = Some (ve_lit V x), p_flags = PROPERTY_CONST_TAG OR is_owner, p_size = word_of_nat (length (lit x))\<rparr>"
  have e: "find_const V js (Some r) x = json_find_member js (Some r) ?p" using p_const_lit [OF assms(2,3)] by (simp add: find_const_def)
  have "str_at (js_mem js) (p_value ?p) = Some (lit x)" using assms(2,3) by (simp add: lits_at_def)
  then show ?thesis unfolding e by (rule json_find_member_first [OF assms(1)])
qed

lemma find_const_None:
  assumes "obj_at js r cs kvs js0" and "lits_at V (js_mem js)" and "x \<in> event_names" and "map_of kvs (lit x) = None"
  shows "find_const V js (Some r) x = Some None"
  using find_const_first [OF assms(1-3)] assms(4) by simp

lemma find_const_Str:
  assumes "obj_at js r cs kvs js0" and "lits_at V (js_mem js)" and "x \<in> event_names" and "map_of kvs (lit x) = Some (Str s)"
  shows "\<exists>a b. find_const V js (Some r) x = Some (Some a) \<and> (\<exists>n. nodes js a = Some n \<and> n_tag n = JSON_STRING \<and> n_string n = Some b) \<and> str_at (js_mem js) (Some b) = Some s"
proof -
  from find_const_first [OF assms(1-3), unfolded assms(4) option.case] obtain T n p q where
    T: "find_const V js (Some r) x = Some (Some (ja T))" "jabs (js_mem js) T (Str s)" "nodes js (ja T) = Some n" "node_ok n (Some r) p q (jk T) (jl T) (jc T)" by blast
  from T(2) obtain b where "jl T = LStr b" "str_at (js_mem js) (Some b) = Some s" by (cases T) (auto split: leaf.splits)
  with T show ?thesis by (auto simp: node_ok_def)
qed

lemma find_const_Bool:
  assumes "obj_at js r cs kvs js0" and "lits_at V (js_mem js)" and "x \<in> event_names" and "map_of kvs (lit x) = Some (Bool b)"
  shows "\<exists>a. find_const V js (Some r) x = Some (Some a) \<and> node_bool js (Some a) = Some b"
proof -
  from find_const_first [OF assms(1-3), unfolded assms(4) option.case] obtain T n p q where
    T: "find_const V js (Some r) x = Some (Some (ja T))" "jabs (js_mem js) T (Bool b)" "nodes js (ja T) = Some n" "node_ok n (Some r) p q (jk T) (jl T) (jc T)" by blast
  from T(2) have "jl T = LBool b" by (cases T) (auto split: leaf.splits)
  with T show ?thesis by (auto simp: node_ok_def node_bool_def get_node_def)
qed

lemma fill_const_new:
  assumes E: "env_ok (ve_json V)" and o: "obj_at js r cs kvs js0" and "lits_at V (js_mem js)" and "x \<in> event_names"
    and s: "map_of kvs (lit x) = Some (Str s)" and fin: "finite (dom (js_mem js))"
  shows "\<exists>a blk p. fill_const V js (Some r) x q = Some (0, p, js\<lparr>js_mem := (js_mem js)(a \<mapsto> blk)\<rparr>) \<and> a \<notin> dom (js_mem js) \<and> cstr blk = Some s \<and>
    own_key p \<and> p_value p = Some a"
proof -
  let ?p = "\<lparr>p_value = Some (ve_lit V x), p_flags = PROPERTY_CONST_TAG OR is_owner, p_size = word_of_nat (length (lit x))\<rparr>"
  have L: "libc_total (e_libc (ve_json V))" "e_disp (ve_json V) = std_types" using E by (simp_all add: env_ok_def)
  note pc = p_const_lit [OF assms(3,4)]
  from find_const_Str [OF o assms(3,4) s] obtain a0 b n where
    f: "find_const V js (Some r) x = Some (Some a0)" "nodes js a0 = Some n" "n_tag n = JSON_STRING" "n_string n = Some b" "str_at (js_mem js) (Some b) = Some s" by blast
  from json_strdup_total [OF L(1) fin f(5)] obtain a blk where
    d: "json_strdup (e_libc (ve_json V)) (js_mem js) (Some b) = Some (Some a, (js_mem js)(a \<mapsto> blk))" "a \<notin> dom (js_mem js)" "cstr blk = Some s" by blast
  define key where "key = \<lparr>p_value = Some a, p_flags = PROPERTY_JSON_TAG OR is_owner, p_size = word_of_nat (length s)\<rparr>"
  have "p_json ((js_mem js)(a \<mapsto> blk)) (Some a) = Some key" using d(3) by (simp add: p_json_def str_at_def key_def)
  then have "fill_const V js (Some r) x q = Some (0, key, js\<lparr>js_mem := (js_mem js)(a \<mapsto> blk)\<rparr>)"
    using pc f d(1) property_move_json [OF key_def] L(2)
    by (simp add: fill_const_def fill_string_from_json_def find_const_def get_node_def json_strdup_property_def)
  moreover have "own_key key" by (simp add: own_key_def key_def)
  ultimately show ?thesis using d(2,3) by (auto simp: key_def)
qed

section \<open>An event and its memory\<close>

text \<open>What an event owns: the two strings and the tree \<open>D\<close> of its parameters. Without them the state is \<open>js0\<close>.\<close>

definition event_at :: "'d jstate \<Rightarrow> mqtt_event_base_t \<Rightarrow> bytes \<Rightarrow> bytes \<Rightarrow> bool \<Rightarrow> 'd jt \<Rightarrow> (bytes \<times> 'd json) list \<Rightarrow> 'd jstate \<Rightarrow> bool" where
  "event_at js e hid name enc D ps js0 \<longleftrightarrow> (\<exists>a x b y. own_key (ev_id e) \<and> p_value (ev_id e) = Some a \<and> cstr x = Some hid \<and>
     own_key (ev_name e) \<and> p_value (ev_name e) = Some b \<and> cstr y = Some name \<and> a \<noteq> b \<and> a \<notin> dom (js_mem js0) \<and> b \<notin> dom (js_mem js0) \<and>
     ev_encrypted e = (if enc then 1 else 0) \<and> ev_parameters e = Some (ja D) \<and> jk D = p_null \<and> jabs (js_mem js) D (Obj ps) \<and>
     owns js D (js0\<lparr>js_mem := (js_mem js0)(a \<mapsto> x, b \<mapsto> y)\<rparr>))"

lemma event_at_strings:
  assumes "event_at js e hid name enc D ps js0"
  shows "\<exists>a x b y. p_value (ev_id e) = Some a \<and> js_mem js a = Some x \<and> cstr x = Some hid \<and> p_value (ev_name e) = Some b \<and> js_mem js b = Some y \<and>
    cstr y = Some name" and "js_mem js0 \<subseteq>\<^sub>m js_mem js"
proof -
  from assms obtain a x b y where p: "p_value (ev_id e) = Some a" "cstr x = Some hid" "p_value (ev_name e) = Some b" "cstr y = Some name" "a \<noteq> b"
    "a \<notin> dom (js_mem js0)" "b \<notin> dom (js_mem js0)" "owns js D (js0\<lparr>js_mem := (js_mem js0)(a \<mapsto> x, b \<mapsto> y)\<rparr>)" unfolding event_at_def by blast
  from owns_le [OF p(8)] have le: "(js_mem js0)(a \<mapsto> x, b \<mapsto> y) \<subseteq>\<^sub>m js_mem js" by simp
  then have "js_mem js a = Some x" "js_mem js b = Some y" using p(5) by (auto simp: map_le_def)
  with p show "\<exists>a x b y. p_value (ev_id e) = Some a \<and> js_mem js a = Some x \<and> cstr x = Some hid \<and> p_value (ev_name e) = Some b \<and> js_mem js b = Some y \<and>
    cstr y = Some name" by blast
  have "js_mem js0 \<subseteq>\<^sub>m (js_mem js0)(a \<mapsto> x, b \<mapsto> y)" using p(6,7) by (auto simp: map_le_def)
  then show "js_mem js0 \<subseteq>\<^sub>m js_mem js" using le by (rule map_le_trans)
qed

lemmas event_at_le = event_at_strings(2)

text \<open>Freeing an event gives all of it back.\<close>

lemma property_free_null: "property_free d m p_null = Some (m, p_null)"
  by (simp add: property_free_def p_null_def has_def)

lemma mqtt_event_free_owned:
  assumes e: "event_at js (ev_base e) hid name enc D ps js0" and "ev_device_hid e = p_null" and E: "e_disp (ve_json V) = std_types"
    and "2 * length (jaddrs D) \<le> fuel"
  shows "mqtt_event_free fuel V js e = Some js0"
proof -
  from e obtain a x b y where p: "own_key (ev_id (ev_base e))" "p_value (ev_id (ev_base e)) = Some a"
      "own_key (ev_name (ev_base e))" "p_value (ev_name (ev_base e)) = Some b" "a \<noteq> b" "a \<notin> dom (js_mem js0)" "b \<notin> dom (js_mem js0)"
    and D: "ev_parameters (ev_base e) = Some (ja D)" "jk D = p_null" "owns js D (js0\<lparr>js_mem := (js_mem js0)(a \<mapsto> x, b \<mapsto> y)\<rparr>)"
    unfolding event_at_def by blast
  have ab: "a \<in> dom (js_mem js)" "b \<in> dom (js_mem js)" using owns_le [OF D(3)] p(5) by (auto simp: map_le_def dom_def split: if_splits)
  have k: "key_blocks (ev_id (ev_base e)) = [a]" "key_blocks (ev_name (ev_base e)) = [b]" using p(2,4) by (simp_all add: key_blocks_def)
  have f: "property_free std_types (js_mem js) (ev_id (ev_base e)) = Some (js_mem js |` (- {a}), p_null)"
    "property_free std_types (js_mem js |` (- {a})) (ev_name (ev_base e)) = Some (js_mem js |` (- {a, b}), p_null)"
    using property_free_own_key [OF p(1), of "js_mem js"] property_free_own_key [OF p(3), of "js_mem js |` (- {a})"] ab p(5) k
      restrict_twice [of "js_mem js" "{a}" "{b}"] by (auto simp: insert_commute)
  have "(js_mem js0)(a \<mapsto> x, b \<mapsto> y) |` (- {a, b}) = js_mem js0" using p(6,7) by (auto simp: restrict_map_def fun_eq_iff domIff)
  with owns_free [OF D(3), of "{a, b}"] have "owns (js\<lparr>js_mem := js_mem js |` (- {a, b})\<rparr>) D js0" by simp
  from json_delete_owned [OF this E D(2) assms(4)] show ?thesis
    using D(1) f assms(2) property_free_null by (simp add: mqtt_event_free_def mqtt_event_base_free_def E)
qed

text \<open>Taking the fields of an event out of a message leaves the event and the rest of the message, and either can be given back first.\<close>

definition message :: "(bytes \<times> 'd json) list \<Rightarrow> bytes \<Rightarrow> bytes \<Rightarrow> bool \<Rightarrow> (bytes \<times> 'd json) list \<Rightarrow> bool" where
  "message kvs hid name enc ps \<longleftrightarrow> map_of kvs (lit ''hid'') = Some (Str hid) \<and> map_of kvs (lit ''name'') = Some (Str name) \<and>
     map_of kvs (lit ''encrypted'') = Some (Bool enc) \<and> map_of kvs (lit ''parameters'') = Some (Obj ps)"

lemma names [simp]: "''hid'' \<in> event_names" "''name'' \<in> event_names" "''encrypted'' \<in> event_names" "''parameters'' \<in> event_names"
  "''signatureVersion'' \<in> event_names" "''signature'' \<in> event_names"
  by (simp_all add: event_names_def)

lemma obj_at_lits: "obj_at js r cs kvs js0 \<Longrightarrow> lits_at V (js_mem js0) \<Longrightarrow> lits_at V (js_mem js)"
  by (rule lits_at_mono, assumption, rule owns_le [of _ "JT r p_null LObj cs"]) (simp add: obj_at_def)

lemma obj_at_minus:
  assumes "obj_at js r (ds @ P # Ts) (kd @ kv # kt) js0" and "length kd = length ds"
    and "owns js2 (JT r p_null LObj (ds @ Ts)) s1" and "js_mem js2 \<subseteq>\<^sub>m js_mem js"
  shows "obj_at js2 r (ds @ Ts) (kd @ kt) s1"
proof -
  let ?R = "JT r p_null LObj (ds @ Ts)"
  have "jabs (js_mem js) ?R (Obj (kd @ kt))"
    using assms(1,2) list_all2_lengthD by (fastforce simp: obj_at_def list_all2_append)
  moreover have "\<forall>b \<in> set (jblocks ?R). js_mem js2 b = js_mem js b"
    using owns_keys(4) [OF assms(3)] assms(4) by (auto simp: map_le_def simp del: jblocks.simps)
  ultimately show ?thesis using jabs_frame' [of ?R "js_mem js2" "js_mem js" "Obj (kd @ kt)"] assms(3) by (simp add: obj_at_def del: jabs.simps jblocks.simps)
qed

lemma event_at_split:
  assumes o: "obj_at js r (ds @ P # Ts) (kd @ (k, Obj ps) # kt) (js0\<lparr>js_mem := (js_mem js0)(a \<mapsto> x, b \<mapsto> y)\<rparr>)" and len: "length kd = length ds"
    and E: "e_disp E = std_types" and ab: "a \<noteq> b" "a \<notin> dom (js_mem js0)" "b \<notin> dom (js_mem js0)"
    and e: "own_key (ev_id e)" "p_value (ev_id e) = Some a" "cstr x = Some hid" "own_key (ev_name e)" "p_value (ev_name e) = Some b" "cstr y = Some name"
      "ev_encrypted e = (if enc then 1 else 0)" "ev_parameters e = Some (ja P)"
  shows "\<exists>js2 s1 s2. json_remove_from_parent E js (Some (ja P)) = Some js2 \<and> js_mem js2 \<subseteq>\<^sub>m js_mem js \<and> obj_at js2 r (ds @ Ts) (kd @ kt) s1 \<and>
    event_at s1 e hid name enc (detach P) ps js0 \<and> event_at js2 e hid name enc (detach P) ps s2 \<and> owns s2 (JT r p_null LObj (ds @ Ts)) js0"
proof -
  let ?R = "JT r p_null LObj (ds @ Ts)" and ?D = "detach P" and ?m = "(js_mem js0)(a \<mapsto> x, b \<mapsto> y)"
  have "owns js (JT r p_null LObj (ds @ P # Ts)) (js0\<lparr>js_mem := ?m\<rparr>)" using o by (simp add: obj_at_def)
  from owns_split [OF this E] obtain js2 s1 s2 where
    sp: "json_remove_from_parent E js (Some (ja P)) = Some js2" "js_mem js2 = js_mem js |` (- set (key_blocks (jk P)))"
      "owns js2 ?R s1" "owns s1 ?D (js0\<lparr>js_mem := ?m\<rparr>)" "owns js2 ?D s2" "owns s2 ?R (js0\<lparr>js_mem := ?m\<rparr>)" by blast
  have le: "js_mem js2 \<subseteq>\<^sub>m js_mem js" "js_mem s1 \<subseteq>\<^sub>m js_mem js2" "?m \<subseteq>\<^sub>m js_mem s2"
    using owns_le [OF sp(3)] owns_le [OF sp(6)] unfolding sp(2) by (simp_all, simp add: map_le_def)
  have "jabs (js_mem js) P (Obj ps)" using o len by (auto simp: obj_at_def list_all2_append dest: list_all2_lengthD)
  then have v: "jabs (js_mem js) ?D (Obj ps)" by (cases P) (simp add: detach_def)
  have v2: "jabs (js_mem js2) ?D (Obj ps)" by (rule owns_value [OF sp(5) le(1) v])
  have v1: "jabs (js_mem s1) ?D (Obj ps)" by (rule owns_value [OF sp(4) le(2) v2])
  let ?s = "s2\<lparr>js_mem := js_mem s2 |` (- {a, b})\<rparr>"
  have m: "?m |` (- {a, b}) = js_mem js0" using ab by (auto simp: restrict_map_def fun_eq_iff domIff)
  have R: "owns ?s ?R js0" using owns_free [OF sp(6), of "{a, b}"] m by simp
  have "js_mem s2 = (js_mem s2 |` (- {a, b}))(a \<mapsto> x, b \<mapsto> y)"
    using le(3) ab(1) by (auto simp: map_le_def restrict_map_def fun_eq_iff dom_def split: if_splits)
  then have "s2 = ?s\<lparr>js_mem := (js_mem ?s)(a \<mapsto> x, b \<mapsto> y)\<rparr>" by (intro jstate.equality) simp_all
  then have o2: "owns js2 ?D (?s\<lparr>js_mem := (js_mem ?s)(a \<mapsto> x, b \<mapsto> y)\<rparr>)" using sp(5) by simp
  have e1: "event_at s1 e hid name enc ?D ps js0"
    unfolding event_at_def using e ab v1 sp(4) by (intro exI conjI) (simp_all add: jk_detach)
  have e2: "event_at js2 e hid name enc ?D ps ?s"
    unfolding event_at_def using e ab(1) v2 o2 by (intro exI conjI) (simp_all add: jk_detach)
  show ?thesis using sp(1) le(1) obj_at_minus [OF o len sp(3) le(1)] e1 e2 R by blast
qed

lemma get_event_base_new:
  assumes E: "env_ok (ve_json V)" and o: "obj_at js r cs kvs js0" and lits: "lits_at V (js_mem js0)" and fin: "finite (dom (js_mem js))"
    and msg: "message kvs hid name enc ps"
  shows "\<exists>e js2 ds P Ts kd kt s1 s2. get_event_base V js q (Some r) ''hid'' ''name'' = Some (0, e, js2) \<and> cs = ds @ P # Ts \<and>
    kvs = kd @ (lit ''parameters'', Obj ps) # kt \<and> finite (dom (js_mem js2)) \<and> obj_at js2 r (ds @ Ts) (kd @ kt) s1 \<and> js_mem js0 \<subseteq>\<^sub>m js_mem s1 \<and>
    event_at s1 e hid name enc (detach P) ps js0 \<and> event_at js2 e hid name enc (detach P) ps s2 \<and> owns s2 (JT r p_null LObj (ds @ Ts)) js0"
proof -
  have f: "map_of kvs (lit ''hid'') = Some (Str hid)" "map_of kvs (lit ''name'') = Some (Str name)" "map_of kvs (lit ''encrypted'') = Some (Bool enc)"
    "map_of kvs (lit ''parameters'') = Some (Obj ps)" using msg by (simp_all add: message_def)
  have std: "e_disp (ve_json V) = std_types" using E by (simp add: env_ok_def)
  from fill_const_new [OF E o obj_at_lits [OF o lits] names(1) f(1) fin] obtain a x p where
    A: "fill_const V js (Some r) ''hid'' (ev_id q) = Some (0, p, js\<lparr>js_mem := (js_mem js)(a \<mapsto> x)\<rparr>)" "a \<notin> dom (js_mem js)" "cstr x = Some hid"
      "own_key p" "p_value p = Some a" by blast
  let ?j1 = "js\<lparr>js_mem := (js_mem js)(a \<mapsto> x)\<rparr>" and ?k1 = "js0\<lparr>js_mem := (js_mem js0)(a \<mapsto> x)\<rparr>"
  have le: "js_mem js0 \<subseteq>\<^sub>m js_mem js" using o owns_le by (auto simp: obj_at_def simp del: jabs.simps)
  have a0: "a \<notin> dom (js_mem js0)" using A(2) map_le_implies_dom_le [OF le] by blast
  have o1: "obj_at ?j1 r cs kvs ?k1" by (rule obj_at_alloc [OF o A(2)])
  have l1: "lits_at V (js_mem ?k1)" by (rule lits_at_mono [OF lits]) (use a0 in \<open>auto simp: map_le_def\<close>)
  have fin1: "finite (dom (js_mem ?j1))" using fin by simp
  from fill_const_new [OF E o1 obj_at_lits [OF o1 l1] names(2) f(2) fin1] obtain b y p' where
    B: "fill_const V ?j1 (Some r) ''name'' (ev_name q) = Some (0, p', ?j1\<lparr>js_mem := (js_mem ?j1)(b \<mapsto> y)\<rparr>)" "b \<notin> dom (js_mem ?j1)" "cstr y = Some name"
      "own_key p'" "p_value p' = Some b" by blast
  let ?j2 = "?j1\<lparr>js_mem := (js_mem ?j1)(b \<mapsto> y)\<rparr>" and ?k2 = "js0\<lparr>js_mem := (js_mem js0)(a \<mapsto> x, b \<mapsto> y)\<rparr>"
  have b0: "b \<notin> dom (js_mem js0)" "a \<noteq> b" using B(2) map_le_implies_dom_le [OF le] by auto
  have o2: "obj_at ?j2 r cs kvs ?k2" using obj_at_alloc [OF o1 B(2), of y] by simp
  have l2: "lits_at V (js_mem ?k2)" by (rule lits_at_mono [OF l1]) (use a0 b0 in \<open>auto simp: map_le_def\<close>)
  note L2 = obj_at_lits [OF o2 l2]
  from find_const_Bool [OF o2 L2 names(3) f(3)] obtain c where C: "find_const V ?j2 (Some r) ''encrypted'' = Some (Some c)" "node_bool ?j2 (Some c) = Some enc" by blast
  from find_const_first [OF o2 L2 names(4), unfolded f(4) option.case] obtain ds P Ts kd kt where
    P: "cs = ds @ P # Ts" "kvs = kd @ (lit ''parameters'', Obj ps) # kt" "length kd = length ds" "find_const V ?j2 (Some r) ''parameters'' = Some (Some (ja P))" by blast
  let ?e = "q\<lparr>ev_id := p, ev_name := p', ev_encrypted := if enc then 1 else 0, ev_parameters := Some (ja P)\<rparr>"
  from event_at_split [OF o2 [unfolded P(1,2)] P(3) std b0(2) a0 b0(1), of ?e hid name enc] A(3-5) B(3-5) obtain js2 s1 s2 where
    S: "json_remove_from_parent (ve_json V) ?j2 (Some (ja P)) = Some js2" "js_mem js2 \<subseteq>\<^sub>m js_mem ?j2" "obj_at js2 r (ds @ Ts) (kd @ kt) s1"
      "event_at s1 ?e hid name enc (detach P) ps js0" "event_at js2 ?e hid name enc (detach P) ps s2" "owns s2 (JT r p_null LObj (ds @ Ts)) js0" by auto
  have "get_event_base V js q (Some r) ''hid'' ''name'' = Some (0, ?e, js2)" using A(1) B(1) C P(4) S(1) by (simp add: get_event_base_def)
  moreover have "finite (dom (js_mem js2))" using map_le_implies_dom_le [OF S(2)] fin by (simp add: finite_subset)
  ultimately show ?thesis using P(1,2) S(3-6) event_at_le [OF S(4)] by blast
qed

section \<open>The check of the signature\<close>

definition signable :: "('d \<Rightarrow> bytes) \<Rightarrow> (bytes \<times> 'd json) list \<Rightarrow> bool" where
  "signable fmt_f ps \<longleftrightarrow> ps \<noteq> [] \<and> (\<forall>kv \<in> set ps. simple_param fmt_f kv) \<and> length ps \<le> MAX_PARAM_LINE \<and> length (canonical_text fmt_f ps) < 2 ^ 31"

definition event_sig :: "('d \<Rightarrow> bytes) \<Rightarrow> bytes \<Rightarrow> bytes \<Rightarrow> bytes \<Rightarrow> bytes \<Rightarrow> bool \<Rightarrow> (bytes \<times> 'd json) list \<Rightarrow> bytes" where
  "event_sig fmt_f api sec hid name enc ps = signature_ref api sec [lit ''1''] (event_text hid name enc (canonical_text fmt_f ps))"

lemma check_sign_1_correct:
  assumes E: "env_ok (ve_json V)" and ready: "sign_ready (ve_keys V) (ve_frame V) sg api sec" and e: "event_at js e hid name enc D ps js0"
    and fin: "finite (dom (js_mem js))" and ps: "signable (ve_fmt_f V) ps" and t: "c_text hid" "c_text name" and s: "cstr sing = Some s"
  shows "\<exists>sg'. check_sign_1 V js sg sing (ev_id e) (ev_name e) (ev_encrypted e) (ev_parameters e) =
    Some (if s = event_sig (ve_fmt_f V) api sec hid name enc ps then 0 else -1, js, sg') \<and> sign_ready (ve_keys V) (ve_frame V) sg' api sec"
proof -
  let ?S = "event_sig (ve_fmt_f V) api sec hid name enc ps"
  from event_at_strings(1) [OF e] obtain a hr b nr where
    v: "p_value (ev_id e) = Some a" "js_mem js a = Some (hid @ 0 # hr)" "p_value (ev_name e) = Some b" "js_mem js b = Some (name @ 0 # nr)"
    using cstr_split by blast
  have D: "jrep js None None None D" "jabs (js_mem js) D (Obj ps)" "ev_parameters e = Some (ja D)" "(ev_encrypted e \<noteq> 0) = enc"
    using e by (auto simp: event_at_def owns_def)
  then have "D = JT (ja D) (jk D) LObj (jc D)" by (cases D) (auto split: leaf.splits)
  then have R: "jrep js None None None (JT (ja D) (jk D) LObj (jc D))" "jabs (js_mem js) (JT (ja D) (jk D) LObj (jc D)) (Obj ps)"
    using D(1,2) by simp_all
  have L: "libc_ok (e_libc (ve_json V))" "\<not> may_fail (e_libc (ve_json V)) (js_mem js)" using E fin by (simp_all add: env_ok_def may_fail_def)
  have P: "ps \<noteq> []" "\<forall>kv \<in> set ps. simple_param (ve_fmt_f V) kv" "length ps \<le> MAX_PARAM_LINE" "length (canonical_text (ve_fmt_f V) ps) < 2 ^ 31"
    using ps by (simp_all add: signable_def)
  from arrow_event_sign_correct [OF ready L(1) R P v(1,2) t, of "replicate 65 0" "ve_schar V" nr "ev_encrypted e"] L(2) obtain sg' where
    S: "arrow_event_sign (e_libc (ve_json V)) (ve_schar V) (ve_fmt_f V) (ve_keys V) (ve_frame V) js sg (replicate 65 0) (ev_id e) (name @ 0 # nr)
      (ev_encrypted e) (ev_parameters e) = Some (0, ?S @ [0], js, sg')" "sign_ready (ve_keys V) (ve_frame V) sg' api sec"
    by (auto simp: event_sig_def D(3,4))
  have "0 \<notin> set ?S" unfolding event_sig_def signature_ref_def by (rule hex_text_no_zero)
  then have "cstr (?S @ [0]) = Some ?S" using cstr_terminated [of ?S "[]"] by simp
  from c_strcmp_eq [OF s this] obtain r where "c_strcmp sing (?S @ [0]) = Some r" "r = 0 \<longleftrightarrow> s = ?S" by blast
  then show ?thesis using S v(3,4) by (simp add: check_sign_1_def)
qed

text \<open>What it means that a message may become an event: it has no version of a signature, or version 1 and the signature of its fields.\<close>

definition authentic :: "('d \<Rightarrow> bytes) \<Rightarrow> bytes \<Rightarrow> bytes \<Rightarrow> bytes \<Rightarrow> bytes \<Rightarrow> bool \<Rightarrow> (bytes \<times> 'd json) list \<Rightarrow> (bytes \<times> 'd json) list \<Rightarrow> bool" where
  "authentic fmt_f api sec hid name enc ps kvs \<longleftrightarrow> map_of kvs (lit ''signatureVersion'') = None \<or>
     map_of kvs (lit ''signatureVersion'') = Some (Str (lit ''1'')) \<and> map_of kvs (lit ''signature'') = Some (Str (event_sig fmt_f api sec hid name enc ps))"

definition text_member :: "(bytes \<times> 'd json) list \<Rightarrow> bytes \<Rightarrow> bool" where
  "text_member kvs x \<longleftrightarrow> map_of kvs x = None \<or> (\<exists>s. map_of kvs x = Some (Str s))"

lemma find_const_text:
  assumes "obj_at js r cs kvs js0" and "lits_at V (js_mem js)" and "x \<in> event_names" and "map_of kvs (lit x) = Some (Str s)"
  shows "\<exists>a blk. find_const V js (Some r) x = Some (Some a) \<and> node_text js (Some a) = Some blk \<and> cstr blk = Some s"
proof -
  from find_const_Str [OF assms] obtain a b n where
    "find_const V js (Some r) x = Some (Some a)" "nodes js a = Some n" "n_tag n = JSON_STRING" "n_string n = Some b" "str_at (js_mem js) (Some b) = Some s" by blast
  then show ?thesis by (auto simp: node_text_def get_node_def str_at_def bind_eq_Some_conv)
qed

lemma mqtt_event_sign_checker_correct:
  assumes E: "env_ok (ve_json V)" and ready: "sign_ready (ve_keys V) (ve_frame V) sg api sec" and e: "event_at js e hid name enc D ps js0"
    and fin: "finite (dom (js_mem js))" and ps: "signable (ve_fmt_f V) ps" and t: "c_text hid" "c_text name"
    and o: "obj_at js r cs kvs s1" and lits: "lits_at V (js_mem js)" and ty: "text_member kvs (lit ''signatureVersion'')" "text_member kvs (lit ''signature'')"
  shows "\<exists>sg'. mqtt_event_sign_checker V js sg (Some r) e =
    Some (if authentic (ve_fmt_f V) api sec hid name enc ps kvs then 0 else -1, js, sg') \<and> sign_ready (ve_keys V) (ve_frame V) sg' api sec"
proof (cases "map_of kvs (lit ''signatureVersion'')")
  case None
  then show ?thesis using find_const_None [OF o lits names(5)] ready by (simp add: mqtt_event_sign_checker_def authentic_def)
next
  case (Some w)
  then obtain v where v: "map_of kvs (lit ''signatureVersion'') = Some (Str v)" using ty(1) by (auto simp: text_member_def)
  from find_const_text [OF o lits names(5) v] obtain a vb where
    V: "find_const V js (Some r) ''signatureVersion'' = Some (Some a)" "node_text js (Some a) = Some vb" "cstr vb = Some v" by blast
  show ?thesis
  proof (cases "map_of kvs (lit ''signature'')")
    case None
    then show ?thesis using find_const_None [OF o lits names(6)] ready V(1) v by (simp add: mqtt_event_sign_checker_def authentic_def)
  next
    case (Some w)
    then obtain s where s: "map_of kvs (lit ''signature'') = Some (Str s)" using ty(2) by (auto simp: text_member_def)
    from find_const_text [OF o lits names(6) s] obtain b sb where
      S: "find_const V js (Some r) ''signature'' = Some (Some b)" "node_text js (Some b) = Some sb" "cstr sb = Some s" by blast
    have "cstr (lit ''1'' @ [0]) = Some (lit ''1'')" by (simp add: cstr_def lit_def)
    from c_strcmp_eq [OF V(3) this] obtain k where k: "c_strcmp vb (lit ''1'' @ [0]) = Some k" "k = 0 \<longleftrightarrow> v = lit ''1''" by blast
    from check_sign_1_correct [OF E ready e fin ps t S(3)] obtain sg' where
      c: "check_sign_1 V js sg sb (ev_id e) (ev_name e) (ev_encrypted e) (ev_parameters e) =
        Some (if s = event_sig (ve_fmt_f V) api sec hid name enc ps then 0 else -1, js, sg')" "sign_ready (ve_keys V) (ve_frame V) sg' api sec" by blast
    show ?thesis using V S k c ready v s by (auto simp: mqtt_event_sign_checker_def check_signature_def authentic_def)
  qed
qed

section \<open>The end of a message\<close>

lemma map_of_other: "x \<noteq> k \<Longrightarrow> map_of (kd @ (k, v) # kt) x = map_of (kd @ kt) x"
  by (simp add: map_add_def split: option.splits)

lemma other_names: "lit ''signatureVersion'' \<noteq> lit ''parameters''" "lit ''signature'' \<noteq> lit ''parameters''"
  by (simp_all add: lit_def)

lemma children_bound: "length (jaddrs (JT r k l (ds @ P # Ts))) = length (jaddrs (JT r k l (ds @ Ts))) + length (jaddrs P)"
  by simp

text \<open>The end of a message, from its tree.\<close>

lemma finish_event_authentic:
  assumes E: "env_ok (ve_json V)" and ready: "sign_ready (ve_keys V) (ve_frame V) (es_sign st) api sec"
    and o: "obj_at (es_js st) r cs kvs js0" and fin: "finite (dom (js_mem (es_js st)))" and lits: "lits_at V (js_mem js0)"
    and msg: "message kvs hid name enc ps" and ps: "signable (ve_fmt_f V) ps" and t: "c_text hid" "c_text name"
    and ty: "text_member kvs (lit ''signatureVersion'')" "text_member kvs (lit ''signature'')"
    and q: "is_list (es_next st) (es_queue st) xs" and al: "ve_alloc V st = Some el" "el \<notin> dom (es_next st)"
    and fuel: "2 * length (jaddrs (JT r p_null LObj cs)) \<le> fuel"
  shows "\<exists>st'. finish_event fuel V st (Some r) = Some (if authentic (ve_fmt_f V) api sec hid name enc ps kvs then 0 else -1, st') \<and>
    sign_ready (ve_keys V) (ve_frame V) (es_sign st') api sec \<and>
    (if authentic (ve_fmt_f V) api sec hid name enc ps kvs
     then is_list (es_next st') (es_queue st') (xs @ [el]) \<and>
       (\<exists>e D. es_events st' = (es_events st)(el \<mapsto> e) \<and> event_at (es_js st') (ev_base e) hid name enc D ps js0 \<and> ev_device_hid e = p_null)
     else st' = st\<lparr>es_js := js0, es_sign := es_sign st'\<rparr>)"
proof -
  let ?A = "authentic (ve_fmt_f V) api sec hid name enc ps"
  have std: "e_disp (ve_json V) = std_types" using E by (simp add: env_ok_def)
  from get_event_base_new [OF E o lits fin msg] obtain e js2 ds P Ts kd kt s1 s2 where
    g: "get_event_base V (es_js st) (ev_base mqtt_event_init) (Some r) ''hid'' ''name'' = Some (0, e, js2)" "cs = ds @ P # Ts"
      "kvs = kd @ (lit ''parameters'', Obj ps) # kt" "finite (dom (js_mem js2))" "obj_at js2 r (ds @ Ts) (kd @ kt) s1" "js_mem js0 \<subseteq>\<^sub>m js_mem s1"
      "event_at s1 e hid name enc (detach P) ps js0" "event_at js2 e hid name enc (detach P) ps s2" "owns s2 (JT r p_null LObj (ds @ Ts)) js0" by metis
  let ?R = "JT r p_null LObj (ds @ Ts)"
  have f: "map_of kvs (lit ''signatureVersion'') = map_of (kd @ kt) (lit ''signatureVersion'')" "map_of kvs (lit ''signature'') = map_of (kd @ kt) (lit ''signature'')"
    unfolding g(3) by (rule map_of_other, rule other_names)+
  then have A: "?A (kd @ kt) \<longleftrightarrow> ?A kvs" "text_member (kd @ kt) (lit ''signatureVersion'')" "text_member (kd @ kt) (lit ''signature'')"
    using ty unfolding authentic_def text_member_def by simp_all
  note l2 = obj_at_lits [OF g(5) lits_at_mono [OF lits g(6)]]
  from mqtt_event_sign_checker_correct [OF E ready g(8,4) ps t g(5) l2 A(2,3)] obtain sg where
    c: "mqtt_event_sign_checker V js2 (es_sign st) (Some r) e = Some (if ?A kvs then 0 else -1, js2, sg)" "sign_ready (ve_keys V) (ve_frame V) sg api sec"
    unfolding A(1) by blast
  have R: "owns js2 ?R s1" using g(5) by (simp add: obj_at_def)
  have b: "2 * length (jaddrs ?R) \<le> fuel" "2 * length (jaddrs (detach P)) \<le> fuel" using fuel unfolding g(2) children_bound by simp_all
  have del: "json_delete fuel (ve_json V) js2 (Some r) = Some s1" "json_delete fuel (ve_json V) s2 (Some r) = Some js0"
    using json_delete_owned [OF R std _ b(1)] json_delete_owned [OF g(9) std _ b(1)] by simp_all
  show ?thesis
  proof (cases "?A kvs")
    case True
    have el: "el \<notin> set xs" using q al(2) lseg_dom [of "es_next st" "es_queue st" xs None] by (auto simp: is_list_def)
    then have "is_list ((es_next st)(el \<mapsto> None)) (es_queue st) xs" using q by (simp add: is_list_def)
    then obtain p h where l: "arrow_linked_list_add ((es_next st)(el \<mapsto> None)) (es_queue st) el = Some (p, h)" "is_list h p (xs @ [el])"
      using ll.add_law [of "(es_next st)(el \<mapsto> None)" "es_queue st" xs el] el by auto
    let ?e = "mqtt_event_init\<lparr>ev_base := e\<rparr>"
    let ?st = "st\<lparr>es_js := s1, es_sign := sg, es_events := (es_events st)(el \<mapsto> ?e), es_next := h, es_queue := p\<rparr>"
    have "finish_event fuel V st (Some r) = Some (0, ?st)" using True g(1) c(1) del(1) al(1) l(1) by (simp add: finish_event_def)
    moreover have "\<exists>a D. es_events ?st = (es_events st)(el \<mapsto> a) \<and> event_at (es_js ?st) (ev_base a) hid name enc D ps js0 \<and> ev_device_hid a = p_null"
      using g(7) by (intro exI [of _ ?e] exI [of _ "detach P"]) (simp add: mqtt_event_init_def)
    ultimately show ?thesis using True c(2) l(2) by (intro exI [of _ ?st]) simp
  next
    case False
    have "mqtt_event_free fuel V js2 (mqtt_event_init\<lparr>ev_base := e\<rparr>) = Some s2"
      by (rule mqtt_event_free_owned [of _ _ hid name enc "detach P" ps]) (use g(8) std b(2) in \<open>simp_all add: mqtt_event_init_def\<close>)
    then show ?thesis using False g(1) c del(2) al(1) by (simp add: finish_event_def)
  qed
qed

section \<open>Working off the queue\<close>

text \<open>The queue is counted, the first event is handed to the processor of its name, and then it is removed and freed.\<close>

lemma count_events_list: "lseg h p xs None \<Longrightarrow> count_events h p n = Some (n + int (length xs))"
proof (induction xs arbitrary: p n)
  case Nil
  then show ?case by (simp add: count_events.simps)
next
  case (Cons a xs)
  then show ?case by (subst count_events.simps) (auto simp: add.assoc)
qed

lemma has_events_counts:
  assumes "is_list (es_next st) (es_queue st) xs"
  shows "arrow_mqtt_has_events st = Some (int (length xs))"
  using assms count_events_list [of "es_next st" "es_queue st" xs 0] by (cases xs) (auto simp: arrow_mqtt_has_events_def is_list_def)

lemma find_processor_none:
  assumes "cstr nm = Some s" and "\<forall>x \<in> set xs. cstr (lit x @ [0]) = Some (lit x) \<and> lit x \<noteq> s"
  shows "find_processor i xs nm cur = Some cur"
  using assms(2)
proof (induction xs arbitrary: i)
  case (Cons x xs)
  with c_strcmp_eq [of "lit x @ [0]" "lit x" nm s] assms(1) show ?case by auto
qed simp

lemma find_processor_at:
  assumes "cstr nm = Some s" and "\<forall>x \<in> set xs. cstr (lit x @ [0]) = Some (lit x)" and "distinct (map lit xs)" and "j < length xs" and "lit (xs ! j) = s"
  shows "find_processor i xs nm cur = Some (Some (i + j))"
  using assms(2-5)
proof (induction xs arbitrary: i j cur)
  case (Cons x xs)
  from c_strcmp_eq [of "lit x @ [0]" "lit x" nm s] Cons.prems(1) assms(1) obtain k where
    k: "c_strcmp (lit x @ [0]) nm = Some k" "k = 0 \<longleftrightarrow> lit x = s" by auto
  show ?case
  proof (cases j)
    case 0
    with Cons.prems have "lit x = s" "\<forall>y \<in> set xs. cstr (lit y @ [0]) = Some (lit y) \<and> lit y \<noteq> s" by (auto simp: image_iff)
    with k 0 find_processor_none [OF assms(1), of xs] show ?thesis by simp
  next
    case (Suc j')
    with Cons.prems Cons.IH [of j'] k show ?thesis by simp
  qed
qed simp

text \<open>The processor of an event: the one that the list has for its name.\<close>

definition processor_of :: "bytes \<Rightarrow> nat option" where
  "processor_of name = find (\<lambda>j. lit (sub_list ! j) = name) [0..<length sub_list]"

lemma find_processor_sub_list:
  assumes "cstr nm = Some s"
  shows "find_processor 0 sub_list nm None = Some (processor_of s)"
proof -
  have l: "\<forall>x \<in> set sub_list. cstr (lit x @ [0]) = Some (lit x)" "distinct (map lit sub_list)"
    by (simp_all add: sub_list_def lit_def cstr_def)
  show ?thesis
  proof (cases "processor_of s")
    case None
    then have "\<forall>x \<in> set sub_list. lit x \<noteq> s" by (auto simp: processor_of_def find_None_iff in_set_conv_nth)
    with find_processor_none [OF assms] l(1) None show ?thesis by simp
  next
    case (Some j)
    then have "j < length sub_list" "lit (sub_list ! j) = s" by (auto simp: processor_of_def find_Some_iff)
    with find_processor_at [OF assms l, of j 0 None] Some show ?thesis by simp
  qed
qed

text \<open>C20. Working off the queue: \<open>arrow_mqtt_event_proc\<close> hands the oldest event to the processor that the list has for its name, removes
  it from the queue and gives back all the memory that the event owns, whatever the processor answers and also when there is none; it returns 1 when
  the processor succeeded and further events wait. A processor may change anything but the queue and the event.\<close>

theorem arrow_mqtt_event_proc_correct:
  assumes q: "is_list (es_next st) (es_queue st) (el # xs)" and e: "es_events st el = Some e" "ev_device_hid e = p_null"
    and at: "event_at (es_js st) (ev_base e) hid name enc D ps js0" and E: "e_disp (ve_json V) = std_types" and fuel: "2 * length (jaddrs D) \<le> fuel"
    and st1: "case processor_of name of None \<Rightarrow> rc = -1 \<and> st1 = st | Some i \<Rightarrow> proc i el st = Some (rc, st1)"
    and frame: "es_next st1 = es_next st" "es_queue st1 = es_queue st" "es_events st1 = es_events st"
      "event_at (es_js st1) (ev_base e) hid name enc D ps js1"
  shows "\<exists>st'. arrow_mqtt_event_proc fuel V proc st = Some (if rc = 0 \<and> xs \<noteq> [] then 1 else rc, st') \<and> is_list (es_next st') (es_queue st') xs \<and>
    arrow_mqtt_has_events st' = Some (int (length xs)) \<and> es_events st' = (es_events st)(el := None) \<and> es_js st' = js1 \<and> es_sign st' = es_sign st1"
proof -
  from event_at_strings(1) [OF at] obtain b y where n: "p_value (ev_name (ev_base e)) = Some b" "js_mem (es_js st) b = Some y" "cstr y = Some name" by blast
  have p: "find_processor 0 sub_list y None = Some (processor_of name)" by (rule find_processor_sub_list [OF n(3)])
  have q0: "es_queue st = Some el" using q by (simp add: is_list_def)
  from ll.del_law [OF q, of el] obtain p h where d: "arrow_linked_list_del (es_next st) (es_queue st) el = Some (p, h)" "is_list h p xs" by auto
  have f: "mqtt_event_free fuel V (es_js st1) e = Some js1" by (rule mqtt_event_free_owned [OF frame(4) e(2) E fuel])
  have l: "is_list (h(el := None)) p xs" using d(2) q by (simp add: is_list_def)
  let ?st = "st1\<lparr>es_js := js1, es_events := (es_events st1)(el := None), es_next := h(el := None), es_queue := p\<rparr>"
  have pn: "p \<noteq> None \<longleftrightarrow> xs \<noteq> []" using d(2) by (cases xs) (auto simp: is_list_def)
  have "arrow_mqtt_event_proc fuel V proc st = Some (if p \<noteq> None \<and> rc = 0 then 1 else rc, ?st)"
    using q0 e(1) n(1,2) p st1 d(1) f frame(1-3) by (cases "processor_of name") (simp_all add: arrow_mqtt_event_proc_def)
  then show ?thesis using l pn frame(3) has_events_counts [of ?st xs] by (intro exI [of _ ?st]) auto
qed

text \<open>Keys, literals and an environment for examples.\<close>

definition msg_key :: "nat \<Rightarrow> property_t" where
  "msg_key b = \<lparr>p_value = Some b, p_flags = PROPERTY_JSON_TAG OR is_owner, p_size = 0\<rparr>"

definition msg_member :: "nat \<Rightarrow> nat option \<Rightarrow> nat option \<Rightarrow> int JsonNode" where
  "msg_member i prv nxt = prm_node\<lparr>n_parent := Some 0, n_prev := prv, n_next := nxt, n_key := msg_key i\<rparr>"

definition msg_names :: "string list" where
  "msg_names = [''hid'', ''name'', ''encrypted'', ''parameters'', ''signatureVersion'', ''signature'']"

definition msg_lit :: "string \<Rightarrow> nat" where
  "msg_lit x = (case map_of (zip msg_names [21..<27]) x of Some a \<Rightarrow> a | None \<Rightarrow> 0)"

definition msg_lits :: blocks where
  "msg_lits = map_of (zip [21..<27] (map (\<lambda>x. lit x @ [0]) msg_names))"

definition msg_env :: "int ev_env" where
  "msg_env = \<lparr>ve_json = int_env, ve_keys = sign_example_env, ve_frame = sign_example_frame, ve_schar = True, ve_fmt_f = (\<lambda>d. [48]), ve_lit = msg_lit,
     ve_alloc = (\<lambda>st. if es_next st 0 = None then Some 0 else None), ve_sm = 0,
     ve_machine = least_machine, ve_max = Some 4\<rparr>"

definition queued_tree :: "int jt" where
  "queued_tree = JT 0 p_null LObj [JT 1 (msg_key 1) (LBool True) []]"

definition queued_event :: mqtt_event_t where
  "queued_event = mqtt_event_init\<lparr>ev_base := \<lparr>ev_id = msg_key 2, ev_name = msg_key 3, ev_encrypted = 1, ev_parameters = Some 0\<rparr>\<rparr>"

definition queued_state :: "int ev_state" where
  "queued_state = \<lparr>es_js = \<lparr>nodes = [0 \<mapsto> prm_node\<lparr>n_head := Some 1, n_tail := Some 1\<rparr>,
       1 \<mapsto> (msg_member 1 None None)\<lparr>n_tag := JSON_BOOL, n_bool := True\<rparr>],
     js_mem = [1 \<mapsto> [98, 0], 2 \<mapsto> [104, 0], 3 \<mapsto> lit ''SendCommand'' @ [0]]\<rparr>,
     es_sign = sign_example, es_events = [0 \<mapsto> queued_event], es_next = [0 \<mapsto> None], es_queue = Some 0\<rparr>"

lemma queued_event_at: "event_at (es_js queued_state) (ev_base queued_event) [104] (lit ''SendCommand'') True queued_tree [([98], Bool True)] st_empty"
proof -
  let ?js = "es_js queued_state"
  have "jrep ?js None None None queued_tree" "own_keys queued_tree" "jabs (js_mem ?js) queued_tree (Obj [([98], Bool True)])"
    by (simp_all add: queued_state_def queued_tree_def msg_member_def prm_node_def node_ok_def is_container_def firstp_def lastp_def own_key_def msg_key_def
      str_at_def cstr_def)
  moreover have b: "jaddrs queued_tree = [0, 1]" "jblocks queued_tree = [1]" by (simp_all add: queued_tree_def key_blocks_def msg_key_def p_null_def)
  moreover have "st_empty\<lparr>js_mem := (js_mem st_empty)(2 \<mapsto> [104, 0], 3 \<mapsto> lit ''SendCommand'' @ [0])\<rparr> = without (jaddrs queued_tree) (jblocks queued_tree) ?js"
    unfolding b by (auto simp: without_def queued_state_def restrict_map_def fun_eq_iff st_empty_def)
  ultimately have "owns ?js queued_tree (st_empty\<lparr>js_mem := (js_mem st_empty)(2 \<mapsto> [104, 0], 3 \<mapsto> lit ''SendCommand'' @ [0])\<rparr>)"
    unfolding owns_def by (simp add: queued_state_def)
  then show ?thesis unfolding event_at_def
    by (intro exI [of _ 2] exI [of _ "[104, 0]"] exI [of _ 3] exI [of _ "lit ''SendCommand'' @ [0]"])
      (simp add: queued_event_def msg_key_def own_key_def cstr_def lit_def st_empty_def queued_tree_def queued_state_def str_at_def)
qed

theorem arrow_mqtt_event_proc_correct_witness:
  "\<exists>st'. arrow_mqtt_event_proc 4 msg_env (\<lambda>i el st. Some (0, st)) queued_state = Some (0, st') \<and> es_queue st' = None \<and> es_js st' = st_empty"
proof -
  have q: "is_list (es_next queued_state) (es_queue queued_state) [0]" "es_events queued_state 0 = Some queued_event"
    "ev_device_hid queued_event = p_null" "e_disp (ve_json msg_env) = std_types" "2 * length (jaddrs queued_tree) \<le> 4"
    by (simp_all add: queued_state_def is_list_def queued_event_def mqtt_event_init_def queued_tree_def msg_env_def int_env_def)
  have p: "processor_of (lit ''SendCommand'') = Some 1" by (simp add: processor_of_def sub_list_def upt_rec lit_def)
  from arrow_mqtt_event_proc_correct [OF q(1-3) queued_event_at q(4,5) _ refl refl refl queued_event_at, of 0 "\<lambda>i el st. Some (0, st)"] p
  obtain st' where "arrow_mqtt_event_proc 4 msg_env (\<lambda>i el st. Some (0, st)) queued_state = Some (0, st')" "is_list (es_next st') (es_queue st') []"
    "es_js st' = st_empty" by auto
  then show ?thesis by (auto simp: is_list_def)
qed

end
