(* ===== verification/Event_Stream.thy ===== *)
theory Event_Stream
  imports Event_Auth
begin

text \<open>
  From the text of a message to the queue: the decoder that is fed in parts composed with the check of signatures.
\<close>

section \<open>Nodes of a value\<close>

fun jnodes :: "'d json \<Rightarrow> nat" where
  "jnodes (Arr vs) = Suc (sum_list (map jnodes vs))"
| "jnodes (Obj kvs) = Suc (sum_list (map (\<lambda>kv. jnodes (snd kv)) kvs))"
| "jnodes _ = 1"

lemma jreps_each: "jreps st par prv cs nxt \<Longrightarrow> T \<in> set cs \<Longrightarrow> \<exists>p q n. jrep st p q n T"
  by (induction cs arbitrary: prv) auto

lemma list_all2_map: "list_all2 P xs ys \<Longrightarrow> (\<And>x y. x \<in> set xs \<Longrightarrow> P x y \<Longrightarrow> f x = g y) \<Longrightarrow> map f xs = map g ys"
  by (induction xs ys rule: list_all2_induct) auto

lemma jabs_nodes: "jrep st par prv nxt T \<Longrightarrow> jabs m T v \<Longrightarrow> length (jaddrs T) = jnodes v"
proof (induction T arbitrary: v par prv nxt)
  case (JT a k l cs)
  have rep: "\<exists>p q n. jrep st p q n T" if "T \<in> set cs" for T using JT.prems(1) that jreps_each by auto
  have ih: "length (jaddrs T) = jnodes w" if "T \<in> set cs" "jabs m T w" for T w using JT.IH [OF that(1)] rep [OF that(1)] that(2) by blast
  have arr: "list_all2 (jabs m) cs vs \<Longrightarrow> map (\<lambda>T. length (jaddrs T)) cs = map jnodes vs" for vs
    by (erule list_all2_map) (rule ih)
  have obj: "list_all2 (\<lambda>T kv. str_at m (p_value (jk T)) = Some (fst kv) \<and> jabs m T (snd kv)) cs kvs \<Longrightarrow>
      map (\<lambda>T. length (jaddrs T)) cs = map (\<lambda>kv. jnodes (snd kv)) kvs" for kvs
    by (erule list_all2_map) (use ih in blast)
  have c: "is_container l \<or> cs = []" using JT.prems(1) by (auto simp: node_ok_def)
  have len: "length (jaddrs (JT a k l cs)) = Suc (sum_list (map (\<lambda>T. length (jaddrs T)) cs))" by (simp add: length_concat comp_def)
  show ?case using JT.prems(2) arr obj c unfolding len by (cases l) (auto simp: is_container_def)
qed

section \<open>Parts\<close>

lemma decoder_of_put [simp]: "decoder_of (put_decoder sys d) = d" "put_decoder (put_decoder sys d) d' = put_decoder sys d'"
  "put_decoder sys (decoder_of sys) = sys" "sy_st (put_decoder sys d) = (sy_st sys)\<lparr>es_js := dc_js d\<rparr>"
  by (simp_all add: decoder_of_def put_decoder_def)

lemma process_parts_feed:
  assumes "feed (dec_env_of V) (decoder_of sys) (ve_sm V) ss = Some (True, d)"
  shows "process_parts fuel V sys ss = Some (put_decoder sys d)"
  using assms
proof (induction ss arbitrary: sys)
  case Nil
  then show ?case by auto
next
  case (Cons s ss)
  from Cons.prems obtain r d1 where p: "json_decode_part (dec_env_of V) (decoder_of sys) (ve_sm V) s = Some (r, d1)"
    "r = int (length s)" "feed (dec_env_of V) d1 (ve_sm V) ss = Some (True, d)" by (auto simp: bind_eq_Some_conv split: if_splits)
  from Cons.IH [of "put_decoder sys d1"] p show ?case by (simp add: process_event_def)
qed

text \<open>There is room in the queue.\<close>

definition room :: "'d ev_env \<Rightarrow> nat list \<Rightarrow> bool" where
  "room V xs \<longleftrightarrow> (\<forall>n. ve_max V = Some n \<longrightarrow> int (length xs) < n)"

lemma process_event_init_room:
  assumes "is_list (es_next (sy_st sys)) (es_queue (sy_st sys)) xs" and "room V xs" and "json_decode_init (decoder_of sys) (ve_sm V) = Some d"
  shows "process_event_init V sys = Some (0, put_decoder sys d)"
  using assms has_events_counts [OF assms(1)] by (auto simp: process_event_init_def room_def split: option.splits)

section \<open>Properties\<close>

text \<open>C2. Only authentic events are queued: a message that is the text of an object with the fields of an event, delivered in any parts, is appended to the queue as an event with
  exactly these fields, if it names no version of a signature or if it names version 1 and carries the signature of the fields under the keys of the
  gateway. Every other message is refused: the queue and all memory are as before. The machines of the decoder are freed in both cases, and after an
  event has been queued the memory is what was there before with what the event owns.\<close>

theorem deliver_event_authentic:
  assumes V: "dec_ok (dec_env_of V)" and ready: "sign_ready (ve_keys V) (ve_frame V) (es_sign (sy_st sys)) api sec"
    and d: "decoder_ready (decoder_of sys) (ve_sm V)" and lits: "lits_at V (js_mem (es_js (sy_st sys)))"
    and src: "blanks w" "stream_val (e_fpu (ve_json V)) (Obj kvs) t" "blanks w'" "concat ss = w @ t @ w'"
    and msg: "message kvs hid name enc ps" and ps: "signable (ve_fmt_f V) ps" and tx: "c_text hid" "c_text name"
    and ty: "text_member kvs (lit ''signatureVersion'')" "text_member kvs (lit ''signature'')"
    and q: "is_list (es_next (sy_st sys)) (es_queue (sy_st sys)) xs" "room V xs"
    and al: "\<And>js. ve_alloc V ((sy_st sys)\<lparr>es_js := js\<rparr>) = Some el" "el \<notin> dom (es_next (sy_st sys))"
    and fuel: "2 * jnodes (Obj kvs) \<le> fuel"
  shows "\<exists>sys'. deliver_event fuel V sys ss = Some (if authentic (ve_fmt_f V) api sec hid name enc ps kvs then 0 else -1, sys') \<and>
    sign_ready (ve_keys V) (ve_frame V) (es_sign (sy_st sys')) api sec \<and> dom (sy_m sys') = dom (sy_m sys) \<and>
    (if authentic (ve_fmt_f V) api sec hid name enc ps kvs
     then is_list (es_next (sy_st sys')) (es_queue (sy_st sys')) (xs @ [el]) \<and>
       (\<exists>e D. es_events (sy_st sys') = (es_events (sy_st sys))(el \<mapsto> e) \<and> ev_device_hid e = p_null \<and>
          event_at (es_js (sy_st sys')) (ev_base e) hid name enc D ps (es_js (sy_st sys)))
     else sy_st sys' = (sy_st sys)\<lparr>es_sign := es_sign (sy_st sys')\<rparr>)"
proof -
  let ?A = "authentic (ve_fmt_f V) api sec hid name enc ps kvs"
  have E: "env_ok (ve_json V)" using V by (simp add: dec_ok_def dec_env_of_def)
  have js: "dc_js (decoder_of sys) = es_js (sy_st sys)" "dc_m (decoder_of sys) = sy_m sys" by (simp_all add: decoder_of_def)
  have "stream_val (e_fpu (de_json (dec_env_of V))) (Obj kvs) t" "is_tree (Obj kvs)" using src(2) by (simp_all add: dec_env_of_def is_tree_def)
  from stream_document [OF V d src(1) this src(3,4)] obtain d1 d2 d3 T where
    D: "json_decode_init (decoder_of sys) (ve_sm V) = Some d1" "feed (dec_env_of V) d1 (ve_sm V) ss = Some (True, d2)"
      "json_decode_finish (dec_env_of V) d2 (ve_sm V) = Some (Some (ja T), d3)" "owns (dc_js d3) T (es_js (sy_st sys))" "jk T = p_null"
      "jabs (js_mem (dc_js d3)) T (Obj kvs)" "dom (dc_m d3) = dom (sy_m sys)" unfolding js by blast
  have T: "T = JT (ja T) p_null LObj (jc T)" using D(5,6) by (cases T) (auto split: leaf.splits)
  let ?st = "(sy_st sys)\<lparr>es_js := dc_js d3\<rparr>"
  have o: "obj_at (es_js ?st) (ja T) (jc T) kvs (es_js (sy_st sys))" unfolding obj_at_def T [symmetric] using D(4,6) by simp
  have "jrep (dc_js d3) None None None T" using D(4) by (simp add: owns_def)
  from jabs_nodes [OF this D(6)] have n: "2 * length (jaddrs (JT (ja T) p_null LObj (jc T))) \<le> fuel" unfolding T [symmetric] using fuel by simp
  have "st_fin (dc_js d3)" using owns_st_fin [OF D(4)] d js by (simp add: decoder_ready_def)
  then have fin: "finite (dom (js_mem (es_js ?st)))" by (simp add: st_fin_def)
  have r: "sign_ready (ve_keys V) (ve_frame V) (es_sign ?st) api sec" "is_list (es_next ?st) (es_queue ?st) xs" "ve_alloc V ?st = Some el" "el \<notin> dom (es_next ?st)"
    using ready q(1) al by simp_all
  from finish_event_authentic [OF E r(1) o fin lits msg ps tx ty r(2-4) n] obtain st' where
    F: "finish_event fuel V ?st (Some (ja T)) = Some (if ?A then 0 else -1, st')" "sign_ready (ve_keys V) (ve_frame V) (es_sign st') api sec"
      "if ?A then is_list (es_next st') (es_queue st') (xs @ [el]) \<and>
         (\<exists>e D. es_events st' = (es_events ?st)(el \<mapsto> e) \<and> event_at (es_js st') (ev_base e) hid name enc D ps (es_js (sy_st sys)) \<and> ev_device_hid e = p_null)
       else st' = ?st\<lparr>es_js := es_js (sy_st sys), es_sign := es_sign st'\<rparr>" by blast
  have "process_parts fuel V (put_decoder sys d1) ss = Some (put_decoder sys d2)" using process_parts_feed [of V "put_decoder sys d1" ss d2 fuel] D(2) by simp
  moreover have "process_event_finish fuel V (put_decoder sys d2) = Some (if ?A then 0 else -1, \<lparr>sy_st = st', sy_m = dc_m d3, sy_next = dc_next d3\<rparr>)"
    using D(3) F(1) by (simp add: process_event_finish_def)
  ultimately have "deliver_event fuel V sys ss = Some (if ?A then 0 else -1, \<lparr>sy_st = st', sy_m = dc_m d3, sy_next = dc_next d3\<rparr>)"
    using process_event_init_room [OF q D(1)] by (simp add: deliver_event_def)
  then show ?thesis using F(2,3) D(7) by (intro exI [of _ "\<lparr>sy_st = st', sy_m = dc_m d3, sy_next = dc_next d3\<rparr>"]) (auto split: if_splits)
qed

text \<open>A message in two parts whose signature is not the right one.\<close>

definition msg_members :: "(bytes \<times> int json) list" where
  "msg_members = [(lit ''hid'', Str [104]), (lit ''name'', Str [110]), (lit ''encrypted'', Bool True), (lit ''parameters'', Obj [([98], Bool True)]),
     (lit ''signatureVersion'', Str [49]), (lit ''signature'', Str [120])]"

definition msg_field :: "bytes \<Rightarrow> bytes \<Rightarrow> bytes" where
  "msg_field k t = 34 # k @ 34 # 58 # t"

definition msg_text :: bytes where
  "msg_text = 123 # (msg_field (lit ''hid'') [34, 104, 34] @ 44 # msg_field (lit ''name'') [34, 110, 34] @ 44 # msg_field (lit ''encrypted'') lit_true @
     44 # msg_field (lit ''parameters'') (123 # msg_field [98] lit_true @ [125]) @ 44 # msg_field (lit ''signatureVersion'') [34, 49, 34] @
     44 # msg_field (lit ''signature'') [34, 120, 34]) @ [125]"

definition msg_sys :: "int ev_sys" where
  "msg_sys = \<lparr>sy_st = \<lparr>es_js = \<lparr>nodes = Map.empty, js_mem = msg_lits\<rparr>, es_sign = sign_example, es_events = Map.empty, es_next = Map.empty, es_queue = None\<rparr>,
     sy_m = [0 \<mapsto> machine_init], sy_next = [0 \<mapsto> None]\<rparr>"

lemma msg_field_last: "0 \<notin> set k \<Longrightarrow> 34 \<notin> set k \<Longrightarrow> stream_val F v t \<Longrightarrow> stream_members F [(k, v)] (msg_field k t)"
  using mt_one [of "[]" k "[]" "[]" F v t "[]"] by (simp add: blanks_def msg_field_def)

lemma msg_field_more: "0 \<notin> set k \<Longrightarrow> 34 \<notin> set k \<Longrightarrow> stream_val F v t \<Longrightarrow> stream_members F kvs t' \<Longrightarrow> stream_members F ((k, v) # kvs) (msg_field k t @ 44 # t')"
  using mt_more [of "[]" k "[]" "[]" F v t "[]" kvs t'] by (simp add: blanks_def msg_field_def)

lemma msg_text_value: "stream_val F (Obj msg_members) msg_text"
proof -
  have s: "stream_val F (Str [c]) [34, c, 34]" if "c \<notin> {0, 34, 92}" for c
    using vt_str [OF st_plain [OF that st_Nil], of F] by simp
  have p: "stream_val F (Obj [([98], Bool True)]) (123 # msg_field [98] lit_true @ [125])"
    by (intro vt_obj msg_field_last vt_true) simp_all
  show ?thesis unfolding msg_text_def msg_members_def
    by (intro vt_obj msg_field_more msg_field_last vt_true p s) (simp_all add: lit_def)
qed

lemma msg_env_ok: "dec_ok (dec_env_of msg_env)"
  unfolding dec_env_of_def using dec_ok_least [OF int_env_ok] by (simp add: msg_env_def)

lemma msg_sys_ready: "decoder_ready (decoder_of msg_sys) (ve_sm msg_env)"
  by (simp add: decoder_ready_def decoder_of_def msg_sys_def msg_env_def st_fin_def msg_lits_def finite_dom_map_of)

lemma msg_room: "is_list (es_next (sy_st msg_sys)) (es_queue (sy_st msg_sys)) []" "room msg_env []"
  by (simp_all add: msg_sys_def room_def msg_env_def)

theorem deliver_event_authentic_witness:
  "\<exists>sys. deliver_event 16 msg_env msg_sys [take 10 msg_text, drop 10 msg_text] = Some (-1, sys) \<and> sy_st sys = (sy_st msg_sys)\<lparr>es_sign := es_sign (sy_st sys)\<rparr>"
proof -
  let ?ps = "[([98], Bool True)] :: (bytes \<times> int json) list" and ?A = "authentic (\<lambda>d. [48]) [97] [115] [104] [110] True [([98], Bool True)] msg_members"
  have env: "ve_json msg_env = int_env" "ve_keys msg_env = sign_example_env" "ve_frame msg_env = sign_example_frame" "ve_fmt_f msg_env = (\<lambda>d. [48])"
    "ve_lit msg_env = msg_lit" by (simp_all add: msg_env_def)
  have ready: "sign_ready (ve_keys msg_env) (ve_frame msg_env) (es_sign (sy_st msg_sys)) [97] [115]" using sign_example_ready by (simp add: env msg_sys_def)
  have lits: "lits_at msg_env (js_mem (es_js (sy_st msg_sys)))"
    by (simp add: lits_at_def env event_names_def msg_lit_def msg_lits_def msg_names_def upt_rec str_at_def cstr_def lit_def msg_sys_def)
  have m: "message msg_members [104] [110] True ?ps" "text_member msg_members (lit ''signatureVersion'')" "text_member msg_members (lit ''signature'')"
    by (simp_all add: message_def text_member_def msg_members_def lit_def)
  have p: "signable (ve_fmt_f msg_env) ?ps" "c_text [104]" "c_text [110]"
    by (simp_all add: signable_def env MAX_PARAM_LINE_def canonical_text_def prm_line_def lower_def prm_true_def c_text_def)
  have b: "blanks []" "concat [take 10 msg_text, drop 10 msg_text] = [] @ msg_text @ []" by (simp_all add: blanks_def)
  have al: "ve_alloc msg_env ((sy_st msg_sys)\<lparr>es_js := js\<rparr>) = Some 0" "0 \<notin> dom (es_next (sy_st msg_sys))" "2 * jnodes (Obj msg_members) \<le> 16" for js
    by (simp_all add: msg_env_def msg_sys_def msg_members_def)
  have "length (event_sig (\<lambda>d. [48]) [97] [115] [104] [110] True ?ps) = 64" by (simp add: event_sig_def signature_ref_def)
  then have "event_sig (\<lambda>d. [48]) [97] [115] [104] [110] True ?ps \<noteq> [120]" by (metis One_nat_def length_Cons list.size(3) numeral_eq_one_iff semiring_norm(85))
  then have "\<not> ?A" by (auto simp: authentic_def msg_members_def lit_def)
  with deliver_event_authentic [OF msg_env_ok ready msg_sys_ready lits b(1) msg_text_value b(1,2) m(1) p m(2,3) msg_room al] show ?thesis unfolding env(4) by auto
qed



end
