(* ===== verification/Timestamp.thy ===== *)
theory Timestamp
  imports Text_Util "HOL-Library.List_Lexorder"
begin

text \<open>
  Points in time: \<open>src/time/time.c\<close> and \<open>timestamp_parse\<close> of \<open>src/arrow/api/json/parse.c\<close>. The structure has bit fields; on a little-endian machine
  the first 32 bits hold the time of the day and the second 32 bits the date, each with the first field in the lowest bits.
\<close>

section \<open>Data\<close>

record timestamp_t =
  ts_dummy :: "5 word"
  ts_msec :: "10 word"
  ts_sec :: "6 word"
  ts_min :: "6 word"
  ts_hour :: "5 word"
  ts_day :: "5 word"
  ts_mon :: "4 word"
  ts_year :: "23 word"

definition ts_zero :: timestamp_t where
  "ts_zero = \<lparr>ts_dummy = 0, ts_msec = 0, ts_sec = 0, ts_min = 0, ts_hour = 0, ts_day = 0, ts_mon = 0, ts_year = 0\<rparr>"

text \<open>The two words of the structure.\<close>

definition time_value :: "timestamp_t \<Rightarrow> nat" where
  "time_value t = unat (ts_dummy t) + 2 ^ 5 * unat (ts_msec t) + 2 ^ 15 * unat (ts_sec t) + 2 ^ 21 * unat (ts_min t) + 2 ^ 27 * unat (ts_hour t)"

definition date_value :: "timestamp_t \<Rightarrow> nat" where
  "date_value t = unat (ts_day t) + 2 ^ 5 * unat (ts_mon t) + 2 ^ 9 * unat (ts_year t)"

definition ts_data :: "timestamp_t \<Rightarrow> 32 word \<times> 32 word" where
  "ts_data t = (word_of_nat (time_value t), word_of_nat (date_value t))"

section \<open>Operations\<close>

definition timestamp_less :: "timestamp_t \<Rightarrow> timestamp_t \<Rightarrow> int" where
  "timestamp_less t1 t2 =
     (case (ts_data t1, ts_data t2) of ((data1, time1), (data2, time2)) \<Rightarrow>
        if data1 < data2 then 1
        else if data1 = data2 then (if time1 < time2 then 1 else 0)
        else 0)"

definition timestamp_is_empty :: "timestamp_t \<Rightarrow> int" where
  "timestamp_is_empty t = (case ts_data t of (a, b) \<Rightarrow> if a \<noteq> 0 then 0 else if b \<noteq> 0 then 0 else 1)"

text \<open>The text of the format \<open>%04d-%02d-%02dT%02d:%02d:%02d.%03dZ\<close>; \<open>snprintf\<close> keeps 24 characters of it.\<close>

definition timestamp_text :: "timestamp_t \<Rightarrow> bytes" where
  "timestamp_text t = pad_zero 4 (dec_digits (unat (ts_year t))) @ [45] @ pad_zero 2 (dec_digits (unat (ts_mon t))) @ [45] @
     pad_zero 2 (dec_digits (unat (ts_day t))) @ [84] @ pad_zero 2 (dec_digits (unat (ts_hour t))) @ [58] @
     pad_zero 2 (dec_digits (unat (ts_min t))) @ [58] @ pad_zero 2 (dec_digits (unat (ts_sec t))) @ [46] @
     pad_zero 3 (dec_digits (unat (ts_msec t))) @ [90]"

definition timestamp_string :: "timestamp_t \<Rightarrow> bytes \<Rightarrow> bytes option" where
  "timestamp_string ts s = map_option snd (c_snprintf s 0 25 (timestamp_text ts))"

text \<open>One field of a text: what is done with the number and the rest of the text, or the error. A number is cut to the width of its bit field.\<close>

definition parse_field :: "bytes \<Rightarrow> byte \<Rightarrow> timestamp_t \<Rightarrow> (bytes \<Rightarrow> int \<Rightarrow> (int \<times> timestamp_t) option) \<Rightarrow> (int \<times> timestamp_t) option" where
  "parse_field p stop t k = do {
     r \<leftarrow> copy_till_to_int p [stop];
     case r of None \<Rightarrow> Some (-1, t) | Some (tmp, n) \<Rightarrow> k (drop n p) tmp
   }"

definition timestamp_parse :: "timestamp_t \<Rightarrow> bytes \<Rightarrow> (int \<times> timestamp_t) option" where
  "timestamp_parse t s =
     parse_field s 45 t (\<lambda>p tmp. let t = t\<lparr>ts_year := word_of_int tmp\<rparr> in
     parse_field p 45 t (\<lambda>p tmp. let t = t\<lparr>ts_mon := word_of_int tmp\<rparr> in
     parse_field p 84 t (\<lambda>p tmp. let t = t\<lparr>ts_day := word_of_int tmp\<rparr> in
     parse_field p 58 t (\<lambda>p tmp. let t = t\<lparr>ts_hour := word_of_int tmp\<rparr> in
     parse_field p 58 t (\<lambda>p tmp. let t = t\<lparr>ts_min := word_of_int tmp\<rparr> in
     parse_field p 46 t (\<lambda>p tmp. let t = t\<lparr>ts_sec := word_of_int tmp\<rparr> in
     parse_field p 90 t (\<lambda>p tmp. Some (0, t\<lparr>ts_msec := word_of_int tmp\<rparr>))))))))"

section \<open>Text\<close>

lemma parse_field_reads:
  assumes n: "n < 10000000" "length (pad_zero w (dec_digits n)) < 8" and stop: "stop \<notin> {48..57}" "stop \<noteq> 0" and y: "0 \<in> set y"
  shows "parse_field (pad_zero w (dec_digits n) @ stop # y) stop t k = k y (int n)"
proof -
  let ?x = "pad_zero w (dec_digits n)"
  from split_list_first [OF y] obtain u rest where u: "y = u @ 0 # rest" "0 \<notin> set u" by blast
  have x: "stop \<notin> set ?x" "0 \<notin> set ?x" using pad_zero_chars [of _ w n] stop by fastforce+
  have "copy_till (?x @ (stop # []) @ u @ 0 # rest) (stop # []) (replicate 8 0) =
      Some (Some (?x @ 0 # drop (length ?x + 1) (replicate 8 0), length ?x + length [stop]))"
    using x n stop u by (intro copy_till_copies) auto
  moreover have "c_atoi ?x = Some (int n)" using n(1) by (intro atoi_digits) simp
  ultimately have "copy_till_to_int (?x @ stop # y) [stop] = Some (Some (int n, length ?x + 1))"
    using x(2) by (simp add: copy_till_to_int_def cstr_terminated u(1))
  then show ?thesis by (simp add: parse_field_def)
qed

lemma length_pad_zero: "n < 10 ^ w \<Longrightarrow> 0 < w \<Longrightarrow> length (pad_zero w (dec_digits n)) = w"
  using length_dec_digits [of n w] by (simp add: pad_zero_def)

lemma field_bounds:
  "unat (ts_dummy t) < 32" "unat (ts_msec t) < 1024" "unat (ts_sec t) < 64" "unat (ts_min t) < 64" "unat (ts_hour t) < 32" "unat (ts_day t) < 32" "unat (ts_mon t) < 16"
  "unat (ts_year t) < 8388608"
  using unsigned_less [of "ts_dummy t", where ?'a = nat] unsigned_less [of "ts_msec t", where ?'a = nat] unsigned_less [of "ts_sec t", where ?'a = nat]
    unsigned_less [of "ts_min t", where ?'a = nat] unsigned_less [of "ts_hour t", where ?'a = nat] unsigned_less [of "ts_day t", where ?'a = nat]
    unsigned_less [of "ts_mon t", where ?'a = nat] unsigned_less [of "ts_year t", where ?'a = nat] by simp_all

text \<open>A time with a year of at most four digits and a proper fraction of a second.\<close>

definition printable :: "timestamp_t \<Rightarrow> bool" where
  "printable t \<longleftrightarrow> unat (ts_year t) < 10000 \<and> unat (ts_msec t) < 1000"

lemma timestamp_text_widths:
  assumes "printable t"
  shows "length (pad_zero 4 (dec_digits (unat (ts_year t)))) = 4" "length (pad_zero 2 (dec_digits (unat (ts_mon t)))) = 2"
    "length (pad_zero 2 (dec_digits (unat (ts_day t)))) = 2" "length (pad_zero 2 (dec_digits (unat (ts_hour t)))) = 2"
    "length (pad_zero 2 (dec_digits (unat (ts_min t)))) = 2" "length (pad_zero 2 (dec_digits (unat (ts_sec t)))) = 2"
    "length (pad_zero 3 (dec_digits (unat (ts_msec t)))) = 3"
  using assms field_bounds [of t] by (simp_all add: length_pad_zero printable_def)

lemma timestamp_text_length: "printable t \<Longrightarrow> length (timestamp_text t) = 24"
  by (simp add: timestamp_text_def timestamp_text_widths)

lemma timestamp_string_writes:
  assumes "printable t" and "25 \<le> length s"
  shows "timestamp_string t s = Some (timestamp_text t @ 0 # drop 25 s)"
proof -
  have "mem_write s 0 (timestamp_text t @ [0]) = Some ((timestamp_text t @ [0]) @ drop 25 s)"
    using assms(2) timestamp_text_length [OF assms(1)] by (simp add: mem_write_def)
  then show ?thesis using timestamp_text_length [OF assms(1)] by (simp add: timestamp_string_def c_snprintf_def)
qed

lemma pad_zero_no_zero: "0 \<notin> set (pad_zero w (dec_digits n))"
  using pad_zero_chars [of 0 w n] by auto

lemma timestamp_text_no_zero: "0 \<notin> set (timestamp_text t)"
  by (simp add: timestamp_text_def pad_zero_no_zero)

text \<open>A time is read back: what \<open>timestamp_string\<close> prints, \<open>timestamp_parse\<close> reads as the same time, field by field.\<close>

theorem timestamp_roundtrip:
  assumes "printable t" and "25 \<le> length s"
  shows "\<exists>txt. timestamp_string t s = Some txt \<and> timestamp_parse t0 txt = Some (0, t\<lparr>ts_dummy := ts_dummy t0\<rparr>)"
proof -
  note w = timestamp_text_widths [OF assms(1)] and b = field_bounds [of t]
  have y: "unat (ts_year t) < 10000" using assms(1) by (simp add: printable_def)
  have "timestamp_parse t0 (timestamp_text t @ 0 # drop 25 s) = Some (0, t\<lparr>ts_dummy := ts_dummy t0\<rparr>)"
    unfolding timestamp_parse_def timestamp_text_def append_assoc append_Cons append_Nil
    using w b y by (simp add: parse_field_reads pad_zero_no_zero Let_def)
  then show ?thesis using timestamp_string_writes [OF assms] by blast
qed

theorem timestamp_roundtrip_witness:
  "\<exists>txt. timestamp_string (ts_zero\<lparr>ts_year := 2018, ts_mon := 5, ts_day := 21, ts_hour := 13, ts_min := 40, ts_sec := 32, ts_msec := 173\<rparr>) (replicate 25 0) = Some txt \<and>
    timestamp_parse ts_zero txt = Some (0, ts_zero\<lparr>ts_year := 2018, ts_mon := 5, ts_day := 21, ts_hour := 13, ts_min := 40, ts_sec := 32, ts_msec := 173\<rparr>)"
  using timestamp_roundtrip [of "ts_zero\<lparr>ts_year := 2018, ts_mon := 5, ts_day := 21, ts_hour := 13, ts_min := 40, ts_sec := 32, ts_msec := 173\<rparr>" "replicate 25 0" ts_zero]
  by (simp add: printable_def ts_zero_def)

section \<open>Order\<close>

text \<open>The fields in the order in which the comparison looks at them.\<close>

definition ts_key :: "timestamp_t \<Rightarrow> nat list" where
  "ts_key t = [unat (ts_hour t), unat (ts_min t), unat (ts_sec t), unat (ts_msec t), unat (ts_dummy t), unat (ts_year t), unat (ts_mon t), unat (ts_day t)]"

lemma mixed_radix:
  assumes "(x :: nat) < b" and "y < b"
  shows "x + b * a < y + b * c \<longleftrightarrow> a < c \<or> a = c \<and> x < y" and "x + b * a = y + b * c \<longleftrightarrow> a = c \<and> x = y"
proof -
  have d: "(x + b * a) div b = a" "(x + b * a) mod b = x" "(y + b * c) div b = c" "(y + b * c) mod b = y" using assms by simp_all
  show e: "x + b * a = y + b * c \<longleftrightarrow> a = c \<and> x = y" using d by metis
  have "a < c" if "x + b * a < y + b * c" "a \<noteq> c" using that d div_le_mono [of "x + b * a" "y + b * c" b] by simp
  moreover have "x + b * a < y + b * c" if "a < c"
  proof (rule ccontr)
    assume "\<not> x + b * a < y + b * c"
    then show False using that d div_le_mono [of "y + b * c" "x + b * a" b] by simp
  qed
  ultimately show "x + b * a < y + b * c \<longleftrightarrow> a < c \<or> a = c \<and> x < y" by (cases "a = c") auto
qed

lemma time_value_horner:
  "time_value t = unat (ts_dummy t) + 32 * (unat (ts_msec t) + 1024 * (unat (ts_sec t) + 64 * (unat (ts_min t) + 64 * unat (ts_hour t))))"
  "date_value t = unat (ts_day t) + 32 * (unat (ts_mon t) + 16 * unat (ts_year t))"
  by (simp_all add: time_value_def date_value_def)

lemma ts_values_bound: "time_value t < 2 ^ 32" "date_value t < 2 ^ 32"
  using field_bounds [of t] by (simp_all add: time_value_def date_value_def)

text \<open>C40. The order of \<open>timestamp_less\<close>: the comparison is lexicographic; it looks at the time of the day first and at the date only when the times of the day are equal.\<close>

theorem timestamp_less_order: "timestamp_less t1 t2 = (if ts_key t1 < ts_key t2 then 1 else 0)"
proof -
  have w: "(word_of_nat m :: 32 word) < word_of_nat n \<longleftrightarrow> m < n" "(word_of_nat m :: 32 word) = word_of_nat n \<longleftrightarrow> m = n" if "m < 2 ^ 32" "n < 2 ^ 32" for m n
    using that by (simp_all add: word_less_nat_alt unsigned_of_nat take_bit_nat_eq_self word_unat_eq_iff)
  have "timestamp_less t1 t2 = (if time_value t1 < time_value t2 \<or> time_value t1 = time_value t2 \<and> date_value t1 < date_value t2 then 1 else 0)"
    using w [OF ts_values_bound(1) ts_values_bound(1), of t1 t2] w [OF ts_values_bound(2) ts_values_bound(2), of t1 t2] by (auto simp: timestamp_less_def ts_data_def)
  also have "\<dots> = (if ts_key t1 < ts_key t2 then 1 else 0)"
    unfolding time_value_horner using field_bounds [of t1] field_bounds [of t2] by (auto simp: mixed_radix ts_key_def simp del: distrib_left_numeral)
  finally show ?thesis .
qed

text \<open>Eleven o'clock of one day is not earlier than ten o'clock of the next.\<close>

lemma later_day_not_newer:
  "timestamp_less (ts_zero\<lparr>ts_year := 2018, ts_mon := 5, ts_day := 21, ts_hour := 11\<rparr>) (ts_zero\<lparr>ts_year := 2018, ts_mon := 5, ts_day := 22, ts_hour := 10\<rparr>) = 0"
  by (simp add: timestamp_less_def ts_data_def time_value_def date_value_def ts_zero_def)

lemma timestamp_is_empty_zero: "timestamp_is_empty t = (if t = ts_zero then 1 else 0)"
proof -
  have "timestamp_is_empty t = (if time_value t = 0 \<and> date_value t = 0 then 1 else 0)"
    using ts_values_bound [of t] by (simp add: timestamp_is_empty_def ts_data_def word_unat_eq_iff unsigned_of_nat take_bit_nat_eq_self)
  also have "time_value t = 0 \<and> date_value t = 0 \<longleftrightarrow> t = ts_zero"
    by (cases t) (auto simp: time_value_def date_value_def ts_zero_def unat_eq_0)
  finally show ?thesis .
qed

end
