(* ===== verification/Spec2Isabelle.thy ===== *)
theory Spec2Isabelle
  imports Ring_Buffer Mqtt_Connect Mqtt_Publish Mqtt_Subscribe Mqtt_Read
    Linked_List Dl_List Static_Buf Property Prop_Map Json_Roundtrip Mqtt_Safe Http_Url Http_Exchange Event_Stream Timestamp
begin

text \<open>
  A verification development of the C sources of the Arrow Connect SDK, a client of an IoT service: a gateway registers over HTTP, signs its
  requests with HMAC-SHA-256, receives events as JSON messages over MQTT and hands them to processors. The paths below are relative to the
  directory \<open>src\<close> of the repository.

  \<^bold>\<open>How C is modelled.\<close> A C object of bytes is the list of its bytes, a pointer into it an offset; an object on the heap is an entry of a map from addresses,
  and structures with links (list nodes, JSON nodes, machines of the decoder) are maps from addresses to records. Every access that C
  leaves undefined (outside of an object, to freed memory, a second \<open>free\<close>, a missing terminator, a null pointer) is \<^term>\<open>None\<close>. That an
  operation is memory safe and returns is therefore one statement: its result is \<open>Some\<close>. Error codes are the values of the result.
  Machine integers are words, or integers with the conversion written out where it matters. A loop whose end is not structural is a
  \<open>partial_function (option)\<close>, where not returning is \<^term>\<open>None\<close> too; the theorems that promise a result prove \<open>Some\<close>.

  \<^bold>\<open>Parts and theories\<close>, in the order in which they build on each other:

  \<^item> \<open>C_Base\<close>, \<open>C_Heap\<close>: the prelude (bytes, strings, words, reads and writes with bounds) and the allocator of the C library.
  \<^item> \<open>Ring_Buffer\<close> (\<open>data/ringbuffer.c\<close>), \<open>Linked_List\<close> (\<open>data/linkedlist.c\<close>), \<open>Dl_List\<close> (\<open>data/dllist.c\<close>), \<open>Static_Buf\<close>
    (\<open>data/static_buf.c\<close> and the pools of \<open>static_alloc.h\<close>), \<open>Property\<close> (\<open>data/property*.c\<close>), \<open>Prop_Map\<close> (\<open>data/propmap.c\<close>,
    \<open>data/find_by.c\<close>): the containers. Each has an abstraction to a list or a partial function and lemmas that every operation refines
    the operation on it.
  \<^item> \<open>Mqtt_Packet\<close>, \<open>Mqtt_Read\<close>, \<open>Mqtt_Connect\<close>, \<open>Mqtt_Publish\<close>, \<open>Mqtt_Subscribe\<close> (\<open>mqtt/packet/src\<close>): the wire format. Round trips between the
    serialisers and the deserialisers, bounds of every reader on hostile input, and the invariant and the progress of the reader that
    does not block.
  \<^item> \<open>Mqtt_Net\<close>, \<open>Mqtt_Client\<close> (\<open>mqtt/client\<close>): timers, network, client structure, receive cycle. \<open>Mqtt_Topic\<close> gives the meaning of topic
    filters, \<open>Mqtt_Session\<close> the invariant over all operations as a step relation with reachable states, \<open>Mqtt_Exchange\<close> what is written to
    the broker, \<open>Mqtt_Safe\<close> the termination and the memory safety of the receive cycle.
  \<^item> \<open>Json_Sb\<close> (\<open>json/sb.c\<close>), \<open>Json_Utf8\<close>, \<open>Json_Node\<close>, \<open>Json_Parse\<close>, \<open>Json_Emit\<close> (\<open>json/json.c\<close>), \<open>Json_Decode\<close> (\<open>json/decode.c\<close>): the JSON library.
    \<open>Json_Tree\<close> says what the linked nodes represent (\<open>jrep\<close>, \<open>jabs\<close>) and which memory a tree owns (\<open>owns\<close>); \<open>Json_Grammar\<close> proves the parser
    against an inductive grammar, \<open>Json_Print\<close> the printer against the text of a value, \<open>Json_Roundtrip\<close> that they are inverse, and
    \<open>Json_Stream\<close> that the decoder that is fed in parts simulates an automaton with a stack and reads the texts of a second, smaller grammar.
  \<^item> \<open>Text_Util\<close> (\<open>arrow/utf8.c\<close>), \<open>Http_Request\<close>, \<open>Http_Url\<close> (\<open>http/request.c\<close>, \<open>http/response.c\<close>), \<open>Http_Client\<close> (\<open>http/client.c\<close>): the HTTP
    client. \<open>Http_Send\<close> shows the text of a request, \<open>Http_Receive\<close> how a response is read, \<open>Http_Exchange\<close> composes the two.
  \<^item> \<open>Sha256\<close>, \<open>Sha_Empty\<close>, \<open>Hmac\<close> (\<open>wolfSSL/wolfcrypt/src/sha256.c\<close>, \<open>misc.c\<close>, \<open>hmac.c\<close>, \<open>ssl/crypt.c\<close>): the hash functions, against the definition of
    FIPS 180-4 and RFC 2104 on whole messages.
  \<^item> \<open>Canon_Sort\<close>, \<open>Canonical\<close>, \<open>Sign\<close> (\<open>arrow/gateway_payload_sign.c\<close>, \<open>arrow/sign.c\<close>): the canonical parameters and the signatures of requests and events.
  \<^item> \<open>Events\<close> (\<open>arrow/events.c\<close>), with \<open>Event_Auth\<close> and \<open>Event_Stream\<close>: from the parts of a message to the queue and from the queue to the processor.
  \<^item> \<open>Timestamp\<close> (\<open>time/time.c\<close>, \<open>timestamp_parse\<close> of \<open>arrow/api/json/parse.c\<close>): points in time as two packed words, their order and their text, which is read back.

  \<^bold>\<open>Interfaces\<close> are locales, interpreted on the definitions of the model: \<open>byte_fifo\<close> (\<open>ring\<close>, a queue of bytes), \<open>node_sequence\<close> (\<open>ll\<close>, a linked list, used
  by the property map and the queue of events), \<open>incremental_hash\<close> (\<open>sha\<close> and \<open>hm\<close>, a hash of a text in pieces), \<open>stepwise\<close> (\<open>dec\<close>, a
  reader of bytes that simulates an automaton, whatever the pieces).

  \<^bold>\<open>What is a parameter\<close>: the addresses that the allocators return, the clock, the sockets and TLS (\<open>http_net\<close>, \<open>sockets\<close>), the transport
  callback, floating-point conversion, \<open>snprintf\<close> of a number, the handlers of messages and the processors of events, and the function of the
  target that restores the keys. What the theorems assume of them is named: \<open>libc_ok\<close> (a new block is new), \<open>libc_total\<close>, \<open>env_ok\<close>, \<open>dec_ok\<close>
  (allocation succeeds), \<open>stream_ok\<close>, \<open>send_ok\<close>, \<open>recv_ok\<close> (sockets deliver and transmit what they say), \<open>sink_ok\<close> (the payload handler accepts),
  \<open>sign_ready\<close> (the keys are there). Each property with hypotheses is followed by a theorem that applies it to a concrete instance.

  \<^bold>\<open>Fuel\<close>: \<open>json_delete\<close> and the other walks over linked nodes have a fuel argument, since the links of a broken tree may be cyclic; twice the number of nodes
  (\<open>jnodes\<close>) is enough for a well-linked tree, which is proved, and running out of it is \<^term>\<open>None\<close>. The recursive parser
  counts the depth of the recursion; \<open>parse_fuel\<close>, which is computed from the length of the text, is enough for every text.

  \<^bold>\<open>Not modelled\<close>: the vendored TLS library apart from SHA-256 and HMAC; debug output; the ports to particular platforms and the weak hooks, which
  only call the platform; \<open>json/encode.c\<close>; the carrier of HTTP in MQTT messages and the queue of its responses
  (\<open>http/client_mqtt.c\<close>, \<open>http/routine.c\<close>, \<open>process_http\<close> in \<open>arrow/events.c\<close>); the functions in \<open>arrow\<close> that build the URLs and bodies of the
  service's endpoints over the modelled libraries, and the top-level routines with their retries and delays; \<open>build_time\<close>, which rests on \<open>strptime\<close>. Of the
  configurations, the one without \<open>STATIC_*\<close> and \<open>ARROW_THREAD\<close> is modelled; \<open>Canonical\<close> has both variants of the canonical string and proves that they agree.
\<close>

end
